(* ===== verification/Mlx_Prelude.thy ===== *)
theory Mlx_Prelude
  imports Main "HOL-Library.Word" "HOL-Library.Monad_Syntax"
begin

unbundle bit_operations_syntax

text \<open>
  Shared vocabulary of the development: the machine types of the C sources, the error
  numbers the modelled functions return, bounds-checked array accesses (an access outside an
  array is the value \<open>None\<close>, never an unspecified element), wrap-around arithmetic on unsigned
  32-bit counters, and the notion of a reachable state with its invariant rule.

  Conventions.
  \<^item> A C function that returns 0 or a negative error number and writes its results through
    pointers returns \<open>errno + 'a\<close>: \<open>Inl e\<close> is \<open>return -e\<close>, \<open>Inr v\<close> is \<open>return 0\<close> with the results \<open>v\<close>.
  \<^item> A function that indexes arrays returns an \<open>option\<close> whose \<open>None\<close> means that the C code would
    have left the bounds of an array (undefined behaviour). That it never happens is a theorem.
  \<^item> The kernel's allocator and the firmware behind \<open>mlx5_cmd_exec\<close> are arguments of the
    definitions that call them.
\<close>

section \<open>Machine types and error numbers\<close>

type_synonym u8 = "8 word"
type_synonym u16 = "16 word"
type_synonym u32 = "32 word"
type_synonym u64 = "64 word"

datatype errno =
    ENOENT
  | ENOMEM
  | EINVAL
  | ENOSPC
  | EOPNOTSUPP
  | EFW int  \<comment> \<open>any other status, handed through from a callee outside the model\<close>

type_synonym 'a result = "errno + 'a"

abbreviation (input) is_err :: "'a result \<Rightarrow> bool" where
  "is_err r \<equiv> \<exists>e. r = Inl e"

section \<open>Bounds-checked array accesses\<close>

definition nth_opt :: "'a list \<Rightarrow> nat \<Rightarrow> 'a option" where
  "nth_opt xs i = (if i < length xs then Some (xs ! i) else None)"

definition upd_opt :: "'a list \<Rightarrow> nat \<Rightarrow> 'a \<Rightarrow> 'a list option" where
  "upd_opt xs i v = (if i < length xs then Some (xs[i := v]) else None)"

named_theorems array_simps \<open>accesses inside the bounds of an array\<close>

lemma nth_opt_Some [array_simps]: "i < length xs \<Longrightarrow> nth_opt xs i = Some (xs ! i)"
  by (simp add: nth_opt_def)

lemma upd_opt_Some [array_simps]: "i < length xs \<Longrightarrow> upd_opt xs i v = Some (xs[i := v])"
  by (simp add: upd_opt_def)

lemma nth_opt_eq_Some_iff: "nth_opt xs i = Some v \<longleftrightarrow> i < length xs \<and> xs ! i = v"
  by (auto simp: nth_opt_def)

lemma upd_opt_eq_Some_iff: "upd_opt xs i v = Some ys \<longleftrightarrow> i < length xs \<and> ys = xs[i := v]"
  by (auto simp: upd_opt_def)

section \<open>Big-endian bytes\<close>

text \<open>The bytes of a number in network order.\<close>

definition be_bytes :: "nat \<Rightarrow> 'a::len word \<Rightarrow> u8 list" where
  "be_bytes n w = map (\<lambda>i. ucast (drop_bit (8 * (n - 1 - i)) w)) [0..<n]"

lemma length_be_bytes [simp]: "length (be_bytes n w) = n"
  by (simp add: be_bytes_def)

section \<open>Unsigned 32-bit counters\<close>

text \<open>The increment and decrement of an \<open>unsigned int\<close>, with their wrap-around.\<close>

definition u32_inc :: "nat \<Rightarrow> nat" where
  "u32_inc n = (n + 1) mod 2 ^ 32"

definition u32_dec :: "nat \<Rightarrow> nat" where
  "u32_dec n = (n + (2 ^ 32 - 1)) mod 2 ^ 32"

definition u32_shl :: "nat \<Rightarrow> nat \<Rightarrow> nat" where
  "u32_shl n k = (n * 2 ^ k) mod 2 ^ 32"

named_theorems u32_simps \<open>counter arithmetic that does not wrap\<close>

lemma u32_inc_exact [u32_simps]: "n < 2 ^ 32 - 1 \<Longrightarrow> u32_inc n = n + 1"
  by (simp add: u32_inc_def)

lemma u32_dec_exact [u32_simps]:
  assumes "0 < n" "n < 2 ^ 32"
  shows "u32_dec n = n - 1"
proof -
  have "n + (2 ^ 32 - 1) = (n - 1) + 2 ^ 32" using assms(1) by simp
  then have "u32_dec n = (n - 1) mod 2 ^ 32" by (simp only: u32_dec_def mod_add_self2)
  with assms(2) show ?thesis by simp
qed

lemma u32_shl_exact [u32_simps]: "n * 2 ^ k < 2 ^ 32 \<Longrightarrow> u32_shl n k = n * 2 ^ k"
  by (simp add: u32_shl_def)

section \<open>Lists\<close>

lemma count_list_update:
  assumes "i < length xs" "xs ! i \<noteq> x"
  shows "count_list (xs[i := x]) x = Suc (count_list xs x)"
  using assms by (induction xs arbitrary: i) (auto split: nat.splits)

lemma count_list_update_other:
  assumes "i < length xs" "xs ! i = x" "y \<noteq> x"
  shows "count_list (xs[i := y]) x = count_list xs x - 1"
  using assms
proof (induction xs arbitrary: i)
  case (Cons a xs)
  show ?case
  proof (cases i)
    case (Suc j)
    with Cons.prems have j: "j < length xs" "xs ! j = x" by auto
    then have "0 < count_list xs x" by (metis count_list_0_iff gr0I nth_mem)
    with Cons.IH [OF j Cons.prems(3)] Suc show ?thesis by auto
  qed (use Cons.prems in auto)
qed simp

lemma count_list_pos: "i < length xs \<Longrightarrow> xs ! i = x \<Longrightarrow> 0 < count_list xs x"
  by (metis count_list_0_iff gr0I nth_mem)

text \<open>The position of the first element of a list that satisfies a predicate.\<close>

fun first_ix :: "('a \<Rightarrow> bool) \<Rightarrow> 'a list \<Rightarrow> nat option" where
  "first_ix P [] = None"
| "first_ix P (x # xs) = (if P x then Some 0 else map_option Suc (first_ix P xs))"

lemma first_ix_None_iff: "first_ix P xs = None \<longleftrightarrow> (\<forall>x\<in>set xs. \<not> P x)"
  by (induction xs) auto

lemma first_ix_Some_iff:
  "first_ix P xs = Some i \<longleftrightarrow> i < length xs \<and> P (xs ! i) \<and> (\<forall>j<i. \<not> P (xs ! j))"
proof (induction xs arbitrary: i)
  case (Cons x xs)
  then show ?case by (cases i) (auto simp: All_less_Suc2)
qed simp

lemma sum_list_map_update:
  fixes f :: "'a \<Rightarrow> nat"
  assumes "i < length xs"
  shows "sum_list (map f (xs[i := x])) + f (xs ! i) = sum_list (map f xs) + f x"
  using assms by (induction xs arbitrary: i) (auto split: nat.splits simp: add_ac)

lemma sum_list_map_0_iff:
  fixes f :: "'a \<Rightarrow> nat"
  shows "sum_list (map f xs) = 0 \<longleftrightarrow> (\<forall>x\<in>set xs. f x = 0)"
  by (induction xs) auto

text \<open>The newest command with a given key in a log of commands and answers, the newest first.\<close>

definition last_for :: "('c \<Rightarrow> 'k) \<Rightarrow> ('c \<times> 'r) list \<Rightarrow> 'k \<Rightarrow> ('c \<times> 'r) option" where
  "last_for key log k = find (\<lambda>(cmd, _). key cmd = k) log"

lemma last_for_simps [simp]:
  "last_for key [] k = None"
  "last_for key ((cmd, err) # log) k = (if key cmd = k then Some (cmd, err) else last_for key log k)"
  by (simp_all add: last_for_def)

section \<open>Reachable states\<close>

text \<open>
  The states a component can get to, from an initial-state predicate and a step relation, and
  the rule that an inductive invariant holds in all of them.
\<close>

inductive reach :: "('s \<Rightarrow> bool) \<Rightarrow> ('s \<Rightarrow> 's \<Rightarrow> bool) \<Rightarrow> 's \<Rightarrow> bool"
  for init :: "'s \<Rightarrow> bool" and step :: "'s \<Rightarrow> 's \<Rightarrow> bool" where
  reach_init: "init s \<Longrightarrow> reach init step s"
| reach_step: "reach init step s \<Longrightarrow> step s t \<Longrightarrow> reach init step t"

locale invariant_system =
  fixes init :: "'s \<Rightarrow> bool"
    and step :: "'s \<Rightarrow> 's \<Rightarrow> bool"
    and invar :: "'s \<Rightarrow> bool"
  assumes init_invar: "init s \<Longrightarrow> invar s"
    and step_invar: "invar s \<Longrightarrow> step s t \<Longrightarrow> invar t"
begin

lemma reach_invar: "reach init step s \<Longrightarrow> invar s"
  by (induction rule: reach.induct) (auto intro: init_invar step_invar)

end

end
