(* ===== verification/Dr_Buddy.thy ===== *)
theory Dr_Buddy
  imports Mlx_Prelude
begin

text \<open>
  The buddy allocator of the software steering engine,
  \<open>drivers/net/ethernet/mellanox/mlx5/core/steering/dr_buddy.c\<close>. It hands out segments of the
  ICM memory of a steering pool: for every order \<open>o\<close> up to \<open>max_order\<close> a bitmap holds one bit
  per aligned block of \<open>2 ^ o\<close> units, set while the block is free, and \<open>num_free\<close> counts those bits.

  The lemmas show: the invariant (the bitmaps have their allocated sizes, the counters count,
  free blocks are disjoint, no two buddies are both free) is established by the initialisation
  and kept by allocation and release; allocation takes an aligned range out of the free units
  or fails exactly when no block is large enough; release gives the range back and merges
  completely; neither touches memory outside its arrays.
\<close>

section \<open>Bitmaps\<close>

text \<open>
  A kernel bitmap of \<open>nbits\<close> bits is an array of 64-bit \<open>long\<close>s, so \<open>bitmap_zalloc\<close> really
  provides \<open>nbits\<close> rounded up to a multiple of 64 bits. \<open>test_bit\<close> may legally look at the
  padding, which stays zero; the model keeps it.
\<close>

type_synonym bits = "bool list"

definition bitmap_zalloc :: "nat \<Rightarrow> bits" where
  "bitmap_zalloc nbits = replicate (64 * ((nbits + 63) div 64)) False"

definition find_first_bit :: "bits \<Rightarrow> nat \<Rightarrow> nat" where
  "find_first_bit bs m = length (takeWhile Not (take m bs))"

section \<open>The allocator\<close>

record mlx5dr_icm_buddy_mem =
  bitmap :: "bits list"
  num_free :: "nat list"
  max_order :: nat

text \<open>
  \<open>mlx5dr_buddy_init\<close>: \<open>arrays_ok\<close> says whether both \<open>kcalloc\<close> calls succeed, \<open>bitmap_ok i\<close>
  whether the bitmap of order \<open>i\<close> can be allocated.
\<close>

definition mlx5dr_buddy_init ::
  "bool \<Rightarrow> (nat \<Rightarrow> bool) \<Rightarrow> nat \<Rightarrow> mlx5dr_icm_buddy_mem result" where
  "mlx5dr_buddy_init arrays_ok bitmap_ok mo =
     (if \<not> arrays_ok then Inl ENOMEM
      else if \<not> list_all bitmap_ok [0..<Suc mo] then Inl ENOMEM
      else Inr \<lparr> bitmap = (map (\<lambda>i. bitmap_zalloc (2 ^ (mo - i))) [0..<Suc mo])
                           [mo := (bitmap_zalloc 1)[0 := True]],
                 num_free = (replicate (Suc mo) 0)[mo := 1],
                 max_order = mo \<rparr>)"

text \<open>Bit and counter updates, bounds-checked in both dimensions.\<close>

definition bitmap_read :: "mlx5dr_icm_buddy_mem \<Rightarrow> nat \<Rightarrow> nat \<Rightarrow> bool option" where
  "bitmap_read B ord i = do { row \<leftarrow> nth_opt (bitmap B) ord; nth_opt row i }"

definition bitmap_write ::
  "mlx5dr_icm_buddy_mem \<Rightarrow> nat \<Rightarrow> nat \<Rightarrow> bool \<Rightarrow> mlx5dr_icm_buddy_mem option" where
  "bitmap_write B ord i v = do {
     row \<leftarrow> nth_opt (bitmap B) ord;
     row' \<leftarrow> upd_opt row i v;
     Some (B\<lparr>bitmap := (bitmap B)[ord := row']\<rparr>) }"

definition num_free_write ::
  "mlx5dr_icm_buddy_mem \<Rightarrow> nat \<Rightarrow> (nat \<Rightarrow> nat) \<Rightarrow> mlx5dr_icm_buddy_mem option" where
  "num_free_write B ord f = do {
     n \<leftarrow> nth_opt (num_free B) ord;
     Some (B\<lparr>num_free := (num_free B)[ord := f n]\<rparr>) }"

text \<open>
  \<open>dr_buddy_find_free_seg\<close>: the loop over \<open>order_iter\<close>, from the requested order upwards. The
  inner \<open>Inl\<close> with a counter but no bit is the code's \<open>WARN\<close> branch.
\<close>

function dr_buddy_find_free_seg ::
  "mlx5dr_icm_buddy_mem \<Rightarrow> nat \<Rightarrow> (nat \<times> nat) result option" where
  "dr_buddy_find_free_seg B order_iter =
     (if order_iter \<le> max_order B
      then do {
        n \<leftarrow> nth_opt (num_free B) order_iter;
        if n = 0 then dr_buddy_find_free_seg B (Suc order_iter)
        else do {
          row \<leftarrow> nth_opt (bitmap B) order_iter;
          let m = 2 ^ (max_order B - order_iter);
          let seg = find_first_bit row m;
          Some (if m \<le> seg then Inl ENOMEM else Inr (seg, order_iter)) } }
      else Some (Inl ENOMEM))"
  by pat_completeness auto
termination
  by (relation "measure (\<lambda>(B, ord). Suc (max_order B) - ord)") auto

declare dr_buddy_find_free_seg.simps [simp del]

text \<open>The splitting loop of \<open>mlx5dr_buddy_alloc_mem\<close>, counting \<open>order_iter\<close> down to \<open>order\<close>.\<close>

function buddy_split ::
  "mlx5dr_icm_buddy_mem \<Rightarrow> nat \<Rightarrow> nat \<Rightarrow> nat \<Rightarrow> (mlx5dr_icm_buddy_mem \<times> nat) option" where
  "buddy_split B ord order_iter seg =
     (if order_iter > ord
      then do {
        let order_iter' = order_iter - 1;
        let seg' = u32_shl seg 1;
        B1 \<leftarrow> bitmap_write B order_iter' (seg' XOR 1) True;
        B2 \<leftarrow> num_free_write B1 order_iter' u32_inc;
        buddy_split B2 ord order_iter' seg' }
      else Some (B, seg))"
  by pat_completeness auto
termination
  by (relation "measure (\<lambda>(B, ord, oi, seg). oi - ord)") auto

declare buddy_split.simps [simp del]

definition mlx5dr_buddy_alloc_mem ::
  "mlx5dr_icm_buddy_mem \<Rightarrow> nat \<Rightarrow> (nat result \<times> mlx5dr_icm_buddy_mem) option" where
  "mlx5dr_buddy_alloc_mem B ord = do {
     found \<leftarrow> dr_buddy_find_free_seg B ord;
     (case found of
        Inl e \<Rightarrow> Some (Inl e, B)
      | Inr (seg, order_iter) \<Rightarrow> do {
          B1 \<leftarrow> bitmap_write B order_iter seg False;
          B2 \<leftarrow> num_free_write B1 order_iter u32_dec;
          (B3, seg') \<leftarrow> buddy_split B2 ord order_iter seg;
          Some (Inr (u32_shl seg' ord), B3) }) }"

text \<open>
  The merging loop of \<open>mlx5dr_buddy_free_mem\<close>. Its guard reads \<open>bitmap[order]\<close>, which faults once
  \<open>order\<close> passes the last array, so the recursion ends by then at the latest.
\<close>

function buddy_merge ::
  "mlx5dr_icm_buddy_mem \<Rightarrow> nat \<Rightarrow> nat \<Rightarrow> (mlx5dr_icm_buddy_mem \<times> nat \<times> nat) option" where
  "buddy_merge B seg ord =
     (case bitmap_read B ord (seg XOR 1) of
        None \<Rightarrow> None
      | Some False \<Rightarrow> Some (B, seg, ord)
      | Some True \<Rightarrow> do {
          B1 \<leftarrow> bitmap_write B ord (seg XOR 1) False;
          B2 \<leftarrow> num_free_write B1 ord u32_dec;
          buddy_merge B2 (seg div 2) (Suc ord) })"
  by pat_completeness auto
termination
  by (relation "measure (\<lambda>(B, seg, ord). length (bitmap B) - ord)")
     (auto simp: bitmap_read_def bitmap_write_def num_free_write_def nth_opt_eq_Some_iff
        bind_eq_Some_conv split: option.splits)

declare buddy_merge.simps [simp del]

definition mlx5dr_buddy_free_mem ::
  "mlx5dr_icm_buddy_mem \<Rightarrow> nat \<Rightarrow> nat \<Rightarrow> mlx5dr_icm_buddy_mem option" where
  "mlx5dr_buddy_free_mem B seg ord = do {
     (B1, seg', ord') \<leftarrow> buddy_merge B (seg div 2 ^ ord) ord;
     B2 \<leftarrow> bitmap_write B1 ord' seg' True;
     num_free_write B2 ord' u32_inc }"


section \<open>Specification\<close>

text \<open>The units a block covers, which blocks are free, and the units free blocks cover.\<close>

definition units :: "nat \<Rightarrow> nat \<Rightarrow> nat set" where
  "units ord seg = {seg * 2 ^ ord ..< (seg + 1) * 2 ^ ord}"

definition is_free :: "mlx5dr_icm_buddy_mem \<Rightarrow> nat \<Rightarrow> nat \<Rightarrow> bool" where
  "is_free B ord seg \<longleftrightarrow>
     ord \<le> max_order B \<and> seg < 2 ^ (max_order B - ord) \<and> bitmap B ! ord ! seg"

definition free_units :: "mlx5dr_icm_buddy_mem \<Rightarrow> nat set" where
  "free_units B = {u. \<exists>ord seg. is_free B ord seg \<and> u \<in> units ord seg}"

text \<open>The structural part of the invariant: sizes, zero padding, counters, a usable order.\<close>

definition row_wf :: "mlx5dr_icm_buddy_mem \<Rightarrow> nat \<Rightarrow> bool" where
  "row_wf B ord \<longleftrightarrow>
     length (bitmap B ! ord) = 64 * ((2 ^ (max_order B - ord) + 63) div 64) \<and>
     (\<forall>i. 2 ^ (max_order B - ord) \<le> i \<and> i < length (bitmap B ! ord) \<longrightarrow> \<not> bitmap B ! ord ! i) \<and>
     num_free B ! ord = count_list (bitmap B ! ord) True"

definition buddy_wf :: "mlx5dr_icm_buddy_mem \<Rightarrow> bool" where
  "buddy_wf B \<longleftrightarrow> max_order B < 31 \<and>
     length (bitmap B) = Suc (max_order B) \<and> length (num_free B) = Suc (max_order B) \<and>
     (\<forall>ord \<le> max_order B. row_wf B ord)"

definition buddy_disj :: "mlx5dr_icm_buddy_mem \<Rightarrow> bool" where
  "buddy_disj B \<longleftrightarrow> (\<forall>ord seg ord' seg'. is_free B ord seg \<longrightarrow> is_free B ord' seg' \<longrightarrow>
     (ord, seg) \<noteq> (ord', seg') \<longrightarrow> units ord seg \<inter> units ord' seg' = {})"

definition buddy_coalesced :: "mlx5dr_icm_buddy_mem \<Rightarrow> bool" where
  "buddy_coalesced B \<longleftrightarrow> (\<forall>ord seg. ord < max_order B \<longrightarrow> is_free B ord seg \<longrightarrow>
     \<not> is_free B ord (seg XOR 1))"

definition buddy_inv :: "mlx5dr_icm_buddy_mem \<Rightarrow> bool" where
  "buddy_inv B \<longleftrightarrow> buddy_wf B \<and> buddy_disj B \<and> buddy_coalesced B"

text \<open>A request is in range when its block is an aligned part of the managed memory.\<close>

definition block_ok :: "mlx5dr_icm_buddy_mem \<Rightarrow> nat \<Rightarrow> nat \<Rightarrow> bool" where
  "block_ok B ord seg \<longleftrightarrow> ord \<le> max_order B \<and> seg < 2 ^ (max_order B - ord)"

definition put_block :: "mlx5dr_icm_buddy_mem \<Rightarrow> nat \<Rightarrow> nat \<Rightarrow> mlx5dr_icm_buddy_mem" where
  "put_block B ord seg =
     B\<lparr>bitmap := (bitmap B)[ord := (bitmap B ! ord)[seg := True]],
       num_free := (num_free B)[ord := num_free B ! ord + 1]\<rparr>"

definition del_block :: "mlx5dr_icm_buddy_mem \<Rightarrow> nat \<Rightarrow> nat \<Rightarrow> mlx5dr_icm_buddy_mem" where
  "del_block B ord seg =
     B\<lparr>bitmap := (bitmap B)[ord := (bitmap B ! ord)[seg := False]],
       num_free := (num_free B)[ord := num_free B ! ord - 1]\<rparr>"

section \<open>Blocks and units\<close>

lemma xor1_eq: "(n::nat) XOR 1 = (if even n then n + 1 else n - 1)"
  by (simp add: xor_Suc_0_eq)

lemmas xor1_simps = xor1_eq xor1_eq [unfolded One_nat_def]

lemma xor1_neq: "(n::nat) XOR 1 \<noteq> n"
  by (auto simp: xor1_simps elim!: oddE)

lemma xor1_flip: "(a::nat) XOR 1 = b \<longleftrightarrow> a = b XOR 1"
  by (metis xor.right_neutral xor_self_eq xor.assoc)

lemma xor1_less:
  assumes "seg < 2 ^ k" "0 < k"
  shows "seg XOR 1 < (2::nat) ^ k"
proof -
  obtain j where "k = Suc j" using assms(2) gr0_implies_Suc by blast
  with assms(1) show ?thesis by (auto simp: xor1_simps elim!: evenE)
qed

lemma units_nonempty [simp]: "units ord seg \<noteq> {}"
  by (simp add: units_def)

lemma units_Suc: "units (Suc ord) seg = units ord (2 * seg) \<union> units ord (2 * seg + 1)"
  by (auto simp: units_def algebra_simps)

lemma units_pair: "units ord seg \<union> units ord (seg XOR 1) = units (Suc ord) (seg div 2)"
  by (cases "even seg") (auto simp: units_Suc xor1_simps elim!: evenE oddE)

lemma units_disjoint: "seg \<noteq> seg' \<Longrightarrow> units ord seg \<inter> units ord seg' = {}"
proof (induction seg seg' rule: linorder_wlog)
  case (le a b)
  then have "(a + 1) * 2 ^ ord \<le> b * 2 ^ ord" by (intro mult_right_mono) auto
  then show ?case by (auto simp: units_def)
qed blast

lemma units_disjoint_xor: "units ord seg \<inter> units ord (seg XOR 1) = {}"
  by (rule units_disjoint) (auto simp: xor1_simps elim!: oddE)

lemma units_iff: "u \<in> units ord seg \<longleftrightarrow> u div 2 ^ ord = seg"
  using dividend_less_div_times [of "2 ^ ord" u]
  by (auto simp: units_def algebra_simps intro!: div_nat_eqI)

lemma units_nested:
  assumes "ord \<le> ord'" "units ord seg \<inter> units ord' seg' \<noteq> {}"
  shows "units ord seg \<subseteq> units ord' seg'"
proof -
  have shift: "v div 2 ^ ord' = v div 2 ^ ord div 2 ^ (ord' - ord)" for v :: nat
    using assms(1) by (simp add: div_mult2_eq [symmetric] power_add [symmetric])
  from assms(2) obtain u where "u \<in> units ord seg" "u \<in> units ord' seg'" by blast
  then have "u div 2 ^ ord = seg" "u div 2 ^ ord' = seg'" by (simp_all add: units_iff)
  then have "seg div 2 ^ (ord' - ord) = seg'" by (simp add: shift)
  then show ?thesis by (auto simp: units_iff shift)
qed

lemma units_in_range: "block_ok B ord seg \<Longrightarrow> units ord seg \<subseteq> {..< 2 ^ max_order B}"
proof -
  assume ok: "block_ok B ord seg"
  then have "(seg + 1) * 2 ^ ord \<le> 2 ^ (max_order B - ord) * 2 ^ ord"
    by (intro mult_right_mono) (auto simp: block_ok_def)
  also have "\<dots> = 2 ^ max_order B"
    using ok by (simp add: power_add [symmetric] block_ok_def)
  finally show ?thesis by (auto simp: units_def)
qed

lemma is_free_block_ok: "is_free B ord seg \<Longrightarrow> block_ok B ord seg"
  by (simp add: is_free_def block_ok_def)

lemma is_free_units: "is_free B ord seg \<Longrightarrow> units ord seg \<subseteq> free_units B"
  by (auto simp: free_units_def)

lemma not_free_if_disjoint: "units ord seg \<inter> free_units B = {} \<Longrightarrow> \<not> is_free B ord seg"
  using is_free_units units_nonempty by blast


section \<open>One block\<close>

lemma bits_of_longs:
  fixes N :: nat
  assumes "1 \<le> N" "N \<le> 2 ^ 30"
  shows "N \<le> 64 * ((N + 63) div 64)" "1 < 64 * ((N + 63) div 64)" "64 * ((N + 63) div 64) < 2 ^ 32 - 1"
proof -
  show "N \<le> 64 * ((N + 63) div 64)" by linarith
  have "1 \<le> (N + 63) div 64" using assms(1) by (simp add: Suc_le_eq div_greater_zero_iff)
  then show "1 < 64 * ((N + 63) div 64)" by linarith
  have "64 * ((N + 63) div 64) \<le> N + 63" by simp
  with assms(2) show "64 * ((N + 63) div 64) < 2 ^ 32 - 1" by simp
qed

lemma row_length:
  assumes "buddy_wf B" "ord \<le> max_order B"
  shows "2 ^ (max_order B - ord) \<le> length (bitmap B ! ord)" "1 < length (bitmap B ! ord)"
    "length (bitmap B ! ord) < 2 ^ 32 - 1"
proof -
  let ?n = "(2::nat) ^ (max_order B - ord)"
  have len: "length (bitmap B ! ord) = 64 * ((?n + 63) div 64)"
    using assms by (auto simp: buddy_wf_def row_wf_def)
  have "1 \<le> ?n" by simp
  moreover have "?n \<le> 2 ^ 30"
    using assms(1) by (intro power_increasing) (auto simp: buddy_wf_def)
  ultimately show "?n \<le> length (bitmap B ! ord)" "1 < length (bitmap B ! ord)"
    "length (bitmap B ! ord) < 2 ^ 32 - 1"
    unfolding len by (rule bits_of_longs)+
qed

lemma block_ok_index:
  assumes "buddy_wf B" "block_ok B ord seg"
  shows "ord < length (bitmap B)" "ord < length (num_free B)" "seg < length (bitmap B ! ord)"
  using assms row_length(1) [of B ord] by (auto simp: buddy_wf_def block_ok_def)

lemma num_free_count:
  assumes "buddy_wf B" "ord \<le> max_order B"
  shows "num_free B ! ord = count_list (bitmap B ! ord) True" "num_free B ! ord < 2 ^ 32 - 1"
proof -
  show eq: "num_free B ! ord = count_list (bitmap B ! ord) True"
    using assms by (auto simp: buddy_wf_def row_wf_def)
  show "num_free B ! ord < 2 ^ 32 - 1"
    using row_length(3) [OF assms] count_le_length [of "bitmap B ! ord" True] unfolding eq by linarith
qed

lemma max_order_put_del [simp]:
  "max_order (put_block B ord seg) = max_order B" "max_order (del_block B ord seg) = max_order B"
  by (simp_all add: put_block_def del_block_def)

lemma block_ok_put_del [simp]:
  "block_ok (put_block B ord seg) = block_ok B" "block_ok (del_block B ord seg) = block_ok B"
  by (simp_all add: block_ok_def fun_eq_iff)

lemma is_free_put:
  assumes "buddy_wf B" "block_ok B ord seg"
  shows "is_free (put_block B ord seg) o' s' \<longleftrightarrow> (o', s') = (ord, seg) \<or> is_free B o' s'"
  using assms block_ok_index [OF assms]
  by (auto simp: is_free_def put_block_def block_ok_def nth_list_update)

lemma is_free_del:
  assumes "buddy_wf B" "block_ok B ord seg"
  shows "is_free (del_block B ord seg) o' s' \<longleftrightarrow> (o', s') \<noteq> (ord, seg) \<and> is_free B o' s'"
  using assms block_ok_index [OF assms]
  by (auto simp: is_free_def del_block_def block_ok_def nth_list_update split: if_splits)

lemma write_put:
  assumes "buddy_wf B" "block_ok B ord seg"
  shows "bitmap_write B ord seg True \<bind> (\<lambda>B1. num_free_write B1 ord u32_inc) =
    Some (put_block B ord seg)"
  using block_ok_index [OF assms] num_free_count(2) [OF assms(1), of ord] assms(2)
  by (simp add: bitmap_write_def num_free_write_def put_block_def array_simps u32_simps block_ok_def)

lemma free_block_counted:
  assumes "buddy_wf B" "is_free B ord seg"
  shows "0 < num_free B ! ord"
  using assms num_free_count(1) [of B ord] block_ok_index [OF assms(1) is_free_block_ok [OF assms(2)]]
  by (simp add: count_list_pos is_free_def)

lemma write_del:
  assumes "buddy_wf B" "is_free B ord seg"
  shows "bitmap_write B ord seg False \<bind> (\<lambda>B1. num_free_write B1 ord u32_dec) =
    Some (del_block B ord seg)"
  using block_ok_index [OF assms(1) is_free_block_ok [OF assms(2)]] free_block_counted [OF assms]
    num_free_count(2) [OF assms(1), of ord] assms(2)
  by (simp add: bitmap_write_def num_free_write_def del_block_def array_simps u32_simps is_free_def)


lemma row_wf_update:
  assumes "buddy_wf B" "block_ok B ord seg" "o' \<le> max_order B"
    and "length row = length (bitmap B ! ord)" "\<And>i. 2 ^ (max_order B - ord) \<le> i \<Longrightarrow> i < length row \<Longrightarrow> \<not> row ! i"
    and "n = count_list row True"
  shows "row_wf (B\<lparr>bitmap := (bitmap B)[ord := row], num_free := (num_free B)[ord := n]\<rparr>) o'"
  using assms block_ok_index [OF assms(1,2)]
  by (auto simp: row_wf_def buddy_wf_def nth_list_update)

lemma row_padding:
  assumes "buddy_wf B" "ord \<le> max_order B" "2 ^ (max_order B - ord) \<le> i" "i < length (bitmap B ! ord)"
  shows "\<not> bitmap B ! ord ! i"
  using assms by (auto simp: buddy_wf_def row_wf_def)

lemma wf_put:
  assumes "buddy_wf B" "block_ok B ord seg" "\<not> is_free B ord seg"
  shows "buddy_wf (put_block B ord seg)"
proof -
  have ord: "ord \<le> max_order B" using assms(2) by (simp add: block_ok_def)
  have "row_wf (put_block B ord seg) o'" if "o' \<le> max_order B" for o'
    unfolding put_block_def using assms(1,2) that
  proof (rule row_wf_update)
    show "num_free B ! ord + 1 = count_list ((bitmap B ! ord)[seg := True]) True"
      using assms ord block_ok_index(3) [OF assms(1,2)]
      by (simp add: num_free_count(1) count_list_update is_free_def block_ok_def)
  qed (use assms ord row_padding block_ok_index(3) [OF assms(1,2)] in
      \<open>auto simp: nth_list_update block_ok_def\<close>)
  then show ?thesis using assms(1) by (simp add: buddy_wf_def put_block_def)
qed

lemma wf_del:
  assumes "buddy_wf B" "is_free B ord seg"
  shows "buddy_wf (del_block B ord seg)"
proof -
  note ok = is_free_block_ok [OF assms(2)]
  have ord: "ord \<le> max_order B" using ok by (simp add: block_ok_def)
  have "row_wf (del_block B ord seg) o'" if "o' \<le> max_order B" for o'
    unfolding del_block_def using assms(1) ok that
  proof (rule row_wf_update)
    show "num_free B ! ord - 1 = count_list ((bitmap B ! ord)[seg := False]) True"
      using assms ord block_ok_index(3) [OF assms(1) ok]
      by (simp add: num_free_count(1) count_list_update_other is_free_def)
  qed (use assms ord row_padding block_ok_index(3) [OF assms(1) ok] in
      \<open>auto simp: nth_list_update split: if_splits\<close>)
  then show ?thesis using assms(1) by (simp add: buddy_wf_def del_block_def)
qed

lemma free_units_put:
  assumes "buddy_wf B" "block_ok B ord seg"
  shows "free_units (put_block B ord seg) = free_units B \<union> units ord seg"
  by (auto simp: free_units_def is_free_put [OF assms])

lemma free_units_del:
  assumes "buddy_inv B" "is_free B ord seg"
  shows "free_units (del_block B ord seg) = free_units B - units ord seg"
proof -
  have wf: "buddy_wf B" and disj: "buddy_disj B" using assms(1) by (auto simp: buddy_inv_def)
  note del = is_free_del [OF wf is_free_block_ok [OF assms(2)]]
  have "units o' s' \<inter> units ord seg = {}" if "is_free B o' s'" "(o', s') \<noteq> (ord, seg)" for o' s'
    using disj that assms(2) unfolding buddy_disj_def by blast
  then show ?thesis unfolding free_units_def del by (intro set_eqI) (simp, metis disjoint_iff prod.inject)
qed

lemma inv_put:
  assumes "buddy_inv B" "block_ok B ord seg" "units ord seg \<inter> free_units B = {}"
    and "ord < max_order B \<Longrightarrow> \<not> is_free B ord (seg XOR 1)"
  shows "buddy_inv (put_block B ord seg)"
proof -
  have wf: "buddy_wf B" using assms(1) by (simp add: buddy_inv_def)
  note nf = not_free_if_disjoint [OF assms(3)]
  note put = is_free_put [OF wf assms(2)]
  have apart: "units o' s' \<inter> units ord seg = {}" if "is_free B o' s'" for o' s'
    using is_free_units [OF that] assms(3) by blast
  have "buddy_disj (put_block B ord seg)"
    using assms(1) apart unfolding buddy_inv_def buddy_disj_def put by (auto simp: Int_commute)
  moreover have "buddy_coalesced (put_block B ord seg)"
    using assms(1,4) nf xor1_neq unfolding buddy_inv_def buddy_coalesced_def put prod.inject
    by (metis max_order_put_del(1) xor1_flip)
  ultimately show ?thesis using wf_put [OF wf assms(2) nf] by (simp add: buddy_inv_def)
qed

lemma inv_del:
  assumes "buddy_inv B" "is_free B ord seg"
  shows "buddy_inv (del_block B ord seg)"
proof -
  have wf: "buddy_wf B" using assms(1) by (simp add: buddy_inv_def)
  note del = is_free_del [OF wf is_free_block_ok [OF assms(2)]]
  have "buddy_disj (del_block B ord seg)" "buddy_coalesced (del_block B ord seg)"
    using assms(1) unfolding buddy_inv_def buddy_disj_def buddy_coalesced_def del by auto
  with wf_del [OF wf assms(2)] show ?thesis by (simp add: buddy_inv_def)
qed


section \<open>Searching\<close>

lemma find_first_bit_spec:
  assumes "find_first_bit bs m < m" "m \<le> length bs"
  shows "bs ! find_first_bit bs m"
proof -
  have "length (takeWhile Not (take m bs)) < length (take m bs)"
    using assms by (simp add: find_first_bit_def)
  then have "\<not> Not (take m bs ! length (takeWhile Not (take m bs)))"
    by (rule nth_length_takeWhile)
  with assms show ?thesis by (simp add: find_first_bit_def)
qed

lemma find_first_bit_found:
  assumes "i < m" "m \<le> length bs" "bs ! i"
  shows "find_first_bit bs m < m"
proof (rule ccontr)
  assume "\<not> ?thesis"
  moreover have "length (takeWhile Not (take m bs)) \<le> length (take m bs)"
    by (rule length_takeWhile_le)
  ultimately have "length (takeWhile Not (take m bs)) = length (take m bs)"
    using assms(2) by (simp add: find_first_bit_def)
  then have "takeWhile Not (take m bs) = take m bs"
    by (metis append_take_drop_id append_eq_append_conv takeWhile_dropWhile_id self_append_conv)
  then have "\<forall>b \<in> set (take m bs). \<not> b" by (metis takeWhile_eq_all_conv)
  moreover have "bs ! i \<in> set (take m bs)"
    using assms by (metis in_set_conv_nth length_take min.absorb2 nth_take)
  ultimately show False using assms(3) by blast
qed

lemma counted_has_block:
  assumes "buddy_wf B" "ord \<le> max_order B" "num_free B ! ord \<noteq> 0"
  shows "\<exists>seg. is_free B ord seg"
proof -
  have "True \<in> set (bitmap B ! ord)"
    using assms num_free_count(1) [OF assms(1,2)] by (metis count_list_0_iff)
  then obtain i where i: "i < length (bitmap B ! ord)" "bitmap B ! ord ! i"
    by (auto simp: in_set_conv_nth)
  then have "i < 2 ^ (max_order B - ord)"
    using row_padding [OF assms(1,2)] not_le by blast
  with i assms(2) show ?thesis by (auto simp: is_free_def)
qed

text \<open>
  The search returns the lowest sufficient order that has a free block, and fails exactly when
  there is none. It never faults and never reaches the \<open>WARN\<close> branch.
\<close>

lemma dr_buddy_find_free_seg_spec:
  assumes "buddy_wf B"
  shows "dr_buddy_find_free_seg B ord = Some (Inl ENOMEM) \<and> (\<forall>o' s. ord \<le> o' \<longrightarrow> \<not> is_free B o' s)
    \<or> (\<exists>seg oi. dr_buddy_find_free_seg B ord = Some (Inr (seg, oi)) \<and> ord \<le> oi \<and> is_free B oi seg)"
proof (induction "Suc (max_order B) - ord" arbitrary: ord rule: less_induct)
  case less
  consider (past) "max_order B < ord" | (none) "ord \<le> max_order B" "num_free B ! ord = 0"
    | (some) "ord \<le> max_order B" "num_free B ! ord \<noteq> 0" by linarith
  then show ?case
  proof cases
    case past
    then show ?thesis by (auto simp: dr_buddy_find_free_seg.simps is_free_def)
  next
    case none
    then have eq: "dr_buddy_find_free_seg B ord = dr_buddy_find_free_seg B (Suc ord)"
      using assms by (subst dr_buddy_find_free_seg.simps) (simp add: buddy_wf_def array_simps)
    have "\<not> is_free B ord s" for s
      using free_block_counted [OF assms, of ord s] none by auto
    then have last: "\<not> is_free B o' s" if "\<forall>o' s. Suc ord \<le> o' \<longrightarrow> \<not> is_free B o' s" "ord \<le> o'" for o' s
      using that by (metis le_neq_implies_less Suc_leI)
    have "Suc (max_order B) - Suc ord < Suc (max_order B) - ord" using none(1) by simp
    from less(1) [OF this] show ?thesis
    proof (elim disjE exE conjE)
      assume "dr_buddy_find_free_seg B (Suc ord) = Some (Inl ENOMEM)"
        "\<forall>o' s. Suc ord \<le> o' \<longrightarrow> \<not> is_free B o' s"
      with last show ?thesis by (simp add: eq)
    next
      fix seg oi
      assume "dr_buddy_find_free_seg B (Suc ord) = Some (Inr (seg, oi))" "Suc ord \<le> oi" "is_free B oi seg"
      then show ?thesis using eq Suc_leD by metis
    qed
  next
    case some
    let ?row = "bitmap B ! ord" and ?m = "2 ^ (max_order B - ord)"
    obtain s where s: "is_free B ord s" using counted_has_block [OF assms some] by blast
    note len = row_length(1) [OF assms some(1)]
    have found: "find_first_bit ?row ?m < ?m"
      using s by (intro find_first_bit_found [OF _ len]) (auto simp: is_free_def)
    with some assms len have "dr_buddy_find_free_seg B ord = Some (Inr (find_first_bit ?row ?m, ord))"
      by (subst dr_buddy_find_free_seg.simps) (simp add: buddy_wf_def array_simps)
    with found find_first_bit_spec [OF found len] some(1) show ?thesis by (auto simp: is_free_def)
  qed
qed


section \<open>Splitting and merging\<close>

lemma block_ok_halves:
  assumes "block_ok B (Suc ord) seg"
  shows "block_ok B ord (2 * seg)" "block_ok B ord (2 * seg + 1)"
proof -
  have "max_order B - ord = Suc (max_order B - Suc ord)" using assms by (auto simp: block_ok_def)
  with assms show "block_ok B ord (2 * seg)" "block_ok B ord (2 * seg + 1)"
    by (auto simp: block_ok_def)
qed

lemma block_ok_small: "buddy_wf B \<Longrightarrow> block_ok B ord seg \<Longrightarrow> seg * 2 ^ ord < 2 ^ 31"
proof -
  assume a: "buddy_wf B" "block_ok B ord seg"
  have "seg * 2 ^ ord \<in> units ord seg" by (simp add: units_def)
  then have "seg * 2 ^ ord < 2 ^ max_order B" using units_in_range [OF a(2)] by blast
  also have "\<dots> \<le> (2::nat) ^ 31" using a(1) by (intro power_increasing) (auto simp: buddy_wf_def)
  finally show ?thesis .
qed

lemma block_ok_parent:
  assumes "block_ok B ord seg" "ord < max_order B"
  shows "block_ok B (Suc ord) (seg div 2)"
proof -
  have "max_order B - ord = Suc (max_order B - Suc ord)" using assms(2) by simp
  with assms show ?thesis by (auto simp: block_ok_def)
qed

lemma buddy_split_spec:
  assumes "buddy_inv B" "block_ok B oi seg" "units oi seg \<inter> free_units B = {}" "ord \<le> oi"
  shows "\<exists>B' seg'. buddy_split B ord oi seg = Some (B', seg') \<and> buddy_inv B' \<and>
    max_order B' = max_order B \<and> block_ok B ord seg' \<and> units ord seg' \<subseteq> units oi seg \<and>
    free_units B' = free_units B \<union> (units oi seg - units ord seg')"
  using assms
proof (induction oi arbitrary: B seg)
  case 0
  then show ?case by (auto simp: buddy_split.simps)
next
  case (Suc oi)
  show ?case
  proof (cases "ord = Suc oi")
    case True
    then show ?thesis using Suc.prems by (auto simp: buddy_split.simps)
  next
    case False
    have wf: "buddy_wf B" using Suc.prems(1) by (simp add: buddy_inv_def)
    note ok = block_ok_halves [OF Suc.prems(2)]
    let ?B = "put_block B oi (2 * seg + 1)"
    have disj: "units oi (2 * seg) \<inter> free_units B = {}" "units oi (2 * seg + 1) \<inter> free_units B = {}"
      using Suc.prems(3) by (auto simp: units_Suc)
    have "2 * seg * 1 \<le> 2 * seg * 2 ^ oi" by (intro mult_le_mono2) simp
    from le_less_trans [OF this block_ok_small [OF wf ok(1)]] have shl: "u32_shl seg 1 = 2 * seg"
      by (simp add: u32_shl_def)
    have xor: "2 * seg XOR 1 = 2 * seg + 1" by (simp add: xor1_simps)
    have step: "buddy_split B ord (Suc oi) seg = buddy_split ?B ord oi (2 * seg)"
      using write_put [OF wf ok(2)] False Suc.prems(4)
      by (subst buddy_split.simps) (auto simp: shl xor Let_def bind_eq_Some_conv simp del: One_nat_def split: bind_splits)
    have inv: "buddy_inv ?B"
      using Suc.prems(1) ok(2) disj(2)
    proof (rule inv_put)
      have "(2 * seg + 1) XOR 1 = 2 * seg" by (simp add: xor1_simps)
      with not_free_if_disjoint [OF disj(1)] show "\<not> is_free B oi ((2 * seg + 1) XOR 1)" by metis
    qed
    note fu = free_units_put [OF wf ok(2)]
    have halves: "units oi (2 * seg) \<inter> units oi (2 * seg + 1) = {}" by (rule units_disjoint) simp
    have d: "units oi (2 * seg) \<inter> free_units ?B = {}"
      using disj(1) halves unfolding fu by blast
    have le: "ord \<le> oi" using False Suc.prems(4) by simp
    from Suc.IH [OF inv _ d le] ok(1) obtain B' seg' where B':
      "buddy_split ?B ord oi (2 * seg) = Some (B', seg')" "buddy_inv B'" "max_order B' = max_order B"
      "block_ok B ord seg'" "units ord seg' \<subseteq> units oi (2 * seg)"
      "free_units B' = free_units ?B \<union> (units oi (2 * seg) - units ord seg')"
      by auto
    moreover have "units oi (2 * seg + 1) \<inter> units ord seg' = {}"
      using B'(5) halves by blast
    ultimately show ?thesis using fu by (auto simp: step units_Suc)
  qed
qed

lemma bitmap_read_buddy:
  assumes "buddy_wf B" "block_ok B ord seg"
  shows "bitmap_read B ord (seg XOR 1) = Some (ord < max_order B \<and> is_free B ord (seg XOR 1))"
proof -
  have ord: "ord \<le> max_order B" using assms(2) by (simp add: block_ok_def)
  show ?thesis
  proof (cases "ord < max_order B")
    case True
    then have "seg XOR 1 < 2 ^ (max_order B - ord)"
      using assms(2) by (intro xor1_less) (auto simp: block_ok_def)
    moreover from this have "block_ok B ord (seg XOR 1)" using ord by (simp add: block_ok_def)
    note block_ok_index [OF assms(1) this]
    ultimately show ?thesis using True by (simp add: bitmap_read_def array_simps is_free_def)
  next
    case False
    then have eq: "ord = max_order B" "seg = 0" using assms(2) by (auto simp: block_ok_def)
    have "\<not> bitmap B ! ord ! 1"
      using row_padding [OF assms(1) ord, of 1] row_length(2) [OF assms(1) ord] eq by simp
    with eq row_length(2) [OF assms(1) ord] block_ok_index(1) [OF assms] show ?thesis
      by (simp add: bitmap_read_def array_simps)
  qed
qed

lemma buddy_merge_spec:
  assumes "buddy_inv B" "block_ok B ord seg" "units ord seg \<inter> free_units B = {}"
  shows "\<exists>B' seg' ord'. buddy_merge B seg ord = Some (B', seg', ord') \<and> buddy_inv B' \<and>
    max_order B' = max_order B \<and> block_ok B ord' seg' \<and> units ord' seg' \<inter> free_units B' = {} \<and>
    (ord' < max_order B \<longrightarrow> \<not> is_free B' ord' (seg' XOR 1)) \<and>
    free_units B' \<union> units ord' seg' = free_units B \<union> units ord seg"
  using assms
proof (induction "max_order B - ord" arbitrary: B ord seg rule: less_induct)
  case less
  have wf: "buddy_wf B" using less.prems(1) by (simp add: buddy_inv_def)
  note rd = bitmap_read_buddy [OF wf less.prems(2)]
  show ?case
  proof (cases "ord < max_order B \<and> is_free B ord (seg XOR 1)")
    case False
    then have "buddy_merge B seg ord = Some (B, seg, ord)"
      using rd by (subst buddy_merge.simps) (auto split: bool.split)
    with False less.prems show ?thesis by blast
  next
    case True
    let ?B = "del_block B ord (seg XOR 1)"
    have free: "is_free B ord (seg XOR 1)" using True by blast
    have step: "buddy_merge B seg ord = buddy_merge ?B (seg div 2) (Suc ord)"
      using write_del [OF wf free] rd True
      by (subst buddy_merge.simps) (auto simp: bind_eq_Some_conv split: bind_splits)
    note fu = free_units_del [OF less.prems(1) free]
    have d: "units (Suc ord) (seg div 2) \<inter> free_units ?B = {}"
      using less.prems(3) unfolding units_pair [symmetric] fu by blast
    have ok: "block_ok ?B (Suc ord) (seg div 2)"
      using block_ok_parent [OF less.prems(2)] True by simp
    have "max_order ?B - Suc ord < max_order B - ord" using True by auto
    from less.hyps [OF this inv_del [OF less.prems(1) free] ok d]
    obtain B' seg' ord' where B': "buddy_merge ?B (seg div 2) (Suc ord) = Some (B', seg', ord')"
      "buddy_inv B'" "max_order B' = max_order B" "block_ok B ord' seg'"
      "units ord' seg' \<inter> free_units B' = {}" "ord' < max_order B \<longrightarrow> \<not> is_free B' ord' (seg' XOR 1)"
      "free_units B' \<union> units ord' seg' = free_units ?B \<union> units (Suc ord) (seg div 2)"
      by auto
    have "free_units ?B \<union> units (Suc ord) (seg div 2) = free_units B \<union> units ord seg"
      using is_free_units [OF free] unfolding units_pair [symmetric] fu by blast
    with B' show ?thesis by (auto simp: step)
  qed
qed


section \<open>The operations\<close>

lemma bitmap_zalloc_nth [simp]: "i < length (bitmap_zalloc n) \<Longrightarrow> \<not> bitmap_zalloc n ! i"
  by (simp add: bitmap_zalloc_def)

lemma bitmap_zalloc_length [simp]: "length (bitmap_zalloc n) = 64 * ((n + 63) div 64)"
  by (simp add: bitmap_zalloc_def)

lemma bitmap_zalloc_count [simp]: "count_list (bitmap_zalloc n) True = 0"
  by (auto simp: bitmap_zalloc_def count_list_0_iff)

lemma buddy_init_fields:
  assumes "mlx5dr_buddy_init a b mo = Inr B"
  shows "max_order B = mo" "length (bitmap B) = Suc mo" "num_free B = (replicate (Suc mo) 0)[mo := 1]"
    "ord < mo \<Longrightarrow> bitmap B ! ord = bitmap_zalloc (2 ^ (mo - ord))"
    "bitmap B ! mo = (bitmap_zalloc 1)[0 := True]"
  using assms by (auto simp: mlx5dr_buddy_init_def simp del: upt_Suc split: if_splits)

lemma buddy_init_free:
  assumes "mlx5dr_buddy_init a b mo = Inr B"
  shows "is_free B ord seg \<longleftrightarrow> ord = mo \<and> seg = 0"
proof -
  note B = buddy_init_fields [OF assms]
  have "2 ^ k \<le> 64 * ((2 ^ k + 63) div (64::nat))" for k :: nat by linarith
  then have "seg < length (bitmap_zalloc (2 ^ (mo - ord)))" if "seg < 2 ^ (mo - ord)"
    using that less_le_trans unfolding bitmap_zalloc_length by blast
  then have "\<not> bitmap B ! ord ! seg" if "ord < mo" "seg < 2 ^ (mo - ord)"
    using that B(4) bitmap_zalloc_nth by metis
  then show ?thesis using B(1,5) by (auto simp: is_free_def order_le_less)
qed

lemma buddy_init_inv:
  assumes init: "mlx5dr_buddy_init a b mo = Inr B" and "mo < 31"
  shows "buddy_inv B" "free_units B = {..< 2 ^ mo}"
proof -
  note B = buddy_init_fields [OF init]
  have "row_wf B ord" if "ord < mo" for ord
    using that bitmap_zalloc_nth by (simp add: row_wf_def B del: replicate_Suc)
  moreover have "row_wf B mo" by (simp add: row_wf_def B count_list_update nth_list_update del: replicate_Suc)
  ultimately have "buddy_wf B" using \<open>mo < 31\<close> by (auto simp: buddy_wf_def B order_le_less simp del: replicate_Suc)
  then show "buddy_inv B"
    by (simp add: buddy_inv_def buddy_disj_def buddy_coalesced_def buddy_init_free [OF init] B(1))
  show "free_units B = {..< 2 ^ mo}"
    by (auto simp: free_units_def buddy_init_free [OF init] units_def)
qed

lemma buddy_alloc_spec:
  assumes "buddy_inv B"
  shows "mlx5dr_buddy_alloc_mem B ord = Some (Inl ENOMEM, B) \<and> (\<forall>o' s. ord \<le> o' \<longrightarrow> \<not> is_free B o' s)
    \<or> (\<exists>seg B'. mlx5dr_buddy_alloc_mem B ord = Some (Inr (seg * 2 ^ ord), B') \<and> buddy_inv B' \<and>
         max_order B' = max_order B \<and> block_ok B ord seg \<and> units ord seg \<subseteq> free_units B \<and>
         free_units B' = free_units B - units ord seg)"
proof -
  have wf: "buddy_wf B" using assms by (simp add: buddy_inv_def)
  from dr_buddy_find_free_seg_spec [OF wf, of ord] show ?thesis
  proof (elim disjE exE conjE)
    assume "dr_buddy_find_free_seg B ord = Some (Inl ENOMEM)" "\<forall>o' s. ord \<le> o' \<longrightarrow> \<not> is_free B o' s"
    then show ?thesis by (simp add: mlx5dr_buddy_alloc_mem_def)
  next
    fix seg oi
    assume f: "dr_buddy_find_free_seg B ord = Some (Inr (seg, oi))" "ord \<le> oi" "is_free B oi seg"
    note ok = is_free_block_ok [OF f(3)]
    note fu = free_units_del [OF assms f(3)]
    have "units oi seg \<inter> free_units (del_block B oi seg) = {}" unfolding fu by blast
    from buddy_split_spec [OF inv_del [OF assms f(3)] _ this f(2)] ok obtain B' seg' where B':
      "buddy_split (del_block B oi seg) ord oi seg = Some (B', seg')" "buddy_inv B'"
      "max_order B' = max_order B" "block_ok B ord seg'" "units ord seg' \<subseteq> units oi seg"
      "free_units B' = free_units (del_block B oi seg) \<union> (units oi seg - units ord seg')"
      by auto
    have "u32_shl seg' ord = seg' * 2 ^ ord"
      using block_ok_small [OF wf B'(4)] by (intro u32_shl_exact) simp
    then have "mlx5dr_buddy_alloc_mem B ord = Some (Inr (seg' * 2 ^ ord), B')"
      using write_del [OF wf f(3)] f(1) B'(1)
      by (auto simp: mlx5dr_buddy_alloc_mem_def bind_eq_Some_conv split: bind_splits)
    moreover have "units ord seg' \<subseteq> free_units B" using is_free_units [OF f(3)] B'(5) by blast
    moreover have "free_units B' = free_units B - units ord seg'"
      using is_free_units [OF f(3)] B'(5) unfolding B'(6) fu by blast
    ultimately show ?thesis using B'(2-4) by blast
  qed
qed

lemma buddy_free_spec:
  assumes "buddy_inv B" "block_ok B ord seg" "units ord seg \<inter> free_units B = {}"
  shows "\<exists>B'. mlx5dr_buddy_free_mem B (seg * 2 ^ ord) ord = Some B' \<and> buddy_inv B' \<and>
    max_order B' = max_order B \<and> free_units B' = free_units B \<union> units ord seg"
proof -
  from buddy_merge_spec [OF assms] obtain B' seg' ord' where B':
    "buddy_merge B seg ord = Some (B', seg', ord')" "buddy_inv B'" "max_order B' = max_order B"
    "block_ok B ord' seg'" "units ord' seg' \<inter> free_units B' = {}"
    "ord' < max_order B \<longrightarrow> \<not> is_free B' ord' (seg' XOR 1)"
    "free_units B' \<union> units ord' seg' = free_units B \<union> units ord seg"
    by auto
  have wf: "buddy_wf B'" using B'(2) by (simp add: buddy_inv_def)
  have ok: "block_ok B' ord' seg'" using B'(3,4) by (simp add: block_ok_def)
  have "mlx5dr_buddy_free_mem B (seg * 2 ^ ord) ord = Some (put_block B' ord' seg')"
    using write_put [OF wf ok] B'(1) by (simp add: mlx5dr_buddy_free_mem_def)
  moreover have "buddy_inv (put_block B' ord' seg')"
    using B'(2) ok B'(5) by (rule inv_put) (use B'(3,6) in auto)
  ultimately show ?thesis using free_units_put [OF wf ok] B'(3,7) by auto
qed


section \<open>The allocator's contract and its clients\<close>

text \<open>
  What the chunk pool relies on: an allocation is answered, either with an error that changes
  nothing or with a valid range taken out of the available units; releasing a valid range that
  is not available puts it back. The client keeps the list of ranges it holds and may give back
  only those.
\<close>

definition span :: "nat \<times> nat \<Rightarrow> nat set" where
  "span p = {fst p ..< fst p + 2 ^ snd p}"

definition apart :: "nat \<times> nat \<Rightarrow> nat \<times> nat \<Rightarrow> bool" where
  "apart p q \<longleftrightarrow> span p \<inter> span q = {}"

inductive client_step ::
  "('s \<Rightarrow> nat \<Rightarrow> (nat result \<times> 's) option) \<Rightarrow> ('s \<Rightarrow> nat \<Rightarrow> nat \<Rightarrow> 's option) \<Rightarrow>
   's \<times> (nat \<times> nat) list \<Rightarrow> 's \<times> (nat \<times> nat) list \<Rightarrow> bool"
  for alloc :: "'s \<Rightarrow> nat \<Rightarrow> (nat result \<times> 's) option"
  and release :: "'s \<Rightarrow> nat \<Rightarrow> nat \<Rightarrow> 's option" where
  client_alloc: "alloc s ord = Some (Inr seg, s') \<Longrightarrow>
     client_step alloc release (s, live) (s', (seg, ord) # live)"
| client_refused: "alloc s ord = Some (Inl e, s') \<Longrightarrow> client_step alloc release (s, live) (s', live)"
| client_release: "(seg, ord) \<in> set live \<Longrightarrow> release s seg ord = Some s' \<Longrightarrow>
     client_step alloc release (s, live) (s', remove1 (seg, ord) live)"

inductive_cases client_stepE: "client_step alloc release (s, live) t"

definition client_inv ::
  "('s \<Rightarrow> bool) \<Rightarrow> ('s \<Rightarrow> nat set) \<Rightarrow> (nat \<times> nat \<Rightarrow> bool) \<Rightarrow> nat set \<Rightarrow> 's \<times> (nat \<times> nat) list \<Rightarrow> bool" where
  "client_inv invar avail valid whole st \<longleftrightarrow> invar (fst st) \<and>
     avail (fst st) \<union> (\<Union>p \<in> set (snd st). span p) = whole \<and>
     (\<forall>p \<in> set (snd st). valid p \<and> span p \<inter> avail (fst st) = {}) \<and>
     sorted_wrt apart (snd st)"

lemma span_nonempty [simp]: "span p \<noteq> {}"
  by (simp add: span_def)

lemma apart_sym: "apart p q \<Longrightarrow> apart q p"
  by (auto simp: apart_def)

lemma apart_remove1:
  assumes "sorted_wrt apart live" "p \<in> set live"
  shows "sorted_wrt apart (remove1 p live) \<and> (\<forall>q \<in> set (remove1 p live). apart p q) \<and>
    set live = insert p (set (remove1 p live))"
  using assms
proof (induction live)
  case (Cons q qs)
  show ?case
  proof (cases "q = p")
    case False
    with Cons.prems have p: "p \<in> set qs" "apart q p" by auto
    with Cons have IH: "sorted_wrt apart (remove1 p qs)" "\<forall>x \<in> set (remove1 p qs). apart p x"
      "set qs = insert p (set (remove1 p qs))" by auto
    have "insert q (set qs) = insert p (insert q (set (remove1 p qs)))"
      unfolding IH(3) by (rule insert_commute)
    moreover have "\<forall>x \<in> set (remove1 p qs). apart q x"
      using Cons.prems(1) set_remove1_subset [of p qs] by auto
    ultimately show ?thesis using IH(1,2) False apart_sym [OF p(2)] by simp
  qed (use Cons.prems in auto)
qed simp

locale range_allocator =
  fixes alloc :: "'s \<Rightarrow> nat \<Rightarrow> (nat result \<times> 's) option"
    and release :: "'s \<Rightarrow> nat \<Rightarrow> nat \<Rightarrow> 's option"
    and start :: "'s \<Rightarrow> bool"
    and invar :: "'s \<Rightarrow> bool"
    and avail :: "'s \<Rightarrow> nat set"
    and valid :: "nat \<times> nat \<Rightarrow> bool"
    and whole :: "nat set"
  assumes start_ok: "start s \<Longrightarrow> invar s \<and> avail s = whole"
    and alloc_total: "invar s \<Longrightarrow> \<exists>r. alloc s ord = Some r"
    and alloc_refused: "invar s \<Longrightarrow> alloc s ord = Some (Inl e, s') \<Longrightarrow> s' = s"
    and alloc_granted: "invar s \<Longrightarrow> alloc s ord = Some (Inr seg, s') \<Longrightarrow>
      invar s' \<and> valid (seg, ord) \<and> span (seg, ord) \<subseteq> avail s \<and> avail s' = avail s - span (seg, ord)"
    and release_ok: "invar s \<Longrightarrow> valid (seg, ord) \<Longrightarrow> span (seg, ord) \<inter> avail s = {} \<Longrightarrow>
      \<exists>s'. release s seg ord = Some s' \<and> invar s' \<and> avail s' = avail s \<union> span (seg, ord)"
begin

lemma client_alloc_inv:
  assumes "client_inv invar avail valid whole (s, live)" "alloc s ord = Some (Inr seg, s')"
  shows "client_inv invar avail valid whole (s', (seg, ord) # live)"
  using assms alloc_granted [of s ord seg s'] unfolding client_inv_def apart_def by auto

lemma client_release_inv:
  assumes "client_inv invar avail valid whole (s, live)" "(seg, ord) \<in> set live"
    and "release s seg ord = Some s'"
  shows "client_inv invar avail valid whole (s', remove1 (seg, ord) live)"
proof -
  have I: "invar s" "valid (seg, ord)" "span (seg, ord) \<inter> avail s = {}" "sorted_wrt apart live"
    using assms(1,2) by (auto simp: client_inv_def)
  from release_ok [OF I(1-3)] assms(3) have s': "invar s'" "avail s' = avail s \<union> span (seg, ord)"
    by auto
  note r = apart_remove1 [OF I(4) assms(2)]
  have "span p \<inter> avail s' = {}" if "p \<in> set (remove1 (seg, ord) live)" for p
    using that assms(1) r s'(2) unfolding client_inv_def apart_def by auto
  moreover have "avail s' \<union> (\<Union>p \<in> set (remove1 (seg, ord) live). span p) = whole"
    using assms(1) r unfolding client_inv_def s'(2) by auto
  ultimately show ?thesis using assms(1) r s'(1) by (auto simp: client_inv_def)
qed

lemma client_step_inv:
  assumes "client_inv invar avail valid whole st" "client_step alloc release st st'"
  shows "client_inv invar avail valid whole st'"
  using assms(2,1)
proof (cases rule: client_step.cases)
  case (client_refused s ord e s' live)
  with assms(1) alloc_refused [of s ord e s'] show ?thesis by (simp add: client_inv_def)
qed (use assms(1) client_alloc_inv client_release_inv in blast)+

lemma release_of_live_succeeds:
  assumes "client_inv invar avail valid whole (s, live)" "(seg, ord) \<in> set live"
  shows "\<exists>s'. release s seg ord = Some s'"
proof -
  have "invar s" "valid (seg, ord)" "span (seg, ord) \<inter> avail s = {}"
    using assms by (auto simp: client_inv_def)
  from release_ok [OF this] show ?thesis by blast
qed

lemma client_start_inv: "(case st of (s, live) \<Rightarrow> start s \<and> live = []) \<Longrightarrow> client_inv invar avail valid whole st"
  using start_ok by (auto simp: client_inv_def)

end

sublocale range_allocator \<subseteq> client: invariant_system
  "\<lambda>(s, live). start s \<and> live = []" "client_step alloc release" "client_inv invar avail valid whole"
  by unfold_locales (rule client_start_inv, assumption, rule client_step_inv)


section \<open>The bitmaps are determined by the free units\<close>

text \<open>
  Because buddies are merged, a free aligned range always lies inside one free block; so the
  free blocks are exactly the maximal free aligned ranges, and two well-formed allocators with
  the same free units are equal, bit by bit and counter by counter.
\<close>

lemma free_range_covered:
  assumes "buddy_inv B" "block_ok B ord seg" "units ord seg \<subseteq> free_units B"
  shows "\<exists>o' s'. ord \<le> o' \<and> is_free B o' s' \<and> units ord seg \<subseteq> units o' s'"
  using assms
proof (induction ord arbitrary: seg)
  case 0
  have "units 0 seg = {seg}" by (auto simp: units_def)
  with 0 show ?case by (auto simp: free_units_def)
next
  case (Suc ord)
  note ok = block_ok_halves [OF Suc.prems(2)]
  have sub: "units ord (2 * seg) \<subseteq> free_units B" "units ord (2 * seg + 1) \<subseteq> free_units B"
    using Suc.prems(3) by (auto simp: units_Suc)
  obtain o1 s1 where b1: "ord \<le> o1" "is_free B o1 s1" "units ord (2 * seg) \<subseteq> units o1 s1"
    using Suc.IH [OF Suc.prems(1) ok(1) sub(1)] by blast
  obtain o2 s2 where b2: "ord \<le> o2" "is_free B o2 s2" "units ord (2 * seg + 1) \<subseteq> units o2 s2"
    using Suc.IH [OF Suc.prems(1) ok(2) sub(2)] by blast
  have parent: "units ord (2 * seg) \<subseteq> units (Suc ord) seg" "units ord (2 * seg + 1) \<subseteq> units (Suc ord) seg"
    by (auto simp: units_Suc)
  have large: "units (Suc ord) seg \<subseteq> units o' s'"
    if "Suc ord \<le> o'" "units ord h \<subseteq> units o' s'" "units ord h \<subseteq> units (Suc ord) seg" for o' s' h
    using that units_nonempty [of ord h] by (intro units_nested) blast+
  show ?case
  proof (cases "ord < o1 \<or> ord < o2")
    case True
    then show ?thesis using large b1 b2 parent by (meson Suc_leI)
  next
    case False
    then have eq: "o1 = ord" "o2 = ord" using b1(1) b2(1) by auto
    have same: "h = h'" if "units ord h \<subseteq> units ord h'" for h h'
      using that units_disjoint [of h h' ord] units_nonempty [of ord h] by blast
    have "s1 = 2 * seg" "s2 = 2 * seg + 1" using b1(3) b2(3) same unfolding eq by blast+
    moreover have "2 * seg XOR 1 = 2 * seg + 1" by (simp add: xor1_simps)
    moreover have "ord < max_order B" using Suc.prems(2) by (auto simp: block_ok_def)
    ultimately show ?thesis
      using Suc.prems(1) b1(2) b2(2) unfolding eq buddy_inv_def buddy_coalesced_def by metis
  qed
qed

lemma is_free_determined:
  assumes "buddy_inv B" "buddy_inv B'" "max_order B = max_order B'" "free_units B = free_units B'"
    and "is_free B ord seg"
  shows "is_free B' ord seg"
proof -
  have ok: "block_ok B ord seg" "block_ok B' ord seg"
    using is_free_block_ok [OF assms(5)] assms(3) by (auto simp: block_ok_def)
  obtain o1 s1 where b1: "ord \<le> o1" "is_free B' o1 s1" "units ord seg \<subseteq> units o1 s1"
    using free_range_covered [OF assms(2) ok(2)] is_free_units [OF assms(5)] assms(4) by auto
  have "block_ok B o1 s1" using is_free_block_ok [OF b1(2)] assms(3) by (simp add: block_ok_def)
  then obtain o2 s2 where b2: "o1 \<le> o2" "is_free B o2 s2" "units o1 s1 \<subseteq> units o2 s2"
    using free_range_covered [OF assms(1), of o1 s1] is_free_units [OF b1(2)] assms(4) by auto
  have "units ord seg \<inter> units o2 s2 \<noteq> {}" using b1(3) b2(3) units_nonempty [of ord seg] by blast
  then have "(o2, s2) = (ord, seg)"
    using assms(1,5) b2(2) unfolding buddy_inv_def buddy_disj_def by blast
  then have "o1 = ord" using b1(1) b2(1) by simp
  with b1 show ?thesis using units_disjoint [of seg s1 ord] units_nonempty [of ord seg] by blast
qed

lemma wf_ext:
  assumes "buddy_wf B" "buddy_wf B'" "max_order B = max_order B'"
    and "\<And>ord seg. is_free B ord seg = is_free B' ord seg"
  shows "B = (B' :: mlx5dr_icm_buddy_mem)"
proof -
  have row: "bitmap B ! ord = bitmap B' ! ord" if ord: "ord \<le> max_order B" for ord
  proof (rule nth_equalityI)
    show len: "length (bitmap B ! ord) = length (bitmap B' ! ord)"
      using assms(1-3) ord by (simp add: buddy_wf_def row_wf_def)
    fix i assume i: "i < length (bitmap B ! ord)"
    show "bitmap B ! ord ! i = bitmap B' ! ord ! i"
    proof (cases "i < 2 ^ (max_order B - ord)")
      case True
      with assms(4) [of ord i] ord assms(3) show ?thesis by (simp add: is_free_def)
    next
      case False
      with row_padding [OF assms(1) ord, of i] row_padding [OF assms(2), of ord i] ord i len assms(3)
      show ?thesis by simp
    qed
  qed
  then have "bitmap B = bitmap B'"
    using assms(1-3) by (intro nth_equalityI) (auto simp: buddy_wf_def)
  moreover from this have "num_free B = num_free B'"
    using assms(1-3) by (intro nth_equalityI) (auto simp: buddy_wf_def row_wf_def)
  ultimately show ?thesis using assms(3) by simp
qed

lemma buddy_canonical:
  assumes "buddy_inv B" "buddy_inv B'" "max_order B = max_order B'" "free_units B = free_units B'"
  shows "B = B'"
proof -
  have "is_free B ord seg = is_free B' ord seg" for ord seg
    using is_free_determined [OF assms] is_free_determined [OF assms(2,1) assms(3,4) [symmetric]] by blast
  moreover have "buddy_wf B" "buddy_wf B'" using assms(1,2) by (auto simp: buddy_inv_def)
  ultimately show ?thesis using wf_ext assms(3) by blast
qed

section \<open>The buddy allocator meets the contract\<close>

definition aligned_range :: "nat \<Rightarrow> nat \<times> nat \<Rightarrow> bool" where
  "aligned_range mo p \<longleftrightarrow> snd p \<le> mo \<and> 2 ^ snd p dvd fst p \<and> fst p < 2 ^ mo"

lemma span_units: "span (seg * 2 ^ ord, ord) = units ord seg"
  by (simp add: span_def units_def algebra_simps)

lemma aligned_range_block: "aligned_range (max_order B) (seg * 2 ^ ord, ord) \<longleftrightarrow> block_ok B ord seg"
proof (cases "ord \<le> max_order B")
  case True
  then have "(2::nat) ^ max_order B = 2 ^ (max_order B - ord) * 2 ^ ord"
    by (simp add: power_add [symmetric])
  then show ?thesis by (simp add: aligned_range_def block_ok_def True)
qed (simp add: aligned_range_def block_ok_def)

lemma alloc_granted_cases:
  assumes "buddy_inv B" "mlx5dr_buddy_alloc_mem B ord = Some (Inr seg, B')"
  obtains k where "seg = k * 2 ^ ord" "buddy_inv B'" "max_order B' = max_order B" "block_ok B ord k"
    "units ord k \<subseteq> free_units B" "free_units B' = free_units B - units ord k"
  using buddy_alloc_spec [OF assms(1), of ord] assms(2) by auto

interpretation icm: range_allocator
  mlx5dr_buddy_alloc_mem mlx5dr_buddy_free_mem
  "\<lambda>B. mo < 31 \<and> (\<exists>a b. mlx5dr_buddy_init a b mo = Inr B)"
  "\<lambda>B. buddy_inv B \<and> max_order B = mo" free_units "aligned_range mo" "{..< 2 ^ mo}"
  for mo
proof (unfold_locales, goal_cases)
  case (1 B)
  then show ?case using buddy_init_inv buddy_init_fields(1) by blast
next
  case (2 B ord)
  then show ?case using buddy_alloc_spec [of B ord] by auto
next
  case (3 B ord e B')
  then show ?case using buddy_alloc_spec [of B ord] by auto
next
  case (4 B ord seg B')
  then have inv: "buddy_inv B" "max_order B = mo" by auto
  from inv(1) 4(2) obtain k where k: "seg = k * 2 ^ ord" "buddy_inv B'" "max_order B' = max_order B"
    "block_ok B ord k" "units ord k \<subseteq> free_units B" "free_units B' = free_units B - units ord k"
    by (rule alloc_granted_cases)
  then show ?case using inv aligned_range_block [of B k ord] unfolding k(1) span_units by simp
next
  case (5 B seg ord)
  then obtain k where k: "seg = k * 2 ^ ord"
    by (metis aligned_range_def dvdE fst_conv mult.commute snd_conv)
  have ok: "block_ok B ord k" using 5 aligned_range_block [of B k ord] by (simp add: k)
  moreover have "units ord k \<inter> free_units B = {}" using 5(3) by (simp only: k span_units)
  ultimately show ?case using 5(1) buddy_free_spec [of B ord k] unfolding k span_units by blast
qed


section \<open>Properties\<close>

text \<open>
  \<open>mlx5dr_buddy_alloc_mem\<close> on any allocator that satisfies the invariant: it stays inside its
  arrays; it fails only with \<open>-ENOMEM\<close>, changing nothing, and only when no free block of the
  requested or a larger order exists; otherwise it returns the start of an aligned range that was
  free, and exactly that range stops being free, with the invariant kept.
\<close>

theorem buddy_alloc_mem_correct:
  assumes "buddy_inv B"
  shows "case mlx5dr_buddy_alloc_mem B ord of
      None \<Rightarrow> False
    | Some (Inl e, B') \<Rightarrow> e = ENOMEM \<and> B' = B \<and> (\<forall>o' s. ord \<le> o' \<longrightarrow> \<not> is_free B o' s)
    | Some (Inr seg, B') \<Rightarrow> buddy_inv B' \<and> max_order B' = max_order B \<and>
        aligned_range (max_order B) (seg, ord) \<and> span (seg, ord) \<subseteq> free_units B \<and>
        free_units B' = free_units B - span (seg, ord)"
proof -
  from buddy_alloc_spec [OF assms, of ord] show ?thesis
  proof (elim disjE exE conjE)
    fix k B'
    assume "mlx5dr_buddy_alloc_mem B ord = Some (Inr (k * 2 ^ ord), B')" "buddy_inv B'"
      "max_order B' = max_order B" "block_ok B ord k" "units ord k \<subseteq> free_units B"
      "free_units B' = free_units B - units ord k"
    then show ?thesis by (simp add: span_units aligned_range_block)
  qed simp
qed

definition example_buddy :: mlx5dr_icm_buddy_mem where
  "example_buddy = projr (mlx5dr_buddy_init True (\<lambda>_. True) 2)"

lemma example_buddy_init: "mlx5dr_buddy_init True (\<lambda>_. True) 2 = Inr example_buddy"
  by (simp add: example_buddy_def mlx5dr_buddy_init_def list_all_iff)

lemma example_buddy_inv: "buddy_inv example_buddy"
  by (rule buddy_init_inv [OF example_buddy_init]) simp

lemma example_buddy_free: "is_free example_buddy 2 0"
  using buddy_init_free [OF example_buddy_init] by simp

lemma example_buddy_units: "free_units example_buddy = {..< 4}" "max_order example_buddy = 2"
  using buddy_init_inv(2) [OF example_buddy_init] buddy_init_fields(1) [OF example_buddy_init] by simp_all

theorem buddy_alloc_mem_correct_witness:
  "\<exists>seg B'. mlx5dr_buddy_alloc_mem example_buddy 1 = Some (Inr seg, B') \<and>
     aligned_range 2 (seg, 1) \<and> free_units B' = {..< 4} - {seg, seg + 1}"
proof -
  have "span (seg, 1) = {seg, seg + 1}" for seg by (auto simp: span_def)
  moreover have "\<not> (\<forall>o' s. 1 \<le> o' \<longrightarrow> \<not> is_free example_buddy o' s)"
    using example_buddy_free by (metis one_le_numeral)
  ultimately show ?thesis
    using buddy_alloc_mem_correct [OF example_buddy_inv, of 1] example_buddy_units
    by (auto split: option.splits sum.splits prod.splits) (metis sum.exhaust)
qed

text \<open>
  \<open>mlx5dr_buddy_free_mem\<close> gives a range back: for an aligned range of the managed memory none of
  whose units is free, it stays inside its arrays (the merging loop never runs past the largest
  order), keeps the invariant, and frees exactly the units of the range.
\<close>

theorem buddy_free_mem_correct:
  assumes "buddy_inv B" "aligned_range (max_order B) (seg, ord)" "span (seg, ord) \<inter> free_units B = {}"
  shows "\<exists>B'. mlx5dr_buddy_free_mem B seg ord = Some B' \<and> buddy_inv B' \<and>
    max_order B' = max_order B \<and> free_units B' = free_units B \<union> span (seg, ord)"
proof -
  obtain k where k: "seg = k * 2 ^ ord" using assms(2) by (auto simp: aligned_range_def mult.commute)
  then show ?thesis
    using buddy_free_spec [OF assms(1), of ord k] assms(2,3) by (simp add: span_units aligned_range_block)
qed

theorem buddy_free_mem_correct_witness:
  "\<exists>seg B' B''. mlx5dr_buddy_alloc_mem example_buddy 1 = Some (Inr seg, B') \<and>
     mlx5dr_buddy_free_mem B' seg 1 = Some B'' \<and> free_units B'' = {..< 4}"
proof -
  have "\<exists>o' s. 1 \<le> o' \<and> is_free example_buddy o' s" using example_buddy_free by (metis one_le_numeral)
  with buddy_alloc_spec [OF example_buddy_inv, of 1] obtain k B' where
    "mlx5dr_buddy_alloc_mem example_buddy 1 = Some (Inr (k * 2 ^ 1), B')" "buddy_inv B'"
    "max_order B' = max_order example_buddy" "block_ok example_buddy 1 k"
    "units 1 k \<subseteq> free_units example_buddy" "free_units B' = free_units example_buddy - units 1 k"
    by blast
  moreover from this have "\<exists>B''. mlx5dr_buddy_free_mem B' (k * 2 ^ 1) 1 = Some B'' \<and>
      free_units B'' = free_units B' \<union> span (k * 2 ^ 1, 1)"
    using buddy_free_mem_correct [of B' "k * 2 ^ 1" 1] aligned_range_block [of example_buddy k 1]
    unfolding span_units by auto
  ultimately show ?thesis using example_buddy_units(1) unfolding span_units by blast
qed

text \<open>
  Round trip: releasing the range an allocation has just returned restores the allocator
  exactly, every bitmap and every counter, so the merging loop undoes the splitting loop.
\<close>

theorem buddy_alloc_free_roundtrip:
  assumes "buddy_inv B" "mlx5dr_buddy_alloc_mem B ord = Some (Inr seg, B')"
  shows "mlx5dr_buddy_free_mem B' seg ord = Some B"
proof -
  from assms obtain k where k: "seg = k * 2 ^ ord" "buddy_inv B'" "max_order B' = max_order B"
    "block_ok B ord k" "units ord k \<subseteq> free_units B" "free_units B' = free_units B - units ord k"
    by (rule alloc_granted_cases)
  have "block_ok B' ord k" "units ord k \<inter> free_units B' = {}" using k by (auto simp: block_ok_def)
  from buddy_free_spec [OF k(2) this] obtain B'' where B'':
    "mlx5dr_buddy_free_mem B' seg ord = Some B''" "buddy_inv B''" "max_order B'' = max_order B"
    "free_units B'' = free_units B' \<union> units ord k"
    using k(1,3) by auto
  have "free_units B'' = free_units B" using k(5,6) B''(4) by blast
  with B'' assms(1) buddy_canonical show ?thesis by blast
qed

theorem buddy_alloc_free_roundtrip_witness:
  "\<exists>seg B'. mlx5dr_buddy_alloc_mem example_buddy 0 = Some (Inr seg, B') \<and>
     mlx5dr_buddy_free_mem B' seg 0 = Some example_buddy"
proof -
  have "\<exists>seg B'. mlx5dr_buddy_alloc_mem example_buddy 0 = Some (Inr seg, B')"
    using buddy_alloc_spec [OF example_buddy_inv, of 0] example_buddy_free by blast
  then show ?thesis using buddy_alloc_free_roundtrip [OF example_buddy_inv, of 0] by blast
qed

text \<open>
  C1. Safety of every run: starting from a freshly initialised allocator and interleaving
  allocations with releases of ranges that are held, the ranges held at any time are aligned,
  inside the managed memory and pairwise disjoint, none of their units is still free, and a
  release of a held range never faults.
\<close>

theorem buddy_run_safe:
  assumes "mo < 31"
    and "reach (\<lambda>(B, live). mo < 31 \<and> (\<exists>a b. mlx5dr_buddy_init a b mo = Inr B) \<and> live = [])
      (client_step mlx5dr_buddy_alloc_mem mlx5dr_buddy_free_mem) (B, live)"
  shows "sorted_wrt apart live \<and>
    (\<forall>(seg, ord) \<in> set live. aligned_range mo (seg, ord) \<and> span (seg, ord) \<inter> free_units B = {} \<and>
       (\<exists>B'. mlx5dr_buddy_free_mem B seg ord = Some B'))"
proof -
  have "client_inv (\<lambda>B. buddy_inv B \<and> max_order B = mo) free_units (aligned_range mo) {..< 2 ^ mo} (B, live)"
    using icm.client.reach_invar [of mo "(B, live)"] assms(2) by (simp add: conj_assoc)
  with icm.release_of_live_succeeds [of mo B live] show ?thesis by (auto simp: client_inv_def)
qed

lemma example_reach:
  "\<exists>seg B'. reach (\<lambda>(B, live). 2 < (31::nat) \<and> (\<exists>a b. mlx5dr_buddy_init a b 2 = Inr B) \<and> live = [])
     (client_step mlx5dr_buddy_alloc_mem mlx5dr_buddy_free_mem) (B', [(seg, 0)])"
proof -
  obtain seg B' where "mlx5dr_buddy_alloc_mem example_buddy 0 = Some (Inr seg, B')"
    using buddy_alloc_spec [OF example_buddy_inv, of 0] example_buddy_free by blast
  then have "client_step mlx5dr_buddy_alloc_mem mlx5dr_buddy_free_mem (example_buddy, []) (B', [(seg, 0)])"
    by (rule client_alloc)
  moreover have "reach (\<lambda>(B, live). 2 < (31::nat) \<and> (\<exists>a b. mlx5dr_buddy_init a b 2 = Inr B) \<and> live = [])
     (client_step mlx5dr_buddy_alloc_mem mlx5dr_buddy_free_mem) (example_buddy, [])"
    using example_buddy_init by (intro reach_init) auto
  ultimately show ?thesis by (blast intro: reach_step)
qed

theorem buddy_run_safe_witness: "\<exists>seg B. aligned_range 2 (seg, 0) \<and> span (seg, 0) \<inter> free_units B = {}"
proof -
  obtain seg B where r: "reach (\<lambda>(B, live). 2 < (31::nat) \<and> (\<exists>a b. mlx5dr_buddy_init a b 2 = Inr B) \<and> live = [])
     (client_step mlx5dr_buddy_alloc_mem mlx5dr_buddy_free_mem) (B, [(seg, 0)])"
    using example_reach by blast
  from buddy_run_safe [OF _ r] show ?thesis by auto
qed

text \<open>
  C25. No memory leaks and no fragmentation survive: in every run, once the client holds nothing the
  allocator is back in its initial state, with a single free block of the largest order.
\<close>

theorem buddy_run_coalesces:
  assumes "mo < 31" "mlx5dr_buddy_init True (\<lambda>_. True) mo = Inr B0"
    and "reach (\<lambda>(B, live). mo < 31 \<and> (\<exists>a b. mlx5dr_buddy_init a b mo = Inr B) \<and> live = [])
      (client_step mlx5dr_buddy_alloc_mem mlx5dr_buddy_free_mem) (B, [])"
  shows "B = B0"
proof -
  have "client_inv (\<lambda>B. buddy_inv B \<and> max_order B = mo) free_units (aligned_range mo) {..< 2 ^ mo} (B, [])"
    using icm.client.reach_invar [of mo "(B, [])"] assms(3) by (simp add: conj_assoc)
  then have "buddy_inv B" "max_order B = mo" "free_units B = {..< 2 ^ mo}" by (auto simp: client_inv_def)
  moreover note buddy_init_inv [OF assms(2,1)] buddy_init_fields(1) [OF assms(2)]
  ultimately show ?thesis using buddy_canonical by simp
qed

theorem buddy_run_coalesces_witness:
  "\<exists>seg B' B''. mlx5dr_buddy_alloc_mem example_buddy 0 = Some (Inr seg, B') \<and>
     mlx5dr_buddy_free_mem B' seg 0 = Some B'' \<and> B'' = example_buddy"
proof -
  let ?init = "\<lambda>(B, live). 2 < (31::nat) \<and> (\<exists>a b. mlx5dr_buddy_init a b 2 = Inr B) \<and> live = []"
  let ?step = "client_step mlx5dr_buddy_alloc_mem mlx5dr_buddy_free_mem"
  obtain seg B' where a: "mlx5dr_buddy_alloc_mem example_buddy 0 = Some (Inr seg, B')"
    using buddy_alloc_spec [OF example_buddy_inv, of 0] example_buddy_free by blast
  have 0: "reach ?init ?step (example_buddy, [])" using example_buddy_init by (intro reach_init) auto
  have "?step (example_buddy, []) (B', [(seg, 0)])" using a by (rule client_alloc)
  with 0 have 1: "reach ?init ?step (B', [(seg, 0)])" by (rule reach_step)
  from buddy_free_mem_correct [of B' seg 0] alloc_granted_cases [OF example_buddy_inv a]
  obtain B'' where b: "mlx5dr_buddy_free_mem B' seg 0 = Some B''"
    by (metis Diff_disjoint aligned_range_block span_units)
  then have "?step (B', [(seg, 0)]) (B'', remove1 (seg, 0) [(seg, 0)])" by (intro client_release) auto
  with 1 have "reach ?init ?step (B'', remove1 (seg, 0) [(seg, 0)])" by (rule reach_step)
  then have "reach ?init ?step (B'', [])" by simp
  from buddy_run_coalesces [OF _ example_buddy_init this] a b show ?thesis by auto
qed

end
