(* ===== verification/Ft_Pool.thy ===== *)
theory Ft_Pool
  imports Mlx_Prelude "HOL-Library.Multiset"
begin

text \<open>
  The flow-table size pool, \<open>mlx5/core/fs_ft_pool.c\<close>, and the two firmware commands that use it,
  \<open>mlx5_cmd_create_flow_table\<close> and \<open>mlx5_cmd_destroy_flow_table\<close> of \<open>mlx5/core/fs_cmd.c\<close>.
  Flow tables come in five fixed sizes; the driver keeps, per size, how many tables it may still
  ask the firmware for.

  The lemmas show which size a request gets (the smallest sufficient one, or the largest one for
  \<open>POOL_NEXT_SIZE\<close>), that creating and destroying tables conserves the counters whatever the
  firmware answers, and that a table never costs a credit when its creation fails.
\<close>

section \<open>The pool\<close>

definition FT_SIZE :: nat where
  "FT_SIZE = 16 * 1024 * 1024"

definition FT_POOLS :: "nat list" where
  "FT_POOLS = [4 * 1024 * 1024, 1 * 1024 * 1024, 64 * 1024, 128, 1]"

definition POOL_NEXT_SIZE :: int where
  "POOL_NEXT_SIZE = 0"

record mlx5_ft_pool =
  ft_left :: "int list"

definition mlx5_ft_pool_init :: "bool \<Rightarrow> mlx5_ft_pool result" where
  "mlx5_ft_pool_init kzalloc_ok =
     (if \<not> kzalloc_ok then Inl ENOMEM
      else Inr \<lparr>ft_left = map (\<lambda>sz. int (FT_SIZE div sz)) FT_POOLS\<rparr>)"

text \<open>
  The loop of \<open>mlx5_ft_pool_get_avail_sz\<close> over the indices from the smallest size to the largest.
  \<open>FT_POOLS[i] >= desired_size\<close> compares an \<open>unsigned int\<close> with an \<open>int\<close>, so the desired size is
  converted to unsigned first.
\<close>

definition u32_of_int :: "int \<Rightarrow> nat" where
  "u32_of_int n = nat (n mod 2 ^ 32)"

fun ft_pool_scan :: "int list \<Rightarrow> nat \<Rightarrow> int \<Rightarrow> nat list \<Rightarrow> nat option \<Rightarrow> nat option" where
  "ft_pool_scan left max_ft_size desired_size [] found_i = found_i"
| "ft_pool_scan left max_ft_size desired_size (i # is) found_i =
     (if left ! i \<noteq> 0 \<and> FT_POOLS ! i \<ge> u32_of_int desired_size \<and> FT_POOLS ! i \<le> max_ft_size
      then (if desired_size \<noteq> POOL_NEXT_SIZE then Some i
            else ft_pool_scan left max_ft_size desired_size is (Some i))
      else ft_pool_scan left max_ft_size desired_size is found_i)"

definition mlx5_ft_pool_get_avail_sz :: "nat \<Rightarrow> mlx5_ft_pool \<Rightarrow> int \<Rightarrow> nat \<times> mlx5_ft_pool" where
  "mlx5_ft_pool_get_avail_sz log_max_ft_size pool desired_size =
     (let max_ft_size = 2 ^ log_max_ft_size in
      case ft_pool_scan (ft_left pool) max_ft_size desired_size (rev [0..<length FT_POOLS]) None of
        Some found_i \<Rightarrow> (FT_POOLS ! found_i,
          pool\<lparr>ft_left := (ft_left pool)[found_i := ft_left pool ! found_i - 1]\<rparr>)
      | None \<Rightarrow> (0, pool))"

fun ft_pool_put_scan :: "int list \<Rightarrow> int \<Rightarrow> nat list \<Rightarrow> int list" where
  "ft_pool_put_scan left sz [] = left"  \<comment> \<open>\<open>WARN_ONCE\<close>: no pool of that size\<close>
| "ft_pool_put_scan left sz (i # is) =
     (if u32_of_int sz = FT_POOLS ! i then left[i := left ! i + 1]
      else ft_pool_put_scan left sz is)"

definition mlx5_ft_pool_put_sz :: "mlx5_ft_pool \<Rightarrow> int \<Rightarrow> mlx5_ft_pool" where
  "mlx5_ft_pool_put_sz pool sz =
     (if sz = 0 then pool
      else pool\<lparr>ft_left := ft_pool_put_scan (ft_left pool) sz (rev [0..<length FT_POOLS])\<rparr>)"

section \<open>The firmware commands\<close>

datatype fs_flow_table_type =
    FS_FT_NIC_RX | FS_FT_NIC_TX | FS_FT_ESW_EGRESS_ACL | FS_FT_ESW_INGRESS_ACL | FS_FT_FDB
  | FS_FT_SNIFFER_RX | FS_FT_SNIFFER_TX | FS_FT_RDMA_RX | FS_FT_RDMA_TX | FS_FT_PORT_SEL

fun fs_flow_table_type_code :: "fs_flow_table_type \<Rightarrow> u8" where
  "fs_flow_table_type_code FS_FT_NIC_RX = 0x0"
| "fs_flow_table_type_code FS_FT_NIC_TX = 0x1"
| "fs_flow_table_type_code FS_FT_ESW_EGRESS_ACL = 0x2"
| "fs_flow_table_type_code FS_FT_ESW_INGRESS_ACL = 0x3"
| "fs_flow_table_type_code FS_FT_FDB = 0x4"
| "fs_flow_table_type_code FS_FT_SNIFFER_RX = 0x5"
| "fs_flow_table_type_code FS_FT_SNIFFER_TX = 0x6"
| "fs_flow_table_type_code FS_FT_RDMA_RX = 0x7"
| "fs_flow_table_type_code FS_FT_RDMA_TX = 0x8"
| "fs_flow_table_type_code FS_FT_PORT_SEL = 0x9"

datatype fs_flow_table_op_mod = FS_FT_OP_MOD_NORMAL | FS_FT_OP_MOD_LAG_DEMUX

datatype mlx5_flow_table_miss_action =
    MLX5_FLOW_TABLE_MISS_ACTION_DEF
  | MLX5_FLOW_TABLE_MISS_ACTION_FWD
  | MLX5_FLOW_TABLE_MISS_ACTION_SWITCH_DOMAIN

text \<open>The part of \<open>struct mlx5_flow_table\<close> the two commands read or write; \<open>flags\<close> by bit number.\<close>

record mlx5_flow_table =
  ft_id :: u32
  ft_vport :: u16
  ft_max_fte :: nat
  ft_level :: u32
  ft_type :: fs_flow_table_type
  ft_op_mod :: fs_flow_table_op_mod
  ft_flags :: u32
  ft_def_miss_action :: mlx5_flow_table_miss_action

abbreviation (input) "MLX5_FLOW_TABLE_TUNNEL_EN_REFORMAT \<equiv> 0 :: nat"
abbreviation (input) "MLX5_FLOW_TABLE_TUNNEL_EN_DECAP \<equiv> 1 :: nat"
abbreviation (input) "MLX5_FLOW_TABLE_TERMINATION \<equiv> 2 :: nat"
abbreviation (input) "MLX5_FLOW_TABLE_OTHER_VPORT \<equiv> 4 :: nat"

text \<open>The command mailbox; fields that are not set are zero, as the code's initialiser leaves them.\<close>

record create_flow_table_in =
  cft_uid :: u16
  cft_op_mod :: u16
  cft_table_type :: u8
  cft_level :: u8
  cft_log_size :: u8
  cft_vport_number :: u16
  cft_other_vport :: bool
  cft_decap_en :: bool
  cft_reformat_en :: bool
  cft_termination_table :: bool
  cft_table_miss_action :: mlx5_flow_table_miss_action
  cft_table_miss_id :: "24 word"
  cft_lag_master_next_table_id :: "24 word"

record destroy_flow_table_in =
  dft_table_type :: u8
  dft_table_id :: "24 word"
  dft_vport_number :: u16
  dft_other_vport :: bool

fun ilog2 :: "nat \<Rightarrow> nat" where
  "ilog2 n = (if n \<le> 1 then 0 else Suc (ilog2 (n div 2)))"

declare ilog2.simps [simp del]

definition create_flow_table_cmd ::
  "mlx5_flow_table \<Rightarrow> u16 \<Rightarrow> mlx5_flow_table option \<Rightarrow> nat \<Rightarrow> create_flow_table_in" where
  "create_flow_table_cmd ft uid next_ft sz = \<lparr>
     cft_uid = uid,
     cft_op_mod = (case ft_op_mod ft of FS_FT_OP_MOD_NORMAL \<Rightarrow> 0 | FS_FT_OP_MOD_LAG_DEMUX \<Rightarrow> 1),
     cft_table_type = fs_flow_table_type_code (ft_type ft),
     cft_level = ucast (ft_level ft),
     cft_log_size = of_nat (if sz \<noteq> 0 then ilog2 sz else 0),
     cft_vport_number = ft_vport ft,
     cft_other_vport = bit (ft_flags ft) MLX5_FLOW_TABLE_OTHER_VPORT,
     cft_decap_en = bit (ft_flags ft) MLX5_FLOW_TABLE_TUNNEL_EN_DECAP,
     cft_reformat_en = bit (ft_flags ft) MLX5_FLOW_TABLE_TUNNEL_EN_REFORMAT,
     cft_termination_table = bit (ft_flags ft) MLX5_FLOW_TABLE_TERMINATION,
     cft_table_miss_action =
       (case ft_op_mod ft of
          FS_FT_OP_MOD_NORMAL \<Rightarrow>
            (case next_ft of Some n \<Rightarrow> MLX5_FLOW_TABLE_MISS_ACTION_FWD | None \<Rightarrow> ft_def_miss_action ft)
        | FS_FT_OP_MOD_LAG_DEMUX \<Rightarrow> MLX5_FLOW_TABLE_MISS_ACTION_DEF),
     cft_table_miss_id =
       (case (ft_op_mod ft, next_ft) of (FS_FT_OP_MOD_NORMAL, Some n) \<Rightarrow> ucast (ft_id n) | _ \<Rightarrow> 0),
     cft_lag_master_next_table_id =
       (case (ft_op_mod ft, next_ft) of (FS_FT_OP_MOD_LAG_DEMUX, Some n) \<Rightarrow> ucast (ft_id n) | _ \<Rightarrow> 0)\<rparr>"

text \<open>
  The commands themselves. \<open>exec\<close> is \<open>mlx5_cmd_exec\<close> on this command: the error, or the
  \<open>table_id\<close> of the reply. \<open>log_max ty\<close> is \<open>MLX5_CAP_FLOWTABLE_TYPE(dev, log_max_ft_size, ty)\<close>.
\<close>

definition mlx5_cmd_create_flow_table ::
  "(fs_flow_table_type \<Rightarrow> nat) \<Rightarrow> (create_flow_table_in \<Rightarrow> (24 word) result) \<Rightarrow>
   mlx5_ft_pool \<Rightarrow> mlx5_flow_table \<Rightarrow> int \<Rightarrow> u16 \<Rightarrow> mlx5_flow_table option \<Rightarrow>
   mlx5_flow_table result \<times> mlx5_ft_pool" where
  "mlx5_cmd_create_flow_table log_max exec pool ft max_fte uid next_ft =
     (let (sz, pool1) = mlx5_ft_pool_get_avail_sz (log_max (ft_type ft)) pool max_fte in
      if sz = 0 then (Inl ENOSPC, pool1)
      else case exec (create_flow_table_cmd ft uid next_ft sz) of
             Inr table_id \<Rightarrow> (Inr (ft\<lparr>ft_id := ucast table_id, ft_max_fte := sz\<rparr>), pool1)
           | Inl err \<Rightarrow> (Inl err, mlx5_ft_pool_put_sz pool1 (int sz)))"

definition mlx5_cmd_destroy_flow_table ::
  "(destroy_flow_table_in \<Rightarrow> unit result) \<Rightarrow> mlx5_ft_pool \<Rightarrow> mlx5_flow_table \<Rightarrow>
   unit result \<times> mlx5_ft_pool" where
  "mlx5_cmd_destroy_flow_table exec pool ft =
     (case exec \<lparr>dft_table_type = fs_flow_table_type_code (ft_type ft), dft_table_id = ucast (ft_id ft),
                 dft_vport_number = ft_vport ft,
                 dft_other_vport = bit (ft_flags ft) MLX5_FLOW_TABLE_OTHER_VPORT\<rparr> of
        Inr u \<Rightarrow> (Inr u, mlx5_ft_pool_put_sz pool (int (ft_max_fte ft)))
      | Inl err \<Rightarrow> (Inl err, pool))"


section \<open>Specification\<close>

definition pool_wf :: "mlx5_ft_pool \<Rightarrow> bool" where
  "pool_wf pool \<longleftrightarrow> length (ft_left pool) = length FT_POOLS \<and> (\<forall>i < 5. 0 \<le> ft_left pool ! i)"

text \<open>Size class \<open>i\<close> can serve a request: it has credit, it is large enough, the device supports it.\<close>

definition eligible :: "mlx5_ft_pool \<Rightarrow> nat \<Rightarrow> int \<Rightarrow> nat \<Rightarrow> bool" where
  "eligible pool max_ft_size desired_size i \<longleftrightarrow> i < 5 \<and> 0 < ft_left pool ! i \<and>
     u32_of_int desired_size \<le> FT_POOLS ! i \<and> FT_POOLS ! i \<le> max_ft_size"

definition ft_take :: "mlx5_ft_pool \<Rightarrow> nat \<Rightarrow> mlx5_ft_pool" where
  "ft_take pool i = pool\<lparr>ft_left := (ft_left pool)[i := ft_left pool ! i - 1]\<rparr>"

definition ft_give :: "mlx5_ft_pool \<Rightarrow> nat \<Rightarrow> mlx5_ft_pool" where
  "ft_give pool i = pool\<lparr>ft_left := (ft_left pool)[i := ft_left pool ! i + 1]\<rparr>"

text \<open>The credit left for tables of \<open>sz\<close> entries.\<close>

definition credit :: "mlx5_ft_pool \<Rightarrow> nat \<Rightarrow> int" where
  "credit pool sz = (\<Sum>i \<leftarrow> [0..<5]. if FT_POOLS ! i = sz then ft_left pool ! i else 0)"

lemma upt5 [simp]: "[0..<5] = [0, 1, 2, 3, 4 :: nat]"
  by (simp add: upt_rec)

lemma cases5: "(i :: nat) < 5 \<Longrightarrow> i = 0 \<or> i = 1 \<or> i = 2 \<or> i = 3 \<or> i = 4"
  by arith

lemma all5: "(\<forall>i < 5. P i) \<longleftrightarrow> P 0 \<and> P 1 \<and> P 2 \<and> P 3 \<and> P (4 :: nat)"
  by (auto dest!: cases5)

lemma FT_POOLS_nth [simp]:
  "FT_POOLS ! 0 = 4194304" "FT_POOLS ! Suc 0 = 1048576" "FT_POOLS ! 2 = 65536"
  "FT_POOLS ! 3 = 128" "FT_POOLS ! 4 = 1" "length FT_POOLS = 5"
  by (simp_all add: FT_POOLS_def)

lemma FT_POOLS_less: "i < 5 \<Longrightarrow> j < 5 \<Longrightarrow> FT_POOLS ! i < FT_POOLS ! j \<longleftrightarrow> j < i"
  by (drule cases5, drule cases5) auto

lemma FT_POOLS_pos: "i < 5 \<Longrightarrow> 0 < FT_POOLS ! i \<and> FT_POOLS ! i < 2 ^ 31"
  by (drule cases5) auto

lemma FT_POOLS_inj: "i < 5 \<Longrightarrow> j < 5 \<Longrightarrow> FT_POOLS ! i = FT_POOLS ! j \<longleftrightarrow> i = j"
  using FT_POOLS_less [of i j] FT_POOLS_less [of j i] by (metis linorder_neq_iff)

lemma credit_index: "i < 5 \<Longrightarrow> credit pool (FT_POOLS ! i) = ft_left pool ! i"
  by (drule cases5) (auto simp: credit_def)

lemma credit_other: "sz \<notin> set FT_POOLS \<Longrightarrow> credit pool sz = 0"
  by (auto simp: credit_def FT_POOLS_def)

lemma pool_wf_cases:
  assumes "pool_wf pool"
  obtains a b c d e where "ft_left pool = [a, b, c, d, e]"
    "0 \<le> a" "0 \<le> b" "0 \<le> c" "0 \<le> d" "0 \<le> e"
proof -
  have "length (ft_left pool) = Suc (Suc (Suc (Suc (Suc 0))))" using assms by (simp add: pool_wf_def)
  then obtain a b c d e where "ft_left pool = [a, b, c, d, e]" by (auto simp: length_Suc_conv)
  with assms that show thesis by (simp add: pool_wf_def all5)
qed

section \<open>Taking and giving back\<close>

lemma eligible_alt:
  assumes "pool_wf pool"
  shows "eligible pool m d i \<longleftrightarrow>
    i < 5 \<and> ft_left pool ! i \<noteq> 0 \<and> u32_of_int d \<le> FT_POOLS ! i \<and> FT_POOLS ! i \<le> m"
  using assms unfolding eligible_def pool_wf_def by (metis order_less_le)

text \<open>The scan finds the last eligible class in the table order, or the first one for \<open>POOL_NEXT_SIZE\<close>.\<close>

definition scan_guard :: "int list \<Rightarrow> nat \<Rightarrow> int \<Rightarrow> nat \<Rightarrow> bool" where
  "scan_guard left m d i \<longleftrightarrow> left ! i \<noteq> 0 \<and> FT_POOLS ! i \<ge> u32_of_int d \<and> FT_POOLS ! i \<le> m"

lemma ft_pool_scan_break:
  assumes "d \<noteq> POOL_NEXT_SIZE" "sorted_wrt (>) is"
  shows "case ft_pool_scan left m d is None of
      None \<Rightarrow> \<forall>i \<in> set is. \<not> scan_guard left m d i
    | Some k \<Rightarrow> k \<in> set is \<and> scan_guard left m d k \<and> (\<forall>j \<in> set is. scan_guard left m d j \<longrightarrow> j \<le> k)"
  using assms
proof (induction "is")
  case (Cons i "is")
  then show ?case by (cases "scan_guard left m d i") (auto simp: scan_guard_def split: option.splits)
qed simp

lemma ft_pool_scan_next:
  assumes "sorted_wrt (>) is" "\<And>k. found = Some k \<Longrightarrow> scan_guard left m POOL_NEXT_SIZE k \<and> (\<forall>i \<in> set is. i < k)"
  shows "case ft_pool_scan left m POOL_NEXT_SIZE is found of
      None \<Rightarrow> found = None \<and> (\<forall>i \<in> set is. \<not> scan_guard left m POOL_NEXT_SIZE i)
    | Some k \<Rightarrow> (k \<in> set is \<or> found = Some k) \<and> scan_guard left m POOL_NEXT_SIZE k \<and>
        (\<forall>j \<in> set is. scan_guard left m POOL_NEXT_SIZE j \<longrightarrow> k \<le> j)"
  using assms
proof (induction "is" arbitrary: found)
  case (Cons i "is")
  show ?case
  proof (cases "scan_guard left m POOL_NEXT_SIZE i")
    case True
    with Cons.IH [of "Some i"] Cons.prems(1)
    have "case ft_pool_scan left m POOL_NEXT_SIZE is (Some i) of None \<Rightarrow> False
      | Some k \<Rightarrow> (k \<in> set is \<or> i = k) \<and> scan_guard left m POOL_NEXT_SIZE k \<and>
          (\<forall>j \<in> set is. scan_guard left m POOL_NEXT_SIZE j \<longrightarrow> k \<le> j)"
      by (auto split: option.splits)
    with True Cons.prems(1) show ?thesis by (fastforce simp: scan_guard_def split: option.splits)
  next
    case False
    with Cons.IH [of found] Cons.prems show ?thesis
      by (fastforce simp: scan_guard_def split: option.splits)
  qed
qed (auto split: option.splits)

lemma ft_pool_scan_spec:
  assumes "pool_wf pool"
  shows "case ft_pool_scan (ft_left pool) m d (rev [0..<length FT_POOLS]) None of
      None \<Rightarrow> \<forall>i. \<not> eligible pool m d i
    | Some k \<Rightarrow> eligible pool m d k \<and>
        (\<forall>j. eligible pool m d j \<longrightarrow> (if d \<noteq> POOL_NEXT_SIZE then j \<le> k else k \<le> j))"
proof -
  let ?is = "rev [0..<length FT_POOLS]"
  have E: "eligible pool m d i \<longleftrightarrow> i \<in> set ?is \<and> scan_guard (ft_left pool) m d i" for i
    by (auto simp: eligible_alt [OF assms] scan_guard_def)
  have sorted: "sorted_wrt (>) ?is" by simp
  show ?thesis
  proof (cases "d = POOL_NEXT_SIZE")
    case True
    with ft_pool_scan_next [OF sorted, of None "ft_left pool" m] show ?thesis
      unfolding E by (auto simp del: upt5 split: option.splits)
  next
    case False
    from ft_pool_scan_break [OF this sorted, of "ft_left pool" m] False show ?thesis
      unfolding E by (auto simp del: upt5 split: option.splits)
  qed
qed

lemma get_avail_sz_cases:
  assumes "pool_wf pool"
  obtains (none) "mlx5_ft_pool_get_avail_sz lm pool d = (0, pool)" "\<And>i. \<not> eligible pool (2 ^ lm) d i"
  | (some) k where "mlx5_ft_pool_get_avail_sz lm pool d = (FT_POOLS ! k, ft_take pool k)"
      "eligible pool (2 ^ lm) d k"
      "\<And>j. eligible pool (2 ^ lm) d j \<Longrightarrow> if d \<noteq> POOL_NEXT_SIZE then j \<le> k else k \<le> j"
proof (cases "ft_pool_scan (ft_left pool) (2 ^ lm) d (rev [0..<length FT_POOLS]) None")
  case None
  with ft_pool_scan_spec [OF assms, of "2 ^ lm" d] show thesis
    by (intro none) (auto simp: mlx5_ft_pool_get_avail_sz_def Let_def)
next
  case (Some k)
  with ft_pool_scan_spec [OF assms, of "2 ^ lm" d] show thesis
    by (intro some [of k]) (auto simp: mlx5_ft_pool_get_avail_sz_def ft_take_def Let_def)
qed

lemma u32_of_int_small: "0 \<le> n \<Longrightarrow> n < 2 ^ 32 \<Longrightarrow> u32_of_int n = nat n"
  by (simp add: u32_of_int_def)

lemma put_sz_index:
  assumes "i < 5"
  shows "mlx5_ft_pool_put_sz pool (int (FT_POOLS ! i)) = ft_give pool i"
proof -
  have "u32_of_int (int (FT_POOLS ! i)) = FT_POOLS ! i" "FT_POOLS ! i \<noteq> 0"
    using FT_POOLS_pos [OF assms] by (auto simp: u32_of_int_small)
  then show ?thesis using cases5 [OF assms]
    by (auto simp: mlx5_ft_pool_put_sz_def ft_give_def)
qed

lemma ft_take_give [simp]:
  "pool_wf pool \<Longrightarrow> i < 5 \<Longrightarrow> ft_give (ft_take pool i) i = pool"
  by (simp add: ft_give_def ft_take_def pool_wf_def)

lemma wf_take: "pool_wf pool \<Longrightarrow> eligible pool m d i \<Longrightarrow> pool_wf (ft_take pool i)"
  by (auto simp: pool_wf_def ft_take_def eligible_def nth_list_update)

lemma wf_give: "pool_wf pool \<Longrightarrow> i < 5 \<Longrightarrow> pool_wf (ft_give pool i)"
  by (auto simp: pool_wf_def ft_give_def nth_list_update intro: add_nonneg_nonneg)

lemma credit_take:
  assumes "pool_wf pool" "i < 5"
  shows "credit (ft_take pool i) sz = credit pool sz - (if sz = FT_POOLS ! i then 1 else 0)"
  using assms cases5 [OF assms(2)]
  by (elim disjE) (simp_all add: credit_def ft_take_def pool_wf_def nth_list_update)

lemma credit_give:
  assumes "pool_wf pool" "i < 5"
  shows "credit (ft_give pool i) sz = credit pool sz + (if sz = FT_POOLS ! i then 1 else 0)"
  using assms cases5 [OF assms(2)]
  by (elim disjE) (simp_all add: credit_def ft_give_def pool_wf_def nth_list_update)


section \<open>The pool's contract\<close>

text \<open>
  What the command layer relies on: a request is refused with size 0 and no change, or takes one
  unit of credit of a known size; returning a size adds one unit.
\<close>

locale size_pool =
  fixes get :: "'p \<Rightarrow> 'r \<Rightarrow> nat \<times> 'p"
    and put :: "'p \<Rightarrow> nat \<Rightarrow> 'p"
    and invar :: "'p \<Rightarrow> bool"
    and credits :: "'p \<Rightarrow> nat \<Rightarrow> int"
    and sizes :: "nat set"
  assumes refused: "invar p \<Longrightarrow> get p r = (0, p') \<Longrightarrow> p' = p"
    and granted: "invar p \<Longrightarrow> get p r = (sz, p') \<Longrightarrow> sz \<noteq> 0 \<Longrightarrow>
      sz \<in> sizes \<and> invar p' \<and> 0 < credits p sz \<and> credits p' = (credits p)(sz := credits p sz - 1)"
    and returned: "invar p \<Longrightarrow> sz \<in> sizes \<Longrightarrow>
      invar (put p sz) \<and> credits (put p sz) = (credits p)(sz := credits p sz + 1)"
begin

text \<open>The commands' use of the pool: take a size, run \<open>exec\<close>, give the size back if it fails.\<close>

lemma failed_use_costs_nothing:
  assumes "invar p" "get p r = (sz, p')" "sz \<noteq> 0"
  shows "invar (put p' sz)" "credits (put p' sz) = credits p"
  using granted [OF assms] returned [of p' sz] by auto

lemma credits_nonneg_after_get:
  assumes "invar p" "get p r = (sz, p')" "\<forall>s. 0 \<le> credits p s"
  shows "0 \<le> credits p' s"
  using assms refused [OF assms(1), of r p'] granted [OF assms(1,2)] by (cases "sz = 0") auto

end

interpretation ftp: size_pool
  "\<lambda>pool (lm, d). mlx5_ft_pool_get_avail_sz lm pool d" "\<lambda>pool sz. mlx5_ft_pool_put_sz pool (int sz)"
  pool_wf credit "set FT_POOLS"
proof (unfold_locales, goal_cases)
  case (1 p r p')
  obtain lm d where r: "r = (lm, d)" by (cases r)
  from 1(1) show ?case
  proof (cases rule: get_avail_sz_cases [of p lm d])
    case (some k)
    with 1(2) FT_POOLS_pos [of k] show ?thesis by (simp add: r eligible_def)
  qed (use 1(2) r in simp)
next
  case (2 p r sz p')
  obtain lm d where r: "r = (lm, d)" by (cases r)
  from 2(1) show ?case
  proof (cases rule: get_avail_sz_cases [of p lm d])
    case none
    with 2(2,3) show ?thesis by (simp add: r)
  next
    case (some k)
    then have k: "k < 5" "0 < ft_left p ! k" by (auto simp: eligible_def)
    have eq: "sz = FT_POOLS ! k" "p' = ft_take p k" using some(1) 2(2) r by auto
    have "FT_POOLS ! k \<in> set FT_POOLS" using k(1) by (intro nth_mem) simp
    moreover have "credit (ft_take p k) = (credit p)(sz := credit p sz - 1)"
      using credit_take [OF 2(1) k(1)] by (auto simp: eq)
    ultimately show ?thesis
      using wf_take [OF 2(1) some(2)] k by (simp add: eq credit_index)
  qed
next
  case (3 p sz)
  then obtain i where i: "i < 5" "sz = FT_POOLS ! i" by (auto simp: in_set_conv_nth)
  have "credit (ft_give p i) = (credit p)(sz := credit p sz + 1)"
    using credit_give [OF 3(1) i(1)] by (auto simp: i(2))
  with wf_give [OF 3(1) i(1)] show ?case by (simp add: i put_sz_index)
qed

section \<open>Runs of the command layer\<close>

inductive ft_step :: "mlx5_ft_pool \<times> mlx5_flow_table list \<Rightarrow> mlx5_ft_pool \<times> mlx5_flow_table list \<Rightarrow> bool" where
  ft_created: "mlx5_cmd_create_flow_table lm exec pool ft d uid nx = (Inr ft', pool') \<Longrightarrow>
     ft_step (pool, live) (pool', ft' # live)"
| ft_not_created: "mlx5_cmd_create_flow_table lm exec pool ft d uid nx = (Inl e, pool') \<Longrightarrow>
     ft_step (pool, live) (pool', live)"
| ft_destroyed: "ft \<in> set live \<Longrightarrow> mlx5_cmd_destroy_flow_table exec' pool ft = (Inr u, pool') \<Longrightarrow>
     ft_step (pool, live) (pool', remove1 ft live)"
| ft_not_destroyed: "ft \<in> set live \<Longrightarrow> mlx5_cmd_destroy_flow_table exec' pool ft = (Inl e, pool') \<Longrightarrow>
     ft_step (pool, live) (pool', live)"

definition live_of_size :: "mlx5_flow_table list \<Rightarrow> nat \<Rightarrow> nat" where
  "live_of_size live sz = count_list (map ft_max_fte live) sz"

definition ft_run_inv :: "mlx5_ft_pool \<times> mlx5_flow_table list \<Rightarrow> bool" where
  "ft_run_inv st \<longleftrightarrow> pool_wf (fst st) \<and> (\<forall>ft \<in> set (snd st). ft_max_fte ft \<in> set FT_POOLS) \<and>
     (\<forall>sz \<in> set FT_POOLS. credit (fst st) sz + int (live_of_size (snd st) sz) = int (FT_SIZE div sz))"

lemma live_of_size_remove1:
  assumes "ft \<in> set live"
  shows "live_of_size live sz = live_of_size (remove1 ft live) sz + (if ft_max_fte ft = sz then 1 else 0)"
  using assms by (induction live) (auto simp: live_of_size_def)

lemma create_cases:
  assumes "pool_wf pool"
  obtains (full) "mlx5_cmd_create_flow_table lm exec pool ft d uid nx = (Inl ENOSPC, pool)"
      "fst (mlx5_ft_pool_get_avail_sz (lm (ft_type ft)) pool d) = 0"
  | (refused) e pool' where "mlx5_cmd_create_flow_table lm exec pool ft d uid nx = (Inl e, pool')"
      "pool_wf pool'" "credit pool' = credit pool"
  | (created) sz pool' id where "mlx5_cmd_create_flow_table lm exec pool ft d uid nx =
        (Inr (ft\<lparr>ft_id := ucast (id :: 24 word), ft_max_fte := sz\<rparr>), pool')"
      "mlx5_ft_pool_get_avail_sz (lm (ft_type ft)) pool d = (sz, pool')" "sz \<noteq> 0"
proof -
  obtain sz pool' where g: "mlx5_ft_pool_get_avail_sz (lm (ft_type ft)) pool d = (sz, pool')"
    by (cases "mlx5_ft_pool_get_avail_sz (lm (ft_type ft)) pool d")
  show thesis
  proof (cases "sz = 0")
    case True
    with g ftp.refused [OF assms, of "(lm (ft_type ft), d)"] show thesis
      by (intro full) (simp_all add: mlx5_cmd_create_flow_table_def)
  next
    case False
    note u = ftp.failed_use_costs_nothing [OF assms, of "(lm (ft_type ft), d)" sz pool']
    show thesis
    proof (cases "exec (create_flow_table_cmd ft uid nx sz)")
      case (Inl e)
      with g False u show thesis by (intro refused [of e "mlx5_ft_pool_put_sz pool' (int sz)"])
          (simp_all add: mlx5_cmd_create_flow_table_def)
    next
      case (Inr id)
      with g False show thesis by (intro created [of sz id pool']) (simp_all add: mlx5_cmd_create_flow_table_def)
    qed
  qed
qed

lemma ft_create_inv:
  assumes "ft_run_inv (pool, live)" "mlx5_cmd_create_flow_table lm exec pool ft d uid nx = (r, pool')"
  shows "ft_run_inv (pool', case r of Inr ft' \<Rightarrow> ft' # live | Inl e \<Rightarrow> live)"
proof -
  have wf: "pool_wf pool" using assms(1) by (simp add: ft_run_inv_def)
  from wf show ?thesis
  proof (cases rule: create_cases [of pool lm exec ft d uid nx])
    case (created sz pool'' id)
    from ftp.granted [OF wf, of "(lm (ft_type ft), d)" sz pool''] created assms
    show ?thesis by (auto simp: ft_run_inv_def live_of_size_def)
  qed (use assms in \<open>auto simp: ft_run_inv_def\<close>)
qed

lemma ft_destroy_inv:
  assumes "ft_run_inv (pool, live)" "ft \<in> set live" "mlx5_cmd_destroy_flow_table exec pool ft = (r, pool')"
  shows "ft_run_inv (pool', case r of Inr u \<Rightarrow> remove1 ft live | Inl e \<Rightarrow> live)"
proof (cases r)
  case (Inl e)
  with assms show ?thesis by (auto simp: mlx5_cmd_destroy_flow_table_def split: sum.splits)
next
  case (Inr u)
  with assms(3) have p: "pool' = mlx5_ft_pool_put_sz pool (int (ft_max_fte ft))"
    by (auto simp: mlx5_cmd_destroy_flow_table_def split: sum.splits)
  have "pool_wf pool" "ft_max_fte ft \<in> set FT_POOLS" using assms(1,2) by (auto simp: ft_run_inv_def)
  from ftp.returned [OF this] assms(1,2) show ?thesis
    by (auto simp: Inr p ft_run_inv_def live_of_size_remove1 [OF assms(2)] dest: notin_set_remove1)
qed

interpretation ft_run: invariant_system
  "\<lambda>(pool, live). mlx5_ft_pool_init True = Inr pool \<and> live = []" ft_step ft_run_inv
proof (unfold_locales, goal_cases)
  case (1 st)
  then show ?case
    by (auto simp: mlx5_ft_pool_init_def ft_run_inv_def pool_wf_def live_of_size_def FT_POOLS_def
        FT_SIZE_def credit_def all5)
next
  case (2 st st')
  from 2(2,1) show ?case
    by cases (auto dest: ft_create_inv ft_destroy_inv)
qed


section \<open>Properties\<close>

text \<open>
  Which size \<open>mlx5_ft_pool_get_avail_sz\<close> picks. It returns 0 and changes nothing exactly when no
  size class with credit fits between the desired size and the device limit. Otherwise it takes
  one unit of credit from one such class: for a positive request the smallest sufficient size,
  for \<open>POOL_NEXT_SIZE\<close> the largest one available.
\<close>

theorem ft_pool_get_avail_sz_picks:
  assumes "pool_wf pool" "0 \<le> desired" "desired < 2 ^ 31"
  shows "case mlx5_ft_pool_get_avail_sz lm pool desired of (sz, pool') \<Rightarrow>
    (sz = 0 \<and> pool' = pool \<and> (\<forall>i. \<not> eligible pool (2 ^ lm) desired i)) \<or>
    (\<exists>k. eligible pool (2 ^ lm) desired k \<and> sz = FT_POOLS ! k \<and> nat desired \<le> sz \<and> pool' = ft_take pool k \<and>
      (\<forall>j. eligible pool (2 ^ lm) desired j \<longrightarrow>
         (if 0 < desired then sz \<le> FT_POOLS ! j else FT_POOLS ! j \<le> sz)))"
proof -
  have order: "i \<le> j \<longleftrightarrow> FT_POOLS ! j \<le> FT_POOLS ! i"
    if "eligible pool (2 ^ lm) desired i" "eligible pool (2 ^ lm) desired j" for i j
    using that FT_POOLS_less [of i j] by (auto simp: eligible_def linorder_not_less [symmetric])
  from assms(1) show ?thesis
  proof (cases rule: get_avail_sz_cases [of pool lm desired])
    case (some k)
    have "nat desired \<le> FT_POOLS ! k"
      using some(2) assms(2,3) by (simp add: eligible_def u32_of_int_small)
    moreover have "if 0 < desired then FT_POOLS ! k \<le> FT_POOLS ! j else FT_POOLS ! j \<le> FT_POOLS ! k"
      if "eligible pool (2 ^ lm) desired j" for j
      using some(2) some(3) [OF that] order [OF that some(2)] order [OF some(2) that] assms(2)
      by (auto simp: POOL_NEXT_SIZE_def split: if_splits)
    ultimately show ?thesis using some(1,2) by (simp add: some(1)) blast
  qed simp
qed

definition example_pool :: mlx5_ft_pool where
  "example_pool = \<lparr>ft_left = [4, 16, 256, 131072, 16777216]\<rparr>"

lemma example_pool_wf: "pool_wf example_pool"
  by (simp add: pool_wf_def example_pool_def all5)

theorem ft_pool_get_avail_sz_picks_witness:
  "fst (mlx5_ft_pool_get_avail_sz 20 example_pool 100) = 128 \<and>
   fst (mlx5_ft_pool_get_avail_sz 20 example_pool POOL_NEXT_SIZE) = 1048576 \<and>
   100 \<le> fst (mlx5_ft_pool_get_avail_sz 20 example_pool 100)"
proof -
  have "fst (mlx5_ft_pool_get_avail_sz 20 example_pool 100) = 128"
    "fst (mlx5_ft_pool_get_avail_sz 20 example_pool POOL_NEXT_SIZE) = 1048576"
    by (simp_all add: mlx5_ft_pool_get_avail_sz_def example_pool_def POOL_NEXT_SIZE_def u32_of_int_def)
  moreover from ft_pool_get_avail_sz_picks [OF example_pool_wf, of 100 20] this
  have "100 \<le> fst (mlx5_ft_pool_get_avail_sz 20 example_pool 100)" by (auto split: prod.splits)
  ultimately show ?thesis by simp
qed

text \<open>
  Creating a flow table, whatever the firmware answers: on failure the credit of every size
  class is what it was before, and on success the table records the size it was given, that size
  covers the requested number of entries, and exactly one unit of its credit is used up.
\<close>

theorem create_flow_table_credit:
  assumes "pool_wf pool" "0 \<le> max_fte" "max_fte < 2 ^ 31"
  shows "case mlx5_cmd_create_flow_table lm exec pool ft max_fte uid next_ft of
      (Inl e, pool') \<Rightarrow> pool_wf pool' \<and> credit pool' = credit pool
    | (Inr ft', pool') \<Rightarrow> pool_wf pool' \<and> nat max_fte \<le> ft_max_fte ft' \<and>
        0 < credit pool (ft_max_fte ft') \<and>
        credit pool' = (credit pool)(ft_max_fte ft' := credit pool (ft_max_fte ft') - 1)"
  using assms(1)
proof (cases rule: create_cases [of pool lm exec ft max_fte uid next_ft])
  case (created sz pool' id)
  have "nat max_fte \<le> sz"
    using assms(1)
  proof (cases rule: get_avail_sz_cases [of pool "lm (ft_type ft)" max_fte])
    case none
    with created show ?thesis by simp
  next
    case (some k)
    with created assms(2,3) show ?thesis by (simp add: eligible_def u32_of_int_small)
  qed
  with created ftp.granted [OF assms(1), of "(lm (ft_type ft), max_fte)" sz pool'] show ?thesis by simp
qed (use assms(1) in simp_all)

definition example_ft :: mlx5_flow_table where
  "example_ft = \<lparr>ft_id = 0, ft_vport = 0, ft_max_fte = 0, ft_level = 1, ft_type = FS_FT_FDB,
     ft_op_mod = FS_FT_OP_MOD_NORMAL, ft_flags = 0,
     ft_def_miss_action = MLX5_FLOW_TABLE_MISS_ACTION_DEF\<rparr>"

theorem create_flow_table_credit_witness:
  "credit (snd (mlx5_cmd_create_flow_table (\<lambda>_. 20) (\<lambda>_. Inr 7) example_pool example_ft 1000 0 None)) 65536 = 255 \<and>
   credit (snd (mlx5_cmd_create_flow_table (\<lambda>_. 20) (\<lambda>_. Inl (EFW 5)) example_pool example_ft 1000 0 None)) 65536 = 256"
proof -
  have c: "credit example_pool 65536 = 256" by (simp add: credit_def example_pool_def)
  have g: "mlx5_ft_pool_get_avail_sz 20 example_pool 1000 = (65536, ft_take example_pool 2)"
    by (simp add: mlx5_ft_pool_get_avail_sz_def example_pool_def u32_of_int_def ft_take_def POOL_NEXT_SIZE_def)
  have "fst (mlx5_cmd_create_flow_table (\<lambda>_. 20) (\<lambda>_. Inr 7) example_pool example_ft 1000 0 None) =
      Inr (example_ft\<lparr>ft_id := 7, ft_max_fte := 65536\<rparr>)"
    "fst (mlx5_cmd_create_flow_table (\<lambda>_. 20) (\<lambda>_. Inl (EFW 5)) example_pool example_ft 1000 0 None) =
      Inl (EFW 5)"
    using g by (simp_all add: mlx5_cmd_create_flow_table_def)
  with c create_flow_table_credit [OF example_pool_wf, of 1000 "\<lambda>_. 20" "\<lambda>_. Inr 7" example_ft 0 None]
    create_flow_table_credit [OF example_pool_wf, of 1000 "\<lambda>_. 20" "\<lambda>_. Inl (EFW 5)" example_ft 0 None]
  show ?thesis by (auto split: prod.splits)
qed

text \<open>
  C17. Conservation over whole runs: after any sequence of creations and destructions of flow tables,
  successful or refused by the firmware, each size class satisfies credit left plus live tables of
  that size equals the class's share of the firmware memory; in particular no class is ever
  over-committed.
\<close>

theorem ft_pool_conserved:
  assumes "reach (\<lambda>(pool, live). mlx5_ft_pool_init True = Inr pool \<and> live = []) ft_step (pool, live)"
    and "i < length FT_POOLS"
  shows "ft_left pool ! i + int (live_of_size live (FT_POOLS ! i)) = int (FT_SIZE div FT_POOLS ! i) \<and>
    0 \<le> ft_left pool ! i \<and> live_of_size live (FT_POOLS ! i) * FT_POOLS ! i \<le> FT_SIZE"
proof -
  have I: "ft_run_inv (pool, live)" using ft_run.reach_invar [OF assms(1)] .
  have i: "i < 5" "FT_POOLS ! i \<in> set FT_POOLS" using assms(2) nth_mem by (simp, blast)
  have eq: "ft_left pool ! i + int (live_of_size live (FT_POOLS ! i)) = int (FT_SIZE div FT_POOLS ! i)"
    and nn: "0 \<le> ft_left pool ! i"
    using I i by (auto simp: ft_run_inv_def credit_index [symmetric] pool_wf_def)
  have "live_of_size live (FT_POOLS ! i) \<le> FT_SIZE div FT_POOLS ! i" using eq nn by linarith
  then have "live_of_size live (FT_POOLS ! i) * FT_POOLS ! i \<le> FT_SIZE div FT_POOLS ! i * FT_POOLS ! i"
    by (rule mult_right_mono) simp
  also have "\<dots> \<le> FT_SIZE" by (rule div_times_less_eq_dividend)
  finally show ?thesis using eq nn by blast
qed

theorem ft_pool_conserved_witness:
  "ft_left (snd (mlx5_cmd_create_flow_table (\<lambda>_. 20) (\<lambda>_. Inr 7) example_pool example_ft 1000 0 None)) ! 2 = 255"
proof -
  let ?c = "mlx5_cmd_create_flow_table (\<lambda>_. 20) (\<lambda>_. Inr 7) example_pool example_ft 1000 0 None"
  have init: "mlx5_ft_pool_init True = Inr example_pool"
    by (simp add: mlx5_ft_pool_init_def example_pool_def FT_SIZE_def FT_POOLS_def)
  have "mlx5_ft_pool_get_avail_sz 20 example_pool 1000 = (65536, ft_take example_pool 2)"
    by (simp add: mlx5_ft_pool_get_avail_sz_def example_pool_def u32_of_int_def ft_take_def POOL_NEXT_SIZE_def)
  then have c: "?c = (Inr (example_ft\<lparr>ft_id := 7, ft_max_fte := 65536\<rparr>), ft_take example_pool 2)"
    by (simp add: mlx5_cmd_create_flow_table_def)
  have "reach (\<lambda>(pool, live). mlx5_ft_pool_init True = Inr pool \<and> live = []) ft_step (example_pool, [])"
    using init by (intro reach_init) simp
  then have "reach (\<lambda>(pool, live). mlx5_ft_pool_init True = Inr pool \<and> live = []) ft_step
      (ft_take example_pool 2, [example_ft\<lparr>ft_id := 7, ft_max_fte := 65536\<rparr>])"
    using ft_created [OF c] by (rule reach_step)
  from ft_pool_conserved [OF this, of 2] c show ?thesis
    by (simp add: live_of_size_def FT_SIZE_def)
qed

end
