(* ===== verification/Smi.thy ===== *)
theory Smi
  imports Mlx_Prelude
begin

text \<open>
  The subnet management interface: directed-route SMPs, \<open>drivers/infiniband/core/smi.c\<close>,
  \<open>smi.h\<close> and \<open>opa_smi.h\<close>, with the callers in \<open>mad.c\<close> that move such a packet through a node
  (\<open>handle_ib_smi\<close>, \<open>handle_opa_smi\<close>, and the routing part of \<open>handle_outgoing_dr_smp\<close>).

  A directed-route SMP carries its path: \<open>initial_path[1..hop_cnt]\<close> are the ports it leaves the
  nodes by, and every node writes the port it came in by to \<open>return_path\<close>. The lemmas show that no
  access leaves the 64-entry path arrays, that a request visits its path hop by hop and is
  delivered with the complete return path recorded, and that the response travels back along it.

  \<open>hop_ptr\<close>, \<open>hop_cnt\<close> and the path entries are unsigned bytes; they are \<open>nat\<close> here, with the
  truncation to 8 bits written out where the code stores one.
\<close>

section \<open>Packets\<close>

definition IB_SMP_MAX_PATH_HOPS :: nat where
  "IB_SMP_MAX_PATH_HOPS = 64"

text \<open>
  The fields of \<open>struct ib_smp\<close> and \<open>struct opa_smp\<close> that the routing code looks at; the two differ
  in the width of their local identifiers only.
\<close>

record 'lid smp =
  smp_class_version :: nat
  smp_base_version :: nat
  smp_status :: u16
  hop_ptr :: nat
  hop_cnt :: nat
  dr_slid :: 'lid
  dr_dlid :: 'lid
  initial_path :: "nat list"
  return_path :: "nat list"

type_synonym ib_smp = "u16 smp"
type_synonym opa_smp = "u32 smp"

definition IB_LID_PERMISSIVE :: u16 where "IB_LID_PERMISSIVE = 0xFFFF"
definition OPA_LID_PERMISSIVE :: u32 where "OPA_LID_PERMISSIVE = 0xFFFFFFFF"

text \<open>The direction bit \<open>0x8000\<close> of the status.\<close>

definition smp_direction :: "('lid, 'x) smp_scheme \<Rightarrow> bool" where
  "smp_direction smp \<longleftrightarrow> bit (smp_status smp) 15"

datatype smi_action = IB_SMI_DISCARD | IB_SMI_HANDLE

datatype smi_forward_action = IB_SMI_LOCAL | IB_SMI_SEND | IB_SMI_FORWARD

definition handle_if :: "bool \<Rightarrow> smi_action" where
  "handle_if b = (if b then IB_SMI_HANDLE else IB_SMI_DISCARD)"

section \<open>Sending\<close>

text \<open>\<open>__smi_handle_dr_smp_send\<close>: the verdict and the new \<open>hop_ptr\<close>.\<close>

definition smi_handle_dr_smp_send_core ::
  "bool \<Rightarrow> nat \<Rightarrow> nat \<Rightarrow> nat \<Rightarrow> nat list \<Rightarrow> nat list \<Rightarrow> bool \<Rightarrow> bool \<Rightarrow> bool \<Rightarrow> (smi_action \<times> nat) option" where
  "smi_handle_dr_smp_send_core is_switch port_num hp hc ipath rpath direction dlid_perm slid_perm =
     (if hc \<ge> IB_SMP_MAX_PATH_HOPS then Some (IB_SMI_DISCARD, hp)
      else if \<not> direction then
        (if hc \<noteq> 0 \<and> hp = 0 then
           (let hp' = (hp + 1) mod 256 in
            do { p \<leftarrow> nth_opt ipath hp'; Some (handle_if (p = port_num), hp') })
         else if hp \<noteq> 0 \<and> hp < hc then
           (if \<not> is_switch then Some (IB_SMI_DISCARD, hp)
            else let hp' = (hp + 1) mod 256 in
              do { p \<leftarrow> nth_opt ipath hp'; Some (handle_if (p = port_num), hp') })
         else if hp = hc then Some (handle_if (is_switch \<or> dlid_perm), (hp + 1) mod 256)
         else Some (handle_if (hp = hc + 1), hp))
      else
        (if hc \<noteq> 0 \<and> hp = hc + 1 then
           (let hp' = hp - 1 in
            do { p \<leftarrow> nth_opt rpath hp'; Some (handle_if (p = port_num), hp') })
         else if 2 \<le> hp \<and> hp \<le> hc then
           (if \<not> is_switch then Some (IB_SMI_DISCARD, hp)
            else let hp' = hp - 1 in
              do { p \<leftarrow> nth_opt rpath hp'; Some (handle_if (p = port_num), hp') })
         else if hp = 1 then Some (handle_if (is_switch \<or> slid_perm), hp - 1)
         else if hp = 0 then Some (IB_SMI_HANDLE, hp)
         else Some (IB_SMI_DISCARD, hp)))"

definition dr_smp_send ::
  "'lid \<Rightarrow> 'lid smp \<Rightarrow> bool \<Rightarrow> nat \<Rightarrow> (smi_action \<times> 'lid smp) option" where
  "dr_smp_send permissive smp is_switch port_num = do {
     (act, hp) \<leftarrow> smi_handle_dr_smp_send_core is_switch port_num (hop_ptr smp) (hop_cnt smp)
        (initial_path smp) (return_path smp) (smp_direction smp)
        (dr_dlid smp = permissive) (dr_slid smp = permissive);
     Some (act, smp\<lparr>hop_ptr := hp\<rparr>) }"

definition smi_handle_dr_smp_send :: "ib_smp \<Rightarrow> bool \<Rightarrow> nat \<Rightarrow> (smi_action \<times> ib_smp) option" where
  "smi_handle_dr_smp_send = dr_smp_send IB_LID_PERMISSIVE"

definition opa_smi_handle_dr_smp_send :: "opa_smp \<Rightarrow> bool \<Rightarrow> nat \<Rightarrow> (smi_action \<times> opa_smp) option" where
  "opa_smi_handle_dr_smp_send = dr_smp_send OPA_LID_PERMISSIVE"

section \<open>Receiving\<close>

text \<open>\<open>__smi_handle_dr_smp_recv\<close>: the verdict, the new \<open>hop_ptr\<close> and the new return path.\<close>

definition smi_handle_dr_smp_recv_core ::
  "bool \<Rightarrow> nat \<Rightarrow> nat \<Rightarrow> nat \<Rightarrow> nat \<Rightarrow> nat list \<Rightarrow> nat list \<Rightarrow> bool \<Rightarrow> bool \<Rightarrow> bool \<Rightarrow>
   (smi_action \<times> nat \<times> nat list) option" where
  "smi_handle_dr_smp_recv_core is_switch port_num phys_port_cnt hp hc ipath rpath direction dlid_perm slid_perm =
     (if hc \<ge> IB_SMP_MAX_PATH_HOPS then Some (IB_SMI_DISCARD, hp, rpath)
      else if \<not> direction then
        (if hc \<noteq> 0 \<and> hp = 0 then Some (IB_SMI_DISCARD, hp, rpath)
         else if hp \<noteq> 0 \<and> hp < hc then
           (if \<not> is_switch then Some (IB_SMI_DISCARD, hp, rpath)
            else do {
              rpath' \<leftarrow> upd_opt rpath hp (port_num mod 256);
              p \<leftarrow> nth_opt ipath (hp + 1);
              Some (handle_if (p \<le> phys_port_cnt), hp, rpath') })
         else if hp = hc then do {
           rpath' \<leftarrow> (if hc \<noteq> 0 then upd_opt rpath hp (port_num mod 256) else Some rpath);
           Some (handle_if (is_switch \<or> dlid_perm), hp, rpath') }
         else Some (handle_if (hp = hc + 1), hp, rpath))
      else
        (if hc \<noteq> 0 \<and> hp = hc + 1 then
           (let hp' = hp - 1 in
            do { p \<leftarrow> nth_opt rpath hp'; Some (handle_if (p = port_num), hp', rpath) })
         else if 2 \<le> hp \<and> hp \<le> hc then
           (if \<not> is_switch then Some (IB_SMI_DISCARD, hp, rpath)
            else do {
              p \<leftarrow> nth_opt rpath (hp - 1);
              Some (handle_if (p \<le> phys_port_cnt), hp, rpath) })
         else if hp = 1 then
           (if slid_perm then Some (IB_SMI_HANDLE, hp - 1, rpath)
            else Some (handle_if is_switch, hp, rpath))
         else Some (handle_if (hp = 0), hp, rpath)))"

definition dr_smp_recv ::
  "'lid \<Rightarrow> 'lid smp \<Rightarrow> bool \<Rightarrow> nat \<Rightarrow> nat \<Rightarrow> (smi_action \<times> 'lid smp) option" where
  "dr_smp_recv permissive smp is_switch port_num phys_port_cnt = do {
     (act, hp, rp) \<leftarrow> smi_handle_dr_smp_recv_core is_switch port_num phys_port_cnt (hop_ptr smp) (hop_cnt smp)
        (initial_path smp) (return_path smp) (smp_direction smp)
        (dr_dlid smp = permissive) (dr_slid smp = permissive);
     Some (act, smp\<lparr>hop_ptr := hp, return_path := rp\<rparr>) }"

definition smi_handle_dr_smp_recv :: "ib_smp \<Rightarrow> bool \<Rightarrow> nat \<Rightarrow> nat \<Rightarrow> (smi_action \<times> ib_smp) option" where
  "smi_handle_dr_smp_recv = dr_smp_recv IB_LID_PERMISSIVE"

definition opa_smi_handle_dr_smp_recv :: "opa_smp \<Rightarrow> bool \<Rightarrow> nat \<Rightarrow> nat \<Rightarrow> (smi_action \<times> opa_smp) option" where
  "opa_smi_handle_dr_smp_recv = dr_smp_recv OPA_LID_PERMISSIVE"

section \<open>Forwarding decisions\<close>

definition smi_check_forward_dr_smp_core :: "nat \<Rightarrow> nat \<Rightarrow> bool \<Rightarrow> bool \<Rightarrow> bool \<Rightarrow> smi_forward_action" where
  "smi_check_forward_dr_smp_core hp hc direction dlid_perm slid_perm =
     (if \<not> direction then
        (if hp \<noteq> 0 \<and> hp < hc then IB_SMI_FORWARD
         else if hp = hc then (if dlid_perm then IB_SMI_SEND else IB_SMI_LOCAL)
         else if hp = hc + 1 then IB_SMI_SEND
         else IB_SMI_LOCAL)
      else
        (if 2 \<le> hp \<and> hp \<le> hc then IB_SMI_FORWARD
         else if hp = 1 then (if \<not> slid_perm then IB_SMI_SEND else IB_SMI_LOCAL)
         else IB_SMI_LOCAL))"

definition dr_smp_check_forward :: "'lid \<Rightarrow> 'lid smp \<Rightarrow> smi_forward_action" where
  "dr_smp_check_forward permissive smp =
     smi_check_forward_dr_smp_core (hop_ptr smp) (hop_cnt smp) (smp_direction smp)
       (dr_dlid smp = permissive) (dr_slid smp = permissive)"

definition smi_check_forward_dr_smp :: "ib_smp \<Rightarrow> smi_forward_action" where
  "smi_check_forward_dr_smp = dr_smp_check_forward IB_LID_PERMISSIVE"

definition opa_smi_check_forward_dr_smp :: "opa_smp \<Rightarrow> smi_forward_action" where
  "opa_smi_check_forward_dr_smp = dr_smp_check_forward OPA_LID_PERMISSIVE"

definition dr_fwd_port :: "'lid smp \<Rightarrow> nat option" where
  "dr_fwd_port smp =
     (if \<not> smp_direction smp then nth_opt (initial_path smp) (hop_ptr smp + 1)
      else if hop_ptr smp = 0 then None
      else nth_opt (return_path smp) (hop_ptr smp - 1))"

definition smi_get_fwd_port :: "ib_smp \<Rightarrow> nat option" where
  "smi_get_fwd_port = dr_fwd_port"

definition opa_smi_get_fwd_port :: "opa_smp \<Rightarrow> nat option" where
  "opa_smi_get_fwd_port = dr_fwd_port"

definition dr_check_local :: "bool \<Rightarrow> 'lid smp \<Rightarrow> smi_action" where
  "dr_check_local process_mad smp =
     handle_if (process_mad \<and> \<not> smp_direction smp \<and> hop_ptr smp = hop_cnt smp + 1)"

definition dr_check_local_returning :: "bool \<Rightarrow> 'lid smp \<Rightarrow> smi_action" where
  "dr_check_local_returning process_mad smp =
     handle_if (process_mad \<and> smp_direction smp \<and> hop_ptr smp = 0)"

definition smi_check_local_smp :: "bool \<Rightarrow> ib_smp \<Rightarrow> smi_action" where
  "smi_check_local_smp = dr_check_local"

definition smi_check_local_returning_smp :: "bool \<Rightarrow> ib_smp \<Rightarrow> smi_action" where
  "smi_check_local_returning_smp = dr_check_local_returning"

definition opa_smi_check_local_smp :: "bool \<Rightarrow> opa_smp \<Rightarrow> smi_action" where
  "opa_smi_check_local_smp = dr_check_local"

definition opa_smi_check_local_returning_smp :: "bool \<Rightarrow> opa_smp \<Rightarrow> smi_action" where
  "opa_smi_check_local_returning_smp = dr_check_local_returning"

section \<open>The callers in mad.c\<close>

text \<open>
  \<open>handle_ib_smi\<close> and \<open>handle_opa_smi\<close>: the verdict, the packet, and the port an intermediate switch
  hands the packet to (the argument of \<open>agent_send_response\<close>).
\<close>

definition handle_dr_smi ::
  "'lid \<Rightarrow> bool \<Rightarrow> bool \<Rightarrow> nat \<Rightarrow> nat \<Rightarrow> 'lid smp \<Rightarrow> (smi_action \<times> 'lid smp \<times> nat option) option" where
  "handle_dr_smi permissive is_switch process_mad port_num phys_port_cnt smp = do {
     (act, smp1) \<leftarrow> dr_smp_recv permissive smp is_switch port_num phys_port_cnt;
     if act = IB_SMI_DISCARD then Some (IB_SMI_DISCARD, smp1, None)
     else (case dr_smp_check_forward permissive smp1 of
         IB_SMI_LOCAL \<Rightarrow> Some (IB_SMI_HANDLE, smp1, None)
       | IB_SMI_SEND \<Rightarrow> do {
           (act2, smp2) \<leftarrow> dr_smp_send permissive smp1 is_switch port_num;
           if act2 = IB_SMI_DISCARD then Some (IB_SMI_DISCARD, smp2, None)
           else if dr_check_local process_mad smp2 = IB_SMI_DISCARD then Some (IB_SMI_DISCARD, smp2, None)
           else Some (IB_SMI_HANDLE, smp2, None) }
       | IB_SMI_FORWARD \<Rightarrow>
           (if is_switch then do {
              p \<leftarrow> dr_fwd_port smp1;
              Some (IB_SMI_DISCARD, smp1, Some p) }
            else Some (IB_SMI_HANDLE, smp1, None))) }"

definition handle_ib_smi ::
  "bool \<Rightarrow> bool \<Rightarrow> nat \<Rightarrow> nat \<Rightarrow> ib_smp \<Rightarrow> (smi_action \<times> ib_smp \<times> nat option) option" where
  "handle_ib_smi = handle_dr_smi IB_LID_PERMISSIVE"

definition handle_opa_smi ::
  "bool \<Rightarrow> bool \<Rightarrow> nat \<Rightarrow> nat \<Rightarrow> opa_smp \<Rightarrow> (smi_action \<times> opa_smp \<times> nat option) option" where
  "handle_opa_smi = handle_dr_smi OPA_LID_PERMISSIVE"

text \<open>
  The routing part of \<open>handle_outgoing_dr_smp\<close>: \<open>Inl EINVAL\<close> for an invalid route, otherwise the
  packet and whether it is processed locally (\<open>True\<close>) or posted to the wire (\<open>False\<close>).
\<close>

definition outgoing_dr ::
  "'lid \<Rightarrow> ('lid \<Rightarrow> bool) \<Rightarrow> bool \<Rightarrow> bool \<Rightarrow> nat \<Rightarrow> 'lid smp \<Rightarrow> (bool \<times> 'lid smp) result option" where
  "outgoing_dr permissive bad_slid is_switch process_mad port_num smp = do {
     routed \<leftarrow> (if (if smp_direction smp then dr_dlid smp else dr_slid smp) = permissive
               then dr_smp_send permissive smp is_switch port_num
               else Some (IB_SMI_HANDLE, smp));
     (case routed of (act, smp1) \<Rightarrow>
       Some (if act = IB_SMI_DISCARD then Inl EINVAL
             else if bad_slid (dr_slid smp1) then Inl EINVAL
             else Inr (\<not> (dr_check_local process_mad smp1 = IB_SMI_DISCARD \<and>
                          dr_check_local_returning process_mad smp1 = IB_SMI_DISCARD), smp1))) }"

definition outgoing_ib_smp :: "bool \<Rightarrow> bool \<Rightarrow> nat \<Rightarrow> ib_smp \<Rightarrow> (bool \<times> ib_smp) result option" where
  "outgoing_ib_smp = outgoing_dr IB_LID_PERMISSIVE (\<lambda>_. False)"

definition outgoing_opa_smp :: "bool \<Rightarrow> bool \<Rightarrow> nat \<Rightarrow> opa_smp \<Rightarrow> (bool \<times> opa_smp) result option" where
  "outgoing_opa_smp = outgoing_dr OPA_LID_PERMISSIVE
     (\<lambda>slid. slid \<noteq> OPA_LID_PERMISSIVE \<and> slid AND 0xffff0000 \<noteq> 0)"


text \<open>\<open>handle_smi\<close>: which of the two formats a received packet is handled as.\<close>

definition OPA_MGMT_BASE_VERSION :: nat where "OPA_MGMT_BASE_VERSION = 0x80"
definition OPA_SM_CLASS_VERSION :: nat where "OPA_SM_CLASS_VERSION = 0x80"

definition handle_smi ::
  "bool \<Rightarrow> bool \<Rightarrow> bool \<Rightarrow> nat \<Rightarrow> nat \<Rightarrow> ib_smp \<Rightarrow> opa_smp \<Rightarrow>
   (smi_action \<times> ib_smp \<times> nat option) option + (smi_action \<times> opa_smp \<times> nat option) option" where
  "handle_smi opa is_switch process_mad port_num phys_port_cnt as_ib as_opa =
     (if opa \<and> smp_base_version as_ib = OPA_MGMT_BASE_VERSION \<and> smp_class_version as_ib = OPA_SM_CLASS_VERSION
      then Inr (handle_opa_smi is_switch process_mad port_num phys_port_cnt as_opa)
      else Inl (handle_ib_smi is_switch process_mad port_num phys_port_cnt as_ib))"

lemmas smi_defs = handle_dr_smi_def outgoing_dr_def dr_smp_recv_def dr_smp_send_def
  smi_handle_dr_smp_recv_core_def smi_handle_dr_smp_send_core_def dr_smp_check_forward_def
  smi_check_forward_dr_smp_core_def dr_fwd_port_def dr_check_local_def dr_check_local_returning_def
  handle_if_def IB_SMP_MAX_PATH_HOPS_def

section \<open>Bounds\<close>

definition smp_wf :: "'lid smp \<Rightarrow> bool" where
  "smp_wf smp \<longleftrightarrow> length (initial_path smp) = 64 \<and> length (return_path smp) = 64"

lemma recv_core_wf:
  assumes "length ip = 64" "length rp = 64"
  shows "\<exists>act hp' rp'. smi_handle_dr_smp_recv_core sw port phys hp hc ip rp dir dp sp = Some (act, hp', rp') \<and>
    length rp' = 64 \<and> (act \<noteq> IB_SMI_DISCARD \<longrightarrow> hc < 64)"
  using assms
  by (simp add: smi_handle_dr_smp_recv_core_def IB_SMP_MAX_PATH_HOPS_def nth_opt_def upd_opt_def Let_def) linarith

lemma send_core_wf:
  assumes "length ip = 64" "length rp = 64"
  shows "\<exists>act hp'. smi_handle_dr_smp_send_core sw port hp hc ip rp dir dp sp = Some (act, hp')"
  using assms
  by (simp add: smi_handle_dr_smp_send_core_def IB_SMP_MAX_PATH_HOPS_def nth_opt_def Let_def) linarith

lemma dr_smp_recv_wf:
  assumes "smp_wf smp"
  shows "\<exists>act smp'. dr_smp_recv perm smp sw port phys = Some (act, smp') \<and> smp_wf smp' \<and>
    hop_cnt smp' = hop_cnt smp \<and> (act \<noteq> IB_SMI_DISCARD \<longrightarrow> hop_cnt smp < 64)"
proof -
  from assms have "length (initial_path smp) = 64" "length (return_path smp) = 64"
    by (simp_all add: smp_wf_def)
  from recv_core_wf [OF this, of sw port phys "hop_ptr smp" "hop_cnt smp" "smp_direction smp"
      "dr_dlid smp = perm" "dr_slid smp = perm"] assms
  show ?thesis by (auto simp: dr_smp_recv_def smp_wf_def)
qed

lemma dr_smp_send_wf:
  assumes "smp_wf smp"
  shows "\<exists>act smp'. dr_smp_send perm smp sw port = Some (act, smp') \<and> smp_wf smp'"
proof -
  from assms have "length (initial_path smp) = 64" "length (return_path smp) = 64"
    by (simp_all add: smp_wf_def)
  from send_core_wf [OF this, of sw port "hop_ptr smp" "hop_cnt smp" "smp_direction smp"
      "dr_dlid smp = perm" "dr_slid smp = perm"] assms
  show ?thesis by (auto simp: dr_smp_send_def smp_wf_def)
qed

lemma dr_fwd_port_wf:
  assumes "smp_wf smp" "hop_cnt smp < 64" "dr_smp_check_forward perm smp = IB_SMI_FORWARD"
  shows "\<exists>p. dr_fwd_port smp = Some p"
  using assms
  by (auto simp: dr_fwd_port_def dr_smp_check_forward_def smi_check_forward_dr_smp_core_def smp_wf_def
      nth_opt_def split: if_splits)

lemma handle_dr_smi_wf:
  assumes "smp_wf smp"
  shows "\<exists>act smp' fwd. handle_dr_smi perm sw pm port phys smp = Some (act, smp', fwd) \<and> smp_wf smp'"
proof -
  from dr_smp_recv_wf [OF assms] obtain act smp1
    where r: "dr_smp_recv perm smp sw port phys = Some (act, smp1)" "smp_wf smp1"
      "hop_cnt smp1 = hop_cnt smp" "act \<noteq> IB_SMI_DISCARD \<Longrightarrow> hop_cnt smp < 64"
    by blast
  from dr_smp_send_wf [OF r(2)] obtain act2 smp2
    where s: "dr_smp_send perm smp1 sw port = Some (act2, smp2)" "smp_wf smp2"
    by blast
  show ?thesis
    using r s dr_fwd_port_wf [OF r(2), of perm]
    by (cases "dr_smp_check_forward perm smp1") (auto simp: handle_dr_smi_def)
qed

lemma outgoing_dr_wf:
  assumes "smp_wf smp"
  shows "\<exists>r. outgoing_dr perm bad sw pm port smp = Some r"
  using dr_smp_send_wf [OF assms, of perm sw port] by (auto simp: outgoing_dr_def)

section \<open>Traversal of a fabric\<close>

text \<open>
  A packet that arrives at port \<open>inport\<close> of an intermediate switch is handed by the receive path
  (\<open>handle_ib_smi\<close>) to \<open>agent_send_response\<close> for its forwarding port, whose send goes through the
  outgoing path of the same switch. \<open>switch_hop\<close> is the composition: the port the packet leaves by and
  the packet on the wire. \<open>dr_route\<close> follows a packet through a list of switches, each given by the
  port it is entered by and its number of ports.
\<close>

definition switch_hop ::
  "'lid \<Rightarrow> ('lid \<Rightarrow> bool) \<Rightarrow> bool \<Rightarrow> nat \<times> nat \<Rightarrow> 'lid smp \<Rightarrow> (nat \<times> 'lid smp) option" where
  "switch_hop permissive bad_slid process_mad hop smp =
     (case handle_dr_smi permissive True process_mad (fst hop) (snd hop) smp of
        Some (IB_SMI_DISCARD, smp1, Some p) \<Rightarrow>
          (case outgoing_dr permissive bad_slid True process_mad p smp1 of
             Some (Inr (False, smp2)) \<Rightarrow> Some (p, smp2)
           | _ \<Rightarrow> None)
      | _ \<Rightarrow> None)"

fun dr_route ::
  "'lid \<Rightarrow> ('lid \<Rightarrow> bool) \<Rightarrow> bool \<Rightarrow> (nat \<times> nat) list \<Rightarrow> 'lid smp \<Rightarrow> (nat list \<times> 'lid smp) option" where
  "dr_route permissive bad_slid process_mad [] smp = Some ([], smp)"
| "dr_route permissive bad_slid process_mad (hop # hops) smp = do {
     (p, smp1) \<leftarrow> switch_hop permissive bad_slid process_mad hop smp;
     (ps, smp2) \<leftarrow> dr_route permissive bad_slid process_mad hops smp1;
     Some (p # ps, smp2) }"

text \<open>A packet whose whole route is directed: no LID-routed part at either end.\<close>

definition pure_dr :: "'lid \<Rightarrow> 'lid smp \<Rightarrow> bool" where
  "pure_dr permissive smp \<longleftrightarrow> smp_wf smp \<and> hop_cnt smp < 64 \<and>
     dr_slid smp = permissive \<and> dr_dlid smp = permissive"

lemma pure_dr_simps [simp]:
  "pure_dr perm (smp\<lparr>hop_ptr := hp\<rparr>) = pure_dr perm smp"
  "length rp = 64 \<Longrightarrow> pure_dr perm smp \<Longrightarrow> pure_dr perm (smp\<lparr>return_path := rp\<rparr>)"
  by (auto simp: pure_dr_def smp_wf_def)

lemma smp_direction_update [simp]:
  "smp_direction (smp\<lparr>hop_ptr := hp\<rparr>) = smp_direction smp"
  "smp_direction (smp\<lparr>return_path := rp\<rparr>) = smp_direction smp"
  by (simp_all add: smp_direction_def)

text \<open>
  The packet a request becomes by the time it is delivered at port \<open>port\<close> of its target, and the
  answer made of it by setting the direction bit.
\<close>

definition dr_delivered :: "'lid smp \<Rightarrow> (nat \<times> nat) list \<Rightarrow> nat \<Rightarrow> 'lid smp" where
  "dr_delivered smp hops port = smp\<lparr>hop_ptr := hop_cnt smp + 1,
     return_path := take 1 (return_path smp) @ map fst hops @ [port] @ drop (hop_cnt smp + 1) (return_path smp)\<rparr>"

definition dr_answer :: "'lid smp \<Rightarrow> 'lid smp" where
  "dr_answer smp = smp\<lparr>smp_status := smp_status smp OR 0x8000\<rparr>"

lemma dr_answer_simps [simp]:
  "smp_direction (dr_answer smp)"
  "pure_dr perm (dr_answer smp) = pure_dr perm smp"
  "hop_ptr (dr_answer smp) = hop_ptr smp" "hop_cnt (dr_answer smp) = hop_cnt smp"
  "return_path (dr_answer smp) = return_path smp"
  by (auto simp: dr_answer_def smp_direction_def pure_dr_def smp_wf_def bit_or_iff)

text \<open>
  The switches of a route, with the ports they are entered by (\<open>fst\<close>) and their port counts
  (\<open>snd\<close>), admit the route when every port on it exists.
\<close>

definition route_ok :: "'lid smp \<Rightarrow> (nat \<times> nat) list \<Rightarrow> bool" where
  "route_ok smp hops \<longleftrightarrow> hop_cnt smp = length hops + 1 \<and>
     list_all2 (\<lambda>p hop. p \<le> snd hop \<and> fst hop \<le> snd hop \<and> fst hop < 256)
       (take (length hops) (drop 2 (initial_path smp))) hops"

locale dr_format =
  fixes permissive :: 'lid
    and bad_slid :: "'lid \<Rightarrow> bool"
  assumes permissive_ok: "\<not> bad_slid permissive"
begin

lemma hop_out:
  assumes "pure_dr permissive smp" "\<not> smp_direction smp" "0 < hop_ptr smp" "hop_ptr smp < hop_cnt smp"
    and "fst hop < 256" "initial_path smp ! (hop_ptr smp + 1) \<le> snd hop"
  shows "switch_hop permissive bad_slid pm hop smp =
    Some (initial_path smp ! (hop_ptr smp + 1),
          smp\<lparr>hop_ptr := hop_ptr smp + 1, return_path := (return_path smp)[hop_ptr smp := fst hop]\<rparr>)"
  using assms permissive_ok
  by (simp add: switch_hop_def smi_defs nth_opt_def upd_opt_def pure_dr_def smp_wf_def)

lemma hop_back:
  assumes "pure_dr permissive smp" "smp_direction smp" "2 \<le> hop_ptr smp" "hop_ptr smp \<le> hop_cnt smp"
    and "return_path smp ! (hop_ptr smp - 1) \<le> snd hop"
  shows "switch_hop permissive bad_slid pm hop smp =
    Some (return_path smp ! (hop_ptr smp - 1), smp\<lparr>hop_ptr := hop_ptr smp - 1\<rparr>)"
  using assms permissive_ok
  by (simp add: switch_hop_def smi_defs nth_opt_def upd_opt_def pure_dr_def smp_wf_def) linarith

lemma route_out:
  assumes "pure_dr permissive smp" "\<not> smp_direction smp" "0 < hop_ptr smp"
    and "hop_ptr smp + length hops = hop_cnt smp"
    and "list_all2 (\<lambda>p hop. p \<le> snd hop \<and> fst hop < 256)
      (take (length hops) (drop (hop_ptr smp + 1) (initial_path smp))) hops"
  shows "dr_route permissive bad_slid pm hops smp =
    Some (take (length hops) (drop (hop_ptr smp + 1) (initial_path smp)),
          smp\<lparr>hop_ptr := hop_cnt smp,
              return_path := take (hop_ptr smp) (return_path smp) @ map fst hops @
                drop (hop_cnt smp) (return_path smp)\<rparr>)"
  using assms
proof (induction hops arbitrary: smp)
  case Nil
  then show ?case by simp
next
  case (Cons hop hops)
  let ?smp1 = "smp\<lparr>hop_ptr := hop_ptr smp + 1, return_path := (return_path smp)[hop_ptr smp := fst hop]\<rparr>"
  have len: "length (initial_path smp) = 64" "length (return_path smp) = 64" "hop_cnt smp < 64"
    using Cons.prems(1) by (simp_all add: pure_dr_def smp_wf_def)
  have "hop_ptr smp + 1 < length (initial_path smp)" using Cons.prems(4) len by simp
  then have ip: "drop (hop_ptr smp + 1) (initial_path smp) =
      initial_path smp ! (hop_ptr smp + 1) # drop (hop_ptr smp + 2) (initial_path smp)"
    by (simp add: Cons_nth_drop_Suc)
  have step: "switch_hop permissive bad_slid pm hop smp = Some (initial_path smp ! (hop_ptr smp + 1), ?smp1)"
    by (rule hop_out) (use Cons.prems ip in auto)
  have rest: "dr_route permissive bad_slid pm hops ?smp1 =
    Some (take (length hops) (drop (hop_ptr smp + 2) (initial_path smp)),
          ?smp1\<lparr>hop_ptr := hop_cnt smp,
              return_path := take (hop_ptr smp + 1) (return_path ?smp1) @ map fst hops @
                drop (hop_cnt smp) (return_path ?smp1)\<rparr>)"
    using Cons.IH [of ?smp1] Cons.prems ip len by simp
  have "take (hop_ptr smp + 1) ((return_path smp)[hop_ptr smp := fst hop]) =
      take (hop_ptr smp) (return_path smp) @ [fst hop]"
    using Cons.prems(4) len by (simp add: take_Suc_conv_app_nth)
  moreover have "drop (hop_cnt smp) ((return_path smp)[hop_ptr smp := fst hop]) = drop (hop_cnt smp) (return_path smp)"
    using Cons.prems(4) by simp
  ultimately show ?case using ip rest by (simp add: step)
qed

lemma route_back:
  assumes "pure_dr permissive smp" "smp_direction smp" "hop_ptr smp = length hops + 1"
    and "hop_ptr smp \<le> hop_cnt smp"
    and "list_all2 (\<lambda>p hop. p \<le> snd hop) (rev (take (length hops) (drop 1 (return_path smp)))) hops"
  shows "dr_route permissive bad_slid pm hops smp =
    Some (rev (take (length hops) (drop 1 (return_path smp))), smp\<lparr>hop_ptr := 1\<rparr>)"
  using assms
proof (induction hops arbitrary: smp)
  case Nil
  then show ?case by simp
next
  case (Cons hop hops)
  let ?smp1 = "smp\<lparr>hop_ptr := hop_ptr smp - 1\<rparr>"
  have "length (return_path smp) = 64" "hop_cnt smp < 64"
    using Cons.prems(1) by (simp_all add: pure_dr_def smp_wf_def)
  then have rp: "rev (take (Suc (length hops)) (drop (Suc 0) (return_path smp))) =
      return_path smp ! (length hops + 1) # rev (take (length hops) (drop (Suc 0) (return_path smp)))"
    using Cons.prems(3,4) by (simp add: take_Suc_conv_app_nth)
  have step: "switch_hop permissive bad_slid pm hop smp = Some (return_path smp ! (hop_ptr smp - 1), ?smp1)"
    by (rule hop_back) (use Cons.prems rp in auto)
  show ?case using Cons.IH [of ?smp1] Cons.prems rp by (simp add: step)
qed

lemma source_out:
  assumes "pure_dr permissive smp" "\<not> smp_direction smp" "hop_ptr smp = 0" "hop_cnt smp \<noteq> 0"
  shows "outgoing_dr permissive bad_slid sw pm (initial_path smp ! 1) smp = Some (Inr (False, smp\<lparr>hop_ptr := 1\<rparr>))"
  using assms permissive_ok by (simp add: smi_defs nth_opt_def pure_dr_def smp_wf_def)

lemma target_in:
  assumes "pure_dr permissive smp" "\<not> smp_direction smp" "hop_ptr smp = hop_cnt smp" "hop_cnt smp \<noteq> 0" "port < 256"
  shows "handle_dr_smi permissive sw True port phys smp =
    Some (IB_SMI_HANDLE, smp\<lparr>hop_ptr := hop_cnt smp + 1,
      return_path := (return_path smp)[hop_cnt smp := port]\<rparr>, None)"
  using assms by (simp add: smi_defs nth_opt_def upd_opt_def pure_dr_def smp_wf_def)

lemma target_out:
  assumes "pure_dr permissive smp" "smp_direction smp" "hop_ptr smp = hop_cnt smp + 1" "hop_cnt smp \<noteq> 0"
    and "return_path smp ! hop_cnt smp = port"
  shows "outgoing_dr permissive bad_slid sw pm port smp = Some (Inr (False, smp\<lparr>hop_ptr := hop_cnt smp\<rparr>))"
  using assms permissive_ok by (simp add: smi_defs nth_opt_def pure_dr_def smp_wf_def)

lemma source_in:
  assumes "pure_dr permissive smp" "smp_direction smp" "hop_ptr smp = 1" "hop_cnt smp \<noteq> 0"
  shows "handle_dr_smi permissive sw pm port phys smp = Some (IB_SMI_HANDLE, smp\<lparr>hop_ptr := 0\<rparr>, None)"
  using assms by (simp add: smi_defs nth_opt_def pure_dr_def smp_wf_def)

lemma request_delivered:
  assumes "pure_dr permissive smp" "\<not> smp_direction smp" "hop_ptr smp = 0" "route_ok smp hops" "port < 256"
  shows "\<exists>sent wire.
     outgoing_dr permissive bad_slid sw pm (initial_path smp ! 1) smp = Some (Inr (False, sent)) \<and>
     dr_route permissive bad_slid spm hops sent = Some (take (length hops) (drop 2 (initial_path smp)), wire) \<and>
     handle_dr_smi permissive tsw True port phys wire = Some (IB_SMI_HANDLE, dr_delivered smp hops port, None)"
proof (intro exI conjI)
  let ?sent = "smp\<lparr>hop_ptr := 1\<rparr>"
  let ?wire = "?sent\<lparr>hop_ptr := hop_cnt smp,
     return_path := take 1 (return_path smp) @ map fst hops @ drop (hop_cnt smp) (return_path smp)\<rparr>"
  have len: "length (return_path smp) = 64" "hop_cnt smp < 64" and cnt: "hop_cnt smp = length hops + 1"
    using assms(1,4) by (simp_all add: pure_dr_def smp_wf_def route_ok_def)
  show "outgoing_dr permissive bad_slid sw pm (initial_path smp ! 1) smp = Some (Inr (False, ?sent))"
    by (rule source_out) (use assms cnt in auto)
  show "dr_route permissive bad_slid spm hops ?sent =
      Some (take (length hops) (drop 2 (initial_path smp)), ?wire)"
    using route_out [of ?sent hops spm] assms cnt
    by (auto simp: route_ok_def numeral_2_eq_2 list_all2_conv_all_nth)
  have "drop (hop_cnt smp) (return_path smp) = return_path smp ! hop_cnt smp # drop (hop_cnt smp + 1) (return_path smp)"
    using len by (simp add: Cons_nth_drop_Suc)
  then have "(return_path ?wire)[hop_cnt smp := port] =
      take 1 (return_path smp) @ map fst hops @ [port] @ drop (hop_cnt smp + 1) (return_path smp)"
    using len cnt by (simp add: list_update_append)
  then show "handle_dr_smi permissive tsw True port phys ?wire = Some (IB_SMI_HANDLE, dr_delivered smp hops port, None)"
    using target_in [of ?wire port tsw phys] assms len cnt by (simp add: dr_delivered_def)
qed

lemma response_delivered:
  assumes "pure_dr permissive smp" "\<not> smp_direction smp" "route_ok smp hops" "port < 256"
    and "answer = dr_answer (dr_delivered smp hops port)"
  shows "\<exists>sent wire.
     outgoing_dr permissive bad_slid tsw tpm port answer = Some (Inr (False, sent)) \<and>
     dr_route permissive bad_slid spm (rev (zip (take (length hops) (drop 2 (initial_path smp))) (map snd hops))) sent =
       Some (rev (map fst hops), wire) \<and>
     handle_dr_smi permissive sw pm (initial_path smp ! 1) phys wire =
       Some (IB_SMI_HANDLE, answer\<lparr>hop_ptr := 0\<rparr>, None)"
proof (intro exI conjI)
  let ?sent = "answer\<lparr>hop_ptr := hop_cnt smp\<rparr>"
  let ?ip = "take (length hops) (drop 2 (initial_path smp))"
  have len: "length (return_path smp) = 64" "hop_cnt smp < 64" and cnt: "hop_cnt smp = length hops + 1"
    and lip: "length ?ip = length hops"
    using assms(1,3) by (simp_all add: pure_dr_def smp_wf_def route_ok_def list_all2_lengthD)
  have ans: "pure_dr permissive answer" "smp_direction answer" "hop_ptr answer = hop_cnt smp + 1"
    "hop_cnt answer = hop_cnt smp"
    "return_path answer = take 1 (return_path smp) @ map fst hops @ [port] @ drop (hop_cnt smp + 1) (return_path smp)"
    using assms(1) len cnt by (simp_all add: assms(5) dr_delivered_def)
  show "outgoing_dr permissive bad_slid tsw tpm port answer = Some (Inr (False, ?sent))"
    using target_out [of answer port tsw tpm] ans len cnt by (simp add: nth_append)
  have rp: "take (length hops) (drop 1 (return_path ?sent)) = map fst hops"
    using ans len by simp
  have "list_all2 (\<lambda>p hop. p \<le> snd hop) (map fst hops) (zip ?ip (map snd hops))"
    using assms(3) lip by (auto simp: route_ok_def list_all2_conv_all_nth)
  then show "dr_route permissive bad_slid spm (rev (zip ?ip (map snd hops))) ?sent =
       Some (rev (map fst hops), ?sent\<lparr>hop_ptr := 1\<rparr>)"
    using route_back [of ?sent "rev (zip ?ip (map snd hops))" spm] ans(1-4) lip cnt rp by (simp add: list_all2_rev)
  show "handle_dr_smi permissive sw pm (initial_path smp ! 1) phys (?sent\<lparr>hop_ptr := 1\<rparr>) =
       Some (IB_SMI_HANDLE, answer\<lparr>hop_ptr := 0\<rparr>, None)"
    using source_in [of "?sent\<lparr>hop_ptr := 1\<rparr>" sw pm _ phys] ans cnt by simp
qed

end

interpretation ib: dr_format IB_LID_PERMISSIVE "\<lambda>_. False"
  by unfold_locales simp

interpretation opa: dr_format OPA_LID_PERMISSIVE "\<lambda>slid. slid \<noteq> OPA_LID_PERMISSIVE \<and> slid AND 0xffff0000 \<noteq> 0"
  by unfold_locales simp

section \<open>Properties\<close>

text \<open>
  C36. Whatever hop pointer and hop count a received or posted directed-route packet carries, the
  receive path and the send path stay inside its two 64-entry path arrays: both return a verdict,
  for the IB and the OPA format, and the packet handed on keeps its shape.
\<close>
theorem smi_in_bounds:
  assumes "smp_wf ib" "smp_wf opa"
  shows "(\<exists>act smp fwd. handle_ib_smi sw pm port phys ib = Some (act, smp, fwd) \<and> smp_wf smp) \<and>
    (\<exists>act smp fwd. handle_opa_smi sw pm port phys opa = Some (act, smp, fwd) \<and> smp_wf smp) \<and>
    (\<exists>r. outgoing_ib_smp sw pm port ib = Some r) \<and> (\<exists>r. outgoing_opa_smp sw pm port opa = Some r)"
  unfolding handle_ib_smi_def handle_opa_smi_def outgoing_ib_smp_def outgoing_opa_smp_def
  using assms by (intro conjI handle_dr_smi_wf outgoing_dr_wf)

definition sample_smp :: "'lid \<Rightarrow> 'lid smp" where
  "sample_smp lid = \<lparr>smp_class_version = 1, smp_base_version = 1, smp_status = 0, hop_ptr = 0, hop_cnt = 3,
     dr_slid = lid, dr_dlid = lid, initial_path = [0, 4, 7, 2] @ replicate 60 0, return_path = replicate 64 0\<rparr>"

theorem smi_in_bounds_witness:
  "\<exists>act smp fwd. handle_ib_smi True True 5 8 (sample_smp 9\<lparr>hop_ptr := 255\<rparr>) = Some (act, smp, fwd) \<and> smp_wf smp"
  using smi_in_bounds [of "sample_smp 9\<lparr>hop_ptr := 255\<rparr>" "sample_smp 9" True True 5 8]
  by (simp add: smp_wf_def sample_smp_def)

text \<open>
  C22. A purely directed-route request posted at its source travels its \<open>initial_path\<close>: the source
  posts it, every switch on the way puts it out on the next port of the path, and the target hands
  it to its agent, with \<open>hop_ptr = hop_cnt + 1\<close> and the port of entry of every hop recorded in
  \<open>return_path\<close>; nothing else in it changes. The answer made of it by setting the direction bit
  then travels back out of exactly those ports, through the same switches in the reverse order, and
  is handed to the agent of the source with \<open>hop_ptr = 0\<close>.
\<close>
theorem ib_round_trip:
  assumes "pure_dr IB_LID_PERMISSIVE smp" "\<not> smp_direction smp" "hop_ptr smp = 0"
    and "route_ok smp hops" "port < 256"
  shows "\<exists>sent wire back home.
     outgoing_ib_smp sw pm (initial_path smp ! 1) smp = Some (Inr (False, sent)) \<and>
     dr_route IB_LID_PERMISSIVE (\<lambda>_. False) spm hops sent =
       Some (take (length hops) (drop 2 (initial_path smp)), wire) \<and>
     handle_ib_smi tsw True port tphys wire = Some (IB_SMI_HANDLE, dr_delivered smp hops port, None) \<and>
     outgoing_ib_smp tsw True port (dr_answer (dr_delivered smp hops port)) = Some (Inr (False, back)) \<and>
     dr_route IB_LID_PERMISSIVE (\<lambda>_. False) spm
       (rev (zip (take (length hops) (drop 2 (initial_path smp))) (map snd hops))) back =
       Some (rev (map fst hops), home) \<and>
     handle_ib_smi sw pm (initial_path smp ! 1) phys home =
       Some (IB_SMI_HANDLE, (dr_answer (dr_delivered smp hops port))\<lparr>hop_ptr := 0\<rparr>, None)"
  using ib.request_delivered [OF assms, of sw pm spm tsw tphys]
    ib.response_delivered [OF assms(1,2,4,5) refl, of tsw True spm sw pm phys]
  unfolding outgoing_ib_smp_def handle_ib_smi_def by blast

theorem ib_round_trip_witness:
  "\<exists>sent wire.
     outgoing_ib_smp False True 4 (sample_smp IB_LID_PERMISSIVE) = Some (Inr (False, sent)) \<and>
     dr_route IB_LID_PERMISSIVE (\<lambda>_. False) True [(1, 8), (3, 8)] sent = Some ([7, 2], wire) \<and>
     handle_ib_smi False True 6 1 wire =
       Some (IB_SMI_HANDLE, dr_delivered (sample_smp IB_LID_PERMISSIVE) [(1, 8), (3, 8)] 6, None)"
proof -
  have "pure_dr IB_LID_PERMISSIVE (sample_smp IB_LID_PERMISSIVE)" "\<not> smp_direction (sample_smp IB_LID_PERMISSIVE)"
    "hop_ptr (sample_smp IB_LID_PERMISSIVE) = 0" "route_ok (sample_smp IB_LID_PERMISSIVE) [(1, 8), (3, 8)]"
    "(6::nat) < 256"
    by (simp_all add: sample_smp_def pure_dr_def smp_wf_def smp_direction_def route_ok_def)
  from ib_round_trip [OF this, of False True True False 1 1] show ?thesis
    by (auto simp: sample_smp_def)
qed

text \<open>
  The same for the OPA format, whose local identifiers are 32 bits wide: the request is
  delivered along \<open>initial_path\<close> with its return path recorded, and the answer comes back along it.
\<close>
theorem opa_round_trip:
  assumes "pure_dr OPA_LID_PERMISSIVE smp" "\<not> smp_direction smp" "hop_ptr smp = 0"
    and "route_ok smp hops" "port < 256" "bad = (\<lambda>slid. slid \<noteq> OPA_LID_PERMISSIVE \<and> slid AND 0xffff0000 \<noteq> 0)"
  shows "\<exists>sent wire back home.
     outgoing_opa_smp sw pm (initial_path smp ! 1) smp = Some (Inr (False, sent)) \<and>
     dr_route OPA_LID_PERMISSIVE bad spm hops sent =
       Some (take (length hops) (drop 2 (initial_path smp)), wire) \<and>
     handle_opa_smi tsw True port tphys wire = Some (IB_SMI_HANDLE, dr_delivered smp hops port, None) \<and>
     outgoing_opa_smp tsw True port (dr_answer (dr_delivered smp hops port)) = Some (Inr (False, back)) \<and>
     dr_route OPA_LID_PERMISSIVE bad spm
       (rev (zip (take (length hops) (drop 2 (initial_path smp))) (map snd hops))) back =
       Some (rev (map fst hops), home) \<and>
     handle_opa_smi sw pm (initial_path smp ! 1) phys home =
       Some (IB_SMI_HANDLE, (dr_answer (dr_delivered smp hops port))\<lparr>hop_ptr := 0\<rparr>, None)"
  using opa.request_delivered [OF assms(1-5), of sw pm spm tsw tphys]
    opa.response_delivered [OF assms(1,2,4,5) refl, of tsw True spm sw pm phys]
  unfolding outgoing_opa_smp_def handle_opa_smi_def assms(6) by blast

theorem opa_round_trip_witness:
  "\<exists>sent. outgoing_opa_smp False True 4 (sample_smp OPA_LID_PERMISSIVE) = Some (Inr (False, sent))"
proof -
  have "pure_dr OPA_LID_PERMISSIVE (sample_smp OPA_LID_PERMISSIVE)" "\<not> smp_direction (sample_smp OPA_LID_PERMISSIVE)"
    "hop_ptr (sample_smp OPA_LID_PERMISSIVE) = 0" "route_ok (sample_smp OPA_LID_PERMISSIVE) [(1, 8), (3, 8)]"
    "(6::nat) < 256"
    by (simp_all add: sample_smp_def pure_dr_def smp_wf_def smp_direction_def route_ok_def)
  from opa_round_trip [OF this refl, of False True True False 1 1] show ?thesis
    by (auto simp: sample_smp_def)
qed

text \<open>
  A packet with a hop count of 64 or more, or with a hop pointer beyond \<open>hop_cnt + 1\<close>, is
  discarded unchanged by the receive path, and refused with \<open>EINVAL\<close> by the send path when its
  route starts here.
\<close>
theorem smi_rejects_unreasonable:
  assumes "hop_cnt smp \<ge> 64 \<or> hop_ptr smp > hop_cnt smp + 1"
    and "dr_slid smp = IB_LID_PERMISSIVE" "dr_dlid smp = IB_LID_PERMISSIVE"
  shows "handle_ib_smi sw pm port phys smp = Some (IB_SMI_DISCARD, smp, None) \<and>
    outgoing_ib_smp sw pm port smp = Some (Inl EINVAL)"
  using assms by (auto simp: handle_ib_smi_def outgoing_ib_smp_def smi_defs)

theorem smi_rejects_unreasonable_witness:
  "handle_ib_smi True True 5 8 (sample_smp IB_LID_PERMISSIVE\<lparr>hop_ptr := 9\<rparr>) =
     Some (IB_SMI_DISCARD, sample_smp IB_LID_PERMISSIVE\<lparr>hop_ptr := 9\<rparr>, None)"
  using smi_rejects_unreasonable [of "sample_smp IB_LID_PERMISSIVE\<lparr>hop_ptr := 9\<rparr>" True True 5 8]
  by (simp add: sample_smp_def)

end
