(* ===== verification/Refcount.thy ===== *)
theory Refcount
  imports Mlx_Prelude "HOL-Library.Multiset"
begin

text \<open>
  The contract of a table of shared, reference-counted entries: a client adds a reference and gets
  the key of the entry it shares, and deletes references it holds. The rate-limit table
  (\<open>mlx5/core/rl.c\<close>) and the MAC table of the multi-physical-function switch
  (\<open>mlx5/core/lib/mpfs.c\<close>) implement it. The client's part, proved once: in any sequence of
  additions and deletions, every entry counts exactly the references its clients hold, and no
  operation a client is entitled to can fault.
\<close>

text \<open>
  A run of clients: the state of the table and the multiset of keys the clients hold a reference to.
  A client deletes only a reference it holds; an addition takes place while counters have room.
\<close>

inductive ref_run ::
  "('s \<Rightarrow> bool) \<Rightarrow> ('s \<Rightarrow> bool) \<Rightarrow> ('a \<Rightarrow> 's \<Rightarrow> ('k result \<times> 's) option) \<Rightarrow> ('d \<Rightarrow> 'k \<Rightarrow> 's \<Rightarrow> 's option) \<Rightarrow>
   's \<Rightarrow> 'k multiset \<Rightarrow> bool"
  for init room add del where
  ref_init: "init s \<Longrightarrow> ref_run init room add del s {#}"
| ref_add: "ref_run init room add del s held \<Longrightarrow> room s \<Longrightarrow> add a s = Some (Inr k, t) \<Longrightarrow>
    ref_run init room add del t (add_mset k held)"
| ref_add_err: "ref_run init room add del s held \<Longrightarrow> room s \<Longrightarrow> add a s = Some (Inl e, t) \<Longrightarrow>
    ref_run init room add del t held"
| ref_del: "ref_run init room add del s (add_mset k held) \<Longrightarrow> del d k s = Some t \<Longrightarrow>
    ref_run init room add del t held"

locale refcounted =
  fixes init :: "'s \<Rightarrow> bool"
    and invar :: "'s \<Rightarrow> bool"
    and room :: "'s \<Rightarrow> bool"
    and users :: "'s \<Rightarrow> 'k \<Rightarrow> nat"
    and add :: "'a \<Rightarrow> 's \<Rightarrow> ('k result \<times> 's) option"
    and del :: "'d \<Rightarrow> 'k \<Rightarrow> 's \<Rightarrow> 's option"
  assumes init_ok: "init s \<Longrightarrow> invar s \<and> users s = (\<lambda>_. 0)"
    and add_total: "invar s \<Longrightarrow> room s \<Longrightarrow> \<exists>r t. add a s = Some (r, t)"
    and add_ok: "invar s \<Longrightarrow> room s \<Longrightarrow> add a s = Some (Inr k, t) \<Longrightarrow>
      invar t \<and> users t = (users s)(k := Suc (users s k))"
    and add_err: "invar s \<Longrightarrow> room s \<Longrightarrow> add a s = Some (Inl e, t) \<Longrightarrow> invar t \<and> users t = users s"
    and del_ok: "invar s \<Longrightarrow> 0 < users s k \<Longrightarrow>
      \<exists>t. del d k s = Some t \<and> invar t \<and> users t = (users s)(k := users s k - 1)"
begin

lemma run_users:
  assumes "ref_run init room add del s held"
  shows "invar s \<and> users s = count held"
  using assms
proof (induction rule: ref_run.induct)
  case (ref_init s)
  then show ?case using init_ok by (auto simp: fun_eq_iff)
next
  case (ref_add s held a k t)
  then show ?case using add_ok by (auto simp: fun_eq_iff)
next
  case (ref_add_err s held a e t)
  then show ?case using add_err by auto
next
  case (ref_del s k held d t)
  then have "0 < users s k" by simp
  with ref_del show ?case using del_ok [of s k d] by (auto simp: fun_eq_iff)
qed

lemma run_del_safe:
  assumes "ref_run init room add del s held" "k \<in># held"
  shows "\<exists>t. del d k s = Some t"
proof -
  from run_users [OF assms(1)] assms(2) have "invar s" "0 < users s k" by auto
  then show ?thesis using del_ok [of s k d] by blast
qed

lemma run_add_safe:
  assumes "ref_run init room add del s held" "room s"
  shows "\<exists>r t. add a s = Some (r, t)"
  using run_users [OF assms(1)] add_total assms(2) by blast

lemma run_invar: "ref_run init room add del s held \<Longrightarrow> invar s"
  using run_users by blast

end

end
