(* ===== verification/Rate_Limit.thy ===== *)
theory Rate_Limit
  imports Refcount
begin

text \<open>
  The packet-pacing rate-limit table, \<open>mlx5/core/rl.c\<close>: a table of hardware rate-limit entries
  shared by reference count. An entry that gains its first user is programmed in the hardware
  (\<open>SET_PP_RATE_LIMIT\<close>) and cleared when it loses its last one; the array of entries is allocated
  for the first user of the table and freed with the last.

  The command log of the model records every \<open>SET_PP_RATE_LIMIT\<close> command the driver issues, the
  newest first, with the firmware's answer; the answers are an argument \<open>fw\<close> of the operations.
  The results show which entry a request gets, that the reference counts match the users of the
  table over any run, that the array lives exactly as long as there are users, and that the last
  command issued for an entry in use is the accepted one that programs its rate.
\<close>

section \<open>Rate contexts\<close>

definition be32_of_bytes :: "u8 list \<Rightarrow> u32" where
  "be32_of_bytes bs =
     push_bit 24 (ucast (bs ! 0)) OR push_bit 16 (ucast (bs ! 1)) OR push_bit 8 (ucast (bs ! 2)) OR ucast (bs ! 3)"

lemma be32_of_bytes_inverse: "be32_of_bytes (be_bytes 4 w @ xs) = w"
  for w :: u32
proof -
  have "be_bytes 4 w = [ucast (drop_bit 24 w), ucast (drop_bit 16 w), ucast (drop_bit 8 w), ucast w]"
    by (simp add: be_bytes_def upt_rec)
  moreover have "bit (be32_of_bytes (ucast (drop_bit 24 w) # ucast (drop_bit 16 w) # ucast (drop_bit 8 w) # ucast w # xs)) n
      = bit w n" if "n < 32" for n
    using that by (cases "n < 8"; cases "n < 16"; cases "n < 24") (auto simp: be32_of_bytes_def bit_simps)
  ultimately show ?thesis by (auto intro: bit_word_eqI)
qed

text \<open>
  \<open>struct mlx5_rate_limit\<close>, and the 48-byte \<open>set_pp_rate_limit_context\<close> that \<open>MLX5_SET\<close> builds from it:
  the fields \<open>rate_limit\<close> and \<open>burst_upper_bound\<close> in the first two big-endian double words,
  \<open>typical_packet_size\<close> in the low half of the third, zeros elsewhere.
\<close>

record mlx5_rate_limit =
  rate :: u32
  max_burst_sz :: u32
  typical_pkt_sz :: u16

definition rl_context :: "mlx5_rate_limit \<Rightarrow> u8 list" where
  "rl_context rl = be_bytes 4 (rate rl) @ be_bytes 4 (max_burst_sz rl) @ [0, 0] @ be_bytes 2 (typical_pkt_sz rl) @
     replicate 36 0"

definition rate_limit_of :: "u8 list \<Rightarrow> u32" where
  "rate_limit_of raw = be32_of_bytes raw"

definition mlx5_rl_are_equal :: "mlx5_rate_limit \<Rightarrow> mlx5_rate_limit \<Rightarrow> bool" where
  "mlx5_rl_are_equal rl_0 rl_1 \<longleftrightarrow> rate rl_0 = rate rl_1 \<and> max_burst_sz rl_0 = max_burst_sz rl_1 \<and>
     typical_pkt_sz rl_0 = typical_pkt_sz rl_1"

section \<open>The table\<close>

record mlx5_rl_entry =
  rl_raw :: "u8 list"
  re_refcount :: nat
  re_index :: nat
  re_uid :: nat
  dedicated :: bool

text \<open>\<open>rl_entry\<close> is \<open>None\<close> while the pointer is NULL.\<close>

record mlx5_rl_table =
  max_size :: nat
  max_rate :: u32
  min_rate :: u32
  rl_entry :: "mlx5_rl_entry list option"
  rl_refcount :: nat

record set_pp_rate_limit_in =
  pp_uid :: nat
  pp_index :: nat
  pp_ctx :: "u8 list"

type_synonym pp_log = "(set_pp_rate_limit_in \<times> errno option) list"
type_synonym pp_firmware = "pp_log \<Rightarrow> set_pp_rate_limit_in \<Rightarrow> errno option"

record mlx5_rl_dev =
  rl_table :: mlx5_rl_table
  cmd_log :: pp_log

text \<open>The 64-bit reference counts, with their wrap-around.\<close>

definition u64_inc :: "nat \<Rightarrow> nat" where "u64_inc n = (n + 1) mod 2 ^ 64"
definition u64_dec :: "nat \<Rightarrow> nat" where "u64_dec n = (n + (2 ^ 64 - 1)) mod 2 ^ 64"

definition mlx5_rl_are_equal_raw :: "mlx5_rl_entry \<Rightarrow> u8 list \<Rightarrow> nat \<Rightarrow> bool" where
  "mlx5_rl_are_equal_raw entry rl_in u \<longleftrightarrow> rl_raw entry = rl_in \<and> re_uid entry = u"

fun find_rl_scan :: "mlx5_rl_entry list \<Rightarrow> u8 list \<Rightarrow> nat \<Rightarrow> bool \<Rightarrow> nat \<Rightarrow> nat option \<Rightarrow> nat option" where
  "find_rl_scan [] rl_in u ded i ret_entry = ret_entry"
| "find_rl_scan (e # es) rl_in u ded i ret_entry =
     (if ded then (if re_refcount e = 0 then Some i else find_rl_scan es rl_in u ded (i + 1) ret_entry)
      else if re_refcount e \<noteq> 0 then
        (if dedicated e then find_rl_scan es rl_in u ded (i + 1) ret_entry
         else if mlx5_rl_are_equal_raw e rl_in u then Some i
         else find_rl_scan es rl_in u ded (i + 1) ret_entry)
      else find_rl_scan es rl_in u ded (i + 1) (if ret_entry = None then Some i else ret_entry))"

text \<open>
  \<open>find_rl_entry\<close>: the position of the entry found, if any; the outer \<open>None\<close> is the access through
  a NULL array, or beyond its end.
\<close>

definition find_rl_entry :: "mlx5_rl_table \<Rightarrow> u8 list \<Rightarrow> nat \<Rightarrow> bool \<Rightarrow> nat option option" where
  "find_rl_entry table rl_in u ded =
     (if max_size table = 0 then Some None
      else case rl_entry table of
        None \<Rightarrow> None
      | Some es \<Rightarrow> if length es < max_size table then None
                   else Some (find_rl_scan (take (max_size table) es) rl_in u ded 0 None))"

definition mlx5_set_pp_rate_limit_cmd ::
  "pp_firmware \<Rightarrow> mlx5_rl_entry \<Rightarrow> bool \<Rightarrow> mlx5_rl_dev \<Rightarrow> errno option \<times> mlx5_rl_dev" where
  "mlx5_set_pp_rate_limit_cmd fw entry do_set dev =
     (let cmd = \<lparr>pp_uid = re_uid entry, pp_index = re_index entry,
                 pp_ctx = (if do_set then rl_raw entry else replicate 48 0)\<rparr>;
          err = fw (cmd_log dev) cmd
      in (err, dev\<lparr>cmd_log := (cmd, err) # cmd_log dev\<rparr>))"

definition mlx5_rl_is_in_range :: "mlx5_rl_table \<Rightarrow> u32 \<Rightarrow> bool" where
  "mlx5_rl_is_in_range table r \<longleftrightarrow> r \<le> max_rate table \<and> r \<ge> min_rate table"

definition mlx5_rl_table_get :: "bool \<Rightarrow> mlx5_rl_table \<Rightarrow> mlx5_rl_table result" where
  "mlx5_rl_table_get kcalloc_ok table =
     (case rl_entry table of
        Some _ \<Rightarrow> Inr (table\<lparr>rl_refcount := u64_inc (rl_refcount table)\<rparr>)
      | None \<Rightarrow>
          (if \<not> kcalloc_ok then Inl ENOMEM
           else Inr (table\<lparr>rl_entry := Some (map (\<lambda>i. \<lparr>rl_raw = replicate 48 0, re_refcount = 0,
                               re_index = (i + 1) mod 2 ^ 16, re_uid = 0, dedicated = False\<rparr>) [0..<max_size table]),
                           rl_refcount := u64_inc (rl_refcount table)\<rparr>)))"

definition mlx5_rl_table_put :: "mlx5_rl_table \<Rightarrow> mlx5_rl_table" where
  "mlx5_rl_table_put table =
     (let n = u64_dec (rl_refcount table) in
      if n \<noteq> 0 then table\<lparr>rl_refcount := n\<rparr> else table\<lparr>rl_refcount := n, rl_entry := None\<rparr>)"

definition entry_at :: "mlx5_rl_table \<Rightarrow> nat \<Rightarrow> mlx5_rl_entry option" where
  "entry_at table i = do { es \<leftarrow> rl_entry table; nth_opt es i }"

definition set_entry :: "nat \<Rightarrow> mlx5_rl_entry \<Rightarrow> mlx5_rl_dev \<Rightarrow> mlx5_rl_dev" where
  "set_entry i e dev = dev\<lparr>rl_table := (rl_table dev)\<lparr>rl_entry := map_option (\<lambda>es. es[i := e]) (rl_entry (rl_table dev))\<rparr>\<rparr>"

definition mlx5_rl_entry_get :: "mlx5_rl_entry \<Rightarrow> mlx5_rl_entry" where
  "mlx5_rl_entry_get entry = entry\<lparr>re_refcount := u64_inc (re_refcount entry)\<rparr>"

definition mlx5_rl_entry_put :: "pp_firmware \<Rightarrow> nat \<Rightarrow> mlx5_rl_entry \<Rightarrow> mlx5_rl_dev \<Rightarrow> mlx5_rl_dev" where
  "mlx5_rl_entry_put fw i entry dev =
     (let entry' = entry\<lparr>re_refcount := u64_dec (re_refcount entry)\<rparr>;
          dev' = set_entry i entry' dev
      in if re_refcount entry' = 0 then snd (mlx5_set_pp_rate_limit_cmd fw entry' False dev') else dev')"

section \<open>Operations\<close>

definition mlx5_rl_add_rate_raw ::
  "bool \<Rightarrow> pp_firmware \<Rightarrow> u8 list \<Rightarrow> nat \<Rightarrow> bool \<Rightarrow> mlx5_rl_dev \<Rightarrow> (nat result \<times> mlx5_rl_dev) option" where
  "mlx5_rl_add_rate_raw kcalloc_ok fw rl_in u dedicated_entry dev =
     (let table = rl_table dev; r = rate_limit_of rl_in in
      if max_size table = 0 then Some (Inl EOPNOTSUPP, dev)
      else if r = 0 \<or> \<not> mlx5_rl_is_in_range table r then Some (Inl EINVAL, dev)
      else case mlx5_rl_table_get kcalloc_ok table of
        Inl err \<Rightarrow> Some (Inl err, dev)
      | Inr table1 \<Rightarrow> do {
          found \<leftarrow> find_rl_entry table1 rl_in u dedicated_entry;
          (case found of
             None \<Rightarrow> Some (Inl ENOSPC, dev\<lparr>rl_table := mlx5_rl_table_put table1\<rparr>)
           | Some i \<Rightarrow> do {
               entry \<leftarrow> entry_at table1 i;
               (let dev1 = dev\<lparr>rl_table := table1\<rparr> in
                if re_refcount entry = 0 then
                  (let entry1 = entry\<lparr>rl_raw := rl_in, re_uid := u\<rparr>;
                       (err, dev2) = mlx5_set_pp_rate_limit_cmd fw entry1 True (set_entry i entry1 dev1)
                   in case err of
                        Some e \<Rightarrow> Some (Inl e, dev2\<lparr>rl_table := mlx5_rl_table_put (rl_table dev2)\<rparr>)
                      | None \<Rightarrow> (let entry2 = mlx5_rl_entry_get (entry1\<lparr>dedicated := dedicated_entry\<rparr>)
                                 in Some (Inr (re_index entry2), set_entry i entry2 dev2)))
                else Some (Inr (re_index entry), set_entry i (mlx5_rl_entry_get entry) dev1)) }) })"

definition mlx5_rl_remove_rate_raw :: "pp_firmware \<Rightarrow> nat \<Rightarrow> mlx5_rl_dev \<Rightarrow> mlx5_rl_dev option" where
  "mlx5_rl_remove_rate_raw fw index dev =
     (if index = 0 then None
      else do {
        entry \<leftarrow> entry_at (rl_table dev) (index - 1);
        (let dev1 = mlx5_rl_entry_put fw (index - 1) entry dev
         in Some (dev1\<lparr>rl_table := mlx5_rl_table_put (rl_table dev1)\<rparr>)) })"

definition MLX5_SHARED_RESOURCE_UID :: nat where
  "MLX5_SHARED_RESOURCE_UID = 0xffff"

definition mlx5_rl_add_rate ::
  "bool \<Rightarrow> bool \<Rightarrow> pp_firmware \<Rightarrow> mlx5_rate_limit \<Rightarrow> mlx5_rl_dev \<Rightarrow> (nat result \<times> mlx5_rl_dev) option" where
  "mlx5_rl_add_rate packet_pacing_uid kcalloc_ok fw rl dev =
     mlx5_rl_add_rate_raw kcalloc_ok fw (rl_context rl)
       (if packet_pacing_uid then MLX5_SHARED_RESOURCE_UID else 0) False dev"

definition mlx5_rl_remove_rate :: "bool \<Rightarrow> pp_firmware \<Rightarrow> mlx5_rate_limit \<Rightarrow> mlx5_rl_dev \<Rightarrow> mlx5_rl_dev option" where
  "mlx5_rl_remove_rate packet_pacing_uid fw rl dev =
     (if rate rl = 0 then Some dev
      else do {
        found \<leftarrow> find_rl_entry (rl_table dev) (rl_context rl)
          (if packet_pacing_uid then MLX5_SHARED_RESOURCE_UID else 0) False;
        (case found of
           None \<Rightarrow> Some dev
         | Some i \<Rightarrow> do {
             entry \<leftarrow> entry_at (rl_table dev) i;
             (if re_refcount entry = 0 then Some dev
              else let dev1 = mlx5_rl_entry_put fw i entry dev
                   in Some (dev1\<lparr>rl_table := mlx5_rl_table_put (rl_table dev1)\<rparr>)) }) })"

text \<open>\<open>mlx5_init_rl_table\<close>, on the zeroed table of a new device, and \<open>mlx5_cleanup_rl_table\<close>.\<close>

definition mlx5_init_rl_table :: "bool \<Rightarrow> nat \<Rightarrow> u32 \<Rightarrow> u32 \<Rightarrow> mlx5_rl_table \<Rightarrow> mlx5_rl_table" where
  "mlx5_init_rl_table packet_pacing rate_table_size cap_max_rate cap_min_rate table =
     (if \<not> packet_pacing then table\<lparr>max_size := 0\<rparr>
      else table\<lparr>max_size := (rate_table_size + (2 ^ 16 - 1)) mod 2 ^ 16,
                 max_rate := cap_max_rate, min_rate := cap_min_rate\<rparr>)"

fun rl_clear_all :: "pp_firmware \<Rightarrow> mlx5_rl_entry list \<Rightarrow> mlx5_rl_dev \<Rightarrow> mlx5_rl_dev" where
  "rl_clear_all fw [] dev = dev"
| "rl_clear_all fw (e # es) dev =
     rl_clear_all fw es (if re_refcount e \<noteq> 0 then snd (mlx5_set_pp_rate_limit_cmd fw e False dev) else dev)"

definition mlx5_cleanup_rl_table :: "bool \<Rightarrow> pp_firmware \<Rightarrow> mlx5_rl_dev \<Rightarrow> mlx5_rl_dev" where
  "mlx5_cleanup_rl_table packet_pacing fw dev =
     (if \<not> packet_pacing then dev
      else case rl_entry (rl_table dev) of None \<Rightarrow> dev | Some es \<Rightarrow> rl_clear_all fw es dev)"

section \<open>Which entry a request gets\<close>

text \<open>The context and owner under which an entry can be shared: none while it is free or dedicated.\<close>

definition share_key :: "mlx5_rl_entry \<Rightarrow> (u8 list \<times> nat) option" where
  "share_key e = (if re_refcount e \<noteq> 0 \<and> \<not> dedicated e then Some (rl_raw e, re_uid e) else None)"

definition first_free :: "mlx5_rl_entry list \<Rightarrow> nat option" where
  "first_free = first_ix (\<lambda>e. re_refcount e = 0)"

definition first_shared :: "u8 list \<Rightarrow> nat \<Rightarrow> mlx5_rl_entry list \<Rightarrow> nat option" where
  "first_shared rl_in u = first_ix (\<lambda>e. share_key e = Some (rl_in, u))"

definition rl_choice :: "mlx5_rl_entry list \<Rightarrow> u8 list \<Rightarrow> nat \<Rightarrow> bool \<Rightarrow> nat option" where
  "rl_choice es rl_in u ded =
     (if ded then first_free es
      else case first_shared rl_in u es of Some i \<Rightarrow> Some i | None \<Rightarrow> first_free es)"

lemma find_rl_scan_dedicated:
  "find_rl_scan es rl_in u True i ret =
     (case first_free es of Some j \<Rightarrow> Some (i + j) | None \<Rightarrow> ret)"
  by (induction es arbitrary: i) (auto simp: first_free_def split: option.splits)

lemma find_rl_scan_shared:
  "find_rl_scan es rl_in u False i ret =
     (case first_shared rl_in u es of Some j \<Rightarrow> Some (i + j)
      | None \<Rightarrow> (case ret of Some r \<Rightarrow> Some r | None \<Rightarrow> (case first_free es of Some j \<Rightarrow> Some (i + j) | None \<Rightarrow> None)))"
  by (induction es arbitrary: i ret)
    (auto simp: first_free_def first_shared_def share_key_def mlx5_rl_are_equal_raw_def option.map_comp comp_def
      split: option.splits)

lemma find_rl_scan_choice: "find_rl_scan es rl_in u ded 0 None = rl_choice es rl_in u ded"
  by (cases ded)
    (auto simp: find_rl_scan_dedicated find_rl_scan_shared rl_choice_def option.map_ident split: option.splits)

lemma rl_choice_cases:
  assumes "rl_choice es rl_in u ded = Some i"
  shows "i < length es"
    and "re_refcount (es ! i) = 0 \<Longrightarrow> \<not> ded \<Longrightarrow> \<forall>e\<in>set es. share_key e \<noteq> Some (rl_in, u)"
    and "re_refcount (es ! i) \<noteq> 0 \<Longrightarrow> \<not> ded \<and> share_key (es ! i) = Some (rl_in, u)"
  using assms
  by (auto simp: rl_choice_def first_free_def first_shared_def first_ix_Some_iff first_ix_None_iff share_key_def
      split: if_splits option.splits)

lemma rl_choice_None:
  "rl_choice es rl_in u ded = None \<longleftrightarrow>
     (\<forall>e\<in>set es. re_refcount e \<noteq> 0) \<and> (\<not> ded \<longrightarrow> (\<forall>e\<in>set es. share_key e \<noteq> Some (rl_in, u)))"
  by (auto simp: rl_choice_def first_free_def first_shared_def first_ix_None_iff first_ix_Some_iff
      split: option.splits dest: nth_mem)

section \<open>The invariant\<close>

definition fresh_entries :: "nat \<Rightarrow> mlx5_rl_entry list" where
  "fresh_entries n = map (\<lambda>i. \<lparr>rl_raw = replicate 48 0, re_refcount = 0, re_index = (i + 1) mod 2 ^ 16,
      re_uid = 0, dedicated = False\<rparr>) [0..<n]"

text \<open>The entries of a table, the freshly allocated ones while the array is not there.\<close>

definition entries :: "mlx5_rl_table \<Rightarrow> mlx5_rl_entry list" where
  "entries table = (case rl_entry table of Some es \<Rightarrow> es | None \<Rightarrow> fresh_entries (max_size table))"

definition refs :: "mlx5_rl_entry list \<Rightarrow> nat" where
  "refs es = sum_list (map re_refcount es)"

definition entry_users :: "mlx5_rl_entry list \<Rightarrow> nat \<Rightarrow> nat" where
  "entry_users es k = (if 0 < k \<and> k \<le> length es then re_refcount (es ! (k - 1)) else 0)"

definition last_cmd :: "pp_log \<Rightarrow> nat \<Rightarrow> (set_pp_rate_limit_in \<times> errno option) option" where
  "last_cmd = last_for pp_index"

text \<open>
  An entry in use: the last command issued for it is the accepted one that programs its context. A
  free entry: the last command issued for it is none that was accepted with a rate.
\<close>

definition mirrored :: "pp_log \<Rightarrow> mlx5_rl_entry \<Rightarrow> bool" where
  "mirrored log e \<longleftrightarrow>
     (if re_refcount e \<noteq> 0
      then last_cmd log (re_index e) = Some (\<lparr>pp_uid = re_uid e, pp_index = re_index e, pp_ctx = rl_raw e\<rparr>, None)
      else (\<forall>cmd. last_cmd log (re_index e) = Some (cmd, None) \<longrightarrow> rate_limit_of (pp_ctx cmd) = 0))"

definition unshared :: "mlx5_rl_entry list \<Rightarrow> bool" where
  "unshared es \<longleftrightarrow> (\<forall>i<length es. \<forall>j<length es.
     share_key (es ! i) \<noteq> None \<and> share_key (es ! i) = share_key (es ! j) \<longrightarrow> i = j)"

definition entries_ok :: "nat \<Rightarrow> mlx5_rl_entry list \<Rightarrow> pp_log \<Rightarrow> bool" where
  "entries_ok n es log \<longleftrightarrow> length es = n \<and> (\<forall>i<n. re_index (es ! i) = i + 1 \<and> mirrored log (es ! i)) \<and> unshared es"

definition rl_invar :: "mlx5_rl_dev \<Rightarrow> bool" where
  "rl_invar dev \<longleftrightarrow>
     (let table = rl_table dev in
      max_size table < 2 ^ 16 \<and> entries_ok (max_size table) (entries table) (cmd_log dev) \<and>
      rl_refcount table = refs (entries table) \<and> rl_refcount table < 2 ^ 64 \<and>
      (rl_entry table = None \<longleftrightarrow> rl_refcount table = 0))"

definition rl_users :: "mlx5_rl_dev \<Rightarrow> nat \<Rightarrow> nat" where
  "rl_users dev = entry_users (entries (rl_table dev))"

definition rl_room :: "mlx5_rl_dev \<Rightarrow> bool" where
  "rl_room dev \<longleftrightarrow> rl_refcount (rl_table dev) < 2 ^ 64 - 1"

lemma entries_Some [simp]: "rl_entry table = Some es \<Longrightarrow> entries table = es"
  by (simp add: entries_def)

lemma length_fresh [simp]: "length (fresh_entries n) = n"
  by (simp add: fresh_entries_def)

lemma refcount_fresh [simp]: "e \<in> set (fresh_entries n) \<Longrightarrow> re_refcount e = 0"
  by (auto simp: fresh_entries_def)

lemma refs_0_iff: "refs es = 0 \<longleftrightarrow> (\<forall>e\<in>set es. re_refcount e = 0)"
  by (simp add: refs_def sum_list_map_0_iff)

lemma refs_fresh [simp]: "refs (fresh_entries n) = 0"
  by (simp add: refs_0_iff)

lemma entry_users_0: "\<forall>e\<in>set es. re_refcount e = 0 \<Longrightarrow> entry_users es = (\<lambda>_. 0)"
  by (auto simp: entry_users_def fun_eq_iff)

lemma entries_ok_drained:
  assumes "entries_ok n es log" "n < 2 ^ 16" "refs es = 0"
  shows "entries_ok n (fresh_entries n) log"
proof -
  have z: "re_refcount (es ! i) = 0" if "i < n" for i
    using assms that by (auto simp: refs_0_iff entries_ok_def)
  have "re_index (fresh_entries n ! i) = i + 1 \<and> mirrored log (fresh_entries n ! i)" if "i < n" for i
  proof -
    have "re_index (fresh_entries n ! i) = i + 1" using that assms(2) by (simp add: fresh_entries_def)
    moreover have "mirrored log (es ! i)" "re_index (es ! i) = i + 1" using assms(1) that by (auto simp: entries_ok_def)
    moreover have "re_refcount (fresh_entries n ! i) = 0" using that by (simp add: fresh_entries_def)
    ultimately show ?thesis using z [OF that] by (simp add: mirrored_def)
  qed
  moreover have "unshared (fresh_entries n)" by (auto simp: unshared_def share_key_def fresh_entries_def)
  ultimately show ?thesis by (simp add: entries_ok_def)
qed

text \<open>A change of one entry, and of the log for that entry only.\<close>

lemma entries_ok_update:
  assumes "entries_ok n es log" "i < n" "re_index e = i + 1" "mirrored log' e"
    and "\<And>k. k \<noteq> i + 1 \<Longrightarrow> last_cmd log' k = last_cmd log k"
    and "share_key e = None \<or> share_key e = share_key (es ! i) \<or> (\<forall>e'\<in>set es. share_key e' \<noteq> share_key e)"
  shows "entries_ok n (es[i := e]) log'"
proof -
  have "mirrored log' (es ! j)" if "j < n" "j \<noteq> i" for j
  proof -
    have "re_index (es ! j) = j + 1" "mirrored log (es ! j)" using assms(1) that by (simp_all add: entries_ok_def)
    with assms(5) [of "j + 1"] that show ?thesis by (auto simp: mirrored_def split: if_splits)
  qed
  moreover have "unshared (es[i := e])"
    using assms(1,2,6) by (auto simp: unshared_def nth_list_update entries_ok_def) (metis nth_mem)+
  ultimately show ?thesis
    using assms(1-4) by (auto simp: entries_ok_def nth_list_update)
qed

lemma refs_update: "i < length es \<Longrightarrow> refs (es[i := e]) + re_refcount (es ! i) = refs es + re_refcount e"
  by (simp add: refs_def sum_list_map_update)

lemma entry_users_update:
  "i < length es \<Longrightarrow> entry_users (es[i := e]) = (entry_users es)(i + 1 := re_refcount e)"
  by (auto simp: entry_users_def fun_eq_iff nth_list_update)

lemma refs_ge: "i < length es \<Longrightarrow> re_refcount (es ! i) \<le> refs es"
  by (simp add: refs_def elem_le_sum_list [of i "map re_refcount es", simplified])

section \<open>Acquiring and releasing the table\<close>

lemma u64_inc_exact: "n < 2 ^ 64 - 1 \<Longrightarrow> u64_inc n = n + 1"
  by (simp add: u64_inc_def)

lemma u64_dec_exact: "0 < n \<Longrightarrow> n < 2 ^ 64 \<Longrightarrow> u64_dec n = n - 1"
proof -
  assume "0 < n" "n < 2 ^ 64"
  then have "n + (2 ^ 64 - 1) = (n - 1) + 2 ^ 64" by simp
  then have "u64_dec n = (n - 1) mod 2 ^ 64" by (simp only: u64_dec_def mod_add_self2)
  with \<open>n < 2 ^ 64\<close> show ?thesis by simp
qed

lemma table_get_Inr:
  assumes "mlx5_rl_table_get ok table = Inr table1" "rl_refcount table < 2 ^ 64 - 1"
  shows "table1 = table\<lparr>rl_entry := Some (entries table), rl_refcount := rl_refcount table + 1\<rparr>"
  using assms
  by (auto simp: mlx5_rl_table_get_def entries_def fresh_entries_def u64_inc_exact split: option.splits if_splits)

lemma table_get_Inl:
  "mlx5_rl_table_get ok table = Inl e \<longleftrightarrow> e = ENOMEM \<and> \<not> ok \<and> rl_entry table = None"
  by (auto simp: mlx5_rl_table_get_def split: option.splits)

lemma table_put_ok:
  assumes "entries_ok n es log" "rl_entry table = Some es" "max_size table = n" "n < 2 ^ 16"
    and "rl_refcount table = refs es + 1" "refs es + 1 < 2 ^ 64"
    and "rl_table dev = mlx5_rl_table_put table" "cmd_log dev = log"
  shows "rl_invar dev \<and> rl_users dev = entry_users es \<and> (refs es \<noteq> 0 \<longrightarrow> rl_entry (rl_table dev) = Some es)"
proof (cases "refs es = 0")
  case True
  with assms have "rl_table dev = table\<lparr>rl_refcount := 0, rl_entry := None\<rparr>"
    by (simp add: mlx5_rl_table_put_def u64_dec_exact)
  moreover have "entry_users es = (\<lambda>_. 0)" "entry_users (fresh_entries n) = (\<lambda>_. 0)"
    using True by (simp_all add: refs_0_iff entry_users_0)
  ultimately show ?thesis
    using assms True entries_ok_drained [OF assms(1,4) True] by (simp add: rl_invar_def rl_users_def entries_def)
next
  case False
  with assms have "rl_table dev = table\<lparr>rl_refcount := refs es\<rparr>"
    by (simp add: mlx5_rl_table_put_def u64_dec_exact)
  then show ?thesis
    using assms False by (simp add: rl_invar_def rl_users_def entries_def)
qed

lemma last_cmd_Cons [simp]: "last_cmd ((cmd, err) # log) k = (if pp_index cmd = k then Some (cmd, err) else last_cmd log k)"
  by (simp add: last_cmd_def)

lemma rate_limit_of_zeros [simp]: "rate_limit_of (replicate 48 0) = 0"
  by (simp add: rate_limit_of_def be32_of_bytes_def numeral_eq_Suc)

lemma find_rl_entry_choice:
  assumes "rl_entry table = Some es" "length es = max_size table"
  shows "find_rl_entry table rl_in u ded = Some (rl_choice es rl_in u ded)"
  using assms
  by (auto simp: find_rl_entry_def find_rl_scan_choice rl_choice_def first_free_def first_shared_def)

section \<open>Adding a rate\<close>

text \<open>The whole of \<open>mlx5_rl_add_rate_raw\<close>, over the entries of the table.\<close>

definition rl_programmed :: "mlx5_rl_entry \<Rightarrow> u8 list \<Rightarrow> nat \<Rightarrow> set_pp_rate_limit_in" where
  "rl_programmed entry rl_in u = \<lparr>pp_uid = u, pp_index = re_index entry, pp_ctx = rl_in\<rparr>"

lemma add_rate_raw_unfold:
  fixes dev rl_in u ded
  defines "table \<equiv> rl_table dev" and "es \<equiv> entries (rl_table dev)"
  defines "table1 \<equiv> table\<lparr>rl_entry := Some es, rl_refcount := rl_refcount table + 1\<rparr>"
  assumes "rl_invar dev" "rl_room dev" "max_size table \<noteq> 0"
    and "rate_limit_of rl_in \<noteq> 0" "mlx5_rl_is_in_range table (rate_limit_of rl_in)" "ok \<or> rl_entry table \<noteq> None"
  shows "mlx5_rl_add_rate_raw ok fw rl_in u ded dev =
    (case rl_choice es rl_in u ded of
       None \<Rightarrow> Some (Inl ENOSPC, dev\<lparr>rl_table := mlx5_rl_table_put table1\<rparr>)
     | Some i \<Rightarrow>
        (if re_refcount (es ! i) = 0 then
           (let cmd = rl_programmed (es ! i) rl_in u; entry = (es ! i)\<lparr>rl_raw := rl_in, re_uid := u\<rparr>
            in case fw (cmd_log dev) cmd of
              Some e \<Rightarrow> Some (Inl e, \<lparr>rl_table = mlx5_rl_table_put (table1\<lparr>rl_entry := Some (es[i := entry])\<rparr>),
                                     cmd_log = (cmd, Some e) # cmd_log dev\<rparr>)
            | None \<Rightarrow> Some (Inr (i + 1), \<lparr>rl_table = table1\<lparr>rl_entry :=
                  Some (es[i := entry\<lparr>dedicated := ded, re_refcount := 1\<rparr>])\<rparr>, cmd_log = (cmd, None) # cmd_log dev\<rparr>))
         else Some (Inr (i + 1), dev\<lparr>rl_table := table1\<lparr>rl_entry :=
                  Some (es[i := (es ! i)\<lparr>re_refcount := re_refcount (es ! i) + 1\<rparr>])\<rparr>\<rparr>)))"
proof -
  have inv: "length es = max_size table" "\<And>i. i < length es \<Longrightarrow> re_index (es ! i) = i + 1"
    "rl_refcount table = refs es" "rl_refcount table < 2 ^ 64 - 1"
    using assms(4,5) by (auto simp: rl_invar_def entries_ok_def rl_room_def table_def es_def Let_def)
  have get: "mlx5_rl_table_get ok table = Inr table1"
  proof (cases "mlx5_rl_table_get ok table")
    case (Inl e)
    with assms(9) show ?thesis by (auto simp: table_get_Inl)
  next
    case (Inr t)
    with table_get_Inr [OF Inr inv(4)] show ?thesis by (simp add: table1_def es_def table_def)
  qed
  have find: "find_rl_entry table1 rl_in u ded = Some (rl_choice es rl_in u ded)"
    by (rule find_rl_entry_choice) (simp_all add: table1_def inv)
  have at: "entry_at table1 i = Some (es ! i)" "u64_inc (re_refcount (es ! i)) = re_refcount (es ! i) + 1"
    "re_index (es ! i) = i + 1" if "rl_choice es rl_in u ded = Some i" for i
    using rl_choice_cases(1) [OF that] refs_ge [of i es] inv
    by (simp_all add: entry_at_def table1_def nth_opt_def u64_inc_exact)
  show ?thesis
  proof (cases "rl_choice es rl_in u ded")
    case None
    with assms(6-8) get find show ?thesis by (simp add: mlx5_rl_add_rate_raw_def table_def [symmetric])
  next
    case (Some i)
    have t1: "rl_entry table1 = Some es" by (simp add: table1_def)
    from Some show ?thesis
      using assms(6-8) get find at [OF Some] t1
      by (cases "re_refcount (es ! i) = 0"; cases "fw (cmd_log dev) (rl_programmed (es ! i) rl_in u)")
        (simp_all add: mlx5_rl_add_rate_raw_def table_def [symmetric] mlx5_set_pp_rate_limit_cmd_def set_entry_def
          rl_programmed_def mlx5_rl_entry_get_def Let_def u64_inc_def)
  qed
qed

lemma rl_invar_entries:
  assumes "rl_invar dev"
  shows "entries_ok (max_size (rl_table dev)) (entries (rl_table dev)) (cmd_log dev)"
    "length (entries (rl_table dev)) = max_size (rl_table dev)" "max_size (rl_table dev) < 2 ^ 16"
    "rl_refcount (rl_table dev) = refs (entries (rl_table dev))"
    "\<And>i. i < max_size (rl_table dev) \<Longrightarrow> re_index (entries (rl_table dev) ! i) = i + 1"
    "\<And>i. i < max_size (rl_table dev) \<Longrightarrow> mirrored (cmd_log dev) (entries (rl_table dev) ! i)"
  using assms by (auto simp: rl_invar_def Let_def entries_ok_def)

text \<open>A table that holds one more reference than before, in the entry \<open>i\<close>.\<close>

lemma rl_invar_add:
  assumes "rl_invar dev" "rl_room dev" "i < max_size (rl_table dev)"
    and "es = entries (rl_table dev)" "re_refcount e = re_refcount (es ! i) + 1"
    and "entries_ok (max_size (rl_table dev)) (es[i := e]) log"
    and "dev' = \<lparr>rl_table = (rl_table dev)\<lparr>rl_refcount := rl_refcount (rl_table dev) + 1, rl_entry := Some (es[i := e])\<rparr>,
                cmd_log = log\<rparr>"
  shows "rl_invar dev' \<and> rl_users dev' = (rl_users dev)(i + 1 := Suc (rl_users dev (i + 1)))"
proof -
  have i: "i < length es" using assms(3,4) rl_invar_entries(2) [OF assms(1)] by simp
  have "refs (es[i := e]) = refs es + 1" using refs_update [OF i, of e] assms(5) by simp
  moreover have "entry_users es (i + 1) = re_refcount (es ! i)" using i by (simp add: entry_users_def)
  ultimately show ?thesis
    using assms(2,4-7) rl_invar_entries [OF assms(1)] entry_users_update [OF i, of e]
    by (simp add: rl_invar_def rl_users_def Let_def rl_room_def)
qed

lemma rl_table_update: "dev\<lparr>rl_table := table\<rparr> = \<lparr>rl_table = table, cmd_log = cmd_log dev\<rparr>" for dev :: mlx5_rl_dev
  by (cases dev) simp

lemma rl_add_ok:
  assumes inv: "rl_invar dev" "rl_room dev" and add: "mlx5_rl_add_rate_raw ok fw rl_in u ded dev = Some (Inr k, dev')"
  shows "rl_invar dev' \<and> rl_users dev' = (rl_users dev)(k := Suc (rl_users dev k))"
proof -
  let ?es = "entries (rl_table dev)"
  have pre: "max_size (rl_table dev) \<noteq> 0" "rate_limit_of rl_in \<noteq> 0"
    "mlx5_rl_is_in_range (rl_table dev) (rate_limit_of rl_in)" "ok \<or> rl_entry (rl_table dev) \<noteq> None"
    using add by (auto simp: mlx5_rl_add_rate_raw_def mlx5_rl_table_get_def Let_def split: if_splits option.splits)
  note unf = add_rate_raw_unfold [OF inv pre, of fw u ded]
  from add unf obtain i where i: "rl_choice ?es rl_in u ded = Some i" "k = i + 1"
    by (auto simp: Let_def split: option.splits if_splits)
  note choice = rl_choice_cases [OF i(1)]
  note es = rl_invar_entries [OF inv(1)]
  have idx: "re_index (?es ! i) = i + 1" using choice(1) es(2,5) by simp
  show ?thesis
  proof (cases "re_refcount (?es ! i) = 0")
    case True
    let ?e = "(?es ! i)\<lparr>rl_raw := rl_in, re_uid := u, dedicated := ded, re_refcount := 1\<rparr>"
    let ?log = "(rl_programmed (?es ! i) rl_in u, None) # cmd_log dev"
    from add unf i True have fw: "fw (cmd_log dev) (rl_programmed (?es ! i) rl_in u) = None"
      by (simp add: Let_def split: option.splits)
    have "entries_ok (max_size (rl_table dev)) (?es[i := ?e]) ?log"
      by (rule entries_ok_update [OF es(1)])
        (use choice es(2) True idx in \<open>auto simp: mirrored_def rl_programmed_def share_key_def\<close>)
    from rl_invar_add [OF inv _ refl _ this refl] choice(1) es(2) True add unf fw i show ?thesis
      by (simp add: Let_def)
  next
    case False
    let ?e = "(?es ! i)\<lparr>re_refcount := re_refcount (?es ! i) + 1\<rparr>"
    have "entries_ok (max_size (rl_table dev)) (?es[i := ?e]) (cmd_log dev)"
      by (rule entries_ok_update [OF es(1)])
        (use choice es(2) es(6) [of i] False idx in \<open>auto simp: mirrored_def share_key_def split: if_splits\<close>)
    from rl_invar_add [OF inv _ refl _ this refl] choice(1) es(2) False add unf i show ?thesis
      by (simp add: rl_table_update)
  qed
qed

lemma rl_add_err:
  assumes inv: "rl_invar dev" "rl_room dev" and add: "mlx5_rl_add_rate_raw ok fw rl_in u ded dev = Some (Inl err, dev')"
  shows "rl_invar dev' \<and> rl_users dev' = rl_users dev"
proof (cases "max_size (rl_table dev) = 0 \<or> rate_limit_of rl_in = 0 \<or>
    \<not> mlx5_rl_is_in_range (rl_table dev) (rate_limit_of rl_in) \<or> \<not> ok \<and> rl_entry (rl_table dev) = None")
  case True
  with add have "dev' = dev"
    by (auto simp: mlx5_rl_add_rate_raw_def mlx5_rl_table_get_def Let_def split: if_splits option.splits)
  with inv show ?thesis by simp
next
  case False
  let ?es = "entries (rl_table dev)"
  note es = rl_invar_entries [OF inv(1)]
  have bound: "refs ?es + 1 < 2 ^ 64" using inv(2) es(4) by (simp add: rl_room_def)
  note unf = add_rate_raw_unfold [OF inv, of rl_in ok fw u ded]
  show ?thesis
  proof (cases "rl_choice ?es rl_in u ded")
    case None
    with add unf False have "dev' = dev\<lparr>rl_table := mlx5_rl_table_put ((rl_table dev)\<lparr>rl_entry := Some ?es,
        rl_refcount := rl_refcount (rl_table dev) + 1\<rparr>)\<rparr>" by simp
    then show ?thesis
      using table_put_ok [OF es(1) _ _ es(3) _ bound, of _ dev'] es(4) by (simp add: rl_users_def)
  next
    case (Some i)
    note choice = rl_choice_cases [OF Some]
    let ?cmd = "rl_programmed (?es ! i) rl_in u"
    let ?e = "(?es ! i)\<lparr>rl_raw := rl_in, re_uid := u\<rparr>"
    from add unf False Some have z: "re_refcount (?es ! i) = 0" and fw: "fw (cmd_log dev) ?cmd = Some err"
      and dev': "dev' = \<lparr>rl_table = mlx5_rl_table_put ((rl_table dev)\<lparr>rl_refcount := rl_refcount (rl_table dev) + 1,
          rl_entry := Some (?es[i := ?e])\<rparr>), cmd_log = (?cmd, Some err) # cmd_log dev\<rparr>"
      by (auto simp: Let_def split: if_splits option.splits)
    have "entries_ok (max_size (rl_table dev)) (?es[i := ?e]) ((?cmd, Some err) # cmd_log dev)"
      by (rule entries_ok_update [OF es(1)])
        (use choice es(2,5) z in \<open>auto simp: mirrored_def rl_programmed_def share_key_def\<close>)
    moreover have "refs (?es[i := ?e]) = refs ?es" using refs_update [OF choice(1), of ?e] z by simp
    moreover have "entry_users (?es[i := ?e]) = entry_users ?es"
      using entry_users_update [OF choice(1), of ?e] z choice(1) by (auto simp: entry_users_def fun_eq_iff)
    ultimately show ?thesis
      using table_put_ok [OF _ _ _ es(3) _ _ , of "?es[i := ?e]" "(?cmd, Some err) # cmd_log dev" _ dev'] es(4) bound
      by (simp add: dev' rl_users_def)
  qed
qed

lemma rl_add_total:
  assumes inv: "rl_invar dev" "rl_room dev"
  shows "\<exists>r dev'. mlx5_rl_add_rate_raw ok fw rl_in u ded dev = Some (r, dev')"
proof (cases "max_size (rl_table dev) = 0 \<or> rate_limit_of rl_in = 0 \<or>
    \<not> mlx5_rl_is_in_range (rl_table dev) (rate_limit_of rl_in) \<or> \<not> ok \<and> rl_entry (rl_table dev) = None")
  case True
  then show ?thesis
    by (auto simp: mlx5_rl_add_rate_raw_def mlx5_rl_table_get_def Let_def split: option.splits)
next
  case False
  with add_rate_raw_unfold [OF inv, of rl_in ok fw u ded] show ?thesis
    by (simp add: Let_def split: option.split)
qed

section \<open>Removing a rate\<close>

text \<open>\<open>mlx5_rl_entry_put\<close> and \<open>mlx5_rl_table_put\<close> on an entry in use, as both removals call them.\<close>

definition rl_release :: "pp_firmware \<Rightarrow> nat \<Rightarrow> mlx5_rl_entry \<Rightarrow> mlx5_rl_dev \<Rightarrow> mlx5_rl_dev" where
  "rl_release fw i entry dev =
     (let dev1 = mlx5_rl_entry_put fw i entry dev in dev1\<lparr>rl_table := mlx5_rl_table_put (rl_table dev1)\<rparr>)"

lemma rl_release_ok:
  fixes dev
  defines "es \<equiv> entries (rl_table dev)"
  assumes inv: "rl_invar dev" and i: "i < length es" "0 < re_refcount (es ! i)"
  shows "rl_entry (rl_table dev) = Some es"
    "rl_invar (rl_release fw i (es ! i) dev) \<and>
     rl_users (rl_release fw i (es ! i) dev) = (rl_users dev)(i + 1 := rl_users dev (i + 1) - 1)"
proof -
  let ?e = "(es ! i)\<lparr>re_refcount := re_refcount (es ! i) - 1\<rparr>"
  let ?cmd = "\<lparr>pp_uid = re_uid (es ! i), pp_index = re_index (es ! i), pp_ctx = replicate 48 0\<rparr>"
  let ?log = "if re_refcount ?e = 0 then (?cmd, fw (cmd_log dev) ?cmd) # cmd_log dev else cmd_log dev"
  let ?t = "(rl_table dev)\<lparr>rl_entry := Some (es[i := ?e])\<rparr>"
  note es = rl_invar_entries [OF inv, folded es_def]
  have cnt: "rl_refcount (rl_table dev) < 2 ^ 64" "0 < refs es"
    using inv refs_ge [OF i(1)] i(2) by (auto simp: rl_invar_def Let_def)
  with inv show some: "rl_entry (rl_table dev) = Some es"
    using es(4) unfolding es_def by (auto simp: rl_invar_def Let_def)
  have dec: "u64_dec (re_refcount (es ! i)) = re_refcount (es ! i) - 1"
    using i(2) refs_ge [OF i(1)] cnt es(4) by (intro u64_dec_exact) auto
  have rel: "rl_release fw i (es ! i) dev = \<lparr>rl_table = mlx5_rl_table_put ?t, cmd_log = ?log\<rparr>"
    by (simp add: rl_release_def mlx5_rl_entry_put_def mlx5_set_pp_rate_limit_cmd_def set_entry_def Let_def dec some
        rl_table_update)
  have ok: "entries_ok (max_size (rl_table dev)) (es[i := ?e]) ?log"
    by (rule entries_ok_update [OF es(1)])
      (use i es(2,5) es(6) [of i] in \<open>auto simp: mirrored_def share_key_def split: if_splits\<close>)
  have "refs es = refs (es[i := ?e]) + 1" using refs_update [OF i(1), of ?e] i(2) by simp
  moreover have "entry_users (es[i := ?e]) = (entry_users es)(i + 1 := entry_users es (i + 1) - 1)"
    using entry_users_update [OF i(1), of ?e] i(1) by (simp add: entry_users_def)
  ultimately show "rl_invar (rl_release fw i (es ! i) dev) \<and>
     rl_users (rl_release fw i (es ! i) dev) = (rl_users dev)(i + 1 := rl_users dev (i + 1) - 1)"
    using table_put_ok [OF ok, of ?t "rl_release fw i (es ! i) dev"] es(3,4) cnt
    by (simp add: rel) (simp add: rl_users_def es_def [symmetric])
qed

lemma rl_del_ok:
  assumes inv: "rl_invar dev" and k: "0 < rl_users dev k"
  shows "\<exists>dev'. mlx5_rl_remove_rate_raw fw k dev = Some dev' \<and> rl_invar dev' \<and>
    rl_users dev' = (rl_users dev)(k := rl_users dev k - 1)"
proof -
  obtain es where es: "es = entries (rl_table dev)" by simp
  from k have i: "0 < k" "k - 1 < length es" "0 < re_refcount (es ! (k - 1))"
    by (auto simp: es rl_users_def entry_users_def split: if_splits)
  note rel = rl_release_ok [OF inv, folded es, OF i(2,3)]
  have "mlx5_rl_remove_rate_raw fw k dev = Some (rl_release fw (k - 1) (es ! (k - 1)) dev)"
    using i rel(1) by (simp add: mlx5_rl_remove_rate_raw_def entry_at_def nth_opt_def rl_release_def Let_def)
  with rel(2) [of fw] i(1) show ?thesis by simp
qed

text \<open>The argument of an addition: the allocator's and the firmware's answers, and the request.\<close>

definition rl_add :: "bool \<times> pp_firmware \<times> u8 list \<times> nat \<times> bool \<Rightarrow> mlx5_rl_dev \<Rightarrow> (nat result \<times> mlx5_rl_dev) option" where
  "rl_add = (\<lambda>(ok, fw, rl_in, u, ded). mlx5_rl_add_rate_raw ok fw rl_in u ded)"

text \<open>A new device: its table as \<open>mlx5_init_rl_table\<close> leaves it, and no command issued yet.\<close>

definition rl_init :: "mlx5_rl_dev \<Rightarrow> bool" where
  "rl_init dev \<longleftrightarrow> cmd_log dev = [] \<and> (\<exists>pacing n hi lo. rl_table dev = mlx5_init_rl_table pacing n hi lo
     \<lparr>max_size = 0, max_rate = 0, min_rate = 0, rl_entry = None, rl_refcount = 0\<rparr>)"

interpretation rl: refcounted rl_init rl_invar rl_room rl_users rl_add mlx5_rl_remove_rate_raw
proof unfold_locales
  fix dev assume "rl_init dev"
  then have t: "cmd_log dev = []" "rl_entry (rl_table dev) = None" "rl_refcount (rl_table dev) = 0"
    "max_size (rl_table dev) < 2 ^ 16"
    by (auto simp: rl_init_def mlx5_init_rl_table_def)
  then have e: "entries (rl_table dev) = fresh_entries (max_size (rl_table dev))" by (simp add: entries_def)
  have "entries_ok (max_size (rl_table dev)) (fresh_entries (max_size (rl_table dev))) []"
    using t(4) by (auto simp: entries_ok_def unshared_def mirrored_def share_key_def last_cmd_def fresh_entries_def)
  with t e show "rl_invar dev \<and> rl_users dev = (\<lambda>_. 0)"
    by (simp add: rl_invar_def rl_users_def entry_users_0)
qed (auto simp: rl_add_def rl_add_total rl_del_ok simp del: One_nat_def dest: rl_add_ok rl_add_err split: prod.splits)

section \<open>Removal by rate\<close>

lemma add_rate_raw_key:
  assumes inv: "rl_invar dev" "rl_room dev" and add: "mlx5_rl_add_rate_raw ok fw rl_in u False dev = Some (Inr k, dev')"
  shows "\<exists>i. k = i + 1 \<and> i < length (entries (rl_table dev')) \<and>
    share_key (entries (rl_table dev') ! i) = Some (rl_in, u)"
proof -
  let ?es = "entries (rl_table dev)"
  have pre: "max_size (rl_table dev) \<noteq> 0" "rate_limit_of rl_in \<noteq> 0"
    "mlx5_rl_is_in_range (rl_table dev) (rate_limit_of rl_in)" "ok \<or> rl_entry (rl_table dev) \<noteq> None"
    using add by (auto simp: mlx5_rl_add_rate_raw_def mlx5_rl_table_get_def Let_def split: if_splits option.splits)
  note unf = add_rate_raw_unfold [OF inv pre, of fw u False]
  from add unf obtain i where i: "rl_choice ?es rl_in u False = Some i" "k = i + 1"
    by (auto simp: Let_def split: option.splits if_splits)
  with add unf rl_choice_cases [OF i(1)] show ?thesis
    by (cases "re_refcount (?es ! i) = 0") (auto simp: Let_def share_key_def split: option.splits if_splits)
qed

lemma first_shared_unique:
  assumes "unshared es" "i < length es" "share_key (es ! i) = Some (rl_in, u)"
  shows "first_shared rl_in u es = Some i"
proof -
  obtain j where j: "first_shared rl_in u es = Some j"
    using assms(2,3) by (cases "first_shared rl_in u es") (auto simp: first_shared_def first_ix_None_iff)
  then have "j < length es" "share_key (es ! j) = Some (rl_in, u)"
    by (auto simp: first_shared_def first_ix_Some_iff)
  with assms have "j = i" by (auto simp: unshared_def)
  with j show ?thesis by simp
qed

lemma remove_rate_shared:
  assumes inv: "rl_invar dev" and i: "i < length (entries (rl_table dev))"
    and key: "share_key (entries (rl_table dev) ! i) = Some (rl_context rl, if pu then MLX5_SHARED_RESOURCE_UID else 0)"
    and "rate rl \<noteq> 0"
  shows "\<exists>dev'. mlx5_rl_remove_rate pu fw rl dev = Some dev' \<and> rl_invar dev' \<and>
    rl_users dev' = (rl_users dev)(i + 1 := rl_users dev (i + 1) - 1)"
proof -
  obtain es where es: "es = entries (rl_table dev)" by simp
  from key have r: "0 < re_refcount (es ! i)" by (auto simp: share_key_def es split: if_splits)
  note rel = rl_release_ok [OF inv, folded es, OF i [folded es] r]
  have "length es = max_size (rl_table dev)" "unshared es"
    using rl_invar_entries [OF inv] by (auto simp: es entries_ok_def)
  then have "find_rl_entry (rl_table dev) (rl_context rl) (if pu then MLX5_SHARED_RESOURCE_UID else 0) False = Some (Some i)"
    using find_rl_entry_choice [OF rel(1)] first_shared_unique [of es i] i key by (simp add: rl_choice_def es)
  then have "mlx5_rl_remove_rate pu fw rl dev = Some (rl_release fw i (es ! i) dev)"
    using assms(4) rel(1) i r
    by (simp add: mlx5_rl_remove_rate_def entry_at_def nth_opt_def es [symmetric] rl_release_def Let_def)
  with rel(2) [of fw] show ?thesis by simp
qed

lemma refs_users:
  assumes "length es = n"
  shows "refs es = (\<Sum>k\<in>{1..n}. entry_users es k)"
proof -
  have "refs es = (\<Sum>i<n. re_refcount (es ! i))"
    using assms by (simp add: refs_def sum_list_sum_nth atLeast0LessThan)
  also have "\<dots> = (\<Sum>k\<in>{1..n}. entry_users es k)"
    by (rule sum.reindex_bij_witness [of _ "\<lambda>k. k - 1" "\<lambda>i. i + 1"]) (use assms in \<open>auto simp: entry_users_def\<close>)
  finally show ?thesis .
qed

lemma rl_refs_size:
  assumes "rl_invar dev" "rl_users dev = count held"
  shows "rl_refcount (rl_table dev) = size held"
proof -
  let ?es = "entries (rl_table dev)"
  have sub: "set_mset held \<subseteq> {1..length ?es}"
  proof
    fix k assume "k \<in># held"
    then have "0 < entry_users ?es k" using fun_cong [OF assms(2), of k] by (simp add: rl_users_def)
    then show "k \<in> {1..length ?es}" by (auto simp: entry_users_def split: if_splits)
  qed
  have "size held = (\<Sum>k\<in>{1..length ?es}. count held k)"
    unfolding size_multiset_overloaded_eq by (rule sum.mono_neutral_left) (use sub in \<open>auto simp: not_in_iff\<close>)
  also have "\<dots> = refs ?es"
    using refs_users [OF refl, of ?es] assms(2) by (simp add: rl_users_def)
  finally show ?thesis using rl_invar_entries(4) [OF assms(1)] by simp
qed

section \<open>Properties\<close>

text \<open>
  C19. Over every run of additions (whatever the allocator and the firmware answer) and removals of
  rates the clients hold: an entry's reference count is the number of references held to it, the
  table's is their total, and the array of entries is there exactly while there is one. The last
  command issued for an entry in use is the accepted one that programs its context and owner, and
  no two shared entries in use have the same context and owner.
\<close>
theorem rl_table_run:
  assumes "ref_run rl_init rl_room rl_add mlx5_rl_remove_rate_raw dev held"
  shows "rl_users dev = count held \<and> rl_refcount (rl_table dev) = size held \<and>
    (rl_entry (rl_table dev) = None \<longleftrightarrow> held = {#}) \<and>
    (\<forall>es i. rl_entry (rl_table dev) = Some es \<and> i < length es \<and> re_refcount (es ! i) \<noteq> 0 \<longrightarrow>
       last_cmd (cmd_log dev) (i + 1) =
         Some (\<lparr>pp_uid = re_uid (es ! i), pp_index = i + 1, pp_ctx = rl_raw (es ! i)\<rparr>, None)) \<and>
    unshared (entries (rl_table dev))"
proof (intro conjI allI impI)
  from rl.run_users [OF assms] have inv: "rl_invar dev" and users: "rl_users dev = count held" by auto
  show "rl_users dev = count held" by (fact users)
  show size: "rl_refcount (rl_table dev) = size held" by (rule rl_refs_size [OF inv users])
  show "rl_entry (rl_table dev) = None \<longleftrightarrow> held = {#}"
    using inv size by (auto simp: rl_invar_def Let_def)
  show "unshared (entries (rl_table dev))" using rl_invar_entries(1) [OF inv] by (simp add: entries_ok_def)
  fix es i
  assume i: "rl_entry (rl_table dev) = Some es \<and> i < length es \<and> re_refcount (es ! i) \<noteq> 0"
  then have "entries (rl_table dev) = es" by simp
  with rl_invar_entries(2) [OF inv] rl_invar_entries(5,6) [OF inv, of i] i
  have "mirrored (cmd_log dev) (es ! i)" "re_index (es ! i) = i + 1" by simp_all
  with i show "last_cmd (cmd_log dev) (i + 1) =
         Some (\<lparr>pp_uid = re_uid (es ! i), pp_index = i + 1, pp_ctx = rl_raw (es ! i)\<rparr>, None)"
    by (simp add: mirrored_def)
qed

definition sample_rl :: mlx5_rate_limit where
  "sample_rl = \<lparr>rate = 10, max_burst_sz = 0, typical_pkt_sz = 0\<rparr>"

definition sample_dev :: mlx5_rl_dev where
  "sample_dev = \<lparr>rl_table = mlx5_init_rl_table True 3 1000 1
     \<lparr>max_size = 0, max_rate = 0, min_rate = 0, rl_entry = None, rl_refcount = 0\<rparr>, cmd_log = []\<rparr>"

definition sample_added :: mlx5_rl_dev where
  "sample_added = \<lparr>rl_table = (rl_table sample_dev)\<lparr>rl_entry := Some
       [\<lparr>rl_raw = rl_context sample_rl, re_refcount = 1, re_index = 1, re_uid = 7, dedicated = False\<rparr>,
        \<lparr>rl_raw = replicate 48 0, re_refcount = 0, re_index = 2, re_uid = 0, dedicated = False\<rparr>],
       rl_refcount := 1\<rparr>,
     cmd_log = [(\<lparr>pp_uid = 7, pp_index = 1, pp_ctx = rl_context sample_rl\<rparr>, None)]\<rparr>"

lemma rate_limit_of_context [simp]: "rate_limit_of (rl_context rl) = rate rl"
  by (simp add: rate_limit_of_def rl_context_def be32_of_bytes_inverse)

lemma sample_add: "rl_add (True, \<lambda>_ _. None, rl_context sample_rl, 7, False) sample_dev = Some (Inr 1, sample_added)"
  by (simp add: rl_add_def mlx5_rl_add_rate_raw_def sample_dev_def sample_added_def mlx5_init_rl_table_def sample_rl_def
      mlx5_rl_is_in_range_def mlx5_rl_table_get_def find_rl_entry_def upt_rec u64_inc_def entry_at_def nth_opt_def
      mlx5_set_pp_rate_limit_cmd_def set_entry_def mlx5_rl_entry_get_def)

lemma sample_run: "ref_run rl_init rl_room rl_add mlx5_rl_remove_rate_raw sample_added {#1#}"
proof -
  have "rl_init sample_dev" by (auto simp: rl_init_def sample_dev_def)
  then have run: "ref_run rl_init rl_room rl_add mlx5_rl_remove_rate_raw sample_dev {#}" by (rule ref_init)
  have "rl_room sample_dev" by (simp add: rl_room_def sample_dev_def mlx5_init_rl_table_def)
  from ref_add [of rl_init rl_room rl_add mlx5_rl_remove_rate_raw, OF run this sample_add] show ?thesis by simp
qed

theorem rl_table_run_witness: "rl_users sample_added = count {#1#} \<and> rl_refcount (rl_table sample_added) = 1"
  using rl_table_run [OF sample_run] by simp

text \<open>
  In such a run no operation leaves the array of entries or goes through its NULL pointer: every
  addition returns, and so does the removal of every rate a client holds.
\<close>
theorem rl_table_safe:
  assumes "ref_run rl_init rl_room rl_add mlx5_rl_remove_rate_raw dev held"
  shows "(rl_room dev \<longrightarrow> (\<exists>r dev'. mlx5_rl_add_rate_raw ok fw rl_in u ded dev = Some (r, dev'))) \<and>
    (\<forall>k\<in>#held. \<exists>dev'. mlx5_rl_remove_rate_raw fw k dev = Some dev')"
  using rl.run_add_safe [OF assms, of "(ok, fw, rl_in, u, ded)"] rl.run_del_safe [OF assms, of _ fw]
  by (auto simp: rl_add_def)

theorem rl_table_safe_witness: "\<exists>dev'. mlx5_rl_remove_rate_raw (\<lambda>_ _. None) 1 sample_added = Some dev'"
  using rl_table_safe [OF sample_run, of True "\<lambda>_ _. None"] by simp

text \<open>
  Which entry a valid request gets in a state the runs reach: a shared request gets the entry in
  use with its context and owner if there is one, every other request the first free entry, which
  is programmed for it before it counts; the index handed out is the entry's position plus one
  (index 0 is the unlimited rate). The request fails with \<open>ENOSPC\<close> exactly when there is no such entry,
  and hands on the firmware's error when the entry cannot be programmed.
\<close>
theorem rl_add_rate_raw_result:
  assumes "ref_run rl_init rl_room rl_add mlx5_rl_remove_rate_raw dev held" "rl_room dev"
    and "max_size (rl_table dev) \<noteq> 0" "rate_limit_of rl_in \<noteq> 0"
    and "mlx5_rl_is_in_range (rl_table dev) (rate_limit_of rl_in)" "ok \<or> held \<noteq> {#}"
  shows "map_option fst (mlx5_rl_add_rate_raw ok fw rl_in u ded dev) = Some
    (case rl_choice (entries (rl_table dev)) rl_in u ded of
       None \<Rightarrow> Inl ENOSPC
     | Some i \<Rightarrow>
        (if rl_users dev (i + 1) \<noteq> 0 then Inr (i + 1)
         else case fw (cmd_log dev) \<lparr>pp_uid = u, pp_index = i + 1, pp_ctx = rl_in\<rparr> of
           None \<Rightarrow> Inr (i + 1) | Some e \<Rightarrow> Inl e))"
proof -
  from rl.run_users [OF assms(1)] have inv: "rl_invar dev" and users: "rl_users dev = count held" by auto
  have "rl_entry (rl_table dev) = None \<longleftrightarrow> held = {#}"
    using inv rl_refs_size [OF inv users] by (auto simp: rl_invar_def Let_def)
  then have ok: "ok \<or> rl_entry (rl_table dev) \<noteq> None" using assms(6) by simp
  have "re_index (entries (rl_table dev) ! i) = i + 1 \<and> rl_users dev (i + 1) = re_refcount (entries (rl_table dev) ! i)"
    if "rl_choice (entries (rl_table dev)) rl_in u ded = Some i" for i
    using rl_choice_cases(1) [OF that] rl_invar_entries(2,5) [OF inv] by (simp add: rl_users_def entry_users_def)
  then show ?thesis
    unfolding add_rate_raw_unfold [OF inv assms(2-5) ok]
    by (auto simp: rl_programmed_def Let_def split: option.split)
qed

theorem rl_add_rate_raw_result_witness:
  "map_option fst (mlx5_rl_add_rate_raw True (\<lambda>_ _. None) (rl_context sample_rl) 7 False sample_added) = Some (Inr 1)"
proof -
  have "rl_choice (entries (rl_table sample_added)) (rl_context sample_rl) 7 False = Some 0"
    by (simp add: sample_added_def rl_choice_def first_shared_def share_key_def)
  moreover have "rl_room sample_added" "max_size (rl_table sample_added) \<noteq> 0" "rate_limit_of (rl_context sample_rl) \<noteq> 0"
    "mlx5_rl_is_in_range (rl_table sample_added) (rate_limit_of (rl_context sample_rl))"
    by (simp_all add: rl_room_def sample_added_def sample_dev_def mlx5_init_rl_table_def sample_rl_def mlx5_rl_is_in_range_def)
  ultimately show ?thesis
    by (subst rl_add_rate_raw_result [OF sample_run]) (simp_all)
qed

text \<open>
  A rate that was added is found again by its value: removing it by rate right after releases
  exactly the reference the addition took.
\<close>
theorem rl_add_remove_roundtrip:
  assumes "ref_run rl_init rl_room rl_add mlx5_rl_remove_rate_raw dev held" "rl_room dev"
    and "mlx5_rl_add_rate pu ok fw rl dev = Some (Inr k, dev1)"
  shows "rl_users dev1 k = Suc (rl_users dev k) \<and>
    (\<exists>dev2. mlx5_rl_remove_rate pu fw' rl dev1 = Some dev2 \<and> rl_users dev2 = rl_users dev)"
proof -
  let ?u = "if pu then MLX5_SHARED_RESOURCE_UID else 0"
  have inv: "rl_invar dev" by (rule rl.run_invar [OF assms(1)])
  have add: "mlx5_rl_add_rate_raw ok fw (rl_context rl) ?u False dev = Some (Inr k, dev1)"
    using assms(3) by (simp add: mlx5_rl_add_rate_def)
  then have "rate rl \<noteq> 0" by (auto simp: mlx5_rl_add_rate_raw_def Let_def split: if_splits)
  moreover obtain i where i: "k = i + 1" "i < length (entries (rl_table dev1))"
      "share_key (entries (rl_table dev1) ! i) = Some (rl_context rl, ?u)"
    using add_rate_raw_key [OF inv assms(2) add] by blast
  ultimately show ?thesis
    using rl_add_ok [OF inv assms(2) add] remove_rate_shared [of dev1 i rl pu fw'] by auto
qed

theorem rl_add_remove_roundtrip_witness:
  "\<exists>dev1 dev2. mlx5_rl_add_rate True True (\<lambda>_ _. None) sample_rl sample_dev = Some (Inr 1, dev1) \<and>
     mlx5_rl_remove_rate True (\<lambda>_ _. None) sample_rl dev1 = Some dev2 \<and> rl_users dev2 = rl_users sample_dev"
proof -
  have "rl_init sample_dev" by (auto simp: rl_init_def sample_dev_def)
  then have run: "ref_run rl_init rl_room rl_add mlx5_rl_remove_rate_raw sample_dev {#}" by (rule ref_init)
  obtain dev1 where "mlx5_rl_add_rate True True (\<lambda>_ _. None) sample_rl sample_dev = Some (Inr 1, dev1)"
    by (simp add: mlx5_rl_add_rate_def mlx5_rl_add_rate_raw_def sample_dev_def mlx5_init_rl_table_def sample_rl_def
      mlx5_rl_is_in_range_def mlx5_rl_table_get_def find_rl_entry_def upt_rec u64_inc_def entry_at_def nth_opt_def
      mlx5_set_pp_rate_limit_cmd_def set_entry_def mlx5_rl_entry_get_def)
  with rl_add_remove_roundtrip [OF run _ this, of "\<lambda>_ _. None"] show ?thesis
    by (auto simp: rl_room_def sample_dev_def mlx5_init_rl_table_def)
qed

text \<open>
  Removing a rate while no rate at all is configured goes through the NULL entry array on a device
  that supports packet pacing, instead of reporting the rate as not configured.
\<close>
theorem rl_remove_rate_null:
  assumes "rl_invar dev" "rl_refcount (rl_table dev) = 0" "max_size (rl_table dev) \<noteq> 0" "rate rl \<noteq> 0"
  shows "mlx5_rl_remove_rate pu fw rl dev = None"
  using assms by (auto simp: mlx5_rl_remove_rate_def find_rl_entry_def rl_invar_def Let_def)

theorem rl_remove_rate_null_witness: "mlx5_rl_remove_rate True (\<lambda>_ _. None) sample_rl sample_dev = None"
proof -
  have "rl_init sample_dev" by (auto simp: rl_init_def sample_dev_def)
  then have "rl_invar sample_dev" using rl.init_ok by blast
  from rl_remove_rate_null [OF this, of sample_rl True "\<lambda>_ _. None"] show ?thesis
    by (simp add: sample_dev_def mlx5_init_rl_table_def sample_rl_def)
qed

end
