(* ===== verification/Mpfs.thy ===== *)
theory Mpfs
  imports Refcount
begin

text \<open>
  The L2 table of the multi-physical-function switch, \<open>mlx5/core/lib/mpfs.c\<close>, with the hash helpers of
  \<open>lib/mpfs.h\<close>: the MAC addresses the hardware steers to this function. Addresses are kept in a
  256-bucket hash table and reference counted; each has a slot of the hardware table, taken from a
  bitmap.

  The command log records the commands issued for the hardware table, the newest first, with the
  firmware's answers, which are an argument \<open>fw\<close> of the operations; \<open>kzalloc_ok\<close> is the allocator's
  answer. The results show that an address counts the references its clients hold, that addresses
  in the table have different slots and the bitmap marks exactly those, and that every address in
  the table was accepted by the firmware in its slot.
\<close>

section \<open>The hash table\<close>

text \<open>A MAC address, as the 48-bit number its six bytes spell; byte 5 is the lowest one.\<close>

type_synonym mac = "48 word"

definition MLX5_L2_ADDR_HASH_SIZE :: nat where
  "MLX5_L2_ADDR_HASH_SIZE = 2 ^ 8"

definition MLX5_L2_ADDR_HASH :: "mac \<Rightarrow> nat" where
  "MLX5_L2_ADDR_HASH addr = unat (take_bit 8 addr)"

record l2table_node =
  l2_addr :: mac
  l2_index :: nat
  ref_count :: int

type_synonym l2_hash = "l2table_node list list"

definition l2addr_hash_find :: "l2_hash \<Rightarrow> mac \<Rightarrow> l2table_node option" where
  "l2addr_hash_find hash mac = find (\<lambda>n. l2_addr n = mac) (hash ! MLX5_L2_ADDR_HASH mac)"

definition l2addr_hash_add :: "bool \<Rightarrow> l2_hash \<Rightarrow> mac \<Rightarrow> (l2table_node \<times> l2_hash) option" where
  "l2addr_hash_add kzalloc_ok hash mac =
     (if kzalloc_ok then
        (let ix = MLX5_L2_ADDR_HASH mac; node = \<lparr>l2_addr = mac, l2_index = 0, ref_count = 0\<rparr>
         in Some (node, hash[ix := node # hash ! ix]))
      else None)"

text \<open>Writing through, and unlinking, the node found for an address.\<close>

fun hlist_write :: "mac \<Rightarrow> l2table_node \<Rightarrow> l2table_node list \<Rightarrow> l2table_node list" where
  "hlist_write mac n' [] = []"
| "hlist_write mac n' (n # ns) = (if l2_addr n = mac then n' # ns else n # hlist_write mac n' ns)"

fun hlist_del :: "mac \<Rightarrow> l2table_node list \<Rightarrow> l2table_node list" where
  "hlist_del mac [] = []"
| "hlist_del mac (n # ns) = (if l2_addr n = mac then ns else n # hlist_del mac ns)"

definition l2addr_write :: "l2_hash \<Rightarrow> l2table_node \<Rightarrow> l2_hash" where
  "l2addr_write hash n =
     (let ix = MLX5_L2_ADDR_HASH (l2_addr n) in hash[ix := hlist_write (l2_addr n) n (hash ! ix)])"

definition l2addr_hash_del :: "l2_hash \<Rightarrow> l2table_node \<Rightarrow> l2_hash" where
  "l2addr_hash_del hash n =
     (let ix = MLX5_L2_ADDR_HASH (l2_addr n) in hash[ix := hlist_del (l2_addr n) (hash ! ix)])"

section \<open>The hardware table\<close>

datatype l2_cmd =
    SET_L2_TABLE_ENTRY nat mac
  | DELETE_L2_TABLE_ENTRY nat

fun l2_cmd_index :: "l2_cmd \<Rightarrow> nat" where
  "l2_cmd_index (SET_L2_TABLE_ENTRY i _) = i"
| "l2_cmd_index (DELETE_L2_TABLE_ENTRY i) = i"

type_synonym l2_log = "(l2_cmd \<times> errno option) list"
type_synonym l2_firmware = "l2_log \<Rightarrow> l2_cmd \<Rightarrow> errno option"

record mlx5_mpfs =
  l2_hash :: l2_hash
  l2_size :: nat
  l2_bitmap :: "bool list"

text \<open>\<open>dev->priv.mpfs\<close>, \<open>None\<close> for NULL, and the commands issued.\<close>

record mpfs_dev =
  mpfs :: "mlx5_mpfs option"
  l2_log :: l2_log

definition l2_cmd_exec :: "l2_firmware \<Rightarrow> l2_cmd \<Rightarrow> l2_log \<Rightarrow> errno option \<times> l2_log" where
  "l2_cmd_exec fw cmd log = (let err = fw log cmd in (err, (cmd, err) # log))"

definition set_l2table_entry_cmd :: "l2_firmware \<Rightarrow> nat \<Rightarrow> mac \<Rightarrow> l2_log \<Rightarrow> errno option \<times> l2_log" where
  "set_l2table_entry_cmd fw index mac = l2_cmd_exec fw (SET_L2_TABLE_ENTRY index mac)"

definition del_l2table_entry_cmd :: "l2_firmware \<Rightarrow> nat \<Rightarrow> l2_log \<Rightarrow> errno option \<times> l2_log" where
  "del_l2table_entry_cmd fw index = l2_cmd_exec fw (DELETE_L2_TABLE_ENTRY index)"

definition alloc_l2table_index :: "mlx5_mpfs \<Rightarrow> (nat \<times> mlx5_mpfs) result" where
  "alloc_l2table_index l2table =
     (case first_ix Not (take (l2_size l2table) (l2_bitmap l2table)) of
        None \<Rightarrow> Inl ENOSPC
      | Some ix \<Rightarrow> Inr (ix, l2table\<lparr>l2_bitmap := (l2_bitmap l2table)[ix := True]\<rparr>))"

definition free_l2table_index :: "mlx5_mpfs \<Rightarrow> nat \<Rightarrow> mlx5_mpfs" where
  "free_l2table_index l2table ix = l2table\<lparr>l2_bitmap := (l2_bitmap l2table)[ix := False]\<rparr>"

section \<open>Operations\<close>

definition mlx5_mpfs_init :: "bool \<Rightarrow> nat \<Rightarrow> bool \<Rightarrow> bool \<Rightarrow> mlx5_mpfs option result" where
  "mlx5_mpfs_init eswitch_manager log_max_l2_table kzalloc_ok bitmap_ok =
     (let l2table_size = 2 ^ log_max_l2_table in
      if \<not> eswitch_manager \<or> l2table_size = 1 then Inr None
      else if \<not> kzalloc_ok then Inl ENOMEM
      else if \<not> bitmap_ok then Inl ENOMEM
      else Inr (Some \<lparr>l2_hash = replicate MLX5_L2_ADDR_HASH_SIZE [], l2_size = l2table_size,
                      l2_bitmap = replicate l2table_size False\<rparr>))"

text \<open>\<open>mlx5_mpfs_cleanup\<close>: whether its \<open>WARN_ON\<close> fires; the table is freed.\<close>

definition mlx5_mpfs_cleanup :: "mlx5_mpfs option \<Rightarrow> bool" where
  "mlx5_mpfs_cleanup m = (case m of None \<Rightarrow> False | Some mp \<Rightarrow> l2_hash mp ! 0 \<noteq> [])"

text \<open>Signed 32-bit arithmetic.\<close>

definition s32 :: "int \<Rightarrow> int" where
  "s32 n = (n + 2 ^ 31) mod 2 ^ 32 - 2 ^ 31"

definition mlx5_mpfs_add_mac ::
  "bool \<Rightarrow> l2_firmware \<Rightarrow> mac \<Rightarrow> mpfs_dev \<Rightarrow> errno option \<times> mpfs_dev" where
  "mlx5_mpfs_add_mac kzalloc_ok fw mac dev =
     (case mpfs dev of
        None \<Rightarrow> (None, dev)
      | Some m \<Rightarrow>
         (case l2addr_hash_find (l2_hash m) mac of
            Some l2addr \<Rightarrow>
              (None, dev\<lparr>mpfs := Some (m\<lparr>l2_hash :=
                 l2addr_write (l2_hash m) (l2addr\<lparr>ref_count := s32 (ref_count l2addr + 1)\<rparr>)\<rparr>)\<rparr>)
          | None \<Rightarrow>
             (case alloc_l2table_index m of
                Inl err \<Rightarrow> (Some err, dev)
              | Inr (index, m1) \<Rightarrow>
                 (case l2addr_hash_add kzalloc_ok (l2_hash m1) mac of
                    None \<Rightarrow> (Some ENOMEM, dev\<lparr>mpfs := Some (free_l2table_index m1 index)\<rparr>)
                  | Some (l2addr, hash) \<Rightarrow>
                     (let m2 = m1\<lparr>l2_hash := hash\<rparr>;
                          (err, log) = set_l2table_entry_cmd fw index mac (l2_log dev)
                      in case err of
                        Some e \<Rightarrow> (Some e, dev\<lparr>mpfs := Some (free_l2table_index
                             (m2\<lparr>l2_hash := l2addr_hash_del hash l2addr\<rparr>) index), l2_log := log\<rparr>)
                      | None \<Rightarrow> (None, dev\<lparr>mpfs := Some (m2\<lparr>l2_hash :=
                             l2addr_write hash (l2addr\<lparr>l2_index := index, ref_count := 1\<rparr>)\<rparr>), l2_log := log\<rparr>))))))"

definition mlx5_mpfs_del_mac :: "l2_firmware \<Rightarrow> mac \<Rightarrow> mpfs_dev \<Rightarrow> errno option \<times> mpfs_dev" where
  "mlx5_mpfs_del_mac fw mac dev =
     (case mpfs dev of
        None \<Rightarrow> (None, dev)
      | Some m \<Rightarrow>
         (case l2addr_hash_find (l2_hash m) mac of
            None \<Rightarrow> (Some ENOENT, dev)
          | Some l2addr \<Rightarrow>
             (let l2addr' = l2addr\<lparr>ref_count := s32 (ref_count l2addr - 1)\<rparr> in
              if ref_count l2addr' > 0
              then (None, dev\<lparr>mpfs := Some (m\<lparr>l2_hash := l2addr_write (l2_hash m) l2addr'\<rparr>)\<rparr>)
              else (let index = l2_index l2addr';
                        (_, log) = del_l2table_entry_cmd fw index (l2_log dev)
                    in (None, dev\<lparr>mpfs := Some (free_l2table_index
                          (m\<lparr>l2_hash := l2addr_hash_del (l2_hash m) l2addr'\<rparr>) index), l2_log := log\<rparr>)))))"

section \<open>The hash table as a map\<close>

definition hash_ok :: "l2_hash \<Rightarrow> bool" where
  "hash_ok hash \<longleftrightarrow> length hash = MLX5_L2_ADDR_HASH_SIZE \<and>
     (\<forall>b<length hash. distinct (map l2_addr (hash ! b)) \<and> (\<forall>n\<in>set (hash ! b). MLX5_L2_ADDR_HASH (l2_addr n) = b))"

lemma hash_in_range [simp]: "MLX5_L2_ADDR_HASH mac < MLX5_L2_ADDR_HASH_SIZE"
proof -
  have "unat (take_bit 8 mac) = take_bit 8 (unat mac)" by (simp add: unsigned_take_bit_eq)
  also have "\<dots> < 2 ^ 8" by (rule take_bit_nat_less_exp)
  finally show ?thesis by (simp add: MLX5_L2_ADDR_HASH_def MLX5_L2_ADDR_HASH_SIZE_def)
qed

lemma find_write:
  "find (\<lambda>x. l2_addr x = a) (hlist_write (l2_addr n) n ns) =
     (if a = l2_addr n \<and> find (\<lambda>x. l2_addr x = a) ns \<noteq> None then Some n else find (\<lambda>x. l2_addr x = a) ns)"
  by (induction ns) auto

lemma find_del:
  "distinct (map l2_addr ns) \<Longrightarrow>
   find (\<lambda>x. l2_addr x = a) (hlist_del mac ns) = (if a = mac then None else find (\<lambda>x. l2_addr x = a) ns)"
  by (induction ns) (auto simp: find_None_iff image_iff)

lemma map_addr_write: "map l2_addr (hlist_write (l2_addr n) n ns) = map l2_addr ns"
  by (induction ns) auto

lemma set_del: "set (hlist_del mac ns) \<subseteq> set ns"
  by (induction ns) auto

lemma distinct_del: "distinct (map l2_addr ns) \<Longrightarrow> distinct (map l2_addr (hlist_del mac ns))"
  by (induction ns) (use set_del in \<open>auto simp: image_iff\<close>)

lemma hash_ok_update:
  assumes "hash_ok hash" "b < MLX5_L2_ADDR_HASH_SIZE" "distinct (map l2_addr ns)"
    and "\<And>n. n \<in> set ns \<Longrightarrow> MLX5_L2_ADDR_HASH (l2_addr n) = b"
  shows "hash_ok (hash[b := ns])"
  using assms by (auto simp: hash_ok_def nth_list_update)

lemma hash_bucket:
  assumes "hash_ok hash"
  shows "distinct (map l2_addr (hash ! MLX5_L2_ADDR_HASH a))"
    "\<And>n. n \<in> set (hash ! MLX5_L2_ADDR_HASH a) \<Longrightarrow> MLX5_L2_ADDR_HASH (l2_addr n) = MLX5_L2_ADDR_HASH a"
    "length hash = MLX5_L2_ADDR_HASH_SIZE"
  using assms by (auto simp: hash_ok_def)

lemma hash_find_addr: "l2addr_hash_find hash mac = Some n \<Longrightarrow> l2_addr n = mac"
  by (auto simp: l2addr_hash_find_def find_Some_iff)

lemma hash_write:
  assumes "hash_ok hash" "l2addr_hash_find hash (l2_addr n) \<noteq> None"
  shows "hash_ok (l2addr_write hash n) \<and> l2addr_hash_find (l2addr_write hash n) = (l2addr_hash_find hash)(l2_addr n \<mapsto> n)"
proof
  let ?b = "MLX5_L2_ADDR_HASH (l2_addr n)"
  have "MLX5_L2_ADDR_HASH (l2_addr x) = ?b" if "x \<in> set (hlist_write (l2_addr n) n (hash ! ?b))" for x
  proof -
    from that have "l2_addr x \<in> set (map l2_addr (hlist_write (l2_addr n) n (hash ! ?b)))" by simp
    then have "l2_addr x \<in> l2_addr ` set (hash ! ?b)" unfolding map_addr_write by simp
    with hash_bucket(2) [OF assms(1)] show ?thesis by auto
  qed
  then show "hash_ok (l2addr_write hash n)"
    using hash_bucket(1) [OF assms(1)]
    by (auto simp: l2addr_write_def Let_def map_addr_write intro!: hash_ok_update [OF assms(1)])
  show "l2addr_hash_find (l2addr_write hash n) = (l2addr_hash_find hash)(l2_addr n \<mapsto> n)"
    using assms hash_bucket(3) [OF assms(1)]
    by (auto simp: fun_eq_iff l2addr_hash_find_def l2addr_write_def Let_def nth_list_update find_write)
qed

lemma hash_del:
  assumes "hash_ok hash"
  shows "hash_ok (l2addr_hash_del hash n) \<and>
    l2addr_hash_find (l2addr_hash_del hash n) = (l2addr_hash_find hash)(l2_addr n := None)"
  using hash_bucket(1,2) [OF assms, where a = "l2_addr n"] hash_bucket(3) [OF assms] set_del [of "l2_addr n"]
  by (auto simp: l2addr_hash_del_def Let_def fun_eq_iff l2addr_hash_find_def nth_list_update find_del
      intro!: hash_ok_update [OF assms] distinct_del)

lemma hash_add:
  assumes "hash_ok hash" "l2addr_hash_find hash mac = None" "l2addr_hash_add ok hash mac = Some (n, hash')"
  shows "hash_ok hash' \<and> l2addr_hash_find hash' = (l2addr_hash_find hash)(mac \<mapsto> n) \<and> l2_addr n = mac"
proof -
  let ?b = "MLX5_L2_ADDR_HASH mac"
  from assms(3) have n: "l2_addr n = mac" "hash' = hash[?b := n # hash ! ?b]"
    by (auto simp: l2addr_hash_add_def Let_def split: if_splits)
  have new: "mac \<notin> l2_addr ` set (hash ! ?b)"
    using assms(2) by (auto simp: l2addr_hash_find_def find_None_iff)
  have "hash_ok hash'"
    unfolding n(2) using new n(1) hash_bucket(1,2) [OF assms(1), where a = mac]
    by (intro hash_ok_update [OF assms(1)]) auto
  moreover have "l2addr_hash_find hash' = (l2addr_hash_find hash)(mac \<mapsto> n)"
    using n hash_bucket(3) [OF assms(1)] by (auto simp: fun_eq_iff l2addr_hash_find_def nth_list_update)
  ultimately show ?thesis using n(1) by simp
qed

section \<open>The invariant\<close>

definition last_l2 :: "l2_log \<Rightarrow> nat \<Rightarrow> (l2_cmd \<times> errno option) option" where
  "last_l2 = last_for l2_cmd_index"

text \<open>
  Over the map from addresses to nodes: reference counts are positive, slots are inside the table and
  not shared, the bitmap marks exactly the slots of addresses in the table, and the last command
  issued for such a slot is the accepted one that stored the address; no address was accepted last
  in an unmarked slot.
\<close>

definition nodes_ok :: "(mac \<rightharpoonup> l2table_node) \<Rightarrow> nat \<Rightarrow> l2_log \<Rightarrow> bool" where
  "nodes_ok L n log \<longleftrightarrow> (\<forall>mac nd. L mac = Some nd \<longrightarrow> l2_addr nd = mac \<and> l2_index nd < n \<and>
      1 \<le> ref_count nd \<and> ref_count nd < 2 ^ 31 \<and>
      last_l2 log (l2_index nd) = Some (SET_L2_TABLE_ENTRY (l2_index nd) mac, None))"

definition used_slot :: "(mac \<rightharpoonup> l2table_node) \<Rightarrow> nat \<Rightarrow> bool" where
  "used_slot L i \<longleftrightarrow> (\<exists>mac nd. L mac = Some nd \<and> l2_index nd = i)"

definition slots_ok :: "(mac \<rightharpoonup> l2table_node) \<Rightarrow> bool list \<Rightarrow> l2_log \<Rightarrow> bool" where
  "slots_ok L bm log \<longleftrightarrow> (\<forall>i<length bm. bm ! i = used_slot L i \<and>
     (\<not> bm ! i \<longrightarrow> (\<forall>mac. last_l2 log i \<noteq> Some (SET_L2_TABLE_ENTRY i mac, None))))"

definition mpfs_ok :: "mlx5_mpfs \<Rightarrow> l2_log \<Rightarrow> bool" where
  "mpfs_ok m log \<longleftrightarrow> hash_ok (l2_hash m) \<and> length (l2_bitmap m) = l2_size m \<and>
     nodes_ok (l2addr_hash_find (l2_hash m)) (l2_size m) log \<and>
     slots_ok (l2addr_hash_find (l2_hash m)) (l2_bitmap m) log"

definition mpfs_invar :: "mpfs_dev \<Rightarrow> bool" where
  "mpfs_invar dev \<longleftrightarrow> (\<exists>m. mpfs dev = Some m \<and> mpfs_ok m (l2_log dev))"

definition mpfs_users :: "mpfs_dev \<Rightarrow> mac \<Rightarrow> nat" where
  "mpfs_users dev mac = (case mpfs dev of None \<Rightarrow> 0 | Some m \<Rightarrow>
     (case l2addr_hash_find (l2_hash m) mac of None \<Rightarrow> 0 | Some nd \<Rightarrow> nat (ref_count nd)))"

definition mpfs_room :: "mpfs_dev \<Rightarrow> bool" where
  "mpfs_room dev \<longleftrightarrow> (\<forall>m. mpfs dev = Some m \<longrightarrow> (\<forall>b\<in>set (l2_hash m). \<forall>nd\<in>set b. ref_count nd < 2 ^ 31 - 1))"

lemma s32_exact: "- (2 ^ 31) \<le> n \<Longrightarrow> n < 2 ^ 31 \<Longrightarrow> s32 n = n"
  by (simp add: s32_def)

text \<open>Two addresses never share a slot: the log names the one that was stored there last.\<close>

lemma nodes_okD:
  assumes "nodes_ok L n log" "L mac = Some nd"
  shows "l2_addr nd = mac" "l2_index nd < n" "1 \<le> ref_count nd" "ref_count nd < 2 ^ 31"
    "last_l2 log (l2_index nd) = Some (SET_L2_TABLE_ENTRY (l2_index nd) mac, None)"
  using assms by (auto simp: nodes_ok_def)

lemma nodes_ok_inj:
  assumes "nodes_ok L n log" "L mac = Some nd" "L mac' = Some nd'" "l2_index nd = l2_index nd'"
  shows "mac = mac'"
  using nodes_okD(5) [OF assms(1,2)] nodes_okD(5) [OF assms(1,3)] assms(4) by simp

lemma used_slot_new:
  assumes "L mac = None"
  shows "used_slot (L(mac \<mapsto> nd)) i \<longleftrightarrow> i = l2_index nd \<or> used_slot L i"
  unfolding used_slot_def using assms by (metis fun_upd_apply option.distinct(1) option.inject)

lemma used_slot_count:
  assumes "L mac = Some nd"
  shows "used_slot (L(mac \<mapsto> nd\<lparr>ref_count := c\<rparr>)) i \<longleftrightarrow> used_slot L i"
proof
  assume "used_slot (L(mac \<mapsto> nd\<lparr>ref_count := c\<rparr>)) i"
  then obtain mac' nd' where "(L(mac \<mapsto> nd\<lparr>ref_count := c\<rparr>)) mac' = Some nd'" "l2_index nd' = i"
    unfolding used_slot_def by blast
  with assms show "used_slot L i"
    unfolding used_slot_def by (cases "mac' = mac") (auto intro: exI [of _ mac])
next
  assume "used_slot L i"
  then obtain mac' nd' where "L mac' = Some nd'" "l2_index nd' = i" unfolding used_slot_def by blast
  with assms show "used_slot (L(mac \<mapsto> nd\<lparr>ref_count := c\<rparr>)) i"
    unfolding used_slot_def by (intro exI [of _ mac'] exI [of _ "if mac' = mac then nd\<lparr>ref_count := c\<rparr> else nd'"]) auto
qed

lemma used_slot_remove:
  assumes "nodes_ok L n log" "L mac = Some nd"
  shows "used_slot (L(mac := None)) i \<longleftrightarrow> used_slot L i \<and> i \<noteq> l2_index nd"
  unfolding used_slot_def using assms(2) nodes_ok_inj [OF assms]
  by (metis fun_upd_apply option.distinct(1) option.inject)

text \<open>The four changes of the map: a count, a new address, a refused address, a removal.\<close>

lemma count_ok:
  assumes "nodes_ok L n log" "slots_ok L bm log" "L mac = Some nd" "1 \<le> c" "c < 2 ^ 31"
  shows "nodes_ok (L(mac \<mapsto> nd\<lparr>ref_count := c\<rparr>)) n log \<and> slots_ok (L(mac \<mapsto> nd\<lparr>ref_count := c\<rparr>)) bm log"
  using assms nodes_okD [OF assms(1,3)] by (simp add: nodes_ok_def slots_ok_def used_slot_count)

lemma new_ok:
  assumes "nodes_ok L (length bm) log" "slots_ok L bm log" "i < length bm" "\<not> bm ! i" "L mac = None"
    and "l2_addr nd = mac" "l2_index nd = i" "ref_count nd = 1"
  shows "nodes_ok (L(mac \<mapsto> nd)) (length bm) ((SET_L2_TABLE_ENTRY i mac, None) # log) \<and>
    slots_ok (L(mac \<mapsto> nd)) (bm[i := True]) ((SET_L2_TABLE_ENTRY i mac, None) # log)"
proof
  have free: "l2_index nd' \<noteq> i" if "L mac' = Some nd'" for mac' nd'
    using assms(2-4) that unfolding slots_ok_def used_slot_def by blast
  show "nodes_ok (L(mac \<mapsto> nd)) (length bm) ((SET_L2_TABLE_ENTRY i mac, None) # log)"
    using assms(1,3,6-8) by (auto simp: nodes_ok_def last_l2_def dest: free)
  show "slots_ok (L(mac \<mapsto> nd)) (bm[i := True]) ((SET_L2_TABLE_ENTRY i mac, None) # log)"
    using assms(2,7) by (auto simp: slots_ok_def used_slot_new [of L, OF assms(5)] last_l2_def nth_list_update)
qed

lemma refused_ok:
  assumes "nodes_ok L (length bm) log" "slots_ok L bm log" "i < length bm" "\<not> bm ! i"
  shows "nodes_ok L (length bm) ((SET_L2_TABLE_ENTRY i mac, Some e) # log) \<and>
    slots_ok L bm ((SET_L2_TABLE_ENTRY i mac, Some e) # log)"
proof
  have free: "l2_index nd \<noteq> i" if "L mac' = Some nd" for mac' nd
    using assms(2-4) that unfolding slots_ok_def used_slot_def by blast
  show "nodes_ok L (length bm) ((SET_L2_TABLE_ENTRY i mac, Some e) # log)"
    using assms(1) by (auto simp: nodes_ok_def last_l2_def dest: free)
  show "slots_ok L bm ((SET_L2_TABLE_ENTRY i mac, Some e) # log)"
    using assms(2) by (simp add: slots_ok_def last_l2_def)
qed

lemma remove_ok:
  assumes "nodes_ok L (length bm) log" "slots_ok L bm log" "L mac = Some nd"
  shows "nodes_ok (L(mac := None)) (length bm) ((DELETE_L2_TABLE_ENTRY (l2_index nd), r) # log) \<and>
    slots_ok (L(mac := None)) (bm[l2_index nd := False]) ((DELETE_L2_TABLE_ENTRY (l2_index nd), r) # log)"
proof
  have other: "l2_index nd' \<noteq> l2_index nd" if "L mac' = Some nd'" "mac' \<noteq> mac" for mac' nd'
    using nodes_ok_inj [OF assms(1,3) that(1)] that(2) by auto
  show "nodes_ok (L(mac := None)) (length bm) ((DELETE_L2_TABLE_ENTRY (l2_index nd), r) # log)"
    using assms(1) by (auto simp: nodes_ok_def last_l2_def dest: other)
  show "slots_ok (L(mac := None)) (bm[l2_index nd := False]) ((DELETE_L2_TABLE_ENTRY (l2_index nd), r) # log)"
    using assms(2) by (auto simp: slots_ok_def used_slot_remove [OF assms(1,3)] last_l2_def nth_list_update)
qed

section \<open>The operations keep it\<close>

lemma mpfs_users_Some:
  "mpfs dev = Some m \<Longrightarrow> mpfs_users dev =
     (\<lambda>mac. case l2addr_hash_find (l2_hash m) mac of None \<Rightarrow> 0 | Some nd \<Rightarrow> nat (ref_count nd))"
  by (simp add: mpfs_users_def fun_eq_iff)

lemma mpfs_room_node:
  assumes "mpfs_room dev" "mpfs dev = Some m" "hash_ok (l2_hash m)" "l2addr_hash_find (l2_hash m) mac = Some nd"
  shows "ref_count nd < 2 ^ 31 - 1"
proof -
  have "MLX5_L2_ADDR_HASH mac < length (l2_hash m)" using assms(3) by (simp add: hash_ok_def)
  then have "l2_hash m ! MLX5_L2_ADDR_HASH mac \<in> set (l2_hash m)" by simp
  moreover have "nd \<in> set (l2_hash m ! MLX5_L2_ADDR_HASH mac)"
    using assms(4) by (auto simp: l2addr_hash_find_def find_Some_iff)
  ultimately show ?thesis using assms(1,2) by (auto simp: mpfs_room_def)
qed

lemma bitmap_restore: "i < length bm \<Longrightarrow> \<not> bm ! i \<Longrightarrow> bm[i := False] = bm"
  by (metis (full_types) list_update_id)

lemma mpfs_add_found:
  assumes "mpfs dev = Some m" "mpfs_ok m (l2_log dev)" "mpfs_room dev" "l2addr_hash_find (l2_hash m) mac = Some nd"
    and "mlx5_mpfs_add_mac ok fw mac dev = (r, dev')"
  shows "r = None \<and> mpfs_invar dev' \<and> mpfs_users dev' = (mpfs_users dev)(mac := Suc (mpfs_users dev mac))"
proof -
  let ?nd = "nd\<lparr>ref_count := ref_count nd + 1\<rparr>"
  let ?L = "l2addr_hash_find (l2_hash m)"
  have ok: "hash_ok (l2_hash m)" "nodes_ok ?L (l2_size m) (l2_log dev)" "slots_ok ?L (l2_bitmap m) (l2_log dev)"
    using assms(2) by (simp_all add: mpfs_ok_def)
  note nd = nodes_okD [OF ok(2) assms(4)]
  have lt: "ref_count nd + 1 < 2 ^ 31" using mpfs_room_node [OF assms(3,1) ok(1) assms(4)] by simp
  then have s: "s32 (ref_count nd + 1) = ref_count nd + 1" using nd(3) by (intro s32_exact) auto
  have w: "hash_ok (l2addr_write (l2_hash m) ?nd)" "l2addr_hash_find (l2addr_write (l2_hash m) ?nd) = ?L(mac \<mapsto> ?nd)"
    using hash_write [OF ok(1), of ?nd] nd(1) assms(4) by auto
  have r: "r = None" "dev' = dev\<lparr>mpfs := Some (m\<lparr>l2_hash := l2addr_write (l2_hash m) ?nd\<rparr>)\<rparr>"
    using assms(1,4,5) s by (auto simp: mlx5_mpfs_add_mac_def)
  have "mpfs_invar dev'"
    using w assms(2) count_ok [OF ok(2,3) assms(4) _ lt] nd(3) by (simp add: r mpfs_invar_def mpfs_ok_def)
  moreover have "mpfs_users dev' = (mpfs_users dev)(mac := Suc (mpfs_users dev mac))"
    using w(2) assms(4) nd(3) by (auto simp: r mpfs_users_Some [OF assms(1)] mpfs_users_def fun_eq_iff)
  ultimately show ?thesis using r by simp
qed

lemma mpfs_add_new:
  assumes "mpfs dev = Some m" "mpfs_ok m (l2_log dev)" "l2addr_hash_find (l2_hash m) mac = None"
    and "mlx5_mpfs_add_mac ok fw mac dev = (r, dev')"
  shows "mpfs_invar dev' \<and>
    mpfs_users dev' = (if r = None then (mpfs_users dev)(mac := Suc (mpfs_users dev mac)) else mpfs_users dev)"
proof -
  let ?L = "l2addr_hash_find (l2_hash m)"
  have inv: "hash_ok (l2_hash m)" "length (l2_bitmap m) = l2_size m" "nodes_ok ?L (length (l2_bitmap m)) (l2_log dev)"
    "slots_ok ?L (l2_bitmap m) (l2_log dev)"
    using assms(2) by (simp_all add: mpfs_ok_def)
  show ?thesis
  proof (cases "first_ix Not (l2_bitmap m)")
    case None
    then have "dev' = dev" "r \<noteq> None"
      using assms(1,3,4) inv(2) by (auto simp: mlx5_mpfs_add_mac_def alloc_l2table_index_def)
    then show ?thesis using assms(1,2) by (auto simp: mpfs_invar_def)
  next
    case (Some i)
    then have i: "i < length (l2_bitmap m)" "\<not> l2_bitmap m ! i" by (auto simp: first_ix_Some_iff)
    note restore = bitmap_restore [OF i]
    have alloc: "alloc_l2table_index m = Inr (i, m\<lparr>l2_bitmap := (l2_bitmap m)[i := True]\<rparr>)"
      using Some inv(2) by (simp add: alloc_l2table_index_def)
    show ?thesis
    proof (cases "l2addr_hash_add ok (l2_hash m) mac")
      case None
      with assms(1,3,4) alloc restore have "dev' = dev" "r \<noteq> None"
        by (auto simp: mlx5_mpfs_add_mac_def free_l2table_index_def intro!: mpfs_dev.equality mlx5_mpfs.equality)
      then show ?thesis using assms(1,2) by (auto simp: mpfs_invar_def)
    next
      case (Some p)
      obtain nd hash where p: "l2addr_hash_add ok (l2_hash m) mac = Some (nd, hash)" using Some by (cases p) auto
      note h = hash_add [OF inv(1) assms(3) p]
      let ?cmd = "SET_L2_TABLE_ENTRY i mac"
      let ?nd = "nd\<lparr>l2_index := i, ref_count := 1\<rparr>"
      have w: "hash_ok (l2addr_write hash ?nd)" "l2addr_hash_find (l2addr_write hash ?nd) = ?L(mac \<mapsto> ?nd)"
        using hash_write [of hash ?nd] h by auto
      have d: "hash_ok (l2addr_hash_del hash nd)" "l2addr_hash_find (l2addr_hash_del hash nd) = ?L"
        using hash_del [of hash nd] h assms(3) by (auto simp: fun_eq_iff)
      show ?thesis
      proof (cases "fw (l2_log dev) ?cmd")
        case None
        have "r = None" "dev' = dev\<lparr>mpfs := Some (m\<lparr>l2_bitmap := (l2_bitmap m)[i := True],
            l2_hash := l2addr_write hash ?nd\<rparr>), l2_log := (?cmd, None) # l2_log dev\<rparr>"
          using assms(1,3,4) alloc p None by (auto simp: mlx5_mpfs_add_mac_def set_l2table_entry_cmd_def l2_cmd_exec_def)
        moreover from this have "mpfs_invar dev'"
          using w new_ok [OF inv(3,4) i assms(3), of ?nd] h inv(2) by (simp add: mpfs_invar_def mpfs_ok_def)
        ultimately show ?thesis
          using w(2) assms(3) by (simp add: mpfs_users_def assms(1) fun_eq_iff)
      next
        case (Some e)
        have "r = Some e" "dev' = dev\<lparr>mpfs := Some (m\<lparr>l2_hash := l2addr_hash_del hash nd\<rparr>), l2_log := (?cmd, Some e) # l2_log dev\<rparr>"
          using assms(1,3,4) alloc p Some restore
          by (auto simp: mlx5_mpfs_add_mac_def set_l2table_entry_cmd_def l2_cmd_exec_def free_l2table_index_def Let_def
              intro!: mpfs_dev.equality mlx5_mpfs.equality)
        moreover from this have "mpfs_invar dev'"
          using d refused_ok [OF inv(3,4) i, of mac e] inv(2) by (simp add: mpfs_invar_def mpfs_ok_def)
        ultimately show ?thesis
          using d(2) by (simp add: mpfs_users_def assms(1) fun_eq_iff)
      qed
    qed
  qed
qed

lemma mpfs_del_correct:
  assumes "mpfs_invar dev" "0 < mpfs_users dev mac"
  shows "\<exists>dev'. mlx5_mpfs_del_mac fw mac dev = (None, dev') \<and> mpfs_invar dev' \<and>
    mpfs_users dev' = (mpfs_users dev)(mac := mpfs_users dev mac - 1)"
proof -
  from assms(1) obtain m where m: "mpfs dev = Some m" "mpfs_ok m (l2_log dev)" by (auto simp: mpfs_invar_def)
  let ?L = "l2addr_hash_find (l2_hash m)"
  from m(2) have inv: "hash_ok (l2_hash m)" "length (l2_bitmap m) = l2_size m" "nodes_ok ?L (length (l2_bitmap m)) (l2_log dev)"
    "slots_ok ?L (l2_bitmap m) (l2_log dev)"
    by (simp_all add: mpfs_ok_def)
  from assms(2) m(1) obtain nd where nd: "?L mac = Some nd" by (auto simp: mpfs_users_def split: option.splits)
  note ndD = nodes_okD [OF inv(3) nd]
  let ?nd = "nd\<lparr>ref_count := ref_count nd - 1\<rparr>"
  have s: "s32 (ref_count nd - 1) = ref_count nd - 1" using ndD(3,4) by (intro s32_exact) auto
  have w: "hash_ok (l2addr_write (l2_hash m) ?nd)" "l2addr_hash_find (l2addr_write (l2_hash m) ?nd) = ?L(mac \<mapsto> ?nd)"
    using hash_write [OF inv(1), of ?nd] ndD(1) nd by auto
  have d: "hash_ok (l2addr_hash_del (l2_hash m) ?nd)" "l2addr_hash_find (l2addr_hash_del (l2_hash m) ?nd) = ?L(mac := None)"
    using hash_del [OF inv(1), of ?nd] ndD(1) by auto
  show ?thesis
  proof (cases "ref_count nd = 1")
    case True
    let ?cmd = "DELETE_L2_TABLE_ENTRY (l2_index nd)"
    let ?dev' = "dev\<lparr>mpfs := Some (m\<lparr>l2_hash := l2addr_hash_del (l2_hash m) ?nd,
        l2_bitmap := (l2_bitmap m)[l2_index nd := False]\<rparr>), l2_log := (?cmd, fw (l2_log dev) ?cmd) # l2_log dev\<rparr>"
    have "mlx5_mpfs_del_mac fw mac dev = (None, ?dev')"
      using True s nd m(1) by (simp add: mlx5_mpfs_del_mac_def del_l2table_entry_cmd_def l2_cmd_exec_def free_l2table_index_def Let_def)
    moreover have "mpfs_invar ?dev'"
      using d inv(2) remove_ok [OF inv(3,4) nd] by (simp add: mpfs_invar_def mpfs_ok_def)
    moreover have "mpfs_users ?dev' = (mpfs_users dev)(mac := mpfs_users dev mac - 1)"
      using d(2) True nd m(1) by (auto simp: mpfs_users_def fun_eq_iff)
    ultimately show ?thesis by blast
  next
    case False
    let ?dev' = "dev\<lparr>mpfs := Some (m\<lparr>l2_hash := l2addr_write (l2_hash m) ?nd\<rparr>)\<rparr>"
    have "mlx5_mpfs_del_mac fw mac dev = (None, ?dev')"
      using False s nd m(1) ndD(3) by (simp add: mlx5_mpfs_del_mac_def)
    moreover have "mpfs_invar ?dev'"
      using w inv(2) count_ok [OF inv(3,4) nd, of "ref_count nd - 1"] False ndD(3,4) by (simp add: mpfs_invar_def mpfs_ok_def)
    moreover have "mpfs_users ?dev' = (mpfs_users dev)(mac := mpfs_users dev mac - 1)"
      using w(2) nd m(1) ndD(3) by (auto simp: mpfs_users_def fun_eq_iff nat_diff_distrib)
    ultimately show ?thesis by blast
  qed
qed

text \<open>The operations in the form of the reference-count contract: the key of an address is itself.\<close>

definition mpfs_add :: "bool \<times> l2_firmware \<times> mac \<Rightarrow> mpfs_dev \<Rightarrow> (mac result \<times> mpfs_dev) option" where
  "mpfs_add = (\<lambda>(ok, fw, mac) dev. case mlx5_mpfs_add_mac ok fw mac dev of
     (None, dev') \<Rightarrow> Some (Inr mac, dev') | (Some e, dev') \<Rightarrow> Some (Inl e, dev'))"

definition mpfs_del :: "l2_firmware \<Rightarrow> mac \<Rightarrow> mpfs_dev \<Rightarrow> mpfs_dev option" where
  "mpfs_del fw mac dev = (case mlx5_mpfs_del_mac fw mac dev of (None, dev') \<Rightarrow> Some dev' | (Some _, _) \<Rightarrow> None)"

definition mpfs_init :: "mpfs_dev \<Rightarrow> bool" where
  "mpfs_init dev \<longleftrightarrow> l2_log dev = [] \<and> (\<exists>n m. mlx5_mpfs_init True n True True = Inr (Some m) \<and> mpfs dev = Some m)"

lemma mpfs_add_correct:
  assumes "mpfs_invar dev" "mpfs_room dev" "mlx5_mpfs_add_mac ok fw mac dev = (r, dev')"
  shows "mpfs_invar dev' \<and>
    mpfs_users dev' = (if r = None then (mpfs_users dev)(mac := Suc (mpfs_users dev mac)) else mpfs_users dev)"
proof -
  from assms(1) obtain m where m: "mpfs dev = Some m" "mpfs_ok m (l2_log dev)" by (auto simp: mpfs_invar_def)
  show ?thesis
    using mpfs_add_found [OF m assms(2) _ assms(3)] mpfs_add_new [OF m _ assms(3)]
    by (cases "l2addr_hash_find (l2_hash m) mac") auto
qed

interpretation mp: refcounted mpfs_init mpfs_invar mpfs_room mpfs_users mpfs_add mpfs_del
proof unfold_locales
  fix dev assume "mpfs_init dev"
  then obtain n where n: "l2_log dev = []" "mpfs dev = Some \<lparr>l2_hash = replicate MLX5_L2_ADDR_HASH_SIZE [],
      l2_size = 2 ^ n, l2_bitmap = replicate (2 ^ n) False\<rparr>"
    by (auto simp: mpfs_init_def mlx5_mpfs_init_def Let_def split: if_splits)
  have none: "l2addr_hash_find (replicate MLX5_L2_ADDR_HASH_SIZE []) = (\<lambda>_. None)"
    by (simp add: l2addr_hash_find_def fun_eq_iff)
  show "mpfs_invar dev \<and> mpfs_users dev = (\<lambda>_. 0)"
    using n none
    by (simp add: mpfs_invar_def mpfs_ok_def hash_ok_def nodes_ok_def slots_ok_def used_slot_def last_l2_def
        mpfs_users_def fun_eq_iff)
next
  fix dev :: mpfs_dev and a
  show "\<exists>r t. mpfs_add a dev = Some (r, t)"
    by (auto simp: mpfs_add_def split: prod.split option.split)
next
  fix dev a k t assume "mpfs_invar dev" "mpfs_room dev" "mpfs_add a dev = Some (Inr k, t)"
  then show "mpfs_invar t \<and> mpfs_users t = (mpfs_users dev)(k := Suc (mpfs_users dev k))"
    using mpfs_add_correct by (fastforce simp: mpfs_add_def split: prod.splits option.splits)
next
  fix dev a e t assume "mpfs_invar dev" "mpfs_room dev" "mpfs_add a dev = Some (Inl e, t)"
  then show "mpfs_invar t \<and> mpfs_users t = mpfs_users dev"
    using mpfs_add_correct by (fastforce simp: mpfs_add_def split: prod.splits option.splits)
next
  fix dev k fw assume "mpfs_invar dev" "0 < mpfs_users dev k"
  from mpfs_del_correct [OF this, of fw]
  show "\<exists>t. mpfs_del fw k dev = Some t \<and> mpfs_invar t \<and> mpfs_users t = (mpfs_users dev)(k := mpfs_users dev k - 1)"
    by (auto simp: mpfs_del_def)
qed

section \<open>Properties\<close>

text \<open>
  C21. Over every run of additions (whatever the allocator and the firmware answer) and removals of
  addresses the clients hold: an address is in the table exactly while it is held and counts the
  references held to it; different addresses have different slots inside the table; the bitmap
  marks exactly the slots in use; and the last command issued for the slot of an address is the one
  that stored it there, accepted by the firmware.
\<close>
theorem mpfs_run:
  assumes "ref_run mpfs_init mpfs_room mpfs_add mpfs_del dev held"
  shows "\<exists>m. mpfs dev = Some m \<and>
    (\<forall>mac. case l2addr_hash_find (l2_hash m) mac of
        None \<Rightarrow> mac \<notin># held
      | Some nd \<Rightarrow> ref_count nd = int (count held mac) \<and> mac \<in># held \<and> l2_index nd < l2_size m \<and>
          last_l2 (l2_log dev) (l2_index nd) = Some (SET_L2_TABLE_ENTRY (l2_index nd) mac, None)) \<and>
    (\<forall>mac mac' nd nd'. l2addr_hash_find (l2_hash m) mac = Some nd \<and> l2addr_hash_find (l2_hash m) mac' = Some nd' \<and>
        l2_index nd = l2_index nd' \<longrightarrow> mac = mac') \<and>
    (\<forall>i<l2_size m. l2_bitmap m ! i = (\<exists>mac nd. l2addr_hash_find (l2_hash m) mac = Some nd \<and> l2_index nd = i))"
proof -
  from mp.run_users [OF assms] obtain m where m: "mpfs dev = Some m" "mpfs_ok m (l2_log dev)"
    and users: "\<And>mac. mpfs_users dev mac = count held mac"
    by (auto simp: mpfs_invar_def)
  from m(2) have ok: "nodes_ok (l2addr_hash_find (l2_hash m)) (l2_size m) (l2_log dev)"
    "slots_ok (l2addr_hash_find (l2_hash m)) (l2_bitmap m) (l2_log dev)" "length (l2_bitmap m) = l2_size m"
    by (auto simp: mpfs_ok_def)
  have "case l2addr_hash_find (l2_hash m) mac of
        None \<Rightarrow> mac \<notin># held
      | Some nd \<Rightarrow> ref_count nd = int (count held mac) \<and> mac \<in># held \<and> l2_index nd < l2_size m \<and>
          last_l2 (l2_log dev) (l2_index nd) = Some (SET_L2_TABLE_ENTRY (l2_index nd) mac, None)" for mac
    using users [of mac] m(1) nodes_okD [OF ok(1), of mac]
    by (auto simp: mpfs_users_def not_in_iff count_greater_zero_iff [symmetric] simp del: count_greater_zero_iff
        split: option.splits)
  moreover have "\<forall>i<l2_size m. l2_bitmap m ! i = used_slot (l2addr_hash_find (l2_hash m)) i"
    using ok(2,3) by (simp add: slots_ok_def)
  ultimately show ?thesis
    using m(1) nodes_ok_inj [OF ok(1)] by (auto simp: used_slot_def)
qed

definition sample_mpfs :: mpfs_dev where
  "sample_mpfs = \<lparr>mpfs = Some \<lparr>l2_hash = replicate 256 [], l2_size = 4, l2_bitmap = [False, False, False, False]\<rparr>, l2_log = []\<rparr>"

lemma sample_mpfs_run: "ref_run mpfs_init mpfs_room mpfs_add mpfs_del sample_mpfs {#}"
proof (rule ref_init)
  have "replicate 4 False = [False, False, False, False]" by (simp add: numeral_eq_Suc)
  then have "mlx5_mpfs_init True 2 True True = Inr (mpfs sample_mpfs)"
    by (simp add: mlx5_mpfs_init_def sample_mpfs_def MLX5_L2_ADDR_HASH_SIZE_def)
  then show "mpfs_init sample_mpfs" unfolding mpfs_init_def by (auto simp: sample_mpfs_def)
qed

lemma sample_mpfs_room: "mpfs_room sample_mpfs"
  by (simp add: mpfs_room_def sample_mpfs_def)

theorem mpfs_run_witness:
  "\<exists>dev m. ref_run mpfs_init mpfs_room mpfs_add mpfs_del dev {#0x02#} \<and> mpfs dev = Some m \<and>
     (\<exists>nd. l2addr_hash_find (l2_hash m) 0x02 = Some nd \<and> ref_count nd = 1)"
proof -
  have "l2addr_hash_find (replicate 256 []) 0x02 = None"
    using hash_in_range [of "0x02"] by (simp add: l2addr_hash_find_def MLX5_L2_ADDR_HASH_SIZE_def)
  then have "fst (mlx5_mpfs_add_mac True (\<lambda>_ _. None) 0x02 sample_mpfs) = None"
    by (simp add: mlx5_mpfs_add_mac_def sample_mpfs_def alloc_l2table_index_def l2addr_hash_add_def
        set_l2table_entry_cmd_def l2_cmd_exec_def Let_def)
  then obtain dev where "mpfs_add (True, \<lambda>_ _. None, 0x02) sample_mpfs = Some (Inr 0x02, dev)"
    by (cases "mlx5_mpfs_add_mac True (\<lambda>_ _. None) 0x02 sample_mpfs") (auto simp: mpfs_add_def)
  from ref_add [of mpfs_init mpfs_room mpfs_add mpfs_del, OF sample_mpfs_run sample_mpfs_room this]
  have run: "ref_run mpfs_init mpfs_room mpfs_add mpfs_del dev {#0x02#}" .
  have "\<exists>m. mpfs dev = Some m \<and> (\<exists>nd. l2addr_hash_find (l2_hash m) 0x02 = Some nd \<and> ref_count nd = 1)"
    by (insert mpfs_run [OF run], elim exE conjE, drule spec [of _ "0x02"]) (simp split: option.splits)
  with run show ?thesis by blast
qed

text \<open>
  An addition that fails leaves the table as it was, the addresses with their counts and the slot
  bitmap: \<open>ENOSPC\<close> when the table has no free slot, \<open>ENOMEM\<close> when the allocator fails, otherwise the
  firmware's error; only the refused command is added to the log.
\<close>
theorem mpfs_add_mac_error:
  assumes "ref_run mpfs_init mpfs_room mpfs_add mpfs_del dev held" "mpfs dev = Some m"
    and "mlx5_mpfs_add_mac ok fw mac dev = (Some e, dev')"
  shows "mac \<notin># held \<and>
    (\<exists>m'. mpfs dev' = Some m' \<and> l2addr_hash_find (l2_hash m') = l2addr_hash_find (l2_hash m) \<and>
       l2_bitmap m' = l2_bitmap m) \<and>
    (if \<forall>b\<in>set (l2_bitmap m). b then e = ENOSPC \<and> l2_log dev' = l2_log dev
     else if \<not> ok then e = ENOMEM \<and> l2_log dev' = l2_log dev
     else \<exists>i. l2_log dev' = (SET_L2_TABLE_ENTRY i mac, Some e) # l2_log dev)"
proof -
  from mp.run_users [OF assms(1)] assms(2) have ok: "mpfs_ok m (l2_log dev)" and users: "mpfs_users dev = count held"
    by (auto simp: mpfs_invar_def)
  then have inv: "hash_ok (l2_hash m)" "length (l2_bitmap m) = l2_size m" by (auto simp: mpfs_ok_def)
  have none: "l2addr_hash_find (l2_hash m) mac = None"
    using assms(2,3) by (auto simp: mlx5_mpfs_add_mac_def split: option.splits)
  then have held: "mac \<notin># held"
    using fun_cong [OF users, of mac] assms(2) by (simp add: mpfs_users_def not_in_iff)
  show ?thesis
  proof (cases "first_ix Not (l2_bitmap m)")
    case None
    then have all: "\<forall>b\<in>set (l2_bitmap m). b" by (simp add: first_ix_None_iff)
    have "e = ENOSPC" "dev' = dev"
      using None assms(2,3) none inv(2) by (auto simp: mlx5_mpfs_add_mac_def alloc_l2table_index_def)
    with all held assms(2) show ?thesis by auto
  next
    case (Some i)
    then have i: "i < length (l2_bitmap m)" "\<not> l2_bitmap m ! i" by (auto simp: first_ix_Some_iff)
    then have free: "\<not> (\<forall>b\<in>set (l2_bitmap m). b)" using nth_mem by blast
    note restore = bitmap_restore [OF i]
    have alloc: "alloc_l2table_index m = Inr (i, m\<lparr>l2_bitmap := (l2_bitmap m)[i := True]\<rparr>)"
      using Some inv(2) by (simp add: alloc_l2table_index_def)
    show ?thesis
    proof (cases "l2addr_hash_add ok (l2_hash m) mac")
      case None
      with assms(2,3) alloc none restore free held show ?thesis
        by (auto simp: mlx5_mpfs_add_mac_def free_l2table_index_def l2addr_hash_add_def Let_def split: if_splits)
    next
      case (Some p)
      obtain nd hash where p: "l2addr_hash_add ok (l2_hash m) mac = Some (nd, hash)" using Some by (cases p) auto
      from hash_add [OF inv(1) none p] hash_del [of hash nd] none
      have "l2addr_hash_find (l2addr_hash_del hash nd) = l2addr_hash_find (l2_hash m)" by auto
      moreover have "ok" using p by (auto simp: l2addr_hash_add_def split: if_splits)
      ultimately show ?thesis
        using assms(2,3) alloc none restore free held p
        by (auto simp: mlx5_mpfs_add_mac_def free_l2table_index_def set_l2table_entry_cmd_def l2_cmd_exec_def Let_def
            split: option.splits)
    qed
  qed
qed

theorem mpfs_add_mac_error_witness:
  "\<exists>dev'. mlx5_mpfs_add_mac False (\<lambda>_ _. None) 0x02 sample_mpfs = (Some ENOMEM, dev') \<and> l2_log dev' = []"
proof -
  have "l2addr_hash_find (replicate 256 []) 0x02 = None"
    using hash_in_range [of "0x02"] by (simp add: l2addr_hash_find_def MLX5_L2_ADDR_HASH_SIZE_def)
  then obtain dev' where "mlx5_mpfs_add_mac False (\<lambda>_ _. None) 0x02 sample_mpfs = (Some ENOMEM, dev')"
    by (simp add: mlx5_mpfs_add_mac_def sample_mpfs_def alloc_l2table_index_def l2addr_hash_add_def)
  with mpfs_add_mac_error [OF sample_mpfs_run _ this] show ?thesis by (auto simp: sample_mpfs_def)
qed

text \<open>
  Removing an address never fails while a client holds it, and an address that nobody holds is
  reported with \<open>ENOENT\<close> and nothing changes.
\<close>
theorem mpfs_del_mac_result:
  assumes "ref_run mpfs_init mpfs_room mpfs_add mpfs_del dev held"
  shows "(mac \<in># held \<longrightarrow> (\<exists>dev'. mlx5_mpfs_del_mac fw mac dev = (None, dev') \<and>
      mpfs_users dev' = count (held - {#mac#}))) \<and>
    (mac \<notin># held \<longrightarrow> mlx5_mpfs_del_mac fw mac dev = (Some ENOENT, dev))"
proof -
  from mp.run_users [OF assms] have inv: "mpfs_invar dev" and users: "mpfs_users dev = count held" by auto
  from inv obtain m where m: "mpfs dev = Some m" "mpfs_ok m (l2_log dev)" by (auto simp: mpfs_invar_def)
  have "mlx5_mpfs_del_mac fw mac dev = (Some ENOENT, dev)" if "mac \<notin># held"
  proof -
    from that users have "mpfs_users dev mac = 0" by (simp add: not_in_iff)
    then have "l2addr_hash_find (l2_hash m) mac = None"
      using m nodes_okD(3) [of "l2addr_hash_find (l2_hash m)"] by (fastforce simp: mpfs_users_def mpfs_ok_def split: option.splits)
    with m(1) show ?thesis by (simp add: mlx5_mpfs_del_mac_def)
  qed
  then show ?thesis using mpfs_del_correct [OF inv, of mac fw] users by (auto simp: fun_eq_iff)
qed

theorem mpfs_del_mac_result_witness: "mlx5_mpfs_del_mac (\<lambda>_ _. None) 0x02 sample_mpfs = (Some ENOENT, sample_mpfs)"
  using mpfs_del_mac_result [OF sample_mpfs_run, of "0x02" "\<lambda>_ _. None"] by simp

text \<open>
  The check of \<open>mlx5_mpfs_cleanup\<close> that the table is empty looks at the first hash bucket only: an
  address whose last byte is not 0 is in the table without the warning.
\<close>
theorem mpfs_cleanup_misses:
  assumes "MLX5_L2_ADDR_HASH mac \<noteq> 0" "mpfs dev = Some m" "hash_ok (l2_hash m)" "l2_hash m ! 0 = []"
    and "mlx5_mpfs_add_mac ok fw mac dev = (r, dev')"
  shows "\<not> mlx5_mpfs_cleanup (mpfs dev')"
proof -
  have w: "MLX5_L2_ADDR_HASH (l2_addr nd) \<noteq> 0 \<Longrightarrow> l2addr_write h nd ! 0 = h ! 0"
    "MLX5_L2_ADDR_HASH (l2_addr nd) \<noteq> 0 \<Longrightarrow> l2addr_hash_del h nd ! 0 = h ! 0" for h nd
    by (simp_all add: l2addr_write_def l2addr_hash_del_def Let_def)
  have "\<exists>m'. mpfs dev' = Some m' \<and> l2_hash m' ! 0 = []"
  proof (cases "l2addr_hash_find (l2_hash m) mac")
    case None
    with assms(1,2,4,5) show ?thesis
      by (auto simp: mlx5_mpfs_add_mac_def w alloc_l2table_index_def l2addr_hash_add_def free_l2table_index_def
          set_l2table_entry_cmd_def l2_cmd_exec_def Let_def split: option.splits if_splits)
  next
    case (Some nd)
    with assms(1,2,4,5) hash_find_addr [OF Some] show ?thesis
      by (auto simp: mlx5_mpfs_add_mac_def l2addr_write_def Let_def)
  qed
  then show ?thesis by (auto simp: mlx5_mpfs_cleanup_def)
qed

theorem mpfs_cleanup_misses_witness:
  "\<not> mlx5_mpfs_cleanup (mpfs (snd (mlx5_mpfs_add_mac True (\<lambda>_ _. None) 0x02 sample_mpfs)))"
proof -
  have h: "MLX5_L2_ADDR_HASH 0x02 \<noteq> 0" by (simp add: MLX5_L2_ADDR_HASH_def)
  have ok: "hash_ok (replicate 256 [])" by (simp add: hash_ok_def MLX5_L2_ADDR_HASH_SIZE_def)
  obtain r dev' where "mlx5_mpfs_add_mac True (\<lambda>_ _. None) 0x02 sample_mpfs = (r, dev')" by fastforce
  with mpfs_cleanup_misses [OF h _ _ _ this] ok show ?thesis by (simp add: sample_mpfs_def)
qed

end
