(* ===== verification/Qp_State.thy ===== *)
theory Qp_State
  imports Mlx_Prelude
begin

text \<open>
  The queue-pair state machine of the IB core: \<open>qp_state_table\<close> and \<open>ib_modify_qp_is_ok\<close> of
  \<open>drivers/infiniband/core/verbs.c\<close>, with the enumerations of \<open>include/rdma/ib_verbs.h\<close>. The table says
  for every pair of states whether a modify request may go from one to the other, and for every
  queue-pair type which attributes the request must and may supply.

  The results: the transitions the table allows are those of the state diagram, a request is
  accepted exactly when it supplies what the table asks for, and over any run of accepted requests
  (and of hardware errors) a queue pair that has reached a state has been given every attribute the
  path to that state requires.
\<close>

section \<open>States, types and attributes\<close>

datatype ib_qp_state =
    IB_QPS_RESET | IB_QPS_INIT | IB_QPS_RTR | IB_QPS_RTS | IB_QPS_SQD | IB_QPS_SQE | IB_QPS_ERR

text \<open>
  The types below \<open>IB_QPT_MAX\<close>, which index the table, and those above it: \<open>IB_QPT_DRIVER\<close> and the ones
  reserved for low-level drivers.
\<close>

datatype ib_qp_type =
    IB_QPT_SMI | IB_QPT_GSI | IB_QPT_RC | IB_QPT_UC | IB_QPT_UD | IB_QPT_RAW_IPV6 | IB_QPT_RAW_ETHERTYPE
  | IB_QPT_RAW_PACKET | IB_QPT_XRC_INI | IB_QPT_XRC_TGT
  | IB_QPT_DRIVER | IB_QPT_RESERVED nat

fun below_qpt_max :: "ib_qp_type \<Rightarrow> bool" where
  "below_qpt_max IB_QPT_DRIVER = False"
| "below_qpt_max (IB_QPT_RESERVED _) = False"
| "below_qpt_max _ = True"

definition IB_QP_STATE :: u32 where "IB_QP_STATE = 0x1"
definition IB_QP_CUR_STATE :: u32 where "IB_QP_CUR_STATE = 0x2"
definition IB_QP_EN_SQD_ASYNC_NOTIFY :: u32 where "IB_QP_EN_SQD_ASYNC_NOTIFY = 0x4"
definition IB_QP_ACCESS_FLAGS :: u32 where "IB_QP_ACCESS_FLAGS = 0x8"
definition IB_QP_PKEY_INDEX :: u32 where "IB_QP_PKEY_INDEX = 0x10"
definition IB_QP_PORT :: u32 where "IB_QP_PORT = 0x20"
definition IB_QP_QKEY :: u32 where "IB_QP_QKEY = 0x40"
definition IB_QP_AV :: u32 where "IB_QP_AV = 0x80"
definition IB_QP_PATH_MTU :: u32 where "IB_QP_PATH_MTU = 0x100"
definition IB_QP_TIMEOUT :: u32 where "IB_QP_TIMEOUT = 0x200"
definition IB_QP_RETRY_CNT :: u32 where "IB_QP_RETRY_CNT = 0x400"
definition IB_QP_RNR_RETRY :: u32 where "IB_QP_RNR_RETRY = 0x800"
definition IB_QP_RQ_PSN :: u32 where "IB_QP_RQ_PSN = 0x1000"
definition IB_QP_MAX_QP_RD_ATOMIC :: u32 where "IB_QP_MAX_QP_RD_ATOMIC = 0x2000"
definition IB_QP_ALT_PATH :: u32 where "IB_QP_ALT_PATH = 0x4000"
definition IB_QP_MIN_RNR_TIMER :: u32 where "IB_QP_MIN_RNR_TIMER = 0x8000"
definition IB_QP_SQ_PSN :: u32 where "IB_QP_SQ_PSN = 0x10000"
definition IB_QP_MAX_DEST_RD_ATOMIC :: u32 where "IB_QP_MAX_DEST_RD_ATOMIC = 0x20000"
definition IB_QP_PATH_MIG_STATE :: u32 where "IB_QP_PATH_MIG_STATE = 0x40000"
definition IB_QP_CAP :: u32 where "IB_QP_CAP = 0x80000"
definition IB_QP_DEST_QPN :: u32 where "IB_QP_DEST_QPN = 0x100000"
definition IB_QP_RESERVED1 :: u32 where "IB_QP_RESERVED1 = 0x200000"
definition IB_QP_RESERVED2 :: u32 where "IB_QP_RESERVED2 = 0x400000"
definition IB_QP_RESERVED3 :: u32 where "IB_QP_RESERVED3 = 0x800000"
definition IB_QP_OFFLOAD_TYPE :: u32 where "IB_QP_OFFLOAD_TYPE = 0x1000000"
definition IB_QP_RATE_LIMIT :: u32 where "IB_QP_RATE_LIMIT = 0x2000000"
definition IB_QP_RMPN_XRQN :: u32 where "IB_QP_RMPN_XRQN = 0x4000000"

lemmas ib_qp_attr_mask_defs = IB_QP_STATE_def IB_QP_CUR_STATE_def IB_QP_EN_SQD_ASYNC_NOTIFY_def IB_QP_ACCESS_FLAGS_def
  IB_QP_PKEY_INDEX_def IB_QP_PORT_def IB_QP_QKEY_def IB_QP_AV_def
  IB_QP_PATH_MTU_def IB_QP_TIMEOUT_def IB_QP_RETRY_CNT_def IB_QP_RNR_RETRY_def
  IB_QP_RQ_PSN_def IB_QP_MAX_QP_RD_ATOMIC_def IB_QP_ALT_PATH_def IB_QP_MIN_RNR_TIMER_def
  IB_QP_SQ_PSN_def IB_QP_MAX_DEST_RD_ATOMIC_def IB_QP_PATH_MIG_STATE_def IB_QP_CAP_def
  IB_QP_DEST_QPN_def IB_QP_RESERVED1_def IB_QP_RESERVED2_def IB_QP_RESERVED3_def
  IB_QP_OFFLOAD_TYPE_def IB_QP_RATE_LIMIT_def IB_QP_RMPN_XRQN_def

section \<open>The table\<close>

record qp_transition =
  valid :: bool
  req_param :: "ib_qp_type \<Rightarrow> u32"
  opt_param :: "ib_qp_type \<Rightarrow> u32"

definition no_attrs :: "ib_qp_type \<Rightarrow> u32" where
  "no_attrs t = 0"

definition no_transition :: qp_transition where
  "no_transition = \<lparr>valid = False, req_param = no_attrs, opt_param = no_attrs\<rparr>"

definition qp_from_reset :: "ib_qp_state \<Rightarrow> qp_transition" where
  "qp_from_reset next_state = (case next_state of
      IB_QPS_RESET \<Rightarrow> \<lparr>valid = True, req_param = no_attrs, opt_param = no_attrs\<rparr>
    | IB_QPS_INIT \<Rightarrow> \<lparr>valid = True, req_param =
        (\<lambda>t. case t of IB_QPT_UD \<Rightarrow> IB_QP_PKEY_INDEX OR IB_QP_PORT OR IB_QP_QKEY
          | IB_QPT_RAW_PACKET \<Rightarrow> IB_QP_PORT
          | IB_QPT_UC \<Rightarrow> IB_QP_PKEY_INDEX OR IB_QP_PORT OR IB_QP_ACCESS_FLAGS
          | IB_QPT_RC \<Rightarrow> IB_QP_PKEY_INDEX OR IB_QP_PORT OR IB_QP_ACCESS_FLAGS
          | IB_QPT_XRC_INI \<Rightarrow> IB_QP_PKEY_INDEX OR IB_QP_PORT OR IB_QP_ACCESS_FLAGS
          | IB_QPT_XRC_TGT \<Rightarrow> IB_QP_PKEY_INDEX OR IB_QP_PORT OR IB_QP_ACCESS_FLAGS
          | IB_QPT_SMI \<Rightarrow> IB_QP_PKEY_INDEX OR IB_QP_QKEY
          | IB_QPT_GSI \<Rightarrow> IB_QP_PKEY_INDEX OR IB_QP_QKEY
          | _ \<Rightarrow> 0), opt_param = no_attrs\<rparr>
    | _ \<Rightarrow> no_transition)"

definition qp_from_init :: "ib_qp_state \<Rightarrow> qp_transition" where
  "qp_from_init next_state = (case next_state of
      IB_QPS_RESET \<Rightarrow> \<lparr>valid = True, req_param = no_attrs, opt_param = no_attrs\<rparr>
    | IB_QPS_ERR \<Rightarrow> \<lparr>valid = True, req_param = no_attrs, opt_param = no_attrs\<rparr>
    | IB_QPS_INIT \<Rightarrow> \<lparr>valid = True, req_param = no_attrs, opt_param =
        (\<lambda>t. case t of IB_QPT_UD \<Rightarrow> IB_QP_PKEY_INDEX OR IB_QP_PORT OR IB_QP_QKEY
          | IB_QPT_UC \<Rightarrow> IB_QP_PKEY_INDEX OR IB_QP_PORT OR IB_QP_ACCESS_FLAGS
          | IB_QPT_RC \<Rightarrow> IB_QP_PKEY_INDEX OR IB_QP_PORT OR IB_QP_ACCESS_FLAGS
          | IB_QPT_XRC_INI \<Rightarrow> IB_QP_PKEY_INDEX OR IB_QP_PORT OR IB_QP_ACCESS_FLAGS
          | IB_QPT_XRC_TGT \<Rightarrow> IB_QP_PKEY_INDEX OR IB_QP_PORT OR IB_QP_ACCESS_FLAGS
          | IB_QPT_SMI \<Rightarrow> IB_QP_PKEY_INDEX OR IB_QP_QKEY
          | IB_QPT_GSI \<Rightarrow> IB_QP_PKEY_INDEX OR IB_QP_QKEY
          | _ \<Rightarrow> 0)\<rparr>
    | IB_QPS_RTR \<Rightarrow> \<lparr>valid = True, req_param =
        (\<lambda>t. case t of IB_QPT_UC \<Rightarrow> IB_QP_AV OR IB_QP_PATH_MTU OR IB_QP_DEST_QPN OR IB_QP_RQ_PSN
          | IB_QPT_RC \<Rightarrow> IB_QP_AV OR IB_QP_PATH_MTU OR IB_QP_DEST_QPN OR IB_QP_RQ_PSN OR IB_QP_MAX_DEST_RD_ATOMIC OR IB_QP_MIN_RNR_TIMER
          | IB_QPT_XRC_INI \<Rightarrow> IB_QP_AV OR IB_QP_PATH_MTU OR IB_QP_DEST_QPN OR IB_QP_RQ_PSN
          | IB_QPT_XRC_TGT \<Rightarrow> IB_QP_AV OR IB_QP_PATH_MTU OR IB_QP_DEST_QPN OR IB_QP_RQ_PSN OR IB_QP_MAX_DEST_RD_ATOMIC OR IB_QP_MIN_RNR_TIMER
          | _ \<Rightarrow> 0), opt_param =
        (\<lambda>t. case t of IB_QPT_UD \<Rightarrow> IB_QP_PKEY_INDEX OR IB_QP_QKEY
          | IB_QPT_UC \<Rightarrow> IB_QP_ALT_PATH OR IB_QP_ACCESS_FLAGS OR IB_QP_PKEY_INDEX
          | IB_QPT_RC \<Rightarrow> IB_QP_ALT_PATH OR IB_QP_ACCESS_FLAGS OR IB_QP_PKEY_INDEX
          | IB_QPT_XRC_INI \<Rightarrow> IB_QP_ALT_PATH OR IB_QP_ACCESS_FLAGS OR IB_QP_PKEY_INDEX
          | IB_QPT_XRC_TGT \<Rightarrow> IB_QP_ALT_PATH OR IB_QP_ACCESS_FLAGS OR IB_QP_PKEY_INDEX
          | IB_QPT_SMI \<Rightarrow> IB_QP_PKEY_INDEX OR IB_QP_QKEY
          | IB_QPT_GSI \<Rightarrow> IB_QP_PKEY_INDEX OR IB_QP_QKEY
          | _ \<Rightarrow> 0)\<rparr>
    | _ \<Rightarrow> no_transition)"

definition qp_from_rtr :: "ib_qp_state \<Rightarrow> qp_transition" where
  "qp_from_rtr next_state = (case next_state of
      IB_QPS_RESET \<Rightarrow> \<lparr>valid = True, req_param = no_attrs, opt_param = no_attrs\<rparr>
    | IB_QPS_ERR \<Rightarrow> \<lparr>valid = True, req_param = no_attrs, opt_param = no_attrs\<rparr>
    | IB_QPS_RTS \<Rightarrow> \<lparr>valid = True, req_param =
        (\<lambda>t. case t of IB_QPT_UD \<Rightarrow> IB_QP_SQ_PSN
          | IB_QPT_UC \<Rightarrow> IB_QP_SQ_PSN
          | IB_QPT_RC \<Rightarrow> IB_QP_TIMEOUT OR IB_QP_RETRY_CNT OR IB_QP_RNR_RETRY OR IB_QP_SQ_PSN OR IB_QP_MAX_QP_RD_ATOMIC
          | IB_QPT_XRC_INI \<Rightarrow> IB_QP_TIMEOUT OR IB_QP_RETRY_CNT OR IB_QP_RNR_RETRY OR IB_QP_SQ_PSN OR IB_QP_MAX_QP_RD_ATOMIC
          | IB_QPT_XRC_TGT \<Rightarrow> IB_QP_TIMEOUT OR IB_QP_SQ_PSN
          | IB_QPT_SMI \<Rightarrow> IB_QP_SQ_PSN
          | IB_QPT_GSI \<Rightarrow> IB_QP_SQ_PSN
          | _ \<Rightarrow> 0), opt_param =
        (\<lambda>t. case t of IB_QPT_UD \<Rightarrow> IB_QP_CUR_STATE OR IB_QP_QKEY
          | IB_QPT_UC \<Rightarrow> IB_QP_CUR_STATE OR IB_QP_ALT_PATH OR IB_QP_ACCESS_FLAGS OR IB_QP_PATH_MIG_STATE
          | IB_QPT_RC \<Rightarrow> IB_QP_CUR_STATE OR IB_QP_ALT_PATH OR IB_QP_ACCESS_FLAGS OR IB_QP_MIN_RNR_TIMER OR IB_QP_PATH_MIG_STATE OR IB_QP_OFFLOAD_TYPE
          | IB_QPT_XRC_INI \<Rightarrow> IB_QP_CUR_STATE OR IB_QP_ALT_PATH OR IB_QP_ACCESS_FLAGS OR IB_QP_PATH_MIG_STATE
          | IB_QPT_XRC_TGT \<Rightarrow> IB_QP_CUR_STATE OR IB_QP_ALT_PATH OR IB_QP_ACCESS_FLAGS OR IB_QP_MIN_RNR_TIMER OR IB_QP_PATH_MIG_STATE
          | IB_QPT_SMI \<Rightarrow> IB_QP_CUR_STATE OR IB_QP_QKEY
          | IB_QPT_GSI \<Rightarrow> IB_QP_CUR_STATE OR IB_QP_QKEY
          | IB_QPT_RAW_PACKET \<Rightarrow> IB_QP_RATE_LIMIT
          | _ \<Rightarrow> 0)\<rparr>
    | _ \<Rightarrow> no_transition)"

definition qp_from_rts :: "ib_qp_state \<Rightarrow> qp_transition" where
  "qp_from_rts next_state = (case next_state of
      IB_QPS_RESET \<Rightarrow> \<lparr>valid = True, req_param = no_attrs, opt_param = no_attrs\<rparr>
    | IB_QPS_ERR \<Rightarrow> \<lparr>valid = True, req_param = no_attrs, opt_param = no_attrs\<rparr>
    | IB_QPS_RTS \<Rightarrow> \<lparr>valid = True, req_param = no_attrs, opt_param =
        (\<lambda>t. case t of IB_QPT_UD \<Rightarrow> IB_QP_CUR_STATE OR IB_QP_QKEY
          | IB_QPT_UC \<Rightarrow> IB_QP_CUR_STATE OR IB_QP_ACCESS_FLAGS OR IB_QP_ALT_PATH OR IB_QP_PATH_MIG_STATE
          | IB_QPT_RC \<Rightarrow> IB_QP_CUR_STATE OR IB_QP_ACCESS_FLAGS OR IB_QP_ALT_PATH OR IB_QP_PATH_MIG_STATE OR IB_QP_MIN_RNR_TIMER OR IB_QP_OFFLOAD_TYPE OR IB_QP_RMPN_XRQN
          | IB_QPT_XRC_INI \<Rightarrow> IB_QP_CUR_STATE OR IB_QP_ACCESS_FLAGS OR IB_QP_ALT_PATH OR IB_QP_PATH_MIG_STATE
          | IB_QPT_XRC_TGT \<Rightarrow> IB_QP_CUR_STATE OR IB_QP_ACCESS_FLAGS OR IB_QP_ALT_PATH OR IB_QP_PATH_MIG_STATE OR IB_QP_MIN_RNR_TIMER
          | IB_QPT_SMI \<Rightarrow> IB_QP_CUR_STATE OR IB_QP_QKEY
          | IB_QPT_GSI \<Rightarrow> IB_QP_CUR_STATE OR IB_QP_QKEY
          | IB_QPT_RAW_PACKET \<Rightarrow> IB_QP_RATE_LIMIT
          | _ \<Rightarrow> 0)\<rparr>
    | IB_QPS_SQD \<Rightarrow> \<lparr>valid = True, req_param = no_attrs, opt_param =
        (\<lambda>t. case t of IB_QPT_UD \<Rightarrow> IB_QP_EN_SQD_ASYNC_NOTIFY
          | IB_QPT_UC \<Rightarrow> IB_QP_EN_SQD_ASYNC_NOTIFY
          | IB_QPT_RC \<Rightarrow> IB_QP_EN_SQD_ASYNC_NOTIFY
          | IB_QPT_XRC_INI \<Rightarrow> IB_QP_EN_SQD_ASYNC_NOTIFY
          | IB_QPT_XRC_TGT \<Rightarrow> IB_QP_EN_SQD_ASYNC_NOTIFY
          | IB_QPT_SMI \<Rightarrow> IB_QP_EN_SQD_ASYNC_NOTIFY
          | IB_QPT_GSI \<Rightarrow> IB_QP_EN_SQD_ASYNC_NOTIFY
          | _ \<Rightarrow> 0)\<rparr>
    | _ \<Rightarrow> no_transition)"

definition qp_from_sqd :: "ib_qp_state \<Rightarrow> qp_transition" where
  "qp_from_sqd next_state = (case next_state of
      IB_QPS_RESET \<Rightarrow> \<lparr>valid = True, req_param = no_attrs, opt_param = no_attrs\<rparr>
    | IB_QPS_ERR \<Rightarrow> \<lparr>valid = True, req_param = no_attrs, opt_param = no_attrs\<rparr>
    | IB_QPS_RTS \<Rightarrow> \<lparr>valid = True, req_param = no_attrs, opt_param =
        (\<lambda>t. case t of IB_QPT_UD \<Rightarrow> IB_QP_CUR_STATE OR IB_QP_QKEY
          | IB_QPT_UC \<Rightarrow> IB_QP_CUR_STATE OR IB_QP_ALT_PATH OR IB_QP_ACCESS_FLAGS OR IB_QP_PATH_MIG_STATE
          | IB_QPT_RC \<Rightarrow> IB_QP_CUR_STATE OR IB_QP_ALT_PATH OR IB_QP_ACCESS_FLAGS OR IB_QP_MIN_RNR_TIMER OR IB_QP_PATH_MIG_STATE
          | IB_QPT_XRC_INI \<Rightarrow> IB_QP_CUR_STATE OR IB_QP_ALT_PATH OR IB_QP_ACCESS_FLAGS OR IB_QP_PATH_MIG_STATE
          | IB_QPT_XRC_TGT \<Rightarrow> IB_QP_CUR_STATE OR IB_QP_ALT_PATH OR IB_QP_ACCESS_FLAGS OR IB_QP_MIN_RNR_TIMER OR IB_QP_PATH_MIG_STATE
          | IB_QPT_SMI \<Rightarrow> IB_QP_CUR_STATE OR IB_QP_QKEY
          | IB_QPT_GSI \<Rightarrow> IB_QP_CUR_STATE OR IB_QP_QKEY
          | _ \<Rightarrow> 0)\<rparr>
    | IB_QPS_SQD \<Rightarrow> \<lparr>valid = True, req_param = no_attrs, opt_param =
        (\<lambda>t. case t of IB_QPT_UD \<Rightarrow> IB_QP_PKEY_INDEX OR IB_QP_QKEY
          | IB_QPT_UC \<Rightarrow> IB_QP_AV OR IB_QP_ALT_PATH OR IB_QP_ACCESS_FLAGS OR IB_QP_PKEY_INDEX OR IB_QP_PATH_MIG_STATE
          | IB_QPT_RC \<Rightarrow> IB_QP_PORT OR IB_QP_AV OR IB_QP_TIMEOUT OR IB_QP_RETRY_CNT OR IB_QP_RNR_RETRY OR IB_QP_MAX_QP_RD_ATOMIC OR IB_QP_MAX_DEST_RD_ATOMIC OR IB_QP_ALT_PATH OR IB_QP_ACCESS_FLAGS OR IB_QP_PKEY_INDEX OR IB_QP_MIN_RNR_TIMER OR IB_QP_PATH_MIG_STATE
          | IB_QPT_XRC_INI \<Rightarrow> IB_QP_PORT OR IB_QP_AV OR IB_QP_TIMEOUT OR IB_QP_RETRY_CNT OR IB_QP_RNR_RETRY OR IB_QP_MAX_QP_RD_ATOMIC OR IB_QP_ALT_PATH OR IB_QP_ACCESS_FLAGS OR IB_QP_PKEY_INDEX OR IB_QP_PATH_MIG_STATE
          | IB_QPT_XRC_TGT \<Rightarrow> IB_QP_PORT OR IB_QP_AV OR IB_QP_TIMEOUT OR IB_QP_MAX_DEST_RD_ATOMIC OR IB_QP_ALT_PATH OR IB_QP_ACCESS_FLAGS OR IB_QP_PKEY_INDEX OR IB_QP_MIN_RNR_TIMER OR IB_QP_PATH_MIG_STATE
          | IB_QPT_SMI \<Rightarrow> IB_QP_PKEY_INDEX OR IB_QP_QKEY
          | IB_QPT_GSI \<Rightarrow> IB_QP_PKEY_INDEX OR IB_QP_QKEY
          | _ \<Rightarrow> 0)\<rparr>
    | _ \<Rightarrow> no_transition)"

definition qp_from_sqe :: "ib_qp_state \<Rightarrow> qp_transition" where
  "qp_from_sqe next_state = (case next_state of
      IB_QPS_RESET \<Rightarrow> \<lparr>valid = True, req_param = no_attrs, opt_param = no_attrs\<rparr>
    | IB_QPS_ERR \<Rightarrow> \<lparr>valid = True, req_param = no_attrs, opt_param = no_attrs\<rparr>
    | IB_QPS_RTS \<Rightarrow> \<lparr>valid = True, req_param = no_attrs, opt_param =
        (\<lambda>t. case t of IB_QPT_UD \<Rightarrow> IB_QP_CUR_STATE OR IB_QP_QKEY
          | IB_QPT_UC \<Rightarrow> IB_QP_CUR_STATE OR IB_QP_ACCESS_FLAGS
          | IB_QPT_SMI \<Rightarrow> IB_QP_CUR_STATE OR IB_QP_QKEY
          | IB_QPT_GSI \<Rightarrow> IB_QP_CUR_STATE OR IB_QP_QKEY
          | _ \<Rightarrow> 0)\<rparr>
    | _ \<Rightarrow> no_transition)"

definition qp_from_err :: "ib_qp_state \<Rightarrow> qp_transition" where
  "qp_from_err next_state = (case next_state of
      IB_QPS_RESET \<Rightarrow> \<lparr>valid = True, req_param = no_attrs, opt_param = no_attrs\<rparr>
    | IB_QPS_ERR \<Rightarrow> \<lparr>valid = True, req_param = no_attrs, opt_param = no_attrs\<rparr>
    | _ \<Rightarrow> no_transition)"

definition qp_state_table :: "ib_qp_state \<Rightarrow> ib_qp_state \<Rightarrow> qp_transition" where
  "qp_state_table cur_state = (case cur_state of
      IB_QPS_RESET \<Rightarrow> qp_from_reset
    | IB_QPS_INIT \<Rightarrow> qp_from_init
    | IB_QPS_RTR \<Rightarrow> qp_from_rtr
    | IB_QPS_RTS \<Rightarrow> qp_from_rts
    | IB_QPS_SQD \<Rightarrow> qp_from_sqd
    | IB_QPS_SQE \<Rightarrow> qp_from_sqe
    | IB_QPS_ERR \<Rightarrow> qp_from_err)"

lemmas qp_table_defs = qp_state_table_def qp_from_reset_def qp_from_init_def qp_from_rtr_def qp_from_rts_def
  qp_from_sqd_def qp_from_sqe_def qp_from_err_def no_attrs_def no_transition_def

text \<open>\<open>None\<close>: the type is not below \<open>IB_QPT_MAX\<close> and the access leaves the row of the table.\<close>

definition ib_modify_qp_is_ok :: "ib_qp_state \<Rightarrow> ib_qp_state \<Rightarrow> ib_qp_type \<Rightarrow> u32 \<Rightarrow> bool option" where
  "ib_modify_qp_is_ok cur_state next_state type attr_mask =
     (if attr_mask AND IB_QP_CUR_STATE \<noteq> 0 \<and> cur_state \<noteq> IB_QPS_RTR \<and> cur_state \<noteq> IB_QPS_RTS \<and>
         cur_state \<noteq> IB_QPS_SQD \<and> cur_state \<noteq> IB_QPS_SQE then Some False
      else if \<not> valid (qp_state_table cur_state next_state) then Some False
      else if \<not> below_qpt_max type then None
      else let req = req_param (qp_state_table cur_state next_state) type;
               opt = opt_param (qp_state_table cur_state next_state) type
           in if attr_mask AND req \<noteq> req then Some False
              else if attr_mask AND NOT (req OR opt OR IB_QP_STATE) \<noteq> 0 then Some False
              else Some True)"

section \<open>The state diagram\<close>

text \<open>The transitions of the state diagram: the specification the table is checked against.\<close>

fun qp_edge :: "ib_qp_state \<Rightarrow> ib_qp_state \<Rightarrow> bool" where
  "qp_edge _ IB_QPS_RESET = True"
| "qp_edge cur IB_QPS_ERR = (cur \<noteq> IB_QPS_RESET)"
| "qp_edge cur IB_QPS_INIT = (cur \<in> {IB_QPS_RESET, IB_QPS_INIT})"
| "qp_edge cur IB_QPS_RTR = (cur = IB_QPS_INIT)"
| "qp_edge cur IB_QPS_RTS = (cur \<in> {IB_QPS_RTR, IB_QPS_RTS, IB_QPS_SQD, IB_QPS_SQE})"
| "qp_edge cur IB_QPS_SQD = (cur \<in> {IB_QPS_RTS, IB_QPS_SQD})"
| "qp_edge _ IB_QPS_SQE = False"

lemma table_valid: "valid (qp_state_table cur next) = qp_edge cur next"
  by (cases cur; cases "next") (simp_all add: qp_table_defs)

text \<open>A mask supplies a set of attributes.\<close>

definition supplies :: "u32 \<Rightarrow> u32 \<Rightarrow> bool" where
  "supplies given attrs \<longleftrightarrow> given AND attrs = attrs"

lemma supplies_bits: "supplies m p \<longleftrightarrow> (\<forall>n. bit p n \<longrightarrow> bit m n)"
proof
  assume "supplies m p"
  then have "bit (m AND p) n = bit p n" for n by (simp add: supplies_def)
  then show "\<forall>n. bit p n \<longrightarrow> bit m n" by (metis bit_and_iff)
next
  assume "\<forall>n. bit p n \<longrightarrow> bit m n"
  then show "supplies m p" by (auto simp: supplies_def intro!: bit_word_eqI simp: bit_and_iff)
qed

lemma supplies_or [simp]: "supplies m (p OR q) \<longleftrightarrow> supplies m p \<and> supplies m q"
  by (auto simp: supplies_bits bit_simps)

lemma supplies_mono: "supplies m p \<Longrightarrow> supplies (m OR m') p" "supplies m p \<Longrightarrow> supplies (m' OR m) p"
  by (auto simp: supplies_bits bit_simps)

lemma supplies_0 [simp]: "supplies m 0"
  by (simp add: supplies_def)

lemma supplies_refl [simp]: "supplies m m"
  by (simp add: supplies_def)

lemma within_iff: "m AND NOT p = 0 \<longleftrightarrow> supplies p m" for m p :: u32
proof
  assume "m AND NOT p = 0"
  then have no: "\<not> bit (m AND NOT p) n" for n by simp
  have "bit p n" if "bit m n" for n
    using no [of n] bit_imp_le_length [OF that] that by (simp add: bit_and_iff bit_not_iff)
  then show "supplies p m" by (simp add: supplies_bits)
qed (auto simp: supplies_bits bit_and_iff bit_not_iff intro!: bit_word_eqI)

text \<open>No transition allows \<open>IB_QP_CUR_STATE\<close> that does not start in one of the four states with a send queue.\<close>

lemma table_cur_state:
  assumes "qp_edge cur next" "cur \<notin> {IB_QPS_RTR, IB_QPS_RTS, IB_QPS_SQD, IB_QPS_SQE}"
  shows "(req_param (qp_state_table cur next) t OR opt_param (qp_state_table cur next) t OR IB_QP_STATE) AND IB_QP_CUR_STATE = 0"
  using assms
  by (cases cur; cases "next"; cases t) (simp_all add: qp_table_defs ib_qp_attr_mask_defs)

text \<open>What a request from one state to another must and may supply.\<close>

abbreviation (input) required :: "ib_qp_state \<Rightarrow> ib_qp_state \<Rightarrow> ib_qp_type \<Rightarrow> u32" where
  "required cur next t \<equiv> req_param (qp_state_table cur next) t"

abbreviation (input) allowed :: "ib_qp_state \<Rightarrow> ib_qp_state \<Rightarrow> ib_qp_type \<Rightarrow> u32" where
  "allowed cur next t \<equiv> req_param (qp_state_table cur next) t OR opt_param (qp_state_table cur next) t OR IB_QP_STATE"

lemma modify_ok_iff:
  assumes "below_qpt_max t"
  shows "ib_modify_qp_is_ok cur next t m = Some (qp_edge cur next \<and> supplies m (required cur next t) \<and>
    supplies (allowed cur next t) m)"
proof -
  have "m AND IB_QP_CUR_STATE = 0" if "supplies p m" "p AND IB_QP_CUR_STATE = 0" for p
  proof (rule bit_word_eqI)
    fix n
    have "\<not> bit (p AND IB_QP_CUR_STATE) n" using that(2) by simp
    with that(1) show "bit (m AND IB_QP_CUR_STATE) n = bit 0 n" by (auto simp: supplies_bits bit_and_iff)
  qed
  then have cur: "m AND IB_QP_CUR_STATE = 0"
    if "qp_edge cur next" "supplies (allowed cur next t) m" "cur \<notin> {IB_QPS_RTR, IB_QPS_RTS, IB_QPS_SQD, IB_QPS_SQE}"
    using table_cur_state [OF that(1,3)] that(2) by blast
  show ?thesis
  proof (cases "cur \<in> {IB_QPS_RTR, IB_QPS_RTS, IB_QPS_SQD, IB_QPS_SQE}")
    case True
    with assms show ?thesis
      unfolding ib_modify_qp_is_ok_def table_valid Let_def within_iff supplies_def [of m "required cur next t"]
      by auto
  next
    case False
    with assms cur show ?thesis
      unfolding ib_modify_qp_is_ok_def table_valid Let_def within_iff supplies_def [of m "required cur next t"]
      by auto
  qed
qed

section \<open>Runs\<close>

text \<open>
  A queue pair of a given type: its state and the attributes supplied since it was last reset. It moves
  by accepted modify requests, and by the hardware: a send error takes a queue pair that is ready
  to send to \<open>SQE\<close>, any other error takes it to \<open>ERR\<close>.
\<close>

inductive qp_step :: "ib_qp_type \<Rightarrow> ib_qp_state \<times> u32 \<Rightarrow> ib_qp_state \<times> u32 \<Rightarrow> bool" for t where
  qp_modify: "ib_modify_qp_is_ok s s' t m = Some True \<Longrightarrow>
    qp_step t (s, given) (s', if s' = IB_QPS_RESET then 0 else given OR m)"
| qp_send_error: "qp_step t (IB_QPS_RTS, given) (IB_QPS_SQE, given)"
| qp_error: "s \<noteq> IB_QPS_RESET \<Longrightarrow> qp_step t (s, given) (IB_QPS_ERR, given)"

inductive_cases qp_stepE: "qp_step t q q'"

text \<open>What the path to a state requires.\<close>

definition path_requires :: "ib_qp_type \<Rightarrow> ib_qp_state \<Rightarrow> u32" where
  "path_requires t s =
     (let to_init = req_param (qp_state_table IB_QPS_RESET IB_QPS_INIT) t;
          to_rtr = to_init OR req_param (qp_state_table IB_QPS_INIT IB_QPS_RTR) t;
          to_rts = to_rtr OR req_param (qp_state_table IB_QPS_RTR IB_QPS_RTS) t
      in case s of
        IB_QPS_RESET \<Rightarrow> 0 | IB_QPS_INIT \<Rightarrow> to_init | IB_QPS_RTR \<Rightarrow> to_rtr | IB_QPS_RTS \<Rightarrow> to_rts
      | IB_QPS_SQD \<Rightarrow> to_rts | IB_QPS_SQE \<Rightarrow> to_rts | IB_QPS_ERR \<Rightarrow> to_init)"

definition qp_given :: "ib_qp_type \<Rightarrow> ib_qp_state \<times> u32 \<Rightarrow> bool" where
  "qp_given t = (\<lambda>(s, given). supplies given (path_requires t s))"

lemma path_requires_init:
  "s \<noteq> IB_QPS_RESET \<Longrightarrow> supplies given (path_requires t s) \<Longrightarrow> supplies given (path_requires t IB_QPS_INIT)"
  by (cases s) (auto simp: path_requires_def Let_def)

lemma qp_edge_given:
  assumes "qp_edge s s'" "supplies given (path_requires t s)" "supplies m (required s s' t)" "s' \<noteq> IB_QPS_RESET"
  shows "supplies (given OR m) (path_requires t s')"
  using assms by (cases s; cases s') (auto simp: supplies_mono path_requires_def Let_def)

lemma qp_step_given:
  assumes "qp_given t q" "qp_step t q q'" "below_qpt_max t"
  shows "qp_given t q'"
  using assms(2,1)
proof (cases rule: qp_step.cases)
  case (qp_modify s s' m given)
  with assms(1,3) qp_edge_given [of s s' given t m] show ?thesis
    by (auto simp: modify_ok_iff qp_given_def path_requires_def [of t IB_QPS_RESET])
next
  case (qp_error s given)
  with assms(1) path_requires_init [of s given t] show ?thesis by (simp add: qp_given_def path_requires_def)
qed (auto simp: qp_given_def path_requires_def Let_def)

interpretation qp: invariant_system "\<lambda>q. q = (IB_QPS_RESET, given)"
  "\<lambda>q q'. below_qpt_max t \<and> qp_step t q q'" "qp_given t" for t given
  by unfold_locales (auto simp: qp_step_given, simp add: qp_given_def path_requires_def)

section \<open>Properties\<close>

text \<open>
  C24. A modify request is accepted exactly when the state diagram has the transition, the request
  supplies every attribute the transition requires for the type of the queue pair, and it supplies
  no attribute beyond those required, the optional ones, and the state itself. The separate check
  of \<open>IB_QP_CUR_STATE\<close> at the top of the function rejects nothing the table would accept.
\<close>
theorem ib_modify_qp_is_ok_iff:
  assumes "below_qpt_max t"
  shows "ib_modify_qp_is_ok cur next t m = Some True \<longleftrightarrow>
    qp_edge cur next \<and> m AND req_param (qp_state_table cur next) t = req_param (qp_state_table cur next) t \<and>
    (\<forall>n. bit m n \<longrightarrow> bit (req_param (qp_state_table cur next) t) n \<or> bit (opt_param (qp_state_table cur next) t) n \<or> n = 0)"
proof -
  have "supplies (allowed cur next t) m \<longleftrightarrow> (\<forall>n. bit m n \<longrightarrow> bit (req_param (qp_state_table cur next) t) n \<or>
      bit (opt_param (qp_state_table cur next) t) n \<or> n = 0)"
    by (auto simp: supplies_bits IB_QP_STATE_def bit_simps)
  with modify_ok_iff [OF assms] show ?thesis by (simp add: supplies_def)
qed

theorem ib_modify_qp_is_ok_iff_witness:
  "ib_modify_qp_is_ok IB_QPS_RESET IB_QPS_INIT IB_QPT_RC 0 \<noteq> Some True"
  using ib_modify_qp_is_ok_iff [of IB_QPT_RC IB_QPS_RESET IB_QPS_INIT 0]
  by (simp add: qp_table_defs ib_qp_attr_mask_defs)

text \<open>
  Over every run of accepted modify requests and hardware errors, a queue pair has been supplied,
  since it was last reset, every attribute required on the path to the state it is in: a reliable
  connection that is ready to send knows its path, its peer, both packet sequence numbers and its
  timeouts.
\<close>
theorem qp_run_given:
  assumes "reach (\<lambda>q. q = (IB_QPS_RESET, 0)) (\<lambda>q q'. below_qpt_max t \<and> qp_step t q q') (s, given)"
  shows "given AND path_requires t s = path_requires t s"
  using qp.reach_invar [OF assms] by (simp add: qp_given_def supplies_def)

theorem qp_run_given_witness:
  "(IB_QP_PKEY_INDEX OR IB_QP_PORT OR IB_QP_ACCESS_FLAGS) AND path_requires IB_QPT_RC IB_QPS_INIT =
   path_requires IB_QPT_RC IB_QPS_INIT"
proof -
  let ?m = "IB_QP_PKEY_INDEX OR IB_QP_PORT OR IB_QP_ACCESS_FLAGS"
  have "ib_modify_qp_is_ok IB_QPS_RESET IB_QPS_INIT IB_QPT_RC ?m = Some True"
    by (simp add: ib_modify_qp_is_ok_def qp_table_defs ib_qp_attr_mask_defs)
  then have "qp_step IB_QPT_RC (IB_QPS_RESET, 0) (IB_QPS_INIT, ?m)"
    using qp_modify [of IB_QPS_RESET IB_QPS_INIT IB_QPT_RC ?m 0] by simp
  then have "reach (\<lambda>q. q = (IB_QPS_RESET, 0)) (\<lambda>q q'. below_qpt_max IB_QPT_RC \<and> qp_step IB_QPT_RC q q') (IB_QPS_INIT, ?m)"
    by (auto intro: reach_step reach_init)
  from qp_run_given [OF this] show ?thesis .
qed

text \<open>
  From every state of the diagram a queue pair of every type can be brought to \<open>RTS\<close>: the request that
  supplies just the required attributes is accepted on each transition of the diagram, and
  \<open>RESET \<rightarrow> INIT \<rightarrow> RTR \<rightarrow> RTS\<close> are such transitions, as is the one from every state to \<open>RESET\<close>.
  No request ever leads to \<open>SQE\<close>.
\<close>
theorem qp_bring_up:
  assumes "below_qpt_max t"
  shows "(\<forall>cur next. ib_modify_qp_is_ok cur next t (req_param (qp_state_table cur next) t OR IB_QP_STATE) =
      Some (qp_edge cur next)) \<and>
    qp_edge s IB_QPS_RESET \<and> qp_edge IB_QPS_RESET IB_QPS_INIT \<and> qp_edge IB_QPS_INIT IB_QPS_RTR \<and>
    qp_edge IB_QPS_RTR IB_QPS_RTS \<and> (\<forall>cur m. ib_modify_qp_is_ok cur IB_QPS_SQE t m = Some False)"
  using assms by (auto simp: modify_ok_iff supplies_mono)

theorem qp_bring_up_witness:
  "ib_modify_qp_is_ok IB_QPS_RTR IB_QPS_RTS IB_QPT_UD (IB_QP_SQ_PSN OR IB_QP_STATE) = Some True"
proof -
  have "below_qpt_max IB_QPT_UD" by simp
  then have "ib_modify_qp_is_ok IB_QPS_RTR IB_QPS_RTS IB_QPT_UD
      (req_param (qp_state_table IB_QPS_RTR IB_QPS_RTS) IB_QPT_UD OR IB_QP_STATE) = Some (qp_edge IB_QPS_RTR IB_QPS_RTS)"
    using qp_bring_up [of IB_QPT_UD IB_QPS_RTR] by blast
  then show ?thesis by (simp add: qp_table_defs)
qed

end
