(* ===== verification/Verbs_Tables.thy ===== *)
theory Verbs_Tables
  imports Mlx_Prelude
begin

text \<open>
  The constant tables and conversions of \<open>drivers/infiniband/core/verbs.c\<close>: names of asynchronous events
  and completion statuses, the static rates and their multiples of 2.5 Gb/s, the transport and link
  layer of a node type, and the width and speed reported for an Ethernet port.

  The results: no event or status shares its message with another one, and which ones have none; the
  two rate conversions are inverse to each other and agree on the order of the rates; and the width
  and speed chosen for a port carry the speed of its network device.
\<close>

section \<open>Event and status names\<close>

datatype ib_event_type =
    IB_EVENT_CQ_ERR | IB_EVENT_QP_FATAL | IB_EVENT_QP_REQ_ERR | IB_EVENT_QP_ACCESS_ERR
  | IB_EVENT_COMM_EST | IB_EVENT_SQ_DRAINED | IB_EVENT_PATH_MIG | IB_EVENT_PATH_MIG_ERR
  | IB_EVENT_DEVICE_FATAL | IB_EVENT_PORT_ACTIVE | IB_EVENT_PORT_ERR | IB_EVENT_LID_CHANGE
  | IB_EVENT_PKEY_CHANGE | IB_EVENT_SM_CHANGE | IB_EVENT_SRQ_ERR | IB_EVENT_SRQ_LIMIT_REACHED
  | IB_EVENT_QP_LAST_WQE_REACHED | IB_EVENT_CLIENT_REREGISTER | IB_EVENT_GID_CHANGE | IB_EVENT_WQ_FATAL
  | IB_EXP_EVENT_XRQ_QP_ERR | IB_EVENT_XRQ_NVMF_BACKEND_CTRL_PCI_ERR | IB_EVENT_XRQ_NVMF_BACKEND_CTRL_TO_ERR

fun ib_event_code :: "ib_event_type \<Rightarrow> nat" where
  "ib_event_code IB_EVENT_CQ_ERR = 0"
| "ib_event_code IB_EVENT_QP_FATAL = 1"
| "ib_event_code IB_EVENT_QP_REQ_ERR = 2"
| "ib_event_code IB_EVENT_QP_ACCESS_ERR = 3"
| "ib_event_code IB_EVENT_COMM_EST = 4"
| "ib_event_code IB_EVENT_SQ_DRAINED = 5"
| "ib_event_code IB_EVENT_PATH_MIG = 6"
| "ib_event_code IB_EVENT_PATH_MIG_ERR = 7"
| "ib_event_code IB_EVENT_DEVICE_FATAL = 8"
| "ib_event_code IB_EVENT_PORT_ACTIVE = 9"
| "ib_event_code IB_EVENT_PORT_ERR = 10"
| "ib_event_code IB_EVENT_LID_CHANGE = 11"
| "ib_event_code IB_EVENT_PKEY_CHANGE = 12"
| "ib_event_code IB_EVENT_SM_CHANGE = 13"
| "ib_event_code IB_EVENT_SRQ_ERR = 14"
| "ib_event_code IB_EVENT_SRQ_LIMIT_REACHED = 15"
| "ib_event_code IB_EVENT_QP_LAST_WQE_REACHED = 16"
| "ib_event_code IB_EVENT_CLIENT_REREGISTER = 17"
| "ib_event_code IB_EVENT_GID_CHANGE = 18"
| "ib_event_code IB_EVENT_WQ_FATAL = 19"
| "ib_event_code IB_EXP_EVENT_XRQ_QP_ERR = 20"
| "ib_event_code IB_EVENT_XRQ_NVMF_BACKEND_CTRL_PCI_ERR = 21"
| "ib_event_code IB_EVENT_XRQ_NVMF_BACKEND_CTRL_TO_ERR = 22"

definition ib_events :: "string option list" where
  "ib_events = [
     Some ''CQ error'',
     Some ''QP fatal error'',
     Some ''QP request error'',
     Some ''QP access error'',
     Some ''communication established'',
     Some ''send queue drained'',
     Some ''path migration successful'',
     Some ''path migration error'',
     Some ''device fatal error'',
     Some ''port active'',
     Some ''port error'',
     Some ''LID change'',
     Some ''P_key change'',
     Some ''SM change'',
     Some ''SRQ error'',
     Some ''SRQ limit reached'',
     Some ''last WQE reached'',
     Some ''client reregister'',
     Some ''GID changed'',
     None,
     Some ''XRQ QP error'',
     Some ''XRQ NVMF backend ctrl PCI error'',
     Some ''XRQ NVMF backend ctrl timeout error'']"


definition ib_event_msg :: "nat \<Rightarrow> string" where
  "ib_event_msg event =
     (if event < length ib_events \<and> ib_events ! event \<noteq> None then the (ib_events ! event)
      else ''unrecognized event'')"

datatype ib_wc_status =
    IB_WC_SUCCESS | IB_WC_LOC_LEN_ERR | IB_WC_LOC_QP_OP_ERR | IB_WC_LOC_EEC_OP_ERR
  | IB_WC_LOC_PROT_ERR | IB_WC_WR_FLUSH_ERR | IB_WC_MW_BIND_ERR | IB_WC_BAD_RESP_ERR
  | IB_WC_LOC_ACCESS_ERR | IB_WC_REM_INV_REQ_ERR | IB_WC_REM_ACCESS_ERR | IB_WC_REM_OP_ERR
  | IB_WC_RETRY_EXC_ERR | IB_WC_RNR_RETRY_EXC_ERR | IB_WC_LOC_RDD_VIOL_ERR | IB_WC_REM_INV_RD_REQ_ERR
  | IB_WC_REM_ABORT_ERR | IB_WC_INV_EECN_ERR | IB_WC_INV_EEC_STATE_ERR | IB_WC_FATAL_ERR
  | IB_WC_RESP_TIMEOUT_ERR | IB_WC_GENERAL_ERR | IB_WC_SIG_PIPELINE_CANCELED

fun ib_wc_code :: "ib_wc_status \<Rightarrow> nat" where
  "ib_wc_code IB_WC_SUCCESS = 0"
| "ib_wc_code IB_WC_LOC_LEN_ERR = 1"
| "ib_wc_code IB_WC_LOC_QP_OP_ERR = 2"
| "ib_wc_code IB_WC_LOC_EEC_OP_ERR = 3"
| "ib_wc_code IB_WC_LOC_PROT_ERR = 4"
| "ib_wc_code IB_WC_WR_FLUSH_ERR = 5"
| "ib_wc_code IB_WC_MW_BIND_ERR = 6"
| "ib_wc_code IB_WC_BAD_RESP_ERR = 7"
| "ib_wc_code IB_WC_LOC_ACCESS_ERR = 8"
| "ib_wc_code IB_WC_REM_INV_REQ_ERR = 9"
| "ib_wc_code IB_WC_REM_ACCESS_ERR = 10"
| "ib_wc_code IB_WC_REM_OP_ERR = 11"
| "ib_wc_code IB_WC_RETRY_EXC_ERR = 12"
| "ib_wc_code IB_WC_RNR_RETRY_EXC_ERR = 13"
| "ib_wc_code IB_WC_LOC_RDD_VIOL_ERR = 14"
| "ib_wc_code IB_WC_REM_INV_RD_REQ_ERR = 15"
| "ib_wc_code IB_WC_REM_ABORT_ERR = 16"
| "ib_wc_code IB_WC_INV_EECN_ERR = 17"
| "ib_wc_code IB_WC_INV_EEC_STATE_ERR = 18"
| "ib_wc_code IB_WC_FATAL_ERR = 19"
| "ib_wc_code IB_WC_RESP_TIMEOUT_ERR = 20"
| "ib_wc_code IB_WC_GENERAL_ERR = 21"
| "ib_wc_code IB_WC_SIG_PIPELINE_CANCELED = 22"

definition wc_statuses :: "string option list" where
  "wc_statuses = [
     Some ''success'',
     Some ''local length error'',
     Some ''local QP operation error'',
     Some ''local EE context operation error'',
     Some ''local protection error'',
     Some ''WR flushed'',
     Some ''memory bind operation error'',
     Some ''bad response error'',
     Some ''local access error'',
     Some ''remote invalid request error'',
     Some ''remote access error'',
     Some ''remote operation error'',
     Some ''transport retry counter exceeded'',
     Some ''RNR retry counter exceeded'',
     Some ''local RDD violation error'',
     Some ''remote invalid RD request'',
     Some ''operation aborted'',
     Some ''invalid EE context number'',
     Some ''invalid EE context state'',
     Some ''fatal error'',
     Some ''response timeout error'',
     Some ''general error'',
     Some ''pipelined WR canceled'']"


definition ib_wc_status_msg :: "nat \<Rightarrow> string" where
  "ib_wc_status_msg status =
     (if status < length wc_statuses \<and> wc_statuses ! status \<noteq> None then the (wc_statuses ! status)
      else ''unrecognized status'')"

section \<open>Static rates\<close>

datatype ib_rate =
    IB_RATE_PORT_CURRENT | IB_RATE_2_5_GBPS | IB_RATE_5_GBPS | IB_RATE_10_GBPS
  | IB_RATE_20_GBPS | IB_RATE_30_GBPS | IB_RATE_40_GBPS | IB_RATE_60_GBPS
  | IB_RATE_80_GBPS | IB_RATE_120_GBPS | IB_RATE_14_GBPS | IB_RATE_56_GBPS
  | IB_RATE_112_GBPS | IB_RATE_168_GBPS | IB_RATE_25_GBPS | IB_RATE_100_GBPS
  | IB_RATE_200_GBPS | IB_RATE_300_GBPS | IB_RATE_28_GBPS | IB_RATE_50_GBPS
  | IB_RATE_400_GBPS | IB_RATE_600_GBPS | IB_RATE_800_GBPS

fun ib_rate_to_mult :: "ib_rate \<Rightarrow> int" where
  "ib_rate_to_mult IB_RATE_2_5_GBPS = 1"
| "ib_rate_to_mult IB_RATE_5_GBPS = 2"
| "ib_rate_to_mult IB_RATE_10_GBPS = 4"
| "ib_rate_to_mult IB_RATE_20_GBPS = 8"
| "ib_rate_to_mult IB_RATE_30_GBPS = 12"
| "ib_rate_to_mult IB_RATE_40_GBPS = 16"
| "ib_rate_to_mult IB_RATE_60_GBPS = 24"
| "ib_rate_to_mult IB_RATE_80_GBPS = 32"
| "ib_rate_to_mult IB_RATE_120_GBPS = 48"
| "ib_rate_to_mult IB_RATE_14_GBPS = 6"
| "ib_rate_to_mult IB_RATE_56_GBPS = 22"
| "ib_rate_to_mult IB_RATE_112_GBPS = 45"
| "ib_rate_to_mult IB_RATE_168_GBPS = 67"
| "ib_rate_to_mult IB_RATE_25_GBPS = 10"
| "ib_rate_to_mult IB_RATE_100_GBPS = 40"
| "ib_rate_to_mult IB_RATE_200_GBPS = 80"
| "ib_rate_to_mult IB_RATE_300_GBPS = 120"
| "ib_rate_to_mult IB_RATE_28_GBPS = 11"
| "ib_rate_to_mult IB_RATE_50_GBPS = 20"
| "ib_rate_to_mult IB_RATE_400_GBPS = 160"
| "ib_rate_to_mult IB_RATE_600_GBPS = 240"
| "ib_rate_to_mult IB_RATE_800_GBPS = 320"
| "ib_rate_to_mult _ = - 1"

definition mult_to_ib_rate :: "int \<Rightarrow> ib_rate" where
  "mult_to_ib_rate mult =
    (if mult = 1 then IB_RATE_2_5_GBPS
     else if mult = 2 then IB_RATE_5_GBPS
     else if mult = 4 then IB_RATE_10_GBPS
     else if mult = 8 then IB_RATE_20_GBPS
     else if mult = 12 then IB_RATE_30_GBPS
     else if mult = 16 then IB_RATE_40_GBPS
     else if mult = 24 then IB_RATE_60_GBPS
     else if mult = 32 then IB_RATE_80_GBPS
     else if mult = 48 then IB_RATE_120_GBPS
     else if mult = 6 then IB_RATE_14_GBPS
     else if mult = 22 then IB_RATE_56_GBPS
     else if mult = 45 then IB_RATE_112_GBPS
     else if mult = 67 then IB_RATE_168_GBPS
     else if mult = 10 then IB_RATE_25_GBPS
     else if mult = 40 then IB_RATE_100_GBPS
     else if mult = 80 then IB_RATE_200_GBPS
     else if mult = 120 then IB_RATE_300_GBPS
     else if mult = 11 then IB_RATE_28_GBPS
     else if mult = 20 then IB_RATE_50_GBPS
     else if mult = 160 then IB_RATE_400_GBPS
     else if mult = 240 then IB_RATE_600_GBPS
     else if mult = 320 then IB_RATE_800_GBPS
     else IB_RATE_PORT_CURRENT)"

fun ib_rate_to_mbps :: "ib_rate \<Rightarrow> int" where
  "ib_rate_to_mbps IB_RATE_2_5_GBPS = 2500"
| "ib_rate_to_mbps IB_RATE_5_GBPS = 5000"
| "ib_rate_to_mbps IB_RATE_10_GBPS = 10000"
| "ib_rate_to_mbps IB_RATE_20_GBPS = 20000"
| "ib_rate_to_mbps IB_RATE_30_GBPS = 30000"
| "ib_rate_to_mbps IB_RATE_40_GBPS = 40000"
| "ib_rate_to_mbps IB_RATE_60_GBPS = 60000"
| "ib_rate_to_mbps IB_RATE_80_GBPS = 80000"
| "ib_rate_to_mbps IB_RATE_120_GBPS = 120000"
| "ib_rate_to_mbps IB_RATE_14_GBPS = 14062"
| "ib_rate_to_mbps IB_RATE_56_GBPS = 56250"
| "ib_rate_to_mbps IB_RATE_112_GBPS = 112500"
| "ib_rate_to_mbps IB_RATE_168_GBPS = 168750"
| "ib_rate_to_mbps IB_RATE_25_GBPS = 25781"
| "ib_rate_to_mbps IB_RATE_100_GBPS = 103125"
| "ib_rate_to_mbps IB_RATE_200_GBPS = 206250"
| "ib_rate_to_mbps IB_RATE_300_GBPS = 309375"
| "ib_rate_to_mbps IB_RATE_28_GBPS = 28125"
| "ib_rate_to_mbps IB_RATE_50_GBPS = 53125"
| "ib_rate_to_mbps IB_RATE_400_GBPS = 425000"
| "ib_rate_to_mbps IB_RATE_600_GBPS = 637500"
| "ib_rate_to_mbps IB_RATE_800_GBPS = 850000"
| "ib_rate_to_mbps _ = - 1"

section \<open>Transports and link layers\<close>

definition RDMA_NODE_RNIC :: nat where "RDMA_NODE_RNIC = 4"
definition RDMA_NODE_USNIC :: nat where "RDMA_NODE_USNIC = 5"
definition RDMA_NODE_USNIC_UDP :: nat where "RDMA_NODE_USNIC_UDP = 6"
definition RDMA_NODE_UNSPECIFIED :: nat where "RDMA_NODE_UNSPECIFIED = 7"

datatype rdma_transport_type =
    RDMA_TRANSPORT_IB | RDMA_TRANSPORT_IWARP | RDMA_TRANSPORT_USNIC | RDMA_TRANSPORT_USNIC_UDP
  | RDMA_TRANSPORT_UNSPECIFIED

datatype rdma_link_layer =
    IB_LINK_LAYER_UNSPECIFIED | IB_LINK_LAYER_INFINIBAND | IB_LINK_LAYER_ETHERNET

definition rdma_node_get_transport :: "nat \<Rightarrow> rdma_transport_type" where
  "rdma_node_get_transport node_type =
     (if node_type = RDMA_NODE_USNIC then RDMA_TRANSPORT_USNIC
      else if node_type = RDMA_NODE_USNIC_UDP then RDMA_TRANSPORT_USNIC_UDP
      else if node_type = RDMA_NODE_RNIC then RDMA_TRANSPORT_IWARP
      else if node_type = RDMA_NODE_UNSPECIFIED then RDMA_TRANSPORT_UNSPECIFIED
      else RDMA_TRANSPORT_IB)"

text \<open>\<open>get_link_layer\<close> is the driver's operation, when it has one.\<close>

definition rdma_port_get_link_layer :: "(nat \<Rightarrow> rdma_link_layer) option \<Rightarrow> nat \<Rightarrow> nat \<Rightarrow> rdma_link_layer" where
  "rdma_port_get_link_layer get_link_layer node_type port_num =
     (case get_link_layer of
        Some f \<Rightarrow> f port_num
      | None \<Rightarrow> (if rdma_node_get_transport node_type = RDMA_TRANSPORT_IB then IB_LINK_LAYER_INFINIBAND
                else IB_LINK_LAYER_ETHERNET))"

section \<open>Width and speed of an Ethernet port\<close>

datatype ib_port_width = IB_WIDTH_1X | IB_WIDTH_2X | IB_WIDTH_4X | IB_WIDTH_8X | IB_WIDTH_12X

fun ib_width_enum_to_int :: "ib_port_width \<Rightarrow> nat" where
  "ib_width_enum_to_int IB_WIDTH_1X = 1"
| "ib_width_enum_to_int IB_WIDTH_2X = 2"
| "ib_width_enum_to_int IB_WIDTH_4X = 4"
| "ib_width_enum_to_int IB_WIDTH_8X = 8"
| "ib_width_enum_to_int IB_WIDTH_12X = 12"

datatype ib_port_speed =
    IB_SPEED_SDR | IB_SPEED_DDR | IB_SPEED_QDR | IB_SPEED_FDR10 | IB_SPEED_FDR | IB_SPEED_EDR
  | IB_SPEED_HDR | IB_SPEED_NDR | IB_SPEED_XDR

definition ib_get_width_and_speed :: "nat \<Rightarrow> nat \<Rightarrow> ib_port_speed \<times> ib_port_width" where
  "ib_get_width_and_speed netdev_speed lanes =
     (if lanes = 0 then
        (if netdev_speed \<le> 1000 then (IB_SPEED_SDR, IB_WIDTH_1X)
         else if netdev_speed \<le> 10000 then (IB_SPEED_FDR10, IB_WIDTH_1X)
         else if netdev_speed \<le> 20000 then (IB_SPEED_DDR, IB_WIDTH_4X)
         else if netdev_speed \<le> 25000 then (IB_SPEED_EDR, IB_WIDTH_1X)
         else if netdev_speed \<le> 40000 then (IB_SPEED_FDR10, IB_WIDTH_4X)
         else if netdev_speed \<le> 50000 then (IB_SPEED_EDR, IB_WIDTH_2X)
         else if netdev_speed \<le> 100000 then (IB_SPEED_EDR, IB_WIDTH_4X)
         else if netdev_speed \<le> 200000 then (IB_SPEED_HDR, IB_WIDTH_4X)
         else (IB_SPEED_NDR, IB_WIDTH_4X))
      else
        (let width = (if lanes = 1 then IB_WIDTH_1X else if lanes = 2 then IB_WIDTH_2X
                      else if lanes = 4 then IB_WIDTH_4X else if lanes = 8 then IB_WIDTH_8X
                      else if lanes = 12 then IB_WIDTH_12X else IB_WIDTH_1X);
             per_lane = netdev_speed div lanes;
             speed = (if per_lane = 2500 then IB_SPEED_SDR else if per_lane = 5000 then IB_SPEED_DDR
                      else if per_lane = 10000 then IB_SPEED_FDR10 else if per_lane = 14000 then IB_SPEED_FDR
                      else if per_lane = 25000 then IB_SPEED_EDR else if per_lane = 50000 then IB_SPEED_HDR
                      else if per_lane = 100000 then IB_SPEED_NDR else IB_SPEED_SDR)
         in (speed, width)))"

section \<open>Properties\<close>

lemma ib_events_distinct: "distinct (ib_events @ [Some ''unrecognized event''])"
  unfolding ib_events_def by code_simp

lemma wc_statuses_distinct: "distinct (wc_statuses @ [Some ''unrecognized status''])"
  unfolding wc_statuses_def by code_simp

lemma msg_inj:
  assumes "distinct (tbl @ [Some d])" "i < length tbl" "j < length tbl" "tbl ! i \<noteq> None" "tbl ! j \<noteq> None"
  shows "the (tbl ! i) = the (tbl ! j) \<longleftrightarrow> i = j" "the (tbl ! i) \<noteq> d"
proof -
  have "tbl ! i = tbl ! j \<longleftrightarrow> i = j" using assms by (simp add: nth_eq_iff_index_eq)
  then show "the (tbl ! i) = the (tbl ! j) \<longleftrightarrow> i = j" using assms(4,5) by auto
  have "tbl ! i \<in> set tbl" using assms(2) by simp
  moreover have "Some d \<notin> set tbl" using assms(1) by auto
  ultimately show "the (tbl ! i) \<noteq> d" using assms(4) by auto
qed

text \<open>
  Every completion status has a message of its own. Every asynchronous event has one too, except
  \<open>IB_EVENT_WQ_FATAL\<close>, which the table leaves out: it is reported as unrecognized.
\<close>
theorem verbs_messages:
  "(ib_event_msg (ib_event_code e) = ''unrecognized event'' \<longleftrightarrow> e = IB_EVENT_WQ_FATAL) \<and>
   (ib_event_msg (ib_event_code e) = ib_event_msg (ib_event_code e') \<longleftrightarrow> e = e') \<and>
   ib_wc_status_msg (ib_wc_code s) \<noteq> ''unrecognized status'' \<and>
   (ib_wc_status_msg (ib_wc_code s) = ib_wc_status_msg (ib_wc_code s') \<longleftrightarrow> s = s')"
proof -
  have e: "ib_event_code x < length ib_events" "ib_events ! ib_event_code x = None \<longleftrightarrow> x = IB_EVENT_WQ_FATAL" for x
    by (cases x; simp add: ib_events_def)+
  have e_inj: "ib_event_code e = ib_event_code e' \<longleftrightarrow> e = e'" by (cases e; cases e'; simp)
  have w: "ib_wc_code x < length wc_statuses" "wc_statuses ! ib_wc_code x \<noteq> None" for x
    by (cases x; simp add: wc_statuses_def)+
  have w_inj: "ib_wc_code s = ib_wc_code s' \<longleftrightarrow> s = s'" by (cases s; cases s'; simp)
  note em = msg_inj [OF ib_events_distinct e(1) e(1)] and wm = msg_inj [OF wc_statuses_distinct w(1) w(1) w(2) w(2)]
  have ev: "ib_event_msg (ib_event_code x) =
      (if x = IB_EVENT_WQ_FATAL then ''unrecognized event'' else the (ib_events ! ib_event_code x))" for x
    using e [of x] by (simp add: ib_event_msg_def)
  have st: "ib_wc_status_msg (ib_wc_code x) = the (wc_statuses ! ib_wc_code x)" for x
    using w [of x] by (simp add: ib_wc_status_msg_def)
  have "the (ib_events ! ib_event_code x) \<noteq> ''unrecognized event''" if "x \<noteq> IB_EVENT_WQ_FATAL" for x
    using em(2) [of x x] e(2) that by blast
  moreover have "the (ib_events ! ib_event_code e) = the (ib_events ! ib_event_code e') \<longleftrightarrow> e = e'"
    if "e \<noteq> IB_EVENT_WQ_FATAL" "e' \<noteq> IB_EVENT_WQ_FATAL"
    using em(1) [of e e'] e(2) e_inj that by blast
  ultimately have "(ib_event_msg (ib_event_code e) = ''unrecognized event'' \<longleftrightarrow> e = IB_EVENT_WQ_FATAL) \<and>
      (ib_event_msg (ib_event_code e) = ib_event_msg (ib_event_code e') \<longleftrightarrow> e = e')"
    unfolding ev by (cases "e = IB_EVENT_WQ_FATAL"; cases "e' = IB_EVENT_WQ_FATAL") (simp only: if_True if_False refl, metis)+
  then show ?thesis unfolding st using wm(1) [of s s'] wm(2) [of s] w_inj by blast
qed

text \<open>
  The conversion of a static rate to a multiple of 2.5 Gb/s and the one back are inverse to each
  other: every rate but \<open>IB_RATE_PORT_CURRENT\<close> (which has no multiple) comes back unchanged, and a number
  is converted to another rate than \<open>IB_RATE_PORT_CURRENT\<close> exactly when it is the multiple of one. The
  multiples and the megabits per second order the rates in the same way.
\<close>
theorem ib_rate_round_trip:
  "(ib_rate_to_mult r = - 1 \<longleftrightarrow> r = IB_RATE_PORT_CURRENT) \<and>
   (r \<noteq> IB_RATE_PORT_CURRENT \<longrightarrow> mult_to_ib_rate (ib_rate_to_mult r) = r) \<and>
   (mult_to_ib_rate n \<noteq> IB_RATE_PORT_CURRENT \<longleftrightarrow> n \<in> ib_rate_to_mult ` (UNIV - {IB_RATE_PORT_CURRENT})) \<and>
   (ib_rate_to_mult r < ib_rate_to_mult r' \<longleftrightarrow> ib_rate_to_mbps r < ib_rate_to_mbps r')"
proof (intro conjI)
  show "ib_rate_to_mult r = - 1 \<longleftrightarrow> r = IB_RATE_PORT_CURRENT" by (cases r) simp_all
  have inv: "mult_to_ib_rate (ib_rate_to_mult x) = x" if "x \<noteq> IB_RATE_PORT_CURRENT" for x
    using that by (cases x) (simp_all add: mult_to_ib_rate_def)
  then show "r \<noteq> IB_RATE_PORT_CURRENT \<longrightarrow> mult_to_ib_rate (ib_rate_to_mult r) = r" by blast
  have fwd: "ib_rate_to_mult (mult_to_ib_rate n) = n" if "mult_to_ib_rate n \<noteq> IB_RATE_PORT_CURRENT"
    using that by (simp add: mult_to_ib_rate_def split: if_splits)
  show "mult_to_ib_rate n \<noteq> IB_RATE_PORT_CURRENT \<longleftrightarrow> n \<in> ib_rate_to_mult ` (UNIV - {IB_RATE_PORT_CURRENT})"
    using inv fwd by (metis (mono_tags, lifting) DiffE DiffI UNIV_I image_iff singleton_iff)
  show "ib_rate_to_mult r < ib_rate_to_mult r' \<longleftrightarrow> ib_rate_to_mbps r < ib_rate_to_mbps r'"
    by (cases r; cases r'; simp)
qed

theorem ib_rate_round_trip_witness: "mult_to_ib_rate (ib_rate_to_mult IB_RATE_168_GBPS) = IB_RATE_168_GBPS"
  using ib_rate_round_trip [of IB_RATE_168_GBPS] by simp

text \<open>The nominal rate of a lane, in Mb/s.\<close>

fun lane_mbps :: "ib_port_speed \<Rightarrow> nat" where
  "lane_mbps IB_SPEED_SDR = 2500" | "lane_mbps IB_SPEED_DDR = 5000" | "lane_mbps IB_SPEED_QDR = 10000"
| "lane_mbps IB_SPEED_FDR10 = 10000" | "lane_mbps IB_SPEED_FDR = 14000" | "lane_mbps IB_SPEED_EDR = 25000"
| "lane_mbps IB_SPEED_HDR = 50000" | "lane_mbps IB_SPEED_NDR = 100000" | "lane_mbps IB_SPEED_XDR = 200000"

text \<open>
  The width and speed reported for an Ethernet port of up to 400 Gb/s carry the speed of its network
  device when the driver does not know the number of lanes; when it does, and the device runs at a
  standard rate per lane on a standard number of lanes, they give that speed exactly.
\<close>
theorem ib_width_and_speed_carries:
  "(speed \<le> 400000 \<longrightarrow> (case ib_get_width_and_speed speed 0 of (s, w) \<Rightarrow> speed \<le> lane_mbps s * ib_width_enum_to_int w)) \<and>
   (lanes \<in> {1, 2, 4, 8, 12} \<and> lane \<in> {2500, 5000, 10000, 14000, 25000, 50000, 100000} \<longrightarrow>
     (case ib_get_width_and_speed (lane * lanes) lanes of (s, w) \<Rightarrow>
        lane_mbps s = lane \<and> ib_width_enum_to_int w = lanes))"
proof
  show "speed \<le> 400000 \<longrightarrow> (case ib_get_width_and_speed speed 0 of (s, w) \<Rightarrow> speed \<le> lane_mbps s * ib_width_enum_to_int w)"
    by (simp add: ib_get_width_and_speed_def)
  show "lanes \<in> {1, 2, 4, 8, 12} \<and> lane \<in> {2500, 5000, 10000, 14000, 25000, 50000, 100000} \<longrightarrow>
     (case ib_get_width_and_speed (lane * lanes) lanes of (s, w) \<Rightarrow>
        lane_mbps s = lane \<and> ib_width_enum_to_int w = lanes)"
  proof
    assume a: "lanes \<in> {1, 2, 4, 8, 12} \<and> lane \<in> {2500, 5000, 10000, 14000, 25000, 50000, 100000}"
    then have "lanes \<noteq> 0" "lane * lanes div lanes = lane" by auto
    then have "ib_get_width_and_speed (lane * lanes) lanes = (fst (ib_get_width_and_speed lane 1),
        snd (ib_get_width_and_speed lanes lanes))"
      using a by (simp add: ib_get_width_and_speed_def Let_def)
    moreover have "lane_mbps (fst (ib_get_width_and_speed lane 1)) = lane"
      using a by (auto simp: ib_get_width_and_speed_def)
    moreover have "ib_width_enum_to_int (snd (ib_get_width_and_speed lanes lanes)) = lanes"
      using a by (auto simp: ib_get_width_and_speed_def)
    ultimately show "case ib_get_width_and_speed (lane * lanes) lanes of (s, w) \<Rightarrow>
        lane_mbps s = lane \<and> ib_width_enum_to_int w = lanes" by simp
  qed
qed

theorem ib_width_and_speed_carries_witness: "fst (ib_get_width_and_speed 100000 4) = IB_SPEED_EDR"
  using ib_width_and_speed_carries [of 100000 4 25000]
  by (cases "fst (ib_get_width_and_speed 100000 4)") (auto split: prod.splits)

end
