(* ===== verification/Ib_Packer.thy ===== *)
theory Ib_Packer
  imports Mlx_Prelude
begin

text \<open>
  The packing of C structures into wire format, \<open>drivers/infiniband/core/packer.c\<close>: \<open>ib_pack\<close> and \<open>ib_unpack\<close>
  are driven by a table of fields, each with its place in the structure (in bytes) and on the wire
  (in 32-bit words and bits, counted from the most significant end).

  Structures and buffers are lists of bytes; \<open>None\<close> is an access outside of one, or a shift by a
  negative amount. A bit of a list of bytes is numbered from the most significant end, as the wire
  formats are. The results say what the two functions do to every single bit, that unpacking
  inverts packing for tables of fields that do not overlap, and that it does not for a field of 33 to
  64 bits that is not at the start of the buffer, where the two functions use different addresses.
\<close>

section \<open>Numbers in memory\<close>

definition be_get :: "nat \<Rightarrow> nat \<Rightarrow> u8 list \<Rightarrow> u64 option" where
  "be_get n a bs = (if a + n \<le> length bs then Some (foldl (\<lambda>v b. push_bit 8 v OR ucast b) 0 (take n (drop a bs)))
     else None)"

definition be_put :: "nat \<Rightarrow> nat \<Rightarrow> u64 \<Rightarrow> u8 list \<Rightarrow> u8 list option" where
  "be_put n a w bs = (if a + n \<le> length bs then Some (take a bs @ be_bytes n w @ drop (a + n) bs) else None)"

definition mem_copy :: "nat \<Rightarrow> nat \<Rightarrow> u8 list \<Rightarrow> nat \<Rightarrow> u8 list \<Rightarrow> u8 list option" where
  "mem_copy n a src d dst =
     (if a + n \<le> length src \<and> d + n \<le> length dst
      then Some (take d dst @ take n (drop a src) @ drop (d + n) dst) else None)"

definition mem_zero :: "nat \<Rightarrow> nat \<Rightarrow> u8 list \<Rightarrow> u8 list option" where
  "mem_zero n d dst =
     (if d + n \<le> length dst then Some (take d dst @ replicate n 0 @ drop (d + n) dst) else None)"

section \<open>Packing\<close>

record ib_field =
  struct_offset_bytes :: nat
  struct_size_bytes :: nat
  offset_words :: nat
  offset_bits :: nat
  size_bits :: nat

definition value_read :: "nat \<Rightarrow> nat \<Rightarrow> u8 list \<Rightarrow> u64 option" where
  "value_read offset sz structure =
     (if sz \<in> {1, 2, 4, 8} then be_get sz offset structure else Some 0)"

definition value_write :: "nat \<Rightarrow> nat \<Rightarrow> u64 \<Rightarrow> u8 list \<Rightarrow> u8 list option" where
  "value_write offset sz val structure =
     (if sz \<in> {1, 2, 4, 8} then be_put sz offset val structure else Some structure)"

text \<open>
  The read-modify-write of \<open>bits\<close> = 32 or 64 bits at the byte address \<open>addr\<close>. The code works on the
  big-endian value in place; the masks are the same in both byte orders.
\<close>

definition field_mask :: "nat \<Rightarrow> nat \<Rightarrow> u64" where
  "field_mask n shift = push_bit shift (mask n)"

definition pack_word :: "nat \<Rightarrow> nat \<Rightarrow> nat \<Rightarrow> nat \<Rightarrow> u64 \<Rightarrow> u8 list \<Rightarrow> u8 list option" where
  "pack_word bits addr n shift val buf = do {
     old \<leftarrow> be_get (bits div 8) addr buf;
     (let msk = field_mask n shift
      in be_put (bits div 8) addr ((old AND NOT msk) OR (push_bit shift val AND msk)) buf) }"

definition pack_field :: "ib_field \<Rightarrow> u8 list \<Rightarrow> u8 list \<Rightarrow> u8 list option" where
  "pack_field f structure buf =
     (let bits = (if size_bits f \<le> 32 then 32 else 64) in
      if size_bits f \<le> 64 then
        (if offset_bits f + size_bits f > bits then None
         else do {
           val \<leftarrow> (if struct_size_bytes f \<noteq> 0
                  then value_read (struct_offset_bytes f) (struct_size_bytes f) structure else Some 0);
           pack_word bits (4 * offset_words f) (size_bits f) (bits - offset_bits f - size_bits f) val buf })
      else if struct_size_bytes f \<noteq> 0
        then mem_copy (size_bits f div 8) (struct_offset_bytes f) structure
               (offset_words f * 4 + offset_bits f div 8) buf
        else mem_zero (size_bits f div 8) (offset_words f * 4 + offset_bits f div 8) buf)"

fun ib_pack :: "ib_field list \<Rightarrow> u8 list \<Rightarrow> u8 list \<Rightarrow> u8 list option" where
  "ib_pack [] structure buf = Some buf"
| "ib_pack (f # desc) structure buf = do {
     buf' \<leftarrow> pack_field f structure buf;
     ib_pack desc structure buf' }"

definition unpack_word :: "nat \<Rightarrow> nat \<Rightarrow> nat \<Rightarrow> nat \<Rightarrow> u8 list \<Rightarrow> u64 option" where
  "unpack_word bits addr n shift buf = do {
     v \<leftarrow> be_get (bits div 8) addr buf;
     Some (drop_bit shift (v AND field_mask n shift)) }"

text \<open>The address of a field of 33 to 64 bits: \<open>(__be64 *) buf + offset_words\<close> counts words of eight bytes.\<close>

definition unpack_field :: "ib_field \<Rightarrow> u8 list \<Rightarrow> u8 list \<Rightarrow> u8 list option" where
  "unpack_field f buf structure =
     (if struct_size_bytes f = 0 then Some structure
      else if size_bits f \<le> 64 then
        (let bits = (if size_bits f \<le> 32 then 32 else 64);
             addr = (if size_bits f \<le> 32 then 4 * offset_words f else 8 * offset_words f) in
         if offset_bits f + size_bits f > bits then None
         else do {
           val \<leftarrow> unpack_word bits addr (size_bits f) (bits - offset_bits f - size_bits f) buf;
           value_write (struct_offset_bytes f) (struct_size_bytes f) val structure })
      else mem_copy (size_bits f div 8) (offset_words f * 4 + offset_bits f div 8) buf
             (struct_offset_bytes f) structure)"

fun ib_unpack :: "ib_field list \<Rightarrow> u8 list \<Rightarrow> u8 list \<Rightarrow> u8 list option" where
  "ib_unpack [] buf structure = Some structure"
| "ib_unpack (f # desc) buf structure = do {
     structure' \<leftarrow> unpack_field f buf structure;
     ib_unpack desc buf structure' }"

section \<open>Bits of byte lists\<close>

definition bitat :: "u8 list \<Rightarrow> nat \<Rightarrow> bool" where
  "bitat bs i = bit (bs ! (i div 8)) (7 - i mod 8)"

lemma div_mod_8: "r < 8 \<Longrightarrow> (8 * q + r) div 8 = q" "r < 8 \<Longrightarrow> (8 * q + r) mod 8 = r" for q r :: nat
  by simp_all

lemma split_8: obtains q r :: nat where "i = 8 * q + r" "r < 8"
  using that [of "i div 8" "i mod 8"] by simp

lemma byte_of_bit: "bit (bs ! k) j = bitat bs (8 * k + 7 - j)" if "j < 8"
proof -
  have "8 * k + 7 - j = 8 * k + (7 - j)" "7 - j < 8" using that by simp_all
  with that show ?thesis by (simp only: bitat_def div_mod_8 diff_diff_cancel less_Suc_eq_le)
qed

lemma bitat_append: "bitat (xs @ ys) i = (if i < 8 * length xs then bitat xs i else bitat ys (i - 8 * length xs))"
proof (cases "i < 8 * length xs")
  case True
  then have "i div 8 < length xs" by simp
  with True show ?thesis by (simp add: bitat_def nth_append)
next
  case False
  obtain q r where i: "i = 8 * q + r" "r < 8" by (rule split_8)
  with False have "length xs \<le> q" by simp
  then have "i - 8 * length xs = 8 * (q - length xs) + r" using i by (simp add: diff_mult_distrib2)
  with i \<open>length xs \<le> q\<close> False show ?thesis by (simp only: bitat_def div_mod_8) (simp add: nth_append)
qed

lemma bitat_take: "i < 8 * n \<Longrightarrow> bitat (take n xs) i = bitat xs i"
  by (simp add: bitat_def)

lemma bitat_drop: "n \<le> length xs \<Longrightarrow> bitat (drop n xs) i = bitat xs (8 * n + i)"
  by (simp add: bitat_def add.commute)

lemma bitat_replicate_0: "i < 8 * n \<Longrightarrow> \<not> bitat (replicate n 0) i"
  by (simp add: bitat_def)

lemma bitat_be_bytes: "i < 8 * n \<Longrightarrow> n \<le> 8 \<Longrightarrow> bitat (be_bytes n w) i = bit w (8 * n - 1 - i)" for w :: u64
proof -
  assume i: "i < 8 * n" and n: "n \<le> 8"
  obtain q r where q: "i = 8 * q + r" "r < 8" by (rule split_8)
  with i have "q < n" by simp
  then obtain m where "n = Suc (q + m)" using less_imp_Suc_add by blast
  then have "8 * (n - 1 - q) + (7 - r) = 8 * n - 1 - i" using q by simp
  then have e: "8 * (n - 1 - i div 8) + (7 - i mod 8) = 8 * n - 1 - i" using q by (simp only: div_mod_8)
  have "bitat (be_bytes n w) i = bit (ucast (drop_bit (8 * (n - 1 - i div 8)) w) :: u8) (7 - i mod 8)"
    using i \<open>q < n\<close> q by (simp add: bitat_def be_bytes_def nth_upt)
  also have "\<dots> = bit w (8 * n - 1 - i)"
  proof -
    have "7 - i mod 8 < (8 :: nat)" by linarith
    with e show ?thesis by (simp add: bit_simps)
  qed
  finally show ?thesis .
qed

lemma bit_foldl_bytes:
  "j < 64 \<Longrightarrow> bit (foldl (\<lambda>v b. push_bit 8 v OR ucast b) v0 bs :: u64) j =
     (if j < 8 * length bs then bitat bs (8 * length bs - 1 - j) else bit v0 (j - 8 * length bs))"
proof (induction bs arbitrary: j rule: rev_induct)
  case (snoc b bs)
  show ?case
  proof (cases "j < 8")
    case True
    then have "8 * length (bs @ [b]) - 1 - j = 8 * length bs + (7 - j)" by simp
    moreover have "bitat [b] (7 - j) = bit b j" using True by (simp add: bitat_def)
    ultimately have "bitat (bs @ [b]) (8 * length (bs @ [b]) - 1 - j) = bit b j" by (simp only: bitat_append) simp
    then show ?thesis using True snoc.prems by (simp add: bit_simps)
  next
    case False
    then have "8 * length (bs @ [b]) - 1 - j = 8 * length bs - 1 - (j - 8)" by simp
    moreover have "\<not> bit (ucast b :: u64) j" using False by (simp add: bit_simps) (auto dest: bit_imp_le_length)
    ultimately show ?thesis
      using False snoc.prems snoc.IH [of "j - 8"] by (auto simp: bit_simps bitat_append)
  qed
qed simp

lemma be_get_bits:
  assumes "be_get n a bs = Some v" "n \<le> 8"
  shows "a + n \<le> length bs" "bit v j = (j < 8 * n \<and> bitat bs (8 * a + 8 * n - 1 - j))"
proof -
  show len: "a + n \<le> length bs" using assms by (auto simp: be_get_def split: if_splits)
  show "bit v j = (j < 8 * n \<and> bitat bs (8 * a + 8 * n - 1 - j))"
  proof (cases "j < 64")
    case True
    have v: "v = foldl (\<lambda>v b. push_bit 8 v OR ucast b) 0 (take n (drop a bs))"
      using assms len by (simp add: be_get_def)
    have "8 * a + (8 * n - 1 - j) = 8 * a + 8 * n - 1 - j" if "j < 8 * n" using that by simp
    then show ?thesis
      using bit_foldl_bytes [OF True, of 0 "take n (drop a bs)"] len
      by (auto simp: v bitat_take bitat_drop)
  next
    case False
    then show ?thesis using assms(2) bit_imp_le_length [of v j] by auto
  qed
qed

lemma be_get_total: "a + n \<le> length bs \<Longrightarrow> \<exists>v. be_get n a bs = Some v"
  by (simp add: be_get_def)

text \<open>A write of a range of bytes, whatever it writes.\<close>

lemma bitat_splice:
  assumes "d + length xs \<le> length dst"
  shows "bitat (take d dst @ xs @ drop (d + length xs) dst) i =
    (if 8 * d \<le> i \<and> i < 8 * (d + length xs) then bitat xs (i - 8 * d) else bitat dst i)"
  using assms by (auto simp: bitat_append bitat_take bitat_drop min_absorb2)

lemma be_put_bits:
  assumes "a + n \<le> length bs" "n \<le> 8"
  shows "\<exists>bs'. be_put n a w bs = Some bs' \<and> length bs' = length bs \<and>
    (\<forall>i. bitat bs' i = (if 8 * a \<le> i \<and> i < 8 * (a + n) then bit w (8 * (a + n) - 1 - i) else bitat bs i))"
proof (intro exI conjI allI)
  let ?bs' = "take a bs @ be_bytes n w @ drop (a + n) bs"
  show "be_put n a w bs = Some ?bs'" using assms by (simp add: be_put_def)
  show "length ?bs' = length bs" using assms by simp
  fix i
  have "8 * n - 1 - (i - 8 * a) = 8 * (a + n) - 1 - i" if "8 * a \<le> i" using that by simp
  then show "bitat ?bs' i = (if 8 * a \<le> i \<and> i < 8 * (a + n) then bit w (8 * (a + n) - 1 - i) else bitat bs i)"
    using bitat_splice [of a "be_bytes n w" bs i] assms by (auto simp: bitat_be_bytes)
qed

lemma mem_copy_bits:
  assumes "a + n \<le> length src" "d + n \<le> length dst"
  shows "\<exists>dst'. mem_copy n a src d dst = Some dst' \<and> length dst' = length dst \<and>
    (\<forall>i. bitat dst' i = (if 8 * d \<le> i \<and> i < 8 * (d + n) then bitat src (8 * a + (i - 8 * d)) else bitat dst i))"
proof (intro exI conjI allI)
  let ?dst' = "take d dst @ take n (drop a src) @ drop (d + n) dst"
  show "mem_copy n a src d dst = Some ?dst'" using assms by (simp add: mem_copy_def)
  show "length ?dst' = length dst" using assms by simp
  fix i
  show "bitat ?dst' i = (if 8 * d \<le> i \<and> i < 8 * (d + n) then bitat src (8 * a + (i - 8 * d)) else bitat dst i)"
    using bitat_splice [of d "take n (drop a src)" dst i] assms by (auto simp: bitat_take bitat_drop)
qed

lemma mem_zero_bits:
  assumes "d + n \<le> length dst"
  shows "\<exists>dst'. mem_zero n d dst = Some dst' \<and> length dst' = length dst \<and>
    (\<forall>i. bitat dst' i = (if 8 * d \<le> i \<and> i < 8 * (d + n) then False else bitat dst i))"
proof (intro exI conjI allI)
  let ?dst' = "take d dst @ replicate n 0 @ drop (d + n) dst"
  show "mem_zero n d dst = Some ?dst'" using assms by (simp add: mem_zero_def)
  show "length ?dst' = length dst" using assms by simp
  fix i
  show "bitat ?dst' i = (if 8 * d \<le> i \<and> i < 8 * (d + n) then False else bitat dst i)"
    using bitat_splice [of d "replicate n 0" dst i] assms
    by (cases "8 * d \<le> i \<and> i < 8 * (d + n)") (auto simp: bitat_replicate_0 less_diff_conv2)
qed

section \<open>What the functions do to a field\<close>

text \<open>
  Where a field is: its bits on the wire from \<open>wire_pos\<close> on, and in the structure the low
  \<open>size_bits\<close> bits of its member, from \<open>struct_pos\<close> on.
\<close>

definition wire_pos :: "ib_field \<Rightarrow> nat" where
  "wire_pos f = 32 * offset_words f + offset_bits f"

definition struct_pos :: "ib_field \<Rightarrow> nat" where
  "struct_pos f = 8 * (struct_offset_bytes f + struct_size_bytes f) - size_bits f"

text \<open>A field of a table that fits its wire word, its structure member, and the two memories.\<close>

definition field_ok :: "nat \<Rightarrow> nat \<Rightarrow> ib_field \<Rightarrow> bool" where
  "field_ok sl bl f \<longleftrightarrow>
     (if size_bits f \<le> 64
      then offset_bits f + size_bits f \<le> (if size_bits f \<le> 32 then 32 else 64) \<and>
           4 * offset_words f + (if size_bits f \<le> 32 then 4 else 8) \<le> bl \<and> struct_size_bytes f \<in> {0, 1, 2, 4, 8}
      else 8 dvd offset_bits f \<and> 8 dvd size_bits f \<and> 4 * offset_words f + offset_bits f div 8 + size_bits f div 8 \<le> bl \<and>
           (struct_size_bytes f = 0 \<or> size_bits f = 8 * struct_size_bytes f)) \<and>
     (struct_size_bytes f \<noteq> 0 \<longrightarrow> struct_offset_bytes f + struct_size_bytes f \<le> sl \<and> size_bits f \<le> 8 * struct_size_bytes f)"

lemma bit_field_mask: "n + shift \<le> 64 \<Longrightarrow> bit (field_mask n shift) j = (shift \<le> j \<and> j < shift + n)"
  by (auto simp: field_mask_def bit_simps)

lemma pack_word_bits:
  assumes "addr + b \<le> length buf" "b \<le> 8" "ob + n \<le> 8 * b"
  shows "\<exists>buf'. pack_word (8 * b) addr n (8 * b - ob - n) val buf = Some buf' \<and> length buf' = length buf \<and>
    (\<forall>i. bitat buf' i = (if 8 * addr + ob \<le> i \<and> i < 8 * addr + ob + n
        then bit val (8 * addr + ob + n - 1 - i) else bitat buf i))"
proof -
  let ?s = "8 * b - ob - n"
  obtain old where old: "be_get b addr buf = Some old" using be_get_total [OF assms(1)] by blast
  note ob = be_get_bits(2) [OF old assms(2)]
  let ?w = "(old AND NOT (field_mask n ?s)) OR (push_bit ?s val AND field_mask n ?s)"
  obtain buf' where put: "be_put b addr ?w buf = Some buf'" "length buf' = length buf"
    and bits: "\<And>i. bitat buf' i = (if 8 * addr \<le> i \<and> i < 8 * (addr + b) then bit ?w (8 * (addr + b) - 1 - i) else bitat buf i)"
    using be_put_bits [OF assms(1,2), of ?w] by blast
  have "bitat buf' i = (if 8 * addr + ob \<le> i \<and> i < 8 * addr + ob + n
        then bit val (8 * addr + ob + n - 1 - i) else bitat buf i)" for i
  proof (cases "8 * addr \<le> i \<and> i < 8 * (addr + b)")
    case True
    let ?j = "8 * (addr + b) - 1 - i"
    have j: "?j < 64" "?j < 8 * b" "8 * addr + 8 * b - 1 - ?j = i" using True assms(2) by auto
    have in_iff: "?s \<le> ?j \<and> ?j < ?s + n \<longleftrightarrow> 8 * addr + ob \<le> i \<and> i < 8 * addr + ob + n" using True assms(3) by auto
    have "?j - ?s = 8 * addr + ob + n - 1 - i" if "8 * addr + ob \<le> i \<and> i < 8 * addr + ob + n" using True assms(3) that by auto
    then show ?thesis
      using True j in_iff assms(2,3) ob [of ?j] bits [of i] bit_field_mask [of n ?s ?j]
      by (auto simp: bit_and_iff bit_or_iff bit_not_iff bit_push_bit_iff)
  next
    case False
    then show ?thesis using assms(3) bits [of i] by auto
  qed
  then show ?thesis using put old by (auto simp: pack_word_def)
qed

lemma value_read_bits:
  assumes "sz \<in> {1, 2, 4, 8}" "off + sz \<le> length st"
  shows "\<exists>v. value_read off sz st = Some v \<and> (\<forall>j. bit v j = (j < 8 * sz \<and> bitat st (8 * (off + sz) - 1 - j)))"
proof -
  obtain v where v: "be_get sz off st = Some v" using be_get_total [OF assms(2)] by blast
  have "sz \<le> 8" using assms(1) by auto
  from be_get_bits(2) [OF v this] v assms(1) show ?thesis by (auto simp: value_read_def algebra_simps)
qed

text \<open>The value of a field, and the bytes of a long field.\<close>

lemma field_value:
  assumes "field_ok (length st) bl f" "size_bits f \<le> 64"
  shows "\<exists>val. (if struct_size_bytes f \<noteq> 0
      then value_read (struct_offset_bytes f) (struct_size_bytes f) st else Some 0) = Some val \<and>
    (\<forall>j. j < size_bits f \<longrightarrow> bit val j = (struct_size_bytes f \<noteq> 0 \<and> bitat st (struct_pos f + (size_bits f - 1 - j))))"
proof (cases "struct_size_bytes f = 0")
  case False
  then have sz: "struct_size_bytes f \<in> {1, 2, 4, 8}" "struct_offset_bytes f + struct_size_bytes f \<le> length st"
    "size_bits f \<le> 8 * struct_size_bytes f"
    using assms by (auto simp: field_ok_def)
  obtain v where v: "value_read (struct_offset_bytes f) (struct_size_bytes f) st = Some v"
    "\<And>j. bit v j = (j < 8 * struct_size_bytes f \<and> bitat st (8 * (struct_offset_bytes f + struct_size_bytes f) - 1 - j))"
    using value_read_bits [OF sz(1,2)] by blast
  have "8 * (struct_offset_bytes f + struct_size_bytes f) - 1 - j = struct_pos f + (size_bits f - 1 - j)"
    if "j < size_bits f" for j
    using that sz(3) by (simp add: struct_pos_def)
  with v False sz(3) show ?thesis by auto
qed simp

lemma long_field:
  assumes "field_ok sl bl f" "\<not> size_bits f \<le> 64"
  shows "offset_words f * 4 + offset_bits f div 8 + size_bits f div 8 \<le> bl"
    "8 * (offset_words f * 4 + offset_bits f div 8) = wire_pos f" "8 * (size_bits f div 8) = size_bits f"
    "struct_size_bytes f \<noteq> 0 \<Longrightarrow> struct_offset_bytes f + size_bits f div 8 \<le> sl"
    "struct_size_bytes f \<noteq> 0 \<Longrightarrow> 8 * struct_offset_bytes f = struct_pos f"
    "struct_size_bytes f \<noteq> 0 \<Longrightarrow> size_bits f = 8 * struct_size_bytes f"
  using assms by (auto simp: field_ok_def wire_pos_def struct_pos_def)

lemma short_field:
  assumes "field_ok sl bl f" "size_bits f \<le> 64"
  shows "4 * offset_words f + (if size_bits f \<le> 32 then 4 else 8) \<le> bl" "(if size_bits f \<le> 32 then 4 else 8) \<le> (8::nat)"
    "offset_bits f + size_bits f \<le> 8 * (if size_bits f \<le> 32 then 4 else 8)"
  using assms by (auto simp: field_ok_def split: if_splits)

lemma pack_field_bits:
  assumes "field_ok (length st) (length buf) f"
  shows "\<exists>buf'. pack_field f st buf = Some buf' \<and> length buf' = length buf \<and>
    (\<forall>i. bitat buf' i = (if wire_pos f \<le> i \<and> i < wire_pos f + size_bits f
        then struct_size_bytes f \<noteq> 0 \<and> bitat st (struct_pos f + (i - wire_pos f)) else bitat buf i))"
proof (cases "size_bits f \<le> 64")
  case True
  note ok = short_field [OF assms True]
  let ?b = "if size_bits f \<le> 32 then 4 else 8"
  obtain val where val: "(if struct_size_bytes f \<noteq> 0
      then value_read (struct_offset_bytes f) (struct_size_bytes f) st else Some 0) = Some val"
    and vb: "\<And>j. j < size_bits f \<Longrightarrow> bit val j = (struct_size_bytes f \<noteq> 0 \<and> bitat st (struct_pos f + (size_bits f - 1 - j)))"
    using field_value [OF assms True] by blast
  obtain buf' where p: "pack_word (8 * ?b) (4 * offset_words f) (size_bits f) (8 * ?b - offset_bits f - size_bits f) val buf = Some buf'"
    "length buf' = length buf"
    and bits: "\<And>i. bitat buf' i = (if wire_pos f \<le> i \<and> i < wire_pos f + size_bits f
        then bit val (wire_pos f + size_bits f - 1 - i) else bitat buf i)"
    using pack_word_bits [OF ok, of val] by (auto simp: wire_pos_def)
  have "size_bits f - 1 - (wire_pos f + size_bits f - 1 - i) = i - wire_pos f" "wire_pos f + size_bits f - 1 - i < size_bits f"
    if "wire_pos f \<le> i \<and> i < wire_pos f + size_bits f" for i
    using that by auto
  with bits vb have "bitat buf' i = (if wire_pos f \<le> i \<and> i < wire_pos f + size_bits f
        then struct_size_bytes f \<noteq> 0 \<and> bitat st (struct_pos f + (i - wire_pos f)) else bitat buf i)" for i
    by simp
  moreover have "pack_field f st buf = Some buf'"
    using True ok(3) p(1) val by (cases "size_bits f \<le> 32") (auto simp: pack_field_def)
  ultimately show ?thesis using p(2) by blast
next
  case False
  note ok = long_field [OF assms False]
  show ?thesis
    using mem_zero_bits [OF ok(1)] mem_copy_bits [OF ok(4) ok(1)] False ok(2,3,5)
    by (cases "struct_size_bytes f = 0") (auto simp: pack_field_def add_mult_distrib2)
qed

text \<open>
  The fields for which \<open>ib_unpack\<close> reads where \<open>ib_pack\<close> writes: all but those of 33 to 64 bits away
  from the start of the buffer.
\<close>

definition same_address :: "ib_field \<Rightarrow> bool" where
  "same_address f \<longleftrightarrow> size_bits f \<le> 32 \<or> 64 < size_bits f \<or> offset_words f = 0"

lemma unpack_word_bits:
  assumes "addr + b \<le> length buf" "b \<le> 8" "ob + n \<le> 8 * b"
  shows "\<exists>v. unpack_word (8 * b) addr n (8 * b - ob - n) buf = Some v \<and>
    (\<forall>j. bit v j = (j < n \<and> bitat buf (8 * addr + ob + n - 1 - j)))"
proof -
  let ?s = "8 * b - ob - n"
  obtain w where w: "be_get b addr buf = Some w" using be_get_total [OF assms(1)] by blast
  note wb = be_get_bits(2) [OF w assms(2)]
  have "bit (drop_bit ?s (w AND field_mask n ?s)) j = (j < n \<and> bitat buf (8 * addr + ob + n - 1 - j))" for j
  proof -
    have "8 * addr + 8 * b - 1 - (?s + j) = 8 * addr + ob + n - 1 - j" using assms(3) by simp
    then show ?thesis
      using wb [of "?s + j"] bit_field_mask [of n ?s "?s + j"] assms(2,3)
      by (auto simp: bit_drop_bit_eq bit_and_iff)
  qed
  with w show ?thesis by (simp add: unpack_word_def)
qed

lemma unpack_field_bits:
  assumes "field_ok (length st) (length buf) f" "same_address f"
  shows "\<exists>st'. unpack_field f buf st = Some st' \<and> length st' = length st \<and>
    (\<forall>j. bitat st' j = (if 8 * struct_offset_bytes f \<le> j \<and> j < 8 * (struct_offset_bytes f + struct_size_bytes f)
        then struct_pos f \<le> j \<and> bitat buf (wire_pos f + (j - struct_pos f)) else bitat st j))"
proof (cases "struct_size_bytes f = 0")
  case True
  then show ?thesis by (auto simp: unpack_field_def)
next
  case nz: False
  show ?thesis
  proof (cases "size_bits f \<le> 64")
    case True
    note ok = short_field [OF assms(1) True]
    let ?b = "if size_bits f \<le> 32 then 4 else 8"
    have sz: "struct_size_bytes f \<in> {1, 2, 4, 8}" "struct_offset_bytes f + struct_size_bytes f \<le> length st"
      "struct_size_bytes f \<le> 8" "size_bits f \<le> 8 * struct_size_bytes f"
      using assms(1) nz True by (auto simp: field_ok_def)
    have addr: "(if size_bits f \<le> 32 then 4 * offset_words f else 8 * offset_words f) = 4 * offset_words f"
      using assms(2) True by (auto simp: same_address_def)
    obtain v where v: "unpack_word (8 * ?b) (4 * offset_words f) (size_bits f) (8 * ?b - offset_bits f - size_bits f) buf = Some v"
      and vb: "\<And>j. bit v j = (j < size_bits f \<and> bitat buf (wire_pos f + size_bits f - 1 - j))"
      using unpack_word_bits [OF ok] by (auto simp: wire_pos_def)
    obtain st' where p: "be_put (struct_size_bytes f) (struct_offset_bytes f) v st = Some st'" "length st' = length st"
      and bits: "\<And>i. bitat st' i = (if 8 * struct_offset_bytes f \<le> i \<and> i < 8 * (struct_offset_bytes f + struct_size_bytes f)
        then bit v (8 * (struct_offset_bytes f + struct_size_bytes f) - 1 - i) else bitat st i)"
      using be_put_bits [OF sz(2,3), of v] by blast
    have "8 * (struct_offset_bytes f + struct_size_bytes f) - 1 - j < size_bits f \<longleftrightarrow> struct_pos f \<le> j"
      "struct_pos f \<le> j \<Longrightarrow> wire_pos f + size_bits f - 1 - (8 * (struct_offset_bytes f + struct_size_bytes f) - 1 - j) =
        wire_pos f + (j - struct_pos f)"
      if "8 * struct_offset_bytes f \<le> j \<and> j < 8 * (struct_offset_bytes f + struct_size_bytes f)" for j
      using that sz(4) by (auto simp: struct_pos_def)
    with bits vb have "bitat st' j = (if 8 * struct_offset_bytes f \<le> j \<and> j < 8 * (struct_offset_bytes f + struct_size_bytes f)
        then struct_pos f \<le> j \<and> bitat buf (wire_pos f + (j - struct_pos f)) else bitat st j)" for j
      by auto
    moreover have "unpack_field f buf st = Some st'"
      using True nz ok(3) v p(1) sz(1) addr by (cases "size_bits f \<le> 32") (auto simp: unpack_field_def value_write_def)
    ultimately show ?thesis using p(2) by blast
  next
    case False
    note ok = long_field [OF assms(1) False]
    show ?thesis
      using mem_copy_bits [OF ok(1) ok(4) [OF nz]] nz False ok(2,3) ok(5,6) [OF nz]
      by (auto simp: unpack_field_def add_mult_distrib2)
  qed
qed

section \<open>Tables of fields\<close>

definition on_wire :: "ib_field \<Rightarrow> nat \<Rightarrow> bool" where
  "on_wire f i \<longleftrightarrow> wire_pos f \<le> i \<and> i < wire_pos f + size_bits f"

definition in_struct :: "ib_field \<Rightarrow> nat \<Rightarrow> bool" where
  "in_struct f j \<longleftrightarrow> 8 * struct_offset_bytes f \<le> j \<and> j < 8 * (struct_offset_bytes f + struct_size_bytes f)"

text \<open>Fields that overlap neither on the wire nor in the structure (reserved ones have no member).\<close>

definition apart :: "ib_field \<Rightarrow> ib_field \<Rightarrow> bool" where
  "apart f g \<longleftrightarrow>
     (wire_pos f + size_bits f \<le> wire_pos g \<or> wire_pos g + size_bits g \<le> wire_pos f) \<and>
     (struct_size_bytes f = 0 \<or> struct_size_bytes g = 0 \<or>
      struct_offset_bytes f + struct_size_bytes f \<le> struct_offset_bytes g \<or>
      struct_offset_bytes g + struct_size_bytes g \<le> struct_offset_bytes f)"

definition table_ok :: "nat \<Rightarrow> nat \<Rightarrow> ib_field list \<Rightarrow> bool" where
  "table_ok sl bl desc \<longleftrightarrow> (\<forall>f\<in>set desc. field_ok sl bl f) \<and> sorted_wrt apart desc"

lemma apart_on_wire: "apart f g \<Longrightarrow> on_wire f i \<Longrightarrow> \<not> on_wire g i"
  by (auto simp: apart_def on_wire_def)

lemma apart_in_struct: "apart f g \<Longrightarrow> in_struct f j \<Longrightarrow> \<not> in_struct g j"
  by (auto simp: apart_def in_struct_def)

lemma ib_pack_bits:
  assumes "table_ok (length st) (length buf) desc"
  shows "\<exists>buf'. ib_pack desc st buf = Some buf' \<and> length buf' = length buf \<and>
    (\<forall>f\<in>set desc. \<forall>i. on_wire f i \<longrightarrow>
       bitat buf' i = (struct_size_bytes f \<noteq> 0 \<and> bitat st (struct_pos f + (i - wire_pos f)))) \<and>
    (\<forall>i. (\<forall>f\<in>set desc. \<not> on_wire f i) \<longrightarrow> bitat buf' i = bitat buf i)"
  using assms
proof (induction desc arbitrary: buf)
  case (Cons f desc)
  from Cons.prems have f: "field_ok (length st) (length buf) f" and ap: "\<forall>g\<in>set desc. apart f g"
    and rest: "table_ok (length st) (length buf) desc"
    by (auto simp: table_ok_def)
  obtain buf1 where b1: "pack_field f st buf = Some buf1" "length buf1 = length buf"
    "\<And>i. bitat buf1 i = (if on_wire f i then struct_size_bytes f \<noteq> 0 \<and> bitat st (struct_pos f + (i - wire_pos f)) else bitat buf i)"
    using pack_field_bits [OF f] by (auto simp: on_wire_def)
  from rest b1(2) have "table_ok (length st) (length buf1) desc" by simp
  from Cons.IH [OF this] obtain buf' where b: "ib_pack desc st buf1 = Some buf'" "length buf' = length buf1"
    "\<And>g i. g \<in> set desc \<Longrightarrow> on_wire g i \<Longrightarrow>
       bitat buf' i = (struct_size_bytes g \<noteq> 0 \<and> bitat st (struct_pos g + (i - wire_pos g)))"
    "\<And>i. (\<forall>g\<in>set desc. \<not> on_wire g i) \<Longrightarrow> bitat buf' i = bitat buf1 i"
    by blast
  have "bitat buf' i = (struct_size_bytes f \<noteq> 0 \<and> bitat st (struct_pos f + (i - wire_pos f)))" if "on_wire f i" for i
    using b(4) [of i] b1(3) [of i] ap apart_on_wire that by auto
  then show ?case using b b1 by (intro exI [of _ buf']) auto
qed simp

lemma ib_unpack_bits:
  assumes "table_ok (length st) (length buf) desc" "\<forall>f\<in>set desc. same_address f"
  shows "\<exists>st'. ib_unpack desc buf st = Some st' \<and> length st' = length st \<and>
    (\<forall>f\<in>set desc. \<forall>j. in_struct f j \<longrightarrow>
       bitat st' j = (struct_pos f \<le> j \<and> bitat buf (wire_pos f + (j - struct_pos f)))) \<and>
    (\<forall>j. (\<forall>f\<in>set desc. \<not> in_struct f j) \<longrightarrow> bitat st' j = bitat st j)"
  using assms
proof (induction desc arbitrary: st)
  case (Cons f desc)
  from Cons.prems have f: "field_ok (length st) (length buf) f" "same_address f" and ap: "\<forall>g\<in>set desc. apart f g"
    and rest: "table_ok (length st) (length buf) desc"
    by (auto simp: table_ok_def)
  obtain st1 where s1: "unpack_field f buf st = Some st1" "length st1 = length st"
    "\<And>j. bitat st1 j = (if in_struct f j then struct_pos f \<le> j \<and> bitat buf (wire_pos f + (j - struct_pos f)) else bitat st j)"
    using unpack_field_bits [OF f] by (auto simp: in_struct_def)
  from rest s1(2) have "table_ok (length st1) (length buf) desc" by simp
  from Cons.IH [OF this] Cons.prems(2) obtain st' where s: "ib_unpack desc buf st1 = Some st'" "length st' = length st1"
    "\<And>g j. g \<in> set desc \<Longrightarrow> in_struct g j \<Longrightarrow>
       bitat st' j = (struct_pos g \<le> j \<and> bitat buf (wire_pos g + (j - struct_pos g)))"
    "\<And>j. (\<forall>g\<in>set desc. \<not> in_struct g j) \<Longrightarrow> bitat st' j = bitat st1 j"
    by auto
  have "bitat st' j = (struct_pos f \<le> j \<and> bitat buf (wire_pos f + (j - struct_pos f)))" if "in_struct f j" for j
    using s(4) [of j] s1(3) [of j] ap apart_in_struct that by auto
  then show ?case using s s1 by (intro exI [of _ st']) auto
qed simp

text \<open>The value of a member, and the bytes of a long one, as unpacking what was packed leaves them.\<close>

lemma word_of_bits:
  fixes v v' :: u64
  assumes "\<And>j. bit v' j = (j < n \<and> bit v j)"
  shows "v' = take_bit n v"
  by (rule bit_word_eqI) (simp add: assms bit_take_bit_iff)

lemma bytes_of_bits:
  assumes "length xs = length ys" "\<And>i. i < 8 * length xs \<Longrightarrow> bitat xs i = bitat ys i"
  shows "xs = ys"
proof (rule nth_equalityI)
  fix k assume k: "k < length xs"
  show "xs ! k = ys ! k"
  proof (rule bit_word_eqI)
    fix j assume "j < LENGTH(8)"
    with assms(2) [of "8 * k + 7 - j"] k show "bit (xs ! k) j = bit (ys ! k) j"
      by (simp add: byte_of_bit)
  qed
qed (fact assms(1))

definition member :: "ib_field \<Rightarrow> u8 list \<Rightarrow> u8 list" where
  "member f st = take (struct_size_bytes f) (drop (struct_offset_bytes f) st)"

definition fits :: "ib_field \<Rightarrow> u8 list \<Rightarrow> bool" where
  "fits f st \<longleftrightarrow> (\<forall>j. j < struct_pos f \<and> 8 * struct_offset_bytes f \<le> j \<longrightarrow> \<not> bitat st j)"

lemma member_eq:
  assumes "struct_offset_bytes f + struct_size_bytes f \<le> length st" "length st' = length st"
    and "\<And>j. in_struct f j \<Longrightarrow> bitat st' j = bitat st j"
  shows "member f st' = member f st"
  using assms
  by (intro bytes_of_bits) (auto simp: member_def bitat_take bitat_drop in_struct_def add_mult_distrib2)

lemma pack_unpack_bits:
  assumes "table_ok (length st) (length buf) desc" "\<forall>f\<in>set desc. same_address f" "length st0 = length st"
  shows "\<exists>buf' st'. ib_pack desc st buf = Some buf' \<and> length buf' = length buf \<and>
    ib_unpack desc buf' st0 = Some st' \<and> length st' = length st \<and>
    (\<forall>f\<in>set desc. \<forall>j. in_struct f j \<longrightarrow> bitat st' j = (struct_pos f \<le> j \<and> bitat st j)) \<and>
    (\<forall>j. (\<forall>f\<in>set desc. \<not> in_struct f j) \<longrightarrow> bitat st' j = bitat st0 j)"
proof -
  obtain buf' where b: "ib_pack desc st buf = Some buf'" "length buf' = length buf"
    "\<And>f i. f \<in> set desc \<Longrightarrow> on_wire f i \<Longrightarrow>
       bitat buf' i = (struct_size_bytes f \<noteq> 0 \<and> bitat st (struct_pos f + (i - wire_pos f)))"
    using ib_pack_bits [OF assms(1)] by blast
  have ok: "table_ok (length st0) (length buf') desc" using assms(1,3) b(2) by simp
  obtain st' where s: "ib_unpack desc buf' st0 = Some st'" "length st' = length st0"
    "\<And>f j. f \<in> set desc \<Longrightarrow> in_struct f j \<Longrightarrow>
       bitat st' j = (struct_pos f \<le> j \<and> bitat buf' (wire_pos f + (j - struct_pos f)))"
    "\<And>j. (\<forall>f\<in>set desc. \<not> in_struct f j) \<Longrightarrow> bitat st' j = bitat st0 j"
    using ib_unpack_bits [OF ok assms(2)] by blast
  have "bitat st' j = (struct_pos f \<le> j \<and> bitat st j)" if f: "f \<in> set desc" and j: "in_struct f j" for f j
  proof (cases "struct_pos f \<le> j")
    case True
    have sz: "size_bits f \<le> 8 * struct_size_bytes f"
      using assms(1) f j by (auto simp: table_ok_def field_ok_def in_struct_def)
    have "struct_size_bytes f \<noteq> 0" using j by (auto simp: in_struct_def)
    moreover have "on_wire f (wire_pos f + (j - struct_pos f))"
      using True j sz by (auto simp: on_wire_def in_struct_def struct_pos_def)
    ultimately show ?thesis using b(3) [OF f, of "wire_pos f + (j - struct_pos f)"] s(3) [OF f j] True by simp
  next
    case False
    then show ?thesis using s(3) [OF f j] by simp
  qed
  then show ?thesis using b(1,2) s assms(3) by (intro exI [of _ buf'] exI [of _ st'] conjI) auto
qed

section \<open>Properties\<close>

text \<open>
  Packing a structure by a table of fields that fit and do not overlap stays inside the buffer and
  puts every field in its place on the wire: the bits of the field are the low \<open>size_bits\<close> bits of
  its member, the most significant one first, and zeros for a reserved field; all other bits of
  the buffer keep their value.
\<close>
theorem ib_pack_wire:
  assumes "table_ok (length st) (length buf) desc"
  shows "\<exists>buf'. ib_pack desc st buf = Some buf' \<and> length buf' = length buf \<and>
    (\<forall>f\<in>set desc. \<forall>k < size_bits f. bitat buf' (wire_pos f + k) = (struct_size_bytes f \<noteq> 0 \<and> bitat st (struct_pos f + k))) \<and>
    (\<forall>i. (\<forall>f\<in>set desc. \<not> (wire_pos f \<le> i \<and> i < wire_pos f + size_bits f)) \<longrightarrow> bitat buf' i = bitat buf i)"
proof -
  obtain buf' where b: "ib_pack desc st buf = Some buf'" "length buf' = length buf"
    "\<And>f i. f \<in> set desc \<Longrightarrow> on_wire f i \<Longrightarrow>
       bitat buf' i = (struct_size_bytes f \<noteq> 0 \<and> bitat st (struct_pos f + (i - wire_pos f)))"
    "\<And>i. (\<forall>f\<in>set desc. \<not> on_wire f i) \<Longrightarrow> bitat buf' i = bitat buf i"
    using ib_pack_bits [OF assms] by blast
  have "bitat buf' (wire_pos f + k) = (struct_size_bytes f \<noteq> 0 \<and> bitat st (struct_pos f + k))"
    if "f \<in> set desc" "k < size_bits f" for f k
    using b(3) [of f "wire_pos f + k"] that by (simp add: on_wire_def)
  with b(1,2,4) show ?thesis unfolding on_wire_def by blast
qed

definition sample_table :: "ib_field list" where
  "sample_table =
     [\<lparr>struct_offset_bytes = 0, struct_size_bytes = 1, offset_words = 0, offset_bits = 0, size_bits = 4\<rparr>,
      \<lparr>struct_offset_bytes = 0, struct_size_bytes = 0, offset_words = 0, offset_bits = 4, size_bits = 4\<rparr>,
      \<lparr>struct_offset_bytes = 1, struct_size_bytes = 2, offset_words = 0, offset_bits = 8, size_bits = 16\<rparr>]"

lemma sample_table_ok:
  "length st = 3 \<Longrightarrow> length buf = 4 \<Longrightarrow> table_ok (length st) (length buf) sample_table"
  "\<forall>f\<in>set sample_table. same_address f"
  by (simp_all add: sample_table_def table_ok_def field_ok_def apart_def wire_pos_def same_address_def)

theorem ib_pack_wire_witness:
  "\<exists>buf'. ib_pack sample_table [0x0a, 0x12, 0x34] [0xff, 0xff, 0xff, 0xff] = Some buf' \<and> bitat buf' 31"
proof -
  have off: "\<forall>f\<in>set sample_table. \<not> (wire_pos f \<le> 31 \<and> 31 < wire_pos f + size_bits f)"
    by (simp add: sample_table_def wire_pos_def)
  have "table_ok (length [0x0a :: u8, 0x12, 0x34]) (length [0xff :: u8, 0xff, 0xff, 0xff]) sample_table"
    by (rule sample_table_ok(1)) simp_all
  from ib_pack_wire [OF this] off have "\<exists>buf'. ib_pack sample_table [0x0a, 0x12, 0x34] [0xff, 0xff, 0xff, 0xff] = Some buf' \<and>
      bitat buf' 31 = bitat [0xff, 0xff, 0xff, 0xff] 31" by blast
  then show ?thesis by (simp add: bitat_def)
qed

text \<open>
  C23. Unpacking inverts packing for tables without fields of 33 to 64 bits beyond the first word: every
  member comes back reduced to the bits its field carries, so unchanged when it fits, and the rest
  of the structure unpacked into keeps its contents.
\<close>
theorem ib_pack_unpack_roundtrip:
  assumes "table_ok (length st) (length buf) desc" "\<forall>f\<in>set desc. same_address f" "length st0 = length st"
  shows "\<exists>buf' st'. ib_pack desc st buf = Some buf' \<and> ib_unpack desc buf' st0 = Some st' \<and> length st' = length st \<and>
    (\<forall>f\<in>set desc. \<forall>j. 8 * struct_offset_bytes f \<le> j \<and> j < 8 * (struct_offset_bytes f + struct_size_bytes f) \<longrightarrow>
       bitat st' j = (struct_pos f \<le> j \<and> bitat st j)) \<and>
    (\<forall>f\<in>set desc. fits f st \<longrightarrow> member f st' = member f st) \<and>
    (\<forall>j. (\<forall>f\<in>set desc. \<not> in_struct f j) \<longrightarrow> bitat st' j = bitat st0 j)"
proof -
  obtain buf' st' where p: "ib_pack desc st buf = Some buf'" "ib_unpack desc buf' st0 = Some st'" "length st' = length st"
    and bits: "\<And>f j. f \<in> set desc \<Longrightarrow> in_struct f j \<Longrightarrow> bitat st' j = (struct_pos f \<le> j \<and> bitat st j)"
    and frame: "\<And>j. (\<forall>f\<in>set desc. \<not> in_struct f j) \<Longrightarrow> bitat st' j = bitat st0 j"
    using pack_unpack_bits [OF assms] by blast
  have "member f st' = member f st" if f: "f \<in> set desc" "fits f st" for f
  proof (cases "struct_size_bytes f = 0")
    case False
    show ?thesis
    proof (rule member_eq)
      show "struct_offset_bytes f + struct_size_bytes f \<le> length st"
        using assms(1) f(1) False by (auto simp: table_ok_def field_ok_def)
      fix j assume "in_struct f j"
      with bits [OF f(1) this] f(2) show "bitat st' j = bitat st j" by (auto simp: fits_def in_struct_def)
    qed (fact p(3))
  qed (simp add: member_def)
  with p bits frame show ?thesis unfolding in_struct_def by blast
qed

theorem ib_pack_unpack_roundtrip_witness:
  "\<exists>buf' st'. ib_pack sample_table [0x0a, 0x12, 0x34] [0, 0, 0, 0] = Some buf' \<and>
     ib_unpack sample_table buf' [0, 0, 0] = Some st' \<and> length st' = 3"
proof -
  have ok: "table_ok (length [0x0a :: u8, 0x12, 0x34]) (length [0 :: u8, 0, 0, 0]) sample_table"
    by (rule sample_table_ok(1)) simp_all
  have "length [0 :: u8, 0, 0] = length [0x0a :: u8, 0x12, 0x34]" "length [0x0a :: u8, 0x12, 0x34] = 3" by simp_all
  with ib_pack_unpack_roundtrip [OF ok sample_table_ok(2) this(1)] show ?thesis by metis
qed

text \<open>
  A field of 33 to 64 bits that is not in the first word is packed at one address and unpacked from
  another: \<open>ib_unpack\<close> multiplies the word offset by eight bytes instead of four. In a 12-byte buffer
  where the field packed at word 1 fits, unpacking it reads past the end.
\<close>
theorem ib_unpack_wide_field:
  assumes "32 < size_bits f" "size_bits f \<le> 64" "offset_bits f + size_bits f \<le> 64" "struct_size_bytes f = 8"
    and "offset_words f = 1" "struct_offset_bytes f = 0" "length st = 8" "length buf = 12"
  shows "(\<exists>buf'. ib_pack [f] st buf = Some buf' \<and> ib_unpack [f] buf' st = None)"
proof -
  have "field_ok (length st) (length buf) f" using assms by (simp add: field_ok_def)
  then obtain buf' where "pack_field f st buf = Some buf'" "length buf' = length buf"
    using pack_field_bits by blast
  moreover from this have "unpack_field f buf' st = None"
    using assms by (simp add: unpack_field_def unpack_word_def be_get_def)
  ultimately show ?thesis by simp
qed

theorem ib_unpack_wide_field_witness:
  "\<exists>buf'. ib_pack [\<lparr>struct_offset_bytes = 0, struct_size_bytes = 8, offset_words = 1, offset_bits = 0, size_bits = 64\<rparr>]
     (replicate 8 1) (replicate 12 0) = Some buf' \<and>
   ib_unpack [\<lparr>struct_offset_bytes = 0, struct_size_bytes = 8, offset_words = 1, offset_bits = 0, size_bits = 64\<rparr>]
     buf' (replicate 8 1) = None"
  using ib_unpack_wide_field [of "\<lparr>struct_offset_bytes = 0, struct_size_bytes = 8, offset_words = 1, offset_bits = 0, size_bits = 64\<rparr>"
      "replicate 8 1" "replicate 12 0"] by simp

end
