(* ===== verification/Ud_Header.thy ===== *)
theory Ud_Header
  imports Ib_Packer
begin

text \<open>
  The headers of unreliable-datagram packets, \<open>drivers/infiniband/core/ud_header.c\<close>: the field tables of the
  LRH, Ethernet, VLAN, IPv4, UDP, GRH, BTH and DETH headers over the structures of
  \<open>include/rdma/ib_pack.h\<close>, and \<open>ib_ud_header_init\<close>, \<open>ib_ud_header_pack\<close> and \<open>ib_ud_header_unpack\<close>, which
  drive \<open>ib_pack\<close> and \<open>ib_unpack\<close> with them.

  A structure is its memory image. Its members and their sizes and alignments are listed as the C
  declarations have them; \<open>offsetof\<close> computes the offsets by the alignment rule of the C ABI. The
  results: each table describes its header completely, without gaps or overlaps, and an InfiniBand
  header that was initialised and packed is unpacked to the same fields.
\<close>

section \<open>Structures\<close>

type_synonym c_struct = "(string \<times> nat \<times> nat) list"

fun offsetof_from :: "nat \<Rightarrow> c_struct \<Rightarrow> string \<Rightarrow> nat \<times> nat" where
  "offsetof_from off [] name = (0, 0)"
| "offsetof_from off ((m, sz, al) # ms) name =
     (let off' = (off + al - 1) div al * al in
      if m = name then (off', sz) else offsetof_from (off' + sz) ms name)"

definition offsetof :: "c_struct \<Rightarrow> string \<Rightarrow> nat" where
  "offsetof s name = fst (offsetof_from 0 s name)"

definition sizeof_field :: "c_struct \<Rightarrow> string \<Rightarrow> nat" where
  "sizeof_field s name = snd (offsetof_from 0 s name)"

fun sizeof_from :: "nat \<Rightarrow> nat \<Rightarrow> c_struct \<Rightarrow> nat" where
  "sizeof_from off al [] = (off + al - 1) div al * al"
| "sizeof_from off al ((m, sz, a) # ms) = sizeof_from ((off + a - 1) div a * a + sz) (max al a) ms"

definition sizeof_struct :: "c_struct \<Rightarrow> nat" where
  "sizeof_struct = sizeof_from 0 1"

definition ib_unpacked_lrh :: c_struct where
  "ib_unpacked_lrh = [
     (''virtual_lane'', 1, 1), (''link_version'', 1, 1), (''service_level'', 1, 1),
     (''link_next_header'', 1, 1), (''destination_lid'', 2, 2), (''packet_length'', 2, 2),
     (''source_lid'', 2, 2)]"

definition ib_unpacked_grh :: c_struct where
  "ib_unpacked_grh = [
     (''ip_version'', 1, 1), (''traffic_class'', 1, 1), (''flow_label'', 4, 4),
     (''payload_length'', 2, 2), (''next_header'', 1, 1), (''hop_limit'', 1, 1),
     (''source_gid'', 16, 8), (''destination_gid'', 16, 8)]"

definition ib_unpacked_bth :: c_struct where
  "ib_unpacked_bth = [
     (''opcode'', 1, 1), (''solicited_event'', 1, 1), (''mig_req'', 1, 1),
     (''pad_count'', 1, 1), (''transport_header_version'', 1, 1), (''pkey'', 2, 2),
     (''destination_qpn'', 4, 4), (''ack_req'', 1, 1), (''psn'', 4, 4)]"

definition ib_unpacked_deth :: c_struct where
  "ib_unpacked_deth = [
     (''qkey'', 4, 4), (''source_qpn'', 4, 4)]"

definition ib_unpacked_eth :: c_struct where
  "ib_unpacked_eth = [
     (''dmac_h'', 4, 1), (''dmac_l'', 2, 1), (''smac_h'', 2, 1),
     (''smac_l'', 4, 1), (''type'', 2, 2)]"

definition ib_unpacked_ip4 :: c_struct where
  "ib_unpacked_ip4 = [
     (''ver'', 1, 1), (''hdr_len'', 1, 1), (''tos'', 1, 1),
     (''tot_len'', 2, 2), (''id'', 2, 2), (''frag_off'', 2, 2),
     (''ttl'', 1, 1), (''protocol'', 1, 1), (''check'', 2, 2),
     (''saddr'', 4, 4), (''daddr'', 4, 4)]"

definition ib_unpacked_udp :: c_struct where
  "ib_unpacked_udp = [
     (''sport'', 2, 2), (''dport'', 2, 2), (''length'', 2, 2),
     (''csum'', 2, 2)]"

definition ib_unpacked_vlan :: c_struct where
  "ib_unpacked_vlan = [
     (''tag'', 2, 2), (''type'', 2, 2)]"

text \<open>Reading and writing a member of up to eight bytes of an image.\<close>

definition get_member :: "c_struct \<Rightarrow> string \<Rightarrow> u8 list \<Rightarrow> u64" where
  "get_member s name img = (case be_get (sizeof_field s name) (offsetof s name) img of Some v \<Rightarrow> v | None \<Rightarrow> 0)"

definition set_member :: "c_struct \<Rightarrow> string \<Rightarrow> nat \<Rightarrow> u8 list \<Rightarrow> u8 list" where
  "set_member s name v img =
     (case be_put (sizeof_field s name) (offsetof s name) (of_nat v) img of Some img' \<Rightarrow> img' | None \<Rightarrow> img)"

section \<open>Field tables\<close>

definition STRUCT_FIELD :: "c_struct \<Rightarrow> string \<Rightarrow> nat \<Rightarrow> nat \<Rightarrow> nat \<Rightarrow> ib_field" where
  "STRUCT_FIELD s name w ob n =
     \<lparr>struct_offset_bytes = offsetof s name, struct_size_bytes = sizeof_field s name,
      offset_words = w, offset_bits = ob, size_bits = n\<rparr>"

definition RESERVED :: "nat \<Rightarrow> nat \<Rightarrow> nat \<Rightarrow> ib_field" where
  "RESERVED w ob n =
     \<lparr>struct_offset_bytes = 0, struct_size_bytes = 0, offset_words = w, offset_bits = ob, size_bits = n\<rparr>"

definition lrh_table :: "ib_field list" where
  "lrh_table = [
     STRUCT_FIELD ib_unpacked_lrh ''virtual_lane'' 0 0 4,
     STRUCT_FIELD ib_unpacked_lrh ''link_version'' 0 4 4,
     STRUCT_FIELD ib_unpacked_lrh ''service_level'' 0 8 4,
     RESERVED 0 12 2,
     STRUCT_FIELD ib_unpacked_lrh ''link_next_header'' 0 14 2,
     STRUCT_FIELD ib_unpacked_lrh ''destination_lid'' 0 16 16,
     RESERVED 1 0 5,
     STRUCT_FIELD ib_unpacked_lrh ''packet_length'' 1 5 11,
     STRUCT_FIELD ib_unpacked_lrh ''source_lid'' 1 16 16]"

definition eth_table :: "ib_field list" where
  "eth_table = [
     STRUCT_FIELD ib_unpacked_eth ''dmac_h'' 0 0 32,
     STRUCT_FIELD ib_unpacked_eth ''dmac_l'' 1 0 16,
     STRUCT_FIELD ib_unpacked_eth ''smac_h'' 1 16 16,
     STRUCT_FIELD ib_unpacked_eth ''smac_l'' 2 0 32,
     STRUCT_FIELD ib_unpacked_eth ''type'' 3 0 16]"

definition vlan_table :: "ib_field list" where
  "vlan_table = [
     STRUCT_FIELD ib_unpacked_vlan ''tag'' 0 0 16,
     STRUCT_FIELD ib_unpacked_vlan ''type'' 0 16 16]"

definition ip4_table :: "ib_field list" where
  "ip4_table = [
     STRUCT_FIELD ib_unpacked_ip4 ''ver'' 0 0 4,
     STRUCT_FIELD ib_unpacked_ip4 ''hdr_len'' 0 4 4,
     STRUCT_FIELD ib_unpacked_ip4 ''tos'' 0 8 8,
     STRUCT_FIELD ib_unpacked_ip4 ''tot_len'' 0 16 16,
     STRUCT_FIELD ib_unpacked_ip4 ''id'' 1 0 16,
     STRUCT_FIELD ib_unpacked_ip4 ''frag_off'' 1 16 16,
     STRUCT_FIELD ib_unpacked_ip4 ''ttl'' 2 0 8,
     STRUCT_FIELD ib_unpacked_ip4 ''protocol'' 2 8 8,
     STRUCT_FIELD ib_unpacked_ip4 ''check'' 2 16 16,
     STRUCT_FIELD ib_unpacked_ip4 ''saddr'' 3 0 32,
     STRUCT_FIELD ib_unpacked_ip4 ''daddr'' 4 0 32]"

definition udp_table :: "ib_field list" where
  "udp_table = [
     STRUCT_FIELD ib_unpacked_udp ''sport'' 0 0 16,
     STRUCT_FIELD ib_unpacked_udp ''dport'' 0 16 16,
     STRUCT_FIELD ib_unpacked_udp ''length'' 1 0 16,
     STRUCT_FIELD ib_unpacked_udp ''csum'' 1 16 16]"

definition grh_table :: "ib_field list" where
  "grh_table = [
     STRUCT_FIELD ib_unpacked_grh ''ip_version'' 0 0 4,
     STRUCT_FIELD ib_unpacked_grh ''traffic_class'' 0 4 8,
     STRUCT_FIELD ib_unpacked_grh ''flow_label'' 0 12 20,
     STRUCT_FIELD ib_unpacked_grh ''payload_length'' 1 0 16,
     STRUCT_FIELD ib_unpacked_grh ''next_header'' 1 16 8,
     STRUCT_FIELD ib_unpacked_grh ''hop_limit'' 1 24 8,
     STRUCT_FIELD ib_unpacked_grh ''source_gid'' 2 0 128,
     STRUCT_FIELD ib_unpacked_grh ''destination_gid'' 6 0 128]"

definition bth_table :: "ib_field list" where
  "bth_table = [
     STRUCT_FIELD ib_unpacked_bth ''opcode'' 0 0 8,
     STRUCT_FIELD ib_unpacked_bth ''solicited_event'' 0 8 1,
     STRUCT_FIELD ib_unpacked_bth ''mig_req'' 0 9 1,
     STRUCT_FIELD ib_unpacked_bth ''pad_count'' 0 10 2,
     STRUCT_FIELD ib_unpacked_bth ''transport_header_version'' 0 12 4,
     STRUCT_FIELD ib_unpacked_bth ''pkey'' 0 16 16,
     RESERVED 1 0 8,
     STRUCT_FIELD ib_unpacked_bth ''destination_qpn'' 1 8 24,
     STRUCT_FIELD ib_unpacked_bth ''ack_req'' 2 0 1,
     RESERVED 2 1 7,
     STRUCT_FIELD ib_unpacked_bth ''psn'' 2 8 24]"

definition deth_table :: "ib_field list" where
  "deth_table = [
     STRUCT_FIELD ib_unpacked_deth ''qkey'' 0 0 32,
     RESERVED 1 0 8,
     STRUCT_FIELD ib_unpacked_deth ''source_qpn'' 1 8 24]"

section \<open>The headers of a packet\<close>

definition IB_LRH_BYTES :: nat where "IB_LRH_BYTES = 8"
definition IB_ETH_BYTES :: nat where "IB_ETH_BYTES = 14"
definition IB_VLAN_BYTES :: nat where "IB_VLAN_BYTES = 4"
definition IB_GRH_BYTES :: nat where "IB_GRH_BYTES = 40"
definition IB_IP4_BYTES :: nat where "IB_IP4_BYTES = 20"
definition IB_UDP_BYTES :: nat where "IB_UDP_BYTES = 8"
definition IB_BTH_BYTES :: nat where "IB_BTH_BYTES = 12"
definition IB_DETH_BYTES :: nat where "IB_DETH_BYTES = 8"

lemmas ib_bytes_defs = IB_LRH_BYTES_def IB_ETH_BYTES_def IB_VLAN_BYTES_def IB_GRH_BYTES_def IB_IP4_BYTES_def
  IB_UDP_BYTES_def IB_BTH_BYTES_def IB_DETH_BYTES_def

definition IB_LNH_IBA_LOCAL :: nat where "IB_LNH_IBA_LOCAL = 2"
definition IB_LNH_IBA_GLOBAL :: nat where "IB_LNH_IBA_GLOBAL = 3"
definition IB_OPCODE_UD_SEND_ONLY :: nat where "IB_OPCODE_UD_SEND_ONLY = 0x60 + 0x04"
definition IB_OPCODE_UD_SEND_ONLY_WITH_IMMEDIATE :: nat where
  "IB_OPCODE_UD_SEND_ONLY_WITH_IMMEDIATE = 0x60 + 0x05"
definition ETH_P_8021Q :: nat where "ETH_P_8021Q = 0x8100"
definition IPPROTO_UDP :: nat where "IPPROTO_UDP = 17"

record ib_ud_header =
  lrh_present :: bool
  lrh :: "u8 list"
  eth_present :: bool
  eth :: "u8 list"
  vlan_present :: bool
  vlan :: "u8 list"
  grh_present :: bool
  grh :: "u8 list"
  ipv4_present :: bool
  ip4 :: "u8 list"
  udp_present :: bool
  udp :: "u8 list"
  bth :: "u8 list"
  deth :: "u8 list"
  immediate_present :: bool
  immediate_data :: "u8 list"

definition zero_image :: "c_struct \<Rightarrow> u8 list" where
  "zero_image s = replicate (sizeof_struct s) 0"

definition zero_ud_header :: ib_ud_header where
  "zero_ud_header =
     \<lparr>lrh_present = False, lrh = zero_image ib_unpacked_lrh, eth_present = False, eth = zero_image ib_unpacked_eth,
      vlan_present = False, vlan = zero_image ib_unpacked_vlan, grh_present = False, grh = zero_image ib_unpacked_grh,
      ipv4_present = False, ip4 = zero_image ib_unpacked_ip4, udp_present = False, udp = zero_image ib_unpacked_udp,
      bth = zero_image ib_unpacked_bth, deth = zero_image ib_unpacked_deth,
      immediate_present = False, immediate_data = replicate 4 0\<rparr>"

text \<open>
  \<open>ib_ud_header_init\<close>. The lengths are stored in 16-bit members, which keep their low 16 bits; \<open>& ~3\<close> and
  the division by four round up to whole words.
\<close>

definition ib_ud_header_init ::
  "nat \<Rightarrow> bool \<Rightarrow> bool \<Rightarrow> bool \<Rightarrow> bool \<Rightarrow> nat \<Rightarrow> bool \<Rightarrow> bool \<Rightarrow> ib_ud_header result" where
  "ib_ud_header_init payload_bytes lrh_p eth_p vlan_p grh_p ip_version udp_p immediate_p =
     (let udp_bytes = (if udp_p then IB_UDP_BYTES else 0);
          grh_p = (grh_p \<and> ip_version = 0);
          h0 = zero_ud_header in
      if udp_p \<and> ip_version \<noteq> 4 \<and> ip_version \<noteq> 6 then Inl EINVAL
      else
        let h1 = (if lrh_p then h0\<lparr>lrh := set_member ib_unpacked_lrh ''packet_length''
                      ((IB_LRH_BYTES + IB_BTH_BYTES + IB_DETH_BYTES + (if grh_p then IB_GRH_BYTES else 0) +
                        payload_bytes + 4 + 3) div 4)
                    (set_member ib_unpacked_lrh ''link_next_header''
                      (if grh_p then IB_LNH_IBA_GLOBAL else IB_LNH_IBA_LOCAL)
                      (set_member ib_unpacked_lrh ''link_version'' 0 (lrh h0)))\<rparr> else h0);
            h2 = (if vlan_p then h1\<lparr>eth := set_member ib_unpacked_eth ''type'' ETH_P_8021Q (eth h1)\<rparr> else h1);
            h3 = (if ip_version = 6 \<or> grh_p then h2\<lparr>grh :=
                    set_member ib_unpacked_grh ''next_header'' (if udp_p then IPPROTO_UDP else 0x1b)
                    (set_member ib_unpacked_grh ''payload_length''
                      ((udp_bytes + IB_BTH_BYTES + IB_DETH_BYTES + payload_bytes + 4 + 3) div 4 * 4)
                    (set_member ib_unpacked_grh ''ip_version'' 6 (grh h2)))\<rparr> else h2);
            h4 = (if ip_version = 4 then h3\<lparr>ip4 :=
                    set_member ib_unpacked_ip4 ''protocol'' IPPROTO_UDP
                    (set_member ib_unpacked_ip4 ''tot_len''
                      (IB_IP4_BYTES + udp_bytes + IB_BTH_BYTES + IB_DETH_BYTES + payload_bytes + 4)
                    (set_member ib_unpacked_ip4 ''hdr_len'' 5
                    (set_member ib_unpacked_ip4 ''ver'' 4 (ip4 h3))))\<rparr> else h3);
            h5 = (if udp_p \<and> ip_version \<noteq> 0 then h4\<lparr>udp :=
                    set_member ib_unpacked_udp ''length''
                      (IB_UDP_BYTES + IB_BTH_BYTES + IB_DETH_BYTES + payload_bytes + 4) (udp h4)\<rparr> else h4);
            h6 = h5\<lparr>bth :=
                    set_member ib_unpacked_bth ''transport_header_version'' 0
                    (set_member ib_unpacked_bth ''pad_count'' (nat ((4 - int payload_bytes) mod 4))
                    (set_member ib_unpacked_bth ''opcode''
                      (if immediate_p then IB_OPCODE_UD_SEND_ONLY_WITH_IMMEDIATE else IB_OPCODE_UD_SEND_ONLY)
                      (bth h5)))\<rparr>
        in Inr (h6\<lparr>lrh_present := lrh_p, eth_present := eth_p, vlan_present := vlan_p,
                   grh_present := (grh_p \<or> ip_version = 6), ipv4_present := (ip_version = 4),
                   udp_present := udp_p, immediate_present := immediate_p\<rparr>))"

text \<open>Packing one header at \<open>buf + len\<close>.\<close>

definition pack_at :: "ib_field list \<Rightarrow> u8 list \<Rightarrow> nat \<Rightarrow> nat \<times> u8 list \<Rightarrow> (nat \<times> u8 list) option" where
  "pack_at table structure bytes = (\<lambda>(len, buf).
     if length buf < len then None
     else do { tail \<leftarrow> ib_pack table structure (drop len buf); Some (len + bytes, take len buf @ tail) })"

definition pack_if :: "bool \<Rightarrow> ib_field list \<Rightarrow> u8 list \<Rightarrow> nat \<Rightarrow> nat \<times> u8 list \<Rightarrow> (nat \<times> u8 list) option" where
  "pack_if present table structure bytes p = (if present then pack_at table structure bytes p else Some p)"

definition ib_ud_header_pack :: "ib_ud_header \<Rightarrow> u8 list \<Rightarrow> (nat \<times> u8 list) option" where
  "ib_ud_header_pack header buf = do {
     p \<leftarrow> pack_if (lrh_present header) lrh_table (lrh header) IB_LRH_BYTES (0, buf);
     p \<leftarrow> pack_if (eth_present header) eth_table (eth header) IB_ETH_BYTES p;
     p \<leftarrow> pack_if (vlan_present header) vlan_table (vlan header) IB_VLAN_BYTES p;
     p \<leftarrow> pack_if (grh_present header) grh_table (grh header) IB_GRH_BYTES p;
     p \<leftarrow> pack_if (ipv4_present header) ip4_table (ip4 header) IB_IP4_BYTES p;
     p \<leftarrow> pack_if (udp_present header) udp_table (udp header) IB_UDP_BYTES p;
     p \<leftarrow> pack_at bth_table (bth header) IB_BTH_BYTES p;
     p \<leftarrow> pack_at deth_table (deth header) IB_DETH_BYTES p;
     (if immediate_present header then do {
        buf' \<leftarrow> mem_copy 4 0 (immediate_data header) (fst p) (snd p);
        Some (fst p + 4, buf') }
      else Some p) }"

text \<open>\<open>ib_ud_header_unpack\<close>: the return value (\<open>None\<close> for success) and the header as it was left.\<close>

definition ib_ud_header_unpack :: "u8 list \<Rightarrow> ib_ud_header \<Rightarrow> (errno option \<times> ib_ud_header) option" where
  "ib_ud_header_unpack buf header = do {
     l \<leftarrow> ib_unpack lrh_table buf (lrh header);
     (let h1 = header\<lparr>lrh := l\<rparr>; lnh = get_member ib_unpacked_lrh ''link_next_header'' l;
          buf1 = drop IB_LRH_BYTES buf in
      if get_member ib_unpacked_lrh ''link_version'' l \<noteq> 0 then Some (Some EINVAL, h1)
      else do {
        (err, h2, buf2) \<leftarrow>
          (if lnh = of_nat IB_LNH_IBA_LOCAL then Some (None, h1\<lparr>grh_present := False\<rparr>, buf1)
           else if lnh = of_nat IB_LNH_IBA_GLOBAL then do {
             g \<leftarrow> ib_unpack grh_table buf1 (grh h1);
             (let hg = h1\<lparr>grh_present := True, grh := g\<rparr> in
              if get_member ib_unpacked_grh ''ip_version'' g \<noteq> 6 then Some (Some EINVAL, hg, buf1)
              else if get_member ib_unpacked_grh ''next_header'' g \<noteq> 0x1b then Some (Some EINVAL, hg, buf1)
              else Some (None, hg, drop IB_GRH_BYTES buf1)) }
           else Some (Some EINVAL, h1, buf1));
        (if err \<noteq> None then Some (err, h2)
         else do {
           b \<leftarrow> ib_unpack bth_table buf2 (bth h2);
           (let h3 = h2\<lparr>bth := b\<rparr>; opcode = get_member ib_unpacked_bth ''opcode'' b in
            if opcode \<noteq> of_nat IB_OPCODE_UD_SEND_ONLY \<and> opcode \<noteq> of_nat IB_OPCODE_UD_SEND_ONLY_WITH_IMMEDIATE
            then Some (Some EINVAL, h3)
            else let h4 = h3\<lparr>immediate_present := (opcode = of_nat IB_OPCODE_UD_SEND_ONLY_WITH_IMMEDIATE)\<rparr> in
            if get_member ib_unpacked_bth ''transport_header_version'' b \<noteq> 0 then Some (Some EINVAL, h4)
            else do {
              d \<leftarrow> ib_unpack deth_table (drop IB_BTH_BYTES buf2) (deth h4);
              (let h5 = h4\<lparr>deth := d\<rparr>; buf3 = drop IB_DETH_BYTES (drop IB_BTH_BYTES buf2) in
               if immediate_present h5 then do {
                 i \<leftarrow> mem_copy 4 0 buf3 0 (immediate_data h5);
                 Some (None, h5\<lparr>immediate_data := i\<rparr>) }
               else Some (None, h5)) }) }) }) }"

text \<open>\<open>ib_ud_ip4_csum\<close>: the checksum, by \<open>ip_fast_csum\<close>, of the IPv4 header with a zero checksum.\<close>

definition iphdr_image :: "u8 list \<Rightarrow> u8 list" where
  "iphdr_image h =
     [0x45] @ be_bytes 1 (get_member ib_unpacked_ip4 ''tos'' h) @ be_bytes 2 (get_member ib_unpacked_ip4 ''tot_len'' h) @
     be_bytes 2 (get_member ib_unpacked_ip4 ''id'' h) @ be_bytes 2 (get_member ib_unpacked_ip4 ''frag_off'' h) @
     be_bytes 1 (get_member ib_unpacked_ip4 ''ttl'' h) @ be_bytes 1 (get_member ib_unpacked_ip4 ''protocol'' h) @
     [0, 0] @ be_bytes 4 (get_member ib_unpacked_ip4 ''saddr'' h) @ be_bytes 4 (get_member ib_unpacked_ip4 ''daddr'' h)"

definition ib_ud_ip4_csum :: "(u8 list \<Rightarrow> nat \<Rightarrow> u16) \<Rightarrow> ib_ud_header \<Rightarrow> u16" where
  "ib_ud_ip4_csum ip_fast_csum header = ip_fast_csum (iphdr_image (ip4 header)) 5"

section \<open>The tables describe their headers\<close>

lemmas ib_unpacked_defs = ib_unpacked_lrh_def ib_unpacked_grh_def ib_unpacked_bth_def ib_unpacked_deth_def
  ib_unpacked_eth_def ib_unpacked_ip4_def ib_unpacked_udp_def ib_unpacked_vlan_def

lemmas layout_defs = ib_unpacked_defs STRUCT_FIELD_def RESERVED_def offsetof_def sizeof_field_def

lemma lrh_table_ok: "table_ok 10 8 lrh_table" "\<forall>f\<in>set lrh_table. same_address f"
  by (simp_all add: lrh_table_def layout_defs table_ok_def field_ok_def apart_def wire_pos_def same_address_def)

lemma eth_table_ok: "table_ok 14 16 eth_table" "\<forall>f\<in>set eth_table. same_address f"
  by (simp_all add: eth_table_def layout_defs table_ok_def field_ok_def apart_def wire_pos_def same_address_def)

lemma vlan_table_ok: "table_ok 4 4 vlan_table" "\<forall>f\<in>set vlan_table. same_address f"
  by (simp_all add: vlan_table_def layout_defs table_ok_def field_ok_def apart_def wire_pos_def same_address_def)

lemma ip4_table_ok: "table_ok 24 20 ip4_table" "\<forall>f\<in>set ip4_table. same_address f"
  by (simp_all add: ip4_table_def layout_defs table_ok_def field_ok_def apart_def wire_pos_def same_address_def)

lemma udp_table_ok: "table_ok 8 8 udp_table" "\<forall>f\<in>set udp_table. same_address f"
  by (simp_all add: udp_table_def layout_defs table_ok_def field_ok_def apart_def wire_pos_def same_address_def)

lemma grh_table_ok: "table_ok 48 40 grh_table" "\<forall>f\<in>set grh_table. same_address f"
  by (simp_all add: grh_table_def layout_defs table_ok_def field_ok_def apart_def wire_pos_def same_address_def)

lemma bth_table_ok: "table_ok 20 12 bth_table" "\<forall>f\<in>set bth_table. same_address f"
  by (simp_all add: bth_table_def layout_defs table_ok_def field_ok_def apart_def wire_pos_def same_address_def)

lemma deth_table_ok: "table_ok 8 8 deth_table" "\<forall>f\<in>set deth_table. same_address f"
  by (simp_all add: deth_table_def layout_defs table_ok_def field_ok_def apart_def wire_pos_def same_address_def)

lemma sizeof_structs:
  "sizeof_struct ib_unpacked_lrh = 10" "sizeof_struct ib_unpacked_eth = 14" "sizeof_struct ib_unpacked_vlan = 4"
  "sizeof_struct ib_unpacked_ip4 = 24" "sizeof_struct ib_unpacked_udp = 8" "sizeof_struct ib_unpacked_grh = 48"
  "sizeof_struct ib_unpacked_bth = 20" "sizeof_struct ib_unpacked_deth = 8"
  by code_simp+

section \<open>Packing one header after the other\<close>

text \<open>The buffer carries, from byte \<open>len\<close> on, the fields of a structure.\<close>

definition carries :: "ib_field list \<Rightarrow> u8 list \<Rightarrow> nat \<Rightarrow> u8 list \<Rightarrow> bool" where
  "carries table st len buf \<longleftrightarrow> (\<forall>f\<in>set table. \<forall>i. on_wire f i \<longrightarrow>
     bitat buf (8 * len + i) = (struct_size_bytes f \<noteq> 0 \<and> bitat st (struct_pos f + (i - wire_pos f))))"

definition same_members :: "ib_field list \<Rightarrow> u8 list \<Rightarrow> u8 list \<Rightarrow> bool" where
  "same_members table st st' \<longleftrightarrow> length st = length st' \<and> (\<forall>f\<in>set table. member f st = member f st')"

lemma field_ok_mono: "field_ok sl bl f \<Longrightarrow> bl \<le> bl' \<Longrightarrow> field_ok sl bl' f"
  by (auto simp: field_ok_def)

lemma table_ok_mono: "table_ok sl bl t \<Longrightarrow> bl \<le> bl' \<Longrightarrow> table_ok sl bl' t"
  by (auto simp: table_ok_def field_ok_mono)

lemma table_ok_wire:
  assumes "table_ok sl bl t" "f \<in> set t" "on_wire f i"
  shows "i < 8 * bl"
proof -
  have ok: "field_ok sl bl f" using assms(1,2) by (simp add: table_ok_def)
  have i: "i < wire_pos f + size_bits f" using assms(3) by (simp add: on_wire_def)
  show ?thesis
  proof (cases "size_bits f \<le> 64")
    case True
    with short_field [OF ok True] i show ?thesis by (auto simp: wire_pos_def split: if_splits)
  next
    case False
    have "wire_pos f + size_bits f = 8 * (offset_words f * 4 + offset_bits f div 8 + size_bits f div 8)"
      using long_field(2,3) [OF ok False] by (simp add: add_mult_distrib2)
    with long_field(1) [OF ok False] i show ?thesis by simp
  qed
qed

lemma pack_at_bits:
  assumes "table_ok (length st) bytes t" "len + bytes \<le> length buf"
  shows "\<exists>buf'. pack_at t st bytes (len, buf) = Some (len + bytes, buf') \<and> length buf' = length buf \<and>
    carries t st len buf' \<and> (\<forall>i. i < 8 * len \<or> 8 * (len + bytes) \<le> i \<longrightarrow> bitat buf' i = bitat buf i)"
proof -
  have "table_ok (length st) (length (drop len buf)) t" using table_ok_mono [OF assms(1)] assms(2) by simp
  from ib_pack_bits [OF this] obtain tail where p: "ib_pack t st (drop len buf) = Some tail" "length tail = length buf - len"
    and on: "\<And>f i. f \<in> set t \<Longrightarrow> on_wire f i \<Longrightarrow>
       bitat tail i = (struct_size_bytes f \<noteq> 0 \<and> bitat st (struct_pos f + (i - wire_pos f)))"
    and off: "\<And>i. (\<forall>f\<in>set t. \<not> on_wire f i) \<Longrightarrow> bitat tail i = bitat (drop len buf) i"
    by auto
  let ?buf' = "take len buf @ tail"
  have "carries t st len ?buf'"
    using on assms(2) by (simp add: carries_def bitat_append min_absorb2)
  moreover have "bitat ?buf' i = bitat buf i" if "i < 8 * len \<or> 8 * (len + bytes) \<le> i" for i
  proof (cases "i < 8 * len")
    case True
    then show ?thesis using assms(2) by (simp add: bitat_append bitat_take min_absorb2)
  next
    case False
    with that have "8 * bytes \<le> i - 8 * len" by auto
    then have "\<forall>f\<in>set t. \<not> on_wire f (i - 8 * len)" using table_ok_wire [OF assms(1)] by fastforce
    with off [of "i - 8 * len"] False assms(2) show ?thesis
      by (simp add: bitat_append bitat_drop min_absorb2)
  qed
  ultimately show ?thesis using p assms(2) by (intro exI [of _ ?buf']) (auto simp: pack_at_def)
qed

lemma carries_frame:
  assumes "carries t st len buf" "table_ok sl bytes t" "\<And>i. 8 * len \<le> i \<Longrightarrow> i < 8 * (len + bytes) \<Longrightarrow> bitat buf' i = bitat buf i"
  shows "carries t st len buf'"
proof -
  have "bitat buf' (8 * len + i) = bitat buf (8 * len + i)" if "f \<in> set t" "on_wire f i" for f i
    using assms(3) [of "8 * len + i"] table_ok_wire [OF assms(2) that] by simp
  with assms(1) show ?thesis by (simp add: carries_def)
qed

lemma unpack_carries:
  assumes "carries t st len buf" "table_ok (length st) bytes t" "\<forall>f\<in>set t. same_address f \<and> fits f st"
    and "len + bytes \<le> length buf" "length st0 = length st"
  shows "\<exists>st'. ib_unpack t (drop len buf) st0 = Some st' \<and> same_members t st' st"
proof -
  have "table_ok (length st0) (length (drop len buf)) t" using table_ok_mono [OF assms(2)] assms(4,5) by simp
  then obtain st' where s: "ib_unpack t (drop len buf) st0 = Some st'" "length st' = length st"
    and bits: "\<And>f j. f \<in> set t \<Longrightarrow> in_struct f j \<Longrightarrow>
       bitat st' j = (struct_pos f \<le> j \<and> bitat (drop len buf) (wire_pos f + (j - struct_pos f)))"
    using ib_unpack_bits [of st0 "drop len buf" t] assms(3,5) by auto
  have "member f st' = member f st" if f: "f \<in> set t" for f
  proof (cases "struct_size_bytes f = 0")
    case False
    have ok: "struct_offset_bytes f + struct_size_bytes f \<le> length st" "size_bits f \<le> 8 * struct_size_bytes f"
      using assms(2) f False by (auto simp: table_ok_def field_ok_def)
    show ?thesis
    proof (rule member_eq [OF ok(1) s(2)])
      fix j assume j: "in_struct f j"
      show "bitat st' j = bitat st j"
      proof (cases "struct_pos f \<le> j")
        case True
        have w: "on_wire f (wire_pos f + (j - struct_pos f))"
          using True j ok(2) by (auto simp: on_wire_def in_struct_def struct_pos_def)
        have "bitat buf (8 * len + (wire_pos f + (j - struct_pos f))) = bitat st j"
          using assms(1) [unfolded carries_def, rule_format, OF f w] False True by simp
        with bits [OF f j] True assms(4) show ?thesis by (simp add: bitat_drop)
      next
        case False
        with bits [OF f j] assms(3) f j show ?thesis by (auto simp: fits_def in_struct_def)
      qed
    qed
  qed (simp add: member_def)
  with s show ?thesis by (auto simp: same_members_def)
qed

lemma get_member_same:
  assumes "same_members t st' st" "STRUCT_FIELD s name w ob n \<in> set t"
  shows "get_member s name st' = get_member s name st"
proof -
  have "take (sizeof_field s name) (drop (offsetof s name) st') = take (sizeof_field s name) (drop (offsetof s name) st)"
    "length st' = length st"
    using assms by (auto simp: same_members_def member_def STRUCT_FIELD_def dest!: bspec)
  then show ?thesis by (simp add: get_member_def be_get_def)
qed

section \<open>A header that survives the wire\<close>

text \<open>The images of a header have the sizes of their structures.\<close>

definition ud_sized :: "ib_ud_header \<Rightarrow> bool" where
  "ud_sized h \<longleftrightarrow> length (lrh h) = 10 \<and> length (grh h) = 48 \<and> length (bth h) = 20 \<and> length (deth h) = 8 \<and>
     length (immediate_data h) = 4"

text \<open>
  An InfiniBand header (link header, no Ethernet, IP or UDP header) whose members fit their fields and
  whose constant members have the values of a UD packet.
\<close>

definition ib_ud_valid :: "ib_ud_header \<Rightarrow> bool" where
  "ib_ud_valid h \<longleftrightarrow> ud_sized h \<and> lrh_present h \<and> \<not> eth_present h \<and> \<not> vlan_present h \<and> \<not> ipv4_present h \<and> \<not> udp_present h \<and>
     (\<forall>f\<in>set lrh_table. fits f (lrh h)) \<and> (grh_present h \<longrightarrow> (\<forall>f\<in>set grh_table. fits f (grh h))) \<and>
     (\<forall>f\<in>set bth_table. fits f (bth h)) \<and> (\<forall>f\<in>set deth_table. fits f (deth h)) \<and>
     get_member ib_unpacked_lrh ''link_version'' (lrh h) = 0 \<and>
     get_member ib_unpacked_lrh ''link_next_header'' (lrh h) =
       of_nat (if grh_present h then IB_LNH_IBA_GLOBAL else IB_LNH_IBA_LOCAL) \<and>
     (grh_present h \<longrightarrow> get_member ib_unpacked_grh ''ip_version'' (grh h) = 6 \<and>
        get_member ib_unpacked_grh ''next_header'' (grh h) = 0x1b) \<and>
     get_member ib_unpacked_bth ''opcode'' (bth h) =
       of_nat (if immediate_present h then IB_OPCODE_UD_SEND_ONLY_WITH_IMMEDIATE else IB_OPCODE_UD_SEND_ONLY) \<and>
     get_member ib_unpacked_bth ''transport_header_version'' (bth h) = 0"

definition hdr_len :: "ib_ud_header \<Rightarrow> nat" where
  "hdr_len h = IB_LRH_BYTES + (if grh_present h then IB_GRH_BYTES else 0)"

lemma table_members:
  "STRUCT_FIELD ib_unpacked_lrh ''link_version'' 0 4 4 \<in> set lrh_table"
  "STRUCT_FIELD ib_unpacked_lrh ''link_next_header'' 0 14 2 \<in> set lrh_table"
  "STRUCT_FIELD ib_unpacked_grh ''ip_version'' 0 0 4 \<in> set grh_table"
  "STRUCT_FIELD ib_unpacked_grh ''next_header'' 1 16 8 \<in> set grh_table"
  "STRUCT_FIELD ib_unpacked_bth ''opcode'' 0 0 8 \<in> set bth_table"
  "STRUCT_FIELD ib_unpacked_bth ''transport_header_version'' 0 12 4 \<in> set bth_table"
  by (simp_all add: lrh_table_def grh_table_def bth_table_def)

text \<open>The buffer that packing such a header leaves.\<close>

lemma ib_ud_header_pack_carries:
  assumes "ib_ud_valid h" "72 \<le> length buf"
  shows "\<exists>buf'. ib_ud_header_pack h buf = Some (hdr_len h + 20 + (if immediate_present h then 4 else 0), buf') \<and>
    length buf' = length buf \<and> carries lrh_table (lrh h) 0 buf' \<and>
    (grh_present h \<longrightarrow> carries grh_table (grh h) 8 buf') \<and>
    carries bth_table (bth h) (hdr_len h) buf' \<and> carries deth_table (deth h) (hdr_len h + 12) buf' \<and>
    (immediate_present h \<longrightarrow> take 4 (drop (hdr_len h + 20) buf') = immediate_data h)"
proof -
  let ?L = "hdr_len h"
  have v: "lrh_present h" "\<not> eth_present h" "\<not> vlan_present h" "\<not> ipv4_present h" "\<not> udp_present h"
    "length (lrh h) = 10" "length (grh h) = 48" "length (bth h) = 20" "length (deth h) = 8" "length (immediate_data h) = 4"
    using assms(1) by (auto simp: ib_ud_valid_def ud_sized_def)
  have L: "?L = 8 \<or> ?L = 48" "?L + 24 \<le> length buf" "\<not> grh_present h \<Longrightarrow> ?L = 8" "grh_present h \<Longrightarrow> ?L = 48"
    using assms(2) by (auto simp: hdr_len_def ib_bytes_defs)
  have tok: "table_ok (length (lrh h)) 8 lrh_table" "table_ok (length (grh h)) 40 grh_table"
    "table_ok (length (bth h)) 12 bth_table" "table_ok (length (deth h)) 8 deth_table"
    using v lrh_table_ok grh_table_ok bth_table_ok deth_table_ok by simp_all
  obtain b1 where b1: "pack_at lrh_table (lrh h) 8 (0, buf) = Some (8, b1)" "length b1 = length buf" "carries lrh_table (lrh h) 0 b1"
    using pack_at_bits [OF tok(1), of 0 buf] assms(2) by auto
  obtain b2 where b2: "pack_if (grh_present h) grh_table (grh h) 40 (8, b1) = Some (?L, b2)" "length b2 = length buf"
    "grh_present h \<Longrightarrow> carries grh_table (grh h) 8 b2" "\<And>i. i < 64 \<Longrightarrow> bitat b2 i = bitat b1 i"
  proof (cases "grh_present h")
    case True
    with pack_at_bits [OF tok(2), of 8 b1] assms(2) b1(2) L(4) that show ?thesis by (auto simp: pack_if_def)
  qed (use that [of b1] b1(2) L(3) in \<open>simp add: pack_if_def\<close>)
  obtain b3 where b3: "pack_at bth_table (bth h) 12 (?L, b2) = Some (?L + 12, b3)" "length b3 = length buf"
    "carries bth_table (bth h) ?L b3" "\<And>i. i < 8 * ?L \<Longrightarrow> bitat b3 i = bitat b2 i"
    using pack_at_bits [OF tok(3), of ?L b2] L(2) b2(2) by auto
  obtain b4 where b4: "pack_at deth_table (deth h) 8 (?L + 12, b3) = Some (?L + 20, b4)" "length b4 = length buf"
    "carries deth_table (deth h) (?L + 12) b4" "\<And>i. i < 8 * (?L + 12) \<Longrightarrow> bitat b4 i = bitat b3 i"
    using pack_at_bits [OF tok(4), of "?L + 12" b3] L(2) b3(2) by (auto simp: add.assoc)
  obtain b5 where b5: "(if immediate_present h then do { buf' \<leftarrow> mem_copy 4 0 (immediate_data h) (?L + 20) b4; Some (?L + 24, buf') }
      else Some (?L + 20, b4)) = Some (?L + 20 + (if immediate_present h then 4 else 0), b5)" "length b5 = length buf"
    "\<And>i. i < 8 * (?L + 20) \<Longrightarrow> bitat b5 i = bitat b4 i"
    "immediate_present h \<Longrightarrow> take 4 (drop (?L + 20) b5) = immediate_data h"
  proof (cases "immediate_present h")
    case True
    let ?b5 = "take (?L + 20) b4 @ immediate_data h @ drop (?L + 24) b4"
    have "mem_copy 4 0 (immediate_data h) (?L + 20) b4 = Some ?b5"
      using v(10) L(2) b4(2) by (simp add: mem_copy_def add.commute)
    moreover have "bitat ?b5 i = bitat b4 i" if "i < 8 * (?L + 20)" for i
      using that L(2) b4(2) by (simp add: bitat_append bitat_take min_absorb2)
    ultimately show ?thesis using True that [of ?b5] v(10) L(2) b4(2) by (simp add: min_absorb2)
  qed (use that [of b4] b4(2) in simp)
  have "ib_ud_header_pack h buf = Some (?L + 20 + (if immediate_present h then 4 else 0), b5)"
    using b1(1) b2(1) b3(1) b4(1) b5(1) v(1-5)
    by (cases "immediate_present h")
      (simp_all add: ib_ud_header_pack_def ib_bytes_defs pack_if_def [of True] pack_if_def [of False] add.commute)
  moreover have "carries lrh_table (lrh h) 0 b5"
    by (rule carries_frame [OF b1(3) lrh_table_ok(1)]) (use b2(4) b3(4) b4(4) b5(3) L(1) in auto)
  moreover have "carries grh_table (grh h) 8 b5" if "grh_present h"
    by (rule carries_frame [OF b2(3) [OF that] grh_table_ok(1)]) (use b3(4) b4(4) b5(3) L(4) [OF that] in auto)
  moreover have "carries bth_table (bth h) ?L b5"
    by (rule carries_frame [OF b3(3) bth_table_ok(1)]) (use b4(4) b5(3) in auto)
  moreover have "carries deth_table (deth h) (?L + 12) b5"
    by (rule carries_frame [OF b4(3) deth_table_ok(1)]) (use b5(3) in auto)
  ultimately show ?thesis using b5(2,4) by blast
qed

text \<open>\<open>ib_ud_header_unpack\<close> when every step finds what it expects.\<close>

lemma ib_ud_header_unpack_ok:
  assumes "ib_unpack lrh_table buf (lrh h0) = Some l" "get_member ib_unpacked_lrh ''link_version'' l = 0"
    and "get_member ib_unpacked_lrh ''link_next_header'' l = of_nat (if gp then IB_LNH_IBA_GLOBAL else IB_LNH_IBA_LOCAL)"
    and "gp \<Longrightarrow> ib_unpack grh_table (drop 8 buf) (grh h0) = Some g" "gp \<Longrightarrow> get_member ib_unpacked_grh ''ip_version'' g = 6"
      "gp \<Longrightarrow> get_member ib_unpacked_grh ''next_header'' g = 0x1b"
    and "len = (if gp then 48 else 8)" "ib_unpack bth_table (drop len buf) (bth h0) = Some b"
    and "get_member ib_unpacked_bth ''opcode'' b =
      of_nat (if ip then IB_OPCODE_UD_SEND_ONLY_WITH_IMMEDIATE else IB_OPCODE_UD_SEND_ONLY)"
    and "get_member ib_unpacked_bth ''transport_header_version'' b = 0"
    and "ib_unpack deth_table (drop (len + 12) buf) (deth h0) = Some d"
    and "ip \<Longrightarrow> mem_copy 4 0 (drop (len + 20) buf) 0 (immediate_data h0) = Some im"
  shows "\<exists>h'. ib_ud_header_unpack buf h0 = Some (None, h') \<and> lrh h' = l \<and> grh_present h' = gp \<and> (gp \<longrightarrow> grh h' = g) \<and>
    bth h' = b \<and> deth h' = d \<and> immediate_present h' = ip \<and> (ip \<longrightarrow> immediate_data h' = im)"
  using assms
  by (cases gp; cases ip)
    (simp_all add: ib_ud_header_unpack_def ib_bytes_defs IB_LNH_IBA_GLOBAL_def IB_LNH_IBA_LOCAL_def
      IB_OPCODE_UD_SEND_ONLY_def IB_OPCODE_UD_SEND_ONLY_WITH_IMMEDIATE_def)

section \<open>Properties\<close>

text \<open>
  The field tables of the eight headers are complete: the fields of each fit their wire words and
  structure members, overlap neither on the wire nor in the structure, and together fill exactly
  the bytes of the header; every member of the structures has its field.
\<close>
theorem ud_tables_complete:
  "(\<forall>(t, s, n, room) \<in> {(lrh_table, ib_unpacked_lrh, IB_LRH_BYTES, 8), (eth_table, ib_unpacked_eth, IB_ETH_BYTES, 16),
       (vlan_table, ib_unpacked_vlan, IB_VLAN_BYTES, 4), (ip4_table, ib_unpacked_ip4, IB_IP4_BYTES, 20),
       (udp_table, ib_unpacked_udp, IB_UDP_BYTES, 8), (grh_table, ib_unpacked_grh, IB_GRH_BYTES, 40),
       (bth_table, ib_unpacked_bth, IB_BTH_BYTES, 12), (deth_table, ib_unpacked_deth, IB_DETH_BYTES, 8)}.
     table_ok (sizeof_struct s) room t \<and> sum_list (map size_bits t) = 8 * n \<and>
     (\<forall>f\<in>set t. wire_pos f + size_bits f \<le> 8 * n) \<and>
     map struct_offset_bytes (filter (\<lambda>f. struct_size_bytes f \<noteq> 0) t) = map (offsetof s \<circ> fst) s)"
proof -
  note simps = layout_defs wire_pos_def ib_bytes_defs comp_def
  show ?thesis
    by (simp add: sizeof_structs lrh_table_ok eth_table_ok vlan_table_ok ip4_table_ok udp_table_ok grh_table_ok bth_table_ok
        deth_table_ok)
      (simp add: simps lrh_table_def eth_table_def vlan_table_def ip4_table_def udp_table_def grh_table_def bth_table_def
        deth_table_def)
qed

theorem ud_tables_complete_witness: "table_ok (sizeof_struct ib_unpacked_grh) 40 grh_table"
  using ud_tables_complete by simp

text \<open>
  C37. A valid InfiniBand UD header that is packed into a buffer with room for it is unpacked again without
  an error, to a header with the same members of the LRH, the GRH (when it has one), the BTH and the
  DETH, the same immediate data, and the same flags; the length returned by the packing is that of
  the headers.
\<close>
theorem ud_header_roundtrip:
  assumes "ib_ud_valid h" "72 \<le> length buf" "ud_sized h0"
  shows "\<exists>buf' h'. ib_ud_header_pack h buf =
      Some (IB_LRH_BYTES + (if grh_present h then IB_GRH_BYTES else 0) + IB_BTH_BYTES + IB_DETH_BYTES +
            (if immediate_present h then 4 else 0), buf') \<and>
    ib_ud_header_unpack buf' h0 = Some (None, h') \<and>
    same_members lrh_table (lrh h') (lrh h) \<and> grh_present h' = grh_present h \<and>
    (grh_present h \<longrightarrow> same_members grh_table (grh h') (grh h)) \<and>
    same_members bth_table (bth h') (bth h) \<and> same_members deth_table (deth h') (deth h) \<and>
    immediate_present h' = immediate_present h \<and> (immediate_present h \<longrightarrow> immediate_data h' = immediate_data h)"
proof -
  let ?L = "hdr_len h"
  obtain buf' where p: "ib_ud_header_pack h buf = Some (?L + 20 + (if immediate_present h then 4 else 0), buf')"
      "length buf' = length buf" "carries lrh_table (lrh h) 0 buf'" "grh_present h \<Longrightarrow> carries grh_table (grh h) 8 buf'"
      "carries bth_table (bth h) ?L buf'" "carries deth_table (deth h) (?L + 12) buf'"
      "immediate_present h \<Longrightarrow> take 4 (drop (?L + 20) buf') = immediate_data h"
    using ib_ud_header_pack_carries [OF assms(1,2)] by blast
  have v: "length (lrh h) = 10" "length (grh h) = 48" "length (bth h) = 20" "length (deth h) = 8" "length (immediate_data h) = 4"
    and v0: "length (lrh h0) = 10" "length (grh h0) = 48" "length (bth h0) = 20" "length (deth h0) = 8" "length (immediate_data h0) = 4"
    using assms(1,3) by (simp_all add: ib_ud_valid_def ud_sized_def)
  have f: "\<forall>f\<in>set lrh_table. same_address f \<and> fits f (lrh h)" "\<forall>f\<in>set bth_table. same_address f \<and> fits f (bth h)"
    "\<forall>f\<in>set deth_table. same_address f \<and> fits f (deth h)"
    "grh_present h \<Longrightarrow> \<forall>f\<in>set grh_table. same_address f \<and> fits f (grh h)"
    using assms(1) lrh_table_ok(2) grh_table_ok(2) bth_table_ok(2) deth_table_ok(2) by (auto simp: ib_ud_valid_def)
  have L: "?L + 24 \<le> length buf'" "8 \<le> length buf'" "grh_present h \<Longrightarrow> ?L = 48" "\<not> grh_present h \<Longrightarrow> ?L = 8"
    using assms(2) p(2) by (auto simp: hdr_len_def ib_bytes_defs)
  obtain l where l: "ib_unpack lrh_table buf' (lrh h0) = Some l" "same_members lrh_table l (lrh h)"
    using unpack_carries [OF p(3) _ f(1), of 8 "lrh h0"] lrh_table_ok(1) v v0 L by auto
  obtain g where g: "grh_present h \<Longrightarrow> ib_unpack grh_table (drop 8 buf') (grh h0) = Some g \<and> same_members grh_table g (grh h)"
    using unpack_carries [OF p(4) _ f(4), of 40 "grh h0"] grh_table_ok(1) v v0 L by fastforce
  obtain b where b: "ib_unpack bth_table (drop ?L buf') (bth h0) = Some b" "same_members bth_table b (bth h)"
    using unpack_carries [OF p(5) _ f(2), of 12 "bth h0"] bth_table_ok(1) v v0 L by auto
  obtain d where d: "ib_unpack deth_table (drop (?L + 12) buf') (deth h0) = Some d" "same_members deth_table d (deth h)"
    using unpack_carries [OF p(6) _ f(3), of 8 "deth h0"] deth_table_ok(1) v v0 L by auto
  have im: "immediate_present h \<Longrightarrow> mem_copy 4 0 (drop (?L + 20) buf') 0 (immediate_data h0) = Some (immediate_data h)"
    using p(7) L(1) v0(5) by (simp add: mem_copy_def)
  note gm = get_member_same [OF l(2) table_members(1)] get_member_same [OF l(2) table_members(2)]
    get_member_same [OF b(2) table_members(5)] get_member_same [OF b(2) table_members(6)]
  have gg: "get_member ib_unpacked_grh ''ip_version'' g = get_member ib_unpacked_grh ''ip_version'' (grh h)"
    "get_member ib_unpacked_grh ''next_header'' g = get_member ib_unpacked_grh ''next_header'' (grh h)" if "grh_present h"
    using get_member_same [OF _ table_members(3)] get_member_same [OF _ table_members(4)] g [OF that] by blast+
  have con: "get_member ib_unpacked_lrh ''link_version'' l = 0"
    "get_member ib_unpacked_lrh ''link_next_header'' l = of_nat (if grh_present h then IB_LNH_IBA_GLOBAL else IB_LNH_IBA_LOCAL)"
    "grh_present h \<Longrightarrow> get_member ib_unpacked_grh ''ip_version'' g = 6"
    "grh_present h \<Longrightarrow> get_member ib_unpacked_grh ''next_header'' g = 0x1b"
    "get_member ib_unpacked_bth ''opcode'' b =
      of_nat (if immediate_present h then IB_OPCODE_UD_SEND_ONLY_WITH_IMMEDIATE else IB_OPCODE_UD_SEND_ONLY)"
    "get_member ib_unpacked_bth ''transport_header_version'' b = 0"
    using assms(1) gm gg by (simp_all add: ib_ud_valid_def)
  have len: "?L = (if grh_present h then 48 else 8)" using L(3,4) by simp
  obtain h' where h': "ib_ud_header_unpack buf' h0 = Some (None, h')" "lrh h' = l" "grh_present h' = grh_present h"
      "grh_present h \<Longrightarrow> grh h' = g" "bth h' = b" "deth h' = d" "immediate_present h' = immediate_present h"
      "immediate_present h \<Longrightarrow> immediate_data h' = immediate_data h"
    using ib_ud_header_unpack_ok [OF l(1) con(1,2) _ con(3,4) len b(1) con(5,6) d(1) im] g by blast
  show ?thesis
    using p(1) h' l(2) b(2) d(2) g
    by (intro exI [of _ buf'] exI [of _ h']) (auto simp: hdr_len_def ib_bytes_defs)
qed

lemma fits_code [code]:
  "fits f st = list_all (\<lambda>j. \<not> bitat st j) [8 * struct_offset_bytes f..<struct_pos f]"
  by (auto simp: fits_def list_all_iff)

definition sample_ud :: ib_ud_header where
  "sample_ud = (case ib_ud_header_init 256 True False False True 0 False True of Inr h \<Rightarrow> h | Inl _ \<Rightarrow> zero_ud_header)"

lemma sample_ud_valid: "ib_ud_valid sample_ud"
  by code_simp

theorem ud_header_roundtrip_witness:
  "\<exists>buf' h'. ib_ud_header_pack sample_ud (replicate 72 0) = Some (72, buf') \<and>
     ib_ud_header_unpack buf' zero_ud_header = Some (None, h') \<and> same_members grh_table (grh h') (grh sample_ud)"
proof -
  have "ud_sized zero_ud_header" "grh_present sample_ud" "immediate_present sample_ud" by code_simp+
  with ud_header_roundtrip [OF sample_ud_valid, of "replicate 72 0" zero_ud_header] show ?thesis
    by (auto simp: ib_bytes_defs)
qed

text \<open>Reading members that were written.\<close>

lemma length_set_member [simp]: "length (set_member s name v img) = length img"
  by (auto simp: set_member_def be_put_def split: option.splits)

lemma set_member_bits:
  assumes "sizeof_field s name \<le> 8" "offsetof s name + sizeof_field s name \<le> length img"
  shows "bitat (set_member s name v img) i =
    (if 8 * offsetof s name \<le> i \<and> i < 8 * (offsetof s name + sizeof_field s name)
     then bit (of_nat v :: u64) (8 * (offsetof s name + sizeof_field s name) - 1 - i) else bitat img i)"
  using be_put_bits [OF assms(2,1), of "of_nat v"] by (auto simp: set_member_def)

lemma get_member_bits:
  assumes "sizeof_field s name \<le> 8" "offsetof s name + sizeof_field s name \<le> length img"
  shows "bit (get_member s name img) j =
    (j < 8 * sizeof_field s name \<and> bitat img (8 * offsetof s name + 8 * sizeof_field s name - 1 - j))"
proof -
  obtain v where "be_get (sizeof_field s name) (offsetof s name) img = Some v" using be_get_total [OF assms(2)] by blast
  with be_get_bits(2) [OF this assms(1)] show ?thesis by (simp add: get_member_def)
qed

lemma get_set_member:
  assumes "sizeof_field s name \<le> 8" "offsetof s name + sizeof_field s name \<le> length img"
  shows "get_member s name (set_member s name v img) = take_bit (8 * sizeof_field s name) (of_nat v)"
proof (rule bit_word_eqI)
  fix j :: nat
  let ?o = "offsetof s name" and ?n = "sizeof_field s name"
  have "8 * (?o + ?n) - 1 - (8 * ?o + 8 * ?n - 1 - j) = j" "8 * ?o \<le> 8 * ?o + 8 * ?n - 1 - j" "8 * ?o + 8 * ?n - 1 - j < 8 * (?o + ?n)"
    if "j < 8 * ?n" using that by simp_all
  then show "bit (get_member s name (set_member s name v img)) j = bit (take_bit (8 * ?n) (of_nat v :: u64)) j"
    using assms by (auto simp: get_member_bits set_member_bits bit_take_bit_iff)
qed

lemma get_set_other:
  assumes "sizeof_field s name \<le> 8" "offsetof s name + sizeof_field s name \<le> length img"
    and "sizeof_field s m \<le> 8" "offsetof s m + sizeof_field s m \<le> length img"
    and "offsetof s name + sizeof_field s name \<le> offsetof s m \<or> offsetof s m + sizeof_field s m \<le> offsetof s name"
  shows "get_member s name (set_member s m v img) = get_member s name img"
proof (rule bit_word_eqI)
  fix j :: nat
  show "bit (get_member s name (set_member s m v img)) j = bit (get_member s name img) j"
    using assms by (auto simp: get_member_bits set_member_bits)
qed

lemma unat_take_bit_of_nat: "n < 2 ^ k \<Longrightarrow> k \<le> 64 \<Longrightarrow> unat (take_bit k (of_nat n :: u64)) = n"
proof -
  assume n: "n < 2 ^ k" and k: "k \<le> 64"
  have "(2::nat) ^ k \<le> 2 ^ 64" using k by (rule power_increasing) simp
  with n have "n < 2 ^ 64" by simp
  then have "unat (of_nat n :: u64) = n" by (simp add: unat_of_nat)
  with n show ?thesis by (simp add: unsigned_take_bit_eq take_bit_nat_eq_self)
qed

lemma round_up_4: "(p + 35) div 4 * 4 = p + 32 + nat ((4 - int p) mod 4)"
proof -
  obtain q r where p: "p = 4 * q + r" "r < 4" using div_mod_decomp [of p 4] by (metis mod_less_divisor mult.commute zero_less_numeral)
  have "(4 - int p) mod 4 = ((4 - int r) + 4 * (- int q)) mod 4" by (simp add: p algebra_simps)
  also have "\<dots> = (4 - int r) mod 4" by (rule mod_mult_self2)
  finally have "(4 - int p) mod 4 = (4 - int r) mod 4" .
  moreover have "r = 0 \<or> r = 1 \<or> r = 2 \<or> r = 3" using p(2) by linarith
  ultimately show ?thesis using p(1) by auto
qed

lemma layouts:
  "offsetof ib_unpacked_lrh ''link_version'' = 1" "sizeof_field ib_unpacked_lrh ''link_version'' = 1"
  "offsetof ib_unpacked_lrh ''link_next_header'' = 3" "sizeof_field ib_unpacked_lrh ''link_next_header'' = 1"
  "offsetof ib_unpacked_lrh ''packet_length'' = 6" "sizeof_field ib_unpacked_lrh ''packet_length'' = 2"
  "offsetof ib_unpacked_grh ''ip_version'' = 0" "sizeof_field ib_unpacked_grh ''ip_version'' = 1"
  "offsetof ib_unpacked_grh ''payload_length'' = 8" "sizeof_field ib_unpacked_grh ''payload_length'' = 2"
  "offsetof ib_unpacked_grh ''next_header'' = 10" "sizeof_field ib_unpacked_grh ''next_header'' = 1"
  "offsetof ib_unpacked_bth ''opcode'' = 0" "sizeof_field ib_unpacked_bth ''opcode'' = 1"
  "offsetof ib_unpacked_bth ''pad_count'' = 3" "sizeof_field ib_unpacked_bth ''pad_count'' = 1"
  "offsetof ib_unpacked_bth ''transport_header_version'' = 4" "sizeof_field ib_unpacked_bth ''transport_header_version'' = 1"
  by code_simp+

lemma length_zero_image: "length (zero_image s) = sizeof_struct s"
  by (simp add: zero_image_def)

text \<open>
  The lengths \<open>ib_ud_header_init\<close> computes for an InfiniBand packet without immediate data: the packet
  length of the LRH counts, in words, exactly the headers that \<open>ib_ud_header_pack\<close> packs, the payload, the
  padding to whole words it announces in the BTH, and the invariant CRC; the payload length of the
  GRH is what follows the GRH of it. A UDP header without an IP header is refused.
\<close>
theorem ud_header_init_lengths:
  assumes "p \<le> 8000"
  shows "\<exists>h. ib_ud_header_init p True False False g 0 False False = Inr h \<and> grh_present h = g \<and>
    (let pad = unat (get_member ib_unpacked_bth ''pad_count'' (bth h));
         len = 4 * unat (get_member ib_unpacked_lrh ''packet_length'' (lrh h)) in
     pad < 4 \<and>
     len = IB_LRH_BYTES + (if g then IB_GRH_BYTES else 0) + IB_BTH_BYTES + IB_DETH_BYTES + p + pad + 4 \<and>
     (g \<longrightarrow> unat (get_member ib_unpacked_grh ''payload_length'' (grh h)) + IB_LRH_BYTES + IB_GRH_BYTES = len)) \<and>
    ib_ud_header_init p lp ep vp gp 0 True ip = Inl EINVAL"
proof -
  let ?pad = "nat ((4 - int p) mod 4)"
  have pad: "?pad < 4" by simp
  obtain h where h: "ib_ud_header_init p True False False g 0 False False = Inr h" "grh_present h = g"
    "lrh h = set_member ib_unpacked_lrh ''packet_length'' ((if g then p + 75 else p + 35) div 4)
       (set_member ib_unpacked_lrh ''link_next_header'' (if g then IB_LNH_IBA_GLOBAL else IB_LNH_IBA_LOCAL)
         (set_member ib_unpacked_lrh ''link_version'' 0 (zero_image ib_unpacked_lrh)))"
    "g \<Longrightarrow> grh h = set_member ib_unpacked_grh ''next_header'' 0x1b (set_member ib_unpacked_grh ''payload_length'' ((p + 27) div 4 * 4)
       (set_member ib_unpacked_grh ''ip_version'' 6 (zero_image ib_unpacked_grh)))"
    "bth h = set_member ib_unpacked_bth ''transport_header_version'' 0 (set_member ib_unpacked_bth ''pad_count'' ?pad
       (set_member ib_unpacked_bth ''opcode'' IB_OPCODE_UD_SEND_ONLY (zero_image ib_unpacked_bth)))"
    by (cases g) (simp_all add: ib_ud_header_init_def zero_ud_header_def ib_bytes_defs add.commute)
  have "unat (get_member ib_unpacked_bth ''pad_count'' (bth h)) = ?pad"
    using pad unat_take_bit_of_nat [of ?pad 8]
    by (simp add: h(5) get_set_other get_set_member layouts length_zero_image sizeof_structs)
  moreover have "unat (get_member ib_unpacked_lrh ''packet_length'' (lrh h)) = (if g then p + 75 else p + 35) div 4"
    using assms by (simp add: h(3) get_set_member layouts length_zero_image sizeof_structs unat_take_bit_of_nat)
  moreover have "unat (get_member ib_unpacked_grh ''payload_length'' (grh h)) = (p + 27) div 4 * 4" if g
    using assms unat_take_bit_of_nat [of "(p + 27) div 4 * 4" 16]
    by (simp add: h(4) [OF that] get_set_other get_set_member layouts length_zero_image sizeof_structs)
  moreover have "(p + 27) div 4 * 4 + 48 = (p + 75) div 4 * 4" "(p + 75) div 4 * 4 = (p + 35) div 4 * 4 + 40"
  proof -
    have "(p + 27 + 12 * 4) div 4 = 12 + (p + 27) div 4" "(p + 35 + 10 * 4) div 4 = 10 + (p + 35) div 4"
      by (rule div_mult_self1, simp)+
    moreover have "p + 27 + 12 * 4 = p + 75" "p + 35 + 10 * 4 = p + 75" by simp_all
    ultimately show "(p + 27) div 4 * 4 + 48 = (p + 75) div 4 * 4" "(p + 75) div 4 * 4 = (p + 35) div 4 * 4 + 40"
      by (simp_all only:) simp_all
  qed
  moreover have "ib_ud_header_init p lp ep vp gp 0 True ip = Inl EINVAL" by (simp add: ib_ud_header_init_def)
  ultimately show ?thesis
    using h(1,2) pad round_up_4 [of p] by (cases g) (simp_all add: ib_bytes_defs mult.commute [of 4])
qed

theorem ud_header_init_lengths_witness:
  "\<exists>h. ib_ud_header_init 256 True False False True 0 False False = Inr h \<and>
     4 * unat (get_member ib_unpacked_lrh ''packet_length'' (lrh h)) = 8 + 40 + 12 + 8 + 256 +
       unat (get_member ib_unpacked_bth ''pad_count'' (bth h)) + 4"
  using ud_header_init_lengths [of 256 True False False False False False] by (auto simp: ib_bytes_defs Let_def)

end
