(* ===== verification/Rmpp_Recv.thy ===== *)
theory Rmpp_Recv
  imports Mlx_Prelude "HOL-Library.Multiset"
begin

text \<open>
  The receiving half of the reliable multi-packet protocol of management datagrams
  (\<open>drivers/infiniband/core/mad_rmpp.c\<close>): one reassembly context per message in progress, kept on
  the list of the MAD agent, fed one segment at a time, acknowledged window by window, completed
  when the last segment closes the sequence, and removed by a timeout or a cleanup timer.

  Correspondence.
  \<^item> \<open>rmpp_mad\<close> is \<open>struct ib_rmpp_mad\<close> as the code reads it: the fields of the common header that
    it uses, the RMPP header (multi-byte fields in host order, so \<open>be32_to_cpu\<close> is the identity)
    and the bytes behind it. \<open>ib_mad_recv_wc\<close> is one received datagram with its list of
    reassembled buffers.
  \<^item> \<open>mad_rmpp_recv\<close> is the reassembly context. \<open>cur_seg_buf\<close>, a pointer to a buffer of the list
    \<open>rmpp_wc->rmpp_list\<close>, is the position of that buffer; an insertion in front of it moves it.
    The two delayed works are flags that say whether they are queued.
  \<^item> Each handler is one step of a run, so the runs are those in which the handlers of an agent do not overlap. What
    they send and free is the list of \<open>rmpp_out\<close> they return. In the code the handler of a segment holds the lock of the context and
    the handler of the time-out the lock of the agent, so that the two can overlap; what happens then is the theorem \<open>rmpp_timeout_race\<close>.
  \<^item> The outcomes of the allocator, of the creation of an address handle, of the creation of a
    message and of posting it are the fields of \<open>rmpp_env\<close>, an argument of every handler.
  \<^item> Segment numbers are C \<open>int\<close>, read from an unsigned field by reinterpretation (\<open>sint\<close>).
\<close>

section \<open>Datagrams\<close>

record rmpp_mad =
  mad_base_version :: u8
  mad_mgmt_class :: u8
  mad_class_version :: u8
  mad_method :: u8
  mad_tid :: u64
  rmpp_version :: u8
  rmpp_type :: u8
  rmpp_rtime_flags :: u8
  rmpp_status :: u8
  rmpp_seg_num :: u32
  paylen_newwin :: u32
  mad_data :: "u8 list"

definition IB_MGMT_RMPP_VERSION :: u8 where "IB_MGMT_RMPP_VERSION = 1"
definition IB_MGMT_RMPP_TYPE_DATA :: u8 where "IB_MGMT_RMPP_TYPE_DATA = 1"
definition IB_MGMT_RMPP_TYPE_ACK :: u8 where "IB_MGMT_RMPP_TYPE_ACK = 2"
definition IB_MGMT_RMPP_TYPE_STOP :: u8 where "IB_MGMT_RMPP_TYPE_STOP = 3"
definition IB_MGMT_RMPP_TYPE_ABORT :: u8 where "IB_MGMT_RMPP_TYPE_ABORT = 4"
definition IB_MGMT_RMPP_FLAG_ACTIVE :: u8 where "IB_MGMT_RMPP_FLAG_ACTIVE = 1"
definition IB_MGMT_RMPP_FLAG_FIRST :: u8 where "IB_MGMT_RMPP_FLAG_FIRST = 2"
definition IB_MGMT_RMPP_FLAG_LAST :: u8 where "IB_MGMT_RMPP_FLAG_LAST = 4"
definition IB_MGMT_RMPP_STATUS_RESX :: u8 where "IB_MGMT_RMPP_STATUS_RESX = 1"
definition IB_MGMT_RMPP_STATUS_ABORT_MIN :: u8 where "IB_MGMT_RMPP_STATUS_ABORT_MIN = 118"
definition IB_MGMT_RMPP_STATUS_T2L :: u8 where "IB_MGMT_RMPP_STATUS_T2L = 118"
definition IB_MGMT_RMPP_STATUS_BAD_SEG :: u8 where "IB_MGMT_RMPP_STATUS_BAD_SEG = 120"
definition IB_MGMT_RMPP_STATUS_BADT :: u8 where "IB_MGMT_RMPP_STATUS_BADT = 121"
definition IB_MGMT_RMPP_STATUS_W2S :: u8 where "IB_MGMT_RMPP_STATUS_W2S = 122"
definition IB_MGMT_RMPP_STATUS_S2B :: u8 where "IB_MGMT_RMPP_STATUS_S2B = 123"
definition IB_MGMT_RMPP_STATUS_BAD_STATUS :: u8 where "IB_MGMT_RMPP_STATUS_BAD_STATUS = 124"
definition IB_MGMT_RMPP_STATUS_UNV :: u8 where "IB_MGMT_RMPP_STATUS_UNV = 125"
definition IB_MGMT_RMPP_STATUS_ABORT_MAX :: u8 where "IB_MGMT_RMPP_STATUS_ABORT_MAX = 127"
definition IB_MGMT_METHOD_RESP :: u8 where "IB_MGMT_METHOD_RESP = 0x80"
definition OPA_MGMT_BASE_VERSION :: u8 where "OPA_MGMT_BASE_VERSION = 0x80"

definition IB_MGMT_MAD_HDR :: int where "IB_MGMT_MAD_HDR = 24"
definition IB_MGMT_RMPP_HDR :: int where "IB_MGMT_RMPP_HDR = 36"
definition IB_MGMT_RMPP_DATA :: int where "IB_MGMT_RMPP_DATA = 220"
definition IB_MGMT_VENDOR_HDR :: int where "IB_MGMT_VENDOR_HDR = 40"
definition IB_MGMT_SA_HDR :: int where "IB_MGMT_SA_HDR = 56"
definition IB_MGMT_DEVICE_HDR :: int where "IB_MGMT_DEVICE_HDR = 64"
definition OPA_MGMT_RMPP_DATA :: int where "OPA_MGMT_RMPP_DATA = 2012"

definition ib_get_mad_data_offset :: "u8 \<Rightarrow> int" where
  "ib_get_mad_data_offset mgmt_class =
     (if mgmt_class = 0x03 then IB_MGMT_SA_HDR
      else if mgmt_class = 0x06 \<or> mgmt_class = 0x10 \<or> mgmt_class = 0x12 then IB_MGMT_DEVICE_HDR
      else if 0x30 \<le> mgmt_class \<and> mgmt_class \<le> 0x4F then IB_MGMT_VENDOR_HDR
      else IB_MGMT_MAD_HDR)"

definition ib_is_mad_class_rmpp :: "u8 \<Rightarrow> bool" where
  "ib_is_mad_class_rmpp mgmt_class \<longleftrightarrow>
     mgmt_class = 0x03 \<or> mgmt_class = 0x06 \<or> mgmt_class = 0x10 \<or> mgmt_class = 0x12 \<or>
     (0x30 \<le> mgmt_class \<and> mgmt_class \<le> 0x4F)"

definition ib_get_rmpp_flags :: "rmpp_mad \<Rightarrow> u8" where
  "ib_get_rmpp_flags m = rmpp_rtime_flags m AND 0x7"

definition ib_set_rmpp_flags :: "u8 \<Rightarrow> rmpp_mad \<Rightarrow> rmpp_mad" where
  "ib_set_rmpp_flags flags m =
     m\<lparr>rmpp_rtime_flags := (rmpp_rtime_flags m AND 0xF8) OR (flags AND 0x7)\<rparr>"

record ib_mad_recv_wc =
  recv_mad :: rmpp_mad
  wc_src_qp :: u32
  wc_slid :: u32
  wc_rmpp_list :: "rmpp_mad list"
  wc_mad_len :: int

section \<open>Reassembly contexts\<close>

datatype rmpp_state = RMPP_STATE_ACTIVE | RMPP_STATE_TIMEOUT | RMPP_STATE_COMPLETE

record mad_rmpp_recv =
  timeout_work :: bool
  cleanup_work :: bool
  rr_comp :: bool
  rr_state :: rmpp_state
  rr_refcount :: nat
  rmpp_wc :: ib_mad_recv_wc
  cur_seg_buf :: nat
  last_ack :: int
  seg_num :: int
  newwin :: int
  repwin :: int
  rr_tid :: u64
  rr_src_qp :: u32
  rr_slid :: u32
  rr_mgmt_class :: u8
  rr_class_version :: u8
  rr_method :: u8
  rr_base_version :: u8

record mad_agent =
  recv_max_active :: int  \<comment> \<open>\<open>qp_info->recv_queue.max_active\<close>\<close>
  cap_opa_mad :: bool  \<comment> \<open>\<open>rdma_cap_opa_mad\<close> of the port\<close>
  rmpp_list :: "mad_rmpp_recv list"

record rmpp_env =
  kmalloc_ok :: bool
  create_ah_ok :: bool
  create_send_mad_ok :: bool
  post_send_ok :: bool

datatype rmpp_out =
    Post rmpp_mad  \<comment> \<open>\<open>ib_post_send_mad\<close> took the datagram\<close>
  | Free "rmpp_mad list"  \<comment> \<open>\<open>ib_free_recv_mad\<close> of these buffers\<close>

definition deref_rmpp_recv :: "mad_rmpp_recv \<Rightarrow> mad_rmpp_recv" where
  "deref_rmpp_recv r =
     (if rr_refcount r = 1 then r\<lparr>rr_refcount := 0, rr_comp := True\<rparr>
      else r\<lparr>rr_refcount := rr_refcount r - 1\<rparr>)"

text \<open>The release of a context waits for its completion; \<open>None\<close> is a wait that does not end.\<close>

definition destroy_rmpp_recv :: "mad_rmpp_recv \<Rightarrow> unit option" where
  "destroy_rmpp_recv r = (if rr_comp (deref_rmpp_recv r) then Some () else None)"

definition ib_free_recv_mad :: "ib_mad_recv_wc \<Rightarrow> rmpp_out" where
  "ib_free_recv_mad wc = Free (wc_rmpp_list wc)"

section \<open>Responses\<close>

text \<open>A response starts as a copy of the first \<open>hdr_len\<close> bytes of the datagram it answers.\<close>

definition copy_hdr :: "rmpp_mad \<Rightarrow> rmpp_mad" where
  "copy_hdr m =
     m\<lparr>mad_data := take (nat (ib_get_mad_data_offset (mad_mgmt_class m) - IB_MGMT_RMPP_HDR)) (mad_data m)\<rparr>"

definition format_ack :: "rmpp_mad \<Rightarrow> mad_rmpp_recv \<Rightarrow> rmpp_mad \<times> mad_rmpp_recv" where
  "format_ack data r =
     (let ack = copy_hdr data;
          ack = ack\<lparr>mad_method := mad_method ack XOR IB_MGMT_METHOD_RESP\<rparr>;
          ack = ack\<lparr>rmpp_type := IB_MGMT_RMPP_TYPE_ACK\<rparr>;
          ack = ib_set_rmpp_flags IB_MGMT_RMPP_FLAG_ACTIVE ack;
          r = r\<lparr>last_ack := seg_num r\<rparr>;
          ack = ack\<lparr>rmpp_seg_num := word_of_int (seg_num r), paylen_newwin := word_of_int (newwin r)\<rparr>
      in (ack, r))"

definition ack_recv ::
  "rmpp_env \<Rightarrow> mad_rmpp_recv \<Rightarrow> ib_mad_recv_wc \<Rightarrow> mad_rmpp_recv \<times> rmpp_out list" where
  "ack_recv env r wc =
     (if \<not> create_send_mad_ok env then (r, [])
      else let (msg, r) = format_ack (recv_mad wc) r
           in (r, if post_send_ok env then [Post msg] else []))"

definition alloc_response_msg :: "rmpp_env \<Rightarrow> bool" where
  "alloc_response_msg env \<longleftrightarrow> create_ah_ok env \<and> create_send_mad_ok env"

definition ack_ds_ack :: "rmpp_env \<Rightarrow> ib_mad_recv_wc \<Rightarrow> rmpp_out list" where
  "ack_ds_ack env wc =
     (if \<not> alloc_response_msg env then []
      else let m = copy_hdr (recv_mad wc);
               m = m\<lparr>mad_method := mad_method m XOR IB_MGMT_METHOD_RESP\<rparr>;
               m = ib_set_rmpp_flags IB_MGMT_RMPP_FLAG_ACTIVE m;
               m = m\<lparr>rmpp_seg_num := 0, paylen_newwin := 1\<rparr>
           in if post_send_ok env then [Post m] else [])"

definition nack_recv :: "rmpp_env \<Rightarrow> ib_mad_recv_wc \<Rightarrow> u8 \<Rightarrow> rmpp_out list" where
  "nack_recv env wc status =
     (if \<not> alloc_response_msg env then []
      else let m = copy_hdr (recv_mad wc);
               m = m\<lparr>mad_method := mad_method m XOR IB_MGMT_METHOD_RESP\<rparr>;
               m = m\<lparr>rmpp_version := IB_MGMT_RMPP_VERSION, rmpp_type := IB_MGMT_RMPP_TYPE_ABORT\<rparr>;
               m = ib_set_rmpp_flags IB_MGMT_RMPP_FLAG_ACTIVE m;
               m = m\<lparr>rmpp_status := status, rmpp_seg_num := 0, paylen_newwin := 0\<rparr>
           in if post_send_ok env then [Post m] else [])"

section \<open>The list of contexts\<close>

definition create_rmpp_recv :: "rmpp_env \<Rightarrow> ib_mad_recv_wc \<Rightarrow> mad_rmpp_recv option" where
  "create_rmpp_recv env wc =
     (if \<not> kmalloc_ok env \<or> \<not> create_ah_ok env then None
      else Some \<lparr>timeout_work = False, cleanup_work = False, rr_comp = False,
                 rr_state = RMPP_STATE_ACTIVE, rr_refcount = 1, rmpp_wc = wc, cur_seg_buf = 0,
                 last_ack = 0, seg_num = 1, newwin = 1, repwin = 1,
                 rr_tid = mad_tid (recv_mad wc), rr_src_qp = wc_src_qp wc, rr_slid = wc_slid wc,
                 rr_mgmt_class = mad_mgmt_class (recv_mad wc),
                 rr_class_version = mad_class_version (recv_mad wc),
                 rr_method = mad_method (recv_mad wc),
                 rr_base_version = mad_base_version (recv_mad wc)\<rparr>)"

definition recv_matches :: "ib_mad_recv_wc \<Rightarrow> mad_rmpp_recv \<Rightarrow> bool" where
  "recv_matches wc r \<longleftrightarrow>
     rr_tid r = mad_tid (recv_mad wc) \<and> rr_src_qp r = wc_src_qp wc \<and> rr_slid r = wc_slid wc \<and>
     rr_mgmt_class r = mad_mgmt_class (recv_mad wc) \<and>
     rr_class_version r = mad_class_version (recv_mad wc) \<and> rr_method r = mad_method (recv_mad wc)"

text \<open>A context of the list is named by its position.\<close>

definition find_rmpp_recv :: "mad_agent \<Rightarrow> ib_mad_recv_wc \<Rightarrow> nat option" where
  "find_rmpp_recv a wc = first_ix (recv_matches wc) (rmpp_list a)"

definition set_recv :: "nat \<Rightarrow> mad_rmpp_recv \<Rightarrow> mad_agent \<Rightarrow> mad_agent" where
  "set_recv i r a = a\<lparr>rmpp_list := (rmpp_list a)[i := r]\<rparr>"

definition del_recv :: "nat \<Rightarrow> mad_agent \<Rightarrow> mad_agent" where
  "del_recv i a = a\<lparr>rmpp_list := take i (rmpp_list a) @ drop (Suc i) (rmpp_list a)\<rparr>"

text \<open>The context found, with the reference taken.\<close>

definition acquire_rmpp_recv :: "mad_agent \<Rightarrow> ib_mad_recv_wc \<Rightarrow> (nat \<times> mad_rmpp_recv) option" where
  "acquire_rmpp_recv a wc =
     (case find_rmpp_recv a wc of None \<Rightarrow> None
      | Some i \<Rightarrow> let r = rmpp_list a ! i in Some (i, r\<lparr>rr_refcount := rr_refcount r + 1\<rparr>))"

definition insert_rmpp_recv :: "mad_agent \<Rightarrow> mad_rmpp_recv \<Rightarrow> mad_agent \<times> nat option" where
  "insert_rmpp_recv a r =
     (case find_rmpp_recv a (rmpp_wc r) of
        None \<Rightarrow> (a\<lparr>rmpp_list := rmpp_list a @ [r]\<rparr>, None)
      | Some i \<Rightarrow> (a, Some i))"

section \<open>Segments\<close>

definition get_last_flag :: "rmpp_mad \<Rightarrow> bool" where
  "get_last_flag m \<longleftrightarrow> ib_get_rmpp_flags m AND IB_MGMT_RMPP_FLAG_LAST \<noteq> 0"

definition get_first_flag :: "rmpp_mad \<Rightarrow> bool" where
  "get_first_flag m \<longleftrightarrow> ib_get_rmpp_flags m AND IB_MGMT_RMPP_FLAG_FIRST \<noteq> 0"

definition get_seg_num :: "rmpp_mad \<Rightarrow> int" where
  "get_seg_num m = sint (rmpp_seg_num m)"

definition get_next_seg :: "rmpp_mad list \<Rightarrow> nat \<Rightarrow> nat option" where
  "get_next_seg segs i = (if Suc i < length segs then Some (Suc i) else None)"

definition window_size :: "mad_agent \<Rightarrow> int" where
  "window_size a = max (drop_bit 3 (recv_max_active a)) 1"

text \<open>The search from the end of the list for the buffer to insert behind.\<close>

primrec find_seg_rev :: "rmpp_mad list \<Rightarrow> int \<Rightarrow> nat option" where
  "find_seg_rev [] n = None"
| "find_seg_rev (seg # front) n =
     (if n > get_seg_num seg then Some (length front)
      else if n = get_seg_num seg then None
      else find_seg_rev front n)"

definition find_seg_location :: "rmpp_mad list \<Rightarrow> int \<Rightarrow> nat option" where
  "find_seg_location segs n = find_seg_rev (rev segs) n"

definition rr_segs :: "mad_rmpp_recv \<Rightarrow> rmpp_mad list" where
  "rr_segs r = wc_rmpp_list (rmpp_wc r)"

text \<open>\<open>list_add\<close> of a new buffer behind the buffer at position \<open>p\<close>; \<open>cur_seg_buf\<close> keeps naming the
  buffer it points to.\<close>

definition list_add_seg :: "rmpp_mad \<Rightarrow> nat \<Rightarrow> mad_rmpp_recv \<Rightarrow> mad_rmpp_recv" where
  "list_add_seg m p r =
     r\<lparr>rmpp_wc := (rmpp_wc r)\<lparr>wc_rmpp_list := take (Suc p) (rr_segs r) @ m # drop (Suc p) (rr_segs r)\<rparr>,
       cur_seg_buf := (if cur_seg_buf r \<le> p then cur_seg_buf r else Suc (cur_seg_buf r))\<rparr>"

function update_seg_num :: "mad_rmpp_recv \<Rightarrow> nat option \<Rightarrow> mad_rmpp_recv" where
  "update_seg_num r None = r"
| "update_seg_num r (Some i) =
     (if i < length (rr_segs r) \<and> get_seg_num (rr_segs r ! i) = seg_num r + 1
      then update_seg_num (r\<lparr>cur_seg_buf := i, seg_num := seg_num r + 1\<rparr>) (get_next_seg (rr_segs r) i)
      else r)"
  by pat_completeness auto
termination
  by (relation "measure (\<lambda>(r, b). case b of None \<Rightarrow> 0 | Some i \<Rightarrow> Suc (length (rr_segs r) - i))")
    (auto simp: get_next_seg_def rr_segs_def split: option.splits)

definition pad_of :: "int \<Rightarrow> u32 \<Rightarrow> int" where
  "pad_of data paylen =
     (let pad = sint (word_of_int data - paylen :: u32)
      in if pad > data \<or> pad < 0 then 0 else pad)"

definition get_mad_len :: "mad_agent \<Rightarrow> mad_rmpp_recv \<Rightarrow> int" where
  "get_mad_len a r =
     (let m = rr_segs r ! cur_seg_buf r;
          hdr_size = ib_get_mad_data_offset (mad_mgmt_class m);
          data = (if cap_opa_mad a \<and> rr_base_version r = OPA_MGMT_BASE_VERSION
                  then OPA_MGMT_RMPP_DATA else IB_MGMT_RMPP_DATA);
          data_size = IB_MGMT_RMPP_HDR + data - hdr_size;
          pad = pad_of data (paylen_newwin m)
      in hdr_size + seg_num r * data_size - pad)"

text \<open>The context, what is sent, and the work completion handed to the client.\<close>

definition complete_rmpp ::
  "rmpp_env \<Rightarrow> mad_agent \<Rightarrow> mad_rmpp_recv \<Rightarrow> mad_rmpp_recv \<times> rmpp_out list \<times> ib_mad_recv_wc" where
  "complete_rmpp env a r =
     (let (r, out) = ack_recv env r (rmpp_wc r);
          r = (if seg_num r > 1 then r\<lparr>timeout_work := False\<rparr> else r);
          r = r\<lparr>rmpp_wc := (rmpp_wc r)\<lparr>wc_mad_len := get_mad_len a r\<rparr>\<rparr>;
          r = r\<lparr>cleanup_work := True\<rparr>
      in (r, out, rmpp_wc r))"

section \<open>Handlers\<close>

type_synonym recv_result = "mad_agent \<times> rmpp_out list \<times> ib_mad_recv_wc option"

definition continue_rmpp :: "rmpp_env \<Rightarrow> mad_agent \<Rightarrow> ib_mad_recv_wc \<Rightarrow> recv_result" where
  "continue_rmpp env a wc =
     (case acquire_rmpp_recv a wc of
        None \<Rightarrow> (a, [ib_free_recv_mad wc], None)
      | Some (k, r) \<Rightarrow>
          let n = get_seg_num (recv_mad wc) in
          if rr_state r = RMPP_STATE_TIMEOUT \<or> n > newwin r
          then (set_recv k (deref_rmpp_recv r) a, [ib_free_recv_mad wc], None)
          else if n \<le> last_ack r \<or> rr_state r = RMPP_STATE_COMPLETE
          then let (r, out) = ack_recv env r wc
               in (set_recv k (deref_rmpp_recv r) a, out @ [ib_free_recv_mad wc], None)
          else (case find_seg_location (rr_segs r) n of
              None \<Rightarrow> (set_recv k (deref_rmpp_recv r) a, [ib_free_recv_mad wc], None)
            | Some p \<Rightarrow>
                let cur_is_prev = (cur_seg_buf r = p);
                    r = list_add_seg (recv_mad wc) p r in
                if \<not> cur_is_prev then (set_recv k (deref_rmpp_recv r) a, [], None)
                else let r = update_seg_num r (Some (Suc p)) in
                  if get_last_flag (rr_segs r ! cur_seg_buf r)
                  then let r = r\<lparr>rr_state := RMPP_STATE_COMPLETE\<rparr>;
                           (r, out, done_wc) = complete_rmpp env a r
                       in (set_recv k (deref_rmpp_recv r) a, out, Some done_wc)
                  else if seg_num r = newwin r
                  then let r = r\<lparr>newwin := newwin r + window_size a\<rparr>;
                           (r, out) = ack_recv env r wc
                       in (set_recv k (deref_rmpp_recv r) a, out, None)
                  else (set_recv k (deref_rmpp_recv r) a, [], None)))"

definition start_rmpp :: "rmpp_env \<Rightarrow> mad_agent \<Rightarrow> ib_mad_recv_wc \<Rightarrow> recv_result" where
  "start_rmpp env a wc =
     (case create_rmpp_recv env wc of
        None \<Rightarrow> (a, [ib_free_recv_mad wc], None)
      | Some r \<Rightarrow>
         (case insert_rmpp_recv a r of
            (a, Some _) \<Rightarrow> continue_rmpp env a wc  \<comment> \<open>duplicate first MAD\<close>
          | (a, None) \<Rightarrow>
              let k = length (rmpp_list a) - 1;
                  r = r\<lparr>rr_refcount := rr_refcount r + 1\<rparr> in
              if get_last_flag (recv_mad wc)
              then let r = r\<lparr>rr_state := RMPP_STATE_COMPLETE\<rparr>;
                       (r, out, done_wc) = complete_rmpp env a r
                   in (set_recv k (deref_rmpp_recv r) a, out, Some done_wc)
              else let r = r\<lparr>timeout_work := True\<rparr>;
                       r = r\<lparr>newwin := newwin r + window_size a\<rparr>;
                       (r, out) = ack_recv env r wc
                   in (set_recv k (deref_rmpp_recv r) a, out, None)))"

definition process_rmpp_data :: "rmpp_env \<Rightarrow> mad_agent \<Rightarrow> ib_mad_recv_wc \<Rightarrow> recv_result" where
  "process_rmpp_data env a wc =
     (let bad = (\<lambda>status. (a, nack_recv env wc status @ [ib_free_recv_mad wc], None)) in
      if rmpp_status (recv_mad wc) \<noteq> 0 then bad IB_MGMT_RMPP_STATUS_BAD_STATUS
      else if rmpp_seg_num (recv_mad wc) = 1
      then (if \<not> get_first_flag (recv_mad wc) then bad IB_MGMT_RMPP_STATUS_BAD_SEG
            else start_rmpp env a wc)
      else (if get_first_flag (recv_mad wc) then bad IB_MGMT_RMPP_STATUS_BAD_SEG
            else continue_rmpp env a wc))"

text \<open>
  The timers of the context at position \<open>k\<close>. \<open>None\<close> is a release that would wait for ever.
\<close>

definition recv_timeout_handler :: "rmpp_env \<Rightarrow> mad_agent \<Rightarrow> nat \<Rightarrow> (mad_agent \<times> rmpp_out list) option" where
  "recv_timeout_handler env a k =
     (let r = rmpp_list a ! k in
      if rr_state r \<noteq> RMPP_STATE_ACTIVE then Some (a, [])
      else let r = r\<lparr>rr_state := RMPP_STATE_TIMEOUT\<rparr>;
               a = del_recv k a;
               wc = rmpp_wc r;
               out = nack_recv env wc IB_MGMT_RMPP_STATUS_T2L in
           case destroy_rmpp_recv r of None \<Rightarrow> None
           | Some _ \<Rightarrow> Some (a, out @ [ib_free_recv_mad wc]))"

definition recv_cleanup_handler :: "mad_agent \<Rightarrow> nat \<Rightarrow> (mad_agent \<times> rmpp_out list) option" where
  "recv_cleanup_handler a k =
     (case destroy_rmpp_recv (rmpp_list a ! k) of None \<Rightarrow> None
      | Some _ \<Rightarrow> Some (del_recv k a, []))"

fun cancel_recvs :: "mad_rmpp_recv list \<Rightarrow> rmpp_out list option" where
  "cancel_recvs [] = Some []"
| "cancel_recvs (r # rs) =
     (let out = (if rr_state r \<noteq> RMPP_STATE_COMPLETE then [ib_free_recv_mad (rmpp_wc r)] else []) in
      case destroy_rmpp_recv r of None \<Rightarrow> None
      | Some _ \<Rightarrow> map_option (\<lambda>o'. out @ o') (cancel_recvs rs))"

definition ib_cancel_rmpp_recvs :: "mad_agent \<Rightarrow> (mad_agent \<times> rmpp_out list) option" where
  "ib_cancel_rmpp_recvs a =
     (let rs = map (\<lambda>r. r\<lparr>timeout_work := False, cleanup_work := False\<rparr>) (rmpp_list a) in
      map_option (\<lambda>out. (a\<lparr>rmpp_list := []\<rparr>, out)) (cancel_recvs rs))"

section \<open>Segment lists\<close>

definition seg_sorted :: "rmpp_mad list \<Rightarrow> bool" where
  "seg_sorted segs \<longleftrightarrow> sorted_wrt (<) (map get_seg_num segs)"

lemma seg_sorted_nth: "seg_sorted segs \<Longrightarrow> i < j \<Longrightarrow> j < length segs \<Longrightarrow> get_seg_num (segs ! i) < get_seg_num (segs ! j)"
  using sorted_wrt_nth_less [of "(<)" "map get_seg_num segs" i j] by (simp add: seg_sorted_def)

lemma seg_sorted_append:
  "seg_sorted (xs @ ys) \<longleftrightarrow> seg_sorted xs \<and> seg_sorted ys \<and> (\<forall>x\<in>set xs. \<forall>y\<in>set ys. get_seg_num x < get_seg_num y)"
  by (auto simp: seg_sorted_def sorted_wrt_append)

lemma seg_sorted_Cons: "seg_sorted (x # ys) \<longleftrightarrow> (\<forall>y\<in>set ys. get_seg_num x < get_seg_num y) \<and> seg_sorted ys"
  by (auto simp: seg_sorted_def)

lemma find_seg_location_snoc:
  "find_seg_location [] n = None"
  "find_seg_location (front @ [seg]) n =
     (if n > get_seg_num seg then Some (length front)
      else if n = get_seg_num seg then None else find_seg_location front n)"
  by (simp_all add: find_seg_location_def)

lemma find_seg_location_Some:
  assumes "find_seg_location segs n = Some p" "seg_sorted segs"
  shows "p < length segs \<and> (\<forall>x\<in>set (take (Suc p) segs). get_seg_num x < n) \<and> (\<forall>x\<in>set (drop (Suc p) segs). n < get_seg_num x)"
  using assms
proof (induction segs rule: rev_induct)
  case (snoc x xs)
  from snoc.prems(2) have sorted: "seg_sorted xs" "\<forall>y\<in>set xs. get_seg_num y < get_seg_num x"
    by (simp_all add: seg_sorted_append)
  show ?case
  proof (cases "n > get_seg_num x")
    case True
    with snoc.prems(1) have p: "p = length xs" by (simp add: find_seg_location_snoc)
    with sorted True show ?thesis by (auto intro: less_trans)
  next
    case False
    with snoc.prems(1) have "find_seg_location xs n = Some p" "n < get_seg_num x"
      by (auto simp: find_seg_location_snoc split: if_splits)
    with snoc.IH sorted(1) show ?thesis by (auto simp: not_less_eq_eq)
  qed
qed (simp add: find_seg_location_snoc)

lemma find_seg_location_None:
  assumes "find_seg_location segs n = None" "seg_sorted segs"
  shows "n \<in> get_seg_num ` set segs \<or> (\<forall>x\<in>set segs. n < get_seg_num x)"
  using assms
proof (induction segs rule: rev_induct)
  case (snoc x xs)
  from snoc.prems(2) have sorted: "seg_sorted xs" "\<forall>y\<in>set xs. get_seg_num y < get_seg_num x"
    by (simp_all add: seg_sorted_append)
  from snoc.prems(1) have "n = get_seg_num x \<or> n < get_seg_num x \<and> find_seg_location xs n = None"
    by (auto simp: find_seg_location_snoc split: if_splits)
  with snoc.IH sorted(1) show ?case by auto
qed simp

lemma in_set_drop_nth: "x \<in> set (drop k xs) \<Longrightarrow> \<exists>j. k \<le> j \<and> j < length xs \<and> x = xs ! j"
proof -
  assume "x \<in> set (drop k xs)"
  then obtain i where "i < length (drop k xs)" "drop k xs ! i = x" by (auto simp: in_set_conv_nth)
  then have "k \<le> k + i \<and> k + i < length xs \<and> x = xs ! (k + i)" by simp
  then show ?thesis by blast
qed

lemma nth_in_set_drop:
  assumes "k \<le> j" "j < length xs"
  shows "xs ! j \<in> set (drop k xs)"
proof -
  have "j - k < length (drop k xs)" using assms by simp
  from nth_mem [OF this] assms show ?thesis by simp
qed

section \<open>The invariant of a context\<close>

named_theorems rr_simps \<open>the segments of a context under the updates of its other fields\<close>

lemma rr_segs_upd [simp, rr_simps]:
  "rr_segs (r\<lparr>cur_seg_buf := c\<rparr>) = rr_segs r"
  "rr_segs (r\<lparr>seg_num := i\<rparr>) = rr_segs r"
  "rr_segs (r\<lparr>last_ack := i\<rparr>) = rr_segs r"
  "rr_segs (r\<lparr>newwin := i\<rparr>) = rr_segs r"
  "rr_segs (r\<lparr>repwin := i\<rparr>) = rr_segs r"
  "rr_segs (r\<lparr>rr_state := st\<rparr>) = rr_segs r"
  "rr_segs (r\<lparr>rr_refcount := n\<rparr>) = rr_segs r"
  "rr_segs (r\<lparr>rr_comp := b\<rparr>) = rr_segs r"
  "rr_segs (r\<lparr>timeout_work := b\<rparr>) = rr_segs r"
  "rr_segs (r\<lparr>cleanup_work := b\<rparr>) = rr_segs r"
  "rr_segs (r\<lparr>rmpp_wc := wc\<rparr>) = wc_rmpp_list wc"
  by (simp_all add: rr_segs_def)

text \<open>
  The buffers up to \<open>cur_seg_buf\<close> are the segments 1 to \<open>seg_num\<close>, the list is strictly ordered,
  and the segment after \<open>seg_num\<close> is missing.
\<close>

definition seg_prefix :: "mad_rmpp_recv \<Rightarrow> bool" where
  "seg_prefix r \<longleftrightarrow>
     cur_seg_buf r < length (rr_segs r) \<and> seg_num r = int (cur_seg_buf r) + 1 \<and> seg_sorted (rr_segs r) \<and>
     (\<forall>i\<le>cur_seg_buf r. get_seg_num (rr_segs r ! i) = int i + 1)"

definition seg_gap :: "mad_rmpp_recv \<Rightarrow> bool" where
  "seg_gap r \<longleftrightarrow> (\<forall>x\<in>set (drop (Suc (cur_seg_buf r)) (rr_segs r)). get_seg_num x > seg_num r + 1)"

lemma update_seg_num_spec:
  assumes "seg_prefix r" "b = get_next_seg (rr_segs r) (cur_seg_buf r)"
  shows "\<exists>c n. update_seg_num r b = r\<lparr>cur_seg_buf := c, seg_num := n\<rparr> \<and> seg_num r \<le> n \<and>
           seg_prefix (update_seg_num r b) \<and> seg_gap (update_seg_num r b)"
  using assms
proof (induction r b rule: update_seg_num.induct)
  case (1 r)
  then have "seg_gap r" by (simp add: get_next_seg_def seg_gap_def split: if_splits)
  with 1 have "update_seg_num r None = r\<lparr>cur_seg_buf := cur_seg_buf r, seg_num := seg_num r\<rparr> \<and> seg_num r \<le> seg_num r \<and>
      seg_prefix (update_seg_num r None) \<and> seg_gap (update_seg_num r None)" by simp
  then show ?case by blast
next
  case (2 r i)
  from 2(3) have i: "i = Suc (cur_seg_buf r)" "i < length (rr_segs r)"
    by (auto simp: get_next_seg_def split: if_splits)
  show ?case
  proof (cases "get_seg_num (rr_segs r ! i) = seg_num r + 1")
    case True
    let ?r = "r\<lparr>cur_seg_buf := i, seg_num := seg_num r + 1\<rparr>"
    have pre: "seg_prefix ?r" using 2(2) i True by (auto simp: seg_prefix_def le_Suc_eq)
    from 2(1) [of, OF _ pre] i True obtain c n where
      ih: "update_seg_num ?r (get_next_seg (rr_segs r) i) = ?r\<lparr>cur_seg_buf := c, seg_num := n\<rparr>"
        "seg_num ?r \<le> n" "seg_prefix (update_seg_num ?r (get_next_seg (rr_segs r) i))"
        "seg_gap (update_seg_num ?r (get_next_seg (rr_segs r) i))"
      by auto
    have eq: "update_seg_num r (Some i) = update_seg_num ?r (get_next_seg (rr_segs r) i)"
      using i True by simp
    have "update_seg_num r (Some i) = r\<lparr>cur_seg_buf := c, seg_num := n\<rparr>" "seg_num r \<le> n"
      using ih(1,2) unfolding eq by simp_all
    with ih(3,4) show ?thesis unfolding eq by blast
  next
    case False
    have nn: "get_seg_num (rr_segs r ! i) > seg_num r + 1"
    proof -
      have "get_seg_num (rr_segs r ! cur_seg_buf r) < get_seg_num (rr_segs r ! i)"
        using seg_sorted_nth [of "rr_segs r" "cur_seg_buf r" i] 2(2) i by (simp add: seg_prefix_def)
      with 2(2) False show ?thesis by (auto simp: seg_prefix_def)
    qed
    have "seg_gap r"
    proof (unfold seg_gap_def, rule ballI)
      fix x assume "x \<in> set (drop (Suc (cur_seg_buf r)) (rr_segs r))"
      from in_set_drop_nth [OF this] obtain j where
        j: "Suc (cur_seg_buf r) \<le> j" "j < length (rr_segs r)" "x = rr_segs r ! j" by blast
      have "get_seg_num (rr_segs r ! i) \<le> get_seg_num x"
      proof (cases "i = j")
        case False
        with j i(1) 2(2) seg_sorted_nth [of "rr_segs r" i j] show ?thesis by (simp add: seg_prefix_def)
      qed (simp add: j)
      with nn show "seg_num r + 1 < get_seg_num x" by simp
    qed
    moreover have "update_seg_num r (Some i) = r" using False by simp
    ultimately have "update_seg_num r (Some i) = r\<lparr>cur_seg_buf := cur_seg_buf r, seg_num := seg_num r\<rparr> \<and> seg_num r \<le> seg_num r \<and>
        seg_prefix (update_seg_num r (Some i)) \<and> seg_gap (update_seg_num r (Some i))"
      using 2(2) by simp
    then show ?thesis by blast
  qed
qed

declare update_seg_num.simps [simp del]

type_synonym rmpp_key = "u64 \<times> u32 \<times> u32 \<times> u8 \<times> u8 \<times> u8"

definition rr_key :: "mad_rmpp_recv \<Rightarrow> rmpp_key" where
  "rr_key r = (rr_tid r, rr_src_qp r, rr_slid r, rr_mgmt_class r, rr_class_version r, rr_method r)"

definition wc_key :: "ib_mad_recv_wc \<Rightarrow> rmpp_key" where
  "wc_key wc = (mad_tid (recv_mad wc), wc_src_qp wc, wc_slid wc, mad_mgmt_class (recv_mad wc),
                mad_class_version (recv_mad wc), mad_method (recv_mad wc))"

lemma recv_matches_iff: "recv_matches wc r \<longleftrightarrow> rr_key r = wc_key wc"
  by (auto simp: recv_matches_def rr_key_def wc_key_def)

text \<open>
  The window: the acknowledged segments are received ones, and no buffer lies beyond the window.
  \<open>P k m\<close> says which datagrams may arrive for the message \<open>k\<close>.
\<close>

definition recv_core :: "(rmpp_key \<Rightarrow> rmpp_mad \<Rightarrow> bool) \<Rightarrow> mad_rmpp_recv \<Rightarrow> bool" where
  "recv_core P r \<longleftrightarrow>
     seg_prefix r \<and> seg_gap r \<and> (\<forall>m\<in>set (rr_segs r). P (rr_key r) m \<and> get_seg_num m \<le> newwin r) \<and>
     0 \<le> last_ack r \<and> last_ack r \<le> seg_num r \<and> wc_key (rmpp_wc r) = rr_key r \<and>
     recv_mad (rmpp_wc r) = rr_segs r ! 0 \<and> rr_base_version r = mad_base_version (recv_mad (rmpp_wc r))"

definition recv_live :: "(rmpp_key \<Rightarrow> rmpp_mad \<Rightarrow> bool) \<Rightarrow> mad_rmpp_recv \<Rightarrow> bool" where
  "recv_live P r \<longleftrightarrow>
     recv_core P r \<and> rr_state r \<noteq> RMPP_STATE_TIMEOUT \<and> (rr_state r = RMPP_STATE_ACTIVE \<longrightarrow> seg_num r < newwin r) \<and>
     (rr_state r = RMPP_STATE_COMPLETE \<longleftrightarrow> get_last_flag (rr_segs r ! cur_seg_buf r)) \<and>
     (cleanup_work r \<longleftrightarrow> rr_state r = RMPP_STATE_COMPLETE) \<and> \<not> rr_comp r"

text \<open>Between handlers the list holds the only reference.\<close>

definition recv_inv :: "(rmpp_key \<Rightarrow> rmpp_mad \<Rightarrow> bool) \<Rightarrow> mad_rmpp_recv \<Rightarrow> bool" where
  "recv_inv P r \<longleftrightarrow> recv_live P r \<and> rr_refcount r = 1"

definition agent_inv :: "(rmpp_key \<Rightarrow> rmpp_mad \<Rightarrow> bool) \<Rightarrow> mad_agent \<Rightarrow> bool" where
  "agent_inv P a \<longleftrightarrow> (\<forall>r\<in>set (rmpp_list a). recv_inv P r) \<and> distinct (map rr_key (rmpp_list a))"

lemma wc_key_upd [simp, rr_simps]:
  "wc_key (wc\<lparr>wc_rmpp_list := l\<rparr>) = wc_key wc"
  "wc_key (wc\<lparr>wc_mad_len := n\<rparr>) = wc_key wc"
  by (simp_all add: wc_key_def)

lemma rr_key_upd [simp, rr_simps]:
  "rr_key (r\<lparr>cur_seg_buf := c\<rparr>) = rr_key r"
  "rr_key (r\<lparr>seg_num := i\<rparr>) = rr_key r"
  "rr_key (r\<lparr>last_ack := i\<rparr>) = rr_key r"
  "rr_key (r\<lparr>newwin := i\<rparr>) = rr_key r"
  "rr_key (r\<lparr>repwin := i\<rparr>) = rr_key r"
  "rr_key (r\<lparr>rr_state := st\<rparr>) = rr_key r"
  "rr_key (r\<lparr>rr_refcount := n\<rparr>) = rr_key r"
  "rr_key (r\<lparr>rr_comp := b\<rparr>) = rr_key r"
  "rr_key (r\<lparr>timeout_work := b\<rparr>) = rr_key r"
  "rr_key (r\<lparr>cleanup_work := b\<rparr>) = rr_key r"
  "rr_key (r\<lparr>rmpp_wc := wc\<rparr>) = rr_key r"
  by (simp_all add: rr_key_def)

lemma recv_core_upd [simp, rr_simps]:
  "recv_core P (r\<lparr>rr_state := st\<rparr>) = recv_core P r"
  "recv_core P (r\<lparr>rr_refcount := n\<rparr>) = recv_core P r"
  "recv_core P (r\<lparr>rr_comp := b\<rparr>) = recv_core P r"
  "recv_core P (r\<lparr>timeout_work := b\<rparr>) = recv_core P r"
  "recv_core P (r\<lparr>cleanup_work := b\<rparr>) = recv_core P r"
  "recv_core P (r\<lparr>rmpp_wc := rmpp_wc r\<lparr>wc_mad_len := len\<rparr>\<rparr>) = recv_core P r"
  by (simp_all add: recv_core_def seg_prefix_def seg_gap_def rr_segs_def)

lemma recv_live_ref [simp, rr_simps]: "recv_live P (r\<lparr>rr_refcount := n\<rparr>) = recv_live P r"
  by (simp add: recv_live_def)

lemma recv_core_ack [intro]: "recv_core P r \<Longrightarrow> recv_core P (r\<lparr>last_ack := seg_num r\<rparr>)"
  by (auto simp: recv_core_def seg_prefix_def seg_gap_def)

lemma recv_core_newwin [intro]: "recv_core P r \<Longrightarrow> newwin r \<le> w \<Longrightarrow> recv_core P (r\<lparr>newwin := w\<rparr>)"
  by (fastforce simp: recv_core_def seg_prefix_def seg_gap_def)

text \<open>The insertion of a segment that is neither acknowledged nor stored.\<close>

lemma list_add_seg_sorted:
  assumes "seg_sorted segs" "find_seg_location segs (get_seg_num m) = Some p"
  shows "seg_sorted (take (Suc p) segs @ m # drop (Suc p) segs)"
proof -
  note loc = find_seg_location_Some [OF assms(2,1)]
  have "seg_sorted (take (Suc p) segs @ drop (Suc p) segs)" using assms(1) by simp
  then have s: "seg_sorted (take (Suc p) segs)" "seg_sorted (drop (Suc p) segs)"
    unfolding seg_sorted_append by blast+
  show ?thesis
    unfolding seg_sorted_append seg_sorted_Cons using s loc by (auto intro: less_trans)
qed

lemma location_not_before_cur:
  assumes "seg_prefix r" "find_seg_location (rr_segs r) n = Some p"
  shows "cur_seg_buf r \<le> p"
proof (rule ccontr)
  assume "\<not> cur_seg_buf r \<le> p"
  then have lt: "p < cur_seg_buf r" by simp
  from assms(1) have s: "seg_sorted (rr_segs r)" and c: "cur_seg_buf r < length (rr_segs r)"
    and num: "\<forall>i\<le>cur_seg_buf r. get_seg_num (rr_segs r ! i) = int i + 1"
    by (simp_all add: seg_prefix_def)
  note loc = find_seg_location_Some [OF assms(2) s]
  have "rr_segs r ! p \<in> set (take (Suc p) (rr_segs r))"
    using loc by (simp add: take_Suc_conv_app_nth)
  moreover have "rr_segs r ! Suc p \<in> set (drop (Suc p) (rr_segs r))"
    using lt c by (simp flip: Cons_nth_drop_Suc [of "Suc p"])
  ultimately have "int p + 1 < n" "n < int (Suc p) + 1" using loc num lt by auto
  then show False by simp
qed

lemma list_add_seg_facts:
  assumes "recv_core P r" "find_seg_location (rr_segs r) (get_seg_num m) = Some p"
    and "P (rr_key r) m" "get_seg_num m \<le> newwin r"
  defines "r' \<equiv> list_add_seg m p r"
  shows "seg_prefix r'"
    and "\<forall>x\<in>set (rr_segs r'). P (rr_key r') x \<and> get_seg_num x \<le> newwin r'"
    and "cur_seg_buf r' = cur_seg_buf r" "rr_segs r' ! cur_seg_buf r = rr_segs r ! cur_seg_buf r"
    and "mset (rr_segs r') = add_mset m (mset (rr_segs r))" "rr_segs r' ! 0 = rr_segs r ! 0"
    and "cur_seg_buf r \<noteq> p \<Longrightarrow> seg_gap r'"
    and "cur_seg_buf r = p \<Longrightarrow> get_next_seg (rr_segs r') (cur_seg_buf r') = Some (Suc p)"
proof -
  let ?L = "rr_segs r" and ?c = "cur_seg_buf r"
  from assms(1) have pre: "seg_prefix r" and gap: "seg_gap r" by (simp_all add: recv_core_def)
  then have s: "seg_sorted ?L" and num: "\<forall>i\<le>?c. get_seg_num (?L ! i) = int i + 1"
    by (simp_all add: seg_prefix_def)
  note loc = find_seg_location_Some [OF assms(2) s] and cp = location_not_before_cur [OF pre assms(2)]
  have L: "rr_segs r' = take (Suc p) ?L @ m # drop (Suc p) ?L"
    by (simp add: r'_def list_add_seg_def)
  have nth: "rr_segs r' ! i = ?L ! i" if "i \<le> ?c" for i
    using that cp loc by (simp add: L nth_append)
  have sn: "seg_num r' = seg_num r" "newwin r' = newwin r" "rr_key r' = rr_key r"
    by (simp_all add: r'_def list_add_seg_def)
  show c: "cur_seg_buf r' = ?c" using cp by (simp add: r'_def list_add_seg_def)
  show "rr_segs r' ! ?c = ?L ! ?c" by (simp add: nth)
  show "rr_segs r' ! 0 = ?L ! 0" by (simp add: nth)
  have len: "length (rr_segs r') = Suc (length ?L)" using loc by (auto simp: L)
  have "seg_sorted (rr_segs r')" using list_add_seg_sorted [OF s assms(2)] by (simp add: L)
  then show "seg_prefix r'" using pre by (simp add: seg_prefix_def c sn nth len)
  show "\<forall>x\<in>set (rr_segs r'). P (rr_key r') x \<and> get_seg_num x \<le> newwin r'"
    using assms(1,3,4) by (auto simp: recv_core_def L sn dest: in_set_takeD in_set_dropD)
  have "mset (take (Suc p) ?L) + mset (drop (Suc p) ?L) = mset ?L"
    by (metis append_take_drop_id mset_append)
  then show "mset (rr_segs r') = add_mset m (mset ?L)" by (simp add: L)
  show "get_next_seg (rr_segs r') (cur_seg_buf r') = Some (Suc p)" if "?c = p"
    using that loc by (simp add: c len get_next_seg_def)
  show "seg_gap r'" if "?c \<noteq> p"
  proof -
    have lt: "Suc ?c \<le> p" using that cp by simp
    have "?L ! p \<in> set (drop (Suc ?c) ?L)"
      using lt loc by (simp add: nth_in_set_drop)
    with gap have "seg_num r + 1 < get_seg_num (?L ! p)" by (simp add: seg_gap_def)
    moreover have "get_seg_num (?L ! p) < get_seg_num m"
      using loc by (simp add: take_Suc_conv_app_nth)
    moreover have "set (drop (Suc ?c) (rr_segs r')) \<subseteq> insert m (set (drop (Suc ?c) ?L))"
    proof -
      have "drop (Suc ?c) (rr_segs r') = drop (Suc ?c) (take (Suc p) ?L) @ m # drop (Suc p) ?L"
        using lt loc by (simp add: L)
      moreover have "set (drop (Suc p) ?L) \<subseteq> set (drop (Suc ?c) ?L)"
        using lt by (simp add: set_drop_subset_set_drop)
      moreover have "set (drop (Suc ?c) (take (Suc p) ?L)) \<subseteq> set (drop (Suc ?c) ?L)"
        by (simp add: drop_take set_take_subset)
      ultimately show ?thesis by auto
    qed
    ultimately show ?thesis using gap unfolding seg_gap_def c sn by force
  qed
qed

section \<open>Buffers and messages\<close>

text \<open>
  The buffers a context owns (a complete one has handed them to the client), the buffers a list of
  effects frees, and those a result hands over.
\<close>

definition held_recv :: "mad_rmpp_recv \<Rightarrow> rmpp_mad multiset" where
  "held_recv r = (if rr_state r = RMPP_STATE_COMPLETE then {#} else mset (rr_segs r))"

definition held :: "mad_agent \<Rightarrow> rmpp_mad multiset" where
  "held a = (\<Sum>r\<leftarrow>rmpp_list a. held_recv r)"

fun freed :: "rmpp_out list \<Rightarrow> rmpp_mad multiset" where
  "freed [] = {#}"
| "freed (Post m # out) = freed out"
| "freed (Free ms # out) = mset ms + freed out"

definition handed :: "ib_mad_recv_wc option \<Rightarrow> rmpp_mad multiset" where
  "handed ret = (case ret of None \<Rightarrow> {#} | Some wc \<Rightarrow> mset (wc_rmpp_list wc))"

text \<open>
  A complete message: the segments 1 to \<open>n\<close> in order, the last of them flagged as such, in a
  strictly ordered list of datagrams of that message, with the length computed from them.
\<close>

definition msg_len :: "bool \<Rightarrow> rmpp_mad \<Rightarrow> rmpp_mad \<Rightarrow> int \<Rightarrow> int" where
  "msg_len opa first m n =
     (let hdr_size = ib_get_mad_data_offset (mad_mgmt_class m);
          data = (if opa \<and> mad_base_version first = OPA_MGMT_BASE_VERSION then OPA_MGMT_RMPP_DATA else IB_MGMT_RMPP_DATA)
      in hdr_size + n * (IB_MGMT_RMPP_HDR + data - hdr_size) - pad_of data (paylen_newwin m))"

definition complete_msg ::
  "bool \<Rightarrow> (rmpp_key \<Rightarrow> rmpp_mad \<Rightarrow> bool) \<Rightarrow> rmpp_key \<Rightarrow> ib_mad_recv_wc \<Rightarrow> bool" where
  "complete_msg opa P k wc \<longleftrightarrow>
     wc_key wc = k \<and> seg_sorted (wc_rmpp_list wc) \<and> (\<forall>m\<in>set (wc_rmpp_list wc). P k m) \<and>
     recv_mad wc = wc_rmpp_list wc ! 0 \<and>
     (\<exists>n. n < length (wc_rmpp_list wc) \<and> get_last_flag (wc_rmpp_list wc ! n) \<and>
          (\<forall>i\<le>n. get_seg_num (wc_rmpp_list wc ! i) = int i + 1) \<and>
          wc_mad_len wc = msg_len opa (recv_mad wc) (wc_rmpp_list wc ! n) (int n + 1))"

lemma freed_append [simp]: "freed (xs @ ys) = freed xs + freed ys"
  by (induction xs rule: freed.induct) auto

lemma freed_free [simp]: "freed [ib_free_recv_mad wc] = mset (wc_rmpp_list wc)"
  by (simp add: ib_free_recv_mad_def)

lemma freed_nack [simp]: "freed (nack_recv env wc st) = {#}" "freed (ack_ds_ack env wc) = {#}"
  by (simp_all add: nack_recv_def ack_ds_ack_def Let_def)

lemma handed_simps [simp]: "handed None = {#}" "handed (Some wc) = mset (wc_rmpp_list wc)"
  by (simp_all add: handed_def)

lemma sum_list_update:
  fixes f :: "'a \<Rightarrow> 'b multiset"
  assumes "i < length xs"
  shows "(\<Sum>x\<leftarrow>xs[i := y]. f x) + f (xs ! i) = (\<Sum>x\<leftarrow>xs. f x) + f y"
  using assms by (induction xs arbitrary: i) (auto split: nat.splits simp: add_ac)

lemma ack_recv_result:
  obtains l out where "ack_recv env r wc = (r\<lparr>last_ack := l\<rparr>, out)" "l = last_ack r \<or> l = seg_num r" "freed out = {#}"
proof (cases "create_send_mad_ok env")
  case True
  have "ack_recv env r wc = (r\<lparr>last_ack := seg_num r\<rparr>, if post_send_ok env then [Post (fst (format_ack (recv_mad wc) r))] else [])"
    using True by (simp add: ack_recv_def format_ack_def Let_def)
  then show ?thesis by (rule that) auto
next
  case False
  then have "ack_recv env r wc = (r\<lparr>last_ack := last_ack r\<rparr>, [])" by (simp add: ack_recv_def)
  then show ?thesis by (rule that) auto
qed

lemma recv_core_last_ack:
  "recv_core P r \<Longrightarrow> l = last_ack r \<or> l = seg_num r \<Longrightarrow> recv_core P (r\<lparr>last_ack := l\<rparr>)"
  by auto

lemma complete_rmpp_result:
  assumes "recv_core P r" "get_last_flag (rr_segs r ! cur_seg_buf r)"
  obtains r' out where "complete_rmpp env a r = (r', out, rmpp_wc r')" "recv_core P r'" "freed out = {#}"
    "rr_state r' = rr_state r" "rr_refcount r' = rr_refcount r" "rr_comp r' = rr_comp r" "cleanup_work r'"
    "rr_segs r' = rr_segs r" "cur_seg_buf r' = cur_seg_buf r" "rr_key r' = rr_key r"
    "complete_msg (cap_opa_mad a) P (rr_key r) (rmpp_wc r')"
proof -
  obtain l out where ack: "ack_recv env r (rmpp_wc r) = (r\<lparr>last_ack := l\<rparr>, out)" "l = last_ack r \<or> l = seg_num r"
    "freed out = {#}" by (rule ack_recv_result)
  define r1 where "r1 = (if seg_num r > 1 then r\<lparr>last_ack := l, timeout_work := False\<rparr> else r\<lparr>last_ack := l\<rparr>)"
  define r' where "r' = r1\<lparr>rmpp_wc := rmpp_wc r1\<lparr>wc_mad_len := get_mad_len a r1\<rparr>, cleanup_work := True\<rparr>"
  have 1: "recv_core P r1" using recv_core_last_ack [OF assms(1) ack(2)] by (simp add: r1_def)
  then have core: "recv_core P r'" by (simp add: r'_def)
  have same: "rr_state r1 = rr_state r" "rr_refcount r1 = rr_refcount r" "rr_comp r1 = rr_comp r"
    "rr_segs r1 = rr_segs r" "cur_seg_buf r1 = cur_seg_buf r" "rr_key r1 = rr_key r"
    by (simp_all add: r1_def)
  have "complete_rmpp env a r = (r', out, rmpp_wc r')"
    by (simp add: complete_rmpp_def ack Let_def r'_def r1_def)
  moreover have "rr_segs r' = rr_segs r1" by (simp add: r'_def) (simp add: rr_segs_def)
  moreover have "complete_msg (cap_opa_mad a) P (rr_key r) (rmpp_wc r')"
  proof -
    have c: "cur_seg_buf r' = cur_seg_buf r" "wc_rmpp_list (rmpp_wc r') = rr_segs r" "rr_key r' = rr_key r"
      using same by (simp_all add: r'_def) (simp add: rr_segs_def)
    have "wc_mad_len (rmpp_wc r') = get_mad_len a r1" by (simp add: r'_def)
    also have "\<dots> = msg_len (cap_opa_mad a) (recv_mad (rmpp_wc r')) (rr_segs r ! cur_seg_buf r) (int (cur_seg_buf r) + 1)"
      using 1 same by (simp add: get_mad_len_def msg_len_def Let_def recv_core_def seg_prefix_def r'_def)
    finally show ?thesis
      using core assms(2) c unfolding complete_msg_def recv_core_def seg_prefix_def
      by (intro conjI exI [of _ "cur_seg_buf r"]) (simp_all add: rr_segs_def)
  qed
  ultimately show ?thesis using core ack(3) same
    by (intro that [of r' out]) (simp_all add: r'_def)
qed

section \<open>One segment\<close>

text \<open>
  What a handler does with a datagram \<open>m\<close> of the message \<open>k\<close> that belongs to the context \<open>r\<close>: the
  invariant is kept, no buffer is lost or freed twice, and what is handed over is a complete message.
\<close>

definition recv_step_ok ::
  "bool \<Rightarrow> (rmpp_key \<Rightarrow> rmpp_mad \<Rightarrow> bool) \<Rightarrow> rmpp_mad multiset \<Rightarrow> rmpp_key \<Rightarrow>
   mad_rmpp_recv \<Rightarrow> rmpp_out list \<Rightarrow> ib_mad_recv_wc option \<Rightarrow> bool" where
  "recv_step_ok opa P owned k r' out ret \<longleftrightarrow>
     recv_live P r' \<and> rr_key r' = k \<and> owned = held_recv r' + freed out + handed ret \<and>
     (\<forall>wc. ret = Some wc \<longrightarrow> complete_msg opa P k wc)"

lemma deref_two [simp]: "rr_refcount r = 2 \<Longrightarrow> deref_rmpp_recv r = r\<lparr>rr_refcount := 1\<rparr>"
  by (simp add: deref_rmpp_recv_def)

lemma recv_step_ok_ref [simp]: "recv_step_ok opa P owned k (r\<lparr>rr_refcount := n\<rparr>) out ret = recv_step_ok opa P owned k r out ret"
  by (simp add: recv_step_ok_def held_recv_def)

lemma insert_far_ok:
  assumes "recv_live P r" "rr_state r = RMPP_STATE_ACTIVE"
    and "find_seg_location (rr_segs r) (get_seg_num m) = Some p" "P (rr_key r) m" "get_seg_num m \<le> newwin r"
    and "cur_seg_buf r \<noteq> p"
  shows "recv_step_ok opa P (held_recv r + {#m#}) (rr_key r) (list_add_seg m p r) [] None"
proof -
  from assms(1) have core: "recv_core P r" by (simp add: recv_live_def)
  note f = list_add_seg_facts [OF core assms(3-5)]
  have same: "rr_state (list_add_seg m p r) = rr_state r" "rr_refcount (list_add_seg m p r) = rr_refcount r"
    "rr_comp (list_add_seg m p r) = rr_comp r" "cleanup_work (list_add_seg m p r) = cleanup_work r"
    "newwin (list_add_seg m p r) = newwin r" "seg_num (list_add_seg m p r) = seg_num r"
    "last_ack (list_add_seg m p r) = last_ack r" "rr_key (list_add_seg m p r) = rr_key r"
    "wc_key (rmpp_wc (list_add_seg m p r)) = wc_key (rmpp_wc r)"
    "recv_mad (rmpp_wc (list_add_seg m p r)) = recv_mad (rmpp_wc r)"
    "rr_base_version (list_add_seg m p r) = rr_base_version r"
    by (simp_all add: list_add_seg_def)
  have "recv_core P (list_add_seg m p r)"
    using core f(1,2,6) f(7) [OF assms(6)] by (simp add: recv_core_def same)
  with assms(1,2) f(3-5) show ?thesis
    by (simp add: recv_step_ok_def recv_live_def held_recv_def same)
qed

text \<open>The segment after \<open>cur_seg_buf\<close>: the context after \<open>update_seg_num\<close>.\<close>

lemma insert_next_core:
  assumes "recv_core P r"
    and "find_seg_location (rr_segs r) (get_seg_num m) = Some p" "P (rr_key r) m" "get_seg_num m \<le> newwin r"
    and "cur_seg_buf r = p"
  obtains c n where
    "update_seg_num (list_add_seg m p r) (Some (Suc p)) = list_add_seg m p r\<lparr>cur_seg_buf := c, seg_num := n\<rparr>"
    "recv_core P (list_add_seg m p r\<lparr>cur_seg_buf := c, seg_num := n\<rparr>)"
    "mset (rr_segs (list_add_seg m p r)) = add_mset m (mset (rr_segs r))" "n \<le> newwin r"
proof -
  let ?r = "list_add_seg m p r"
  note f = list_add_seg_facts [OF assms(1-4)]
  from update_seg_num_spec [OF f(1) f(8) [OF assms(5), symmetric]]
  obtain c n where u: "update_seg_num ?r (Some (Suc p)) = ?r\<lparr>cur_seg_buf := c, seg_num := n\<rparr>" "seg_num ?r \<le> n"
    "seg_prefix (?r\<lparr>cur_seg_buf := c, seg_num := n\<rparr>)" "seg_gap (?r\<lparr>cur_seg_buf := c, seg_num := n\<rparr>)"
    by (metis (no_types, lifting))
  have same: "newwin ?r = newwin r" "seg_num ?r = seg_num r" "last_ack ?r = last_ack r" "rr_key ?r = rr_key r"
    "wc_key (rmpp_wc ?r) = wc_key (rmpp_wc r)" "recv_mad (rmpp_wc ?r) = recv_mad (rmpp_wc r)"
    "rr_base_version ?r = rr_base_version r"
    by (simp_all add: list_add_seg_def)
  have "recv_core P (?r\<lparr>cur_seg_buf := c, seg_num := n\<rparr>)"
    using assms(1) f(2,6) u by (simp add: recv_core_def same)
  moreover have "n \<le> newwin r"
  proof -
    from u(3) have "c < length (rr_segs ?r)" "get_seg_num (rr_segs ?r ! c) = n"
      by (simp_all add: seg_prefix_def)
    with f(2) same show ?thesis using nth_mem by metis
  qed
  ultimately show ?thesis using that u(1) f(5) by blast
qed

lemma insert_next_ok:
  assumes "recv_live P r" "rr_state r = RMPP_STATE_ACTIVE" "rr_refcount r = 2" "1 \<le> w"
    and "find_seg_location (rr_segs r) (get_seg_num m) = Some p" "P (rr_key r) m" "get_seg_num m \<le> newwin r"
    and "cur_seg_buf r = p"
  defines "r2 \<equiv> update_seg_num (list_add_seg m p r) (Some (Suc p))"
  shows "get_last_flag (rr_segs r2 ! cur_seg_buf r2) \<Longrightarrow>
           complete_rmpp env a (r2\<lparr>rr_state := RMPP_STATE_COMPLETE\<rparr>) = (r', out, done_wc) \<Longrightarrow>
           rr_refcount r' = 2 \<and> recv_step_ok (cap_opa_mad a) P (held_recv r + {#m#}) (rr_key r) r' out (Some done_wc)"
    and "\<not> get_last_flag (rr_segs r2 ! cur_seg_buf r2) \<Longrightarrow> seg_num r2 = newwin r2 \<Longrightarrow>
           ack_recv env (r2\<lparr>newwin := newwin r2 + w\<rparr>) wc = (r', out) \<Longrightarrow>
           rr_refcount r' = 2 \<and> recv_step_ok (cap_opa_mad a) P (held_recv r + {#m#}) (rr_key r) r' out None"
    and "\<not> get_last_flag (rr_segs r2 ! cur_seg_buf r2) \<Longrightarrow> seg_num r2 \<noteq> newwin r2 \<Longrightarrow>
           rr_refcount r2 = 2 \<and> recv_step_ok (cap_opa_mad a) P (held_recv r + {#m#}) (rr_key r) r2 [] None"
proof -
  let ?r = "list_add_seg m p r"
  have "recv_core P r" using assms(1) by (simp add: recv_live_def)
  from insert_next_core [OF this assms(5-8)] obtain c n where
    u: "r2 = ?r\<lparr>cur_seg_buf := c, seg_num := n\<rparr>" "recv_core P r2"
      "mset (rr_segs ?r) = add_mset m (mset (rr_segs r))" "n \<le> newwin r"
    unfolding r2_def by metis
  have same: "rr_state r2 = RMPP_STATE_ACTIVE" "rr_refcount r2 = 2" "\<not> rr_comp r2" "\<not> cleanup_work r2"
    "newwin r2 = newwin r" "seg_num r2 = n" "rr_key r2 = rr_key r" "rr_segs r2 = rr_segs ?r"
    using assms(1-3) by (simp_all add: u(1) list_add_seg_def recv_live_def)
  have held: "held_recv r + {#m#} = mset (rr_segs r2)"
    using assms(2) u(3) by (simp add: held_recv_def same)
  show "rr_refcount r' = 2 \<and> recv_step_ok (cap_opa_mad a) P (held_recv r + {#m#}) (rr_key r) r' out (Some done_wc)"
    if last: "get_last_flag (rr_segs r2 ! cur_seg_buf r2)"
      and compl: "complete_rmpp env a (r2\<lparr>rr_state := RMPP_STATE_COMPLETE\<rparr>) = (r', out, done_wc)"
  proof (rule complete_rmpp_result [of P "r2\<lparr>rr_state := RMPP_STATE_COMPLETE\<rparr>" env a])
    fix r'' out'
    assume c: "complete_rmpp env a (r2\<lparr>rr_state := RMPP_STATE_COMPLETE\<rparr>) = (r'', out', rmpp_wc r'')"
      "recv_core P r''" "freed out' = {#}" "rr_state r'' = rr_state (r2\<lparr>rr_state := RMPP_STATE_COMPLETE\<rparr>)"
      "rr_refcount r'' = rr_refcount (r2\<lparr>rr_state := RMPP_STATE_COMPLETE\<rparr>)"
      "rr_comp r'' = rr_comp (r2\<lparr>rr_state := RMPP_STATE_COMPLETE\<rparr>)" "cleanup_work r''"
      "rr_segs r'' = rr_segs (r2\<lparr>rr_state := RMPP_STATE_COMPLETE\<rparr>)"
      "cur_seg_buf r'' = cur_seg_buf (r2\<lparr>rr_state := RMPP_STATE_COMPLETE\<rparr>)"
      "rr_key r'' = rr_key (r2\<lparr>rr_state := RMPP_STATE_COMPLETE\<rparr>)"
      "complete_msg (cap_opa_mad a) P (rr_key (r2\<lparr>rr_state := RMPP_STATE_COMPLETE\<rparr>)) (rmpp_wc r'')"
    have "(r', out, done_wc) = (r'', out', rmpp_wc r'')" by (rule trans [OF compl [symmetric] c(1)])
    then have eq: "r' = r''" "out = out'" "done_wc = rmpp_wc r''" by simp_all
    have "mset (wc_rmpp_list (rmpp_wc r'')) = mset (rr_segs r2)" using c(8) by (simp add: rr_segs_def)
    then show ?thesis
      using c(2-11) last same held unfolding eq by (simp add: recv_step_ok_def recv_live_def held_recv_def)
  qed (use u(2) last in simp_all)
  show "rr_refcount r' = 2 \<and> recv_step_ok (cap_opa_mad a) P (held_recv r + {#m#}) (rr_key r) r' out None"
    if nl: "\<not> get_last_flag (rr_segs r2 ! cur_seg_buf r2)" "seg_num r2 = newwin r2"
      and ack: "ack_recv env (r2\<lparr>newwin := newwin r2 + w\<rparr>) wc = (r', out)"
  proof -
    let ?q = "r2\<lparr>newwin := newwin r2 + w\<rparr>"
    obtain l out' where a: "ack_recv env ?q wc = (?q\<lparr>last_ack := l\<rparr>, out')" "l = last_ack ?q \<or> l = seg_num ?q"
      "freed out' = {#}" by (rule ack_recv_result)
    from a(1,3) ack have r': "r' = ?q\<lparr>last_ack := l\<rparr>" "freed out = {#}" by simp_all
    have "recv_core P r'" unfolding r'(1)
      using a(2) u(2) assms(4) by (intro recv_core_last_ack recv_core_newwin) simp_all
    then show ?thesis using nl same held assms(4) r'
      by (simp add: recv_step_ok_def recv_live_def held_recv_def)
  qed
  show "rr_refcount r2 = 2 \<and> recv_step_ok (cap_opa_mad a) P (held_recv r + {#m#}) (rr_key r) r2 [] None"
    if "\<not> get_last_flag (rr_segs r2 ! cur_seg_buf r2)" "seg_num r2 \<noteq> newwin r2"
    using that u(2,4) same held by (simp add: recv_step_ok_def recv_live_def held_recv_def)
qed

section \<open>The agent\<close>

definition agent_step_ok ::
  "(rmpp_key \<Rightarrow> rmpp_mad \<Rightarrow> bool) \<Rightarrow> mad_agent \<Rightarrow> ib_mad_recv_wc \<Rightarrow> recv_result \<Rightarrow> bool" where
  "agent_step_ok P a wc res \<longleftrightarrow>
     (case res of (a', out, ret) \<Rightarrow>
        agent_inv P a' \<and> cap_opa_mad a' = cap_opa_mad a \<and> held a + mset (wc_rmpp_list wc) = held a' + freed out + handed ret \<and>
        (\<forall>wc'. ret = Some wc' \<longrightarrow> complete_msg (cap_opa_mad a) P (wc_key wc) wc'))"

lemma cap_opa_upd [simp]:
  "cap_opa_mad (set_recv i r a) = cap_opa_mad a" "cap_opa_mad (del_recv i a) = cap_opa_mad a"
  by (simp_all add: set_recv_def del_recv_def)

lemma set_recv_ok:
  assumes "agent_inv P a" "i < length (rmpp_list a)" "wc_rmpp_list wc = [m]"
    and "recv_step_ok (cap_opa_mad a) P (held_recv (rmpp_list a ! i) + {#m#}) (rr_key (rmpp_list a ! i)) r' out ret"
    and "rr_key (rmpp_list a ! i) = wc_key wc" "rr_refcount r' = 2"
  shows "agent_step_ok P a wc (set_recv i (deref_rmpp_recv r') a, out, ret)"
proof -
  let ?r = "r'\<lparr>rr_refcount := 1\<rparr>" and ?rs = "rmpp_list a"
  from assms(4) have r': "recv_live P r'" "rr_key r' = rr_key (?rs ! i)"
    "held_recv (?rs ! i) + {#m#} = held_recv r' + freed out + handed ret"
    "\<forall>wc'. ret = Some wc' \<longrightarrow> complete_msg (cap_opa_mad a) P (wc_key wc) wc'"
    using assms(5) by (simp_all add: recv_step_ok_def)
  have "\<forall>x\<in>set (?rs[i := ?r]). recv_inv P x"
  proof
    fix x assume "x \<in> set (?rs[i := ?r])"
    then have "x \<in> insert ?r (set ?rs)" by (rule subsetD [OF set_update_subset_insert])
    then show "recv_inv P x" using assms(1) r'(1) by (auto simp: agent_inv_def recv_inv_def)
  qed
  moreover have "map rr_key (?rs[i := ?r]) = map rr_key ?rs"
    using assms(2) r'(2) by (simp add: map_update list_update_same_conv)
  ultimately have inv: "agent_inv P (set_recv i ?r a)"
    using assms(1) by (simp add: agent_inv_def set_recv_def)
  have "held (set_recv i ?r a) + held_recv (?rs ! i) = held a + held_recv r'"
    using sum_list_update [OF assms(2), of held_recv ?r] by (simp add: held_def set_recv_def held_recv_def)
  then have "held a + {#m#} + held_recv r' = held (set_recv i ?r a) + (held_recv (?rs ! i) + {#m#})"
    by (simp add: add_ac)
  then have "held a + {#m#} = held (set_recv i ?r a) + freed out + handed ret"
    unfolding r'(3) by (simp add: add_ac)
  with inv r'(4) assms(3,6) show ?thesis by (simp add: agent_step_ok_def)
qed

lemma find_rmpp_recv_Some:
  "find_rmpp_recv a wc = Some i \<Longrightarrow> i < length (rmpp_list a) \<and> rr_key (rmpp_list a ! i) = wc_key wc"
  by (simp add: find_rmpp_recv_def first_ix_Some_iff recv_matches_iff)

lemma find_rmpp_recv_None: "find_rmpp_recv a wc = None \<Longrightarrow> wc_key wc \<notin> set (map rr_key (rmpp_list a))"
  by (force simp: find_rmpp_recv_def first_ix_None_iff recv_matches_iff)

lemma drop_wc_ok: "agent_inv P a \<Longrightarrow> agent_step_ok P a wc (a, [ib_free_recv_mad wc], None)"
  by (simp add: agent_step_ok_def)

lemma window_size_pos: "1 \<le> window_size a"
  by (simp add: window_size_def)

theorem continue_rmpp_ok:
  assumes inv: "agent_inv P a" and P: "P (wc_key wc) (recv_mad wc)" and wc: "wc_rmpp_list wc = [recv_mad wc]"
  shows "agent_step_ok P a wc (continue_rmpp env a wc)"
proof (cases "find_rmpp_recv a wc")
  case None
  then show ?thesis using drop_wc_ok [OF inv] by (simp add: continue_rmpp_def acquire_rmpp_recv_def)
next
  case (Some i)
  note i = find_rmpp_recv_Some [OF Some]
  define r where "r = (rmpp_list a ! i)\<lparr>rr_refcount := 2\<rparr>"
  have "rmpp_list a ! i \<in> set (rmpp_list a)" using i by simp
  with inv have ri: "recv_inv P (rmpp_list a ! i)" by (simp add: agent_inv_def)
  then have live: "recv_live P r" and ref: "rr_refcount r = 2" by (simp_all add: recv_inv_def r_def)
  have same: "held_recv (rmpp_list a ! i) = held_recv r" "rr_key (rmpp_list a ! i) = rr_key r" "rr_key r = wc_key wc"
    using i by (simp_all add: r_def held_recv_def)
  have acq: "acquire_rmpp_recv a wc = Some (i, r)"
    using ri by (simp add: acquire_rmpp_recv_def Some Let_def r_def recv_inv_def)
  note set_ok = set_recv_ok [OF inv conjunct1 [OF i] wc, unfolded same]
  have keep: "recv_step_ok (cap_opa_mad a) P (held_recv r + {#recv_mad wc#}) (wc_key wc) r [ib_free_recv_mad wc] None"
    using live wc same by (simp add: recv_step_ok_def)
  let ?n = "get_seg_num (recv_mad wc)"
  show ?thesis
  proof (cases "?n > newwin r")
    case True
    with keep ref set_ok [of r] show ?thesis by (simp add: continue_rmpp_def acq Let_def)
  next
    case inwin: False
    show ?thesis
    proof (cases "?n \<le> last_ack r \<or> rr_state r = RMPP_STATE_COMPLETE")
      case True
      obtain l out where ack: "ack_recv env r wc = (r\<lparr>last_ack := l\<rparr>, out)" "l = last_ack r \<or> l = seg_num r"
        "freed out = {#}" by (rule ack_recv_result)
      have "recv_core P (r\<lparr>last_ack := l\<rparr>)" using live ack(2) by (auto simp: recv_live_def intro: recv_core_last_ack)
      then have "recv_step_ok (cap_opa_mad a) P (held_recv r + {#recv_mad wc#}) (wc_key wc) (r\<lparr>last_ack := l\<rparr>) (out @ [ib_free_recv_mad wc]) None"
        using keep ack(3) by (simp add: recv_step_ok_def recv_live_def held_recv_def)
      with ref set_ok [of "r\<lparr>last_ack := l\<rparr>"] show ?thesis
        using inwin True live ack(1) by (simp add: continue_rmpp_def acq Let_def recv_live_def)
    next
      case act: False
      have st: "rr_state r = RMPP_STATE_ACTIVE" "rr_state r \<noteq> RMPP_STATE_TIMEOUT"
        using live act by (auto simp: recv_live_def intro: rmpp_state.exhaust)
      note unf = continue_rmpp_def acq Let_def
      show ?thesis
      proof (cases "find_seg_location (rr_segs r) ?n")
        case None
        with keep ref set_ok [of r] show ?thesis using inwin act st by (simp add: unf)
      next
        case (Some p)
        have pre: "find_seg_location (rr_segs r) ?n = Some p" "P (rr_key r) (recv_mad wc)" "?n \<le> newwin r"
          using Some P same inwin by simp_all
        let ?r1 = "list_add_seg (recv_mad wc) p r"
        show ?thesis
        proof (cases "cur_seg_buf r = p")
          case False
          have "rr_refcount ?r1 = 2" using ref by (simp add: list_add_seg_def)
          with insert_far_ok [OF live st(1) pre False] set_ok [of ?r1] show ?thesis
            using inwin act st False Some same by (simp add: unf)
        next
          case True
          define r2 where "r2 = update_seg_num ?r1 (Some (Suc p))"
          note ok = insert_next_ok [OF live st(1) ref window_size_pos pre True, folded r2_def]
          obtain r' out done_wc where compl: "complete_rmpp env a (r2\<lparr>rr_state := RMPP_STATE_COMPLETE\<rparr>) = (r', out, done_wc)"
            by (cases "complete_rmpp env a (r2\<lparr>rr_state := RMPP_STATE_COMPLETE\<rparr>)") auto
          obtain r'' out'' where ack: "ack_recv env (r2\<lparr>newwin := newwin r2 + window_size a\<rparr>) wc = (r'', out'')"
            by (cases "ack_recv env (r2\<lparr>newwin := newwin r2 + window_size a\<rparr>) wc") auto
          have res: "continue_rmpp env a wc =
              (if get_last_flag (rr_segs r2 ! cur_seg_buf r2) then (set_recv i (deref_rmpp_recv r') a, out, Some done_wc)
               else if seg_num r2 = newwin r2 then (set_recv i (deref_rmpp_recv r'') a, out'', None)
               else (set_recv i (deref_rmpp_recv r2) a, [], None))"
            using inwin act st True Some by (simp add: unf compl ack flip: r2_def)
          show ?thesis
            unfolding res using ok(1) [OF _ compl] ok(2) [OF _ _ ack] ok(3) set_ok same(3)
            by (simp split: if_split)
        qed
      qed
    qed
  qed
qed

lemma append_recv_ok:
  assumes "agent_inv P a" "wc_key wc \<notin> set (map rr_key (rmpp_list a))" "wc_rmpp_list wc = [m]" "rr_refcount r' = 2"
    and "recv_step_ok (cap_opa_mad a) P {#m#} (wc_key wc) r' out ret"
  shows "agent_step_ok P a wc (set_recv (length (rmpp_list a)) (deref_rmpp_recv r') (a\<lparr>rmpp_list := rmpp_list a @ [r]\<rparr>), out, ret)"
  using assms
  by (auto simp: agent_step_ok_def agent_inv_def set_recv_def held_def recv_step_ok_def recv_inv_def held_recv_def add_ac)

text \<open>A context just created, before any acknowledgement.\<close>

lemma create_rmpp_recv_core:
  assumes "create_rmpp_recv env wc = Some r" "P (wc_key wc) (recv_mad wc)" "wc_rmpp_list wc = [recv_mad wc]"
    and "get_seg_num (recv_mad wc) = 1"
  shows "recv_core P r" "rr_key r = wc_key wc" "rr_refcount r = 1" "\<not> rr_comp r" "\<not> cleanup_work r"
    "rr_state r = RMPP_STATE_ACTIVE" "rmpp_wc r = wc" "cur_seg_buf r = 0" "seg_num r = 1" "newwin r = 1"
  using assms
  by (auto simp: create_rmpp_recv_def recv_core_def seg_prefix_def seg_gap_def seg_sorted_def rr_segs_def
      rr_key_def wc_key_def split: if_splits)

theorem start_rmpp_ok:
  assumes inv: "agent_inv P a" and P: "P (wc_key wc) (recv_mad wc)" and wc: "wc_rmpp_list wc = [recv_mad wc]"
    and one: "get_seg_num (recv_mad wc) = 1"
  shows "agent_step_ok P a wc (start_rmpp env a wc)"
proof (cases "create_rmpp_recv env wc")
  case None
  then show ?thesis using drop_wc_ok [OF inv] by (simp add: start_rmpp_def)
next
  case (Some r)
  note c = create_rmpp_recv_core [of env wc r P, OF Some P wc one]
  have segs: "rr_segs r = [recv_mad wc]" using c(7) wc by (simp add: rr_segs_def)
  show ?thesis
  proof (cases "find_rmpp_recv a wc")
    case (Some i)
    then show ?thesis
      using continue_rmpp_ok [OF inv P wc] \<open>create_rmpp_recv env wc = Some r\<close> c(7)
      by (simp add: start_rmpp_def insert_rmpp_recv_def)
  next
    case None
    note new = find_rmpp_recv_None [OF None]
    let ?a = "a\<lparr>rmpp_list := rmpp_list a @ [r]\<rparr>"
    have ins: "insert_rmpp_recv a r = (?a, None)" using None c(7) by (simp add: insert_rmpp_recv_def)
    note append_ok = append_recv_ok [OF inv new wc, where r = r]
    have ref: "Suc (rr_refcount r) = 2" using c(3) by simp
    note unf = start_rmpp_def \<open>create_rmpp_recv env wc = Some r\<close> ins Let_def ref
    show ?thesis
    proof (cases "get_last_flag (recv_mad wc)")
      case last: True
      let ?r = "r\<lparr>rr_refcount := 2, rr_state := RMPP_STATE_COMPLETE\<rparr>"
      have "recv_core P ?r" "get_last_flag (rr_segs ?r ! cur_seg_buf ?r)"
        using c last segs by simp_all
      then show ?thesis
      proof (rule complete_rmpp_result [of P ?r env ?a])
        fix r' out
        assume d: "complete_rmpp env ?a ?r = (r', out, rmpp_wc r')" "recv_core P r'" "freed out = {#}"
          "rr_state r' = rr_state ?r" "rr_refcount r' = rr_refcount ?r" "rr_comp r' = rr_comp ?r" "cleanup_work r'"
          "rr_segs r' = rr_segs ?r" "cur_seg_buf r' = cur_seg_buf ?r" "rr_key r' = rr_key ?r"
          "complete_msg (cap_opa_mad ?a) P (rr_key ?r) (rmpp_wc r')"
        have "wc_rmpp_list (rmpp_wc r') = [recv_mad wc]" using d(8) segs by (simp add: rr_segs_def)
        then have "recv_step_ok (cap_opa_mad a) P {#recv_mad wc#} (wc_key wc) r' out (Some (rmpp_wc r'))"
          using d c last segs by (simp add: recv_step_ok_def recv_live_def held_recv_def)
        then show ?thesis using append_ok [of r' out "Some (rmpp_wc r')"] d(1,5) last by (simp add: unf)
      qed
    next
      case nl: False
      let ?q = "r\<lparr>rr_refcount := 2, timeout_work := True, newwin := 1 + window_size ?a\<rparr>"
      obtain l out where ack: "ack_recv env ?q wc = (?q\<lparr>last_ack := l\<rparr>, out)" "l = last_ack ?q \<or> l = seg_num ?q"
        "freed out = {#}" by (rule ack_recv_result)
      have "recv_core P (?q\<lparr>last_ack := l\<rparr>)"
        using ack(2) c(1) window_size_pos [of ?a] c(10) by (intro recv_core_last_ack recv_core_newwin) simp_all
      then have "recv_step_ok (cap_opa_mad a) P {#recv_mad wc#} (wc_key wc) (?q\<lparr>last_ack := l\<rparr>) out None"
        using ack(3) c nl segs window_size_pos [of ?a] by (simp add: recv_step_ok_def recv_live_def held_recv_def)
      then show ?thesis using append_ok [of "?q\<lparr>last_ack := l\<rparr>" out None] ack(1) nl c(10) by (simp add: unf)
    qed
  qed
qed

lemma get_seg_num_1: "rmpp_seg_num m = 1 \<Longrightarrow> get_seg_num m = 1"
  by (simp add: get_seg_num_def)

theorem process_rmpp_data_ok:
  assumes "agent_inv P a" "P (wc_key wc) (recv_mad wc)" "wc_rmpp_list wc = [recv_mad wc]"
  shows "agent_step_ok P a wc (process_rmpp_data env a wc)"
  using assms drop_wc_ok [OF assms(1), of wc]
  by (simp add: process_rmpp_data_def Let_def continue_rmpp_ok start_rmpp_ok get_seg_num_1 agent_step_ok_def [of _ _ _ "(_, _ @ _, _)"])

section \<open>The timers\<close>

lemma destroy_ok: "recv_inv P r \<Longrightarrow> destroy_rmpp_recv r = Some ()"
  by (simp add: destroy_rmpp_recv_def deref_rmpp_recv_def recv_inv_def)

lemma del_recv_ok:
  assumes "agent_inv P a" "i < length (rmpp_list a)"
  shows "agent_inv P (del_recv i a)" "held a = held (del_recv i a) + held_recv (rmpp_list a ! i)"
proof -
  have split: "rmpp_list a = take i (rmpp_list a) @ rmpp_list a ! i # drop (Suc i) (rmpp_list a)"
    using assms(2) by (rule id_take_nth_drop)
  have "distinct (map rr_key (take i (rmpp_list a) @ rmpp_list a ! i # drop (Suc i) (rmpp_list a)))"
    using assms(1) by (simp add: agent_inv_def flip: split)
  with assms(1) show "agent_inv P (del_recv i a)"
    by (auto simp: agent_inv_def del_recv_def dest: in_set_takeD in_set_dropD)
  have "held a = (\<Sum>r\<leftarrow>take i (rmpp_list a) @ rmpp_list a ! i # drop (Suc i) (rmpp_list a). held_recv r)"
    by (simp add: held_def flip: split)
  then show "held a = held (del_recv i a) + held_recv (rmpp_list a ! i)"
    by (simp add: held_def del_recv_def add_ac)
qed

text \<open>The release of a context never waits, and frees exactly what the context owned.\<close>

lemma recv_timeout_handler_ok:
  assumes "agent_inv P a" "i < length (rmpp_list a)"
  obtains a' out where "recv_timeout_handler env a i = Some (a', out)" "agent_inv P a'" "cap_opa_mad a' = cap_opa_mad a"
    "held a = held a' + freed out"
proof (cases "rr_state (rmpp_list a ! i) = RMPP_STATE_ACTIVE")
  case True
  let ?r = "rmpp_list a ! i"
  have ri: "recv_inv P ?r" using assms by (simp add: agent_inv_def)
  then have "destroy_rmpp_recv (?r\<lparr>rr_state := RMPP_STATE_TIMEOUT\<rparr>) = Some ()"
    by (simp add: destroy_rmpp_recv_def deref_rmpp_recv_def recv_inv_def)
  with True have "recv_timeout_handler env a i =
      Some (del_recv i a, nack_recv env (rmpp_wc ?r) IB_MGMT_RMPP_STATUS_T2L @ [ib_free_recv_mad (rmpp_wc ?r)])"
    by (simp add: recv_timeout_handler_def Let_def)
  then show ?thesis
    by (rule that) (use del_recv_ok [OF assms] True in \<open>simp_all add: held_recv_def rr_segs_def\<close>)
next
  case False
  then have "recv_timeout_handler env a i = Some (a, [])" by (simp add: recv_timeout_handler_def Let_def)
  then show ?thesis by (rule that) (use assms in simp_all)
qed

lemma recv_cleanup_handler_ok:
  assumes "agent_inv P a" "i < length (rmpp_list a)" "cleanup_work (rmpp_list a ! i)"
  obtains a' out where "recv_cleanup_handler a i = Some (a', out)" "agent_inv P a'" "cap_opa_mad a' = cap_opa_mad a"
    "held a = held a' + freed out"
proof -
  have ri: "recv_inv P (rmpp_list a ! i)" using assms(1,2) by (simp add: agent_inv_def)
  have "recv_cleanup_handler a i = Some (del_recv i a, [])"
    by (simp add: recv_cleanup_handler_def destroy_ok [OF ri])
  then show ?thesis
    by (rule that) (use del_recv_ok [OF assms(1,2)] ri assms(3) in \<open>simp_all add: held_recv_def recv_inv_def recv_live_def\<close>)
qed

lemma cancel_recvs_ok:
  assumes "\<forall>r\<in>set rs. recv_inv P r"
  obtains out where "cancel_recvs (map (\<lambda>r. r\<lparr>timeout_work := False, cleanup_work := False\<rparr>) rs) = Some out"
    "freed out = (\<Sum>r\<leftarrow>rs. held_recv r)"
proof -
  have "\<exists>out. cancel_recvs (map (\<lambda>r. r\<lparr>timeout_work := False, cleanup_work := False\<rparr>) rs) = Some out \<and>
          freed out = (\<Sum>r\<leftarrow>rs. held_recv r)"
    using assms
  proof (induction rs)
    case (Cons r rs)
    then obtain out where "cancel_recvs (map (\<lambda>r. r\<lparr>timeout_work := False, cleanup_work := False\<rparr>) rs) = Some out"
      "freed out = (\<Sum>r\<leftarrow>rs. held_recv r)" by auto
    moreover have "destroy_rmpp_recv (r\<lparr>timeout_work := False, cleanup_work := False\<rparr>) = Some ()"
      using Cons.prems by (simp add: destroy_rmpp_recv_def deref_rmpp_recv_def recv_inv_def)
    ultimately show ?case
      by (cases "rr_state r = RMPP_STATE_COMPLETE")
        (simp_all add: held_recv_def rr_segs_def ib_free_recv_mad_def)
  qed simp
  then show ?thesis using that by blast
qed

lemma ib_cancel_rmpp_recvs_ok:
  assumes "agent_inv P a"
  obtains out where "ib_cancel_rmpp_recvs a = Some (a\<lparr>rmpp_list := []\<rparr>, out)" "freed out = held a"
proof -
  obtain out where "cancel_recvs (map (\<lambda>r. r\<lparr>timeout_work := False, cleanup_work := False\<rparr>) (rmpp_list a)) = Some out"
    "freed out = held a"
    using cancel_recvs_ok [of "rmpp_list a" P] assms unfolding agent_inv_def held_def by blast
  then show ?thesis using that by (simp add: ib_cancel_rmpp_recvs_def)
qed

section \<open>Runs of the receiver\<close>

text \<open>
  The receiver with its history: the datagrams that arrived, the buffers freed, and the messages
  handed to the client. \<open>P k m\<close> says which datagrams the network may bring for the message \<open>k\<close>, in any
  order, any number of times, or never.
\<close>

record rmpp_sys =
  sys_agent :: mad_agent
  sys_arrived :: "rmpp_mad multiset"
  sys_freed :: "rmpp_mad multiset"
  sys_handed :: "ib_mad_recv_wc list"

inductive rmpp_step :: "(rmpp_key \<Rightarrow> rmpp_mad \<Rightarrow> bool) \<Rightarrow> rmpp_sys \<Rightarrow> rmpp_sys \<Rightarrow> bool" for P where
  step_data: "\<lbrakk>P (wc_key wc) (recv_mad wc); wc_rmpp_list wc = [recv_mad wc];
      process_rmpp_data env (sys_agent s) wc = (a', out, ret)\<rbrakk> \<Longrightarrow>
    rmpp_step P s \<lparr>sys_agent = a', sys_arrived = add_mset (recv_mad wc) (sys_arrived s),
                   sys_freed = sys_freed s + freed out,
                   sys_handed = (case ret of None \<Rightarrow> sys_handed s | Some wc' \<Rightarrow> wc' # sys_handed s)\<rparr>"
| step_timeout: "\<lbrakk>i < length (rmpp_list (sys_agent s)); recv_timeout_handler env (sys_agent s) i = Some (a', out)\<rbrakk> \<Longrightarrow>
    rmpp_step P s (s\<lparr>sys_agent := a', sys_freed := sys_freed s + freed out\<rparr>)"
| step_cleanup: "\<lbrakk>i < length (rmpp_list (sys_agent s)); cleanup_work (rmpp_list (sys_agent s) ! i);
      recv_cleanup_handler (sys_agent s) i = Some (a', out)\<rbrakk> \<Longrightarrow>
    rmpp_step P s (s\<lparr>sys_agent := a', sys_freed := sys_freed s + freed out\<rparr>)"
| step_cancel: "ib_cancel_rmpp_recvs (sys_agent s) = Some (a', out) \<Longrightarrow>
    rmpp_step P s (s\<lparr>sys_agent := a', sys_freed := sys_freed s + freed out\<rparr>)"

definition rmpp_init :: "rmpp_sys \<Rightarrow> bool" where
  "rmpp_init s \<longleftrightarrow> rmpp_list (sys_agent s) = [] \<and> sys_arrived s = {#} \<and> sys_freed s = {#} \<and> sys_handed s = []"

definition rmpp_invar :: "(rmpp_key \<Rightarrow> rmpp_mad \<Rightarrow> bool) \<Rightarrow> rmpp_sys \<Rightarrow> bool" where
  "rmpp_invar P s \<longleftrightarrow>
     agent_inv P (sys_agent s) \<and>
     sys_arrived s = held (sys_agent s) + sys_freed s + (\<Sum>wc\<leftarrow>sys_handed s. mset (wc_rmpp_list wc)) \<and>
     (\<forall>wc\<in>set (sys_handed s). complete_msg (cap_opa_mad (sys_agent s)) P (wc_key wc) wc)"

lemma complete_msg_key: "complete_msg opa P k wc \<Longrightarrow> complete_msg opa P (wc_key wc) wc"
  unfolding complete_msg_def by blast

lemma rmpp_step_invar:
  assumes "rmpp_step P s t" "rmpp_invar P s"
  shows "rmpp_invar P t"
  using assms
proof (induction rule: rmpp_step.induct)
  case (step_data wc env s a' out ret)
  have "agent_step_ok P (sys_agent s) wc (a', out, ret)"
    using process_rmpp_data_ok [of P "sys_agent s" wc env] step_data by (simp add: rmpp_invar_def)
  then show ?case using step_data.prems step_data.hyps(2)
    by (auto simp: rmpp_invar_def agent_step_ok_def add_ac split: option.splits intro: complete_msg_key)
next
  case (step_timeout i s env a' out)
  then have inv: "agent_inv P (sys_agent s)" by (simp add: rmpp_invar_def)
  show ?case
    by (rule recv_timeout_handler_ok [OF inv step_timeout.hyps(1), of env])
      (use step_timeout in \<open>simp add: rmpp_invar_def add_ac\<close>)
next
  case (step_cleanup i s a' out)
  then have inv: "agent_inv P (sys_agent s)" by (simp add: rmpp_invar_def)
  show ?case
    by (rule recv_cleanup_handler_ok [OF inv step_cleanup.hyps(1,2)])
      (use step_cleanup in \<open>simp add: rmpp_invar_def add_ac\<close>)
next
  case (step_cancel s a' out)
  then have inv: "agent_inv P (sys_agent s)" by (simp add: rmpp_invar_def)
  show ?case
    by (rule ib_cancel_rmpp_recvs_ok [OF inv])
      (use step_cancel in \<open>auto simp: rmpp_invar_def agent_inv_def held_def add_ac\<close>)
qed

interpretation rr: invariant_system rmpp_init "rmpp_step P" "rmpp_invar P" for P
  by unfold_locales (simp add: rmpp_init_def rmpp_invar_def agent_inv_def held_def, rule rmpp_step_invar)

text \<open>The data step as a function, for runs on concrete datagrams.\<close>

definition feed :: "rmpp_env \<Rightarrow> ib_mad_recv_wc \<Rightarrow> rmpp_sys \<Rightarrow> rmpp_sys" where
  "feed env wc s =
     (case process_rmpp_data env (sys_agent s) wc of (a', out, ret) \<Rightarrow>
        \<lparr>sys_agent = a', sys_arrived = add_mset (recv_mad wc) (sys_arrived s),
         sys_freed = sys_freed s + freed out,
         sys_handed = (case ret of None \<Rightarrow> sys_handed s | Some wc' \<Rightarrow> wc' # sys_handed s)\<rparr>)"

lemma feed_step: "P (wc_key wc) (recv_mad wc) \<Longrightarrow> wc_rmpp_list wc = [recv_mad wc] \<Longrightarrow> rmpp_step P s (feed env wc s)"
  unfolding feed_def by (cases "process_rmpp_data env (sys_agent s) wc") (simp add: step_data)

lemma reach_feed:
  "reach rmpp_init (rmpp_step P) s \<Longrightarrow> P (wc_key wc) (recv_mad wc) \<Longrightarrow> wc_rmpp_list wc = [recv_mad wc] \<Longrightarrow>
   reach rmpp_init (rmpp_step P) (feed env wc s)"
  by (rule reach_step, assumption, rule feed_step)

definition ok_env :: rmpp_env where
  "ok_env = \<lparr>kmalloc_ok = True, create_ah_ok = True, create_send_mad_ok = True, post_send_ok = True\<rparr>"

definition empty_sys :: "int \<Rightarrow> rmpp_sys" where
  "empty_sys act =
     \<lparr>sys_agent = \<lparr>recv_max_active = act, cap_opa_mad = False, rmpp_list = []\<rparr>,
      sys_arrived = {#}, sys_freed = {#}, sys_handed = []\<rparr>"

lemma reach_empty: "reach rmpp_init (rmpp_step P) (empty_sys act)"
  by (rule reach_init) (simp add: rmpp_init_def empty_sys_def)

text \<open>A segment of a subnet administration table, as a datagram.\<close>

definition sa_seg :: "u32 \<Rightarrow> u8 \<Rightarrow> u32 \<Rightarrow> ib_mad_recv_wc" where
  "sa_seg n flags len =
     (let m = \<lparr>mad_base_version = 1, mad_mgmt_class = 3, mad_class_version = 2, mad_method = 0x92, mad_tid = 7,
               rmpp_version = 1, rmpp_type = 1, rmpp_rtime_flags = flags, rmpp_status = 0, rmpp_seg_num = n,
               paylen_newwin = len, mad_data = []\<rparr>
      in \<lparr>recv_mad = m, wc_src_qp = 1, wc_slid = 4, wc_rmpp_list = [m], wc_mad_len = 0\<rparr>)"

lemma sa_seg_fresh [simp]: "wc_rmpp_list (sa_seg n flags len) = [recv_mad (sa_seg n flags len)]"
  by (simp add: sa_seg_def Let_def)

section \<open>Messages of a correct sender\<close>

text \<open>
  What the receiver relies on: the datagrams of the message \<open>k\<close> are numbered from 1 in the order of
  the message, and exactly the last one carries the flag. The network may lose, repeat and reorder
  them.
\<close>

definition in_msg :: "(rmpp_key \<Rightarrow> rmpp_mad list) \<Rightarrow> rmpp_key \<Rightarrow> rmpp_mad \<Rightarrow> bool" where
  "in_msg msg k m \<longleftrightarrow> m \<in> set (msg k)"

locale message_source =
  fixes msg :: "rmpp_key \<Rightarrow> rmpp_mad list"
  assumes msg_num: "i < length (msg k) \<Longrightarrow> get_seg_num (msg k ! i) = int i + 1"
    and msg_last: "i < length (msg k) \<Longrightarrow> get_last_flag (msg k ! i) \<longleftrightarrow> Suc i = length (msg k)"
begin

lemma in_msg_nth:
  assumes "in_msg msg k m"
  obtains i where "i < length (msg k)" "m = msg k ! i" "get_seg_num m = int i + 1"
  using assms msg_num by (auto simp: in_msg_def in_set_conv_nth)

lemma in_msg_unique: "in_msg msg k m \<Longrightarrow> get_seg_num m = int i + 1 \<Longrightarrow> i < length (msg k) \<and> m = msg k ! i"
  by (auto elim!: in_msg_nth)

theorem complete_msg_exact:
  assumes "complete_msg opa (in_msg msg) k wc"
  shows "wc_rmpp_list wc = msg k \<and> msg k \<noteq> [] \<and>
    wc_mad_len wc = msg_len opa (hd (msg k)) (last (msg k)) (int (length (msg k)))"
proof -
  let ?L = "wc_rmpp_list wc"
  from assms obtain n where n: "n < length ?L" "get_last_flag (?L ! n)" "\<forall>i\<le>n. get_seg_num (?L ! i) = int i + 1"
    and ml: "wc_mad_len wc = msg_len opa (?L ! 0) (?L ! n) (int n + 1)"
    and s: "seg_sorted ?L" and b: "\<forall>m\<in>set ?L. in_msg msg k m" by (auto simp: complete_msg_def)
  have eq: "i < length (msg k) \<and> ?L ! i = msg k ! i" if "i \<le> n" for i
    using in_msg_unique [of k "?L ! i" i] b n that by simp
  with n(2) msg_last [of n k] have len: "Suc n = length (msg k)" by simp
  have "length ?L = Suc n"
  proof (rule ccontr)
    assume "length ?L \<noteq> Suc n"
    with n(1) have "Suc n < length ?L" by simp
    moreover from this have "get_seg_num (?L ! n) < get_seg_num (?L ! Suc n)"
      using seg_sorted_nth [OF s, of n "Suc n"] by simp
    moreover obtain i where "i < length (msg k)" "get_seg_num (?L ! Suc n) = int i + 1"
      using b \<open>Suc n < length ?L\<close> by (meson in_msg_nth nth_mem)
    ultimately show False using n(3) len by simp
  qed
  with len eq have list: "?L = msg k" by (intro nth_equalityI) auto
  have ne: "msg k \<noteq> []" using len by auto
  then have "?L ! n = last (msg k)" "?L ! 0 = hd (msg k)"
    using len by (simp_all add: list last_conv_nth hd_conv_nth flip: len)
  moreover have "int n + 1 = int (length (msg k))" using len by simp
  ultimately show ?thesis using list ne ml by simp
qed

text \<open>Every message handed to the client is a message of the sender, whole and in order.\<close>

theorem delivery:
  assumes "reach rmpp_init (rmpp_step (in_msg msg)) s" "wc \<in> set (sys_handed s)"
  shows "wc_rmpp_list wc = msg (wc_key wc) \<and> msg (wc_key wc) \<noteq> [] \<and>
    wc_mad_len wc = msg_len (cap_opa_mad (sys_agent s)) (hd (msg (wc_key wc))) (last (msg (wc_key wc)))
      (int (length (msg (wc_key wc))))"
proof (rule complete_msg_exact)
  show "complete_msg (cap_opa_mad (sys_agent s)) (in_msg msg) (wc_key wc) wc"
    using rr.reach_invar [OF assms(1)] assms(2) by (simp add: rmpp_invar_def)
qed

end

section \<open>Properties\<close>

text \<open>
  C18. No received buffer is lost and none is released twice, as long as the handlers of an agent do not overlap: at any moment of any
  run of whole handlers, the datagrams that arrived are, each exactly once, those held in unfinished contexts, those freed, and those
  handed to the client. This covers duplicates, segments outside the window, failed allocations,
  timeouts, the cleanup timer and the shutdown of the agent.
\<close>
theorem rmpp_buffers_conserved:
  assumes "reach rmpp_init (rmpp_step P) s"
  shows "sys_arrived s = held (sys_agent s) + sys_freed s + (\<Sum>wc\<leftarrow>sys_handed s. mset (wc_rmpp_list wc))"
  using rr.reach_invar [OF assms] by (simp add: rmpp_invar_def)

theorem rmpp_buffers_conserved_witness:
  "\<exists>s. reach rmpp_init (rmpp_step (\<lambda>_ _. True)) s \<and> size (sys_arrived s) = 2 \<and> size (held (sys_agent s)) = 2 \<and>
     sys_arrived s = held (sys_agent s) + sys_freed s + (\<Sum>wc\<leftarrow>sys_handed s. mset (wc_rmpp_list wc))"
proof -
  let ?s = "feed ok_env (sa_seg 3 1 0) (feed ok_env (sa_seg 1 3 0) (empty_sys 512))"
  have r: "reach rmpp_init (rmpp_step (\<lambda>_ _. True)) ?s"
    by (intro reach_feed reach_empty) simp_all
  have "size (sys_arrived ?s) = 2" "size (held (sys_agent ?s)) = 2" by code_simp+
  with r rmpp_buffers_conserved [OF r] show ?thesis by blast
qed

text \<open>
  C26. In every reachable state each unfinished context holds the segments 1 to \<open>seg_num\<close> without a
  gap at the front of a strictly ordered list, the next segment is missing, no buffer lies beyond
  the window it advertised, and what it acknowledged it has received. No two contexts of an agent
  belong to the same message.
\<close>
theorem rmpp_window_invariant:
  assumes "reach rmpp_init (rmpp_step P) s" "r \<in> set (rmpp_list (sys_agent s))"
  shows "0 \<le> last_ack r \<and> last_ack r \<le> seg_num r \<and> seg_num r \<le> newwin r \<and>
    map get_seg_num (take (nat (seg_num r)) (rr_segs r)) = [1..seg_num r] \<and>
    (\<forall>m\<in>set (drop (nat (seg_num r)) (rr_segs r)). seg_num r + 1 < get_seg_num m \<and> get_seg_num m \<le> newwin r) \<and>
    distinct (map rr_key (rmpp_list (sys_agent s)))"
proof (intro conjI)
  from rr.reach_invar [OF assms(1)] have inv: "agent_inv P (sys_agent s)" by (simp add: rmpp_invar_def)
  then show "distinct (map rr_key (rmpp_list (sys_agent s)))" by (simp add: agent_inv_def)
  from inv assms(2) have core: "recv_core P r" by (simp add: agent_inv_def recv_inv_def recv_live_def)
  then have c: "cur_seg_buf r < length (rr_segs r)" "seg_num r = int (cur_seg_buf r) + 1"
    "\<forall>i\<le>cur_seg_buf r. get_seg_num (rr_segs r ! i) = int i + 1" by (simp_all add: recv_core_def seg_prefix_def)
  then have n: "nat (seg_num r) = Suc (cur_seg_buf r)" by simp
  have "rr_segs r ! cur_seg_buf r \<in> set (rr_segs r)" using c(1) by simp
  with core have "get_seg_num (rr_segs r ! cur_seg_buf r) \<le> newwin r" by (simp add: recv_core_def)
  with c show "seg_num r \<le> newwin r" by simp
  show "0 \<le> last_ack r" "last_ack r \<le> seg_num r" using core by (simp_all add: recv_core_def)
  show "map get_seg_num (take (nat (seg_num r)) (rr_segs r)) = [1..seg_num r]"
    using c n by (intro nth_equalityI) (auto simp: less_Suc_eq_le)
  show "\<forall>m\<in>set (drop (nat (seg_num r)) (rr_segs r)). seg_num r + 1 < get_seg_num m \<and> get_seg_num m \<le> newwin r"
    using core n by (auto simp: recv_core_def seg_gap_def dest: in_set_dropD)
qed

theorem rmpp_window_invariant_witness:
  "\<exists>s r. reach rmpp_init (rmpp_step (\<lambda>_ _. True)) s \<and> r \<in> set (rmpp_list (sys_agent s)) \<and>
     seg_num r = 1 \<and> newwin r = 65 \<and> map get_seg_num (rr_segs r) = [1, 3] \<and>
     map get_seg_num (take (nat (seg_num r)) (rr_segs r)) = [1..seg_num r]"
proof -
  let ?s = "feed ok_env (sa_seg 3 1 0) (feed ok_env (sa_seg 1 3 0) (empty_sys 512))"
  let ?r = "hd (rmpp_list (sys_agent ?s))"
  have r: "reach rmpp_init (rmpp_step (\<lambda>_ _. True)) ?s"
    by (intro reach_feed reach_empty) simp_all
  have "rmpp_list (sys_agent ?s) \<noteq> []" by code_simp
  then have mem: "?r \<in> set (rmpp_list (sys_agent ?s))" by (rule hd_in_set)
  have vals: "seg_num ?r = 1" "newwin ?r = 65" "map get_seg_num (rr_segs ?r) = [1, 3]" by code_simp+
  from rmpp_window_invariant [OF r mem] have "map get_seg_num (take (nat (seg_num ?r)) (rr_segs ?r)) = [1..seg_num ?r]"
    by blast
  with r mem vals show ?thesis by (intro exI [of _ ?s] exI [of _ ?r] conjI)
qed

section \<open>Handlers that overlap\<close>

text \<open>The parts of \<open>continue_rmpp\<close>: the tests of the state and the window, and the rest of the handler on the context that was acquired.\<close>

definition continue_test :: "mad_rmpp_recv \<Rightarrow> ib_mad_recv_wc \<Rightarrow> bool" where
  "continue_test r wc \<longleftrightarrow> (let n = get_seg_num (recv_mad wc) in
     \<not> (rr_state r = RMPP_STATE_TIMEOUT \<or> n > newwin r) \<and> \<not> (n \<le> last_ack r \<or> rr_state r = RMPP_STATE_COMPLETE))"

definition continue_add ::
  "rmpp_env \<Rightarrow> mad_agent \<Rightarrow> mad_rmpp_recv \<Rightarrow> ib_mad_recv_wc \<Rightarrow> mad_rmpp_recv \<times> rmpp_out list \<times> ib_mad_recv_wc option" where
  "continue_add env a r wc =
     (case find_seg_location (rr_segs r) (get_seg_num (recv_mad wc)) of
        None \<Rightarrow> (deref_rmpp_recv r, [ib_free_recv_mad wc], None)
      | Some p \<Rightarrow>
          let cur_is_prev = (cur_seg_buf r = p);
              r = list_add_seg (recv_mad wc) p r in
          if \<not> cur_is_prev then (deref_rmpp_recv r, [], None)
          else let r = update_seg_num r (Some (Suc p)) in
            if get_last_flag (rr_segs r ! cur_seg_buf r)
            then let r = r\<lparr>rr_state := RMPP_STATE_COMPLETE\<rparr>;
                     (r, out, done_wc) = complete_rmpp env a r
                 in (deref_rmpp_recv r, out, Some done_wc)
            else if seg_num r = newwin r
            then let r = r\<lparr>newwin := newwin r + window_size a\<rparr>;
                     (r, out) = ack_recv env r wc
                 in (deref_rmpp_recv r, out, None)
            else (deref_rmpp_recv r, [], None))"

lemma continue_rmpp_parts:
  assumes "acquire_rmpp_recv a wc = Some (k, r)" "continue_test r wc"
  shows "continue_rmpp env a wc = (case continue_add env a r wc of (r, out, ret) \<Rightarrow> (set_recv k r a, out, ret))"
  using assms by (auto simp: continue_rmpp_def continue_test_def continue_add_def Let_def split: option.splits prod.splits)

text \<open>The parts of \<open>recv_timeout_handler\<close>: the section under the lock of the agent, and what follows it.\<close>

definition timeout_begin :: "mad_rmpp_recv \<Rightarrow> mad_rmpp_recv option" where
  "timeout_begin r = (if rr_state r \<noteq> RMPP_STATE_ACTIVE then None else Some (r\<lparr>rr_state := RMPP_STATE_TIMEOUT\<rparr>))"

definition timeout_end :: "rmpp_env \<Rightarrow> mad_rmpp_recv \<Rightarrow> rmpp_out list option" where
  "timeout_end env r = (case destroy_rmpp_recv r of None \<Rightarrow> None
     | Some _ \<Rightarrow> Some (nack_recv env (rmpp_wc r) IB_MGMT_RMPP_STATUS_T2L @ [ib_free_recv_mad (rmpp_wc r)]))"

lemma recv_timeout_handler_parts:
  "recv_timeout_handler env a k = (case timeout_begin (rmpp_list a ! k) of
     None \<Rightarrow> Some (a, [])
   | Some r \<Rightarrow> map_option (\<lambda>out. (del_recv k a, out)) (timeout_end env r))"
  by (simp add: recv_timeout_handler_def timeout_begin_def timeout_end_def Let_def split: option.splits)

lemma deref_wc [simp]: "rmpp_wc (deref_rmpp_recv r) = rmpp_wc r"
  by (simp add: deref_rmpp_recv_def)

lemma continue_add_done: "continue_add env a r wc = (r', out, Some done_wc) \<Longrightarrow> rmpp_wc r' = done_wc"
  by (auto simp: continue_add_def complete_rmpp_def Let_def split: option.splits if_splits prod.splits)

text \<open>
  The time-out of a context that comes between the tests of a last segment and the rest of its handler: \<open>RMPP_STATE_COMPLETE\<close> overwrites
  \<open>RMPP_STATE_TIMEOUT\<close>, the message is handed to the client, and the time-out frees all its buffers.
\<close>
theorem rmpp_timeout_race:
  assumes "continue_test r wc" "timeout_begin r = Some r1" "continue_add env a r1 wc = (r2, out, Some done_wc)"
    "timeout_end env r2 = Some out'"
  shows "freed out' = mset (wc_rmpp_list done_wc)"
  using assms(4) continue_add_done [OF assms(3)] by (auto simp: timeout_end_def split: option.splits)

theorem rmpp_timeout_race_witness:
  "\<exists>r1 r2 out done_wc out'. timeout_begin (rmpp_list (sys_agent (feed ok_env (sa_seg 1 3 0) (empty_sys 512))) ! 0) = Some r1 \<and>
     continue_add ok_env (sys_agent (empty_sys 512)) (r1\<lparr>rr_refcount := 2\<rparr>) (sa_seg 2 5 220) = (r2, out, Some done_wc) \<and>
     length (wc_rmpp_list done_wc) = 2 \<and> freed out' = mset (wc_rmpp_list done_wc)"
proof -
  let ?r = "(rmpp_list (sys_agent (feed ok_env (sa_seg 1 3 0) (empty_sys 512))) ! 0)"
  define r1 where "r1 = ?r\<lparr>rr_state := RMPP_STATE_TIMEOUT\<rparr>"
  obtain r2 out ret where add: "continue_add ok_env (sys_agent (empty_sys 512)) (r1\<lparr>rr_refcount := 2\<rparr>) (sa_seg 2 5 220) = (r2, out, ret)"
    by (metis prod_cases3)
  have test: "continue_test (?r\<lparr>rr_refcount := 2\<rparr>) (sa_seg 2 5 220)" by code_simp
  have tb: "timeout_begin ?r = Some r1" "timeout_begin (?r\<lparr>rr_refcount := 2\<rparr>) = Some (r1\<lparr>rr_refcount := 2\<rparr>)"
    unfolding r1_def by code_simp+
  have "(case continue_add ok_env (sys_agent (empty_sys 512)) (r1\<lparr>rr_refcount := 2\<rparr>) (sa_seg 2 5 220) of (r2, out, ret) \<Rightarrow>
      map_option (\<lambda>wc. length (wc_rmpp_list wc)) ret = Some 2 \<and> timeout_end ok_env r2 \<noteq> None)"
    unfolding r1_def by code_simp
  then obtain done_wc out' where d: "ret = Some done_wc" "length (wc_rmpp_list done_wc) = 2" "timeout_end ok_env r2 = Some out'"
    using add by auto
  from rmpp_timeout_race [OF test tb(2) add [unfolded d(1)] d(3)] tb(1) add d show ?thesis by blast
qed

end
