(* ===== verification/Rmpp_Send.thy ===== *)
theory Rmpp_Send
  imports Rmpp_Recv Verbs_Tables
begin

text \<open>
  The sending half of RMPP: the cutting of a message into segments (\<open>get_pad_size\<close>,
  \<open>alloc_send_rmpp_list\<close> and \<open>ib_create_send_mad\<close> of \<open>mad.c\<close>), the window-controlled transmission
  (\<open>mad_rmpp.c\<close>), and the completion, retry and cancellation of a send (\<open>mad.c\<close>) as far as a single
  work request is concerned.

  Correspondence.
  \<^item> \<open>mad_send_wr\<close> is \<open>struct ib_mad_send_wr_private\<close> with its \<open>send_buf\<close>: the header template \<open>sb_mad\<close>,
    the segments in the order of \<open>rmpp_list\<close>, and the control fields. \<open>last_ack_seg\<close> and \<open>cur_seg\<close>
    are positions in that list; the position behind the last segment is the list head itself, which a
    walk over the circular list passes. The field \<open>num\<close> of segment \<open>p\<close> is \<open>p + 1\<close>; what the code reads as
    \<open>num\<close> at the list head is memory that is not a segment, an argument \<open>head_num\<close>.
  \<^item> The lists of the agent a request can be on are the field \<open>sw_list\<close>.
  \<^item> The result of \<open>ib_find_send_mad\<close>, which matches an incoming datagram with a request by transaction
    and address, is an argument of the handlers that call it.
  \<^item> The outcomes of DMA mapping and posting, the clock and \<open>msecs_to_jiffies\<close> are fields of \<open>send_env\<close>.
\<close>

section \<open>Cutting a message into segments\<close>

definition get_pad_size :: "int \<Rightarrow> int \<Rightarrow> int \<Rightarrow> int" where
  "get_pad_size hdr_len data_len mad_size =
     (let seg_size = mad_size - hdr_len in
      if data_len \<noteq> 0 \<and> seg_size \<noteq> 0
      then let pad = seg_size - data_len mod seg_size in (if pad = seg_size then 0 else pad)
      else seg_size)"

text \<open>The allocation loop; \<open>None\<close> is a loop that does not end.\<close>

function alloc_segs ::
  "(nat \<Rightarrow> u8 list option) \<Rightarrow> int \<Rightarrow> int \<Rightarrow> u8 list list \<Rightarrow> u8 list list result option" where
  "alloc_segs kmalloc left seg_size segs =
     (if left \<le> 0 then Some (Inr segs)
      else if seg_size \<le> 0 then None
      else case kmalloc (length segs) of
             None \<Rightarrow> Some (Inl ENOMEM)
           | Some mem \<Rightarrow> alloc_segs kmalloc (left - seg_size) seg_size (segs @ [mem]))"
  by pat_completeness auto
termination by (relation "measure (\<lambda>(_, left, _, _). nat left)") auto

declare alloc_segs.simps [simp del]

datatype send_where = On_send_list | On_wait_list | On_done_list | Off_list

record mad_send_wr =
  sb_mad :: rmpp_mad
  sb_hdr_len :: int
  sb_data_len :: int
  sb_seg_count :: int
  sb_seg_size :: int
  sb_seg_rmpp_size :: int
  sb_timeout_ms :: int
  sb_retries :: int
  sw_timeout :: u64
  sw_max_retries :: int
  sw_retries_left :: int
  sw_refcount :: int
  sw_status :: ib_wc_status
  sw_segs :: "u8 list list"
  sw_last_ack_seg :: nat
  sw_cur_seg :: nat
  sw_last_ack :: int
  sw_seg_num :: int
  sw_newwin :: int
  sw_pad :: int
  sw_list :: send_where

text \<open>\<open>memset\<close> of the padding behind the data of the last segment.\<close>

definition zero_padding :: "int \<Rightarrow> int \<Rightarrow> u8 list list \<Rightarrow> u8 list list" where
  "zero_padding seg_size pad segs =
     (if pad \<noteq> 0 \<and> segs \<noteq> []
      then butlast segs @ [take (nat (seg_size - pad)) (last segs) @ replicate (nat pad) 0]
      else segs)"

definition alloc_send_rmpp_list ::
  "(nat \<Rightarrow> u8 list option) \<Rightarrow> u8 \<Rightarrow> mad_send_wr \<Rightarrow> int \<Rightarrow> mad_send_wr result option" where
  "alloc_send_rmpp_list kmalloc rmpp_ver wr mad_size =
     (let wr = wr\<lparr>sb_seg_size := mad_size - sb_hdr_len wr, sb_seg_rmpp_size := mad_size - IB_MGMT_RMPP_HDR\<rparr>;
          pad = sw_pad wr in
      case alloc_segs kmalloc (sb_data_len wr + pad) (sb_seg_size wr) [] of
        None \<Rightarrow> None
      | Some (Inl e) \<Rightarrow> Some (Inl e)
      | Some (Inr segs) \<Rightarrow>
          let segs = zero_padding (sb_seg_size wr) pad segs;
              mad = ib_set_rmpp_flags IB_MGMT_RMPP_FLAG_ACTIVE
                      ((sb_mad wr)\<lparr>rmpp_version := rmpp_ver, rmpp_type := IB_MGMT_RMPP_TYPE_DATA\<rparr>)
          in Some (Inr (wr\<lparr>sb_seg_count := int (length segs), sw_segs := segs, sb_mad := mad,
                          sw_cur_seg := 0, sw_last_ack_seg := 0\<rparr>)))"

definition ib_mad_kernel_rmpp_agent :: "u8 \<Rightarrow> bool \<Rightarrow> bool" where
  "ib_mad_kernel_rmpp_agent rmpp_ver user_rmpp \<longleftrightarrow> rmpp_ver \<noteq> 0 \<and> \<not> user_rmpp"

text \<open>A zeroed request, as \<open>kzalloc\<close> leaves it, over the header template \<open>mad\<close>.\<close>

definition zero_wr :: "rmpp_mad \<Rightarrow> mad_send_wr" where
  "zero_wr mad = \<lparr>sb_mad = mad, sb_hdr_len = 0, sb_data_len = 0, sb_seg_count = 0, sb_seg_size = 0,
     sb_seg_rmpp_size = 0, sb_timeout_ms = 0, sb_retries = 0, sw_timeout = 0, sw_max_retries = 0,
     sw_retries_left = 0, sw_refcount = 0, sw_status = IB_WC_SUCCESS, sw_segs = [], sw_last_ack_seg = 0,
     sw_cur_seg = 0, sw_last_ack = 0, sw_seg_num = 0, sw_newwin = 0, sw_pad = 0, sw_list = Off_list\<rparr>"

definition ib_create_send_mad ::
  "(nat \<Rightarrow> u8 list option) \<Rightarrow> bool \<Rightarrow> u8 \<Rightarrow> bool \<Rightarrow> bool \<Rightarrow> bool \<Rightarrow> int \<Rightarrow> int \<Rightarrow> u8 \<Rightarrow> rmpp_mad \<Rightarrow>
   mad_send_wr result option" where
  "ib_create_send_mad kmalloc kzalloc_ok rmpp_ver user_rmpp opa rmpp_active hdr_len data_len base_version mad =
     (let mad_size = (if opa \<and> base_version = OPA_MGMT_BASE_VERSION
                      then IB_MGMT_RMPP_HDR + OPA_MGMT_RMPP_DATA else IB_MGMT_RMPP_HDR + IB_MGMT_RMPP_DATA);
          pad = get_pad_size hdr_len data_len mad_size;
          message_size = hdr_len + data_len + pad in
      if (if ib_mad_kernel_rmpp_agent rmpp_ver user_rmpp
          then \<not> rmpp_active \<and> message_size > mad_size
          else rmpp_active \<or> message_size > mad_size)
      then Some (Inl EINVAL)
      else if \<not> kzalloc_ok then Some (Inl ENOMEM)
      else let wr = (zero_wr mad)\<lparr>sb_hdr_len := hdr_len, sb_data_len := data_len, sw_pad := pad\<rparr> in
           if rmpp_active then alloc_send_rmpp_list kmalloc rmpp_ver wr mad_size else Some (Inr wr))"

section \<open>Sending a segment\<close>

record send_env =
  hdr_map_ok :: bool
  payload_map_ok :: bool
  post_ok :: bool
  head_num :: int
  jiffies :: u64
  m2j :: "int \<Rightarrow> u64"
  resp_env :: rmpp_env

definition node_num :: "int \<Rightarrow> mad_send_wr \<Rightarrow> nat \<Rightarrow> int" where
  "node_num hn wr p = (if p < length (sw_segs wr) then int p + 1 else hn)"

text \<open>The nodes of the circular list behind node \<open>p\<close>, up to \<open>p\<close>; node \<open>n\<close> is the list head.\<close>

definition ring_after :: "nat \<Rightarrow> nat \<Rightarrow> nat list" where
  "ring_after n p = take n (rotate (Suc p) [0..<Suc n])"

text \<open>\<open>list_for_each_entry (pos, start, ..) if (pos->num == num) break;\<close>\<close>

definition walk_to :: "(nat \<Rightarrow> int) \<Rightarrow> nat list \<Rightarrow> nat \<Rightarrow> int \<Rightarrow> nat" where
  "walk_to num_of nodes start num =
     (case find (\<lambda>p. num_of p = num) nodes of Some p \<Rightarrow> p | None \<Rightarrow> start)"

definition ib_get_rmpp_segment :: "int \<Rightarrow> mad_send_wr \<Rightarrow> int \<Rightarrow> mad_send_wr \<times> u8 list option" where
  "ib_get_rmpp_segment hn wr num =
     (let n = length (sw_segs wr);
          cur = sw_cur_seg wr;
          cur' = (if node_num hn wr cur < num then walk_to (node_num hn wr) (ring_after n cur) cur num
                  else if node_num hn wr cur > num then walk_to (node_num hn wr) (rev (ring_after n cur)) cur num
                  else cur)
      in (wr\<lparr>sw_cur_seg := cur'\<rparr>, nth_opt (sw_segs wr) cur'))"

text \<open>
  The datagram that goes out: the header template and the payload behind it. \<open>None\<close> in the second
  component is a payload read from memory that is not a segment; \<open>False\<close> in the third an error.
  The request is one with segments; the payload of a request without is not modelled, and neither is the shorter last payload that OPA allows:
  a segment goes out with its padding.
\<close>

definition ib_send_mad :: "send_env \<Rightarrow> mad_send_wr \<Rightarrow> mad_send_wr \<times> rmpp_mad option list \<times> bool" where
  "ib_send_mad env wr =
     (if \<not> hdr_map_ok env then (wr, [], False)
      else let (wr, data) = ib_get_rmpp_segment (head_num env) wr (sw_seg_num wr) in
           if \<not> payload_map_ok env then (wr, [], False)
           else if \<not> post_ok env then (wr, [], False)
           else (wr, [map_option (\<lambda>d. (sb_mad wr)\<lparr>mad_data := mad_data (sb_mad wr) @ d\<rparr>) data], True))"

text \<open>The header of segment \<open>n\<close>.\<close>

definition next_seg_hdr :: "mad_send_wr \<Rightarrow> int \<Rightarrow> rmpp_mad" where
  "next_seg_hdr wr n =
     (let m = ib_set_rmpp_flags IB_MGMT_RMPP_FLAG_ACTIVE (sb_mad wr);
          m = m\<lparr>rmpp_seg_num := word_of_int n\<rparr>;
          (m, paylen) =
            (if n = 1
             then (m\<lparr>rmpp_rtime_flags := rmpp_rtime_flags m OR IB_MGMT_RMPP_FLAG_FIRST\<rparr>,
                   word_of_int (sb_seg_count wr * sb_seg_rmpp_size wr - sw_pad wr))
             else (m, 0 :: u32));
          (m, paylen) =
            (if n = sb_seg_count wr
             then (m\<lparr>rmpp_rtime_flags := rmpp_rtime_flags m OR IB_MGMT_RMPP_FLAG_LAST\<rparr>,
                   word_of_int (sb_seg_rmpp_size wr - sw_pad wr))
             else (m, paylen))
      in m\<lparr>paylen_newwin := paylen\<rparr>)"

definition send_next_seg :: "send_env \<Rightarrow> mad_send_wr \<Rightarrow> mad_send_wr \<times> rmpp_mad option list \<times> bool" where
  "send_next_seg env wr =
     (let wr = wr\<lparr>sw_seg_num := sw_seg_num wr + 1\<rparr>;
          wr = wr\<lparr>sb_mad := next_seg_hdr wr (sw_seg_num wr)\<rparr>;
          timeout = sb_timeout_ms wr;
          wr = (if timeout = 0 \<or> timeout > 2000 then wr\<lparr>sw_timeout := m2j env 2000\<rparr> else wr)
      in ib_send_mad env wr)"

section \<open>Completion of a send\<close>

datatype rmpp_result =
    IB_RMPP_RESULT_PROCESSED
  | IB_RMPP_RESULT_CONSUMED
  | IB_RMPP_RESULT_INTERNAL
  | IB_RMPP_RESULT_UNHANDLED
  | RMPP_ERROR

definition rmpp_active :: "mad_send_wr \<Rightarrow> bool" where
  "rmpp_active wr \<longleftrightarrow> ib_get_rmpp_flags (sb_mad wr) AND IB_MGMT_RMPP_FLAG_ACTIVE \<noteq> 0"

definition ib_process_rmpp_send_wc ::
  "send_env \<Rightarrow> mad_send_wr \<Rightarrow> ib_wc_status \<Rightarrow> mad_send_wr \<times> ib_wc_status \<times> rmpp_mad option list \<times> rmpp_result" where
  "ib_process_rmpp_send_wc env wr wc_status =
     (if \<not> rmpp_active wr then (wr, wc_status, [], IB_RMPP_RESULT_UNHANDLED)
      else if rmpp_type (sb_mad wr) \<noteq> IB_MGMT_RMPP_TYPE_DATA then (wr, wc_status, [], IB_RMPP_RESULT_INTERNAL)
      else if wc_status \<noteq> IB_WC_SUCCESS \<or> sw_status wr \<noteq> IB_WC_SUCCESS then (wr, wc_status, [], IB_RMPP_RESULT_PROCESSED)
      else if sw_timeout wr = 0 then (wr, wc_status, [], IB_RMPP_RESULT_PROCESSED)
      else if sw_last_ack wr = sb_seg_count wr
      then (wr\<lparr>sw_timeout := m2j env (sb_timeout_ms wr)\<rparr>, wc_status, [], IB_RMPP_RESULT_PROCESSED)
      else if sw_seg_num wr = sw_newwin wr \<or> sw_seg_num wr = sb_seg_count wr
      then (wr, wc_status, [], IB_RMPP_RESULT_PROCESSED)
      else let (wr, posted, ok) = send_next_seg env wr in
           if \<not> ok then (wr, IB_WC_GENERAL_ERR, posted, IB_RMPP_RESULT_PROCESSED)
           else (wr, wc_status, posted, IB_RMPP_RESULT_CONSUMED))"

definition wait_for_response :: "send_env \<Rightarrow> mad_send_wr \<Rightarrow> mad_send_wr" where
  "wait_for_response env wr = wr\<lparr>sw_timeout := sw_timeout wr + jiffies env, sw_list := On_wait_list\<rparr>"

definition ib_reset_mad_timeout :: "send_env \<Rightarrow> mad_send_wr \<Rightarrow> int \<Rightarrow> mad_send_wr" where
  "ib_reset_mad_timeout env wr timeout_ms = wait_for_response env (wr\<lparr>sw_timeout := m2j env timeout_ms\<rparr>)"

definition ib_mark_mad_done :: "mad_send_wr \<Rightarrow> mad_send_wr" where
  "ib_mark_mad_done wr =
     (let wr = wr\<lparr>sw_timeout := 0\<rparr> in if sw_refcount wr = 1 then wr\<lparr>sw_list := On_done_list\<rparr> else wr)"

text \<open>The status the client is notified of, if it is.\<close>

definition ib_mad_complete_send_wr ::
  "send_env \<Rightarrow> mad_send_wr \<Rightarrow> ib_wc_status \<Rightarrow> mad_send_wr \<times> rmpp_mad option list \<times> ib_wc_status option" where
  "ib_mad_complete_send_wr env wr wc_status =
     (let (wr, wc_status, posted, ret) = ib_process_rmpp_send_wc env wr wc_status in
      if ret = IB_RMPP_RESULT_CONSUMED then (wr, posted, None)
      else
        let wr = (if wc_status \<noteq> IB_WC_SUCCESS \<and> sw_status wr = IB_WC_SUCCESS
                  then wr\<lparr>sw_status := wc_status, sw_refcount := sw_refcount wr - (if sw_timeout wr > 0 then 1 else 0)\<rparr>
                  else wr);
            wr = wr\<lparr>sw_refcount := sw_refcount wr - 1\<rparr> in
        if sw_refcount wr > 0
        then (if sw_refcount wr = 1 \<and> sw_timeout wr \<noteq> 0 \<and> sw_status wr = IB_WC_SUCCESS
              then wait_for_response env wr else wr, posted, None)
        else (wr\<lparr>sw_list := Off_list\<rparr>, posted,
              Some (if sw_status wr \<noteq> IB_WC_SUCCESS then sw_status wr else wc_status)))"

section \<open>Incoming control datagrams\<close>

type_synonym send_result = "mad_send_wr option \<times> rmpp_mad option list \<times> rmpp_out list \<times> ib_wc_status option"

definition abort_send :: "send_env \<Rightarrow> mad_send_wr option \<Rightarrow> send_result" where
  "abort_send env found =
     (case found of None \<Rightarrow> (None, [], [], None)
      | Some wr \<Rightarrow>
          if sw_last_ack wr = sb_seg_count wr \<or> sw_timeout wr = 0 \<or> sw_status wr \<noteq> IB_WC_SUCCESS
          then (Some wr, [], [], None)
          else let (wr, posted, n) = ib_mad_complete_send_wr env (ib_mark_mad_done wr) IB_WC_REM_ABORT_ERR
               in (Some wr, posted, [], n))"

text \<open>The pair \<open>abort_send; nack_recv\<close> of the error paths.\<close>

definition abort_nack :: "send_env \<Rightarrow> mad_send_wr option \<Rightarrow> ib_mad_recv_wc \<Rightarrow> u8 \<Rightarrow> send_result" where
  "abort_nack env found wc status =
     (let (f, posted, out, n) = abort_send env found in (f, posted, out @ nack_recv (resp_env env) wc status, n))"

definition adjust_last_ack :: "int \<Rightarrow> mad_send_wr \<Rightarrow> int \<Rightarrow> mad_send_wr" where
  "adjust_last_ack hn wr num =
     wr\<lparr>sw_last_ack := num,
        sw_last_ack_seg := walk_to (node_num hn wr) (ring_after (length (sw_segs wr)) (sw_last_ack_seg wr))
                             (sw_last_ack_seg wr) num\<rparr>"

definition process_ds_ack :: "mad_agent \<Rightarrow> ib_mad_recv_wc \<Rightarrow> int \<Rightarrow> mad_agent" where
  "process_ds_ack a wc nw =
     (case find_rmpp_recv a wc of None \<Rightarrow> a
      | Some i \<Rightarrow> if rr_state (rmpp_list a ! i) = RMPP_STATE_COMPLETE
                  then set_recv i ((rmpp_list a ! i)\<lparr>repwin := nw\<rparr>) a else a)"

definition process_rmpp_ack ::
  "send_env \<Rightarrow> mad_agent \<Rightarrow> mad_send_wr option \<Rightarrow> ib_mad_recv_wc \<Rightarrow> mad_agent \<times> send_result" where
  "process_rmpp_ack env a found wc =
     (if rmpp_status (recv_mad wc) \<noteq> 0 then (a, abort_nack env found wc IB_MGMT_RMPP_STATUS_BAD_STATUS)
      else let n = sint (rmpp_seg_num (recv_mad wc)); nw = sint (paylen_newwin (recv_mad wc)) in
      if nw < n then (a, abort_nack env found wc IB_MGMT_RMPP_STATUS_W2S)
      else (case found of
          None \<Rightarrow> (if n = 0 then process_ds_ack a wc nw else a, None, [], [], None)
        | Some wr \<Rightarrow>
            if sw_last_ack wr = sb_seg_count wr \<and> sw_timeout wr \<noteq> 0
            then (a, Some wr, [], ack_ds_ack (resp_env env) wc, None)
            else if sw_last_ack wr = sb_seg_count wr \<or> sw_timeout wr = 0 \<or> sw_status wr \<noteq> IB_WC_SUCCESS
            then (a, Some wr, [], [], None)
            else if n > sb_seg_count wr \<or> n > sw_newwin wr
            then (a, abort_nack env found wc IB_MGMT_RMPP_STATUS_S2B)
            else if nw < sw_newwin wr \<or> n < sw_last_ack wr then (a, Some wr, [], [], None)
            else
              let wr = (if n > sw_last_ack wr
                        then (adjust_last_ack (head_num env) wr n)\<lparr>sw_retries_left := sw_max_retries wr\<rparr> else wr);
                  wr = wr\<lparr>sw_newwin := nw\<rparr> in
              if sw_last_ack wr = sb_seg_count wr
              then (if sb_timeout_ms wr = 0
                    then let (wr, posted, note) = ib_mad_complete_send_wr env (ib_mark_mad_done wr) IB_WC_SUCCESS
                         in (a, Some wr, posted, [], note)
                    else (a, Some (if sw_refcount wr = 1 then ib_reset_mad_timeout env wr (sb_timeout_ms wr) else wr),
                          [], ack_ds_ack (resp_env env) wc, None))
              else if sw_refcount wr = 1 \<and> sw_seg_num wr < sw_newwin wr \<and> sw_seg_num wr < sb_seg_count wr
              then let (wr, posted, ok) = send_next_seg env wr in
                   (a, Some (if ok then wr\<lparr>sw_refcount := sw_refcount wr + 1, sw_list := On_send_list\<rparr> else wr),
                    posted, [], None)
              else (a, Some wr, [], [], None)))"

definition process_rmpp_stop :: "send_env \<Rightarrow> mad_send_wr option \<Rightarrow> ib_mad_recv_wc \<Rightarrow> send_result" where
  "process_rmpp_stop env found wc =
     (if rmpp_status (recv_mad wc) \<noteq> IB_MGMT_RMPP_STATUS_RESX
      then abort_nack env found wc IB_MGMT_RMPP_STATUS_BAD_STATUS else abort_send env found)"

definition process_rmpp_abort :: "send_env \<Rightarrow> mad_send_wr option \<Rightarrow> ib_mad_recv_wc \<Rightarrow> send_result" where
  "process_rmpp_abort env found wc =
     (if rmpp_status (recv_mad wc) < IB_MGMT_RMPP_STATUS_ABORT_MIN \<or> rmpp_status (recv_mad wc) > IB_MGMT_RMPP_STATUS_ABORT_MAX
      then abort_nack env found wc IB_MGMT_RMPP_STATUS_BAD_STATUS else abort_send env found)"

text \<open>The dispatcher of every datagram that arrives at an RMPP agent.\<close>

definition ib_process_rmpp_recv_wc ::
  "send_env \<Rightarrow> mad_agent \<Rightarrow> mad_send_wr option \<Rightarrow> ib_mad_recv_wc \<Rightarrow>
   mad_agent \<times> send_result \<times> ib_mad_recv_wc option" where
  "ib_process_rmpp_recv_wc env a found wc =
     (let m = recv_mad wc;
          free = (\<lambda>(f, posted, out, n). (f, posted, out @ [ib_free_recv_mad wc], n)) in
      if rmpp_rtime_flags m AND IB_MGMT_RMPP_FLAG_ACTIVE = 0 then (a, (found, [], [], None), Some wc)
      else if rmpp_version m \<noteq> IB_MGMT_RMPP_VERSION
      then (a, free (abort_nack env found wc IB_MGMT_RMPP_STATUS_UNV), None)
      else if rmpp_type m = IB_MGMT_RMPP_TYPE_DATA
      then let (a, out, ret) = process_rmpp_data (resp_env env) a wc in (a, (found, [], out, None), ret)
      else if rmpp_type m = IB_MGMT_RMPP_TYPE_ACK
      then let (a, r) = process_rmpp_ack env a found wc in (a, free r, None)
      else if rmpp_type m = IB_MGMT_RMPP_TYPE_STOP then (a, free (process_rmpp_stop env found wc), None)
      else if rmpp_type m = IB_MGMT_RMPP_TYPE_ABORT then (a, free (process_rmpp_abort env found wc), None)
      else (a, free (abort_nack env found wc IB_MGMT_RMPP_STATUS_BADT), None))"

section \<open>Start and retry\<close>

text \<open>The first window: the reply window of the request this message answers. \<open>dlid\<close> is the
  destination of the address handle, if it can be queried.\<close>

definition init_newwin :: "mad_agent \<Rightarrow> u32 option \<Rightarrow> mad_send_wr \<Rightarrow> int" where
  "init_newwin a dlid wr =
     (if mad_method (sb_mad wr) AND IB_MGMT_METHOD_RESP = 0 then 1
      else case find (\<lambda>r. rr_tid r = mad_tid (sb_mad wr) \<and> rr_mgmt_class r = mad_mgmt_class (sb_mad wr) \<and>
                          rr_class_version r = mad_class_version (sb_mad wr) \<and>
                          rr_method r AND IB_MGMT_METHOD_RESP = 0 \<and> dlid = Some (rr_slid r)) (rmpp_list a) of
             None \<Rightarrow> 1 | Some r \<Rightarrow> repwin r)"

definition ib_send_rmpp_mad ::
  "send_env \<Rightarrow> mad_agent \<Rightarrow> u32 option \<Rightarrow> mad_send_wr \<Rightarrow> mad_send_wr \<times> rmpp_mad option list \<times> rmpp_result" where
  "ib_send_rmpp_mad env a dlid wr =
     (if \<not> rmpp_active wr then (wr, [], IB_RMPP_RESULT_UNHANDLED)
      else if rmpp_type (sb_mad wr) \<noteq> IB_MGMT_RMPP_TYPE_DATA then (wr\<lparr>sw_seg_num := 1\<rparr>, [], IB_RMPP_RESULT_INTERNAL)
      else let wr = wr\<lparr>sw_newwin := init_newwin a dlid wr,
                       sw_refcount := sw_refcount wr + (if sw_timeout wr = 0 then 1 else 0)\<rparr>;
               (wr, posted, ok) = send_next_seg env wr
           in (wr, posted, if ok then IB_RMPP_RESULT_CONSUMED else RMPP_ERROR))"

definition ib_retry_rmpp :: "send_env \<Rightarrow> mad_send_wr \<Rightarrow> mad_send_wr \<times> rmpp_mad option list \<times> rmpp_result" where
  "ib_retry_rmpp env wr =
     (if \<not> rmpp_active wr then (wr, [], IB_RMPP_RESULT_UNHANDLED)
      else if sw_last_ack wr = sb_seg_count wr then (wr, [], IB_RMPP_RESULT_PROCESSED)
      else let wr = wr\<lparr>sw_seg_num := sw_last_ack wr, sw_cur_seg := sw_last_ack_seg wr\<rparr>;
               (wr, posted, ok) = send_next_seg env wr
           in (wr, posted, if ok then IB_RMPP_RESULT_CONSUMED else IB_RMPP_RESULT_PROCESSED))"

definition retry_send :: "send_env \<Rightarrow> mad_send_wr \<Rightarrow> mad_send_wr \<times> rmpp_mad option list \<times> bool" where
  "retry_send env wr =
     (if sw_retries_left wr = 0 then (wr, [], False)
      else let wr = wr\<lparr>sw_retries_left := sw_retries_left wr - 1, sb_retries := sb_retries wr + 1,
                       sw_timeout := m2j env (sb_timeout_ms wr)\<rparr>;
               (wr, posted, ret) = ib_retry_rmpp env wr;
               (wr, posted, ok) =
                 (case ret of
                    IB_RMPP_RESULT_UNHANDLED \<Rightarrow> ib_send_mad env wr
                  | IB_RMPP_RESULT_CONSUMED \<Rightarrow> (wr, posted, True)
                  | _ \<Rightarrow> (wr, posted, False))
           in (if ok then wr\<lparr>sw_refcount := sw_refcount wr + 1, sw_list := On_send_list\<rparr> else wr, posted, ok))"

text \<open>The part of \<open>timeout_sends\<close> for the request at the head of the wait list, once its time is up.\<close>

definition timeout_send :: "send_env \<Rightarrow> mad_send_wr \<Rightarrow> mad_send_wr \<times> rmpp_mad option list \<times> ib_wc_status option" where
  "timeout_send env wr =
     (let wr = wr\<lparr>sw_list := Off_list\<rparr>;
          (wr, posted, ok) = (if sw_status wr = IB_WC_SUCCESS then retry_send env wr else (wr, [], False)) in
      if ok then (wr, posted, None)
      else (wr, posted, Some (if sw_status wr = IB_WC_SUCCESS then IB_WC_RESP_TIMEOUT_ERR else sw_status wr)))"

text \<open>The part of \<open>ib_post_send_mad\<close> that starts a request of an RMPP agent.\<close>

definition post_rmpp ::
  "send_env \<Rightarrow> mad_agent \<Rightarrow> u32 option \<Rightarrow> mad_send_wr \<Rightarrow> mad_send_wr \<times> rmpp_mad option list \<times> bool" where
  "post_rmpp env a dlid wr =
     (let wr = wr\<lparr>sw_timeout := m2j env (sb_timeout_ms wr), sw_max_retries := sb_retries wr,
                  sw_retries_left := sb_retries wr, sb_retries := 0\<rparr>;
          wr = wr\<lparr>sw_refcount := 1 + (if sw_timeout wr > 0 then 1 else 0), sw_status := IB_WC_SUCCESS,
                  sw_list := On_send_list\<rparr>;
          (wr, posted, ret) = ib_send_rmpp_mad env a dlid wr;
          (wr, posted, ok) =
            (case ret of
               RMPP_ERROR \<Rightarrow> (wr, posted, False)
             | IB_RMPP_RESULT_CONSUMED \<Rightarrow> (wr, posted, True)
             | _ \<Rightarrow> ib_send_mad env wr)
      in (if ok then wr else wr\<lparr>sw_list := Off_list\<rparr>, posted, ok))"

section \<open>Walks over the circular list\<close>

lemma ring_after_eq: "p < n \<Longrightarrow> ring_after n p = [Suc p..<n] @ n # [0..<p]"
proof -
  assume "p < n"
  then have "rotate (Suc p) [0..<Suc n] = drop (Suc p) [0..<Suc n] @ take (Suc p) [0..<Suc n]"
    by (simp only: rotate_drop_take length_upt) simp
  also have "\<dots> = [Suc p..<Suc n] @ [0..<Suc p]"
    using \<open>p < n\<close> by (simp only: drop_upt take_upt) simp
  finally show ?thesis
    using \<open>p < n\<close> unfolding ring_after_def by (simp add: take_Cons')
qed

lemma find_upt_eq:
  assumes "\<And>p. p < n \<Longrightarrow> f p = int p + 1" "j \<le> n"
  shows "find (\<lambda>p. f p = int k + 1) [i..<j] = (if i \<le> k \<and> k < j then Some k else None)"
  using assms(2)
proof (induction "j - i" arbitrary: i)
  case (Suc d)
  then have "i < j" by simp
  then have "find (\<lambda>p. f p = int k + 1) [i..<j] =
      (if i = k then Some i else find (\<lambda>p. f p = int k + 1) [Suc i..<j])"
    using assms(1) [of i] Suc.prems by (simp add: upt_conv_Cons)
  with Suc.hyps(1) [of "Suc i"] Suc.hyps(2) Suc.prems \<open>i < j\<close> show ?case by auto
qed auto

lemma find_rev_upt_eq:
  assumes "\<And>p. p < n \<Longrightarrow> f p = int p + 1" "j \<le> n"
  shows "find (\<lambda>p. f p = int k + 1) (rev [0..<j]) = (if k < j then Some k else None)"
  using assms(2)
proof (induction j)
  case (Suc j)
  with assms(1) [of j] show ?case by auto
qed simp

lemma find_append: "find Q (xs @ ys) = (case find Q xs of None \<Rightarrow> find Q ys | Some x \<Rightarrow> Some x)"
  by (induction xs) auto

lemma walk_forward:
  assumes "\<And>p. p < n \<Longrightarrow> f p = int p + 1" "p < n" "k < n" "p < k \<or> p = k \<and> k = 0 \<and> f n \<noteq> 1"
  shows "walk_to f (ring_after n p) p (int k + 1) = k"
proof -
  have "find (\<lambda>p. f p = int k + 1) [Suc p..<n] = (if p < k then Some k else None)"
    using find_upt_eq [of n f n k "Suc p", OF assms(1)] assms(3) by (simp add: Suc_le_eq)
  then show ?thesis
    using assms(2,4) by (auto simp: walk_to_def ring_after_eq find_append)
qed

lemma walk_backward:
  assumes "\<And>p. p < n \<Longrightarrow> f p = int p + 1" "p < n" "k < p"
  shows "walk_to f (rev (ring_after n p)) p (int k + 1) = k"
proof -
  have "find (\<lambda>p. f p = int k + 1) (rev [0..<p]) = Some k"
    using find_rev_upt_eq [of n f p k, OF assms(1)] assms(2,3) by simp
  then show ?thesis using assms(2) by (simp add: walk_to_def ring_after_eq find_append)
qed

lemma ib_get_rmpp_segment_ok:
  assumes "sw_cur_seg wr < length (sw_segs wr)" "k < length (sw_segs wr)"
  shows "ib_get_rmpp_segment hn wr (int k + 1) = (wr\<lparr>sw_cur_seg := k\<rparr>, Some (sw_segs wr ! k))"
proof -
  let ?n = "length (sw_segs wr)" and ?c = "sw_cur_seg wr"
  have num: "node_num hn wr p = int p + 1" if "p < ?n" for p using that by (simp add: node_num_def)
  consider "?c < k" | "k < ?c" | "k = ?c" by linarith
  then show ?thesis
  proof cases
    case 1
    then show ?thesis
      using walk_forward [of ?n "node_num hn wr" ?c k] num assms
      by (simp add: ib_get_rmpp_segment_def Let_def nth_opt_Some)
  next
    case 2
    then show ?thesis
      using walk_backward [of ?n "node_num hn wr" ?c k] num assms
      by (simp add: ib_get_rmpp_segment_def Let_def nth_opt_Some)
  next
    case 3
    then show ?thesis using num assms by (simp add: ib_get_rmpp_segment_def Let_def nth_opt_Some)
  qed
qed

section \<open>The segments of a message\<close>

text \<open>The header template without the fields \<open>send_next_seg\<close> fills in.\<close>

definition mad_static :: "rmpp_mad \<Rightarrow> rmpp_mad" where
  "mad_static m = m\<lparr>rmpp_rtime_flags := rmpp_rtime_flags m AND 0xF8, rmpp_seg_num := 0, paylen_newwin := 0\<rparr>"

definition seg_flags :: "int \<Rightarrow> int \<Rightarrow> u8" where
  "seg_flags cnt k =
     IB_MGMT_RMPP_FLAG_ACTIVE OR (if k = 1 then IB_MGMT_RMPP_FLAG_FIRST else 0)
                              OR (if k = cnt then IB_MGMT_RMPP_FLAG_LAST else 0)"

definition seg_paylen :: "mad_send_wr \<Rightarrow> int \<Rightarrow> u32" where
  "seg_paylen wr k =
     (if k = sb_seg_count wr then word_of_int (sb_seg_rmpp_size wr - sw_pad wr)
      else if k = 1 then word_of_int (sb_seg_count wr * sb_seg_rmpp_size wr - sw_pad wr)
      else 0)"

definition segment_mad :: "mad_send_wr \<Rightarrow> int \<Rightarrow> rmpp_mad" where
  "segment_mad wr k =
     (let m = mad_static (sb_mad wr) in
      m\<lparr>rmpp_rtime_flags := rmpp_rtime_flags m OR seg_flags (sb_seg_count wr) k,
        rmpp_seg_num := word_of_int k, paylen_newwin := seg_paylen wr k,
        mad_data := mad_data m @ sw_segs wr ! nat (k - 1)\<rparr>)"

definition segments :: "mad_send_wr \<Rightarrow> rmpp_mad list" where
  "segments wr = map (segment_mad wr) [1..sb_seg_count wr]"

definition wr_ok :: "mad_send_wr \<Rightarrow> bool" where
  "wr_ok wr \<longleftrightarrow>
     1 \<le> sb_seg_count wr \<and> sb_seg_count wr < 2 ^ 31 \<and> sb_seg_count wr = int (length (sw_segs wr)) \<and>
     0 \<le> sw_last_ack wr \<and> sw_last_ack wr \<le> sb_seg_count wr \<and> 0 \<le> sw_seg_num wr \<and> sw_seg_num wr \<le> sb_seg_count wr \<and>
     int (sw_last_ack_seg wr) = (if sw_last_ack wr = 0 then 0 else sw_last_ack wr - 1) \<and>
     sw_cur_seg wr < length (sw_segs wr) \<and> rmpp_active wr \<and> rmpp_type (sb_mad wr) = IB_MGMT_RMPP_TYPE_DATA"

definition same_msg :: "mad_send_wr \<Rightarrow> mad_send_wr \<Rightarrow> bool" where
  "same_msg wr0 wr \<longleftrightarrow>
     mad_static (sb_mad wr) = mad_static (sb_mad wr0) \<and> sb_seg_count wr = sb_seg_count wr0 \<and>
     sb_seg_rmpp_size wr = sb_seg_rmpp_size wr0 \<and> sw_pad wr = sw_pad wr0 \<and> sw_segs wr = sw_segs wr0"

definition sent_ok :: "mad_send_wr \<Rightarrow> mad_send_wr \<Rightarrow> bool" where
  "sent_ok wr0 wr \<longleftrightarrow> wr_ok wr \<and> same_msg wr0 wr"

definition posts_ok :: "mad_send_wr \<Rightarrow> rmpp_mad option list \<Rightarrow> bool" where
  "posts_ok wr0 posted \<longleftrightarrow> set posted \<subseteq> Some ` set (segments wr0)"

lemma posts_ok_simps [simp]:
  "posts_ok wr0 []" "posts_ok wr0 (xs @ ys) \<longleftrightarrow> posts_ok wr0 xs \<and> posts_ok wr0 ys"
  by (auto simp: posts_ok_def)

lemma segment_mad_cong: "same_msg wr0 wr \<Longrightarrow> segment_mad wr k = segment_mad wr0 k"
  by (simp add: same_msg_def segment_mad_def seg_paylen_def Let_def)

lemma segment_in_segments: "1 \<le> k \<Longrightarrow> k \<le> sb_seg_count wr \<Longrightarrow> segment_mad wr k \<in> set (segments wr)"
  by (simp add: segments_def)

lemma sent_ok_upd [simp]:
  "sent_ok wr0 (wr\<lparr>sw_timeout := t\<rparr>) = sent_ok wr0 wr"
  "sent_ok wr0 (wr\<lparr>sw_list := l\<rparr>) = sent_ok wr0 wr"
  "sent_ok wr0 (wr\<lparr>sw_refcount := c\<rparr>) = sent_ok wr0 wr"
  "sent_ok wr0 (wr\<lparr>sw_status := st\<rparr>) = sent_ok wr0 wr"
  "sent_ok wr0 (wr\<lparr>sw_newwin := i\<rparr>) = sent_ok wr0 wr"
  "sent_ok wr0 (wr\<lparr>sw_retries_left := i\<rparr>) = sent_ok wr0 wr"
  "sent_ok wr0 (wr\<lparr>sw_max_retries := i\<rparr>) = sent_ok wr0 wr"
  "sent_ok wr0 (wr\<lparr>sb_retries := i\<rparr>) = sent_ok wr0 wr"
  by (simp_all add: sent_ok_def wr_ok_def same_msg_def rmpp_active_def)

section \<open>Flags\<close>

lemma flags_mask:
  fixes f x :: u8
  assumes "x AND 0xF8 = 0"
  shows "((f AND 0xF8) OR x) AND 0xF8 = f AND 0xF8" "((f AND 0xF8) OR x) AND 0x7 = x AND 0x7"
  using assms by (simp_all add: bit.conj_disj_distrib2 and.assoc)

lemma seg_flags_mask: "seg_flags c k AND 0xF8 = 0" "seg_flags c k AND 0x7 = seg_flags c k"
  by (simp_all add: seg_flags_def IB_MGMT_RMPP_FLAG_ACTIVE_def IB_MGMT_RMPP_FLAG_FIRST_def IB_MGMT_RMPP_FLAG_LAST_def)

lemma seg_flags_active: "seg_flags c k AND IB_MGMT_RMPP_FLAG_ACTIVE \<noteq> 0"
  and seg_flags_last: "seg_flags c k AND IB_MGMT_RMPP_FLAG_LAST \<noteq> 0 \<longleftrightarrow> k = c"
  and seg_flags_first: "seg_flags c k AND IB_MGMT_RMPP_FLAG_FIRST \<noteq> 0 \<longleftrightarrow> k = 1"
  by (simp_all add: seg_flags_def IB_MGMT_RMPP_FLAG_ACTIVE_def IB_MGMT_RMPP_FLAG_FIRST_def IB_MGMT_RMPP_FLAG_LAST_def)

text \<open>The header the next segment goes out with.\<close>

definition next_hdr :: "mad_send_wr \<Rightarrow> rmpp_mad" where
  "next_hdr wr =
     (let k = sw_seg_num wr + 1; f = rmpp_rtime_flags (sb_mad wr) in
      (sb_mad wr)\<lparr>rmpp_rtime_flags := (f AND 0xF8) OR seg_flags (sb_seg_count wr) k,
                  rmpp_seg_num := word_of_int k, paylen_newwin := seg_paylen wr k\<rparr>)"

lemma next_seg_hdr_eq: "next_seg_hdr (wr\<lparr>sw_seg_num := n\<rparr>) (sw_seg_num wr + 1) = next_hdr wr"
  by (rule rmpp_mad.equality)
    (simp_all add: next_seg_hdr_def next_hdr_def Let_def ib_set_rmpp_flags_def seg_flags_def seg_paylen_def or.assoc
      IB_MGMT_RMPP_FLAG_ACTIVE_def)

lemma send_next_seg_unfold:
  "send_next_seg env wr = ib_send_mad env
     (wr\<lparr>sw_seg_num := sw_seg_num wr + 1, sb_mad := next_hdr wr,
         sw_timeout := (if sb_timeout_ms wr = 0 \<or> sb_timeout_ms wr > 2000 then m2j env 2000 else sw_timeout wr)\<rparr>)"
  by (simp add: send_next_seg_def next_seg_hdr_eq Let_def)

lemma next_hdr_facts:
  "mad_static (next_hdr wr) = mad_static (sb_mad wr)"
  "ib_get_rmpp_flags (next_hdr wr) AND IB_MGMT_RMPP_FLAG_ACTIVE \<noteq> 0"
  "rmpp_type (next_hdr wr) = rmpp_type (sb_mad wr)"
  "(next_hdr wr)\<lparr>mad_data := mad_data (next_hdr wr) @ sw_segs wr ! nat (sw_seg_num wr)\<rparr> = segment_mad wr (sw_seg_num wr + 1)"
  by (simp_all add: next_hdr_def mad_static_def segment_mad_def ib_get_rmpp_flags_def Let_def
      flags_mask seg_flags_mask seg_flags_active)

text \<open>What a transmission leaves of the control state.\<close>

definition same_ctl :: "mad_send_wr \<Rightarrow> mad_send_wr \<Rightarrow> bool" where
  "same_ctl wr wr' \<longleftrightarrow>
     sw_last_ack wr' = sw_last_ack wr \<and> sw_newwin wr' = sw_newwin wr \<and> sw_refcount wr' = sw_refcount wr \<and>
     sw_status wr' = sw_status wr \<and> sw_list wr' = sw_list wr \<and> sb_timeout_ms wr' = sb_timeout_ms wr"

lemma ib_send_mad_ok:
  assumes "sent_ok wr0 wr" "0 < sw_seg_num wr"
    and "(sb_mad wr)\<lparr>mad_data := mad_data (sb_mad wr) @ sw_segs wr ! nat (sw_seg_num wr - 1)\<rparr> = segment_mad wr (sw_seg_num wr)"
  obtains wr' posted ok where "ib_send_mad env wr = (wr', posted, ok)" "sent_ok wr0 wr'" "posts_ok wr0 posted"
    "same_ctl wr wr'" "sw_seg_num wr' = sw_seg_num wr"
proof -
  let ?k = "nat (sw_seg_num wr - 1)"
  have k: "?k < length (sw_segs wr)" "sw_cur_seg wr < length (sw_segs wr)" "sw_seg_num wr \<le> sb_seg_count wr"
    using assms(1,2) by (auto simp: sent_ok_def wr_ok_def)
  have seg: "ib_get_rmpp_segment (head_num env) wr (sw_seg_num wr) = (wr\<lparr>sw_cur_seg := ?k\<rparr>, Some (sw_segs wr ! ?k))"
    using ib_get_rmpp_segment_ok [OF k(2,1), of "head_num env"] assms(2) by simp
  have "wr_ok (wr\<lparr>sw_cur_seg := ?k\<rparr>)" using assms(1) k(1) by (simp add: sent_ok_def wr_ok_def rmpp_active_def)
  moreover have "same_msg wr0 (wr\<lparr>sw_cur_seg := ?k\<rparr>)" using assms(1) by (simp add: sent_ok_def same_msg_def)
  ultimately have ok: "sent_ok wr0 (wr\<lparr>sw_cur_seg := ?k\<rparr>)" by (simp add: sent_ok_def)
  have "same_msg wr0 wr" using assms(1) by (simp add: sent_ok_def)
  then have "segment_mad wr (sw_seg_num wr) = segment_mad wr0 (sw_seg_num wr)" "sb_seg_count wr = sb_seg_count wr0"
    by (rule segment_mad_cong) (use \<open>same_msg wr0 wr\<close> in \<open>simp add: same_msg_def\<close>)
  then have post: "posts_ok wr0 [Some (segment_mad wr (sw_seg_num wr))]"
    using segment_in_segments [of "sw_seg_num wr" wr0] assms(2) k(3) by (simp add: posts_ok_def)
  consider "\<not> hdr_map_ok env" | "hdr_map_ok env" "\<not> payload_map_ok env \<or> \<not> post_ok env"
    | "hdr_map_ok env" "payload_map_ok env" "post_ok env" by blast
  then show ?thesis
  proof cases
    case 1
    then show ?thesis using assms(1) by (intro that [of wr "[]" False]) (simp_all add: ib_send_mad_def same_ctl_def)
  next
    case 2
    then show ?thesis using seg ok by (intro that [of "wr\<lparr>sw_cur_seg := ?k\<rparr>" "[]" False]) (auto simp: ib_send_mad_def same_ctl_def)
  next
    case 3
    then show ?thesis using seg ok post assms(3)
      by (intro that [of "wr\<lparr>sw_cur_seg := ?k\<rparr>" "[Some (segment_mad wr (sw_seg_num wr))]" True])
        (simp_all add: ib_send_mad_def same_ctl_def)
  qed
qed

lemma send_next_seg_ok:
  assumes "sent_ok wr0 wr" "sw_seg_num wr < sb_seg_count wr"
  obtains wr' posted ok where "send_next_seg env wr = (wr', posted, ok)" "sent_ok wr0 wr'" "posts_ok wr0 posted"
    "same_ctl wr wr'" "sw_seg_num wr' = sw_seg_num wr + 1"
proof -
  define t where "t = (if sb_timeout_ms wr = 0 \<or> sb_timeout_ms wr > 2000 then m2j env 2000 else sw_timeout wr)"
  let ?w = "wr\<lparr>sw_seg_num := sw_seg_num wr + 1, sb_mad := next_hdr wr, sw_timeout := t\<rparr>"
  have "wr_ok ?w" using assms next_hdr_facts [of wr] by (simp add: sent_ok_def wr_ok_def rmpp_active_def)
  moreover have "same_msg wr0 ?w" using assms next_hdr_facts [of wr] by (simp add: sent_ok_def same_msg_def)
  ultimately have w: "sent_ok wr0 ?w" by (simp add: sent_ok_def)
  have seg: "(sb_mad ?w)\<lparr>mad_data := mad_data (sb_mad ?w) @ sw_segs ?w ! nat (sw_seg_num ?w - 1)\<rparr> = segment_mad ?w (sw_seg_num ?w)"
    using next_hdr_facts(4) [of wr] segment_mad_cong [of wr ?w] next_hdr_facts(1) [of wr]
    by (simp add: same_msg_def)
  have pos: "0 < sw_seg_num ?w" using assms(1) by (simp add: sent_ok_def wr_ok_def)
  show ?thesis
    by (rule ib_send_mad_ok [OF w pos seg, of env])
      (rule that, auto simp: send_next_seg_unfold t_def same_ctl_def)
qed

section \<open>Every handler sends only segments of the message\<close>

lemma process_rmpp_send_wc_ok:
  assumes "sent_ok wr0 wr" "ib_process_rmpp_send_wc env wr st = (wr', st', posted, ret)"
  shows "sent_ok wr0 wr' \<and> posts_ok wr0 posted"
proof (cases "rmpp_active wr \<and> rmpp_type (sb_mad wr) = IB_MGMT_RMPP_TYPE_DATA \<and> st = IB_WC_SUCCESS \<and> sw_status wr = IB_WC_SUCCESS \<and>
    sw_timeout wr \<noteq> 0 \<and> sw_last_ack wr \<noteq> sb_seg_count wr \<and> sw_seg_num wr \<noteq> sw_newwin wr \<and> sw_seg_num wr \<noteq> sb_seg_count wr")
  case True
  then have lt: "sw_seg_num wr < sb_seg_count wr" using assms(1) by (auto simp: sent_ok_def wr_ok_def)
  obtain wr'' posted' ok where "send_next_seg env wr = (wr'', posted', ok)" "sent_ok wr0 wr''" "posts_ok wr0 posted'"
    by (rule send_next_seg_ok [OF assms(1) lt])
  with True assms(2) show ?thesis by (auto simp: ib_process_rmpp_send_wc_def split: if_splits)
next
  case False
  with assms show ?thesis by (auto simp: ib_process_rmpp_send_wc_def split: if_splits)
qed

lemma complete_send_wr_ok:
  assumes "sent_ok wr0 wr" "ib_mad_complete_send_wr env wr st = (wr', posted, note)"
  shows "sent_ok wr0 wr' \<and> posts_ok wr0 posted"
proof -
  obtain w st' p ret where wc: "ib_process_rmpp_send_wc env wr st = (w, st', p, ret)"
    by (metis prod_cases4)
  from process_rmpp_send_wc_ok [OF assms(1) wc] have "sent_ok wr0 w" "posts_ok wr0 p" by simp_all
  with assms(2) wc show ?thesis
    by (auto simp: ib_mad_complete_send_wr_def Let_def wait_for_response_def split: if_splits)
qed

lemma sent_ok_done [simp]: "sent_ok wr0 (ib_mark_mad_done wr) = sent_ok wr0 wr"
  by (simp add: ib_mark_mad_done_def Let_def)

lemma abort_send_ok:
  assumes "sent_ok wr0 wr" "abort_send env (Some wr) = (found', posted, out, note)"
  shows "\<exists>wr'. found' = Some wr' \<and> sent_ok wr0 wr' \<and> posts_ok wr0 posted"
proof -
  obtain w p n where "ib_mad_complete_send_wr env (ib_mark_mad_done wr) IB_WC_REM_ABORT_ERR = (w, p, n)"
    by (metis prod_cases3)
  moreover from complete_send_wr_ok [OF _ this, of wr0] assms(1) have "sent_ok wr0 w" "posts_ok wr0 p" by simp_all
  ultimately show ?thesis using assms by (auto simp: abort_send_def split: if_splits)
qed

lemma abort_nack_ok:
  assumes "sent_ok wr0 wr" "abort_nack env (Some wr) wc st = (found', posted, out, note)"
  shows "\<exists>wr'. found' = Some wr' \<and> sent_ok wr0 wr' \<and> posts_ok wr0 posted"
proof -
  obtain f p o' n where "abort_send env (Some wr) = (f, p, o', n)" by (metis prod_cases4)
  with abort_send_ok [OF assms(1) this] assms(2) show ?thesis by (simp add: abort_nack_def)
qed

lemma adjust_last_ack_ok:
  assumes "sent_ok wr0 wr" "sw_last_ack wr < n" "n \<le> sb_seg_count wr" "hn \<noteq> 1"
  shows "sent_ok wr0 (adjust_last_ack hn wr n)"
proof -
  let ?N = "length (sw_segs wr)" and ?p = "sw_last_ack_seg wr"
  from assms(1) have ok: "wr_ok wr" by (simp add: sent_ok_def)
  then have c: "sb_seg_count wr = int ?N" "0 \<le> sw_last_ack wr"
    "int ?p = (if sw_last_ack wr = 0 then 0 else sw_last_ack wr - 1)" by (simp_all add: wr_ok_def)
  have "?p < ?N" "nat (n - 1) < ?N" "?p < nat (n - 1) \<or> ?p = nat (n - 1) \<and> nat (n - 1) = 0 \<and> node_num hn wr ?N \<noteq> 1"
    using c assms(2-4) by (auto simp: node_num_def split: if_splits)
  then have "walk_to (node_num hn wr) (ring_after ?N ?p) ?p (int (nat (n - 1)) + 1) = nat (n - 1)"
    by (intro walk_forward) (simp_all add: node_num_def)
  then have "sw_last_ack_seg (adjust_last_ack hn wr n) = nat (n - 1)"
    using c(2) assms(2) by (simp add: adjust_last_ack_def)
  moreover have "0 < n" using c(2) assms(2) by simp
  ultimately have "wr_ok (adjust_last_ack hn wr n)"
    using ok assms(3) by (simp add: wr_ok_def adjust_last_ack_def rmpp_active_def)
  moreover have "same_msg wr0 (adjust_last_ack hn wr n)"
    using assms(1) by (simp add: sent_ok_def same_msg_def adjust_last_ack_def)
  ultimately show ?thesis by (simp add: sent_ok_def)
qed

text \<open>The part of \<open>process_rmpp_ack\<close> behind its checks, for an acknowledgement that moves the window.\<close>

definition ack_advance :: "send_env \<Rightarrow> mad_send_wr \<Rightarrow> int \<Rightarrow> int \<Rightarrow> mad_send_wr" where
  "ack_advance env wr n nw =
     (if n > sw_last_ack wr
      then (adjust_last_ack (head_num env) wr n)\<lparr>sw_retries_left := sw_max_retries wr\<rparr> else wr)\<lparr>sw_newwin := nw\<rparr>"

definition ack_react :: "send_env \<Rightarrow> mad_agent \<Rightarrow> ib_mad_recv_wc \<Rightarrow> mad_send_wr \<Rightarrow> mad_agent \<times> send_result" where
  "ack_react env a wc wr =
     (if sw_last_ack wr = sb_seg_count wr
      then (if sb_timeout_ms wr = 0
            then let (wr, posted, note) = ib_mad_complete_send_wr env (ib_mark_mad_done wr) IB_WC_SUCCESS
                 in (a, Some wr, posted, [], note)
            else (a, Some (if sw_refcount wr = 1 then ib_reset_mad_timeout env wr (sb_timeout_ms wr) else wr),
                  [], ack_ds_ack (resp_env env) wc, None))
      else if sw_refcount wr = 1 \<and> sw_seg_num wr < sw_newwin wr \<and> sw_seg_num wr < sb_seg_count wr
      then let (wr, posted, ok) = send_next_seg env wr in
           (a, Some (if ok then wr\<lparr>sw_refcount := sw_refcount wr + 1, sw_list := On_send_list\<rparr> else wr),
            posted, [], None)
      else (a, Some wr, [], [], None))"

lemma ack_advance_ok:
  assumes "sent_ok wr0 wr" "n \<le> sb_seg_count wr" "head_num env \<noteq> 1"
  shows "sent_ok wr0 (ack_advance env wr n nw)"
  using assms adjust_last_ack_ok [of wr0 wr n "head_num env"] by (simp add: ack_advance_def)

lemma ack_react_ok:
  assumes w: "sent_ok wr0 w" and res: "ack_react env a wc w = (a', found', posted, out, note)"
  shows "\<exists>wr'. found' = Some wr' \<and> sent_ok wr0 wr' \<and> posts_ok wr0 posted"
proof -
  consider (fin) "sw_last_ack w = sb_seg_count w" "sb_timeout_ms w = 0" | (resp) "sw_last_ack w = sb_seg_count w" "sb_timeout_ms w \<noteq> 0"
    | (send) "sw_last_ack w \<noteq> sb_seg_count w" "sw_refcount w = 1 \<and> sw_seg_num w < sw_newwin w \<and> sw_seg_num w < sb_seg_count w"
    | (wait) "sw_last_ack w \<noteq> sb_seg_count w" "\<not> (sw_refcount w = 1 \<and> sw_seg_num w < sw_newwin w \<and> sw_seg_num w < sb_seg_count w)"
    by blast
  then show ?thesis
  proof cases
    case fin
    obtain w' p nt where c: "ib_mad_complete_send_wr env (ib_mark_mad_done w) IB_WC_SUCCESS = (w', p, nt)"
      by (metis prod_cases3)
    have "sent_ok wr0 (ib_mark_mad_done w)" using w by simp
    from complete_send_wr_ok [OF this c] fin c res show ?thesis
      by (auto simp: ack_react_def)
  next
    case resp
    with res w show ?thesis
      by (auto simp: ack_react_def ib_reset_mad_timeout_def wait_for_response_def)
  next
    case send
    then have "sw_seg_num w < sb_seg_count w" by simp
    from send_next_seg_ok [OF w this, of env] obtain w' p ok where
      "send_next_seg env w = (w', p, ok)" "sent_ok wr0 w'" "posts_ok wr0 p" by metis
    with send res show ?thesis by (auto simp: ack_react_def split: if_splits)
  next
    case wait
    with res w show ?thesis by (auto simp: ack_react_def)
  qed
qed

lemma process_rmpp_ack_unfold:
  "process_rmpp_ack env a (Some wr) wc =
     (let n = sint (rmpp_seg_num (recv_mad wc)); nw = sint (paylen_newwin (recv_mad wc)) in
      if rmpp_status (recv_mad wc) \<noteq> 0 then (a, abort_nack env (Some wr) wc IB_MGMT_RMPP_STATUS_BAD_STATUS)
      else if nw < n then (a, abort_nack env (Some wr) wc IB_MGMT_RMPP_STATUS_W2S)
      else if sw_last_ack wr = sb_seg_count wr \<and> sw_timeout wr \<noteq> 0
      then (a, Some wr, [], ack_ds_ack (resp_env env) wc, None)
      else if sw_last_ack wr = sb_seg_count wr \<or> sw_timeout wr = 0 \<or> sw_status wr \<noteq> IB_WC_SUCCESS
      then (a, Some wr, [], [], None)
      else if n > sb_seg_count wr \<or> n > sw_newwin wr
      then (a, abort_nack env (Some wr) wc IB_MGMT_RMPP_STATUS_S2B)
      else if nw < sw_newwin wr \<or> n < sw_last_ack wr then (a, Some wr, [], [], None)
      else ack_react env a wc (ack_advance env wr n nw))"
  by (simp add: process_rmpp_ack_def ack_react_def ack_advance_def Let_def)

lemma process_rmpp_ack_ok:
  assumes "sent_ok wr0 wr" "head_num env \<noteq> 1" "process_rmpp_ack env a (Some wr) wc = (a', found', posted, out, note)"
  shows "\<exists>wr'. found' = Some wr' \<and> sent_ok wr0 wr' \<and> posts_ok wr0 posted"
proof -
  note abort = abort_nack_ok [OF assms(1)]
    and accept = ack_react_ok [OF ack_advance_ok [OF assms(1) _ assms(2)]]
  from assms(1,3) show ?thesis
    unfolding process_rmpp_ack_unfold Let_def
    by (auto simp: not_less split: if_splits intro: abort accept)
qed

lemma recv_wc_ok:
  assumes "sent_ok wr0 wr" "head_num env \<noteq> 1"
    and "ib_process_rmpp_recv_wc env a (Some wr) wc = (a', (found', posted, out, note), ret)"
  shows "\<exists>wr'. found' = Some wr' \<and> sent_ok wr0 wr' \<and> posts_ok wr0 posted"
proof -
  note nack = abort_nack_ok [OF assms(1)] and abort = abort_send_ok [OF assms(1)] and ack = process_rmpp_ack_ok [OF assms(1,2)]
  have stop: "process_rmpp_stop env (Some wr) wc = (f, p, o', n) \<Longrightarrow> \<exists>wr'. f = Some wr' \<and> sent_ok wr0 wr' \<and> posts_ok wr0 p" for f p o' n
    using nack abort by (simp add: process_rmpp_stop_def split: if_splits)
  have abrt: "process_rmpp_abort env (Some wr) wc = (f, p, o', n) \<Longrightarrow> \<exists>wr'. f = Some wr' \<and> sent_ok wr0 wr' \<and> posts_ok wr0 p" for f p o' n
    using nack abort by (simp add: process_rmpp_abort_def split: if_splits)
  from assms show ?thesis
    unfolding ib_process_rmpp_recv_wc_def Let_def
    by (auto split: if_splits prod.splits dest!: nack stop abrt ack)
qed

lemma retry_send_ok:
  assumes "sent_ok wr0 wr" "retry_send env wr = (wr', posted, ok)"
  shows "sent_ok wr0 wr' \<and> posts_ok wr0 posted"
proof (cases "sw_retries_left wr = 0")
  case False
  define w where "w = wr\<lparr>sw_retries_left := sw_retries_left wr - 1, sb_retries := sb_retries wr + 1, sw_timeout := m2j env (sb_timeout_ms wr)\<rparr>"
  have w: "sent_ok wr0 w" using assms(1) by (simp add: w_def)
  then have act: "rmpp_active w" by (simp add: sent_ok_def wr_ok_def)
  show ?thesis
  proof (cases "sw_last_ack w = sb_seg_count w")
    case True
    with False act assms(2) w show ?thesis by (simp add: retry_send_def ib_retry_rmpp_def w_def [symmetric] Let_def)
  next
    case lt: False
    let ?v = "w\<lparr>sw_seg_num := sw_last_ack w, sw_cur_seg := sw_last_ack_seg w\<rparr>"
    have "wr_ok ?v" using w by (auto simp: sent_ok_def wr_ok_def rmpp_active_def split: if_splits)
    moreover have "same_msg wr0 ?v" using w by (simp add: sent_ok_def same_msg_def)
    ultimately have v: "sent_ok wr0 ?v" by (simp add: sent_ok_def)
    have "sw_seg_num ?v < sb_seg_count ?v" using w lt by (simp add: sent_ok_def wr_ok_def)
    from send_next_seg_ok [OF v this, of env] obtain v' p ok' where
      "send_next_seg env ?v = (v', p, ok')" "sent_ok wr0 v'" "posts_ok wr0 p" by metis
    with False act lt assms(2) show ?thesis
      by (auto simp: retry_send_def ib_retry_rmpp_def w_def [symmetric] Let_def split: if_splits)
  qed
qed (use assms in \<open>simp add: retry_send_def\<close>)

lemma timeout_send_ok:
  assumes "sent_ok wr0 wr" "timeout_send env wr = (wr', posted, note)"
  shows "sent_ok wr0 wr' \<and> posts_ok wr0 posted"
proof -
  let ?w = "wr\<lparr>sw_list := Off_list\<rparr>"
  obtain w p ok where r: "retry_send env ?w = (w, p, ok)" by (metis prod_cases3)
  have "sent_ok wr0 ?w" using assms(1) by simp
  from retry_send_ok [OF this r] r assms show ?thesis by (auto simp: timeout_send_def Let_def split: if_splits)
qed

lemma post_rmpp_ok:
  assumes "wr_ok wr0" "sw_seg_num wr0 = 0" "post_rmpp env a dlid wr0 = (wr', posted, ok)"
  shows "sent_ok wr0 wr' \<and> posts_ok wr0 posted"
proof -
  define w where "w = wr0\<lparr>sw_timeout := m2j env (sb_timeout_ms wr0), sw_max_retries := sb_retries wr0,
      sw_retries_left := sb_retries wr0, sb_retries := 0,
      sw_refcount := 1 + (if m2j env (sb_timeout_ms wr0) > 0 then 1 else 0), sw_status := IB_WC_SUCCESS, sw_list := On_send_list\<rparr>"
  let ?v = "w\<lparr>sw_newwin := init_newwin a dlid w, sw_refcount := sw_refcount w + (if sw_timeout w = 0 then 1 else 0)\<rparr>"
  have "sent_ok wr0 wr0" using assms(1) by (simp add: sent_ok_def same_msg_def)
  then have w: "sent_ok wr0 w" and v: "sent_ok wr0 ?v" by (simp_all add: w_def)
  then have act: "rmpp_active w" "rmpp_type (sb_mad w) = IB_MGMT_RMPP_TYPE_DATA" by (simp_all add: sent_ok_def wr_ok_def)
  have "sw_seg_num ?v < sb_seg_count ?v" using assms(1,2) by (auto simp: w_def wr_ok_def)
  from send_next_seg_ok [OF v this, of env] obtain v' p ok' where
    "send_next_seg env ?v = (v', p, ok')" "sent_ok wr0 v'" "posts_ok wr0 p" by metis
  with act assms(3) show ?thesis
    by (auto simp: post_rmpp_def ib_send_rmpp_mad_def Let_def w_def [symmetric] split: if_splits)
qed

section \<open>Runs of a sender\<close>

text \<open>
  A request from the moment it is posted, with everything it sent and every notification of its
  client: completions of the hardware with any status, control datagrams of any content that match
  the request, and timeouts on the wait list, in any order. The memory behind the list head starts
  with a pointer, whose low half is not 1 because pointers are aligned.
\<close>

record snd_sys =
  snd_wr :: mad_send_wr
  snd_posted :: "rmpp_mad option list"
  snd_notes :: "ib_wc_status list"

definition note_list :: "ib_wc_status option \<Rightarrow> ib_wc_status list" where
  "note_list n = (case n of None \<Rightarrow> [] | Some st \<Rightarrow> [st])"

inductive snd_step :: "snd_sys \<Rightarrow> snd_sys \<Rightarrow> bool" where
  snd_complete: "\<lbrakk>sw_list (snd_wr s) \<noteq> Off_list; ib_mad_complete_send_wr env (snd_wr s) st = (wr', posted, n)\<rbrakk> \<Longrightarrow>
    snd_step s \<lparr>snd_wr = wr', snd_posted = snd_posted s @ posted, snd_notes = snd_notes s @ note_list n\<rparr>"
| snd_recv: "\<lbrakk>sw_list (snd_wr s) = On_send_list \<or> sw_list (snd_wr s) = On_wait_list; sw_status (snd_wr s) = IB_WC_SUCCESS;
      head_num env \<noteq> 1; ib_process_rmpp_recv_wc env a (Some (snd_wr s)) wc = (a', (Some wr', posted, out, n), ret)\<rbrakk> \<Longrightarrow>
    snd_step s \<lparr>snd_wr = wr', snd_posted = snd_posted s @ posted, snd_notes = snd_notes s @ note_list n\<rparr>"
| snd_timeout: "\<lbrakk>sw_list (snd_wr s) = On_wait_list; timeout_send env (snd_wr s) = (wr', posted, n)\<rbrakk> \<Longrightarrow>
    snd_step s \<lparr>snd_wr = wr', snd_posted = snd_posted s @ posted, snd_notes = snd_notes s @ note_list n\<rparr>"

definition snd_init :: "mad_send_wr \<Rightarrow> snd_sys \<Rightarrow> bool" where
  "snd_init wr0 s \<longleftrightarrow> wr_ok wr0 \<and> sw_seg_num wr0 = 0 \<and>
     (\<exists>env a dlid ok. post_rmpp env a dlid wr0 = (snd_wr s, snd_posted s, ok)) \<and> snd_notes s = []"

definition snd_inv :: "mad_send_wr \<Rightarrow> snd_sys \<Rightarrow> bool" where
  "snd_inv wr0 s \<longleftrightarrow> sent_ok wr0 (snd_wr s) \<and> posts_ok wr0 (snd_posted s)"

lemma snd_step_inv: "snd_step s t \<Longrightarrow> snd_inv wr0 s \<Longrightarrow> snd_inv wr0 t"
proof (induction rule: snd_step.induct)
  case (snd_complete s env st wr' posted n)
  then show ?case using complete_send_wr_ok [of wr0 "snd_wr s" env st wr' posted n] by (simp add: snd_inv_def)
next
  case (snd_recv s env a wc a' wr' posted out n ret)
  then show ?case using recv_wc_ok [of wr0 "snd_wr s" env a wc a' "Some wr'" posted out n ret] by (simp add: snd_inv_def)
next
  case (snd_timeout s env wr' posted n)
  then show ?case using timeout_send_ok [of wr0 "snd_wr s" env wr' posted n] by (simp add: snd_inv_def)
qed

interpretation snd: invariant_system "snd_init wr0" snd_step "snd_inv wr0" for wr0
proof unfold_locales
  show "snd_inv wr0 s" if "snd_init wr0 s" for s
    using that post_rmpp_ok unfolding snd_init_def snd_inv_def by blast
qed (rule snd_step_inv)

text \<open>The steps as functions, for runs on concrete datagrams.\<close>

definition do_post :: "send_env \<Rightarrow> mad_agent \<Rightarrow> u32 option \<Rightarrow> mad_send_wr \<Rightarrow> snd_sys" where
  "do_post env a dlid wr =
     (case post_rmpp env a dlid wr of (wr', p, _) \<Rightarrow> \<lparr>snd_wr = wr', snd_posted = p, snd_notes = []\<rparr>)"

definition do_complete :: "send_env \<Rightarrow> ib_wc_status \<Rightarrow> snd_sys \<Rightarrow> snd_sys" where
  "do_complete env st s =
     (case ib_mad_complete_send_wr env (snd_wr s) st of (wr', p, n) \<Rightarrow>
        \<lparr>snd_wr = wr', snd_posted = snd_posted s @ p, snd_notes = snd_notes s @ note_list n\<rparr>)"

definition do_timeout :: "send_env \<Rightarrow> snd_sys \<Rightarrow> snd_sys" where
  "do_timeout env s =
     (case timeout_send env (snd_wr s) of (wr', p, n) \<Rightarrow>
        \<lparr>snd_wr = wr', snd_posted = snd_posted s @ p, snd_notes = snd_notes s @ note_list n\<rparr>)"

definition do_recv :: "send_env \<Rightarrow> mad_agent \<Rightarrow> ib_mad_recv_wc \<Rightarrow> snd_sys \<Rightarrow> snd_sys" where
  "do_recv env a wc s =
     (case ib_process_rmpp_recv_wc env a (Some (snd_wr s)) wc of (_, (Some wr', p, _, n), _) \<Rightarrow>
        \<lparr>snd_wr = wr', snd_posted = snd_posted s @ p, snd_notes = snd_notes s @ note_list n\<rparr>
      | _ \<Rightarrow> s)"

lemma reach_post: "wr_ok wr \<Longrightarrow> sw_seg_num wr = 0 \<Longrightarrow> reach (snd_init wr) snd_step (do_post env a dlid wr)"
  by (rule reach_init) (auto simp: snd_init_def do_post_def split: prod.splits)

lemma reach_complete:
  "reach (snd_init wr) snd_step s \<Longrightarrow> sw_list (snd_wr s) \<noteq> Off_list \<Longrightarrow> reach (snd_init wr) snd_step (do_complete env st s)"
  unfolding do_complete_def by (rule reach_step) (auto split: prod.splits intro: snd_complete)

lemma reach_timeout:
  "reach (snd_init wr) snd_step s \<Longrightarrow> sw_list (snd_wr s) = On_wait_list \<Longrightarrow> reach (snd_init wr) snd_step (do_timeout env s)"
  unfolding do_timeout_def by (rule reach_step) (auto split: prod.splits intro: snd_timeout)

lemma reach_recv:
  "reach (snd_init wr) snd_step s \<Longrightarrow> sw_list (snd_wr s) = On_send_list \<or> sw_list (snd_wr s) = On_wait_list \<Longrightarrow>
   sw_status (snd_wr s) = IB_WC_SUCCESS \<Longrightarrow> head_num env \<noteq> 1 \<Longrightarrow> reach (snd_init wr) snd_step (do_recv env a wc s)"
  unfolding do_recv_def
  by (auto split: prod.splits option.splits intro: reach_step snd_recv)

section \<open>The message on the wire\<close>

lemma segment_num: "0 \<le> k \<Longrightarrow> k < 2 ^ 31 \<Longrightarrow> get_seg_num (segment_mad wr k) = k"
  by (simp add: get_seg_num_def segment_mad_def Let_def sint_uint uint_word_of_int signed_take_bit_int_eq_self take_bit_int_eq_self)

lemma segment_last: "get_last_flag (segment_mad wr k) \<longleftrightarrow> k = sb_seg_count wr"
  by (simp add: get_last_flag_def ib_get_rmpp_flags_def segment_mad_def mad_static_def Let_def
      flags_mask seg_flags_mask seg_flags_last)

text \<open>The sender provides what the receiver relies on.\<close>

interpretation src: message_source "\<lambda>_. if wr_ok wr then segments wr else []" for wr
proof unfold_locales
  fix i :: nat
  assume i: "i < length (if wr_ok wr then segments wr else [])"
  then have ok: "wr_ok wr" by (simp split: if_splits)
  with i have lt: "int i + 1 \<le> sb_seg_count wr" by (simp add: segments_def)
  with ok have nth: "(if wr_ok wr then segments wr else []) ! i = segment_mad wr (int i + 1)"
    by (simp add: segments_def add.commute)
  show "get_seg_num ((if wr_ok wr then segments wr else []) ! i) = int i + 1"
    unfolding nth using ok lt by (intro segment_num) (simp_all add: wr_ok_def)
  show "get_last_flag ((if wr_ok wr then segments wr else []) ! i) \<longleftrightarrow> Suc i = length (if wr_ok wr then segments wr else [])"
    unfolding nth segment_last using ok by (auto simp: segments_def wr_ok_def)
qed

section \<open>Segmentation\<close>

lemma alloc_segs_done: "alloc_segs kmalloc 0 seg_size segs = Some (Inr segs)"
  by (simp add: alloc_segs.simps)

lemma alloc_segs_step:
  assumes "0 < seg_size"
  shows "alloc_segs kmalloc (int (Suc c) * seg_size) seg_size segs =
     (case kmalloc (length segs) of None \<Rightarrow> Some (Inl ENOMEM)
      | Some mem \<Rightarrow> alloc_segs kmalloc (int c * seg_size) seg_size (segs @ [mem]))"
proof -
  have "\<not> int (Suc c) * seg_size \<le> 0" "\<not> seg_size \<le> 0" "int (Suc c) * seg_size - seg_size = int c * seg_size"
    using assms by (simp_all add: not_le algebra_simps add_pos_nonneg)
  then show ?thesis by (subst alloc_segs.simps) (simp only: if_False)
qed

lemma alloc_segs_spec:
  assumes "0 < seg_size"
  shows "\<exists>r. alloc_segs kmalloc (int c * seg_size) seg_size segs = Some r \<and>
    (r = Inl ENOMEM \<or> (\<exists>new. r = Inr (segs @ new) \<and> length new = c)) \<and>
    ((\<forall>i. kmalloc i \<noteq> None) \<longrightarrow> r \<noteq> Inl ENOMEM)"
proof (induction c arbitrary: segs)
  case (Suc c)
  show ?case
  proof (cases "kmalloc (length segs)")
    case (Some mem)
    from Suc.IH [of "segs @ [mem]"] obtain r where
      "alloc_segs kmalloc (int c * seg_size) seg_size (segs @ [mem]) = Some r"
      "r = Inl ENOMEM \<or> (\<exists>new. r = Inr ((segs @ [mem]) @ new) \<and> length new = c)"
      "(\<forall>i. kmalloc i \<noteq> None) \<longrightarrow> r \<noteq> Inl ENOMEM" by blast
    then show ?thesis using Some assms by (simp only: alloc_segs_step option.case) force
  qed (use assms in \<open>simp only: alloc_segs_step option.case, force\<close>)
qed (simp add: alloc_segs_done)

lemma pad_total:
  assumes "0 < seg_size" "0 \<le> data_len" "seg_size = mad_size - hdr_len"
  obtains c :: nat where "data_len + get_pad_size hdr_len data_len mad_size = int c * seg_size" "1 \<le> c"
    "0 \<le> get_pad_size hdr_len data_len mad_size" "get_pad_size hdr_len data_len mad_size \<le> seg_size"
proof (cases "data_len = 0")
  case True
  then show ?thesis using assms by (intro that [of 1]) (simp_all add: get_pad_size_def Let_def)
next
  case False
  let ?q = "data_len div seg_size" and ?m = "data_len mod seg_size"
  have d: "data_len = ?q * seg_size + ?m" by simp
  have m: "0 \<le> ?m" "?m < seg_size" "0 \<le> ?q" using assms by (simp_all add: pos_imp_zdiv_nonneg_iff)
  show ?thesis
  proof (cases "?m = 0")
    case True
    with d False m(3) assms(1) have "1 \<le> ?q" by (cases "?q = 0") auto
    with True False d m assms show ?thesis
      by (intro that [of "nat ?q"]) (simp_all add: get_pad_size_def Let_def nat_le_iff)
  next
    case ne: False
    have "get_pad_size hdr_len data_len mad_size = seg_size - ?m"
      using False assms ne by (simp add: get_pad_size_def Let_def)
    moreover from this d have "data_len + get_pad_size hdr_len data_len mad_size = int (nat (?q + 1)) * seg_size"
      using m(3) by (simp add: distrib_right minus_mod_eq_div_mult)
    ultimately show ?thesis using m by (intro that [of "nat (?q + 1)"]) simp_all
  qed
qed

lemma length_zero_padding: "length (zero_padding n pad segs) = length segs"
  by (simp add: zero_padding_def)

lemma alloc_send_rmpp_list_ok:
  assumes "0 < mad_size - sb_hdr_len wr" "0 \<le> sb_data_len wr" "sw_pad wr = get_pad_size (sb_hdr_len wr) (sb_data_len wr) mad_size"
  shows "\<exists>r. alloc_send_rmpp_list kmalloc ver wr mad_size = Some r \<and>
    ((\<forall>i. kmalloc i \<noteq> None) \<longrightarrow> r \<noteq> Inl ENOMEM) \<and>
    (r = Inl ENOMEM \<or> (\<exists>segs. r = Inr (wr\<lparr>sb_seg_size := mad_size - sb_hdr_len wr, sb_seg_rmpp_size := mad_size - IB_MGMT_RMPP_HDR,
        sb_seg_count := int (length segs), sw_segs := segs,
        sb_mad := ib_set_rmpp_flags IB_MGMT_RMPP_FLAG_ACTIVE ((sb_mad wr)\<lparr>rmpp_version := ver, rmpp_type := IB_MGMT_RMPP_TYPE_DATA\<rparr>),
        sw_cur_seg := 0, sw_last_ack_seg := 0\<rparr>) \<and> 1 \<le> length segs \<and>
        int (length segs) * (mad_size - sb_hdr_len wr) = sb_data_len wr + sw_pad wr))"
proof -
  obtain c :: nat where c: "sb_data_len wr + sw_pad wr = int c * (mad_size - sb_hdr_len wr)" "1 \<le> c"
    using pad_total [OF assms(1,2) refl] unfolding assms(3) by blast
  obtain r where r: "alloc_segs kmalloc (sb_data_len wr + sw_pad wr) (mad_size - sb_hdr_len wr) [] = Some r"
    "r = Inl ENOMEM \<or> (\<exists>new. r = Inr new \<and> length new = c)" "(\<forall>i. kmalloc i \<noteq> None) \<longrightarrow> r \<noteq> Inl ENOMEM"
    using alloc_segs_spec [OF assms(1), of kmalloc c "[]"] unfolding c(1) by auto
  show ?thesis
  proof (cases "r = Inl ENOMEM")
    case True
    with r(1,3) show ?thesis by (simp add: alloc_send_rmpp_list_def Let_def)
  next
    case False
    with r(2) obtain new where new: "r = Inr new" "length new = c" by blast
    let ?segs = "zero_padding (mad_size - sb_hdr_len wr) (sw_pad wr) new"
    have len: "length ?segs = c" using new by (simp add: length_zero_padding)
    show ?thesis
      unfolding alloc_send_rmpp_list_def Let_def
      using r(1) new c len by (intro exI conjI) (auto intro!: exI [of _ ?segs])
  qed
qed

text \<open>The size of a datagram of the port.\<close>

definition mad_size_of :: "bool \<Rightarrow> u8 \<Rightarrow> int" where
  "mad_size_of opa base = (if opa \<and> base = OPA_MGMT_BASE_VERSION then 2048 else 256)"

lemmas rmpp_sizes = IB_MGMT_RMPP_HDR_def OPA_MGMT_RMPP_DATA_def IB_MGMT_RMPP_DATA_def

lemma create_send_mad_result:
  assumes "0 \<le> data_len" "hdr_len < mad_size_of opa base" "ib_mad_kernel_rmpp_agent ver user"
  obtains r where "ib_create_send_mad kmalloc kz ver user opa True hdr_len data_len base mad = Some r"
    "kz \<Longrightarrow> \<forall>i. kmalloc i \<noteq> None \<Longrightarrow> r \<noteq> Inl ENOMEM"
    "r = Inl ENOMEM \<or> (\<exists>segs. r = Inr ((zero_wr mad)\<lparr>sb_hdr_len := hdr_len, sb_data_len := data_len,
        sw_pad := get_pad_size hdr_len data_len (mad_size_of opa base),
        sb_seg_size := mad_size_of opa base - hdr_len, sb_seg_rmpp_size := mad_size_of opa base - 36,
        sb_seg_count := int (length segs), sw_segs := segs,
        sb_mad := ib_set_rmpp_flags IB_MGMT_RMPP_FLAG_ACTIVE (mad\<lparr>rmpp_version := ver, rmpp_type := IB_MGMT_RMPP_TYPE_DATA\<rparr>),
        sw_cur_seg := 0, sw_last_ack_seg := 0\<rparr>) \<and> 1 \<le> length segs \<and>
        int (length segs) * (mad_size_of opa base - hdr_len) = data_len + get_pad_size hdr_len data_len (mad_size_of opa base))"
proof -
  define pad where "pad = get_pad_size hdr_len data_len (mad_size_of opa base)"
  define w where "w = (zero_wr mad)\<lparr>sb_hdr_len := hdr_len, sb_data_len := data_len, sw_pad := pad\<rparr>"
  have w: "sb_hdr_len w = hdr_len" "sb_data_len w = data_len" "sw_pad w = pad" "sb_mad w = mad"
    by (simp_all add: w_def zero_wr_def)
  have create: "ib_create_send_mad kmalloc kz ver user opa True hdr_len data_len base mad =
      (if kz then alloc_send_rmpp_list kmalloc ver w (mad_size_of opa base) else Some (Inl ENOMEM))"
    using assms(3) by (auto simp: ib_create_send_mad_def Let_def w_def pad_def mad_size_of_def rmpp_sizes)
  have pre: "0 < mad_size_of opa base - sb_hdr_len w" "0 \<le> sb_data_len w"
    "sw_pad w = get_pad_size (sb_hdr_len w) (sb_data_len w) (mad_size_of opa base)"
    using assms by (simp_all add: w pad_def)
  from alloc_send_rmpp_list_ok [OF pre, of kmalloc ver] obtain r where
    r: "alloc_send_rmpp_list kmalloc ver w (mad_size_of opa base) = Some r" "(\<forall>i. kmalloc i \<noteq> None) \<longrightarrow> r \<noteq> Inl ENOMEM"
      "r = Inl ENOMEM \<or> (\<exists>segs. r = Inr (w\<lparr>sb_seg_size := mad_size_of opa base - sb_hdr_len w,
          sb_seg_rmpp_size := mad_size_of opa base - IB_MGMT_RMPP_HDR, sb_seg_count := int (length segs), sw_segs := segs,
          sb_mad := ib_set_rmpp_flags IB_MGMT_RMPP_FLAG_ACTIVE ((sb_mad w)\<lparr>rmpp_version := ver, rmpp_type := IB_MGMT_RMPP_TYPE_DATA\<rparr>),
          sw_cur_seg := 0, sw_last_ack_seg := 0\<rparr>) \<and> 1 \<le> length segs \<and>
          int (length segs) * (mad_size_of opa base - sb_hdr_len w) = sb_data_len w + sw_pad w)"
    by blast
  show ?thesis
  proof (cases kz)
    case True
    show ?thesis
      by (rule that [of r])
        (use True create r in \<open>simp_all add: w pad_def [symmetric] w_def [symmetric] IB_MGMT_RMPP_HDR_def\<close>)
  next
    case False
    then show ?thesis using create by (intro that [of "Inl ENOMEM"]) simp_all
  qed
qed

text \<open>What the rest of the development uses of a created request.\<close>

lemma created_facts:
  assumes "ib_create_send_mad kmalloc kz ver user opa True hdr_len data_len base mad = Some (Inr wr)"
    and "0 \<le> data_len" "data_len + 2048 < 2 ^ 31" "36 \<le> hdr_len" "hdr_len < 256" "ib_mad_kernel_rmpp_agent ver user"
  shows "wr_ok wr" "sw_seg_num wr = 0" "sb_seg_rmpp_size wr = mad_size_of opa base - 36"
    "sb_seg_count wr * (mad_size_of opa base - hdr_len) = data_len + sw_pad wr"
    "0 \<le> sw_pad wr" "sw_pad wr \<le> mad_size_of opa base - hdr_len"
    "mad_mgmt_class (sb_mad wr) = mad_mgmt_class mad" "mad_base_version (sb_mad wr) = mad_base_version mad"
    "mad_data (sb_mad wr) = mad_data mad"
proof -
  let ?M = "mad_size_of opa base" and ?pad = "get_pad_size hdr_len data_len (mad_size_of opa base)"
  have M: "hdr_len < ?M" "?M \<le> 2048" using assms(5) by (simp_all add: mad_size_of_def)
  obtain segs where wr: "wr = (zero_wr mad)\<lparr>sb_hdr_len := hdr_len, sb_data_len := data_len, sw_pad := ?pad,
        sb_seg_size := ?M - hdr_len, sb_seg_rmpp_size := ?M - 36, sb_seg_count := int (length segs), sw_segs := segs,
        sb_mad := ib_set_rmpp_flags IB_MGMT_RMPP_FLAG_ACTIVE (mad\<lparr>rmpp_version := ver, rmpp_type := IB_MGMT_RMPP_TYPE_DATA\<rparr>),
        sw_cur_seg := 0, sw_last_ack_seg := 0\<rparr>" "1 \<le> length segs"
      "int (length segs) * (?M - hdr_len) = data_len + ?pad"
    by (rule create_send_mad_result [OF assms(2) M(1) assms(6), of kmalloc kz mad]) (use assms(1) in auto)
  obtain c :: nat where pad: "0 \<le> ?pad" "?pad \<le> ?M - hdr_len"
    using pad_total [of "?M - hdr_len" data_len ?M hdr_len] M(1) assms(2) by auto
  have "int (length segs) \<le> int (length segs) * (?M - hdr_len)" using M(1) mult_left_mono [of 1 "?M - hdr_len" "int (length segs)"] by simp
  then have cnt: "int (length segs) < 2 ^ 31" using wr(3) pad M assms(3,4) by simp
  have act: "ib_get_rmpp_flags (ib_set_rmpp_flags IB_MGMT_RMPP_FLAG_ACTIVE m) AND IB_MGMT_RMPP_FLAG_ACTIVE \<noteq> 0" for m
    by (simp add: ib_get_rmpp_flags_def ib_set_rmpp_flags_def flags_mask IB_MGMT_RMPP_FLAG_ACTIVE_def)
  have type: "rmpp_type (ib_set_rmpp_flags f m) = rmpp_type m" for f m by (simp add: ib_set_rmpp_flags_def)
  show "wr_ok wr" unfolding wr_ok_def rmpp_active_def
    using wr cnt act by (auto simp: zero_wr_def type)
  show "sw_seg_num wr = 0" "sb_seg_rmpp_size wr = ?M - 36" "sb_seg_count wr * (?M - hdr_len) = data_len + sw_pad wr"
    "0 \<le> sw_pad wr" "sw_pad wr \<le> ?M - hdr_len" "mad_mgmt_class (sb_mad wr) = mad_mgmt_class mad"
    "mad_base_version (sb_mad wr) = mad_base_version mad" "mad_data (sb_mad wr) = mad_data mad"
    using wr pad by (simp_all add: zero_wr_def ib_set_rmpp_flags_def)
qed

text \<open>The receiver recovers the padding from the length of the last segment.\<close>

lemma pad_of_last:
  assumes "0 \<le> pad" "pad \<le> data" "data < 2 ^ 31"
  shows "pad_of data (word_of_int (data - pad)) = pad"
proof -
  have "(word_of_int data - word_of_int (data - pad) :: u32) = word_of_int pad"
    by (simp flip: wi_hom_sub)
  moreover have "sint (word_of_int pad :: u32) = pad"
    using assms by (simp add: sint_uint uint_word_of_int signed_take_bit_int_eq_self take_bit_int_eq_self)
  ultimately show ?thesis using assms by (simp add: pad_of_def Let_def)
qed

lemma segments_ends:
  assumes "1 \<le> sb_seg_count wr"
  shows "hd (segments wr) = segment_mad wr 1" "last (segments wr) = segment_mad wr (sb_seg_count wr)"
    "int (length (segments wr)) = sb_seg_count wr"
proof -
  have "[1..sb_seg_count wr] \<noteq> []" using assms by simp
  then show "hd (segments wr) = segment_mad wr 1" "last (segments wr) = segment_mad wr (sb_seg_count wr)"
    using assms by (simp_all add: segments_def hd_map last_map hd_conv_nth last_conv_nth)
  show "int (length (segments wr)) = sb_seg_count wr" using assms by (simp add: segments_def)
qed

lemma segments_len:
  assumes "1 \<le> sb_seg_count wr" "sb_seg_rmpp_size wr = mad_size_of opa (mad_base_version (sb_mad wr)) - 36"
    and "hdr_len = ib_get_mad_data_offset (mad_mgmt_class (sb_mad wr))" "36 \<le> hdr_len"
    and "sb_seg_count wr * (mad_size_of opa (mad_base_version (sb_mad wr)) - hdr_len) = data_len + sw_pad wr"
    and "0 \<le> sw_pad wr" "sw_pad wr \<le> mad_size_of opa (mad_base_version (sb_mad wr)) - hdr_len"
  shows "msg_len opa (hd (segments wr)) (last (segments wr)) (int (length (segments wr))) = hdr_len + data_len"
proof -
  let ?M = "mad_size_of opa (mad_base_version (sb_mad wr))"
  define data where "data = ?M - 36"
  have M: "?M \<le> 2048" by (simp add: mad_size_of_def)
  have d: "(if opa \<and> mad_base_version (segment_mad wr 1) = OPA_MGMT_BASE_VERSION then OPA_MGMT_RMPP_DATA else IB_MGMT_RMPP_DATA) = data"
    by (simp add: data_def mad_size_of_def rmpp_sizes segment_mad_def mad_static_def Let_def)
  have "paylen_newwin (segment_mad wr (sb_seg_count wr)) = word_of_int (data - sw_pad wr)"
    using assms(2) by (simp add: segment_mad_def seg_paylen_def Let_def data_def)
  moreover have "pad_of data (word_of_int (data - sw_pad wr)) = sw_pad wr"
    using assms(4,6,7) M by (intro pad_of_last) (simp_all add: data_def)
  moreover have "mad_mgmt_class (segment_mad wr (sb_seg_count wr)) = mad_mgmt_class (sb_mad wr)"
    by (simp add: segment_mad_def mad_static_def Let_def)
  ultimately show ?thesis
    unfolding segments_ends [OF assms(1)] msg_len_def Let_def d
    using assms(3,5) by (simp add: data_def IB_MGMT_RMPP_HDR_def)
qed

lemma data_offset_bounds: "ib_is_mad_class_rmpp c \<Longrightarrow> 36 \<le> ib_get_mad_data_offset c \<and> ib_get_mad_data_offset c < 256"
  by (auto simp: ib_is_mad_class_rmpp_def ib_get_mad_data_offset_def IB_MGMT_SA_HDR_def IB_MGMT_DEVICE_HDR_def
      IB_MGMT_VENDOR_HDR_def IB_MGMT_MAD_HDR_def)

lemma rmpp_step_mono:
  assumes "rmpp_step P s t" "\<And>k m. P k m \<Longrightarrow> Q k m"
  shows "rmpp_step Q s t"
  using assms(1)
proof cases
  case (step_data wc env a' out ret)
  then show ?thesis using rmpp_step.step_data [OF assms(2) step_data(3,4)] by simp
next
  case (step_timeout i env a' out)
  then show ?thesis using rmpp_step.step_timeout [of i s env a' out Q] by simp
next
  case (step_cleanup i a' out)
  then show ?thesis using rmpp_step.step_cleanup [of i s a' out Q] by simp
next
  case (step_cancel a' out)
  then show ?thesis using rmpp_step.step_cancel [of s a' out Q] by simp
qed

lemma reach_rmpp_mono:
  assumes "reach rmpp_init (rmpp_step P) s" "\<And>k m. P k m \<Longrightarrow> Q k m"
  shows "reach rmpp_init (rmpp_step Q) s"
  using assms(1)
proof (induction rule: reach.induct)
  case (reach_step s t)
  from reach_step.IH rmpp_step_mono [of P s t Q, OF reach_step.hyps(2) assms(2)] show ?case
    by (rule reach.reach_step)
qed (rule reach_init)

section \<open>Properties\<close>

text \<open>
  Creating an RMPP send always ends, and it cuts the message completely: when the allocations
  succeed there is at least one segment, the segments hold exactly the data and the padding, and the
  padding is not negative and fits the last segment. The only failure is lack of memory.
\<close>
theorem create_send_mad_segments:
  assumes "0 \<le> data_len" "hdr_len < mad_size_of opa base" "ib_mad_kernel_rmpp_agent ver user"
  shows "\<exists>r. ib_create_send_mad kmalloc kz ver user opa True hdr_len data_len base mad = Some r \<and>
    (kz \<and> (\<forall>i. kmalloc i \<noteq> None) \<longrightarrow> r \<noteq> Inl ENOMEM) \<and>
    (r = Inl ENOMEM \<or> (\<exists>wr. r = Inr wr \<and> 1 \<le> sb_seg_count wr \<and> sb_seg_count wr = int (length (sw_segs wr)) \<and>
       sb_seg_count wr * sb_seg_size wr = data_len + sw_pad wr \<and> 0 \<le> sw_pad wr \<and> sw_pad wr \<le> sb_seg_size wr))"
proof -
  have pad: "0 \<le> get_pad_size hdr_len data_len (mad_size_of opa base)"
    "get_pad_size hdr_len data_len (mad_size_of opa base) \<le> mad_size_of opa base - hdr_len"
    using pad_total [of "mad_size_of opa base - hdr_len" data_len "mad_size_of opa base" hdr_len] assms(1,2) by auto
  show ?thesis
    by (rule create_send_mad_result [OF assms, of kmalloc kz mad]) (use pad in auto)
qed

definition sa_mad :: rmpp_mad where
  "sa_mad = \<lparr>mad_base_version = 1, mad_mgmt_class = 3, mad_class_version = 2, mad_method = 0x92, mad_tid = 7,
     rmpp_version = 0, rmpp_type = 0, rmpp_rtime_flags = 0, rmpp_status = 0, rmpp_seg_num = 0,
     paylen_newwin = 0, mad_data = replicate 20 0\<rparr>"

definition mem_seg :: "nat \<Rightarrow> u8 list option" where
  "mem_seg i = Some (replicate 200 (of_nat i))"

theorem create_send_mad_segments_witness:
  "\<exists>wr. ib_create_send_mad mem_seg True 1 False False True 56 500 1 sa_mad = Some (Inr wr) \<and>
     sb_seg_count wr * sb_seg_size wr = 500 + sw_pad wr"
proof -
  have "0 \<le> (500 :: int)" "56 < mad_size_of False 1" "ib_mad_kernel_rmpp_agent 1 False" "\<forall>i. mem_seg i \<noteq> None"
    by (simp_all add: mad_size_of_def ib_mad_kernel_rmpp_agent_def mem_seg_def)
  with create_send_mad_segments [of 500 56 False 1 1 False mem_seg True sa_mad] show ?thesis by blast
qed

text \<open>
  Whatever acknowledgements, aborts, completions and timeouts a request meets, in whatever order,
  everything it transmits is a segment of its message, with the number, the flags, the length and the
  payload that belong to that segment: the walk over the list of segments never leaves it. The
  window state stays inside the message.
\<close>
theorem rmpp_send_run:
  assumes "reach (snd_init wr0) snd_step s"
  shows "set (snd_posted s) \<subseteq> Some ` set (segments wr0) \<and>
    0 \<le> sw_last_ack (snd_wr s) \<and> sw_last_ack (snd_wr s) \<le> sb_seg_count wr0 \<and>
    0 \<le> sw_seg_num (snd_wr s) \<and> sw_seg_num (snd_wr s) \<le> sb_seg_count wr0 \<and>
    sw_cur_seg (snd_wr s) < length (sw_segs wr0) \<and>
    int (sw_last_ack_seg (snd_wr s)) = max (sw_last_ack (snd_wr s) - 1) 0"
  using snd.reach_invar [OF assms]
  by (auto simp: snd_inv_def sent_ok_def wr_ok_def same_msg_def posts_ok_def)

definition demo_wr :: mad_send_wr where
  "demo_wr = (zero_wr (ib_set_rmpp_flags 1 (sa_mad\<lparr>rmpp_version := 1, rmpp_type := 1\<rparr>)))
     \<lparr>sb_hdr_len := 56, sb_data_len := 3, sb_seg_count := 3, sb_seg_size := 1, sb_seg_rmpp_size := 21,
      sb_timeout_ms := 1000, sb_retries := 3, sw_segs := [[1], [2], [3]]\<rparr>"

definition demo_env :: send_env where
  "demo_env = \<lparr>hdr_map_ok = True, payload_map_ok = True, post_ok = True, head_num = 0, jiffies = 5, m2j = word_of_int, resp_env = ok_env\<rparr>"

text \<open>The request posted, its first segment completed and acknowledged with a window that stays closed,
  timed out, and the retransmission completed.\<close>

definition demo_ack :: ib_mad_recv_wc where
  "demo_ack = (let m = sa_mad\<lparr>mad_method := 0x12, rmpp_version := 1, rmpp_type := 2, rmpp_rtime_flags := 1,
       rmpp_seg_num := 1, paylen_newwin := 1\<rparr>
     in \<lparr>recv_mad = m, wc_src_qp = 1, wc_slid = 4, wc_rmpp_list = [m], wc_mad_len = 0\<rparr>)"

definition demo_run :: snd_sys where
  "demo_run = (let agent = sys_agent (empty_sys 8) in
     do_complete demo_env IB_WC_SUCCESS (do_timeout demo_env (do_recv demo_env agent demo_ack
       (do_complete demo_env IB_WC_SUCCESS (do_post demo_env agent None demo_wr)))))"

lemma demo_reach: "reach (snd_init demo_wr) snd_step demo_run"
  unfolding demo_run_def Let_def
proof (intro reach_complete reach_timeout reach_recv reach_post)
  show "wr_ok demo_wr" unfolding wr_ok_def by code_simp
qed code_simp+

theorem rmpp_send_run_witness:
  "set (snd_posted demo_run) \<subseteq> Some ` set (segments demo_wr) \<and> sw_last_ack (snd_wr demo_run) = 1 \<and>
   int (sw_last_ack_seg (snd_wr demo_run)) = max (sw_last_ack (snd_wr demo_run) - 1) 0"
proof -
  have "sw_last_ack (snd_wr demo_run) = 1" by code_simp
  with rmpp_send_run [OF demo_reach] show ?thesis by blast
qed

text \<open>
  C40. The sender can transmit beyond the window its receiver granted. The acknowledgement of segment 1
  with the window closed at 1 is accepted; the timeout retransmits from there and sends segment 2;
  the completion of segment 2 then compares \<open>seg_num == newwin\<close>, which can no longer hold, and sends
  segment 3, the whole rest of the message, without an acknowledgement.
\<close>
theorem rmpp_window_overrun:
  "\<exists>s. reach (snd_init demo_wr) snd_step s \<and> sw_newwin (snd_wr s) = 1 \<and>
     map (map_option rmpp_seg_num) (snd_posted s) = [Some 1, Some 2, Some 3]"
proof (intro exI conjI)
  show "reach (snd_init demo_wr) snd_step demo_run" by (rule demo_reach)
  show "sw_newwin (snd_wr demo_run) = 1" by code_simp
  show "map (map_option rmpp_seg_num) (snd_posted demo_run) = [Some 1, Some 2, Some 3]" by code_simp
qed

text \<open>
  C2. End to end: over a network that loses, repeats and reorders datagrams, with arbitrary
  acknowledgements, whatever the receiver hands to its client is the message of the sender: all its
  segments, each once, in order, and the length reported is that of the headers and the data sent,
  the padding removed.
\<close>
theorem rmpp_end_to_end:
  assumes "ib_create_send_mad kmalloc kz ver user opa True hdr_len data_len (mad_base_version mad) mad = Some (Inr wr)"
    and "ib_mad_kernel_rmpp_agent ver user" "ib_is_mad_class_rmpp (mad_mgmt_class mad)"
    and "hdr_len = ib_get_mad_data_offset (mad_mgmt_class mad)" "0 \<le> data_len" "data_len + 2048 < 2 ^ 31"
    and "reach (snd_init (wr\<lparr>sb_timeout_ms := t, sb_retries := n\<rparr>)) snd_step ss"
    and "reach rmpp_init (rmpp_step (\<lambda>_ m. Some m \<in> set (snd_posted ss))) s"
    and "cap_opa_mad (sys_agent s) = opa" "wc \<in> set (sys_handed s)"
  shows "wc_rmpp_list wc = segments wr \<and> wc_mad_len wc = hdr_len + data_len"
proof -
  have hdr: "36 \<le> hdr_len" "hdr_len < 256" using data_offset_bounds [OF assms(3)] assms(4) by simp_all
  note wr = created_facts [OF assms(1,5,6) hdr assms(2)]
  let ?w = "wr\<lparr>sb_timeout_ms := t, sb_retries := n\<rparr>"
  have segs: "segments ?w = segments wr"
    by (simp add: segments_def segment_mad_def seg_paylen_def Let_def cong: map_cong)
  have "set (snd_posted ss) \<subseteq> Some ` set (segments ?w)"
    using snd.reach_invar [OF assms(7)] by (simp add: snd_inv_def posts_ok_def)
  then have sub: "Some m \<in> set (snd_posted ss) \<Longrightarrow> in_msg (\<lambda>_. if wr_ok wr then segments wr else []) k m" for k m
    using wr(1) segs by (auto simp: in_msg_def)
  have "reach rmpp_init (rmpp_step (in_msg (\<lambda>_. if wr_ok wr then segments wr else []))) s"
    by (rule reach_rmpp_mono [OF assms(8) sub])
  from src.delivery [OF this assms(10)] have d: "wc_rmpp_list wc = segments wr"
    "wc_mad_len wc = msg_len opa (hd (segments wr)) (last (segments wr)) (int (length (segments wr)))"
    using wr(1) assms(9) by simp_all
  have "1 \<le> sb_seg_count wr" using wr(1) by (simp add: wr_ok_def)
  then have "msg_len opa (hd (segments wr)) (last (segments wr)) (int (length (segments wr))) = hdr_len + data_len"
    using wr hdr assms(4) by (intro segments_len) simp_all
  with d show ?thesis by simp
qed

definition wit_wr :: mad_send_wr where
  "wit_wr = (case ib_create_send_mad mem_seg True 1 False False True 56 10 1 sa_mad of Some (Inr wr) \<Rightarrow> wr | _ \<Rightarrow> demo_wr)"

definition wit_snd :: snd_sys where
  "wit_snd = do_post demo_env (sys_agent (empty_sys 8)) None (wit_wr\<lparr>sb_timeout_ms := 1000, sb_retries := 3\<rparr>)"

definition wit_wc :: ib_mad_recv_wc where
  "wit_wc = (let m = the (hd (snd_posted wit_snd))
     in \<lparr>recv_mad = m, wc_src_qp = 1, wc_slid = 4, wc_rmpp_list = [m], wc_mad_len = 0\<rparr>)"

definition wit_sys :: rmpp_sys where
  "wit_sys = feed ok_env wit_wc (empty_sys 8)"

theorem rmpp_end_to_end_witness:
  "\<exists>wc. sys_handed wit_sys = [wc] \<and> wc_rmpp_list wc = segments wit_wr \<and> wc_mad_len wc = 66"
proof -
  have handed: "length (sys_handed wit_sys) = 1" by code_simp
  then obtain wc where wc: "sys_handed wit_sys = [wc]" by (auto simp: length_Suc_conv)
  have create: "ib_create_send_mad mem_seg True 1 False False True 56 10 (mad_base_version sa_mad) sa_mad = Some (Inr wit_wr)"
  proof -
    have "0 \<le> (10 :: int)" "56 < mad_size_of False 1" "ib_mad_kernel_rmpp_agent 1 False" "\<forall>i. mem_seg i \<noteq> None"
      by (simp_all add: mad_size_of_def ib_mad_kernel_rmpp_agent_def mem_seg_def)
    then obtain wr where "ib_create_send_mad mem_seg True 1 False False True 56 10 1 sa_mad = Some (Inr wr)"
      by (metis create_send_mad_result)
    then show ?thesis by (simp add: wit_wr_def sa_mad_def)
  qed
  have pre: "ib_mad_kernel_rmpp_agent 1 False" "ib_is_mad_class_rmpp (mad_mgmt_class sa_mad)"
    "(56 :: int) = ib_get_mad_data_offset (mad_mgmt_class sa_mad)" "(0 :: int) \<le> 10" "(10 :: int) + 2048 < 2 ^ 31"
    by code_simp+
  have snd: "reach (snd_init (wit_wr\<lparr>sb_timeout_ms := 1000, sb_retries := 3\<rparr>)) snd_step wit_snd"
    unfolding wit_snd_def by (rule reach_post) (unfold wr_ok_def, code_simp+)
  have "snd_posted wit_snd \<noteq> []" "hd (snd_posted wit_snd) \<noteq> None" by code_simp+
  then have "hd (snd_posted wit_snd) \<in> set (snd_posted wit_snd)" "Some (the (hd (snd_posted wit_snd))) = hd (snd_posted wit_snd)"
    by auto
  then have "Some (recv_mad wit_wc) \<in> set (snd_posted wit_snd)" by (simp add: wit_wc_def Let_def)
  then have rcv: "reach rmpp_init (rmpp_step (\<lambda>_ m. Some m \<in> set (snd_posted wit_snd))) wit_sys"
    unfolding wit_sys_def by (intro reach_feed reach_empty) (simp_all add: wit_wc_def Let_def)
  have "cap_opa_mad (sys_agent wit_sys) = False" "wc \<in> set (sys_handed wit_sys)" by (code_simp, simp add: wc)
  from rmpp_end_to_end [OF create pre snd rcv this] wc show ?thesis by simp
qed

end
