(* ===== verification/Page_Alloc.thy ===== *)
theory Page_Alloc
  imports Mlx_Prelude
begin

text \<open>
  The allocator of the pages the driver lends to the firmware
  (\<open>drivers/net/ethernet/mellanox/mlx5/core/pagealloc.c\<close>). A system page is cut into adapter pages of
  4 KiB; a bitmask per system page says which of them are free, and the system pages with a free
  adapter page are on \<open>free_list\<close>. Pages are lent by \<open>give_pages\<close>, taken back by \<open>reclaim_pages\<close> when the
  firmware returns them, and dropped by \<open>release_all_pages\<close>.

  Correspondence.
  \<^item> \<open>page_root_xa\<close> maps the function number to its tree; a red-black tree is represented by its
    in-order traversal, so \<open>rb_first\<close> and \<open>rb_next\<close> are the list, and the descent by address is a
    search of it. The descent goes left for larger addresses: the traversal is descending.
  \<^item> A \<open>struct fw_page\<close> is in the tree of its function and may be on \<open>free_list\<close>; the list holds the
    function and the address of the page, the tree holds its contents.
  \<^item> An \<open>option\<close> result \<open>None\<close> is undefined behaviour: a list entry whose page is gone, or \<open>list_del\<close>
    of a page that is not on the list. That it does not happen is a theorem.
  \<^item> \<open>bitmask\<close>, an \<open>unsigned long\<close>, is a list of 64 bits; addresses are numbers below \<open>2 ^ 64\<close>, so the
    masks of the code are \<open>div\<close> and \<open>mod\<close>.
  \<^item> The answers of the page allocator, of the DMA mapping and of the firmware are arguments.
\<close>

section \<open>State\<close>

record fw_page =
  fp_addr :: nat
  fp_function :: nat
  fp_bitmask :: "bool list"
  fp_free_count :: nat

datatype func_type = MLX5_PF | MLX5_VF | MLX5_SF | MLX5_HOST_PF | MLX5_EC_VF

record pg_cfg =
  page_shift :: nat
  is_ecpf :: bool
  max_vfs :: nat
  max_ec_vfs :: nat
  esw_accounts :: bool  \<comment> \<open>an Ethernet port whose resources are not held for an NVMe emulation manager\<close>
  vhca_icm_ctrl :: bool

record vport =
  page_limit :: int
  vp_fw_pages :: int

record pg_dev =
  page_root_xa :: "nat \<Rightarrow> fw_page list option"
  free_list :: "(nat \<times> nat) list"
  fw_pages :: int
  page_counters :: "func_type \<Rightarrow> int"
  give_pages_dropped :: int
  reclaim_pages_discard :: int
  fw_pages_alloc_failed :: int
  vports :: "nat \<Rightarrow> vport option"

definition MLX5_ADAPTER_PAGE_SIZE :: nat where "MLX5_ADAPTER_PAGE_SIZE = 4096"

definition num_4k :: "pg_cfg \<Rightarrow> nat" where
  "num_4k c = 2 ^ page_shift c div MLX5_ADAPTER_PAGE_SIZE"

definition get_function :: "nat \<Rightarrow> bool \<Rightarrow> nat" where
  "get_function func_id ec_function = func_id + (if ec_function then 65536 else 0)"

definition func_id_to_type :: "pg_cfg \<Rightarrow> nat \<Rightarrow> bool \<Rightarrow> func_type" where
  "func_id_to_type c func_id ec_function =
     (if func_id = 0 then (if is_ecpf c \<and> \<not> ec_function then MLX5_HOST_PF else MLX5_PF)
      else if func_id \<le> max (max_vfs c) (max_ec_vfs c) then (if ec_function then MLX5_EC_VF else MLX5_VF)
      else MLX5_SF)"

definition mlx5_pagealloc_init :: "pg_dev \<Rightarrow> bool \<Rightarrow> pg_dev result" where
  "mlx5_pagealloc_init d wq_ok =
     (let d = d\<lparr>free_list := []\<rparr> in
      if \<not> wq_ok then Inl ENOMEM else Inr (d\<lparr>page_root_xa := \<lambda>_. None\<rparr>))"

section \<open>Pages\<close>

definition page_root_per_function :: "bool \<Rightarrow> bool \<Rightarrow> pg_dev \<Rightarrow> nat \<Rightarrow> (pg_dev \<times> fw_page list) result" where
  "page_root_per_function kzalloc_ok xa_ok d f =
     (case page_root_xa d f of
        Some root \<Rightarrow> Inr (d, root)
      | None \<Rightarrow>
          if \<not> kzalloc_ok then Inl ENOMEM
          else if \<not> xa_ok then Inl ENOMEM
          else Inr (d\<lparr>page_root_xa := (page_root_xa d)(f \<mapsto> [])\<rparr>, []))"

text \<open>The descent and the link of a new node; \<open>None\<close> when the address is in the tree.\<close>

fun rb_insert_page :: "fw_page \<Rightarrow> fw_page list \<Rightarrow> fw_page list option" where
  "rb_insert_page nfp [] = Some [nfp]"
| "rb_insert_page nfp (tfp # rest) =
     (if fp_addr tfp < fp_addr nfp then Some (nfp # tfp # rest)
      else if fp_addr tfp > fp_addr nfp then map_option (\<lambda>r. tfp # r) (rb_insert_page nfp rest)
      else None)"

record sys_env =
  kz_root :: bool
  xa_insert_ok :: bool
  kz_page :: bool
  alloc_page_ok :: bool
  dma_addrs :: "nat option list"  \<comment> \<open>results of successive \<open>dma_map_page\<close> calls; \<open>None\<close> is an error\<close>

text \<open>A new page: \<open>kzalloc\<close> and the loop that sets its bits.\<close>

definition new_fw_page :: "pg_cfg \<Rightarrow> nat \<Rightarrow> nat \<Rightarrow> fw_page" where
  "new_fw_page c addr f = \<lparr>fp_addr = addr, fp_function = f,
     fp_bitmask = replicate (num_4k c) True @ replicate (64 - num_4k c) False, fp_free_count = num_4k c\<rparr>"

definition insert_page :: "pg_cfg \<Rightarrow> sys_env \<Rightarrow> pg_dev \<Rightarrow> nat \<Rightarrow> nat \<Rightarrow> errno option \<times> pg_dev" where
  "insert_page c env d addr f =
     (case page_root_per_function (kz_root env) (xa_insert_ok env) d f of
        Inl e \<Rightarrow> (Some e, d)
      | Inr (d, root) \<Rightarrow>
          (case rb_insert_page (new_fw_page c addr f) root of
             None \<Rightarrow> (Some (EFW 17), d)  \<comment> \<open>\<open>-EEXIST\<close>\<close>
           | Some root' \<Rightarrow>
               if \<not> kz_page env then (Some ENOMEM, d)
               else (None, d\<lparr>page_root_xa := (page_root_xa d)(f \<mapsto> root'), free_list := (f, addr) # free_list d\<rparr>)))"

definition find_fw_page :: "pg_dev \<Rightarrow> nat \<Rightarrow> nat \<Rightarrow> fw_page option" where
  "find_fw_page d addr f =
     (case page_root_xa d f of None \<Rightarrow> None | Some root \<Rightarrow> find (\<lambda>p. fp_addr p = addr) root)"

text \<open>The update of a page in place.\<close>

definition set_page :: "nat \<Rightarrow> fw_page \<Rightarrow> pg_dev \<Rightarrow> pg_dev" where
  "set_page f p d =
     (case page_root_xa d f of None \<Rightarrow> d
      | Some root \<Rightarrow> d\<lparr>page_root_xa := (page_root_xa d)(f \<mapsto> map (\<lambda>q. if fp_addr q = fp_addr p then p else q) root)\<rparr>)"

definition find_first_bit :: "bool list \<Rightarrow> nat" where
  "find_first_bit bs = (case first_ix id bs of Some n \<Rightarrow> n | None \<Rightarrow> length bs)"

text \<open>The scan keeps the last page of the function on the list.\<close>

definition alloc_4k :: "pg_cfg \<Rightarrow> pg_dev \<Rightarrow> nat \<Rightarrow> (nat result \<times> pg_dev) option" where
  "alloc_4k c d f =
     (case find (\<lambda>(f', _). f' = f) (rev (free_list d)) of
        None \<Rightarrow> Some (Inl ENOMEM, d)
      | Some (_, a) \<Rightarrow>
          (case find_fw_page d a f of
             None \<Rightarrow> None
           | Some fp \<Rightarrow>
               let n = find_first_bit (fp_bitmask fp) in
               if n \<ge> num_4k c then Some (Inl ENOENT, d)
               else let fp = fp\<lparr>fp_bitmask := (fp_bitmask fp)[n := False], fp_free_count := fp_free_count fp - 1\<rparr>;
                        d = set_page f fp d;
                        d = (if fp_free_count fp = 0 then d\<lparr>free_list := remove1 (f, a) (free_list d)\<rparr> else d)
                    in Some (Inr (fp_addr fp + n * MLX5_ADAPTER_PAGE_SIZE), d)))"

definition free_fwp :: "pg_dev \<Rightarrow> fw_page \<Rightarrow> bool \<Rightarrow> pg_dev option" where
  "free_fwp d fwp in_free_list =
     (case page_root_xa d (fp_function fwp) of
        None \<Rightarrow> Some d
      | Some root \<Rightarrow>
          let key = (fp_function fwp, fp_addr fwp);
              d = d\<lparr>page_root_xa := (page_root_xa d)(fp_function fwp \<mapsto> filter (\<lambda>p. fp_addr p \<noteq> fp_addr fwp) root)\<rparr> in
          if \<not> in_free_list then Some d
          else if key \<in> set (free_list d) then Some (d\<lparr>free_list := remove1 key (free_list d)\<rparr>)
          else None)"

definition free_4k :: "pg_cfg \<Rightarrow> pg_dev \<Rightarrow> nat \<Rightarrow> nat \<Rightarrow> (errno option \<times> pg_dev) option" where
  "free_4k c d addr f =
     (case find_fw_page d (addr div 2 ^ page_shift c * 2 ^ page_shift c) f of
        None \<Rightarrow> Some (Some ENOMEM, d)
      | Some fwp \<Rightarrow>
          let n = addr mod 2 ^ page_shift c div MLX5_ADAPTER_PAGE_SIZE in
          (case nth_opt (fp_bitmask fwp) n of
             None \<Rightarrow> None
           | Some True \<Rightarrow> Some (Some EINVAL, d)
           | Some False \<Rightarrow>
               let fwp = fwp\<lparr>fp_free_count := fp_free_count fwp + 1, fp_bitmask := (fp_bitmask fwp)[n := True]\<rparr>;
                   d = set_page f fwp d in
               if fp_free_count fwp = num_4k c
               then map_option (\<lambda>d. (None, d)) (free_fwp d fwp (fp_free_count fwp \<noteq> 1))
               else if fp_free_count fwp = 1
               then Some (None, d\<lparr>free_list := (f, fp_addr fwp) # free_list d\<rparr>)
               else Some (None, d)))"

text \<open>The mapping is repeated while the device address is 0, which the firmware does not take; the
  address 0 is unmapped afterwards.\<close>

fun map_nonzero :: "nat option list \<Rightarrow> nat option" where
  "map_nonzero [] = None"
| "map_nonzero (None # rest) = None"
| "map_nonzero (Some a # rest) = (if a = 0 then map_nonzero rest else Some a)"

definition alloc_system_page :: "pg_cfg \<Rightarrow> sys_env \<Rightarrow> pg_dev \<Rightarrow> nat \<Rightarrow> errno option \<times> pg_dev" where
  "alloc_system_page c env d f =
     (if \<not> alloc_page_ok env then (Some ENOMEM, d)
      else case map_nonzero (dma_addrs env) of
             None \<Rightarrow> (Some ENOMEM, d)
           | Some addr \<Rightarrow> insert_page c env d addr f)"

section \<open>Giving pages\<close>

definition vf_obtainable_pages :: "pg_cfg \<Rightarrow> pg_dev \<Rightarrow> nat \<Rightarrow> int \<Rightarrow> int" where
  "vf_obtainable_pages c d func_id npages =
     (if \<not> esw_accounts c then npages
      else case vports d func_id of
             None \<Rightarrow> -1
           | Some v \<Rightarrow>
               if page_limit v = 0 then npages
               else if vp_fw_pages v \<ge> page_limit v then -1
               else if vp_fw_pages v + npages > page_limit v then page_limit v - vp_fw_pages v
               else npages)"

definition update_pg_counters :: "pg_cfg \<Rightarrow> pg_dev \<Rightarrow> nat \<Rightarrow> int \<Rightarrow> bool \<Rightarrow> pg_dev" where
  "update_pg_counters c d func_id npages add =
     (if \<not> esw_accounts c then d
      else case vports d func_id of
             None \<Rightarrow> d
           | Some v \<Rightarrow> d\<lparr>vports := (vports d)(func_id \<mapsto>
                 v\<lparr>vp_fw_pages := (if add then vp_fw_pages v + npages else vp_fw_pages v - npages)\<rparr>)\<rparr>)"

text \<open>One page of the loop of \<open>give_pages\<close>: after a system page was added the code goes back to
  \<open>alloc_4k\<close>. The list has the environment of each added system page; \<open>None\<close> is a loop that needs more
  of them than the list has. That one is enough is part of \<open>give_one_ok\<close> below.\<close>

fun give_one :: "pg_cfg \<Rightarrow> sys_env list \<Rightarrow> pg_dev \<Rightarrow> nat \<Rightarrow> (nat result \<times> pg_dev) option" where
  "give_one c [] d f =
     (case alloc_4k c d f of
        Some (Inl e, d) \<Rightarrow> if e \<noteq> ENOMEM then Some (Inl e, d) else None
      | r \<Rightarrow> r)"
| "give_one c (env # envs) d f =
     (case alloc_4k c d f of
        None \<Rightarrow> None
      | Some (Inr a, d) \<Rightarrow> Some (Inr a, d)
      | Some (Inl e, d) \<Rightarrow>
          if e \<noteq> ENOMEM then Some (Inl e, d)
          else (case alloc_system_page c env d f of
                  (Some e, d) \<Rightarrow> Some (Inl e, d)
                | (None, d) \<Rightarrow> give_one c envs d f))"

text \<open>The loop, over the environments of its iterations; \<open>None\<close> as an environment is the expired
  time limit. The addresses taken so far come back on both exits, the last one first.\<close>

fun give_loop ::
  "pg_cfg \<Rightarrow> sys_env list option list \<Rightarrow> pg_dev \<Rightarrow> nat \<Rightarrow> nat list \<Rightarrow> (errno option \<times> nat list \<times> pg_dev) option" where
  "give_loop c [] d f pas = Some (None, pas, d)"
| "give_loop c (None # envs) d f pas = Some (Some ENOMEM, pas, d)"
| "give_loop c (Some retries # envs) d f pas =
     (case give_one c retries d f of
        None \<Rightarrow> None
      | Some (Inl e, d) \<Rightarrow>
          Some (Some e, pas, d\<lparr>fw_pages_alloc_failed := fw_pages_alloc_failed d + int (length envs + 1)\<rparr>)
      | Some (Inr a, d) \<Rightarrow> give_loop c envs d f (a # pas))"

fun free_all :: "pg_cfg \<Rightarrow> pg_dev \<Rightarrow> nat \<Rightarrow> nat list \<Rightarrow> pg_dev option" where
  "free_all c d f [] = Some d"
| "free_all c d f (a # pas) = (case free_4k c d a f of None \<Rightarrow> None | Some (_, d) \<Rightarrow> free_all c d f pas)"

text \<open>What \<open>mlx5_cmd_do\<close> and \<open>mlx5_cmd_check\<close> report.\<close>

datatype cmd_err = Cmd_ok | Cmd_remoteio | Cmd_failed

record fw_answer =
  fa_err :: cmd_err
  fa_check :: "errno option"
  fa_pas :: "nat list"

text \<open>The counters after \<open>n\<close> pages were given, and after \<open>n\<close> pages came back.\<close>

definition recount :: "pg_cfg \<Rightarrow> pg_dev \<Rightarrow> nat \<Rightarrow> bool \<Rightarrow> int \<Rightarrow> pg_dev" where
  "recount c d func_id ec n =
     (let t = func_id_to_type c func_id ec;
          d = d\<lparr>page_counters := (page_counters d)(t := page_counters d t + n), fw_pages := fw_pages d + n\<rparr>
      in if func_id \<noteq> 0 then update_pg_counters c d func_id n True else d)"

definition uncount :: "pg_cfg \<Rightarrow> pg_dev \<Rightarrow> nat \<Rightarrow> bool \<Rightarrow> int \<Rightarrow> pg_dev" where
  "uncount c d func_id ec_function n =
     (let t = func_id_to_type c func_id ec_function;
          d = d\<lparr>page_counters := (page_counters d)(t := page_counters d t - n), fw_pages := fw_pages d - n\<rparr>
      in if func_id \<noteq> 0 then update_pg_counters c d func_id n False else d)"

text \<open>\<open>give_pages\<close> from the allocation of its command on. The pages given to the firmware come back as
  the last component, in the order of the command.\<close>

definition give_npages ::
  "pg_cfg \<Rightarrow> (nat \<Rightarrow> sys_env list option) \<Rightarrow> fw_answer \<Rightarrow> pg_dev \<Rightarrow> nat \<Rightarrow> int \<Rightarrow> bool \<Rightarrow> bool \<Rightarrow>
   (errno option \<times> pg_dev \<times> nat list) option" where
  "give_npages c envs fw d func_id npages event ec_function =
     (let f = get_function func_id ec_function in
      case give_loop c (map envs [0..<nat npages]) d f [] of
        None \<Rightarrow> None
      | Some (Some e, pas, d) \<Rightarrow> map_option (\<lambda>d. (Some e, d, [])) (free_all c d f pas)
      | Some (None, pas, d) \<Rightarrow>
          let dropped = d\<lparr>give_pages_dropped := give_pages_dropped d + npages\<rparr> in
          if fa_err fw = Cmd_remoteio \<and> event then map_option (\<lambda>d. (None, d, [])) (free_all c dropped f pas)
          else (case fa_check fw of
              Some e \<Rightarrow> map_option (\<lambda>d. (Some e, d, [])) (free_all c dropped f pas)
            | None \<Rightarrow> Some (None, recount c d func_id ec_function npages, rev pas)))"

definition give_pages ::
  "pg_cfg \<Rightarrow> bool \<Rightarrow> (nat \<Rightarrow> sys_env list option) \<Rightarrow> fw_answer \<Rightarrow> pg_dev \<Rightarrow> nat \<Rightarrow> int \<Rightarrow> bool \<Rightarrow> bool \<Rightarrow>
   (errno option \<times> pg_dev \<times> nat list) option" where
  "give_pages c kvzalloc_ok envs fw d func_id npages0 event ec_function =
     (let limited = func_id \<noteq> 0 \<and> \<not> vhca_icm_ctrl c;
          npages = (if limited then vf_obtainable_pages c d func_id npages0 else npages0) in
      if limited \<and> npages \<le> 0 then Some (Some (EFW 1), d, [])  \<comment> \<open>\<open>-EPERM\<close>\<close>
      else if \<not> kvzalloc_ok then Some (Some ENOMEM, d, [])
      else give_npages c envs fw d func_id npages event ec_function)"

section \<open>Taking pages back\<close>

fun release_loop :: "pg_cfg \<Rightarrow> pg_dev \<Rightarrow> fw_page list \<Rightarrow> (int \<times> pg_dev) option" where
  "release_loop c d [] = Some (0, d)"
| "release_loop c d (fwp # rest) =
     (case free_fwp d fwp (fp_free_count fwp \<noteq> 0) of
        None \<Rightarrow> None
      | Some d \<Rightarrow> map_option (\<lambda>(n, d). (int (num_4k c - fp_free_count fwp) + n, d)) (release_loop c d rest))"

definition release_all_pages :: "pg_cfg \<Rightarrow> pg_dev \<Rightarrow> nat \<Rightarrow> bool \<Rightarrow> pg_dev option" where
  "release_all_pages c d func_id ec_function =
     (case page_root_xa d (get_function func_id ec_function) of
        None \<Rightarrow> Some d
      | Some root \<Rightarrow> map_option (\<lambda>(n, d). uncount c d func_id ec_function n) (release_loop c d root))"

text \<open>The adapter pages lent out of a system page, at most \<open>npages\<close>.\<close>

definition fwp_fill_manage_pages_out :: "pg_cfg \<Rightarrow> fw_page \<Rightarrow> nat \<Rightarrow> nat list" where
  "fwp_fill_manage_pages_out c fwp npages =
     take npages (map (\<lambda>n. fp_addr fwp + n * MLX5_ADAPTER_PAGE_SIZE)
                    (filter (\<lambda>n. \<not> fp_bitmask fwp ! n) [0..<num_4k c]))"

fun fill_loop :: "pg_cfg \<Rightarrow> fw_page list \<Rightarrow> nat \<Rightarrow> nat list" where
  "fill_loop c [] npages = []"
| "fill_loop c (fwp # rest) npages =
     (if npages = 0 then []
      else let pas = fwp_fill_manage_pages_out c fwp npages in pas @ fill_loop c rest (npages - length pas))"

definition reclaim_pages_cmd :: "pg_cfg \<Rightarrow> bool \<Rightarrow> fw_answer \<Rightarrow> pg_dev \<Rightarrow> nat \<Rightarrow> nat \<Rightarrow> fw_answer" where
  "reclaim_pages_cmd c cmd_down fw d f npages =
     (if \<not> cmd_down then fw
      else case page_root_xa d f of
             None \<Rightarrow> \<lparr>fa_err = Cmd_failed, fa_check = Some (EFW 17), fa_pas = []\<rparr>
           | Some root \<Rightarrow> \<lparr>fa_err = Cmd_ok, fa_check = None, fa_pas = fill_loop c root npages\<rparr>)"

fun claim_loop :: "pg_cfg \<Rightarrow> pg_dev \<Rightarrow> nat \<Rightarrow> nat list \<Rightarrow> (int \<times> pg_dev) option" where
  "claim_loop c d f [] = Some (0, d)"
| "claim_loop c d f (a # pas) =
     (case free_4k c d a f of
        None \<Rightarrow> None
      | Some (e, d) \<Rightarrow> map_option (\<lambda>(n, d). ((if e = None then 1 else 0) + n, d)) (claim_loop c d f pas))"

text \<open>The error, the number of pages claimed, and the device.\<close>

definition reclaim_pages ::
  "pg_cfg \<Rightarrow> bool \<Rightarrow> bool \<Rightarrow> fw_answer \<Rightarrow> pg_dev \<Rightarrow> nat \<Rightarrow> nat \<Rightarrow> bool \<Rightarrow> bool \<Rightarrow> (errno option \<times> int \<times> pg_dev) option" where
  "reclaim_pages c kvzalloc_ok cmd_down fw d func_id npages event ec_function =
     (let f = get_function func_id ec_function in
      if \<not> kvzalloc_ok then Some (Some ENOMEM, 0, d)
      else
        let ans = reclaim_pages_cmd c cmd_down fw d f npages;
            d = (if fa_err ans \<noteq> Cmd_ok then d\<lparr>reclaim_pages_discard := reclaim_pages_discard d + int npages\<rparr> else d) in
        if event \<and> fa_err ans = Cmd_remoteio then Some (None, 0, d)
        else (case fa_check ans of
            Some e \<Rightarrow> Some (Some e, 0, d)
          | None \<Rightarrow>
              if length (fa_pas ans) > npages then Some (Some EINVAL, 0, d)
              else map_option (\<lambda>(n, d). (None, n, uncount c d func_id ec_function n)) (claim_loop c d f (fa_pas ans))))"

definition mlx5_get_ec_function :: "nat \<Rightarrow> nat" where "mlx5_get_ec_function f = f div 65536"
definition mlx5_get_func_id :: "nat \<Rightarrow> nat" where "mlx5_get_func_id f = f mod 65536"

text \<open>\<open>(16 + 12 * 512 - 16) / 8\<close>.\<close>

definition optimal_reclaimed_pages :: nat where "optimal_reclaimed_pages = 768"

text \<open>The loop over one tree. Each iteration has the answers of the allocator, of \<open>mlx5_cmd_is_down\<close>, of the
  firmware and of the clock; \<open>None\<close> is a loop that is still running after the iterations of the list.\<close>

fun mlx5_reclaim_root_pages ::
  "pg_cfg \<Rightarrow> (bool \<times> bool \<times> fw_answer \<times> bool) list \<Rightarrow> pg_dev \<Rightarrow> nat \<Rightarrow> (errno option \<times> pg_dev) option" where
  "mlx5_reclaim_root_pages c [] d f = (if page_root_xa d f = Some [] then Some (None, d) else None)"
| "mlx5_reclaim_root_pages c ((kv, down, fw, expired) # envs) d f =
     (if page_root_xa d f = Some [] then Some (None, d)
      else case reclaim_pages c kv down fw d (mlx5_get_func_id f) optimal_reclaimed_pages False (mlx5_get_ec_function f \<noteq> 0) of
             None \<Rightarrow> None
           | Some (Some e, _, d) \<Rightarrow> Some (Some e, d)
           | Some (None, nclaimed, d) \<Rightarrow> if expired then Some (None, d) else mlx5_reclaim_root_pages c envs d f)"

text \<open>A request of the firmware, as the work item executes it.\<close>

definition pages_work_handler ::
  "pg_cfg \<Rightarrow> bool \<Rightarrow> bool \<Rightarrow> (nat \<Rightarrow> sys_env list option) \<Rightarrow> fw_answer \<Rightarrow> pg_dev \<Rightarrow> nat \<Rightarrow> int \<Rightarrow> bool \<Rightarrow> bool \<Rightarrow> pg_dev option" where
  "pages_work_handler c kv down envs fw d func_id npages ec_function release_all =
     (if release_all then release_all_pages c d func_id ec_function
      else if npages < 0 then map_option (\<lambda>(_, _, d). d) (reclaim_pages c kv down fw d func_id (nat (- npages)) True ec_function)
      else if npages > 0 then map_option (\<lambda>(_, d, _). d) (give_pages c kv envs fw d func_id npages True ec_function)
      else Some d)"

section \<open>The pages lent to a function\<close>

definition cfg_ok :: "pg_cfg \<Rightarrow> bool" where
  "cfg_ok c \<longleftrightarrow> 12 \<le> page_shift c \<and> page_shift c \<le> 18"

definition page_base :: "pg_cfg \<Rightarrow> nat \<Rightarrow> nat" where
  "page_base c a = a div 2 ^ page_shift c * 2 ^ page_shift c"

definition page_ix :: "pg_cfg \<Rightarrow> nat \<Rightarrow> nat" where
  "page_ix c a = a mod 2 ^ page_shift c div MLX5_ADAPTER_PAGE_SIZE"

text \<open>An adapter page is lent when its system page is tracked and its bit is clear.\<close>

definition lent :: "pg_cfg \<Rightarrow> pg_dev \<Rightarrow> nat \<Rightarrow> nat set" where
  "lent c d f = {a. MLX5_ADAPTER_PAGE_SIZE dvd a \<and>
     (case find_fw_page d (page_base c a) f of None \<Rightarrow> False | Some p \<Rightarrow> \<not> fp_bitmask p ! page_ix c a)}"

definition pages :: "pg_dev \<Rightarrow> nat \<Rightarrow> fw_page list" where
  "pages d f = (case page_root_xa d f of None \<Rightarrow> [] | Some ps \<Rightarrow> ps)"

definition page_ok :: "pg_cfg \<Rightarrow> nat \<Rightarrow> fw_page \<Rightarrow> bool" where
  "page_ok c f p \<longleftrightarrow>
     fp_function p = f \<and> length (fp_bitmask p) = 64 \<and> fp_free_count p = count_list (fp_bitmask p) True \<and>
     (\<forall>n < 64. fp_bitmask p ! n \<longrightarrow> n < num_4k c) \<and> fp_free_count p < num_4k c \<and> 2 ^ page_shift c dvd fp_addr p"

definition roots_ok :: "pg_cfg \<Rightarrow> pg_dev \<Rightarrow> bool" where
  "roots_ok c d \<longleftrightarrow> (\<forall>f. sorted_wrt (\<lambda>p q. fp_addr q < fp_addr p) (pages d f) \<and> (\<forall>p\<in>set (pages d f). page_ok c f p))"

definition list_ok :: "pg_dev \<Rightarrow> bool" where
  "list_ok d \<longleftrightarrow> distinct (free_list d) \<and>
     (\<forall>f a. (f, a) \<in> set (free_list d) \<longleftrightarrow> (\<exists>p\<in>set (pages d f). fp_addr p = a \<and> 0 < fp_free_count p))"

definition pg_inv :: "pg_cfg \<Rightarrow> pg_dev \<Rightarrow> bool" where
  "pg_inv c d \<longleftrightarrow> roots_ok c d \<and> list_ok d"

lemma num_4k_eq: "cfg_ok c \<Longrightarrow> num_4k c = 2 ^ (page_shift c - 12)"
  and num_4k_size: "cfg_ok c \<Longrightarrow> num_4k c * MLX5_ADAPTER_PAGE_SIZE = 2 ^ page_shift c"
  and num_4k_bounds: "cfg_ok c \<Longrightarrow> 1 \<le> num_4k c \<and> num_4k c \<le> 64"
proof -
  assume "cfg_ok c"
  then have s: "12 \<le> page_shift c" "page_shift c - 12 \<le> 6" by (auto simp: cfg_ok_def)
  have two: "(2::nat) ^ page_shift c = 2 ^ (page_shift c - 12) * 4096"
    using s(1) power_add [of "2::nat" "page_shift c - 12" 12] by simp
  show eq: "num_4k c = 2 ^ (page_shift c - 12)" by (simp add: num_4k_def MLX5_ADAPTER_PAGE_SIZE_def two)
  show "num_4k c * MLX5_ADAPTER_PAGE_SIZE = 2 ^ page_shift c" by (simp add: eq two MLX5_ADAPTER_PAGE_SIZE_def)
  have "(2::nat) ^ (page_shift c - 12) \<le> 2 ^ 6" using s(2) by (rule power_increasing) simp
  then show "1 \<le> num_4k c \<and> num_4k c \<le> 64" by (simp add: eq)
qed

lemma page_ix_less: "cfg_ok c \<Longrightarrow> page_ix c a < num_4k c"
  by (simp add: page_ix_def num_4k_def num_4k_size less_mult_imp_div_less flip: num_4k_def)

lemma page_of_slot:
  assumes "cfg_ok c" "2 ^ page_shift c dvd b" "n < num_4k c"
  shows "page_base c (b + n * MLX5_ADAPTER_PAGE_SIZE) = b" "page_ix c (b + n * MLX5_ADAPTER_PAGE_SIZE) = n"
    "MLX5_ADAPTER_PAGE_SIZE dvd b + n * MLX5_ADAPTER_PAGE_SIZE"
proof -
  let ?s = "2 ^ page_shift c :: nat"
  have lt: "n * MLX5_ADAPTER_PAGE_SIZE < ?s"
    using assms(3) by (simp add: MLX5_ADAPTER_PAGE_SIZE_def flip: num_4k_size [OF assms(1)])
  obtain k where b: "b = ?s * k" using assms(2) by (rule dvdE)
  show "page_base c (b + n * MLX5_ADAPTER_PAGE_SIZE) = b" using lt by (simp add: page_base_def b)
  show "page_ix c (b + n * MLX5_ADAPTER_PAGE_SIZE) = n"
    using lt by (simp add: page_ix_def b) (simp add: MLX5_ADAPTER_PAGE_SIZE_def)
  have "MLX5_ADAPTER_PAGE_SIZE dvd ?s" by (simp flip: num_4k_size [OF assms(1)])
  then show "MLX5_ADAPTER_PAGE_SIZE dvd b + n * MLX5_ADAPTER_PAGE_SIZE" by (simp add: b)
qed

lemma slot_of_page:
  assumes "cfg_ok c" "MLX5_ADAPTER_PAGE_SIZE dvd a"
  shows "a = page_base c a + page_ix c a * MLX5_ADAPTER_PAGE_SIZE"
proof -
  have "MLX5_ADAPTER_PAGE_SIZE dvd 2 ^ page_shift c" by (simp flip: num_4k_size [OF assms(1)])
  with assms(2) have "MLX5_ADAPTER_PAGE_SIZE dvd a mod 2 ^ page_shift c" by (simp add: dvd_mod)
  then have "page_ix c a * MLX5_ADAPTER_PAGE_SIZE = a mod 2 ^ page_shift c" by (simp add: page_ix_def)
  then show ?thesis by (simp only: page_base_def div_mult_mod_eq)
qed

lemma find_SomeD: "find Q xs = Some x \<Longrightarrow> x \<in> set xs \<and> Q x"
  by (auto simp: find_Some_iff)

lemma find_snoc: "find Q xs = None \<Longrightarrow> Q y \<Longrightarrow> find Q (xs @ [y]) = Some y"
  by (induction xs) (auto split: if_splits)

lemma find_fw_page_pages: "find_fw_page d a f = find (\<lambda>p. fp_addr p = a) (pages d f)"
  by (simp add: find_fw_page_def pages_def split: option.splits)

lemma find_fw_page_Some:
  assumes "find_fw_page d a f = Some p"
  shows "p \<in> set (pages d f)" "fp_addr p = a"
  using assms by (auto simp: find_fw_page_pages find_Some_iff)

lemma sorted_addr_unique:
  "sorted_wrt (\<lambda>p q. fp_addr q < fp_addr p) ps \<Longrightarrow> p \<in> set ps \<Longrightarrow> q \<in> set ps \<Longrightarrow> fp_addr p = fp_addr q \<Longrightarrow> p = q"
  by (induction ps) auto

lemma find_fw_page_in:
  assumes "roots_ok c d" "p \<in> set (pages d f)"
  shows "find_fw_page d (fp_addr p) f = Some p"
proof -
  have "find (\<lambda>q. fp_addr q = fp_addr p) (pages d f) \<noteq> None" using assms(2) by (auto simp: find_None_iff)
  then obtain q where q: "find_fw_page d (fp_addr p) f = Some q" by (auto simp: find_fw_page_pages)
  from find_fw_page_Some [OF q] assms have "q = p" by (auto simp: roots_ok_def intro: sorted_addr_unique)
  with q show ?thesis by simp
qed

text \<open>Replacing, removing and adding a page of one function.\<close>

lemma pages_set_page:
  "pages (set_page f p d) g = (if g = f then map (\<lambda>q. if fp_addr q = fp_addr p then p else q) (pages d f) else pages d g)"
  by (auto simp: set_page_def pages_def split: option.splits)

lemma set_page_free_list [simp]: "free_list (set_page f p d) = free_list d"
  by (simp add: set_page_def split: option.splits)

lemma set_page_same_list [simp]: "set_page f p d\<lparr>free_list := free_list d\<rparr> = set_page f p d"
  by (simp add: set_page_def split: option.splits)

lemma find_set_page:
  assumes "find_fw_page d (fp_addr p) f \<noteq> None"
  shows "find_fw_page (set_page f p d) a g = (if g = f \<and> a = fp_addr p then Some p else find_fw_page d a g)"
proof -
  have "find (\<lambda>q. fp_addr q = a) (map (\<lambda>q. if fp_addr q = fp_addr p then p else q) ps) =
      (if a = fp_addr p \<and> (\<exists>q\<in>set ps. fp_addr q = a) then Some p else find (\<lambda>q. fp_addr q = a) ps)" for ps
    by (induction ps) auto
  moreover have "\<exists>q\<in>set (pages d f). fp_addr q = fp_addr p"
    using assms find_fw_page_Some by blast
  ultimately show ?thesis by (auto simp: find_fw_page_pages pages_set_page)
qed

lemma roots_ok_set_page:
  assumes "roots_ok c d" "page_ok c f p"
  shows "roots_ok c (set_page f p d)"
proof -
  have "sorted_wrt (\<lambda>p q. fp_addr q < fp_addr p) ps \<Longrightarrow>
      sorted_wrt (\<lambda>p q. fp_addr q < fp_addr p) (map (\<lambda>q. if fp_addr q = fp_addr p then p else q) ps)" for ps
    by (induction ps) auto
  with assms show ?thesis by (auto simp: roots_ok_def pages_set_page)
qed

lemma lent_cong: "(\<And>a. find_fw_page d' a f = find_fw_page d a f) \<Longrightarrow> lent c d' f = lent c d f"
  by (simp add: lent_def)

section \<open>Allocating and freeing one adapter page\<close>

text \<open>An operation on the pages of \<open>f\<close> leaves the other functions and the counters alone.\<close>

definition only_pages :: "nat \<Rightarrow> pg_dev \<Rightarrow> pg_dev \<Rightarrow> bool" where
  "only_pages f d d' \<longleftrightarrow>
     (\<forall>g. g \<noteq> f \<longrightarrow> page_root_xa d' g = page_root_xa d g) \<and> fw_pages d' = fw_pages d \<and>
     page_counters d' = page_counters d \<and> vports d' = vports d"

lemma only_pages_refl [simp]: "only_pages f d d"
  by (simp add: only_pages_def)

lemma only_pages_trans: "only_pages f d d' \<Longrightarrow> only_pages f d' d'' \<Longrightarrow> only_pages f d d''"
  by (simp add: only_pages_def)

lemma only_pages_lent: "only_pages f d d' \<Longrightarrow> g \<noteq> f \<Longrightarrow> lent c d' g = lent c d g"
  by (rule lent_cong) (simp add: only_pages_def find_fw_page_def)

lemma only_set_page [simp]: "only_pages f d (set_page f p d)"
  by (auto simp: only_pages_def set_page_def split: option.splits)

text \<open>The pages and the list after a page was changed in place.\<close>

lemma set_page_set:
  assumes "roots_ok c d" "q \<in> set (pages d f)" "fp_addr p = fp_addr q"
  shows "set (pages (set_page f p d) f) = insert p (set (pages d f) - {q})"
proof -
  have "fp_addr x = fp_addr p \<longleftrightarrow> x = q" if "x \<in> set (pages d f)" for x
    using assms that by (auto simp: roots_ok_def intro: sorted_addr_unique)
  then show ?thesis using assms(2) by (force simp: pages_set_page)
qed

lemma list_ok_set_page:
  assumes inv: "roots_ok c d" "list_ok d" and q: "q \<in> set (pages d f)" and a: "fp_addr p = fp_addr q"
    and fl: "set fl = (if 0 < fp_free_count p then insert (f, fp_addr p) (set (free_list d)) else set (free_list d) - {(f, fp_addr p)})"
    and dist: "distinct fl"
  shows "list_ok (set_page f p d\<lparr>free_list := fl\<rparr>)"
proof -
  have pg: "pages (set_page f p d\<lparr>free_list := fl\<rparr>) g = pages (set_page f p d) g" for g by (simp add: pages_def)
  have uniq: "x = q" if "x \<in> set (pages d f)" "fp_addr x = fp_addr p" for x
    using inv(1) q a that by (auto simp: roots_ok_def intro: sorted_addr_unique)
  have "(g, b) \<in> set fl \<longleftrightarrow> (\<exists>x\<in>set (pages (set_page f p d) g). fp_addr x = b \<and> 0 < fp_free_count x)" for g b
  proof (cases "g = f")
    case True
    have "(f, b) \<in> set (free_list d) \<longleftrightarrow> (\<exists>x\<in>set (pages d f). fp_addr x = b \<and> 0 < fp_free_count x)"
      using inv(2) by (simp add: list_ok_def)
    with uniq q show ?thesis unfolding True fl set_page_set [OF inv(1) q a] by (auto simp: a)
  next
    case False
    then show ?thesis using inv(2) by (auto simp: fl pages_set_page list_ok_def split: if_splits)
  qed
  with dist show ?thesis by (simp add: list_ok_def pg)
qed

text \<open>The pages lent after one bit of a bitmask was changed.\<close>

lemma lent_set_bit:
  assumes c: "cfg_ok c" and q: "find_fw_page d b f = Some q" "page_ok c f q" and n: "n < num_4k c"
    and p: "fp_bitmask p = (fp_bitmask q)[n := v]"
    and d': "\<And>y. find_fw_page d' y f = (if y = b then Some p else find_fw_page d y f)"
  shows "lent c d' f =
    (if v then lent c d f - {b + n * MLX5_ADAPTER_PAGE_SIZE} else insert (b + n * MLX5_ADAPTER_PAGE_SIZE) (lent c d f))"
proof -
  let ?a = "b + n * MLX5_ADAPTER_PAGE_SIZE"
  from q have al: "2 ^ page_shift c dvd b" using find_fw_page_Some(2) [OF q(1)] by (simp add: page_ok_def)
  note slot = page_of_slot [OF c al n]
  have mem: "x \<in> lent c d' f \<longleftrightarrow> (if x = ?a then \<not> v else x \<in> lent c d f)" for x
  proof (cases "MLX5_ADAPTER_PAGE_SIZE dvd x \<and> page_base c x = b")
    case True
    have "page_ix c x = n \<longleftrightarrow> x = ?a" using slot_of_page [OF c, of x] True slot(2) by metis
    moreover have "page_ix c x < 64" using page_ix_less [OF c, of x] num_4k_bounds [OF c] by linarith
    ultimately show ?thesis using True q by (auto simp: lent_def d' p nth_list_update page_ok_def)
  next
    case False
    then have "x \<noteq> ?a" using slot by auto
    then show ?thesis using False by (auto simp: lent_def d')
  qed
  show ?thesis by (rule set_eqI) (cases v; simp add: mem)
qed

lemma listed_iff:
  assumes "pg_inv c d" "q \<in> set (pages d f)"
  shows "(f, fp_addr q) \<in> set (free_list d) \<longleftrightarrow> 0 < fp_free_count q"
proof -
  from assms(1) have "sorted_wrt (\<lambda>p q. fp_addr q < fp_addr p) (pages d f)"
    and l: "(f, fp_addr q) \<in> set (free_list d) \<longleftrightarrow> (\<exists>p\<in>set (pages d f). fp_addr p = fp_addr q \<and> 0 < fp_free_count p)"
    by (simp_all add: pg_inv_def list_ok_def roots_ok_def)
  with assms(2) have "p = q" if "p \<in> set (pages d f)" "fp_addr p = fp_addr q" for p
    using that by (blast intro: sorted_addr_unique)
  with l assms(2) show ?thesis by blast
qed

lemma alloc_4k_ok:
  assumes c: "cfg_ok c" and inv: "pg_inv c d"
  shows "(\<exists>a d'. alloc_4k c d f = Some (Inr a, d') \<and> pg_inv c d' \<and> a \<notin> lent c d f \<and>
            lent c d' f = insert a (lent c d f) \<and> only_pages f d d') \<or>
         alloc_4k c d f = Some (Inl ENOMEM, d) \<and> (\<forall>a. (f, a) \<notin> set (free_list d))"
proof (cases "find (\<lambda>(f', _). f' = f) (rev (free_list d))")
  case None
  then have "alloc_4k c d f = Some (Inl ENOMEM, d)" by (simp add: alloc_4k_def)
  moreover have "\<forall>a. (f, a) \<notin> set (free_list d)" using None by (auto simp: find_None_iff)
  ultimately show ?thesis by blast
next
  case (Some e)
  then obtain a where e: "e = (f, a)" and mem: "(f, a) \<in> set (free_list d)"
    by (cases e) (auto dest: find_SomeD)
  from inv have r: "roots_ok c d" and l: "list_ok d" by (simp_all add: pg_inv_def)
  from mem l obtain q where q: "q \<in> set (pages d f)" "fp_addr q = a" "0 < fp_free_count q" by (auto simp: list_ok_def)
  have find: "find_fw_page d a f = Some q" using find_fw_page_in [OF r q(1)] q(2) by simp
  from r q(1) have ok: "page_ok c f q" by (simp add: roots_ok_def)
  then obtain n where n: "first_ix id (fp_bitmask q) = Some n" "n < 64" "fp_bitmask q ! n"
    using q(3) by (cases "first_ix id (fp_bitmask q)")
      (auto simp: first_ix_None_iff first_ix_Some_iff page_ok_def count_list_0_iff)
  have lt: "n < num_4k c" using ok n by (simp add: page_ok_def)
  define p where "p = q\<lparr>fp_bitmask := (fp_bitmask q)[n := False], fp_free_count := fp_free_count q - 1\<rparr>"
  define fl where "fl = (if fp_free_count p = 0 then remove1 (f, a) (free_list d) else free_list d)"
  define d' where "d' = set_page f p d\<lparr>free_list := fl\<rparr>"
  have pa: "fp_addr p = fp_addr q" by (simp add: p_def)
  have dist: "distinct (free_list d)" using l by (simp add: list_ok_def)
  have pok: "page_ok c f p"
    using ok n count_list_update_other [of n "fp_bitmask q" True False] by (auto simp: page_ok_def p_def nth_list_update)
  have res: "alloc_4k c d f = Some (Inr (fp_addr q + n * MLX5_ADAPTER_PAGE_SIZE), d')"
    using Some e find n lt
    by (simp add: alloc_4k_def find_first_bit_def Let_def p_def d'_def fl_def)
  have "roots_ok c d'" using roots_ok_set_page [OF r pok] by (simp add: roots_ok_def d'_def pages_def)
  moreover have "list_ok d'" unfolding d'_def
    using mem dist by (intro list_ok_set_page [OF r l q(1) pa]) (auto simp: fl_def pa q(2))
  ultimately have inv': "pg_inv c d'" by (simp add: pg_inv_def)
  have fp: "find_fw_page d' b f = (if b = a then Some p else find_fw_page d b f)" for b
    using find_set_page [of d p f b f] find pa q(2) by (simp add: d'_def find_fw_page_def)
  have al: "2 ^ page_shift c dvd fp_addr q" using ok by (simp add: page_ok_def)
  let ?a = "fp_addr q + n * MLX5_ADAPTER_PAGE_SIZE"
  have "?a \<notin> lent c d f" using page_of_slot [OF c al lt] find n q(2) by (simp add: lent_def)
  moreover have "lent c d' f = insert ?a (lent c d f)"
    using lent_set_bit [OF c find ok lt, of p False d'] by (simp add: p_def fp q(2))
  moreover have "only_pages f d d'" using only_set_page [of f d p] by (simp add: d'_def only_pages_def)
  ultimately show ?thesis using res inv' by blast
qed

text \<open>Removing a page from its tree and from the list.\<close>

definition del_page :: "nat \<Rightarrow> nat \<Rightarrow> pg_dev \<Rightarrow> pg_dev" where
  "del_page f b d = d\<lparr>page_root_xa := (page_root_xa d)(f := map_option (filter (\<lambda>p. fp_addr p \<noteq> b)) (page_root_xa d f)),
     free_list := removeAll (f, b) (free_list d)\<rparr>"

lemma pages_del_page: "pages (del_page f b d) g = (if g = f then filter (\<lambda>p. fp_addr p \<noteq> b) (pages d f) else pages d g)"
  by (auto simp: pages_def del_page_def split: option.splits)

lemma find_filter_addr:
  "find (\<lambda>p. fp_addr p = a) (filter (\<lambda>p. fp_addr p \<noteq> b) ps) = (if a = b then None else find (\<lambda>p. fp_addr p = a) ps)"
  by (induction ps) auto

lemma find_del_page:
  "find_fw_page (del_page f b d) a g = (if g = f \<and> a = b then None else find_fw_page d a g)"
  by (simp add: find_fw_page_pages pages_del_page find_filter_addr)

lemma only_del_page [simp]: "only_pages f d (del_page f b d)"
  by (simp add: only_pages_def del_page_def)

lemma pg_inv_del_page:
  assumes "pg_inv c d"
  shows "pg_inv c (del_page f b d)"
proof -
  from assms have r: "roots_ok c d" and l: "list_ok d" by (simp_all add: pg_inv_def)
  have "roots_ok c (del_page f b d)"
    using r by (auto simp: roots_ok_def pages_del_page sorted_wrt_filter)
  moreover have "list_ok (del_page f b d)"
    using l by (auto simp: list_ok_def pages_del_page distinct_removeAll) (auto simp: del_page_def distinct_removeAll)
  ultimately show ?thesis by (simp add: pg_inv_def)
qed

lemma filter_set_page:
  "filter (\<lambda>x. fp_addr x \<noteq> fp_addr p) (map (\<lambda>x. if fp_addr x = fp_addr p then p else x) ps) = filter (\<lambda>x. fp_addr x \<noteq> fp_addr p) ps"
  by (induction ps) auto

lemma free_fwp_eq:
  assumes "page_root_xa d f \<noteq> None" "fp_function p = f" "distinct (free_list d)" "in_list \<longleftrightarrow> (f, fp_addr p) \<in> set (free_list d)"
  shows "free_fwp d p in_list = Some (del_page f (fp_addr p) d)"
  using assms by (auto simp: free_fwp_def del_page_def Let_def distinct_remove1_removeAll removeAll_id)

lemma del_set_page:
  assumes "page_root_xa d f \<noteq> None"
  shows "del_page f (fp_addr p) (set_page f p d) = del_page f (fp_addr p) d"
  using assms by (auto simp: del_page_def set_page_def filter_set_page)

text \<open>The adapter page an address lies in.\<close>

definition slot :: "pg_cfg \<Rightarrow> nat \<Rightarrow> nat" where
  "slot c x = page_base c x + page_ix c x * MLX5_ADAPTER_PAGE_SIZE"

lemma count_True_card: "count_list bs True = card {i. i < length bs \<and> bs ! i}"
  by (simp add: count_list_eq_length_filter length_filter_conv_card)

lemma full_page:
  assumes "length bs = 64" "\<forall>n<64. bs ! n \<longrightarrow> n < k" "count_list bs True = k" "i < k"
  shows "bs ! i"
proof -
  have sub: "{i. i < length bs \<and> bs ! i} \<subseteq> {..<k}" using assms(1,2) by auto
  have "card {i. i < length bs \<and> bs ! i} = card {..<k}" using assms(3) by (simp add: count_True_card)
  then have "{i. i < length bs \<and> bs ! i} = {..<k}" by (rule card_subset_eq [OF finite_lessThan sub])
  with assms(4) show ?thesis by auto
qed

lemma free_4k_error:
  assumes c: "cfg_ok c" and inv: "pg_inv c d" and x: "slot c x \<notin> lent c d f"
  shows "\<exists>e. free_4k c d x f = Some (Some e, d)"
proof (cases "find_fw_page d (page_base c x) f")
  case None
  then show ?thesis by (simp add: free_4k_def page_base_def)
next
  case (Some q)
  from inv have "page_ok c f q" using find_fw_page_Some(1) [OF Some] by (simp add: pg_inv_def roots_ok_def)
  then have al: "2 ^ page_shift c dvd page_base c x" and len: "length (fp_bitmask q) = 64"
    by (simp_all add: page_base_def page_ok_def)
  note s = page_of_slot [OF c al page_ix_less [OF c], of x]
  have lt: "page_ix c x < 64" using page_ix_less [OF c, of x] num_4k_bounds [OF c] by linarith
  have "fp_bitmask q ! page_ix c x" using x Some s by (simp add: lent_def slot_def)
  then show ?thesis using Some lt len
    by (simp add: free_4k_def page_base_def page_ix_def nth_opt_def)
qed

lemma free_4k_success:
  assumes c: "cfg_ok c" and inv: "pg_inv c d" and x: "slot c x \<in> lent c d f"
  shows "\<exists>d'. free_4k c d x f = Some (None, d') \<and> pg_inv c d' \<and> lent c d' f = lent c d f - {slot c x} \<and> only_pages f d d'"
proof -
  let ?b = "page_base c x" and ?n = "page_ix c x"
  have al: "2 ^ page_shift c dvd ?b" by (simp add: page_base_def)
  have lt: "?n < num_4k c" using c by (rule page_ix_less)
  note s = page_of_slot [OF c al lt]
  from x obtain q where find: "find_fw_page d ?b f = Some q" and bit: "\<not> fp_bitmask q ! ?n"
    by (auto simp: lent_def slot_def s split: option.splits)
  from inv have r: "roots_ok c d" and l: "list_ok d" by (simp_all add: pg_inv_def)
  note q = find_fw_page_Some [OF find]
  from r q have ok: "page_ok c f q" by (simp add: roots_ok_def)
  then have len: "length (fp_bitmask q) = 64" by (simp add: page_ok_def)
  have lt64: "?n < 64" using lt num_4k_bounds [OF c] by linarith
  define p where "p = q\<lparr>fp_free_count := fp_free_count q + 1, fp_bitmask := (fp_bitmask q)[?n := True]\<rparr>"
  have pa: "fp_addr p = fp_addr q" by (simp add: p_def)
  have cnt: "fp_free_count p = count_list (fp_bitmask p) True"
    using ok bit lt64 count_list_update [of ?n "fp_bitmask q" True] by (simp add: p_def page_ok_def)
  have bits: "\<forall>n<64. fp_bitmask p ! n \<longrightarrow> n < num_4k c"
    using ok lt lt64 len by (simp add: p_def page_ok_def nth_list_update)
  have listed: "(f, ?b) \<in> set (free_list d) \<longleftrightarrow> 0 < fp_free_count q" using listed_iff [OF inv q(1)] q(2) by simp
  have dist: "distinct (free_list d)" using l by (simp add: list_ok_def)
  have root: "page_root_xa d f \<noteq> None" using find by (auto simp: find_fw_page_def split: option.splits)
  have run: "free_4k c d x f =
      (if fp_free_count p = num_4k c
       then map_option (\<lambda>d. (None, d)) (free_fwp (set_page f p d) p (fp_free_count p \<noteq> 1))
       else if fp_free_count p = 1 then Some (None, set_page f p d\<lparr>free_list := (f, fp_addr p) # free_list d\<rparr>)
       else Some (None, set_page f p d))"
    using find len lt64 bit by (simp add: free_4k_def page_base_def page_ix_def nth_opt_def Let_def p_def)
  show ?thesis
  proof (cases "fp_free_count p = num_4k c")
    case True
    have "free_fwp (set_page f p d) p (fp_free_count p \<noteq> 1) = Some (del_page f (fp_addr p) (set_page f p d))"
      using root ok listed dist pa q(2)
      by (intro free_fwp_eq) (auto simp: set_page_def p_def page_ok_def)
    then have "free_4k c d x f = Some (None, del_page f ?b d)"
      using True del_set_page [OF root, of p] pa q(2) by (simp add: run)
    moreover have "lent c (del_page f ?b d) f = lent c d f - {slot c x}"
    proof -
      have all: "fp_bitmask p ! i" if "i < num_4k c" for i
        using full_page [OF _ bits, of i] True cnt that len by (simp add: p_def)
      have "y = slot c x" if "y \<in> lent c d f" "page_base c y = ?b" for y
      proof -
        have "\<not> fp_bitmask q ! page_ix c y" using that find by (simp add: lent_def)
        with all [OF page_ix_less [OF c, of y]] have "page_ix c y = ?n"
          by (cases "page_ix c y = ?n") (simp_all add: p_def nth_list_update_neq)
        with that slot_of_page [OF c, of y] show ?thesis by (simp add: lent_def slot_def)
      qed
      moreover have "lent c (del_page f ?b d) f = {y \<in> lent c d f. page_base c y \<noteq> ?b}"
        by (auto simp: lent_def find_del_page split: option.splits)
      ultimately show ?thesis using s(1) by (auto simp: slot_def)
    qed
    ultimately show ?thesis using pg_inv_del_page [OF inv] only_del_page by blast
  next
    case False
    have "count_list (fp_bitmask p) True \<le> num_4k c" using ok cnt by (simp add: p_def page_ok_def)
    with False have pok: "page_ok c f p" using ok cnt bits len by (simp add: page_ok_def) (simp add: p_def)
    define fl where "fl = (if fp_free_count p = 1 then (f, ?b) # free_list d else free_list d)"
    define d' where "d' = set_page f p d\<lparr>free_list := fl\<rparr>"
    have res: "free_4k c d x f = Some (None, d')"
      using False pa q(2) by (simp add: run d'_def fl_def)
    have "roots_ok c d'" using roots_ok_set_page [OF r pok] by (simp add: roots_ok_def d'_def pages_def)
    moreover have "list_ok d'" unfolding d'_def
      using dist listed pa q(2)
      by (intro list_ok_set_page [OF r l q(1) pa]) (auto simp: fl_def p_def)
    moreover have "find_fw_page d' y f = (if y = ?b then Some p else find_fw_page d y f)" for y
      using find_set_page [of d p f y f] find pa q(2) by (simp add: d'_def find_fw_page_def)
    then have "lent c d' f = lent c d f - {slot c x}"
      using lent_set_bit [OF c find ok lt, of p True d'] by (simp add: p_def slot_def)
    moreover have "only_pages f d d'" using only_set_page [of f d p] by (simp add: d'_def only_pages_def)
    ultimately show ?thesis using res by (auto simp: pg_inv_def)
  qed
qed

section \<open>Adding a system page\<close>

definition env_ok :: "pg_cfg \<Rightarrow> sys_env \<Rightarrow> bool" where
  "env_ok c env \<longleftrightarrow> (\<forall>a. Some a \<in> set (dma_addrs env) \<longrightarrow> 2 ^ page_shift c dvd a)"

lemma rb_insert_page_spec:
  assumes "sorted_wrt (\<lambda>p q. fp_addr q < fp_addr p) ps" "rb_insert_page p ps = Some qs"
  shows "sorted_wrt (\<lambda>p q. fp_addr q < fp_addr p) qs \<and> set qs = insert p (set ps) \<and> fp_addr p \<notin> fp_addr ` set ps"
  using assms
proof (induction ps arbitrary: qs)
  case (Cons t ps)
  have "fp_addr x < fp_addr p" if "fp_addr t < fp_addr p" "x \<in> set ps" for x
    using Cons.prems(1) that by force
  with Cons show ?case by (cases "fp_addr t" "fp_addr p" rule: linorder_cases) auto
qed simp

lemma rb_insert_page_update:
  assumes "sorted_wrt (\<lambda>p q. fp_addr q < fp_addr p) ps" "rb_insert_page p ps = Some qs" "fp_addr p' = fp_addr p"
  shows "rb_insert_page p' ps = Some (map (\<lambda>q. if fp_addr q = fp_addr p' then p' else q) qs)"
  using assms
proof (induction ps arbitrary: qs)
  case (Cons t ps)
  have "map (\<lambda>q. if fp_addr q = fp_addr p then p' else q) ps = ps" if "fp_addr t < fp_addr p"
    using Cons.prems(1) that by (intro map_idI) auto
  then show ?case using Cons by (cases "fp_addr t" "fp_addr p" rule: linorder_cases) auto
qed simp

lemma map_nonzero_Some: "map_nonzero xs = Some a \<Longrightarrow> Some a \<in> set xs \<and> a \<noteq> 0"
  by (induction xs rule: map_nonzero.induct) (auto split: if_splits)

definition only_root :: "nat \<Rightarrow> pg_dev \<Rightarrow> pg_dev \<Rightarrow> bool" where
  "only_root f d d' \<longleftrightarrow> d' = d \<or> page_root_xa d f = None \<and> d' = d\<lparr>page_root_xa := (page_root_xa d)(f \<mapsto> [])\<rparr>"

lemma alloc_system_page_cases:
  assumes "env_ok c env"
  obtains (fail) e d' where "alloc_system_page c env d f = (Some e, d')" "only_root f d d'"
  | (page) addr root where "alloc_system_page c env d f =
        (None, d\<lparr>page_root_xa := (page_root_xa d)(f \<mapsto> root), free_list := (f, addr) # free_list d\<rparr>)"
      "rb_insert_page (new_fw_page c addr f) (pages d f) = Some root" "2 ^ page_shift c dvd addr"
proof -
  consider "alloc_system_page c env d f = (Some ENOMEM, d)"
    | addr where "map_nonzero (dma_addrs env) = Some addr" "alloc_system_page c env d f = insert_page c env d addr f"
    by (cases "alloc_page_ok env"; cases "map_nonzero (dma_addrs env)") (simp_all add: alloc_system_page_def)
  then show thesis
  proof cases
    case 1
    then show thesis by (rule fail) (simp add: only_root_def)
  next
    case 2
    have al: "2 ^ page_shift c dvd addr" using map_nonzero_Some [OF 2(1)] assms by (simp add: env_ok_def)
    have "(\<exists>e d'. insert_page c env d addr f = (Some e, d') \<and> only_root f d d') \<or>
        (\<exists>root. rb_insert_page (new_fw_page c addr f) (pages d f) = Some root \<and>
          insert_page c env d addr f = (None, d\<lparr>page_root_xa := (page_root_xa d)(f \<mapsto> root), free_list := (f, addr) # free_list d\<rparr>))"
      by (auto simp: insert_page_def page_root_per_function_def pages_def only_root_def split: option.splits)
    with 2(2) al show thesis using fail page by metis
  qed
qed

lemma only_root_keeps:
  assumes "only_root f d d'" "pg_inv c d"
  shows "pg_inv c d'" "lent c d' f = lent c d f" "only_pages f d d'"
proof -
  have pg: "pages d' g = pages d g" for g using assms(1) by (auto simp: only_root_def pages_def)
  have fl: "free_list d' = free_list d" using assms(1) by (auto simp: only_root_def)
  show "pg_inv c d'" using assms(2) by (simp add: pg_inv_def roots_ok_def list_ok_def pg fl)
  show "lent c d' f = lent c d f" by (rule lent_cong) (simp add: find_fw_page_pages pg)
  show "only_pages f d d'" using assms(1) by (auto simp: only_root_def only_pages_def)
qed

text \<open>A new page whose first adapter page is taken, and the device with it.\<close>

definition taken_page :: "pg_cfg \<Rightarrow> nat \<Rightarrow> nat \<Rightarrow> fw_page" where
  "taken_page c addr f = (new_fw_page c addr f)\<lparr>fp_bitmask := (fp_bitmask (new_fw_page c addr f))[0 := False],
     fp_free_count := fp_free_count (new_fw_page c addr f) - 1\<rparr>"

definition with_root :: "pg_cfg \<Rightarrow> nat \<Rightarrow> nat \<Rightarrow> fw_page list \<Rightarrow> pg_dev \<Rightarrow> pg_dev" where
  "with_root c addr f root d = d\<lparr>page_root_xa := (page_root_xa d)(f \<mapsto> root),
     free_list := (if num_4k c = 1 then free_list d else (f, addr) # free_list d)\<rparr>"

lemma addr_taken_page [simp]: "fp_addr (new_fw_page c addr f) = addr" "fp_addr (taken_page c addr f) = addr"
  by (simp_all add: taken_page_def new_fw_page_def)

lemma taken_page_bits:
  assumes "cfg_ok c" "i < num_4k c"
  shows "fp_bitmask (taken_page c addr f) ! i \<longleftrightarrow> i \<noteq> 0"
  using assms num_4k_bounds [OF assms(1)] by (simp add: taken_page_def new_fw_page_def nth_append nth_list_update)

lemma taken_page_ok:
  assumes c: "cfg_ok c" and "2 ^ page_shift c dvd addr"
  shows "page_ok c f (taken_page c addr f)"
proof -
  have k: "1 \<le> num_4k c" "num_4k c \<le> 64" using num_4k_bounds [OF c] by auto
  have "count_list (replicate n True @ replicate m False) True = n" for n m
    by (simp add: count_list_eq_length_filter)
  then have "fp_free_count (taken_page c addr f) = count_list (fp_bitmask (taken_page c addr f)) True"
    using k count_list_update_other [of 0 "fp_bitmask (new_fw_page c addr f)" True False]
    by (simp add: taken_page_def new_fw_page_def nth_append)
  then show ?thesis using k assms(2)
    by (simp add: page_ok_def) (auto simp: taken_page_def new_fw_page_def nth_append nth_list_update split: if_splits)
qed

lemma find_in_root:
  assumes "sorted_wrt (\<lambda>p q. fp_addr q < fp_addr p) root" "p \<in> set root"
  shows "find (\<lambda>q. fp_addr q = fp_addr p) root = Some p"
proof -
  have "find (\<lambda>q. fp_addr q = fp_addr p) root \<noteq> None" using assms(2) by (auto simp: find_None_iff)
  then obtain q where q: "find (\<lambda>q. fp_addr q = fp_addr p) root = Some q" by auto
  then have "q = p" using find_SomeD [OF q] assms by (blast intro: sorted_addr_unique)
  with q show ?thesis by simp
qed

text \<open>The new page is the only one of its function on the list, so it is the one the retry finds.\<close>

lemma alloc_4k_new_page:
  assumes c: "cfg_ok c" and inv: "pg_inv c d" and empty: "\<forall>a. (f, a) \<notin> set (free_list d)"
    and root: "rb_insert_page (new_fw_page c addr f) (pages d f) = Some root"
    and d1: "d1 = d\<lparr>page_root_xa := (page_root_xa d)(f \<mapsto> root), free_list := (f, addr) # free_list d\<rparr>"
  obtains root' where "alloc_4k c d1 f = Some (Inr addr, with_root c addr f root' d)"
    "rb_insert_page (taken_page c addr f) (pages d f) = Some root'"
proof
  let ?p = "taken_page c addr f"
  let ?root = "map (\<lambda>q. if fp_addr q = fp_addr ?p then ?p else q) root"
  have k: "1 \<le> num_4k c" using num_4k_bounds [OF c] by auto
  from inv have sorted: "sorted_wrt (\<lambda>p q. fp_addr q < fp_addr p) (pages d f)" by (simp add: pg_inv_def roots_ok_def)
  show "rb_insert_page ?p (pages d f) = Some ?root"
    by (rule rb_insert_page_update [OF sorted root]) simp
  have find1: "find_fw_page d1 addr f = Some (new_fw_page c addr f)"
    using find_in_root [of root "new_fw_page c addr f"] rb_insert_page_spec [OF sorted root]
    by (simp add: find_fw_page_def d1)
  have "find (\<lambda>(f', _). f' = f) (rev (free_list d)) = None" using empty by (auto simp: find_None_iff)
  then have list1: "find (\<lambda>(f', _). f' = f) (rev (free_list d1)) = Some (f, addr)" by (simp add: d1 find_snoc)
  have bit0: "find_first_bit (fp_bitmask (new_fw_page c addr f)) = 0"
    using k by (cases "num_4k c") (simp_all add: find_first_bit_def new_fw_page_def)
  have "fp_free_count ?p = 0 \<longleftrightarrow> num_4k c = 1" using k by (simp add: taken_page_def new_fw_page_def)
  moreover have "set_page f ?p d1 = d\<lparr>page_root_xa := (page_root_xa d)(f \<mapsto> ?root), free_list := (f, addr) # free_list d\<rparr>"
    by (cases d) (simp add: d1 set_page_def)
  moreover have "(new_fw_page c addr f)\<lparr>fp_bitmask := (fp_bitmask (new_fw_page c addr f))[0 := False],
        fp_free_count := fp_free_count (new_fw_page c addr f) - Suc 0\<rparr> = ?p"
    by (simp add: taken_page_def)
  ultimately show "alloc_4k c d1 f = Some (Inr addr, with_root c addr f ?root d)" using k
    by (simp add: alloc_4k_def list1 find1 bit0 Let_def) (simp add: with_root_def)
qed

lemma find_rb_insert_other:
  "rb_insert_page p ps = Some qs \<Longrightarrow> y \<noteq> fp_addr p \<Longrightarrow> find (\<lambda>q. fp_addr q = y) qs = find (\<lambda>q. fp_addr q = y) ps"
  by (induction ps arbitrary: qs) (auto split: if_splits)

lemma with_root_ok:
  assumes c: "cfg_ok c" and inv: "pg_inv c d" and empty: "\<forall>a. (f, a) \<notin> set (free_list d)"
    and root: "rb_insert_page (taken_page c addr f) (pages d f) = Some root" and al: "2 ^ page_shift c dvd addr"
  shows "pg_inv c (with_root c addr f root d)" "addr \<notin> lent c d f"
    "lent c (with_root c addr f root d) f = insert addr (lent c d f)" "only_pages f d (with_root c addr f root d)"
proof -
  let ?p = "taken_page c addr f" and ?d = "with_root c addr f root d"
  have k: "1 \<le> num_4k c" using num_4k_bounds [OF c] by auto
  from inv have r: "roots_ok c d" and l: "list_ok d" by (simp_all add: pg_inv_def)
  then have sorted: "sorted_wrt (\<lambda>p q. fp_addr q < fp_addr p) (pages d f)" by (simp add: roots_ok_def)
  note spec = rb_insert_page_spec [OF sorted root]
  have pg: "pages ?d g = (if g = f then root else pages d g)" for g by (simp add: pages_def with_root_def)
  have "roots_ok c ?d" using r spec taken_page_ok [OF c al] by (auto simp: roots_ok_def pg)
  moreover have "list_ok ?d"
  proof -
    have none: "fp_free_count q = 0" if "q \<in> set (pages d f)" for q
      using listed_iff [OF inv that] empty by simp
    have "0 < fp_free_count ?p \<longleftrightarrow> num_4k c \<noteq> 1" using k by (auto simp: taken_page_def new_fw_page_def)
    then have "(f, a) \<in> set (free_list ?d) \<longleftrightarrow> (\<exists>q\<in>set (pages ?d f). fp_addr q = a \<and> 0 < fp_free_count q)" for a
      using spec none empty by (auto simp: pg) (auto simp: with_root_def)
    moreover have "(g, a) \<in> set (free_list ?d) \<longleftrightarrow> (\<exists>q\<in>set (pages ?d g). fp_addr q = a \<and> 0 < fp_free_count q)" if "g \<noteq> f" for g a
      using l that by (simp add: pg list_ok_def) (simp add: with_root_def)
    moreover have "distinct (free_list ?d)" using l empty by (simp add: with_root_def list_ok_def)
    ultimately show ?thesis unfolding list_ok_def by metis
  qed
  ultimately show "pg_inv c ?d" by (simp add: pg_inv_def)
  have miss: "find_fw_page d addr f = None" using spec by (auto simp: find_fw_page_pages find_None_iff)
  have base: "page_base c addr = addr" "page_ix c addr = 0" using page_of_slot [OF c al, of 0] k by simp_all
  show "addr \<notin> lent c d f" by (simp add: lent_def base miss)
  have find: "find_fw_page ?d y f = (if y = addr then Some ?p else find_fw_page d y f)" for y
    using find_in_root [of root ?p] find_rb_insert_other [OF root, of y] spec
    by (simp add: find_fw_page_pages pg)
  have "x \<in> lent c ?d f \<longleftrightarrow> x = addr \<or> x \<in> lent c d f" for x
  proof (cases "page_base c x = addr")
    case True
    have "MLX5_ADAPTER_PAGE_SIZE dvd x \<and> page_ix c x = 0 \<longleftrightarrow> x = addr"
      using slot_of_page [OF c, of x] True base page_of_slot(3) [OF c al, of 0] k by auto
    then show ?thesis using True miss by (simp add: lent_def find taken_page_bits [OF c page_ix_less [OF c]])
  next
    case False
    then show ?thesis using base by (auto simp: lent_def find)
  qed
  then show "lent c ?d f = insert addr (lent c d f)" by auto
  show "only_pages f d ?d" by (simp add: only_pages_def with_root_def)
qed

lemma give_one_ok:
  assumes c: "cfg_ok c" and inv: "pg_inv c d" and envs: "envs \<noteq> []" "\<forall>env\<in>set envs. env_ok c env"
  obtains (page) a d' where "give_one c envs d f = Some (Inr a, d')" "pg_inv c d'" "a \<notin> lent c d f"
      "lent c d' f = insert a (lent c d f)" "only_pages f d d'"
  | (fail) e d' where "give_one c envs d f = Some (Inl e, d')" "pg_inv c d'" "lent c d' f = lent c d f" "only_pages f d d'"
proof -
  from envs obtain env rest where e: "envs = env # rest" "env_ok c env" by (cases envs) auto
  consider a d' where "alloc_4k c d f = Some (Inr a, d')" "pg_inv c d'" "a \<notin> lent c d f"
      "lent c d' f = insert a (lent c d f)" "only_pages f d d'"
    | "alloc_4k c d f = Some (Inl ENOMEM, d)" "\<forall>a. (f, a) \<notin> set (free_list d)"
    using alloc_4k_ok [OF c inv, of f] by blast
  then show thesis
  proof cases
    case 1
    show thesis by (rule page [of a d']) (use 1 in \<open>simp_all add: e\<close>)
  next
    case empty: 2
    from e(2) show thesis
    proof (cases rule: alloc_system_page_cases [where d = d and f = f])
      case (fail e' d')
      from fail(1) empty(1) have "give_one c envs d f = Some (Inl e', d')" by (simp add: e(1))
      then show thesis using only_root_keeps [OF fail(2) inv] by (rule that(2))
    next
      case (page addr root)
      obtain root' where new: "alloc_4k c (d\<lparr>page_root_xa := (page_root_xa d)(f \<mapsto> root), free_list := (f, addr) # free_list d\<rparr>) f
            = Some (Inr addr, with_root c addr f root' d)"
          "rb_insert_page (taken_page c addr f) (pages d f) = Some root'"
        using alloc_4k_new_page [OF c inv empty(2) page(2) refl] by blast
      have "give_one c envs d f = Some (Inr addr, with_root c addr f root' d)"
        using page(1) empty(1) new(1) by (cases rest) (simp_all add: e(1))
      then show thesis using with_root_ok [OF c inv empty(2) new(2) page(3)] by (rule that(1))
    qed
  qed
qed

definition envs_ok :: "pg_cfg \<Rightarrow> sys_env list option list \<Rightarrow> bool" where
  "envs_ok c envs \<longleftrightarrow> (\<forall>es. Some es \<in> set envs \<longrightarrow> es \<noteq> [] \<and> (\<forall>env\<in>set es. env_ok c env))"

lemma pg_inv_failed [simp]: "pg_inv c (d\<lparr>fw_pages_alloc_failed := n\<rparr>) = pg_inv c d" "lent c (d\<lparr>fw_pages_alloc_failed := n\<rparr>) f = lent c d f"
    "only_pages f d' (d\<lparr>fw_pages_alloc_failed := n\<rparr>) = only_pages f d' d"
    "pg_inv c (d\<lparr>give_pages_dropped := m\<rparr>) = pg_inv c d" "lent c (d\<lparr>give_pages_dropped := m\<rparr>) f = lent c d f"
    "only_pages f d' (d\<lparr>give_pages_dropped := m\<rparr>) = only_pages f d' d"
  by (simp_all add: pg_inv_def roots_ok_def list_ok_def pages_def lent_def find_fw_page_def only_pages_def)

lemma give_loop_ok:
  assumes "cfg_ok c" "pg_inv c d" "envs_ok c envs"
  shows "\<exists>err qs d'. give_loop c envs d f pas = Some (err, qs @ pas, d') \<and> pg_inv c d' \<and> distinct qs \<and>
    set qs \<inter> lent c d f = {} \<and> lent c d' f = set qs \<union> lent c d f \<and> only_pages f d d' \<and> (err = None \<longrightarrow> length qs = length envs)"
  using assms
proof (induction envs arbitrary: d pas)
  case (Cons env envs)
  show ?case
  proof (cases env)
    case (Some retries)
    have ok: "envs_ok c envs" and r: "retries \<noteq> []" "\<forall>env\<in>set retries. env_ok c env"
      using Cons.prems(3) Some by (auto simp: envs_ok_def)
    from Cons.prems(1,2) r show ?thesis
    proof (cases rule: give_one_ok [where f = f])
      case (page a d1)
      from Cons.IH [OF Cons.prems(1) page(2) ok, of "a # pas"] obtain err qs d' where
        ih: "give_loop c envs d1 f (a # pas) = Some (err, qs @ a # pas, d')" "pg_inv c d'" "distinct qs"
          "set qs \<inter> lent c d1 f = {}" "lent c d' f = set qs \<union> lent c d1 f" "only_pages f d1 d'"
          "err = None \<longrightarrow> length qs = length envs" by auto
      then show ?thesis using page Some only_pages_trans [OF page(5) ih(6)]
        by (intro exI [of _ err] exI [of _ "qs @ [a]"] exI [of _ d']) auto
    next
      case (fail e d1)
      then show ?thesis using Some by (auto intro!: exI [of _ "[]"])
    qed
  qed (use Cons.prems in simp)
qed simp

lemma free_all_ok:
  assumes c: "cfg_ok c" and "pg_inv c d" "distinct pas" "set pas \<subseteq> lent c d f"
  shows "\<exists>d'. free_all c d f pas = Some d' \<and> pg_inv c d' \<and> lent c d' f = lent c d f - set pas \<and> only_pages f d d'"
  using assms(2-)
proof (induction pas arbitrary: d)
  case (Cons a pas)
  have s: "slot c a = a" using Cons.prems(3) slot_of_page [OF c, of a] by (auto simp: lent_def slot_def)
  obtain d1 where d1: "free_4k c d a f = Some (None, d1)" "pg_inv c d1" "lent c d1 f = lent c d f - {a}" "only_pages f d d1"
    using free_4k_success [OF c Cons.prems(1), of a f] Cons.prems(3) by (auto simp: s)
  have "distinct pas" "set pas \<subseteq> lent c d1 f" using Cons.prems(2,3) d1(3) by auto
  from Cons.IH [OF d1(2) this] show ?case using d1 only_pages_trans [OF d1(4)] by auto
qed auto

section \<open>The counters\<close>

text \<open>The number of adapter pages lent to each function is what the three kinds of counters count: the
  total, the counter of each type of function, and the counter of each vport.\<close>

definition ftype :: "pg_cfg \<Rightarrow> nat \<Rightarrow> func_type" where
  "ftype c f = func_id_to_type c (mlx5_get_func_id f) (mlx5_get_ec_function f \<noteq> 0)"

definition num_lent :: "pg_cfg \<Rightarrow> pg_dev \<Rightarrow> nat \<Rightarrow> int" where
  "num_lent c d f = int (card (lent c d f))"

definition counts :: "pg_cfg \<Rightarrow> pg_dev \<Rightarrow> bool" where
  "counts c d \<longleftrightarrow>
     fw_pages d = (\<Sum>f<131072. num_lent c d f) \<and>
     (\<forall>t. page_counters d t = (\<Sum>f\<in>{f. f < 131072 \<and> ftype c f = t}. num_lent c d f)) \<and>
     (esw_accounts c \<longrightarrow>
       (\<forall>i v. 0 < i \<and> i < 65536 \<and> vports d i = Some v \<longrightarrow> vp_fw_pages v = num_lent c d i + num_lent c d (i + 65536)))"

lemma uncount_eq: "uncount c d func_id ec n = recount c d func_id ec (- n)"
  by (simp add: uncount_def recount_def Let_def update_pg_counters_def split: option.splits)

lemma recount_keeps [simp]:
  "page_root_xa (recount c d func_id ec n) = page_root_xa d" "free_list (recount c d func_id ec n) = free_list d"
  "fw_pages (recount c d func_id ec n) = fw_pages d + n"
  by (simp_all add: recount_def Let_def update_pg_counters_def split: option.splits)

lemma recount_pages [simp]:
  "lent c (recount c d func_id ec n) f = lent c d f" "pg_inv c (recount c d func_id ec n) = pg_inv c d"
  by (simp_all add: lent_def find_fw_page_def pg_inv_def roots_ok_def list_ok_def pages_def)

lemma sum_one_changed:
  fixes h :: "nat \<Rightarrow> int"
  assumes "finite F" "\<And>g. g \<noteq> f \<Longrightarrow> h' g = h g" "h' f = h f + n"
  shows "sum h' F = sum h F + (if f \<in> F then n else 0)"
proof (cases "f \<in> F")
  case True
  have "sum h' (F - {f}) = sum h (F - {f})" using assms(2) by (intro sum.cong) auto
  then show ?thesis using True assms(1,3) by (simp add: sum.remove)
next
  case False
  then have "sum h' F = sum h F" by (intro sum.cong refl assms(2)) blast
  with False show ?thesis by simp
qed

lemma get_function_simps [simp]:
  assumes "i < 65536"
  shows "mlx5_get_func_id (get_function i ec) = i" "(mlx5_get_ec_function (get_function i ec) \<noteq> 0) = ec"
    "get_function i ec < 131072" "ftype c (get_function i ec) = func_id_to_type c i ec"
proof -
  show f: "mlx5_get_func_id (get_function i ec) = i" and e: "(mlx5_get_ec_function (get_function i ec) \<noteq> 0) = ec"
    using assms by (auto simp: get_function_def mlx5_get_func_id_def mlx5_get_ec_function_def)
  show "get_function i ec < 131072" using assms by (simp add: get_function_def)
  show "ftype c (get_function i ec) = func_id_to_type c i ec" by (simp only: ftype_def f e)
qed

lemma get_function_split:
  assumes "f < 131072"
  shows "f = get_function (mlx5_get_func_id f) (mlx5_get_ec_function f \<noteq> 0)"
proof (cases "f < 65536")
  case False
  then obtain g where "f = 65536 + g" by (metis le_Suc_ex not_less)
  with assms show ?thesis by (simp add: mlx5_get_func_id_def mlx5_get_ec_function_def get_function_def)
qed (simp add: mlx5_get_func_id_def mlx5_get_ec_function_def get_function_def)

lemma counts_recount:
  assumes old: "counts c d" and only: "only_pages f d d'" and f: "f = get_function i ec" "i < 65536"
    and n: "num_lent c d' f = num_lent c d f + n"
  shows "counts c (recount c d' i ec n)"
proof -
  let ?d = "recount c d' i ec n"
  have num: "num_lent c ?d g = num_lent c d' g" for g by (simp add: num_lent_def)
  have other: "num_lent c d' g = num_lent c d g" if "g \<noteq> f" for g
    using only_pages_lent [OF only that] by (simp add: num_lent_def)
  note S = sum_one_changed [of _ f "num_lent c d'" "num_lent c d", OF _ other n]
  have "fw_pages ?d = (\<Sum>f<131072. num_lent c ?d f)"
    using old only S [of "{..<131072}"] f by (simp add: counts_def only_pages_def num)
  moreover have "page_counters ?d t = (\<Sum>f\<in>{f. f < 131072 \<and> ftype c f = t}. num_lent c ?d f)" for t
  proof -
    have "page_counters ?d t = page_counters d t + (if func_id_to_type c i ec = t then n else 0)"
      using only by (simp add: recount_def Let_def update_pg_counters_def only_pages_def split: option.splits)
    then show ?thesis using old S [of "{f. f < 131072 \<and> ftype c f = t}"] f by (simp add: counts_def num)
  qed
  moreover have "vp_fw_pages v = num_lent c ?d j + num_lent c ?d (j + 65536)"
    if acc: "esw_accounts c" and j: "0 < j" "j < 65536" "vports ?d j = Some v" for j v
  proof -
    have fj: "f = j \<or> f = j + 65536 \<longleftrightarrow> i = j" using f j by (auto simp: get_function_def)
    have old': "vports d j = Some w \<Longrightarrow> vp_fw_pages w = num_lent c d j + num_lent c d (j + 65536)" for w
      using old acc j by (simp add: counts_def)
    have "vports d' = vports d" using only by (simp add: only_pages_def)
    with j acc obtain w where w: "vports d j = Some w" "vp_fw_pages v = vp_fw_pages w + (if i = j then n else 0)"
      by (cases "i = 0"; cases "i = j"; cases "vports d i") (auto simp: recount_def Let_def update_pg_counters_def)
    show ?thesis unfolding num
    proof (cases "i = j")
      case True
      then consider "f = j" "j + 65536 \<noteq> f" | "f = j + 65536" "j \<noteq> f" using fj by auto
      then show "vp_fw_pages v = num_lent c d' j + num_lent c d' (j + 65536)"
        using w old' [OF w(1)] True n other by cases auto
    qed (use w old' [OF w(1)] fj other in auto)
  qed
  ultimately show ?thesis by (auto simp: counts_def)
qed

section \<open>What is lent, page by page\<close>

definition page_slots :: "pg_cfg \<Rightarrow> fw_page \<Rightarrow> nat list" where
  "page_slots c p = map (\<lambda>n. fp_addr p + n * MLX5_ADAPTER_PAGE_SIZE) (filter (\<lambda>n. \<not> fp_bitmask p ! n) [0..<num_4k c])"

lemma distinct_page_slots: "distinct (page_slots c p)"
  by (simp add: page_slots_def distinct_map inj_on_def MLX5_ADAPTER_PAGE_SIZE_def)

lemma length_page_slots:
  assumes "cfg_ok c" "page_ok c f p"
  shows "length (page_slots c p) = num_4k c - fp_free_count p"
proof -
  have len: "length (fp_bitmask p) = 64" and bits: "\<forall>n<64. fp_bitmask p ! n \<longrightarrow> n < num_4k c"
    and cnt: "fp_free_count p = count_list (fp_bitmask p) True" using assms(2) by (auto simp: page_ok_def)
  have "{i. i < 64 \<and> fp_bitmask p ! i} = {i. i < num_4k c \<and> fp_bitmask p ! i}"
    using bits num_4k_bounds [OF assms(1)] by auto
  then have "fp_free_count p = length (filter (\<lambda>n. fp_bitmask p ! n) [0..<num_4k c])"
    by (simp add: cnt count_True_card len length_filter_conv_card cong: conj_cong)
  with sum_length_filter_compl [of "\<lambda>n. fp_bitmask p ! n" "[0..<num_4k c]"] show ?thesis
    by (simp add: page_slots_def)
qed

lemma page_slots_iff:
  assumes c: "cfg_ok c" and ok: "page_ok c f p"
  shows "x \<in> set (page_slots c p) \<longleftrightarrow> MLX5_ADAPTER_PAGE_SIZE dvd x \<and> page_base c x = fp_addr p \<and> \<not> fp_bitmask p ! page_ix c x"
proof -
  have al: "2 ^ page_shift c dvd fp_addr p" using ok by (simp add: page_ok_def)
  have "x \<in> set (page_slots c p) \<longleftrightarrow> (\<exists>n<num_4k c. \<not> fp_bitmask p ! n \<and> x = fp_addr p + n * MLX5_ADAPTER_PAGE_SIZE)"
    by (auto simp: page_slots_def)
  also have "\<dots> \<longleftrightarrow> MLX5_ADAPTER_PAGE_SIZE dvd x \<and> page_base c x = fp_addr p \<and> \<not> fp_bitmask p ! page_ix c x"
    using page_of_slot [OF c al] slot_of_page [OF c, of x] page_ix_less [OF c, of x] by metis
  finally show ?thesis .
qed

lemma lent_eq:
  assumes c: "cfg_ok c" and r: "roots_ok c d"
  shows "lent c d f = (\<Union>p\<in>set (pages d f). set (page_slots c p))"
proof -
  have "x \<in> lent c d f \<longleftrightarrow> (\<exists>p\<in>set (pages d f). x \<in> set (page_slots c p))" for x
  proof
    assume "x \<in> lent c d f"
    then obtain p where p: "find_fw_page d (page_base c x) f = Some p" "MLX5_ADAPTER_PAGE_SIZE dvd x" "\<not> fp_bitmask p ! page_ix c x"
      by (auto simp: lent_def split: option.splits)
    note q = find_fw_page_Some [OF p(1)]
    with r have "page_ok c f p" by (simp add: roots_ok_def)
    with p q have "x \<in> set (page_slots c p)" by (simp add: page_slots_iff [OF c])
    with q(1) show "\<exists>p\<in>set (pages d f). x \<in> set (page_slots c p)" by blast
  next
    assume "\<exists>p\<in>set (pages d f). x \<in> set (page_slots c p)"
    then obtain p where p: "p \<in> set (pages d f)" "x \<in> set (page_slots c p)" by auto
    then have "page_ok c f p" using r by (simp add: roots_ok_def)
    with p find_fw_page_in [OF r p(1)] show "x \<in> lent c d f" by (simp add: lent_def page_slots_iff [OF c])
  qed
  then show ?thesis by auto
qed

lemma finite_lent: "cfg_ok c \<Longrightarrow> pg_inv c d \<Longrightarrow> finite (lent c d f)"
  by (simp add: lent_eq pg_inv_def)

section \<open>Giving pages to the firmware\<close>

text \<open>The software limit on the pages of a vport.\<close>

definition within_limits :: "pg_cfg \<Rightarrow> pg_dev \<Rightarrow> bool" where
  "within_limits c d \<longleftrightarrow> (esw_accounts c \<and> \<not> vhca_icm_ctrl c \<longrightarrow>
     (\<forall>i v. 0 < i \<and> vports d i = Some v \<and> page_limit v \<noteq> 0 \<longrightarrow> vp_fw_pages v \<le> page_limit v))"

text \<open>The state of the allocator between two requests.\<close>

definition pg_good :: "pg_cfg \<Rightarrow> pg_dev \<Rightarrow> bool" where
  "pg_good c d \<longleftrightarrow> pg_inv c d \<and> counts c d \<and> within_limits c d"

lemma pg_good_unchanged:
  assumes "pg_good c d" "pg_inv c d'" "only_pages f d d'" "lent c d' f = lent c d f"
  shows "pg_good c d'"
proof -
  have "num_lent c d' g = num_lent c d g" for g
    using assms(4) only_pages_lent [OF assms(3)] by (cases "g = f") (simp_all add: num_lent_def)
  then have "counts c d' = counts c d" using assms(3) by (simp add: counts_def only_pages_def)
  moreover have "within_limits c d' = within_limits c d" using assms(3) by (simp add: within_limits_def only_pages_def)
  ultimately show ?thesis using assms(1,2) by (simp add: pg_good_def)
qed

lemma within_limits_recount:
  assumes "within_limits c d" "only_pages f d d'"
    and "\<And>v. i \<noteq> 0 \<Longrightarrow> esw_accounts c \<Longrightarrow> \<not> vhca_icm_ctrl c \<Longrightarrow> vports d i = Some v \<Longrightarrow> page_limit v \<noteq> 0 \<Longrightarrow>
           n \<le> 0 \<or> vp_fw_pages v + n \<le> page_limit v"
  shows "within_limits c (recount c d' i ec n)"
proof (cases "esw_accounts c \<and> \<not> vhca_icm_ctrl c")
  case True
  have vp: "vports d' = vports d" using assms(2) by (simp add: only_pages_def)
  have "vp_fw_pages v \<le> page_limit v"
    if v: "0 < j" "vports (recount c d' i ec n) j = Some v" "page_limit v \<noteq> 0" for j v
  proof -
    from v(2) True obtain w where w: "vports d j = Some w" "page_limit v = page_limit w"
        "vp_fw_pages v = vp_fw_pages w + (if i = j then n else 0)"
      using v(1) by (cases "i = 0"; cases "i = j"; cases "vports d i") (auto simp: recount_def Let_def update_pg_counters_def vp)
    have "vp_fw_pages w \<le> page_limit w" using assms(1) True v w by (simp add: within_limits_def)
    with assms(3) [of w] True v w show ?thesis by (cases "i = j") auto
  qed
  then show ?thesis by (auto simp: within_limits_def)
qed (auto simp: within_limits_def)

lemma pg_good_recount:
  assumes "pg_good c d" "pg_inv c d'" "only_pages f d d'" "f = get_function i ec" "i < 65536"
    "num_lent c d' f = num_lent c d f + n"
    "\<And>v. i \<noteq> 0 \<Longrightarrow> esw_accounts c \<Longrightarrow> \<not> vhca_icm_ctrl c \<Longrightarrow> vports d i = Some v \<Longrightarrow> page_limit v \<noteq> 0 \<Longrightarrow>
       n \<le> 0 \<or> vp_fw_pages v + n \<le> page_limit v"
  shows "pg_good c (recount c d' i ec n)"
  using assms counts_recount [OF _ assms(3,4,5,6)] within_limits_recount [OF _ assms(3,7)] by (simp add: pg_good_def)

lemma vf_obtainable_limit:
  assumes "within_limits c d" "esw_accounts c" "\<not> vhca_icm_ctrl c" "i \<noteq> 0" "vports d i = Some v" "page_limit v \<noteq> 0" "0 < n"
  shows "vp_fw_pages v + vf_obtainable_pages c d i n \<le> page_limit v"
proof -
  have "vp_fw_pages v \<le> page_limit v" using assms unfolding within_limits_def by blast
  with assms show ?thesis by (auto simp: vf_obtainable_pages_def)
qed

lemma vf_obtainable_le: "0 < n \<Longrightarrow> vf_obtainable_pages c d i n \<le> n"
  by (auto simp: vf_obtainable_pages_def split: option.splits)

text \<open>The common exit of \<open>give_pages\<close> after a failure.\<close>

lemma give_undo:
  assumes c: "cfg_ok c" and good: "pg_good c d" and d1: "pg_inv c d1" "distinct qs" "set qs \<inter> lent c d f = {}"
    "lent c d1 f = set qs \<union> lent c d f" "only_pages f d d1"
  obtains d' where "free_all c d1 f qs = Some d'" "pg_good c d'" "lent c d' f = lent c d f" "only_pages f d d'"
proof -
  from free_all_ok [OF c d1(1,2), of f] d1(4) obtain d' where
    d': "free_all c d1 f qs = Some d'" "pg_inv c d'" "lent c d' f = lent c d1 f - set qs" "only_pages f d1 d'" by auto
  have l: "lent c d' f = lent c d f" using d'(3) d1(3,4) by auto
  have o: "only_pages f d d'" using d1(5) d'(4) by (rule only_pages_trans)
  show thesis using d'(1) pg_good_unchanged [OF good d'(2) o l] l o by (rule that)
qed

definition retries_ok :: "pg_cfg \<Rightarrow> (nat \<Rightarrow> sys_env list option) \<Rightarrow> bool" where
  "retries_ok c envs \<longleftrightarrow> (\<forall>k es. envs k = Some es \<longrightarrow> es \<noteq> [] \<and> (\<forall>env\<in>set es. env_ok c env))"

text \<open>How the pages of \<open>d'\<close> come from those of \<open>d\<close>: \<open>pas\<close> was lent to \<open>f\<close>, nothing else changed.\<close>

definition lent_more :: "pg_cfg \<Rightarrow> nat \<Rightarrow> pg_dev \<Rightarrow> nat list \<Rightarrow> pg_dev \<Rightarrow> bool" where
  "lent_more c f d pas d' \<longleftrightarrow> distinct pas \<and> set pas \<inter> lent c d f = {} \<and> lent c d' f = lent c d f \<union> set pas \<and>
     (\<forall>g. g \<noteq> f \<longrightarrow> lent c d' g = lent c d g)"

lemma lent_more_none:
  assumes "lent c d' f = lent c d f" "only_pages f d d'"
  shows "lent_more c f d [] d'"
  using assms only_pages_lent [OF assms(2)] by (simp add: lent_more_def)

lemma give_pages_commit:
  assumes c: "cfg_ok c" and good: "pg_good c d" and f: "f = get_function i ec" "i < 65536"
    and d1: "pg_inv c d1" "distinct qs" "set qs \<inter> lent c d f = {}" "lent c d1 f = set qs \<union> lent c d f" "only_pages f d d1"
    and n: "int (length qs) = n"
    and lim: "\<And>v. i \<noteq> 0 \<Longrightarrow> esw_accounts c \<Longrightarrow> \<not> vhca_icm_ctrl c \<Longrightarrow> vports d i = Some v \<Longrightarrow> page_limit v \<noteq> 0 \<Longrightarrow>
           vp_fw_pages v + n \<le> page_limit v"
  shows "pg_good c (recount c d1 i ec n)" "lent_more c f d (rev qs) (recount c d1 i ec n)"
proof -
  have "finite (lent c d f)" using finite_lent [OF c] good by (simp add: pg_good_def)
  then have "num_lent c d1 f = num_lent c d f + n"
    using d1(2,3,4) n by (simp add: num_lent_def card_Un_disjoint distinct_card)
  then show "pg_good c (recount c d1 i ec n)" using lim by (intro pg_good_recount [OF good d1(1,5) f]) auto
  show "lent_more c f d (rev qs) (recount c d1 i ec n)"
    using d1(2,3,4) only_pages_lent [OF d1(5)] by (auto simp: lent_more_def)
qed

lemma give_npages_ok:
  assumes c: "cfg_ok c" and good: "pg_good c d" and envs: "retries_ok c envs" and i: "i < 65536" and pos: "0 < n"
    and f: "f = get_function i ec"
    and lim: "\<And>v. i \<noteq> 0 \<Longrightarrow> esw_accounts c \<Longrightarrow> \<not> vhca_icm_ctrl c \<Longrightarrow> vports d i = Some v \<Longrightarrow> page_limit v \<noteq> 0 \<Longrightarrow>
           vp_fw_pages v + n \<le> page_limit v"
  shows "\<exists>err d' pas. give_npages c envs fw d i n event ec = Some (err, d', pas) \<and> pg_good c d' \<and>
    lent_more c f d pas d' \<and> int (length pas) \<le> n \<and> (err \<noteq> None \<longrightarrow> pas = []) \<and> (fa_check fw \<noteq> None \<longrightarrow> pas = [])"
proof -
  have inv: "pg_inv c d" using good by (simp add: pg_good_def)
  have "envs_ok c (map envs [0..<nat n])" using envs
    unfolding envs_ok_def retries_ok_def by (metis (no_types, lifting) imageE list.set_map)
  from give_loop_ok [OF c inv this, of f "[]"] obtain err qs d1 where
    L: "give_loop c (map envs [0..<nat n]) d f [] = Some (err, qs, d1)" "pg_inv c d1" "distinct qs"
      "set qs \<inter> lent c d f = {}" "lent c d1 f = set qs \<union> lent c d f" "only_pages f d d1"
      "err = None \<longrightarrow> length qs = nat n" by auto
  let ?dropped = "d1\<lparr>give_pages_dropped := give_pages_dropped d1 + n\<rparr>"
  obtain d2 where U: "free_all c d1 f qs = Some d2" "pg_good c d2" "lent_more c f d [] d2"
    using give_undo [OF c good L(2-6)] lent_more_none by metis
  have "pg_inv c ?dropped" "lent c ?dropped f = set qs \<union> lent c d f" "only_pages f d ?dropped" using L by simp_all
  from give_undo [OF c good this(1) L(3,4) this(2,3)] obtain d3 where
    U': "free_all c ?dropped f qs = Some d3" "pg_good c d3" "lent_more c f d [] d3" using lent_more_none by metis
  show ?thesis
  proof (cases "err = None \<and> \<not> (fa_err fw = Cmd_remoteio \<and> event) \<and> fa_check fw = None")
    case True
    have len: "int (length qs) = n" using True L(7) pos by simp
    have "give_npages c envs fw d i n event ec = Some (None, recount c d1 i ec n, rev qs)"
      using True by (auto simp: give_npages_def Let_def L(1) simp flip: f)
    moreover have "int (length (rev qs)) \<le> n" using len by simp
    ultimately show ?thesis using give_pages_commit [OF c good f i L(2-6) len lim] True by blast
  next
    case False
    then have "\<exists>e. give_npages c envs fw d i n event ec = Some (e, d2, []) \<or> give_npages c envs fw d i n event ec = Some (e, d3, [])"
      by (auto simp: give_npages_def Let_def L(1) U(1) U'(1) simp flip: f split: option.splits)
    moreover have "int (length []) \<le> n" using pos by simp
    ultimately show ?thesis using U U' by blast
  qed
qed

lemma give_pages_ok:
  assumes c: "cfg_ok c" and good: "pg_good c d" and envs: "retries_ok c envs" and i: "i < 65536" and pos: "0 < npages"
  shows "\<exists>err d' pas. give_pages c kv envs fw d i npages event ec = Some (err, d', pas) \<and> pg_good c d' \<and>
    lent_more c (get_function i ec) d pas d' \<and> int (length pas) \<le> npages \<and> (err \<noteq> None \<longrightarrow> pas = []) \<and>
    (fa_check fw \<noteq> None \<longrightarrow> pas = [])"
proof -
  define n where "n = (if i \<noteq> 0 \<and> \<not> vhca_icm_ctrl c then vf_obtainable_pages c d i npages else npages)"
  let ?give = "give_pages c kv envs fw d i npages event ec"
  have good': "within_limits c d" using good by (simp add: pg_good_def)
  have n_le: "n \<le> npages" using vf_obtainable_le [OF pos] by (simp add: n_def)
  have same: "lent_more c f d [] d" for f by (simp add: lent_more_def)
  have cases: "?give = (if i \<noteq> 0 \<and> \<not> vhca_icm_ctrl c \<and> n \<le> 0 then Some (Some (EFW 1), d, [])
      else if \<not> kv then Some (Some ENOMEM, d, []) else give_npages c envs fw d i n event ec)"
    by (simp add: give_pages_def n_def)
  show ?thesis
  proof (cases "0 < n \<and> kv")
    case False
    then show ?thesis using good same pos by (auto simp: cases n_def)
  next
    case True
    have "vp_fw_pages v + n \<le> page_limit v"
      if "i \<noteq> 0" "esw_accounts c" "\<not> vhca_icm_ctrl c" "vports d i = Some v" "page_limit v \<noteq> 0" for v
      using vf_obtainable_limit [OF good' that(2,3,1,4,5) pos] that by (simp add: n_def)
    from give_npages_ok [OF c good envs i conjunct1 [OF True] refl this, where ec = ec and fw = fw and event = event]
    obtain err d' pas where "give_npages c envs fw d i n event ec = Some (err, d', pas)" "pg_good c d'"
        "lent_more c (get_function i ec) d pas d'" "int (length pas) \<le> n" "err \<noteq> None \<longrightarrow> pas = []" "fa_check fw \<noteq> None \<longrightarrow> pas = []"
      by blast
    moreover have "?give = give_npages c envs fw d i n event ec" unfolding cases using True by simp
    moreover have "int (length pas) \<le> npages" using calculation(4) n_le by linarith
    ultimately show ?thesis by (intro exI [of _ err] exI [of _ d'] exI [of _ pas]) simp
  qed
qed

section \<open>Taking pages back from the firmware\<close>

lemma claim_loop_ok:
  assumes c: "cfg_ok c" and "pg_inv c d"
  shows "\<exists>d'. claim_loop c d f pas = Some (int (card (slot c ` set pas \<inter> lent c d f)), d') \<and> pg_inv c d' \<and>
    lent c d' f = lent c d f - slot c ` set pas \<and> only_pages f d d'"
  using assms(2)
proof (induction pas arbitrary: d)
  case (Cons a pas)
  show ?case
  proof (cases "slot c a \<in> lent c d f")
    case True
    obtain d1 where d1: "free_4k c d a f = Some (None, d1)" "pg_inv c d1" "lent c d1 f = lent c d f - {slot c a}" "only_pages f d d1"
      using free_4k_success [OF c Cons.prems True] by blast
    from Cons.IH [OF d1(2)] obtain d' where
      d': "claim_loop c d1 f pas = Some (int (card (slot c ` set pas \<inter> lent c d1 f)), d')" "pg_inv c d'"
        "lent c d' f = lent c d1 f - slot c ` set pas" "only_pages f d1 d'" by blast
    have "slot c ` set (a # pas) \<inter> lent c d f = insert (slot c a) (slot c ` set pas \<inter> lent c d1 f)" using True d1(3) by auto
    then have "card (slot c ` set (a # pas) \<inter> lent c d f) = Suc (card (slot c ` set pas \<inter> lent c d1 f))" using d1(3) by simp
    then show ?thesis using d1 d' only_pages_trans [OF d1(4) d'(4)] by auto
  next
    case False
    then obtain e where e: "free_4k c d a f = Some (Some e, d)" using free_4k_error [OF c Cons.prems] by blast
    have "slot c ` set (a # pas) \<inter> lent c d f = slot c ` set pas \<inter> lent c d f"
      "lent c d f - slot c ` set (a # pas) = lent c d f - slot c ` set pas" using False by auto
    with Cons.IH [OF Cons.prems] e show ?thesis by auto
  qed
qed simp

lemma pg_good_discard [simp]:
  "pg_good c (d\<lparr>reclaim_pages_discard := n\<rparr>) = pg_good c d" "lent c (d\<lparr>reclaim_pages_discard := n\<rparr>) f = lent c d f"
  "pages (d\<lparr>reclaim_pages_discard := n\<rparr>) f = pages d f"
  by (simp_all add: pg_good_def pg_inv_def roots_ok_def list_ok_def pages_def lent_def find_fw_page_def num_lent_def
      counts_def within_limits_def)

lemma reclaim_count:
  assumes c: "cfg_ok c" and good: "pg_good c d" and f: "f = get_function i ec" "i < 65536"
    and d1: "pg_inv c d1" "lent c d1 f = lent c d f - S" "only_pages f d d1" "n = int (card (S \<inter> lent c d f))"
  shows "pg_good c (uncount c d1 i ec n)"
proof -
  have fin: "finite (lent c d f)" using finite_lent [OF c] good by (simp add: pg_good_def)
  have "card (lent c d f) = card (lent c d f - S) + card (S \<inter> lent c d f)"
    using card_Diff_subset_Int [of "lent c d f" S] fin card_mono [OF fin, of "lent c d f \<inter> S"] by (simp add: Int_commute)
  then have "num_lent c d1 f = num_lent c d f + - n" using d1(2,4) by (simp add: num_lent_def)
  then show ?thesis unfolding uncount_eq using d1(4) by (intro pg_good_recount [OF good d1(1,3) f]) auto
qed

lemma reclaim_pages_ok:
  assumes c: "cfg_ok c" and good: "pg_good c d" and i: "i < 65536"
  shows "\<exists>err n d'. reclaim_pages c kv down fw d i npages event ec = Some (err, n, d') \<and> pg_good c d' \<and>
    (let f = get_function i ec; ans = reclaim_pages_cmd c down fw d f npages;
         taken = (if kv \<and> \<not> (event \<and> fa_err ans = Cmd_remoteio) \<and> fa_check ans = None \<and> length (fa_pas ans) \<le> npages
                  then slot c ` set (fa_pas ans) else {}) in
     lent c d' f = lent c d f - taken \<and> n = int (card (taken \<inter> lent c d f)) \<and>
     (\<forall>g. g \<noteq> f \<longrightarrow> lent c d' g = lent c d g) \<and> (err \<noteq> None \<longrightarrow> taken = {}))"
proof -
  define f where "f = get_function i ec"
  define ans where "ans = reclaim_pages_cmd c down fw d f npages"
  define d1 where "d1 = (if fa_err ans \<noteq> Cmd_ok then d\<lparr>reclaim_pages_discard := reclaim_pages_discard d + int npages\<rparr> else d)"
  have d1: "pg_good c d1" "\<And>g. lent c d1 g = lent c d g" using good by (simp_all add: d1_def)
  then have "pg_inv c d1" by (simp add: pg_good_def)
  from claim_loop_ok [OF c this, of f "fa_pas ans"] obtain d2 where
    L: "claim_loop c d1 f (fa_pas ans) = Some (int (card (slot c ` set (fa_pas ans) \<inter> lent c d f)), d2)" "pg_inv c d2"
      "lent c d2 f = lent c d1 f - slot c ` set (fa_pas ans)" "only_pages f d1 d2" by (auto simp: d1(2))
  note good2 = reclaim_count [OF c d1(1) f_def i L(2-4) refl]
  have run: "reclaim_pages c kv down fw d i npages event ec =
      (if \<not> kv then Some (Some ENOMEM, 0, d)
       else if event \<and> fa_err ans = Cmd_remoteio then Some (None, 0, d1)
       else case fa_check ans of
           Some e \<Rightarrow> Some (Some e, 0, d1)
         | None \<Rightarrow> if length (fa_pas ans) > npages then Some (Some EINVAL, 0, d1)
             else map_option (\<lambda>(n, d). (None, n, uncount c d i ec n)) (claim_loop c d1 f (fa_pas ans)))"
    by (simp add: reclaim_pages_def Let_def d1_def flip: f_def ans_def cong: if_cong option.case_cong)
  have keep: "lent c (uncount c d2 i ec n) g = (if g = f then lent c d f - slot c ` set (fa_pas ans) else lent c d g)" for n g
    using L(3) only_pages_lent [OF L(4)] by (simp add: uncount_eq d1(2))
  show ?thesis
    unfolding Let_def f_def [symmetric] ans_def [symmetric] run
    using good good2 d1 L(1) by (auto simp: keep split: option.split)
qed

text \<open>The adapter pages of all trees, without repetition.\<close>

lemma distinct_slots:
  assumes c: "cfg_ok c" and "sorted_wrt (\<lambda>p q. fp_addr q < fp_addr p) ps" "\<forall>p\<in>set ps. page_ok c f p"
  shows "distinct (concat (map (page_slots c) ps))"
  using assms(2,3)
proof (induction ps)
  case (Cons p ps)
  have "set (page_slots c p) \<inter> set (page_slots c q) = {}" if "q \<in> set ps" for q
    using Cons.prems that by (auto simp: page_slots_iff [OF c, of f])
  with Cons show ?case by (auto simp: distinct_page_slots)
qed simp

lemma lent_slots:
  assumes "cfg_ok c" "pg_inv c d"
  shows "set (concat (map (page_slots c) (pages d f))) = lent c d f" "distinct (concat (map (page_slots c) (pages d f)))"
    "length (concat (map (page_slots c) (pages d f))) = card (lent c d f)"
proof -
  show set: "set (concat (map (page_slots c) (pages d f))) = lent c d f" using assms by (simp add: lent_eq pg_inv_def)
  show dist: "distinct (concat (map (page_slots c) (pages d f)))"
    by (rule distinct_slots [OF assms(1), where f = f]) (use assms in \<open>simp_all add: pg_inv_def roots_ok_def\<close>)
  show "length (concat (map (page_slots c) (pages d f))) = card (lent c d f)"
    using distinct_card [OF dist] set by simp
qed

lemma lent_empty_iff:
  assumes "cfg_ok c" "pg_inv c d"
  shows "lent c d f = {} \<longleftrightarrow> pages d f = []"
proof
  assume "lent c d f = {}"
  then have "\<forall>p\<in>set (pages d f). page_slots c p = []" using lent_slots(1) [OF assms, of f] by auto
  moreover have "page_slots c p \<noteq> []" if "p \<in> set (pages d f)" for p
  proof -
    have "page_ok c f p" using assms(2) that by (simp add: pg_inv_def roots_ok_def)
    then have "0 < length (page_slots c p)" using length_page_slots [OF assms(1)] by (simp add: page_ok_def)
    then show ?thesis by simp
  qed
  ultimately show "pages d f = []" by (cases "pages d f") auto
qed (use lent_slots(1) [OF assms, of f] in simp)

lemma fill_loop_eq: "fill_loop c ps n = take n (concat (map (page_slots c) ps))"
proof (induction ps arbitrary: n)
  case (Cons p ps)
  then show ?case
    by (cases "n \<le> length (page_slots c p)") (simp_all add: fwp_fill_manage_pages_out_def Let_def flip: page_slots_def)
qed simp

lemma release_loop_ok:
  assumes c: "cfg_ok c" and "pg_inv c d" "page_root_xa d f = Some ps"
  shows "\<exists>d'. release_loop c d ps = Some (int (card (lent c d f)), d') \<and> pg_inv c d' \<and> lent c d' f = {} \<and> only_pages f d d'"
  using assms(2,3)
proof (induction ps arbitrary: d)
  case Nil
  then have "lent c d f = {}" using lent_empty_iff [OF c, of d f] by (simp add: pages_def)
  with Nil show ?case by simp
next
  case (Cons p ps)
  have pg: "pages d f = p # ps" using Cons.prems(2) by (simp add: pages_def)
  from Cons.prems(1) have ok: "page_ok c f p" and sorted: "sorted_wrt (\<lambda>p q. fp_addr q < fp_addr p) (p # ps)"
    using pg by (auto simp: pg_inv_def roots_ok_def dest: spec [of _ f])
  let ?d = "del_page f (fp_addr p) d"
  have step: "free_fwp d p (fp_free_count p \<noteq> 0) = Some ?d"
  proof (rule free_fwp_eq)
    show "fp_function p = f" using ok by (simp add: page_ok_def)
    show "distinct (free_list d)" using Cons.prems(1) by (simp add: pg_inv_def list_ok_def)
    show "(fp_free_count p \<noteq> 0) = ((f, fp_addr p) \<in> set (free_list d))" using listed_iff [OF Cons.prems(1), of p f] pg by simp
  qed (simp add: Cons.prems(2))
  have "filter (\<lambda>q. fp_addr q \<noteq> fp_addr p) ps = ps" using sorted by (intro filter_True) auto
  then have root: "page_root_xa ?d f = Some ps" using Cons.prems(2) by (simp add: del_page_def)
  note inv = pg_inv_del_page [OF Cons.prems(1), of f "fp_addr p"]
  have "card (lent c d f) = length (page_slots c p) + card (lent c ?d f)"
    using lent_slots(3) [OF c Cons.prems(1), of f] lent_slots(3) [OF c inv, of f] pg root by (simp add: pages_def)
  with Cons.IH [OF inv root] length_page_slots [OF c ok] step show ?case
    using only_pages_trans [OF only_del_page] by fastforce
qed

lemma release_all_pages_ok:
  assumes c: "cfg_ok c" and good: "pg_good c d" and i: "i < 65536"
  shows "\<exists>d'. release_all_pages c d i ec = Some d' \<and> pg_good c d' \<and> lent c d' (get_function i ec) = {} \<and>
    (\<forall>g. g \<noteq> get_function i ec \<longrightarrow> lent c d' g = lent c d g)"
proof (cases "page_root_xa d (get_function i ec)")
  case None
  then have "lent c d (get_function i ec) = {}" by (simp add: lent_def find_fw_page_def)
  with None good show ?thesis by (simp add: release_all_pages_def)
next
  case (Some ps)
  let ?f = "get_function i ec"
  from good have inv: "pg_inv c d" by (simp add: pg_good_def)
  from release_loop_ok [OF c inv Some] obtain d1 where
    L: "release_loop c d ps = Some (int (card (lent c d ?f)), d1)" "pg_inv c d1" "lent c d1 ?f = {}" "only_pages ?f d d1" by blast
  have "pg_good c (uncount c d1 i ec (int (card (lent c d ?f))))"
    by (rule reclaim_count [OF c good refl i L(2), where S = "lent c d ?f"]) (use L in simp_all)
  moreover have "lent c (uncount c d1 i ec n) g = lent c d1 g" for n g by (simp add: uncount_eq)
  ultimately show ?thesis using Some L only_pages_lent [OF L(4)] by (simp add: release_all_pages_def)
qed

lemma slot_lent: "cfg_ok c \<Longrightarrow> a \<in> lent c d f \<Longrightarrow> slot c a = a"
  using slot_of_page [of c a] by (simp add: lent_def slot_def)

text \<open>When the command interface is down the driver answers for the firmware, and gets its own pages back.\<close>

lemma reclaim_down:
  assumes c: "cfg_ok c" and good: "pg_good c d" and i: "i < 65536" and f: "f = get_function i ec"
    and root: "page_root_xa d f \<noteq> None"
  shows "\<exists>n d'. reclaim_pages c True True fw d i npages False ec = Some (None, n, d') \<and> pg_good c d' \<and>
    card (lent c d' f) = card (lent c d f) - npages"
proof -
  from root obtain ps where ps: "page_root_xa d f = Some ps" by auto
  have inv: "pg_inv c d" using good by (simp add: pg_good_def)
  define pas where "pas = take npages (concat (map (page_slots c) ps))"
  have ans: "reclaim_pages_cmd c True fw d f npages = \<lparr>fa_err = Cmd_ok, fa_check = None, fa_pas = pas\<rparr>"
    by (simp add: reclaim_pages_cmd_def ps pas_def fill_loop_eq)
  note S = lent_slots [OF c inv, of f, unfolded pages_def ps option.case]
  have sub: "set pas \<subseteq> lent c d f" using set_take_subset S(1) by (auto simp: pas_def dest: in_set_takeD)
  then have slots: "slot c ` set pas = set pas" using slot_lent [OF c] by force
  have card: "card (set pas) = min npages (card (lent c d f))" using distinct_card [of pas] S(2,3) by (simp add: pas_def)
  have len: "length pas \<le> npages" by (simp add: pas_def)
  from reclaim_pages_ok [OF c good i, of True True fw npages False ec] obtain err n d' where
    R: "reclaim_pages c True True fw d i npages False ec = Some (err, n, d')" "pg_good c d'" "lent c d' f = lent c d f - set pas"
    by (auto simp: ans slots len Let_def simp flip: f)
  moreover have "err = None" using R(1) len by (auto simp: reclaim_pages_def Let_def ans simp flip: f split: if_splits)
  moreover have "card (lent c d f - set pas) = card (lent c d f) - npages"
    using card_Diff_subset [OF _ sub] card by simp
  ultimately show ?thesis by auto
qed

lemma reclaim_pages_root:
  assumes "reclaim_pages c kv down fw d i npages event ec = Some (err, n, d')" "page_root_xa d f \<noteq> None"
  shows "page_root_xa d' f \<noteq> None"
proof -
  have free: "page_root_xa d2 f \<noteq> None" if "free_4k c d1 a g = Some (e, d2)" "page_root_xa d1 f \<noteq> None" for d1 d2 a g e
    using that by (auto simp: free_4k_def free_fwp_def set_page_def Let_def split: option.splits bool.splits if_splits)
  have claim: "claim_loop c d1 g pas = Some (m, d2) \<Longrightarrow> page_root_xa d1 f \<noteq> None \<Longrightarrow> page_root_xa d2 f \<noteq> None" for d1 d2 g pas m
  proof (induction pas arbitrary: d1 m)
    case (Cons a pas)
    then show ?case using free by (fastforce split: option.splits)
  qed auto
  show ?thesis using assms claim
    by (fastforce simp: reclaim_pages_def Let_def uncount_eq split: if_splits option.splits)
qed

text \<open>
  When the command interface is down, the loop that takes back the pages of a function ends, and
  with all of them: \<open>\<lceil>n / 768\<rceil>\<close> iterations are enough for \<open>n\<close> pages, unless the memory allocation or the
  time limit stops it.\<close>

theorem reclaim_root_pages_returns:
  assumes c: "cfg_ok c" and good: "pg_good c d" and f: "f < 131072" and root: "page_root_xa d f \<noteq> None"
    and up: "\<forall>(kv, down, fw, expired)\<in>set envs. kv \<and> down \<and> \<not> expired"
    and enough: "card (lent c d f) \<le> 768 * length envs"
  shows "\<exists>d'. mlx5_reclaim_root_pages c envs d f = Some (None, d') \<and> pg_good c d' \<and> page_root_xa d' f = Some [] \<and> lent c d' f = {}"
  using good root up enough
proof (induction envs arbitrary: d)
  case Nil
  have "finite (lent c d f)" using finite_lent [OF c] Nil.prems(1) by (simp add: pg_good_def)
  then have "lent c d f = {}" using Nil.prems(4) by simp
  then show ?case using Nil.prems lent_empty_iff [OF c, of d f] by (auto simp: pg_good_def pages_def)
next
  case (Cons env envs)
  show ?case
  proof (cases "page_root_xa d f = Some []")
    case True
    then have "lent c d f = {}" using Cons.prems lent_empty_iff [OF c, of d f] by (simp add: pg_good_def pages_def)
    with True Cons.prems show ?thesis by (cases env) simp
  next
    case False
    let ?i = "mlx5_get_func_id f" and ?ec = "mlx5_get_ec_function f \<noteq> 0"
    have fi: "?i < 65536" "f = get_function ?i ?ec"
      using get_function_split [OF f] by (simp_all add: mlx5_get_func_id_def)
    obtain fw where env: "env = (True, True, fw, False)" using Cons.prems(3) by (cases env) auto
    from reclaim_down [OF c Cons.prems(1) fi Cons.prems(2), of fw optimal_reclaimed_pages] obtain n d1 where
      r: "reclaim_pages c True True fw d ?i optimal_reclaimed_pages False ?ec = Some (None, n, d1)" "pg_good c d1"
        "card (lent c d1 f) = card (lent c d f) - 768" by (auto simp: optimal_reclaimed_pages_def)
    have "page_root_xa d1 f \<noteq> None" using reclaim_pages_root [OF r(1) Cons.prems(2)] .
    from Cons.IH [OF r(2) this] Cons.prems(3,4) r show ?thesis using False by (simp add: env)
  qed
qed

section \<open>The allocator in operation\<close>

text \<open>The requests the allocator executes: those of the firmware, in the order of its single-threaded work
  queue, and those of the driver at start-up and at the end. The environment is arbitrary, but for the
  alignment of DMA addresses.\<close>

inductive pg_step :: "pg_cfg \<Rightarrow> pg_dev \<Rightarrow> pg_dev \<Rightarrow> bool" for c where
  pg_request: "pages_work_handler c kv down envs fw d i npages ec release_all = Some d' \<Longrightarrow> retries_ok c envs \<Longrightarrow> i < 65536 \<Longrightarrow>
     pg_step c d d'"
| pg_startup: "give_pages c kv envs fw d i npages False ec = Some (err, d', pas) \<Longrightarrow> retries_ok c envs \<Longrightarrow> i < 65536 \<Longrightarrow> 0 < npages \<Longrightarrow>
     pg_step c d d'"
| pg_reclaim: "reclaim_pages c kv down fw d i npages False ec = Some (err, n, d') \<Longrightarrow> i < 65536 \<Longrightarrow> pg_step c d d'"

text \<open>A device after \<open>mlx5_pagealloc_init\<close> with its counters at zero.\<close>

definition pg_start :: "pg_dev \<Rightarrow> bool" where
  "pg_start d \<longleftrightarrow> (\<exists>d0. mlx5_pagealloc_init d0 True = Inr d \<and> fw_pages d0 = 0 \<and> (\<forall>t. page_counters d0 t = 0) \<and>
     (\<forall>i v. vports d0 i = Some v \<longrightarrow> vp_fw_pages v = 0 \<and> 0 \<le> page_limit v))"

lemma pages_work_handler_ok:
  assumes c: "cfg_ok c" and good: "pg_good c d" and envs: "retries_ok c envs" and i: "i < 65536"
  shows "\<exists>d'. pages_work_handler c kv down envs fw d i npages ec release_all = Some d' \<and> pg_good c d'"
proof -
  consider "release_all" | "\<not> release_all" "npages < 0" | "\<not> release_all" "npages > 0" | "\<not> release_all" "npages = 0" by linarith
  then show ?thesis
  proof cases
    case 1
    then show ?thesis using release_all_pages_ok [OF c good i, of ec] by (auto simp: pages_work_handler_def)
  next
    case 2
    then show ?thesis using reclaim_pages_ok [OF c good i, of kv down fw "nat (- npages)" True ec]
      by (auto simp: pages_work_handler_def Let_def)
  next
    case 3
    then show ?thesis using give_pages_ok [OF c good envs i 3(2), of kv fw True ec] by (auto simp: pages_work_handler_def)
  next
    case 4
    then show ?thesis using good by (simp add: pages_work_handler_def)
  qed
qed

text \<open>
  C4. The firmware gets pages or nothing happens: whatever the page allocator, the DMA mapping, the
  time limit and the firmware answer, \<open>give_pages\<close> completes; the pages it lends are distinct, were
  not lent before, are at most as many as were asked for, and are none when it reports an error or the
  firmware refused them. What is lent to other functions does not change, the counters count what is
  lent, and no vport exceeds its software limit.\<close>

theorem give_pages_transfer:
  assumes c: "cfg_ok c" and good: "pg_good c d" and envs: "retries_ok c envs" and i: "i < 65536" and pos: "0 < npages"
  shows "\<exists>err d' pas. give_pages c kv envs fw d i npages event ec = Some (err, d', pas) \<and> pg_good c d' \<and>
    lent_more c (get_function i ec) d pas d' \<and> int (length pas) \<le> npages \<and> (err \<noteq> None \<longrightarrow> pas = []) \<and>
    (fa_check fw \<noteq> None \<longrightarrow> pas = [])"
  using assms by (rule give_pages_ok)

text \<open>
  C27. \<open>reclaim_pages\<close> takes back exactly what the firmware returned: when the command succeeds with at
  most as many addresses as were asked for, the adapter pages of those addresses are no longer lent,
  addresses that were not lent or occur twice are counted once or not at all, and all others stay
  lent; in every other case nothing is taken back and the count is 0.\<close>

theorem reclaim_pages_exact:
  assumes c: "cfg_ok c" and good: "pg_good c d" and i: "i < 65536"
  shows "\<exists>err n d'. reclaim_pages c kv down fw d i npages event ec = Some (err, n, d') \<and> pg_good c d' \<and>
    (let f = get_function i ec; ans = reclaim_pages_cmd c down fw d f npages;
         taken = (if kv \<and> \<not> (event \<and> fa_err ans = Cmd_remoteio) \<and> fa_check ans = None \<and> length (fa_pas ans) \<le> npages
                  then slot c ` set (fa_pas ans) else {}) in
     lent c d' f = lent c d f - taken \<and> n = int (card (taken \<inter> lent c d f)) \<and>
     (\<forall>g. g \<noteq> f \<longrightarrow> lent c d' g = lent c d g) \<and> (err \<noteq> None \<longrightarrow> taken = {}))"
  using assms by (rule reclaim_pages_ok)

lemma pg_start_good:
  assumes c: "cfg_ok c" and "pg_start d"
  shows "pg_good c d"
proof -
  from assms(2) have d: "page_root_xa d = (\<lambda>_. None)" "free_list d = []" "fw_pages d = 0" "\<And>t. page_counters d t = 0"
      "\<And>i v. vports d i = Some v \<Longrightarrow> vp_fw_pages v = 0 \<and> 0 \<le> page_limit v"
    by (auto simp: pg_start_def mlx5_pagealloc_init_def)
  have "num_lent c d f = 0" for f by (simp add: num_lent_def lent_def find_fw_page_def d)
  then have "counts c d" using d(3-5) by (auto simp: counts_def)
  moreover have "pg_inv c d" using d by (simp add: pg_inv_def roots_ok_def list_ok_def pages_def)
  moreover have "within_limits c d" using d(5) by (auto simp: within_limits_def)
  ultimately show ?thesis by (simp add: pg_good_def)
qed

lemma pg_step_good:
  assumes "cfg_ok c" "pg_good c d" "pg_step c d d'"
  shows "pg_good c d'"
  using assms(3)
proof cases
  case (pg_request kv down envs fw i npages ec release_all)
  then show ?thesis using pages_work_handler_ok [OF assms(1,2) pg_request(2,3)] by (metis option.inject)
next
  case (pg_startup kv envs fw i npages ec err pas)
  then show ?thesis using give_pages_ok [OF assms(1,2) pg_startup(2,3,4), of kv fw False ec] by auto
next
  case (pg_reclaim kv down fw i npages ec err n)
  then show ?thesis using reclaim_pages_ok [OF assms(1,2) pg_reclaim(2), of kv down fw npages False ec] by (auto simp: Let_def)
qed

interpretation pga: invariant_system "\<lambda>d. cfg_ok c \<and> pg_start d" "\<lambda>d d'. pg_step c d d'" "\<lambda>d. cfg_ok c \<and> pg_good c d" for c
  by unfold_locales (auto intro: pg_start_good pg_step_good)

lemma pg_reach_good:
  assumes "cfg_ok c" "reach pg_start (pg_step c) d"
  shows "pg_good c d"
proof -
  have "reach (\<lambda>d. cfg_ok c \<and> pg_start d) (pg_step c) d"
    using assms(2) by induction (auto intro: reach.intros assms(1))
  then show ?thesis using pga.reach_invar [of c d] by simp
qed

text \<open>
  C3. In every state the allocator can get to from its initialisation, whatever the firmware asks for
  and answers: the next request runs to its end without touching a page that is gone or a list the page
  is not on, the total is the number of adapter pages lent to all functions, every counter of a type is
  the number lent to the functions of the type, every vport counter is what its vport has, and a page
  of a function is on the free list exactly when it has a free adapter page.\<close>

theorem pg_run:
  assumes "cfg_ok c" "reach pg_start (pg_step c) d" "retries_ok c envs" "i < 65536"
  shows "pages_work_handler c kv down envs fw d i npages ec release_all \<noteq> None \<and>
    fw_pages d = (\<Sum>f<131072. int (card (lent c d f))) \<and>
    page_counters d t = (\<Sum>f\<in>{f. f < 131072 \<and> ftype c f = t}. int (card (lent c d f))) \<and>
    (esw_accounts c \<and> 0 < i \<and> vports d i = Some v \<longrightarrow> vp_fw_pages v = int (card (lent c d i)) + int (card (lent c d (i + 65536)))) \<and>
    list_ok d"
proof -
  have good: "pg_good c d" using assms(1,2) by (rule pg_reach_good)
  moreover have "pages_work_handler c kv down envs fw d i npages ec release_all \<noteq> None"
    using pages_work_handler_ok [OF assms(1) good assms(3,4)] by (metis option.distinct(1))
  ultimately show ?thesis using assms(4)
    by (auto simp: pg_good_def counts_def num_lent_def pg_inv_def)
qed

section \<open>Concrete runs\<close>

text \<open>System pages of 8 KiB, two adapter pages each, and a vport that may have three pages.\<close>

definition cfg0 :: pg_cfg where
  "cfg0 = \<lparr>page_shift = 13, is_ecpf = False, max_vfs = 4, max_ec_vfs = 0, esw_accounts = True, vhca_icm_ctrl = False\<rparr>"

definition dev0 :: pg_dev where
  "dev0 = \<lparr>page_root_xa = \<lambda>_. None, free_list = [], fw_pages = 0, page_counters = \<lambda>_. 0, give_pages_dropped = 0,
     reclaim_pages_discard = 0, fw_pages_alloc_failed = 0, vports = [1 \<mapsto> \<lparr>page_limit = 3, vp_fw_pages = 0\<rparr>]\<rparr>"

definition envs0 :: "nat \<Rightarrow> sys_env list option" where
  "envs0 k = Some [\<lparr>kz_root = True, xa_insert_ok = True, kz_page = True, alloc_page_ok = True,
     dma_addrs = [Some 0, Some (8192 * (k + 1))]\<rparr>]"

definition fw0 :: "nat list \<Rightarrow> fw_answer" where
  "fw0 pas = \<lparr>fa_err = Cmd_ok, fa_check = None, fa_pas = pas\<rparr>"

definition dev1 :: pg_dev where
  "dev1 = the (pages_work_handler cfg0 True False envs0 (fw0 []) dev0 1 5 False False)"

lemma cfg0_ok: "cfg_ok cfg0"
  by (simp add: cfg_ok_def cfg0_def)

lemma envs0_ok: "retries_ok cfg0 envs0"
  by (auto simp: retries_ok_def envs0_def env_ok_def cfg0_def)

lemma dev0_start: "pg_start dev0"
  unfolding pg_start_def by (rule exI [of _ dev0]) (simp add: mlx5_pagealloc_init_def dev0_def)

lemma dev1_reach: "reach pg_start (pg_step cfg0) dev1"
proof -
  have "\<exists>d'. pages_work_handler cfg0 True False envs0 (fw0 []) dev0 1 5 False False = Some d' \<and> pg_good cfg0 d'"
    using pages_work_handler_ok [OF cfg0_ok pg_start_good [OF cfg0_ok dev0_start] envs0_ok] by simp
  then have "pages_work_handler cfg0 True False envs0 (fw0 []) dev0 1 5 False False = Some dev1" by (auto simp: dev1_def)
  then have "pg_step cfg0 dev0 dev1" by (rule pg_request [OF _ envs0_ok]) simp
  with reach_init [of pg_start dev0 "pg_step cfg0"] dev0_start show ?thesis by (auto intro: reach_step)
qed

lemmas dev1_good = pg_reach_good [OF cfg0_ok dev1_reach]

lemma num_4k_cfg0: "num_4k cfg0 = Suc (Suc 0)" "2 ^ page_shift cfg0 = (8192::nat)"
  by (simp_all add: num_4k_def cfg0_def MLX5_ADAPTER_PAGE_SIZE_def)

lemma three: "[0..<3] = [0, Suc 0, 2]"
  by code_simp

lemmas page_run = num_4k_cfg0 dev0_def envs0_def fw0_def Let_def MLX5_ADAPTER_PAGE_SIZE_def give_pages_def
  vf_obtainable_pages_def give_npages_def get_function_def alloc_4k_def alloc_system_page_def insert_page_def
  page_root_per_function_def new_fw_page_def find_fw_page_def find_first_bit_def set_page_def recount_def
  func_id_to_type_def update_pg_counters_def reclaim_pages_def reclaim_pages_cmd_def free_4k_def nth_opt_def uncount_def
  free_fwp_def pages_work_handler_def three

lemma cfg0_simps [simp]: "esw_accounts cfg0" "\<not> vhca_icm_ctrl cfg0" "max_vfs cfg0 = 4"
  by (simp_all add: cfg0_def)

lemma dev1_pages: "fw_pages dev1 = 3" "map_option vp_fw_pages (vports dev1 1) = Some 3" "page_root_xa dev1 1 \<noteq> None"
  by (simp_all add: dev1_def page_run)

theorem give_pages_transfer_witness:
  "map_option (\<lambda>(err, d', pas). pas) (give_pages cfg0 True envs0 (fw0 []) dev0 1 5 True False) = Some [8192, 12288, 24576] \<and>
   (\<exists>err d' pas. give_pages cfg0 True envs0 (fw0 []) dev0 1 5 True False = Some (err, d', pas) \<and> pg_good cfg0 d' \<and>
      lent_more cfg0 (get_function 1 False) dev0 pas d' \<and> int (length pas) \<le> 5)"
proof
  show "map_option (\<lambda>(err, d', pas). pas) (give_pages cfg0 True envs0 (fw0 []) dev0 1 5 True False) = Some [8192, 12288, 24576]"
    by (simp add: page_run)
  show "\<exists>err d' pas. give_pages cfg0 True envs0 (fw0 []) dev0 1 5 True False = Some (err, d', pas) \<and> pg_good cfg0 d' \<and>
      lent_more cfg0 (get_function 1 False) dev0 pas d' \<and> int (length pas) \<le> 5"
    using give_pages_transfer [OF cfg0_ok pg_start_good [OF cfg0_ok dev0_start] envs0_ok, of 1 5 True "fw0 []" True False] by auto
qed

theorem reclaim_pages_exact_witness:
  "map_option (\<lambda>(err, n, d'). (err, n, fw_pages d')) (reclaim_pages cfg0 True False (fw0 [12288, 12288, 4096]) dev1 1 3 True False)
     = Some (None, 1, 2) \<and>
   (\<exists>err n d'. reclaim_pages cfg0 True False (fw0 [12288, 12288, 4096]) dev1 1 3 True False = Some (err, n, d') \<and> pg_good cfg0 d' \<and>
      lent cfg0 d' 1 = lent cfg0 dev1 1 - slot cfg0 ` {12288, 4096})"
proof
  show "map_option (\<lambda>(err, n, d'). (err, n, fw_pages d')) (reclaim_pages cfg0 True False (fw0 [12288, 12288, 4096]) dev1 1 3 True False)
     = Some (None, 1, 2)" by (simp add: dev1_def page_run)
  show "\<exists>err n d'. reclaim_pages cfg0 True False (fw0 [12288, 12288, 4096]) dev1 1 3 True False = Some (err, n, d') \<and> pg_good cfg0 d' \<and>
      lent cfg0 d' 1 = lent cfg0 dev1 1 - slot cfg0 ` {12288, 4096}"
    using reclaim_pages_exact [OF cfg0_ok dev1_good, of 1 True False "fw0 [12288, 12288, 4096]" 3 True False]
    by (auto simp: Let_def reclaim_pages_cmd_def fw0_def get_function_def)
qed

theorem reclaim_root_pages_returns_witness:
  "\<exists>d'. mlx5_reclaim_root_pages cfg0 [(True, True, fw0 [], False)] dev1 1 = Some (None, d') \<and> lent cfg0 d' 1 = {}"
proof -
  have "num_lent cfg0 dev1 1 + num_lent cfg0 dev1 65537 = 3"
    using dev1_good dev1_pages(2) by (fastforce simp: pg_good_def counts_def)
  then have "card (lent cfg0 dev1 1) \<le> 768" by (simp add: num_lent_def)
  then show ?thesis
    using reclaim_root_pages_returns [OF cfg0_ok dev1_good, of 1 "[(True, True, fw0 [], False)]"] dev1_pages(3) by auto
qed

theorem pg_run_witness:
  "fw_pages dev1 = 3 \<and> (\<Sum>f<131072. int (card (lent cfg0 dev1 f))) = 3 \<and>
   pages_work_handler cfg0 True False envs0 (fw0 []) dev1 1 (-2) False False \<noteq> None"
  using pg_run [OF cfg0_ok dev1_reach envs0_ok, of 1 True False "fw0 []" "-2" False False] dev1_pages(1) by simp

end
