(* ===== verification/Port_Tun.thy ===== *)
theory Port_Tun
  imports Mlx_Prelude
begin

text \<open>
  The entropy setting of tunnel headers (\<open>drivers/net/ethernet/mellanox/mlx5/core/lib/port_tun.c\<close>) and its
  clients, the encapsulation entries of \<open>en/rep/tc.c\<close>. VXLAN and L3 tunnels need the entropy calculation of
  the port on, GRE needs it off. Where the port has no separate control for GRE, the two counters
  decide who is admitted.

  Correspondence.
  \<^item> The counters are 32-bit words, as in \<open>struct mlx5_tun_entropy\<close>; the mutex makes each operation one step.
  \<^item> The port register is firmware: what a query returns and what a change reports are fields of \<open>tun_env\<close>,
    and the changes an operation asks for come back as a list, the oldest first.
\<close>

section \<open>State\<close>

record mlx5_port_tun_entropy_flags =
  force_supported :: bool
  force_enabled :: bool
  calc_supported :: bool
  calc_enabled :: bool
  gre_calc_supported :: bool
  gre_calc_enabled :: bool

record mlx5_tun_entropy =
  num_enabling_entries :: u32
  num_disabling_entries :: u32
  enabled :: bool

datatype reformat_type =
    MLX5_REFORMAT_TYPE_L2_TO_VXLAN
  | MLX5_REFORMAT_TYPE_L2_TO_NVGRE
  | MLX5_REFORMAT_TYPE_L2_TO_L2_TUNNEL
  | MLX5_REFORMAT_TYPE_L2_TO_L3_TUNNEL
  | MLX5_REFORMAT_TYPE_L2_TO_L3_ESP_TUNNEL

datatype entropy_change =
    Calc bool bool  \<comment> \<open>\<open>entropy_calc\<close> and \<open>entropy_force\<close>\<close>
  | Gre_calc bool bool

record tun_env =
  ports_check :: bool
  port_query :: "mlx5_port_tun_entropy_flags option"
  change_result :: "entropy_change \<Rightarrow> errno option"

section \<open>Operations\<close>

definition mlx5_query_port_tun_entropy :: "tun_env \<Rightarrow> mlx5_port_tun_entropy_flags" where
  "mlx5_query_port_tun_entropy env =
     (let default = \<lparr>force_supported = False, force_enabled = False, calc_supported = False, calc_enabled = True,
                     gre_calc_supported = False, gre_calc_enabled = True\<rparr> in
      if \<not> ports_check env then default
      else case port_query env of None \<Rightarrow> default | Some flags \<Rightarrow> flags)"

definition mlx5_init_port_tun_entropy :: "tun_env \<Rightarrow> mlx5_tun_entropy" where
  "mlx5_init_port_tun_entropy env =
     (let flags = mlx5_query_port_tun_entropy env in
      \<lparr>num_enabling_entries = 0, num_disabling_entries = 0,
       enabled = (if calc_supported flags then calc_enabled flags else True)\<rparr>)"

definition mlx5_set_port_tun_entropy_calc :: "tun_env \<Rightarrow> bool \<Rightarrow> bool \<Rightarrow> errno option \<times> entropy_change list" where
  "mlx5_set_port_tun_entropy_calc env enable force =
     (change_result env (Calc enable force), [Calc enable force])"

definition mlx5_set_port_gre_tun_entropy_calc :: "tun_env \<Rightarrow> bool \<Rightarrow> bool \<Rightarrow> errno option \<times> entropy_change list" where
  "mlx5_set_port_gre_tun_entropy_calc env enable force =
     (change_result env (Gre_calc enable force), [Gre_calc enable force])"

definition mlx5_set_entropy ::
  "tun_env \<Rightarrow> mlx5_tun_entropy \<Rightarrow> reformat_type \<Rightarrow> bool \<Rightarrow> errno option \<times> mlx5_tun_entropy \<times> entropy_change list" where
  "mlx5_set_entropy env te t enable =
     (let flags = mlx5_query_port_tun_entropy env in
      if gre_calc_supported flags \<and> t = MLX5_REFORMAT_TYPE_L2_TO_NVGRE
      then (if \<not> force_supported flags then (None, te, [])
            else let (err, log) = mlx5_set_port_gre_tun_entropy_calc env enable (\<not> enable) in (err, te, log))
      else if calc_supported flags
      then (if force_enabled flags \<and> enable = calc_enabled flags then (Some EOPNOTSUPP, te, [])
            else if num_enabling_entries te \<noteq> 0 then (Some EOPNOTSUPP, te, [])
            else case mlx5_set_port_tun_entropy_calc env enable (force_supported flags) of
                (Some e, log) \<Rightarrow> (Some e, te, log)
              | (None, log) \<Rightarrow>
                  let te = te\<lparr>enabled := enable\<rparr> in
                  if force_supported flags \<and> enable
                  then let (err, log') = mlx5_set_port_tun_entropy_calc env True False in (err, te, log @ log')
                  else (None, te, log))
      else (None, te, []))"

definition mlx5_tun_entropy_refcount_inc ::
  "tun_env \<Rightarrow> mlx5_tun_entropy \<Rightarrow> reformat_type \<Rightarrow> errno option \<times> mlx5_tun_entropy \<times> entropy_change list" where
  "mlx5_tun_entropy_refcount_inc env te t =
     (if (t = MLX5_REFORMAT_TYPE_L2_TO_VXLAN \<or> t = MLX5_REFORMAT_TYPE_L2_TO_L3_TUNNEL) \<and> enabled te
      then (None, te\<lparr>num_enabling_entries := num_enabling_entries te + 1\<rparr>, [])
      else if t = MLX5_REFORMAT_TYPE_L2_TO_NVGRE
      then let (err, te, log) = (if num_disabling_entries te = 0 then mlx5_set_entropy env te t False else (None, te, [])) in
           (err, if err = None then te\<lparr>num_disabling_entries := num_disabling_entries te + 1\<rparr> else te, log)
      else (Some EOPNOTSUPP, te, []))"

definition mlx5_tun_entropy_refcount_dec ::
  "tun_env \<Rightarrow> mlx5_tun_entropy \<Rightarrow> reformat_type \<Rightarrow> mlx5_tun_entropy \<times> entropy_change list" where
  "mlx5_tun_entropy_refcount_dec env te t =
     (if t = MLX5_REFORMAT_TYPE_L2_TO_VXLAN
      then (te\<lparr>num_enabling_entries := num_enabling_entries te - 1\<rparr>, [])
      else if t = MLX5_REFORMAT_TYPE_L2_TO_NVGRE
      then let te = te\<lparr>num_disabling_entries := num_disabling_entries te - 1\<rparr> in
           if num_disabling_entries te = 0
           then let (_, te, log) = mlx5_set_entropy env te t True in (te, log)
           else (te, [])
      else (te, []))"

text \<open>The encapsulation entries: the neighbour lookup or its creation is a result of the environment.\<close>

definition mlx5e_rep_encap_entry_attach ::
  "tun_env \<Rightarrow> errno option \<Rightarrow> mlx5_tun_entropy \<Rightarrow> reformat_type \<Rightarrow> errno option \<times> mlx5_tun_entropy \<times> entropy_change list" where
  "mlx5e_rep_encap_entry_attach env neigh te t =
     (case mlx5_tun_entropy_refcount_inc env te t of
        (Some e, te, log) \<Rightarrow> (Some e, te, log)
      | (None, te, log) \<Rightarrow>
          (case neigh of
             None \<Rightarrow> (None, te, log)
           | Some e \<Rightarrow> let (te, log') = mlx5_tun_entropy_refcount_dec env te t in (Some e, te, log @ log')))"

definition mlx5e_rep_encap_entry_detach ::
  "tun_env \<Rightarrow> bool \<Rightarrow> mlx5_tun_entropy \<Rightarrow> reformat_type \<Rightarrow> mlx5_tun_entropy \<times> entropy_change list" where
  "mlx5e_rep_encap_entry_detach env has_nhe te t =
     (if \<not> has_nhe then (te, []) else mlx5_tun_entropy_refcount_dec env te t)"

section \<open>Runs\<close>

text \<open>A port whose register can be read and shows one entropy control for all tunnels, none of its own for GRE.\<close>

definition global_control :: "tun_env \<Rightarrow> bool" where
  "global_control env \<longleftrightarrow> calc_supported (mlx5_query_port_tun_entropy env) \<and> \<not> gre_calc_supported (mlx5_query_port_tun_entropy env)"

text \<open>The entries attached now, and the number of L3-tunnel entries that were ever admitted.\<close>

record tun_sys =
  tun_te :: mlx5_tun_entropy
  held :: "reformat_type list"
  l3_ever :: nat

definition is_l3 :: "reformat_type \<Rightarrow> nat" where
  "is_l3 t = (if t = MLX5_REFORMAT_TYPE_L2_TO_L3_TUNNEL then 1 else 0)"

text \<open>An operation on an entry of type \<open>t\<close>, with what the environment answers to it. The number of entries is below \<open>2 ^ 32\<close>.\<close>

inductive tun_step :: "tun_env \<Rightarrow> reformat_type \<Rightarrow> tun_sys \<Rightarrow> tun_sys \<Rightarrow> bool" for env t where
  tun_attach: "length (held s) + l3_ever s < 2 ^ 32 - 2 \<Longrightarrow>
     mlx5e_rep_encap_entry_attach env neigh (tun_te s) t = (err, te, log) \<Longrightarrow>
     tun_step env t s \<lparr>tun_te = te, held = (if err = None then t # held s else held s),
       l3_ever = l3_ever s + (if fst (mlx5_tun_entropy_refcount_inc env (tun_te s) t) = None then is_l3 t else 0)\<rparr>"
| tun_detach: "t \<in> set (held s) \<Longrightarrow>
     mlx5e_rep_encap_entry_detach env True (tun_te s) t = (te, log) \<Longrightarrow>
     tun_step env t s \<lparr>tun_te = te, held = remove1 t (held s), l3_ever = l3_ever s\<rparr>"

text \<open>The runs in which every operation on a GRE entry finds one entropy control.\<close>

abbreviation controlled_step :: "tun_sys \<Rightarrow> tun_sys \<Rightarrow> bool" where
  "controlled_step \<equiv> (\<lambda>s s'. \<exists>env t. tun_step env t s s' \<and> (t = MLX5_REFORMAT_TYPE_L2_TO_NVGRE \<longrightarrow> global_control env))"

definition tun_start :: "tun_sys \<Rightarrow> bool" where
  "tun_start s \<longleftrightarrow> (\<exists>env. tun_te s = mlx5_init_port_tun_entropy env) \<and> held s = [] \<and> l3_ever s = 0"

text \<open>The counters for given numbers of enabling and disabling references.\<close>

definition te_ok :: "mlx5_tun_entropy \<Rightarrow> nat \<Rightarrow> nat \<Rightarrow> bool" where
  "te_ok te en dis \<longleftrightarrow> num_enabling_entries te = of_nat en \<and> num_disabling_entries te = of_nat dis \<and>
     en < 2 ^ 32 \<and> dis < 2 ^ 32 \<and> (0 < dis \<longrightarrow> \<not> enabled te \<and> en = 0)"

definition tun_inv :: "tun_sys \<Rightarrow> bool" where
  "tun_inv s \<longleftrightarrow> length (held s) + l3_ever s < 2 ^ 32 \<and> count_list (held s) MLX5_REFORMAT_TYPE_L2_TO_L3_TUNNEL \<le> l3_ever s \<and>
     te_ok (tun_te s) (count_list (held s) MLX5_REFORMAT_TYPE_L2_TO_VXLAN + l3_ever s)
       (count_list (held s) MLX5_REFORMAT_TYPE_L2_TO_NVGRE)"

lemma of_nat_u32_0_iff: "n < 2 ^ 32 \<Longrightarrow> (of_nat n :: u32) = 0 \<longleftrightarrow> n = 0"
  by (auto simp: word_of_nat_eq_0_iff dest!: dvd_imp_le)

lemma te_ok_enabling: "te_ok te en dis \<Longrightarrow> 0 < en \<Longrightarrow> num_enabling_entries te \<noteq> 0 \<and> num_disabling_entries te = 0"
  using of_nat_u32_0_iff [of en] by (auto simp: te_ok_def)

lemma set_entropy_counters:
  assumes "mlx5_set_entropy env te t en = (err, te', log)"
  shows "num_enabling_entries te' = num_enabling_entries te" "num_disabling_entries te' = num_disabling_entries te"
  using assms by (auto simp: mlx5_set_entropy_def Let_def split: if_splits prod.splits option.splits)

lemma set_entropy_off:
  assumes "mlx5_set_entropy env te t False = (None, te', log)" "global_control env"
  shows "\<not> enabled te'" "num_enabling_entries te = 0"
  using assms by (auto simp: mlx5_set_entropy_def global_control_def Let_def split: if_splits prod.splits option.splits)

lemma inc_ok:
  assumes "te_ok te en dis" "t = MLX5_REFORMAT_TYPE_L2_TO_NVGRE \<longrightarrow> global_control env" "en + 1 < 2 ^ 32" "dis + 1 < 2 ^ 32"
    and "mlx5_tun_entropy_refcount_inc env te t = (err, te', log)"
  shows "te_ok te'
    (en + (if err = None \<and> (t = MLX5_REFORMAT_TYPE_L2_TO_VXLAN \<or> t = MLX5_REFORMAT_TYPE_L2_TO_L3_TUNNEL) then 1 else 0))
    (dis + (if err = None \<and> t = MLX5_REFORMAT_TYPE_L2_TO_NVGRE then 1 else 0))"
proof (cases "t = MLX5_REFORMAT_TYPE_L2_TO_NVGRE")
  case False
  then show ?thesis using assms by (auto simp: mlx5_tun_entropy_refcount_inc_def te_ok_def split: if_splits)
next
  case True
  show ?thesis
  proof (cases "num_disabling_entries te = 0")
    case zero: True
    obtain e te1 log1 where se: "mlx5_set_entropy env te t False = (e, te1, log1)" by (cases "mlx5_set_entropy env te t False")
    have dis: "dis = 0" using assms(1) zero of_nat_u32_0_iff by (auto simp: te_ok_def)
    have te': "err = e" "te' = (if e = None then te1\<lparr>num_disabling_entries := num_disabling_entries te1 + 1\<rparr> else te1)"
      using assms(5) True zero se by (auto simp: mlx5_tun_entropy_refcount_inc_def)
    show ?thesis
    proof (cases e)
      case None
      note off = set_entropy_off [OF se [unfolded None] assms(2) [rule_format, OF True]]
      then have "en = 0" using assms(1) of_nat_u32_0_iff by (auto simp: te_ok_def)
      then show ?thesis using assms(1) te' None off set_entropy_counters [OF se] dis True by (auto simp: te_ok_def)
    next
      case (Some x)
      then show ?thesis using assms(1) te' set_entropy_counters [OF se] dis True by (auto simp: te_ok_def)
    qed
  next
    case nonzero: False
    then have "0 < dis" using assms(1) by (auto simp: te_ok_def intro!: gr0I)
    then show ?thesis using assms True nonzero by (auto simp: mlx5_tun_entropy_refcount_inc_def te_ok_def)
  qed
qed

lemma dec_ok:
  assumes ok: "te_ok te en dis" and pos: "t = MLX5_REFORMAT_TYPE_L2_TO_VXLAN \<longrightarrow> 0 < en" "t = MLX5_REFORMAT_TYPE_L2_TO_NVGRE \<longrightarrow> 0 < dis"
    and dec: "mlx5_tun_entropy_refcount_dec env te t = (te', log)"
  shows "te_ok te' (en - (if t = MLX5_REFORMAT_TYPE_L2_TO_VXLAN then 1 else 0))
    (dis - (if t = MLX5_REFORMAT_TYPE_L2_TO_NVGRE then 1 else 0))"
proof (cases "t = MLX5_REFORMAT_TYPE_L2_TO_NVGRE")
  case False
  then show ?thesis using assms by (auto simp: mlx5_tun_entropy_refcount_dec_def te_ok_def split: if_splits)
next
  case True
  define te1 where "te1 = te\<lparr>num_disabling_entries := num_disabling_entries te - 1\<rparr>"
  have n: "num_disabling_entries te1 = of_nat (dis - 1)" using ok pos(2) True by (simp add: te1_def te_ok_def)
  have small: "dis - 1 < 2 ^ 32" using ok by (auto simp: te_ok_def)
  obtain e te2 log2 where se: "mlx5_set_entropy env te1 t True = (e, te2, log2)" by (cases "mlx5_set_entropy env te1 t True")
  show ?thesis
  proof (cases "dis = 1")
    case one: True
    then have "te' = te2" using dec True se n by (simp add: mlx5_tun_entropy_refcount_dec_def flip: te1_def)
    then show ?thesis using ok True one set_entropy_counters [OF se] by (simp add: te_ok_def te1_def)
  next
    case False
    then have "num_disabling_entries te1 \<noteq> 0" using n small of_nat_u32_0_iff [of "dis - 1"] pos(2) True by auto
    then have "te' = te1" using dec True by (auto simp: mlx5_tun_entropy_refcount_dec_def simp flip: te1_def)
    then show ?thesis using ok True pos(2) n small by (auto simp: te_ok_def te1_def)
  qed
qed

lemma tun_start_inv: "tun_start s \<Longrightarrow> tun_inv s"
  by (auto simp: tun_start_def tun_inv_def te_ok_def mlx5_init_port_tun_entropy_def Let_def)

lemma tun_step_inv:
  assumes inv: "tun_inv s" and step: "tun_step env t s s'" and ctl: "t = MLX5_REFORMAT_TYPE_L2_TO_NVGRE \<longrightarrow> global_control env"
  shows "tun_inv s'"
proof -
  from inv have te: "te_ok (tun_te s) (count_list (held s) MLX5_REFORMAT_TYPE_L2_TO_VXLAN + l3_ever s)
       (count_list (held s) MLX5_REFORMAT_TYPE_L2_TO_NVGRE)" and l3: "count_list (held s) MLX5_REFORMAT_TYPE_L2_TO_L3_TUNNEL \<le> l3_ever s"
    by (auto simp: tun_inv_def)
  from step show ?thesis
  proof cases
    case (tun_attach neigh err te log)
    let ?vx = "count_list (held s) MLX5_REFORMAT_TYPE_L2_TO_VXLAN" and ?gre = "count_list (held s) MLX5_REFORMAT_TYPE_L2_TO_NVGRE"
    obtain e te1 log1 where inc: "mlx5_tun_entropy_refcount_inc env (tun_te s) t = (e, te1, log1)"
      by (cases "mlx5_tun_entropy_refcount_inc env (tun_te s) t")
    have small: "?vx + l3_ever s + 1 < 2 ^ 32" "?gre + 1 < 2 ^ 32"
      using tun_attach(2) count_le_length [of "held s" MLX5_REFORMAT_TYPE_L2_TO_VXLAN]
        count_le_length [of "held s" MLX5_REFORMAT_TYPE_L2_TO_NVGRE] by auto
    note ok = inc_ok [OF te ctl small inc]
    have len: "length (held s) + 1 + (l3_ever s + is_l3 t) < 2 ^ 32" using tun_attach(2) by (simp add: is_l3_def)
    show ?thesis
    proof (cases "e = None \<and> neigh \<noteq> None")
      case False
      then have "te = te1" "err = None \<longleftrightarrow> e = None" using tun_attach(3) inc
        by (auto simp: mlx5e_rep_encap_entry_attach_def split: option.splits prod.splits)
      then show ?thesis using ok len l3 tun_attach(1) inc by (auto simp: tun_inv_def is_l3_def split: if_splits)
    next
      case True
      then obtain log2 where dec: "mlx5_tun_entropy_refcount_dec env te1 t = (te, log2)" and "err \<noteq> None"
        using tun_attach(3) inc by (auto simp: mlx5e_rep_encap_entry_attach_def split: option.splits prod.splits)
      then show ?thesis using dec_ok [OF ok _ _ dec] True len l3 tun_attach(1) inc
        by (auto simp: tun_inv_def is_l3_def split: if_splits)
    qed
  next
    case (tun_detach te log)
    have dec: "mlx5_tun_entropy_refcount_dec env (tun_te s) t = (te, log)" using tun_detach(3)
      by (simp add: mlx5e_rep_encap_entry_detach_def)
    have pos: "0 < count_list (held s) t" using tun_detach(2) by (metis count_list_0_iff gr0I)
    have cnt: "count_list (remove1 t xs) u = count_list xs u - (if t = u then 1 else 0)" for u xs
      by (induction xs) (auto simp: count_list_0_iff)
    have "length (remove1 t (held s)) \<le> length (held s)" by (simp add: length_remove1)
    then show ?thesis using inv dec_ok [OF te _ _ dec] pos
      unfolding tun_detach(1) by (auto simp: tun_inv_def cnt)
  qed
qed

interpretation tun: invariant_system tun_start controlled_step tun_inv
  by unfold_locales (auto intro: tun_start_inv tun_step_inv)

text \<open>
  C38. If every operation on a GRE entry finds that the register of the port can be read and shows one entropy control for all tunnels, then tunnels
  that need the calculation on and tunnels that need it off are never attached together: while a GRE entry is attached, no VXLAN and no
  L3-tunnel entry is, and the calculation is off.\<close>

theorem tun_entropy_exclusive:
  assumes "reach tun_start (\<lambda>s s'. \<exists>env t. tun_step env t s s' \<and> (t = MLX5_REFORMAT_TYPE_L2_TO_NVGRE \<longrightarrow> global_control env)) s"
    "MLX5_REFORMAT_TYPE_L2_TO_NVGRE \<in> set (held s)"
  shows "\<not> enabled (tun_te s) \<and> MLX5_REFORMAT_TYPE_L2_TO_VXLAN \<notin> set (held s) \<and>
    MLX5_REFORMAT_TYPE_L2_TO_L3_TUNNEL \<notin> set (held s) \<and> num_enabling_entries (tun_te s) = 0"
proof -
  have "tun_inv s" using assms(1) by (rule tun.reach_invar)
  moreover have "0 < count_list (held s) MLX5_REFORMAT_TYPE_L2_TO_NVGRE" using assms(2) by (metis count_list_0_iff gr0I)
  ultimately show ?thesis by (auto simp: tun_inv_def te_ok_def count_list_0_iff)
qed

text \<open>
  C39. The references of L3-tunnel entries are taken and never given back. On a port as above, once an L3-tunnel entry was admitted, a GRE
  entry is refused with \<open>EOPNOTSUPP\<close> whenever the register is read and shows one entropy control, also when nothing is attached any more.\<close>

theorem tun_entropy_l3_leak:
  assumes "reach tun_start (\<lambda>s s'. \<exists>env t. tun_step env t s s' \<and> (t = MLX5_REFORMAT_TYPE_L2_TO_NVGRE \<longrightarrow> global_control env)) s" "0 < l3_ever s" "global_control env"
  shows "fst (mlx5e_rep_encap_entry_attach env neigh (tun_te s) MLX5_REFORMAT_TYPE_L2_TO_NVGRE) = Some EOPNOTSUPP"
proof -
  have "tun_inv s" using assms(1) by (rule tun.reach_invar)
  then have "num_enabling_entries (tun_te s) \<noteq> 0 \<and> num_disabling_entries (tun_te s) = 0"
    using assms(2) unfolding tun_inv_def by (metis te_ok_enabling add_gr_0)
  then show ?thesis using assms(3)
    by (auto simp: mlx5e_rep_encap_entry_attach_def mlx5_tun_entropy_refcount_inc_def mlx5_set_entropy_def global_control_def Let_def
        split: prod.splits option.splits)
qed

section \<open>Concrete runs\<close>

definition env0 :: tun_env where
  "env0 = \<lparr>ports_check = True,
     port_query = Some \<lparr>force_supported = True, force_enabled = False, calc_supported = True, calc_enabled = True,
                        gre_calc_supported = False, gre_calc_enabled = True\<rparr>,
     change_result = \<lambda>_. None\<rparr>"

definition tun0 :: tun_sys where
  "tun0 = \<lparr>tun_te = mlx5_init_port_tun_entropy env0, held = [], l3_ever = 0\<rparr>"

definition attach_in :: "tun_env \<Rightarrow> reformat_type \<Rightarrow> tun_sys \<Rightarrow> tun_sys" where
  "attach_in env t s = (case mlx5e_rep_encap_entry_attach env None (tun_te s) t of
     (err, te, log) \<Rightarrow> \<lparr>tun_te = te, held = (if err = None then t # held s else held s),
       l3_ever = l3_ever s + (if fst (mlx5_tun_entropy_refcount_inc env (tun_te s) t) = None then is_l3 t else 0)\<rparr>)"

abbreviation attach0 :: "reformat_type \<Rightarrow> tun_sys \<Rightarrow> tun_sys" where "attach0 \<equiv> attach_in env0"

definition detach0 :: "reformat_type \<Rightarrow> tun_sys \<Rightarrow> tun_sys" where
  "detach0 t s = (case mlx5e_rep_encap_entry_detach env0 True (tun_te s) t of
     (te, log) \<Rightarrow> \<lparr>tun_te = te, held = remove1 t (held s), l3_ever = l3_ever s\<rparr>)"

lemma env0_global: "global_control env0"
  by (simp add: global_control_def mlx5_query_port_tun_entropy_def env0_def)

lemma attach_steps:
  assumes "length (held s) + l3_ever s < 2 ^ 32 - 2"
  shows "tun_step env t s (attach_in env t s)"
  unfolding attach_in_def
  by (cases "mlx5e_rep_encap_entry_attach env None (tun_te s) t") (simp only: prod.case, rule tun_attach [OF assms])

lemma attach0_step: "length (held s) + l3_ever s < 2 ^ 32 - 2 \<Longrightarrow> controlled_step s (attach0 t s)"
  using attach_steps [of s env0 t] env0_global by blast

lemma detach0_step: "t \<in> set (held s) \<Longrightarrow> controlled_step s (detach0 t s)"
proof (intro exI conjI impI)
  show "tun_step env0 t s (detach0 t s)" if "t \<in> set (held s)"
    unfolding detach0_def
    by (cases "mlx5e_rep_encap_entry_detach env0 True (tun_te s) t") (simp only: prod.case, rule tun_detach [OF that])
qed (rule env0_global)

lemma tun0_start: "tun_start tun0"
  by (auto simp: tun_start_def tun0_def)

lemma attach_reach: "reach tun_start controlled_step (attach0 t tun0)"
  by (rule reach_step [where step = controlled_step, OF reach_init attach0_step]) (rule tun0_start, simp add: tun0_def)

theorem tun_entropy_exclusive_witness:
  "held (attach0 MLX5_REFORMAT_TYPE_L2_TO_NVGRE tun0) = [MLX5_REFORMAT_TYPE_L2_TO_NVGRE] \<and>
   \<not> enabled (tun_te (attach0 MLX5_REFORMAT_TYPE_L2_TO_NVGRE tun0))"
proof -
  have h: "held (attach0 MLX5_REFORMAT_TYPE_L2_TO_NVGRE tun0) = [MLX5_REFORMAT_TYPE_L2_TO_NVGRE]" by code_simp
  then show ?thesis using tun_entropy_exclusive [OF attach_reach, of MLX5_REFORMAT_TYPE_L2_TO_NVGRE] by simp
qed

theorem tun_entropy_l3_leak_witness:
  "\<exists>s. reach tun_start controlled_step s \<and> held s = [] \<and>
     fst (mlx5e_rep_encap_entry_attach env0 None (tun_te s) MLX5_REFORMAT_TYPE_L2_TO_NVGRE) = Some EOPNOTSUPP"
proof -
  let ?a = "attach0 MLX5_REFORMAT_TYPE_L2_TO_L3_TUNNEL tun0"
  let ?s = "detach0 MLX5_REFORMAT_TYPE_L2_TO_L3_TUNNEL ?a"
  have "MLX5_REFORMAT_TYPE_L2_TO_L3_TUNNEL \<in> set (held ?a)" "0 < l3_ever ?s" "held ?s = []" by code_simp+
  moreover have "reach tun_start controlled_step ?s" using attach_reach detach0_step [OF calculation(1)] by (rule reach_step)
  ultimately show ?thesis using tun_entropy_l3_leak [of ?s env0 None] env0_global by blast
qed

text \<open>
  When the register cannot be read at the first GRE entry, \<open>mlx5_set_entropy\<close> changes nothing and returns 0: the entry is admitted while a
  VXLAN entry is attached and the calculation stays on.\<close>

theorem tun_entropy_query_fails:
  "\<exists>s. reach tun_start (\<lambda>s s'. \<exists>env t. tun_step env t s s') s \<and>
     held s = [MLX5_REFORMAT_TYPE_L2_TO_NVGRE, MLX5_REFORMAT_TYPE_L2_TO_VXLAN] \<and> enabled (tun_te s)"
proof -
  let ?vx = "attach0 MLX5_REFORMAT_TYPE_L2_TO_VXLAN tun0"
  let ?s = "attach_in (env0\<lparr>port_query := None\<rparr>) MLX5_REFORMAT_TYPE_L2_TO_NVGRE ?vx"
  have run: "reach tun_start (\<lambda>s s'. \<exists>env t. tun_step env t s s') (attach_in env t s)"
    if "reach tun_start (\<lambda>s s'. \<exists>env t. tun_step env t s s') s" "length (held s) + l3_ever s < 2 ^ 32 - 2" for env t s
    using reach_step [OF that(1)] attach_steps [OF that(2)] by blast
  have "length (held ?vx) + l3_ever ?vx = 1" by code_simp
  then have "reach tun_start (\<lambda>s s'. \<exists>env t. tun_step env t s s') ?s"
    by (intro run reach_init tun0_start) (simp_all add: tun0_def)
  moreover have "held ?s = [MLX5_REFORMAT_TYPE_L2_TO_NVGRE, MLX5_REFORMAT_TYPE_L2_TO_VXLAN]" "enabled (tun_te ?s)" by code_simp+
  ultimately show ?thesis by blast
qed

end
