(* ===== verification/Cmd_Tables.thy ===== *)
theory Cmd_Tables
  imports Mlx_Prelude
begin

text \<open>
  The constant tables of the firmware command interface (\<open>drivers/net/ethernet/mellanox/mlx5/core/cmd.c\<close>): the
  names of the commands, the answers the driver gives in place of a device that is gone, and the
  error numbers of the two kinds of status. Opcodes are 16-bit words, with their names as comments;
  a table with a \<open>default\<close> is an association list and a default.
\<close>

section \<open>Command names\<close>

definition command_names :: "(u16 \<times> string) list" where
  "command_names = [
     (0x100, ''QUERY_HCA_CAP''),
     (0x101, ''QUERY_ADAPTER''),
     (0x102, ''INIT_HCA''),
     (0x103, ''TEARDOWN_HCA''),
     (0x104, ''ENABLE_HCA''),
     (0x105, ''DISABLE_HCA''),
     (0x107, ''QUERY_PAGES''),
     (0x108, ''MANAGE_PAGES''),
     (0x109, ''SET_HCA_CAP''),
     (0x10A, ''QUERY_ISSI''),
     (0x10B, ''SET_ISSI''),
     (0x10D, ''SET_DRIVER_VERSION''),
     (0x200, ''CREATE_MKEY''),
     (0x201, ''QUERY_MKEY''),
     (0x202, ''DESTROY_MKEY''),
     (0x203, ''QUERY_SPECIAL_CONTEXTS''),
     (0x204, ''PAGE_FAULT_RESUME''),
     (0x301, ''CREATE_EQ''),
     (0x302, ''DESTROY_EQ''),
     (0x303, ''QUERY_EQ''),
     (0x304, ''GEN_EQE''),
     (0x400, ''CREATE_CQ''),
     (0x401, ''DESTROY_CQ''),
     (0x402, ''QUERY_CQ''),
     (0x403, ''MODIFY_CQ''),
     (0x500, ''CREATE_QP''),
     (0x501, ''DESTROY_QP''),
     (0x502, ''RST2INIT_QP''),
     (0x503, ''INIT2RTR_QP''),
     (0x504, ''RTR2RTS_QP''),
     (0x505, ''RTS2RTS_QP''),
     (0x506, ''SQERR2RTS_QP''),
     (0x507, ''2ERR_QP''),
     (0x50A, ''2RST_QP''),
     (0x50B, ''QUERY_QP''),
     (0x50C, ''SQD_RTS_QP''),
     (0x50E, ''INIT2INIT_QP''),
     (0x600, ''CREATE_PSV''),
     (0x601, ''DESTROY_PSV''),
     (0x700, ''CREATE_SRQ''),
     (0x701, ''DESTROY_SRQ''),
     (0x702, ''QUERY_SRQ''),
     (0x703, ''ARM_RQ''),
     (0x705, ''CREATE_XRC_SRQ''),
     (0x706, ''DESTROY_XRC_SRQ''),
     (0x707, ''QUERY_XRC_SRQ''),
     (0x708, ''ARM_XRC_SRQ''),
     (0x710, ''CREATE_DCT''),
     (0x711, ''DESTROY_DCT''),
     (0x712, ''DRAIN_DCT''),
     (0x713, ''QUERY_DCT''),
     (0x715, ''SET_DC_CNAK_TRACE''),
     (0x714, ''ARM_DCT_FOR_KEY_VIOLATION''),
     (0x750, ''QUERY_VPORT_STATE''),
     (0x751, ''MODIFY_VPORT_STATE''),
     (0x752, ''QUERY_ESW_VPORT_CONTEXT''),
     (0x753, ''MODIFY_ESW_VPORT_CONTEXT''),
     (0x754, ''QUERY_NIC_VPORT_CONTEXT''),
     (0x755, ''MODIFY_NIC_VPORT_CONTEXT''),
     (0x760, ''QUERY_ROCE_ADDRESS''),
     (0x761, ''SET_ROCE_ADDRESS''),
     (0x762, ''QUERY_HCA_VPORT_CONTEXT''),
     (0x763, ''MODIFY_HCA_VPORT_CONTEXT''),
     (0x764, ''QUERY_HCA_VPORT_GID''),
     (0x765, ''QUERY_HCA_VPORT_PKEY''),
     (0x76F, ''QUERY_VNIC_ENV''),
     (0x770, ''QUERY_VPORT_COUNTER''),
     (0x771, ''ALLOC_Q_COUNTER''),
     (0x772, ''DEALLOC_Q_COUNTER''),
     (0x773, ''QUERY_Q_COUNTER''),
     (0x774, ''SET_MONITOR_COUNTER''),
     (0x775, ''ARM_MONITOR_COUNTER''),
     (0x780, ''SET_PP_RATE_LIMIT''),
     (0x781, ''QUERY_RATE_LIMIT''),
     (0x782, ''CREATE_SCHEDULING_ELEMENT''),
     (0x783, ''DESTROY_SCHEDULING_ELEMENT''),
     (0x784, ''QUERY_SCHEDULING_ELEMENT''),
     (0x785, ''MODIFY_SCHEDULING_ELEMENT''),
     (0x786, ''CREATE_QOS_PARA_VPORT''),
     (0x787, ''DESTROY_QOS_PARA_VPORT''),
     (0x800, ''ALLOC_PD''),
     (0x801, ''DEALLOC_PD''),
     (0x802, ''ALLOC_UAR''),
     (0x803, ''DEALLOC_UAR''),
     (0x804, ''CONFIG_INT_MODERATION''),
     (0x805, ''ACCESS_REG''),
     (0x806, ''ATTACH_TO_MCG''),
     (0x807, ''DETACH_FROM_MCG''),
     (0x80A, ''GET_DROPPED_PACKET_LOG''),
     (0x50D, ''MAD_IFC''),
     (0x80B, ''QUERY_MAD_DEMUX''),
     (0x80C, ''SET_MAD_DEMUX''),
     (0x80D, ''NOP''),
     (0x80E, ''ALLOC_XRCD''),
     (0x80F, ''DEALLOC_XRCD''),
     (0x816, ''ALLOC_TRANSPORT_DOMAIN''),
     (0x817, ''DEALLOC_TRANSPORT_DOMAIN''),
     (0x822, ''QUERY_CONG_STATUS''),
     (0x823, ''MODIFY_CONG_STATUS''),
     (0x824, ''QUERY_CONG_PARAMS''),
     (0x825, ''MODIFY_CONG_PARAMS''),
     (0x826, ''QUERY_CONG_STATISTICS''),
     (0x827, ''ADD_VXLAN_UDP_DPORT''),
     (0x828, ''DELETE_VXLAN_UDP_DPORT''),
     (0x829, ''SET_L2_TABLE_ENTRY''),
     (0x82A, ''QUERY_L2_TABLE_ENTRY''),
     (0x82B, ''DELETE_L2_TABLE_ENTRY''),
     (0x830, ''SET_WOL_ROL''),
     (0x831, ''QUERY_WOL_ROL''),
     (0x840, ''CREATE_LAG''),
     (0x841, ''MODIFY_LAG''),
     (0x842, ''QUERY_LAG''),
     (0x843, ''DESTROY_LAG''),
     (0x844, ''CREATE_VPORT_LAG''),
     (0x845, ''DESTROY_VPORT_LAG''),
     (0x900, ''CREATE_TIR''),
     (0x901, ''MODIFY_TIR''),
     (0x902, ''DESTROY_TIR''),
     (0x903, ''QUERY_TIR''),
     (0x904, ''CREATE_SQ''),
     (0x905, ''MODIFY_SQ''),
     (0x906, ''DESTROY_SQ''),
     (0x907, ''QUERY_SQ''),
     (0x908, ''CREATE_RQ''),
     (0x909, ''MODIFY_RQ''),
     (0x90A, ''DESTROY_RQ''),
     (0x90B, ''QUERY_RQ''),
     (0x90C, ''CREATE_RMP''),
     (0x90D, ''MODIFY_RMP''),
     (0x90E, ''DESTROY_RMP''),
     (0x90F, ''QUERY_RMP''),
     (0x912, ''CREATE_TIS''),
     (0x913, ''MODIFY_TIS''),
     (0x914, ''DESTROY_TIS''),
     (0x915, ''QUERY_TIS''),
     (0x916, ''CREATE_RQT''),
     (0x917, ''MODIFY_RQT''),
     (0x918, ''DESTROY_RQT''),
     (0x919, ''QUERY_RQT''),
     (0x92F, ''SET_FLOW_TABLE_ROOT''),
     (0x930, ''CREATE_FLOW_TABLE''),
     (0x931, ''DESTROY_FLOW_TABLE''),
     (0x932, ''QUERY_FLOW_TABLE''),
     (0x933, ''CREATE_FLOW_GROUP''),
     (0x934, ''DESTROY_FLOW_GROUP''),
     (0x935, ''QUERY_FLOW_GROUP''),
     (0x936, ''SET_FLOW_TABLE_ENTRY''),
     (0x937, ''QUERY_FLOW_TABLE_ENTRY''),
     (0x938, ''DELETE_FLOW_TABLE_ENTRY''),
     (0x939, ''ALLOC_FLOW_COUNTER''),
     (0x93A, ''DEALLOC_FLOW_COUNTER''),
     (0x93B, ''QUERY_FLOW_COUNTER''),
     (0x93C, ''MODIFY_FLOW_TABLE''),
     (0x93D, ''ALLOC_PACKET_REFORMAT_CONTEXT''),
     (0x93E, ''DEALLOC_PACKET_REFORMAT_CONTEXT''),
     (0x940, ''ALLOC_MODIFY_HEADER_CONTEXT''),
     (0x941, ''DEALLOC_MODIFY_HEADER_CONTEXT''),
     (0x960, ''FPGA_CREATE_QP''),
     (0x961, ''FPGA_MODIFY_QP''),
     (0x962, ''FPGA_QUERY_QP''),
     (0x964, ''FPGA_QUERY_QP_COUNTERS''),
     (0x963, ''FPGA_DESTROY_QP''),
     (0x717, ''CREATE_XRQ''),
     (0x718, ''DESTROY_XRQ''),
     (0x719, ''QUERY_XRQ''),
     (0x71A, ''ARM_XRQ''),
     (0x720, ''CREATE_NVMF_BACKEND_CTRL''),
     (0x721, ''DESTROY_NVMF_BACKEND_CTRL''),
     (0x722, ''QUERY_NVMF_BACKEND_CTRL''),
     (0x723, ''ATTACH_NVMF_NAMESPACE''),
     (0x724, ''DETACH_NVMF_NAMESPACE''),
     (0x728, ''QUERY_NVMF_NAMESPACE_CONTEXT''),
     (0xA00, ''CREATE_GENERAL_OBJECT''),
     (0xA03, ''DESTROY_GENERAL_OBJECT''),
     (0xA01, ''MODIFY_GENERAL_OBJECT''),
     (0xA02, ''QUERY_GENERAL_OBJECT''),
     (0x942, ''QUERY_MODIFY_HEADER_CONTEXT''),
     (0x205, ''ALLOC_MEMIC''),
     (0x206, ''DEALLOC_MEMIC''),
     (0x740, ''QUERY_ESW_FUNCTIONS''),
     (0xA04, ''CREATE_UCTX''),
     (0xA06, ''DESTROY_UCTX''),
     (0xA08, ''CREATE_UMEM''),
     (0xA0A, ''DESTROY_UMEM''),
     (0x729, ''RELEASE_XRQ_ERROR''),
     (0x72A, ''MODIFY_XRQ''),
     (0x819, ''QUERY_DIAGNOSTIC_PARAMS''),
     (0x820, ''SET_DIAGNOSTIC_PARAMS''),
     (0x821, ''QUERY_DIAGNOSTIC_COUNTERS''),
     (0xB0D, ''QUERY_VHCA_STATE''),
     (0xB0E, ''MODIFY_VHCA_STATE''),
     (0x113, ''ALLOC_SF''),
     (0x114, ''DEALLOC_SF''),
     (0x115, ''SUSPEND_VHCA''),
     (0x116, ''RESUME_VHCA''),
     (0x117, ''QUERY_VHCA_MIGRATION_STATE''),
     (0x118, ''SAVE_VHCA_STATE''),
     (0x119, ''LOAD_VHCA_STATE''),
     (0xB12, ''SYNC_CRYPTO''),
     (0xB16, ''ALLOW_OTHER_VHCA_ACCESS'')]"

definition mlx5_command_str :: "u16 \<Rightarrow> string" where
  "mlx5_command_str command = (case map_of command_names command of Some name \<Rightarrow> name | None \<Rightarrow> ''unknown command opcode'')"

section \<open>Answers in place of the device\<close>

text \<open>The commands that are reported as done when the device is gone, and those that are aborted.\<close>

definition emulated_ok :: "u16 list" where
  "emulated_ok = [
     0x103,  \<comment> \<open>\<open>TEARDOWN_HCA\<close>\<close>
     0x105,  \<comment> \<open>\<open>DISABLE_HCA\<close>\<close>
     0x108,  \<comment> \<open>\<open>MANAGE_PAGES\<close>\<close>
     0x202,  \<comment> \<open>\<open>DESTROY_MKEY\<close>\<close>
     0x302,  \<comment> \<open>\<open>DESTROY_EQ\<close>\<close>
     0x401,  \<comment> \<open>\<open>DESTROY_CQ\<close>\<close>
     0x501,  \<comment> \<open>\<open>DESTROY_QP\<close>\<close>
     0x715,  \<comment> \<open>\<open>SET_DC_CNAK_TRACE\<close>\<close>
     0x601,  \<comment> \<open>\<open>DESTROY_PSV\<close>\<close>
     0x701,  \<comment> \<open>\<open>DESTROY_SRQ\<close>\<close>
     0x706,  \<comment> \<open>\<open>DESTROY_XRC_SRQ\<close>\<close>
     0x718,  \<comment> \<open>\<open>DESTROY_XRQ\<close>\<close>
     0x711,  \<comment> \<open>\<open>DESTROY_DCT\<close>\<close>
     0x772,  \<comment> \<open>\<open>DEALLOC_Q_COUNTER\<close>\<close>
     0x783,  \<comment> \<open>\<open>DESTROY_SCHEDULING_ELEMENT\<close>\<close>
     0x787,  \<comment> \<open>\<open>DESTROY_QOS_PARA_VPORT\<close>\<close>
     0x801,  \<comment> \<open>\<open>DEALLOC_PD\<close>\<close>
     0x803,  \<comment> \<open>\<open>DEALLOC_UAR\<close>\<close>
     0x807,  \<comment> \<open>\<open>DETACH_FROM_MCG\<close>\<close>
     0x80F,  \<comment> \<open>\<open>DEALLOC_XRCD\<close>\<close>
     0x817,  \<comment> \<open>\<open>DEALLOC_TRANSPORT_DOMAIN\<close>\<close>
     0x828,  \<comment> \<open>\<open>DELETE_VXLAN_UDP_DPORT\<close>\<close>
     0x82B,  \<comment> \<open>\<open>DELETE_L2_TABLE_ENTRY\<close>\<close>
     0x843,  \<comment> \<open>\<open>DESTROY_LAG\<close>\<close>
     0x845,  \<comment> \<open>\<open>DESTROY_VPORT_LAG\<close>\<close>
     0x902,  \<comment> \<open>\<open>DESTROY_TIR\<close>\<close>
     0x906,  \<comment> \<open>\<open>DESTROY_SQ\<close>\<close>
     0x90A,  \<comment> \<open>\<open>DESTROY_RQ\<close>\<close>
     0x90E,  \<comment> \<open>\<open>DESTROY_RMP\<close>\<close>
     0x914,  \<comment> \<open>\<open>DESTROY_TIS\<close>\<close>
     0x918,  \<comment> \<open>\<open>DESTROY_RQT\<close>\<close>
     0x931,  \<comment> \<open>\<open>DESTROY_FLOW_TABLE\<close>\<close>
     0x934,  \<comment> \<open>\<open>DESTROY_FLOW_GROUP\<close>\<close>
     0x938,  \<comment> \<open>\<open>DELETE_FLOW_TABLE_ENTRY\<close>\<close>
     0x93A,  \<comment> \<open>\<open>DEALLOC_FLOW_COUNTER\<close>\<close>
     0x721,  \<comment> \<open>\<open>DESTROY_NVMF_BACKEND_CTRL\<close>\<close>
     0x724,  \<comment> \<open>\<open>DETACH_NVMF_NAMESPACE\<close>\<close>
     0x507,  \<comment> \<open>\<open>2ERR_QP\<close>\<close>
     0x50A,  \<comment> \<open>\<open>2RST_QP\<close>\<close>
     0x755,  \<comment> \<open>\<open>MODIFY_NIC_VPORT_CONTEXT\<close>\<close>
     0x93C,  \<comment> \<open>\<open>MODIFY_FLOW_TABLE\<close>\<close>
     0x936,  \<comment> \<open>\<open>SET_FLOW_TABLE_ENTRY\<close>\<close>
     0x92F,  \<comment> \<open>\<open>SET_FLOW_TABLE_ROOT\<close>\<close>
     0x93E,  \<comment> \<open>\<open>DEALLOC_PACKET_REFORMAT_CONTEXT\<close>\<close>
     0x941,  \<comment> \<open>\<open>DEALLOC_MODIFY_HEADER_CONTEXT\<close>\<close>
     0x963,  \<comment> \<open>\<open>FPGA_DESTROY_QP\<close>\<close>
     0xA03,  \<comment> \<open>\<open>DESTROY_GENERAL_OBJECT\<close>\<close>
     0x206,  \<comment> \<open>\<open>DEALLOC_MEMIC\<close>\<close>
     0x204,  \<comment> \<open>\<open>PAGE_FAULT_RESUME\<close>\<close>
     0x740,  \<comment> \<open>\<open>QUERY_ESW_FUNCTIONS\<close>\<close>
     0x114,  \<comment> \<open>\<open>DEALLOC_SF\<close>\<close>
     0x765,  \<comment> \<open>\<open>QUERY_HCA_VPORT_PKEY\<close>\<close>
     0x805,  \<comment> \<open>\<open>ACCESS_REG\<close>\<close>
     0xA06,  \<comment> \<open>\<open>DESTROY_UCTX\<close>\<close>
     0xA0A,  \<comment> \<open>\<open>DESTROY_UMEM\<close>\<close>
     0x917]"  \<comment> \<open>\<open>MODIFY_RQT\<close>\<close>

definition emulated_abort :: "u16 list" where
  "emulated_abort = [
     0x100,  \<comment> \<open>\<open>QUERY_HCA_CAP\<close>\<close>
     0x101,  \<comment> \<open>\<open>QUERY_ADAPTER\<close>\<close>
     0x102,  \<comment> \<open>\<open>INIT_HCA\<close>\<close>
     0x104,  \<comment> \<open>\<open>ENABLE_HCA\<close>\<close>
     0x107,  \<comment> \<open>\<open>QUERY_PAGES\<close>\<close>
     0x109,  \<comment> \<open>\<open>SET_HCA_CAP\<close>\<close>
     0x10A,  \<comment> \<open>\<open>QUERY_ISSI\<close>\<close>
     0x10B,  \<comment> \<open>\<open>SET_ISSI\<close>\<close>
     0x200,  \<comment> \<open>\<open>CREATE_MKEY\<close>\<close>
     0x201,  \<comment> \<open>\<open>QUERY_MKEY\<close>\<close>
     0x203,  \<comment> \<open>\<open>QUERY_SPECIAL_CONTEXTS\<close>\<close>
     0x301,  \<comment> \<open>\<open>CREATE_EQ\<close>\<close>
     0x303,  \<comment> \<open>\<open>QUERY_EQ\<close>\<close>
     0x304,  \<comment> \<open>\<open>GEN_EQE\<close>\<close>
     0x400,  \<comment> \<open>\<open>CREATE_CQ\<close>\<close>
     0x402,  \<comment> \<open>\<open>QUERY_CQ\<close>\<close>
     0x403,  \<comment> \<open>\<open>MODIFY_CQ\<close>\<close>
     0x500,  \<comment> \<open>\<open>CREATE_QP\<close>\<close>
     0x502,  \<comment> \<open>\<open>RST2INIT_QP\<close>\<close>
     0x503,  \<comment> \<open>\<open>INIT2RTR_QP\<close>\<close>
     0x504,  \<comment> \<open>\<open>RTR2RTS_QP\<close>\<close>
     0x505,  \<comment> \<open>\<open>RTS2RTS_QP\<close>\<close>
     0x506,  \<comment> \<open>\<open>SQERR2RTS_QP\<close>\<close>
     0x50B,  \<comment> \<open>\<open>QUERY_QP\<close>\<close>
     0x50C,  \<comment> \<open>\<open>SQD_RTS_QP\<close>\<close>
     0x50E,  \<comment> \<open>\<open>INIT2INIT_QP\<close>\<close>
     0x600,  \<comment> \<open>\<open>CREATE_PSV\<close>\<close>
     0x700,  \<comment> \<open>\<open>CREATE_SRQ\<close>\<close>
     0x702,  \<comment> \<open>\<open>QUERY_SRQ\<close>\<close>
     0x703,  \<comment> \<open>\<open>ARM_RQ\<close>\<close>
     0x705,  \<comment> \<open>\<open>CREATE_XRC_SRQ\<close>\<close>
     0x707,  \<comment> \<open>\<open>QUERY_XRC_SRQ\<close>\<close>
     0x708,  \<comment> \<open>\<open>ARM_XRC_SRQ\<close>\<close>
     0x717,  \<comment> \<open>\<open>CREATE_XRQ\<close>\<close>
     0x719,  \<comment> \<open>\<open>QUERY_XRQ\<close>\<close>
     0x71A,  \<comment> \<open>\<open>ARM_XRQ\<close>\<close>
     0x710,  \<comment> \<open>\<open>CREATE_DCT\<close>\<close>
     0x712,  \<comment> \<open>\<open>DRAIN_DCT\<close>\<close>
     0x713,  \<comment> \<open>\<open>QUERY_DCT\<close>\<close>
     0x714,  \<comment> \<open>\<open>ARM_DCT_FOR_KEY_VIOLATION\<close>\<close>
     0x750,  \<comment> \<open>\<open>QUERY_VPORT_STATE\<close>\<close>
     0x751,  \<comment> \<open>\<open>MODIFY_VPORT_STATE\<close>\<close>
     0x752,  \<comment> \<open>\<open>QUERY_ESW_VPORT_CONTEXT\<close>\<close>
     0x753,  \<comment> \<open>\<open>MODIFY_ESW_VPORT_CONTEXT\<close>\<close>
     0x754,  \<comment> \<open>\<open>QUERY_NIC_VPORT_CONTEXT\<close>\<close>
     0x760,  \<comment> \<open>\<open>QUERY_ROCE_ADDRESS\<close>\<close>
     0x761,  \<comment> \<open>\<open>SET_ROCE_ADDRESS\<close>\<close>
     0x762,  \<comment> \<open>\<open>QUERY_HCA_VPORT_CONTEXT\<close>\<close>
     0x763,  \<comment> \<open>\<open>MODIFY_HCA_VPORT_CONTEXT\<close>\<close>
     0x764,  \<comment> \<open>\<open>QUERY_HCA_VPORT_GID\<close>\<close>
     0x76F,  \<comment> \<open>\<open>QUERY_VNIC_ENV\<close>\<close>
     0x770,  \<comment> \<open>\<open>QUERY_VPORT_COUNTER\<close>\<close>
     0x771,  \<comment> \<open>\<open>ALLOC_Q_COUNTER\<close>\<close>
     0x773,  \<comment> \<open>\<open>QUERY_Q_COUNTER\<close>\<close>
     0x774,  \<comment> \<open>\<open>SET_MONITOR_COUNTER\<close>\<close>
     0x775,  \<comment> \<open>\<open>ARM_MONITOR_COUNTER\<close>\<close>
     0x780,  \<comment> \<open>\<open>SET_PP_RATE_LIMIT\<close>\<close>
     0x781,  \<comment> \<open>\<open>QUERY_RATE_LIMIT\<close>\<close>
     0x782,  \<comment> \<open>\<open>CREATE_SCHEDULING_ELEMENT\<close>\<close>
     0x784,  \<comment> \<open>\<open>QUERY_SCHEDULING_ELEMENT\<close>\<close>
     0x785,  \<comment> \<open>\<open>MODIFY_SCHEDULING_ELEMENT\<close>\<close>
     0x786,  \<comment> \<open>\<open>CREATE_QOS_PARA_VPORT\<close>\<close>
     0x800,  \<comment> \<open>\<open>ALLOC_PD\<close>\<close>
     0x802,  \<comment> \<open>\<open>ALLOC_UAR\<close>\<close>
     0x804,  \<comment> \<open>\<open>CONFIG_INT_MODERATION\<close>\<close>
     0x819,  \<comment> \<open>\<open>QUERY_DIAGNOSTIC_PARAMS\<close>\<close>
     0x820,  \<comment> \<open>\<open>SET_DIAGNOSTIC_PARAMS\<close>\<close>
     0x821,  \<comment> \<open>\<open>QUERY_DIAGNOSTIC_COUNTERS\<close>\<close>
     0x806,  \<comment> \<open>\<open>ATTACH_TO_MCG\<close>\<close>
     0x80A,  \<comment> \<open>\<open>GET_DROPPED_PACKET_LOG\<close>\<close>
     0x50D,  \<comment> \<open>\<open>MAD_IFC\<close>\<close>
     0x80B,  \<comment> \<open>\<open>QUERY_MAD_DEMUX\<close>\<close>
     0x80C,  \<comment> \<open>\<open>SET_MAD_DEMUX\<close>\<close>
     0x80D,  \<comment> \<open>\<open>NOP\<close>\<close>
     0x80E,  \<comment> \<open>\<open>ALLOC_XRCD\<close>\<close>
     0x816,  \<comment> \<open>\<open>ALLOC_TRANSPORT_DOMAIN\<close>\<close>
     0x822,  \<comment> \<open>\<open>QUERY_CONG_STATUS\<close>\<close>
     0x823,  \<comment> \<open>\<open>MODIFY_CONG_STATUS\<close>\<close>
     0x824,  \<comment> \<open>\<open>QUERY_CONG_PARAMS\<close>\<close>
     0x825,  \<comment> \<open>\<open>MODIFY_CONG_PARAMS\<close>\<close>
     0x826,  \<comment> \<open>\<open>QUERY_CONG_STATISTICS\<close>\<close>
     0x827,  \<comment> \<open>\<open>ADD_VXLAN_UDP_DPORT\<close>\<close>
     0x829,  \<comment> \<open>\<open>SET_L2_TABLE_ENTRY\<close>\<close>
     0x82A,  \<comment> \<open>\<open>QUERY_L2_TABLE_ENTRY\<close>\<close>
     0x840,  \<comment> \<open>\<open>CREATE_LAG\<close>\<close>
     0x841,  \<comment> \<open>\<open>MODIFY_LAG\<close>\<close>
     0x842,  \<comment> \<open>\<open>QUERY_LAG\<close>\<close>
     0x844,  \<comment> \<open>\<open>CREATE_VPORT_LAG\<close>\<close>
     0x900,  \<comment> \<open>\<open>CREATE_TIR\<close>\<close>
     0x901,  \<comment> \<open>\<open>MODIFY_TIR\<close>\<close>
     0x903,  \<comment> \<open>\<open>QUERY_TIR\<close>\<close>
     0x904,  \<comment> \<open>\<open>CREATE_SQ\<close>\<close>
     0x905,  \<comment> \<open>\<open>MODIFY_SQ\<close>\<close>
     0x907,  \<comment> \<open>\<open>QUERY_SQ\<close>\<close>
     0x908,  \<comment> \<open>\<open>CREATE_RQ\<close>\<close>
     0x909,  \<comment> \<open>\<open>MODIFY_RQ\<close>\<close>
     0x90B,  \<comment> \<open>\<open>QUERY_RQ\<close>\<close>
     0x90C,  \<comment> \<open>\<open>CREATE_RMP\<close>\<close>
     0x90D,  \<comment> \<open>\<open>MODIFY_RMP\<close>\<close>
     0x90F,  \<comment> \<open>\<open>QUERY_RMP\<close>\<close>
     0x912,  \<comment> \<open>\<open>CREATE_TIS\<close>\<close>
     0x913,  \<comment> \<open>\<open>MODIFY_TIS\<close>\<close>
     0x915,  \<comment> \<open>\<open>QUERY_TIS\<close>\<close>
     0x916,  \<comment> \<open>\<open>CREATE_RQT\<close>\<close>
     0x919,  \<comment> \<open>\<open>QUERY_RQT\<close>\<close>
     0x720,  \<comment> \<open>\<open>CREATE_NVMF_BACKEND_CTRL\<close>\<close>
     0x722,  \<comment> \<open>\<open>QUERY_NVMF_BACKEND_CTRL\<close>\<close>
     0x723,  \<comment> \<open>\<open>ATTACH_NVMF_NAMESPACE\<close>\<close>
     0x728,  \<comment> \<open>\<open>QUERY_NVMF_NAMESPACE_CONTEXT\<close>\<close>
     0x930,  \<comment> \<open>\<open>CREATE_FLOW_TABLE\<close>\<close>
     0x932,  \<comment> \<open>\<open>QUERY_FLOW_TABLE\<close>\<close>
     0x933,  \<comment> \<open>\<open>CREATE_FLOW_GROUP\<close>\<close>
     0x935,  \<comment> \<open>\<open>QUERY_FLOW_GROUP\<close>\<close>
     0x937,  \<comment> \<open>\<open>QUERY_FLOW_TABLE_ENTRY\<close>\<close>
     0x939,  \<comment> \<open>\<open>ALLOC_FLOW_COUNTER\<close>\<close>
     0x93B,  \<comment> \<open>\<open>QUERY_FLOW_COUNTER\<close>\<close>
     0x93D,  \<comment> \<open>\<open>ALLOC_PACKET_REFORMAT_CONTEXT\<close>\<close>
     0x940,  \<comment> \<open>\<open>ALLOC_MODIFY_HEADER_CONTEXT\<close>\<close>
     0x960,  \<comment> \<open>\<open>FPGA_CREATE_QP\<close>\<close>
     0x961,  \<comment> \<open>\<open>FPGA_MODIFY_QP\<close>\<close>
     0x962,  \<comment> \<open>\<open>FPGA_QUERY_QP\<close>\<close>
     0x964,  \<comment> \<open>\<open>FPGA_QUERY_QP_COUNTERS\<close>\<close>
     0xA00,  \<comment> \<open>\<open>CREATE_GENERAL_OBJECT\<close>\<close>
     0xA01,  \<comment> \<open>\<open>MODIFY_GENERAL_OBJECT\<close>\<close>
     0xA02,  \<comment> \<open>\<open>QUERY_GENERAL_OBJECT\<close>\<close>
     0xA04,  \<comment> \<open>\<open>CREATE_UCTX\<close>\<close>
     0xA08,  \<comment> \<open>\<open>CREATE_UMEM\<close>\<close>
     0x205,  \<comment> \<open>\<open>ALLOC_MEMIC\<close>\<close>
     0x72A,  \<comment> \<open>\<open>MODIFY_XRQ\<close>\<close>
     0x729,  \<comment> \<open>\<open>RELEASE_XRQ_ERROR\<close>\<close>
     0xB0D,  \<comment> \<open>\<open>QUERY_VHCA_STATE\<close>\<close>
     0xB0E,  \<comment> \<open>\<open>MODIFY_VHCA_STATE\<close>\<close>
     0x113,  \<comment> \<open>\<open>ALLOC_SF\<close>\<close>
     0x115,  \<comment> \<open>\<open>SUSPEND_VHCA\<close>\<close>
     0x116,  \<comment> \<open>\<open>RESUME_VHCA\<close>\<close>
     0x117,  \<comment> \<open>\<open>QUERY_VHCA_MIGRATION_STATE\<close>\<close>
     0x118,  \<comment> \<open>\<open>SAVE_VHCA_STATE\<close>\<close>
     0x119,  \<comment> \<open>\<open>LOAD_VHCA_STATE\<close>\<close>
     0xB12,  \<comment> \<open>\<open>SYNC_CRYPTO\<close>\<close>
     0xB16]"  \<comment> \<open>\<open>ALLOW_OTHER_VHCA_ACCESS\<close>\<close>

definition MLX5_DRIVER_STATUS_ABORTED :: u8 where "MLX5_DRIVER_STATUS_ABORTED = 0xFE"
definition MLX5_DRIVER_SYND :: u32 where "MLX5_DRIVER_SYND = 0xBADD00DE"

text \<open>The error, the syndrome and the status.\<close>

definition mlx5_internal_err_ret_value :: "u16 \<Rightarrow> errno option \<times> u32 \<times> u8" where
  "mlx5_internal_err_ret_value op =
     (if op \<in> set emulated_ok then (None, 0, 0)
      else if op \<in> set emulated_abort then (Some (EFW 67), MLX5_DRIVER_SYND, MLX5_DRIVER_STATUS_ABORTED)  \<comment> \<open>\<open>-ENOLINK\<close>\<close>
      else (Some EINVAL, 0, 0))"

section \<open>Status codes\<close>

definition cmd_status_errs :: "(u8 \<times> errno option) list" where
  "cmd_status_errs = [
     (0x0, None),  \<comment> \<open>\<open>MLX5_CMD_STAT_OK\<close>\<close>
     (0x1, Some (EFW 5)),  \<comment> \<open>\<open>MLX5_CMD_STAT_INT_ERR\<close>\<close>
     (0x2, Some EINVAL),  \<comment> \<open>\<open>MLX5_CMD_STAT_BAD_OP_ERR\<close>\<close>
     (0x3, Some EINVAL),  \<comment> \<open>\<open>MLX5_CMD_STAT_BAD_PARAM_ERR\<close>\<close>
     (0x4, Some (EFW 5)),  \<comment> \<open>\<open>MLX5_CMD_STAT_BAD_SYS_STATE_ERR\<close>\<close>
     (0x5, Some EINVAL),  \<comment> \<open>\<open>MLX5_CMD_STAT_BAD_RES_ERR\<close>\<close>
     (0x6, Some (EFW 16)),  \<comment> \<open>\<open>MLX5_CMD_STAT_RES_BUSY\<close>\<close>
     (0x8, Some ENOMEM),  \<comment> \<open>\<open>MLX5_CMD_STAT_LIM_ERR\<close>\<close>
     (0x9, Some EINVAL),  \<comment> \<open>\<open>MLX5_CMD_STAT_BAD_RES_STATE_ERR\<close>\<close>
     (0xA, Some EINVAL),  \<comment> \<open>\<open>MLX5_CMD_STAT_IX_ERR\<close>\<close>
     (0xF, Some (EFW 11)),  \<comment> \<open>\<open>MLX5_CMD_STAT_NO_RES_ERR\<close>\<close>
     (0x50, Some (EFW 5)),  \<comment> \<open>\<open>MLX5_CMD_STAT_BAD_INP_LEN_ERR\<close>\<close>
     (0x51, Some (EFW 5)),  \<comment> \<open>\<open>MLX5_CMD_STAT_BAD_OUTP_LEN_ERR\<close>\<close>
     (0x10, Some EINVAL),  \<comment> \<open>\<open>MLX5_CMD_STAT_BAD_QP_STATE_ERR\<close>\<close>
     (0x30, Some EINVAL),  \<comment> \<open>\<open>MLX5_CMD_STAT_BAD_PKT_ERR\<close>\<close>
     (0x40, Some EINVAL)]"  \<comment> \<open>\<open>MLX5_CMD_STAT_BAD_SIZE_OUTS_CQES_ERR\<close>\<close>

definition cmd_status_to_err :: "u8 \<Rightarrow> errno option" where
  "cmd_status_to_err status = (case map_of cmd_status_errs status of Some e \<Rightarrow> e | None \<Rightarrow> Some (EFW 5))"

definition cmd_status_strs :: "(u8 \<times> string) list" where
  "cmd_status_strs = [
     (0x0, ''OK''),
     (0x1, ''internal error''),
     (0x2, ''bad operation''),
     (0x3, ''bad parameter''),
     (0x4, ''bad system state''),
     (0x5, ''bad resource''),
     (0x6, ''resource busy''),
     (0x8, ''limits exceeded''),
     (0x9, ''bad resource state''),
     (0xA, ''bad index''),
     (0xF, ''no resources''),
     (0x50, ''bad input length''),
     (0x51, ''bad output length''),
     (0x10, ''bad QP state''),
     (0x30, ''bad packet (discarded)''),
     (0x40, ''bad size too many outstanding CQEs'')]"

definition cmd_status_str :: "u8 \<Rightarrow> string" where
  "cmd_status_str status = (case map_of cmd_status_strs status of Some s \<Rightarrow> s | None \<Rightarrow> ''unknown status'')"

definition deliv_status_errs :: "(u8 \<times> errno option) list" where
  "deliv_status_errs = [
     (0x0, None),  \<comment> \<open>\<open>MLX5_CMD_DELIVERY_STAT_OK\<close>\<close>
     (0xFE, None),  \<comment> \<open>\<open>MLX5_DRIVER_STATUS_ABORTED\<close>\<close>
     (0x1, Some (EFW 53)),  \<comment> \<open>\<open>MLX5_CMD_DELIVERY_STAT_SIGNAT_ERR\<close>\<close>
     (0x2, Some (EFW 53)),  \<comment> \<open>\<open>MLX5_CMD_DELIVERY_STAT_TOK_ERR\<close>\<close>
     (0x3, Some (EFW 14)),  \<comment> \<open>\<open>MLX5_CMD_DELIVERY_STAT_BAD_BLK_NUM_ERR\<close>\<close>
     (0x4, Some (EFW 14)),  \<comment> \<open>\<open>MLX5_CMD_DELIVERY_STAT_OUT_PTR_ALIGN_ERR\<close>\<close>
     (0x5, Some (EFW 14)),  \<comment> \<open>\<open>MLX5_CMD_DELIVERY_STAT_IN_PTR_ALIGN_ERR\<close>\<close>
     (0x7, Some (EFW 42)),  \<comment> \<open>\<open>MLX5_CMD_DELIVERY_STAT_IN_LENGTH_ERR\<close>\<close>
     (0x8, Some (EFW 42)),  \<comment> \<open>\<open>MLX5_CMD_DELIVERY_STAT_OUT_LENGTH_ERR\<close>\<close>
     (0x10, Some (EFW 42)),  \<comment> \<open>\<open>MLX5_CMD_DELIVERY_STAT_CMD_DESCR_ERR\<close>\<close>
     (0x9, Some (EFW 42)),  \<comment> \<open>\<open>MLX5_CMD_DELIVERY_STAT_RES_FLD_NOT_CLR_ERR\<close>\<close>
     (0x6, Some (EFW 5))]"  \<comment> \<open>\<open>MLX5_CMD_DELIVERY_STAT_FW_ERR\<close>\<close>

definition deliv_status_to_err :: "u8 \<Rightarrow> errno option" where
  "deliv_status_to_err status = (case map_of deliv_status_errs status of Some e \<Rightarrow> e | None \<Rightarrow> Some EINVAL)"

definition deliv_status_strs :: "(u8 \<times> string) list" where
  "deliv_status_strs = [
     (0x0, ''no errors''),
     (0x1, ''signature error''),
     (0x2, ''token error''),
     (0x3, ''bad block number''),
     (0x4, ''output pointer not aligned to block size''),
     (0x5, ''input pointer not aligned to block size''),
     (0x6, ''firmware internal error''),
     (0x7, ''command input length error''),
     (0x8, ''command output length error''),
     (0x9, ''reserved fields not cleared''),
     (0x10, ''bad command descriptor type'')]"

definition deliv_status_to_str :: "u8 \<Rightarrow> string" where
  "deliv_status_to_str status = (case map_of deliv_status_strs status of Some s \<Rightarrow> s | None \<Rightarrow> ''unknown status code'')"

section \<open>The tables agree\<close>

text \<open>The commands that release something, by their names.\<close>

definition teardown_prefixes :: "string list" where
  "teardown_prefixes = [''DESTROY_'', ''DEALLOC_'', ''DELETE_'', ''DETACH_'', ''DISABLE_'', ''TEARDOWN_'', ''FPGA_DESTROY_'']"

definition is_teardown :: "u16 \<Rightarrow> bool" where
  "is_teardown op \<longleftrightarrow> (\<exists>p\<in>set teardown_prefixes. take (length p) (mlx5_command_str op) = p)"

lemma teardown_ops:
  "map fst (filter (\<lambda>(op, name). \<exists>p\<in>set teardown_prefixes. take (length p) name = p) command_names) =
     [0x103, 0x105, 0x202, 0x302, 0x401, 0x501, 0x601, 0x701, 0x706, 0x711, 0x772, 0x783,
      0x787, 0x801, 0x803, 0x807, 0x80F, 0x817, 0x828, 0x82B, 0x843, 0x845, 0x902, 0x906,
      0x90A, 0x90E, 0x914, 0x918, 0x931, 0x934, 0x938, 0x93A, 0x93E, 0x941, 0x963, 0x718,
      0x721, 0x724, 0xA03, 0x206, 0xA06, 0xA0A, 0x114]"
  by code_simp

lemma teardown_ok: "set [0x103, 0x105, 0x202, 0x302, 0x401, 0x501, 0x601, 0x701, 0x706, 0x711, 0x772, 0x783,
      0x787, 0x801, 0x803, 0x807, 0x80F, 0x817, 0x828, 0x82B, 0x843, 0x845, 0x902, 0x906,
      0x90A, 0x90E, 0x914, 0x918, 0x931, 0x934, 0x938, 0x93A, 0x93E, 0x941, 0x963, 0x718,
      0x721, 0x724, 0xA03, 0x206, 0xA06, 0xA0A, 0x114] \<subseteq> set emulated_ok"
  by (simp add: emulated_ok_def)

lemma teardown_emulated:
  assumes "is_teardown op"
  shows "mlx5_internal_err_ret_value op = (None, 0, 0)"
proof (cases "map_of command_names op")
  case None
  with assms have "\<exists>p\<in>set teardown_prefixes. take (length p) ''unknown command opcode'' = p"
    by (simp add: is_teardown_def mlx5_command_str_def)
  then show ?thesis by (simp add: teardown_prefixes_def)
next
  case (Some name)
  then have "(op, name) \<in> set command_names" by (rule map_of_SomeD)
  moreover have "\<exists>p\<in>set teardown_prefixes. take (length p) name = p"
    using assms Some by (simp add: is_teardown_def mlx5_command_str_def)
  ultimately have "op \<in> set (map fst (filter (\<lambda>(op, name). \<exists>p\<in>set teardown_prefixes. take (length p) name = p) command_names))"
    by force
  then have "op \<in> set emulated_ok" using teardown_ok unfolding teardown_ops by blast
  then show ?thesis by (simp add: mlx5_internal_err_ret_value_def)
qed

end
