(* ===== verification/Cmd_Msg.thy ===== *)
theory Cmd_Msg
  imports Cmd_Tables
begin

text \<open>
  The messages of the firmware command interface (\<open>drivers/net/ethernet/mellanox/mlx5/core/cmd.c\<close>): a command is
  16 bytes in the queue entry and a chain of mailboxes of 512 data bytes each. This theory has the
  mailbox chains, the copies into and out of them, the checksums, the caches of input messages, the
  queue entry the device reads, and \<open>cmd_exec\<close> with the functions above it.

  Correspondence.
  \<^item> A mailbox is the 576 bytes of \<open>struct mlx5_cmd_prot_block\<close>: data at 0, \<open>rsvd0\<close> at 512, \<open>next\<close> at 560,
    \<open>block_num\<close> at 568, \<open>rsvd1\<close> at 572, \<open>token\<close> at 573, \<open>ctrl_sig\<close> at 574, \<open>sig\<close> at 575. A chain of mailboxes linked
    by \<open>next\<close> is a list; the \<open>next\<close> field in the block has the bus address of the next mailbox for the device.
  \<^item> The queue entry is the 64 bytes of \<open>struct mlx5_cmd_layout\<close>.
  \<^item> \<open>cmd_mem\<close> counts the messages and mailboxes that are allocated, so that leaks show.
  \<^item> The kernel's allocator, the state of the device and \<open>mlx5_cmd_invoke\<close>, which hands the entry to the
    device and waits for it, are arguments.
\<close>

section \<open>Memory\<close>

definition poke :: "nat \<Rightarrow> u8 list \<Rightarrow> u8 list \<Rightarrow> u8 list" where
  "poke off bs buf = take off buf @ bs @ drop (off + length bs) buf"

lemma length_poke [simp]: "off + length bs \<le> length buf \<Longrightarrow> length (poke off bs buf) = length buf"
  by (simp add: poke_def)

lemma nth_poke:
  assumes "off + length bs \<le> length buf" "i < length buf"
  shows "poke off bs buf ! i = (if off \<le> i \<and> i < off + length bs then bs ! (i - off) else buf ! i)"
  using assms by (auto simp: poke_def nth_append min_def)

section \<open>Messages\<close>

definition MLX5_CMD_DATA_BLOCK_SIZE :: nat where "MLX5_CMD_DATA_BLOCK_SIZE = 512"
definition prot_block_size :: nat where "prot_block_size = 576"
definition off_rsvd0 :: nat where "off_rsvd0 = 512"
definition off_next :: nat where "off_next = 560"
definition off_block_num :: nat where "off_block_num = 568"
definition off_token :: nat where "off_token = 573"
definition off_ctrl_sig :: nat where "off_ctrl_sig = 574"
definition off_sig :: nat where "off_sig = 575"

record mlx5_cmd_mailbox =
  mb_buf :: "u8 list"
  mb_dma :: u64

record mlx5_cmd_msg =
  cm_parent :: "nat option"
  cm_len :: nat
  cm_first :: "u8 list"
  cm_next :: "mlx5_cmd_mailbox list"

definition mlx5_calc_cmd_blocks :: "mlx5_cmd_msg \<Rightarrow> nat" where
  "mlx5_calc_cmd_blocks msg =
     (let len = cm_len msg; blen = len - min 16 len
      in (blen + (MLX5_CMD_DATA_BLOCK_SIZE - 1)) div MLX5_CMD_DATA_BLOCK_SIZE)"

text \<open>The loop of \<open>mlx5_copy_to_msg\<close> over the chain.\<close>

fun copy_to_boxes :: "u8 list \<Rightarrow> u8 \<Rightarrow> mlx5_cmd_mailbox list \<Rightarrow> errno option \<times> mlx5_cmd_mailbox list" where
  "copy_to_boxes from token [] = (if from = [] then None else Some ENOMEM, [])"
| "copy_to_boxes from token (next # rest) =
     (if from = [] then (None, next # rest)
      else let copy = min (length from) MLX5_CMD_DATA_BLOCK_SIZE;
               block = poke 0 (take copy from) (mb_buf next);
               block = poke off_token [token] block;
               (err, rest') = copy_to_boxes (drop copy from) token rest
           in (err, next\<lparr>mb_buf := block\<rparr> # rest'))"

text \<open>\<open>from\<close> has the \<open>size\<close> bytes of the caller.\<close>

definition mlx5_copy_to_msg :: "mlx5_cmd_msg option \<Rightarrow> u8 list option \<Rightarrow> u8 \<Rightarrow> errno option \<times> mlx5_cmd_msg option" where
  "mlx5_copy_to_msg to from token =
     (case (to, from) of
        (Some msg, Some bytes) \<Rightarrow>
          let copy = min (length bytes) 16;
              (err, boxes) = copy_to_boxes (drop copy bytes) token (cm_next msg)
          in (err, Some (msg\<lparr>cm_first := poke 0 (take copy bytes) (cm_first msg), cm_next := boxes\<rparr>))
      | _ \<Rightarrow> (Some ENOMEM, to))"

text \<open>The bytes written to the caller's buffer come back on both exits.\<close>

fun copy_from_boxes :: "nat \<Rightarrow> mlx5_cmd_mailbox list \<Rightarrow> errno option \<times> u8 list" where
  "copy_from_boxes sz [] = (if sz = 0 then None else Some ENOMEM, [])"
| "copy_from_boxes sz (next # rest) =
     (if sz = 0 then (None, [])
      else let copy = min sz MLX5_CMD_DATA_BLOCK_SIZE;
               (err, bytes) = copy_from_boxes (sz - copy) rest
           in (err, take copy (mb_buf next) @ bytes))"

definition mlx5_copy_from_msg :: "mlx5_cmd_msg option \<Rightarrow> nat \<Rightarrow> errno option \<times> u8 list" where
  "mlx5_copy_from_msg from sz =
     (case from of
        None \<Rightarrow> (Some ENOMEM, [])
      | Some msg \<Rightarrow>
          let copy = min sz 16;
              (err, bytes) = copy_from_boxes (sz - copy) (cm_next msg)
          in (err, take copy (cm_first msg) @ bytes))"

section \<open>Checksums\<close>

definition xor8_buf :: "u8 list \<Rightarrow> nat \<Rightarrow> nat \<Rightarrow> u8" where
  "xor8_buf buf offset len = fold (\<lambda>b sum. sum XOR b) (take len (drop offset buf)) 0"

definition verify_block_sig :: "u8 list \<Rightarrow> errno option" where
  "verify_block_sig block =
     (let xor_len = prot_block_size - MLX5_CMD_DATA_BLOCK_SIZE - 1 in
      if xor8_buf block off_rsvd0 xor_len \<noteq> 0xFF then Some (EFW 133)  \<comment> \<open>\<open>-EHWPOISON\<close>\<close>
      else if xor8_buf block 0 prot_block_size \<noteq> 0xFF then Some (EFW 133)
      else None)"

definition calc_block_sig :: "u8 list \<Rightarrow> u8 list" where
  "calc_block_sig block =
     (let ctrl_xor_len = prot_block_size - MLX5_CMD_DATA_BLOCK_SIZE - 2;
          block = poke off_ctrl_sig [NOT (xor8_buf block off_rsvd0 ctrl_xor_len)] block
      in poke off_sig [NOT (xor8_buf block 0 (prot_block_size - 1))] block)"

definition calc_chain_sig :: "mlx5_cmd_msg \<Rightarrow> mlx5_cmd_msg" where
  "calc_chain_sig msg =
     (let n = mlx5_calc_cmd_blocks msg
      in msg\<lparr>cm_next := map (\<lambda>mb. mb\<lparr>mb_buf := calc_block_sig (mb_buf mb)\<rparr>) (take n (cm_next msg)) @ drop n (cm_next msg)\<rparr>)"

text \<open>The queue entry: \<open>type\<close> at 0, \<open>inlen\<close> at 4, \<open>in_ptr\<close> at 8, \<open>in\<close> at 16, \<open>out\<close> at 32, \<open>out_ptr\<close> at 48, \<open>outlen\<close> at 56,
  \<open>token\<close> at 60, \<open>sig\<close> at 61, \<open>status_own\<close> at 63.\<close>

definition cmd_layout_size :: nat where "cmd_layout_size = 64"
definition off_lay_sig :: nat where "off_lay_sig = 61"

text \<open>The part of \<open>cmd_work_handler\<close> that fills the entry, before \<open>set_signature\<close>.\<close>

definition fill_layout :: "u8 \<Rightarrow> mlx5_cmd_msg \<Rightarrow> mlx5_cmd_msg \<Rightarrow> u8 list" where
  "fill_layout token inb outb =
     (let lay = replicate cmd_layout_size 0;
          lay = poke 16 (take 16 (cm_first inb)) lay;
          lay = (case cm_next inb of [] \<Rightarrow> lay | mb # _ \<Rightarrow> poke 8 (be_bytes 8 (mb_dma mb)) lay);
          lay = poke 4 (be_bytes 4 (word_of_nat (cm_len inb) :: u32)) lay;
          lay = (case cm_next outb of [] \<Rightarrow> lay | mb # _ \<Rightarrow> poke 48 (be_bytes 8 (mb_dma mb)) lay);
          lay = poke 56 (be_bytes 4 (word_of_nat (cm_len outb) :: u32)) lay;
          lay = poke 0 [7] lay;  \<comment> \<open>\<open>MLX5_PCI_CMD_XPORT\<close>\<close>
          lay = poke 60 [token] lay
      in poke 63 [1] lay)"  \<comment> \<open>\<open>CMD_OWNER_HW\<close>\<close>

definition set_signature :: "bool \<Rightarrow> u8 list \<Rightarrow> mlx5_cmd_msg \<Rightarrow> mlx5_cmd_msg \<Rightarrow> u8 list \<times> mlx5_cmd_msg \<times> mlx5_cmd_msg" where
  "set_signature csum lay inb outb =
     (let lay = poke off_lay_sig [NOT (xor8_buf lay 0 cmd_layout_size)] lay
      in if csum then (lay, calc_chain_sig inb, calc_chain_sig outb) else (lay, inb, outb))"

fun verify_boxes :: "nat \<Rightarrow> mlx5_cmd_mailbox list \<Rightarrow> errno option" where
  "verify_boxes 0 next = None"
| "verify_boxes n [] = None"
| "verify_boxes (Suc n) (mb # next) = (if verify_block_sig (mb_buf mb) \<noteq> None then Some (EFW 133) else verify_boxes n next)"

definition verify_signature :: "u8 list \<Rightarrow> mlx5_cmd_msg \<Rightarrow> errno option" where
  "verify_signature lay outb =
     (if xor8_buf lay 0 cmd_layout_size \<noteq> 0xFF then Some (EFW 133)
      else verify_boxes (mlx5_calc_cmd_blocks outb) (cm_next outb))"

section \<open>Allocation\<close>

record cmd_mem =
  mem_msgs :: int
  mem_boxes :: int

definition alloc_cmd_box :: "bool \<times> u64 option \<Rightarrow> cmd_mem \<Rightarrow> mlx5_cmd_mailbox result \<times> cmd_mem" where
  "alloc_cmd_box env mem =
     (let (kmalloc_ok, pool) = env in
      if \<not> kmalloc_ok then (Inl ENOMEM, mem)
      else case pool of
             None \<Rightarrow> (Inl ENOMEM, mem)
           | Some dma \<Rightarrow> (Inr \<lparr>mb_buf = replicate prot_block_size 0, mb_dma = dma\<rparr>, mem\<lparr>mem_boxes := mem_boxes mem + 1\<rparr>))"

definition free_cmd_box :: "cmd_mem \<Rightarrow> cmd_mem" where
  "free_cmd_box mem = mem\<lparr>mem_boxes := mem_boxes mem - 1\<rparr>"

fun free_boxes :: "mlx5_cmd_mailbox list \<Rightarrow> cmd_mem \<Rightarrow> cmd_mem" where
  "free_boxes [] mem = mem"
| "free_boxes (head # next) mem = free_boxes next (free_cmd_box mem)"

text \<open>The loop of \<open>mlx5_alloc_cmd_msg\<close>, over the numbers of its iterations; the chain grows at the front.\<close>

fun alloc_boxes ::
  "(nat \<Rightarrow> bool \<times> u64 option) \<Rightarrow> u8 \<Rightarrow> nat \<Rightarrow> nat list \<Rightarrow> mlx5_cmd_mailbox list \<Rightarrow> cmd_mem \<Rightarrow>
   mlx5_cmd_mailbox list result \<times> cmd_mem" where
  "alloc_boxes env token n [] head mem = (Inr head, mem)"
| "alloc_boxes env token n (i # is) head mem =
     (case alloc_cmd_box (env i) mem of
        (Inl e, mem) \<Rightarrow> (Inl e, free_boxes head mem)
      | (Inr tmp, mem) \<Rightarrow>
          let block = poke off_next (be_bytes 8 (case head of [] \<Rightarrow> 0 | mb # _ \<Rightarrow> mb_dma mb)) (mb_buf tmp);
              block = poke off_block_num (be_bytes 4 (word_of_nat (n - i - 1) :: u32)) block;
              block = poke off_token [token] block
          in alloc_boxes env token n is (tmp\<lparr>mb_buf := block\<rparr> # head) mem)"

definition mlx5_alloc_cmd_msg ::
  "bool \<Rightarrow> (nat \<Rightarrow> bool \<times> u64 option) \<Rightarrow> nat \<Rightarrow> u8 \<Rightarrow> cmd_mem \<Rightarrow> mlx5_cmd_msg result \<times> cmd_mem" where
  "mlx5_alloc_cmd_msg kzalloc_ok env sz token mem =
     (if \<not> kzalloc_ok then (Inl ENOMEM, mem)
      else let mem = mem\<lparr>mem_msgs := mem_msgs mem + 1\<rparr>;
               msg = \<lparr>cm_parent = None, cm_len = sz, cm_first = replicate 16 0, cm_next = []\<rparr>;
               n = mlx5_calc_cmd_blocks msg
           in (case alloc_boxes env token n [0..<n] [] mem of
                 (Inl e, mem) \<Rightarrow> (Inl e, mem\<lparr>mem_msgs := mem_msgs mem - 1\<rparr>)
               | (Inr head, mem) \<Rightarrow> (Inr (msg\<lparr>cm_next := head\<rparr>), mem)))"

definition mlx5_free_cmd_msg :: "mlx5_cmd_msg \<Rightarrow> cmd_mem \<Rightarrow> cmd_mem" where
  "mlx5_free_cmd_msg msg mem = (free_boxes (cm_next msg) mem)\<lparr>mem_msgs := mem_msgs (free_boxes (cm_next msg) mem) - 1\<rparr>"

section \<open>The caches of input messages\<close>

record cmd_msg_cache =
  ch_head :: "mlx5_cmd_msg list"
  max_inbox_size :: nat
  ch_miss :: nat
  total_commands :: nat
  ch_free :: int

record mlx5_cmd =
  cmd_cache :: "cmd_msg_cache list"
  real_miss :: nat
  cmd_token :: u8
  throttle_sem :: nat
  cmd_memory :: cmd_mem

text \<open>The loop of \<open>alloc_msg\<close>, with its two flags.\<close>

fun cache_scan :: "nat \<Rightarrow> bool \<Rightarrow> bool \<Rightarrow> cmd_msg_cache list \<Rightarrow> mlx5_cmd_msg option \<times> cmd_msg_cache list" where
  "cache_scan in_size total_accounted miss_accounted [] = (None, [])"
| "cache_scan in_size total_accounted miss_accounted (ch # rest) =
     (if in_size > max_inbox_size ch
      then let (msg, rest') = cache_scan in_size total_accounted miss_accounted rest in (msg, ch # rest')
      else let ch = (if \<not> total_accounted then ch\<lparr>total_commands := total_commands ch + 1\<rparr> else ch) in
        (case ch_head ch of
           [] \<Rightarrow>
             let ch = (if \<not> miss_accounted then ch\<lparr>ch_miss := ch_miss ch + 1\<rparr> else ch);
                 (msg, rest') = cache_scan in_size True True rest
             in (msg, ch # rest')
         | msg # msgs \<Rightarrow> (Some (msg\<lparr>cm_len := in_size\<rparr>), ch\<lparr>ch_head := msgs, ch_free := ch_free ch - 1\<rparr> # rest)))"

definition alloc_msg :: "bool \<Rightarrow> (nat \<Rightarrow> bool \<times> u64 option) \<Rightarrow> nat \<Rightarrow> mlx5_cmd \<Rightarrow> mlx5_cmd_msg result \<times> mlx5_cmd" where
  "alloc_msg kz env in_size cmd =
     (let (found, caches) = (if in_size \<le> 16 then (None, cmd_cache cmd) else cache_scan in_size False False (cmd_cache cmd));
          cmd = cmd\<lparr>cmd_cache := caches\<rparr> in
      case found of
        Some msg \<Rightarrow> (Inr msg, cmd)
      | None \<Rightarrow>
          let cmd = (if in_size > 16 then cmd\<lparr>real_miss := real_miss cmd + 1\<rparr> else cmd);
              (r, mem) = mlx5_alloc_cmd_msg kz env in_size 0 (cmd_memory cmd)
          in (r, cmd\<lparr>cmd_memory := mem\<rparr>))"

definition free_msg :: "mlx5_cmd_msg \<Rightarrow> mlx5_cmd \<Rightarrow> mlx5_cmd" where
  "free_msg msg cmd =
     (case cm_parent msg of
        Some k \<Rightarrow>
          let ch = cmd_cache cmd ! k
          in cmd\<lparr>cmd_cache := (cmd_cache cmd)[k := ch\<lparr>ch_head := ch_head ch @ [msg], ch_free := ch_free ch + 1\<rparr>]\<rparr>
      | None \<Rightarrow> cmd\<lparr>cmd_memory := mlx5_free_cmd_msg msg (cmd_memory cmd)\<rparr>)"

definition cmd_cache_num_ent :: "nat list" where "cmd_cache_num_ent = [512, 32, 16, 8, 2]"

definition cmd_cache_ent_size :: "nat list" where
  "cmd_cache_ent_size = [16 + MLX5_CMD_DATA_BLOCK_SIZE, 16 + MLX5_CMD_DATA_BLOCK_SIZE * 2, 16 + MLX5_CMD_DATA_BLOCK_SIZE * 16,
     16 + MLX5_CMD_DATA_BLOCK_SIZE * 256, 16 + MLX5_CMD_DATA_BLOCK_SIZE * 512]"

text \<open>The filling of cache \<open>k\<close> ends with the first failed allocation.\<close>

fun fill_cache :: "nat \<Rightarrow> (bool \<times> (nat \<Rightarrow> bool \<times> u64 option)) list \<Rightarrow> cmd_msg_cache \<Rightarrow> cmd_mem \<Rightarrow> cmd_msg_cache \<times> cmd_mem" where
  "fill_cache k [] ch mem = (ch, mem)"
| "fill_cache k ((kz, env) # envs) ch mem =
     (case mlx5_alloc_cmd_msg kz env (max_inbox_size ch) 0 mem of
        (Inl e, mem) \<Rightarrow> (ch, mem)
      | (Inr msg, mem) \<Rightarrow>
          fill_cache k envs (ch\<lparr>ch_free := ch_free ch + 1, ch_head := ch_head ch @ [msg\<lparr>cm_parent := Some k\<rparr>]\<rparr>) mem)"

text \<open>The environment of cache \<open>k\<close> has an element for each of its entries.\<close>

fun create_caches ::
  "(nat \<Rightarrow> nat \<Rightarrow> bool \<times> (nat \<Rightarrow> bool \<times> u64 option)) \<Rightarrow> nat \<Rightarrow> (nat \<times> nat) list \<Rightarrow> cmd_mem \<Rightarrow> cmd_msg_cache list \<times> cmd_mem" where
  "create_caches env k [] mem = ([], mem)"
| "create_caches env k ((num, len) # rest) mem =
     (let ch = \<lparr>ch_head = [], max_inbox_size = len, ch_miss = 0, total_commands = 0, ch_free = 0\<rparr>;
          (ch, mem) = fill_cache k (map (env k) [0..<num]) ch mem;
          (chs, mem) = create_caches env (Suc k) rest mem
      in (ch # chs, mem))"

definition create_msg_cache ::
  "bool \<Rightarrow> nat \<Rightarrow> (nat \<Rightarrow> nat \<Rightarrow> bool \<times> (nat \<Rightarrow> bool \<times> u64 option)) \<Rightarrow> mlx5_cmd \<Rightarrow> mlx5_cmd" where
  "create_msg_cache is_sf num_cmd_caches env cmd =
     (if is_sf then cmd
      else let (chs, mem) = create_caches env 0 (take num_cmd_caches (zip cmd_cache_num_ent cmd_cache_ent_size)) (cmd_memory cmd)
           in cmd\<lparr>cmd_cache := chs, cmd_memory := mem\<rparr>)"

fun destroy_caches :: "cmd_msg_cache list \<Rightarrow> cmd_mem \<Rightarrow> cmd_msg_cache list \<times> cmd_mem" where
  "destroy_caches [] mem = ([], mem)"
| "destroy_caches (ch # chs) mem =
     (let (chs', mem') = destroy_caches chs (fold mlx5_free_cmd_msg (ch_head ch) mem)
      in (ch\<lparr>ch_head := [], ch_free := ch_free ch - int (length (ch_head ch))\<rparr> # chs', mem'))"

definition destroy_msg_cache :: "bool \<Rightarrow> mlx5_cmd \<Rightarrow> mlx5_cmd" where
  "destroy_msg_cache is_sf cmd =
     (if is_sf then cmd
      else let (chs, mem) = destroy_caches (cmd_cache cmd) (cmd_memory cmd) in cmd\<lparr>cmd_cache := chs, cmd_memory := mem\<rparr>)"

section \<open>Executing a command\<close>

text \<open>The opcode is in the first two bytes of the input, the status in the first byte and the syndrome in
  bytes 4 to 7 of the output.\<close>

definition in_to_opcode :: "u8 list \<Rightarrow> u16" where
  "in_to_opcode inp = push_bit 8 (ucast (inp ! 0)) OR ucast (inp ! 1)"

definition mlx5_cmd_is_throttle_opcode :: "u16 \<Rightarrow> bool" where
  "mlx5_cmd_is_throttle_opcode op \<longleftrightarrow> op \<in> {0xA00, 0xA03, 0xA01, 0xA02, 0xB12}"

definition is_manage_pages :: "u8 list \<Rightarrow> bool" where
  "is_manage_pages inp \<longleftrightarrow> in_to_opcode inp = 0x108"

definition alloc_token :: "mlx5_cmd \<Rightarrow> u8 \<times> mlx5_cmd" where
  "alloc_token cmd =
     (let token = cmd_token cmd + 1;
          token = (if token = 0 then token + 1 else token)
      in (token, cmd\<lparr>cmd_token := token\<rparr>))"

text \<open>The state of the device, the allocations of the two messages, and \<open>mlx5_cmd_invoke\<close>: it gets both
  messages, the token and the queue, and gives an error or a delivery status, and the output message.\<close>

record cmd_env =
  cmd_down :: bool
  op_allowed :: "u16 \<Rightarrow> bool"
  in_alloc :: "bool \<times> (nat \<Rightarrow> bool \<times> u64 option)"
  out_alloc :: "bool \<times> (nat \<Rightarrow> bool \<times> u64 option)"
  invoke :: "mlx5_cmd_msg \<Rightarrow> mlx5_cmd_msg \<Rightarrow> u8 \<Rightarrow> bool \<Rightarrow> (errno + u8) \<times> mlx5_cmd_msg"

text \<open>\<open>out0\<close> is the caller's output buffer before the call. \<open>None\<close> is a caller that waits for the throttle
  semaphore.\<close>

definition cmd_exec ::
  "cmd_env \<Rightarrow> u8 list \<Rightarrow> u8 list \<Rightarrow> bool \<Rightarrow> mlx5_cmd \<Rightarrow> (errno option \<times> u8 list \<times> mlx5_cmd) option" where
  "cmd_exec env inp out0 callback cmd =
     (let opcode = in_to_opcode inp;
          throttle_op = mlx5_cmd_is_throttle_opcode opcode in
      if cmd_down env \<or> \<not> op_allowed env opcode then Some (Some (EFW 6), out0, cmd)  \<comment> \<open>\<open>-ENXIO\<close>\<close>
      else if throttle_op \<and> callback then Some (Some EINVAL, out0, cmd)
      else if throttle_op \<and> throttle_sem cmd = 0 then None
      else
        let cmd = (if throttle_op then cmd\<lparr>throttle_sem := throttle_sem cmd - 1\<rparr> else cmd);
            up = (\<lambda>cmd. if throttle_op then cmd\<lparr>throttle_sem := throttle_sem cmd + 1\<rparr> else cmd) in
        (case alloc_msg (fst (in_alloc env)) (snd (in_alloc env)) (length inp) cmd of
           (Inl e, cmd) \<Rightarrow> Some (Some e, out0, up cmd)
         | (Inr inb, cmd) \<Rightarrow>
             let (token, cmd) = alloc_token cmd in
             (case mlx5_copy_to_msg (Some inb) (Some inp) token of
                (Some e, _) \<Rightarrow> Some (Some e, out0, up (free_msg inb cmd))
              | (None, copied) \<Rightarrow>
                  let inb = the copied in
                  (case mlx5_alloc_cmd_msg (fst (out_alloc env)) (snd (out_alloc env)) (length out0) token (cmd_memory cmd) of
                     (Inl e, mem) \<Rightarrow> Some (Some e, out0, up (free_msg inb (cmd\<lparr>cmd_memory := mem\<rparr>)))
                   | (Inr outb, mem) \<Rightarrow>
                       let cmd = cmd\<lparr>cmd_memory := mem\<rparr>;
                           (res, outb) = invoke env inb outb token (is_manage_pages inp);
                           err = (case res of Inl e \<Rightarrow> Some e | Inr st \<Rightarrow> if st \<noteq> 0 then deliv_status_to_err st else None) in
                       if callback then Some (case res of Inl e \<Rightarrow> Some e | Inr _ \<Rightarrow> None, out0, cmd)
                       else let (err, out) = (if err \<noteq> None then (err, out0) else mlx5_copy_from_msg (Some outb) (length out0));
                                cmd = cmd\<lparr>cmd_memory := mlx5_free_cmd_msg outb (cmd_memory cmd)\<rparr>
                            in Some (err, out, up (free_msg inb cmd))))))"

definition out_status :: "u8 list \<Rightarrow> u8" where "out_status out = out ! 0"

definition cmd_status_err :: "errno option \<Rightarrow> u8 list \<Rightarrow> errno option" where
  "cmd_status_err err out =
     (let err = (if err = Some (EFW 121) then Some (EFW 5) else err)  \<comment> \<open>\<open>-EREMOTEIO\<close> and \<open>-EIO\<close>\<close>
      in if err = None \<and> out_status out \<noteq> 0 then Some (EFW 121) else err)"

definition mlx5_cmd_do :: "cmd_env \<Rightarrow> u8 list \<Rightarrow> u8 list \<Rightarrow> mlx5_cmd \<Rightarrow> (errno option \<times> u8 list \<times> mlx5_cmd) option" where
  "mlx5_cmd_do env inp out0 cmd =
     map_option (\<lambda>(err, out, cmd). (cmd_status_err err out, out, cmd)) (cmd_exec env inp out0 False cmd)"

definition mlx5_cmd_check :: "errno option \<Rightarrow> u8 list \<Rightarrow> u8 list \<Rightarrow> errno option \<times> u8 list" where
  "mlx5_cmd_check err inp out =
     (let aborted = (err = Some (EFW 6));
          (err', synd, status) = mlx5_internal_err_ret_value (in_to_opcode inp);
          out = (if aborted then poke 4 (be_bytes 4 synd) (poke 0 [status] out) else out);
          err = (if aborted then err' else err) in
      if aborted \<and> err = None then (None, out)
      else if err \<noteq> Some (EFW 121) \<and> err \<noteq> None then (err, out)
      else (cmd_status_to_err (out_status out), out))"

definition mlx5_cmd_exec :: "cmd_env \<Rightarrow> u8 list \<Rightarrow> u8 list \<Rightarrow> mlx5_cmd \<Rightarrow> (errno option \<times> u8 list \<times> mlx5_cmd) option" where
  "mlx5_cmd_exec env inp out0 cmd =
     map_option (\<lambda>(err, out, cmd). let (err, out) = mlx5_cmd_check err inp out in (err, out, cmd)) (mlx5_cmd_do env inp out0 cmd)"

section \<open>Copying\<close>

definition box_wf :: "mlx5_cmd_mailbox \<Rightarrow> bool" where
  "box_wf mb \<longleftrightarrow> length (mb_buf mb) = prot_block_size"

definition msg_wf :: "mlx5_cmd_msg \<Rightarrow> bool" where
  "msg_wf msg \<longleftrightarrow> length (cm_first msg) = 16 \<and> list_all box_wf (cm_next msg)"

lemmas block_defs = prot_block_size_def MLX5_CMD_DATA_BLOCK_SIZE_def off_rsvd0_def off_next_def off_block_num_def
  off_token_def off_ctrl_sig_def off_sig_def

lemma take_poke_data:
  assumes "length buf = prot_block_size" "length bs \<le> MLX5_CMD_DATA_BLOCK_SIZE"
  shows "take (length bs) (poke off_token [t] (poke 0 bs buf)) = bs"
  using assms by (simp add: poke_def block_defs min_def)

lemma copy_to_boxes_shape:
  assumes "list_all box_wf boxes" "copy_to_boxes from token boxes = (err, boxes')"
  shows "list_all box_wf boxes' \<and> map mb_dma boxes' = map mb_dma boxes \<and>
    (err = None \<longleftrightarrow> length from \<le> MLX5_CMD_DATA_BLOCK_SIZE * length boxes) \<and> (err \<noteq> None \<longrightarrow> err = Some ENOMEM)"
  using assms
proof (induction boxes arbitrary: "from" boxes' err)
  case (Cons mb boxes)
  show ?case
  proof (cases "from = []")
    case False
    obtain e rest where r: "copy_to_boxes (drop (min (length from) MLX5_CMD_DATA_BLOCK_SIZE) from) token boxes = (e, rest)"
      by (cases "copy_to_boxes (drop (min (length from) MLX5_CMD_DATA_BLOCK_SIZE) from) token boxes")
    from Cons.IH [OF _ r] Cons.prems False r show ?thesis by (auto simp: Let_def box_wf_def block_defs min_def)
  qed (use Cons.prems in auto)
qed (auto split: if_splits)

lemma copy_boxes_roundtrip:
  assumes "list_all box_wf boxes" "copy_to_boxes from token boxes = (None, boxes')"
  shows "copy_from_boxes (length from) boxes' = (None, from)"
  using assms
proof (induction boxes arbitrary: "from" boxes')
  case (Cons mb boxes)
  show ?case
  proof (cases "from = []")
    case False
    let ?c = "min (length from) MLX5_CMD_DATA_BLOCK_SIZE"
    obtain rest where r: "copy_to_boxes (drop ?c from) token boxes = (None, rest)"
        "boxes' = mb\<lparr>mb_buf := poke off_token [token] (poke 0 (take ?c from) (mb_buf mb))\<rparr> # rest"
      using Cons.prems False by (cases "copy_to_boxes (drop ?c from) token boxes") (auto simp: Let_def)
    have "copy_from_boxes (length from - ?c) rest = (None, drop ?c from)" using Cons.IH [OF _ r(1)] Cons.prems(1) by simp
    moreover have "take ?c (poke off_token [token] (poke 0 (take ?c from) (mb_buf mb))) = take ?c from"
    proof -
      have l: "length (take ?c from) = ?c" "?c \<le> MLX5_CMD_DATA_BLOCK_SIZE" by simp_all
      show ?thesis using take_poke_data [of "mb_buf mb" "take ?c from" token] Cons.prems(1) unfolding l(1) by (simp add: box_wf_def)
    qed
    ultimately show ?thesis using False by (simp add: r(2) Let_def)
  qed (use Cons.prems in auto)
qed (auto split: if_splits)

lemma copy_to_msg_shape:
  assumes "msg_wf msg" "mlx5_copy_to_msg (Some msg) (Some bytes) token = (err, to)"
  obtains msg' where "to = Some msg'" "msg_wf msg'" "cm_parent msg' = cm_parent msg" "cm_len msg' = cm_len msg"
    "length (cm_next msg') = length (cm_next msg)" "err = None \<longleftrightarrow> length bytes \<le> 16 + MLX5_CMD_DATA_BLOCK_SIZE * length (cm_next msg)"
    "err \<noteq> None \<longrightarrow> err = Some ENOMEM"
proof -
  let ?c = "min (length bytes) 16"
  obtain e boxes where b: "copy_to_boxes (drop ?c bytes) token (cm_next msg) = (e, boxes)"
    by (cases "copy_to_boxes (drop ?c bytes) token (cm_next msg)")
  have shape: "list_all box_wf boxes \<and> map mb_dma boxes = map mb_dma (cm_next msg) \<and>
    (e = None \<longleftrightarrow> length (drop ?c bytes) \<le> MLX5_CMD_DATA_BLOCK_SIZE * length (cm_next msg)) \<and> (e \<noteq> None \<longrightarrow> e = Some ENOMEM)"
    by (rule copy_to_boxes_shape [OF _ b]) (use assms(1) in \<open>simp add: msg_wf_def\<close>)
  then have len: "length boxes = length (cm_next msg)" by (metis length_map)
  let ?m = "msg\<lparr>cm_first := poke 0 (take ?c bytes) (cm_first msg), cm_next := boxes\<rparr>"
  have res: "err = e" "to = Some ?m" using assms(2) b by (simp_all add: mlx5_copy_to_msg_def Let_def)
  have "msg_wf ?m" using assms(1) shape by (simp add: msg_wf_def)
  moreover have "err = None \<longleftrightarrow> length bytes \<le> 16 + MLX5_CMD_DATA_BLOCK_SIZE * length (cm_next msg)"
    using shape by (auto simp: res(1))
  moreover have "err \<noteq> None \<longrightarrow> err = Some ENOMEM" using shape by (simp only: res(1)) blast
  ultimately show thesis by (intro that [OF res(2)]) (simp_all add: len)
qed

lemma copy_msg_roundtrip:
  assumes "msg_wf msg" "mlx5_copy_to_msg (Some msg) (Some bytes) token = (None, to)"
  shows "mlx5_copy_from_msg to (length bytes) = (None, bytes)"
proof -
  let ?c = "min (length bytes) 16"
  obtain boxes where b: "copy_to_boxes (drop ?c bytes) token (cm_next msg) = (None, boxes)"
      "to = Some (msg\<lparr>cm_first := poke 0 (take ?c bytes) (cm_first msg), cm_next := boxes\<rparr>)"
    using assms(2) by (cases "copy_to_boxes (drop ?c bytes) token (cm_next msg)") (auto simp: mlx5_copy_to_msg_def Let_def)
  have "copy_from_boxes (length bytes - ?c) boxes = (None, drop ?c bytes)"
    using copy_boxes_roundtrip [OF _ b(1)] assms(1) by (simp add: msg_wf_def)
  moreover have "take ?c (poke 0 (take ?c bytes) (cm_first msg)) = take ?c bytes" by (simp add: poke_def min_def)
  ultimately show ?thesis by (simp add: b(2) mlx5_copy_from_msg_def Let_def)
qed

section \<open>Checksums\<close>

lemma fold_xor_start: "fold (\<lambda>b sum. sum XOR b) bs (s XOR t) = fold (\<lambda>b sum. sum XOR b) bs s XOR (t :: u8)"
proof (induction bs arbitrary: s)
  case (Cons a bs)
  have "(s XOR t) XOR a = (s XOR a) XOR t" by (simp add: ac_simps)
  then show ?case using Cons.IH [of "s XOR a"] by simp
qed simp

lemma fold_xor: "fold (\<lambda>b sum. sum XOR b) bs s = fold (\<lambda>b sum. sum XOR b) bs 0 XOR (s :: u8)"
  using fold_xor_start [of bs 0 s] by simp

lemma xor8_all: "xor8_buf buf 0 (length buf) = fold (\<lambda>b sum. sum XOR b) buf 0"
  by (simp add: xor8_buf_def)

lemma fold_xor_update:
  assumes "i < length bs"
  shows "fold (\<lambda>b sum. sum XOR b) (bs[i := v]) 0 = fold (\<lambda>b sum. sum XOR b) bs 0 XOR (bs ! i) XOR (v :: u8)"
proof -
  have "fold (\<lambda>b sum. sum XOR b) (take i bs @ w # drop (Suc i) bs) 0 =
      fold (\<lambda>b sum. sum XOR b) (drop (Suc i) bs) 0 XOR (fold (\<lambda>b sum. sum XOR b) (take i bs) 0 XOR w)" for w
    using fold_xor [of "drop (Suc i) bs" "fold (\<lambda>b sum. sum XOR b) (take i bs) 0 XOR w"] by simp
  note this [of v] this [of "bs ! i"]
  moreover have "bs[i := v] = take i bs @ v # drop (Suc i) bs" using assms by (simp add: upd_conv_take_nth_drop)
  moreover have "bs = take i bs @ bs ! i # drop (Suc i) bs" using assms by (simp add: id_take_nth_drop)
  ultimately show ?thesis by (metis (no_types, lifting) xor.assoc xor.commute xor_self_eq xor.right_neutral)
qed

lemma xor8_split:
  assumes "off + n < length buf"
  shows "xor8_buf buf off (Suc n) = xor8_buf buf off n XOR buf ! (off + n)"
  using assms by (simp add: xor8_buf_def take_Suc_conv_app_nth)

lemma xor8_poke:
  assumes "off + n \<le> p" "p < length buf"
  shows "xor8_buf (poke p [v] buf) off n = xor8_buf buf off n"
proof -
  have "take n (drop off (poke p [v] buf)) = take n (drop off buf)"
    using assms by (auto simp: poke_def drop_take min_def)
  then show ?thesis by (simp add: xor8_buf_def)
qed

lemma xor8_sealed:
  assumes "off + n < length buf"
  shows "xor8_buf (poke (off + n) [NOT (xor8_buf buf off n)] buf) off (Suc n) = 0xFF"
proof -
  have "xor8_buf (poke (off + n) [NOT (xor8_buf buf off n)] buf) off (Suc n) = xor8_buf buf off n XOR NOT (xor8_buf buf off n)"
    using assms xor8_split [of off n "poke (off + n) [NOT (xor8_buf buf off n)] buf"] xor8_poke [of off n "off + n" buf]
    by (simp add: nth_poke)
  also have "\<dots> = - 1" by (simp add: bit.xor_compl_right)
  finally show ?thesis by simp
qed

lemma calc_block_sig_length: "length b = prot_block_size \<Longrightarrow> length (calc_block_sig b) = prot_block_size"
  by (simp add: calc_block_sig_def Let_def block_defs)

lemma calc_verify_block:
  assumes "length b = prot_block_size"
  shows "verify_block_sig (calc_block_sig b) = None"
proof -
  define b1 where "b1 = poke 574 [NOT (xor8_buf b 512 62)] b"
  define b2 where "b2 = poke 575 [NOT (xor8_buf b1 0 575)] b1"
  have len: "length b = 576" "length b1 = 576" using assms by (simp_all add: b1_def block_defs)
  have "xor8_buf b1 512 63 = 0xFF" using xor8_sealed [of 512 62 b] len by (simp add: b1_def)
  then have "xor8_buf b2 512 63 = 0xFF" using xor8_poke [of 512 63 575 b1] len by (simp add: b2_def)
  moreover have "xor8_buf b2 0 576 = 0xFF" using xor8_sealed [of 0 575 b1] len by (simp add: b2_def)
  ultimately show ?thesis by (simp add: verify_block_sig_def calc_block_sig_def Let_def block_defs flip: b1_def b2_def)
qed

lemma verify_block_detects:
  assumes "length b = prot_block_size" "verify_block_sig b = None" "i < prot_block_size" "v \<noteq> b ! i"
  shows "verify_block_sig (b[i := v]) \<noteq> None"
proof -
  have "xor8_buf b 0 prot_block_size = 0xFF" using assms(2) by (auto simp: verify_block_sig_def Let_def split: if_splits)
  moreover have "xor8_buf (b[i := v]) 0 prot_block_size = xor8_buf b 0 prot_block_size XOR b ! i XOR v"
    using fold_xor_update [of i b v] assms(1,3) by (simp add: xor8_buf_def)
  moreover have "a XOR x XOR y = a \<Longrightarrow> y = x" for a x y :: u8
    by (metis xor.assoc xor.right_neutral xor.left_neutral xor_self_eq)
  ultimately have "xor8_buf (b[i := v]) 0 prot_block_size \<noteq> 0xFF" using assms(4) by metis
  then show ?thesis by (simp add: verify_block_sig_def Let_def)
qed

lemma verify_boxes_signed:
  assumes "list_all box_wf boxes"
  shows "verify_boxes n (map (\<lambda>mb. mb\<lparr>mb_buf := calc_block_sig (mb_buf mb)\<rparr>) (take n boxes) @ drop n boxes) = None"
  using assms
proof (induction n arbitrary: boxes)
  case (Suc n)
  then show ?case by (cases boxes) (auto simp: calc_verify_block box_wf_def)
qed simp

section \<open>Messages and mailboxes in use\<close>

definition blocks :: "nat \<Rightarrow> nat" where
  "blocks len = (len - min 16 len + (MLX5_CMD_DATA_BLOCK_SIZE - 1)) div MLX5_CMD_DATA_BLOCK_SIZE"

lemma blocks_enough: "len \<le> 16 + MLX5_CMD_DATA_BLOCK_SIZE * blocks len"
proof -
  have "x \<le> 512 * ((x + 511) div 512)" for x :: nat
    using mult_div_mod_eq [of 512 "x + 511"] mod_less_divisor [of 512 "x + 511"] by linarith
  from this [of "len - 16"] show ?thesis by (auto simp: blocks_def MLX5_CMD_DATA_BLOCK_SIZE_def min_def)
qed

lemma blocks_mono: "m \<le> n \<Longrightarrow> blocks m \<le> blocks n"
  by (auto simp: blocks_def MLX5_CMD_DATA_BLOCK_SIZE_def min_def intro!: div_le_mono)

lemma calc_cmd_blocks_eq: "mlx5_calc_cmd_blocks msg = blocks (cm_len msg)"
  by (simp add: mlx5_calc_cmd_blocks_def blocks_def Let_def)

lemma free_boxes_mem: "free_boxes bs mem = mem\<lparr>mem_boxes := mem_boxes mem - int (length bs)\<rparr>"
  by (induction bs arbitrary: mem) (simp_all add: free_cmd_box_def)

lemma alloc_boxes_mem:
  assumes "list_all box_wf head" "alloc_boxes env token n is head mem = (r, mem')"
  shows "case r of Inl e \<Rightarrow> e = ENOMEM \<and> mem' = mem\<lparr>mem_boxes := mem_boxes mem - int (length head)\<rparr>
    | Inr bs \<Rightarrow> length bs = length is + length head \<and> list_all box_wf bs \<and> mem' = mem\<lparr>mem_boxes := mem_boxes mem + int (length is)\<rparr>"
  using assms
proof (induction "is" arbitrary: head mem)
  case (Cons i "is")
  show ?case
  proof (cases "alloc_cmd_box (env i) mem")
    case (Pair a mem1)
    show ?thesis
    proof (cases a)
      case (Inl e)
      have "e = ENOMEM" "mem1 = mem" using Pair Inl by (auto simp: alloc_cmd_box_def Let_def split: prod.splits option.splits if_splits)
      then show ?thesis using Cons.prems Pair Inl by (auto simp: free_boxes_mem)
    next
      case (Inr tmp)
      have t: "box_wf tmp" "mem1 = mem\<lparr>mem_boxes := mem_boxes mem + 1\<rparr>"
        using Pair Inr by (auto simp: alloc_cmd_box_def Let_def box_wf_def split: prod.splits option.splits if_splits)
      define blk where "blk = poke off_token [token] (poke off_block_num (be_bytes 4 (word_of_nat (n - i - 1) :: u32))
        (poke off_next (be_bytes 8 (case head of [] \<Rightarrow> 0 | mb # _ \<Rightarrow> mb_dma mb)) (mb_buf tmp)))"
      have "box_wf (tmp\<lparr>mb_buf := blk\<rparr>)" using t(1) by (simp add: box_wf_def blk_def block_defs)
      moreover have "alloc_boxes env token n is (tmp\<lparr>mb_buf := blk\<rparr> # head) mem1 = (r, mem')"
        using Cons.prems(2) Pair Inr by (simp add: Let_def blk_def)
      ultimately show ?thesis using Cons.IH [of "tmp\<lparr>mb_buf := blk\<rparr> # head" mem1] Cons.prems(1) t(2)
        by (auto split: sum.splits)
    qed
  qed
qed (auto split: sum.splits)

lemma alloc_cmd_msg_mem:
  assumes "mlx5_alloc_cmd_msg kz env sz token mem = (r, mem')"
  shows "case r of Inl e \<Rightarrow> e = ENOMEM \<and> mem' = mem
    | Inr msg \<Rightarrow> msg_wf msg \<and> cm_parent msg = None \<and> cm_len msg = sz \<and> length (cm_next msg) = blocks sz \<and>
        mem_msgs mem' = mem_msgs mem + 1 \<and> mem_boxes mem' = mem_boxes mem + int (blocks sz)"
proof (cases kz)
  case True
  define msg where "msg = \<lparr>cm_parent = None, cm_len = sz, cm_first = replicate 16 (0::u8), cm_next = []\<rparr>"
  define mem1 where "mem1 = mem\<lparr>mem_msgs := mem_msgs mem + 1\<rparr>"
  obtain r1 mem2 where a: "alloc_boxes env token (blocks sz) [0..<blocks sz] [] mem1 = (r1, mem2)"
    by (cases "alloc_boxes env token (blocks sz) [0..<blocks sz] [] mem1")
  have n: "mlx5_calc_cmd_blocks msg = blocks sz" by (simp add: calc_cmd_blocks_eq msg_def)
  have eq: "mlx5_alloc_cmd_msg kz env sz token mem =
      (case r1 of Inl e \<Rightarrow> (Inl e, mem2\<lparr>mem_msgs := mem_msgs mem2 - 1\<rparr>) | Inr head \<Rightarrow> (Inr (msg\<lparr>cm_next := head\<rparr>), mem2))"
    using True a n by (simp add: mlx5_alloc_cmd_msg_def Let_def flip: msg_def mem1_def)
  show ?thesis
    using alloc_boxes_mem [OF _ a] assms unfolding eq by (auto simp: msg_wf_def msg_def mem1_def split: sum.splits)
qed (use assms in \<open>auto simp: mlx5_alloc_cmd_msg_def\<close>)

lemma free_cmd_msg_mem:
  "mlx5_free_cmd_msg msg mem = mem\<lparr>mem_boxes := mem_boxes mem - int (length (cm_next msg)), mem_msgs := mem_msgs mem - 1\<rparr>"
  by (simp add: mlx5_free_cmd_msg_def free_boxes_mem)

text \<open>A message of cache \<open>k\<close> whose entries are for inputs of \<open>len\<close> bytes, and the state of the caches.\<close>

definition cached_ok :: "nat \<Rightarrow> nat \<Rightarrow> mlx5_cmd_msg \<Rightarrow> bool" where
  "cached_ok k len msg \<longleftrightarrow> cm_parent msg = Some k \<and> msg_wf msg \<and> length (cm_next msg) = blocks len"

definition cache_ok :: "nat \<Rightarrow> cmd_msg_cache \<Rightarrow> bool" where
  "cache_ok k ch \<longleftrightarrow> ch_free ch = int (length (ch_head ch)) \<and> (\<forall>msg\<in>set (ch_head ch). cached_ok k (max_inbox_size ch) msg)"

fun caches_ok :: "nat \<Rightarrow> cmd_msg_cache list \<Rightarrow> bool" where
  "caches_ok k [] \<longleftrightarrow> True"
| "caches_ok k (ch # chs) \<longleftrightarrow> cache_ok k ch \<and> caches_ok (Suc k) chs"

definition cmd_inv :: "mlx5_cmd \<Rightarrow> bool" where
  "cmd_inv cmd \<longleftrightarrow> caches_ok 0 (cmd_cache cmd)"

text \<open>What is allocated and not in a cache.\<close>

definition cached_msgs :: "cmd_msg_cache list \<Rightarrow> nat" where
  "cached_msgs chs = sum_list (map (\<lambda>ch. length (ch_head ch)) chs)"

definition cached_boxes :: "cmd_msg_cache list \<Rightarrow> nat" where
  "cached_boxes chs = sum_list (map (\<lambda>ch. sum_list (map (\<lambda>m. length (cm_next m)) (ch_head ch))) chs)"

definition msgs_out :: "mlx5_cmd \<Rightarrow> int" where
  "msgs_out cmd = mem_msgs (cmd_memory cmd) - int (cached_msgs (cmd_cache cmd))"

definition boxes_out :: "mlx5_cmd \<Rightarrow> int" where
  "boxes_out cmd = mem_boxes (cmd_memory cmd) - int (cached_boxes (cmd_cache cmd))"

lemmas cache_sums = cached_msgs_def cached_boxes_def

text \<open>A message that came from \<open>alloc_msg\<close>: it can go back where it came from.\<close>

definition msg_fits :: "mlx5_cmd_msg \<Rightarrow> cmd_msg_cache list \<Rightarrow> bool" where
  "msg_fits msg chs \<longleftrightarrow> msg_wf msg \<and> (case cm_parent msg of None \<Rightarrow> True
     | Some k \<Rightarrow> k < length chs \<and> length (cm_next msg) = blocks (max_inbox_size (chs ! k)))"

lemma caches_ok_nth: "caches_ok k chs \<longleftrightarrow> (\<forall>j<length chs. cache_ok (k + j) (chs ! j))"
proof (induction chs arbitrary: k)
  case (Cons ch chs)
  then show ?case by (auto simp: All_less_Suc2)
qed simp

lemma cache_scan_spec:
  assumes "caches_ok k chs" "cache_scan sz tot mis chs = (found, chs')"
  shows "caches_ok k chs' \<and> map max_inbox_size chs' = map max_inbox_size chs \<and>
    (case found of
       None \<Rightarrow> cached_msgs chs' = cached_msgs chs \<and> cached_boxes chs' = cached_boxes chs
     | Some msg \<Rightarrow> cached_msgs chs = cached_msgs chs' + 1 \<and> cached_boxes chs = cached_boxes chs' + length (cm_next msg) \<and>
         cm_len msg = sz \<and> msg_wf msg \<and> sz \<le> 16 + MLX5_CMD_DATA_BLOCK_SIZE * length (cm_next msg) \<and>
         (\<exists>j<length chs. cm_parent msg = Some (k + j) \<and> length (cm_next msg) = blocks (max_inbox_size (chs ! j))))"
  using assms
proof (induction chs arbitrary: k tot mis chs' found)
  case (Cons ch chs)
  define ch1 where "ch1 = (if \<not> tot then ch\<lparr>total_commands := total_commands ch + 1\<rparr> else ch)"
  have ch1: "ch_head ch1 = ch_head ch" "max_inbox_size ch1 = max_inbox_size ch" "ch_free ch1 = ch_free ch" by (simp_all add: ch1_def)
  have ok: "cache_ok k ch" "caches_ok (Suc k) chs" using Cons.prems(1) by auto
  have later: "\<exists>j<length (ch # chs). cm_parent msg = Some (k + j) \<and> length (cm_next msg) = blocks (max_inbox_size ((ch # chs) ! j))"
    if "j < length chs" "cm_parent msg = Some (Suc k + j)" "length (cm_next msg) = blocks (max_inbox_size (chs ! j))" for msg j
    using that by (intro exI [of _ "Suc j"]) simp
  show ?case
  proof (cases "sz > max_inbox_size ch")
    case True
    obtain f rest where r: "cache_scan sz tot mis chs = (f, rest)" by (cases "cache_scan sz tot mis chs")
    then have "found = f" "chs' = ch # rest" using Cons.prems(2) True by simp_all
    with Cons.IH [OF ok(2) r] ok(1) later show ?thesis
      by (auto simp: cache_sums split: option.splits)
  next
    case small: False
    show ?thesis
    proof (cases "ch_head ch")
      case Nil
      define ch2 where "ch2 = (if \<not> mis then ch1\<lparr>ch_miss := ch_miss ch1 + 1\<rparr> else ch1)"
      have ch2: "ch_head ch2 = []" "max_inbox_size ch2 = max_inbox_size ch" "ch_free ch2 = ch_free ch" by (simp_all add: ch2_def ch1 Nil)
      obtain f rest where r: "cache_scan sz True True chs = (f, rest)" by (cases "cache_scan sz True True chs")
      have "found = f" "chs' = ch2 # rest" using Cons.prems(2) small Nil r ch1(1) by (simp_all add: Let_def flip: ch1_def ch2_def)
      with Cons.IH [OF ok(2) r] ok(1) later Nil ch2 show ?thesis
        by (auto simp: cache_sums cache_ok_def split: option.splits)
    next
      case (Cons msg msgs)
      have f: "found = Some (msg\<lparr>cm_len := sz\<rparr>)" "chs' = ch1\<lparr>ch_head := msgs, ch_free := ch_free ch1 - 1\<rparr> # chs"
        using Cons.prems(2) small Cons ch1(1) by (simp_all add: Let_def flip: ch1_def)
      have m: "cached_ok k (max_inbox_size ch) msg" using ok(1) Cons by (simp add: cache_ok_def)
      have "sz \<le> 16 + MLX5_CMD_DATA_BLOCK_SIZE * length (cm_next msg)"
        using small blocks_enough [of sz] blocks_mono [of sz "max_inbox_size ch"] m
        by (auto simp: cached_ok_def intro: order_trans)
      then show ?thesis using f m ok Cons ch1 by (auto simp: cache_sums cache_ok_def cached_ok_def msg_wf_def)
    qed
  qed
qed simp

text \<open>Two states between which \<open>dm\<close> messages and \<open>db\<close> mailboxes left the caches and the pool.\<close>

definition took :: "int \<Rightarrow> int \<Rightarrow> mlx5_cmd \<Rightarrow> mlx5_cmd \<Rightarrow> bool" where
  "took dm db cmd cmd' \<longleftrightarrow> cmd_inv cmd' \<and> msgs_out cmd' = msgs_out cmd + dm \<and> boxes_out cmd' = boxes_out cmd + db \<and>
     throttle_sem cmd' = throttle_sem cmd \<and> map max_inbox_size (cmd_cache cmd') = map max_inbox_size (cmd_cache cmd)"

lemma took_trans: "took a b x y \<Longrightarrow> took c d y z \<Longrightarrow> took (a + c) (b + d) x z"
  by (simp add: took_def)

lemma msg_fits_cong: "map max_inbox_size chs' = map max_inbox_size chs \<Longrightarrow> msg_fits msg chs' = msg_fits msg chs"
  by (auto simp: msg_fits_def split: option.splits dest: map_eq_imp_length_eq) (metis map_eq_imp_length_eq nth_map)+

lemma alloc_msg_took:
  assumes inv: "cmd_inv cmd" and run: "alloc_msg kz env sz cmd = (r, cmd')"
  shows "case r of Inl e \<Rightarrow> took 0 0 cmd cmd'
    | Inr msg \<Rightarrow> took 1 (int (length (cm_next msg))) cmd cmd' \<and> msg_fits msg (cmd_cache cmd') \<and>
        sz \<le> 16 + MLX5_CMD_DATA_BLOCK_SIZE * length (cm_next msg)"
proof -
  obtain found chs where scan: "(if sz \<le> 16 then (None, cmd_cache cmd) else cache_scan sz False False (cmd_cache cmd)) = (found, chs)"
    by (cases "if sz \<le> 16 then (None, cmd_cache cmd) else cache_scan sz False False (cmd_cache cmd)")
  define c1 where "c1 = (if sz > 16 then cmd\<lparr>cmd_cache := chs, real_miss := real_miss cmd + 1\<rparr> else cmd\<lparr>cmd_cache := chs\<rparr>)"
  have c1: "cmd_cache c1 = chs" "cmd_memory c1 = cmd_memory cmd" "throttle_sem c1 = throttle_sem cmd" by (simp_all add: c1_def)
  show ?thesis
  proof (cases found)
    case None
    have chs: "caches_ok 0 chs" "map max_inbox_size chs = map max_inbox_size (cmd_cache cmd)"
        "cached_msgs chs = cached_msgs (cmd_cache cmd)" "cached_boxes chs = cached_boxes (cmd_cache cmd)"
      using scan None cache_scan_spec [of 0 "cmd_cache cmd" sz False False found chs] inv by (auto simp: cmd_inv_def split: if_splits)
    obtain r1 mem where a: "mlx5_alloc_cmd_msg kz env sz 0 (cmd_memory c1) = (r1, mem)"
      by (cases "mlx5_alloc_cmd_msg kz env sz 0 (cmd_memory c1)")
    have "r = r1" "cmd' = c1\<lparr>cmd_memory := mem\<rparr>"
      using run scan None a by (auto simp: alloc_msg_def Let_def c1_def split: if_splits)
    then show ?thesis using alloc_cmd_msg_mem [OF a] chs c1 blocks_enough [of sz]
      by (auto simp: took_def cmd_inv_def msgs_out_def boxes_out_def msg_fits_def split: sum.splits)
  next
    case (Some msg)
    then have big: "cache_scan sz False False (cmd_cache cmd) = (Some msg, chs)" using scan by (simp split: if_splits)
    have "r = Inr msg" "cmd' = cmd\<lparr>cmd_cache := chs\<rparr>" using run scan Some by (auto simp: alloc_msg_def Let_def split: if_splits)
    moreover note cache_scan_spec [OF inv [unfolded cmd_inv_def] big]
    ultimately show ?thesis
      by (auto simp: took_def cmd_inv_def msgs_out_def boxes_out_def msg_fits_def dest: map_eq_imp_length_eq)
        (metis length_map nth_map)+
  qed
qed

lemma free_msg_took:
  assumes inv: "cmd_inv cmd" and fits: "msg_fits msg (cmd_cache cmd)"
  shows "took (- 1) (- int (length (cm_next msg))) cmd (free_msg msg cmd)"
proof (cases "cm_parent msg")
  case None
  then show ?thesis using inv by (simp add: free_msg_def took_def cmd_inv_def msgs_out_def boxes_out_def free_cmd_msg_mem)
next
  case (Some k)
  define ch where "ch = cmd_cache cmd ! k"
  define ch' where "ch' = ch\<lparr>ch_head := ch_head ch @ [msg], ch_free := ch_free ch + 1\<rparr>"
  have k: "k < length (cmd_cache cmd)" and m: "msg_wf msg" "length (cm_next msg) = blocks (max_inbox_size ch)"
    using fits Some by (auto simp: msg_fits_def ch_def)
  have res: "free_msg msg cmd = cmd\<lparr>cmd_cache := (cmd_cache cmd)[k := ch']\<rparr>"
    by (simp add: free_msg_def Some Let_def ch'_def ch_def)
  have "cache_ok k ch" using inv k by (auto simp: cmd_inv_def caches_ok_nth ch_def)
  then have "cache_ok k ch'" using m Some by (auto simp: cache_ok_def ch'_def cached_ok_def)
  then have "cmd_inv (free_msg msg cmd)" using inv k by (auto simp: cmd_inv_def caches_ok_nth res nth_list_update)
  moreover have "cached_msgs ((cmd_cache cmd)[k := ch']) = cached_msgs (cmd_cache cmd) + 1"
    "cached_boxes ((cmd_cache cmd)[k := ch']) = cached_boxes (cmd_cache cmd) + length (cm_next msg)"
    using sum_list_map_update [OF k, of "\<lambda>ch. length (ch_head ch)" ch']
      sum_list_map_update [OF k, of "\<lambda>ch. sum_list (map (\<lambda>m. length (cm_next m)) (ch_head ch))" ch']
    by (simp_all add: cache_sums ch'_def ch_def)
  moreover have "map max_inbox_size ((cmd_cache cmd)[k := ch']) = map max_inbox_size (cmd_cache cmd)"
    using k by (simp add: map_update ch'_def ch_def list_update_same_conv)
  ultimately show ?thesis by (simp add: took_def res msgs_out_def boxes_out_def)
qed

section \<open>Executing a command\<close>

text \<open>The device writes into the mailboxes of the output message; it does not relink them.\<close>

definition invoke_ok :: "cmd_env \<Rightarrow> bool" where
  "invoke_ok env \<longleftrightarrow> (\<forall>inb outb token pq res outb'. invoke env inb outb token pq = (res, outb') \<longrightarrow> msg_wf outb \<longrightarrow>
     msg_wf outb' \<and> length (cm_next outb') = length (cm_next outb))"

lemma copy_from_boxes_ok:
  assumes "list_all box_wf boxes" "n \<le> MLX5_CMD_DATA_BLOCK_SIZE * length boxes"
  shows "fst (copy_from_boxes n boxes) = None \<and> length (snd (copy_from_boxes n boxes)) = n"
  using assms
proof (induction boxes arbitrary: n)
  case (Cons mb boxes)
  have "n - min n MLX5_CMD_DATA_BLOCK_SIZE \<le> MLX5_CMD_DATA_BLOCK_SIZE * length boxes" using Cons.prems(2) by (auto simp: min_def)
  from Cons.IH [OF _ this] Cons.prems(1) show ?case by (auto simp: Let_def box_wf_def block_defs split: prod.splits)
qed simp

lemma copy_from_msg_ok:
  assumes "msg_wf msg" "n \<le> 16 + MLX5_CMD_DATA_BLOCK_SIZE * length (cm_next msg)"
  shows "fst (mlx5_copy_from_msg (Some msg) n) = None \<and> length (snd (mlx5_copy_from_msg (Some msg) n)) = n"
  using copy_from_boxes_ok [of "cm_next msg" "n - min n 16"] assms
  by (auto simp: mlx5_copy_from_msg_def Let_def msg_wf_def split: prod.splits)

lemma alloc_token_took: "cmd_inv cmd \<Longrightarrow> took 0 0 cmd (snd (alloc_token cmd))"
  by (simp add: alloc_token_def Let_def took_def cmd_inv_def msgs_out_def boxes_out_def)

lemma set_memory_took:
  assumes "cmd_inv cmd" "mem_msgs mem = mem_msgs (cmd_memory cmd) + a" "mem_boxes mem = mem_boxes (cmd_memory cmd) + b"
  shows "took a b cmd (cmd\<lparr>cmd_memory := mem\<rparr>)"
  using assms by (simp add: took_def cmd_inv_def msgs_out_def boxes_out_def)

text \<open>The part of \<open>cmd_exec\<close> between the two operations on the throttle semaphore.\<close>

definition exec_body :: "cmd_env \<Rightarrow> u8 list \<Rightarrow> u8 list \<Rightarrow> bool \<Rightarrow> mlx5_cmd \<Rightarrow> errno option \<times> u8 list \<times> mlx5_cmd \<times> bool" where
  "exec_body env inp out0 callback cmd =
     (case alloc_msg (fst (in_alloc env)) (snd (in_alloc env)) (length inp) cmd of
        (Inl e, cmd) \<Rightarrow> (Some e, out0, cmd, True)
      | (Inr inb, cmd) \<Rightarrow>
          let (token, cmd) = alloc_token cmd in
          (case mlx5_copy_to_msg (Some inb) (Some inp) token of
             (Some e, _) \<Rightarrow> (Some e, out0, free_msg inb cmd, True)
           | (None, copied) \<Rightarrow>
               let inb = the copied in
               (case mlx5_alloc_cmd_msg (fst (out_alloc env)) (snd (out_alloc env)) (length out0) token (cmd_memory cmd) of
                  (Inl e, mem) \<Rightarrow> (Some e, out0, free_msg inb (cmd\<lparr>cmd_memory := mem\<rparr>), True)
                | (Inr outb, mem) \<Rightarrow>
                    let cmd = cmd\<lparr>cmd_memory := mem\<rparr>;
                        (res, outb) = invoke env inb outb token (is_manage_pages inp);
                        err = (case res of Inl e \<Rightarrow> Some e | Inr st \<Rightarrow> if st \<noteq> 0 then deliv_status_to_err st else None) in
                    if callback then (case res of Inl e \<Rightarrow> Some e | Inr _ \<Rightarrow> None, out0, cmd, False)
                    else let (err, out) = (if err \<noteq> None then (err, out0) else mlx5_copy_from_msg (Some outb) (length out0));
                             cmd = cmd\<lparr>cmd_memory := mlx5_free_cmd_msg outb (cmd_memory cmd)\<rparr>
                         in (err, out, free_msg inb cmd, True))))"

lemma cmd_exec_body:
  assumes "\<not> cmd_down env" "op_allowed env (in_to_opcode inp)"
  shows "cmd_exec env inp out0 callback cmd =
    (let t = mlx5_cmd_is_throttle_opcode (in_to_opcode inp) in
     if t \<and> callback then Some (Some EINVAL, out0, cmd)
     else if t \<and> throttle_sem cmd = 0 then None
     else case exec_body env inp out0 callback (if t then cmd\<lparr>throttle_sem := throttle_sem cmd - 1\<rparr> else cmd) of
            (err, out, cmd', sync) \<Rightarrow>
              Some (err, out, if sync \<and> t then cmd'\<lparr>throttle_sem := throttle_sem cmd' + 1\<rparr> else cmd'))"
  using assms by (simp add: cmd_exec_def exec_body_def Let_def split: prod.split sum.split option.split)

lemma exec_body_sync:
  assumes inv: "cmd_inv cmd" and ok: "invoke_ok env" and run: "exec_body env inp out0 False cmd = (err, out, cmd', sync)"
  shows "took 0 0 cmd cmd' \<and> sync \<and> length out = length out0 \<and> (err \<noteq> None \<longrightarrow> out = out0)"
proof -
  obtain r c1 where a: "alloc_msg (fst (in_alloc env)) (snd (in_alloc env)) (length inp) cmd = (r, c1)"
    by (cases "alloc_msg (fst (in_alloc env)) (snd (in_alloc env)) (length inp) cmd")
  note A = alloc_msg_took [OF inv a]
  show ?thesis
  proof (cases r)
    case (Inl e)
    then show ?thesis using A run a by (auto simp: exec_body_def)
  next
    case (Inr inb)
    obtain token c2 where t: "alloc_token c1 = (token, c2)" by (cases "alloc_token c1")
    have fits: "msg_fits inb (cmd_cache c1)" and room: "length inp \<le> 16 + MLX5_CMD_DATA_BLOCK_SIZE * length (cm_next inb)"
      and wf: "msg_wf inb" and inv1: "cmd_inv c1" and took1: "took 1 (int (length (cm_next inb))) cmd c1"
      using A Inr by (auto simp: msg_fits_def took_def)
    have took2: "took 0 0 c1 c2" using alloc_token_took [OF inv1] t by simp
    obtain e to where cp: "mlx5_copy_to_msg (Some inb) (Some inp) token = (e, to)"
      by (cases "mlx5_copy_to_msg (Some inb) (Some inp) token")
    obtain inb' where
      m: "to = Some inb'" "msg_wf inb'" "cm_parent inb' = cm_parent inb" "length (cm_next inb') = length (cm_next inb)" "e = None"
      using copy_to_msg_shape [OF wf cp] room by (metis (no_types, lifting))
    have fits': "msg_fits inb' (cmd_cache c2)"
      using fits m took2 msg_fits_cong [of "cmd_cache c2" "cmd_cache c1" inb'] by (auto simp: msg_fits_def took_def split: option.splits)
    obtain r3 mem where o: "mlx5_alloc_cmd_msg (fst (out_alloc env)) (snd (out_alloc env)) (length out0) token (cmd_memory c2) = (r3, mem)"
      by (cases "mlx5_alloc_cmd_msg (fst (out_alloc env)) (snd (out_alloc env)) (length out0) token (cmd_memory c2)")
    note O = alloc_cmd_msg_mem [OF o]
    have inv2: "cmd_inv c2" using took2 by (simp add: took_def)
    have give: "took 0 0 cmd (free_msg inb' c3)" if "took 0 0 c2 c3" for c3
    proof -
      have "cmd_inv c3" "msg_fits inb' (cmd_cache c3)"
        using that fits' msg_fits_cong [of "cmd_cache c3" "cmd_cache c2" inb'] by (auto simp: took_def)
      then have "took (- 1) (- int (length (cm_next inb))) c3 (free_msg inb' c3)" using free_msg_took [of c3 inb'] m(4) by simp
      from took_trans [OF took_trans [OF took1 took2] took_trans [OF that this]] show ?thesis by simp
    qed
    show ?thesis
    proof (cases r3)
      case (Inl e3)
      then have "took 0 0 c2 (c2\<lparr>cmd_memory := mem\<rparr>)" using O inv2 by (intro set_memory_took) auto
      from give [OF this] show ?thesis using run a Inr t cp m o Inl by (auto simp: exec_body_def)
    next
      case out: (Inr outb)
      obtain res outb' where v: "invoke env inb' outb token (is_manage_pages inp) = (res, outb')"
        by (cases "invoke env inb' outb token (is_manage_pages inp)")
      have wf': "msg_wf outb'" "length (cm_next outb') = blocks (length out0)" using O out ok v by (auto simp: invoke_ok_def)
      have "took 0 0 c2 (c2\<lparr>cmd_memory := mlx5_free_cmd_msg outb' mem\<rparr>)"
        using O out wf'(2) inv2 by (intro set_memory_took) (auto simp: free_cmd_msg_mem)
      note g = give [OF this]
      have "fst (mlx5_copy_from_msg (Some outb') (length out0)) = None \<and> length (snd (mlx5_copy_from_msg (Some outb') (length out0))) = length out0"
        using wf' blocks_enough [of "length out0"] by (intro copy_from_msg_ok) auto
      then show ?thesis using run a Inr t cp m o out v g
        by (auto simp: exec_body_def Let_def split: prod.splits if_splits sum.splits)
    qed
  qed
qed

lemma throttle_took:
  assumes "cmd_inv cmd" "took 0 0 (if t then cmd\<lparr>throttle_sem := throttle_sem cmd - 1\<rparr> else cmd) cmd'" "t \<longrightarrow> 0 < throttle_sem cmd"
  shows "took 0 0 cmd (if t then cmd'\<lparr>throttle_sem := throttle_sem cmd' + 1\<rparr> else cmd')"
  using assms by (auto simp: took_def cmd_inv_def msgs_out_def boxes_out_def)

lemma cmd_exec_sync:
  assumes inv: "cmd_inv cmd" and ok: "invoke_ok env"
    and sem: "mlx5_cmd_is_throttle_opcode (in_to_opcode inp) \<longrightarrow> 0 < throttle_sem cmd"
  shows "\<exists>err out cmd'. cmd_exec env inp out0 False cmd = Some (err, out, cmd') \<and> took 0 0 cmd cmd' \<and>
    length out = length out0 \<and> (err \<noteq> None \<longrightarrow> out = out0)"
proof (cases "cmd_down env \<or> \<not> op_allowed env (in_to_opcode inp)")
  case True
  then show ?thesis using inv by (simp add: cmd_exec_def Let_def took_def)
next
  case False
  let ?t = "mlx5_cmd_is_throttle_opcode (in_to_opcode inp)"
  let ?c = "if ?t then cmd\<lparr>throttle_sem := throttle_sem cmd - 1\<rparr> else cmd"
  obtain err out cmd' sync where b: "exec_body env inp out0 False ?c = (err, out, cmd', sync)"
    by (cases "exec_body env inp out0 False ?c")
  have "cmd_inv ?c" using inv by (simp add: cmd_inv_def)
  note B = exec_body_sync [OF this ok b]
  then have "took 0 0 cmd (if ?t then cmd'\<lparr>throttle_sem := throttle_sem cmd' + 1\<rparr> else cmd')"
    using throttle_took [OF inv _ sem, of cmd'] by simp
  moreover have "cmd_exec env inp out0 False cmd = Some (err, out, if ?t then cmd'\<lparr>throttle_sem := throttle_sem cmd' + 1\<rparr> else cmd')"
    using False b B sem by (subst cmd_exec_body) (auto simp: Let_def)
  ultimately show ?thesis using B by blast
qed

section \<open>Creating and destroying the caches\<close>

lemma fill_cache_ok:
  assumes "cache_ok k ch" "fill_cache k envs ch mem = (ch', mem')"
  shows "cache_ok k ch' \<and> max_inbox_size ch' = max_inbox_size ch \<and>
    mem_msgs mem' - int (length (ch_head ch')) = mem_msgs mem - int (length (ch_head ch)) \<and>
    mem_boxes mem' - int (sum_list (map (\<lambda>m. length (cm_next m)) (ch_head ch'))) =
      mem_boxes mem - int (sum_list (map (\<lambda>m. length (cm_next m)) (ch_head ch)))"
  using assms
proof (induction envs arbitrary: ch mem)
  case (Cons e envs)
  obtain kz env where e: "e = (kz, env)" by (cases e)
  obtain r mem1 where a: "mlx5_alloc_cmd_msg kz env (max_inbox_size ch) 0 mem = (r, mem1)"
    by (cases "mlx5_alloc_cmd_msg kz env (max_inbox_size ch) 0 mem")
  note A = alloc_cmd_msg_mem [OF a]
  show ?case
  proof (cases r)
    case (Inl x)
    then show ?thesis using Cons.prems A a e by auto
  next
    case (Inr msg)
    let ?ch = "ch\<lparr>ch_free := ch_free ch + 1, ch_head := ch_head ch @ [msg\<lparr>cm_parent := Some k\<rparr>]\<rparr>"
    have "cache_ok k ?ch" using Cons.prems(1) A Inr by (auto simp: cache_ok_def cached_ok_def msg_wf_def)
    moreover have "fill_cache k envs ?ch mem1 = (ch', mem')" using Cons.prems(2) a e Inr by simp
    ultimately show ?thesis using Cons.IH [of ?ch mem1] A Inr by auto
  qed
qed simp

lemma create_caches_ok:
  assumes "create_caches env k specs mem = (chs, mem')"
  shows "caches_ok k chs \<and> mem_msgs mem' - int (cached_msgs chs) = mem_msgs mem \<and> mem_boxes mem' - int (cached_boxes chs) = mem_boxes mem"
  using assms
proof (induction specs arbitrary: k mem chs mem')
  case (Cons spec specs)
  obtain num len where spec: "spec = (num, len)" by (cases spec)
  let ?ch = "\<lparr>ch_head = [], max_inbox_size = len, ch_miss = 0, total_commands = 0, ch_free = 0\<rparr>"
  obtain ch1 mem1 where f: "fill_cache k (map (env k) [0..<num]) ?ch mem = (ch1, mem1)"
    by (cases "fill_cache k (map (env k) [0..<num]) ?ch mem")
  obtain rest mem2 where c: "create_caches env (Suc k) specs mem1 = (rest, mem2)"
    by (cases "create_caches env (Suc k) specs mem1")
  have "cache_ok k ?ch" by (simp add: cache_ok_def)
  from fill_cache_ok [OF this f] Cons.IH [OF c] Cons.prems spec f c show ?case by (auto simp: cache_sums)
qed (auto simp: cache_sums)

lemma fold_free_mem:
  "mem_msgs (fold mlx5_free_cmd_msg ms mem) = mem_msgs mem - int (length ms)"
  "mem_boxes (fold mlx5_free_cmd_msg ms mem) = mem_boxes mem - int (sum_list (map (\<lambda>m. length (cm_next m)) ms))"
  by (induction ms arbitrary: mem) (simp_all add: free_cmd_msg_mem)

lemma destroy_caches_mem:
  "mem_msgs (snd (destroy_caches chs mem)) = mem_msgs mem - int (cached_msgs chs)"
  "mem_boxes (snd (destroy_caches chs mem)) = mem_boxes mem - int (cached_boxes chs)"
  by (induction chs arbitrary: mem) (simp_all add: Let_def cache_sums fold_free_mem case_prod_beta)

text \<open>The states between two synchronous commands.\<close>

inductive cmd_step :: "mlx5_cmd \<Rightarrow> mlx5_cmd \<Rightarrow> bool" where
  cmd_sync: "invoke_ok env \<Longrightarrow> cmd_exec env inp out0 False cmd = Some (err, out, cmd') \<Longrightarrow> cmd_step cmd cmd'"

definition cmd_start :: "mlx5_cmd \<Rightarrow> bool" where
  "cmd_start cmd \<longleftrightarrow> (\<exists>is_sf n env cmd0. cmd = create_msg_cache is_sf n env cmd0 \<and> cmd_cache cmd0 = [] \<and>
     mem_msgs (cmd_memory cmd0) = 0 \<and> mem_boxes (cmd_memory cmd0) = 0)"

definition cmd_clean :: "mlx5_cmd \<Rightarrow> bool" where
  "cmd_clean cmd \<longleftrightarrow> cmd_inv cmd \<and> msgs_out cmd = 0 \<and> boxes_out cmd = 0"

lemma cmd_start_clean: "cmd_start cmd \<Longrightarrow> cmd_clean cmd"
proof -
  assume "cmd_start cmd"
  then obtain is_sf n env cmd0 where c: "cmd = create_msg_cache is_sf n env cmd0" "cmd_cache cmd0 = []"
      "mem_msgs (cmd_memory cmd0) = 0" "mem_boxes (cmd_memory cmd0) = 0" by (auto simp: cmd_start_def)
  obtain chs mem where k: "create_caches env 0 (take n (zip cmd_cache_num_ent cmd_cache_ent_size)) (cmd_memory cmd0) = (chs, mem)"
    by (cases "create_caches env 0 (take n (zip cmd_cache_num_ent cmd_cache_ent_size)) (cmd_memory cmd0)")
  from create_caches_ok [OF k] c k show ?thesis
    by (auto simp: create_msg_cache_def cmd_clean_def cmd_inv_def msgs_out_def boxes_out_def cache_sums)
qed

lemma cmd_step_clean:
  assumes "cmd_clean cmd" "cmd_step cmd cmd'"
  shows "cmd_clean cmd'"
  using assms(2)
proof cases
  case (cmd_sync env inp out0 err out)
  have inv: "cmd_inv cmd" using assms(1) by (simp add: cmd_clean_def)
  show ?thesis
  proof (cases "mlx5_cmd_is_throttle_opcode (in_to_opcode inp) \<longrightarrow> 0 < throttle_sem cmd")
    case True
    from cmd_exec_sync [OF inv cmd_sync(1) True, of out0] cmd_sync(2) show ?thesis
      using assms(1) by (auto simp: took_def cmd_clean_def)
  next
    case False
    then have "cmd_down env \<or> \<not> op_allowed env (in_to_opcode inp)" using cmd_sync(2) cmd_exec_body [of env inp out0 False cmd]
      by (auto simp: Let_def)
    then show ?thesis using cmd_sync(2) assms(1) by (auto simp: cmd_exec_def Let_def)
  qed
qed

interpretation cmdr: invariant_system cmd_start cmd_step cmd_clean
  by unfold_locales (auto intro: cmd_start_clean cmd_step_clean)

section \<open>Properties\<close>

text \<open>
  A command and its mailboxes: a message of sufficient length takes the whole input and nothing is
  lost; copying it out again gives the input byte for byte. A message is long enough exactly when its
  16 bytes and its mailboxes together are, and otherwise the copy reports \<open>ENOMEM\<close>.
\<close>
theorem cmd_msg_roundtrip:
  assumes "msg_wf msg" "mlx5_copy_to_msg (Some msg) (Some bytes) token = (err, to)"
  shows "if length bytes \<le> 16 + 512 * length (cm_next msg)
    then err = None \<and> mlx5_copy_from_msg to (length bytes) = (None, bytes) else err = Some ENOMEM"
proof -
  obtain msg' where m: "err = None \<longleftrightarrow> length bytes \<le> 16 + MLX5_CMD_DATA_BLOCK_SIZE * length (cm_next msg)" "err \<noteq> None \<longrightarrow> err = Some ENOMEM"
    using copy_to_msg_shape [OF assms] by metis
  then show ?thesis using copy_msg_roundtrip [OF assms(1)] assms(2) by (auto simp: MLX5_CMD_DATA_BLOCK_SIZE_def)
qed

text \<open>
  The checksums: an entry and an output chain as \<open>set_signature\<close> leaves them pass \<open>verify_signature\<close>, and
  a block that passes does not pass any more when any one of its 576 bytes has another value.
\<close>
theorem cmd_signature_sound:
  assumes "msg_wf inb" "msg_wf outb" "set_signature True (fill_layout token inb outb) inb outb = (lay, inb', outb')"
    "length block = 576" "verify_block_sig block = None" "i < 576" "v \<noteq> block ! i"
  shows "verify_signature lay outb' = None \<and> verify_block_sig (block[i := v]) \<noteq> None"
proof
  define l0 where "l0 = fill_layout token inb outb"
  have len: "length l0 = 64" and z: "l0 ! 61 = 0"
    using assms(1) by (simp_all add: l0_def fill_layout_def Let_def cmd_layout_size_def msg_wf_def nth_poke split: list.splits)
  have "xor8_buf (poke 61 [v] l0) 0 64 = xor8_buf l0 0 64 XOR v" for v
  proof -
    have "poke 61 [v] l0 = l0[61 := v]" using len by (simp add: poke_def upd_conv_take_nth_drop)
    then show ?thesis using fold_xor_update [of 61 l0 v] len z by (simp add: xor8_buf_def)
  qed
  then have "xor8_buf (poke 61 [NOT (xor8_buf l0 0 64)] l0) 0 64 = 0xFF" by (simp add: bit.xor_compl_right)
  moreover have "lay = poke 61 [NOT (xor8_buf l0 0 64)] l0" "outb' = calc_chain_sig outb"
    using assms(3) by (simp_all add: set_signature_def Let_def off_lay_sig_def cmd_layout_size_def flip: l0_def)
  moreover have "verify_boxes (mlx5_calc_cmd_blocks outb') (cm_next outb') = None" if "outb' = calc_chain_sig outb"
    using verify_boxes_signed assms(2) by (simp add: that calc_chain_sig_def Let_def msg_wf_def calc_cmd_blocks_eq)
  ultimately show "verify_signature lay outb' = None" by (simp add: verify_signature_def cmd_layout_size_def)
  show "verify_block_sig (block[i := v]) \<noteq> None"
    by (rule verify_block_detects) (use assms in \<open>simp_all add: prot_block_size_def\<close>)
qed

text \<open>
  C20. Synchronous commands leak nothing: after the caches were created and any number of commands ran,
  whatever the allocator and the device answered, every allocated message and mailbox is in a cache;
  destroying the caches then frees everything, and the next command returns, with an output of the
  size of the caller's buffer, or with an error and the buffer as it was.
\<close>
theorem cmd_run_no_leak:
  assumes "reach cmd_start cmd_step cmd" "invoke_ok env" "mlx5_cmd_is_throttle_opcode (in_to_opcode inp) \<longrightarrow> 0 < throttle_sem cmd"
  shows "mem_msgs (cmd_memory (destroy_msg_cache False cmd)) = 0 \<and> mem_boxes (cmd_memory (destroy_msg_cache False cmd)) = 0 \<and>
    (\<exists>err out cmd'. cmd_exec env inp out0 False cmd = Some (err, out, cmd') \<and> length out = length out0 \<and>
       throttle_sem cmd' = throttle_sem cmd \<and> (err \<noteq> None \<longrightarrow> out = out0))"
proof -
  have c: "cmd_clean cmd" using assms(1) by (rule cmdr.reach_invar)
  then have "\<exists>err out cmd'. cmd_exec env inp out0 False cmd = Some (err, out, cmd') \<and> length out = length out0 \<and>
      throttle_sem cmd' = throttle_sem cmd \<and> (err \<noteq> None \<longrightarrow> out = out0)"
    using cmd_exec_sync [OF _ assms(2,3), of out0] by (auto simp: cmd_clean_def took_def)
  then show ?thesis
    using c destroy_caches_mem [of "cmd_cache cmd" "cmd_memory cmd"]
    by (simp add: destroy_msg_cache_def cmd_clean_def msgs_out_def boxes_out_def case_prod_beta Let_def)
qed

text \<open>
  A device that is gone: a command that releases something is reported as done, without an
  allocation and without the device, so that the teardown of the driver runs to its end; the status
  and the syndrome in the output are cleared. The commands of the second table fail with \<open>ENOLINK\<close>.
\<close>
theorem cmd_exec_device_gone:
  assumes "cmd_down env" "8 \<le> length out0"
  shows "(is_teardown (in_to_opcode inp) \<longrightarrow> mlx5_cmd_exec env inp out0 cmd = Some (None, [0] @ take 3 (drop 1 out0) @ [0, 0, 0, 0] @ drop 8 out0, cmd)) \<and>
    (in_to_opcode inp \<in> set emulated_abort - set emulated_ok \<longrightarrow> map_option fst (mlx5_cmd_exec env inp out0 cmd) = Some (Some (EFW 67)))"
proof -
  have run: "mlx5_cmd_exec env inp out0 cmd =
      Some (let (err, out) = mlx5_cmd_check (Some (EFW 6)) inp out0 in (err, out, cmd))"
    using assms(1) by (simp add: mlx5_cmd_exec_def mlx5_cmd_do_def cmd_exec_def cmd_status_err_def Let_def)
  have "poke 4 (be_bytes 4 (0 :: u32)) (poke 0 [0] out0) = [0] @ take 3 (drop 1 out0) @ [0, 0, 0, 0] @ drop 8 out0"
    using assms(2) by (simp add: poke_def be_bytes_def upt_conv_Cons numeral_eq_Suc take_Cons' drop_Suc)
  then show ?thesis using teardown_emulated [of "in_to_opcode inp"]
    by (auto simp: run mlx5_cmd_check_def mlx5_internal_err_ret_value_def Let_def)
qed

text \<open>A command with a callback that \<open>mlx5_cmd_invoke\<close> refuses: both messages stay allocated.\<close>

lemma exec_body_async:
  assumes inv: "cmd_inv cmd" and run: "exec_body env inp out0 True cmd = (err, out, cmd', sync)"
    and a: "alloc_msg (fst (in_alloc env)) (snd (in_alloc env)) (length inp) cmd = (Inr inb, c1)"
    and o: "\<And>token mem. \<exists>outb mem'. mlx5_alloc_cmd_msg (fst (out_alloc env)) (snd (out_alloc env)) (length out0) token mem = (Inr outb, mem')"
    and i: "\<And>inb outb token. \<exists>outb'. invoke env inb outb token (is_manage_pages inp) = (Inl failure, outb')"
  shows "msgs_out cmd' = msgs_out cmd + 2 \<and> err = Some failure \<and> out = out0 \<and> \<not> sync"
proof -
  have A: "took 1 (int (length (cm_next inb))) cmd c1" "msg_wf inb" "length inp \<le> 16 + MLX5_CMD_DATA_BLOCK_SIZE * length (cm_next inb)"
    using alloc_msg_took [OF inv a] by (auto simp: msg_fits_def)
  obtain token c2 where t: "alloc_token c1 = (token, c2)" by (cases "alloc_token c1")
  have took2: "took 0 0 c1 c2" using alloc_token_took [of c1] A(1) t by (simp add: took_def)
  obtain e to where cp: "mlx5_copy_to_msg (Some inb) (Some inp) token = (e, to)" by (cases "mlx5_copy_to_msg (Some inb) (Some inp) token")
  have e: "e = None" using copy_to_msg_shape [OF A(2) cp] A(3) by metis
  obtain outb mem where out: "mlx5_alloc_cmd_msg (fst (out_alloc env)) (snd (out_alloc env)) (length out0) token (cmd_memory c2) = (Inr outb, mem)"
    using o by blast
  obtain outb' where "invoke env (the to) outb token (is_manage_pages inp) = (Inl failure, outb')"
    using i by blast
  then have "cmd' = c2\<lparr>cmd_memory := mem\<rparr> \<and> err = Some failure \<and> out = out0 \<and> \<not> sync"
    using run a t cp e out by (simp add: exec_body_def Let_def)
  moreover have "took 1 (int (blocks (length out0))) c2 (c2\<lparr>cmd_memory := mem\<rparr>)"
    using alloc_cmd_msg_mem [OF out] took2 by (intro set_memory_took) (auto simp: took_def)
  ultimately show ?thesis using A(1) took2 by (simp add: took_def)
qed

section \<open>Concrete runs\<close>

definition box_env :: "nat \<Rightarrow> bool \<times> u64 option" where "box_env i = (True, Some (word_of_nat (4096 * (i + 1))))"

definition refuse :: "mlx5_cmd_msg \<Rightarrow> mlx5_cmd_msg \<Rightarrow> u8 \<Rightarrow> bool \<Rightarrow> (errno + u8) \<times> mlx5_cmd_msg" where
  "refuse inb outb token pq = (Inl ENOMEM, outb)"

definition env_up :: cmd_env where
  "env_up = \<lparr>cmd_down = False, op_allowed = \<lambda>_. True, in_alloc = (True, box_env), out_alloc = (True, box_env), invoke = refuse\<rparr>"

definition cmd0 :: mlx5_cmd where
  "cmd0 = \<lparr>cmd_cache = [], real_miss = 0, cmd_token = 0, throttle_sem = 1, cmd_memory = \<lparr>mem_msgs = 0, mem_boxes = 0\<rparr>\<rparr>"

definition msg0 :: mlx5_cmd_msg where
  "msg0 = \<lparr>cm_parent = None, cm_len = 20, cm_first = replicate 16 0, cm_next = [\<lparr>mb_buf = replicate prot_block_size 0, mb_dma = 4096\<rparr>]\<rparr>"

definition bytes0 :: "u8 list" where "bytes0 = replicate 20 7"

lemma invoke_ok_up: "invoke_ok env_up"
  by (simp add: invoke_ok_def env_up_def refuse_def)

lemma cmd0_start: "cmd_start cmd0"
  unfolding cmd_start_def by (rule exI [of _ True]) (auto simp: create_msg_cache_def cmd0_def)

lemma msg0_wf: "msg_wf msg0"
  by (simp add: msg_wf_def msg0_def box_wf_def)

text \<open>
  Asynchronous commands can leak: a command with a callback that \<open>mlx5_cmd_invoke\<close> refuses, for instance
  because the entry cannot be allocated, returns its error and leaves both messages allocated.
\<close>
theorem cmd_exec_async_leak:
  "\<exists>env inp out0 e cmd'. cmd_exec env inp out0 True cmd0 = Some (Some e, out0, cmd') \<and> msgs_out cmd' = msgs_out cmd0 + 2"
proof -
  let ?inp = "replicate 16 (0 :: u8)"
  have inv: "cmd_inv cmd0" using cmd_start_clean [OF cmd0_start] by (simp add: cmd_clean_def)
  have alloc: "\<exists>m mem'. mlx5_alloc_cmd_msg True box_env 16 token mem = (Inr m, mem')" for token mem
    by (simp add: mlx5_alloc_cmd_msg_def mlx5_calc_cmd_blocks_def MLX5_CMD_DATA_BLOCK_SIZE_def Let_def)
  obtain inb c1 where a: "alloc_msg True box_env 16 cmd0 = (Inr inb, c1)"
    using alloc [of 0 "cmd_memory cmd0"] by (auto simp: alloc_msg_def Let_def cmd0_def)
  obtain err out cmd' sync where b: "exec_body env_up ?inp ?inp True cmd0 = (err, out, cmd', sync)"
    by (cases "exec_body env_up ?inp ?inp True cmd0")
  have m: "msgs_out cmd' = msgs_out cmd0 + 2 \<and> err = Some ENOMEM \<and> out = ?inp \<and> \<not> sync"
    by (rule exec_body_async [OF inv b]) (use a alloc in \<open>auto simp: env_up_def refuse_def\<close>)
  then have "cmd_exec env_up ?inp ?inp True cmd0 = Some (Some ENOMEM, ?inp, cmd')"
    using b by (subst cmd_exec_body) (simp_all add: env_up_def in_to_opcode_def mlx5_cmd_is_throttle_opcode_def Let_def)
  with m show ?thesis by blast
qed

text \<open>The hypotheses of the properties above hold for concrete messages and devices.\<close>

theorem cmd_msg_roundtrip_witness:
  "fst (mlx5_copy_to_msg (Some msg0) (Some bytes0) 9) = None \<and>
   mlx5_copy_from_msg (snd (mlx5_copy_to_msg (Some msg0) (Some bytes0) 9)) 20 = (None, bytes0)"
  using cmd_msg_roundtrip [OF msg0_wf prod.collapse [symmetric], of bytes0 9] by (simp add: bytes0_def msg0_def)

theorem cmd_signature_sound_witness:
  "verify_block_sig (calc_block_sig (replicate 576 0)) = None \<and>
   verify_block_sig ((calc_block_sig (replicate 576 0))[0 := calc_block_sig (replicate 576 0) ! 0 + 1]) \<noteq> None"
proof -
  let ?b = "calc_block_sig (replicate 576 0)"
  obtain lay m1 m2 where s: "set_signature True (fill_layout 9 msg0 msg0) msg0 msg0 = (lay, m1, m2)"
    by (cases "set_signature True (fill_layout 9 msg0 msg0) msg0 msg0")
  have ok: "verify_block_sig ?b = None" by (rule calc_verify_block) (simp add: prot_block_size_def)
  have "length ?b = 576" by (simp add: calc_block_sig_def Let_def block_defs)
  then show ?thesis using cmd_signature_sound [OF msg0_wf msg0_wf s _ ok, of 0 "?b ! 0 + 1"] ok by simp
qed

theorem cmd_run_no_leak_witness:
  "mem_msgs (cmd_memory (destroy_msg_cache False cmd0)) = 0 \<and>
   (\<exists>err out cmd'. cmd_exec env_up (replicate 16 0) (replicate 16 5) False cmd0 = Some (err, out, cmd') \<and> length out = 16)"
  using cmd_run_no_leak [OF reach_init [of cmd_start cmd0 cmd_step, OF cmd0_start] invoke_ok_up, of "replicate 16 0" "replicate 16 5"]
  by (auto simp: in_to_opcode_def mlx5_cmd_is_throttle_opcode_def)

theorem cmd_exec_device_gone_witness:
  "mlx5_cmd_exec (env_up\<lparr>cmd_down := True\<rparr>) (1 # 3 # replicate 14 0) (replicate 16 5) cmd0 =
     Some (None, [0, 5, 5, 5, 0, 0, 0, 0] @ replicate 8 5, cmd0)"
proof -
  have "in_to_opcode (1 # 3 # replicate 14 0) = 0x103" by (simp add: in_to_opcode_def)
  moreover have "is_teardown 0x103" by code_simp
  ultimately show ?thesis
    using cmd_exec_device_gone [of "env_up\<lparr>cmd_down := True\<rparr>" "replicate 16 5" "1 # 3 # replicate 14 0" cmd0]
    by (simp add: numeral_eq_Suc)
qed

end
