(* ===== verification/Cmd_Slots.thy ===== *)
theory Cmd_Slots
  imports Cmd_Msg
begin

text \<open>
  The command queue of \<open>drivers/net/ethernet/mellanox/mlx5/core/cmd.c\<close>: the entries (\<open>struct mlx5_cmd_work_ent\<close>) with
  their reference counts, the slots they occupy, and the threads that touch them: the caller in
  \<open>mlx5_cmd_invoke\<close>, the worker in \<open>cmd_work_handler\<close>, the completion handler, the time-out of asynchronous
  commands, and \<open>mlx5_cmd_trigger_completions\<close>, which ends the commands of a device that is gone.

  Correspondence.
  \<^item> An entry is a number; \<open>ents\<close> has the entries that are allocated. An access to an entry that was freed is
    the value \<open>None\<close>. The numbers are never used twice, so that a callback can be told from another.
  \<^item> \<open>ent_work\<close>, \<open>cb_timeout_work\<close> and \<open>ent_waiting\<close> say where the worker, the time-out and the caller of an entry are;
    a step is a whole handler, or the part of one between two points where it waits. The handlers hold no lock over such a part, so
    handlers that overlap inside one are not covered by the runs below; \<open>cmd_submit_race\<close> shows one overlap that goes wrong.
    At most one \<open>mlx5_cmd_trigger_completions\<close> runs at a time.
  \<^item> \<open>fw_slot\<close> is what the device does with a slot: nothing, working on the command, answered with the event
    not handled yet, or lost, because the device failed while it had the command.
  \<^item> A semaphore is a number. \<open>down_timeout\<close> fails exactly when the semaphore is 0 at the end of its time.
\<close>

section \<open>State\<close>

datatype mlx5_comp_t = MLX5_CMD_COMP_TYPE_EVENT | MLX5_CMD_COMP_TYPE_FORCED | MLX5_CMD_COMP_TYPE_POLLING

datatype delayed_work = Dw_Idle | Dw_Queued | Dw_Running

datatype work_pc = Work_Queued | Work_Slotted | Work_Polling | Work_Finished

datatype fw_state = Fw_Idle | Fw_Busy | Fw_Answered | Fw_Lost

record mlx5_cmd_work_ent =
  pending_comp :: bool
  rref_cleared :: bool
  ent_in :: mlx5_cmd_msg
  ent_out :: mlx5_cmd_msg
  uout_size :: nat
  ent_callback :: bool
  cb_timeout_work :: delayed_work
  ent_idx :: "nat option"
  ent_handling :: bool
  ent_slotted :: bool
  ent_done :: bool
  ent_work :: work_pc
  ent_waiting :: bool
  ent_ret :: "errno option"
  page_queue :: bool
  ent_status :: u8
  ent_token :: u8
  ent_op :: u16
  ent_polling :: bool
  refcnt :: nat

record cmd_if =
  log_sz :: nat
  max_reg_cmds :: nat
  bitmask :: "bool list"
  cmd_sem :: nat
  pages_sem :: nat
  ent_arr :: "nat option list"
  cmd_buf :: "u8 list list"
  mode_events :: bool
  allowed_opcode :: "u16 option"
  checksum_disabled :: bool
  if_down :: bool
  if_msgs :: mlx5_cmd
  ents :: "nat \<Rightarrow> mlx5_cmd_work_ent option"
  next_ent :: nat
  cb_log :: "(nat \<times> errno option \<times> u8 list) list"
  ret_log :: "(nat \<times> (errno + u8)) list"
  fw_slot :: "nat \<Rightarrow> fw_state"
  trig_comp :: "nat list"
  trig_put :: "nat list"

abbreviation ETIMEDOUT :: errno where "ETIMEDOUT \<equiv> EFW 110"
abbreviation ECANCELED :: errno where "ECANCELED \<equiv> EFW 125"
abbreviation EBUSY :: errno where "EBUSY \<equiv> EFW 16"
abbreviation EAGAIN :: errno where "EAGAIN \<equiv> EFW 11"
abbreviation ENXIO :: errno where "ENXIO \<equiv> EFW 6"
abbreviation EALREADY :: errno where "EALREADY \<equiv> EFW 114"

definition set_ent :: "nat \<Rightarrow> mlx5_cmd_work_ent \<Rightarrow> cmd_if \<Rightarrow> cmd_if" where
  "set_ent e ent s = s\<lparr>ents := (ents s)(e := Some ent)\<rparr>"

definition upd_ent :: "nat \<Rightarrow> (mlx5_cmd_work_ent \<Rightarrow> mlx5_cmd_work_ent) \<Rightarrow> cmd_if \<Rightarrow> cmd_if option" where
  "upd_ent e f s = map_option (\<lambda>ent. set_ent e (f ent) s) (ents s e)"

definition opcode_allowed :: "cmd_if \<Rightarrow> u16 \<Rightarrow> bool" where
  "opcode_allowed s opcode \<longleftrightarrow> (case allowed_opcode s of None \<Rightarrow> True | Some op \<Rightarrow> op = opcode)"

section \<open>Entries and slots\<close>

definition cmd_alloc_ent ::
  "bool \<Rightarrow> mlx5_cmd_msg \<Rightarrow> mlx5_cmd_msg \<Rightarrow> nat \<Rightarrow> bool \<Rightarrow> bool \<Rightarrow> cmd_if \<Rightarrow> (errno + nat) \<times> cmd_if" where
  "cmd_alloc_ent kzalloc_ok inb outb uout_sz cbk pq s =
     (if \<not> kzalloc_ok then (Inl ENOMEM, s)
      else let e = next_ent s;
               ent = \<lparr>pending_comp = False, rref_cleared = False, ent_in = inb, ent_out = outb, uout_size = uout_sz,
                      ent_callback = cbk, cb_timeout_work = Dw_Idle, ent_idx = None, ent_handling = False, ent_slotted = False,
                      ent_done = False, ent_work = Work_Queued, ent_waiting = False, ent_ret = None, page_queue = pq,
                      ent_status = 0, ent_token = 0, ent_op = in_to_opcode (cm_first inb), ent_polling = False, refcnt = 1\<rparr>
           in (Inr e, (set_ent e ent s)\<lparr>next_ent := Suc e\<rparr>))"

definition cmd_alloc_index :: "nat \<Rightarrow> cmd_if \<Rightarrow> (nat option \<times> cmd_if) option" where
  "cmd_alloc_index e s =
     (case first_ix id (take (max_reg_cmds s) (bitmask s)) of
        None \<Rightarrow> Some (None, s)
      | Some i \<Rightarrow> do {
          arr \<leftarrow> upd_opt (ent_arr s) i (Some e);
          s \<leftarrow> upd_ent e (ent_idx_update (\<lambda>_. Some i)) s;
          Some (Some i, s\<lparr>bitmask := (bitmask s)[i := False], ent_arr := arr\<rparr>) })"

definition cmd_free_index :: "nat \<Rightarrow> cmd_if \<Rightarrow> cmd_if" where
  "cmd_free_index i s = s\<lparr>bitmask := (bitmask s)[i := True]\<rparr>"

definition cmd_ent_get :: "nat \<Rightarrow> cmd_if \<Rightarrow> cmd_if option" where
  "cmd_ent_get e s = upd_ent e (\<lambda>ent. ent\<lparr>refcnt := refcnt ent + 1\<rparr>) s"

definition cmd_ent_put :: "nat \<Rightarrow> cmd_if \<Rightarrow> cmd_if option" where
  "cmd_ent_put e s = do {
     ent \<leftarrow> ents s e;
     if refcnt ent \<noteq> 1 then Some (set_ent e (ent\<lparr>refcnt := refcnt ent - 1\<rparr>) s)
     else let s = (case ent_idx ent of
                     None \<Rightarrow> s
                   | Some i \<Rightarrow> let s = cmd_free_index i s
                              in if page_queue ent then s\<lparr>pages_sem := pages_sem s + 1\<rparr> else s\<lparr>cmd_sem := cmd_sem s + 1\<rparr>)
          in Some (s\<lparr>ents := (ents s)(e := None)\<rparr>) }"

section \<open>Completion\<close>

definition free_ent_msgs :: "mlx5_cmd_work_ent \<Rightarrow> cmd_if \<Rightarrow> cmd_if" where
  "free_ent_msgs ent s =
     (let c = if_msgs s; c = c\<lparr>cmd_memory := mlx5_free_cmd_msg (ent_out ent) (cmd_memory c)\<rparr>
      in s\<lparr>if_msgs := free_msg (ent_in ent) c\<rparr>)"

definition call_back :: "nat \<Rightarrow> errno option \<Rightarrow> u8 list \<Rightarrow> cmd_if \<Rightarrow> cmd_if" where
  "call_back e err out s = s\<lparr>cb_log := cb_log s @ [(e, err, out)]\<rparr>"

text \<open>The result of a command once the device is done with it.\<close>

definition comp_result :: "bool \<Rightarrow> bool \<Rightarrow> u8 list \<Rightarrow> mlx5_cmd_work_ent \<Rightarrow> mlx5_cmd_work_ent" where
  "comp_result triggered csum_disabled lay ent =
     (let out = (ent_out ent)\<lparr>cm_first := take 16 (drop 32 lay)\<rparr>;
          ent = ent\<lparr>ent_out := out\<rparr>;
          ent = (if triggered then ent\<lparr>ent_ret := Some ENXIO\<rparr> else ent)
      in if ent_ret ent = None
         then ent\<lparr>ent_ret := if csum_disabled then None else verify_signature lay out, ent_status := drop_bit 1 (lay ! 63)\<rparr>
         else ent)"

definition comp_finish :: "nat \<Rightarrow> cmd_if \<Rightarrow> cmd_if option" where
  "comp_finish e s = do {
     ent \<leftarrow> ents s e;
     if ent_callback ent
     then let err = (case ent_ret ent of Some x \<Rightarrow> Some x
                     | None \<Rightarrow> if ent_status ent \<noteq> 0 then deliv_status_to_err (ent_status ent) else None);
              (err, out) = (if err = None then mlx5_copy_from_msg (Some (ent_out ent)) (uout_size ent) else (err, []))
          in do { s \<leftarrow> cmd_ent_put e (free_ent_msgs ent s); Some (call_back e err out s) }
     else upd_ent e (ent_done_update (\<lambda>_. True)) s }"

text \<open>The rest of the loop body of \<open>mlx5_cmd_comp_handler\<close>, after the tests of \<open>PENDING_COMP\<close>.\<close>

definition comp_rest :: "bool \<Rightarrow> mlx5_comp_t \<Rightarrow> nat \<Rightarrow> nat \<Rightarrow> cmd_if \<Rightarrow> cmd_if option" where
  "comp_rest triggered comp_type i e s = do {
     ent \<leftarrow> ents s e;
     s \<leftarrow> (if ent_callback ent \<and> cb_timeout_work ent = Dw_Queued
           then cmd_ent_put e (set_ent e (ent\<lparr>cb_timeout_work := Dw_Idle\<rparr>) s) else Some s);
     ent \<leftarrow> ents s e;
     s \<leftarrow> (if comp_type \<noteq> MLX5_CMD_COMP_TYPE_FORCED \<or> if_down s \<or> \<not> opcode_allowed s (ent_op ent)
           then cmd_ent_put e (set_ent e (ent\<lparr>rref_cleared := True\<rparr>) s) else Some s);
     lay \<leftarrow> nth_opt (cmd_buf s) i;
     s \<leftarrow> upd_ent e (comp_result triggered (checksum_disabled s) lay) s;
     comp_finish e s }"

text \<open>The loop body for slot \<open>i\<close>; a slot no entry ever had is a NULL pointer.\<close>

definition comp_one :: "bool \<Rightarrow> mlx5_comp_t \<Rightarrow> nat \<Rightarrow> cmd_if \<Rightarrow> cmd_if option" where
  "comp_one triggered comp_type i s = do {
     slot \<leftarrow> nth_opt (ent_arr s) i;
     e \<leftarrow> slot;
     ent \<leftarrow> ents s e;
     let s = set_ent e (ent\<lparr>pending_comp := False\<rparr>) s in
     if \<not> pending_comp ent then do {
       s \<leftarrow> (if comp_type = MLX5_CMD_COMP_TYPE_EVENT \<and> \<not> ent_polling ent then cmd_ent_put e s else Some s);
       s \<leftarrow> (if triggered
             then do { ent \<leftarrow> ents s e;
                       if ent_ret ent = Some ETIMEDOUT \<and> rref_cleared ent then cmd_ent_put e s else Some s }
             else Some s);
       if comp_type \<noteq> MLX5_CMD_COMP_TYPE_POLLING then Some s else comp_rest triggered comp_type i e s }
     else if ent_polling ent \<and> comp_type = MLX5_CMD_COMP_TYPE_EVENT then Some s
     else comp_rest triggered comp_type i e s }"

fun comp_slots :: "bool \<Rightarrow> mlx5_comp_t \<Rightarrow> nat list \<Rightarrow> cmd_if \<Rightarrow> cmd_if option" where
  "comp_slots triggered comp_type [] s = Some s"
| "comp_slots triggered comp_type (i # is) s = do { s \<leftarrow> comp_one triggered comp_type i s; comp_slots triggered comp_type is s }"

definition mlx5_cmd_comp_handler :: "(nat \<Rightarrow> bool) \<Rightarrow> bool \<Rightarrow> mlx5_comp_t \<Rightarrow> cmd_if \<Rightarrow> cmd_if option" where
  "mlx5_cmd_comp_handler vec triggered comp_type s = comp_slots triggered comp_type (filter vec [0..<2 ^ log_sz s]) s"

text \<open>\<open>1ULL << ent->idx\<close>, which is undefined without an index.\<close>

definition force_comp :: "nat \<Rightarrow> cmd_if \<Rightarrow> cmd_if option" where
  "force_comp e s = do { ent \<leftarrow> ents s e; i \<leftarrow> ent_idx ent;
     mlx5_cmd_comp_handler (\<lambda>j. j = i) False MLX5_CMD_COMP_TYPE_FORCED s }"

definition cb_timeout_handler :: "nat \<Rightarrow> cmd_if \<Rightarrow> cmd_if option" where
  "cb_timeout_handler e s = do {
     ent \<leftarrow> ents s e;
     s \<leftarrow> (if \<not> pending_comp ent then Some s
           else force_comp e (set_ent e (ent\<lparr>ent_ret := Some ETIMEDOUT\<rparr>) s));
     s \<leftarrow> upd_ent e (cb_timeout_work_update (\<lambda>_. Dw_Idle)) s;
     cmd_ent_put e s }"

section \<open>The worker\<close>

definition ent_fail :: "nat \<Rightarrow> errno \<Rightarrow> cmd_if \<Rightarrow> cmd_if option" where
  "ent_fail e err s = do {
     ent \<leftarrow> ents s e;
     if ent_callback ent then cmd_ent_put e (free_ent_msgs ent (call_back e (Some err) [] s))
     else Some (set_ent e (ent\<lparr>ent_ret := Some err, ent_done := True, ent_work := Work_Finished\<rparr>) s) }"

text \<open>\<open>cmd_work_handler\<close> until \<open>complete(&ent->slotted)\<close>.\<close>

definition work_slot :: "nat \<Rightarrow> cmd_if \<Rightarrow> cmd_if option" where
  "work_slot e s = do {
     s \<leftarrow> upd_ent e (ent_handling_update (\<lambda>_. True)) s;
     ent \<leftarrow> ents s e;
     if \<not> page_queue ent then
       if cmd_sem s = 0 then do {
         s \<leftarrow> ent_fail e EBUSY s;
         upd_ent e (ent_slotted_update (\<lambda>_. True)) s }
       else do {
         (alloc_ret, s) \<leftarrow> cmd_alloc_index e (s\<lparr>cmd_sem := cmd_sem s - 1\<rparr>);
         (case alloc_ret of
            None \<Rightarrow> do { s \<leftarrow> ent_fail e EAGAIN s; Some (s\<lparr>cmd_sem := cmd_sem s + 1\<rparr>) }
          | Some i \<Rightarrow> upd_ent e (\<lambda>ent. ent\<lparr>ent_slotted := True, ent_work := Work_Slotted\<rparr>) s) }
     else do {
       s \<leftarrow> upd_ent e (ent_idx_update (\<lambda>_. Some (max_reg_cmds s))) (s\<lparr>pages_sem := pages_sem s - 1\<rparr>);
       mask \<leftarrow> upd_opt (bitmask s) (max_reg_cmds s) False;
       arr \<leftarrow> upd_opt (ent_arr s) (max_reg_cmds s) (Some e);
       upd_ent e (\<lambda>ent. ent\<lparr>ent_slotted := True, ent_work := Work_Slotted\<rparr>) (s\<lparr>bitmask := mask, ent_arr := arr\<rparr>) } }"

text \<open>The rest of \<open>cmd_work_handler\<close>, without the polling.\<close>

definition work_submit :: "nat \<Rightarrow> cmd_if \<Rightarrow> cmd_if option" where
  "work_submit e s = do {
     ent \<leftarrow> ents s e;
     i \<leftarrow> ent_idx ent;
     let (lay, inb, outb) = set_signature (\<not> checksum_disabled s) (fill_layout (ent_token ent) (ent_in ent) (ent_out ent))
                              (ent_in ent) (ent_out ent);
     buf \<leftarrow> upd_opt (cmd_buf s) i lay;
     let poll = (\<not> mode_events s \<or> ent_polling ent);
     let s = set_ent e (ent\<lparr>ent_in := inb, ent_out := outb\<rparr>) (s\<lparr>cmd_buf := buf\<rparr>);
     s \<leftarrow> (if ent_callback ent \<and> cb_timeout_work ent = Dw_Idle
           then do { s \<leftarrow> upd_ent e (cb_timeout_work_update (\<lambda>_. Dw_Queued)) s; cmd_ent_get e s } else Some s);
     s \<leftarrow> upd_ent e (\<lambda>ent. ent\<lparr>pending_comp := True, ent_work := Work_Finished\<rparr>) s;
     s \<leftarrow> cmd_ent_get e s;
     if if_down s \<or> \<not> opcode_allowed s (ent_op ent)
     then do { s \<leftarrow> upd_ent e (ent_ret_update (\<lambda>_. Some ENXIO)) s; force_comp e s }
     else upd_ent e (ent_work_update (\<lambda>_. if poll then Work_Polling else Work_Finished))
            (s\<lparr>fw_slot := (fw_slot s)(i := Fw_Busy)\<rparr>) }"

text \<open>\<open>poll_timeout\<close> returns once the device gave the entry back, or else when its time is over.\<close>

definition poll_timeout :: "u8 list \<Rightarrow> errno option" where
  "poll_timeout lay = (if lay ! 63 AND 1 = 0 then None else Some ETIMEDOUT)"

definition work_poll :: "nat \<Rightarrow> cmd_if \<Rightarrow> cmd_if option" where
  "work_poll e s = do {
     ent \<leftarrow> ents s e;
     i \<leftarrow> ent_idx ent;
     lay \<leftarrow> nth_opt (cmd_buf s) i;
     let ret = poll_timeout lay;
     let s = set_ent e (ent\<lparr>ent_ret := ret, ent_work := Work_Finished\<rparr>) s;
     mlx5_cmd_comp_handler (\<lambda>j. j = i) False
       (if ret = Some ETIMEDOUT then MLX5_CMD_COMP_TYPE_FORCED else MLX5_CMD_COMP_TYPE_POLLING) s }"

section \<open>The caller\<close>

text \<open>\<open>mlx5_cmd_invoke\<close> until it waits, or returns for a command with a callback.\<close>

definition invoke_begin ::
  "bool \<Rightarrow> bool \<Rightarrow> mlx5_cmd_msg \<Rightarrow> mlx5_cmd_msg \<Rightarrow> nat \<Rightarrow> bool \<Rightarrow> bool \<Rightarrow> u8 \<Rightarrow> bool \<Rightarrow> cmd_if \<Rightarrow> ((errno + nat) \<times> cmd_if) option" where
  "invoke_begin kzalloc_ok queue_ok inb outb uout_sz callback pq token force_polling s =
     (if callback \<and> pq then Some (Inl EINVAL, s)
      else case cmd_alloc_ent kzalloc_ok inb outb uout_sz callback pq s of
             (Inl err, s) \<Rightarrow> Some (Inl err, s)
           | (Inr e, s) \<Rightarrow> do {
               s \<leftarrow> upd_ent e (\<lambda>ent. ent\<lparr>ent_token := token, ent_polling := force_polling, ent_waiting := \<not> callback\<rparr>) s;
               if \<not> pq \<and> \<not> queue_ok then do { s \<leftarrow> cmd_ent_put e s; Some (Inl EALREADY, s) }
               else Some (Inr e, s) })"

text \<open>\<open>wait_func\<close>: the work was not started in time and is cancelled; the command was not completed in time;
  and the end of \<open>mlx5_cmd_invoke\<close>.\<close>

definition wait_cancel :: "nat \<Rightarrow> cmd_if \<Rightarrow> cmd_if option" where
  "wait_cancel e s = upd_ent e (\<lambda>ent. ent\<lparr>ent_ret := Some ECANCELED, ent_work := Work_Finished\<rparr>) s"

definition wait_func_handle_exec_timeout :: "nat \<Rightarrow> cmd_if \<Rightarrow> cmd_if option" where
  "wait_func_handle_exec_timeout e s = do { s \<leftarrow> upd_ent e (ent_ret_update (\<lambda>_. Some ETIMEDOUT)) s; force_comp e s }"

definition invoke_end :: "nat \<Rightarrow> cmd_if \<Rightarrow> cmd_if option" where
  "invoke_end e s = do {
     ent \<leftarrow> ents s e;
     let result = (case ent_ret ent of Some err \<Rightarrow> Inl err | None \<Rightarrow> Inr (ent_status ent));
     s \<leftarrow> cmd_ent_put e (set_ent e (ent\<lparr>ent_waiting := False\<rparr>) s);
     Some (s\<lparr>ret_log := ret_log s @ [(e, result)]\<rparr>) }"

section \<open>Ending the commands of a device that is gone\<close>

fun get_slots :: "nat list \<Rightarrow> cmd_if \<Rightarrow> cmd_if option" where
  "get_slots [] s = Some s"
| "get_slots (i # is) s = do { slot \<leftarrow> nth_opt (ent_arr s) i; e \<leftarrow> slot; s \<leftarrow> cmd_ent_get e s; get_slots is s }"

definition put_slot :: "nat \<Rightarrow> cmd_if \<Rightarrow> cmd_if option" where
  "put_slot i s = do { slot \<leftarrow> nth_opt (ent_arr s) i; e \<leftarrow> slot; cmd_ent_put e s }"

fun put_slots :: "nat list \<Rightarrow> cmd_if \<Rightarrow> cmd_if option" where
  "put_slots [] s = Some s"
| "put_slots (i # is) s = do { s \<leftarrow> put_slot i s; put_slots is s }"

definition busy_slots :: "cmd_if \<Rightarrow> nat list" where
  "busy_slots s = filter (\<lambda>i. \<not> bitmask s ! i) [0..<max_reg_cmds s + 1]"

definition mlx5_cmd_trigger_completions :: "cmd_if \<Rightarrow> cmd_if option" where
  "mlx5_cmd_trigger_completions s =
     (let vector = busy_slots s in
      if vector = [] then Some s
      else do {
        s \<leftarrow> get_slots vector s;
        s \<leftarrow> mlx5_cmd_comp_handler (\<lambda>i. i \<in> set vector) True MLX5_CMD_COMP_TYPE_FORCED s;
        put_slots vector s })"

text \<open>The loops of \<open>mlx5_cmd_flush\<close>, with at most \<open>fuel\<close> calls of \<open>mlx5_cmd_trigger_completions\<close> each; the outer
  \<open>None\<close> is a loop that is still running, the inner one a fault.\<close>

fun flush_down :: "nat \<Rightarrow> bool \<Rightarrow> cmd_if \<Rightarrow> cmd_if option option" where
  "flush_down fuel pages s =
     (if (if pages then pages_sem s else cmd_sem s) \<noteq> 0
      then Some (Some (if pages then s\<lparr>pages_sem := pages_sem s - 1\<rparr> else s\<lparr>cmd_sem := cmd_sem s - 1\<rparr>))
      else case fuel of
             0 \<Rightarrow> None
           | Suc fuel \<Rightarrow> (case mlx5_cmd_trigger_completions s of None \<Rightarrow> Some None | Some s \<Rightarrow> flush_down fuel pages s))"

fun flush_regs :: "nat \<Rightarrow> nat \<Rightarrow> cmd_if \<Rightarrow> cmd_if option option" where
  "flush_regs fuel 0 s = Some (Some s)"
| "flush_regs fuel (Suc n) s =
     (case flush_down fuel False s of
        None \<Rightarrow> None
      | Some None \<Rightarrow> Some None
      | Some (Some s) \<Rightarrow> flush_regs fuel n s)"

definition mlx5_cmd_flush :: "nat \<Rightarrow> cmd_if \<Rightarrow> cmd_if option option" where
  "mlx5_cmd_flush fuel s =
     (case flush_regs fuel (max_reg_cmds s) s of
        Some (Some s) \<Rightarrow>
          (case flush_down fuel True s of
             Some (Some s) \<Rightarrow> Some (Some (s\<lparr>pages_sem := pages_sem s + 1, cmd_sem := cmd_sem s + max_reg_cmds s\<rparr>))
           | r \<Rightarrow> r)
      | r \<Rightarrow> r)"

section \<open>Setting up\<close>

text \<open>The page of the command queue: \<open>first\<close> and \<open>second\<close> are the two allocations, with their virtual and bus addresses.\<close>

definition alloc_cmd_page :: "(u64 \<times> u64) option \<Rightarrow> (u64 \<times> u64) option \<Rightarrow> errno + u64" where
  "alloc_cmd_page first second =
     (case first of
        None \<Rightarrow> Inl ENOMEM
      | Some (virt, dma) \<Rightarrow>
          if virt AND 0xFFF = 0 then Inr dma
          else case second of
                 None \<Rightarrow> Inl ENOMEM
               | Some (virt, dma) \<Rightarrow> Inr ((dma + 0xFFF) AND NOT 0xFFF))"

definition MLX5_MAX_COMMANDS :: nat where "MLX5_MAX_COMMANDS = 32"

text \<open>\<open>cmdif_rev\<close> and \<open>cmd_l\<close> are read from the device; \<open>caches\<close> is what \<open>create_msg_cache\<close> makes of the messages.\<close>

definition mlx5_cmd_enable ::
  "u16 \<Rightarrow> u32 \<Rightarrow> bool \<Rightarrow> (u64 \<times> u64) option \<Rightarrow> (u64 \<times> u64) option \<Rightarrow> (mlx5_cmd \<Rightarrow> mlx5_cmd) \<Rightarrow> cmd_if \<Rightarrow> errno option \<times> cmd_if" where
  "mlx5_cmd_enable cmdif_rev cmd_l pool_ok first second caches s =
     (let s = s\<lparr>log_sz := 0, max_reg_cmds := 0, bitmask := [], cmd_sem := 0, pages_sem := 0,
                  if_msgs := (if_msgs s)\<lparr>cmd_cache := [], throttle_sem := 0\<rparr>\<rparr> in
      if cmdif_rev \<noteq> 5 then (Some EINVAL, s)
      else let cmd_l = cmd_l AND 0xFF;
               lsz = unat (drop_bit 4 cmd_l AND 0xF);
               log_stride = unat (cmd_l AND 0xF) in
        if 2 ^ lsz > MLX5_MAX_COMMANDS then (Some EINVAL, s\<lparr>log_sz := lsz\<rparr>)
        else if lsz + log_stride > 12 then (Some EINVAL, s\<lparr>log_sz := lsz\<rparr>)
        else let n = 2 ^ lsz - 1;
                 s = s\<lparr>log_sz := lsz, if_down := True, max_reg_cmds := n, bitmask := replicate (n + 1) True,
                       cmd_sem := n, pages_sem := 1, if_msgs := (if_msgs s)\<lparr>throttle_sem := (n + 1) div 2\<rparr>\<rparr> in
          if \<not> pool_ok then (Some ENOMEM, s)
          else case alloc_cmd_page first second of
                 Inl err \<Rightarrow> (Some err, s)
               | Inr dma \<Rightarrow>
                   if dma AND 0xFFF \<noteq> 0 then (Some ENOMEM, s)
                   else (None, s\<lparr>cmd_buf := replicate (2 ^ lsz) (replicate cmd_layout_size 0), mode_events := False,
                                 allowed_opcode := None, if_msgs := caches (if_msgs s)\<rparr>))"

text \<open>Changes of the mode and of the allowed command wait until they have every slot.\<close>

definition all_slots_free :: "cmd_if \<Rightarrow> bool" where
  "all_slots_free s \<longleftrightarrow> max_reg_cmds s \<le> cmd_sem s \<and> 1 \<le> pages_sem s"

definition mlx5_cmd_change_mod :: "bool \<Rightarrow> cmd_if \<Rightarrow> cmd_if option" where
  "mlx5_cmd_change_mod events s = (if all_slots_free s then Some (s\<lparr>mode_events := events\<rparr>) else None)"

definition mlx5_cmd_allowed_opcode :: "u16 option \<Rightarrow> cmd_if \<Rightarrow> cmd_if option" where
  "mlx5_cmd_allowed_opcode opcode s = (if all_slots_free s then Some (s\<lparr>allowed_opcode := opcode\<rparr>) else None)"

text \<open>An event of the device for slot \<open>i\<close>; the events of a device that failed are ignored.\<close>

definition cmd_comp_notifier :: "nat \<Rightarrow> cmd_if \<Rightarrow> cmd_if option" where
  "cmd_comp_notifier i s =
     (if if_down s then Some s
      else mlx5_cmd_comp_handler (\<lambda>j. j = i) False MLX5_CMD_COMP_TYPE_EVENT (s\<lparr>fw_slot := (fw_slot s)(i := Fw_Idle)\<rparr>))"

section \<open>The device\<close>

text \<open>The device answers: it writes the queue entry and the output mailboxes.\<close>

definition fw_answer :: "nat \<Rightarrow> u8 list \<Rightarrow> mlx5_cmd_mailbox list \<Rightarrow> cmd_if \<Rightarrow> cmd_if option" where
  "fw_answer i lay boxes s = do {
     slot \<leftarrow> nth_opt (ent_arr s) i;
     e \<leftarrow> slot;
     buf \<leftarrow> upd_opt (cmd_buf s) i lay;
     upd_ent e (\<lambda>ent. ent\<lparr>ent_out := (ent_out ent)\<lparr>cm_next := boxes\<rparr>\<rparr>)
       (s\<lparr>cmd_buf := buf, fw_slot := (fw_slot s)(i := Fw_Answered)\<rparr>) }"

text \<open>The device fails, with the loss of what it was working on, and comes back.\<close>

definition dev_fail :: "cmd_if \<Rightarrow> cmd_if" where
  "dev_fail s = s\<lparr>if_down := True, fw_slot := (\<lambda>i. if fw_slot s i = Fw_Idle then Fw_Idle else Fw_Lost)\<rparr>"

definition dev_up :: "cmd_if \<Rightarrow> cmd_if" where
  "dev_up s = s\<lparr>if_down := False\<rparr>"

section \<open>A command on its own\<close>

text \<open>\<open>mlx5_cmd_invoke\<close> for a caller that waits, when the worker, the device and its event run one after the other.
  \<open>fw\<close> is what the device writes: from the queue entry and the two messages, the queue entry and the output mailboxes.\<close>

definition mlx5_cmd_invoke ::
  "bool \<Rightarrow> (u8 list \<Rightarrow> mlx5_cmd_msg \<Rightarrow> mlx5_cmd_msg \<Rightarrow> u8 list \<times> mlx5_cmd_mailbox list) \<Rightarrow> mlx5_cmd_msg \<Rightarrow> mlx5_cmd_msg \<Rightarrow> u8 \<Rightarrow> cmd_if \<Rightarrow>
   ((errno + u8) \<times> mlx5_cmd_msg \<times> cmd_if) option" where
  "mlx5_cmd_invoke kzalloc_ok fw inb outb token s = do {
     (r, s) \<leftarrow> invoke_begin kzalloc_ok True inb outb 0 False False token False s;
     (case r of
        Inl err \<Rightarrow> Some (Inl err, outb, s)
      | Inr e \<Rightarrow> do {
          s \<leftarrow> work_slot e s;
          s \<leftarrow> work_submit e s;
          ent \<leftarrow> ents s e;
          i \<leftarrow> ent_idx ent;
          lay \<leftarrow> nth_opt (cmd_buf s) i;
          s \<leftarrow> (if pending_comp ent
                then let (lay, boxes) = fw lay (ent_in ent) (ent_out ent)
                     in do { s \<leftarrow> fw_answer i lay boxes s; cmd_comp_notifier i s }
                else Some s);
          ent \<leftarrow> ents s e;
          s \<leftarrow> invoke_end e s;
          Some (snd (last (ret_log s)), ent_out ent, s) }) }"

section \<open>The invariant\<close>

definition submitted :: "mlx5_cmd_work_ent \<Rightarrow> bool" where
  "submitted ent \<longleftrightarrow> ent_work ent = Work_Finished \<and> ent_idx ent \<noteq> None"

text \<open>The four references to an entry: of the caller or the callback, of the time-out, of the device, and of
  \<open>mlx5_cmd_trigger_completions\<close>.\<close>

definition consumer_ref :: "mlx5_cmd_work_ent \<Rightarrow> bool" where
  "consumer_ref ent \<longleftrightarrow> (if ent_callback ent then \<not> submitted ent \<or> pending_comp ent else ent_waiting ent)"

definition fw_ref :: "cmd_if \<Rightarrow> mlx5_cmd_work_ent \<Rightarrow> bool" where
  "fw_ref s ent \<longleftrightarrow> ent_work ent = Work_Finished \<and> \<not> rref_cleared ent \<and>
     (case ent_idx ent of None \<Rightarrow> False | Some i \<Rightarrow> fw_slot s i \<noteq> Fw_Idle)"

definition trig_ref :: "cmd_if \<Rightarrow> mlx5_cmd_work_ent \<Rightarrow> bool" where
  "trig_ref s ent \<longleftrightarrow> (case ent_idx ent of None \<Rightarrow> False | Some i \<Rightarrow> i \<in> set (trig_put s))"

definition refs :: "cmd_if \<Rightarrow> mlx5_cmd_work_ent \<Rightarrow> nat" where
  "refs s ent = of_bool (consumer_ref ent) + of_bool (cb_timeout_work ent \<noteq> Dw_Idle) + of_bool (fw_ref s ent) + of_bool (trig_ref s ent)"

abbreviation fw_has :: "cmd_if \<Rightarrow> nat \<Rightarrow> bool" where
  "fw_has s i \<equiv> fw_slot s i = Fw_Busy \<or> fw_slot s i = Fw_Answered"

text \<open>What holds of every entry at every moment, and what holds of an entry no handler is at work on.\<close>

definition ent_base :: "cmd_if \<Rightarrow> nat \<Rightarrow> mlx5_cmd_work_ent \<Rightarrow> bool" where
  "ent_base s e ent \<longleftrightarrow> e < next_ent s \<and> \<not> ent_polling ent \<and> (ent_callback ent \<longrightarrow> \<not> page_queue ent) \<and>
     (\<forall>i. ent_idx ent = Some i \<longrightarrow> i \<le> max_reg_cmds s \<and> \<not> bitmask s ! i \<and> ent_arr s ! i = Some e \<and> (page_queue ent \<longleftrightarrow> i = max_reg_cmds s))"

definition ent_unslotted :: "mlx5_cmd_work_ent \<Rightarrow> bool" where
  "ent_unslotted ent \<longleftrightarrow> \<not> pending_comp ent \<and> \<not> rref_cleared ent \<and>
     (ent_work ent = Work_Queued \<and> (ent_callback ent \<or> ent_waiting ent) \<and> \<not> ent_done ent \<and> \<not> ent_slotted ent \<and> ent_ret ent = None \<or>
      ent_work ent = Work_Finished \<and> \<not> ent_callback ent \<and> (ent_done ent \<and> ent_slotted ent \<or> ent_ret ent = Some ECANCELED))"

definition ent_in_slot :: "cmd_if \<Rightarrow> nat \<Rightarrow> mlx5_cmd_work_ent \<Rightarrow> bool" where
  "ent_in_slot s i ent \<longleftrightarrow> ent_slotted ent \<and>
     (ent_work ent = Work_Slotted \<and> (ent_callback ent \<or> ent_waiting ent) \<and> \<not> pending_comp ent \<and> \<not> rref_cleared ent \<and> \<not> ent_done ent \<and> \<not> fw_has s i \<or>
      ent_work ent = Work_Finished \<and> (pending_comp ent \<longrightarrow> fw_ref s ent \<and> opcode_allowed s (ent_op ent)) \<and>
        (\<not> ent_callback ent \<longrightarrow> (ent_done ent \<longleftrightarrow> \<not> pending_comp ent) \<and> (pending_comp ent \<longrightarrow> ent_waiting ent)) \<and> (fw_has s i \<longrightarrow> \<not> rref_cleared ent))"

definition ent_rest :: "cmd_if \<Rightarrow> nat \<Rightarrow> mlx5_cmd_work_ent \<Rightarrow> bool" where
  "ent_rest s e ent \<longleftrightarrow>
     (\<not> ent_callback ent \<or> \<not> submitted ent \<longrightarrow> cb_timeout_work ent = Dw_Idle) \<and>
     (ent_callback ent \<longrightarrow> \<not> ent_waiting ent \<and> (e \<in> fst ` set (cb_log s) \<longleftrightarrow> \<not> consumer_ref ent)) \<and>
     (\<not> ent_callback ent \<longrightarrow> (e \<in> fst ` set (ret_log s) \<longleftrightarrow> \<not> consumer_ref ent)) \<and>
     (case ent_idx ent of None \<Rightarrow> ent_unslotted ent | Some i \<Rightarrow> ent_in_slot s i ent)"

definition ent_full :: "cmd_if \<Rightarrow> nat \<Rightarrow> mlx5_cmd_work_ent \<Rightarrow> bool" where
  "ent_full s e ent \<longleftrightarrow> refcnt ent = refs s ent \<and> 0 < refcnt ent \<and> ent_rest s e ent"

definition slot_owned :: "cmd_if \<Rightarrow> nat \<Rightarrow> bool" where
  "slot_owned s i \<longleftrightarrow> (\<exists>e ent. ent_arr s ! i = Some e \<and> ents s e = Some ent \<and> ent_idx ent = Some i)"

definition queue_shape :: "cmd_if \<Rightarrow> bool" where
  "queue_shape s \<longleftrightarrow> max_reg_cmds s + 1 = 2 ^ log_sz s \<and> length (bitmask s) = max_reg_cmds s + 1 \<and>
     max_reg_cmds s < length (ent_arr s) \<and> length (cmd_buf s) = max_reg_cmds s + 1 \<and> mode_events s"

definition sems_count :: "cmd_if \<Rightarrow> bool" where
  "sems_count s \<longleftrightarrow> cmd_sem s = count_list (take (max_reg_cmds s) (bitmask s)) True \<and> pages_sem s = of_bool (bitmask s ! max_reg_cmds s)"

definition slots_used :: "cmd_if \<Rightarrow> bool" where
  "slots_used s \<longleftrightarrow> (\<forall>i\<le>max_reg_cmds s. (bitmask s ! i \<longrightarrow> \<not> fw_has s i \<and> i \<notin> set (trig_put s)) \<and> (\<not> bitmask s ! i \<longrightarrow> slot_owned s i))"

definition env_ok :: "cmd_if \<Rightarrow> bool" where
  "env_ok s \<longleftrightarrow> (if_down s \<longrightarrow> (\<forall>i. \<not> fw_has s i)) \<and> (\<forall>i. fw_has s i \<longrightarrow> i \<le> max_reg_cmds s) \<and>
     (\<forall>i\<in>set (trig_put s). i \<le> max_reg_cmds s) \<and> distinct (trig_put s) \<and> set (trig_comp s) \<subseteq> set (trig_put s)"

definition logs_ok :: "cmd_if \<Rightarrow> bool" where
  "logs_ok s \<longleftrightarrow> distinct (map fst (cb_log s)) \<and> distinct (map fst (ret_log s)) \<and>
     fst ` set (cb_log s) \<subseteq> {..<next_ent s} \<and> fst ` set (ret_log s) \<subseteq> {..<next_ent s}"

definition slots_glob :: "cmd_if \<Rightarrow> bool" where
  "slots_glob s \<longleftrightarrow> queue_shape s \<and> sems_count s \<and> slots_used s \<and> env_ok s \<and> logs_ok s"

text \<open>\<open>x\<close> is the entry a handler is at work on, if any.\<close>

definition slots_ok :: "nat option \<Rightarrow> cmd_if \<Rightarrow> bool" where
  "slots_ok x s \<longleftrightarrow> slots_glob s \<and>
     (\<forall>e ent. ents s e = Some ent \<longrightarrow> ent_base s e ent \<and> (x \<noteq> Some e \<longrightarrow> ent_full s e ent))"

named_theorems slot_simps \<open>unfolding of the operations on entries\<close>

lemma set_ent_sel [simp]:
  "ents (set_ent e ent s) = (ents s)(e := Some ent)" "log_sz (set_ent e ent s) = log_sz s" "max_reg_cmds (set_ent e ent s) = max_reg_cmds s"
  "bitmask (set_ent e ent s) = bitmask s" "cmd_sem (set_ent e ent s) = cmd_sem s" "pages_sem (set_ent e ent s) = pages_sem s"
  "ent_arr (set_ent e ent s) = ent_arr s" "cmd_buf (set_ent e ent s) = cmd_buf s" "mode_events (set_ent e ent s) = mode_events s"
  "allowed_opcode (set_ent e ent s) = allowed_opcode s" "checksum_disabled (set_ent e ent s) = checksum_disabled s"
  "if_down (set_ent e ent s) = if_down s" "next_ent (set_ent e ent s) = next_ent s" "cb_log (set_ent e ent s) = cb_log s"
  "ret_log (set_ent e ent s) = ret_log s" "fw_slot (set_ent e ent s) = fw_slot s" "trig_comp (set_ent e ent s) = trig_comp s"
  "trig_put (set_ent e ent s) = trig_put s" "if_msgs (set_ent e ent s) = if_msgs s"
  by (simp_all add: set_ent_def)

lemma set_ent_twice [simp]: "set_ent e a (set_ent e b s) = set_ent e a s"
  by (simp add: set_ent_def)

text \<open>What these predicates depend on.\<close>

lemma fw_ref_cong: "fw_slot s' = fw_slot s \<Longrightarrow> fw_ref s' = fw_ref s"
  by (rule ext) (simp add: fw_ref_def split: option.split)

lemma trig_ref_cong: "trig_put s' = trig_put s \<Longrightarrow> trig_ref s' = trig_ref s"
  by (rule ext) (simp add: trig_ref_def split: option.split)

lemma opcode_allowed_cong: "allowed_opcode s' = allowed_opcode s \<Longrightarrow> opcode_allowed s' = opcode_allowed s"
  by (rule ext) (simp add: opcode_allowed_def)

lemma refs_cong: "fw_slot s' = fw_slot s \<Longrightarrow> trig_put s' = trig_put s \<Longrightarrow> refs s' = refs s"
  by (rule ext) (simp add: refs_def fw_ref_cong [of s' s] trig_ref_cong [of s' s])

lemma ent_in_slot_cong: "fw_slot s' = fw_slot s \<Longrightarrow> allowed_opcode s' = allowed_opcode s \<Longrightarrow> ent_in_slot s' = ent_in_slot s"
  by (intro ext) (simp add: ent_in_slot_def fw_ref_cong [of s' s] opcode_allowed_cong [of s' s])

lemma ent_rest_cong:
  assumes "fw_slot s' = fw_slot s" "allowed_opcode s' = allowed_opcode s" "cb_log s' = cb_log s" "ret_log s' = ret_log s"
  shows "ent_rest s' = ent_rest s"
  using assms ent_in_slot_cong [OF assms(1,2)] by (intro ext) (simp add: ent_rest_def split: option.split)

lemma ent_full_cong:
  assumes "fw_slot s' = fw_slot s" "trig_put s' = trig_put s" "allowed_opcode s' = allowed_opcode s" "cb_log s' = cb_log s" "ret_log s' = ret_log s"
  shows "ent_full s' = ent_full s"
  using refs_cong [OF assms(1,2)] ent_rest_cong [OF assms(1,3,4,5)] by (intro ext) (simp add: ent_full_def)

lemma ent_base_cong:
  assumes "next_ent s' = next_ent s" "max_reg_cmds s' = max_reg_cmds s" "bitmask s' = bitmask s" "ent_arr s' = ent_arr s"
  shows "ent_base s' = ent_base s"
  using assms by (intro ext) (simp add: ent_base_def)

lemma opcode_allowed_set_ent [simp]: "opcode_allowed (set_ent e ent s) = opcode_allowed s"
  by (rule opcode_allowed_cong) simp

lemma refs_set_ent [simp]:
  "fw_ref (set_ent e ent s) = fw_ref s" "trig_ref (set_ent e ent s) = trig_ref s" "refs (set_ent e ent s) = refs s"
  by (rule fw_ref_cong trig_ref_cong refs_cong; simp)+

lemma ent_preds_set_ent [simp]:
  "ent_base (set_ent e ent s) = ent_base s" "ent_in_slot (set_ent e ent s) = ent_in_slot s" "ent_full (set_ent e ent s) = ent_full s"
  "ent_rest (set_ent e ent s) = ent_rest s"
  by (rule ent_base_cong ent_in_slot_cong ent_full_cong ent_rest_cong; simp)+

lemma slots_okD:
  assumes "slots_ok x s" "ents s e = Some ent"
  shows "ent_base s e ent" "x \<noteq> Some e \<Longrightarrow> ent_full s e ent"
  using assms by (auto simp: slots_ok_def)

lemma slots_ok_glob: "slots_ok x s \<Longrightarrow> slots_glob s"
  by (simp add: slots_ok_def)

text \<open>A handler may change an entry, as long as it keeps its slot.\<close>

lemma slots_glob_set_ent:
  assumes "slots_glob s" "ents s e = Some ent" "ent_idx ent' = ent_idx ent"
  shows "slots_glob (set_ent e ent' s)"
proof -
  have "slot_owned (set_ent e ent' s) i" if "slot_owned s i" for i
    using that assms(2,3) by (auto simp: slot_owned_def)
  then have "slots_used (set_ent e ent' s)" using assms(1) by (auto simp: slots_glob_def slots_used_def)
  moreover have "queue_shape (set_ent e ent' s) = queue_shape s" "sems_count (set_ent e ent' s) = sems_count s"
    "env_ok (set_ent e ent' s) = env_ok s" "logs_ok (set_ent e ent' s) = logs_ok s"
    by (simp_all add: queue_shape_def sems_count_def env_ok_def logs_ok_def)
  ultimately show ?thesis using assms(1) by (simp add: slots_glob_def)
qed

lemma slots_ok_set:
  assumes "slots_ok x s" "x = None \<or> x = Some e" "ents s e = Some ent"
    and "ent_idx ent' = ent_idx ent" "page_queue ent' = page_queue ent" "ent_callback ent' = ent_callback ent" "ent_polling ent' = ent_polling ent"
  shows "slots_ok (Some e) (set_ent e ent' s)"
proof -
  have "ent_base s e ent'" using slots_okD(1) [OF assms(1,3)] assms(4-7) by (simp add: ent_base_def)
  then show ?thesis
    using assms slots_glob_set_ent [OF slots_ok_glob [OF assms(1)] assms(3,4)] by (auto simp: slots_ok_def)
qed

lemma slots_ok_close:
  assumes "slots_ok (Some e) s" "\<And>ent. ents s e = Some ent \<Longrightarrow> ent_full s e ent"
  shows "slots_ok None s"
  using assms by (auto simp: slots_ok_def)

lemma slots_ok_open: "slots_ok None s \<Longrightarrow> slots_ok x s"
  by (simp add: slots_ok_def)

section \<open>Taking and dropping references\<close>

lemma ent_get_some [slot_simps]: "ents s e = Some ent \<Longrightarrow> cmd_ent_get e s = Some (set_ent e (ent\<lparr>refcnt := refcnt ent + 1\<rparr>) s)"
  by (simp add: cmd_ent_get_def upd_ent_def)

lemma upd_ent_some [slot_simps]: "ents s e = Some ent \<Longrightarrow> upd_ent e f s = Some (set_ent e (f ent) s)"
  by (simp add: upd_ent_def)

lemma ent_put_some [slot_simps]:
  "ents s e = Some ent \<Longrightarrow> refcnt ent \<noteq> 1 \<Longrightarrow> cmd_ent_put e s = Some (set_ent e (ent\<lparr>refcnt := refcnt ent - 1\<rparr>) s)"
  by (simp add: cmd_ent_put_def)

text \<open>The last reference: the entry and its slot are freed.\<close>

lemma count_take_free:
  assumes "i < n" "n < length xs" "\<not> xs ! i"
  shows "count_list (take n (xs[i := True])) True = Suc (count_list (take n xs) True)"
  using assms by (simp add: take_update_swap count_list_update)

lemma nth_list_update_eq_if: "i < length xs \<Longrightarrow> xs[k := v] ! i = (if k = i then v else xs ! i)"
  by auto

text \<open>The part of the state that references have nothing to do with.\<close>

definition same_env :: "cmd_if \<Rightarrow> cmd_if \<Rightarrow> bool" where
  "same_env s s' \<longleftrightarrow> fw_slot s' = fw_slot s \<and> trig_put s' = trig_put s \<and> trig_comp s' = trig_comp s \<and> next_ent s' = next_ent s \<and>
     if_down s' = if_down s \<and> allowed_opcode s' = allowed_opcode s \<and> ent_arr s' = ent_arr s \<and> max_reg_cmds s' = max_reg_cmds s \<and>
     log_sz s' = log_sz s \<and> cmd_buf s' = cmd_buf s \<and> mode_events s' = mode_events s"

lemma same_env_refl [simp]: "same_env s s"
  by (simp add: same_env_def)

lemma same_env_trans: "same_env s t \<Longrightarrow> same_env t u \<Longrightarrow> same_env s u"
  by (simp add: same_env_def)

lemma same_env_set_ent [simp]: "same_env s (set_ent e ent t) = same_env s t" "same_env (set_ent e ent s) t = same_env s t"
  by (simp_all add: same_env_def)

lemma ent_put_free:
  assumes ok: "slots_ok (Some e) s" and e: "ents s e = Some ent" "refcnt ent = 1"
    and unused: "\<And>i. ent_idx ent = Some i \<Longrightarrow> \<not> fw_has s i \<and> i \<notin> set (trig_put s)"
  obtains s' where "cmd_ent_put e s = Some s'" "slots_ok None s'" "ents s' = (ents s)(e := None)"
    "same_env s s'" "cb_log s' = cb_log s" "ret_log s' = ret_log s"
proof -
  note g = slots_ok_glob [OF ok] and b = slots_okD(1) [OF ok e(1)]
  define m where "m = (case ent_idx ent of None \<Rightarrow> bitmask s | Some i \<Rightarrow> (bitmask s)[i := True])"
  define a where "a = cmd_sem s + of_bool (ent_idx ent \<noteq> None \<and> \<not> page_queue ent)"
  define p where "p = pages_sem s + of_bool (ent_idx ent \<noteq> None \<and> page_queue ent)"
  define s' where "s' = s\<lparr>bitmask := m, cmd_sem := a, pages_sem := p, ents := (ents s)(e := None)\<rparr>"
  have put: "cmd_ent_put e s = Some s'"
    using e by (auto simp: cmd_ent_put_def s'_def m_def a_def p_def cmd_free_index_def Let_def split: option.split)
  have len: "length m = length (bitmask s)" by (simp add: m_def split: option.split)
  have same: "ent_full s' = ent_full s" by (rule ent_full_cong) (simp_all add: s'_def)
  have mine: "ent_idx ent = Some i \<Longrightarrow> ents s e' = Some x \<Longrightarrow> ent_idx x = Some i \<Longrightarrow> e' = e" for i e' x
    using b slots_okD(1) [OF ok, of e' x] by (auto simp: ent_base_def)
  have bits: "m ! i \<longleftrightarrow> bitmask s ! i \<or> ent_idx ent = Some i" if "i \<le> max_reg_cmds s" for i
    using g that by (cases "ent_idx ent") (auto simp: m_def slots_glob_def queue_shape_def nth_list_update_eq_if)
  have base: "ent_base s' e' x" if "ents s' e' = Some x" for e' x
  proof -
    from that have x: "e' \<noteq> e" "ents s e' = Some x" by (auto simp: s'_def split: if_splits)
    then show ?thesis using slots_okD(1) [OF ok x(2)] bits mine [OF _ x(2)]
      by (fastforce simp: ent_base_def s'_def)
  qed
  have owned: "slot_owned s' i" if "i \<le> max_reg_cmds s" "\<not> m ! i" for i
  proof -
    have "slot_owned s i" using g that bits [OF that(1)] by (auto simp: slots_glob_def slots_used_def)
    then obtain e' x where x: "ent_arr s ! i = Some e'" "ents s e' = Some x" "ent_idx x = Some i" by (auto simp: slot_owned_def)
    then have "e' \<noteq> e" using that bits [OF that(1)] e by auto
    then show ?thesis using x by (auto simp: slot_owned_def s'_def)
  qed
  have sems: "a = count_list (take (max_reg_cmds s) m) True \<and> p = of_bool (m ! max_reg_cmds s)"
  proof (cases "ent_idx ent")
    case None
    then show ?thesis using g by (simp add: a_def p_def m_def slots_glob_def sems_count_def queue_shape_def)
  next
    case (Some i)
    then have i: "i \<le> max_reg_cmds s" "\<not> bitmask s ! i" "page_queue ent \<longleftrightarrow> i = max_reg_cmds s" using b by (auto simp: ent_base_def)
    show ?thesis
    proof (cases "i = max_reg_cmds s")
      case True
      then show ?thesis using Some i g by (simp add: a_def p_def m_def slots_glob_def sems_count_def queue_shape_def)
    next
      case False
      then show ?thesis using Some i g count_take_free [of i "max_reg_cmds s" "bitmask s"]
        by (simp add: a_def p_def m_def slots_glob_def sems_count_def queue_shape_def)
    qed
  qed
  have "slots_used s'"
    using g bits owned unused by (auto simp: slots_glob_def slots_used_def s'_def)
  moreover have "queue_shape s' = queue_shape s" "env_ok s' = env_ok s" "logs_ok s' = logs_ok s" "sems_count s'"
    using sems len by (simp_all add: queue_shape_def sems_count_def env_ok_def logs_ok_def s'_def)
  ultimately have "slots_glob s'" using g by (simp add: slots_glob_def)
  moreover have "ent_full s' e' x" if "ents s' e' = Some x" for e' x
    using slots_okD(2) [OF ok, of e' x] that same by (auto simp: s'_def split: if_splits)
  ultimately have "slots_ok None s'" using base by (auto simp: slots_ok_def)
  then show ?thesis using that [OF put] by (simp add: s'_def same_env_def)
qed

text \<open>The number of references does not matter to the other predicates.\<close>

lemma refcnt_irrelevant [simp]:
  "refs s (ent\<lparr>refcnt := n\<rparr>) = refs s ent" "ent_rest s e (ent\<lparr>refcnt := n\<rparr>) = ent_rest s e ent"
proof -
  have *: "consumer_ref (ent\<lparr>refcnt := n\<rparr>) = consumer_ref ent" "submitted (ent\<lparr>refcnt := n\<rparr>) = submitted ent"
    "fw_ref s (ent\<lparr>refcnt := n\<rparr>) = fw_ref s ent" "trig_ref s (ent\<lparr>refcnt := n\<rparr>) = trig_ref s ent"
    "ent_unslotted (ent\<lparr>refcnt := n\<rparr>) = ent_unslotted ent"
    by (simp_all add: consumer_ref_def submitted_def fw_ref_def trig_ref_def ent_unslotted_def)
  then have "ent_in_slot s i (ent\<lparr>refcnt := n\<rparr>) = ent_in_slot s i ent" for i by (simp add: ent_in_slot_def)
  with * show "refs s (ent\<lparr>refcnt := n\<rparr>) = refs s ent" "ent_rest s e (ent\<lparr>refcnt := n\<rparr>) = ent_rest s e ent"
    by (simp_all add: refs_def ent_rest_def split: option.split)
qed

text \<open>Dropping a reference that none of the four holders has any more.\<close>

lemma unreferenced_slot:
  assumes "ent_rest s e ent" "refs s ent = 0" "ent_idx ent = Some i"
  shows "\<not> fw_has s i \<and> i \<notin> set (trig_put s)"
  using assms by (auto simp: ent_rest_def refs_def fw_ref_def trig_ref_def ent_in_slot_def split: if_splits)

lemma drop_ref:
  assumes ok: "slots_ok (Some e) s" and e: "ents s e = Some ent" "refcnt ent = Suc (refs s ent)" "ent_rest s e ent"
  obtains s' where "cmd_ent_put e s = Some s'" "slots_ok None s'" "same_env s s'" "cb_log s' = cb_log s" "ret_log s' = ret_log s"
    "ents s' = (ents s)(e := if refs s ent = 0 then None else Some (ent\<lparr>refcnt := refs s ent\<rparr>))"
proof (cases "refs s ent = 0")
  case True
  then have one: "refcnt ent = 1" using e(2) by simp
  obtain s' where "cmd_ent_put e s = Some s'" "slots_ok None s'" "ents s' = (ents s)(e := None)" "same_env s s'"
    "cb_log s' = cb_log s" "ret_log s' = ret_log s"
    by (rule ent_put_free [OF ok e(1) one]) (use unreferenced_slot [OF e(3) True] in blast)+
  then show ?thesis using that True by simp
next
  case False
  have put: "cmd_ent_put e s = Some (set_ent e (ent\<lparr>refcnt := refs s ent\<rparr>) s)" using e False by (simp add: ent_put_some)
  have "slots_ok (Some e) (set_ent e (ent\<lparr>refcnt := refs s ent\<rparr>) s)" by (rule slots_ok_set [OF ok _ e(1)]) simp_all
  then have "slots_ok None (set_ent e (ent\<lparr>refcnt := refs s ent\<rparr>) s)"
    by (rule slots_ok_close) (use e(3) False in \<open>auto simp: ent_full_def\<close>)
  then show ?thesis using that [OF put] False by simp
qed

text \<open>The messages and the log of the callbacks.\<close>

lemma slots_ok_env:
  assumes ok: "slots_ok x s" and env: "same_env s s'" "ents s' = ents s" "bitmask s' = bitmask s" "cmd_sem s' = cmd_sem s" "pages_sem s' = pages_sem s"
    and logs: "logs_ok s'" "\<And>e ent. ents s e = Some ent \<Longrightarrow> x \<noteq> Some e \<Longrightarrow> ent_rest s e ent \<Longrightarrow> ent_rest s' e ent"
  shows "slots_ok x s'"
proof -
  have "queue_shape s' = queue_shape s" "sems_count s' = sems_count s" "slots_used s' = slots_used s" "env_ok s' = env_ok s"
    using env by (simp_all add: same_env_def queue_shape_def sems_count_def slots_used_def slot_owned_def env_ok_def)
  moreover have "ent_base s' = ent_base s" "refs s' = refs s"
    using env by (auto simp: same_env_def intro!: ent_base_cong refs_cong)
  ultimately show ?thesis using ok logs env(2) unfolding slots_ok_def slots_glob_def ent_full_def by metis
qed

lemma slots_ok_msgs: "slots_ok x (s\<lparr>if_msgs := c\<rparr>) \<longleftrightarrow> slots_ok x s"
proof -
  have "slots_ok x (s\<lparr>if_msgs := c\<rparr>)" if "slots_ok x s" for s c
    using that slots_ok_glob [OF that]
    by (intro slots_ok_env [OF that]) (auto simp: same_env_def slots_glob_def logs_ok_def ent_rest_cong [of "s\<lparr>if_msgs := c\<rparr>" s])
  from this [of "s\<lparr>if_msgs := c\<rparr>" "if_msgs s"] this [of s c] show ?thesis by auto
qed

lemma slots_ok_call_back:
  assumes "slots_ok (Some e) s" "e \<notin> fst ` set (cb_log s)" "e < next_ent s"
  shows "slots_ok (Some e) (call_back e err out s)"
proof (rule slots_ok_env [OF assms(1)])
  show "logs_ok (call_back e err out s)"
    using slots_ok_glob [OF assms(1)] assms(2,3) by (auto simp: slots_glob_def logs_ok_def call_back_def)
  fix e' ent
  assume "Some e \<noteq> Some e'" "ent_rest s e' ent"
  moreover have "ent_in_slot (call_back e err out s) = ent_in_slot s" by (rule ent_in_slot_cong) (simp_all add: call_back_def)
  ultimately show "ent_rest (call_back e err out s) e' ent" by (simp add: ent_rest_def call_back_def split: option.splits)
qed (simp_all add: same_env_def call_back_def)

lemma put_call_back: "cmd_ent_put e (call_back e' err out s) = map_option (call_back e' err out) (cmd_ent_put e s)"
  by (cases "ents s e") (simp_all add: cmd_ent_put_def call_back_def set_ent_def cmd_free_index_def Let_def split: option.split)

section \<open>Completing a command\<close>

lemma comp_result_sel [simp]:
  "ent_idx (comp_result t c lay ent) = ent_idx ent" "ent_callback (comp_result t c lay ent) = ent_callback ent"
  "page_queue (comp_result t c lay ent) = page_queue ent" "ent_polling (comp_result t c lay ent) = ent_polling ent"
  "ent_work (comp_result t c lay ent) = ent_work ent" "ent_waiting (comp_result t c lay ent) = ent_waiting ent"
  "cb_timeout_work (comp_result t c lay ent) = cb_timeout_work ent" "pending_comp (comp_result t c lay ent) = pending_comp ent"
  "rref_cleared (comp_result t c lay ent) = rref_cleared ent" "ent_slotted (comp_result t c lay ent) = ent_slotted ent"
  "ent_done (comp_result t c lay ent) = ent_done ent" "refcnt (comp_result t c lay ent) = refcnt ent" "ent_op (comp_result t c lay ent) = ent_op ent"
  by (simp_all add: comp_result_def Let_def)

lemma set_ent_same: "ents s e = Some ent \<Longrightarrow> set_ent e ent s = s"
  by (simp add: set_ent_def fun_upd_idem)

text \<open>An entry whose completion has begun: \<open>PENDING_COMP\<close> was just cleared. \<open>clr\<close> says that the reference of the device
  is dropped.\<close>

definition completing :: "cmd_if \<Rightarrow> bool \<Rightarrow> nat \<Rightarrow> nat \<Rightarrow> mlx5_cmd_work_ent \<Rightarrow> bool" where
  "completing s clr i e ent \<longleftrightarrow> ent_idx ent = Some i \<and> ent_work ent = Work_Finished \<and> ent_slotted ent \<and> \<not> pending_comp ent \<and> \<not> rref_cleared ent \<and>
     refcnt ent = 2 + of_bool (cb_timeout_work ent \<noteq> Dw_Idle) + of_bool (trig_ref s ent) \<and>
     (if ent_callback ent then \<not> ent_waiting ent \<and> e \<notin> fst ` set (cb_log s)
      else ent_waiting ent \<and> \<not> ent_done ent \<and> cb_timeout_work ent = Dw_Idle \<and> e \<notin> fst ` set (ret_log s)) \<and>
     (if clr then \<not> fw_has s i else fw_slot s i \<noteq> Fw_Idle)"

definition dropped :: "bool \<Rightarrow> mlx5_cmd_work_ent \<Rightarrow> mlx5_cmd_work_ent" where
  "dropped clr ent =
     (let ent = (if ent_callback ent \<and> cb_timeout_work ent = Dw_Queued then ent\<lparr>cb_timeout_work := Dw_Idle, refcnt := refcnt ent - 1\<rparr> else ent)
      in if clr then ent\<lparr>rref_cleared := True, refcnt := refcnt ent - 1\<rparr> else ent)"

lemma dropped_sel [simp]:
  "ent_idx (dropped clr ent) = ent_idx ent" "ent_callback (dropped clr ent) = ent_callback ent"
  "page_queue (dropped clr ent) = page_queue ent" "ent_polling (dropped clr ent) = ent_polling ent"
  "ent_work (dropped clr ent) = ent_work ent" "ent_waiting (dropped clr ent) = ent_waiting ent"
  "pending_comp (dropped clr ent) = pending_comp ent" "ent_slotted (dropped clr ent) = ent_slotted ent"
  "ent_done (dropped clr ent) = ent_done ent" "ent_op (dropped clr ent) = ent_op ent"
  "rref_cleared (dropped clr ent) = (clr \<or> rref_cleared ent)"
  "cb_timeout_work (dropped clr ent) = (if ent_callback ent \<and> cb_timeout_work ent = Dw_Queued then Dw_Idle else cb_timeout_work ent)"
  by (simp_all add: dropped_def Let_def)

lemma comp_rest_drops:
  assumes e: "ents s e = Some ent" and c: "completing s clr i e ent" and i: "i < length (cmd_buf s)"
    and clr: "clr \<longleftrightarrow> comp_type \<noteq> MLX5_CMD_COMP_TYPE_FORCED \<or> if_down s \<or> \<not> opcode_allowed s (ent_op ent)"
  shows "comp_rest triggered comp_type i e s =
    comp_finish e (set_ent e (comp_result triggered (checksum_disabled s) (cmd_buf s ! i) (dropped clr ent)) s)"
proof -
  let ?q = "ent_callback ent \<and> cb_timeout_work ent = Dw_Queued"
  define ent1 where "ent1 = (if ?q then ent\<lparr>cb_timeout_work := Dw_Idle, refcnt := refcnt ent - 1\<rparr> else ent)"
  have 1: "(if ?q then cmd_ent_put e (set_ent e (ent\<lparr>cb_timeout_work := Dw_Idle\<rparr>) s) else Some s) = Some (set_ent e ent1 s)"
    using e c by (auto simp: ent1_def ent_put_some completing_def set_ent_same)
  have op: "ent_op ent1 = ent_op ent" by (simp add: ent1_def)
  have "refcnt ent1 \<noteq> 1" using c by (auto simp: ent1_def completing_def)
  then have 2: "(if clr then cmd_ent_put e (set_ent e (ent1\<lparr>rref_cleared := True\<rparr>) s) else Some (set_ent e ent1 s)) = Some (set_ent e (dropped clr ent) s)"
    by (auto simp: ent_put_some dropped_def Let_def simp flip: ent1_def)
  show ?thesis
  proof (cases clr)
    case True
    with 2 clr show ?thesis using i unfolding comp_rest_def e 1 by (simp add: op e 1 nth_opt_Some upd_ent_some)
  next
    case False
    with 2 clr show ?thesis using i unfolding comp_rest_def e 1 by (simp add: op e 1 nth_opt_Some upd_ent_some)
  qed
qed

text \<open>The completion of one entry, with what is left of it.\<close>

definition completed :: "cmd_if \<Rightarrow> nat \<Rightarrow> mlx5_cmd_work_ent \<Rightarrow> cmd_if \<Rightarrow> bool" where
  "completed s e ent s' \<longleftrightarrow> slots_ok None s' \<and> same_env s s' \<and> (\<forall>e'. e' \<noteq> e \<longrightarrow> ents s' e' = ents s e') \<and>
     (case ents s' e of
        None \<Rightarrow> ent_callback ent \<and> cb_timeout_work ent \<noteq> Dw_Running \<and> \<not> trig_ref s ent
      | Some ent' \<Rightarrow> ent_idx ent' = ent_idx ent \<and> ent_callback ent' = ent_callback ent \<and> \<not> pending_comp ent' \<and>
          (cb_timeout_work ent = Dw_Running \<longrightarrow> cb_timeout_work ent' = Dw_Running))"

lemma comp_finish_completes:
  assumes ok: "slots_ok (Some e) s" and e: "ents s e = Some ent" and c: "completing s clr i e ent0"
    and ent: "ent = comp_result triggered csum lay (dropped clr ent0)"
  obtains s' where "comp_finish e s = Some s'" "completed s e ent0 s'"
proof (cases "ent_callback ent")
  case True
  note base = slots_okD(1) [OF ok e]
  define res where "res = (let err = (case ent_ret ent of Some x \<Rightarrow> Some x
      | None \<Rightarrow> if ent_status ent \<noteq> 0 then deliv_status_to_err (ent_status ent) else None)
    in if err = None then mlx5_copy_from_msg (Some (ent_out ent)) (uout_size ent) else (err, []))"
  obtain err out where res: "res = (err, out)" by (cases res)
  then have f: "comp_finish e s = do { s \<leftarrow> cmd_ent_put e (free_ent_msgs ent s); Some (call_back e err out s) }"
    using e True unfolding comp_finish_def res_def Let_def by (simp only: bind.bind_lunit prod.case if_True)
  define t where "t = call_back e err out (free_ent_msgs ent s)"
  have fm: "ents (free_ent_msgs ent s) = ents s" "cb_log (free_ent_msgs ent s) = cb_log s" "next_ent (free_ent_msgs ent s) = next_ent s"
    "same_env s (free_ent_msgs ent s)" "slots_ok (Some e) (free_ent_msgs ent s)"
    using ok by (simp_all add: free_ent_msgs_def Let_def same_env_def slots_ok_msgs)
  have cb: "e \<notin> fst ` set (cb_log s)" "\<not> ent_waiting ent" using c True by (auto simp: completing_def ent)
  have t: "slots_ok (Some e) t" "ents t = ents s" "same_env s t"
    using slots_ok_call_back [OF fm(5), of err out] fm cb base by (simp_all add: t_def ent_base_def call_back_def same_env_def)
  have env: "fw_slot t = fw_slot s" "trig_put t = trig_put s" using t(3) by (simp_all add: same_env_def)
  have cons: "\<not> consumer_ref ent" "submitted ent" using True c by (auto simp: consumer_ref_def submitted_def completing_def ent)
  have fw: "fw_ref t ent \<longleftrightarrow> \<not> clr" using c by (auto simp: fw_ref_cong [OF env(1)] fw_ref_def completing_def ent)
  have trig: "trig_ref t ent = trig_ref s ent0" by (simp add: trig_ref_cong [OF env(2)] trig_ref_def ent)
  have refs: "refcnt ent = Suc (refs t ent)"
    using c True cons fw trig by (auto simp: refs_def completing_def ent dropped_def Let_def)
  have "ent_in_slot t i ent" using c True fw env by (auto simp: ent_in_slot_def completing_def ent)
  then have rest: "ent_rest t e ent"
    using c True cons cb by (auto simp: ent_rest_def t_def call_back_def completing_def ent)
  from t(2) e have "ents t e = Some ent" by simp
  from drop_ref [OF t(1) this refs rest] obtain s' where
    s': "cmd_ent_put e t = Some s'" "slots_ok None s'" "same_env t s'" "ents s' = (ents t)(e := if refs t ent = 0 then None else Some (ent\<lparr>refcnt := refs t ent\<rparr>))" .
  from s'(1) have "comp_finish e s = Some s'" by (auto simp: f t_def put_call_back map_option_case split: option.splits)
  moreover have "completed s e ent0 s'"
    using s' t(2) same_env_trans [OF t(3) s'(3)] True c trig unfolding completed_def
    by (auto simp: refs_def completing_def ent)
  ultimately show ?thesis by (rule that)
next
  case False
  define ent' where "ent' = ent\<lparr>ent_done := True\<rparr>"
  have f: "comp_finish e s = Some (set_ent e ent' s)" using e False by (simp add: comp_finish_def upd_ent_some ent'_def)
  have ok': "slots_ok (Some e) (set_ent e ent' s)" by (rule slots_ok_set [OF ok _ e]) (simp_all add: ent'_def)
  have refs: "refcnt ent' = refs s ent'" "0 < refcnt ent'" and "ent_rest s e ent'"
    using c False by (auto simp: ent'_def ent completing_def refs_def consumer_ref_def fw_ref_def trig_ref_def dropped_def Let_def
      ent_rest_def submitted_def ent_in_slot_def split: if_splits)
  then have "slots_ok None (set_ent e ent' s)" by (intro slots_ok_close [OF ok']) (auto simp: ent_full_def)
  then have "completed s e ent0 (set_ent e ent' s)"
    using False c by (auto simp: completed_def ent'_def ent completing_def)
  with f show ?thesis by (rule that)
qed

lemma comp_rest_completes:
  assumes ok: "slots_ok (Some e) s" and e: "ents s e = Some ent" and c: "completing s clr i e ent"
    and clr: "clr \<longleftrightarrow> comp_type \<noteq> MLX5_CMD_COMP_TYPE_FORCED \<or> if_down s \<or> \<not> opcode_allowed s (ent_op ent)"
  obtains s' where "comp_rest triggered comp_type i e s = Some s'" "completed s e ent s'"
proof -
  define ent' where "ent' = comp_result triggered (checksum_disabled s) (cmd_buf s ! i) (dropped clr ent)"
  have "i \<le> max_reg_cmds s" using slots_okD(1) [OF ok e] c by (auto simp: ent_base_def completing_def)
  then have i: "i < length (cmd_buf s)" using slots_ok_glob [OF ok] by (auto simp: slots_glob_def queue_shape_def)
  have "slots_ok (Some e) (set_ent e ent' s)" by (rule slots_ok_set [OF ok _ e]) (simp_all add: ent'_def)
  moreover have "ents (set_ent e ent' s) e = Some ent'" by simp
  moreover have "completing (set_ent e ent' s) clr i e ent" using c by (simp add: completing_def)
  ultimately obtain s' where s': "comp_finish e (set_ent e ent' s) = Some s'" "completed (set_ent e ent' s) e ent s'"
    using comp_finish_completes ent'_def by metis
  from s'(2) have "completed s e ent s'" by (simp add: completed_def split: option.splits)
  with s'(1) show ?thesis using that comp_rest_drops [OF e c i clr] by (simp add: ent'_def)
qed

lemma comp_one_pending:
  assumes ok: "slots_ok (Some e) s" and e: "ents s e = Some ent" "ent_arr s ! i = Some e" "pending_comp ent"
    and c: "completing s clr i e (ent\<lparr>pending_comp := False\<rparr>)"
    and clr: "clr \<longleftrightarrow> comp_type \<noteq> MLX5_CMD_COMP_TYPE_FORCED \<or> if_down s \<or> \<not> opcode_allowed s (ent_op ent)"
  obtains s' where "comp_one triggered comp_type i s = Some s'" "completed s e (ent\<lparr>pending_comp := False\<rparr>) s'"
proof -
  let ?ent = "ent\<lparr>pending_comp := False\<rparr>"
  note b = slots_okD(1) [OF ok e(1)]
  have i: "i < length (ent_arr s)"
    using slots_ok_glob [OF ok] b c by (auto simp: slots_glob_def queue_shape_def ent_base_def completing_def)
  have np: "\<not> ent_polling ent" using b by (simp add: ent_base_def)
  have run: "comp_one triggered comp_type i s = comp_rest triggered comp_type i e (set_ent e ?ent s)"
    using i e np by (simp add: comp_one_def nth_opt_Some)
  have ok': "slots_ok (Some e) (set_ent e ?ent s)" by (rule slots_ok_set [OF ok _ e(1)]) simp_all
  have c': "completing (set_ent e ?ent s) clr i e ?ent" using c by (simp add: completing_def)
  have clr': "clr \<longleftrightarrow> comp_type \<noteq> MLX5_CMD_COMP_TYPE_FORCED \<or> if_down (set_ent e ?ent s) \<or> \<not> opcode_allowed (set_ent e ?ent s) (ent_op ?ent)"
    using clr by simp
  have "ents (set_ent e ?ent s) e = Some ?ent" by simp
  from comp_rest_completes [OF ok' this c' clr'] obtain s' where
    s': "comp_rest triggered comp_type i e (set_ent e ?ent s) = Some s'" "completed (set_ent e ?ent s) e ?ent s'" .
  from s'(2) have "completed s e ?ent s'" by (simp add: completed_def split: option.splits)
  then show ?thesis using that run s'(1) by simp
qed

text \<open>A forced completion: it completes a command that is pending and leaves every other one alone, except for the
  extra reference that a triggered completion drops.\<close>

definition timed_out_cleared :: "mlx5_cmd_work_ent \<Rightarrow> bool" where
  "timed_out_cleared ent \<longleftrightarrow> \<not> pending_comp ent \<and> ent_ret ent = Some ETIMEDOUT \<and> rref_cleared ent"

lemma pending_completing:
  assumes ok: "slots_ok None s" and e: "ents s e = Some ent" "ent_idx ent = Some i" "pending_comp ent"
  shows "completing s (if_down s) i e (ent\<lparr>pending_comp := False\<rparr>) \<and> opcode_allowed s (ent_op ent)"
proof -
  have full: "ent_full s e ent" using slots_okD(2) [OF ok e(1)] by simp
  then have slot: "ent_in_slot s i ent" "ent_rest s e ent" using e(2) by (auto simp: ent_full_def ent_rest_def)
  have f: "fw_ref s ent" "opcode_allowed s (ent_op ent)" "ent_slotted ent" "ent_work ent = Work_Finished"
    using slot(1) e(3) by (auto simp: ent_in_slot_def)
  have "consumer_ref ent" using slot e(3) by (auto simp: consumer_ref_def ent_in_slot_def)
  then have "refcnt ent = 2 + of_bool (cb_timeout_work ent \<noteq> Dw_Idle) + of_bool (trig_ref s ent)"
    using full f(1) by (simp add: ent_full_def refs_def)
  moreover have "\<not> fw_has s i" if "if_down s" using slots_ok_glob [OF ok] that by (simp add: slots_glob_def env_ok_def)
  moreover have "trig_ref s (ent\<lparr>pending_comp := False\<rparr>) = trig_ref s ent" by (simp add: trig_ref_def)
  ultimately show ?thesis
    using slot f e \<open>consumer_ref ent\<close>
    by (auto simp: completing_def fw_ref_def ent_rest_def ent_in_slot_def split: if_splits)
qed

lemma forced_one:
  assumes ok: "slots_ok None s" and e: "ents s e = Some ent" "ent_idx ent = Some i"
    and safe: "triggered \<longrightarrow> \<not> timed_out_cleared ent"
  obtains s' where "comp_one triggered MLX5_CMD_COMP_TYPE_FORCED i s = Some s'"
    "if pending_comp ent then completed s e (ent\<lparr>pending_comp := False\<rparr>) s' else s' = s"
proof (cases "pending_comp ent")
  case True
  have arr: "ent_arr s ! i = Some e" using slots_okD(1) [OF ok e(1)] e(2) by (auto simp: ent_base_def)
  have c: "completing s (if_down s) i e (ent\<lparr>pending_comp := False\<rparr>)" and op: "opcode_allowed s (ent_op ent)"
    using pending_completing [OF ok e True] by auto
  from comp_one_pending [OF slots_ok_open [OF ok] e(1) arr True c, of MLX5_CMD_COMP_TYPE_FORCED triggered] op True that
  show ?thesis by auto
next
  case False
  have b: "ent_base s e ent" using slots_okD(1) [OF ok e(1)] .
  have "i < length (ent_arr s)" "ent_arr s ! i = Some e"
    using slots_ok_glob [OF ok] b e(2) by (auto simp: slots_glob_def queue_shape_def ent_base_def)
  then have "comp_one triggered MLX5_CMD_COMP_TYPE_FORCED i s = Some s"
    using e False safe by (auto simp: comp_one_def nth_opt_Some timed_out_cleared_def set_ent_same)
  then show ?thesis using that False by simp
qed

lemma comp_handler_single:
  "i < 2 ^ log_sz s \<Longrightarrow> mlx5_cmd_comp_handler (\<lambda>j. j = i) triggered comp_type s = comp_one triggered comp_type i s"
proof -
  assume i: "i < 2 ^ log_sz s"
  have "filter (\<lambda>j. j = i) [0..<n] = (if i < n then [i] else [])" for n by (induction n) auto
  then show ?thesis using i by (cases "comp_one triggered comp_type i s") (simp_all add: mlx5_cmd_comp_handler_def)
qed

lemma ent_slot_bound:
  assumes "slots_ok x s" "ents s e = Some ent" "ent_idx ent = Some i"
  shows "i < 2 ^ log_sz s" "i \<le> max_reg_cmds s" "i < length (cmd_buf s)" "i < length (ent_arr s)" "ent_arr s ! i = Some e" "\<not> bitmask s ! i"
  using slots_ok_glob [OF assms(1)] slots_okD(1) [OF assms(1,2)] assms(3)
  by (auto simp: slots_glob_def queue_shape_def ent_base_def)

lemma force_comp_ok:
  assumes ok: "slots_ok None s" and e: "ents s e = Some ent" "ent_idx ent = Some i"
  obtains s' where "force_comp e s = Some s'" "if pending_comp ent then completed s e (ent\<lparr>pending_comp := False\<rparr>) s' else s' = s"
proof -
  have "force_comp e s = comp_one False MLX5_CMD_COMP_TYPE_FORCED i s"
    using e ent_slot_bound [OF ok e] by (simp add: force_comp_def comp_handler_single)
  then show ?thesis using forced_one [OF ok e, of False] that by auto
qed

text \<open>Setting the result of an entry.\<close>

lemma ret_irrelevant:
  "refs s (ent\<lparr>ent_ret := r\<rparr>) = refs s ent"
  "ent_idx ent = Some i \<Longrightarrow> ent_rest s e (ent\<lparr>ent_ret := r\<rparr>) = ent_rest s e ent"
proof -
  have *: "consumer_ref (ent\<lparr>ent_ret := r\<rparr>) = consumer_ref ent" "submitted (ent\<lparr>ent_ret := r\<rparr>) = submitted ent"
    "fw_ref s (ent\<lparr>ent_ret := r\<rparr>) = fw_ref s ent" "trig_ref s (ent\<lparr>ent_ret := r\<rparr>) = trig_ref s ent"
    by (simp_all add: consumer_ref_def submitted_def fw_ref_def trig_ref_def)
  then show "refs s (ent\<lparr>ent_ret := r\<rparr>) = refs s ent" by (simp add: refs_def)
  show "ent_rest s e (ent\<lparr>ent_ret := r\<rparr>) = ent_rest s e ent" if "ent_idx ent = Some i"
    using * that by (simp add: ent_rest_def ent_in_slot_def)
qed

lemma slots_ok_ret:
  assumes ok: "slots_ok None s" and e: "ents s e = Some ent" "ent_idx ent = Some i"
  shows "slots_ok None (set_ent e (ent\<lparr>ent_ret := r\<rparr>) s)"
proof (rule slots_ok_close)
  show "slots_ok (Some e) (set_ent e (ent\<lparr>ent_ret := r\<rparr>) s)" by (rule slots_ok_set [OF ok _ e(1)]) simp_all
  fix ent'
  assume "ents (set_ent e (ent\<lparr>ent_ret := r\<rparr>) s) e = Some ent'"
  then have "ent' = ent\<lparr>ent_ret := r\<rparr>" by simp
  moreover have "ent_full s e ent" using slots_okD(2) [OF ok e(1)] by simp
  ultimately show "ent_full (set_ent e (ent\<lparr>ent_ret := r\<rparr>) s) e ent'"
    using ret_irrelevant e(2) by (simp add: ent_full_def)
qed

lemma wait_timeout_ok:
  assumes ok: "slots_ok None s" and e: "ents s e = Some ent" "ent_idx ent = Some i"
  obtains s' where "wait_func_handle_exec_timeout e s = Some s'" "slots_ok None s'" "same_env s s'"
proof -
  let ?s = "set_ent e (ent\<lparr>ent_ret := Some ETIMEDOUT\<rparr>) s"
  have "ents ?s e = Some (ent\<lparr>ent_ret := Some ETIMEDOUT\<rparr>)" "ent_idx (ent\<lparr>ent_ret := Some ETIMEDOUT\<rparr>) = Some i" using e by simp_all
  from force_comp_ok [OF slots_ok_ret [OF ok e] this] obtain s' where s': "force_comp e ?s = Some s'"
    "if pending_comp ent then completed ?s e (ent\<lparr>ent_ret := Some ETIMEDOUT, pending_comp := False\<rparr>) s' else s' = ?s" by auto
  then have "slots_ok None s' \<and> same_env s s'" using slots_ok_ret [OF ok e] by (auto simp: completed_def split: if_splits)
  then show ?thesis using that s'(1) e by (simp add: wait_func_handle_exec_timeout_def upd_ent_some)
qed

section \<open>The handlers keep the invariant\<close>

lemma lose_ref:
  assumes ok: "slots_ok None s" and e: "ents s e = Some ent"
    and same: "ent_idx ent' = ent_idx ent" "page_queue ent' = page_queue ent" "ent_callback ent' = ent_callback ent" "ent_polling ent' = ent_polling ent"
    and one: "refcnt ent' = refcnt ent" "refs s ent = Suc (refs s ent')" and rest: "ent_rest s e ent'"
  obtains s' where "cmd_ent_put e (set_ent e ent' s) = Some s'" "slots_ok None s'" "same_env s s'"
proof -
  have "refcnt ent' = Suc (refs s ent')" using slots_okD(2) [OF ok e] one by (simp add: ent_full_def)
  then show ?thesis using drop_ref [OF slots_ok_set [OF ok _ e same], of ent'] rest that by auto
qed

lemma timer_drop:
  assumes ok: "slots_ok None s" and e: "ents s e = Some ent" "cb_timeout_work ent = Dw_Running"
  obtains s' where "cmd_ent_put e (set_ent e (ent\<lparr>cb_timeout_work := Dw_Idle\<rparr>) s) = Some s'" "slots_ok None s'" "same_env s s'"
proof -
  let ?ent = "ent\<lparr>cb_timeout_work := Dw_Idle\<rparr>"
  have full: "ent_rest s e ent" using slots_okD(2) [OF ok e(1)] by (simp add: ent_full_def)
  have *: "consumer_ref ?ent = consumer_ref ent" "submitted ?ent = submitted ent" "fw_ref s ?ent = fw_ref s ent" "trig_ref s ?ent = trig_ref s ent"
    "ent_in_slot s i ?ent = ent_in_slot s i ent" "ent_unslotted ?ent = ent_unslotted ent" for i
    by (simp_all add: consumer_ref_def submitted_def fw_ref_def trig_ref_def ent_in_slot_def ent_unslotted_def)
  have "refs s ent = Suc (refs s ?ent)" "ent_rest s e ?ent"
    using full e(2) by (simp_all add: refs_def * ent_rest_def split: option.splits)
  then show ?thesis using lose_ref [OF ok e(1), of ?ent] that by auto
qed

lemma cb_timeout_ok:
  assumes ok: "slots_ok None s" and e: "ents s e = Some ent" "cb_timeout_work ent = Dw_Running"
  obtains s' where "cb_timeout_handler e s = Some s'" "slots_ok None s'" "same_env s s'"
proof (cases "pending_comp ent")
  case False
  obtain s' where "cmd_ent_put e (set_ent e (ent\<lparr>cb_timeout_work := Dw_Idle\<rparr>) s) = Some s'" "slots_ok None s'" "same_env s s'"
    using timer_drop [OF ok e] .
  then show ?thesis using that e False by (simp add: cb_timeout_handler_def upd_ent_some)
next
  case True
  let ?ent = "ent\<lparr>ent_ret := Some ETIMEDOUT\<rparr>"
  have "submitted ent" using slots_okD(2) [OF ok e(1)] e(2) by (auto simp: ent_full_def ent_rest_def)
  then obtain i where i: "ent_idx ent = Some i" by (auto simp: submitted_def)
  have e': "ents (set_ent e ?ent s) e = Some ?ent" "ent_idx ?ent = Some i" using i by simp_all
  from force_comp_ok [OF slots_ok_ret [OF ok e(1) i] e'] True obtain s1 where
    s1: "force_comp e (set_ent e ?ent s) = Some s1" "completed (set_ent e ?ent s) e (?ent\<lparr>pending_comp := False\<rparr>) s1" by auto
  from s1(2) e(2) obtain ent1 where ent1: "slots_ok None s1" "same_env s s1" "ents s1 e = Some ent1" "cb_timeout_work ent1 = Dw_Running"
    by (auto simp: completed_def split: option.splits)
  from timer_drop [OF ent1(1,3,4)] obtain s' where
    "cmd_ent_put e (set_ent e (ent1\<lparr>cb_timeout_work := Dw_Idle\<rparr>) s1) = Some s'" "slots_ok None s'" "same_env s1 s'" .
  then show ?thesis using that e True s1(1) ent1 same_env_trans [OF ent1(2)] by (simp add: cb_timeout_handler_def upd_ent_some)
qed

text \<open>What the device does with the slot of an entry concerns no other entry.\<close>

lemma slot_unique:
  assumes "slots_ok x s" "ents s e = Some ent" "ent_idx ent = Some i" "ents s e' = Some ent'" "ent_idx ent' = Some i"
  shows "e' = e"
  using ent_slot_bound(5) [OF assms(1-3)] ent_slot_bound(5) [OF assms(1,4,5)] by simp

lemma slots_ok_fw:
  assumes ok: "slots_ok (Some e) s" and e: "ents s e = Some ent" "ent_idx ent = Some i"
    and v: "v = Fw_Busy \<or> v = Fw_Answered \<Longrightarrow> \<not> if_down s"
  shows "slots_ok (Some e) (s\<lparr>fw_slot := (fw_slot s)(i := v)\<rparr>)"
proof -
  let ?s = "s\<lparr>fw_slot := (fw_slot s)(i := v)\<rparr>"
  note b = ent_slot_bound [OF ok e]
  have g: "queue_shape ?s = queue_shape s" "sems_count ?s = sems_count s" "logs_ok ?s = logs_ok s" "ent_base ?s = ent_base s"
    by (auto simp: queue_shape_def sems_count_def logs_ok_def intro: ent_base_cong)
  have own: "slot_owned ?s = slot_owned s" by (simp add: slot_owned_def fun_eq_iff)
  have used: "slots_used s" and env: "env_ok s" using slots_ok_glob [OF ok] by (simp_all add: slots_glob_def)
  have "slots_used ?s" using used b(2,6) unfolding slots_used_def by (simp add: own)
  moreover have "env_ok ?s" using env b(2) v unfolding env_ok_def by auto
  moreover have "ent_full ?s e' ent' = ent_full s e' ent'" if "ents s e' = Some ent'" "e' \<noteq> e" for e' ent'
  proof -
    have "ent_idx ent' \<noteq> Some i" using slot_unique [OF ok e that(1)] that(2) by auto
    then have *: "fw_ref ?s ent' = fw_ref s ent'" "trig_ref ?s ent' = trig_ref s ent'"
      by (auto simp: fw_ref_def trig_ref_def split: option.splits)
    have op: "opcode_allowed ?s = opcode_allowed s" by (rule opcode_allowed_cong) simp
    have "ent_in_slot ?s j ent' = ent_in_slot s j ent'" if "j \<noteq> i" for j using that * op by (simp add: ent_in_slot_def)
    then have "ent_rest ?s e' ent' = ent_rest s e' ent'"
      using \<open>ent_idx ent' \<noteq> Some i\<close> by (cases "ent_idx ent'") (simp_all add: ent_rest_def)
    then show ?thesis using * by (simp add: ent_full_def refs_def)
  qed
  ultimately show ?thesis using ok g unfolding slots_ok_def slots_glob_def by auto
qed

text \<open>An event: for a command that is pending, or for one that was given up and still has its slot.\<close>

lemma notifier_ok:
  assumes ok: "slots_ok None s" and i: "fw_slot s i = Fw_Answered" "\<not> if_down s"
  obtains s' where "cmd_comp_notifier i s = Some s'" "slots_ok None s'"
proof -
  let ?s = "s\<lparr>fw_slot := (fw_slot s)(i := Fw_Idle)\<rparr>"
  have g: "slots_glob s" using slots_ok_glob [OF ok] .
  then have "i \<le> max_reg_cmds s" using i(1) by (simp add: slots_glob_def env_ok_def)
  then have "slot_owned s i" using g i(1) by (auto simp: slots_glob_def slots_used_def)
  then obtain e ent where e: "ents s e = Some ent" "ent_idx ent = Some i" by (auto simp: slot_owned_def)
  have full: "ent_full s e ent" using slots_okD(2) [OF ok e(1)] by simp
  then have slot: "ent_in_slot s i ent" "ent_rest s e ent" using e(2) by (auto simp: ent_full_def ent_rest_def)
  have fin: "ent_work ent = Work_Finished" "\<not> rref_cleared ent" "ent_slotted ent" using slot(1) i(1) by (auto simp: ent_in_slot_def)
  have ok': "slots_ok (Some e) ?s" by (rule slots_ok_fw [OF slots_ok_open [OF ok] e]) simp
  have e': "ents ?s e = Some ent" using e by simp
  have run: "cmd_comp_notifier i s = comp_one False MLX5_CMD_COMP_TYPE_EVENT i ?s"
    using i(2) ent_slot_bound [OF ok e] by (simp add: cmd_comp_notifier_def comp_handler_single)
  have fr: "fw_ref s ent" "\<not> fw_ref ?s ent" "trig_ref ?s ent = trig_ref s ent"
    using fin i(1) e(2) by (simp_all add: fw_ref_def trig_ref_def)
  show ?thesis
  proof (cases "pending_comp ent")
    case True
    have "completing ?s True i e (ent\<lparr>pending_comp := False\<rparr>)"
      using pending_completing [OF ok e True] i by (auto simp: completing_def trig_ref_def split: if_splits)
    from comp_one_pending [OF ok' e' _ True this, of MLX5_CMD_COMP_TYPE_EVENT False] ent_slot_bound [OF ok e]
    obtain s' where "comp_one False MLX5_CMD_COMP_TYPE_EVENT i ?s = Some s'" "completed ?s e (ent\<lparr>pending_comp := False\<rparr>) s'" by auto
    then show ?thesis using that run by (auto simp: completed_def)
  next
    case False
    have "ent\<lparr>pending_comp := False\<rparr> = ent" using False by (cases ent) simp
    then have put: "comp_one False MLX5_CMD_COMP_TYPE_EVENT i ?s = cmd_ent_put e ?s"
      using ent_slot_bound [OF ok e] e e' False slots_okD(1) [OF ok e(1)]
      by (cases "cmd_ent_put e ?s") (simp_all add: comp_one_def nth_opt_Some set_ent_same ent_base_def)
    have "refcnt ent = Suc (refs ?s ent)" using full fr by (simp add: ent_full_def refs_def)
    moreover have "ent_rest ?s e ent" using slot False e(2) fin by (auto simp: ent_rest_def ent_in_slot_def)
    ultimately show ?thesis using drop_ref [OF ok' e'] that run put by metis
  qed
qed

text \<open>A queued entry takes a free slot.\<close>

lemma queued_facts:
  assumes "slots_ok None s" "ents s e = Some ent" "ent_work ent = Work_Queued"
  shows "ent_idx ent = None" "ent_unslotted ent" "refcnt ent = 1" "cb_timeout_work ent = Dw_Idle"
    "ent_callback ent \<longrightarrow> \<not> ent_waiting ent \<and> e \<notin> fst ` set (cb_log s)" "\<not> ent_callback ent \<longrightarrow> ent_waiting ent \<and> e \<notin> fst ` set (ret_log s)"
proof -
  have full: "ent_full s e ent" using slots_okD(2) [OF assms(1,2)] by simp
  then show idx: "ent_idx ent = None" using assms(3) by (cases "ent_idx ent") (auto simp: ent_full_def ent_rest_def ent_in_slot_def)
  show "ent_unslotted ent" using full idx by (simp add: ent_full_def ent_rest_def)
  then show "refcnt ent = 1" "cb_timeout_work ent = Dw_Idle" "ent_callback ent \<longrightarrow> \<not> ent_waiting ent \<and> e \<notin> fst ` set (cb_log s)"
    "\<not> ent_callback ent \<longrightarrow> ent_waiting ent \<and> e \<notin> fst ` set (ret_log s)"
    using full idx assms(3) by (auto simp: ent_full_def ent_rest_def refs_def consumer_ref_def submitted_def fw_ref_def trig_ref_def ent_unslotted_def)
qed

lemma count_take_taken:
  assumes "i < n" "n < length xs" "xs ! i"
  shows "count_list (take n (xs[i := False])) True = count_list (take n xs) True - 1"
  using assms by (simp add: take_update_swap count_list_update_other)

lemma take_slot_ok:
  assumes ok: "slots_ok None s" and e: "ents s e = Some ent" "ent_work ent = Work_Queued"
    and i: "i \<le> max_reg_cmds s" "bitmask s ! i" "page_queue ent \<longleftrightarrow> i = max_reg_cmds s"
  shows "slots_ok None ((set_ent e (ent\<lparr>ent_handling := h, ent_idx := Some i, ent_slotted := True, ent_work := Work_Slotted\<rparr>) s)
    \<lparr>bitmask := (bitmask s)[i := False], ent_arr := (ent_arr s)[i := Some e],
     cmd_sem := if page_queue ent then cmd_sem s else cmd_sem s - 1, pages_sem := if page_queue ent then pages_sem s - 1 else pages_sem s\<rparr>)"
    (is "slots_ok None ?s")
proof -
  let ?ent = "ent\<lparr>ent_handling := h, ent_idx := Some i, ent_slotted := True, ent_work := Work_Slotted\<rparr>"
  note q = queued_facts [OF ok e]
  have shape: "queue_shape s" and used: "slots_used s" and env: "env_ok s" and logs: "logs_ok s" and sems: "sems_count s"
    using slots_ok_glob [OF ok] by (simp_all add: slots_glob_def)
  have len: "i < length (bitmask s)" "i < length (ent_arr s)" using shape i(1) by (auto simp: queue_shape_def)
  have free: "\<not> fw_has s i" "i \<notin> set (trig_put s)" using used i by (auto simp: slots_used_def)
  have other: "ent_idx x \<noteq> Some i" if "ents s e' = Some x" for e' x
    using slots_okD(1) [OF ok that] i(2) by (auto simp: ent_base_def)
  have owned: "slot_owned ?s j" if j: "j \<le> max_reg_cmds s" "j \<noteq> i" "\<not> bitmask s ! j" for j
  proof -
    obtain e' x where x: "ent_arr s ! j = Some e'" "ents s e' = Some x" "ent_idx x = Some j"
      using used j unfolding slots_used_def slot_owned_def by blast
    then have "e' \<noteq> e" using e(1) q(1) by auto
    then show ?thesis using x j by (auto simp: slot_owned_def)
  qed
  have "slot_owned ?s i" using len by (simp add: slot_owned_def)
  then have "slots_used ?s"
    using used owned len unfolding slots_used_def by (auto simp: nth_list_update)
  moreover have "sems_count ?s"
  proof (cases "i = max_reg_cmds s")
    case True
    then show ?thesis using sems i len by (simp add: sems_count_def)
  next
    case False
    then show ?thesis using sems i len shape count_take_taken [of i "max_reg_cmds s" "bitmask s"]
      by (simp add: sems_count_def queue_shape_def)
  qed
  moreover have "queue_shape ?s" "env_ok ?s" "logs_ok ?s"
    using shape env logs by (simp_all add: queue_shape_def env_ok_def logs_ok_def)
  ultimately have glob: "slots_glob ?s" by (simp add: slots_glob_def)
  have full: "ent_full ?s = ent_full s" by (rule ent_full_cong) simp_all
  have base: "ent_base ?s e' x" if "ents s e' = Some x" for e' x
    using slots_okD(1) [OF ok that] other [OF that] i(2) len by (auto simp: ent_base_def nth_list_update)
  have "ent_base ?s e ?ent" using slots_okD(1) [OF ok e(1)] i len by (auto simp: ent_base_def)
  moreover have "ent_full ?s e ?ent"
    using q free e(2) unfolding full by (auto simp: ent_full_def ent_rest_def refs_def consumer_ref_def submitted_def fw_ref_def trig_ref_def
      ent_unslotted_def ent_in_slot_def)
  ultimately show ?thesis using glob base slots_okD(2) [OF ok] full by (auto simp: slots_ok_def)
qed

lemma work_slot_takes:
  assumes ok: "slots_ok None s" and e: "ents s e = Some ent" and free: "\<not> page_queue ent" "0 < cmd_sem s"
  obtains i where "i < max_reg_cmds s" "bitmask s ! i"
    "work_slot e s = Some ((set_ent e (ent\<lparr>ent_handling := True, ent_idx := Some i, ent_slotted := True, ent_work := Work_Slotted\<rparr>) s)
      \<lparr>bitmask := (bitmask s)[i := False], ent_arr := (ent_arr s)[i := Some e],
       cmd_sem := cmd_sem s - 1, pages_sem := pages_sem s\<rparr>)"
proof -
  have shape: "queue_shape s" and sems: "sems_count s" using slots_ok_glob [OF ok] by (simp_all add: slots_glob_def)
  have "True \<in> set (take (max_reg_cmds s) (bitmask s))"
    using free sems count_list_0_iff [of "take (max_reg_cmds s) (bitmask s)" True] unfolding sems_count_def by simp
  then have "first_ix id (take (max_reg_cmds s) (bitmask s)) \<noteq> None" unfolding first_ix_None_iff by auto
  then obtain i where ix: "first_ix id (take (max_reg_cmds s) (bitmask s)) = Some i" by auto
  then have i: "i < max_reg_cmds s" "bitmask s ! i" by (auto simp: first_ix_Some_iff)
  have "work_slot e s = Some ((set_ent e (ent\<lparr>ent_handling := True, ent_idx := Some i, ent_slotted := True, ent_work := Work_Slotted\<rparr>) s)
      \<lparr>bitmask := (bitmask s)[i := False], ent_arr := (ent_arr s)[i := Some e],
       cmd_sem := cmd_sem s - 1, pages_sem := pages_sem s\<rparr>)"
    using free e shape ix i by (simp add: work_slot_def cmd_alloc_index_def upd_ent_def upd_opt_Some queue_shape_def set_ent_def)
  with i show ?thesis by (rule that)
qed

lemma work_slot_ok:
  assumes ok: "slots_ok None s" and e: "ents s e = Some ent" "ent_work ent = Work_Queued"
    and ready: "if page_queue ent then 0 < pages_sem s else ent_callback ent \<longrightarrow> 0 < cmd_sem s"
  obtains s' where "work_slot e s = Some s'" "slots_ok None s'"
proof -
  have shape: "queue_shape s" and sems: "sems_count s" using slots_ok_glob [OF ok] by (simp_all add: slots_glob_def)
  note q = queued_facts [OF ok e]
  consider (pages) "page_queue ent" | (full) "\<not> page_queue ent" "cmd_sem s = 0" | (free) "\<not> page_queue ent" "0 < cmd_sem s" by auto
  then show ?thesis
  proof cases
    case pages
    then have b: "bitmask s ! max_reg_cmds s" using ready sems by (simp add: sems_count_def split: if_splits)
    have "work_slot e s = Some ((set_ent e (ent\<lparr>ent_handling := True, ent_idx := Some (max_reg_cmds s), ent_slotted := True, ent_work := Work_Slotted\<rparr>) s)
      \<lparr>bitmask := (bitmask s)[max_reg_cmds s := False], ent_arr := (ent_arr s)[max_reg_cmds s := Some e],
       cmd_sem := cmd_sem s, pages_sem := pages_sem s - 1\<rparr>)"
      using pages e shape by (simp add: work_slot_def upd_ent_def upd_opt_Some queue_shape_def set_ent_def)
    then show ?thesis using that take_slot_ok [OF ok e, of "max_reg_cmds s" True] pages b by simp
  next
    case full
    let ?ent = "ent\<lparr>ent_handling := True, ent_ret := Some EBUSY, ent_done := True, ent_work := Work_Finished, ent_slotted := True\<rparr>"
    have sync: "\<not> ent_callback ent" using full ready by simp
    then have run: "work_slot e s = Some (set_ent e ?ent s)"
      using full e by (simp add: work_slot_def upd_ent_def ent_fail_def)
    have "slots_ok None (set_ent e ?ent s)"
    proof (rule slots_ok_close)
      show "slots_ok (Some e) (set_ent e ?ent s)" by (rule slots_ok_set [OF ok _ e(1)]) simp_all
    qed (use q sync in \<open>auto simp: ent_full_def ent_rest_def refs_def consumer_ref_def submitted_def fw_ref_def trig_ref_def ent_unslotted_def\<close>)
    then show ?thesis using that run by simp
  next
    case free
    obtain i where i: "i < max_reg_cmds s" "bitmask s ! i" and
      "work_slot e s = Some ((set_ent e (ent\<lparr>ent_handling := True, ent_idx := Some i, ent_slotted := True, ent_work := Work_Slotted\<rparr>) s)
        \<lparr>bitmask := (bitmask s)[i := False], ent_arr := (ent_arr s)[i := Some e], cmd_sem := cmd_sem s - 1, pages_sem := pages_sem s\<rparr>)"
      by (rule work_slot_takes [OF ok e(1) free])
    then show ?thesis using that take_slot_ok [OF ok e, of i True] free i by simp
  qed
qed

lemma slots_ok_buf:
  assumes "slots_ok x s" "length buf = length (cmd_buf s)"
  shows "slots_ok x (s\<lparr>cmd_buf := buf\<rparr>)"
proof -
  let ?s = "s\<lparr>cmd_buf := buf\<rparr>"
  have "queue_shape ?s = queue_shape s" "sems_count ?s = sems_count s" "slots_used ?s = slots_used s" "env_ok ?s = env_ok s" "logs_ok ?s = logs_ok s"
    using assms(2) by (simp_all add: queue_shape_def sems_count_def slots_used_def slot_owned_def env_ok_def logs_ok_def)
  moreover have "ent_base ?s = ent_base s" "ent_full ?s = ent_full s" by (auto intro: ent_base_cong ent_full_cong)
  ultimately show ?thesis using assms(1) by (simp add: slots_ok_def slots_glob_def)
qed

lemma slotted_facts:
  assumes "slots_ok None s" "ents s e = Some ent" "ent_work ent = Work_Slotted"
  obtains i where "ent_idx ent = Some i" "refcnt ent = Suc (of_bool (trig_ref s ent))" "cb_timeout_work ent = Dw_Idle" "\<not> rref_cleared ent"
    "\<not> ent_done ent" "ent_slotted ent" "\<not> fw_has s i"
    "if ent_callback ent then \<not> ent_waiting ent \<and> e \<notin> fst ` set (cb_log s) else ent_waiting ent \<and> e \<notin> fst ` set (ret_log s)"
proof -
  have full: "ent_full s e ent" using slots_okD(2) [OF assms(1,2)] by simp
  then obtain i where idx: "ent_idx ent = Some i" using assms(3) by (cases "ent_idx ent") (auto simp: ent_full_def ent_rest_def ent_unslotted_def)
  then show ?thesis using full assms(3) that [OF idx]
    by (auto simp: ent_full_def ent_rest_def ent_in_slot_def refs_def consumer_ref_def submitted_def fw_ref_def)
qed

text \<open>The entry as the worker hands it to the device.\<close>

definition posted :: "mlx5_cmd_msg \<Rightarrow> mlx5_cmd_msg \<Rightarrow> mlx5_cmd_work_ent \<Rightarrow> mlx5_cmd_work_ent" where
  "posted inb outb ent =
     (let ent = (if ent_callback ent then ent\<lparr>cb_timeout_work := Dw_Queued, refcnt := refcnt ent + 1\<rparr> else ent)
      in ent\<lparr>ent_in := inb, ent_out := outb, pending_comp := True, ent_work := Work_Finished, refcnt := refcnt ent + 1\<rparr>)"

lemma posted_sel [simp]:
  "ent_idx (posted inb outb ent) = ent_idx ent" "ent_callback (posted inb outb ent) = ent_callback ent"
  "page_queue (posted inb outb ent) = page_queue ent" "ent_polling (posted inb outb ent) = ent_polling ent"
  "ent_work (posted inb outb ent) = Work_Finished" "ent_waiting (posted inb outb ent) = ent_waiting ent"
  "pending_comp (posted inb outb ent)" "ent_slotted (posted inb outb ent) = ent_slotted ent"
  "ent_done (posted inb outb ent) = ent_done ent" "ent_op (posted inb outb ent) = ent_op ent" "rref_cleared (posted inb outb ent) = rref_cleared ent"
  "cb_timeout_work (posted inb outb ent) = (if ent_callback ent then Dw_Queued else cb_timeout_work ent)"
  "refcnt (posted inb outb ent) = refcnt ent + (if ent_callback ent then 2 else 1)"
  by (simp_all add: posted_def Let_def)

lemma work_submit_posts:
  assumes ok: "slots_ok None s" and e: "ents s e = Some ent" "ent_idx ent = Some i" "cb_timeout_work ent = Dw_Idle"
  obtains inb outb lay where
    "set_signature (\<not> checksum_disabled s) (fill_layout (ent_token ent) (ent_in ent) (ent_out ent)) (ent_in ent) (ent_out ent) = (lay, inb, outb)"
    "work_submit e s =
    (let t = set_ent e (posted inb outb ent) (s\<lparr>cmd_buf := (cmd_buf s)[i := lay]\<rparr>)
     in if if_down s \<or> \<not> opcode_allowed s (ent_op ent)
        then force_comp e (set_ent e ((posted inb outb ent)\<lparr>ent_ret := Some ENXIO\<rparr>) t)
        else Some (t\<lparr>fw_slot := (fw_slot s)(i := Fw_Busy)\<rparr>))"
proof -
  obtain lay inb outb where l: "set_signature (\<not> checksum_disabled s) (fill_layout (ent_token ent) (ent_in ent) (ent_out ent)) (ent_in ent) (ent_out ent) = (lay, inb, outb)"
    by (metis prod_cases3)
  have m: "mode_events s" using slots_ok_glob [OF ok] by (simp add: slots_glob_def queue_shape_def)
  have np: "\<not> ent_polling ent" using slots_okD(1) [OF ok e(1)] by (simp add: ent_base_def)
  have op: "opcode_allowed (s\<lparr>cmd_buf := b\<rparr>) = opcode_allowed s" "opcode_allowed (s\<lparr>cmd_buf := b, fw_slot := f\<rparr>) = opcode_allowed s" for b f
    by (rule opcode_allowed_cong; simp)+
  have "work_submit e s =
    (let t = set_ent e (posted inb outb ent) (s\<lparr>cmd_buf := (cmd_buf s)[i := lay]\<rparr>)
     in if if_down s \<or> \<not> opcode_allowed s (ent_op ent)
        then force_comp e (set_ent e ((posted inb outb ent)\<lparr>ent_ret := Some ENXIO\<rparr>) t)
        else Some (t\<lparr>fw_slot := (fw_slot s)(i := Fw_Busy)\<rparr>))"
    using e l m np ent_slot_bound [OF ok e(1,2)]
    by (cases "ent_callback ent")
      (simp_all add: work_submit_def upd_opt_Some upd_ent_some ent_get_some posted_def op,
       auto simp: set_ent_def intro!: arg_cong [where f = "force_comp e"] cmd_if.equality mlx5_cmd_work_ent.equality)
  with l show ?thesis by (rule that)
qed

lemma work_submit_ok:
  assumes ok: "slots_ok None s" and e: "ents s e = Some ent" "ent_work ent = Work_Slotted"
  obtains s' where "work_submit e s = Some s'" "slots_ok None s'"
proof -
  obtain i where idx: "ent_idx ent = Some i" and f: "refcnt ent = Suc (of_bool (trig_ref s ent))" "cb_timeout_work ent = Dw_Idle" "\<not> rref_cleared ent"
    "\<not> ent_done ent" "ent_slotted ent" "\<not> fw_has s i"
    "if ent_callback ent then \<not> ent_waiting ent \<and> e \<notin> fst ` set (cb_log s) else ent_waiting ent \<and> e \<notin> fst ` set (ret_log s)"
    using slotted_facts [OF ok e] by metis
  obtain inb outb lay where run: "work_submit e s =
    (let t = set_ent e (posted inb outb ent) (s\<lparr>cmd_buf := (cmd_buf s)[i := lay]\<rparr>)
     in if if_down s \<or> \<not> opcode_allowed s (ent_op ent)
        then force_comp e (set_ent e ((posted inb outb ent)\<lparr>ent_ret := Some ENXIO\<rparr>) t)
        else Some (t\<lparr>fw_slot := (fw_slot s)(i := Fw_Busy)\<rparr>))"
    using work_submit_posts [OF ok e(1) idx f(2)] .
  define b where "b = s\<lparr>cmd_buf := (cmd_buf s)[i := lay]\<rparr>"
  have b: "slots_ok None b" "ents b = ents s" "fw_slot b = fw_slot s" "trig_put b = trig_put s" "cb_log b = cb_log s" "ret_log b = ret_log s"
    "if_down b = if_down s" "ent_arr b = ent_arr s" "log_sz b = log_sz s"
    using slots_ok_buf [OF ok, of "(cmd_buf s)[i := lay]"] by (simp_all add: b_def)
  have op: "opcode_allowed b = opcode_allowed s" by (rule opcode_allowed_cong) (simp add: b_def)
  have eb: "ents b e = Some ent" using e b by simp
  have tr: "trig_ref b = trig_ref s" by (rule trig_ref_cong) (simp add: b)
  note bound = ent_slot_bound [OF ok e(1) idx]
  show ?thesis
  proof (cases "if_down s \<or> \<not> opcode_allowed s (ent_op ent)")
    case True
    define ent' where "ent' = (posted inb outb ent)\<lparr>ent_ret := Some ENXIO\<rparr>"
    have sub: "work_submit e s = comp_one False MLX5_CMD_COMP_TYPE_FORCED i (set_ent e ent' b)"
      using True run bound by (simp add: ent'_def force_comp_def comp_handler_single idx b_def)
    have ok': "slots_ok (Some e) (set_ent e ent' b)" by (rule slots_ok_set [OF b(1) _ eb]) (simp_all add: ent'_def)
    have c: "completing (set_ent e ent' b) True i e (ent'\<lparr>pending_comp := False\<rparr>)"
      using f by (auto simp: completing_def ent'_def idx tr b trig_ref_def split: if_splits)
    have "ents (set_ent e ent' b) e = Some ent'" "ent_arr (set_ent e ent' b) ! i = Some e" "pending_comp ent'"
      using bound b by (simp_all add: ent'_def)
    from comp_one_pending [OF ok' this c, of MLX5_CMD_COMP_TYPE_FORCED False] True obtain s' where
      "comp_one False MLX5_CMD_COMP_TYPE_FORCED i (set_ent e ent' b) = Some s'" "completed (set_ent e ent' b) e (ent'\<lparr>pending_comp := False\<rparr>) s'"
      by (auto simp: b op ent'_def)
    then show ?thesis using that sub by (auto simp: completed_def)
  next
    case False
    let ?ent = "posted inb outb ent" and ?f = "(fw_slot s)(i := Fw_Busy)"
    have sub: "work_submit e s = Some ((set_ent e ?ent b)\<lparr>fw_slot := ?f\<rparr>)" using False run by (simp add: b_def)
    have "slots_ok (Some e) (set_ent e ?ent b)" by (rule slots_ok_set [OF b(1) _ eb]) simp_all
    then have ok': "slots_ok (Some e) ((set_ent e ?ent b)\<lparr>fw_slot := ?f\<rparr>)"
      using slots_ok_fw [of e "set_ent e ?ent b" ?ent i Fw_Busy] False b by (simp add: idx)
    have op': "opcode_allowed ((set_ent e ?ent b)\<lparr>fw_slot := ?f\<rparr>) = opcode_allowed s"
      by (rule opcode_allowed_cong) (simp add: b_def)
    have "slots_ok None ((set_ent e ?ent b)\<lparr>fw_slot := ?f\<rparr>)"
    proof (rule slots_ok_close [OF ok'])
      fix x
      assume "ents ((set_ent e ?ent b)\<lparr>fw_slot := ?f\<rparr>) e = Some x"
      then have "x = ?ent" by simp
      then show "ent_full ((set_ent e ?ent b)\<lparr>fw_slot := ?f\<rparr>) e x"
        using f False by (auto simp: ent_full_def refs_def ent_rest_def ent_in_slot_def consumer_ref_def submitted_def fw_ref_def trig_ref_def
          idx b op' split: if_splits)
    qed
    then show ?thesis using that sub by simp
  qed
qed

text \<open>The caller.\<close>

lemma ent_fresh: "slots_ok x s \<Longrightarrow> ents s (next_ent s) = None"
  by (cases "ents s (next_ent s)") (auto dest!: slots_okD(1) simp: ent_base_def)

lemma set_ent_next: "set_ent e x (s\<lparr>next_ent := n\<rparr>) = (set_ent e x s)\<lparr>next_ent := n\<rparr>"
  by (cases s) (simp add: set_ent_def)

lemma slots_ok_alloc:
  assumes ok: "slots_ok None s" and idx: "ent_idx ent = None" "ent_work ent = Work_Queued"
    and ent: "ent_base (s\<lparr>next_ent := Suc (next_ent s)\<rparr>) (next_ent s) ent" "refcnt ent = 1" "ent_unslotted ent" "cb_timeout_work ent = Dw_Idle"
      "ent_waiting ent \<longleftrightarrow> \<not> ent_callback ent"
  shows "slots_ok None ((set_ent (next_ent s) ent s)\<lparr>next_ent := Suc (next_ent s)\<rparr>)"
proof -
  let ?s = "(set_ent (next_ent s) ent s)\<lparr>next_ent := Suc (next_ent s)\<rparr>"
  have g: "slots_glob s" using slots_ok_glob [OF ok] .
  have own: "slot_owned ?s i" if "slot_owned s i" for i using that ent_fresh [OF ok] by (auto simp: slot_owned_def)
  have "queue_shape ?s = queue_shape s" "sems_count ?s = sems_count s" "env_ok ?s = env_ok s"
    by (simp_all add: queue_shape_def sems_count_def env_ok_def)
  moreover have "slots_used ?s" using g own unfolding slots_glob_def slots_used_def by simp
  moreover have "logs_ok ?s" using g unfolding slots_glob_def logs_ok_def by auto
  ultimately have glob: "slots_glob ?s" using g by (simp add: slots_glob_def)
  have full: "ent_full ?s = ent_full s" by (rule ent_full_cong) simp_all
  have base: "ent_base ?s e x" if "ent_base s e x" for e x using that by (simp add: ent_base_def)
  have "next_ent s \<notin> fst ` set (cb_log s)" "next_ent s \<notin> fst ` set (ret_log s)" using g by (auto simp: slots_glob_def logs_ok_def)
  then have "ent_full s (next_ent s) ent"
    using ent idx by (auto simp: ent_full_def ent_rest_def refs_def consumer_ref_def submitted_def fw_ref_def trig_ref_def)
  moreover have "ent_base ?s (next_ent s) ent" using ent(1) by (simp add: ent_base_def)
  ultimately show ?thesis using glob full base slots_okD [OF ok] by (auto simp: slots_ok_def)
qed

lemma invoke_begin_ok:
  assumes ok: "slots_ok None s"
  obtains r s' where "invoke_begin kz q inb outb n callback pq token False s = Some (r, s')" "slots_ok None s'"
proof (cases "callback \<and> pq \<or> \<not> kz")
  case True
  then have "\<exists>r. invoke_begin kz q inb outb n callback pq token False s = Some (r, s)"
    by (cases "callback \<and> pq") (simp_all add: invoke_begin_def cmd_alloc_ent_def)
  then show ?thesis using that ok by auto
next
  case False
  define ent where "ent = \<lparr>pending_comp = False, rref_cleared = False, ent_in = inb, ent_out = outb, uout_size = n,
    ent_callback = callback, cb_timeout_work = Dw_Idle, ent_idx = None, ent_handling = False, ent_slotted = False,
    ent_done = False, ent_work = Work_Queued, ent_waiting = \<not> callback, ent_ret = None, page_queue = pq,
    ent_status = 0, ent_token = token, ent_op = in_to_opcode (cm_first inb), ent_polling = False, refcnt = 1\<rparr>"
  define t where "t = (set_ent (next_ent s) ent s)\<lparr>next_ent := Suc (next_ent s)\<rparr>"
  have run: "invoke_begin kz q inb outb n callback pq token False s =
    (if \<not> pq \<and> \<not> q then do { s \<leftarrow> cmd_ent_put (next_ent s) t; Some (Inl EALREADY, s) } else Some (Inr (next_ent s), t))"
    using False by (simp add: invoke_begin_def cmd_alloc_ent_def Let_def upd_ent_def set_ent_next t_def ent_def)
  have okt: "slots_ok None t" unfolding t_def
    by (rule slots_ok_alloc [OF ok]) (use False in \<open>auto simp: ent_def ent_base_def ent_unslotted_def\<close>)
  have et: "ents t (next_ent s) = Some ent" by (simp add: t_def)
  obtain s' where "cmd_ent_put (next_ent s) t = Some s'" "slots_ok None s'"
    by (rule ent_put_free [OF slots_ok_open [OF okt] et]) (simp_all add: ent_def)
  then show ?thesis using that run okt by (cases "\<not> pq \<and> \<not> q") auto
qed

lemma wait_cancel_ok:
  assumes ok: "slots_ok None s" and e: "ents s e = Some ent" "ent_work ent = Work_Queued" "\<not> ent_callback ent"
  obtains s' where "wait_cancel e s = Some s'" "slots_ok None s'"
proof -
  let ?ent = "ent\<lparr>ent_ret := Some ECANCELED, ent_work := Work_Finished\<rparr>"
  note q = queued_facts [OF ok e(1,2)]
  have "slots_ok None (set_ent e ?ent s)"
  proof (rule slots_ok_close)
    show "slots_ok (Some e) (set_ent e ?ent s)" by (rule slots_ok_set [OF ok _ e(1)]) simp_all
  qed (use q e in \<open>auto simp: ent_full_def ent_rest_def refs_def consumer_ref_def submitted_def fw_ref_def trig_ref_def ent_unslotted_def\<close>)
  then show ?thesis using that e by (simp add: wait_cancel_def upd_ent_some)
qed

text \<open>The caller may return once its command was completed, cancelled or refused a slot.\<close>

definition may_return :: "mlx5_cmd_work_ent \<Rightarrow> bool" where
  "may_return ent \<longleftrightarrow> \<not> ent_callback ent \<and> ent_waiting ent \<and> (ent_done ent \<and> ent_slotted ent \<or> ent_ret ent = Some ECANCELED \<and> ent_idx ent = None)"

lemma put_ret_log: "cmd_ent_put e (s\<lparr>ret_log := l\<rparr>) = map_option (\<lambda>s. s\<lparr>ret_log := l\<rparr>) (cmd_ent_put e s)"
  by (cases "ents s e") (simp_all add: cmd_ent_put_def set_ent_def cmd_free_index_def Let_def split: option.split)

lemma put_keeps_ret_log: "cmd_ent_put e s = Some s' \<Longrightarrow> ret_log s' = ret_log s"
  by (auto simp: cmd_ent_put_def set_ent_def cmd_free_index_def Let_def split: option.splits if_splits bind_splits)

lemma invoke_end_ok:
  assumes ok: "slots_ok None s" and e: "ents s e = Some ent" "may_return ent"
  obtains s' where "invoke_end e s = Some s'" "slots_ok None s'"
proof -
  define res where "res = (case ent_ret ent of Some err \<Rightarrow> Inl err | None \<Rightarrow> Inr (ent_status ent))"
  define ent' where "ent' = ent\<lparr>ent_waiting := False\<rparr>"
  define t where "t = (set_ent e ent' s)\<lparr>ret_log := ret_log s @ [(e, res)]\<rparr>"
  have full: "ent_full s e ent" using slots_okD(2) [OF ok e(1)] by simp
  have new: "e \<notin> fst ` set (ret_log s)" using full e(2) by (auto simp: ent_full_def ent_rest_def may_return_def consumer_ref_def)
  have "slots_ok (Some e) (set_ent e ent' s)" by (rule slots_ok_set [OF ok _ e(1)]) (simp_all add: ent'_def)
  then have ok': "slots_ok (Some e) t"
  proof (rule slots_ok_env)
    show "logs_ok t" using slots_ok_glob [OF ok] new slots_okD(1) [OF ok e(1)] by (auto simp: slots_glob_def logs_ok_def t_def ent_base_def)
    fix e' x
    assume "Some e \<noteq> Some e'" "ent_rest (set_ent e ent' s) e' x"
    moreover have "ent_in_slot t = ent_in_slot s" by (rule ent_in_slot_cong) (simp_all add: t_def)
    ultimately show "ent_rest t e' x" by (simp add: ent_rest_def t_def split: option.splits)
  qed (simp_all add: same_env_def t_def)
  have et: "ents t e = Some ent'" by (simp add: t_def)
  have in_slot: "ent_in_slot t = ent_in_slot s" "fw_ref t = fw_ref s" "trig_ref t = trig_ref s"
    by (auto intro: ent_in_slot_cong fw_ref_cong trig_ref_cong simp: t_def)
  have cons: "consumer_ref ent" "\<not> consumer_ref ent'" using e(2) by (simp_all add: consumer_ref_def may_return_def ent'_def)
  have "refcnt ent' = Suc (refs t ent')"
    using full cons by (simp add: ent_full_def refs_def in_slot) (simp add: ent'_def fw_ref_def trig_ref_def)
  moreover have "ent_rest t e ent'"
    using full e(2) cons unfolding ent_full_def ent_rest_def in_slot
    by (auto simp: t_def ent'_def may_return_def ent_in_slot_def ent_unslotted_def submitted_def fw_ref_def split: option.splits)
  ultimately obtain s' where s': "cmd_ent_put e t = Some s'" "slots_ok None s'" using drop_ref [OF ok' et] by metis
  then have "invoke_end e s = Some s'"
    using e put_keeps_ret_log by (auto simp: invoke_end_def t_def put_ret_log ent'_def res_def)
  then show ?thesis using that s' by simp
qed

text \<open>The device.\<close>

lemma fw_answer_ok:
  assumes ok: "slots_ok None s" and i: "fw_slot s i = Fw_Busy" "\<not> if_down s"
  obtains s' where "fw_answer i lay boxes s = Some s'" "slots_ok None s'"
proof -
  have g: "slots_glob s" using slots_ok_glob [OF ok] .
  then have "i \<le> max_reg_cmds s" using i(1) by (simp add: slots_glob_def env_ok_def)
  then have "slot_owned s i" using g i(1) by (auto simp: slots_glob_def slots_used_def)
  then obtain e ent where e: "ents s e = Some ent" "ent_idx ent = Some i" by (auto simp: slot_owned_def)
  note bound = ent_slot_bound [OF ok e]
  define ent' where "ent' = ent\<lparr>ent_out := (ent_out ent)\<lparr>cm_next := boxes\<rparr>\<rparr>"
  define b where "b = s\<lparr>cmd_buf := (cmd_buf s)[i := lay]\<rparr>"
  define t where "t = (set_ent e ent' b)\<lparr>fw_slot := (fw_slot s)(i := Fw_Answered)\<rparr>"
  have b: "slots_ok None b" "ents b e = Some ent" using slots_ok_buf [OF ok, of "(cmd_buf s)[i := lay]"] e by (simp_all add: b_def)
  have run: "fw_answer i lay boxes s = Some t"
    using bound e by (simp add: fw_answer_def nth_opt_Some upd_opt_Some upd_ent_some t_def b_def ent'_def set_ent_def)
  have ok': "slots_ok (Some e) t"
    using slots_ok_fw [OF slots_ok_set [OF b(1) _ b(2), of ent'], of ent' i Fw_Answered] i(2) e(2) by (simp add: t_def b_def ent'_def)
  have op: "opcode_allowed t = opcode_allowed s" by (rule opcode_allowed_cong) (simp add: t_def b_def)
  have fw: "fw_ref t ent' = fw_ref s ent" "trig_ref t ent' = trig_ref s ent" "consumer_ref ent' = consumer_ref ent" "submitted ent' = submitted ent"
    using i(1) e(2) by (simp_all add: fw_ref_def trig_ref_def consumer_ref_def submitted_def t_def b_def ent'_def)
  have full: "ent_full s e ent" using slots_okD(2) [OF ok e(1)] by simp
  then have "ent_in_slot s i ent" using e(2) by (simp add: ent_full_def ent_rest_def)
  moreover have "ent_in_slot t i ent' \<longleftrightarrow> ent_in_slot s i ent"
    using i(1) op fw unfolding ent_in_slot_def by (simp add: ent'_def) (auto simp: t_def)
  ultimately have "ent_rest t e ent'"
    using full e(2) fw by (simp add: ent_full_def ent_rest_def) (simp add: t_def b_def ent'_def)
  moreover have "refs t ent' = refs s ent" using fw by (simp add: refs_def) (simp add: ent'_def)
  ultimately have "ent_full t e ent'" using full by (simp add: ent_full_def) (simp add: ent'_def)
  then have "slots_ok None t" using slots_ok_close [OF ok'] by (simp add: t_def)
  with run show ?thesis by (rule that)
qed

lemma dev_up_ok: "slots_ok None s \<Longrightarrow> slots_ok None (dev_up s)"
proof -
  assume ok: "slots_ok None s"
  let ?s = "dev_up s"
  have "queue_shape ?s = queue_shape s" "sems_count ?s = sems_count s" "slots_used ?s = slots_used s" "logs_ok ?s = logs_ok s"
    by (simp_all add: dev_up_def queue_shape_def sems_count_def slots_used_def slot_owned_def logs_ok_def)
  moreover have "env_ok s \<Longrightarrow> env_ok ?s" by (simp add: dev_up_def env_ok_def)
  moreover have "ent_base ?s = ent_base s" "ent_full ?s = ent_full s" by (auto intro: ent_base_cong ent_full_cong simp: dev_up_def)
  moreover have "ents ?s = ents s" by (simp add: dev_up_def)
  ultimately show ?thesis using ok by (simp add: slots_ok_def slots_glob_def)
qed

lemma dev_fail_ok: "slots_ok None s \<Longrightarrow> slots_ok None (dev_fail s)"
proof -
  assume ok: "slots_ok None s"
  let ?s = "dev_fail s"
  have fw: "\<not> fw_has ?s i" "fw_slot ?s i \<noteq> Fw_Idle \<longleftrightarrow> fw_slot s i \<noteq> Fw_Idle" for i by (simp_all add: dev_fail_def)
  have "queue_shape ?s = queue_shape s" "sems_count ?s = sems_count s" "logs_ok ?s = logs_ok s"
    by (simp_all add: dev_fail_def queue_shape_def sems_count_def logs_ok_def)
  moreover have "slots_used ?s" using slots_ok_glob [OF ok] fw unfolding slots_glob_def slots_used_def slot_owned_def by (simp add: dev_fail_def)
  moreover have "env_ok ?s" using slots_ok_glob [OF ok] fw unfolding slots_glob_def env_ok_def by (simp add: dev_fail_def)
  moreover have "ent_base ?s = ent_base s" by (auto intro: ent_base_cong simp: dev_fail_def)
  moreover have "ent_full ?s e ent" if "ent_full s e ent" for e ent
  proof -
    have "trig_ref ?s = trig_ref s" "opcode_allowed ?s = opcode_allowed s"
      by (rule trig_ref_cong opcode_allowed_cong; simp add: dev_fail_def)+
    moreover have "fw_ref ?s = fw_ref s" using fw by (auto simp: fw_ref_def fun_eq_iff split: option.split)
    ultimately have r: "fw_ref ?s = fw_ref s" "trig_ref ?s = trig_ref s" "opcode_allowed ?s = opcode_allowed s" by simp_all
    have "cb_log ?s = cb_log s" "ret_log ?s = ret_log s" by (simp_all add: dev_fail_def)
    moreover have "ent_in_slot ?s i ent" if "ent_in_slot s i ent" for i using that r fw by (auto simp: ent_in_slot_def)
    ultimately show ?thesis using that r by (auto simp: ent_full_def refs_def ent_rest_def split: option.splits)
  qed
  moreover have "ents ?s = ents s" by (simp add: dev_fail_def)
  ultimately show ?thesis using ok by (simp add: slots_ok_def slots_glob_def)
qed

lemma timer_fire_ok:
  assumes ok: "slots_ok None s" and e: "ents s e = Some ent" "cb_timeout_work ent = Dw_Queued"
  shows "slots_ok None (set_ent e (ent\<lparr>cb_timeout_work := Dw_Running\<rparr>) s)"
proof (rule slots_ok_close)
  let ?ent = "ent\<lparr>cb_timeout_work := Dw_Running\<rparr>"
  show "slots_ok (Some e) (set_ent e ?ent s)" by (rule slots_ok_set [OF ok _ e(1)]) simp_all
  have *: "consumer_ref ?ent = consumer_ref ent" "submitted ?ent = submitted ent" "fw_ref s ?ent = fw_ref s ent" "trig_ref s ?ent = trig_ref s ent"
    "ent_in_slot s i ?ent = ent_in_slot s i ent" "ent_unslotted ?ent = ent_unslotted ent" for i
    by (simp_all add: consumer_ref_def submitted_def fw_ref_def trig_ref_def ent_in_slot_def ent_unslotted_def)
  have "ent_full s e ent" using slots_okD(2) [OF ok e(1)] by simp
  then have "ent_full s e ?ent" using * e(2) by (auto simp: ent_full_def refs_def ent_rest_def split: option.splits)
  then show "\<And>x. ents (set_ent e ?ent s) e = Some x \<Longrightarrow> ent_full (set_ent e ?ent s) e x" by simp
qed

text \<open>The mode and the allowed command change only while no slot is in use.\<close>

lemma all_free_no_slot:
  assumes ok: "slots_ok None s" and free: "all_slots_free s" and e: "ents s e = Some ent"
  shows "ent_idx ent = None"
proof (rule ccontr)
  assume "ent_idx ent \<noteq> None"
  then obtain i where "ent_idx ent = Some i" by auto
  note b = ent_slot_bound [OF ok e this]
  have g: "sems_count s" "queue_shape s" using slots_ok_glob [OF ok] by (simp_all add: slots_glob_def)
  have pages: "bitmask s ! max_reg_cmds s"
    using g free by (cases "bitmask s ! max_reg_cmds s") (simp_all add: all_slots_free_def sems_count_def)
  have "count_list (take (max_reg_cmds s) (bitmask s)) True = max_reg_cmds s"
    using g free count_le_length [of "take (max_reg_cmds s) (bitmask s)" True]
    by (simp add: all_slots_free_def sems_count_def queue_shape_def)
  then have "False \<notin> set (take (max_reg_cmds s) (bitmask s))"
    using g length_filter_less [of False "take (max_reg_cmds s) (bitmask s)" "(=) True"]
    by (auto simp: queue_shape_def count_list_eq_length_filter)
  moreover have "bitmask s ! i \<in> set (take (max_reg_cmds s) (bitmask s))" if "i < max_reg_cmds s"
    using that g nth_mem [of i "take (max_reg_cmds s) (bitmask s)"] by (simp add: queue_shape_def)
  ultimately have "bitmask s ! i" if "i < max_reg_cmds s" using that by (metis (full_types))
  with pages b show False by (cases "i = max_reg_cmds s") auto
qed

lemma allowed_opcode_ok:
  assumes ok: "slots_ok None s" and run: "mlx5_cmd_allowed_opcode opcode s = Some s'"
  shows "slots_ok None s'"
proof -
  have free: "all_slots_free s" and s': "s' = s\<lparr>allowed_opcode := opcode\<rparr>" using run by (auto simp: mlx5_cmd_allowed_opcode_def split: if_splits)
  have "queue_shape s' = queue_shape s" "sems_count s' = sems_count s" "slots_used s' = slots_used s" "logs_ok s' = logs_ok s" "env_ok s' = env_ok s"
    by (simp_all add: s' queue_shape_def sems_count_def slots_used_def slot_owned_def logs_ok_def env_ok_def)
  moreover have "ent_base s' = ent_base s" by (auto intro: ent_base_cong simp: s')
  moreover have "ent_full s' e ent = ent_full s e ent" if "ents s e = Some ent" for e ent
    using all_free_no_slot [OF ok free that] refs_cong [of s' s] by (simp add: ent_full_def ent_rest_def s')
  ultimately show ?thesis using ok by (auto simp: slots_ok_def slots_glob_def s')
qed

section \<open>Triggered completions\<close>

text \<open>\<open>mlx5_cmd_trigger_completions\<close> in the steps between which others run: the references, the completion of one
  slot, and the release of one slot.\<close>

definition trig_begin :: "cmd_if \<Rightarrow> cmd_if option" where
  "trig_begin s = map_option (\<lambda>t. t\<lparr>trig_put := busy_slots s, trig_comp := busy_slots s\<rparr>) (get_slots (busy_slots s) s)"

definition trig_one :: "cmd_if \<Rightarrow> cmd_if option" where
  "trig_one s = (case trig_comp s of [] \<Rightarrow> Some s
     | i # is \<Rightarrow> comp_one True MLX5_CMD_COMP_TYPE_FORCED i (s\<lparr>trig_comp := is\<rparr>))"

definition trig_end :: "cmd_if \<Rightarrow> cmd_if option" where
  "trig_end s = (case trig_put s of [] \<Rightarrow> Some s | i # is \<Rightarrow> put_slot i (s\<lparr>trig_put := is\<rparr>))"

lemma slots_ok_trig:
  assumes ok: "slots_ok (Some e) s" and e: "ents s e = Some ent" "ent_idx ent = Some i"
    and l: "distinct l" "set c \<subseteq> set l" "set l - {i} = set (trig_put s) - {i}"
  shows "slots_ok (Some e) (s\<lparr>trig_put := l, trig_comp := c\<rparr>)"
proof -
  let ?s = "s\<lparr>trig_put := l, trig_comp := c\<rparr>"
  note b = ent_slot_bound [OF ok e]
  have mem: "j \<in> set l \<longleftrightarrow> j \<in> set (trig_put s)" if "j \<noteq> i" for j using l(3) that by blast
  have g: "queue_shape ?s = queue_shape s" "sems_count ?s = sems_count s" "logs_ok ?s = logs_ok s" "ent_base ?s = ent_base s"
    by (auto simp: queue_shape_def sems_count_def logs_ok_def intro: ent_base_cong)
  have own: "slot_owned ?s = slot_owned s" by (simp add: slot_owned_def fun_eq_iff)
  have used: "slots_used s" and env: "env_ok s" using slots_ok_glob [OF ok] by (simp_all add: slots_glob_def)
  have "slots_used ?s" unfolding slots_used_def
  proof (intro allI impI)
    fix j
    assume j: "j \<le> max_reg_cmds ?s"
    show "(bitmask ?s ! j \<longrightarrow> \<not> fw_has ?s j \<and> j \<notin> set (trig_put ?s)) \<and> (\<not> bitmask ?s ! j \<longrightarrow> slot_owned ?s j)"
      using used j b(6) mem [of j] by (cases "j = i") (simp_all add: slots_used_def own)
  qed
  moreover have "env_ok ?s" using env b(2) l mem unfolding env_ok_def by auto
  moreover have "ent_full ?s e' ent' = ent_full s e' ent'" if "ents s e' = Some ent'" "e' \<noteq> e" for e' ent'
  proof -
    have "ent_idx ent' \<noteq> Some i" using slot_unique [OF ok e that(1)] that(2) by auto
    then have "trig_ref ?s ent' = trig_ref s ent'" using mem by (auto simp: trig_ref_def split: option.splits)
    moreover have "fw_ref ?s = fw_ref s" "ent_rest ?s = ent_rest s" by (rule fw_ref_cong ent_rest_cong; simp)+
    ultimately show ?thesis by (simp add: ent_full_def refs_def)
  qed
  ultimately show ?thesis using ok g unfolding slots_ok_def slots_glob_def by auto
qed

lemma get_one_ok:
  assumes ok: "slots_ok None (s\<lparr>trig_put := d, trig_comp := []\<rparr>)" and i: "i \<le> max_reg_cmds s" "\<not> bitmask s ! i" "i \<notin> set d"
  obtains e s' where "nth_opt (ent_arr s) i = Some (Some e)" "cmd_ent_get e s = Some s'"
    "slots_ok None (s'\<lparr>trig_put := d @ [i], trig_comp := []\<rparr>)" "bitmask s' = bitmask s" "max_reg_cmds s' = max_reg_cmds s"
proof -
  let ?t = "s\<lparr>trig_put := d, trig_comp := []\<rparr>"
  have "slot_owned ?t i" using slots_ok_glob [OF ok] i by (simp add: slots_glob_def slots_used_def)
  then obtain e ent where e: "ents ?t e = Some ent" "ent_idx ent = Some i" by (auto simp: slot_owned_def)
  note b = ent_slot_bound [OF ok e]
  let ?ent = "ent\<lparr>refcnt := refcnt ent + 1\<rparr>"
  have s1: "slots_ok (Some e) (set_ent e ?ent ?t)" by (rule slots_ok_set [OF ok _ e(1)]) simp_all
  have eq: "(set_ent e ?ent ?t)\<lparr>trig_put := d @ [i], trig_comp := []\<rparr> = (set_ent e ?ent s)\<lparr>trig_put := d @ [i], trig_comp := []\<rparr>"
    by (cases s) (simp add: set_ent_def)
  have "distinct d" using slots_ok_glob [OF ok] by (simp add: slots_glob_def env_ok_def)
  then have s2: "slots_ok (Some e) ((set_ent e ?ent ?t)\<lparr>trig_put := d @ [i], trig_comp := []\<rparr>)"
    using slots_ok_trig [OF s1, of ?ent i "d @ [i]" "[]"] e(2) i(3) by auto
  have full: "ent_full ?t e ent" using slots_okD(2) [OF ok e(1)] by simp
  define u where "u = (set_ent e ?ent ?t)\<lparr>trig_put := d @ [i], trig_comp := []\<rparr>"
  have c: "fw_ref u = fw_ref ?t" "ent_rest u = ent_rest ?t" unfolding u_def by (rule fw_ref_cong ent_rest_cong; simp)+
  have "trig_ref u ent" "\<not> trig_ref ?t ent" using e(2) i(3) by (simp_all add: u_def trig_ref_def)
  then have "refs u ent = Suc (refs ?t ent)" by (simp add: refs_def c)
  then have "ent_full u e ?ent" using full by (simp add: ent_full_def c)
  then have "slots_ok None u" using slots_ok_close [OF s2] by (simp add: u_def)
  then have "slots_ok None ((set_ent e ?ent s)\<lparr>trig_put := d @ [i], trig_comp := []\<rparr>)" unfolding u_def eq .
  moreover have "cmd_ent_get e s = Some (set_ent e ?ent s)" using e(1) by (simp add: ent_get_some)
  moreover have "nth_opt (ent_arr s) i = Some (Some e)" using b by (simp add: nth_opt_Some)
  ultimately show ?thesis using that [of e "set_ent e ?ent s"] by simp
qed

lemma get_slots_ok:
  assumes "slots_ok None (s\<lparr>trig_put := d, trig_comp := []\<rparr>)" "\<forall>i\<in>set is. i \<le> max_reg_cmds s \<and> \<not> bitmask s ! i" "distinct (d @ is)"
  shows "\<exists>s'. get_slots is s = Some s' \<and> slots_ok None (s'\<lparr>trig_put := d @ is, trig_comp := []\<rparr>)"
  using assms
proof (induction "is" arbitrary: s d)
  case (Cons i "is")
  have "i \<le> max_reg_cmds s" "\<not> bitmask s ! i" "i \<notin> set d" using Cons.prems by auto
  from get_one_ok [OF Cons.prems(1) this] obtain e t where t: "nth_opt (ent_arr s) i = Some (Some e)" "cmd_ent_get e s = Some t"
    "slots_ok None (t\<lparr>trig_put := d @ [i], trig_comp := []\<rparr>)" "bitmask t = bitmask s" "max_reg_cmds t = max_reg_cmds s" .
  show ?case using Cons.IH [OF t(3)] Cons.prems t by simp
qed simp

lemma slots_ok_set_comp:
  assumes ok: "slots_ok None (s\<lparr>trig_put := l, trig_comp := []\<rparr>)" and c: "set c \<subseteq> set l"
  shows "slots_ok None (s\<lparr>trig_put := l, trig_comp := c\<rparr>)"
proof -
  let ?t = "s\<lparr>trig_put := l, trig_comp := []\<rparr>" and ?u = "s\<lparr>trig_put := l, trig_comp := c\<rparr>"
  have "queue_shape ?u = queue_shape ?t" "sems_count ?u = sems_count ?t" "slots_used ?u = slots_used ?t" "logs_ok ?u = logs_ok ?t"
    by (simp_all add: queue_shape_def sems_count_def slots_used_def slot_owned_def logs_ok_def)
  moreover have "env_ok ?u = env_ok ?t" using c by (simp add: env_ok_def)
  moreover have "ent_base ?u = ent_base ?t" "ent_full ?u = ent_full ?t" by (auto intro: ent_base_cong ent_full_cong)
  ultimately show ?thesis using ok by (simp add: slots_ok_def slots_glob_def)
qed

lemma busy_slots_facts: "\<forall>i\<in>set (busy_slots s). i \<le> max_reg_cmds s \<and> \<not> bitmask s ! i" "distinct (busy_slots s)"
  by (auto simp: busy_slots_def)

lemma trig_begin_ok:
  assumes ok: "slots_ok None s" and idle: "trig_put s = []"
  obtains s' where "trig_begin s = Some s'" "slots_ok None s'"
proof -
  have "trig_comp s = []" using slots_ok_glob [OF ok] idle by (simp add: slots_glob_def env_ok_def)
  then have "s\<lparr>trig_put := [], trig_comp := []\<rparr> = s" using idle by simp
  then obtain t where t: "get_slots (busy_slots s) s = Some t" "slots_ok None (t\<lparr>trig_put := busy_slots s, trig_comp := []\<rparr>)"
    using get_slots_ok [of "[]" s "busy_slots s"] ok busy_slots_facts [of s] by auto
  then show ?thesis using that t slots_ok_set_comp [OF t(2), of "busy_slots s"] by (simp add: trig_begin_def)
qed

lemma trig_slot_owner:
  assumes ok: "slots_ok None s" and i: "i \<in> set (trig_put s)"
  obtains e ent where "ents s e = Some ent" "ent_idx ent = Some i" "ent_arr s ! i = Some e" "i < length (ent_arr s)"
proof -
  have g: "env_ok s" "slots_used s" using slots_ok_glob [OF ok] by (simp_all add: slots_glob_def)
  then have "i \<le> max_reg_cmds s" using i by (simp add: env_ok_def)
  then have "slot_owned s i" using g(2) i by (auto simp: slots_used_def)
  then obtain e ent where e: "ents s e = Some ent" "ent_idx ent = Some i" by (auto simp: slot_owned_def)
  then show ?thesis using that ent_slot_bound [OF ok e] by blast
qed

text \<open>The slot that the triggered completion handles next has a command that timed out and has lost the device's reference.\<close>

definition drops_twice :: "cmd_if \<Rightarrow> bool" where
  "drops_twice s \<longleftrightarrow> (case trig_comp s of [] \<Rightarrow> False
     | i # _ \<Rightarrow> (\<exists>e ent. ent_arr s ! i = Some e \<and> ents s e = Some ent \<and> timed_out_cleared ent))"

lemma trig_one_ok:
  assumes ok: "slots_ok None s" and safe: "\<not> drops_twice s"
  obtains s' where "trig_one s = Some s'" "slots_ok None s'"
proof (cases "trig_comp s")
  case Nil
  then show ?thesis using that ok by (simp add: trig_one_def)
next
  case (Cons i "is")
  let ?t = "s\<lparr>trig_comp := is\<rparr>"
  have c: "set (i # is) \<subseteq> set (trig_put s)" using slots_ok_glob [OF ok] Cons by (simp add: slots_glob_def env_ok_def)
  have "queue_shape ?t = queue_shape s" "sems_count ?t = sems_count s" "slots_used ?t = slots_used s" "logs_ok ?t = logs_ok s"
    by (simp_all add: queue_shape_def sems_count_def slots_used_def slot_owned_def logs_ok_def)
  moreover have "env_ok ?t = env_ok s" using c Cons by (simp add: env_ok_def)
  moreover have "ent_base ?t = ent_base s" "ent_full ?t = ent_full s" by (auto intro: ent_base_cong ent_full_cong)
  ultimately have okt: "slots_ok None ?t" using ok by (simp add: slots_ok_def slots_glob_def)
  have "i \<in> set (trig_put s)" using c by simp
  from trig_slot_owner [OF ok this] obtain e ent where e': "ents s e = Some ent" "ent_idx ent = Some i" "ent_arr s ! i = Some e" .
  then have e: "ents ?t e = Some ent" "ent_idx ent = Some i" by simp_all
  have "\<not> timed_out_cleared ent" using safe e' Cons by (auto simp: drops_twice_def)
  with forced_one [OF okt e, of True] obtain s' where
    "comp_one True MLX5_CMD_COMP_TYPE_FORCED i ?t = Some s'" "if pending_comp ent then completed ?t e (ent\<lparr>pending_comp := False\<rparr>) s' else s' = ?t" by auto
  then show ?thesis using that okt Cons by (auto simp: trig_one_def completed_def split: if_splits)
qed


lemma trig_end_ok:
  assumes ok: "slots_ok None s" and idle: "trig_comp s = []"
  obtains s' where "trig_end s = Some s'" "slots_ok None s'"
proof (cases "trig_put s")
  case Nil
  then show ?thesis using that ok by (simp add: trig_end_def)
next
  case (Cons i "is")
  then have "i \<in> set (trig_put s)" by simp
  from trig_slot_owner [OF ok this] obtain e ent where
    e: "ents s e = Some ent" "ent_idx ent = Some i" "ent_arr s ! i = Some e" "i < length (ent_arr s)" .
  let ?t = "s\<lparr>trig_put := is, trig_comp := []\<rparr>"
  have t: "?t = s\<lparr>trig_put := is\<rparr>" using idle by (cases s) simp
  have d: "distinct (i # is)" using slots_ok_glob [OF ok] Cons by (simp add: slots_glob_def env_ok_def)
  have okt: "slots_ok (Some e) ?t" by (rule slots_ok_trig [OF slots_ok_open [OF ok] e(1,2)]) (use d Cons in auto)
  have et: "ents ?t e = Some ent" using e by simp
  have full: "ent_full s e ent" using slots_okD(2) [OF ok e(1)] by simp
  have c: "fw_ref ?t = fw_ref s" "ent_rest ?t = ent_rest s" by (rule fw_ref_cong ent_rest_cong; simp)+
  have "trig_ref s ent" "\<not> trig_ref ?t ent" using d e(2) Cons by (simp_all add: trig_ref_def)
  then have "refcnt ent = Suc (refs ?t ent)" using full by (simp add: ent_full_def refs_def c)
  moreover have "ent_rest ?t e ent" using full by (simp add: ent_full_def c)
  ultimately obtain s' where "cmd_ent_put e ?t = Some s'" "slots_ok None s'" using drop_ref [OF okt et] by metis
  then show ?thesis using that e Cons t by (simp add: trig_end_def put_slot_def nth_opt_Some)
qed

section \<open>Runs\<close>

text \<open>The steps of all threads. The only guards are those of the code and of its environment: a handler runs when its thread is there, the worker of a
  page command waits for its semaphore, and a device that is down neither answers nor sends events.\<close>

inductive handler_step :: "cmd_if \<Rightarrow> cmd_if \<Rightarrow> bool" where
  sl_invoke: "invoke_begin kz q inb outb n callback pq token False s = Some (r, s') \<Longrightarrow> handler_step s s'"
| sl_slot: "ents s e = Some ent \<Longrightarrow> ent_work ent = Work_Queued \<Longrightarrow> (page_queue ent \<longrightarrow> 0 < pages_sem s) \<Longrightarrow> work_slot e s = Some s' \<Longrightarrow> handler_step s s'"
| sl_submit: "ents s e = Some ent \<Longrightarrow> ent_work ent = Work_Slotted \<Longrightarrow> work_submit e s = Some s' \<Longrightarrow> handler_step s s'"
| sl_answer: "fw_slot s i = Fw_Busy \<Longrightarrow> \<not> if_down s \<Longrightarrow> fw_answer i lay boxes s = Some s' \<Longrightarrow> handler_step s s'"
| sl_event: "fw_slot s i = Fw_Answered \<Longrightarrow> \<not> if_down s \<Longrightarrow> cmd_comp_notifier i s = Some s' \<Longrightarrow> handler_step s s'"
| sl_fire: "ents s e = Some ent \<Longrightarrow> cb_timeout_work ent = Dw_Queued \<Longrightarrow> handler_step s (set_ent e (ent\<lparr>cb_timeout_work := Dw_Running\<rparr>) s)"
| sl_cb_timeout: "ents s e = Some ent \<Longrightarrow> cb_timeout_work ent = Dw_Running \<Longrightarrow> cb_timeout_handler e s = Some s' \<Longrightarrow> handler_step s s'"
| sl_cancel: "ents s e = Some ent \<Longrightarrow> ent_work ent = Work_Queued \<Longrightarrow> \<not> ent_callback ent \<Longrightarrow> wait_cancel e s = Some s' \<Longrightarrow> handler_step s s'"
| sl_timeout: "ents s e = Some ent \<Longrightarrow> submitted ent \<Longrightarrow> \<not> ent_callback ent \<Longrightarrow> ent_waiting ent \<Longrightarrow>
    wait_func_handle_exec_timeout e s = Some s' \<Longrightarrow> handler_step s s'"
| sl_return: "ents s e = Some ent \<Longrightarrow> may_return ent \<Longrightarrow> invoke_end e s = Some s' \<Longrightarrow> handler_step s s'"
| sl_fail: "handler_step s (dev_fail s)"
| sl_up: "handler_step s (dev_up s)"
| sl_allow: "mlx5_cmd_allowed_opcode opcode s = Some s' \<Longrightarrow> handler_step s s'"
| sl_trig_begin: "trig_put s = [] \<Longrightarrow> trig_begin s = Some s' \<Longrightarrow> handler_step s s'"
| sl_trig_one: "trig_one s = Some s' \<Longrightarrow> handler_step s s'"
| sl_trig_end: "trig_comp s = [] \<Longrightarrow> trig_end s = Some s' \<Longrightarrow> handler_step s s'"

text \<open>The steps without a triggered completion that meets a command which has lost the device's reference at its time-out. That step drops a
  reference of somebody else (\<open>cmd_trigger_drops_twice\<close>).\<close>

abbreviation slot_step :: "cmd_if \<Rightarrow> cmd_if \<Rightarrow> bool" where
  "slot_step \<equiv> (\<lambda>s t. handler_step s t \<and> (trig_one s = Some t \<longrightarrow> \<not> drops_twice s))"

text \<open>The command interface right after it was enabled and switched to events.\<close>

definition slot_start :: "cmd_if \<Rightarrow> bool" where
  "slot_start s \<longleftrightarrow> (\<exists>cmdif_rev cmd_l pool first second caches s0 s1.
     mlx5_cmd_enable cmdif_rev cmd_l pool first second caches s0 = (None, s1) \<and> mlx5_cmd_change_mod True s1 = Some s \<and>
     length (ent_arr s0) = MLX5_MAX_COMMANDS \<and> ents s0 = (\<lambda>_. None) \<and> fw_slot s0 = (\<lambda>_. Fw_Idle) \<and>
     cb_log s0 = [] \<and> ret_log s0 = [] \<and> trig_put s0 = [] \<and> trig_comp s0 = [])"

lemma reach_handler: "reach slot_start slot_step s \<Longrightarrow> handler_step s t \<Longrightarrow> trig_comp s = [] \<Longrightarrow> reach slot_start slot_step t"
  by (erule reach_step) (simp add: drops_twice_def)

lemma count_list_replicate_self: "count_list (replicate n x) x = n"
  by (induction n) auto

lemma replicate_pow2: "x # replicate (2 ^ k - Suc 0) x = replicate (2 ^ k) x"
  by (simp flip: replicate_Suc)

lemma enable_shape:
  assumes "mlx5_cmd_enable cmdif_rev cmd_l pool first second caches s0 = (None, s1)"
  shows "\<exists>n. 2 ^ n \<le> MLX5_MAX_COMMANDS \<and> log_sz s1 = n \<and> max_reg_cmds s1 = 2 ^ n - 1 \<and> bitmask s1 = replicate (2 ^ n) True \<and> cmd_sem s1 = 2 ^ n - 1 \<and>
    pages_sem s1 = 1 \<and> length (cmd_buf s1) = 2 ^ n \<and> ent_arr s1 = ent_arr s0 \<and> ents s1 = ents s0 \<and> fw_slot s1 = fw_slot s0 \<and>
    cb_log s1 = cb_log s0 \<and> ret_log s1 = ret_log s0 \<and> trig_put s1 = trig_put s0 \<and> trig_comp s1 = trig_comp s0"
  using assms by (auto simp: mlx5_cmd_enable_def Let_def replicate_pow2 split: if_splits sum.splits)

lemma slot_start_ok: "slot_start s \<Longrightarrow> slots_ok None s"
proof -
  assume "slot_start s"
  then obtain cmdif_rev cmd_l pool first second caches s0 s1 where
    en: "mlx5_cmd_enable cmdif_rev cmd_l pool first second caches s0 = (None, s1)" and md: "mlx5_cmd_change_mod True s1 = Some s"
    and s0: "length (ent_arr s0) = MLX5_MAX_COMMANDS" "ents s0 = (\<lambda>_. None)" "fw_slot s0 = (\<lambda>_. Fw_Idle)"
      "cb_log s0 = []" "ret_log s0 = []" "trig_put s0 = []" "trig_comp s0 = []"
    by (auto simp: slot_start_def)
  obtain n where n: "2 ^ n \<le> MLX5_MAX_COMMANDS" "log_sz s1 = n" "max_reg_cmds s1 = 2 ^ n - 1" "bitmask s1 = replicate (2 ^ n) True" "cmd_sem s1 = 2 ^ n - 1"
    "pages_sem s1 = 1" "length (cmd_buf s1) = 2 ^ n" "ent_arr s1 = ent_arr s0" "ents s1 = ents s0" "fw_slot s1 = fw_slot s0"
    "cb_log s1 = cb_log s0" "ret_log s1 = ret_log s0" "trig_put s1 = trig_put s0" "trig_comp s1 = trig_comp s0"
    using enable_shape [OF en] by metis
  have s: "s = s1\<lparr>mode_events := True\<rparr>" using md by (auto simp: mlx5_cmd_change_mod_def split: if_splits)
  have pos: "(0 :: nat) < 2 ^ n" by simp
  have "2 ^ n - 1 < MLX5_MAX_COMMANDS" using n(1) pos by linarith
  then have "queue_shape s" using n s0 by (simp add: s queue_shape_def)
  moreover have "sems_count s" using n pos by (simp add: s sems_count_def count_list_replicate_self min_def)
  moreover have "i < 2 ^ n" if "i \<le> 2 ^ n - Suc 0" for i using that pos by linarith
  then have "slots_used s" using n s0 by (simp add: s slots_used_def)
  moreover have "env_ok s" "logs_ok s" using n s0 by (simp_all add: s env_ok_def logs_ok_def)
  ultimately show ?thesis using n s0 by (simp add: slots_ok_def slots_glob_def s)
qed

lemma work_slot_freed:
  assumes ok: "slots_ok None s" and e: "ents s e = Some ent" "ent_work ent = Work_Queued" "ent_callback ent" and "cmd_sem s = 0"
  shows "work_slot e s = None"
proof -
  have "\<not> page_queue ent" using slots_okD(1) [OF ok e(1)] e(3) by (simp add: ent_base_def)
  then show ?thesis
    using queued_facts [OF ok e(1,2)] assms
    by (simp add: work_slot_def upd_ent_some ent_fail_def cmd_ent_put_def free_ent_msgs_def call_back_def Let_def) (simp add: upd_ent_def)
qed

lemma handler_step_ok: "handler_step s t \<Longrightarrow> (trig_one s = Some t \<longrightarrow> \<not> drops_twice s) \<Longrightarrow> slots_ok None s \<Longrightarrow> slots_ok None t"
proof (induction rule: handler_step.induct)
  case (sl_invoke kz q inb outb n callback pq token s r s')
  then show ?case using invoke_begin_ok by (metis option.inject prod.inject)
next
  case (sl_slot s e ent s')
  then have "ent_callback ent \<longrightarrow> 0 < cmd_sem s" using work_slot_freed [of s e ent] by fastforce
  with sl_slot show ?case using work_slot_ok [of s e ent] by (metis option.inject)
next
  case (sl_submit s e ent s')
  then show ?case using work_submit_ok [of s e ent] by (metis option.inject)
next
  case (sl_answer s i lay boxes s')
  then show ?case using fw_answer_ok [of s i] by (metis option.inject)
next
  case (sl_event s i s')
  then show ?case using notifier_ok [of s i] by (metis option.inject)
next
  case (sl_cb_timeout s e ent s')
  then show ?case using cb_timeout_ok [of s e ent] by (metis option.inject)
next
  case (sl_cancel s e ent s')
  then show ?case using wait_cancel_ok [of s e ent] by (metis option.inject)
next
  case (sl_timeout s e ent s')
  then show ?case using wait_timeout_ok [of s e ent] unfolding submitted_def by (metis not_None_eq option.inject)
next
  case (sl_return s e ent s')
  then show ?case using invoke_end_ok [of s e ent] by (metis option.inject)
next
  case (sl_trig_begin s s')
  then show ?case using trig_begin_ok [of s] by (metis option.inject)
next
  case (sl_trig_one s s')
  then show ?case using trig_one_ok [of s] by (metis option.inject)
next
  case (sl_trig_end s s')
  then show ?case using trig_end_ok [of s] by (metis option.inject)
qed (auto intro: timer_fire_ok dev_fail_ok dev_up_ok allowed_opcode_ok)

interpretation slotr: invariant_system slot_start slot_step "slots_ok None"
  by unfold_locales (auto intro: slot_start_ok handler_step_ok)


section \<open>Properties\<close>



text \<open>
  The first exception: a command with a callback that gets no slot in time. The worker drops the last
  reference to the entry, which frees it, and then completes \<open>slotted\<close> in it.
\<close>
theorem cmd_slot_timeout_freed:
  assumes "reach slot_start slot_step s" "ents s e = Some ent" "ent_work ent = Work_Queued" "ent_callback ent" "cmd_sem s = 0"
  shows "work_slot e s = None"
  by (rule work_slot_freed [OF slotr.reach_invar [OF assms(1)] assms(2-)])

text \<open>
  C31. The second exception: a command whose time-out was handled while the device was down has lost the
  reference of the device already. A triggered completion that finds it drops one more reference, so that
  its own release frees the entry and the return of the caller touches it afterwards.
\<close>
theorem cmd_trigger_drops_twice:
  assumes "reach slot_start slot_step s" "ents s e = Some ent" "ent_idx ent = Some i" "may_return ent" "timed_out_cleared ent"
    "trig_comp s = [i]" "trig_put s = [i]"
  shows "\<exists>s1 s2. trig_one s = Some s1 \<and> trig_end s1 = Some s2 \<and> ents s2 e = None \<and> invoke_end e s2 = None"
proof -
  have ok: "slots_ok None s" using assms(1) by (rule slotr.reach_invar)
  have full: "ent_full s e ent" using slots_okD(2) [OF ok assms(2)] by simp
  then have "cb_timeout_work ent = Dw_Idle" using assms(4) by (auto simp: ent_full_def ent_rest_def may_return_def)
  then have r: "refcnt ent = 2"
    using full assms by (simp add: ent_full_def refs_def consumer_ref_def may_return_def fw_ref_def trig_ref_def timed_out_cleared_def)
  note b = ent_slot_bound [OF ok assms(2,3)]
  define s1 where "s1 = set_ent e (ent\<lparr>refcnt := 1\<rparr>) (s\<lparr>trig_comp := []\<rparr>)"
  have "trig_one s = Some s1"
    using assms b r by (simp add: trig_one_def comp_one_def nth_opt_Some timed_out_cleared_def set_ent_same ent_put_some s1_def)
  moreover obtain s2 where "trig_end s1 = Some s2" "ents s2 e = None"
    using assms(3,7) b by (auto simp: trig_end_def put_slot_def nth_opt_Some cmd_ent_put_def s1_def Let_def)
  ultimately show ?thesis by (auto simp: invoke_end_def)
qed

text \<open>
  The two parts of \<open>work_submit\<close> around the point where the completion is announced: \<open>cmd_work_handler\<close> sets \<open>PENDING_COMP\<close> and takes the
  reference of the device afterwards.\<close>

definition work_publish :: "nat \<Rightarrow> cmd_if \<Rightarrow> cmd_if option" where
  "work_publish e s = do {
     ent \<leftarrow> ents s e;
     i \<leftarrow> ent_idx ent;
     let (lay, inb, outb) = set_signature (\<not> checksum_disabled s) (fill_layout (ent_token ent) (ent_in ent) (ent_out ent))
                              (ent_in ent) (ent_out ent);
     buf \<leftarrow> upd_opt (cmd_buf s) i lay;
     let s = set_ent e (ent\<lparr>ent_in := inb, ent_out := outb\<rparr>) (s\<lparr>cmd_buf := buf\<rparr>);
     s \<leftarrow> (if ent_callback ent \<and> cb_timeout_work ent = Dw_Idle
           then do { s \<leftarrow> upd_ent e (cb_timeout_work_update (\<lambda>_. Dw_Queued)) s; cmd_ent_get e s } else Some s);
     upd_ent e (\<lambda>ent. ent\<lparr>pending_comp := True, ent_work := Work_Finished\<rparr>) s }"

definition work_ring :: "nat \<Rightarrow> cmd_if \<Rightarrow> cmd_if option" where
  "work_ring e s = do {
     ent \<leftarrow> ents s e;
     i \<leftarrow> ent_idx ent;
     let poll = (\<not> mode_events s \<or> ent_polling ent);
     s \<leftarrow> cmd_ent_get e s;
     if if_down s \<or> \<not> opcode_allowed s (ent_op ent)
     then do { s \<leftarrow> upd_ent e (ent_ret_update (\<lambda>_. Some ENXIO)) s; force_comp e s }
     else upd_ent e (ent_work_update (\<lambda>_. if poll then Work_Polling else Work_Finished))
            (s\<lparr>fw_slot := (fw_slot s)(i := Fw_Busy)\<rparr>) }"

lemma work_submit_split: "work_submit e s = do { s \<leftarrow> work_publish e s; work_ring e s }"
proof (cases "ents s e")
  case (Some ent)
  show ?thesis
  proof (cases "ent_idx ent")
    case (Some i)
    obtain lay inb outb where sig: "set_signature (\<not> checksum_disabled s) (fill_layout (ent_token ent) (ent_in ent) (ent_out ent))
        (ent_in ent) (ent_out ent) = (lay, inb, outb)" by (metis prod_cases3)
    show ?thesis
      using \<open>ents s e = Some ent\<close> Some sig
      by (cases "upd_opt (cmd_buf s) i lay"; cases "allowed_opcode s")
         (simp_all add: work_submit_def work_publish_def work_ring_def upd_ent_some cmd_ent_get_def Let_def opcode_allowed_def)
  qed (simp add: work_submit_def work_publish_def \<open>ents s e = Some ent\<close>)
qed (simp add: work_submit_def work_publish_def)

section \<open>Flushing\<close>

text \<open>A command nobody waits for any more: it timed out while the device was up, and its slot waits for the event.\<close>

definition abandoned :: "mlx5_cmd_work_ent \<Rightarrow> bool" where
  "abandoned ent \<longleftrightarrow> submitted ent \<and> \<not> pending_comp ent \<and> \<not> rref_cleared ent \<and> \<not> ent_waiting ent \<and> cb_timeout_work ent = Dw_Idle"

definition all_abandoned :: "cmd_if \<Rightarrow> bool" where
  "all_abandoned s \<longleftrightarrow> (\<forall>e ent. ents s e = Some ent \<longrightarrow> abandoned ent)"

definition slot_table :: "cmd_if \<Rightarrow> bool" where
  "slot_table s \<longleftrightarrow> max_reg_cmds s < length (ent_arr s) \<and>
     (\<forall>i\<in>set (busy_slots s). \<exists>e ent. ent_arr s ! i = Some e \<and> ents s e = Some ent \<and> ent_idx ent = Some i \<and> 0 < refcnt ent) \<and>
     (\<forall>e ent i. ents s e = Some ent \<longrightarrow> ent_idx ent = Some i \<longrightarrow> ent_arr s ! i = Some e)"

definition bump :: "nat set \<Rightarrow> cmd_if \<Rightarrow> cmd_if" where
  "bump S s = s\<lparr>ents := (\<lambda>e. map_option (\<lambda>ent. if \<exists>i\<in>S. ent_idx ent = Some i then ent\<lparr>refcnt := refcnt ent + 1\<rparr> else ent) (ents s e))\<rparr>"

lemma bump_empty [simp]: "bump {} s = s"
  by (simp add: bump_def option.map_ident)

lemma bump_insert:
  assumes "slot_table s" "ents s e = Some ent" "ent_idx ent = Some i" "i \<notin> S"
  shows "set_ent e (ent\<lparr>refcnt := refcnt ent + 1\<rparr>) (bump S s) = bump (insert i S) s" "set_ent e ent (bump (insert i S) s) = bump S s"
proof -
  have u: "e' = e" if "ents s e' = Some x" "ent_idx x = Some i" for e' x using assms(1-3) that unfolding slot_table_def by (metis option.inject)
  have "(ents (bump S s))(e := Some (ent\<lparr>refcnt := refcnt ent + 1\<rparr>)) = ents (bump (insert i S) s)"
  proof
    fix e'
    show "((ents (bump S s))(e := Some (ent\<lparr>refcnt := refcnt ent + 1\<rparr>))) e' = ents (bump (insert i S) s) e'"
      using u [of e'] assms by (cases "ents s e'") (auto simp: bump_def)
  qed
  then show "set_ent e (ent\<lparr>refcnt := refcnt ent + 1\<rparr>) (bump S s) = bump (insert i S) s" by (simp add: set_ent_def bump_def)
  have "(ents (bump (insert i S) s))(e := Some ent) = ents (bump S s)"
  proof
    fix e'
    show "((ents (bump (insert i S) s))(e := Some ent)) e' = ents (bump S s) e'"
      using u [of e'] assms by (cases "ents s e'") (auto simp: bump_def)
  qed
  then show "set_ent e ent (bump (insert i S) s) = bump S s" by (simp add: set_ent_def bump_def)
qed

lemma busy_owner:
  assumes "slot_table s" "i \<in> set (busy_slots s)"
  obtains e ent where "ent_arr s ! i = Some e" "i < length (ent_arr s)" "ents s e = Some ent" "ent_idx ent = Some i" "0 < refcnt ent"
proof -
  have "i < length (ent_arr s)" using assms busy_slots_facts(1) [of s] by (auto simp: slot_table_def)
  then show ?thesis using assms that unfolding slot_table_def by blast
qed

lemma get_slots_bump:
  assumes "slot_table s" "set is \<subseteq> set (busy_slots s)" "distinct is" "S \<inter> set is = {}"
  shows "get_slots is (bump S s) = Some (bump (set is \<union> S) s)"
  using assms
proof (induction "is" arbitrary: S)
  case (Cons i "is")
  obtain e ent where e: "ent_arr s ! i = Some e" "i < length (ent_arr s)" "ents s e = Some ent" "ent_idx ent = Some i"
    using busy_owner [OF Cons.prems(1), of i] Cons.prems(2) by (metis list.set_intros(1) subset_iff)
  have i: "i \<notin> S" using Cons.prems by auto
  have "ents (bump S s) e = Some ent" using e i by (auto simp: bump_def)
  then have "cmd_ent_get e (bump S s) = Some (bump (insert i S) s)"
    using bump_insert(1) [OF Cons.prems(1) e(3,4) i] by (simp add: ent_get_some)
  moreover have "get_slots is (bump (insert i S) s) = Some (bump (set is \<union> insert i S) s)" using Cons.IH [of "insert i S"] Cons.prems by auto
  ultimately show ?case using e by (simp add: nth_opt_Some bump_def)
qed simp

lemma put_slots_bump:
  assumes "slot_table s" "set is \<subseteq> set (busy_slots s)" "distinct is" "S \<inter> set is = {}"
  shows "put_slots is (bump (set is \<union> S) s) = Some (bump S s)"
  using assms
proof (induction "is" arbitrary: S)
  case (Cons i "is")
  obtain e ent where e: "ent_arr s ! i = Some e" "i < length (ent_arr s)" "ents s e = Some ent" "ent_idx ent = Some i" "0 < refcnt ent"
    using busy_owner [OF Cons.prems(1), of i] Cons.prems(2) by (metis list.set_intros(1) subset_iff)
  let ?T = "set is \<union> S"
  have i: "i \<notin> ?T" using Cons.prems by auto
  have "ents (bump (insert i ?T) s) e = Some (ent\<lparr>refcnt := refcnt ent + 1\<rparr>)" using e by (simp add: bump_def)
  then have "cmd_ent_put e (bump (insert i ?T) s) = Some (bump ?T s)"
    using bump_insert(2) [OF Cons.prems(1) e(3,4) i] e(5) by (simp add: ent_put_some)
  moreover have "put_slots is (bump ?T s) = Some (bump S s)" using Cons.IH [of S] Cons.prems by auto
  ultimately show ?case using e by (simp add: put_slot_def nth_opt_Some bump_def)
qed simp

lemma comp_slots_bump:
  assumes "slot_table s" "set is \<subseteq> set (busy_slots s)" "all_abandoned s"
  shows "comp_slots True MLX5_CMD_COMP_TYPE_FORCED is (bump S s) = Some (bump S s)"
  using assms(2)
proof (induction "is")
  case (Cons i "is")
  obtain e ent where e: "ent_arr s ! i = Some e" "i < length (ent_arr s)" "ents s e = Some ent" "ent_idx ent = Some i"
    using busy_owner [OF assms(1), of i] Cons.prems by (metis list.set_intros(1) subset_iff)
  define ent' where "ent' = (if i \<in> S then ent\<lparr>refcnt := refcnt ent + 1\<rparr> else ent)"
  have e': "ents (bump S s) e = Some ent'" "\<not> pending_comp ent'" "\<not> rref_cleared ent'"
    using e assms(3) by (auto simp: bump_def ent'_def all_abandoned_def abandoned_def)
  have "ent_arr (bump S s) = ent_arr s" by (simp add: bump_def)
  then have "comp_one True MLX5_CMD_COMP_TYPE_FORCED i (bump S s) = Some (bump S s)"
    using e e' by (simp add: comp_one_def nth_opt_Some set_ent_same)
  then show ?case using Cons by simp
qed simp

lemma trigger_abandoned:
  assumes "slot_table s" "all_abandoned s" "max_reg_cmds s + 1 = 2 ^ log_sz s"
  shows "mlx5_cmd_trigger_completions s = Some s"
proof -
  let ?B = "busy_slots s"
  have "get_slots ?B s = Some (bump (set ?B) s)" using get_slots_bump [OF assms(1), of ?B "{}"] busy_slots_facts(2) by simp
  moreover have "mlx5_cmd_comp_handler (\<lambda>i. i \<in> set ?B) True MLX5_CMD_COMP_TYPE_FORCED (bump (set ?B) s) = Some (bump (set ?B) s)"
    unfolding mlx5_cmd_comp_handler_def by (rule comp_slots_bump [OF assms(1) _ assms(2)]) auto
  moreover have "put_slots ?B (bump (set ?B) s) = Some s" using put_slots_bump [OF assms(1), of ?B "{}"] busy_slots_facts(2) by simp
  ultimately show ?thesis by (simp add: mlx5_cmd_trigger_completions_def Let_def)
qed

lemma flush_down_stuck:
  assumes "slot_table s" "all_abandoned s" "max_reg_cmds s + 1 = 2 ^ log_sz s" "cmd_sem s = 0"
  shows "flush_down fuel False s = None"
proof (induction fuel)
  case (Suc fuel)
  then show ?case using trigger_abandoned [OF assms(1-3)] assms(4) by simp
qed (use assms in simp)

lemma slot_table_sem [simp]: "slot_table (s\<lparr>cmd_sem := n\<rparr>) = slot_table s" "all_abandoned (s\<lparr>cmd_sem := n\<rparr>) = all_abandoned s"
  by (simp_all add: slot_table_def busy_slots_def all_abandoned_def)

declare flush_down.simps [simp del]

lemma flush_regs_stuck:
  assumes "slot_table s" "all_abandoned s" "max_reg_cmds s + 1 = 2 ^ log_sz s" "cmd_sem s < n"
  shows "flush_regs fuel n s = None"
  using assms
proof (induction n arbitrary: s)
  case (Suc n)
  show ?case
  proof (cases "cmd_sem s = 0")
    case True
    then show ?thesis using flush_down_stuck [OF Suc.prems(1-3)] by simp
  next
    case False
    then have "flush_down fuel False s = Some (Some (s\<lparr>cmd_sem := cmd_sem s - 1\<rparr>))" by (simp add: flush_down.simps)
    moreover have "flush_regs fuel n (s\<lparr>cmd_sem := cmd_sem s - 1\<rparr>) = None" using Suc False by auto
    ultimately show ?thesis by simp
  qed
qed simp

lemma slots_ok_table: "slots_ok None s \<Longrightarrow> slot_table s"
proof -
  assume ok: "slots_ok None s"
  have g: "queue_shape s" "slots_used s" using slots_ok_glob [OF ok] by (simp_all add: slots_glob_def)
  have "\<exists>e ent. ent_arr s ! i = Some e \<and> ents s e = Some ent \<and> ent_idx ent = Some i \<and> 0 < refcnt ent" if "i \<in> set (busy_slots s)" for i
  proof -
    have "slot_owned s i" using g(2) busy_slots_facts(1) [of s] that by (auto simp: slots_used_def)
    then obtain e ent where e: "ent_arr s ! i = Some e" "ents s e = Some ent" "ent_idx ent = Some i" by (auto simp: slot_owned_def)
    then show ?thesis using slots_okD(2) [OF ok e(2)] by (auto simp: ent_full_def)
  qed
  then show ?thesis using g(1) ent_slot_bound(5) [OF ok] unfolding slot_table_def queue_shape_def by blast
qed

text \<open>
  C30. \<open>mlx5_cmd_flush\<close> can run for ever: when the only commands left were given up after a time-out with the
  device up, and the device failed then, no event will ever free their slots; a triggered completion
  drops no reference of theirs, and the loop that waits for every slot does not end.
\<close>
theorem cmd_flush_hangs:
  assumes "reach slot_start slot_step s" "all_abandoned s" "cmd_sem s < max_reg_cmds s"
  shows "mlx5_cmd_trigger_completions s = Some s \<and> (\<forall>fuel. mlx5_cmd_flush fuel s = None)"
proof -
  have ok: "slots_ok None s" using assms(1) by (rule slotr.reach_invar)
  have t: "slot_table s" "max_reg_cmds s + 1 = 2 ^ log_sz s"
    using slots_ok_table [OF ok] slots_ok_glob [OF ok] by (simp_all add: slots_glob_def queue_shape_def)
  show ?thesis
    using trigger_abandoned [OF t(1) assms(2) t(2)] flush_regs_stuck [OF t(1) assms(2) t(2) assms(3)] by (simp add: mlx5_cmd_flush_def)
qed

section \<open>A command on its own\<close>

lemma notifier_sync_result:
  assumes ok: "slots_ok None s" and e: "ents s e = Some ent" "ent_idx ent = Some i" "pending_comp ent" "\<not> ent_callback ent"
    and fw: "fw_slot s i = Fw_Answered" "\<not> if_down s"
  shows "cmd_comp_notifier i s = Some ((set_ent e ((comp_result False (checksum_disabled s) (cmd_buf s ! i)
    (dropped True (ent\<lparr>pending_comp := False\<rparr>)))\<lparr>ent_done := True\<rparr>) s)\<lparr>fw_slot := (fw_slot s)(i := Fw_Idle)\<rparr>)"
proof -
  let ?ent = "ent\<lparr>pending_comp := False\<rparr>" and ?s = "s\<lparr>fw_slot := (fw_slot s)(i := Fw_Idle)\<rparr>"
  note b = ent_slot_bound [OF ok e(1,2)]
  have c: "completing (set_ent e ?ent ?s) True i e ?ent"
    using pending_completing [OF ok e(1-3)] fw(2) by (auto simp: completing_def trig_ref_def split: if_splits)
  have np: "\<not> ent_polling ent" using slots_okD(1) [OF ok e(1)] by (simp add: ent_base_def)
  have "cmd_comp_notifier i s = comp_one False MLX5_CMD_COMP_TYPE_EVENT i ?s"
    using fw(2) b by (simp add: cmd_comp_notifier_def comp_handler_single)
  also have "\<dots> = comp_rest False MLX5_CMD_COMP_TYPE_EVENT i e (set_ent e ?ent ?s)"
    using e b np by (simp add: comp_one_def nth_opt_Some)
  also have "\<dots> = comp_finish e (set_ent e (comp_result False (checksum_disabled s) (cmd_buf s ! i) (dropped True ?ent)) ?s)"
    using comp_rest_drops [OF _ c, of MLX5_CMD_COMP_TYPE_EVENT False] b by simp
  finally show ?thesis using e(4) by (simp add: comp_finish_def upd_ent_some set_ent_def)
qed

text \<open>The command up to the doorbell, in a slot that was free.\<close>

lemma invoke_to_device:
  assumes ok: "slots_ok None s" and free: "0 < cmd_sem s" "\<not> if_down s" "opcode_allowed s (in_to_opcode (cm_first inb))"
    and sig: "set_signature (\<not> checksum_disabled s) (fill_layout token inb outb) inb outb = (lay, inb', outb')"
  obtains e i s1 s2 s3 ent where "invoke_begin True True inb outb 0 False False token False s = Some (Inr e, s1)" "work_slot e s1 = Some s2" "work_submit e s2 = Some s3"
    "slots_ok None s3" "ents s3 = (ents s)(e := Some ent)" "ents s e = None" "ent_idx ent = Some i" "pending_comp ent" "\<not> ent_callback ent" "ent_in ent = inb'" "ent_out ent = outb'"
    "refcnt ent = 2" "ent_ret ent = None" "\<not> page_queue ent" "cb_timeout_work ent = Dw_Idle" "cmd_buf s3 ! i = lay" "fw_slot s3 i = Fw_Busy" "\<not> if_down s3"
    "checksum_disabled s3 = checksum_disabled s" "bitmask s3 = (bitmask s)[i := False]" "bitmask s ! i" "i < length (bitmask s)" "cmd_sem s3 = cmd_sem s - 1"
proof -
  define e where "e = next_ent s"
  define ent0 where "ent0 = \<lparr>pending_comp = False, rref_cleared = False, ent_in = inb, ent_out = outb, uout_size = 0,
    ent_callback = False, cb_timeout_work = Dw_Idle, ent_idx = None, ent_handling = False, ent_slotted = False,
    ent_done = False, ent_work = Work_Queued, ent_waiting = True, ent_ret = None, page_queue = False,
    ent_status = 0, ent_token = token, ent_op = in_to_opcode (cm_first inb), ent_polling = False, refcnt = 1\<rparr>"
  define s1 where "s1 = (set_ent e ent0 s)\<lparr>next_ent := Suc e\<rparr>"
  have run1: "invoke_begin True True inb outb 0 False False token False s = Some (Inr e, s1)"
    by (simp add: invoke_begin_def cmd_alloc_ent_def Let_def upd_ent_def set_ent_next s1_def ent0_def e_def)
  have ok1: "slots_ok None s1" using invoke_begin_ok [OF ok] run1 by (metis option.inject prod.inject)
  have e1: "ents s1 e = Some ent0" "\<not> page_queue ent0" "0 < cmd_sem s1" "ent_work ent0 = Work_Queued" using free by (simp_all add: s1_def ent0_def)
  obtain i where i: "i < max_reg_cmds s1" "bitmask s1 ! i" and
    run2: "work_slot e s1 = Some ((set_ent e (ent0\<lparr>ent_handling := True, ent_idx := Some i, ent_slotted := True, ent_work := Work_Slotted\<rparr>) s1)
      \<lparr>bitmask := (bitmask s1)[i := False], ent_arr := (ent_arr s1)[i := Some e], cmd_sem := cmd_sem s1 - 1, pages_sem := pages_sem s1\<rparr>)"
    by (rule work_slot_takes [OF ok1 e1(1-3)])
  define ent2 where "ent2 = ent0\<lparr>ent_handling := True, ent_idx := Some i, ent_slotted := True, ent_work := Work_Slotted\<rparr>"
  define s2 where "s2 = (set_ent e ent2 s1)\<lparr>bitmask := (bitmask s1)[i := False], ent_arr := (ent_arr s1)[i := Some e], cmd_sem := cmd_sem s1 - 1, pages_sem := pages_sem s1\<rparr>"
  have run2': "work_slot e s1 = Some s2" using run2 by (simp add: s2_def ent2_def)
  have ok2: "slots_ok None s2" using take_slot_ok [OF ok1 e1(1,4), of i True] i by (simp add: s2_def ent2_def ent0_def)
  have e2: "ents s2 e = Some ent2" "ent_idx ent2 = Some i" "cb_timeout_work ent2 = Dw_Idle" "ent_op ent2 = in_to_opcode (cm_first inb)" "ent_work ent2 = Work_Slotted"
    by (simp_all add: s2_def ent2_def ent0_def)
  have env2: "if_down s2 = if_down s" "opcode_allowed s2 = opcode_allowed s" "checksum_disabled s2 = checksum_disabled s"
    by (simp_all add: s2_def s1_def opcode_allowed_def fun_eq_iff)
  have sig2: "set_signature (\<not> checksum_disabled s2) (fill_layout (ent_token ent2) (ent_in ent2) (ent_out ent2)) (ent_in ent2) (ent_out ent2) = (lay, inb', outb')"
    using sig env2 by (simp add: ent2_def ent0_def)
  define ent3 where "ent3 = posted inb' outb' ent2"
  define s3 where "s3 = (set_ent e ent3 (s2\<lparr>cmd_buf := (cmd_buf s2)[i := lay]\<rparr>))\<lparr>fw_slot := (fw_slot s2)(i := Fw_Busy)\<rparr>"
  have run3: "work_submit e s2 = Some s3"
    by (rule work_submit_posts [OF ok2 e2(1-3)]) (use sig2 free env2 e2(4) in \<open>auto simp: s3_def ent3_def Let_def\<close>)
  have ok3: "slots_ok None s3" using work_submit_ok [OF ok2 e2(1,5)] run3 by (metis option.inject)
  have len: "i < length (cmd_buf s2)" "i < length (bitmask s)"
    using slots_ok_glob [OF ok2] slots_ok_glob [OF ok] i by (auto simp: slots_glob_def queue_shape_def s2_def s1_def)
  show ?thesis
    by (rule that [OF run1 run2' run3 ok3, of ent3 i])
      (use i len ent_fresh [OF ok] free(2) in \<open>auto simp: s3_def s2_def s1_def ent3_def ent2_def ent0_def posted_def e_def Let_def\<close>)
qed

text \<open>
  C9. A command that finds a free slot and a device that is up: the device gets the queue entry and the
  messages with their checksums, the caller gets what the device wrote, with the delivery status of the
  queue entry, or an error when the checksums are in use and do not fit; the slot is free again afterwards
  and no entry is left.
\<close>
theorem cmd_invoke_result:
  assumes "reach slot_start slot_step s" "0 < cmd_sem s" "\<not> if_down s" "opcode_allowed s (in_to_opcode (cm_first inb))"
    and sig: "set_signature (\<not> checksum_disabled s) (fill_layout token inb outb) inb outb = (lay, inb', outb')"
    and fw: "fw lay inb' outb' = (lay', boxes)" and out: "out = outb'\<lparr>cm_next := boxes, cm_first := take 16 (drop 32 lay')\<rparr>"
  shows "\<exists>s'. mlx5_cmd_invoke True fw inb outb token s =
      Some (case if checksum_disabled s then None else verify_signature lay' out of Some err \<Rightarrow> Inl err | None \<Rightarrow> Inr (drop_bit 1 (lay' ! 63)), out, s') \<and>
    ents s' = ents s \<and> bitmask s' = bitmask s \<and> cmd_sem s' = cmd_sem s"
proof -
  have ok: "slots_ok None s" using assms(1) by (rule slotr.reach_invar)
  obtain e i s1 s2 s3 ent where run: "invoke_begin True True inb outb 0 False False token False s = Some (Inr e, s1)" "work_slot e s1 = Some s2" "work_submit e s2 = Some s3"
    and ok3: "slots_ok None s3" and s3: "ents s3 = (ents s)(e := Some ent)" "ents s e = None" "cmd_buf s3 ! i = lay" "fw_slot s3 i = Fw_Busy" "\<not> if_down s3"
      "checksum_disabled s3 = checksum_disabled s" "bitmask s3 = (bitmask s)[i := False]" "bitmask s ! i" "i < length (bitmask s)" "cmd_sem s3 = cmd_sem s - 1"
    and ent: "ent_idx ent = Some i" "pending_comp ent" "\<not> ent_callback ent" "ent_in ent = inb'" "ent_out ent = outb'" "refcnt ent = 2" "ent_ret ent = None"
      "\<not> page_queue ent" "cb_timeout_work ent = Dw_Idle"
    using invoke_to_device [OF ok assms(2-4) sig] .
  have e3: "ents s3 e = Some ent" using s3(1) by simp
  note b = ent_slot_bound [OF ok3 e3 ent(1)]
  define ent4 where "ent4 = ent\<lparr>ent_out := (ent_out ent)\<lparr>cm_next := boxes\<rparr>\<rparr>"
  define s4 where "s4 = set_ent e ent4 (s3\<lparr>cmd_buf := (cmd_buf s3)[i := lay'], fw_slot := (fw_slot s3)(i := Fw_Answered)\<rparr>)"
  have run4: "fw_answer i lay' boxes s3 = Some s4"
    using b e3 by (simp add: fw_answer_def nth_opt_Some upd_opt_Some upd_ent_some s4_def ent4_def)
  have ok4: "slots_ok None s4" using fw_answer_ok [OF ok3 s3(4,5)] run4 by (metis option.inject)
  define ent5 where "ent5 = (comp_result False (checksum_disabled s) lay' (dropped True (ent4\<lparr>pending_comp := False\<rparr>)))\<lparr>ent_done := True\<rparr>"
  define s5 where "s5 = (set_ent e ent5 s4)\<lparr>fw_slot := (fw_slot s4)(i := Fw_Idle)\<rparr>"
  have run5: "cmd_comp_notifier i s4 = Some s5"
    using notifier_sync_result [OF ok4, of e ent4 i] ent s3 b by (simp add: s4_def s5_def ent5_def ent4_def)
  have ent5: "refcnt ent5 = 1" "ent_idx ent5 = Some i" "\<not> page_queue ent5" "ent_out ent5 = out" "ents s5 e = Some ent5"
    "ent_ret ent5 = (if checksum_disabled s then None else verify_signature lay' out)" "ent_ret ent5 = None \<longrightarrow> ent_status ent5 = drop_bit 1 (lay' ! 63)"
    using ent by (simp_all add: ent5_def ent4_def s5_def out dropped_def comp_result_def Let_def)
  have "(bitmask s)[i := True] = bitmask s" using list_update_id [of "bitmask s" i] s3(8) by simp
  then obtain s' where s': "invoke_end e s5 = Some s'" "ents s' = ents s" "bitmask s' = bitmask s" "cmd_sem s' = cmd_sem s"
      "snd (last (ret_log s')) = (case ent_ret ent5 of Some err \<Rightarrow> Inl err | None \<Rightarrow> Inr (ent_status ent5))"
    using ent5(1-3,5) s3 assms(2) by (simp add: invoke_end_def cmd_ent_put_def cmd_free_index_def s5_def s4_def fun_upd_idem Let_def)
  have "mlx5_cmd_invoke True fw inb outb token s = Some (snd (last (ret_log s')), out, s')"
    using run run4 run5 s'(1) e3 ent(1,2,4,5) ent5(4,5) fw s3(3) b by (simp add: mlx5_cmd_invoke_def nth_opt_Some)
  then show ?thesis using s' ent5(6,7) by (auto split: option.splits if_splits)
qed

section \<open>Concrete runs\<close>

text \<open>A queue with one slot for commands and one for pages.\<close>

definition q_off :: cmd_if where
  "q_off = \<lparr>log_sz = 0, max_reg_cmds = 0, bitmask = [], cmd_sem = 0, pages_sem = 0, ent_arr = replicate MLX5_MAX_COMMANDS None,
     cmd_buf = [], mode_events = False, allowed_opcode = None, checksum_disabled = True, if_down = True, if_msgs = cmd0,
     ents = (\<lambda>_. None), next_ent = 0, cb_log = [], ret_log = [], fw_slot = (\<lambda>_. Fw_Idle), trig_comp = [], trig_put = []\<rparr>"

definition q_on :: cmd_if where
  "q_on = (snd (mlx5_cmd_enable 5 0x16 True (Some (0, 0)) None id q_off))\<lparr>mode_events := True\<rparr>"

lemma q_on_start: "slot_start q_on"
proof -
  let ?e = "mlx5_cmd_enable 5 0x16 True (Some (0, 0)) None id q_off"
  have e: "fst ?e = None" "all_slots_free (snd ?e)"
    by (simp_all add: mlx5_cmd_enable_def alloc_cmd_page_def all_slots_free_def MLX5_MAX_COMMANDS_def Let_def)
  then have "?e = (None, snd ?e)" "mlx5_cmd_change_mod True (snd ?e) = Some q_on"
    by (simp_all add: prod_eq_iff mlx5_cmd_change_mod_def q_on_def)
  then show ?thesis unfolding slot_start_def
    by (intro exI [of _ 5] exI [of _ "0x16"] exI [of _ True] exI [of _ "Some (0, 0)"] exI [of _ None] exI [of _ id] exI [of _ q_off] exI [of _ "snd ?e"])
      (simp add: q_off_def)
qed

lemma q_on_eq:
  "q_on = \<lparr>log_sz = 1, max_reg_cmds = 1, bitmask = [True, True], cmd_sem = 1, pages_sem = 1, ent_arr = replicate 32 None,
     cmd_buf = replicate 2 (replicate 64 0), mode_events = True, allowed_opcode = None, checksum_disabled = True, if_down = True, if_msgs = cmd0,
     ents = (\<lambda>_. None), next_ent = 0, cb_log = [], ret_log = [], fw_slot = (\<lambda>_. Fw_Idle), trig_comp = [], trig_put = []\<rparr>"
  by (simp add: q_on_def q_off_def mlx5_cmd_enable_def alloc_cmd_page_def MLX5_MAX_COMMANDS_def Let_def cmd0_def cmd_layout_size_def)

definition q_msg :: mlx5_cmd_msg where
  "q_msg = \<lparr>cm_parent = None, cm_len = 16, cm_first = replicate 16 0, cm_next = []\<rparr>"

definition q_ent :: "bool \<Rightarrow> mlx5_cmd_work_ent" where
  "q_ent callback = \<lparr>pending_comp = False, rref_cleared = False, ent_in = q_msg, ent_out = q_msg, uout_size = 16,
    ent_callback = callback, cb_timeout_work = Dw_Idle, ent_idx = None, ent_handling = False, ent_slotted = False,
    ent_done = False, ent_work = Work_Queued, ent_waiting = \<not> callback, ent_ret = None, page_queue = False,
    ent_status = 0, ent_token = 7, ent_op = 0, ent_polling = False, refcnt = 1\<rparr>"

lemma q_invoke:
  "invoke_begin True True q_msg q_msg 16 callback False 7 False s =
     Some (Inr (next_ent s), (set_ent (next_ent s) (q_ent callback) s)\<lparr>next_ent := Suc (next_ent s)\<rparr>)"
  by (simp add: invoke_begin_def cmd_alloc_ent_def Let_def upd_ent_def set_ent_next q_ent_def)
    (simp add: q_msg_def in_to_opcode_def)

text \<open>A command of a caller that waits, in its slot.\<close>

definition q_slotted :: cmd_if where
  "q_slotted = (set_ent 0 ((q_ent False)\<lparr>ent_handling := True, ent_idx := Some 0, ent_slotted := True, ent_work := Work_Slotted\<rparr>) (dev_up q_on))
     \<lparr>next_ent := 1, bitmask := [False, True], ent_arr := (replicate 32 None)[0 := Some 0], cmd_sem := 0\<rparr>"

lemma q_slotted_reach: "reach slot_start slot_step q_slotted"
proof -
  let ?s = "(set_ent 0 (q_ent False) (dev_up q_on))\<lparr>next_ent := 1\<rparr>"
  have "reach slot_start slot_step (dev_up q_on)"
    by (rule reach_handler [OF reach_init [of slot_start q_on slot_step, OF q_on_start] sl_up]) (simp add: q_on_eq)
  moreover have "next_ent (dev_up q_on) = 0" by (simp add: dev_up_def q_on_eq)
  then have "invoke_begin True True q_msg q_msg 16 False False 7 False (dev_up q_on) = Some (Inr 0, ?s)"
    using q_invoke [of False "dev_up q_on"] by simp
  ultimately have r: "reach slot_start slot_step ?s" using reach_handler [OF _ sl_invoke] by (simp add: dev_up_def q_on_eq)
  show ?thesis
  proof (rule reach_handler [OF r], rule sl_slot [of _ 0 "q_ent False"])
    show "work_slot 0 ?s = Some q_slotted"
      by (simp add: work_slot_def cmd_alloc_index_def upd_ent_def upd_opt_def q_slotted_def set_ent_def dev_up_def q_on_eq q_ent_def)
  qed (simp_all add: q_ent_def dev_up_def q_on_eq)
qed

lemma q_slotted_sel:
  "ents q_slotted = [0 \<mapsto> (q_ent False)\<lparr>ent_handling := True, ent_idx := Some 0, ent_slotted := True, ent_work := Work_Slotted\<rparr>]"
  "cmd_sem q_slotted = 0" "next_ent q_slotted = 1" "log_sz q_slotted = 1" "max_reg_cmds q_slotted = 1" "bitmask q_slotted = [False, True]"
  "ent_arr q_slotted = (replicate 32 None)[0 := Some 0]" "length (cmd_buf q_slotted) = 2" "mode_events q_slotted" "\<not> if_down q_slotted"
  "checksum_disabled q_slotted" "opcode_allowed q_slotted op" "trig_put q_slotted = []" "trig_comp q_slotted = []" "ret_log q_slotted = []"
  by (simp_all add: q_slotted_def dev_up_def q_on_eq set_ent_def opcode_allowed_def)

text \<open>The command with the device.\<close>

lemma q_posted:
  obtains s lay inb outb where "reach slot_start slot_step s" "s = (set_ent 0 (posted inb outb ((q_ent False)\<lparr>ent_handling := True, ent_idx := Some 0,
    ent_slotted := True, ent_work := Work_Slotted\<rparr>)) (q_slotted\<lparr>cmd_buf := (cmd_buf q_slotted)[0 := lay]\<rparr>))\<lparr>fw_slot := (fw_slot q_slotted)(0 := Fw_Busy)\<rparr>"
proof -
  let ?ent = "(q_ent False)\<lparr>ent_handling := True, ent_idx := Some 0, ent_slotted := True, ent_work := Work_Slotted\<rparr>"
  have ok: "slots_ok None q_slotted" using q_slotted_reach by (rule slotr.reach_invar)
  have e: "ents q_slotted 0 = Some ?ent" by (simp add: q_slotted_sel)
  obtain inb outb lay where "work_submit 0 q_slotted =
    (let t = set_ent 0 (posted inb outb ?ent) (q_slotted\<lparr>cmd_buf := (cmd_buf q_slotted)[0 := lay]\<rparr>)
     in if if_down q_slotted \<or> \<not> opcode_allowed q_slotted (ent_op ?ent)
        then force_comp 0 (set_ent 0 ((posted inb outb ?ent)\<lparr>ent_ret := Some ENXIO\<rparr>) t)
        else Some (t\<lparr>fw_slot := (fw_slot q_slotted)(0 := Fw_Busy)\<rparr>))"
    by (rule work_submit_posts [OF ok e]) (simp_all add: q_ent_def)
  then have run: "work_submit 0 q_slotted = Some ((set_ent 0 (posted inb outb ?ent) (q_slotted\<lparr>cmd_buf := (cmd_buf q_slotted)[0 := lay]\<rparr>))
      \<lparr>fw_slot := (fw_slot q_slotted)(0 := Fw_Busy)\<rparr>)"
    by (simp add: q_slotted_sel Let_def)
  have "handler_step q_slotted ((set_ent 0 (posted inb outb ?ent) (q_slotted\<lparr>cmd_buf := (cmd_buf q_slotted)[0 := lay]\<rparr>))
      \<lparr>fw_slot := (fw_slot q_slotted)(0 := Fw_Busy)\<rparr>)" by (rule sl_submit [OF e _ run]) simp
  then show ?thesis using that reach_handler [OF q_slotted_reach] q_slotted_sel(14) by blast
qed

lemma comp_result_ret [simp]: "ent_ret ent = Some r \<Longrightarrow> ent_ret (comp_result False c lay ent) = Some r"
  by (simp add: comp_result_def Let_def)

lemma dropped_ret [simp]: "ent_ret (dropped clr ent) = ent_ret ent"
  by (simp add: dropped_def Let_def)

text \<open>The time-out of a command its caller waits for.\<close>

lemma sync_timeout_result:
  assumes ok: "slots_ok None s" and e: "ents s e = Some ent" "ent_idx ent = Some i" "pending_comp ent" "\<not> ent_callback ent"
  shows "wait_func_handle_exec_timeout e s = Some (set_ent e ((comp_result False (checksum_disabled s) (cmd_buf s ! i)
    (dropped (if_down s) (ent\<lparr>ent_ret := Some ETIMEDOUT, pending_comp := False\<rparr>)))\<lparr>ent_done := True\<rparr>) s)"
proof -
  let ?ent = "ent\<lparr>ent_ret := Some ETIMEDOUT\<rparr>"
  let ?ent' = "?ent\<lparr>pending_comp := False\<rparr>"
  let ?s = "set_ent e ?ent s"
  have ok': "slots_ok None ?s" using slots_ok_ret [OF ok e(1,2)] .
  have e': "ents ?s e = Some ?ent" "ent_idx ?ent = Some i" "pending_comp ?ent" using e by simp_all
  note b = ent_slot_bound [OF ok e(1,2)]
  have c: "completing ?s (if_down ?s) i e ?ent'" and op: "opcode_allowed s (ent_op ent)"
    using pending_completing [OF ok' e'] by auto
  from c have c': "completing (set_ent e ?ent' s) (if_down s) i e ?ent'" by (simp add: completing_def split: if_splits)
  have np: "\<not> ent_polling ent" using slots_okD(1) [OF ok e(1)] by (simp add: ent_base_def)
  have "wait_func_handle_exec_timeout e s = comp_one False MLX5_CMD_COMP_TYPE_FORCED i ?s"
    using e b by (simp add: wait_func_handle_exec_timeout_def upd_ent_some force_comp_def comp_handler_single)
  also have "\<dots> = comp_rest False MLX5_CMD_COMP_TYPE_FORCED i e (set_ent e ?ent' s)"
    using e b np by (simp add: comp_one_def nth_opt_Some)
  also have "\<dots> = comp_finish e (set_ent e (comp_result False (checksum_disabled s) (cmd_buf s ! i) (dropped (if_down s) ?ent')) s)"
    using comp_rest_drops [OF _ c', of MLX5_CMD_COMP_TYPE_FORCED False] b op by simp
  finally show ?thesis using e(4) by (simp add: comp_finish_def upd_ent_some)
qed

text \<open>The runs for the two exceptions and for the flush.\<close>

lemma q_abandoned:
  obtains s where "reach slot_start slot_step s" "all_abandoned s" "cmd_sem s < max_reg_cmds s" "if_down s"
proof -
  let ?ent = "(q_ent False)\<lparr>ent_handling := True, ent_idx := Some 0, ent_slotted := True, ent_work := Work_Slotted\<rparr>"
  obtain s lay inb outb where r: "reach slot_start slot_step s" and s: "s = (set_ent 0 (posted inb outb ?ent)
      (q_slotted\<lparr>cmd_buf := (cmd_buf q_slotted)[0 := lay]\<rparr>))\<lparr>fw_slot := (fw_slot q_slotted)(0 := Fw_Busy)\<rparr>" by (rule q_posted)
  have ok: "slots_ok None s" using r by (rule slotr.reach_invar)
  have e: "ents s 0 = Some (posted inb outb ?ent)" by (simp add: s)
  define ent where "ent = (comp_result False (checksum_disabled s) (cmd_buf s ! 0)
    (dropped (if_down s) ((posted inb outb ?ent)\<lparr>ent_ret := Some ETIMEDOUT, pending_comp := False\<rparr>)))\<lparr>ent_done := True\<rparr>"
  have up: "\<not> if_down s" by (simp add: s q_slotted_sel)
  have "wait_func_handle_exec_timeout 0 s = Some (set_ent 0 ent s)"
    unfolding ent_def by (rule sync_timeout_result [OF ok e]) (simp_all add: q_ent_def)
  then have "handler_step s (set_ent 0 ent s)" by (rule sl_timeout [OF e, rotated 3]) (simp_all add: submitted_def q_ent_def)
  then have r1: "reach slot_start slot_step (set_ent 0 ent s)" by (rule reach_handler [OF r]) (simp add: s q_slotted_sel)
  have ent: "refcnt ent = 2" "submitted ent" "\<not> pending_comp ent" "\<not> rref_cleared ent" "cb_timeout_work ent = Dw_Idle" "may_return ent" "ent_idx ent = Some 0"
    using up by (simp_all add: ent_def submitted_def may_return_def q_ent_def dropped_def)
  define t where "t = (set_ent 0 (ent\<lparr>ent_waiting := False, refcnt := 1\<rparr>) s)
    \<lparr>ret_log := ret_log s @ [(0, case ent_ret ent of Some err \<Rightarrow> Inl err | None \<Rightarrow> Inr (ent_status ent))]\<rparr>"
  have "invoke_end 0 (set_ent 0 ent s) = Some t" using ent by (simp add: invoke_end_def ent_put_some t_def)
  then have r2: "reach slot_start slot_step t" using reach_handler [OF r1] sl_return [of "set_ent 0 ent s" 0 ent t] ent(6) by (simp add: s q_slotted_sel)
  then have "reach slot_start slot_step (dev_fail t)" by (rule reach_handler [OF _ sl_fail]) (simp add: t_def s q_slotted_sel)
  moreover have "all_abandoned (dev_fail t)"
    using ent by (auto simp: all_abandoned_def dev_fail_def t_def s q_slotted_sel abandoned_def submitted_def split: if_splits)
  moreover have "cmd_sem (dev_fail t) < max_reg_cmds (dev_fail t)" "if_down (dev_fail t)" by (simp_all add: dev_fail_def t_def s q_slotted_sel)
  ultimately show ?thesis by (rule that)
qed

lemma q_trigger:
  obtains s e ent where "reach slot_start slot_step s" "ents s e = Some ent" "ent_idx ent = Some 0" "may_return ent" "timed_out_cleared ent"
    "trig_comp s = [0]" "trig_put s = [0]"
proof -
  let ?ent = "(q_ent False)\<lparr>ent_handling := True, ent_idx := Some 0, ent_slotted := True, ent_work := Work_Slotted\<rparr>"
  obtain s0 lay inb outb where r0: "reach slot_start slot_step s0" and s0: "s0 = (set_ent 0 (posted inb outb ?ent)
      (q_slotted\<lparr>cmd_buf := (cmd_buf q_slotted)[0 := lay]\<rparr>))\<lparr>fw_slot := (fw_slot q_slotted)(0 := Fw_Busy)\<rparr>" by (rule q_posted)
  define s where "s = dev_fail s0"
  have r: "reach slot_start slot_step s" unfolding s_def by (rule reach_handler [OF r0 sl_fail]) (simp add: s0 q_slotted_sel)
  have ok: "slots_ok None s" using r by (rule slotr.reach_invar)
  have e: "ents s 0 = Some (posted inb outb ?ent)" by (simp add: s_def dev_fail_def s0)
  define ent where "ent = (comp_result False (checksum_disabled s) (cmd_buf s ! 0)
    (dropped (if_down s) ((posted inb outb ?ent)\<lparr>ent_ret := Some ETIMEDOUT, pending_comp := False\<rparr>)))\<lparr>ent_done := True\<rparr>"
  have down: "if_down s" by (simp add: s_def dev_fail_def)
  have "wait_func_handle_exec_timeout 0 s = Some (set_ent 0 ent s)"
    unfolding ent_def by (rule sync_timeout_result [OF ok e]) (simp_all add: q_ent_def)
  then have "handler_step s (set_ent 0 ent s)" by (rule sl_timeout [OF e, rotated 3]) (simp_all add: submitted_def q_ent_def)
  then have r1: "reach slot_start slot_step (set_ent 0 ent s)" by (rule reach_handler [OF r]) (simp add: s_def dev_fail_def s0 q_slotted_sel)
  have ent: "ent_idx ent = Some 0" "may_return ent" "timed_out_cleared ent"
    using down by (simp_all add: ent_def may_return_def timed_out_cleared_def q_ent_def)
  define t where "t = (set_ent 0 (ent\<lparr>refcnt := refcnt ent + 1\<rparr>) s)\<lparr>trig_put := [0], trig_comp := [0]\<rparr>"
  have sel: "bitmask s = [False, True]" "max_reg_cmds s = 1" "trig_put s = []" "ent_arr s = (replicate 32 None)[0 := Some 0]"
    by (simp_all add: s_def dev_fail_def s0 q_slotted_sel)
  have busy: "busy_slots (set_ent 0 ent s) = [0]" by (simp add: busy_slots_def sel upt_rec)
  have "nth_opt (ent_arr s) 0 = Some (Some 0)" by (simp add: sel nth_opt_def)
  then have "trig_begin (set_ent 0 ent s) = Some t"
    by (simp add: trig_begin_def busy ent_get_some t_def)
  then have "reach slot_start slot_step t" using reach_handler [OF r1] sl_trig_begin sel(3) by (simp add: s_def dev_fail_def s0 q_slotted_sel)
  then show ?thesis using that [of t 0 "ent\<lparr>refcnt := refcnt ent + 1\<rparr>"] ent
    by (simp add: t_def may_return_def timed_out_cleared_def)
qed

text \<open>
  Handlers that overlap: a device fails while a worker is between \<open>set_bit\<close> and \<open>cmd_ent_get\<close>. The triggered completion then drops the
  reference of the caller in the place of the device's, which is not taken yet, and frees the entry. The worker goes on with it.
\<close>
theorem cmd_submit_race:
  "\<exists>s s1 s2. reach slot_start slot_step s \<and> work_publish 0 s = Some s1 \<and> mlx5_cmd_trigger_completions s1 = Some s2 \<and>
     ents s2 0 = None \<and> work_ring 0 s2 = None"
proof -
  let ?ent = "(q_ent False)\<lparr>ent_handling := True, ent_idx := Some 0, ent_slotted := True, ent_work := Work_Slotted\<rparr>"
  let ?s = "dev_fail q_slotted"
  have r: "reach slot_start slot_step ?s" by (rule reach_handler [OF q_slotted_reach sl_fail]) (simp add: q_slotted_sel)
  have sel: "ents ?s = [0 \<mapsto> ?ent]" "log_sz ?s = 1" "max_reg_cmds ?s = 1" "bitmask ?s = [False, True]" "if_down ?s"
    "ent_arr ?s = (replicate 32 None)[0 := Some 0]" "length (cmd_buf ?s) = 2"
    by (simp_all add: dev_fail_def q_slotted_sel)
  obtain lay inb outb where sig: "set_signature (\<not> checksum_disabled ?s) (fill_layout (ent_token ?ent) (ent_in ?ent) (ent_out ?ent))
      (ent_in ?ent) (ent_out ?ent) = (lay, inb, outb)" by (metis prod_cases3)
  define ent where "ent = ?ent\<lparr>ent_in := inb, ent_out := outb, pending_comp := True, ent_work := Work_Finished\<rparr>"
  define s1 where "s1 = set_ent 0 ent (?s\<lparr>cmd_buf := (cmd_buf ?s)[0 := lay]\<rparr>)"
  have ent: "ent_idx ent = Some 0" "\<not> ent_callback ent" "refcnt ent = 1" "pending_comp ent" "\<not> ent_polling ent" "\<not> page_queue ent"
    by (simp_all add: ent_def q_ent_def)
  have pub: "work_publish 0 ?s = Some s1"
    using sig by (simp add: work_publish_def sel upd_opt_def upd_ent_some q_ent_def s1_def ent_def)
  have e: "ents s1 0 = Some ent" "bitmask s1 = [False, True]" "max_reg_cmds s1 = 1" "log_sz s1 = 1" "if_down s1"
    "nth_opt (ent_arr s1) 0 = Some (Some 0)" "nth_opt (cmd_buf s1) 0 = Some lay"
    using sel by (simp_all add: s1_def nth_opt_def)
  have busy: "busy_slots s1 = [0]" by (simp add: busy_slots_def e upt_rec)
  have up: "filter (\<lambda>i. i \<in> set [0]) [0..<2 ^ 1] = [0 :: nat]" by (simp add: upt_rec)
  obtain s2 where "mlx5_cmd_trigger_completions s1 = Some s2" "ents s2 0 = None"
    using e ent busy up
    by (auto simp: mlx5_cmd_trigger_completions_def mlx5_cmd_comp_handler_def cmd_ent_get_def upd_ent_some comp_one_def comp_rest_def
        comp_finish_def cmd_ent_put_def put_slot_def Let_def comp_result_def)
  then show ?thesis using r pub by (auto simp: work_ring_def)
qed



theorem cmd_slot_timeout_freed_witness: "work_slot 1 ((set_ent 1 (q_ent True) q_slotted)\<lparr>next_ent := 2\<rparr>) = None"
proof (rule cmd_slot_timeout_freed [where ent = "q_ent True"])
  show "reach slot_start slot_step ((set_ent 1 (q_ent True) q_slotted)\<lparr>next_ent := 2\<rparr>)"
    by (rule reach_handler [OF q_slotted_reach sl_invoke]) (use q_invoke [of True q_slotted] in \<open>simp_all add: q_slotted_sel numeral_2_eq_2\<close>)
qed (simp_all add: q_ent_def q_slotted_sel)

theorem cmd_trigger_drops_twice_witness: "\<exists>s s1 s2 e. trig_one s = Some s1 \<and> trig_end s1 = Some s2 \<and> invoke_end e s2 = None"
proof -
  obtain s e ent where "reach slot_start slot_step s" "ents s e = Some ent" "ent_idx ent = Some 0" "may_return ent" "timed_out_cleared ent"
    "trig_comp s = [0]" "trig_put s = [0]" by (rule q_trigger)
  with cmd_trigger_drops_twice [of s e ent 0] show ?thesis by blast
qed

theorem cmd_flush_hangs_witness: "\<exists>s. if_down s \<and> (\<forall>fuel. mlx5_cmd_flush fuel s = None)"
proof -
  obtain s where "reach slot_start slot_step s" "all_abandoned s" "cmd_sem s < max_reg_cmds s" "if_down s" by (rule q_abandoned)
  with cmd_flush_hangs [of s] show ?thesis by auto
qed

text \<open>A device that reports delivery status 3.\<close>

definition q_fw :: "u8 list \<Rightarrow> mlx5_cmd_msg \<Rightarrow> mlx5_cmd_msg \<Rightarrow> u8 list \<times> mlx5_cmd_mailbox list" where
  "q_fw lay inb outb = (lay[63 := 6], [])"

theorem cmd_invoke_result_witness: "\<exists>out s'. mlx5_cmd_invoke True q_fw q_msg q_msg 7 (dev_up q_on) = Some (Inr 3, out, s') \<and> cmd_sem s' = 1"
proof -
  have r: "reach slot_start slot_step (dev_up q_on)"
    by (rule reach_handler [OF reach_init [of slot_start q_on slot_step, OF q_on_start] sl_up]) (simp add: q_on_eq)
  obtain lay inb outb where sig: "set_signature False (fill_layout 7 q_msg q_msg) q_msg q_msg = (lay, inb, outb)" by (metis prod_cases3)
  then have len: "length lay = 64" by (auto simp: set_signature_def fill_layout_def Let_def q_msg_def cmd_layout_size_def off_lay_sig_def)
  have env: "0 < cmd_sem (dev_up q_on)" "\<not> if_down (dev_up q_on)" "opcode_allowed (dev_up q_on) op" "checksum_disabled (dev_up q_on)" "cmd_sem (dev_up q_on) = 1" for op
    by (simp_all add: dev_up_def q_on_eq opcode_allowed_def)
  have sig': "set_signature (\<not> checksum_disabled (dev_up q_on)) (fill_layout 7 q_msg q_msg) q_msg q_msg = (lay, inb, outb)" using sig env(4) by simp
  have "(drop_bit 1 (lay[63 := 6] ! 63) :: u8) = 3" using len by simp
  with cmd_invoke_result [where fw = q_fw, OF r env(1,2) env(3) sig' q_fw_def refl] env show ?thesis by auto
qed

end
