(* ===== verification/Umem.thy ===== *)
theory Umem
  imports Mlx_Prelude
begin

text \<open>
  User memory for RDMA (\<open>drivers/infiniband/core/umem.c\<close>, \<open>include/rdma/ib_umem.h\<close>) and the block iterator of
  \<open>drivers/infiniband/core/verbs.c\<close>: the choice of a page size for the device and the list of blocks of that size.

  Correspondence.
  \<^item> Addresses and lengths are 64-bit words, the lengths of scatter-gather entries 32-bit words, as in the code.
    A scatter-gather list is the list of the bus addresses and lengths of its entries.
  \<^item> A page has 4096 bytes. A shift by 64 bits, which is undefined in C, is the value \<open>None\<close>.
\<close>

section \<open>Bits\<close>

text \<open>\<open>bits_per\<close>, \<open>count_trailing_zeros\<close>, \<open>__fls\<close> and \<open>GENMASK\<close> of the kernel.\<close>

definition count_trailing_zeros :: "u64 \<Rightarrow> nat" where
  "count_trailing_zeros w = (case first_ix (bit w) [0..<64] of Some i \<Rightarrow> i | None \<Rightarrow> 64)"

definition fls64 :: "u64 \<Rightarrow> nat" where
  "fls64 w = (case first_ix (bit w) (rev [0..<64]) of Some i \<Rightarrow> 63 - i | None \<Rightarrow> 0)"

definition bits_per :: "u64 \<Rightarrow> nat" where
  "bits_per n = (if n < 2 then 1 else Suc (fls64 n))"

definition genmask :: "nat \<Rightarrow> nat \<Rightarrow> u64" where
  "genmask h l = (mask (Suc h) :: u64) AND NOT (mask l)"

definition ALIGN :: "u64 \<Rightarrow> u64 \<Rightarrow> u64" where "ALIGN x a = (x + (a - 1)) AND NOT (a - 1)"
definition ALIGN_DOWN :: "u64 \<Rightarrow> u64 \<Rightarrow> u64" where "ALIGN_DOWN x a = x AND NOT (a - 1)"

definition PAGE_SIZE :: u64 where "PAGE_SIZE = 4096"

section \<open>The page size\<close>

type_synonym sg = "u64 \<times> u32"

record ib_umem =
  um_iova :: u64
  um_length :: u64
  um_address :: u64
  um_writable :: bool
  um_odp_shift :: "nat option"  \<comment> \<open>\<open>is_odp\<close>, with the \<open>page_shift\<close> of the region served on demand\<close>
  um_is_dmabuf :: bool
  um_is_peer :: bool
  um_pages :: nat  \<comment> \<open>the pages of the entries of \<open>sgt_append\<close>\<close>
  um_sgl :: "sg list"  \<comment> \<open>\<open>sgt_append\<close> after the mapping for the device\<close>

definition ib_umem_offset :: "ib_umem \<Rightarrow> u64" where
  "ib_umem_offset umem = um_address umem AND (PAGE_SIZE - 1)"

text \<open>The loop over the list.\<close>

fun sgl_mask :: "u64 \<Rightarrow> u64 \<Rightarrow> u64 \<Rightarrow> sg list \<Rightarrow> u64" where
  "sgl_mask msk va pgoff [] = msk"
| "sgl_mask msk va pgoff ((addr, len) # rest) =
     (let msk = msk OR ((addr + pgoff) XOR va);
          va = va + (ucast len - pgoff);
          msk = (if rest \<noteq> [] then msk OR va else msk)
      in sgl_mask msk va 0 rest)"

definition ib_umem_find_best_pgsz :: "ib_umem \<Rightarrow> u64 \<Rightarrow> u64 \<Rightarrow> u64 option \<times> ib_umem" where
  "ib_umem_find_best_pgsz umem pgsz_bitmap virt =
     (let umem = umem\<lparr>um_iova := virt\<rparr> in
      case um_odp_shift umem of
        Some shift \<Rightarrow>
          let page_size = ucast (ucast (push_bit shift 1 :: u64) :: u32)
          in (Some (if pgsz_bitmap AND page_size = 0 then 0 else page_size), umem)
      | None \<Rightarrow>
          let l = bits_per ((um_length umem - 1 + virt) XOR virt) in
          if l = 64 then (None, umem)
          else let msk = pgsz_bitmap AND genmask 63 l;
                   msk = sgl_mask msk virt (ib_umem_offset umem) (um_sgl umem);
                   pgsz_bitmap = (if msk \<noteq> 0 then pgsz_bitmap AND genmask (count_trailing_zeros msk) 0 else pgsz_bitmap)
               in (Some (if pgsz_bitmap \<noteq> 0 then push_bit (fls64 pgsz_bitmap) 1 else 0), umem))"

section \<open>The blocks\<close>

definition ib_umem_num_dma_blocks :: "ib_umem \<Rightarrow> u64 \<Rightarrow> u64" where
  "ib_umem_num_dma_blocks umem pgsz =
     (ALIGN (um_iova umem + um_length umem) pgsz - ALIGN_DOWN (um_iova umem) pgsz) div pgsz"

definition ib_umem_num_pages :: "ib_umem \<Rightarrow> u64" where
  "ib_umem_num_pages umem = ib_umem_num_dma_blocks umem PAGE_SIZE"

record ib_block_iter =
  bi_sg :: "sg list"
  bi_dma_addr :: u64
  bi_sg_numblocks :: u64
  bi_sg_advance :: u32
  bi_pg_bit :: nat

definition rdma_block_iter_start :: "sg list \<Rightarrow> u64 \<Rightarrow> ib_block_iter" where
  "rdma_block_iter_start sglist pgsz =
     \<lparr>bi_sg = sglist, bi_dma_addr = 0, bi_sg_numblocks = 0, bi_sg_advance = 0, bi_pg_bit = fls64 pgsz\<rparr>"

definition rdma_umem_block_iter_start :: "ib_umem \<Rightarrow> u64 \<Rightarrow> ib_block_iter" where
  "rdma_umem_block_iter_start umem pgsz =
     (rdma_block_iter_start (um_sgl umem) pgsz)
       \<lparr>bi_sg_advance := ucast (ib_umem_offset umem AND NOT (pgsz - 1)), bi_sg_numblocks := ib_umem_num_dma_blocks umem pgsz\<rparr>"

definition rdma_block_iter_next :: "ib_block_iter \<Rightarrow> ib_block_iter option" where
  "rdma_block_iter_next biter =
     (case bi_sg biter of
        [] \<Rightarrow> None
      | (addr, len) # rest \<Rightarrow>
          let dma_addr = addr + ucast (bi_sg_advance biter);
              block_offset = (ucast (dma_addr AND (push_bit (bi_pg_bit biter) 1 - 1)) :: u32);
              sg_delta = (ucast (push_bit (bi_pg_bit biter) 1 - (ucast block_offset :: u64)) :: u32);
              biter = biter\<lparr>bi_dma_addr := dma_addr\<rparr>
          in if len - bi_sg_advance biter > sg_delta
             then Some (biter\<lparr>bi_sg_advance := bi_sg_advance biter + sg_delta\<rparr>)
             else Some (biter\<lparr>bi_sg_advance := 0, bi_sg := rest\<rparr>))"

definition rdma_umem_block_iter_next :: "ib_block_iter \<Rightarrow> ib_block_iter option" where
  "rdma_umem_block_iter_next biter =
     (case rdma_block_iter_next biter of
        None \<Rightarrow> None
      | Some biter \<Rightarrow> if bi_sg_numblocks biter = 0 then None else Some (biter\<lparr>bi_sg_numblocks := bi_sg_numblocks biter - 1\<rparr>))"

definition rdma_block_iter_dma_address :: "ib_block_iter \<Rightarrow> u64" where
  "rdma_block_iter_dma_address biter = bi_dma_addr biter AND NOT (push_bit (bi_pg_bit biter) 1 - 1)"

text \<open>The loop of \<open>rdma_umem_for_each_dma_block\<close>, collecting the addresses. Each turn uses up one of \<open>__sg_numblocks\<close>.\<close>

lemma umem_next_decreases: "rdma_umem_block_iter_next b = Some b' \<Longrightarrow> unat (bi_sg_numblocks b') < unat (bi_sg_numblocks b)"
  by (auto simp: rdma_umem_block_iter_next_def rdma_block_iter_next_def Let_def measure_unat
      split: option.splits list.splits prod.splits if_splits)

function for_each_dma_block :: "ib_block_iter \<Rightarrow> u64 list" where
  "for_each_dma_block biter =
     (case rdma_umem_block_iter_next biter of
        None \<Rightarrow> []
      | Some biter \<Rightarrow> rdma_block_iter_dma_address biter # for_each_dma_block biter)"
  by auto
termination
  by (relation "measure (\<lambda>b. unat (bi_sg_numblocks b))") (auto simp: umem_next_decreases)

declare for_each_dma_block.simps [simp del]

definition rdma_umem_for_each_dma_block :: "ib_umem \<Rightarrow> u64 \<Rightarrow> u64 list" where
  "rdma_umem_for_each_dma_block umem pgsz = for_each_dma_block (rdma_umem_block_iter_start umem pgsz)"

section \<open>The page size is the best one\<close>

text \<open>What a page size has to satisfy: it is supported; no supported size below it is as large as the part of
  the address that changes over the region; and the low bits of the bus addresses are those of the
  virtual address, with every entry but the last one ending at a multiple of the page size.\<close>

fun chunks_ok :: "nat \<Rightarrow> u64 \<Rightarrow> u64 \<Rightarrow> sg list \<Rightarrow> bool" where
  "chunks_ok k va pgoff [] \<longleftrightarrow> True"
| "chunks_ok k va pgoff ((addr, len) # rest) \<longleftrightarrow>
     take_bit k (addr + pgoff) = take_bit k va \<and>
     (let va = va + (ucast len - pgoff) in (rest = [] \<or> take_bit k va = 0) \<and> chunks_ok k va 0 rest)"

definition changing_bits :: "ib_umem \<Rightarrow> u64 \<Rightarrow> nat" where
  "changing_bits umem virt = bits_per ((um_length umem - 1 + virt) XOR virt)"

definition pgsz_usable :: "ib_umem \<Rightarrow> u64 \<Rightarrow> u64 \<Rightarrow> nat \<Rightarrow> bool" where
  "pgsz_usable umem pgsz_bitmap virt k \<longleftrightarrow> bit pgsz_bitmap k \<and> (\<forall>j\<in>set [0..<k]. bit pgsz_bitmap j \<longrightarrow> j < changing_bits umem virt) \<and>
     chunks_ok k virt (ib_umem_offset umem) (um_sgl umem)"

definition best_pgsz :: "ib_umem \<Rightarrow> u64 \<Rightarrow> u64 \<Rightarrow> u64" where
  "best_pgsz umem pgsz_bitmap virt =
     (let ks = filter (pgsz_usable umem pgsz_bitmap virt) [0..<64] in if ks = [] then 0 else 2 ^ last ks)"

lemma bit_u64_lt: "bit (w :: u64) j \<Longrightarrow> j < 64"
  using bit_imp_le_length [of w j] by simp

lemma bit_genmask: "bit (genmask h l) j \<longleftrightarrow> j < 64 \<and> l \<le> j \<and> j \<le> h"
  by (auto simp: genmask_def bit_and_iff bit_not_iff bit_mask_iff less_Suc_eq_le)

lemma take_bit_eq_iff: "take_bit k (x :: u64) = take_bit k y \<longleftrightarrow> (\<forall>j<k. bit x j = bit y j)"
proof
  show "\<forall>j<k. bit x j = bit y j" if "take_bit k x = take_bit k y"
    using that by (metis bit_take_bit_iff)
qed (auto intro!: bit_eqI simp: bit_take_bit_iff)

lemma take_bit_0_iff: "take_bit k (x :: u64) = 0 \<longleftrightarrow> (\<forall>j<k. \<not> bit x j)"
  using take_bit_eq_iff [of k x 0] by simp

lemma sgl_mask_low:
  assumes "k \<le> 64"
  shows "(\<forall>j<k. \<not> bit (sgl_mask msk va pgoff sgl) j) \<longleftrightarrow> (\<forall>j<k. \<not> bit msk j) \<and> chunks_ok k va pgoff sgl"
proof (induction sgl arbitrary: msk va pgoff)
  case (Cons x sgl)
  obtain addr len where x: "x = (addr, len)" by (cases x)
  have "(\<forall>j<k. \<not> bit (msk OR ((addr + pgoff) XOR va)) j) \<longleftrightarrow> (\<forall>j<k. \<not> bit msk j) \<and> take_bit k (addr + pgoff) = take_bit k va"
    unfolding take_bit_eq_iff by (auto simp: bit_or_iff bit_xor_iff)
  moreover have "(\<forall>j<k. \<not> bit (m OR v) j) \<longleftrightarrow> (\<forall>j<k. \<not> bit m j) \<and> take_bit k v = 0" for m v :: u64
    unfolding take_bit_0_iff by (auto simp: bit_or_iff)
  ultimately show ?case by (simp add: x Let_def Cons.IH)
qed simp

lemma first_ix_upt:
  assumes "bit (w :: u64) i" "i < n"
  obtains k where "first_ix (bit w) [0..<n] = Some k" "bit w k" "\<forall>j<k. \<not> bit w j"
proof -
  have "first_ix (bit w) [0..<n] \<noteq> None" unfolding first_ix_None_iff using assms by auto
  then obtain k where k: "first_ix (bit w) [0..<n] = Some k" by blast
  then have "bit w k" "\<forall>j<k. \<not> bit w j" by (auto simp: first_ix_Some_iff)
  then show ?thesis using that k by blast
qed

lemma first_ix_rev_upt:
  assumes "bit (w :: u64) i" "i < n"
  obtains k where "first_ix (bit w) (rev [0..<n]) = Some k" "k < n" "bit w (n - Suc k)" "\<forall>j<k. \<not> bit w (n - Suc j)"
proof -
  have "first_ix (bit w) (rev [0..<n]) \<noteq> None" unfolding first_ix_None_iff using assms by auto
  moreover have "rev [0..<n] ! m = n - Suc m" if "m < n" for m using that by (simp add: rev_nth)
  ultimately show ?thesis using that by (auto simp: first_ix_Some_iff)
qed

lemma word_nonzero_bit: "(w :: u64) \<noteq> 0 \<Longrightarrow> \<exists>i<64. bit w i"
  using bit_u64_lt by (force simp: bit_eq_iff)

lemma ctz_bit:
  assumes "w \<noteq> 0"
  shows "bit w (count_trailing_zeros w)" "j < count_trailing_zeros w \<Longrightarrow> \<not> bit w j"
proof -
  obtain i where "bit w i" "i < 64" using word_nonzero_bit [OF assms] by blast
  then obtain k where k: "first_ix (bit w) [0..<64] = Some k" "bit w k" "\<forall>j<k. \<not> bit w j" by (rule first_ix_upt)
  then have "count_trailing_zeros w = k" unfolding count_trailing_zeros_def by (simp only: k option.case)
  then show "bit w (count_trailing_zeros w)" "j < count_trailing_zeros w \<Longrightarrow> \<not> bit w j" using k by simp_all
qed

lemma fls_bit:
  assumes "w \<noteq> 0"
  shows "bit w (fls64 w)" "fls64 w < j \<Longrightarrow> \<not> bit w j"
proof -
  obtain i where "bit w i" "i < 64" using word_nonzero_bit [OF assms] by blast
  then obtain k where k: "first_ix (bit w) (rev [0..<64]) = Some k" "k < 64" "bit w (64 - Suc k)" "\<forall>j<k. \<not> bit w (64 - Suc j)"
    by (rule first_ix_rev_upt)
  have f: "fls64 w = 63 - k" unfolding fls64_def by (simp only: k option.case)
  then show "bit w (fls64 w)" using k(3) by simp
  show "\<not> bit w j" if "fls64 w < j"
  proof
    assume "bit w j"
    then have "j < 64" by (rule bit_u64_lt)
    then have "63 - j < k" "64 - Suc (63 - j) = j" using that f k(2) by auto
    then show False using k(4) \<open>bit w j\<close> by metis
  qed
qed

lemma last_filter_upt:
  assumes "P m" "m < n" "\<And>j. m < j \<Longrightarrow> \<not> P j"
  shows "filter P [0..<n] \<noteq> [] \<and> last (filter P [0..<n]) = m"
  using assms(2)
proof (induction n)
  case (Suc n)
  then show ?case using assms(1,3) by (cases "n = m") auto
qed simp

lemma find_best_ok:
  assumes "um_odp_shift umem = None" "changing_bits umem virt \<noteq> 64"
  shows "fst (ib_umem_find_best_pgsz umem pgsz_bitmap virt) = Some (best_pgsz umem pgsz_bitmap virt)"
proof -
  define msk where "msk = sgl_mask (pgsz_bitmap AND genmask 63 (changing_bits umem virt)) virt (ib_umem_offset umem) (um_sgl umem)"
  define b where "b = (if msk \<noteq> 0 then pgsz_bitmap AND genmask (count_trailing_zeros msk) 0 else pgsz_bitmap)"
  have bits: "bit b k \<longleftrightarrow> pgsz_usable umem pgsz_bitmap virt k" for k
  proof (cases "k < 64")
    case True
    have "bit b k \<longleftrightarrow> bit pgsz_bitmap k \<and> (\<forall>j<k. \<not> bit msk j)"
    proof (cases "msk = 0")
      case False
      then have "k \<le> count_trailing_zeros msk \<longleftrightarrow> (\<forall>j<k. \<not> bit msk j)" using ctz_bit [OF False] by (meson le_less_trans not_le)
      then show ?thesis using False True by (auto simp: b_def bit_and_iff bit_genmask)
    qed (simp add: b_def)
    also have "\<dots> \<longleftrightarrow> pgsz_usable umem pgsz_bitmap virt k"
      using True unfolding msk_def pgsz_usable_def by (subst sgl_mask_low) (auto simp: bit_and_iff bit_genmask not_le)
    finally show ?thesis .
  next
    case False
    then show ?thesis using bit_u64_lt [of b k] bit_u64_lt [of pgsz_bitmap k] by (auto simp: pgsz_usable_def)
  qed
  have "(if b \<noteq> 0 then push_bit (fls64 b) 1 else 0) = best_pgsz umem pgsz_bitmap virt"
  proof (cases "b = 0")
    case True
    then have "filter (pgsz_usable umem pgsz_bitmap virt) [0..<64] = []" using bits unfolding filter_empty_conv by simp
    then show ?thesis using True unfolding best_pgsz_def Let_def by simp
  next
    case False
    note f = fls_bit [OF False]
    have "filter (pgsz_usable umem pgsz_bitmap virt) [0..<64] \<noteq> [] \<and> last (filter (pgsz_usable umem pgsz_bitmap virt) [0..<64]) = fls64 b"
      by (rule last_filter_upt) (use f bits bit_u64_lt in auto)
    then show ?thesis using False unfolding best_pgsz_def Let_def by (simp add: push_bit_eq_mult)
  qed
  moreover have "fst (ib_umem_find_best_pgsz umem pgsz_bitmap virt) = Some (if b \<noteq> 0 then push_bit (fls64 b) 1 else 0)"
    using assms by (simp add: ib_umem_find_best_pgsz_def Let_def ib_umem_offset_def msk_def b_def changing_bits_def)
  ultimately show ?thesis by simp
qed

section \<open>The block list covers the region\<close>

text \<open>The bus address of byte \<open>x\<close> of the memory that a scatter-gather list describes, and the blocks of size \<open>p\<close>
  that hold the bytes from \<open>x\<close> up to \<open>e\<close>.\<close>

fun dma_at :: "(nat \<times> nat) list \<Rightarrow> nat \<Rightarrow> nat option" where
  "dma_at [] x = None"
| "dma_at ((a, l) # r) x = (if x < l then Some (a + x) else dma_at r (x - l))"

definition blocks_of :: "nat \<Rightarrow> nat \<Rightarrow> nat \<Rightarrow> nat list" where
  "blocks_of p x e = map (\<lambda>i. i * p) [x div p ..< (e + p - 1) div p]"

fun blks :: "nat \<Rightarrow> nat \<Rightarrow> (nat \<times> nat) list \<Rightarrow> nat list" where
  "blks p adv [] = []"
| "blks p adv ((a, l) # r) = blocks_of p (a + adv) (a + l) @ blks p 0 r"

fun nat_chunks :: "nat \<Rightarrow> nat \<Rightarrow> nat \<Rightarrow> (nat \<times> nat) list \<Rightarrow> bool" where
  "nat_chunks p va off [] \<longleftrightarrow> True"
| "nat_chunks p va off ((a, l) # r) \<longleftrightarrow>
     off < l \<and> (a + off) mod p = va mod p \<and> (r = [] \<or> (va + (l - off)) mod p = 0) \<and> nat_chunks p (va + (l - off)) 0 r"

lemma div_shift_eq:
  fixes x y d p :: nat
  assumes "x mod p = y mod p" "0 < p"
  shows "(x + d) div p - x div p = (y + d) div p - y div p" "(x + d) mod p = (y + d) mod p"
proof -
  have e: "(z + d) div p = z div p + (z mod p + d) div p" for z
    using assms(2) by (metis add.assoc div_mult_self3 gr_implies_not0 mult_div_mod_eq mult.commute)
  show "(x + d) div p - x div p = (y + d) div p - y div p" using e [of x] e [of y] assms(1) by simp
  show "(x + d) mod p = (y + d) mod p" using assms(1) by (metis mod_add_left_eq)
qed

lemma blocks_of_nth:
  assumes "x \<le> y" "y < e" "0 < p"
  shows "y div p - x div p < length (blocks_of p x e)" "blocks_of p x e ! (y div p - x div p) = y div p * p"
proof -
  have "y div p < (e + p - 1) div p"
  proof -
    have "y div p * p + p \<le> e + p - 1" using assms(2,3) div_times_less_eq_dividend [of y p] by linarith
    then have "Suc (y div p) * p \<le> e + p - 1" by simp
    then show ?thesis using assms(3) by (metis Suc_le_eq less_eq_div_iff_mult_less_eq)
  qed
  moreover have "x div p \<le> y div p" using assms(1) by (rule div_le_mono)
  ultimately show "y div p - x div p < length (blocks_of p x e)" "blocks_of p x e ! (y div p - x div p) = y div p * p"
    by (auto simp: blocks_of_def)
qed

lemma dma_at_blks:
  assumes "nat_chunks p va off sgl" "0 < p" "off + d < sum_list (map snd sgl)"
  shows "(va + d) div p - va div p < length (blks p off sgl) \<and>
    dma_at sgl (off + d) = Some (blks p off sgl ! ((va + d) div p - va div p) + (va + d) mod p)"
  using assms(1,3)
proof (induction sgl arbitrary: va off d)
  case (Cons c r)
  obtain a l where c: "c = (a, l)" by (cases c)
  have h: "off < l" "(a + off) mod p = va mod p" "r = [] \<or> (va + (l - off)) mod p = 0" "nat_chunks p (va + (l - off)) 0 r"
    using Cons.prems c by auto
  note sh = div_shift_eq [OF h(2) assms(2)]
  show ?case
  proof (cases "off + d < l")
    case True
    have "a + off \<le> a + off + d" "a + off + d < a + l" using True by auto
    note b = blocks_of_nth [OF this assms(2)]
    have "a + off + d = blocks_of p (a + off) (a + l) ! ((va + d) div p - va div p) + (va + d) mod p"
      using b(2) unfolding sh(1) sh(2) [symmetric] by simp
    then show ?thesis using True b(1) sh(1) [of d] by (simp add: c nth_append add.assoc)
  next
    case False
    define n where "n = l - off"
    define d' where "d' = d - n"
    have dd: "d = n + d'" "l = off + n" using False h(1) by (auto simp: n_def d'_def)
    have nr: "r \<noteq> []" using False Cons.prems(2) c by auto
    then have v0: "(va + n) mod p = 0" using h(3) by (simp add: n_def)
    have "0 + d' < sum_list (map snd r)" using Cons.prems(2) dd c by simp
    from Cons.IH [OF h(4) this] have ih: "(va + n + d') div p - (va + n) div p < length (blks p 0 r)"
      "dma_at r d' = Some (blks p 0 r ! ((va + n + d') div p - (va + n) div p) + (va + n + d') mod p)" by (simp_all add: n_def)
    have al: "(a + l) mod p = 0" using sh(2) [of n] v0 dd by (simp add: ac_simps)
    have "(a + l + p - 1) div p = (a + l) div p"
    proof -
      obtain q where q: "a + l = q * p" using al by (metis dvd_def mod_eq_0_iff_dvd mult.commute)
      moreover have "(q * p + p - 1) div p = q" using assms(2) by (intro div_nat_eqI) (simp_all add: mult.commute)
      ultimately show ?thesis using assms(2) by simp
    qed
    then have "length (blocks_of p (a + off) (a + l)) = (a + l) div p - (a + off) div p" by (simp add: blocks_of_def)
    also have "\<dots> = (va + n) div p - va div p" using sh(1) [of n] dd by (simp add: ac_simps)
    finally have len: "length (blocks_of p (a + off) (a + l)) = (va + n) div p - va div p" .
    have "va div p \<le> (va + n) div p" "(va + n) div p \<le> (va + n + d') div p" by (simp_all add: div_le_mono)
    then have ix: "(va + d) div p - va div p = length (blocks_of p (a + off) (a + l)) + ((va + n + d') div p - (va + n) div p)"
      using len dd by (simp add: ac_simps)
    have "dma_at (c # r) (off + d) = dma_at r d'" using c dd by simp
    then show ?thesis using ih ix dd by (simp add: c ac_simps)
  qed
qed simp

subsection \<open>The iterator yields the blocks\<close>

abbreviation nsgl :: "sg list \<Rightarrow> (nat \<times> nat) list" where
  "nsgl \<equiv> map (map_prod unat unat)"

definition sg_ok :: "sg list \<Rightarrow> bool" where
  "sg_ok sgl \<longleftrightarrow> (\<forall>(a, l) \<in> set sgl. 0 < l \<and> unat a + unat l < 2 ^ 64)"

lemma blocks_of_step:
  assumes "x < e" "0 < p"
  shows "blocks_of p x e = x div p * p # (if e - x > p - x mod p then blocks_of p (x + (p - x mod p)) e else [])"
proof -
  define q where "q = x div p"
  have x: "x = q * p + x mod p" "x mod p < p" using assms(2) by (simp_all add: q_def)
  then have nx: "x + (p - x mod p) = Suc q * p" by simp
  define c where "c = (e + p - 1) div p"
  have "Suc q * p \<le> e + p - 1" using assms x by simp
  then have qc: "q < c" unfolding c_def using assms(2) by (metis Suc_le_eq less_eq_div_iff_mult_less_eq)
  have c: "Suc q < c \<longleftrightarrow> Suc q * p < e"
  proof -
    have "Suc q < c \<longleftrightarrow> Suc (Suc q) * p \<le> e + p - 1"
      unfolding c_def using assms(2) by (metis Suc_le_eq less_eq_div_iff_mult_less_eq)
    also have "\<dots> \<longleftrightarrow> Suc q * p < e" using assms(2) by simp linarith
    finally show ?thesis .
  qed
  have g: "e - x > p - x mod p \<longleftrightarrow> Suc q * p < e" using nx assms(1) by linarith
  have "blocks_of p x e = map (\<lambda>i. i * p) (q # [Suc q..<c])"
    using qc unfolding blocks_of_def q_def [symmetric] c_def [symmetric] by (simp add: upt_conv_Cons)
  moreover have "blocks_of p (Suc q * p) e = map (\<lambda>i. i * p) [Suc q..<c]"
    using assms(2) unfolding blocks_of_def c_def [symmetric] by (simp del: mult_Suc)
  ultimately show ?thesis using c g nx by (auto simp: q_def [symmetric])
qed

lemma unat_push_bit_1: "k < 64 \<Longrightarrow> unat (push_bit k 1 :: u64) = 2 ^ k"
  using unat_of_nat [of "2 ^ k", where 'a = 64] power_strict_increasing [of k 64 "2 :: nat"] by simp

lemma push_bit_minus_1: "push_bit k 1 - 1 = (mask k :: u64)"
  by (simp add: mask_eq_decr_exp push_bit_eq_mult)

lemma unat_and_mask: "unat (w AND mask k :: u64) = unat w mod 2 ^ k"
  unfolding take_bit_eq_mask [symmetric] unsigned_take_bit_eq by (rule take_bit_eq_mod)

lemma unat_down: "unat w < 2 ^ 32 \<Longrightarrow> unat (ucast (w :: u64) :: u32) = unat w"
  by (simp add: unsigned_ucast_eq take_bit_nat_eq_self)

lemma unat_up: "unat (ucast (w :: u32) :: u64) = unat w"
  using unsigned_less [of w, where 'a = nat] by (simp add: unsigned_ucast_eq take_bit_nat_eq_self)

lemma and_not_mask_minus: "(w :: u64) AND NOT (mask k) = w - take_bit k w"
proof -
  have "w = (w AND NOT (mask k)) + (w AND mask k)"
    by (subst disjunctive_add) (auto simp: bit_simps intro: bit_eqI)
  then show ?thesis unfolding take_bit_eq_mask by (metis add_diff_cancel_right')
qed

lemma unat_and_not_mask: "unat (w AND NOT (mask k) :: u64) = unat w div 2 ^ k * 2 ^ k"
proof -
  have "take_bit k w \<le> w" by (simp add: word_le_nat_alt unat_and_mask take_bit_eq_mask)
  then show ?thesis unfolding and_not_mask_minus by (simp add: unat_sub unat_and_mask take_bit_eq_mask minus_mod_eq_div_mult)
qed

lemma block_iter_next_step:
  fixes b :: ib_block_iter
  assumes "bi_sg b = (a, l) # r" "bi_pg_bit b = k" "k \<le> 31" "bi_sg_advance b < l" "unat a + unat l < 2 ^ 64"
  defines "x \<equiv> unat a + unat (bi_sg_advance b)"
  defines "d \<equiv> 2 ^ k - x mod 2 ^ k"
  obtains b' where "rdma_block_iter_next b = Some b'" "unat (bi_dma_addr b') = x" "bi_pg_bit b' = k"
    "bi_sg_numblocks b' = bi_sg_numblocks b"
    "unat l - unat (bi_sg_advance b) > d \<longrightarrow> bi_sg b' = bi_sg b \<and> unat (bi_sg_advance b') = unat (bi_sg_advance b) + d"
    "\<not> unat l - unat (bi_sg_advance b) > d \<longrightarrow> bi_sg b' = r \<and> bi_sg_advance b' = 0"
proof -
  define adv where "adv = bi_sg_advance b"
  define A :: u64 where "A = a + ucast adv"
  have al: "unat adv < unat l" using assms(4) by (simp add: adv_def word_less_nat_alt)
  have "unat A = x" unfolding A_def x_def adv_def [symmetric]
    using al assms(5) by (subst unat_add_lem [THEN iffD1]) (simp_all add: unat_up)
  moreover have m31: "x mod 2 ^ k < 2 ^ k" "(2::nat) ^ k \<le> 2 ^ 31" using power_increasing [of k 31 "2 :: nat"] assms(3) by simp_all
  moreover define bo :: u32 where "bo = ucast (A AND (push_bit k 1 - 1))"
  moreover have bo: "unat bo = x mod 2 ^ k"
    unfolding bo_def push_bit_minus_1 using calculation(1) less_le_trans [OF m31] by (subst unat_down) (simp_all add: unat_and_mask)
  define dl :: u32 where "dl = ucast (push_bit k 1 - (ucast bo :: u64))"
  have "unat (push_bit k 1 - (ucast bo :: u64)) = d"
    unfolding d_def using bo m31 assms(3) by (subst unat_sub) (simp_all add: word_le_nat_alt unat_up unat_push_bit_1 del: push_bit_of_1)
  then have dl: "unat dl = d" unfolding dl_def using m31 by (subst unat_down) (auto simp: d_def)
  define b' where "b' = (if l - adv > dl then b\<lparr>bi_dma_addr := A, bi_sg_advance := adv + dl\<rparr> else b\<lparr>bi_dma_addr := A, bi_sg_advance := 0, bi_sg := r\<rparr>)"
  have "rdma_block_iter_next b = Some b'"
    unfolding rdma_block_iter_next_def by (simp add: assms(1,2) Let_def b'_def dl_def bo_def A_def adv_def del: push_bit_of_1)
  moreover have "(l - adv > dl) = (unat l - unat adv > d)"
    using al dl by (simp add: word_less_nat_alt unat_sub word_le_nat_alt)
  moreover have "unat (adv + dl) = unat adv + d" if "unat l - unat adv > d"
    using that dl unsigned_less [of l, where 'a = nat] by (subst unat_add_lem [THEN iffD1]) simp_all
  ultimately show ?thesis using that [of b'] \<open>unat A = x\<close> assms(1,2) by (auto simp: b'_def adv_def)
qed

lemma for_each_blocks:
  assumes "k \<le> 31" "sg_ok (bi_sg b)" "bi_pg_bit b = k"
    "bi_sg b = [] \<or> bi_sg_advance b < snd (hd (bi_sg b))"
  shows "map unat (for_each_dma_block b) =
    take (unat (bi_sg_numblocks b)) (blks (2 ^ k) (unat (bi_sg_advance b)) (nsgl (bi_sg b)))"
  using assms(2-4)
proof (induction "unat (bi_sg_numblocks b)" arbitrary: b rule: less_induct)
  case less
  show ?case
  proof (cases "bi_sg b")
    case Nil
    then show ?thesis by (subst for_each_dma_block.simps) (simp add: rdma_umem_block_iter_next_def rdma_block_iter_next_def)
  next
    case (Cons c r)
    obtain a l where c: "c = (a, l)" by (cases c)
    have al: "bi_sg_advance b < l" "unat a + unat l < 2 ^ 64" "sg_ok r" "0 < l"
      using less.prems(1,3) unfolding Cons c by (auto simp: sg_ok_def)
    define x where "x = unat a + unat (bi_sg_advance b)"
    obtain b' where b': "rdma_block_iter_next b = Some b'" "unat (bi_dma_addr b') = x" "bi_pg_bit b' = k"
      "bi_sg_numblocks b' = bi_sg_numblocks b"
      "unat l - unat (bi_sg_advance b) > 2 ^ k - x mod 2 ^ k \<longrightarrow>
         bi_sg b' = bi_sg b \<and> unat (bi_sg_advance b') = unat (bi_sg_advance b) + (2 ^ k - x mod 2 ^ k)"
      "\<not> unat l - unat (bi_sg_advance b) > 2 ^ k - x mod 2 ^ k \<longrightarrow> bi_sg b' = r \<and> bi_sg_advance b' = 0"
      using block_iter_next_step [OF Cons [unfolded c] less.prems(2) assms(1) al(1,2)] unfolding x_def .
    show ?thesis
    proof (cases "bi_sg_numblocks b = 0")
      case True
      then show ?thesis by (subst for_each_dma_block.simps) (simp add: rdma_umem_block_iter_next_def b')
    next
      case False
      define b2 where "b2 = b'\<lparr>bi_sg_numblocks := bi_sg_numblocks b - 1\<rparr>"
      have n: "unat (bi_sg_numblocks b) = Suc (unat (bi_sg_numblocks b2))"
        using False by (simp add: b2_def measure_unat unat_minus_one unat_gt_0)
      have fe: "for_each_dma_block b = rdma_block_iter_dma_address b2 # for_each_dma_block b2"
        using False by (subst for_each_dma_block.simps) (simp add: rdma_umem_block_iter_next_def b' b2_def)
      have hd: "unat (rdma_block_iter_dma_address b2) = x div 2 ^ k * 2 ^ k"
        unfolding rdma_block_iter_dma_address_def push_bit_minus_1 unat_and_not_mask by (simp add: b2_def b')
      have xl: "x < unat a + unat l" "unat a + unat l - x = unat l - unat (bi_sg_advance b)"
        using al(1) by (simp_all add: x_def word_less_nat_alt)
      have bk: "blks (2 ^ k) (unat (bi_sg_advance b)) (nsgl (bi_sg b)) =
          x div 2 ^ k * 2 ^ k # blks (2 ^ k) (unat (bi_sg_advance b2)) (nsgl (bi_sg b2))"
        using blocks_of_step [OF xl(1), of "2 ^ k"] b'(5,6) xl(2)
        by (auto simp: Cons c x_def b2_def add.assoc)
      have "bi_sg b2 = [] \<or> bi_sg_advance b2 < snd (hd (bi_sg b2))"
      proof (cases "unat l - unat (bi_sg_advance b) > 2 ^ k - x mod 2 ^ k")
        case True
        then show ?thesis using b'(5) by (simp add: b2_def Cons c word_less_nat_alt)
      next
        case False
        then show ?thesis using b'(6) al(3) by (cases r) (auto simp: b2_def sg_ok_def)
      qed
      moreover have "sg_ok (bi_sg b2)" using b'(5,6) al(3) less.prems(1) by (auto simp: b2_def)
      ultimately have "map unat (for_each_dma_block b2) =
          take (unat (bi_sg_numblocks b2)) (blks (2 ^ k) (unat (bi_sg_advance b2)) (nsgl (bi_sg b2)))"
        using less.hyps [of b2] n b'(3) by (simp add: b2_def)
      then show ?thesis by (simp add: fe hd bk n)
    qed
  qed
qed

subsection \<open>From words to naturals\<close>

lemma take_bit_eq_unat: "take_bit k (x :: u64) = take_bit k y \<longleftrightarrow> unat x mod 2 ^ k = unat y mod 2 ^ k"
  unfolding take_bit_eq_mask by (metis unat_and_mask word_unat_eq_iff)

lemma unat_add_mod: "k \<le> 64 \<Longrightarrow> unat (x + y :: u64) mod 2 ^ k = (unat x + unat y) mod 2 ^ k"
  using mod_mod_cancel [OF le_imp_power_dvd [of k 64 "2 :: nat"], of "unat x + unat y"] by (simp add: unat_word_ariths)

lemma nat_chunks_of:
  assumes "k \<le> 64" "chunks_ok k va pgoff sgl" "sg_ok sgl" "sgl = [] \<or> unat pgoff < unat (snd (hd sgl))"
    "v mod 2 ^ k = unat va mod 2 ^ k"
  shows "nat_chunks (2 ^ k) v (unat pgoff) (nsgl sgl)"
  using assms(2-5)
proof (induction sgl arbitrary: va pgoff v)
  case (Cons c r)
  obtain a l where c: "c = (a, l)" by (cases c)
  define va' where "va' = va + (ucast l - pgoff)"
  have h: "take_bit k (a + pgoff) = take_bit k va" "r = [] \<or> take_bit k va' = 0" "chunks_ok k va' 0 r" "sg_ok r"
    "unat pgoff < unat l"
    using Cons.prems c by (auto simp: va'_def sg_ok_def Let_def)
  have "unat (ucast l - pgoff) = unat l - unat pgoff"
    using h(5) by (subst unat_sub) (simp_all add: word_le_nat_alt unat_up)
  then have v': "(v + (unat l - unat pgoff)) mod 2 ^ k = unat va' mod 2 ^ k"
    unfolding va'_def unat_add_mod [OF assms(1)] using Cons.prems(4) by (metis mod_add_left_eq)
  have "r = [] \<or> unat (0 :: u64) < unat (snd (hd r))"
    using h(4) by (cases r) (auto simp: sg_ok_def word_less_nat_alt)
  from Cons.IH [OF h(3,4) this v'] have "nat_chunks (2 ^ k) (v + (unat l - unat pgoff)) 0 (nsgl r)" by simp
  moreover have "(unat a + unat pgoff) mod 2 ^ k = v mod 2 ^ k"
    using h(1) Cons.prems(4) by (simp add: take_bit_eq_unat unat_add_mod [OF assms(1)])
  moreover have "r = [] \<or> (v + (unat l - unat pgoff)) mod 2 ^ k = 0"
    using h(2) take_bit_eq_unat [of k va' 0] v' by auto
  ultimately show ?case using h(5) by (simp add: c)
qed simp

lemma num_dma_blocks_unat:
  assumes "k < 64" "unat (um_iova umem) + unat (um_length umem) + 2 ^ k \<le> 2 ^ 64" "0 < um_length umem"
  shows "unat (ib_umem_num_dma_blocks umem (2 ^ k)) =
    Suc ((unat (um_iova umem) + (unat (um_length umem) - 1)) div 2 ^ k - unat (um_iova umem) div 2 ^ k)"
proof -
  define p :: nat where "p = 2 ^ k"
  define v where "v = unat (um_iova umem)"
  define n where "n = unat (um_length umem)"
  have p: "0 < p" "p < 2 ^ 64" "unat (2 ^ k :: u64) = p" "(2 ^ k :: u64) - 1 = mask k"
    using unat_push_bit_1 [OF assms(1)] power_strict_increasing [OF assms(1), of "2 :: nat"] push_bit_minus_1 [of k]
    by (simp_all add: p_def)
  have pm: "unat (mask k :: u64) = p - 1"
    unfolding p(4) [symmetric] using p assms(1) by (subst unat_minus_one) (auto simp flip: unat_gt_0)
  have n0: "0 < n" using assms(3) by (simp add: n_def unat_gt_0 word_gt_0)
  have a: "unat (ALIGN (um_iova umem + um_length umem) (2 ^ k)) = (v + n + (p - 1)) div p * p"
    unfolding ALIGN_def p(4) unat_and_not_mask p_def [symmetric]
    using assms(2) p pm n0 by (subst unat_add_lem [THEN iffD1]; subst unat_add_lem [THEN iffD1]) (simp_all add: v_def n_def p_def [symmetric])
  have d: "unat (ALIGN_DOWN (um_iova umem) (2 ^ k)) = v div p * p"
    unfolding ALIGN_DOWN_def p(4) unat_and_not_mask by (simp add: p_def v_def)
  have le: "v div p \<le> (v + n + (p - 1)) div p" by (rule div_le_mono) simp
  then have "unat (ib_umem_num_dma_blocks umem (2 ^ k)) = (v + n + (p - 1)) div p - v div p"
    unfolding ib_umem_num_dma_blocks_def unat_div p(3)
    using a d p(1) by (subst unat_sub) (simp_all only: word_le_nat_alt mult_le_mono1 diff_mult_distrib [symmetric] div_mult_self_is_m)
  moreover have "(v + n + (p - 1)) div p = Suc ((v + (n - 1)) div p)"
  proof -
    have e: "v + n + (p - 1) = v + (n - 1) + p" using n0 p(1) by simp
    show ?thesis unfolding e using p(1) by (simp add: div_add_self2)
  qed
  moreover have "v div p \<le> (v + (n - 1)) div p" by (rule div_le_mono) simp
  ultimately show ?thesis by (simp add: v_def n_def p_def Suc_diff_le)
qed

lemma best_pgsz_usable:
  assumes "best_pgsz umem bm virt \<noteq> 0"
  obtains k where "best_pgsz umem bm virt = 2 ^ k" "k < 64" "pgsz_usable umem bm virt k"
proof -
  define ks where "ks = filter (pgsz_usable umem bm virt) [0..<64]"
  have ks: "ks \<noteq> []" "best_pgsz umem bm virt = 2 ^ last ks"
    using assms unfolding best_pgsz_def Let_def ks_def [symmetric] by (auto split: if_splits)
  then have "last ks \<in> set ks" by simp
  then have "last ks < 64" "pgsz_usable umem bm virt (last ks)" unfolding ks_def by (simp_all only: set_filter set_upt mem_Collect_eq atLeastLessThan_iff)
  then show ?thesis using ks that by blast
qed

lemma offset_same_block:
  fixes a off k :: nat
  assumes "a mod 4096 = 0" "off < 4096"
  shows "(a + off div 2 ^ k * 2 ^ k) div 2 ^ k = (a + off) div 2 ^ k"
proof (cases "k \<le> 12")
  case True
  then have "(2 :: nat) ^ k dvd 2 ^ 12" by (rule le_imp_power_dvd)
  then have "2 ^ k dvd a" using assms(1) by (auto intro: dvd_trans)
  then obtain q where q: "a = q * 2 ^ k" by (metis dvd_def mult.commute)
  show ?thesis unfolding q by simp
next
  case False
  then obtain j where j: "k = 12 + j" by (metis le_add_diff_inverse nle_le)
  obtain q where q: "a = q * 4096" using assms(1) by (metis dvd_def mod_eq_0_iff_dvd mult.commute)
  have "(4096 :: nat) * 1 \<le> 4096 * 2 ^ j" by (intro mult_le_mono2) simp
  then have "off < 4096 * 2 ^ j" using assms(2) by linarith
  then have "off < 2 ^ k" by (simp add: j power_add)
  moreover have "(q * 4096 + off) div (4096 * 2 ^ j) = q * 4096 div (4096 * 2 ^ j)"
    using assms(2) by (simp add: div_mult2_eq)
  ultimately show ?thesis by (simp add: q j power_add)
qed

lemma ib_umem_offset_lt: "unat (ib_umem_offset umem) < 4096"
proof -
  have "PAGE_SIZE - 1 = mask 12" by (simp add: PAGE_SIZE_def mask_eq_exp_minus_1)
  then show ?thesis by (simp add: ib_umem_offset_def unat_and_mask)
qed

lemma blks_same: "(a + x) div p = (a + y) div p \<Longrightarrow> blks p x ((a, l) # r) = blks p y ((a, l) # r)"
  by (simp add: blocks_of_def)

definition umem_dma_ok :: "ib_umem \<Rightarrow> bool" where
  "umem_dma_ok umem \<longleftrightarrow> sg_ok (um_sgl umem) \<and> 0 < um_length umem \<and>
     (case um_sgl umem of [] \<Rightarrow> False | (a, l) # _ \<Rightarrow> unat a mod 4096 = 0 \<and> unat (ib_umem_offset umem) < unat l) \<and>
     unat (ib_umem_offset umem) + unat (um_length umem) \<le> sum_list (map snd (nsgl (um_sgl umem)))"

lemma umem_blocks_cover_aux:
  assumes "umem_dma_ok umem" "k \<le> 31" "chunks_ok k (um_iova umem) (ib_umem_offset umem) (um_sgl umem)"
    "unat (um_iova umem) + unat (um_length umem) + 2 ^ k \<le> 2 ^ 64"
  defines "B \<equiv> rdma_umem_for_each_dma_block umem (2 ^ k)" and "v \<equiv> unat (um_iova umem)"
  shows "length B = unat (ib_umem_num_dma_blocks umem (2 ^ k))"
    "x < unat (um_length umem) \<Longrightarrow> dma_at (nsgl (um_sgl umem)) (unat (ib_umem_offset umem) + x) =
       Some (unat (B ! ((v + x) div 2 ^ k - v div 2 ^ k)) + (v + x) mod 2 ^ k)"
proof -
  define off where "off = unat (ib_umem_offset umem)"
  define n where "n = unat (um_length umem)"
  obtain a l r where sgl: "um_sgl umem = (a, l) # r" and al: "unat a mod 4096 = 0" "off < unat l"
    using assms(1) by (auto simp: umem_dma_ok_def off_def split: list.splits)
  have ok: "sg_ok (um_sgl umem)" "0 < n" "off + n \<le> sum_list (map snd (nsgl (um_sgl umem)))" "0 < um_length umem"
    using assms(1) by (auto simp: umem_dma_ok_def off_def n_def word_less_nat_alt)
  have off: "off < 4096" unfolding off_def by (rule ib_umem_offset_lt)
  define b where "b = rdma_umem_block_iter_start umem (2 ^ k)"
  have pm: "(2 ^ k :: u64) - 1 = mask k" using push_bit_minus_1 [of k] by simp
  have "unat (ib_umem_offset umem AND NOT (mask k)) = off div 2 ^ k * 2 ^ k" unfolding unat_and_not_mask off_def ..
  moreover have "off div 2 ^ k * 2 ^ k \<le> off" by simp
  moreover from this have "off div 2 ^ k * 2 ^ k < 2 ^ 32" by (rule le_less_trans) (use off in simp)
  ultimately have adv: "unat (bi_sg_advance b) = off div 2 ^ k * 2 ^ k" "unat (bi_sg_advance b) \<le> off"
    unfolding b_def rdma_umem_block_iter_start_def pm by (simp_all add: unat_down)
  have "bit (2 ^ k :: u64) (fls64 (2 ^ k))" using assms(2) by (intro fls_bit) (simp flip: unat_gt_0)
  then have "bi_pg_bit b = k" by (simp add: b_def rdma_umem_block_iter_start_def rdma_block_iter_start_def bit_exp_iff)
  moreover have "bi_sg b = um_sgl umem" "bi_sg_numblocks b = ib_umem_num_dma_blocks umem (2 ^ k)"
    by (simp_all add: b_def rdma_umem_block_iter_start_def rdma_block_iter_start_def)
  moreover have "bi_sg_advance b < l" using adv(2) al(2) by (simp add: word_less_nat_alt)
  ultimately have "map unat B = take (unat (ib_umem_num_dma_blocks umem (2 ^ k))) (blks (2 ^ k) (unat (bi_sg_advance b)) (nsgl (um_sgl umem)))"
    using for_each_blocks [OF assms(2), of b] ok(1) by (simp add: B_def rdma_umem_for_each_dma_block_def b_def [symmetric] sgl)
  also have "blks (2 ^ k) (unat (bi_sg_advance b)) (nsgl (um_sgl umem)) = blks (2 ^ k) off (nsgl (um_sgl umem))"
    unfolding sgl list.map map_prod_simp by (rule blks_same) (simp only: adv offset_same_block [OF al(1) off])
  finally have B: "map unat B = take (unat (ib_umem_num_dma_blocks umem (2 ^ k))) (blks (2 ^ k) off (nsgl (um_sgl umem)))" .
  have nb: "unat (ib_umem_num_dma_blocks umem (2 ^ k)) = Suc ((v + (n - 1)) div 2 ^ k - v div 2 ^ k)"
    unfolding v_def n_def using assms(2,4) ok(4) by (intro num_dma_blocks_unat) simp_all
  have "nat_chunks (2 ^ k) v off (nsgl (um_sgl umem))"
    unfolding off_def by (rule nat_chunks_of [where va = "um_iova umem"]) (use assms(2,3) ok al in \<open>simp_all add: v_def sgl off_def\<close>)
  note c = dma_at_blks [OF this, of "d" for d]
  have "off + (n - 1) < sum_list (map snd (nsgl (um_sgl umem)))" using ok(2,3) by linarith
  then have "Suc ((v + (n - 1)) div 2 ^ k - v div 2 ^ k) \<le> length (blks (2 ^ k) off (nsgl (um_sgl umem)))"
    using c [of "n - 1"] by simp
  then have len: "length (map unat B) = Suc ((v + (n - 1)) div 2 ^ k - v div 2 ^ k)" unfolding B nb by simp
  then show "length B = unat (ib_umem_num_dma_blocks umem (2 ^ k))" using nb by simp
  show "dma_at (nsgl (um_sgl umem)) (unat (ib_umem_offset umem) + x) =
       Some (unat (B ! ((v + x) div 2 ^ k - v div 2 ^ k)) + (v + x) mod 2 ^ k)" if "x < unat (um_length umem)"
  proof -
    have "off + x < sum_list (map snd (nsgl (um_sgl umem)))" using that ok(3) by (simp add: n_def)
    moreover have "(v + x) div 2 ^ k - v div 2 ^ k < Suc ((v + (n - 1)) div 2 ^ k - v div 2 ^ k)"
      using that by (simp add: n_def div_le_mono diff_le_mono less_Suc_eq_le)
    moreover from this have "unat (B ! ((v + x) div 2 ^ k - v div 2 ^ k)) = map unat B ! ((v + x) div 2 ^ k - v div 2 ^ k)"
      using len by (intro nth_map [symmetric]) simp
    moreover have "map unat B ! i = blks (2 ^ k) off (nsgl (um_sgl umem)) ! i" if "i < Suc ((v + (n - 1)) div 2 ^ k - v div 2 ^ k)" for i
      unfolding B nb using that by (rule nth_take)
    ultimately show ?thesis using c [of x] by (simp add: off_def)
  qed
qed

section \<open>Properties\<close>

text \<open>A region of 20 KB that starts 100 bytes into its first page, in two chunks.\<close>

definition umem_ex :: ib_umem where
  "umem_ex = \<lparr>um_iova = 0, um_length = 0x5000, um_address = 0x7064, um_writable = True, um_odp_shift = None, um_is_dmabuf = False,
     um_is_peer = False, um_pages = 6, um_sgl = [(0x10007000, 0x1000), (0x20000000, 0x5000)]\<rparr>"

lemma umem_ex_pgsz: "ib_umem_find_best_pgsz umem_ex 0xFFFFF000 0x7064 = (Some 0x8000, umem_ex\<lparr>um_iova := 0x7064\<rparr>)"
  by code_simp

lemma umem_ex_blocks: "rdma_umem_for_each_dma_block (umem_ex\<lparr>um_iova := 0x7064\<rparr>) 0x8000 = [0x10000000, 0x20000000]"
  by code_simp

lemma umem_ex_ok: "umem_dma_ok umem_ex"
  by (simp add: umem_ex_def umem_dma_ok_def sg_ok_def ib_umem_offset_def PAGE_SIZE_def)

text \<open>
  C6. The page size. For a region that is not served on demand, the routine that walks the scatter-gather
  list with masks returns the largest page size that a direct search over all 64 sizes finds: supported by the
  device, not larger than needed to hold the changing bits of the region, and such that bus address and
  virtual address agree in the offset within a page over the whole list; 0 when there is none. The search leaves
  the region as it was, except that it records the virtual address.\<close>
theorem find_best_pgsz_is_best:
  assumes "um_odp_shift umem = None" "changing_bits umem virt \<noteq> 64"
  shows "ib_umem_find_best_pgsz umem pgsz_bitmap virt = (Some (best_pgsz umem pgsz_bitmap virt), umem\<lparr>um_iova := virt\<rparr>)"
proof -
  have "snd (ib_umem_find_best_pgsz umem pgsz_bitmap virt) = umem\<lparr>um_iova := virt\<rparr>"
    using assms(1) by (simp add: ib_umem_find_best_pgsz_def Let_def)
  then show ?thesis using find_best_ok [OF assms] by (simp add: prod_eq_iff)
qed

theorem find_best_pgsz_is_best_witness: "best_pgsz umem_ex 0xFFFFF000 0x7064 = 0x8000"
proof -
  have "um_odp_shift umem_ex = None" by (simp add: umem_ex_def)
  moreover have "changing_bits umem_ex 0x7064 \<noteq> 64" by code_simp
  ultimately show ?thesis using find_best_pgsz_is_best [of umem_ex "0x7064" "0xFFFFF000"] unfolding umem_ex_pgsz by simp
qed

text \<open>
  C5. The block list. When the routine returns a page size, and the list describes the whole region from
  a page boundary on, the loop over the blocks runs exactly \<open>ib_umem_num_dma_blocks\<close> times, and the block with the
  number of a byte's virtual page holds, at the byte's offset in its page, the byte's bus address. This is for page sizes
  below 4 GiB and for regions that do not reach the end of the address space.\<close>
theorem umem_blocks_cover:
  assumes "ib_umem_find_best_pgsz umem pgsz_bitmap virt = (Some pgsz, umem')" "pgsz \<noteq> 0" "um_odp_shift umem = None"
    "unat pgsz_bitmap < 2 ^ 32" "umem_dma_ok umem" "unat virt + unat (um_length umem) + unat pgsz \<le> 2 ^ 64"
  shows "length (rdma_umem_for_each_dma_block umem' pgsz) = unat (ib_umem_num_dma_blocks umem' pgsz) \<and>
    (\<forall>x<unat (um_length umem). dma_at (nsgl (um_sgl umem)) (unat (ib_umem_offset umem) + x) =
       Some (unat (rdma_umem_for_each_dma_block umem' pgsz ! ((unat virt + x) div unat pgsz - unat virt div unat pgsz)) +
         (unat virt + x) mod unat pgsz))"
proof -
  have u': "umem' = umem\<lparr>um_iova := virt\<rparr>" "changing_bits umem virt \<noteq> 64"
    using assms(1,3) by (auto simp: ib_umem_find_best_pgsz_def Let_def changing_bits_def split: if_splits)
  then have "pgsz = best_pgsz umem pgsz_bitmap virt" using find_best_ok [OF assms(3), of virt pgsz_bitmap] assms(1) by simp
  then obtain k where k: "pgsz = 2 ^ k" "k < 64" "pgsz_usable umem pgsz_bitmap virt k" using assms(2) best_pgsz_usable by metis
  have "bit (unat pgsz_bitmap) k" using k(3) by (simp add: pgsz_usable_def bit_unsigned_iff)
  then have "k < 32" using assms(4) by (metis bit_take_bit_iff take_bit_nat_eq_self)
  moreover have "unat pgsz = 2 ^ k" using unat_push_bit_1 [OF k(2)] k(1) by simp
  moreover have "umem_dma_ok umem'" "um_iova umem' = virt" "chunks_ok k (um_iova umem') (ib_umem_offset umem') (um_sgl umem')"
    "um_sgl umem' = um_sgl umem" "um_length umem' = um_length umem" "ib_umem_offset umem' = ib_umem_offset umem"
    using assms(5) k(3) by (simp_all add: u' umem_dma_ok_def pgsz_usable_def ib_umem_offset_def cong: list.case_cong)
  ultimately show ?thesis using umem_blocks_cover_aux [of umem' k] assms(6) k(1) by simp
qed

theorem umem_blocks_cover_witness: "dma_at (nsgl (um_sgl umem_ex)) (unat (ib_umem_offset umem_ex) + 0x1000) = Some 0x20000064"
proof -
  have "unat (0xFFFFF000 :: u64) < 2 ^ 32" "(0x8000 :: u64) \<noteq> 0" "um_odp_shift umem_ex = None" "um_length umem_ex = 0x5000"
    "unat (0x7064 :: u64) + unat (um_length umem_ex) + unat (0x8000 :: u64) \<le> 2 ^ 64"
    by (simp_all add: umem_ex_def)
  note h = this
  show ?thesis using umem_blocks_cover [OF umem_ex_pgsz h(2,3,1) umem_ex_ok h(5)] h(4) by (simp add: umem_ex_blocks)
qed

end
