(* ===== verification/Umem_Pin.thy ===== *)
theory Umem_Pin
  imports Umem
begin

text \<open>
  Pinning and releasing user memory (\<open>drivers/infiniband/core/umem.c\<close>), and the page offsets of the mlx5
  driver (\<open>drivers/infiniband/hw/mlx5/mem.c\<close>, \<open>mlx5_ib.h\<close>).

  Correspondence.
  \<^item> What the routines change of the process and the kernel is a record: the count of pinned pages that the process is
    charged for, the references to its address space, the pages held by \<open>pin_user_pages_fast\<close>, the live
    allocations and the tables mapped for the device.
  \<^item> The kernel's answers (allocations, limits, pinning, growing the table, mapping) are the fields of
    \<open>umem_kernel\<close>. A loop that would ask for the same pages forever, because \<open>pin_user_pages_fast\<close> pinned none, and an
    answer with more pages than were asked for, have the value \<open>None\<close>.
  \<^item> Growing the table adds all the pages or, when it fails, none.
  \<^item> The clients for peer memory are an argument of \<open>__ib_umem_get\<close> (here \<open>umem_get_flags\<close>).
\<close>

section \<open>Pinning\<close>

record umem_mm =
  mm_pinned_vm :: u64
  mm_refs :: nat
  mm_gup :: nat
  mm_kmem :: nat
  mm_dma :: nat

record umem_kernel =
  can_do_mlock :: bool
  kzalloc_ok :: bool
  get_free_page_ok :: bool
  rlimit_memlock :: u64
  capable_ipc_lock :: bool
  pin_user_pages_fast :: "u64 \<Rightarrow> u64 \<Rightarrow> bool \<Rightarrow> int"
  sg_append_from_pages :: "u64 \<Rightarrow> nat \<Rightarrow> errno option"
  dma_map_sgtable :: "nat \<Rightarrow> bool \<Rightarrow> errno + sg list"

definition IB_ACCESS_ON_DEMAND :: u32 where "IB_ACCESS_ON_DEMAND = 0x40"
definition IB_ACCESS_RELAXED_ORDERING :: u32 where "IB_ACCESS_RELAXED_ORDERING = 0x100000"
definition IB_PEER_MEM_ALLOW :: u64 where "IB_PEER_MEM_ALLOW = 1"

definition ib_access_writable :: "u32 \<Rightarrow> bool" where
  "ib_access_writable access \<longleftrightarrow> access AND (0x1 OR 0x2 OR 0x8 OR 0x10) \<noteq> 0"

definition PAGE_ALIGN :: "u64 \<Rightarrow> u64" where "PAGE_ALIGN x = ALIGN x PAGE_SIZE"

text \<open>\<open>__ib_umem_release\<close>: a clean release happens before the table is mapped.\<close>

definition umem_unpin :: "ib_umem \<Rightarrow> bool \<Rightarrow> umem_mm \<Rightarrow> umem_mm" where
  "umem_unpin umem dirty w = w\<lparr>mm_dma := (if dirty then mm_dma w - 1 else mm_dma w), mm_gup := mm_gup w - um_pages umem\<rparr>"

lemma unat_sub_pinned:
  assumes "\<not> pinned < 0" "\<not> (pinned = 0 \<or> int (unat (min n 512 :: u64)) < pinned)"
  shows "unat (n - of_int pinned :: u64) = unat n - nat pinned" "0 < nat pinned" "nat pinned \<le> unat n"
proof -
  have "unat (min n 512 :: u64) \<le> unat n" by (simp add: word_le_nat_alt [symmetric])
  then show le: "nat pinned \<le> unat n" and "0 < nat pinned" using assms by linarith+
  have "unat (of_nat (nat pinned) :: u64) = nat pinned"
    using le unsigned_less [of n, where 'a = nat] by (simp add: unat_of_nat)
  then have "unat (of_int pinned :: u64) = nat pinned" using assms(1) by simp
  then show "unat (n - of_int pinned) = unat n - nat pinned" using le by (simp add: unat_sub word_le_nat_alt)
qed

text \<open>A page of pointers holds 512 of them.\<close>

function pin_loop :: "umem_kernel \<Rightarrow> u64 \<Rightarrow> u64 \<Rightarrow> ib_umem \<Rightarrow> umem_mm \<Rightarrow> (errno option \<times> ib_umem \<times> umem_mm) option" where
  "pin_loop k cur_base npages umem w =
     (if npages = 0 then Some (None, umem, w)
      else let pinned = pin_user_pages_fast k cur_base (min npages 512) (um_writable umem) in
        if pinned < 0 then Some (Some (EFW (- pinned)), umem, w)
        else if pinned = 0 \<or> int (unat (min npages 512)) < pinned then None
        else let w = w\<lparr>mm_gup := mm_gup w + nat pinned\<rparr> in
          case sg_append_from_pages k cur_base (nat pinned) of
            Some e \<Rightarrow> Some (Some e, umem, w\<lparr>mm_gup := mm_gup w - nat pinned\<rparr>)
          | None \<Rightarrow> pin_loop k (cur_base + of_int pinned * PAGE_SIZE) (npages - of_int pinned)
              (umem\<lparr>um_pages := um_pages umem + nat pinned\<rparr>) w)"
  by pat_completeness auto
termination
proof (relation "measure (\<lambda>(k, c, n, u, w). unat n)", goal_cases)
  case (2 k c n umem w x xa)
  note h = unat_sub_pinned [OF 2(3,4)]
  have "unat (n - of_int x) < unat n" using h by linarith
  then show ?case by simp
qed simp

declare pin_loop.simps [simp del]

text \<open>\<open>__ib_umem_get\<close>. The labels of the function are the nested definitions: \<open>umem_release\<close> gives the pages back and asks
  the peers, \<open>out\<close> frees the page of pointers, \<open>umem_kfree\<close> frees the region.\<close>

definition umem_get_out :: "errno option \<Rightarrow> ib_umem \<Rightarrow> umem_mm \<Rightarrow> (errno + ib_umem) \<times> umem_mm" where
  "umem_get_out ret umem w =
     (let w = w\<lparr>mm_kmem := mm_kmem w - 1\<rparr> in
      case ret of
        None \<Rightarrow> (Inr umem, w)
      | Some e \<Rightarrow> (Inl e, w\<lparr>mm_refs := mm_refs w - 1, mm_kmem := mm_kmem w - 1\<rparr>))"

definition umem_get_release ::
  "(ib_umem \<Rightarrow> errno \<Rightarrow> u64 \<Rightarrow> errno + ib_umem) \<Rightarrow> u64 \<Rightarrow> errno \<Rightarrow> ib_umem \<Rightarrow> umem_mm \<Rightarrow> (errno + ib_umem) \<times> umem_mm" where
  "umem_get_release peer peer_mem_flags ret umem w =
     (let w = umem_unpin umem False w;
          vma = (\<lambda>ret. umem_get_out (Some ret) umem (w\<lparr>mm_pinned_vm := mm_pinned_vm w - ib_umem_num_pages umem\<rparr>))
      in if peer_mem_flags AND IB_PEER_MEM_ALLOW \<noteq> 0
         then (case peer umem ret peer_mem_flags of
             Inl e \<Rightarrow> vma e
           | Inr new_umem \<Rightarrow> umem_get_out None new_umem w)
         else vma ret)"

definition umem_get_flags ::
  "umem_kernel \<Rightarrow> (ib_umem \<Rightarrow> errno \<Rightarrow> u64 \<Rightarrow> errno + ib_umem) \<Rightarrow> u64 \<Rightarrow> u64 \<Rightarrow> u32 \<Rightarrow> u64 \<Rightarrow> umem_mm \<Rightarrow>
     ((errno + ib_umem) \<times> umem_mm) option" where
  "umem_get_flags k peer addr sz access peer_mem_flags w =
     (if addr + sz < addr \<or> PAGE_ALIGN (addr + sz) < addr + sz then Some (Inl EINVAL, w)
      else if \<not> can_do_mlock k then Some (Inl (EFW 1), w)  \<comment> \<open>\<open>-EPERM\<close>\<close>
      else if access AND IB_ACCESS_ON_DEMAND \<noteq> 0 then Some (Inl EOPNOTSUPP, w)
      else if \<not> kzalloc_ok k then Some (Inl ENOMEM, w)
      else let umem = \<lparr>um_iova = addr, um_length = sz, um_address = addr, um_writable = ib_access_writable access,
                 um_odp_shift = None, um_is_dmabuf = False, um_is_peer = False, um_pages = 0, um_sgl = []\<rparr>;
               w = w\<lparr>mm_kmem := mm_kmem w + 1, mm_refs := mm_refs w + 1\<rparr>
        in if \<not> get_free_page_ok k then Some (Inl ENOMEM, w\<lparr>mm_refs := mm_refs w - 1, mm_kmem := mm_kmem w - 1\<rparr>)
           else let w = w\<lparr>mm_kmem := mm_kmem w + 1\<rparr>;
                    npages = ib_umem_num_pages umem
             in if npages = 0 \<or> npages > 0xFFFFFFFF then Some (umem_get_out (Some EINVAL) umem w)
                else let lock_limit = drop_bit 12 (rlimit_memlock k);
                         new_pinned = mm_pinned_vm w + npages;
                         w = w\<lparr>mm_pinned_vm := new_pinned\<rparr>
                  in if new_pinned > lock_limit \<and> \<not> capable_ipc_lock k
                     then Some (umem_get_out (Some ENOMEM) umem (w\<lparr>mm_pinned_vm := mm_pinned_vm w - npages\<rparr>))
                     else (case pin_loop k (addr AND NOT (PAGE_SIZE - 1)) npages umem w of
                         None \<Rightarrow> None
                       | Some (Some ret, umem, w) \<Rightarrow> Some (umem_get_release peer peer_mem_flags ret umem w)
                       | Some (None, umem, w) \<Rightarrow>
                           (case dma_map_sgtable k (um_pages umem) (access AND IB_ACCESS_RELAXED_ORDERING \<noteq> 0) of
                              Inl ret \<Rightarrow> Some (umem_get_release peer peer_mem_flags ret umem w)
                            | Inr sgl \<Rightarrow> Some (umem_get_out None (umem\<lparr>um_sgl := sgl\<rparr>) (w\<lparr>mm_dma := mm_dma w + 1\<rparr>)))))"

definition ib_umem_get :: "umem_kernel \<Rightarrow> u64 \<Rightarrow> u64 \<Rightarrow> u32 \<Rightarrow> umem_mm \<Rightarrow> ((errno + ib_umem) \<times> umem_mm) option" where
  "ib_umem_get k addr sz access w = umem_get_flags k (\<lambda>_ e _. Inl e) addr sz access 0 w"

definition ib_umem_get_peer ::
  "umem_kernel \<Rightarrow> (ib_umem \<Rightarrow> errno \<Rightarrow> u64 \<Rightarrow> errno + ib_umem) \<Rightarrow> u64 \<Rightarrow> u64 \<Rightarrow> u32 \<Rightarrow> u64 \<Rightarrow> umem_mm \<Rightarrow>
     ((errno + ib_umem) \<times> umem_mm) option" where
  "ib_umem_get_peer k peer addr sz access peer_mem_flags w =
     umem_get_flags k peer addr sz access (IB_PEER_MEM_ALLOW OR peer_mem_flags) w"

text \<open>The regions of the other kinds are released by the functions of those kinds, the argument \<open>rel\<close>.\<close>

definition ib_umem_release :: "(ib_umem \<Rightarrow> umem_mm \<Rightarrow> umem_mm) \<Rightarrow> ib_umem option \<Rightarrow> umem_mm \<Rightarrow> umem_mm" where
  "ib_umem_release rel umem w =
     (case umem of
        None \<Rightarrow> w
      | Some umem \<Rightarrow>
          if um_is_dmabuf umem \<or> um_odp_shift umem \<noteq> None \<or> um_is_peer umem then rel umem w
          else let w = umem_unpin umem True w;
                   w = w\<lparr>mm_pinned_vm := mm_pinned_vm w - ib_umem_num_pages umem\<rparr>
            in w\<lparr>mm_refs := mm_refs w - 1, mm_kmem := mm_kmem w - 1\<rparr>)"

text \<open>\<open>sg_pcopy_to_buffer\<close> is the argument; its result goes through an \<open>int\<close>.\<close>

definition ib_umem_copy_from :: "(sg list \<Rightarrow> u64 \<Rightarrow> u64 \<Rightarrow> u64) \<Rightarrow> ib_umem \<Rightarrow> u64 \<Rightarrow> u64 \<Rightarrow> errno option" where
  "ib_umem_copy_from sg_pcopy_to_buffer umem offset len =
     (if offset > um_length umem \<or> len > um_length umem - offset then Some EINVAL
      else let ret = (ucast (sg_pcopy_to_buffer (um_sgl umem) len (offset + ib_umem_offset umem)) :: u32)
        in if ret <s 0 then Some (EFW (- sint ret))
           else if scast ret \<noteq> len then Some EINVAL
           else None)"

section \<open>Page offsets\<close>

definition ib_umem_dma_offset :: "ib_umem \<Rightarrow> u64 \<Rightarrow> u64" where
  "ib_umem_dma_offset umem pgsz = (fst (hd (um_sgl umem)) + ib_umem_offset umem) AND (pgsz - 1)"

abbreviation umem_dma_addr :: "ib_umem \<Rightarrow> u64" where
  "umem_dma_addr umem \<equiv> fst (hd (um_sgl umem)) + ib_umem_offset umem"

definition ib_umem_find_best_pgoff :: "ib_umem \<Rightarrow> u64 \<Rightarrow> u64 \<Rightarrow> u64 option \<times> ib_umem" where
  "ib_umem_find_best_pgoff umem pgsz_bitmap pgoff_bitmask =
     (let dma_addr = fst (hd (um_sgl umem)) + (um_address umem AND (PAGE_SIZE - 1))
      in ib_umem_find_best_pgsz umem pgsz_bitmap (dma_addr AND pgoff_bitmask))"

definition mlx5_log_page_size_to_bitmap :: "nat \<Rightarrow> nat \<Rightarrow> u64" where
  "mlx5_log_page_size_to_bitmap log_pgsz_bits pgsz_shift =
     (let largest_pg_shift = min (2 ^ log_pgsz_bits - 1 + pgsz_shift) 63;
          pgsz_shift = max 12 pgsz_shift
      in genmask largest_pg_shift pgsz_shift)"

text \<open>The loop that halves the page size; at the page size 0 it would not end.\<close>

function quantize :: "ib_umem \<Rightarrow> u64 \<Rightarrow> u64 \<Rightarrow> u64 \<Rightarrow> u64 \<Rightarrow> (u64 \<times> u64) option" where
  "quantize umem page_offset_mask scale page_size page_offset =
     (if page_offset AND NOT (page_offset_mask * (page_size div scale)) = 0 then Some (page_size, page_offset)
      else if page_size = 0 then None
      else quantize umem page_offset_mask scale (page_size div 2) (ib_umem_dma_offset umem (page_size div 2)))"
  by pat_completeness auto
termination
  by (relation "measure (\<lambda>(u, m, s, p, x). unat p)") (auto simp: unat_div unat_gt_0)

declare quantize.simps [simp del]

text \<open>The result is the page size and the quantised offset; \<open>None\<close> when the loop does not end, a shift is undefined or a
  division is by zero.\<close>

definition mlx5_umem_find_best_quantized_pgoff ::
  "ib_umem \<Rightarrow> u64 \<Rightarrow> nat \<Rightarrow> u64 \<Rightarrow> u64 \<Rightarrow> ((u64 \<times> u64) option \<times> ib_umem) option" where
  "mlx5_umem_find_best_quantized_pgoff umem pgsz_bitmap page_offset_bits pgoff_bitmask scale =
     (let page_offset_mask = push_bit page_offset_bits 1 - 1 in
      case ib_umem_find_best_pgoff umem pgsz_bitmap pgoff_bitmask of
        (None, umem) \<Rightarrow> None
      | (Some page_size, umem) \<Rightarrow>
          if page_size = 0 then Some (None, umem)
          else (case quantize umem page_offset_mask scale page_size (ib_umem_dma_offset umem page_size) of
              None \<Rightarrow> None
            | Some (page_size, page_offset) \<Rightarrow>
                if pgsz_bitmap AND page_size = 0 then Some (None, umem)
                else if page_size div scale = 0 then None
                else let q = ucast (ucast (page_offset div (page_size div scale)) :: u32)
                  in if q > page_offset_mask then Some (None, umem) else Some (Some (page_size, q), umem)))"

text \<open>\<open>mlx5_ib_populate_pas\<close>: the words stored, in the order of the device.\<close>

definition mlx5_ib_populate_pas :: "ib_umem \<Rightarrow> u64 \<Rightarrow> u64 \<Rightarrow> u64 list" where
  "mlx5_ib_populate_pas umem page_size access_flags =
     map (\<lambda>a. a OR access_flags) (rdma_umem_for_each_dma_block umem page_size)"

section \<open>Lemmas on pinning\<close>

lemma pin_loop_result:
  "pin_loop k c n umem w = Some (r, umem', w') \<Longrightarrow>
   \<exists>m. umem' = umem\<lparr>um_pages := um_pages umem + m\<rparr> \<and> w' = w\<lparr>mm_gup := mm_gup w + m\<rparr> \<and> (r = None \<longrightarrow> m = unat n)"
proof (induction k c n umem w arbitrary: umem' w' rule: pin_loop.induct)
  case (1 k c n umem w)
  define p where "p = pin_user_pages_fast k c (min n 512) (um_writable umem)"
  define u1 where "u1 = umem\<lparr>um_pages := um_pages umem + nat p\<rparr>"
  define w1 where "w1 = w\<lparr>mm_gup := mm_gup w + nat p\<rparr>"
  show ?case
  proof (cases "n = 0 \<or> p < 0")
    case True
    then show ?thesis using "1.prems" by (subst (asm) pin_loop.simps) (auto simp: p_def Let_def split: if_splits intro!: exI [of _ 0])
  next
    case False
    then have ok: "\<not> p < 0" "\<not> (p = 0 \<or> int (unat (min n 512)) < p)"
      using "1.prems" by (subst (asm) pin_loop.simps, auto simp: p_def Let_def split: if_splits)+
    note m = unat_sub_pinned [OF ok]
    show ?thesis
    proof (cases "sg_append_from_pages k c (nat p)")
      case (Some e)
      then show ?thesis using "1.prems" False ok
        by (subst (asm) pin_loop.simps) (auto simp: p_def [symmetric] Let_def split: if_splits intro!: exI [of _ 0])
    next
      case None
      then have "pin_loop k (c + of_int p * PAGE_SIZE) (n - of_int p) u1 w1 = Some (r, umem', w')"
        using "1.prems" False ok by (subst (asm) pin_loop.simps) (auto simp: p_def [symmetric] u1_def w1_def Let_def)
      from "1.IH" [OF _ p_def _ _ w1_def _ this [unfolded u1_def]] False ok None
      obtain q where "umem' = u1\<lparr>um_pages := um_pages u1 + q\<rparr>" "w' = w1\<lparr>mm_gup := mm_gup w1 + q\<rparr>"
        "r = None \<longrightarrow> q = unat n - nat p" using m(1) unfolding u1_def by auto
      then show ?thesis using m(3) by (intro exI [of _ "nat p + q"]) (auto simp: u1_def w1_def)
    qed
  qed
qed

definition pin_contract :: "umem_kernel \<Rightarrow> bool" where
  "pin_contract k \<longleftrightarrow> (\<forall>c n wr. 0 < n \<longrightarrow> pin_user_pages_fast k c n wr < 0 \<or>
     1 \<le> pin_user_pages_fast k c n wr \<and> pin_user_pages_fast k c n wr \<le> int (unat n))"

lemma pin_loop_returns: "pin_contract k \<Longrightarrow> \<exists>r. pin_loop k c n umem w = Some r"
proof (induction k c n umem w rule: pin_loop.induct)
  case (1 k c n umem w)
  define p where "p = pin_user_pages_fast k c (min n 512) (um_writable umem)"
  show ?case
  proof (cases "n = 0 \<or> p < 0")
    case False
    then have "0 < min n 512" by (auto simp: word_gt_0 min_def)
    then have ok: "\<not> (p = 0 \<or> int (unat (min n 512)) < p)"
      using "1.prems" False unfolding pin_contract_def p_def by fastforce
    show ?thesis using "1.IH" [OF _ p_def _ ok refl] "1.prems" False ok
      by (subst pin_loop.simps) (auto simp: p_def [symmetric] Let_def split: option.split)
  qed (subst pin_loop.simps, auto simp: p_def Let_def)
qed

text \<open>What a successful call leaves behind, of the two kinds of regions.\<close>

definition umem_charged :: "umem_kernel \<Rightarrow> ib_umem \<Rightarrow> umem_mm \<Rightarrow> umem_mm \<Rightarrow> bool" where
  "umem_charged k umem w w' \<longleftrightarrow>
     w' = w\<lparr>mm_pinned_vm := mm_pinned_vm w + ib_umem_num_pages umem, mm_refs := mm_refs w + 1, mm_gup := mm_gup w + um_pages umem,
       mm_kmem := mm_kmem w + 1, mm_dma := mm_dma w + 1\<rparr> \<and>
     um_pages umem = unat (ib_umem_num_pages umem) \<and> 0 < um_pages umem \<and> um_odp_shift umem = None \<and>
     \<not> um_is_dmabuf umem \<and> \<not> um_is_peer umem \<and> um_iova umem = um_address umem \<and>
     (capable_ipc_lock k \<or> mm_pinned_vm w' \<le> drop_bit 12 (rlimit_memlock k))"

lemma num_pages_upd [simp]:
  "ib_umem_num_pages (umem\<lparr>um_pages := m\<rparr>) = ib_umem_num_pages umem"
  "ib_umem_num_pages (umem\<lparr>um_sgl := sgl\<rparr>) = ib_umem_num_pages umem"
  by (simp_all add: ib_umem_num_pages_def ib_umem_num_dma_blocks_def)

lemma umem_get_release_result:
  fixes w :: umem_mm
  assumes "w1 = w\<lparr>mm_kmem := mm_kmem w + 2, mm_refs := mm_refs w + 1, mm_pinned_vm := mm_pinned_vm w + ib_umem_num_pages umem, mm_gup := mm_gup w + um_pages umem\<rparr>"
  shows "umem_get_release peer fl e umem w1 =
    (case (if fl AND IB_PEER_MEM_ALLOW \<noteq> 0 then peer umem e fl else Inl e) of
       Inl e' \<Rightarrow> (Inl e', w)
     | Inr u \<Rightarrow> (Inr u, w\<lparr>mm_kmem := mm_kmem w + 1, mm_refs := mm_refs w + 1, mm_pinned_vm := mm_pinned_vm w + ib_umem_num_pages umem\<rparr>))"
  unfolding assms by (cases w) (auto simp: umem_get_release_def umem_get_out_def umem_unpin_def Let_def split: sum.split)

lemma umem_get_flags_cases:
  assumes "pin_contract k"
  obtains (err) e where "umem_get_flags k peer addr sz access fl w = Some (Inl e, w)"
  | (ok) umem w' where "umem_get_flags k peer addr sz access fl w = Some (Inr umem, w')" "umem_charged k umem w w'"
      "um_address umem = addr" "um_length umem = sz" "unat addr + unat sz < 2 ^ 64"
  | (peer) umem e u where "umem_get_flags k peer addr sz access fl w =
        Some (Inr u, w\<lparr>mm_kmem := mm_kmem w + 1, mm_refs := mm_refs w + 1, mm_pinned_vm := mm_pinned_vm w + ib_umem_num_pages umem\<rparr>)"
      "fl AND IB_PEER_MEM_ALLOW \<noteq> 0" "peer umem e fl = Inr u" "um_address umem = addr" "um_iova umem = addr" "um_length umem = sz"
proof -
  define umem where "umem = \<lparr>um_iova = addr, um_length = sz, um_address = addr, um_writable = ib_access_writable access,
    um_odp_shift = None, um_is_dmabuf = False, um_is_peer = False, um_pages = 0, um_sgl = []\<rparr>"
  define n where "n = ib_umem_num_pages umem"
  define w1 where "w1 = w\<lparr>mm_kmem := mm_kmem w + 2, mm_refs := mm_refs w + 1, mm_pinned_vm := mm_pinned_vm w + n\<rparr>"
  define early where "early \<longleftrightarrow> (addr + sz < addr \<or> PAGE_ALIGN (addr + sz) < addr + sz) \<or> \<not> can_do_mlock k \<or> access AND IB_ACCESS_ON_DEMAND \<noteq> 0 \<or>
    \<not> kzalloc_ok k \<or> \<not> get_free_page_ok k \<or> n = 0 \<or> n > 0xFFFFFFFF \<or> mm_pinned_vm w + n > drop_bit 12 (rlimit_memlock k) \<and> \<not> capable_ipc_lock k"
  show thesis
  proof (cases early)
    case True
    then have "\<exists>e. umem_get_flags k peer addr sz access fl w = Some (Inl e, w)"
      unfolding early_def umem_get_flags_def Let_def umem_def [symmetric] n_def [symmetric]
      by (cases w) (auto simp: umem_get_out_def)
    then show thesis using err by blast
  next
    case False
    obtain r umem1 w2 where p: "pin_loop k (addr AND NOT (PAGE_SIZE - 1)) n umem w1 = Some (r, umem1, w2)"
      using pin_loop_returns [OF assms] by (metis prod_cases3)
    from pin_loop_result [OF p] obtain m where
      m: "umem1 = umem\<lparr>um_pages := m\<rparr>" "w2 = w1\<lparr>mm_gup := mm_gup w1 + m\<rparr>" "r = None \<longrightarrow> m = unat n"
      by (auto simp: umem_def)
    have w1': "w\<lparr>mm_refs := Suc (mm_refs w), mm_kmem := Suc (Suc (mm_kmem w)), mm_pinned_vm := mm_pinned_vm w + n\<rparr> = w1"
      by (simp add: w1_def)
    have g: "umem_get_flags k peer addr sz access fl w =
      (case r of Some e \<Rightarrow> Some (umem_get_release peer fl e umem1 w2)
       | None \<Rightarrow> (case dma_map_sgtable k (um_pages umem1) (access AND IB_ACCESS_RELAXED_ORDERING \<noteq> 0) of
                    Inl e \<Rightarrow> Some (umem_get_release peer fl e umem1 w2)
                  | Inr sgl \<Rightarrow> Some (umem_get_out None (umem1\<lparr>um_sgl := sgl\<rparr>) (w2\<lparr>mm_dma := mm_dma w2 + 1\<rparr>))))"
    proof -
      have "\<not> (mm_pinned_vm w + n > drop_bit 12 (rlimit_memlock k) \<and> \<not> capable_ipc_lock k)" using False by (auto simp: early_def)
      then show ?thesis using False p unfolding early_def umem_get_flags_def Let_def umem_def [symmetric] n_def [symmetric]
        by (cases r) (auto simp: w1' simp del: not_less)
    qed
    have w2: "w2 = w\<lparr>mm_kmem := mm_kmem w + 2, mm_refs := mm_refs w + 1,
        mm_pinned_vm := mm_pinned_vm w + ib_umem_num_pages umem1, mm_gup := mm_gup w + um_pages umem1\<rparr>"
      by (simp add: m w1_def n_def)
    have fld: "um_address umem1 = addr" "um_iova umem1 = addr" "um_length umem1 = sz" by (simp_all add: m umem_def)
    have kind: "um_odp_shift umem1 = None" "\<not> um_is_dmabuf umem1" "\<not> um_is_peer umem1" by (simp_all add: m umem_def)
    have np: "ib_umem_num_pages umem1 = n" "r = None \<longrightarrow> um_pages umem1 = unat n" using m(3) by (simp_all add: m(1) n_def)
    have rel: thesis if "umem_get_flags k peer addr sz access fl w = Some (umem_get_release peer fl e umem1 w2)" for e
    proof (cases "if fl AND IB_PEER_MEM_ALLOW \<noteq> 0 then peer umem1 e fl else Inl e")
      case (Inl e')
      then show ?thesis using that err unfolding umem_get_release_result [OF w2] by simp
    next
      case (Inr u)
      then have "fl AND IB_PEER_MEM_ALLOW \<noteq> 0" "peer umem1 e fl = Inr u" by (simp_all split: if_splits)
      then show ?thesis using peer that Inr fld unfolding umem_get_release_result [OF w2] by simp
    qed
    show thesis
    proof (cases "r = None \<and> (\<exists>sgl. dma_map_sgtable k (um_pages umem1) (access AND IB_ACCESS_RELAXED_ORDERING \<noteq> 0) = Inr sgl)")
      case True
      then obtain sgl where "umem_get_flags k peer addr sz access fl w =
          Some (umem_get_out None (umem1\<lparr>um_sgl := sgl\<rparr>) (w2\<lparr>mm_dma := mm_dma w2 + 1\<rparr>))" using g by auto
      then have "umem_get_flags k peer addr sz access fl w = Some (Inr (umem1\<lparr>um_sgl := sgl\<rparr>), w2\<lparr>mm_kmem := mm_kmem w + 1, mm_dma := mm_dma w + 1\<rparr>)"
        by (simp add: umem_get_out_def w2)
      moreover have "umem_charged k (umem1\<lparr>um_sgl := sgl\<rparr>) w (w2\<lparr>mm_kmem := mm_kmem w + 1, mm_dma := mm_dma w + 1\<rparr>)"
        unfolding umem_charged_def using False True kind np by (auto simp: w2 fld early_def unat_gt_0 not_less)
      moreover have "unat addr + unat sz < 2 ^ 64"
      proof -
        have "addr \<le> addr + sz" using False by (auto simp: early_def not_less)
        then show ?thesis using unat_plus_simple [of addr sz] unsigned_less [of "addr + sz", where 'a = nat] by simp
      qed
      ultimately show thesis using ok fld by simp
    next
      case False
      then show thesis using g rel by (auto split: option.splits sum.splits)
    qed
  qed
qed

lemma umem_release_charged:
  assumes "umem_charged k umem w w'"
  shows "ib_umem_release rel (Some (umem\<lparr>um_iova := v\<rparr>)) w' =
    w\<lparr>mm_pinned_vm := mm_pinned_vm w + ib_umem_num_pages umem - ib_umem_num_pages (umem\<lparr>um_iova := v\<rparr>)\<rparr>"
  using assms by (cases w) (simp add: umem_charged_def ib_umem_release_def umem_unpin_def Let_def)

section \<open>Page offsets: lemmas\<close>

lemma PAGE_SIZE_mask: "PAGE_SIZE - 1 = mask 12"
  by (simp add: PAGE_SIZE_def mask_eq_exp_minus_1)

lemma take_bit_12: "take_bit 12 (x :: u64) = take_bit 12 y \<longleftrightarrow> unat x mod 4096 = unat y mod 4096"
  "take_bit 12 x = 0 \<longleftrightarrow> unat x mod 4096 = 0"
  using take_bit_eq_unat [of 12 x y] take_bit_eq_unat [of 12 x 0] by simp_all

lemma take_bit_12_add: "unat (x + y :: u64) mod 4096 = (unat x + unat y) mod 4096"
  using unat_add_mod [of 12 x y] by simp

lemma take_bit_add_0: "take_bit 12 (d :: u64) = 0 \<Longrightarrow> take_bit 12 (x + d) = take_bit 12 x"
  unfolding take_bit_12 take_bit_12_add by (metis add.right_neutral mod_add_right_eq)

text \<open>The pages of a region do not change when it moves by whole pages.\<close>

lemma num_pages_shift:
  assumes "take_bit 12 v = take_bit 12 (um_iova umem)"
  shows "ib_umem_num_pages (umem\<lparr>um_iova := v\<rparr>) = ib_umem_num_pages umem"
proof -
  define d where "d = v - um_iova umem"
  have v: "v = um_iova umem + d" by (simp add: d_def)
  have d0: "take_bit 12 d = 0" using assms mod_eq_dvd_iff_nat [of "unat (um_iova umem)" "unat (um_iova umem) + unat d" 4096]
    unfolding v take_bit_12 take_bit_12_add by (simp add: mod_eq_0_iff_dvd)
  have sh: "(x + d) AND NOT (mask 12) = (x AND NOT (mask 12)) + d" for x
    unfolding and_not_mask_minus take_bit_add_0 [OF d0] by simp
  have "ALIGN (v + um_length umem) PAGE_SIZE = ALIGN (um_iova umem + um_length umem) PAGE_SIZE + d"
    using sh [of "um_iova umem + um_length umem + mask 12"] by (simp add: ALIGN_def PAGE_SIZE_mask v ac_simps)
  moreover have "ALIGN_DOWN v PAGE_SIZE = ALIGN_DOWN (um_iova umem) PAGE_SIZE + d"
    using sh [of "um_iova umem"] by (simp add: ALIGN_DOWN_def PAGE_SIZE_mask v)
  ultimately show ?thesis by (simp add: ib_umem_num_pages_def ib_umem_num_dma_blocks_def)
qed

lemma pgsz_keeps_offset:
  assumes "pgsz_usable umem bm virt k" "take_bit 12 bm = 0" "um_sgl umem \<noteq> []" "take_bit 12 (fst (hd (um_sgl umem))) = 0"
  shows "take_bit 12 virt = take_bit 12 (um_address umem)"
proof -
  obtain a l r where sgl: "um_sgl umem = (a, l) # r" using assms(3) by (cases "um_sgl umem") auto
  have "12 \<le> k" using assms(1,2) unfolding pgsz_usable_def take_bit_0_iff by (meson not_le)
  have "take_bit k (a + ib_umem_offset umem) = take_bit k virt" using assms(1) by (simp add: pgsz_usable_def sgl)
  then have "take_bit 12 virt = take_bit 12 (a + ib_umem_offset umem)"
    using \<open>12 \<le> k\<close> unfolding take_bit_eq_iff by simp
  also have "\<dots> = take_bit 12 (ib_umem_offset umem)" using take_bit_add_0 [of a "ib_umem_offset umem"] assms(4) by (simp add: sgl add.commute)
  also have "\<dots> = take_bit 12 (um_address umem)" by (simp add: ib_umem_offset_def PAGE_SIZE_mask flip: take_bit_eq_mask)
  finally show ?thesis .
qed

lemma no_pgsz_without_offset:
  assumes "um_odp_shift umem = None" "changing_bits umem virt \<noteq> 64" "take_bit 12 bm = 0" "um_sgl umem \<noteq> []"
    "take_bit 12 (fst (hd (um_sgl umem))) = 0" "take_bit 12 virt \<noteq> take_bit 12 (um_address umem)"
  shows "ib_umem_find_best_pgsz umem bm virt = (Some 0, umem\<lparr>um_iova := virt\<rparr>)"
proof -
  have "best_pgsz umem bm virt = 0"
  proof (rule ccontr)
    assume "best_pgsz umem bm virt \<noteq> 0"
    then obtain k where "pgsz_usable umem bm virt k" by (rule best_pgsz_usable)
    then show False using pgsz_keeps_offset assms(3-6) by blast
  qed
  moreover have "snd (ib_umem_find_best_pgsz umem bm virt) = umem\<lparr>um_iova := virt\<rparr>"
    using assms(1) by (simp add: ib_umem_find_best_pgsz_def Let_def)
  ultimately show ?thesis using find_best_ok [OF assms(1,2)] by (simp add: prod_eq_iff)
qed

text \<open>The pages of a region of whole pages, by its offset.\<close>

lemma num_pages_whole:
  assumes "unat (um_length umem) = 4096 * n" "unat (um_length umem) < 2 ^ 63"
  shows "unat (ib_umem_num_pages umem) = (if take_bit 12 (um_iova umem) = 0 then n else n + 1)"
proof -
  define v where "v = um_iova umem"
  define len where "len = um_length umem"
  define ofs where "ofs = unat v mod 4096"
  have tb: "unat (take_bit 12 x :: u64) = unat x mod 4096" for x using unat_and_mask [of x 12] by (simp add: take_bit_eq_mask)
  have "ALIGN (v + len) PAGE_SIZE - ALIGN_DOWN v PAGE_SIZE = len + (4095 - take_bit 12 (v + len + 4095) + take_bit 12 v)"
    by (simp add: ALIGN_def ALIGN_DOWN_def PAGE_SIZE_mask and_not_mask_minus) (simp add: mask_eq_exp_minus_1 algebra_simps)
  moreover have "unat (take_bit 12 (v + len + 4095)) = (ofs + 4095) mod 4096"
  proof -
    have "unat (v + len + 4095) mod 4096 = (unat (v + len) mod 4096 + 4095) mod 4096"
      unfolding take_bit_12_add [of "v + len"] by (simp add: mod_simps)
    also have "unat (v + len) mod 4096 = ofs" unfolding take_bit_12_add using assms(1) by (simp add: ofs_def len_def)
    finally have "unat (v + len + 4095) mod 4096 = (ofs + 4095) mod 4096" .
    then show ?thesis by (simp add: tb ofs_def)
  qed
  moreover have "unat (take_bit 12 v) = ofs" by (simp add: tb ofs_def)
  moreover define X where "X = take_bit 12 (v + len + 4095)"
  moreover define Y where "Y = take_bit 12 v"
  ultimately have e: "ALIGN (v + len) PAGE_SIZE - ALIGN_DOWN v PAGE_SIZE = len + (4095 - X + Y)" "unat X = (ofs + 4095) mod 4096" "unat Y = ofs"
    by simp_all
  have d: "4095 - X + Y = (if ofs = 0 then 0 else 4096)"
  proof (cases "ofs = 0")
    case True
    then have "X = 4095" "Y = 0" using e(2,3) by (simp_all add: word_unat_eq_iff)
    then show ?thesis using True by simp
  next
    case False
    have "ofs < 4096" by (simp add: ofs_def)
    then have "(ofs - 1 + 4096) mod 4096 = ofs - 1" by simp
    moreover have "ofs - 1 + 4096 = ofs + 4095" using False by simp
    moreover have "unat (Y - 1) = ofs - 1" using e(3) False by (subst unat_minus_one) auto
    ultimately have "X = Y - 1" using e(2) by (simp only: word_unat_eq_iff)
    then show ?thesis using False by simp
  qed
  have "unat (len + (if ofs = 0 then 0 else 4096)) = 4096 * n + (if ofs = 0 then 0 else 4096)"
    using assms by (subst unat_add_lem [THEN iffD1]) (auto simp: len_def)
  moreover have "(take_bit 12 v = 0) = (ofs = 0)" by (simp add: ofs_def take_bit_12)
  ultimately show ?thesis
    unfolding ib_umem_num_pages_def ib_umem_num_dma_blocks_def v_def [symmetric] len_def [symmetric] e(1) d unat_div
    by (simp add: PAGE_SIZE_def)
qed

lemma quantize_pow2:
  assumes "k < 64"
  shows "\<exists>j\<le>k. quantize umem m scale (2 ^ k) (ib_umem_dma_offset umem (2 ^ k)) = Some (2 ^ j, ib_umem_dma_offset umem (2 ^ j)) \<and>
    ib_umem_dma_offset umem (2 ^ j) AND NOT (m * (2 ^ j div scale)) = 0 \<and>
    (\<forall>i. j < i \<and> i \<le> k \<longrightarrow> ib_umem_dma_offset umem (2 ^ i) AND NOT (m * (2 ^ i div scale)) \<noteq> 0)"
  using assms
proof (induction k)
  case 0
  have "ib_umem_dma_offset umem 1 = 0" by (simp add: ib_umem_dma_offset_def)
  then show ?case by (subst quantize.simps) simp
next
  case (Suc k)
  have h: "(2 :: u64) ^ Suc k div 2 = 2 ^ k" "(2 :: u64) ^ Suc k \<noteq> 0"
    using unat_push_bit_1 [OF Suc.prems] unat_push_bit_1 [of k] Suc.prems by (auto simp: word_unat_eq_iff unat_div simp del: power_Suc) (simp add: unat_div)
  show ?case
  proof (cases "ib_umem_dma_offset umem (2 ^ Suc k) AND NOT (m * (2 ^ Suc k div scale)) = 0")
    case True
    then show ?thesis by (intro exI [of _ "Suc k"]) (subst quantize.simps, auto simp del: power_Suc)
  next
    case False
    then have "quantize umem m scale (2 ^ Suc k) (ib_umem_dma_offset umem (2 ^ Suc k)) = quantize umem m scale (2 ^ k) (ib_umem_dma_offset umem (2 ^ k))"
      using h by (subst quantize.simps) (simp del: power_Suc)
    moreover obtain j where "j \<le> k" "quantize umem m scale (2 ^ k) (ib_umem_dma_offset umem (2 ^ k)) = Some (2 ^ j, ib_umem_dma_offset umem (2 ^ j))"
      "ib_umem_dma_offset umem (2 ^ j) AND NOT (m * (2 ^ j div scale)) = 0"
      "\<forall>i. j < i \<and> i \<le> k \<longrightarrow> ib_umem_dma_offset umem (2 ^ i) AND NOT (m * (2 ^ i div scale)) \<noteq> 0"
      using Suc by auto
    ultimately show ?thesis using False by (intro exI [of _ j]) (auto simp: le_Suc_eq simp del: power_Suc)
  qed
qed

lemma quantized_exact:
  fixes x :: u64
  assumes "x AND NOT (mask b * 2 ^ t) = 0" "t < 64" "b \<le> 32"
  shows "x div 2 ^ t * 2 ^ t = x" "x div 2 ^ t \<le> mask b" "unat (x div 2 ^ t) < 2 ^ 32"
proof -
  have bits: "t \<le> i \<and> i - t < b" if "bit x i" for i
  proof -
    have "i < 64" using that by (rule bit_u64_lt)
    have "\<not> bit (x AND NOT (push_bit t (mask b))) i" using assms(1) by (simp add: push_bit_eq_mult)
    then show ?thesis using that \<open>i < 64\<close> by (auto simp: bit_simps)
  qed
  have dv: "x div 2 ^ t = drop_bit t x" by (simp add: drop_bit_eq_div)
  have "push_bit t (drop_bit t x) = x" using bits bit_u64_lt by (auto intro!: bit_eqI simp: bit_simps)
  then show "x div 2 ^ t * 2 ^ t = x" unfolding dv by (simp add: push_bit_eq_mult)
  have "take_bit b (drop_bit t x) = drop_bit t x" using bits [of "t + i" for i] by (auto intro!: bit_eqI simp: bit_simps)
  then have "unat (drop_bit t x) = unat (drop_bit t x) mod 2 ^ b" using unat_and_mask [of "drop_bit t x" b] by (simp add: take_bit_eq_mask)
  then have lt: "unat (drop_bit t x) < 2 ^ b" by (metis mod_less_divisor zero_less_numeral zero_less_power)
  moreover have "(2 :: nat) ^ b \<le> 2 ^ 32" using assms(3) by (intro power_increasing) simp_all
  ultimately show "unat (x div 2 ^ t) < 2 ^ 32" unfolding dv by linarith
  have b: "unat (2 ^ b :: u64) = 2 ^ b" using assms(3) unat_push_bit_1 [of b] by simp
  have "unat (mask b :: u64) = 2 ^ b - 1"
    unfolding mask_eq_exp_minus_1 using b assms(3) by (subst unat_minus_one) (auto simp flip: unat_gt_0)
  then show "x div 2 ^ t \<le> mask b" unfolding dv word_le_nat_alt using lt by simp
qed

lemma quantized_iff:
  fixes x :: u64
  assumes "t < 64" "b \<le> 32"
  shows "x AND NOT (mask b * 2 ^ t) = 0 \<longleftrightarrow> (\<exists>q \<le> mask b. q * 2 ^ t = x)"
proof
  show "\<exists>q \<le> mask b. q * 2 ^ t = x" if "x AND NOT (mask b * 2 ^ t) = 0" using quantized_exact [OF that assms] by blast
  show "x AND NOT (mask b * 2 ^ t) = 0" if ex: "\<exists>q \<le> mask b. q * 2 ^ t = x"
  proof -
    obtain q where q: "q \<le> mask b" "x = push_bit t q" using ex by (auto simp: push_bit_eq_mult)
    have b: "unat (2 ^ b :: u64) = 2 ^ b" using assms(2) unat_push_bit_1 [of b] by simp
    have "unat (mask b :: u64) = 2 ^ b - 1"
      unfolding mask_eq_exp_minus_1 using b assms(2) by (subst unat_minus_one) (auto simp flip: unat_gt_0)
    then have "unat q \<le> 2 ^ b - 1" using q(1) by (simp only: word_le_nat_alt)
    moreover have "0 < (2 :: nat) ^ b" by simp
    ultimately have "unat q < 2 ^ b" by linarith
    then have "q AND mask b = q" using unat_and_mask [of q b] by (simp add: word_unat_eq_iff)
    then have "bit q i \<Longrightarrow> i < b" for i by (metis bit_and_iff bit_mask_iff)
    then show ?thesis unfolding q(2) by (auto intro!: bit_eqI simp: bit_simps push_bit_eq_mult [symmetric])
  qed
qed

lemma exp_div: "s \<le> j \<Longrightarrow> j < 64 \<Longrightarrow> (2 :: u64) ^ j div 2 ^ s = 2 ^ (j - s)"
  using unat_push_bit_1 [of j] unat_push_bit_1 [of s] unat_push_bit_1 [of "j - s"]
  by (simp add: word_unat_eq_iff unat_div power_diff)

lemma dma_offset_iova [simp]: "ib_umem_dma_offset (umem\<lparr>um_iova := v\<rparr>) p = ib_umem_dma_offset umem p"
  by (simp add: ib_umem_dma_offset_def ib_umem_offset_def)

section \<open>Properties\<close>

text \<open>A kernel that grants everything, an idle process, and the regions that it gets.\<close>

definition kernel_ex :: umem_kernel where
  "kernel_ex = \<lparr>can_do_mlock = True, kzalloc_ok = True, get_free_page_ok = True, rlimit_memlock = 0x10000, capable_ipc_lock = False,
     pin_user_pages_fast = (\<lambda>c n wr. int (unat n)), sg_append_from_pages = (\<lambda>c n. None),
     dma_map_sgtable = (\<lambda>n wk. Inr [(0x10007000, of_nat n * 4096)])\<rparr>"

definition mm_ex :: umem_mm where
  "mm_ex = \<lparr>mm_pinned_vm = 3, mm_refs = 1, mm_gup = 3, mm_kmem = 0, mm_dma = 0\<rparr>"

definition umem_got :: "u64 \<Rightarrow> ib_umem" where
  "umem_got addr = \<lparr>um_iova = addr, um_length = 0x1000, um_address = addr, um_writable = True, um_odp_shift = None,
     um_is_dmabuf = False, um_is_peer = False, um_pages = 2, um_sgl = [(0x10007000, 0x2000)]\<rparr>"

definition mm_got :: umem_mm where
  "mm_got = \<lparr>mm_pinned_vm = 5, mm_refs = 2, mm_gup = 5, mm_kmem = 1, mm_dma = 1\<rparr>"

lemma kernel_ex_contract: "pin_contract kernel_ex"
proof -
  have "1 \<le> int (unat n)" if "0 < n" for n :: u64
  proof -
    have "0 < unat n" using that by (simp add: word_less_nat_alt)
    then show ?thesis by linarith
  qed
  then show ?thesis by (simp add: pin_contract_def kernel_ex_def)
qed

lemma umem_got_charged: "umem_charged kernel_ex (umem_got 0x7040) mm_ex mm_got"
  by (simp add: umem_charged_def umem_got_def mm_ex_def mm_got_def kernel_ex_def ib_umem_num_pages_def ib_umem_num_dma_blocks_def
      ALIGN_def ALIGN_DOWN_def PAGE_SIZE_def)

lemma umem_got_pgsz: "ib_umem_find_best_pgsz (umem_got 0x7040) 0xFFFFF000 0x7040 = (Some 0x10000, umem_got 0x7040)"
  by code_simp


text \<open>
  C10. Getting a region. When the kernel pins at least one page or reports an error each time it is asked, the
  function returns. On every error path, those through the clients for peer memory included, the accounting
  of the process and the kernel is as it was before: nothing is charged, pinned, mapped or allocated. On success the
  pages of the region are pinned and charged, within the limit unless the caller may lock memory, the region
  does not wrap around, and releasing it at once restores what was there before; or a client has taken the region
  over, with the pages charged and nothing pinned.\<close>
theorem umem_get_balanced:
  assumes "pin_contract k"
  shows "\<exists>r w'. umem_get_flags k peer addr sz access fl w = Some (r, w') \<and>
    (case r of
       Inl e \<Rightarrow> w' = w
     | Inr umem \<Rightarrow>
         umem_charged k umem w w' \<and> um_address umem = addr \<and> um_length umem = sz \<and> unat addr + unat sz < 2 ^ 64 \<and>
         ib_umem_release rel (Some umem) w' = w \<or>
         fl AND IB_PEER_MEM_ALLOW \<noteq> 0 \<and>
         (\<exists>old e. peer old e fl = Inr umem \<and> um_address old = addr \<and> um_iova old = addr \<and> um_length old = sz \<and>
            w' = w\<lparr>mm_kmem := mm_kmem w + 1, mm_refs := mm_refs w + 1, mm_pinned_vm := mm_pinned_vm w + ib_umem_num_pages old\<rparr>))"
proof (rule umem_get_flags_cases [OF assms, of peer addr sz access fl w], goal_cases)
  case (2 umem w')
  have "umem\<lparr>um_iova := um_iova umem\<rparr> = umem" by simp
  then have "ib_umem_release rel (Some umem) w' = w" using umem_release_charged [OF 2(2), of rel "um_iova umem"] by simp
  then show ?case using 2 by simp
qed auto

theorem umem_get_balanced_witness:
  "umem_get_flags kernel_ex (\<lambda>_ e _. Inl e) 0x7040 0x1000 1 0 mm_ex = Some (Inr (umem_got 0x7040), mm_got) \<and>
   ib_umem_release (\<lambda>_ w. w) (Some (umem_got 0x7040)) mm_got = mm_ex"
proof -
  have "umem_get_flags kernel_ex (\<lambda>_ e _. Inl e) 0x7040 0x1000 1 0 mm_ex = Some (Inr (umem_got 0x7040), mm_got)" by code_simp
  then show ?thesis
    using umem_get_balanced [OF kernel_ex_contract, of "\<lambda>_ e _. Inl e" "0x7040" "0x1000" 1 0 mm_ex "\<lambda>_ w. w"] by simp
qed

text \<open>
  C0. The accounting after the choice of a page size. When a device without page sizes below 4096 bytes gets a page size
  for a freshly pinned region whose memory starts at a page boundary, releasing the region later restores
  the accounting, although the choice has replaced the address from which the release counts the pages.\<close>
theorem umem_release_after_pgsz:
  assumes "umem_charged k umem w w'" "take_bit 12 pgsz_bitmap = 0" "um_sgl umem \<noteq> []" "take_bit 12 (fst (hd (um_sgl umem))) = 0"
    "ib_umem_find_best_pgsz umem pgsz_bitmap virt = (Some pgsz, umem')" "pgsz \<noteq> 0"
  shows "ib_umem_release rel (Some umem') w' = w"
proof -
  have "um_odp_shift umem = None" "um_iova umem = um_address umem" using assms(1) by (simp_all add: umem_charged_def)
  then have u': "umem' = umem\<lparr>um_iova := virt\<rparr>" "changing_bits umem virt \<noteq> 64"
    using assms(5) by (auto simp: ib_umem_find_best_pgsz_def Let_def changing_bits_def split: if_splits)
  have "pgsz = best_pgsz umem pgsz_bitmap virt"
    using find_best_ok [OF \<open>um_odp_shift umem = None\<close> u'(2), of pgsz_bitmap] assms(5) by simp
  then obtain q where "pgsz_usable umem pgsz_bitmap virt q" using assms(6) best_pgsz_usable by metis
  then have "take_bit 12 virt = take_bit 12 (um_iova umem)"
    using pgsz_keeps_offset assms(2-4) \<open>um_iova umem = um_address umem\<close> by simp
  then show ?thesis using umem_release_charged [OF assms(1), of rel virt] by (simp add: u' num_pages_shift)
qed

theorem umem_release_after_pgsz_witness: "ib_umem_release (\<lambda>_ w. w) (Some (umem_got 0x7040)) mm_got = mm_ex"
proof -
  have "take_bit 12 (0xFFFFF000 :: u64) = 0" "um_sgl (umem_got 0x7040) \<noteq> []" "take_bit 12 (fst (hd (um_sgl (umem_got 0x7040)))) = 0" "(0x10000 :: u64) \<noteq> 0"
    by (simp_all add: umem_got_def take_bit_eq_mod)
  then show ?thesis using umem_release_after_pgsz [OF umem_got_charged _ _ _ umem_got_pgsz] by simp
qed

text \<open>
  C28. Quantised page offsets. For a driver without page sizes below 4096 bytes, a scale that is a power of two of at most 4096
  and an offset field of at most 32 bits, the search returns. The page size that it gives is supported, the
  quantised offset is exact and fits the field, and every larger page size up to the one that suits the
  list has an offset that the field cannot hold.\<close>
theorem quantized_pgoff_exact:
  assumes "um_odp_shift umem = None" "changing_bits umem (umem_dma_addr umem AND pgoff_bitmask) \<noteq> 64"
    "take_bit 12 pgsz_bitmap = 0" "s \<le> 12" "b \<le> 32"
  shows "\<exists>r. mlx5_umem_find_best_quantized_pgoff umem pgsz_bitmap b pgoff_bitmask (2 ^ s) =
      Some (r, umem\<lparr>um_iova := umem_dma_addr umem AND pgoff_bitmask\<rparr>) \<and>
    (case r of
       None \<Rightarrow> True
     | Some (pgsz, q) \<Rightarrow> \<exists>j. pgsz = 2 ^ j \<and> bit pgsz_bitmap j \<and> q * (2 ^ j div 2 ^ s) = ib_umem_dma_offset umem (2 ^ j) \<and> q \<le> mask b \<and>
         (\<forall>i. j < i \<and> 2 ^ i \<le> best_pgsz umem pgsz_bitmap (umem_dma_addr umem AND pgoff_bitmask) \<and> i < 64 \<longrightarrow>
            \<not> (\<exists>q \<le> mask b. q * (2 ^ i div 2 ^ s) = ib_umem_dma_offset umem (2 ^ i))))"
proof -
  define v where "v = umem_dma_addr umem AND pgoff_bitmask"
  define P where "P = best_pgsz umem pgsz_bitmap v"
  have f: "ib_umem_find_best_pgoff umem pgsz_bitmap pgoff_bitmask = (Some P, umem\<lparr>um_iova := v\<rparr>)"
  proof -
    have "snd (ib_umem_find_best_pgsz umem pgsz_bitmap v) = umem\<lparr>um_iova := v\<rparr>"
      using assms(1) by (simp add: ib_umem_find_best_pgsz_def Let_def)
    then show ?thesis using find_best_ok [OF assms(1,2), of pgsz_bitmap]
      by (simp add: ib_umem_find_best_pgoff_def P_def v_def ib_umem_offset_def [symmetric] prod_eq_iff)
  qed
  show ?thesis
  proof (cases "P = 0")
    case True
    then show ?thesis by (simp add: mlx5_umem_find_best_quantized_pgoff_def f v_def [symmetric])
  next
    case False
    then obtain k where k: "P = 2 ^ k" "k < 64" unfolding P_def by (rule best_pgsz_usable)
    define F where "F j = (ib_umem_dma_offset umem (2 ^ j) AND NOT (mask b * (2 ^ j div 2 ^ s)) = 0)" for j
    obtain j where j: "j \<le> k" "quantize (umem\<lparr>um_iova := v\<rparr>) (mask b) (2 ^ s) (2 ^ k) (ib_umem_dma_offset umem (2 ^ k)) = Some (2 ^ j, ib_umem_dma_offset umem (2 ^ j))"
      "F j" "\<forall>i. j < i \<and> i \<le> k \<longrightarrow> \<not> F i"
      using quantize_pow2 [OF k(2), of "umem\<lparr>um_iova := v\<rparr>" "mask b" "2 ^ s"] unfolding dma_offset_iova F_def by blast
    have pow: "(pgsz_bitmap AND 2 ^ j = 0) = (\<not> bit pgsz_bitmap j)"
      using j(1) k(2) by (simp add: bit_iff_and_push_bit_not_eq_0)
    show ?thesis
    proof (cases "bit pgsz_bitmap j")
      case False
      then show ?thesis using j(2) pow \<open>P \<noteq> 0\<close> k(1)
        by (simp add: mlx5_umem_find_best_quantized_pgoff_def f v_def [symmetric] push_bit_minus_1 Let_def del: push_bit_of_1)
    next
      case True
      then have "12 \<le> j" using assms(3) unfolding take_bit_0_iff by (meson not_le)
      then have sj: "s \<le> j" "j < 64" using assms(4) j(1) k(2) by simp_all
      define x where "x = ib_umem_dma_offset umem (2 ^ j)"
      define q where "q = x div 2 ^ (j - s)"
      have ed: "(2 :: u64) ^ j div 2 ^ s = 2 ^ (j - s)" using sj by (rule exp_div)
      have q: "q * 2 ^ (j - s) = x" "q \<le> mask b" "unat q < 2 ^ 32"
        unfolding q_def using quantized_exact [of x b "j - s"] j(3) sj assms(5) by (simp_all add: F_def ed x_def)
      have uq: "ucast (ucast q :: u32) = q" using q(3) by (simp add: word_unat_eq_iff unat_up unat_down)
      have nz: "(2 :: u64) ^ (j - s) \<noteq> 0" using unat_push_bit_1 [of "j - s"] sj by (auto simp flip: unat_0_iff)
      have r: "mlx5_umem_find_best_quantized_pgoff umem pgsz_bitmap b pgoff_bitmask (2 ^ s) = Some (Some (2 ^ j, q), umem\<lparr>um_iova := v\<rparr>)"
        using j(2) pow True \<open>P \<noteq> 0\<close> k(1) nz uq q(2)
        by (simp add: mlx5_umem_find_best_quantized_pgoff_def f push_bit_minus_1 Let_def ed x_def [symmetric] q_def [symmetric] not_less del: push_bit_of_1)
      have "\<not> (\<exists>q \<le> mask b. q * (2 ^ i div 2 ^ s) = ib_umem_dma_offset umem (2 ^ i))" if i: "j < i" "2 ^ i \<le> P" "i < 64" for i
      proof -
        have "(2 :: nat) ^ i \<le> 2 ^ k" using i(2,3) k unat_push_bit_1 [of i] unat_push_bit_1 [of k] by (simp add: word_le_nat_alt)
        then have "i \<le> k" by (simp add: power_le_imp_le_exp)
        then have "\<not> F i" using j(4) i(1) by blast
        moreover have "(2 :: u64) ^ i div 2 ^ s = 2 ^ (i - s)" using i sj by (intro exp_div) simp_all
        ultimately show ?thesis using quantized_iff [of "i - s" b "ib_umem_dma_offset umem (2 ^ i)"] i(3) assms(5) by (simp add: F_def)
      qed
      then show ?thesis unfolding r v_def [symmetric] P_def [symmetric] using True q(1,2) ed by (auto simp: x_def)
    qed
  qed
qed

theorem quantized_pgoff_exact_witness:
  "mlx5_umem_find_best_quantized_pgoff (umem_got 0x7040) 0xFFFFF000 6 0xFFFFFFC0 (2 ^ 6) = Some (Some (0x1000, 1), (umem_got 0x7040)\<lparr>um_iova := 0x10007040\<rparr>) \<and>
   1 * (0x1000 div 2 ^ 6) = ib_umem_dma_offset (umem_got 0x7040) 0x1000"
proof -
  have e: "mlx5_umem_find_best_quantized_pgoff (umem_got 0x7040) 0xFFFFF000 6 0xFFFFFFC0 (2 ^ 6) = Some (Some (0x1000, 1), (umem_got 0x7040)\<lparr>um_iova := 0x10007040\<rparr>)"
    by code_simp
  have h: "um_odp_shift (umem_got 0x7040) = None" "changing_bits (umem_got 0x7040) (umem_dma_addr (umem_got 0x7040) AND 0xFFFFFFC0) \<noteq> 64"
    "take_bit 12 (0xFFFFF000 :: u64) = 0" "6 \<le> (12 :: nat)" "6 \<le> (32 :: nat)"
    by (simp add: umem_got_def, code_simp, simp_all add: take_bit_eq_mod)
  obtain j where j: "(0x1000 :: u64) = 2 ^ j" "bit (0xFFFFF000 :: u64) j" "1 * (2 ^ j div 2 ^ 6) = ib_umem_dma_offset (umem_got 0x7040) (2 ^ j)"
    using quantized_pgoff_exact [OF h] unfolding e by auto
  show ?thesis using e j(3) unfolding j(1) [symmetric] by simp
qed

text \<open>
  C29. A leak in the accounting. A completion queue buffer of whole pages that does not start at a page boundary has no page
  size: the search for completion queues allows no offset. The search has replaced the address of the region
  by then, so that the release on the error path counts one page less than was charged, and the process stays charged
  for one page with each attempt.\<close>
theorem cq_buffer_leaks_charge:
  assumes "umem_charged k umem w w'" "take_bit 12 pgsz_bitmap = 0" "um_sgl umem \<noteq> []" "take_bit 12 (fst (hd (um_sgl umem))) = 0"
    "take_bit 12 (um_address umem) \<noteq> 0" "4096 dvd unat (um_length umem)" "unat (um_length umem) < 2 ^ 63" "changing_bits umem 0 \<noteq> 64"
  shows "mlx5_umem_find_best_quantized_pgoff umem pgsz_bitmap b 0 scale = Some (None, umem\<lparr>um_iova := 0\<rparr>) \<and>
    ib_umem_release rel (Some (umem\<lparr>um_iova := 0\<rparr>)) w' = w\<lparr>mm_pinned_vm := mm_pinned_vm w + 1\<rparr>"
proof
  have u: "um_odp_shift umem = None" "um_iova umem = um_address umem" using assms(1) by (simp_all add: umem_charged_def)
  have "ib_umem_find_best_pgsz umem pgsz_bitmap 0 = (Some 0, umem\<lparr>um_iova := 0\<rparr>)"
    using u assms by (intro no_pgsz_without_offset) simp_all
  then show "mlx5_umem_find_best_quantized_pgoff umem pgsz_bitmap b 0 scale = Some (None, umem\<lparr>um_iova := 0\<rparr>)"
    by (simp add: mlx5_umem_find_best_quantized_pgoff_def ib_umem_find_best_pgoff_def)
  obtain n where n: "unat (um_length umem) = 4096 * n" using assms(6) by (auto simp: dvd_def)
  have a: "unat (ib_umem_num_pages umem) = n + 1" using num_pages_whole [OF n assms(7)] assms(5) u(2) by simp
  have z: "unat (ib_umem_num_pages (umem\<lparr>um_iova := 0\<rparr>)) = n" using num_pages_whole [of "umem\<lparr>um_iova := 0\<rparr>" n] n assms(7) by simp
  have "ib_umem_num_pages umem = ib_umem_num_pages (umem\<lparr>um_iova := 0\<rparr>) + 1"
  proof -
    have "of_nat (unat (ib_umem_num_pages umem)) = (of_nat (unat (ib_umem_num_pages (umem\<lparr>um_iova := 0\<rparr>))) + 1 :: u64)" by (simp add: a z)
    then show ?thesis by simp
  qed
  then show "ib_umem_release rel (Some (umem\<lparr>um_iova := 0\<rparr>)) w' = w\<lparr>mm_pinned_vm := mm_pinned_vm w + 1\<rparr>"
    unfolding umem_release_charged [OF assms(1)] by simp
qed

theorem cq_buffer_leaks_charge_witness:
  "ib_umem_release (\<lambda>_ w. w) (Some ((umem_got 0x7040)\<lparr>um_iova := 0\<rparr>)) mm_got = mm_ex\<lparr>mm_pinned_vm := 4\<rparr>"
proof -
  have h: "take_bit 12 (0xFFFFF000 :: u64) = 0" "um_sgl (umem_got 0x7040) \<noteq> []" "take_bit 12 (fst (hd (um_sgl (umem_got 0x7040)))) = 0"
    "take_bit 12 (um_address (umem_got 0x7040)) \<noteq> 0" "4096 dvd unat (um_length (umem_got 0x7040))" "unat (um_length (umem_got 0x7040)) < 2 ^ 63"
    by (simp_all add: umem_got_def take_bit_eq_mod)
  have "changing_bits (umem_got 0x7040) 0 \<noteq> 64" by code_simp
  from cq_buffer_leaks_charge [OF umem_got_charged h this, of 6 64 "\<lambda>_ w. w"] show ?thesis by (simp add: mm_ex_def)
qed

end
