(* ===== verification/Peer_Mem.thy ===== *)
theory Peer_Mem
  imports Umem_Pin
begin

text \<open>
  Memory of peer devices (\<open>drivers/infiniband/core/peer_mem.c\<close>, \<open>ib_peer_mem.h\<close>): regions whose pages belong to another driver, the
  client, which may take them back at any time by an invalidation.

  Correspondence.
  \<^item> The state is that of one client with one region. The threads are the owner of the region (the RDMA driver), any
    number of invalidations by the client, and the unregistration of the client.
  \<^item> A thread runs in steps: what it does while it holds \<open>mapping_lock\<close> is one step, which waits until the lock is free, except that
    the lock stays with the owner between \<open>ib_peer_umem_get\<close> and \<open>ib_umem_activate_invalidation_notifier\<close>. Outside the lock every access to
    what other threads use is a step of its own.
  \<^item> The value \<open>None\<close> of a step is an access to the region after it was freed or through its client pointer after that
    became \<open>NULL\<close>, or an unlock of the mutex by a thread that does not hold it.
  \<^item> The calls of the client's functions are a log. \<open>Client_unmap\<close> stands for the unmapping that a client with
    \<open>PEER_MEM_INVALIDATE_UNMAPS\<close> does itself once the invalidation callback has returned.
\<close>

section \<open>State\<close>

datatype ib_umem_mapped_state = UMEM_PEER_UNMAPPED | UMEM_PEER_MAPPED | UMEM_PEER_INVALIDATED

record peer_sg =
  sg_dma_address :: u64
  sg_dma_len :: u32
  sg_length :: u32

record ib_peer_memory_statistics =
  num_alloc_mrs :: int
  num_dealloc_mrs :: int
  num_reg_pages :: int
  num_dereg_pages :: int
  num_reg_bytes :: int
  num_dereg_bytes :: int
  num_free_callbacks :: nat

record ib_umem_peer =
  up_umem :: ib_umem
  up_sgt :: "peer_sg list"  \<comment> \<open>the entries of \<open>sgt_append.sgt\<close>\<close>
  up_nents :: nat
  up_kref :: nat
  up_client :: bool  \<comment> \<open>\<open>ib_peer_client\<close> is not \<open>NULL\<close>\<close>
  up_func :: bool  \<comment> \<open>\<open>invalidation_func\<close> is not \<open>NULL\<close>\<close>
  up_locked :: bool  \<comment> \<open>\<open>mapping_lock\<close> is held by the owner\<close>
  up_state :: ib_umem_mapped_state
  up_has_id :: bool  \<comment> \<open>\<open>xa_id\<close> is not \<open>PEER_NO_INVALIDATION_ID\<close>\<close>
  up_first :: "(u64 \<times> u32 \<times> u32) option"  \<comment> \<open>\<open>first_sg\<close> with what is saved of it\<close>
  up_last :: "(nat \<times> u32 \<times> u32) option"  \<comment> \<open>\<open>last_sg\<close>, its position, with what is saved of it\<close>

text \<open>\<open>struct peer_memory_client\<close> and its extension: the answers of the functions and the flags.\<close>

record peer_memory_client =
  cl_acquire :: "u64 \<Rightarrow> u64 \<Rightarrow> int"
  cl_has_release :: bool
  cl_page_size :: u64
  cl_version_last :: u8
  cl_ex_size :: nat
  cl_flags :: u32
  cl_invalidation_required :: bool

datatype client_call =
    Acquire | Get_pages | Dma_map "peer_sg list" | Dma_unmap "peer_sg list" | Put_pages | Release | Client_unmap "peer_sg list"

datatype owner_pc =
    O_idle | O_begun | O_err | O_err_put | O_failed
  | O_have | O_active | O_stopping ib_umem_mapped_state | O_stopped
  | O_rel_unmapped | O_rel_erased | O_rel_put | O_rel_null | O_done

datatype inval_pc = I_idle | I_found | I_worked

datatype reg_pc = Registered | Unregistering | Gone

record peer_sys =
  p_umem :: "ib_umem_peer option"
  p_xa :: bool  \<comment> \<open>the region is in \<open>umem_xa\<close>\<close>
  p_usecnt :: nat
  p_zero :: bool  \<comment> \<open>\<open>usecnt_zero\<close> is complete\<close>
  p_stats :: ib_peer_memory_statistics
  p_calls :: "client_call list"
  p_fences :: nat  \<comment> \<open>the calls of \<open>invalidation_func\<close>\<close>
  p_mm :: umem_mm
  p_owner :: owner_pc
  p_inv :: "nat \<Rightarrow> inval_pc"
  p_reg :: reg_pc

definition ib_peer_unmap_on_invalidate :: "peer_memory_client \<Rightarrow> bool" where
  "ib_peer_unmap_on_invalidate c \<longleftrightarrow>
     (if cl_version_last c = 0 then False
      else if cl_ex_size c < 148 then False  \<comment> \<open>\<open>offsetofend(struct peer_memory_client_ex, flags)\<close>\<close>
      else cl_flags c AND 1 \<noteq> 0)"

section \<open>Clients\<close>

text \<open>The list of the registered clients; \<open>ib_get_peer_client\<close> yields the position of the one that takes the range.\<close>

fun ib_get_peer_client :: "peer_memory_client list \<Rightarrow> u64 \<Rightarrow> u64 \<Rightarrow> u64 \<Rightarrow> nat option" where
  "ib_get_peer_client [] addr sz peer_mem_flags = None"
| "ib_get_peer_client (c # cs) addr sz peer_mem_flags =
     (if cl_invalidation_required c \<and> peer_mem_flags AND 2 = 0
      then map_option Suc (ib_get_peer_client cs addr sz peer_mem_flags)
      else if cl_acquire c addr sz > 0 then Some 0
      else map_option Suc (ib_get_peer_client cs addr sz peer_mem_flags))"

definition ib_memory_peer_check_mandatory :: "bool list \<Rightarrow> errno option" where
  "ib_memory_peer_check_mandatory has_func = (if list_all (\<lambda>b. b) has_func then None else Some EINVAL)"

text \<open>A newly registered client.\<close>

definition ib_register_peer_memory_client :: "bool list \<Rightarrow> bool \<Rightarrow> umem_mm \<Rightarrow> peer_sys option" where
  "ib_register_peer_memory_client has_func kz mm =
     (if ib_memory_peer_check_mandatory has_func \<noteq> None then None
      else if \<not> kz then None
      else Some \<lparr>p_umem = None, p_xa = False, p_usecnt = 1, p_zero = False,
        p_stats = \<lparr>num_alloc_mrs = 0, num_dealloc_mrs = 0, num_reg_pages = 0, num_dereg_pages = 0, num_reg_bytes = 0,
          num_dereg_bytes = 0, num_free_callbacks = 0\<rparr>,
        p_calls = [], p_fences = 0, p_mm = mm, p_owner = O_idle, p_inv = (\<lambda>_. I_idle), p_reg = Registered\<rparr>)"

definition dec_usecnt :: "peer_sys \<Rightarrow> peer_sys" where
  "dec_usecnt s = s\<lparr>p_usecnt := p_usecnt s - 1, p_zero := (p_zero s \<or> p_usecnt s = 1)\<rparr>"

definition call_client :: "client_call \<Rightarrow> peer_sys \<Rightarrow> peer_sys" where
  "call_client f s = s\<lparr>p_calls := p_calls s @ [f]\<rparr>"

definition ib_put_peer_client :: "peer_memory_client \<Rightarrow> peer_sys \<Rightarrow> peer_sys" where
  "ib_put_peer_client c s = dec_usecnt (if cl_has_release c then call_client Release s else s)"

text \<open>\<open>ib_unregister_peer_memory_client\<close>, up to the wait and after it.\<close>

definition unregister_begin :: "peer_sys \<Rightarrow> peer_sys" where
  "unregister_begin s = (dec_usecnt s)\<lparr>p_reg := Unregistering\<rparr>"

definition unregister_end :: "peer_sys \<Rightarrow> peer_sys" where
  "unregister_end s = s\<lparr>p_reg := Gone\<rparr>"

section \<open>The scatter-gather list\<close>

definition fix_first :: "u64 \<Rightarrow> ib_umem_peer \<Rightarrow> ib_umem_peer" where
  "fix_first peer_page_size u =
     (case up_sgt u of
        [] \<Rightarrow> u
      | sg # rest \<Rightarrow>
          let offset = ALIGN_DOWN (um_address (up_umem u)) PAGE_SIZE - ALIGN_DOWN (um_address (up_umem u)) peer_page_size
          in u\<lparr>up_first := Some (sg_dma_address sg, sg_dma_len sg, sg_length sg),
               up_sgt := sg\<lparr>sg_dma_address := sg_dma_address sg + offset, sg_dma_len := sg_dma_len sg - ucast offset,
                 sg_length := sg_length sg - ucast offset\<rparr> # rest\<rparr>)"

definition fix_last :: "u64 \<Rightarrow> ib_umem_peer \<Rightarrow> ib_umem_peer" where
  "fix_last peer_page_size u =
     (if 0 < up_nents u \<and> up_nents u \<le> length (up_sgt u)
      then let i = up_nents u - 1;
               sg = up_sgt u ! i;
               e = um_address (up_umem u) + um_length (up_umem u);
               trim = ALIGN e peer_page_size - ALIGN e PAGE_SIZE
        in u\<lparr>up_last := Some (i, sg_dma_len sg, sg_length sg),
             up_sgt := (up_sgt u)[i := sg\<lparr>sg_dma_len := sg_dma_len sg - ucast trim, sg_length := sg_length sg - ucast trim\<rparr>]\<rparr>
      else u)"

text \<open>The loop of \<open>fix_peer_sgls\<close> does its work in the first turn and in turn \<open>nents - 1\<close>, in this order when they are the same.\<close>

definition fix_peer_sgls :: "u64 \<Rightarrow> ib_umem_peer \<Rightarrow> ib_umem_peer" where
  "fix_peer_sgls peer_page_size u = fix_last peer_page_size (fix_first peer_page_size u)"

definition unfix_last :: "ib_umem_peer \<Rightarrow> ib_umem_peer" where
  "unfix_last u =
     (case up_last u of
        None \<Rightarrow> u
      | Some (i, dlen, len) \<Rightarrow>
          u\<lparr>up_sgt := (up_sgt u)[i := (up_sgt u ! i)\<lparr>sg_length := len, sg_dma_len := dlen\<rparr>]\<rparr>)"

definition unfix_first :: "ib_umem_peer \<Rightarrow> ib_umem_peer" where
  "unfix_first u =
     (case up_first u of
        None \<Rightarrow> u
      | Some (addr, dlen, len) \<Rightarrow>
          u\<lparr>up_sgt := (up_sgt u)[0 := (up_sgt u ! 0)\<lparr>sg_dma_address := addr, sg_length := len, sg_dma_len := dlen\<rparr>]\<rparr>)"

text \<open>What \<open>ib_unmap_peer_client\<close> does before it hands the table to the client.\<close>

definition unfix_peer_sgls :: "ib_umem_peer \<Rightarrow> ib_umem_peer" where
  "unfix_peer_sgls u = unfix_first (unfix_last u)"

lemma fix_unfix:
  assumes "up_first u = None" "up_last u = None"
  shows "up_sgt (unfix_peer_sgls (fix_peer_sgls p u)) = up_sgt u"
proof (cases "up_sgt u")
  case Nil
  then have "fix_first p u = u" "fix_last p u = u" by (auto simp: fix_first_def fix_last_def)
  then show ?thesis using assms by (simp add: fix_peer_sgls_def unfix_peer_sgls_def unfix_last_def unfix_first_def)
next
  case (Cons sg rest)
  show ?thesis
  proof (cases "0 < up_nents u \<and> up_nents u \<le> length (up_sgt u)")
    case True
    then obtain i where i: "up_nents u = Suc i" "i < Suc (length rest)" using Cons by (cases "up_nents u") auto
    then show ?thesis using assms Cons
      by (cases i) (simp_all add: fix_peer_sgls_def fix_first_def fix_last_def unfix_peer_sgls_def unfix_last_def unfix_first_def Let_def)
  next
    case False
    then have "fix_last p (fix_first p u) = fix_first p u" using Cons by (auto simp: fix_last_def fix_first_def Let_def)
    then show ?thesis using assms Cons
      by (simp add: fix_peer_sgls_def fix_first_def unfix_peer_sgls_def unfix_last_def unfix_first_def Let_def)
  qed
qed

section \<open>Mapping and unmapping\<close>

text \<open>\<open>ib_unmap_peer_client\<close>, on the region \<open>u\<close>.\<close>

definition ib_unmap_peer_client ::
  "ib_umem_mapped_state \<Rightarrow> ib_umem_mapped_state \<Rightarrow> ib_umem_peer \<Rightarrow> peer_sys \<Rightarrow> peer_sys option" where
  "ib_unmap_peer_client cur_state to_state u s =
     (if \<not> up_client u then None
      else let (u, s) =
          (if cur_state = UMEM_PEER_MAPPED \<and> (to_state = UMEM_PEER_UNMAPPED \<or> to_state = UMEM_PEER_INVALIDATED)
           then let u = unfix_peer_sgls u;
                    s = (if to_state = UMEM_PEER_UNMAPPED
                         then call_client Put_pages (call_client (Dma_unmap (up_sgt u)) s)
                         else call_client (Client_unmap (up_sgt u)) s)
             in (u\<lparr>up_sgt := [], up_nents := 0, up_umem := (up_umem u)\<lparr>um_sgl := []\<rparr>\<rparr>,
                 s\<lparr>p_stats := (p_stats s)\<lparr>num_dealloc_mrs := num_dealloc_mrs (p_stats s) + 1\<rparr>\<rparr>)
           else (u, s));
          s = (if (cur_state = UMEM_PEER_MAPPED \<and> to_state = UMEM_PEER_UNMAPPED) \<or>
                  (cur_state = UMEM_PEER_INVALIDATED \<and> to_state = UMEM_PEER_UNMAPPED)
               then s\<lparr>p_stats := (p_stats s)\<lparr>num_dereg_pages := num_dereg_pages (p_stats s) + int (up_nents u),
                      num_dereg_bytes := num_dereg_bytes (p_stats s) + uint (um_length (up_umem u))\<rparr>\<rparr>
               else s)
        in Some (s\<lparr>p_umem := Some (u\<lparr>up_state := to_state\<rparr>)\<rparr>))"

text \<open>\<open>kref_put\<close> with \<open>ib_peer_umem_kref_release\<close>.\<close>

definition umem_kref_put :: "peer_sys \<Rightarrow> peer_sys option" where
  "umem_kref_put s =
     (case p_umem s of
        None \<Rightarrow> None
      | Some u \<Rightarrow>
          if up_kref u = 1 then Some (s\<lparr>p_umem := None, p_mm := (p_mm s)\<lparr>mm_kmem := mm_kmem (p_mm s) - 1\<rparr>\<rparr>)
          else Some (s\<lparr>p_umem := Some (u\<lparr>up_kref := up_kref u - 1\<rparr>)\<rparr>))"

definition mapping_unlock :: "ib_umem_peer \<Rightarrow> ib_umem_peer option" where
  "mapping_unlock u = (if up_locked u then Some (u\<lparr>up_locked := False\<rparr>) else None)"

section \<open>The owner\<close>

text \<open>\<open>ib_peer_umem_get\<close> up to the registration of the region in \<open>umem_xa\<close>, for a client that has taken the range. From here
  on the client may invalidate the region, and waits for the lock. The answers of the kernel are arguments.\<close>

definition peer_get_begin :: "peer_memory_client \<Rightarrow> bool \<Rightarrow> bool \<Rightarrow> ib_umem \<Rightarrow> peer_sys \<Rightarrow> peer_sys option" where
  "peer_get_begin c kz xa_ok old_umem s =
     (let s = call_client Acquire (s\<lparr>p_usecnt := p_usecnt s + 1\<rparr>) in
      if \<not> kz then Some ((ib_put_peer_client c s)\<lparr>p_owner := O_failed\<rparr>)
      else let u = \<lparr>up_umem = old_umem\<lparr>um_sgl := [], um_pages := 0, um_is_peer := True\<rparr>, up_sgt = [], up_nents = 0, up_kref = 1,
                 up_client = True, up_func = False, up_locked = True, up_state = UMEM_PEER_UNMAPPED, up_has_id = False,
                 up_first = None, up_last = None\<rparr>;
               s = s\<lparr>p_mm := (p_mm s)\<lparr>mm_kmem := mm_kmem (p_mm s) + 1\<rparr>\<rparr>
        in if cl_invalidation_required c
           then if \<not> xa_ok then Some (s\<lparr>p_umem := Some (u\<lparr>up_locked := False\<rparr>), p_owner := O_err\<rparr>)
                else Some (s\<lparr>p_umem := Some (u\<lparr>up_has_id := True\<rparr>), p_xa := True, p_owner := O_begun\<rparr>)
           else Some (s\<lparr>p_umem := Some u, p_owner := O_begun\<rparr>))"

text \<open>The rest of it: \<open>get_pages\<close> and \<open>dma_map\<close> with their answers. The errors go through \<open>err_xa\<close> to \<open>err_umem\<close>; on success
  the old region is freed.\<close>

definition peer_get_finish :: "peer_memory_client \<Rightarrow> bool \<Rightarrow> (peer_sg list \<times> nat) option \<Rightarrow> peer_sys \<Rightarrow> peer_sys option" where
  "peer_get_finish c pages_ok map_result s =
     (case p_umem s of
        None \<Rightarrow> None
      | Some u \<Rightarrow>
          let err_xa = (\<lambda>s. map_option (\<lambda>u. s\<lparr>p_umem := Some u, p_xa := False, p_owner := O_err\<rparr>) (mapping_unlock u)) in
          if \<not> pages_ok then err_xa s
          else (case map_result of
              None \<Rightarrow> err_xa (call_client Put_pages (call_client Get_pages s))
            | Some (sgt, nents) \<Rightarrow>
                let s = call_client (Dma_map sgt) (call_client Get_pages s);
                    u = u\<lparr>up_sgt := sgt, up_nents := nents\<rparr>;
                    u = (if cl_page_size c \<noteq> PAGE_SIZE then fix_peer_sgls (cl_page_size c) u else u);
                    u = u\<lparr>up_umem := (up_umem u)\<lparr>um_sgl := map (\<lambda>g. (sg_dma_address g, sg_dma_len g)) (take nents (up_sgt u))\<rparr>,
                          up_state := UMEM_PEER_MAPPED\<rparr>;
                    st = p_stats s;
                    s = s\<lparr>p_stats := st\<lparr>num_reg_pages := num_reg_pages st + int nents,
                          num_reg_bytes := num_reg_bytes st + uint (um_length (up_umem u)), num_alloc_mrs := num_alloc_mrs st + 1\<rparr>,
                          p_mm := (p_mm s)\<lparr>mm_kmem := mm_kmem (p_mm s) - 1\<rparr>, p_owner := O_have\<rparr>
                in if \<not> up_has_id u then map_option (\<lambda>u. s\<lparr>p_umem := Some u\<rparr>) (mapping_unlock u)
                   else Some (s\<lparr>p_umem := Some u\<rparr>)))"

text \<open>The end of the error paths: \<open>err_umem\<close> after the unlock, and \<open>err_client\<close>.\<close>

definition peer_get_err_put :: "peer_sys \<Rightarrow> peer_sys option" where
  "peer_get_err_put s = map_option (\<lambda>s. s\<lparr>p_owner := O_err_put\<rparr>) (umem_kref_put s)"

definition peer_get_err_client :: "peer_memory_client \<Rightarrow> peer_sys \<Rightarrow> peer_sys option" where
  "peer_get_err_client c s = Some ((ib_put_peer_client c s)\<lparr>p_owner := O_failed\<rparr>)"

definition ib_umem_activate_invalidation_notifier :: "peer_sys \<Rightarrow> peer_sys option" where
  "ib_umem_activate_invalidation_notifier s =
     (case p_umem s of
        None \<Rightarrow> None
      | Some u \<Rightarrow>
          if \<not> up_has_id u then Some s
          else map_option (\<lambda>u. s\<lparr>p_umem := Some u, p_owner := O_active\<rparr>) (mapping_unlock (u\<lparr>up_func := True\<rparr>)))"

text \<open>\<open>ib_umem_stop_invalidation_notifier\<close> up to the unlock. It can only go on when \<open>stop_can_lock\<close> holds.\<close>

definition stop_locks :: "ib_umem_peer \<Rightarrow> bool" where
  "stop_locks u \<longleftrightarrow> up_func u \<or> up_has_id u"

definition stop_can_lock :: "peer_sys \<Rightarrow> bool" where
  "stop_can_lock s \<longleftrightarrow> (case p_umem s of None \<Rightarrow> True | Some u \<Rightarrow> stop_locks u \<longrightarrow> \<not> up_locked u)"

definition stop_begin :: "peer_memory_client \<Rightarrow> peer_sys \<Rightarrow> peer_sys option" where
  "stop_begin c s =
     (case p_umem s of
        None \<Rightarrow> None
      | Some u \<Rightarrow>
          if \<not> up_client u then None
          else let u = (if stop_locks u then u\<lparr>up_locked := True, up_func := False\<rparr> else u) in
            if \<not> ib_peer_unmap_on_invalidate c
            then (case ib_unmap_peer_client (up_state u) UMEM_PEER_UNMAPPED u s of
                None \<Rightarrow> None
              | Some s \<Rightarrow> (case p_umem s of
                    None \<Rightarrow> None
                  | Some u \<Rightarrow> map_option (\<lambda>u. s\<lparr>p_umem := Some u, p_owner := O_stopped\<rparr>) (mapping_unlock u)))
            else map_option (\<lambda>v. s\<lparr>p_umem := Some v, p_owner := O_stopping (up_state u)\<rparr>)
                   (mapping_unlock (u\<lparr>up_state := UMEM_PEER_UNMAPPED\<rparr>)))"

definition stop_end :: "ib_umem_mapped_state \<Rightarrow> peer_sys \<Rightarrow> peer_sys option" where
  "stop_end cur_state s =
     (case p_umem s of
        None \<Rightarrow> None
      | Some u \<Rightarrow> map_option (\<lambda>s. s\<lparr>p_owner := O_stopped\<rparr>) (ib_unmap_peer_client cur_state UMEM_PEER_UNMAPPED u s))"

text \<open>\<open>ib_peer_umem_release\<close>.\<close>

definition release_unmap :: "peer_sys \<Rightarrow> peer_sys option" where
  "release_unmap s =
     (case p_umem s of
        None \<Rightarrow> None
      | Some u \<Rightarrow> map_option (\<lambda>s. s\<lparr>p_owner := O_rel_unmapped\<rparr>) (ib_unmap_peer_client (up_state u) UMEM_PEER_UNMAPPED u s))"

definition release_erase :: "peer_sys \<Rightarrow> peer_sys option" where
  "release_erase s =
     (case p_umem s of
        None \<Rightarrow> None
      | Some u \<Rightarrow> Some (s\<lparr>p_xa := (p_xa s \<and> \<not> up_has_id u), p_owner := O_rel_erased\<rparr>))"

definition release_put_client :: "peer_memory_client \<Rightarrow> peer_sys \<Rightarrow> peer_sys option" where
  "release_put_client c s = Some ((ib_put_peer_client c s)\<lparr>p_owner := O_rel_put\<rparr>)"

definition release_null :: "peer_sys \<Rightarrow> peer_sys option" where
  "release_null s =
     (case p_umem s of
        None \<Rightarrow> None
      | Some u \<Rightarrow>
          Some (s\<lparr>p_umem := Some (u\<lparr>up_client := False\<rparr>),
                  p_mm := (p_mm s)\<lparr>mm_pinned_vm := mm_pinned_vm (p_mm s) - ib_umem_num_pages (up_umem u), mm_refs := mm_refs (p_mm s) - 1\<rparr>,
                  p_owner := O_rel_null\<rparr>))"

definition release_kref :: "peer_sys \<Rightarrow> peer_sys option" where
  "release_kref s = map_option (\<lambda>s. s\<lparr>p_owner := O_done\<rparr>) (umem_kref_put s)"

section \<open>Invalidation\<close>

text \<open>\<open>ib_invalidate_peer_memory\<close>: the lookup under the lock of the array, the work under \<open>mapping_lock\<close>, the reference.\<close>

definition inval_lookup :: "nat \<Rightarrow> peer_sys \<Rightarrow> peer_sys option" where
  "inval_lookup i s =
     (let s = s\<lparr>p_stats := (p_stats s)\<lparr>num_free_callbacks := num_free_callbacks (p_stats s) + 1\<rparr>\<rparr> in
      if \<not> p_xa s then Some s
      else (case p_umem s of
          None \<Rightarrow> None
        | Some u \<Rightarrow> Some (s\<lparr>p_umem := Some (u\<lparr>up_kref := up_kref u + 1\<rparr>), p_inv := (p_inv s)(i := I_found)\<rparr>)))"

definition inval_work :: "peer_memory_client \<Rightarrow> nat \<Rightarrow> peer_sys \<Rightarrow> peer_sys option" where
  "inval_work c i s =
     (case p_umem s of
        None \<Rightarrow> None
      | Some u \<Rightarrow>
          let s = (if up_state u = UMEM_PEER_MAPPED \<and> up_func u then s\<lparr>p_fences := p_fences s + 1\<rparr> else s) in
          if \<not> up_client u then None
          else map_option (\<lambda>s. s\<lparr>p_inv := (p_inv s)(i := I_worked)\<rparr>)
            (ib_unmap_peer_client (up_state u)
               (if ib_peer_unmap_on_invalidate c then UMEM_PEER_INVALIDATED else UMEM_PEER_UNMAPPED) u s))"

definition inval_put :: "nat \<Rightarrow> peer_sys \<Rightarrow> peer_sys option" where
  "inval_put i s = map_option (\<lambda>s. s\<lparr>p_inv := (p_inv s)(i := I_idle)\<rparr>) (umem_kref_put s)"

section \<open>The system\<close>

datatype peer_op =
    Op_get_begin bool bool | Op_get_finish bool "(peer_sg list \<times> nat) option" | Op_err_put | Op_err_client
  | Op_activate | Op_stop | Op_stop_end | Op_rel_unmap | Op_rel_erase | Op_rel_put | Op_rel_null | Op_rel_kref
  | Op_lookup nat | Op_work nat | Op_put nat | Op_unregister | Op_unregister_end

definition invals :: "peer_sys \<Rightarrow> nat set" where
  "invals s = {i. p_inv s i \<noteq> I_idle}"

text \<open>The order of the operations. With \<open>fence\<close>, the client's \<open>release\<close> waits for its invalidations in flight, as the locking pattern
  that the code asks of clients with \<open>PEER_MEM_INVALIDATE_UNMAPS\<close> has it. A region with invalidation is stopped before it is released, a
  region without may be stopped or not.\<close>

fun peer_may :: "peer_memory_client \<Rightarrow> bool \<Rightarrow> peer_op \<Rightarrow> peer_sys \<Rightarrow> bool" where
  "peer_may c fence (Op_get_begin kz xa_ok) s \<longleftrightarrow> p_owner s = O_idle \<and> p_reg s = Registered"
| "peer_may c fence (Op_get_finish pages_ok m) s \<longleftrightarrow> p_owner s = O_begun"
| "peer_may c fence Op_err_put s \<longleftrightarrow> p_owner s = O_err"
| "peer_may c fence Op_err_client s \<longleftrightarrow> p_owner s = O_err_put \<and> (fence \<longrightarrow> invals s = {})"
| "peer_may c fence Op_activate s \<longleftrightarrow> p_owner s = O_have"
| "peer_may c fence Op_stop s \<longleftrightarrow> (p_owner s = O_have \<or> p_owner s = O_active) \<and> stop_can_lock s"
| "peer_may c fence Op_stop_end s \<longleftrightarrow> (\<exists>cur. p_owner s = O_stopping cur)"
| "peer_may c fence Op_rel_unmap s \<longleftrightarrow> p_owner s = O_stopped \<or> p_owner s = O_have \<and> \<not> cl_invalidation_required c"
| "peer_may c fence Op_rel_erase s \<longleftrightarrow> p_owner s = O_rel_unmapped"
| "peer_may c fence Op_rel_put s \<longleftrightarrow> p_owner s = O_rel_erased \<and> (fence \<longrightarrow> invals s = {})"
| "peer_may c fence Op_rel_null s \<longleftrightarrow> p_owner s = O_rel_put"
| "peer_may c fence Op_rel_kref s \<longleftrightarrow> p_owner s = O_rel_null"
| "peer_may c fence (Op_lookup i) s \<longleftrightarrow> p_inv s i = I_idle \<and> p_reg s \<noteq> Gone \<and> cl_invalidation_required c"
| "peer_may c fence (Op_work i) s \<longleftrightarrow> p_inv s i = I_found \<and> (case p_umem s of None \<Rightarrow> True | Some u \<Rightarrow> \<not> up_locked u)"
| "peer_may c fence (Op_put i) s \<longleftrightarrow> p_inv s i = I_worked"
| "peer_may c fence Op_unregister s \<longleftrightarrow> p_reg s = Registered"
| "peer_may c fence Op_unregister_end s \<longleftrightarrow> p_reg s = Unregistering \<and> p_zero s"

fun peer_exec :: "peer_memory_client \<Rightarrow> ib_umem \<Rightarrow> peer_op \<Rightarrow> peer_sys \<Rightarrow> peer_sys option" where
  "peer_exec c old (Op_get_begin kz xa_ok) s = peer_get_begin c kz xa_ok old s"
| "peer_exec c old (Op_get_finish pages_ok m) s = peer_get_finish c pages_ok m s"
| "peer_exec c old Op_err_put s = peer_get_err_put s"
| "peer_exec c old Op_err_client s = peer_get_err_client c s"
| "peer_exec c old Op_activate s = ib_umem_activate_invalidation_notifier s"
| "peer_exec c old Op_stop s = stop_begin c s"
| "peer_exec c old Op_stop_end s = (case p_owner s of O_stopping cur \<Rightarrow> stop_end cur s | _ \<Rightarrow> None)"
| "peer_exec c old Op_rel_unmap s = release_unmap s"
| "peer_exec c old Op_rel_erase s = release_erase s"
| "peer_exec c old Op_rel_put s = release_put_client c s"
| "peer_exec c old Op_rel_null s = release_null s"
| "peer_exec c old Op_rel_kref s = release_kref s"
| "peer_exec c old (Op_lookup i) s = inval_lookup i s"
| "peer_exec c old (Op_work i) s = inval_work c i s"
| "peer_exec c old (Op_put i) s = inval_put i s"
| "peer_exec c old Op_unregister s = Some (unregister_begin s)"
| "peer_exec c old Op_unregister_end s = Some (unregister_end s)"

inductive peer_step :: "peer_memory_client \<Rightarrow> bool \<Rightarrow> ib_umem \<Rightarrow> peer_sys \<Rightarrow> peer_sys \<Rightarrow> bool" for c fence old where
  peer_stepI: "peer_may c fence oper s \<Longrightarrow> peer_exec c old oper s = Some t \<Longrightarrow> peer_step c fence old s t"

definition peer_start :: "umem_mm \<Rightarrow> peer_sys \<Rightarrow> bool" where
  "peer_start mm s \<longleftrightarrow> (\<exists>has_func kz. ib_register_peer_memory_client has_func kz mm = Some s)"

section \<open>Invariant\<close>

definition owner_ref :: "owner_pc \<Rightarrow> bool" where
  "owner_ref pc \<longleftrightarrow> pc \<notin> {O_idle, O_err_put, O_failed, O_done}"

definition client_held :: "owner_pc \<Rightarrow> bool" where
  "client_held pc \<longleftrightarrow> pc \<notin> {O_idle, O_failed, O_rel_put, O_rel_null, O_done}"

definition in_xa :: "owner_pc \<Rightarrow> bool" where
  "in_xa pc \<longleftrightarrow> client_held pc \<and> pc \<notin> {O_err, O_err_put, O_rel_erased}"

definition got :: "owner_pc \<Rightarrow> bool" where
  "got pc \<longleftrightarrow> pc \<notin> {O_idle, O_begun, O_err, O_err_put, O_failed}"

definition region_ok :: "peer_memory_client \<Rightarrow> ib_umem \<Rightarrow> peer_sys \<Rightarrow> ib_umem_peer \<Rightarrow> bool" where
  "region_ok c old s u \<longleftrightarrow>
     up_locked u = (p_owner s = O_begun \<or> p_owner s = O_have \<and> up_has_id u) \<and>
     up_func u = (p_owner s = O_active) \<and>
     up_client u = (p_owner s \<noteq> O_rel_null \<and> p_owner s \<noteq> O_done) \<and>
     p_xa s = (up_has_id u \<and> in_xa (p_owner s)) \<and>
     (up_has_id u \<longrightarrow> cl_invalidation_required c) \<and>
     (p_owner s = O_active \<longrightarrow> up_has_id u) \<and>
     (p_owner s \<notin> {O_err, O_err_put, O_failed} \<longrightarrow> up_has_id u = cl_invalidation_required c) \<and>
     (up_state u = UMEM_PEER_MAPPED \<longrightarrow> p_owner s = O_have \<or> p_owner s = O_active) \<and>
     (p_owner s = O_begun \<longrightarrow> up_first u = None \<and> up_last u = None) \<and>
     ib_umem_num_pages (up_umem u) = ib_umem_num_pages old"

definition refs_ok :: "peer_memory_client \<Rightarrow> ib_umem \<Rightarrow> peer_sys \<Rightarrow> bool" where
  "refs_ok c old s \<longleftrightarrow> finite (invals s) \<and>
     (case p_umem s of
        None \<Rightarrow> \<not> owner_ref (p_owner s) \<and> invals s = {} \<and> \<not> p_xa s
      | Some u \<Rightarrow> up_kref u = (if owner_ref (p_owner s) then 1 else 0) + card (invals s) \<and> 0 < up_kref u \<and>
          (\<not> up_has_id u \<longrightarrow> invals s = {}) \<and> region_ok c old s u)"

definition use_ok :: "peer_sys \<Rightarrow> bool" where
  "use_ok s \<longleftrightarrow> p_usecnt s = (if p_reg s = Registered then 1 else 0) + (if client_held (p_owner s) then 1 else 0) \<and>
     p_zero s = (p_usecnt s = 0) \<and> (p_reg s = Gone \<longrightarrow> p_usecnt s = 0)"

definition fence_ok :: "bool \<Rightarrow> peer_sys \<Rightarrow> bool" where
  "fence_ok fence s \<longleftrightarrow> (p_owner s = O_idle \<longrightarrow> invals s = {}) \<and> (fence \<longrightarrow> \<not> client_held (p_owner s) \<longrightarrow> invals s = {})"

definition mapped :: "peer_sys \<Rightarrow> bool" where
  "mapped s \<longleftrightarrow> p_owner s = O_stopping UMEM_PEER_MAPPED \<or> (\<exists>u. p_umem s = Some u \<and> up_state u = UMEM_PEER_MAPPED)"

fun pages_out :: "client_call list \<Rightarrow> int" where
  "pages_out [] = 0"
| "pages_out (Get_pages # cs) = pages_out cs + 1"
| "pages_out (Put_pages # cs) = pages_out cs - 1"
| "pages_out (Client_unmap t # cs) = pages_out cs - 1"
| "pages_out (_ # cs) = pages_out cs"

fun maps_out :: "client_call list \<Rightarrow> int" where
  "maps_out [] = 0"
| "maps_out (Dma_map t # cs) = maps_out cs + 1"
| "maps_out (Dma_unmap t # cs) = maps_out cs - 1"
| "maps_out (Client_unmap t # cs) = maps_out cs - 1"
| "maps_out (_ # cs) = maps_out cs"

fun acquired :: "client_call list \<Rightarrow> int" where
  "acquired [] = 0"
| "acquired (Acquire # cs) = acquired cs + 1"
| "acquired (Release # cs) = acquired cs - 1"
| "acquired (_ # cs) = acquired cs"

definition tables_ok :: "client_call list \<Rightarrow> bool" where
  "tables_ok cs \<longleftrightarrow> (\<forall>t. Dma_unmap t \<in> set cs \<or> Client_unmap t \<in> set cs \<longrightarrow> Dma_map t \<in> set cs)"

definition calls_ok :: "peer_memory_client \<Rightarrow> peer_sys \<Rightarrow> bool" where
  "calls_ok c s \<longleftrightarrow> pages_out (p_calls s) = (if mapped s then 1 else 0) \<and> maps_out (p_calls s) = (if mapped s then 1 else 0) \<and>
     (cl_has_release c \<longrightarrow> acquired (p_calls s) = (if client_held (p_owner s) then 1 else 0)) \<and>
     tables_ok (p_calls s) \<and>
     (\<forall>u. mapped s \<and> p_umem s = Some u \<longrightarrow> Dma_map (up_sgt (unfix_peer_sgls u)) \<in> set (p_calls s))"

definition mm_ok :: "ib_umem \<Rightarrow> umem_mm \<Rightarrow> peer_sys \<Rightarrow> bool" where
  "mm_ok old mm s \<longleftrightarrow> p_mm s =
     mm\<lparr>mm_kmem := mm_kmem mm + (if p_umem s = None then 0 else 1) - (if got (p_owner s) then 1 else 0),
       mm_pinned_vm := mm_pinned_vm mm - (if p_owner s = O_rel_null \<or> p_owner s = O_done then ib_umem_num_pages old else 0),
       mm_refs := mm_refs mm - (if p_owner s = O_rel_null \<or> p_owner s = O_done then 1 else 0)\<rparr>"

definition peer_inv :: "peer_memory_client \<Rightarrow> bool \<Rightarrow> ib_umem \<Rightarrow> umem_mm \<Rightarrow> peer_sys \<Rightarrow> bool" where
  "peer_inv c fence old mm s \<longleftrightarrow> refs_ok c old s \<and> use_ok s \<and> fence_ok fence s \<and> calls_ok c s \<and> mm_ok old mm s"

named_theorems peer_defs \<open>the parts of the invariant\<close>
declare owner_ref_def [peer_defs] client_held_def [peer_defs] in_xa_def [peer_defs] got_def [peer_defs]

lemma out_append [simp]:
  "pages_out (cs @ ds) = pages_out cs + pages_out ds" "maps_out (cs @ ds) = maps_out cs + maps_out ds" "acquired (cs @ ds) = acquired cs + acquired ds"
proof -
  show "pages_out (cs @ ds) = pages_out cs + pages_out ds" by (induction cs rule: pages_out.induct) auto
  show "maps_out (cs @ ds) = maps_out cs + maps_out ds" by (induction cs rule: maps_out.induct) auto
  show "acquired (cs @ ds) = acquired cs + acquired ds" by (induction cs rule: acquired.induct) auto
qed

lemma unfix_frame [simp]:
  "up_umem (unfix_peer_sgls u) = up_umem u" "up_kref (unfix_peer_sgls u) = up_kref u" "up_client (unfix_peer_sgls u) = up_client u"
  "up_func (unfix_peer_sgls u) = up_func u" "up_locked (unfix_peer_sgls u) = up_locked u" "up_has_id (unfix_peer_sgls u) = up_has_id u"
  "up_state (unfix_peer_sgls u) = up_state u"
  by (simp_all add: unfix_peer_sgls_def unfix_first_def unfix_last_def split: option.split prod.split)

lemma fix_frame [simp]:
  "up_umem (fix_peer_sgls p u) = up_umem u" "up_kref (fix_peer_sgls p u) = up_kref u" "up_client (fix_peer_sgls p u) = up_client u"
  "up_func (fix_peer_sgls p u) = up_func u" "up_locked (fix_peer_sgls p u) = up_locked u" "up_has_id (fix_peer_sgls p u) = up_has_id u"
  "up_state (fix_peer_sgls p u) = up_state u"
  by (simp_all add: fix_peer_sgls_def fix_first_def fix_last_def Let_def split: list.split)

lemma unfix_upd [simp]:
  "up_sgt (unfix_peer_sgls (u\<lparr>up_kref := n\<rparr>)) = up_sgt (unfix_peer_sgls u)" "up_sgt (unfix_peer_sgls (u\<lparr>up_client := b\<rparr>)) = up_sgt (unfix_peer_sgls u)"
  "up_sgt (unfix_peer_sgls (u\<lparr>up_func := b\<rparr>)) = up_sgt (unfix_peer_sgls u)" "up_sgt (unfix_peer_sgls (u\<lparr>up_locked := b\<rparr>)) = up_sgt (unfix_peer_sgls u)"
  "up_sgt (unfix_peer_sgls (u\<lparr>up_state := st\<rparr>)) = up_sgt (unfix_peer_sgls u)" "up_sgt (unfix_peer_sgls (u\<lparr>up_umem := v\<rparr>)) = up_sgt (unfix_peer_sgls u)"
  by (simp_all add: unfix_peer_sgls_def unfix_first_def unfix_last_def split: option.split prod.split)

lemma unfix_none: "up_first u = None \<Longrightarrow> up_last u = None \<Longrightarrow> unfix_peer_sgls u = u"
  by (simp add: unfix_peer_sgls_def unfix_first_def unfix_last_def)

lemma num_pages_frame [simp]:
  "ib_umem_num_pages (v\<lparr>um_sgl := x, um_pages := m, um_is_peer := b\<rparr>) = ib_umem_num_pages v"
  "ib_umem_num_pages (v\<lparr>um_is_peer := b\<rparr>) = ib_umem_num_pages v"
  by (simp_all add: ib_umem_num_pages_def ib_umem_num_dma_blocks_def)

text \<open>What \<open>ib_unmap_peer_client\<close> does to the parts of the state that the invariant speaks about.\<close>

definition unmap_calls :: "ib_umem_mapped_state \<Rightarrow> ib_umem_mapped_state \<Rightarrow> ib_umem_peer \<Rightarrow> client_call list" where
  "unmap_calls cur to u =
     (if cur \<noteq> UMEM_PEER_MAPPED then []
      else if to = UMEM_PEER_UNMAPPED then [Dma_unmap (up_sgt (unfix_peer_sgls u)), Put_pages]
      else [Client_unmap (up_sgt (unfix_peer_sgls u))])"

lemma unmap_result:
  assumes "up_client u" "to \<noteq> UMEM_PEER_MAPPED"
  obtains u' st where "ib_unmap_peer_client cur to u s = Some (s\<lparr>p_umem := Some u', p_calls := p_calls s @ unmap_calls cur to u, p_stats := st\<rparr>)"
    "up_kref u' = up_kref u" "up_client u'" "up_func u' = up_func u" "up_locked u' = up_locked u" "up_has_id u' = up_has_id u" "up_state u' = to"
    "ib_umem_num_pages (up_umem u') = ib_umem_num_pages (up_umem u)" "cur \<noteq> UMEM_PEER_MAPPED \<longrightarrow> up_sgt (unfix_peer_sgls u') = up_sgt (unfix_peer_sgls u)"
proof -
  define u' where "u' = (if cur = UMEM_PEER_MAPPED then (unfix_peer_sgls u)\<lparr>up_sgt := [], up_nents := 0, up_umem := (up_umem u)\<lparr>um_sgl := []\<rparr>, up_state := to\<rparr>
    else u\<lparr>up_state := to\<rparr>)"
  have "\<exists>st. ib_unmap_peer_client cur to u s = Some (s\<lparr>p_umem := Some u', p_calls := p_calls s @ unmap_calls cur to u, p_stats := st\<rparr>)"
    using assms by (cases s; cases to; cases cur) (auto simp: ib_unmap_peer_client_def unmap_calls_def u'_def call_client_def Let_def)
  then show thesis using that [of _ u'] assms by (auto simp: u'_def)
qed

lemma unmap_calls_out [simp]:
  "to \<noteq> UMEM_PEER_MAPPED \<Longrightarrow> pages_out (unmap_calls cur to u) = (if cur = UMEM_PEER_MAPPED then - 1 else 0)"
  "to \<noteq> UMEM_PEER_MAPPED \<Longrightarrow> maps_out (unmap_calls cur to u) = (if cur = UMEM_PEER_MAPPED then - 1 else 0)"
  "acquired (unmap_calls cur to u) = 0"
  by (simp_all add: unmap_calls_def)

lemma unmap_tables_ok:
  assumes "tables_ok cs" "cur = UMEM_PEER_MAPPED \<longrightarrow> Dma_map (up_sgt (unfix_peer_sgls u)) \<in> set cs"
  shows "tables_ok (cs @ unmap_calls cur to u)"
  using assms by (auto simp: tables_ok_def unmap_calls_def)

lemma umem_kref_put_result:
  assumes "p_umem s = Some u" "0 < up_kref u"
  shows "umem_kref_put s = Some (if up_kref u = 1 then s\<lparr>p_umem := None, p_mm := (p_mm s)\<lparr>mm_kmem := mm_kmem (p_mm s) - 1\<rparr>\<rparr>
    else s\<lparr>p_umem := Some (u\<lparr>up_kref := up_kref u - 1\<rparr>)\<rparr>)"
  using assms by (simp add: umem_kref_put_def)

text \<open>The owner moves on without touching what the invariant of its new place needs.\<close>

lemma peer_invD:
  assumes "peer_inv c fence old mm s"
  shows "refs_ok c old s" "use_ok s" "fence_ok fence s" "calls_ok c s" "mm_ok old mm s"
  using assms by (simp_all add: peer_inv_def)

lemma inv_owner:
  assumes "peer_inv c fence old mm s" "owner_ref (p_owner s)"
  obtains u where "p_umem s = Some u" "region_ok c old s u" "0 < up_kref u" "finite (invals s)"
    "up_kref u = 1 + card (invals s)" "\<not> up_has_id u \<longrightarrow> invals s = {}"
  using assms by (auto simp: peer_inv_def refs_ok_def split: option.splits)

lemma peer_invI:
  assumes "refs_ok c old s" "use_ok s" "fence_ok fence s" "calls_ok c s" "mm_ok old mm s"
  shows "peer_inv c fence old mm s"
  using assms by (simp add: peer_inv_def)

lemma start_inv:
  assumes "peer_start mm s"
  shows "peer_inv c fence old mm s"
proof -
  have s: "p_umem s = None" "\<not> p_xa s" "p_usecnt s = 1" "\<not> p_zero s" "p_calls s = []" "p_mm s = mm" "p_owner s = O_idle" "p_inv s = (\<lambda>_. I_idle)"
    "p_reg s = Registered"
    using assms by (auto simp: peer_start_def ib_register_peer_memory_client_def split: if_splits)
  then have "invals s = {}" "\<not> mapped s" by (simp_all add: invals_def mapped_def)
  with s show ?thesis by (intro peer_invI) (simp_all add: refs_ok_def use_ok_def fence_ok_def calls_ok_def tables_ok_def mm_ok_def peer_defs)
qed

lemma use_ok_frame:
  "use_ok s \<Longrightarrow> p_usecnt t = p_usecnt s \<Longrightarrow> p_zero t = p_zero s \<Longrightarrow> p_reg t = p_reg s \<Longrightarrow>
   client_held (p_owner t) = client_held (p_owner s) \<Longrightarrow> use_ok t"
  by (auto simp: use_ok_def split: if_splits)

lemma fence_ok_frame:
  "fence_ok fence s \<Longrightarrow> invals t \<subseteq> invals s \<Longrightarrow> p_owner t \<noteq> O_idle \<or> p_owner s = O_idle \<Longrightarrow> client_held (p_owner t) = client_held (p_owner s) \<Longrightarrow>
   fence_ok fence t"
  by (auto simp: fence_ok_def)

fun is_unmap :: "client_call \<Rightarrow> bool" where
  "is_unmap (Dma_unmap t) \<longleftrightarrow> True"
| "is_unmap (Client_unmap t) \<longleftrightarrow> True"
| "is_unmap _ \<longleftrightarrow> False"

lemma tables_ok_append:
  assumes "tables_ok cs" "\<forall>f\<in>set ds. \<not> is_unmap f"
  shows "tables_ok (cs @ ds)"
proof -
  have "Dma_unmap t \<notin> set ds" "Client_unmap t \<notin> set ds" for t using assms(2) by force+
  then show ?thesis using assms(1) by (simp add: tables_ok_def)
qed

lemmas client_defs = ib_put_peer_client_def dec_usecnt_def call_client_def

lemma get_begin_inv:
  assumes "peer_inv c fence old mm s" "p_owner s = O_idle" "p_reg s = Registered"
  shows "\<exists>t. peer_get_begin c kz xa_ok old s = Some t \<and> peer_inv c fence old mm t"
proof -
  note i = peer_invD [OF assms(1)]
  have u: "p_umem s = None" "\<not> p_xa s" "invals s = {}"
    using i(1,3) assms(2) by (auto simp: refs_ok_def fence_ok_def peer_defs split: option.splits)
  have cnt: "p_usecnt s = 1" "\<not> p_zero s" using i(2) assms(2,3) by (auto simp: use_ok_def peer_defs)
  have m: "\<not> mapped s" "p_mm s = mm" using i(5) u assms(2) by (auto simp: mapped_def mm_ok_def peer_defs)
  have cl: "pages_out (p_calls s) = 0" "maps_out (p_calls s) = 0" "cl_has_release c \<longrightarrow> acquired (p_calls s) = 0" "tables_ok (p_calls s)"
    using i(4) m assms(2) by (auto simp: calls_ok_def peer_defs)
  have "peer_get_begin c kz xa_ok old s \<noteq> None" by (simp add: peer_get_begin_def Let_def)
  then obtain t where t: "peer_get_begin c kz xa_ok old s = Some t" by blast
  have iv: "invals t = {}" "p_reg t = Registered"
    using t u(3) assms(3) by (auto simp: peer_get_begin_def Let_def client_defs invals_def split: if_splits)
  have "refs_ok c old t"
    using t u iv(1) by (auto simp: peer_get_begin_def Let_def client_defs refs_ok_def region_ok_def peer_defs split: if_splits)
  moreover have "use_ok t"
    using t cnt iv by (auto simp: peer_get_begin_def Let_def client_defs use_ok_def peer_defs split: if_splits)
  moreover have "fence_ok fence t" using iv by (simp add: fence_ok_def)
  moreover have "calls_ok c t"
  proof -
    obtain ds where ds: "p_calls t = p_calls s @ ds" "\<forall>f\<in>set ds. \<not> is_unmap f" "pages_out ds = 0" "maps_out ds = 0"
      "cl_has_release c \<longrightarrow> acquired ds = (if client_held (p_owner t) then 1 else 0)"
    proof
      show "p_calls t = p_calls s @ (if kz \<or> \<not> cl_has_release c then [Acquire] else [Acquire, Release])"
        using t by (auto simp: peer_get_begin_def Let_def client_defs split: if_splits)
    qed (use t in \<open>auto simp: peer_get_begin_def Let_def client_defs peer_defs split: if_splits\<close>)
    moreover have "\<not> mapped t" using t u(1) by (auto simp: peer_get_begin_def Let_def client_defs mapped_def split: if_splits)
    ultimately show ?thesis using cl tables_ok_append [OF cl(4) ds(2)] by (simp add: calls_ok_def)
  qed
  moreover have "mm_ok old mm t"
    using t u(1) m by (auto simp: peer_get_begin_def Let_def client_defs mm_ok_def peer_defs split: if_splits)
  ultimately show ?thesis using t by (blast intro: peer_invI)
qed

text \<open>Steps that leave the log alone.\<close>

lemma calls_ok_frame:
  assumes "calls_ok c s" "p_calls t = p_calls s" "mapped t = mapped s" "client_held (p_owner t) = client_held (p_owner s)"
    "\<And>u'. mapped s \<Longrightarrow> p_umem t = Some u' \<Longrightarrow> \<exists>u. p_umem s = Some u \<and> up_sgt (unfix_peer_sgls u') = up_sgt (unfix_peer_sgls u)"
  shows "calls_ok c t"
  unfolding calls_ok_def assms(2-4) using assms(1,5) by (auto simp: calls_ok_def)

lemma get_finish_inv:
  assumes "peer_inv c fence old mm s" "p_owner s = O_begun"
  shows "\<exists>t. peer_get_finish c pages_ok m s = Some t \<and> peer_inv c fence old mm t"
proof -
  note i = peer_invD [OF assms(1)]
  have own: "owner_ref (p_owner s)" using assms(2) by (auto simp: peer_defs)
  from inv_owner [OF assms(1) own] obtain u where u: "p_umem s = Some u" "region_ok c old s u" "0 < up_kref u" "finite (invals s)"
    "up_kref u = 1 + card (invals s)" "\<not> up_has_id u \<longrightarrow> invals s = {}" .
  have r: "up_locked u" "\<not> up_func u" "up_client u" "up_state u \<noteq> UMEM_PEER_MAPPED" "up_has_id u = cl_invalidation_required c"
    "ib_umem_num_pages (up_umem u) = ib_umem_num_pages old" "up_first u = None" "up_last u = None"
    using u(2) assms(2) by (auto simp: region_ok_def)
  have m: "\<not> mapped s" using u(1) r(4) assms(2) by (auto simp: mapped_def)
  have cl: "pages_out (p_calls s) = 0" "maps_out (p_calls s) = 0" "cl_has_release c \<longrightarrow> acquired (p_calls s) = 1" "tables_ok (p_calls s)"
    using i(4) m assms(2) by (auto simp: calls_ok_def peer_defs)
  have mm: "p_mm s = mm\<lparr>mm_kmem := mm_kmem mm + 1\<rparr>" using i(5) u(1) assms(2) by (simp add: mm_ok_def peer_defs)
  show ?thesis
  proof (cases "pages_ok \<and> m \<noteq> None")
    case False
    define t where "t = s\<lparr>p_umem := Some (u\<lparr>up_locked := False\<rparr>), p_xa := False, p_owner := O_err,
      p_calls := p_calls s @ (if pages_ok then [Get_pages, Put_pages] else [])\<rparr>"
    have t: "peer_get_finish c pages_ok m s = Some t"
      using u(1) r(1) False by (cases pages_ok; cases m) (simp_all add: t_def peer_get_finish_def Let_def mapping_unlock_def call_client_def)
    have "invals t = invals s" by (simp add: t_def invals_def)
    then have "refs_ok c old t" using u r by (simp add: t_def refs_ok_def region_ok_def peer_defs)
    moreover have "use_ok t" by (rule use_ok_frame [OF i(2)]) (simp_all add: t_def assms(2) peer_defs)
    moreover have "fence_ok fence t" by (rule fence_ok_frame [OF i(3)]) (simp_all add: t_def invals_def assms(2) peer_defs)
    moreover have "calls_ok c t" using cl r(4) tables_ok_append [OF cl(4)] by (simp add: t_def calls_ok_def mapped_def peer_defs)
    moreover have "mm_ok old mm t" using mm by (simp add: t_def mm_ok_def peer_defs)
    ultimately show ?thesis using t by (blast intro: peer_invI)
  next
    case True
    then obtain sgt nents where m': "m = Some (sgt, nents)" by auto
    define v where "v = (if cl_page_size c \<noteq> PAGE_SIZE then fix_peer_sgls (cl_page_size c) (u\<lparr>up_sgt := sgt, up_nents := nents\<rparr>) else u\<lparr>up_sgt := sgt, up_nents := nents\<rparr>)"
    define w where "w = v\<lparr>up_umem := (up_umem v)\<lparr>um_sgl := map (\<lambda>g. (sg_dma_address g, sg_dma_len g)) (take nents (up_sgt v))\<rparr>, up_state := UMEM_PEER_MAPPED, up_locked := up_has_id u\<rparr>"
    have w: "up_kref w = up_kref u" "up_func w = up_func u" "up_client w = up_client u" "up_has_id w = up_has_id u" "up_state w = UMEM_PEER_MAPPED"
      "up_locked w = up_has_id u" "ib_umem_num_pages (up_umem w) = ib_umem_num_pages (up_umem u)"
      by (simp_all add: w_def v_def)
    have tab: "up_sgt (unfix_peer_sgls w) = sgt"
      using r(7,8) fix_unfix [of "u\<lparr>up_sgt := sgt, up_nents := nents\<rparr>"] by (simp add: w_def v_def unfix_none)
    have "\<exists>st. peer_get_finish c pages_ok m s = Some (s\<lparr>p_umem := Some w, p_calls := p_calls s @ [Get_pages, Dma_map sgt],
        p_stats := st, p_mm := mm, p_owner := O_have\<rparr>)"
      using True u(1) r(1) mm unfolding m' w_def v_def
      by (cases s; cases "up_has_id u"; cases "cl_page_size c = PAGE_SIZE") (simp_all add: peer_get_finish_def Let_def mapping_unlock_def call_client_def)
    then obtain st where t: "peer_get_finish c pages_ok m s = Some (s\<lparr>p_umem := Some w, p_calls := p_calls s @ [Get_pages, Dma_map sgt],
        p_stats := st, p_mm := mm, p_owner := O_have\<rparr>)" by blast
    define t' where "t' = s\<lparr>p_umem := Some w, p_calls := p_calls s @ [Get_pages, Dma_map sgt], p_stats := st, p_mm := mm, p_owner := O_have\<rparr>"
    have "invals t' = invals s" by (simp add: t'_def invals_def)
    then have "refs_ok c old t'" using u r w i(1) assms(2) by (simp add: t'_def refs_ok_def region_ok_def peer_defs)
    moreover have "use_ok t'" by (rule use_ok_frame [OF i(2)]) (simp_all add: t'_def assms(2) peer_defs)
    moreover have "fence_ok fence t'" by (rule fence_ok_frame [OF i(3)]) (simp_all add: t'_def invals_def assms(2) peer_defs)
    moreover have "calls_ok c t'" using cl w(5) tab tables_ok_append [OF cl(4)] by (simp add: t'_def calls_ok_def mapped_def peer_defs)
    moreover have "mm_ok old mm t'" by (simp add: t'_def mm_ok_def peer_defs)
    ultimately show ?thesis using t unfolding t'_def [symmetric] by (blast intro: peer_invI)
  qed
qed

text \<open>The owner drops its reference, at the end of an error path or of the release.\<close>

lemma owner_kref_put_inv:
  assumes "peer_inv c fence old mm s" "(p_owner s, pc) \<in> {(O_err, O_err_put), (O_rel_null, O_done)}"
  shows "\<exists>t. map_option (\<lambda>s. s\<lparr>p_owner := pc\<rparr>) (umem_kref_put s) = Some t \<and> peer_inv c fence old mm t"
proof -
  note i = peer_invD [OF assms(1)]
  have own: "owner_ref (p_owner s)" using assms(2) by (auto simp: peer_defs)
  from inv_owner [OF assms(1) own] obtain u where u: "p_umem s = Some u" "region_ok c old s u" "0 < up_kref u" "finite (invals s)"
    "up_kref u = 1 + card (invals s)" "\<not> up_has_id u \<longrightarrow> invals s = {}" .
  from assms(2) consider (err) "p_owner s = O_err" "pc = O_err_put" | (rel) "p_owner s = O_rel_null" "pc = O_done" by auto
  note pc = this
  have nm: "up_state u \<noteq> UMEM_PEER_MAPPED" "\<not> mapped s" by (rule pc; use u(1,2) in \<open>simp add: region_ok_def mapped_def\<close>)+
  define t where "t = (if up_kref u = 1 then s\<lparr>p_umem := None, p_mm := (p_mm s)\<lparr>mm_kmem := mm_kmem (p_mm s) - 1\<rparr>, p_owner := pc\<rparr>
    else s\<lparr>p_umem := Some (u\<lparr>up_kref := up_kref u - 1\<rparr>), p_owner := pc\<rparr>)"
  have e: "map_option (\<lambda>s. s\<lparr>p_owner := pc\<rparr>) (umem_kref_put s) = Some t"
    using umem_kref_put_result [OF u(1,3)] by (simp add: t_def)
  have f: "invals t = invals s" "p_owner t = pc" "p_calls t = p_calls s" "p_usecnt t = p_usecnt s" "p_zero t = p_zero s" "p_reg t = p_reg s"
    by (simp_all add: t_def invals_def)
  have "refs_ok c old t"
    by (rule pc; cases "up_kref u = 1"; use u nm in \<open>simp add: t_def invals_def refs_ok_def region_ok_def peer_defs\<close>)
  moreover have "use_ok t" by (rule use_ok_frame [OF i(2)]) (use assms(2) f in \<open>auto simp: peer_defs\<close>)
  moreover have "fence_ok fence t" by (rule fence_ok_frame [OF i(3)]) (use assms(2) f in \<open>auto simp: peer_defs\<close>)
  moreover have "\<not> mapped t" using nm(1) assms(2) by (auto simp: t_def mapped_def)
  then have "calls_ok c t" by (intro calls_ok_frame [OF i(4)]) (use assms(2) f nm in \<open>auto simp: peer_defs\<close>)
  moreover have "mm_ok old mm t"
    using i(5) u(1) assms(2) by (auto simp: t_def mm_ok_def peer_defs)
  ultimately show ?thesis using e by (blast intro: peer_invI)
qed

lemma err_client_inv:
  assumes "peer_inv c fence old mm s" "(p_owner s, pc) \<in> {(O_err_put, O_failed), (O_rel_erased, O_rel_put)}" "fence \<longrightarrow> invals s = {}"
  shows "peer_inv c fence old mm ((ib_put_peer_client c s)\<lparr>p_owner := pc\<rparr>)"
proof -
  note i = peer_invD [OF assms(1)]
  define t where "t = (ib_put_peer_client c s)\<lparr>p_owner := pc\<rparr>"
  have f: "invals t = invals s" "p_umem t = p_umem s" "p_xa t = p_xa s" "p_reg t = p_reg s" "p_mm t = p_mm s" "p_owner t = pc"
    "p_calls t = p_calls s @ (if cl_has_release c then [Release] else [])"
    by (simp_all add: t_def client_defs invals_def)
  from assms(2) consider (err) "p_owner s = O_err_put" "pc = O_failed" | (rel) "p_owner s = O_rel_erased" "pc = O_rel_put" by auto
  note pc = this
  have nm: "\<not> mapped s" "\<not> mapped t"
    by (rule pc; use i(1) f in \<open>simp add: mapped_def refs_ok_def region_ok_def split: option.splits\<close>)+
  have "refs_ok c old t"
  proof (cases "p_umem s")
    case None
    then show ?thesis using i(1) assms(2) by (auto simp: refs_ok_def f peer_defs)
  next
    case (Some u)
    have "region_ok c old t u" by (rule pc; use i(1) Some in \<open>simp add: refs_ok_def region_ok_def f peer_defs\<close>)
    then show ?thesis using i(1) assms(2) Some by (auto simp: refs_ok_def f peer_defs)
  qed
  moreover have "use_ok t"
    using i(2) assms(2) by (auto simp: t_def client_defs use_ok_def peer_defs split: if_splits)
  moreover have "fence_ok fence t" using assms(2,3) f by (auto simp: fence_ok_def)
  moreover have "calls_ok c t"
    using i(4) assms(2) nm tables_ok_append [of "p_calls s" "[Release]"] by (auto simp: calls_ok_def f peer_defs)
  moreover have "mm_ok old mm t" using i(5) assms(2) unfolding mm_ok_def f by (auto simp: peer_defs)
  ultimately show ?thesis unfolding t_def by (rule peer_invI)
qed

lemma activate_inv:
  assumes "peer_inv c fence old mm s" "p_owner s = O_have"
  shows "\<exists>t. ib_umem_activate_invalidation_notifier s = Some t \<and> peer_inv c fence old mm t"
proof -
  note i = peer_invD [OF assms(1)]
  have own: "owner_ref (p_owner s)" using assms(2) by (auto simp: peer_defs)
  from inv_owner [OF assms(1) own] obtain u where u: "p_umem s = Some u" "region_ok c old s u" "0 < up_kref u" "finite (invals s)"
    "up_kref u = 1 + card (invals s)" "\<not> up_has_id u \<longrightarrow> invals s = {}" .
  show ?thesis
  proof (cases "up_has_id u")
    case False
    then show ?thesis using assms(1) u(1) by (simp add: ib_umem_activate_invalidation_notifier_def)
  next
    case True
    define t where "t = s\<lparr>p_umem := Some (u\<lparr>up_func := True, up_locked := False\<rparr>), p_owner := O_active\<rparr>"
    have l: "up_locked u" using u(2) True assms(2) by (simp add: region_ok_def)
    have e: "ib_umem_activate_invalidation_notifier s = Some t"
      using u(1) l True by (simp add: ib_umem_activate_invalidation_notifier_def mapping_unlock_def t_def)
    have "refs_ok c old t" using u True assms(2) by (simp add: t_def refs_ok_def invals_def region_ok_def peer_defs)
    moreover have "use_ok t" by (rule use_ok_frame [OF i(2)]) (simp_all add: t_def assms(2) peer_defs)
    moreover have "fence_ok fence t" by (rule fence_ok_frame [OF i(3)]) (simp_all add: t_def invals_def assms(2) peer_defs)
    moreover have "calls_ok c t" by (rule calls_ok_frame [OF i(4)]) (use u(1) in \<open>auto simp: t_def mapped_def assms(2) peer_defs\<close>)
    moreover have "mm_ok old mm t" using i(5) u(1) assms(2) by (simp add: t_def mm_ok_def peer_defs)
    ultimately show ?thesis using e by (blast intro: peer_invI)
  qed
qed

lemma calls_ok_unmap:
  assumes "calls_ok c s" "p_umem s = Some u" "p_calls t = p_calls s @ unmap_calls cur to u" "to \<noteq> UMEM_PEER_MAPPED"
    "mapped s = (cur = UMEM_PEER_MAPPED)" "\<not> mapped t" "client_held (p_owner t) = client_held (p_owner s)"
  shows "calls_ok c t"
proof -
  have "tables_ok (p_calls t)" unfolding assms(3) using assms(1,2,5) by (intro unmap_tables_ok) (simp_all add: calls_ok_def)
  then show ?thesis using assms by (simp add: calls_ok_def)
qed

lemma unmap_calls_upd [simp]:
  "unmap_calls cur to (u\<lparr>up_locked := b\<rparr>) = unmap_calls cur to u" "unmap_calls cur to (u\<lparr>up_func := b\<rparr>) = unmap_calls cur to u"
  by (simp_all add: unmap_calls_def)

lemma stop_inv:
  assumes "peer_inv c fence old mm s" "p_owner s = O_have \<or> p_owner s = O_active" "cl_invalidation_required c" "stop_can_lock s"
  shows "\<exists>t. stop_begin c s = Some t \<and> peer_inv c fence old mm t"
proof -
  note i = peer_invD [OF assms(1)]
  have own: "owner_ref (p_owner s)" using assms(2) by (auto simp: peer_defs)
  from inv_owner [OF assms(1) own] obtain u where u: "p_umem s = Some u" "region_ok c old s u" "0 < up_kref u" "finite (invals s)"
    "up_kref u = 1 + card (invals s)" "\<not> up_has_id u \<longrightarrow> invals s = {}" .
  have id: "up_has_id u" using u(2) assms(2,3) by (auto simp: region_ok_def)
  have act: "p_owner s = O_active" using u(1,2) id assms(2,4) by (auto simp: region_ok_def stop_can_lock_def stop_locks_def)
  have r: "up_client u" "p_xa s" "ib_umem_num_pages (up_umem u) = ib_umem_num_pages old" "\<not> up_locked u"
    using u(2) act id by (simp_all add: region_ok_def peer_defs)
  have ms: "mapped s = (up_state u = UMEM_PEER_MAPPED)" using u(1) act by (simp add: mapped_def)
  define v where "v = u\<lparr>up_locked := True, up_func := False\<rparr>"
  show ?thesis
  proof (cases "ib_peer_unmap_on_invalidate c")
    case False
    have "up_client v" using r(1) by (simp add: v_def)
    from unmap_result [OF this, of UMEM_PEER_UNMAPPED "up_state u" s, simplified] obtain w st where w:
      "ib_unmap_peer_client (up_state u) UMEM_PEER_UNMAPPED v s = Some (s\<lparr>p_umem := Some w, p_calls := p_calls s @ unmap_calls (up_state u) UMEM_PEER_UNMAPPED v, p_stats := st\<rparr>)"
      "up_kref w = up_kref v" "up_client w" "up_func w = up_func v" "up_locked w = up_locked v" "up_has_id w = up_has_id v" "up_state w = UMEM_PEER_UNMAPPED"
      "ib_umem_num_pages (up_umem w) = ib_umem_num_pages (up_umem v)" by blast
    define t where "t = s\<lparr>p_calls := p_calls s @ unmap_calls (up_state u) UMEM_PEER_UNMAPPED v, p_stats := st, p_umem := Some (w\<lparr>up_locked := False\<rparr>), p_owner := O_stopped\<rparr>"
    have e: "stop_begin c s = Some t"
      using u(1) r(1) id False w by (simp add: stop_begin_def Let_def stop_locks_def v_def t_def mapping_unlock_def)
    have "refs_ok c old t" using u id r w assms(3) by (simp add: t_def v_def refs_ok_def invals_def region_ok_def peer_defs)
    moreover have "use_ok t" by (rule use_ok_frame [OF i(2)]) (simp_all add: t_def act peer_defs)
    moreover have "fence_ok fence t" by (rule fence_ok_frame [OF i(3)]) (simp_all add: t_def invals_def act peer_defs)
    moreover have "calls_ok c t"
      by (rule calls_ok_unmap [OF i(4) u(1), where cur = "up_state u" and to = UMEM_PEER_UNMAPPED]) (use w(7) ms act in \<open>simp_all add: t_def v_def mapped_def peer_defs\<close>)
    moreover have "mm_ok old mm t" using i(5) u(1) act by (simp add: t_def mm_ok_def peer_defs)
    ultimately show ?thesis using e by (blast intro: peer_invI)
  next
    case True
    define t where "t = s\<lparr>p_umem := Some (u\<lparr>up_func := False, up_state := UMEM_PEER_UNMAPPED, up_locked := False\<rparr>), p_owner := O_stopping (up_state u)\<rparr>"
    have e: "stop_begin c s = Some t"
      using u(1) r(1) id True by (simp add: stop_begin_def Let_def stop_locks_def t_def mapping_unlock_def)
    have "refs_ok c old t" using u id r assms(3) by (simp add: t_def refs_ok_def invals_def region_ok_def peer_defs)
    moreover have "use_ok t" by (rule use_ok_frame [OF i(2)]) (simp_all add: t_def act peer_defs)
    moreover have "fence_ok fence t" by (rule fence_ok_frame [OF i(3)]) (simp_all add: t_def invals_def act peer_defs)
    moreover have "calls_ok c t" by (rule calls_ok_frame [OF i(4)]) (use u(1) ms act in \<open>auto simp: t_def mapped_def peer_defs\<close>)
    moreover have "mm_ok old mm t" using i(5) u(1) act by (simp add: t_def mm_ok_def peer_defs)
    ultimately show ?thesis using e by (blast intro: peer_invI)
  qed
qed

text \<open>The owner unmaps the region outside the lock, at the end of the stop or at the start of the release.\<close>

lemma owner_unmap_inv:
  assumes "peer_inv c fence old mm s" "p_umem s = Some u" "region_ok c old s u" "up_kref u = 1 + card (invals s)" "finite (invals s)"
    "\<not> up_has_id u \<longrightarrow> invals s = {}" "mapped s = (cur = UMEM_PEER_MAPPED)"
    "pc = O_stopped \<and> (\<exists>x. p_owner s = O_stopping x) \<or> pc = O_rel_unmapped \<and> (p_owner s = O_stopped \<or> p_owner s = O_have \<and> \<not> cl_invalidation_required c)"
  shows "\<exists>t. map_option (\<lambda>s. s\<lparr>p_owner := pc\<rparr>) (ib_unmap_peer_client cur UMEM_PEER_UNMAPPED u s) = Some t \<and> peer_inv c fence old mm t"
proof -
  note i = peer_invD [OF assms(1)]
  from assms(8) consider (stopping) x where "pc = O_stopped" "p_owner s = O_stopping x" | (stopped) "pc = O_rel_unmapped" "p_owner s = O_stopped"
    | (have') "pc = O_rel_unmapped" "p_owner s = O_have" "\<not> cl_invalidation_required c" by blast
  note pc = this
  have r: "up_client u" by (rule pc; use assms(3) in \<open>simp add: region_ok_def\<close>)
  from unmap_result [OF this, of UMEM_PEER_UNMAPPED cur s, simplified] obtain w st where w:
    "ib_unmap_peer_client cur UMEM_PEER_UNMAPPED u s = Some (s\<lparr>p_umem := Some w, p_calls := p_calls s @ unmap_calls cur UMEM_PEER_UNMAPPED u, p_stats := st\<rparr>)"
    "up_kref w = up_kref u" "up_client w" "up_func w = up_func u" "up_locked w = up_locked u" "up_has_id w = up_has_id u" "up_state w = UMEM_PEER_UNMAPPED"
    "ib_umem_num_pages (up_umem w) = ib_umem_num_pages (up_umem u)" by blast
  define t where "t = s\<lparr>p_umem := Some w, p_calls := p_calls s @ unmap_calls cur UMEM_PEER_UNMAPPED u, p_stats := st, p_owner := pc\<rparr>"
  have e: "map_option (\<lambda>s. s\<lparr>p_owner := pc\<rparr>) (ib_unmap_peer_client cur UMEM_PEER_UNMAPPED u s) = Some t" by (simp add: w(1) t_def)
  have "refs_ok c old t" by (rule pc; use assms(3-6) w in \<open>simp add: t_def refs_ok_def invals_def region_ok_def peer_defs\<close>)
  moreover have held: "client_held (p_owner t) = client_held (p_owner s)" "p_owner t \<noteq> O_idle" by (rule pc; simp add: t_def peer_defs)+
  have "use_ok t" by (rule use_ok_frame [OF i(2)]) (use held in \<open>simp_all add: t_def\<close>)
  moreover have "fence_ok fence t" by (rule fence_ok_frame [OF i(3)]) (use held in \<open>simp_all add: t_def invals_def\<close>)
  moreover have "\<not> mapped t" by (rule pc; use w(7) in \<open>simp add: t_def mapped_def\<close>)
  then have "calls_ok c t" using held assms(7) by (intro calls_ok_unmap [OF i(4) assms(2), where cur = cur and to = UMEM_PEER_UNMAPPED]) (simp_all add: t_def)
  moreover have "mm_ok old mm t" by (rule pc; use i(5) assms(2) in \<open>simp add: t_def mm_ok_def peer_defs\<close>)
  ultimately show ?thesis using e by (blast intro: peer_invI)
qed

lemma stop_end_inv:
  assumes "peer_inv c fence old mm s" "p_owner s = O_stopping cur"
  shows "\<exists>t. stop_end cur s = Some t \<and> peer_inv c fence old mm t"
proof -
  have own: "owner_ref (p_owner s)" using assms(2) by (auto simp: peer_defs)
  from inv_owner [OF assms(1) own] obtain u where u: "p_umem s = Some u" "region_ok c old s u" "0 < up_kref u" "finite (invals s)"
    "up_kref u = 1 + card (invals s)" "\<not> up_has_id u \<longrightarrow> invals s = {}" .
  have "mapped s = (cur = UMEM_PEER_MAPPED)" using u(1,2) assms(2) by (auto simp: mapped_def region_ok_def)
  then show ?thesis using owner_unmap_inv [OF assms(1) u(1,2,5,4,6), of cur O_stopped] assms(2) u(1) by (simp add: stop_end_def)
qed

lemma release_unmap_inv:
  assumes "peer_inv c fence old mm s" "p_owner s = O_stopped \<or> p_owner s = O_have \<and> \<not> cl_invalidation_required c"
  shows "\<exists>t. release_unmap s = Some t \<and> peer_inv c fence old mm t"
proof -
  have own: "owner_ref (p_owner s)" using assms(2) by (auto simp: peer_defs)
  from inv_owner [OF assms(1) own] obtain u where u: "p_umem s = Some u" "region_ok c old s u" "0 < up_kref u" "finite (invals s)"
    "up_kref u = 1 + card (invals s)" "\<not> up_has_id u \<longrightarrow> invals s = {}" .
  have "mapped s = (up_state u = UMEM_PEER_MAPPED)" using u(1) assms(2) by (auto simp: mapped_def)
  then show ?thesis using owner_unmap_inv [OF assms(1) u(1,2,5,4,6), of "up_state u" O_rel_unmapped] assms(2) u(1) by (simp add: release_unmap_def)
qed

lemma release_erase_inv:
  assumes "peer_inv c fence old mm s" "p_owner s = O_rel_unmapped"
  shows "\<exists>t. release_erase s = Some t \<and> peer_inv c fence old mm t"
proof -
  note i = peer_invD [OF assms(1)]
  have own: "owner_ref (p_owner s)" using assms(2) by (auto simp: peer_defs)
  from inv_owner [OF assms(1) own] obtain u where u: "p_umem s = Some u" "region_ok c old s u" "0 < up_kref u" "finite (invals s)"
    "up_kref u = 1 + card (invals s)" "\<not> up_has_id u \<longrightarrow> invals s = {}" .
  have xa: "p_xa s = up_has_id u" using u(2) assms(2) by (simp add: region_ok_def peer_defs)
  define t where "t = s\<lparr>p_xa := False, p_owner := O_rel_erased\<rparr>"
  have e: "release_erase s = Some t" using u(1) xa by (simp add: release_erase_def t_def)
  have "refs_ok c old t" using u assms(2) by (simp add: t_def refs_ok_def invals_def region_ok_def peer_defs)
  moreover have "use_ok t" by (rule use_ok_frame [OF i(2)]) (simp_all add: t_def assms(2) peer_defs)
  moreover have "fence_ok fence t" by (rule fence_ok_frame [OF i(3)]) (simp_all add: t_def invals_def assms(2) peer_defs)
  moreover have "calls_ok c t" by (rule calls_ok_frame [OF i(4)]) (use u(1) in \<open>auto simp: t_def mapped_def assms(2) peer_defs\<close>)
  moreover have "mm_ok old mm t" using i(5) u(1) assms(2) by (simp add: t_def mm_ok_def peer_defs)
  ultimately show ?thesis using e by (blast intro: peer_invI)
qed

lemma release_null_inv:
  assumes "peer_inv c fence old mm s" "p_owner s = O_rel_put"
  shows "\<exists>t. release_null s = Some t \<and> peer_inv c fence old mm t"
proof -
  note i = peer_invD [OF assms(1)]
  have own: "owner_ref (p_owner s)" using assms(2) by (auto simp: peer_defs)
  from inv_owner [OF assms(1) own] obtain u where u: "p_umem s = Some u" "region_ok c old s u" "0 < up_kref u" "finite (invals s)"
    "up_kref u = 1 + card (invals s)" "\<not> up_has_id u \<longrightarrow> invals s = {}" .
  have np: "ib_umem_num_pages (up_umem u) = ib_umem_num_pages old" using u(2) by (simp add: region_ok_def)
  define t where "t = s\<lparr>p_umem := Some (u\<lparr>up_client := False\<rparr>),
    p_mm := (p_mm s)\<lparr>mm_pinned_vm := mm_pinned_vm (p_mm s) - ib_umem_num_pages old, mm_refs := mm_refs (p_mm s) - 1\<rparr>, p_owner := O_rel_null\<rparr>"
  have e: "release_null s = Some t" using u(1) np by (simp add: release_null_def t_def)
  have "refs_ok c old t" using u assms(2) by (simp add: t_def refs_ok_def invals_def region_ok_def peer_defs)
  moreover have "use_ok t" by (rule use_ok_frame [OF i(2)]) (simp_all add: t_def assms(2) peer_defs)
  moreover have "fence_ok fence t" by (rule fence_ok_frame [OF i(3)]) (simp_all add: t_def invals_def assms(2) peer_defs)
  moreover have "calls_ok c t" by (rule calls_ok_frame [OF i(4)]) (use u(1) in \<open>auto simp: t_def mapped_def assms(2) peer_defs\<close>)
  moreover have "mm_ok old mm t" using i(5) u(1) assms(2) by (simp add: t_def mm_ok_def peer_defs)
  ultimately show ?thesis using e by (blast intro: peer_invI)
qed

lemma region_mapped: "region_ok c old s u \<Longrightarrow> up_state u = UMEM_PEER_MAPPED \<Longrightarrow> p_owner s = O_have \<or> p_owner s = O_active"
  by (simp only: region_ok_def)

lemma in_xa_ref: "in_xa pc \<Longrightarrow> owner_ref pc"
  by (auto simp: peer_defs)

lemma invals_upd: "invals (s\<lparr>p_inv := (p_inv s)(i := x)\<rparr>) = (if x = I_idle then invals s - {i} else insert i (invals s))"
  by (auto simp: invals_def)

lemma lookup_inv:
  assumes "peer_inv c fence old mm s" "p_inv s i = I_idle" "p_reg s \<noteq> Gone" "cl_invalidation_required c"
  shows "\<exists>t. inval_lookup i s = Some t \<and> peer_inv c fence old mm t"
proof -
  note v = peer_invD [OF assms(1)]
  define st where "st = (p_stats s)\<lparr>num_free_callbacks := num_free_callbacks (p_stats s) + 1\<rparr>"
  have ni: "i \<notin> invals s" using assms(2) by (simp add: invals_def)
  show ?thesis
  proof (cases "p_xa s")
    case False
    define t where "t = s\<lparr>p_stats := st\<rparr>"
    have e: "inval_lookup i s = Some t" using False by (simp add: inval_lookup_def Let_def t_def st_def)
    have "refs_ok c old t" using v(1) by (simp add: t_def refs_ok_def invals_def region_ok_def cong: option.case_cong)
    moreover have "use_ok t" by (rule use_ok_frame [OF v(2)]) (simp_all add: t_def)
    moreover have "fence_ok fence t" by (rule fence_ok_frame [OF v(3)]) (simp_all add: t_def invals_def)
    moreover have "calls_ok c t" by (rule calls_ok_frame [OF v(4)]) (auto simp: t_def mapped_def)
    moreover have "mm_ok old mm t" using v(5) by (simp add: t_def mm_ok_def)
    ultimately show ?thesis using e by (blast intro: peer_invI)
  next
    case True
    obtain u where u: "p_umem s = Some u" "region_ok c old s u" "finite (invals s)" "up_kref u = (if owner_ref (p_owner s) then 1 else 0) + card (invals s)"
      using v(1) True by (auto simp: refs_ok_def split: option.splits)
    have id: "up_has_id u" "client_held (p_owner s)" using u(2) True by (auto simp: region_ok_def in_xa_def)
    define t where "t = s\<lparr>p_stats := st, p_umem := Some (u\<lparr>up_kref := up_kref u + 1\<rparr>), p_inv := (p_inv s)(i := I_found)\<rparr>"
    have e: "inval_lookup i s = Some t" using True u(1) by (simp add: inval_lookup_def Let_def t_def st_def)
    have iv: "invals t = insert i (invals s)" by (auto simp: t_def invals_def)
    have "region_ok c old t (u\<lparr>up_kref := up_kref u + 1\<rparr>)" using u(2) by (simp add: t_def region_ok_def)
    then have "refs_ok c old t" using u(3,4) ni id(1) iv by (simp add: t_def refs_ok_def)
    moreover have "use_ok t" by (rule use_ok_frame [OF v(2)]) (simp_all add: t_def)
    moreover have "fence_ok fence t" using id(2) by (simp add: fence_ok_def t_def peer_defs)
    moreover have "calls_ok c t" by (rule calls_ok_frame [OF v(4)]) (use u(1) in \<open>auto simp: t_def mapped_def\<close>)
    moreover have "mm_ok old mm t" using v(5) u(1) by (simp add: t_def mm_ok_def)
    ultimately show ?thesis using e by (blast intro: peer_invI)
  qed
qed

lemma inval_region:
  assumes "peer_inv c fence old mm s" "p_inv s i \<noteq> I_idle"
  obtains u where "p_umem s = Some u" "region_ok c old s u" "0 < up_kref u" "finite (invals s)" "i \<in> invals s"
    "up_kref u = (if owner_ref (p_owner s) then 1 else 0) + card (invals s)" "up_has_id u"
proof -
  have "i \<in> invals s" using assms(2) by (simp add: invals_def)
  then show thesis using that peer_invD(1) [OF assms(1)] by (auto simp: refs_ok_def split: option.splits)
qed

lemma work_inv:
  assumes "peer_inv c fence old mm s" "p_inv s i = I_found" "case p_umem s of None \<Rightarrow> True | Some u \<Rightarrow> \<not> up_locked u"
    "fence \<or> (\<forall>u. p_umem s = Some u \<longrightarrow> up_client u)"
  shows "\<exists>t. inval_work c i s = Some t \<and> peer_inv c fence old mm t"
proof -
  note v = peer_invD [OF assms(1)]
  from assms(2) have ni: "p_inv s i \<noteq> I_idle" by simp
  from inval_region [OF assms(1) ni] obtain u where u: "p_umem s = Some u" "region_ok c old s u" "0 < up_kref u" "finite (invals s)" "i \<in> invals s"
    "up_kref u = (if owner_ref (p_owner s) then 1 else 0) + card (invals s)" "up_has_id u" .
  have cl: "up_client u"
  proof (cases fence)
    case True
    then have "client_held (p_owner s)" using v(3) u(5) by (auto simp: fence_ok_def)
    then show ?thesis using u(2) by (auto simp: region_ok_def peer_defs)
  qed (use assms(4) u(1) in auto)
  define to where "to = (if ib_peer_unmap_on_invalidate c then UMEM_PEER_INVALIDATED else UMEM_PEER_UNMAPPED)"
  define s1 where "s1 = (if up_state u = UMEM_PEER_MAPPED \<and> up_func u then s\<lparr>p_fences := p_fences s + 1\<rparr> else s)"
  have to: "to \<noteq> UMEM_PEER_MAPPED" by (simp add: to_def)
  from unmap_result [OF cl to, of "up_state u" s1] obtain w st where w:
    "ib_unmap_peer_client (up_state u) to u s1 = Some (s1\<lparr>p_umem := Some w, p_calls := p_calls s1 @ unmap_calls (up_state u) to u, p_stats := st\<rparr>)"
    "up_kref w = up_kref u" "up_client w" "up_func w = up_func u" "up_locked w = up_locked u" "up_has_id w = up_has_id u" "up_state w = to"
    "ib_umem_num_pages (up_umem w) = ib_umem_num_pages (up_umem u)" "up_state u \<noteq> UMEM_PEER_MAPPED \<longrightarrow> up_sgt (unfix_peer_sgls w) = up_sgt (unfix_peer_sgls u)" .
  have lk: "\<not> up_locked u" using assms(3) u(1) by simp
  define t where "t = s1\<lparr>p_umem := Some w, p_calls := p_calls s @ unmap_calls (up_state u) to u, p_stats := st, p_inv := (p_inv s)(i := I_worked)\<rparr>"
  have f: "p_owner t = p_owner s" "p_xa t = p_xa s" "p_umem t = Some w" "invals t = invals s" "p_usecnt t = p_usecnt s" "p_zero t = p_zero s" "p_reg t = p_reg s"
    "p_mm t = p_mm s" "p_calls t = p_calls s @ unmap_calls (up_state u) to u"
    using assms(2) by (auto simp: t_def s1_def invals_def)
  have e: "inval_work c i s = Some t"
  proof -
    have "p_inv s1 = p_inv s" "p_calls s1 = p_calls s" by (simp_all add: s1_def)
    then show ?thesis unfolding inval_work_def u(1) option.case Let_def to_def [symmetric] s1_def [symmetric] w(1) using cl by (simp add: t_def)
  qed
  have nb: "p_owner s \<noteq> O_begun" using lk u(2) by (auto simp: region_ok_def)
  have "region_ok c old t w" using u(2) w(2-8) cl to nb by (simp add: region_ok_def f)
  then have "refs_ok c old t" using u w(2,6) unfolding refs_ok_def f by simp
  moreover have "use_ok t" by (rule use_ok_frame [OF v(2)]) (simp_all add: f)
  moreover have "fence_ok fence t" by (rule fence_ok_frame [OF v(3)]) (simp_all add: f)
  moreover have "calls_ok c t"
  proof (cases "p_owner s = O_stopping UMEM_PEER_MAPPED")
    case True
    then have "up_state u \<noteq> UMEM_PEER_MAPPED" using u(2) by (auto simp: region_ok_def)
    then show ?thesis using True u(1) w(9)
      by (intro calls_ok_frame [OF v(4)]) (auto simp: f mapped_def unmap_calls_def)
  next
    case False
    then show ?thesis using u(1) w(7) to
      by (intro calls_ok_unmap [OF v(4) u(1), where cur = "up_state u" and to = to]) (auto simp: f mapped_def)
  qed
  moreover have "mm_ok old mm t" using v(5) u(1) by (simp add: mm_ok_def f)
  ultimately show ?thesis using e by (blast intro: peer_invI)
qed

lemma put_inv:
  assumes "peer_inv c fence old mm s" "p_inv s i = I_worked"
  shows "\<exists>t. inval_put i s = Some t \<and> peer_inv c fence old mm t"
proof -
  note v = peer_invD [OF assms(1)]
  from assms(2) have ni: "p_inv s i \<noteq> I_idle" by simp
  from inval_region [OF assms(1) ni] obtain u where u: "p_umem s = Some u" "region_ok c old s u" "0 < up_kref u" "finite (invals s)" "i \<in> invals s"
    "up_kref u = (if owner_ref (p_owner s) then 1 else 0) + card (invals s)" "up_has_id u" .
  define t where "t = (if up_kref u = 1 then s\<lparr>p_umem := None, p_mm := (p_mm s)\<lparr>mm_kmem := mm_kmem (p_mm s) - 1\<rparr>, p_inv := (p_inv s)(i := I_idle)\<rparr>
    else s\<lparr>p_umem := Some (u\<lparr>up_kref := up_kref u - 1\<rparr>), p_inv := (p_inv s)(i := I_idle)\<rparr>)"
  have e: "inval_put i s = Some t" using umem_kref_put_result [OF u(1,3)] by (simp add: inval_put_def t_def)
  have f: "p_owner t = p_owner s" "p_xa t = p_xa s" "invals t = invals s - {i}" "p_usecnt t = p_usecnt s" "p_zero t = p_zero s" "p_reg t = p_reg s"
    "p_calls t = p_calls s"
    by (auto simp: t_def invals_def)
  have card: "card (invals s) = Suc (card (invals t))" unfolding f using card_Suc_Diff1 [OF u(4,5)] by simp
  have last: "\<not> owner_ref (p_owner s)" "invals t = {}" if "up_kref u = 1"
    using that u(6) card u(4) f(3) by (auto split: if_splits)
  have nm: "up_kref u = 1 \<Longrightarrow> \<not> mapped s"
    using last(1) u(1) region_mapped [OF u(2)] by (auto simp: mapped_def owner_ref_def)
  have "refs_ok c old t"
  proof (cases "up_kref u = 1")
    case True
    have "p_xa s = (up_has_id u \<and> in_xa (p_owner s))" using u(2) by (simp only: region_ok_def)
    then have "\<not> p_xa s" using last(1) [OF True] in_xa_ref by blast
    moreover have "p_umem t = None" using True by (simp add: t_def)
    ultimately show ?thesis using last [OF True] f(1,2) by (simp add: refs_ok_def)
  next
    case False
    have "region_ok c old t (u\<lparr>up_kref := up_kref u - 1\<rparr>)" using u(2) by (simp add: region_ok_def f)
    moreover have "p_umem t = Some (u\<lparr>up_kref := up_kref u - 1\<rparr>)" "finite (invals t)" using False u(4) f(3) by (simp_all add: t_def)
    ultimately show ?thesis using False u(3,6,7) card f(1) by (auto simp: refs_ok_def card_gt_0_iff)
  qed
  moreover have "use_ok t" by (rule use_ok_frame [OF v(2)]) (simp_all add: f)
  moreover have "fence_ok fence t" by (rule fence_ok_frame [OF v(3)]) (auto simp: f)
  moreover have "calls_ok c t"
    by (rule calls_ok_frame [OF v(4)]) (use u(1) nm in \<open>auto simp: f mapped_def t_def split: if_splits\<close>)
  moreover have "mm_ok old mm t"
  proof (cases "up_kref u = 1")
    case True
    then show ?thesis using v(5) u(1) by (simp add: t_def mm_ok_def)
  next
    case False
    then show ?thesis using v(5) u(1) by (simp add: t_def mm_ok_def)
  qed
  ultimately show ?thesis using e by (blast intro: peer_invI)
qed

lemma unregister_inv:
  assumes "peer_inv c fence old mm s"
  shows "p_reg s = Registered \<Longrightarrow> peer_inv c fence old mm (unregister_begin s)"
    "p_reg s = Unregistering \<Longrightarrow> p_zero s \<Longrightarrow> peer_inv c fence old mm (unregister_end s)"
proof -
  note v = peer_invD [OF assms]
  have g: "peer_inv c fence old mm t" if "use_ok t" "p_umem t = p_umem s" "p_xa t = p_xa s" "p_owner t = p_owner s" "p_inv t = p_inv s"
    "p_calls t = p_calls s" "p_mm t = p_mm s" for t
  proof (rule peer_invI [OF _ that(1)])
    have iv: "invals t = invals s" using that(5) by (simp add: invals_def)
    have r: "region_ok c old t = region_ok c old s" by (rule ext) (simp add: region_ok_def that)
    show "refs_ok c old t" using v(1) unfolding refs_ok_def that iv r .
    show "fence_ok fence t" using v(3) by (simp add: fence_ok_def that iv)
    show "calls_ok c t" by (rule calls_ok_frame [OF v(4)]) (auto simp: that mapped_def)
    show "mm_ok old mm t" using v(5) by (simp add: mm_ok_def that)
  qed
  show "peer_inv c fence old mm (unregister_begin s)" if "p_reg s = Registered"
    using v(2) that by (intro g) (auto simp: unregister_begin_def dec_usecnt_def use_ok_def split: if_splits)
  show "peer_inv c fence old mm (unregister_end s)" if "p_reg s = Unregistering" "p_zero s"
    using v(2) that by (intro g) (auto simp: unregister_end_def use_ok_def)
qed

text \<open>The stop of a region without invalidation unlocks a mutex that nobody holds.\<close>

lemma stop_unheld:
  assumes "peer_inv c fence old mm s" "p_owner s = O_have \<or> p_owner s = O_active" "\<not> cl_invalidation_required c"
  shows "stop_can_lock s \<and> stop_begin c s = None \<and> (\<exists>u. p_umem s = Some u \<and> up_client u \<and> \<not> up_locked u)"
proof -
  have own: "owner_ref (p_owner s)" using assms(2) by (auto simp: peer_defs)
  from inv_owner [OF assms(1) own] obtain u where u: "p_umem s = Some u" "region_ok c old s u" "0 < up_kref u" "finite (invals s)"
    "up_kref u = 1 + card (invals s)" "\<not> up_has_id u \<longrightarrow> invals s = {}" .
  have r: "\<not> up_has_id u" "\<not> up_func u" "up_client u" "\<not> up_locked u" using u(2) assms(2,3) by (auto simp: region_ok_def)
  then have nl: "\<not> stop_locks u" by (simp add: stop_locks_def)
  from unmap_result [OF r(3), of UMEM_PEER_UNMAPPED "up_state u" s, simplified] obtain w st where w:
    "ib_unmap_peer_client (up_state u) UMEM_PEER_UNMAPPED u s = Some (s\<lparr>p_umem := Some w, p_calls := p_calls s @ unmap_calls (up_state u) UMEM_PEER_UNMAPPED u, p_stats := st\<rparr>)"
    "up_locked w = up_locked u" by blast
  then show ?thesis using u(1) r nl by (simp add: stop_can_lock_def stop_begin_def Let_def mapping_unlock_def)
qed

section \<open>Runs\<close>

lemma peer_op_inv:
  assumes "peer_inv c fence old mm s" "peer_may c fence oper s" "fence \<or> (\<forall>i u. oper = Op_work i \<longrightarrow> p_umem s = Some u \<longrightarrow> up_client u)"
    and "oper = Op_stop \<longrightarrow> cl_invalidation_required c"
  shows "\<exists>t. peer_exec c old oper s = Some t \<and> peer_inv c fence old mm t"
proof (cases oper)
  case (Op_get_begin kz xa_ok)
  then show ?thesis using assms get_begin_inv by simp
next
  case (Op_get_finish pages_ok m)
  then show ?thesis using assms get_finish_inv by simp
next
  case Op_err_put
  then show ?thesis using assms owner_kref_put_inv [OF assms(1), of O_err_put] by (simp add: peer_get_err_put_def)
next
  case Op_err_client
  then show ?thesis using assms err_client_inv [OF assms(1), of O_failed] by (simp add: peer_get_err_client_def)
next
  case Op_activate
  then show ?thesis using assms activate_inv by simp
next
  case Op_stop
  then show ?thesis using assms stop_inv by simp
next
  case Op_stop_end
  then show ?thesis using assms stop_end_inv by auto
next
  case Op_rel_unmap
  then show ?thesis using assms release_unmap_inv by simp
next
  case Op_rel_erase
  then show ?thesis using assms release_erase_inv by simp
next
  case Op_rel_put
  then show ?thesis using assms err_client_inv [OF assms(1), of O_rel_put] by (simp add: release_put_client_def)
next
  case Op_rel_null
  then show ?thesis using assms release_null_inv by simp
next
  case Op_rel_kref
  then show ?thesis using assms owner_kref_put_inv [OF assms(1), of O_done] by (simp add: release_kref_def)
next
  case (Op_lookup i)
  then show ?thesis using assms lookup_inv by simp
next
  case (Op_work i)
  then show ?thesis using assms work_inv [OF assms(1), of i] by auto
next
  case (Op_put i)
  then show ?thesis using assms put_inv by simp
next
  case Op_unregister
  then show ?thesis using assms unregister_inv(1) by simp
next
  case Op_unregister_end
  then show ?thesis using assms unregister_inv(2) by simp
qed

lemma peer_step_inv:
  assumes "peer_inv c fence old mm s" "peer_step c fence old s t"
  shows "peer_inv c fence old mm t"
  using assms(2)
proof cases
  case (peer_stepI oper)
  have "up_client u" if "oper = Op_work i" "p_umem s = Some u" for i u
    using peer_stepI(2) that by (auto simp: inval_work_def Let_def split: if_splits)
  moreover have "cl_invalidation_required c" if "oper = Op_stop"
    using stop_unheld [OF assms(1)] peer_stepI that by (cases "cl_invalidation_required c") auto
  ultimately show ?thesis using peer_op_inv [OF assms(1) peer_stepI(1)] peer_stepI(2) by auto
qed

interpretation peerr: invariant_system "peer_start mm" "peer_step c fence old" "peer_inv c fence old mm" for mm c fence old
  by unfold_locales (auto intro: start_inv peer_step_inv)

text \<open>A run as a list of operations.\<close>

fun peer_run :: "peer_memory_client \<Rightarrow> bool \<Rightarrow> ib_umem \<Rightarrow> peer_op list \<Rightarrow> peer_sys \<Rightarrow> peer_sys option" where
  "peer_run c fence old [] s = Some s"
| "peer_run c fence old (oper # os) s =
     (if peer_may c fence oper s then Option.bind (peer_exec c old oper s) (peer_run c fence old os) else None)"

lemma peer_run_reach:
  "reach (peer_start mm) (peer_step c fence old) s \<Longrightarrow> peer_run c fence old os s = Some t \<Longrightarrow> reach (peer_start mm) (peer_step c fence old) t"
proof (induction os arbitrary: s)
  case (Cons oper os)
  then obtain s1 where "peer_may c fence oper s" "peer_exec c old oper s = Some s1" "peer_run c fence old os s1 = Some t"
    by (auto split: if_splits bind_splits)
  then show ?case using Cons by (blast intro: reach_step peer_stepI)
qed simp


section \<open>Properties\<close>

text \<open>Two clients, with and without invalidation, and a region of two pages.\<close>

definition peer_ex :: "bool \<Rightarrow> peer_memory_client" where
  "peer_ex req = \<lparr>cl_acquire = (\<lambda>_ _. 1), cl_has_release = True, cl_page_size = 0x10000, cl_version_last = 0, cl_ex_size = 0, cl_flags = 0,
     cl_invalidation_required = req\<rparr>"

definition peer_mm_ex :: umem_mm where
  "peer_mm_ex = \<lparr>mm_pinned_vm = 7, mm_refs = 3, mm_gup = 0, mm_kmem = 5, mm_dma = 0\<rparr>"

definition peer_start_ex :: peer_sys where
  "peer_start_ex = the (ib_register_peer_memory_client ([True, True, True, True, True]) True peer_mm_ex)"

definition peer_map_ex :: "(peer_sg list \<times> nat) option" where
  "peer_map_ex = Some ([\<lparr>sg_dma_address = 0x100000, sg_dma_len = 0x10000, sg_length = 0x10000\<rparr>], 1)"


lemma peer_start_ex_ok: "peer_start peer_mm_ex peer_start_ex"
  by (auto simp: peer_start_def peer_start_ex_def ib_register_peer_memory_client_def ib_memory_peer_check_mandatory_def list_all_iff
      intro!: exI [of _ "[True, True, True, True, True]"] exI [of _ True])

lemma peer_run_ex_reach:
  assumes "peer_run c fence old os peer_start_ex = Some s"
  shows "reach (peer_start peer_mm_ex) (peer_step c fence old) s"
  using peer_run_reach [OF reach_init [where init = "peer_start peer_mm_ex", OF peer_start_ex_ok] assms] .

lemmas peer_run_simps = peer_start_ex_def ib_register_peer_memory_client_def ib_memory_peer_check_mandatory_def peer_ex_def peer_map_ex_def
  peer_get_begin_def peer_get_finish_def client_defs mapping_unlock_def ib_umem_activate_invalidation_notifier_def stop_can_lock_def stop_locks_def
  stop_begin_def release_unmap_def release_erase_def release_put_client_def release_null_def release_kref_def umem_kref_put_def
  inval_lookup_def inval_work_def inval_put_def ib_peer_unmap_on_invalidate_def ib_unmap_peer_client_def invals_def Let_def PAGE_SIZE_def

abbreviation got_ops :: "peer_op list" where
  "got_ops \<equiv> [Op_get_begin True True, Op_get_finish True peer_map_ex]"





text \<open>
  C34. Stopping a region before its invalidation was activated, as the driver does when it cannot create the memory
  key. With invalidation, the mutex that the stop waits for is held by the caller itself since it got the region, and
  stays so whatever the other threads do: the caller never returns. Without, the stop unlocks a mutex that nobody
  holds.\<close>
theorem peer_stop_unactivated:
  assumes "reach (peer_start mm) (peer_step c fence old) s" "p_owner s = O_have"
  shows "if cl_invalidation_required c then \<not> stop_can_lock s else stop_can_lock s \<and> stop_begin c s = None"
proof -
  note inv = peerr.reach_invar [OF assms(1)]
  have own: "owner_ref (p_owner s)" using assms(2) by (simp add: peer_defs)
  from inv_owner [OF inv own] obtain u where u: "p_umem s = Some u" "region_ok c old s u" "0 < up_kref u" "finite (invals s)"
    "up_kref u = 1 + card (invals s)" "\<not> up_has_id u \<longrightarrow> invals s = {}" .
  have r: "up_locked u = up_has_id u" "\<not> up_func u" "up_client u" "up_has_id u = cl_invalidation_required c"
    using u(2) assms(2) by (simp_all add: region_ok_def)
  show ?thesis
  proof (cases "cl_invalidation_required c")
    case True
    then show ?thesis using u(1) r by (simp add: stop_can_lock_def stop_locks_def)
  next
    case False
    then have nl: "\<not> stop_locks u" "\<not> up_locked u" using r by (simp_all add: stop_locks_def)
    from unmap_result [OF r(3), of UMEM_PEER_UNMAPPED "up_state u" s, simplified] obtain w st where w:
      "ib_unmap_peer_client (up_state u) UMEM_PEER_UNMAPPED u s = Some (s\<lparr>p_umem := Some w, p_calls := p_calls s @ unmap_calls (up_state u) UMEM_PEER_UNMAPPED u, p_stats := st\<rparr>)"
      "up_locked w = up_locked u" by blast
    then show ?thesis using False u(1) r(3) nl by (simp add: stop_can_lock_def stop_begin_def Let_def mapping_unlock_def)
  qed
qed

theorem peer_stop_unactivated_witness:
  "\<exists>s. peer_run (peer_ex True) True umem_ex got_ops peer_start_ex = Some s \<and> \<not> stop_can_lock s"
proof -
  have "\<exists>s. peer_run (peer_ex True) True umem_ex got_ops peer_start_ex = Some s \<and> p_owner s = O_have"
    by (simp add: peer_run_simps)
  then obtain s where s: "peer_run (peer_ex True) True umem_ex got_ops peer_start_ex = Some s" "p_owner s = O_have" by blast
  moreover have "cl_invalidation_required (peer_ex True)" by (simp add: peer_ex_def)
  ultimately show ?thesis using peer_stop_unactivated [OF peer_run_ex_reach [OF s(1)] s(2)] by simp
qed

text \<open>
  C35. An invalidation through a \<open>NULL\<close> pointer. Without the waiting release, an invalidation that has found the region
  may get the mutex only after the owner has stopped and released it, and then follows the client pointer that
  the release has set to \<open>NULL\<close>.\<close>
theorem peer_inval_null:
  "\<exists>s. reach (peer_start peer_mm_ex) (peer_step (peer_ex True) False umem_ex) s \<and>
     peer_may (peer_ex True) False (Op_work 0) s \<and> peer_exec (peer_ex True) umem_ex (Op_work 0) s = None"
proof -
  have "\<exists>s. peer_run (peer_ex True) False umem_ex (got_ops @ [Op_activate, Op_lookup 0, Op_stop, Op_rel_unmap, Op_rel_erase, Op_rel_put, Op_rel_null])
      peer_start_ex = Some s \<and> peer_may (peer_ex True) False (Op_work 0) s \<and> peer_exec (peer_ex True) umem_ex (Op_work 0) s = None"
    by (simp add: peer_run_simps)
  then show ?thesis using peer_run_ex_reach by blast
qed

end
