(* ===== verification/Mfa2.thy ===== *)
theory Mfa2
  imports Mlx_Prelude
begin

text \<open>
  The parser of firmware packages (\<open>drivers/net/ethernet/mellanox/mlxfw/mlxfw_mfa2.c\<close>, \<open>mlxfw_mfa2_tlv_multi.c\<close> and their headers): a package is
  a tree of type-length-value records, followed by a compressed block with the components.

  Correspondence.
  \<^item> \<open>struct firmware\<close> of the kernel has the size of a package and a pointer to it. Here \<open>fw_data\<close> is the memory that may be read from that
    pointer on. It may be longer than the package, so that a read behind the package has a value and the program goes on.
    A pointer into the package is an offset, \<open>NULL\<close> is \<open>None\<close>.
  \<^item> A read outside the memory is the fault \<open>Overread\<close> with its offset, a use of \<open>NULL\<close> the fault \<open>Null_deref\<close>;
    \<open>Buf_overread\<close> is a read behind the buffer of a component.
  \<^item> A loop that runs forever has the value \<open>None\<close>: the loops over records are defined by \<open>partial_function\<close>, as the code
    counts with 16 bits.
  \<^item> The decoder of the compressed block (\<open>xz_dec_run\<close>, of the kernel) is an argument.
\<close>

section \<open>Reading the package\<close>

record firmware =
  fw_data :: "u8 list"
  fw_size :: nat

datatype fault = Overread nat | Null_deref | Buf_overread

type_synonym 'a parse = "(fault + 'a) option"

definition ret :: "'a \<Rightarrow> 'a parse" where "ret x = Some (Inr x)"

definition bnd :: "'a parse \<Rightarrow> ('a \<Rightarrow> 'b parse) \<Rightarrow> 'b parse" where
  "bnd m k = (case m of None \<Rightarrow> None | Some (Inl f) \<Rightarrow> Some (Inl f) | Some (Inr x) \<Rightarrow> k x)"

lemma bnd_ret [simp]: "bnd (ret x) k = k x"
  by (simp add: bnd_def ret_def)

lemma ret_eq [simp]: "ret x = ret y \<longleftrightarrow> x = y"
  by (simp add: ret_def)

definition rd8 :: "firmware \<Rightarrow> nat \<Rightarrow> nat parse" where
  "rd8 fw p = (if p < length (fw_data fw) then ret (unat (fw_data fw ! p)) else Some (Inl (Overread p)))"

definition be16 :: "firmware \<Rightarrow> nat \<Rightarrow> nat parse" where
  "be16 fw p = bnd (rd8 fw p) (\<lambda>a. bnd (rd8 fw (p + 1)) (\<lambda>b. ret (a * 256 + b)))"

definition be32 :: "firmware \<Rightarrow> nat \<Rightarrow> nat parse" where
  "be32 fw p = bnd (be16 fw p) (\<lambda>a. bnd (be16 fw (p + 2)) (\<lambda>b. ret (a * 65536 + b)))"

definition NLA_ALIGN :: "nat \<Rightarrow> nat" where "NLA_ALIGN n = (n + 3) div 4 * 4"

definition mlxfw_mfa2_valid_ptr :: "firmware \<Rightarrow> nat \<Rightarrow> bool" where
  "mlxfw_mfa2_valid_ptr fw p \<longleftrightarrow> 0 < p \<and> p < fw_size fw"

section \<open>Records\<close>

definition MLXFW_MFA2_TLV_MULTI_PART :: nat where "MLXFW_MFA2_TLV_MULTI_PART = 0x01"
definition MLXFW_MFA2_TLV_PACKAGE_DESCRIPTOR :: nat where "MLXFW_MFA2_TLV_PACKAGE_DESCRIPTOR = 0x02"
definition MLXFW_MFA2_TLV_COMPONENT_DESCRIPTOR :: nat where "MLXFW_MFA2_TLV_COMPONENT_DESCRIPTOR = 0x04"
definition MLXFW_MFA2_TLV_COMPONENT_PTR :: nat where "MLXFW_MFA2_TLV_COMPONENT_PTR = 0x22"
definition MLXFW_MFA2_TLV_PSID :: nat where "MLXFW_MFA2_TLV_PSID = 0x2A"

lemmas tlv_types = MLXFW_MFA2_TLV_MULTI_PART_def MLXFW_MFA2_TLV_PACKAGE_DESCRIPTOR_def MLXFW_MFA2_TLV_COMPONENT_DESCRIPTOR_def
  MLXFW_MFA2_TLV_COMPONENT_PTR_def MLXFW_MFA2_TLV_PSID_def

text \<open>The header of a record: \<open>version\<close>, \<open>type\<close>, \<open>len\<close>.\<close>

definition tlv_type :: "firmware \<Rightarrow> nat \<Rightarrow> nat parse" where "tlv_type fw tlv = rd8 fw (tlv + 1)"
definition tlv_len :: "firmware \<Rightarrow> nat \<Rightarrow> nat parse" where "tlv_len fw tlv = be16 fw (tlv + 2)"

definition mlxfw_mfa2_tlv_get :: "firmware \<Rightarrow> nat \<Rightarrow> nat option" where
  "mlxfw_mfa2_tlv_get fw p = (if \<not> mlxfw_mfa2_valid_ptr fw p \<or> \<not> mlxfw_mfa2_valid_ptr fw (p + 4) then None else Some p)"

definition mlxfw_mfa2_tlv_payload_get :: "firmware \<Rightarrow> nat \<Rightarrow> nat \<Rightarrow> nat \<Rightarrow> bool \<Rightarrow> nat option parse" where
  "mlxfw_mfa2_tlv_payload_get fw tlv payload_type payload_size varsize =
     bnd (tlv_len fw tlv) (\<lambda>len.
       let tlv_top = tlv + len - 1 in
       if \<not> mlxfw_mfa2_valid_ptr fw tlv \<or> \<not> mlxfw_mfa2_valid_ptr fw tlv_top then ret None
       else bnd (tlv_type fw tlv) (\<lambda>type.
         if type \<noteq> payload_type then ret None
         else if varsize \<and> len < payload_size then ret None
         else if \<not> varsize \<and> len \<noteq> payload_size then ret None
         else ret (Some (tlv + 4))))"

definition mlxfw_mfa2_tlv_package_descriptor_get :: "firmware \<Rightarrow> nat \<Rightarrow> nat option parse" where
  "mlxfw_mfa2_tlv_package_descriptor_get fw tlv = mlxfw_mfa2_tlv_payload_get fw tlv MLXFW_MFA2_TLV_PACKAGE_DESCRIPTOR 28 False"

definition mlxfw_mfa2_tlv_multi_get :: "firmware \<Rightarrow> nat \<Rightarrow> nat option parse" where
  "mlxfw_mfa2_tlv_multi_get fw tlv = mlxfw_mfa2_tlv_payload_get fw tlv MLXFW_MFA2_TLV_MULTI_PART 4 False"

definition mlxfw_mfa2_tlv_psid_get :: "firmware \<Rightarrow> nat \<Rightarrow> nat option parse" where
  "mlxfw_mfa2_tlv_psid_get fw tlv = mlxfw_mfa2_tlv_payload_get fw tlv MLXFW_MFA2_TLV_PSID 0 True"

definition mlxfw_mfa2_tlv_component_ptr_get :: "firmware \<Rightarrow> nat \<Rightarrow> nat option parse" where
  "mlxfw_mfa2_tlv_component_ptr_get fw tlv = mlxfw_mfa2_tlv_payload_get fw tlv MLXFW_MFA2_TLV_COMPONENT_PTR 8 False"

definition mlxfw_mfa2_tlv_component_descriptor_get :: "firmware \<Rightarrow> nat \<Rightarrow> nat option parse" where
  "mlxfw_mfa2_tlv_component_descriptor_get fw tlv = mlxfw_mfa2_tlv_payload_get fw tlv MLXFW_MFA2_TLV_COMPONENT_DESCRIPTOR 16 False"

lemmas payload_defs = mlxfw_mfa2_tlv_package_descriptor_get_def mlxfw_mfa2_tlv_multi_get_def mlxfw_mfa2_tlv_psid_get_def
  mlxfw_mfa2_tlv_component_ptr_get_def mlxfw_mfa2_tlv_component_descriptor_get_def

definition mlxfw_mfa2_tlv_multi_child :: "firmware \<Rightarrow> nat \<Rightarrow> nat option" where
  "mlxfw_mfa2_tlv_multi_child fw multi = mlxfw_mfa2_tlv_get fw (multi + NLA_ALIGN 4)"

text \<open>\<open>tlv_len\<close> is a 16-bit variable.\<close>

definition mlxfw_mfa2_tlv_next :: "firmware \<Rightarrow> nat \<Rightarrow> nat option parse" where
  "mlxfw_mfa2_tlv_next fw tlv =
     bnd (tlv_len fw tlv) (\<lambda>len.
       let tlv_len = NLA_ALIGN (4 + len) mod 65536 in
       bnd (tlv_type fw tlv) (\<lambda>type.
         if type = MLXFW_MFA2_TLV_MULTI_PART
         then bnd (mlxfw_mfa2_tlv_multi_get fw tlv) (\<lambda>multi.
           case multi of
             None \<Rightarrow> ret None
           | Some multi \<Rightarrow> bnd (be16 fw (multi + 2)) (\<lambda>total_len.
               ret (mlxfw_mfa2_tlv_get fw (tlv + NLA_ALIGN (tlv_len + total_len) mod 65536))))
         else ret (mlxfw_mfa2_tlv_get fw (tlv + tlv_len))))"

section \<open>Loops over records\<close>

text \<open>\<open>mlxfw_mfa2_tlv_foreach\<close>. The body gets the record and the loop's variables, and returns from the function or goes on. The
  index has 16 bits: it never reaches the bound 65536.\<close>

partial_function (option) tlv_foreach ::
  "firmware \<Rightarrow> (nat option \<Rightarrow> 's \<Rightarrow> ('r + 's) parse) \<Rightarrow> nat \<Rightarrow> nat \<Rightarrow> nat option \<Rightarrow> 's \<Rightarrow> ('r + (nat option \<times> 's)) parse" where
  "tlv_foreach fw body cnt idx tlv s =
     (if \<not> idx < cnt then ret (Inr (tlv, s))
      else case body tlv s of
          None \<Rightarrow> None
        | Some (Inl f) \<Rightarrow> Some (Inl f)
        | Some (Inr (Inl r)) \<Rightarrow> ret (Inl r)
        | Some (Inr (Inr s)) \<Rightarrow>
            (case tlv of
               None \<Rightarrow> Some (Inl Null_deref)
             | Some t \<Rightarrow>
                 (case mlxfw_mfa2_tlv_next fw t of
                    None \<Rightarrow> None
                  | Some (Inl f) \<Rightarrow> Some (Inl f)
                  | Some (Inr t) \<Rightarrow> tlv_foreach fw body cnt ((idx + 1) mod 65536) t s)))"

text \<open>\<open>mlxfw_mfa2_tlv_multi_foreach\<close>\<close>

definition tlv_multi_foreach ::
  "firmware \<Rightarrow> (nat option \<Rightarrow> 's \<Rightarrow> ('r + 's) parse) \<Rightarrow> nat \<Rightarrow> 's \<Rightarrow> ('r + (nat option \<times> 's)) parse" where
  "tlv_multi_foreach fw body multi s =
     bnd (be16 fw multi) (\<lambda>num_extensions.
       tlv_foreach fw body (num_extensions + 1) 0 (mlxfw_mfa2_tlv_multi_child fw multi) s)"

definition mlxfw_mfa2_tlv_advance :: "firmware \<Rightarrow> nat option \<Rightarrow> nat \<Rightarrow> nat option parse" where
  "mlxfw_mfa2_tlv_advance fw from_tlv cnt =
     bnd (tlv_foreach fw (\<lambda>tlv s. if tlv = None then ret (Inl ()) else ret (Inr s)) cnt 0 from_tlv ())
       (\<lambda>r. case r of Inl _ \<Rightarrow> ret None | Inr (tlv, _) \<Rightarrow> ret tlv)"

definition mlxfw_mfa2_tlv_multi_child_find :: "firmware \<Rightarrow> nat \<Rightarrow> nat \<Rightarrow> nat \<Rightarrow> nat option parse" where
  "mlxfw_mfa2_tlv_multi_child_find fw multi type index =
     bnd (tlv_multi_foreach fw
         (\<lambda>tlv skip. case tlv of
             None \<Rightarrow> ret (Inl None)
           | Some t \<Rightarrow> bnd (tlv_type fw t) (\<lambda>ty.
               if ty = type then if skip = index then ret (Inl (Some t)) else ret (Inr ((skip + 1) mod 65536))
               else ret (Inr skip)))
         multi 0)
       (\<lambda>r. case r of Inl t \<Rightarrow> ret t | Inr _ \<Rightarrow> ret None)"

definition mlxfw_mfa2_tlv_multi_child_count :: "firmware \<Rightarrow> nat \<Rightarrow> nat \<Rightarrow> nat result parse" where
  "mlxfw_mfa2_tlv_multi_child_count fw multi type =
     bnd (tlv_multi_foreach fw
         (\<lambda>tlv cnt. case tlv of
             None \<Rightarrow> ret (Inl ())
           | Some t \<Rightarrow> bnd (tlv_type fw t) (\<lambda>ty. if ty = type then ret (Inr ((cnt + 1) mod 65536)) else ret (Inr cnt)))
         multi 0)
       (\<lambda>r. case r of Inl _ \<Rightarrow> ret (Inl EINVAL) | Inr (_, cnt) \<Rightarrow> ret (Inr cnt))"

definition mlxfw_mfa2_tlv_multi_validate :: "firmware \<Rightarrow> nat \<Rightarrow> bool parse" where
  "mlxfw_mfa2_tlv_multi_validate fw multi =
     bnd (tlv_multi_foreach fw (\<lambda>tlv s. if tlv = None then ret (Inl ()) else ret (Inr s)) multi ())
       (\<lambda>r. case r of Inl _ \<Rightarrow> ret False | Inr _ \<Rightarrow> ret True)"

section \<open>Validation\<close>

definition ascii :: "string \<Rightarrow> u8 list" where "ascii s = map (\<lambda>c. of_nat (of_char c)) s"

definition mlxfw_mfa2_fingerprint :: "u8 list" where "mlxfw_mfa2_fingerprint = ascii ''MLNX.MFA2.XZ.00!''"
definition mlxfw_mfa2_comp_magic :: "u8 list" where "mlxfw_mfa2_comp_magic = ascii ''#BIN.COMPONENT!#''"

text \<open>The C array of the fingerprint has a terminating zero, which \<open>sizeof\<close> counts.\<close>

definition mlxfw_mfa2_check :: "firmware \<Rightarrow> bool" where
  "mlxfw_mfa2_check fw \<longleftrightarrow> \<not> fw_size fw < length mlxfw_mfa2_fingerprint + 1 \<and>
     take (length mlxfw_mfa2_fingerprint) (fw_data fw) = mlxfw_mfa2_fingerprint"

text \<open>The loop over the component pointers of a device; \<open>n\<close> pointers are left.\<close>

fun cptr_validate :: "firmware \<Rightarrow> nat \<Rightarrow> nat \<Rightarrow> nat \<Rightarrow> bool parse" where
  "cptr_validate fw multi cptr_idx 0 = ret True"
| "cptr_validate fw multi cptr_idx (Suc n) =
     bnd (mlxfw_mfa2_tlv_multi_child_find fw multi MLXFW_MFA2_TLV_COMPONENT_PTR cptr_idx) (\<lambda>tlv. case tlv of
         None \<Rightarrow> ret False
       | Some tlv \<Rightarrow> bnd (mlxfw_mfa2_tlv_component_ptr_get fw tlv) (\<lambda>cptr. case cptr of
             None \<Rightarrow> ret False
           | Some cptr \<Rightarrow> bnd (be16 fw (cptr + 2)) (\<lambda>_. cptr_validate fw multi (cptr_idx + 1) n)))"

definition mlxfw_mfa2_file_dev_validate :: "firmware \<Rightarrow> nat \<Rightarrow> bool parse" where
  "mlxfw_mfa2_file_dev_validate fw dev_tlv =
     bnd (mlxfw_mfa2_tlv_multi_get fw dev_tlv) (\<lambda>multi. case multi of
         None \<Rightarrow> ret False
       | Some multi \<Rightarrow> bnd (mlxfw_mfa2_tlv_multi_validate fw multi) (\<lambda>valid.
           if \<not> valid then ret False
           else bnd (mlxfw_mfa2_tlv_multi_child_find fw multi MLXFW_MFA2_TLV_PSID 0) (\<lambda>tlv. case tlv of
               None \<Rightarrow> ret False
             | Some tlv \<Rightarrow> bnd (mlxfw_mfa2_tlv_psid_get fw tlv) (\<lambda>psid.
                 if psid = None then ret False
                 else bnd (mlxfw_mfa2_tlv_multi_child_count fw multi MLXFW_MFA2_TLV_COMPONENT_PTR) (\<lambda>cptr_count.
                   case cptr_count of
                     Inl _ \<Rightarrow> ret False
                   | Inr cptr_count \<Rightarrow>
                       if cptr_count = 0 then ret False else cptr_validate fw multi 0 cptr_count)))))"

text \<open>The fields of a component descriptor.\<close>

definition cdesc_identifier :: "firmware \<Rightarrow> nat \<Rightarrow> nat parse" where "cdesc_identifier fw cdesc = be16 fw (cdesc + 2)"

definition cdesc_cb_offset :: "firmware \<Rightarrow> nat \<Rightarrow> nat parse" where
  "cdesc_cb_offset fw cdesc = bnd (be32 fw (cdesc + 4)) (\<lambda>h. bnd (be32 fw (cdesc + 8)) (\<lambda>l. ret (h * 2 ^ 32 + l)))"

definition cdesc_size :: "firmware \<Rightarrow> nat \<Rightarrow> nat parse" where "cdesc_size fw cdesc = be32 fw (cdesc + 12)"

definition mlxfw_mfa2_file_comp_validate :: "firmware \<Rightarrow> nat \<Rightarrow> bool parse" where
  "mlxfw_mfa2_file_comp_validate fw comp_tlv =
     bnd (mlxfw_mfa2_tlv_multi_get fw comp_tlv) (\<lambda>multi. case multi of
         None \<Rightarrow> ret False
       | Some multi \<Rightarrow> bnd (mlxfw_mfa2_tlv_multi_validate fw multi) (\<lambda>valid.
           if \<not> valid then ret False
           else case mlxfw_mfa2_tlv_multi_child fw multi of
               None \<Rightarrow> ret False
             | Some tlv \<Rightarrow> bnd (mlxfw_mfa2_tlv_component_descriptor_get fw tlv) (\<lambda>cdesc. case cdesc of
                   None \<Rightarrow> ret False
                 | Some cdesc \<Rightarrow> bnd (cdesc_identifier fw cdesc) (\<lambda>_. bnd (cdesc_cb_offset fw cdesc) (\<lambda>_.
                     bnd (cdesc_size fw cdesc) (\<lambda>_. ret True))))))"

record mlxfw_mfa2_file =
  fw :: "firmware"
  first_dev :: "nat option"
  dev_count :: nat
  first_component :: "nat option"
  component_count :: nat
  cb :: nat
  cb_archive_size :: nat

definition tlvs_validate :: "firmware \<Rightarrow> (nat \<Rightarrow> bool parse) \<Rightarrow> nat option \<Rightarrow> nat \<Rightarrow> bool parse" where
  "tlvs_validate d validate from_tlv cnt =
     bnd (tlv_foreach d (\<lambda>tlv s. case tlv of
           None \<Rightarrow> ret (Inl ())
         | Some tlv \<Rightarrow> bnd (validate tlv) (\<lambda>ok. if ok then ret (Inr s) else ret (Inl ()))) cnt 0 from_tlv ())
       (\<lambda>r. case r of Inl _ \<Rightarrow> ret False | Inr _ \<Rightarrow> ret True)"

definition mlxfw_mfa2_file_validate :: "mlxfw_mfa2_file \<Rightarrow> bool parse" where
  "mlxfw_mfa2_file_validate f =
     bnd (tlvs_validate (fw f) (mlxfw_mfa2_file_dev_validate (fw f)) (first_dev f) (dev_count f)) (\<lambda>ok.
       if \<not> ok then ret False
       else tlvs_validate (fw f) (mlxfw_mfa2_file_comp_validate (fw f)) (first_component f) (component_count f))"

text \<open>\<open>NLA_ALIGN\<close> of a 32-bit number is a 32-bit number; \<open>kzalloc_ok\<close> says whether the allocation succeeds.\<close>

definition file_init_cb :: "mlxfw_mfa2_file \<Rightarrow> nat \<Rightarrow> mlxfw_mfa2_file result parse" where
  "file_init_cb f pd =
     bnd (be32 (fw f) (pd + 4)) (\<lambda>cb_offset.
       let f = f\<lparr>cb := NLA_ALIGN cb_offset mod 2 ^ 32\<rparr> in
       if \<not> mlxfw_mfa2_valid_ptr (fw f) (cb f) then ret (Inl EINVAL)
       else bnd (be32 (fw f) (pd + 8)) (\<lambda>archive_size.
         let f = f\<lparr>cb_archive_size := archive_size\<rparr> in
         if \<not> mlxfw_mfa2_valid_ptr (fw f) (cb f + cb_archive_size f - 1) then ret (Inl EINVAL)
         else bnd (mlxfw_mfa2_file_validate f) (\<lambda>ok. ret (if ok then Inr f else Inl EINVAL))))"

definition mlxfw_mfa2_file_init :: "bool \<Rightarrow> firmware \<Rightarrow> mlxfw_mfa2_file result parse" where
  "mlxfw_mfa2_file_init kzalloc_ok d =
     (if \<not> kzalloc_ok then ret (Inl ENOMEM)
      else case mlxfw_mfa2_tlv_get d (NLA_ALIGN (length mlxfw_mfa2_fingerprint)) of
        None \<Rightarrow> ret (Inl EINVAL)
      | Some first_tlv \<Rightarrow> bnd (mlxfw_mfa2_tlv_multi_get d first_tlv) (\<lambda>multi. case multi of
          None \<Rightarrow> ret (Inl EINVAL)
        | Some multi \<Rightarrow> (case mlxfw_mfa2_tlv_multi_child d multi of
            None \<Rightarrow> ret (Inl EINVAL)
          | Some multi_child \<Rightarrow> bnd (mlxfw_mfa2_tlv_package_descriptor_get d multi_child) (\<lambda>pd. case pd of
              None \<Rightarrow> ret (Inl EINVAL)
            | Some pd \<Rightarrow> bnd (mlxfw_mfa2_tlv_next d first_tlv) (\<lambda>dev. case dev of
                None \<Rightarrow> ret (Inl EINVAL)
              | Some dev \<Rightarrow>
                  bnd (be16 d (pd + 2)) (\<lambda>num_devices.
                  bnd (mlxfw_mfa2_tlv_advance d (Some dev) num_devices) (\<lambda>comp.
                  bnd (be16 d pd) (\<lambda>num_components.
                    file_init_cb \<lparr>fw = d, first_dev = Some dev, dev_count = num_devices,
                      first_component = comp, component_count = num_components, cb = 0, cb_archive_size = 0\<rparr> pd))))))))"

section \<open>Looking up a component\<close>

text \<open>\<open>memcmp\<close> of a string with bytes of the package reads all of them.\<close>

fun rd_bytes :: "firmware \<Rightarrow> nat \<Rightarrow> nat \<Rightarrow> nat list parse" where
  "rd_bytes d p 0 = ret []"
| "rd_bytes d p (Suc n) = bnd (rd8 d p) (\<lambda>b. bnd (rd_bytes d (p + 1) n) (\<lambda>bs. ret (b # bs)))"

text \<open>The identification of the device, \<open>psid\<close> with \<open>psid_size\<close>, is one list. \<open>mlxfw_mfa2_tlv_dev_get\<close> takes the size with 16 bits.\<close>

definition mlxfw_mfa2_tlv_dev_get :: "mlxfw_mfa2_file \<Rightarrow> u8 list \<Rightarrow> nat option parse" where
  "mlxfw_mfa2_tlv_dev_get f psid =
     (let psid_size = length psid mod 65536 in bnd (tlv_foreach (fw f) (\<lambda>dev_tlv s. case dev_tlv of
           None \<Rightarrow> ret (Inl None)
         | Some dev_tlv \<Rightarrow> bnd (mlxfw_mfa2_tlv_multi_get (fw f) dev_tlv) (\<lambda>dev_multi. case dev_multi of
             None \<Rightarrow> ret (Inl None)
           | Some dev_multi \<Rightarrow> bnd (mlxfw_mfa2_tlv_multi_child_find (fw f) dev_multi MLXFW_MFA2_TLV_PSID 0) (\<lambda>tlv. case tlv of
               None \<Rightarrow> ret (Inl None)
             | Some tlv \<Rightarrow> bnd (tlv_len (fw f) tlv) (\<lambda>len.
                 if len \<noteq> psid_size then ret (Inr s)
                 else bnd (mlxfw_mfa2_tlv_psid_get (fw f) tlv) (\<lambda>tlv_psid. case tlv_psid of
                     None \<Rightarrow> ret (Inl None)
                   | Some tlv_psid \<Rightarrow> bnd (rd_bytes (fw f) tlv_psid psid_size) (\<lambda>bs.
                       if bs = map unat (take psid_size psid) then ret (Inl (Some dev_multi)) else ret (Inr s)))))))
         (dev_count f) 0 (first_dev f) ())
       (\<lambda>r. case r of Inl dev_multi \<Rightarrow> ret dev_multi | Inr _ \<Rightarrow> ret None))"

definition mlxfw_mfa2_file_component_count :: "mlxfw_mfa2_file \<Rightarrow> u8 list \<Rightarrow> nat result parse" where
  "mlxfw_mfa2_file_component_count f psid =
     bnd (mlxfw_mfa2_tlv_dev_get f psid) (\<lambda>dev_multi. case dev_multi of
         None \<Rightarrow> ret (Inl EINVAL)
       | Some dev_multi \<Rightarrow> mlxfw_mfa2_tlv_multi_child_count (fw f) dev_multi MLXFW_MFA2_TLV_COMPONENT_PTR)"

definition mlxfw_mfa2_file_component_tlv_get :: "mlxfw_mfa2_file \<Rightarrow> nat \<Rightarrow> nat option parse" where
  "mlxfw_mfa2_file_component_tlv_get f comp_index =
     (if comp_index > component_count f then ret None
      else bnd (mlxfw_mfa2_tlv_advance (fw f) (first_component f) comp_index) (\<lambda>comp_tlv. case comp_tlv of
          None \<Rightarrow> ret None
        | Some comp_tlv \<Rightarrow> bnd (mlxfw_mfa2_tlv_multi_get (fw f) comp_tlv) (\<lambda>multi. case multi of
            None \<Rightarrow> ret None
          | Some multi \<Rightarrow> (case mlxfw_mfa2_tlv_multi_child (fw f) multi of
              None \<Rightarrow> ret None
            | Some multi_child \<Rightarrow> mlxfw_mfa2_tlv_component_descriptor_get (fw f) multi_child))))"

definition mlxfw_mfa2_file_component_find :: "mlxfw_mfa2_file \<Rightarrow> u8 list \<Rightarrow> nat \<Rightarrow> nat option parse" where
  "mlxfw_mfa2_file_component_find f psid component_index =
     bnd (mlxfw_mfa2_tlv_dev_get f psid) (\<lambda>dev_multi. case dev_multi of
         None \<Rightarrow> ret None
       | Some dev_multi \<Rightarrow>
           bnd (mlxfw_mfa2_tlv_multi_child_find (fw f) dev_multi MLXFW_MFA2_TLV_COMPONENT_PTR (component_index mod 65536))
             (\<lambda>cptr_tlv. case cptr_tlv of
                 None \<Rightarrow> ret None
               | Some cptr_tlv \<Rightarrow> bnd (mlxfw_mfa2_tlv_component_ptr_get (fw f) cptr_tlv) (\<lambda>cptr. case cptr of
                   None \<Rightarrow> ret None
                 | Some cptr \<Rightarrow> bnd (be16 (fw f) (cptr + 2)) (\<lambda>comp_idx. mlxfw_mfa2_file_component_tlv_get f comp_idx))))"

section \<open>Decompression\<close>

text \<open>The decoder of the kernel: from its state, the input, the position in the input and the room for output, it gives a status, the
  bytes written, and its new state and position.\<close>

datatype xz_ret = XZ_OK | XZ_STREAM_END | XZ_UNSUPPORTED_CHECK | XZ_MEM_ERROR | XZ_MEMLIMIT_ERROR | XZ_FORMAT_ERROR
  | XZ_OPTIONS_ERROR | XZ_DATA_ERROR | XZ_BUF_ERROR

type_synonym 'd xz_dec_run = "'d \<Rightarrow> u8 list \<Rightarrow> nat \<Rightarrow> nat \<Rightarrow> xz_ret \<times> u8 list \<times> 'd \<times> nat"

text \<open>The result is the error, or whether the stream has ended.\<close>

definition xz_status :: "xz_ret \<Rightarrow> bool result" where
  "xz_status r = (case r of
       XZ_STREAM_END \<Rightarrow> Inr True
     | XZ_OK \<Rightarrow> Inr False
     | XZ_MEM_ERROR \<Rightarrow> Inl ENOMEM
     | _ \<Rightarrow> Inl EINVAL)"

definition mlxfw_mfa2_xz_dec_run ::
  "'d xz_dec_run \<Rightarrow> 'd \<Rightarrow> u8 list \<Rightarrow> nat \<Rightarrow> nat \<Rightarrow> bool result \<times> u8 list \<times> 'd \<times> nat" where
  "mlxfw_mfa2_xz_dec_run run xz_dec inp in_pos out_size =
     (case run xz_dec inp in_pos out_size of (xz_ret, out, xz_dec, in_pos) \<Rightarrow> (xz_status xz_ret, out, xz_dec, in_pos))"

text \<open>The bytes that the decoder writes at the start of the buffer.\<close>

definition buf_write :: "u8 list \<Rightarrow> u8 list \<Rightarrow> u8 list" where "buf_write out buf = out @ drop (length out) buf"

text \<open>The loop that decodes up to the offset.\<close>

partial_function (option) xz_skip ::
  "'d xz_dec_run \<Rightarrow> u8 list \<Rightarrow> nat \<Rightarrow> nat \<Rightarrow> nat \<Rightarrow> 'd \<Rightarrow> nat \<Rightarrow> u8 list \<Rightarrow> ('d \<times> nat \<times> u8 list) result option" where
  "xz_skip run inp off sz curr_off xz_dec in_pos buf =
     (let out_size = min sz (off - curr_off) in
      if out_size = 0 then Some (Inr (xz_dec, in_pos, buf))
      else case mlxfw_mfa2_xz_dec_run run xz_dec inp in_pos out_size of
          (Inl e, _) \<Rightarrow> Some (Inl e)
        | (Inr finished, out, xz_dec, in_pos) \<Rightarrow>
            if finished then Some (Inl EINVAL)
            else if curr_off + length out \<noteq> off
            then xz_skip run inp off sz (curr_off + length out) xz_dec in_pos (buf_write out buf)
            else Some (Inr (xz_dec, in_pos, buf_write out buf)))"

definition mlxfw_mfa2_file_cb_offset_xz ::
  "'d option \<Rightarrow> 'd xz_dec_run \<Rightarrow> mlxfw_mfa2_file \<Rightarrow> nat \<Rightarrow> nat \<Rightarrow> u8 list \<Rightarrow> u8 list result option" where
  "mlxfw_mfa2_file_cb_offset_xz xz_dec_init run f off sz buf =
     (case xz_dec_init of
        None \<Rightarrow> Some (Inl EINVAL)
      | Some xz_dec \<Rightarrow>
          let inp = take (cb_archive_size f) (drop (cb f) (fw_data (fw f))) in
          (case xz_skip run inp off sz 0 xz_dec 0 buf of
             None \<Rightarrow> None
           | Some (Inl e) \<Rightarrow> Some (Inl e)
           | Some (Inr (xz_dec, in_pos, buf)) \<Rightarrow>
               (case mlxfw_mfa2_xz_dec_run run xz_dec inp in_pos sz of
                  (Inl e, _) \<Rightarrow> Some (Inl e)
                | (Inr _, out, _) \<Rightarrow> Some (Inr (buf_write out buf)))))"

record mlxfw_mfa2_component =
  comp_index :: nat
  data_size :: nat
  comp_data :: "u8 list"

text \<open>From the decompression to the end; \<open>comp_buf_size\<close> has 32 bits.\<close>

definition component_read ::
  "'d option \<Rightarrow> 'd xz_dec_run \<Rightarrow> mlxfw_mfa2_file \<Rightarrow> nat \<Rightarrow> nat \<Rightarrow> nat \<Rightarrow> mlxfw_mfa2_component result parse" where
  "component_read xz_dec_init run f cb_offset comp_size identifier =
     (let comp_buf_size = (comp_size + length mlxfw_mfa2_comp_magic) mod 2 ^ 32 in
      case mlxfw_mfa2_file_cb_offset_xz xz_dec_init run f cb_offset comp_buf_size (replicate comp_buf_size 0) of
        None \<Rightarrow> None
      | Some (Inl e) \<Rightarrow> ret (Inl e)
      | Some (Inr buff) \<Rightarrow>
          if length buff < length mlxfw_mfa2_comp_magic then Some (Inl Buf_overread)
          else if take (length mlxfw_mfa2_comp_magic) buff \<noteq> mlxfw_mfa2_comp_magic then ret (Inl EINVAL)
          else ret (Inr \<lparr>comp_index = identifier, data_size = comp_size, comp_data = drop (length mlxfw_mfa2_comp_magic) buff\<rparr>))"

text \<open>\<open>vzalloc_ok\<close> says whether the allocation succeeds.\<close>

definition mlxfw_mfa2_file_component_get ::
  "'d option \<Rightarrow> 'd xz_dec_run \<Rightarrow> bool \<Rightarrow> mlxfw_mfa2_file \<Rightarrow> u8 list \<Rightarrow> nat \<Rightarrow> mlxfw_mfa2_component result parse" where
  "mlxfw_mfa2_file_component_get xz_dec_init run vzalloc_ok f psid component_index =
     bnd (mlxfw_mfa2_file_component_find f psid component_index) (\<lambda>cdesc. case cdesc of
         None \<Rightarrow> ret (Inl EINVAL)
       | Some cdesc \<Rightarrow>
           bnd (cdesc_cb_offset (fw f) cdesc) (\<lambda>cb_offset.
           bnd (cdesc_size (fw f) cdesc) (\<lambda>comp_size.
             if \<not> vzalloc_ok then ret (Inl ENOMEM)
             else bnd (cdesc_identifier (fw f) cdesc) (\<lambda>identifier.
               component_read xz_dec_init run f cb_offset comp_size identifier))))"

section \<open>Reads are in bounds\<close>

text \<open>The only faults of \<open>m\<close> are reads below \<open>n\<close> that the memory of the package does not allow, and its result has the property \<open>Q\<close>. When the
  memory has \<open>n\<close> bytes or more there is no fault at all.\<close>

fun outcome :: "firmware \<Rightarrow> nat \<Rightarrow> ('a \<Rightarrow> bool) \<Rightarrow> fault + 'a \<Rightarrow> bool" where
  "outcome d n Q (Inl (Overread p)) \<longleftrightarrow> length (fw_data d) \<le> p \<and> p < n"
| "outcome d n Q (Inl _) \<longleftrightarrow> False"
| "outcome d n Q (Inr x) \<longleftrightarrow> Q x"

definition reads_below :: "firmware \<Rightarrow> nat \<Rightarrow> 'a parse \<Rightarrow> ('a \<Rightarrow> bool) \<Rightarrow> bool" where
  "reads_below d n m Q \<longleftrightarrow> (\<forall>y. m = Some y \<longrightarrow> outcome d n Q y)"

lemma outcome_Inl: "outcome d n Q (Inl f) \<longleftrightarrow> (\<exists>p < n. length (fw_data d) \<le> p \<and> f = Overread p)"
  by (cases f) auto

lemma reads_ret: "Q x \<Longrightarrow> reads_below d n (ret x) Q"
  by (simp add: reads_below_def ret_def)

lemma reads_bnd: "reads_below d n m R \<Longrightarrow> (\<And>x. R x \<Longrightarrow> m = ret x \<Longrightarrow> reads_below d n (k x) Q) \<Longrightarrow> reads_below d n (bnd m k) Q"
  by (auto simp: reads_below_def bnd_def ret_def outcome_Inl split: option.splits sum.splits)

lemma reads_mono: "reads_below d n m R \<Longrightarrow> (\<And>x. R x \<Longrightarrow> Q x) \<Longrightarrow> reads_below d n m Q"
  unfolding reads_below_def
proof (intro allI impI)
  fix y
  assume "\<forall>y. m = Some y \<longrightarrow> outcome d n R y" and Q: "\<And>x. R x \<Longrightarrow> Q x" and "m = Some y"
  then have "outcome d n R y" by blast
  then show "outcome d n Q y" by (cases y) (auto simp: outcome_Inl Q)
qed

lemma reads_if: "(c \<Longrightarrow> reads_below d n m Q) \<Longrightarrow> (\<not> c \<Longrightarrow> reads_below d n m' Q) \<Longrightarrow> reads_below d n (if c then m else m') Q"
  by simp

lemma reads_option: "(r = None \<Longrightarrow> reads_below d n m Q) \<Longrightarrow> (\<And>x. r = Some x \<Longrightarrow> reads_below d n (k x) Q) \<Longrightarrow>
    reads_below d n (case r of None \<Rightarrow> m | Some x \<Rightarrow> k x) Q"
  by (cases r) simp_all

lemma reads_sum: "(\<And>x. r = Inl x \<Longrightarrow> reads_below d n (k x) Q) \<Longrightarrow> (\<And>x. r = Inr x \<Longrightarrow> reads_below d n (k' x) Q) \<Longrightarrow>
    reads_below d n (case r of Inl x \<Rightarrow> k x | Inr x \<Rightarrow> k' x) Q"
  by (cases r) simp_all

lemmas reads = reads_if reads_option reads_sum reads_ret

lemma reads_rd8: "p < n \<Longrightarrow> reads_below d n (rd8 d p) (\<lambda>v. v < 256)"
  using unsigned_less [of "fw_data d ! p", where ?'a = nat] by (auto simp: reads_below_def rd8_def ret_def split: if_splits)

lemma reads_be16: "p + 1 < n \<Longrightarrow> reads_below d n (be16 d p) (\<lambda>v. v < 65536)"
  unfolding be16_def
  by (rule reads_bnd [OF reads_rd8], simp, rule reads_bnd [OF reads_rd8], simp, rule reads_ret, simp)

lemma reads_be32: "p + 3 < n \<Longrightarrow> reads_below d n (be32 d p) (\<lambda>v. v < 2 ^ 32)"
  unfolding be32_def
  by (rule reads_bnd [OF reads_be16], simp, rule reads_bnd [OF reads_be16], simp, rule reads_ret, simp)

text \<open>A record whose header is in the package, and a multi record's payload: the check of its length omits the header.\<close>

definition hdr :: "firmware \<Rightarrow> nat \<Rightarrow> bool" where "hdr d t \<longleftrightarrow> 0 < t \<and> t + 4 < fw_size d"

abbreviation hdr_opt :: "firmware \<Rightarrow> nat option \<Rightarrow> bool" where "hdr_opt d r \<equiv> (\<forall>t. r = Some t \<longrightarrow> hdr d t)"

abbreviation safe :: "firmware \<Rightarrow> 'a parse \<Rightarrow> ('a \<Rightarrow> bool) \<Rightarrow> bool" where "safe d \<equiv> reads_below d (fw_size d + 4)"

lemma tlv_get_hdr: "hdr_opt d (mlxfw_mfa2_tlv_get d p)"
  by (auto simp: mlxfw_mfa2_tlv_get_def mlxfw_mfa2_valid_ptr_def hdr_def)

lemma tlv_get_Some: "mlxfw_mfa2_tlv_get d p = Some t \<longleftrightarrow> t = p \<and> hdr d p"
  by (auto simp: mlxfw_mfa2_tlv_get_def mlxfw_mfa2_valid_ptr_def hdr_def)

lemma multi_child_hdr: "hdr_opt d (mlxfw_mfa2_tlv_multi_child d multi)"
  unfolding mlxfw_mfa2_tlv_multi_child_def by (rule tlv_get_hdr)

lemma safe_type: "hdr d t \<Longrightarrow> safe d (tlv_type d t) (\<lambda>_. True)"
  unfolding tlv_type_def by (rule reads_mono [OF reads_rd8]) (auto simp: hdr_def)

lemma safe_len: "hdr d t \<Longrightarrow> safe d (tlv_len d t) (\<lambda>v. v < 65536)"
  unfolding tlv_len_def by (rule reads_be16) (auto simp: hdr_def)

lemma safe_payload:
  assumes "hdr d t"
  shows "safe d (mlxfw_mfa2_tlv_payload_get d t ty sz var)
    (\<lambda>r. \<forall>q. r = Some q \<longrightarrow> q = t + 4 \<and> (\<exists>len. tlv_len d t = ret len \<and> sz \<le> len \<and> t + len \<le> fw_size d))"
  unfolding mlxfw_mfa2_tlv_payload_get_def Let_def
  by (rule reads_bnd [OF safe_len [OF assms]], intro reads reads_bnd [OF safe_type [OF assms]])
     (auto simp: mlxfw_mfa2_valid_ptr_def)

lemma safe_fixed:
  assumes "hdr d t"
  shows "safe d (mlxfw_mfa2_tlv_payload_get d t ty sz var) (\<lambda>r. \<forall>q. r = Some q \<longrightarrow> 0 < q \<and> q + sz \<le> fw_size d + 4)"
proof (rule reads_mono [OF safe_payload [OF assms]], intro allI impI)
  fix r q
  assume "\<forall>q. r = Some q \<longrightarrow> q = t + 4 \<and> (\<exists>len. tlv_len d t = ret len \<and> sz \<le> len \<and> t + len \<le> fw_size d)" "r = Some q"
  then obtain len where "q = t + 4" "sz \<le> len" "t + len \<le> fw_size d" by blast
  then show "0 < q \<and> q + sz \<le> fw_size d + 4" by linarith
qed

lemmas safe_multi = safe_fixed [of _ _ MLXFW_MFA2_TLV_MULTI_PART 4 False, folded mlxfw_mfa2_tlv_multi_get_def]
lemmas safe_pd = safe_fixed [of _ _ MLXFW_MFA2_TLV_PACKAGE_DESCRIPTOR 28 False, folded mlxfw_mfa2_tlv_package_descriptor_get_def]
lemmas safe_cptr = safe_fixed [of _ _ MLXFW_MFA2_TLV_COMPONENT_PTR 8 False, folded mlxfw_mfa2_tlv_component_ptr_get_def]
lemmas safe_cdesc = safe_fixed [of _ _ MLXFW_MFA2_TLV_COMPONENT_DESCRIPTOR 16 False, folded mlxfw_mfa2_tlv_component_descriptor_get_def]
lemmas safe_psid = safe_payload [of _ _ MLXFW_MFA2_TLV_PSID 0 True, folded mlxfw_mfa2_tlv_psid_get_def]

lemma safe_next:
  assumes "hdr d t"
  shows "safe d (mlxfw_mfa2_tlv_next d t) (hdr_opt d)"
  unfolding mlxfw_mfa2_tlv_next_def Let_def
  by (rule reads_bnd [OF safe_len [OF assms]], rule reads_bnd [OF safe_type [OF assms]],
      intro reads reads_bnd [OF safe_multi [OF assms]] reads_bnd [OF reads_be16] tlv_get_hdr) auto

text \<open>A loop whose body handles a missing record.\<close>

definition body_safe :: "firmware \<Rightarrow> (nat option \<Rightarrow> 's \<Rightarrow> ('r + 's) parse) \<Rightarrow> ('s \<Rightarrow> bool) \<Rightarrow> ('r \<Rightarrow> bool) \<Rightarrow> bool" where
  "body_safe d body I R \<longleftrightarrow> (\<forall>tlv s. hdr_opt d tlv \<longrightarrow> I s \<longrightarrow>
     safe d (body tlv s) (\<lambda>r. case r of Inl x \<Rightarrow> R x | Inr s \<Rightarrow> tlv \<noteq> None \<and> I s))"

text \<open>One step of a loop that returns.\<close>

lemma foreach_step:
  assumes "(if \<not> idx < cnt then ret (Inr (tlv, s))
      else case body tlv s of
          None \<Rightarrow> None
        | Some (Inl f) \<Rightarrow> Some (Inl f)
        | Some (Inr (Inl r)) \<Rightarrow> ret (Inl r)
        | Some (Inr (Inr s)) \<Rightarrow>
            (case tlv of
               None \<Rightarrow> Some (Inl Null_deref)
             | Some t \<Rightarrow>
                 (case mlxfw_mfa2_tlv_next d t of
                    None \<Rightarrow> None
                  | Some (Inl f) \<Rightarrow> Some (Inl f)
                  | Some (Inr t) \<Rightarrow> loop t s))) = Some y"
  obtains (stop) "\<not> idx < cnt" "y = Inr (Inr (tlv, s))"
  | (fault) f where "body tlv s = Some (Inl f)" "y = Inl f"
  | (return) r where "body tlv s = Some (Inr (Inl r))" "y = Inr (Inl r)"
  | (null) s' where "body tlv s = Some (Inr (Inr s'))" "tlv = None" "y = Inl Null_deref"
  | (next_fault) s' t f where "body tlv s = Some (Inr (Inr s'))" "tlv = Some t" "mlxfw_mfa2_tlv_next d t = Some (Inl f)" "y = Inl f"
  | (step) s' t t' where "body tlv s = Some (Inr (Inr s'))" "tlv = Some t" "mlxfw_mfa2_tlv_next d t = Some (Inr t')" "loop t' s' = Some y"
  using assms by (auto simp: ret_def split: if_splits option.splits sum.splits)

abbreviation (input) loop_result :: "firmware \<Rightarrow> ('r \<Rightarrow> bool) \<Rightarrow> ('s \<Rightarrow> bool) \<Rightarrow> 'r + (nat option \<times> 's) \<Rightarrow> bool" where
  "loop_result d R I \<equiv> \<lambda>r. case r of Inl x \<Rightarrow> R x | Inr (tlv, s) \<Rightarrow> hdr_opt d tlv \<and> I s"

lemma foreach_outcome:
  "tlv_foreach d body cnt idx tlv s = Some y \<Longrightarrow> body_safe d body I R \<longrightarrow> hdr_opt d tlv \<longrightarrow> I s \<longrightarrow>
    outcome d (fw_size d + 4) (loop_result d R I) y"
proof (rule tlv_foreach.raw_induct [where P = "\<lambda>d body cnt idx tlv s y. body_safe d body I R \<longrightarrow> hdr_opt d tlv \<longrightarrow> I s \<longrightarrow>
    outcome d (fw_size d + 4) (loop_result d R I) y"], goal_cases)
  case (1 loop d body cnt idx tlv s y)
  show ?case
  proof (intro impI)
    assume body: "body_safe d body I R" and tlv: "hdr_opt d tlv" and I: "I s"
    have b: "outcome d (fw_size d + 4) (\<lambda>r. case r of Inl x \<Rightarrow> R x | Inr s \<Rightarrow> tlv \<noteq> None \<and> I s) r" if "body tlv s = Some r" for r
      using body tlv I that unfolding body_safe_def reads_below_def by blast
    have n: "outcome d (fw_size d + 4) (hdr_opt d) r" if "tlv = Some t" "mlxfw_mfa2_tlv_next d t = Some r" for t r
      using safe_next [of d t] tlv that by (simp add: reads_below_def)
    from 1(3) show "outcome d (fw_size d + 4) (loop_result d R I) y"
    proof (cases rule: foreach_step)
      case (step s' t t')
      from b [OF step(1)] n [OF step(2,3)] 1(2) [OF step(4)] body show ?thesis by simp
    next
      case (fault f)
      with b [OF fault(1)] show ?thesis by (auto simp: outcome_Inl)
    next
      case (next_fault s' t f)
      with n [OF next_fault(2,3)] show ?thesis by (auto simp: outcome_Inl)
    next
      case (null s')
      with b [OF null(1)] show ?thesis by simp
    next
      case (return r)
      with b [OF return(1)] show ?thesis by simp
    next
      case stop
      with tlv I show ?thesis by simp
    qed
  qed
qed

lemma safe_foreach:
  assumes "body_safe d body I R" "hdr_opt d tlv" "I s"
  shows "safe d (tlv_foreach d body cnt idx tlv s) (loop_result d R I)"
  using foreach_outcome [of d body cnt idx tlv s] assms by (simp add: reads_below_def)

lemma body_safeI:
  assumes "\<And>s. I s \<Longrightarrow> safe d (body None s) (\<lambda>r. case r of Inl x \<Rightarrow> R x | Inr s \<Rightarrow> False)"
    and "\<And>t s. hdr d t \<Longrightarrow> I s \<Longrightarrow> safe d (body (Some t) s) (\<lambda>r. case r of Inl x \<Rightarrow> R x | Inr s \<Rightarrow> I s)"
  shows "body_safe d body I R"
  unfolding body_safe_def
proof (intro allI impI)
  fix tlv s
  assume "hdr_opt d tlv" "I s"
  then show "safe d (body tlv s) (\<lambda>r. case r of Inl x \<Rightarrow> R x | Inr s \<Rightarrow> tlv \<noteq> None \<and> I s)"
    using assms(1) [of s] assms(2) [of _ s] by (cases tlv) (simp_all cong: sum.case_cong)
qed

lemma safe_multi_foreach:
  assumes "body_safe d body I R" "0 < multi \<and> multi + 4 \<le> fw_size d + 4" "I s"
  shows "safe d (tlv_multi_foreach d body multi s) (loop_result d R I)"
  unfolding tlv_multi_foreach_def
  by (rule reads_bnd [OF reads_be16]) (use assms in \<open>auto intro!: safe_foreach multi_child_hdr\<close>)

lemma safe_advance:
  assumes "hdr_opt d from_tlv"
  shows "safe d (mlxfw_mfa2_tlv_advance d from_tlv cnt) (hdr_opt d)"
  unfolding mlxfw_mfa2_tlv_advance_def
  by (rule reads_bnd [OF safe_foreach [where I = "\<lambda>_. True" and R = "\<lambda>_. True"]], rule body_safeI)
     (use assms in \<open>auto intro!: reads_ret split: sum.splits\<close>)

lemma safe_child_find:
  assumes "0 < multi \<and> multi + 4 \<le> fw_size d + 4"
  shows "safe d (mlxfw_mfa2_tlv_multi_child_find d multi ty idx) (hdr_opt d)"
  unfolding mlxfw_mfa2_tlv_multi_child_find_def
  by (rule reads_bnd [OF safe_multi_foreach [where I = "\<lambda>_. True" and R = "hdr_opt d"]], rule body_safeI)
     (use assms in \<open>auto intro!: reads_ret reads_bnd [OF safe_type] split: sum.splits\<close>)

lemma safe_child_count:
  assumes "0 < multi \<and> multi + 4 \<le> fw_size d + 4"
  shows "safe d (mlxfw_mfa2_tlv_multi_child_count d multi ty) (\<lambda>_. True)"
  unfolding mlxfw_mfa2_tlv_multi_child_count_def
  by (rule reads_bnd [OF safe_multi_foreach [where I = "\<lambda>_. True" and R = "\<lambda>_. True"]], rule body_safeI)
     (use assms in \<open>auto intro!: reads_ret reads_bnd [OF safe_type] split: sum.splits\<close>)

lemma safe_multi_validate:
  assumes "0 < multi \<and> multi + 4 \<le> fw_size d + 4"
  shows "safe d (mlxfw_mfa2_tlv_multi_validate d multi) (\<lambda>_. True)"
  unfolding mlxfw_mfa2_tlv_multi_validate_def
  by (rule reads_bnd [OF safe_multi_foreach [where I = "\<lambda>_. True" and R = "\<lambda>_. True"]], rule body_safeI)
     (use assms in \<open>auto intro!: reads_ret split: sum.splits\<close>)

lemma safe_cptr_validate:
  assumes "0 < multi \<and> multi + 4 \<le> fw_size d + 4"
  shows "safe d (cptr_validate d multi idx n) (\<lambda>_. True)"
proof (induction n arbitrary: idx)
  case (Suc n)
  show ?case
    by (simp only: cptr_validate.simps, rule reads_bnd [OF safe_child_find [OF assms]],
        intro reads reads_bnd [OF safe_cptr] reads_bnd [OF reads_be16] Suc.IH) auto
qed (simp add: reads_ret)

lemma safe_cb_offset: "q + 16 \<le> fw_size d + 4 \<Longrightarrow> safe d (cdesc_cb_offset d q) (\<lambda>v. v < 2 ^ 64)"
  unfolding cdesc_cb_offset_def
  by (rule reads_bnd [OF reads_be32], simp, rule reads_bnd [OF reads_be32], simp, rule reads_ret, simp)

lemma safe_size: "q + 16 \<le> fw_size d + 4 \<Longrightarrow> safe d (cdesc_size d q) (\<lambda>v. v < 2 ^ 32)"
  unfolding cdesc_size_def by (rule reads_be32) simp

lemma safe_identifier: "q + 16 \<le> fw_size d + 4 \<Longrightarrow> safe d (cdesc_identifier d q) (\<lambda>v. v < 65536)"
  unfolding cdesc_identifier_def by (rule reads_be16) simp

lemma safe_dev_validate:
  assumes "hdr d t"
  shows "safe d (mlxfw_mfa2_file_dev_validate d t) (\<lambda>_. True)"
  unfolding mlxfw_mfa2_file_dev_validate_def
  by (rule reads_bnd [OF safe_multi [OF assms]],
      intro reads reads_bnd [OF safe_multi_validate] reads_bnd [OF safe_child_find] reads_bnd [OF safe_psid]
        reads_bnd [OF safe_child_count] safe_cptr_validate) simp_all

lemma safe_comp_validate:
  assumes "hdr d t"
  shows "safe d (mlxfw_mfa2_file_comp_validate d t) (\<lambda>_. True)"
  unfolding mlxfw_mfa2_file_comp_validate_def
  by (rule reads_bnd [OF safe_multi [OF assms]],
      intro reads reads_bnd [OF safe_multi_validate] reads_bnd [OF safe_cdesc] reads_bnd [OF safe_identifier]
        reads_bnd [OF safe_cb_offset] reads_bnd [OF safe_size]) (simp_all add: multi_child_hdr)

lemma safe_tlvs_validate:
  assumes "\<And>t. hdr d t \<Longrightarrow> safe d (validate t) (\<lambda>_. True)" "hdr_opt d from_tlv"
  shows "safe d (tlvs_validate d validate from_tlv cnt) (\<lambda>_. True)"
  unfolding tlvs_validate_def
  by (rule reads_bnd [OF safe_foreach [where I = "\<lambda>_. True" and R = "\<lambda>_. True"]], rule body_safeI)
     (use assms in \<open>auto intro!: reads_ret reads_bnd [OF assms(1)] split: sum.splits\<close>)

text \<open>An accepted package: its first records have their headers in the package, and the component block is in it.\<close>

definition file_ok :: "mlxfw_mfa2_file \<Rightarrow> bool" where
  "file_ok f \<longleftrightarrow> hdr_opt (fw f) (first_dev f) \<and> hdr_opt (fw f) (first_component f) \<and>
     0 < cb f \<and> cb f + cb_archive_size f \<le> fw_size (fw f)"

lemma safe_file_validate:
  assumes "hdr_opt (fw f) (first_dev f)" "hdr_opt (fw f) (first_component f)"
  shows "safe (fw f) (mlxfw_mfa2_file_validate f) (\<lambda>_. True)"
  unfolding mlxfw_mfa2_file_validate_def
  by (rule reads_bnd [OF safe_tlvs_validate [OF safe_dev_validate assms(1)]], assumption,
      intro reads safe_tlvs_validate [OF safe_comp_validate assms(2)]) simp_all

lemma safe_init_cb:
  assumes "hdr_opt (fw f) (first_dev f)" "hdr_opt (fw f) (first_component f)" "pd + 28 \<le> fw_size (fw f) + 4"
  shows "safe (fw f) (file_init_cb f pd) (\<lambda>r. \<forall>f'. r = Inr f' \<longrightarrow> file_ok f' \<and> fw f' = fw f)"
  unfolding file_init_cb_def Let_def
proof (rule reads_bnd [OF reads_be32], goal_cases)
  case 1
  with assms show ?case by simp
next
  case (2 off)
  show ?case
  proof (intro reads, goal_cases)
    case 1
    then show ?case by simp
  next
    case 2
    have upd: "fw (f\<lparr>cb := x\<rparr>) = fw f" for x by simp
    show ?case
      unfolding upd
    proof (rule reads_bnd [OF reads_be32], goal_cases)
      case 1
      with assms show ?case by simp
    next
      case (2 sz)
      let ?f = "f\<lparr>cb := NLA_ALIGN off mod 2 ^ 32, cb_archive_size := sz\<rparr>"
      have v: "safe (fw f) (mlxfw_mfa2_file_validate ?f) (\<lambda>_. True)"
        using safe_file_validate [of ?f] assms by simp
      show ?case
        by (intro reads reads_bnd [OF v]) (use \<open>\<not> \<not> _\<close> assms in \<open>auto simp: file_ok_def mlxfw_mfa2_valid_ptr_def\<close>)
    qed
  qed
qed

lemma safe_file_init:
  "safe d (mlxfw_mfa2_file_init kzalloc_ok d) (\<lambda>r. \<forall>f. r = Inr f \<longrightarrow> file_ok f \<and> fw f = d)"
  unfolding mlxfw_mfa2_file_init_def
proof (intro reads, goal_cases)
  case (3 t)
  then have t: "hdr d t" using tlv_get_hdr by blast
  show ?case
  proof (rule reads_bnd [OF safe_multi [OF t]], intro reads, goal_cases)
    case (3 m multi c)
    then have c: "hdr d c" using multi_child_hdr by blast
    show ?case
    proof (rule reads_bnd [OF safe_pd [OF c]], intro reads, goal_cases)
      case (2 r pd)
      then have pd: "pd + 28 \<le> fw_size d + 4" by blast
      show ?case
      proof (rule reads_bnd [OF safe_next [OF t]], intro reads, goal_cases)
        case (2 r dev)
        then have dev: "hdr d dev" by blast
        show ?case
        proof (rule reads_bnd [OF reads_be16], goal_cases)
          case (2 n)
          show ?case
          proof (rule reads_bnd [OF safe_advance], goal_cases)
            case (2 comp)
            show ?case
            proof (rule reads_bnd [OF reads_be16], goal_cases)
              case (2 k)
              show ?case
                using safe_init_cb [of "\<lparr>fw = d, first_dev = Some dev, dev_count = n, first_component = comp,
                  component_count = k, cb = 0, cb_archive_size = 0\<rparr>" pd] dev \<open>hdr_opt d comp\<close> pd by simp
            qed (use pd in simp)
          qed (use dev in simp)
        qed (use pd in simp)
      qed simp
    qed simp
  qed simp_all
qed simp_all

lemma safe_rd_bytes: "p + n \<le> fw_size d + 4 \<Longrightarrow> safe d (rd_bytes d p n) (\<lambda>_. True)"
proof (induction n arbitrary: p)
  case (Suc n)
  show ?case
    by (simp only: rd_bytes.simps, rule reads_bnd [OF reads_rd8], use Suc.prems in simp,
        rule reads_bnd [OF Suc.IH], use Suc.prems in simp, rule reads_ret, rule TrueI)
qed (simp add: reads_ret)

abbreviation multi_opt :: "firmware \<Rightarrow> nat option \<Rightarrow> bool" where
  "multi_opt d r \<equiv> (\<forall>q. r = Some q \<longrightarrow> 0 < q \<and> q + 4 \<le> fw_size d + 4)"

abbreviation (input) case_loop :: "('r \<Rightarrow> bool) \<Rightarrow> 'r + unit \<Rightarrow> bool" where
  "case_loop R \<equiv> \<lambda>r. case r of Inl x \<Rightarrow> R x | Inr s \<Rightarrow> True"

lemma safe_psid_bytes:
  assumes "hdr d tlv" "tlv_len d tlv = ret n"
  shows "safe d (mlxfw_mfa2_tlv_psid_get d tlv) (\<lambda>r. \<forall>q. r = Some q \<longrightarrow> q + n \<le> fw_size d + 4)"
  by (rule reads_mono [OF safe_psid [OF assms(1)]]) (use assms(2) in \<open>auto\<close>)

lemma safe_dev_get:
  assumes "file_ok f"
  shows "safe (fw f) (mlxfw_mfa2_tlv_dev_get f psid) (multi_opt (fw f))"
  unfolding mlxfw_mfa2_tlv_dev_get_def Let_def
proof (rule reads_bnd [OF safe_foreach [where I = "\<lambda>_. True" and R = "multi_opt (fw f)"]], rule body_safeI, goal_cases)
  case (2 t s)
  show ?case
  proof (simp only: option.case, rule reads_bnd [OF safe_multi [OF 2(1)]], intro reads, goal_cases)
    case (2 m multi)
    then have multi: "0 < multi \<and> multi + 4 \<le> fw_size (fw f) + 4" by blast
    show ?case
    proof (rule reads_bnd [OF safe_child_find [OF multi]], intro reads, goal_cases)
      case (2 r tlv)
      then have tlv: "hdr (fw f) tlv" by blast
      show ?case
      proof (rule reads_bnd [OF safe_len [OF tlv]], intro reads, goal_cases)
        case (2 len)
        then have "tlv_len (fw f) tlv = ret (length psid mod 65536)" by simp
        from safe_psid_bytes [OF tlv this] show ?case
          by (rule reads_bnd) (intro reads reads_bnd [OF safe_rd_bytes], use multi in simp_all)
      qed simp
    qed simp
  qed simp
qed (use assms in \<open>auto simp: file_ok_def intro!: reads_ret split: sum.splits\<close>)

lemma safe_component_count:
  assumes "file_ok f"
  shows "safe (fw f) (mlxfw_mfa2_file_component_count f psid) (\<lambda>_. True)"
  unfolding mlxfw_mfa2_file_component_count_def
  by (rule reads_bnd [OF safe_dev_get [OF assms]], intro reads safe_child_count) simp_all

lemma safe_component_tlv_get:
  assumes "file_ok f"
  shows "safe (fw f) (mlxfw_mfa2_file_component_tlv_get f idx) (\<lambda>r. \<forall>q. r = Some q \<longrightarrow> 0 < q \<and> q + 16 \<le> fw_size (fw f) + 4)"
proof -
  have c: "hdr_opt (fw f) (first_component f)" using assms by (simp add: file_ok_def)
  show ?thesis
    unfolding mlxfw_mfa2_file_component_tlv_get_def
    by (intro reads reads_bnd [OF safe_advance [OF c]] reads_bnd [OF safe_multi] safe_cdesc) (simp_all add: multi_child_hdr)
qed

lemma safe_component_find:
  assumes "file_ok f"
  shows "safe (fw f) (mlxfw_mfa2_file_component_find f psid idx) (\<lambda>r. \<forall>q. r = Some q \<longrightarrow> 0 < q \<and> q + 16 \<le> fw_size (fw f) + 4)"
  unfolding mlxfw_mfa2_file_component_find_def
  by (rule reads_bnd [OF safe_dev_get [OF assms]],
      intro reads reads_bnd [OF safe_child_find] reads_bnd [OF safe_cptr] reads_bnd [OF reads_be16] safe_component_tlv_get assms)
    simp_all

section \<open>Termination\<close>

text \<open>The records of a package in their order: number 0 holds the package descriptor, whose payload starts at offset 28, then the
  devices follow, then the components.\<close>

fun top_record :: "firmware \<Rightarrow> nat \<Rightarrow> nat option parse" where
  "top_record d 0 = ret (mlxfw_mfa2_tlv_get d 16)"
| "top_record d (Suc n) = bnd (top_record d n) (\<lambda>t. case t of None \<Rightarrow> ret None | Some t \<Rightarrow> mlxfw_mfa2_tlv_next d t)"

text \<open>The children of a multi record, whose payload is at \<open>multi\<close>.\<close>

inductive child_record :: "firmware \<Rightarrow> nat \<Rightarrow> nat \<Rightarrow> bool" for d multi where
  child_first: "mlxfw_mfa2_tlv_multi_child d multi = Some t \<Longrightarrow> child_record d multi t"
| child_next: "child_record d multi t \<Longrightarrow> mlxfw_mfa2_tlv_next d t = ret (Some u) \<Longrightarrow> child_record d multi u"

text \<open>The loop over the children of a record ends when the 16-bit index can reach their number, or when no child is followed by itself.\<close>

definition children_end :: "firmware \<Rightarrow> nat \<Rightarrow> bool" where
  "children_end d multi \<longleftrightarrow>
     (be16 d multi = ret 65535 \<longrightarrow> (\<forall>t. child_record d multi t \<longrightarrow> mlxfw_mfa2_tlv_next d t \<noteq> ret (Some t)))"

text \<open>It does so for every device and every component that the package descriptor counts.\<close>

definition listed :: "firmware \<Rightarrow> nat \<Rightarrow> bool" where
  "listed d t \<longleftrightarrow> (\<exists>n num_devices num_components. be16 d 30 = ret num_devices \<and> be16 d 28 = ret num_components \<and>
     n < num_devices + num_components \<and> top_record d (Suc n) = ret (Some t))"

definition records_end :: "firmware \<Rightarrow> bool" where
  "records_end d \<longleftrightarrow> (\<forall>t multi. listed d t \<longrightarrow> mlxfw_mfa2_tlv_multi_get d t = ret (Some multi) \<longrightarrow> children_end d multi)"

definition returns :: "'a parse \<Rightarrow> bool" where "returns m \<longleftrightarrow> m \<noteq> None"

lemma returns_ret: "returns (ret x)"
  by (simp add: returns_def ret_def)

lemma returns_fault: "returns (Some y)"
  by (simp add: returns_def)

lemma returns_bnd: "returns m \<Longrightarrow> (\<And>x. m = ret x \<Longrightarrow> returns (k x)) \<Longrightarrow> returns (bnd m k)"
  by (auto simp: returns_def bnd_def ret_def split: option.splits sum.splits)

lemma returns_if: "(c \<Longrightarrow> returns m) \<Longrightarrow> (\<not> c \<Longrightarrow> returns m') \<Longrightarrow> returns (if c then m else m')"
  by simp

lemma returns_option: "(r = None \<Longrightarrow> returns m) \<Longrightarrow> (\<And>x. r = Some x \<Longrightarrow> returns (k x)) \<Longrightarrow> returns (case r of None \<Rightarrow> m | Some x \<Rightarrow> k x)"
  by (cases r) simp_all

lemma returns_sum: "(\<And>x. r = Inl x \<Longrightarrow> returns (k x)) \<Longrightarrow> (\<And>x. r = Inr x \<Longrightarrow> returns (k' x)) \<Longrightarrow>
    returns (case r of Inl x \<Rightarrow> k x | Inr x \<Rightarrow> k' x)"
  by (cases r) simp_all

lemma returns_prod: "(\<And>x y. returns (k x y)) \<Longrightarrow> returns (case r of (x, y) \<Rightarrow> k x y)"
  by (cases r) simp_all

lemmas returns_intros = returns_bnd returns_if returns_option returns_sum returns_prod returns_ret returns_fault

lemma returns_rd:
  "returns (rd8 d p)" "returns (be16 d p)" "returns (be32 d p)" "returns (tlv_type d t)" "returns (tlv_len d t)"
  unfolding be16_def be32_def tlv_type_def tlv_len_def rd8_def by (intro returns_intros)+

lemma returns_gets:
  "returns (mlxfw_mfa2_tlv_payload_get d t ty sz var)"
  "returns (mlxfw_mfa2_tlv_multi_get d t)" "returns (mlxfw_mfa2_tlv_package_descriptor_get d t)" "returns (mlxfw_mfa2_tlv_psid_get d t)"
  "returns (mlxfw_mfa2_tlv_component_ptr_get d t)" "returns (mlxfw_mfa2_tlv_component_descriptor_get d t)"
  unfolding payload_defs mlxfw_mfa2_tlv_payload_get_def Let_def by (intro returns_intros returns_rd)+

lemma returns_next: "returns (mlxfw_mfa2_tlv_next d t)"
  unfolding mlxfw_mfa2_tlv_next_def Let_def by (intro returns_intros returns_rd returns_gets)

lemma bnd_ret_eq: "bnd m k = ret y \<longleftrightarrow> (\<exists>x. m = ret x \<and> k x = ret y)"
  by (auto simp: bnd_def ret_def split: option.splits sum.splits)

lemma next_ge: "mlxfw_mfa2_tlv_next d t = ret (Some u) \<Longrightarrow> t \<le> u \<and> hdr d u"
  by (auto simp: mlxfw_mfa2_tlv_next_def bnd_ret_eq Let_def tlv_get_Some split: if_splits option.splits)

lemma rd8_less: "rd8 d p = ret v \<Longrightarrow> v < 256"
  using reads_rd8 [of p "Suc p" d] by (simp add: reads_below_def ret_def)

lemma be16_less: "be16 d p = ret v \<Longrightarrow> v < 65536"
  using reads_be16 [of p "p + 2" d] by (simp add: reads_below_def ret_def)

text \<open>A loop whose bound the index reaches; \<open>J\<close> holds of the index and the record.\<close>

lemma returns_foreach:
  assumes cnt: "cnt < 65536" and body: "\<And>idx tlv s. idx < cnt \<Longrightarrow> J idx tlv \<Longrightarrow> returns (body tlv s)"
    and J: "\<And>idx t u. J idx (Some t) \<Longrightarrow> mlxfw_mfa2_tlv_next d t = ret u \<Longrightarrow> J (Suc idx) u"
  shows "idx \<le> cnt \<Longrightarrow> J idx tlv \<Longrightarrow> returns (tlv_foreach d body cnt idx tlv s)"
proof (induction "cnt - idx" arbitrary: idx tlv s)
  case 0
  then show ?case by (subst tlv_foreach.simps) (simp add: returns_ret)
next
  case (Suc n)
  then have idx: "idx < cnt" by simp
  have step: "returns (tlv_foreach d body cnt ((idx + 1) mod 65536) u s')" if "tlv = Some t" "mlxfw_mfa2_tlv_next d t = ret u" for t u s'
    using Suc.hyps(1) [of "Suc idx" u s'] Suc.hyps(2) Suc.prems J [of idx t u] that idx cnt by simp
  show ?case
    using step body [OF idx Suc.prems(2), of s] returns_next [of d "the tlv"]
    by (subst tlv_foreach.simps) (auto simp: ret_def returns_def split: option.splits sum.splits)
qed

text \<open>A loop over records that advance.\<close>

lemma returns_foreach_chain:
  assumes K: "\<And>t u. K t \<Longrightarrow> mlxfw_mfa2_tlv_next d t = ret (Some u) \<Longrightarrow> K u \<and> u \<noteq> t" and body: "\<And>tlv s. returns (body tlv s)"
  shows "(\<And>t. tlv = Some t \<Longrightarrow> K t) \<Longrightarrow> returns (tlv_foreach d body cnt idx tlv s)"
proof (induction "case tlv of None \<Rightarrow> 0 | Some t \<Rightarrow> Suc (fw_size d - t)" arbitrary: idx tlv s rule: less_induct)
  case less
  have step: "returns (tlv_foreach d body cnt idx' u s')" if tlv: "tlv = Some t" and u: "mlxfw_mfa2_tlv_next d t = ret u" for t u idx' s'
  proof (rule less.hyps)
    show "K v" if "u = Some v" for v using K [OF less.prems [OF tlv]] u that by blast
    have "t < v \<and> v < fw_size d" if "u = Some v" for v
      using K [OF less.prems [OF tlv], of v] next_ge [of d t v] u that by (auto simp: hdr_def)
    then show "(case u of None \<Rightarrow> 0 | Some t \<Rightarrow> Suc (fw_size d - t)) < (case tlv of None \<Rightarrow> 0 | Some t \<Rightarrow> Suc (fw_size d - t))"
      using tlv by (cases u) auto
  qed
  show ?case
    using step body [of tlv s] returns_next [of d "the tlv"]
    by (subst tlv_foreach.simps) (auto simp: ret_def returns_def split: option.splits sum.splits)
qed

lemma returns_multi_foreach:
  assumes "children_end d multi" and body: "\<And>tlv s. returns (body tlv s)"
  shows "returns (tlv_multi_foreach d body multi s)"
  unfolding tlv_multi_foreach_def
proof (rule returns_bnd [OF returns_rd(2)])
  fix n
  assume n: "be16 d multi = ret n"
  show "returns (tlv_foreach d body (n + 1) 0 (mlxfw_mfa2_tlv_multi_child d multi) s)"
  proof (cases "n = 65535")
    case True
    with n assms(1) have adv: "mlxfw_mfa2_tlv_next d t \<noteq> ret (Some t)" if "child_record d multi t" for t
      using that by (simp add: children_end_def)
    show ?thesis
    proof (rule returns_foreach_chain [where K = "child_record d multi", OF _ body])
      show "child_record d multi u \<and> u \<noteq> t" if "child_record d multi t" "mlxfw_mfa2_tlv_next d t = ret (Some u)" for t u
        using that adv child_next by metis
    qed (rule child_first)
  next
    case False
    then show ?thesis using be16_less [OF n] returns_foreach [where J = "\<lambda>_ _. True", OF _ body] by simp
  qed
qed

text \<open>The result of a loop over the records of the package.\<close>

lemma foreach_result:
  assumes cnt: "cnt < 65536" and J: "\<And>idx t u. J idx (Some t) \<Longrightarrow> mlxfw_mfa2_tlv_next d t = ret u \<Longrightarrow> J (Suc idx) u"
  shows "idx \<le> cnt \<Longrightarrow> J idx tlv \<Longrightarrow> tlv_foreach d body cnt idx tlv s = ret y \<Longrightarrow>
    (case y of Inl r \<Rightarrow> \<exists>k t s'. k < cnt \<and> J k t \<and> body t s' = ret (Inl r) | Inr (t, _) \<Rightarrow> J cnt t)"
proof (induction "cnt - idx" arbitrary: idx tlv s)
  case 0
  then show ?case by (subst (asm) tlv_foreach.simps) auto
next
  case (Suc n)
  then have idx: "idx < cnt" by simp
  note eq = Suc.prems(3) [unfolded tlv_foreach.simps [of d body cnt idx tlv s], unfolded ret_def]
  show ?case
  proof (rule foreach_step [where loop = "tlv_foreach d body cnt ((idx + 1) mod 65536)" and body = body and tlv = tlv and s = s and d = d, unfolded ret_def, OF eq], goal_cases)
    case (6 s' t t')
    then have "J (Suc idx) t'" using J [of idx t t'] Suc.prems(2) by (simp add: ret_def)
    then show ?case using Suc.hyps(1) [of "Suc idx" t' s'] 6(4) Suc.hyps(2) idx cnt by (simp add: ret_def)
  qed (use idx Suc.prems in \<open>auto simp: ret_def intro!: exI [of _ idx]\<close>)
qed

lemma returns_loops:
  assumes "children_end d multi"
  shows "returns (mlxfw_mfa2_tlv_multi_child_find d multi ty idx)" "returns (mlxfw_mfa2_tlv_multi_child_count d multi ty)"
    "returns (mlxfw_mfa2_tlv_multi_validate d multi)"
  unfolding mlxfw_mfa2_tlv_multi_child_find_def mlxfw_mfa2_tlv_multi_child_count_def mlxfw_mfa2_tlv_multi_validate_def
  by (intro returns_intros returns_multi_foreach returns_rd assms)+

lemma returns_advance: "cnt < 65536 \<Longrightarrow> returns (mlxfw_mfa2_tlv_advance d from_tlv cnt)"
  unfolding mlxfw_mfa2_tlv_advance_def
  by (rule returns_bnd, rule returns_foreach [where J = "\<lambda>_ _. True"]) (auto intro!: returns_intros)

lemma returns_cptr_validate: "children_end d multi \<Longrightarrow> returns (cptr_validate d multi idx n)"
  by (induction n arbitrary: idx) (auto intro!: returns_intros returns_loops returns_gets returns_rd)

lemma returns_cdesc: "returns (cdesc_identifier d q)" "returns (cdesc_cb_offset d q)" "returns (cdesc_size d q)"
  unfolding cdesc_identifier_def cdesc_cb_offset_def cdesc_size_def by (intro returns_intros returns_rd)+

lemma returns_record_validate:
  assumes "\<And>multi. mlxfw_mfa2_tlv_multi_get d t = ret (Some multi) \<Longrightarrow> children_end d multi"
  shows "returns (mlxfw_mfa2_file_dev_validate d t)" "returns (mlxfw_mfa2_file_comp_validate d t)"
  unfolding mlxfw_mfa2_file_dev_validate_def mlxfw_mfa2_file_comp_validate_def
  by (intro returns_intros returns_loops returns_gets returns_cdesc returns_cptr_validate; simp add: assms)+

text \<open>The record at index \<open>k\<close> of a loop that starts at record \<open>base\<close>.\<close>

abbreviation (input) loop_at :: "firmware \<Rightarrow> nat \<Rightarrow> nat \<Rightarrow> nat option \<Rightarrow> bool" where
  "loop_at d base k tlv \<equiv> tlv = None \<or> top_record d (base + k) = ret tlv"

lemma loop_at_next: "loop_at d base k (Some t) \<Longrightarrow> mlxfw_mfa2_tlv_next d t = ret u \<Longrightarrow> loop_at d base (Suc k) u"
  by simp

lemma returns_tlvs_validate:
  assumes "cnt < 65536" "loop_at d base 0 from_tlv"
    and "\<And>k t. k < cnt \<Longrightarrow> top_record d (base + k) = ret (Some t) \<Longrightarrow> returns (validate t)"
  shows "returns (tlvs_validate d validate from_tlv cnt)"
  unfolding tlvs_validate_def
  by (rule returns_bnd, rule returns_foreach [where J = "loop_at d base"])
     (use assms in \<open>auto intro!: returns_intros\<close>)

lemma advance_at:
  assumes "cnt < 65536" "top_record d base = ret from_tlv" "mlxfw_mfa2_tlv_advance d from_tlv cnt = ret u"
  shows "loop_at d (base + cnt) 0 u"
proof -
  from assms(3) obtain y where
    y: "tlv_foreach d (\<lambda>tlv s. if tlv = None then ret (Inl ()) else ret (Inr s)) cnt 0 from_tlv () = ret y"
    and "(case y of Inl _ \<Rightarrow> ret None | Inr (tlv, _) \<Rightarrow> ret tlv) = ret u"
    unfolding mlxfw_mfa2_tlv_advance_def bnd_ret_eq by blast
  then show ?thesis
    using foreach_result [where J = "loop_at d base", OF assms(1) loop_at_next _ _ y] assms(2) by (auto split: sum.splits)
qed

text \<open>What an accepted package and its file structure share.\<close>

definition file_at :: "mlxfw_mfa2_file \<Rightarrow> bool" where
  "file_at f \<longleftrightarrow> top_record (fw f) 1 = ret (first_dev f) \<and> be16 (fw f) 30 = ret (dev_count f) \<and>
     be16 (fw f) 28 = ret (component_count f) \<and> loop_at (fw f) (1 + dev_count f) 0 (first_component f)"

lemma records_endD: "records_end d \<Longrightarrow> be16 d 30 = ret nd \<Longrightarrow> be16 d 28 = ret nc \<Longrightarrow> n < nd + nc \<Longrightarrow>
    top_record d (Suc n) = ret (Some t) \<Longrightarrow> mlxfw_mfa2_tlv_multi_get d t = ret (Some multi) \<Longrightarrow> children_end d multi"
  by (auto simp: records_end_def listed_def)

lemma returns_validate:
  assumes "file_at f" "records_end (fw f)"
  shows "returns (mlxfw_mfa2_file_validate f)"
proof -
  have cnt: "dev_count f < 65536" "component_count f < 65536" using assms(1) be16_less by (auto simp: file_at_def)
  have rec: "returns (mlxfw_mfa2_file_dev_validate (fw f) t) \<and> returns (mlxfw_mfa2_file_comp_validate (fw f) t)"
    if "n < dev_count f + component_count f" "top_record (fw f) (Suc n) = ret (Some t)" for n t
    using records_endD [OF assms(2) _ _ that] returns_record_validate [of "fw f" t] assms(1) by (auto simp: file_at_def)
  show ?thesis
    unfolding mlxfw_mfa2_file_validate_def
  proof (intro returns_intros)
    show "returns (tlvs_validate (fw f) (mlxfw_mfa2_file_dev_validate (fw f)) (first_dev f) (dev_count f))"
    proof (rule returns_tlvs_validate [where base = 1, OF cnt(1)])
      show "returns (mlxfw_mfa2_file_dev_validate (fw f) t)" if "k < dev_count f" "top_record (fw f) (1 + k) = ret (Some t)" for k t
        using rec [of k t] that by simp
    qed (use assms(1) in \<open>simp add: file_at_def\<close>)
    show "returns (tlvs_validate (fw f) (mlxfw_mfa2_file_comp_validate (fw f)) (first_component f) (component_count f))"
    proof (rule returns_tlvs_validate [where base = "1 + dev_count f", OF cnt(2)])
      show "returns (mlxfw_mfa2_file_comp_validate (fw f) t)"
        if "k < component_count f" "top_record (fw f) (1 + dev_count f + k) = ret (Some t)" for k t
        using rec [of "dev_count f + k" t] that by simp
    qed (use assms(1) in \<open>simp add: file_at_def\<close>)
  qed
qed

lemma length_fingerprint [simp]: "length mlxfw_mfa2_fingerprint = 16"
  by (simp add: mlxfw_mfa2_fingerprint_def ascii_def)

lemma payload_Some: "mlxfw_mfa2_tlv_payload_get d t ty sz var = ret (Some q) \<Longrightarrow> q = t + 4"
  by (auto simp: mlxfw_mfa2_tlv_payload_get_def bnd_ret_eq Let_def split: if_splits)

lemma init_file_at:
  assumes "mlxfw_mfa2_tlv_get d (NLA_ALIGN (length mlxfw_mfa2_fingerprint)) = Some t" "mlxfw_mfa2_tlv_multi_get d t = ret (Some multi)"
    "mlxfw_mfa2_tlv_multi_child d multi = Some c" "mlxfw_mfa2_tlv_package_descriptor_get d c = ret (Some pd)"
    "mlxfw_mfa2_tlv_next d t = ret (Some dev)" "be16 d (pd + 2) = ret nd" "mlxfw_mfa2_tlv_advance d (Some dev) nd = ret first_comp"
    "be16 d pd = ret nc"
  shows "file_at \<lparr>fw = d, first_dev = Some dev, dev_count = nd, first_component = first_comp, component_count = nc, cb = x, cb_archive_size = y\<rparr>"
proof -
  have "t = 16" using assms(1) by (simp add: tlv_get_Some NLA_ALIGN_def)
  moreover have "multi = t + 4" "pd = c + 4"
    using assms(2,4) payload_Some unfolding mlxfw_mfa2_tlv_multi_get_def mlxfw_mfa2_tlv_package_descriptor_get_def by blast+
  moreover have "c = multi + 4" using assms(3) by (simp add: mlxfw_mfa2_tlv_multi_child_def tlv_get_Some NLA_ALIGN_def)
  moreover have dev: "top_record d 1 = ret (Some dev)" using assms(1,5) \<open>t = 16\<close> by (simp add: NLA_ALIGN_def)
  moreover have "loop_at d (1 + nd) 0 first_comp" by (rule advance_at [OF be16_less [OF assms(6)] dev assms(7)])
  ultimately show ?thesis using assms(6,8) by (simp add: file_at_def)
qed

lemma file_at_upd [simp]: "file_at (f\<lparr>cb := x\<rparr>) = file_at f" "file_at (f\<lparr>cb_archive_size := y\<rparr>) = file_at f"
  by (simp_all add: file_at_def)

lemma returns_init_cb: "file_at f \<Longrightarrow> records_end (fw f) \<Longrightarrow> returns (file_init_cb f pd)"
  unfolding file_init_cb_def Let_def by (intro returns_intros returns_rd returns_validate) simp_all

lemma init_cb_accepted: "file_init_cb f pd = ret (Inr f') \<Longrightarrow> \<exists>x y. f' = f\<lparr>cb := x, cb_archive_size := y\<rparr>"
  by (auto simp: file_init_cb_def Let_def bnd_ret_eq split: if_splits)

lemma returns_file_init:
  assumes "records_end d"
  shows "returns (mlxfw_mfa2_file_init kzalloc_ok d)"
  unfolding mlxfw_mfa2_file_init_def
  by (intro returns_intros returns_gets returns_next returns_rd returns_advance returns_init_cb)
     (use assms in \<open>auto dest: be16_less intro!: init_file_at\<close>)

lemma case_accepted:
  "(case r of None \<Rightarrow> ret (Inl e) | Some x \<Rightarrow> k x) = ret (Inr f) \<longleftrightarrow> (\<exists>x. r = Some x \<and> k x = ret (Inr f))"
  by (cases r) auto

lemma accepted_file_at:
  assumes "mlxfw_mfa2_file_init kzalloc_ok d = ret (Inr f)"
  shows "file_at f \<and> fw f = d"
proof -
  from assms obtain t multi c pd dev nd first_comp nc where *:
    "mlxfw_mfa2_tlv_get d (NLA_ALIGN (length mlxfw_mfa2_fingerprint)) = Some t" "mlxfw_mfa2_tlv_multi_get d t = ret (Some multi)"
    "mlxfw_mfa2_tlv_multi_child d multi = Some c" "mlxfw_mfa2_tlv_package_descriptor_get d c = ret (Some pd)"
    "mlxfw_mfa2_tlv_next d t = ret (Some dev)" "be16 d (pd + 2) = ret nd" "mlxfw_mfa2_tlv_advance d (Some dev) nd = ret first_comp"
    "be16 d pd = ret nc"
    and cb: "file_init_cb \<lparr>fw = d, first_dev = Some dev, dev_count = nd, first_component = first_comp, component_count = nc, cb = 0,
      cb_archive_size = 0\<rparr> pd = ret (Inr f)"
    unfolding mlxfw_mfa2_file_init_def bnd_ret_eq case_accepted by (auto simp: bnd_ret_eq case_accepted simp del: length_fingerprint split: if_splits)
  then show ?thesis using init_cb_accepted [OF cb] init_file_at [OF *] by auto
qed

lemma returns_rd_bytes: "returns (rd_bytes d p n)"
  by (induction n arbitrary: p) (auto intro!: returns_intros returns_rd)

lemma dev_children_end:
  assumes "file_at f" "records_end (fw f)" "k < dev_count f" "loop_at (fw f) 1 k (Some t)" "mlxfw_mfa2_tlv_multi_get (fw f) t = ret (Some multi)"
  shows "children_end (fw f) multi"
  using records_endD [OF assms(2), of "dev_count f" "component_count f" k t multi] assms by (simp add: file_at_def del: top_record.simps)

lemma returns_dev_get:
  assumes "file_at f" "records_end (fw f)"
  shows "returns (mlxfw_mfa2_tlv_dev_get f psid)"
  unfolding mlxfw_mfa2_tlv_dev_get_def Let_def
proof (rule returns_bnd, rule returns_foreach [where J = "loop_at (fw f) 1"], goal_cases)
  case (2 k tlv s)
  show ?case
    by (intro returns_intros returns_loops returns_gets returns_rd returns_rd_bytes)
       (use 2 dev_children_end [OF assms] in \<open>auto simp del: top_record.simps\<close>)
qed (use assms(1) be16_less in \<open>auto simp: file_at_def intro!: returns_intros\<close>)

lemma dev_get_children_end:
  assumes "file_at f" "records_end (fw f)" "mlxfw_mfa2_tlv_dev_get f psid = ret (Some multi)"
  shows "children_end (fw f) multi"
proof -
  have cnt: "dev_count f < 65536" and first: "loop_at (fw f) 1 0 (first_dev f)"
    using assms(1) be16_less by (auto simp: file_at_def)
  from assms(3) obtain body y where y: "tlv_foreach (fw f) body (dev_count f) 0 (first_dev f) () = ret y"
    and r: "(case y of Inl r \<Rightarrow> ret r | Inr _ \<Rightarrow> ret None) = ret (Some multi)"
    and body: "\<And>t s. body t s = ret (Inl (Some multi)) \<Longrightarrow> \<exists>u. t = Some u \<and> mlxfw_mfa2_tlv_multi_get (fw f) u = ret (Some multi)"
    unfolding mlxfw_mfa2_tlv_dev_get_def Let_def bnd_ret_eq
    by (elim exE conjE) (rule that, assumption, assumption, auto simp: bnd_ret_eq split: option.splits if_splits)
  have "case y of Inl r \<Rightarrow> \<exists>k t s. k < dev_count f \<and> loop_at (fw f) 1 k t \<and> body t s = ret (Inl r)
    | Inr (t, _) \<Rightarrow> loop_at (fw f) 1 (dev_count f) t"
    by (rule foreach_result [where J = "loop_at (fw f) 1", OF cnt _ _ first y]) simp_all
  moreover have "y = Inl (Some multi)" using r by (auto split: sum.splits)
  ultimately obtain k t s where "k < dev_count f" "loop_at (fw f) 1 k t" "body t s = ret (Inl (Some multi))" by auto
  then show ?thesis using body dev_children_end [OF assms(1,2)] by blast
qed

lemma returns_component_count: "file_at f \<Longrightarrow> records_end (fw f) \<Longrightarrow> returns (mlxfw_mfa2_file_component_count f psid)"
  unfolding mlxfw_mfa2_file_component_count_def
  by (intro returns_intros returns_dev_get returns_loops) (auto dest: dev_get_children_end)

lemma returns_component_tlv_get: "file_at f \<Longrightarrow> returns (mlxfw_mfa2_file_component_tlv_get f idx)"
  unfolding mlxfw_mfa2_file_component_tlv_get_def
  by (intro returns_intros returns_gets returns_advance) (use be16_less [of "fw f" 28 "component_count f"] in \<open>simp add: file_at_def\<close>)

lemma returns_component_find: "file_at f \<Longrightarrow> records_end (fw f) \<Longrightarrow> returns (mlxfw_mfa2_file_component_find f psid idx)"
  unfolding mlxfw_mfa2_file_component_find_def
  by (intro returns_intros returns_dev_get returns_loops returns_gets returns_rd returns_component_tlv_get)
     (auto dest: dev_get_children_end)

section \<open>Decoding a component\<close>

text \<open>What the decoder does on a complete archive: \<open>rest\<close> is the content that a state has still to give. It fills the room, and the
  stream ends when the content is smaller than the room; when it fits exactly, the end may be seen now or at the next call.\<close>

definition decodes :: "'d xz_dec_run \<Rightarrow> u8 list \<Rightarrow> ('d \<Rightarrow> nat \<Rightarrow> u8 list) \<Rightarrow> bool" where
  "decodes run inp rest \<longleftrightarrow> (\<forall>xz_dec in_pos n. 0 < n \<longrightarrow> (case run xz_dec inp in_pos n of (r, out, xz_dec', in_pos') \<Rightarrow>
     out = take n (rest xz_dec in_pos) \<and> rest xz_dec' in_pos' = drop n (rest xz_dec in_pos) \<and>
     (n < length (rest xz_dec in_pos) \<longrightarrow> r = XZ_OK) \<and>
     (length (rest xz_dec in_pos) < n \<longrightarrow> r = XZ_STREAM_END) \<and> (r = XZ_OK \<or> r = XZ_STREAM_END)))"

lemma decodes_run:
  assumes "decodes run inp rest" "0 < n"
  obtains fin xz_dec' in_pos' where
    "mlxfw_mfa2_xz_dec_run run xz_dec inp in_pos n = (Inr fin, take n (rest xz_dec in_pos), xz_dec', in_pos')"
    "rest xz_dec' in_pos' = drop n (rest xz_dec in_pos)"
    "n < length (rest xz_dec in_pos) \<Longrightarrow> \<not> fin" "length (rest xz_dec in_pos) < n \<Longrightarrow> fin"
proof -
  obtain r out xz_dec' in_pos' where run: "run xz_dec inp in_pos n = (r, out, xz_dec', in_pos')" by (metis prod_cases4)
  have "out = take n (rest xz_dec in_pos) \<and> rest xz_dec' in_pos' = drop n (rest xz_dec in_pos) \<and>
     (n < length (rest xz_dec in_pos) \<longrightarrow> r = XZ_OK) \<and>
     (length (rest xz_dec in_pos) < n \<longrightarrow> r = XZ_STREAM_END) \<and> (r = XZ_OK \<or> r = XZ_STREAM_END)"
    using assms run unfolding decodes_def by (metis (mono_tags, lifting) case_prod_conv)
  then show thesis
    using run that [of "r = XZ_STREAM_END" xz_dec' in_pos'] by (auto simp: mlxfw_mfa2_xz_dec_run_def xz_status_def)
qed

lemma skip_correct:
  assumes dec: "decodes run inp rest" and "0 < sz" and "off < length content"
  shows "cur \<le> off \<Longrightarrow> rest xz_dec in_pos = drop cur content \<Longrightarrow> length buf = sz \<Longrightarrow>
    \<exists>xz_dec' in_pos' buf'. xz_skip run inp off sz cur xz_dec in_pos buf = Some (Inr (xz_dec', in_pos', buf')) \<and>
      rest xz_dec' in_pos' = drop off content \<and> length buf' = sz \<and> (off = 0 \<longrightarrow> buf' = buf)"
proof (induction "off - cur" arbitrary: cur xz_dec in_pos buf rule: less_induct)
  case less
  show ?case
  proof (cases "off = cur")
    case True
    then show ?thesis using less.prems by (subst xz_skip.simps) simp
  next
    case False
    define n where "n = min sz (off - cur)"
    have n: "0 < n" "cur + n \<le> off" "n \<le> sz" "n < length (drop cur content)"
      using False less.prems assms by (auto simp: n_def)
    obtain fin xz_dec' in_pos' where
      run: "mlxfw_mfa2_xz_dec_run run xz_dec inp in_pos n = (Inr fin, take n (drop cur content), xz_dec', in_pos')"
      and rest: "rest xz_dec' in_pos' = drop (cur + n) content" and fin: "\<not> fin"
      using decodes_run [OF dec n(1), of xz_dec in_pos] less.prems n(4) by (auto simp: add.commute)
    let ?buf = "buf_write (take n (drop cur content)) buf"
    have buf: "length ?buf = sz" using less.prems n by (simp add: buf_write_def)
    have len: "length (take n (drop cur content)) = n" using n(4) by simp
    show ?thesis
    proof (cases "cur + n = off")
      case True
      then show ?thesis
        using n run fin rest buf False less.prems(1) by (subst xz_skip.simps) (simp add: Let_def n_def [symmetric] len)
    next
      case False
      have "xz_skip run inp off sz cur xz_dec in_pos buf = xz_skip run inp off sz (cur + n) xz_dec' in_pos' ?buf"
        using n run fin False by (subst xz_skip.simps) (simp add: Let_def n_def [symmetric] len)
      moreover have "\<exists>a b c. xz_skip run inp off sz (cur + n) xz_dec' in_pos' ?buf = Some (Inr (a, b, c)) \<and>
        rest a b = drop off content \<and> length c = sz \<and> (off = 0 \<longrightarrow> c = ?buf)"
        using less.hyps [of "cur + n" xz_dec' in_pos' ?buf] n rest buf by simp
      ultimately show ?thesis using \<open>cur + n \<le> off\<close> n(1) by auto
    qed
  qed
qed

lemma cb_offset_xz_out:
  assumes dec: "decodes run (take (cb_archive_size f) (drop (cb f) (fw_data (fw f)))) rest" and "0 < sz" "length buf = sz"
    and content: "rest xz_dec 0 = content" and off: "off < length content"
  obtains stale where "mlxfw_mfa2_file_cb_offset_xz (Some xz_dec) run f off sz buf = Some (Inr (buf_write (take sz (drop off content)) stale))"
    "length stale = sz" "off = 0 \<Longrightarrow> stale = buf"
proof -
  let ?inp = "take (cb_archive_size f) (drop (cb f) (fw_data (fw f)))"
  obtain xz_dec' in_pos' stale where
    skip: "xz_skip run ?inp off sz 0 xz_dec 0 buf = Some (Inr (xz_dec', in_pos', stale))"
    and rest: "rest xz_dec' in_pos' = drop off content" and len: "length stale = sz" and "off = 0 \<longrightarrow> stale = buf"
    using skip_correct [OF dec assms(2) off, of 0 xz_dec 0 buf] content assms(3) by auto
  moreover obtain fin a b where
    "mlxfw_mfa2_xz_dec_run run xz_dec' ?inp in_pos' sz = (Inr fin, take sz (drop off content), a, b)"
    using decodes_run [OF dec assms(2), of xz_dec' in_pos'] rest by metis
  ultimately show thesis
    using that [of stale] by (simp add: mlxfw_mfa2_file_cb_offset_xz_def Let_def)
qed

lemma length_magic [simp]: "length mlxfw_mfa2_comp_magic = 16"
  by (simp add: mlxfw_mfa2_comp_magic_def ascii_def)

section \<open>Properties\<close>

definition no_fault :: "'a parse \<Rightarrow> bool" where "no_fault m \<longleftrightarrow> (\<forall>x. m \<noteq> Some (Inl x))"

lemma safe_no_fault: "safe d m Q \<Longrightarrow> fw_size d + 4 \<le> length (fw_data d) \<Longrightarrow> no_fault m"
  by (auto simp: no_fault_def reads_below_def outcome_Inl)

text \<open>
  C16. Reading a package never uses a \<open>NULL\<close> record and reads at most four bytes behind its end: if the memory has four more bytes than the
  package, then \<open>mlxfw_mfa2_file_init\<close> and, for an accepted package, \<open>mlxfw_mfa2_file_component_count\<close> and \<open>mlxfw_mfa2_file_component_find\<close>
  read nothing else than this memory, whatever it holds. The compressed block of an accepted package lies in the package.\<close>

theorem mfa2_reads_bounded:
  assumes "fw_size d + 4 \<le> length (fw_data d)"
  shows "no_fault (mlxfw_mfa2_file_init kzalloc_ok d) \<and>
    (\<forall>f. mlxfw_mfa2_file_init kzalloc_ok d = ret (Inr f) \<longrightarrow>
       fw f = d \<and> 0 < cb f \<and> cb f + cb_archive_size f \<le> fw_size d \<and>
       no_fault (mlxfw_mfa2_file_component_count f psid) \<and> no_fault (mlxfw_mfa2_file_component_find f psid i))"
proof (intro conjI allI impI)
  show "no_fault (mlxfw_mfa2_file_init kzalloc_ok d)" by (rule safe_no_fault [OF safe_file_init assms])
  fix f
  assume "mlxfw_mfa2_file_init kzalloc_ok d = ret (Inr f)"
  then have f: "file_ok f" "fw f = d" using safe_file_init [of d kzalloc_ok] by (simp_all add: reads_below_def ret_def)
  show "fw f = d" "0 < cb f" "cb f + cb_archive_size f \<le> fw_size d" using f by (simp_all add: file_ok_def)
  show "no_fault (mlxfw_mfa2_file_component_count f psid)" "no_fault (mlxfw_mfa2_file_component_find f psid i)"
    using safe_no_fault [OF safe_component_count [OF f(1)]] safe_no_fault [OF safe_component_find [OF f(1)]] f(2) assms by simp_all
qed

text \<open>
  C32. Reading a package ends, in \<open>mlxfw_mfa2_file_init\<close> and in the functions that look up a component of an accepted package, unless one of the
  devices and components that the package descriptor counts has 65536 children, one of which is followed by itself.\<close>

theorem mfa2_returns:
  assumes "records_end d"
  shows "\<exists>r. mlxfw_mfa2_file_init kzalloc_ok d = Some r \<and>
    (\<forall>f. r = Inr (Inr f) \<longrightarrow> (\<exists>c q. mlxfw_mfa2_file_component_count f psid = Some c \<and> mlxfw_mfa2_file_component_find f psid i = Some q))"
proof -
  obtain r where r: "mlxfw_mfa2_file_init kzalloc_ok d = Some r"
    using returns_file_init [OF assms, of kzalloc_ok] by (auto simp: returns_def)
  have "file_at f \<and> fw f = d" if "r = Inr (Inr f)" for f
    using accepted_file_at [of kzalloc_ok d f] r that by (simp add: ret_def)
  then have "returns (mlxfw_mfa2_file_component_count f psid) \<and> returns (mlxfw_mfa2_file_component_find f psid i)"
    if "r = Inr (Inr f)" for f
    using that assms by (simp add: returns_component_count returns_component_find)
  with r show ?thesis by (fastforce simp: returns_def)
qed

text \<open>
  C15. With a decoder that gives the content of the archive, \<open>mlxfw_mfa2_file_component_get\<close> returns exactly the bytes of the component
  behind its magic number, when the component lies in the content and its size leaves room for the magic number in 32 bits.\<close>

theorem mfa2_component_get_correct:
  assumes "decodes run (take (cb_archive_size f) (drop (cb f) (fw_data (fw f)))) rest" and "rest xz_dec 0 = content"
    and "mlxfw_mfa2_file_component_find f psid i = ret (Some q)"
    and "cdesc_cb_offset (fw f) q = ret off" "cdesc_size (fw f) q = ret sz" "cdesc_identifier (fw f) q = ret ident"
    and "sz + 16 < 2 ^ 32" "off + 16 + sz \<le> length content" and "take 16 (drop off content) = mlxfw_mfa2_comp_magic"
  shows "mlxfw_mfa2_file_component_get (Some xz_dec) run True f psid i =
    ret (Inr \<lparr>comp_index = ident, data_size = sz, comp_data = take sz (drop (off + 16) content)\<rparr>)"
proof -
  have off: "off < length content" using assms(8) by simp
  obtain stale where "mlxfw_mfa2_file_cb_offset_xz (Some xz_dec) run f off (sz + 16) (replicate (sz + 16) 0) =
      Some (Inr (buf_write (take (sz + 16) (drop off content)) stale))" "length stale = sz + 16"
    by (rule cb_offset_xz_out [OF assms(1) _ _ assms(2) off, of "sz + 16" "replicate (sz + 16) 0"]) simp_all
  moreover have "buf_write (take (sz + 16) (drop off content)) stale = take (sz + 16) (drop off content)"
    using \<open>length stale = sz + 16\<close> assms(8) by (simp add: buf_write_def)
  moreover have "drop 16 (take (sz + 16) (drop off content)) = take sz (drop (off + 16) content)"
    by (simp add: drop_take add.commute)
  ultimately show ?thesis
    using assms(3-9) by (simp add: mlxfw_mfa2_file_component_get_def component_read_def Let_def min_absorb1)
qed

text \<open>
  The result of the last decoding step is not compared with the size that was asked for: when the content ends early, the component is
  accepted all the same, and its missing bytes are those that the buffer held before.\<close>

theorem mfa2_component_short:
  assumes "decodes run (take (cb_archive_size f) (drop (cb f) (fw_data (fw f)))) rest" and "rest xz_dec 0 = content"
    and "mlxfw_mfa2_file_component_find f psid i = ret (Some q)"
    and "cdesc_cb_offset (fw f) q = ret 0" "cdesc_size (fw f) q = ret sz" "cdesc_identifier (fw f) q = ret ident"
    and "sz + 16 < 2 ^ 32" "length content < sz + 16" and "take 16 content = mlxfw_mfa2_comp_magic"
  shows "mlxfw_mfa2_file_component_get (Some xz_dec) run True f psid i =
    ret (Inr \<lparr>comp_index = ident, data_size = sz, comp_data = drop 16 content @ replicate (sz + 16 - length content) 0\<rparr>)"
proof -
  have len: "16 \<le> length content" using arg_cong [OF assms(9), of length] by simp
  then have off: "0 < length content" by linarith
  obtain stale where "mlxfw_mfa2_file_cb_offset_xz (Some xz_dec) run f 0 (sz + 16) (replicate (sz + 16) 0) =
      Some (Inr (buf_write (take (sz + 16) (drop 0 content)) stale))" "stale = replicate (sz + 16) 0"
    by (rule cb_offset_xz_out [OF assms(1) _ _ assms(2) off, of "sz + 16" "replicate (sz + 16) 0"]) simp_all
  moreover have "buf_write (take (sz + 16) (drop 0 content)) (replicate (sz + 16) 0) = content @ replicate (sz + 16 - length content) 0"
    using assms(8) by (simp add: buf_write_def)
  ultimately show ?thesis
    using assms(3-9) len by (simp add: mlxfw_mfa2_file_component_get_def component_read_def Let_def)
qed

section \<open>Examples\<close>

text \<open>A package with one device, identified by \<open>[65, 66]\<close>, and one component of four bytes; a stored archive stands for the compressed
  block. The memory has four bytes behind it.\<close>

definition ex_package :: "nat \<Rightarrow> firmware" where
  "ex_package archive_size = \<lparr>fw_data = mlxfw_mfa2_fingerprint
     @ [0, 1, 0, 4, 0, 0, 0, 32]
     @ [0, 2, 0, 28, 0, 1, 0, 1, 0, 0, 0, 112, 0, 0, 0, of_nat archive_size, 0, 0, 0, 0, 0, 0, 0, 20, 0, 0, 0, 1, 0, 0, 0, 0]
     @ [0, 1, 0, 4, 0, 1, 0, 20] @ [0, 0x2A, 0, 2, 65, 66, 0, 0] @ [0, 0x22, 0, 8, 0, 0, 0, 0, 0, 0, 0, 0]
     @ [0, 1, 0, 4, 0, 0, 0, 20] @ [0, 4, 0, 16, 0, 10, 0, 7, 0, 0, 0, 0, 0, 0, 0, 0, 0, 0, 0, 4]
     @ mlxfw_mfa2_comp_magic @ [1, 2, 3, 4] @ [170, 170, 170, 170], fw_size = 132\<rparr>"

definition ex_file :: "nat \<Rightarrow> mlxfw_mfa2_file" where
  "ex_file archive_size = \<lparr>fw = ex_package archive_size, first_dev = Some 56, dev_count = 1, first_component = Some 84,
     component_count = 1, cb = 112, cb_archive_size = archive_size\<rparr>"

definition stored_run :: "unit xz_dec_run" where
  "stored_run xz_dec inp in_pos n = (if n \<le> length (drop in_pos inp) then XZ_OK else XZ_STREAM_END,
     take n (drop in_pos inp), xz_dec, in_pos + n)"

lemma stored_decodes: "decodes stored_run inp (\<lambda>_ in_pos. drop in_pos inp)"
  by (auto simp: decodes_def stored_run_def add.commute)

lemma length_ex_package [simp]: "fw_size (ex_package a) = 132" "length (fw_data (ex_package a)) = 136"
  by (simp_all add: ex_package_def)

lemma ex_bytes [simp]:
  "rd8 (ex_package a) 17 = ret 1" "rd8 (ex_package a) 18 = ret 0" "rd8 (ex_package a) 19 = ret 4" "rd8 (ex_package a) 20 = ret 0"
  "rd8 (ex_package a) 21 = ret 0" "rd8 (ex_package a) 22 = ret 0" "rd8 (ex_package a) 23 = ret 32" "rd8 (ex_package a) 25 = ret 2"
  "rd8 (ex_package a) 26 = ret 0" "rd8 (ex_package a) 27 = ret 28" "rd8 (ex_package a) 28 = ret 0" "rd8 (ex_package a) 29 = ret 1"
  "rd8 (ex_package a) 30 = ret 0" "rd8 (ex_package a) 31 = ret 1" "rd8 (ex_package a) 32 = ret 0" "rd8 (ex_package a) 33 = ret 0"
  "rd8 (ex_package a) 34 = ret 0" "rd8 (ex_package a) 35 = ret 112" "rd8 (ex_package a) 36 = ret 0" "rd8 (ex_package a) 37 = ret 0"
  "rd8 (ex_package a) 38 = ret 0" "rd8 (ex_package a) 39 = ret (a mod 256)" "rd8 (ex_package a) 57 = ret 1" "rd8 (ex_package a) 58 = ret 0"
  "rd8 (ex_package a) 59 = ret 4" "rd8 (ex_package a) 60 = ret 0" "rd8 (ex_package a) 61 = ret 1" "rd8 (ex_package a) 62 = ret 0"
  "rd8 (ex_package a) 63 = ret 20" "rd8 (ex_package a) 64 = ret 0" "rd8 (ex_package a) 65 = ret 42" "rd8 (ex_package a) 66 = ret 0"
  "rd8 (ex_package a) 67 = ret 2" "rd8 (ex_package a) 68 = ret 65" "rd8 (ex_package a) 69 = ret 66" "rd8 (ex_package a) 73 = ret 34"
  "rd8 (ex_package a) 74 = ret 0" "rd8 (ex_package a) 75 = ret 8" "rd8 (ex_package a) 76 = ret 0" "rd8 (ex_package a) 77 = ret 0"
  "rd8 (ex_package a) 78 = ret 0" "rd8 (ex_package a) 79 = ret 0" "rd8 (ex_package a) 80 = ret 0" "rd8 (ex_package a) 81 = ret 0"
  "rd8 (ex_package a) 82 = ret 0" "rd8 (ex_package a) 83 = ret 0" "rd8 (ex_package a) 85 = ret 1" "rd8 (ex_package a) 86 = ret 0"
  "rd8 (ex_package a) 87 = ret 4" "rd8 (ex_package a) 88 = ret 0" "rd8 (ex_package a) 89 = ret 0" "rd8 (ex_package a) 90 = ret 0"
  "rd8 (ex_package a) 91 = ret 20" "rd8 (ex_package a) 92 = ret 0" "rd8 (ex_package a) 93 = ret 4" "rd8 (ex_package a) 94 = ret 0"
  "rd8 (ex_package a) 95 = ret 16" "rd8 (ex_package a) 96 = ret 0" "rd8 (ex_package a) 97 = ret 10" "rd8 (ex_package a) 98 = ret 0"
  "rd8 (ex_package a) 99 = ret 7" "rd8 (ex_package a) 100 = ret 0" "rd8 (ex_package a) 101 = ret 0" "rd8 (ex_package a) 102 = ret 0"
  "rd8 (ex_package a) 103 = ret 0" "rd8 (ex_package a) 104 = ret 0" "rd8 (ex_package a) 105 = ret 0" "rd8 (ex_package a) 106 = ret 0"
  "rd8 (ex_package a) 107 = ret 0" "rd8 (ex_package a) 108 = ret 0" "rd8 (ex_package a) 109 = ret 0" "rd8 (ex_package a) 110 = ret 0"
  "rd8 (ex_package a) 111 = ret 4"
  by (simp_all add: rd8_def ex_package_def nth_append unat_of_nat)

lemmas parse_defs = mlxfw_mfa2_tlv_get_def mlxfw_mfa2_valid_ptr_def mlxfw_mfa2_tlv_payload_get_def payload_defs
  mlxfw_mfa2_tlv_multi_child_def mlxfw_mfa2_tlv_next_def tlv_multi_foreach_def mlxfw_mfa2_tlv_advance_def
  mlxfw_mfa2_tlv_multi_child_find_def mlxfw_mfa2_tlv_multi_child_count_def mlxfw_mfa2_tlv_multi_validate_def
  mlxfw_mfa2_file_dev_validate_def mlxfw_mfa2_file_comp_validate_def tlvs_validate_def mlxfw_mfa2_file_validate_def
  tlv_type_def tlv_len_def be16_def be32_def NLA_ALIGN_def tlv_types Let_def

lemma case_ret [simp]: "(case ret x of None \<Rightarrow> a | Some y \<Rightarrow> g y) = g (Inr x)"
  by (simp add: ret_def)

lemma rd_bytes_2: "rd_bytes d p (Suc (Suc 0)) = bnd (rd8 d p) (\<lambda>a. bnd (rd8 d (p + 1)) (\<lambda>b. ret [a, b]))"
  by (simp add: bnd_def ret_def split: option.splits sum.splits)

lemmas run_defs = mlxfw_mfa2_file_init_def file_init_cb_def parse_defs tlv_foreach.simps cdesc_identifier_def cdesc_cb_offset_def
  cdesc_size_def

lemma ex_init: "mlxfw_mfa2_file_init True (ex_package 20) = ret (Inr (ex_file 20))"
  by (simp add: run_defs ex_file_def)

lemma ex_find: "mlxfw_mfa2_file_component_find (ex_file a) [65, 66] 0 = ret (Some 96)"
  by (simp add: ex_file_def mlxfw_mfa2_file_component_find_def mlxfw_mfa2_tlv_dev_get_def mlxfw_mfa2_file_component_tlv_get_def
      parse_defs tlv_foreach.simps rd_bytes_2)

lemma ex_cdesc: "cdesc_cb_offset (fw (ex_file a)) 96 = ret 0" "cdesc_size (fw (ex_file a)) 96 = ret 4"
  "cdesc_identifier (fw (ex_file a)) 96 = ret 7"
  by (simp_all add: ex_file_def cdesc_cb_offset_def cdesc_size_def cdesc_identifier_def be16_def be32_def)

text \<open>A package with a device whose 65536 children are one record of size 0.\<close>

definition loop_package :: "firmware" where
  "loop_package = \<lparr>fw_data = mlxfw_mfa2_fingerprint
     @ [0, 1, 0, 4, 0, 0, 0, 32]
     @ [0, 2, 0, 28, 0, 0, 0, 1, 0, 0, 0, 4, 0, 0, 0, 1, 0, 0, 0, 0, 0, 0, 0, 0, 0, 0, 0, 0, 0, 0, 0, 0]
     @ [0, 1, 0, 4, 0xFF, 0xFF, 0, 8] @ [0, 0x10, 0xFF, 0xFC, 0, 0], fw_size = 70\<rparr>"

lemma size_loop_package [simp]: "fw_size loop_package = 70"
  by (simp add: loop_package_def)

lemma loop_bytes [simp]:
  "rd8 loop_package 17 = ret 1" "rd8 loop_package 18 = ret 0" "rd8 loop_package 19 = ret 4" "rd8 loop_package 20 = ret 0"
  "rd8 loop_package 21 = ret 0" "rd8 loop_package 22 = ret 0" "rd8 loop_package 23 = ret 32" "rd8 loop_package 25 = ret 2"
  "rd8 loop_package 26 = ret 0" "rd8 loop_package 27 = ret 28" "rd8 loop_package 28 = ret 0" "rd8 loop_package 29 = ret 0"
  "rd8 loop_package 30 = ret 0" "rd8 loop_package 31 = ret 1" "rd8 loop_package 32 = ret 0" "rd8 loop_package 33 = ret 0"
  "rd8 loop_package 34 = ret 0" "rd8 loop_package 35 = ret 4" "rd8 loop_package 36 = ret 0" "rd8 loop_package 37 = ret 0"
  "rd8 loop_package 38 = ret 0" "rd8 loop_package 39 = ret 1" "rd8 loop_package 57 = ret 1" "rd8 loop_package 58 = ret 0"
  "rd8 loop_package 59 = ret 4" "rd8 loop_package 60 = ret 255" "rd8 loop_package 61 = ret 255" "rd8 loop_package 62 = ret 0"
  "rd8 loop_package 63 = ret 8" "rd8 loop_package 65 = ret 16" "rd8 loop_package 66 = ret 255" "rd8 loop_package 67 = ret 252"
  by (simp_all add: rd8_def loop_package_def nth_append)

lemma foreach_stuck:
  assumes "mlxfw_mfa2_tlv_next d t = ret (Some t)" "\<And>s. body (Some t) s = ret (Inr s)" "idx < 65536"
  shows "tlv_foreach d body 65536 idx (Some t) s = None"
proof -
  have False if "tlv_foreach d body 65536 idx (Some t) s = Some y" for y
  proof -
    have "\<not> (d' = d \<and> body' = body \<and> cnt = 65536 \<and> idx' < 65536 \<and> tlv = Some t)"
      if "tlv_foreach d' body' cnt idx' tlv s' = Some y'" for d' body' cnt idx' tlv s' y'
      using that
    proof (rule tlv_foreach.raw_induct [where P = "\<lambda>d' body' cnt idx tlv s y.
        \<not> (d' = d \<and> body' = body \<and> cnt = 65536 \<and> idx < 65536 \<and> tlv = Some t)", rotated], goal_cases)
      case (1 loop d' body' cnt idx' tlv s' y')
      then show ?case using assms 1(1) [of d body 65536 "(idx' + 1) mod 65536" "Some t" s' y'] by (auto simp: ret_def)
    qed
    with that assms(3) show False by blast
  qed
  then show ?thesis by fastforce
qed

lemma loop_stuck: "mlxfw_mfa2_tlv_next loop_package 64 = ret (Some 64)"
  by (simp add: parse_defs)

lemma loop_validate: "mlxfw_mfa2_tlv_multi_validate loop_package 60 = None"
proof -
  have "tlv_foreach loop_package (\<lambda>tlv s. if tlv = None then ret (Inl ()) else ret (Inr s)) 65536 0 (Some 64) () = None"
    by (rule foreach_stuck [OF loop_stuck]) simp_all
  then show ?thesis
    by (simp add: mlxfw_mfa2_tlv_multi_validate_def tlv_multi_foreach_def mlxfw_mfa2_tlv_multi_child_def NLA_ALIGN_def be16_def
        mlxfw_mfa2_tlv_get_def mlxfw_mfa2_valid_ptr_def) (simp add: bnd_def)
qed

lemma loop_dev_validate: "mlxfw_mfa2_file_dev_validate loop_package 56 = None"
proof -
  have "mlxfw_mfa2_tlv_multi_get loop_package 56 = ret (Some 60)" by (simp add: parse_defs)
  then show ?thesis by (simp add: mlxfw_mfa2_file_dev_validate_def loop_validate) (simp add: bnd_def)
qed

lemma loop_steps:
  "mlxfw_mfa2_tlv_get loop_package 16 = Some 16"
  "mlxfw_mfa2_tlv_multi_get loop_package 16 = ret (Some 20)" "mlxfw_mfa2_tlv_multi_child loop_package 20 = Some 24"
  "mlxfw_mfa2_tlv_package_descriptor_get loop_package 24 = ret (Some 28)" "mlxfw_mfa2_tlv_next loop_package 16 = ret (Some 56)"
  "be16 loop_package 30 = ret 1" "be16 loop_package 28 = ret 0" "be32 loop_package 32 = ret 4" "be32 loop_package 36 = ret 1"
  "mlxfw_mfa2_tlv_advance loop_package (Some 56) 1 = ret None"
  by (simp_all add: parse_defs tlv_foreach.simps)

lemma loop_tlvs: "tlvs_validate loop_package (mlxfw_mfa2_file_dev_validate loop_package) (Some 56) 1 = None"
  unfolding tlvs_validate_def by (subst tlv_foreach.simps) (simp add: loop_dev_validate bnd_def)

text \<open>
  C33. A package of 70 bytes makes \<open>mlxfw_mfa2_file_init\<close> run forever: the index of the loop over the children of a device has 16 bits and
  never reaches 65536, and the size of the only child is 65536, which is 0 in the 16 bits of \<open>tlv_len\<close>.\<close>

theorem mfa2_init_loops: "mlxfw_mfa2_check loop_package \<and> mlxfw_mfa2_file_init True loop_package = None"
proof
  show "mlxfw_mfa2_check loop_package" by (simp add: mlxfw_mfa2_check_def loop_package_def)
  show "mlxfw_mfa2_file_init True loop_package = None"
    by (simp add: mlxfw_mfa2_file_init_def loop_steps [simplified] file_init_cb_def NLA_ALIGN_def mlxfw_mfa2_valid_ptr_def
        mlxfw_mfa2_file_validate_def loop_tlvs [simplified]) (simp add: bnd_def)
qed

lemma ex_records:
  "top_record (ex_package a) (Suc 0) = ret (Some 56)" "top_record (ex_package a) (Suc (Suc 0)) = ret (Some 84)"
  "mlxfw_mfa2_tlv_multi_get (ex_package a) 56 = ret (Some 60)" "mlxfw_mfa2_tlv_multi_get (ex_package a) 84 = ret (Some 88)"
  "be16 (ex_package a) 30 = ret 1" "be16 (ex_package a) 28 = ret 1" "be16 (ex_package a) 60 = ret 1" "be16 (ex_package a) 88 = ret 0"
  by (simp_all add: parse_defs)

lemma ex_records_end: "records_end (ex_package a)"
proof -
  have "t = 56 \<or> t = 84" if listed: "listed (ex_package a) t" for t
  proof -
    from listed obtain n where "n < 2" "top_record (ex_package a) (Suc n) = ret (Some t)" using ex_records(5,6) [of a] by (auto simp: listed_def numeral_2_eq_2 simp del: top_record.simps)
    then show ?thesis using ex_records(1,2) [of a] by (auto simp: less_2_cases_iff simp del: top_record.simps)
  qed
  moreover have "multi = 60 \<or> multi = 88" if "t = 56 \<or> t = 84" "mlxfw_mfa2_tlv_multi_get (ex_package a) t = ret (Some multi)" for t multi
    using that ex_records(3,4) [of a] by auto
  moreover have "be16 (ex_package a) multi \<noteq> ret 65535" if "multi = 60 \<or> multi = 88" for multi
    using that ex_records(7,8) [of a] by auto
  ultimately show ?thesis unfolding records_end_def children_end_def by blast
qed

theorem mfa2_returns_witness:
  "records_end (ex_package 20) \<and> (\<exists>r. mlxfw_mfa2_file_init True (ex_package 20) = Some r)"
  using mfa2_returns [OF ex_records_end, of True 20 "[65, 66]" 0] ex_records_end by blast

theorem mfa2_reads_bounded_witness:
  "no_fault (mlxfw_mfa2_file_init True (ex_package 20)) \<and> no_fault (mlxfw_mfa2_file_component_count (ex_file 20) [65, 66]) \<and>
   no_fault (mlxfw_mfa2_file_component_find (ex_file 20) [65, 66] 0)"
  using mfa2_reads_bounded [of "ex_package 20" True "[65, 66]" 0] ex_init by simp

theorem mfa2_component_get_witness:
  "mlxfw_mfa2_file_init True (ex_package 20) = ret (Inr (ex_file 20)) \<and>
   mlxfw_mfa2_file_component_get (Some ()) stored_run True (ex_file 20) [65, 66] 0 =
     ret (Inr \<lparr>comp_index = 7, data_size = 4, comp_data = [1, 2, 3, 4]\<rparr>)"
proof -
  let ?c = "mlxfw_mfa2_comp_magic @ [1, 2, 3, 4]"
  have c: "take (cb_archive_size (ex_file 20)) (drop (cb (ex_file 20)) (fw_data (fw (ex_file 20)))) = ?c"
    by (simp add: ex_file_def ex_package_def)
  show ?thesis
    using ex_init mfa2_component_get_correct [OF stored_decodes, where f = "ex_file 20" and xz_dec = "()" and content = ?c and psid = "[65, 66]" and i = 0 and q = 96 and off = 0 and sz = 4 and ident = 7] c
    by (simp add: ex_find ex_cdesc)
qed

lemma replicate_2: "replicate 2 x = [x, x]"
  by (simp add: numeral_2_eq_2)

theorem mfa2_component_short_witness:
  "mlxfw_mfa2_file_component_get (Some ()) stored_run True (ex_file 18) [65, 66] 0 =
     ret (Inr \<lparr>comp_index = 7, data_size = 4, comp_data = [1, 2, 0, 0]\<rparr>)"
proof -
  let ?c = "mlxfw_mfa2_comp_magic @ [1, 2]"
  have c: "take (cb_archive_size (ex_file 18)) (drop (cb (ex_file 18)) (fw_data (fw (ex_file 18)))) = ?c"
    by (simp add: ex_file_def ex_package_def)
  show ?thesis
    using mfa2_component_short [OF stored_decodes, where f = "ex_file 18" and xz_dec = "()" and content = ?c and psid = "[65, 66]" and i = 0 and q = 96 and sz = 4 and ident = 7] c
    by (simp add: ex_find ex_cdesc replicate_2)
qed

text \<open>A package whose device record ends it is read behind its end.\<close>

lemma mfa2_overread_example:
  "mlxfw_mfa2_file_init True \<lparr>fw_data = take 61 (fw_data loop_package), fw_size = 61\<rparr> = Some (Inl (Overread 62))"
  by (simp add: loop_package_def run_defs rd8_def nth_append) (simp add: bnd_def)

end
