(* ===== verification/Mlxfw_Fsm.thy ===== *)
theory Mlxfw_Fsm
  imports Mfa2
begin

text \<open>
  The flash process (\<open>drivers/net/ethernet/mellanox/mlxfw/mlxfw_fsm.c\<close>): lock the state machine of the device, download and verify every
  component of the package that belongs to the device, activate the image, release the lock.

  Correspondence.
  \<^item> \<open>struct mlxfw_dev_ops\<close> is the record of the operations of a device, which are arguments; \<open>'d\<close> is the state of the device.
  \<^item> The world is the state of the device and the calls made so far.
  \<^item> Error messages and progress notifications change no state and are left out.
  \<^item> The shift of the code by \<open>align_bits\<close> is defined up to 30; the theorems on the data that is sent assume it.
  \<^item> Sizes and offsets have 32 bits in the code. \<open>MLXFW_ALIGN_UP\<close> wraps for sizes near 4 GiB, where nothing is sent (\<open>download_wraps\<close>).
\<close>

section \<open>The device\<close>

record 'd mlxfw_dev_ops =
  component_query :: "'d \<Rightarrow> nat \<Rightarrow> (nat \<times> nat \<times> nat) result \<times> 'd"
  fsm_lock :: "'d \<Rightarrow> nat result \<times> 'd"
  fsm_component_update :: "'d \<Rightarrow> nat \<Rightarrow> nat \<Rightarrow> nat \<Rightarrow> unit result \<times> 'd"
  fsm_block_download :: "'d \<Rightarrow> nat \<Rightarrow> u8 list \<Rightarrow> nat \<Rightarrow> unit result \<times> 'd"
  fsm_component_verify :: "'d \<Rightarrow> nat \<Rightarrow> nat \<Rightarrow> unit result \<times> 'd"
  fsm_activate :: "'d \<Rightarrow> nat \<Rightarrow> unit result \<times> 'd"
  fsm_reactivate :: "('d \<Rightarrow> nat result \<times> 'd) option"
  fsm_query_state :: "'d \<Rightarrow> nat \<Rightarrow> (nat \<times> nat) result \<times> 'd"
  fsm_cancel :: "'d \<Rightarrow> nat \<Rightarrow> 'd"
  fsm_release :: "'d \<Rightarrow> nat \<Rightarrow> 'd"

text \<open>The calls that change the device; queries are not recorded.\<close>

datatype call =
    Lock
  | Reactivate
  | Update nat nat nat  \<comment> \<open>handle, component index, size\<close>
  | Block nat "u8 list" nat  \<comment> \<open>handle, bytes, offset\<close>
  | Verify nat nat
  | Activate nat
  | Cancel nat
  | Release nat

type_synonym 'd world = "'d \<times> call list"

definition note_call :: "call \<Rightarrow> 'a \<times> 'd \<Rightarrow> call list \<Rightarrow> 'a \<times> 'd world" where
  "note_call c r cs = (fst r, snd r, cs @ [c])"

section \<open>States\<close>

definition MLXFW_FSM_STATE_LOCKED :: nat where "MLXFW_FSM_STATE_LOCKED = 1"
definition MLXFW_FSM_STATE_DOWNLOAD :: nat where "MLXFW_FSM_STATE_DOWNLOAD = 3"
definition MLXFW_FSM_STATE_WAIT_ROUNDS :: nat where "MLXFW_FSM_STATE_WAIT_ROUNDS = 30000 div 200"

text \<open>The error numbers as the kernel has them; entry 0 of the table is not set, hence 0, no error.\<close>

definition mlxfw_fsm_state_err :: "nat \<Rightarrow> unit result" where
  "mlxfw_fsm_state_err err = [Inr (), Inl (EFW 5), Inl (EFW 74), Inl ENOENT, Inl (EFW 126), Inl (EFW 13), Inl (EFW 128), Inl (EFW 129),
     Inl (EFW 8), Inl (EFW 16), Inl EINVAL] ! min err 10"

text \<open>The wait; \<open>tries\<close> further rounds are allowed after this one.\<close>

fun state_wait :: "'d mlxfw_dev_ops \<Rightarrow> nat \<Rightarrow> nat \<Rightarrow> nat \<Rightarrow> 'd world \<Rightarrow> unit result \<times> 'd world" where
  "state_wait ops fwhandle fsm_state tries (d, cs) =
     (case fsm_query_state ops d fwhandle of
        (Inl e, d) \<Rightarrow> (Inl e, d, cs)
      | (Inr (curr_fsm_state, fsm_state_err), d) \<Rightarrow>
          if fsm_state_err \<noteq> 0 then (mlxfw_fsm_state_err fsm_state_err, d, cs)
          else if curr_fsm_state \<noteq> fsm_state
          then (case tries of 0 \<Rightarrow> (Inl (EFW 110), d, cs) | Suc tries \<Rightarrow> state_wait ops fwhandle fsm_state tries (d, cs))
          else (Inr (), d, cs))"

declare state_wait.simps [simp del]

definition mlxfw_fsm_state_wait :: "'d mlxfw_dev_ops \<Rightarrow> nat \<Rightarrow> nat \<Rightarrow> 'd world \<Rightarrow> unit result \<times> 'd world" where
  "mlxfw_fsm_state_wait ops fwhandle fsm_state w = state_wait ops fwhandle fsm_state (MLXFW_FSM_STATE_WAIT_ROUNDS - 1) w"

text \<open>The result of \<open>mlxfw_fsm_reactivate\<close> is whether the device supports it.\<close>

definition mlxfw_fsm_reactivate :: "'d mlxfw_dev_ops \<Rightarrow> 'd world \<Rightarrow> bool result \<times> 'd world" where
  "mlxfw_fsm_reactivate ops w =
     (case fsm_reactivate ops of
        None \<Rightarrow> (Inr True, w)
      | Some op \<Rightarrow>
          (case note_call Reactivate (op (fst w)) (snd w) of
             (Inl EOPNOTSUPP, w) \<Rightarrow> (Inr False, w)
           | (Inl e, w) \<Rightarrow> (Inl e, w)
           | (Inr status, w) \<Rightarrow> (if status = 0 \<or> status = 7 then Inr True else Inl (EFW 121), w)))"

section \<open>One component\<close>

definition MLXFW_ALIGN_DOWN :: "nat \<Rightarrow> nat \<Rightarrow> nat" where "MLXFW_ALIGN_DOWN x align_bits = x div 2 ^ align_bits * 2 ^ align_bits"

definition MLXFW_ALIGN_UP :: "nat \<Rightarrow> nat \<Rightarrow> nat" where
  "MLXFW_ALIGN_UP x align_bits = MLXFW_ALIGN_DOWN ((x + (2 ^ align_bits - 1)) mod 2 ^ 32) align_bits"

text \<open>The download loop. The offset and the differences have 32 bits, the size of a block 16; a block behind the data is a fault.\<close>

partial_function (option) download ::
  "'d mlxfw_dev_ops \<Rightarrow> nat \<Rightarrow> mlxfw_mfa2_component \<Rightarrow> nat \<Rightarrow> nat \<Rightarrow> nat \<Rightarrow> 'd world \<Rightarrow> (unit result \<times> 'd world) parse" where
  "download ops fwhandle c data_top comp_max_write_size offset w =
     (if \<not> offset < data_top then ret (Inr (), w)
      else
        let block_size = min ((data_size c + 2 ^ 32 - offset) mod 2 ^ 32) comp_max_write_size mod 65536 in
        if length (comp_data c) < offset + block_size then Some (Inl Buf_overread)
        else
          let block = take block_size (drop offset (comp_data c)) in
          case note_call (Block fwhandle block offset) (fsm_block_download ops (fst w) fwhandle block offset) (snd w) of
            (Inl e, w) \<Rightarrow> ret (Inl e, w)
          | (Inr _, w) \<Rightarrow> download ops fwhandle c data_top comp_max_write_size ((offset + comp_max_write_size) mod 2 ^ 32) w)"

text \<open>\<open>err_out\<close>\<close>

definition cancel :: "'d mlxfw_dev_ops \<Rightarrow> nat \<Rightarrow> unit result \<times> 'd world \<Rightarrow> unit result \<times> 'd world" where
  "cancel ops fwhandle r = (case r of (Inl e, d, cs) \<Rightarrow> (Inl e, fsm_cancel ops d fwhandle, cs @ [Cancel fwhandle]) | (Inr _, w) \<Rightarrow> (Inr (), w))"

text \<open>From \<open>mlxfw_fsm_state_wait\<close> for the download to the end.\<close>

definition download_component ::
  "'d mlxfw_dev_ops \<Rightarrow> nat \<Rightarrow> mlxfw_mfa2_component \<Rightarrow> nat \<Rightarrow> nat \<Rightarrow> 'd world \<Rightarrow> (unit result \<times> 'd world) parse" where
  "download_component ops fwhandle c comp_align_bits comp_max_write_size w =
     (case mlxfw_fsm_state_wait ops fwhandle MLXFW_FSM_STATE_DOWNLOAD w of
        (Inl e, w) \<Rightarrow> ret (Inl e, w)
      | (Inr _, w) \<Rightarrow>
          bnd (download ops fwhandle c (MLXFW_ALIGN_UP (data_size c) comp_align_bits) comp_max_write_size 0 w) (\<lambda>(r, w).
            case r of
              Inl e \<Rightarrow> ret (Inl e, w)
            | Inr _ \<Rightarrow>
                (case note_call (Verify fwhandle (comp_index c)) (fsm_component_verify ops (fst w) fwhandle (comp_index c)) (snd w) of
                   (Inl e, w) \<Rightarrow> ret (Inl e, w)
                 | (Inr _, w) \<Rightarrow> ret (mlxfw_fsm_state_wait ops fwhandle MLXFW_FSM_STATE_LOCKED w))))"

definition mlxfw_flash_component ::
  "'d mlxfw_dev_ops \<Rightarrow> nat \<Rightarrow> mlxfw_mfa2_component \<Rightarrow> 'd world \<Rightarrow> (unit result \<times> 'd world) parse" where
  "mlxfw_flash_component ops fwhandle c w =
     (case component_query ops (fst w) (comp_index c) of
        (Inl e, d) \<Rightarrow> ret (Inl e, d, snd w)
      | (Inr (comp_max_size, comp_align_bits, comp_max_write_size), d) \<Rightarrow>
          if comp_max_size < data_size c then ret (Inl EINVAL, d, snd w)
          else
            (case note_call (Update fwhandle (comp_index c) (data_size c))
                (fsm_component_update ops d fwhandle (comp_index c) (data_size c)) (snd w) of
               (Inl e, w) \<Rightarrow> ret (Inl e, w)
             | (Inr _, w) \<Rightarrow>
                 bnd (download_component ops fwhandle c comp_align_bits (MLXFW_ALIGN_DOWN comp_max_write_size comp_align_bits) w)
                   (\<lambda>r. ret (cancel ops fwhandle r))))"

section \<open>The package\<close>

text \<open>The loop over the components; \<open>n\<close> are left. The source of components, \<open>mlxfw_mfa2_file_component_get\<close>, is an argument here.\<close>

fun flash_loop ::
  "'d mlxfw_dev_ops \<Rightarrow> nat \<Rightarrow> (nat \<Rightarrow> mlxfw_mfa2_component result parse) \<Rightarrow> nat \<Rightarrow> nat \<Rightarrow> 'd world \<Rightarrow> (unit result \<times> 'd world) parse" where
  "flash_loop ops fwhandle component_get i 0 w = ret (Inr (), w)"
| "flash_loop ops fwhandle component_get i (Suc n) w =
     bnd (component_get i) (\<lambda>r. case r of
         Inl e \<Rightarrow> ret (Inl e, w)
       | Inr c \<Rightarrow> bnd (mlxfw_flash_component ops fwhandle c w) (\<lambda>(r, w). case r of
             Inl e \<Rightarrow> ret (Inl e, w)
           | Inr _ \<Rightarrow> flash_loop ops fwhandle component_get (i + 1) n w))"

definition mlxfw_flash_components ::
  "'x option \<Rightarrow> 'x xz_dec_run \<Rightarrow> (nat \<Rightarrow> bool) \<Rightarrow> 'd mlxfw_dev_ops \<Rightarrow> u8 list \<Rightarrow> nat \<Rightarrow> mlxfw_mfa2_file \<Rightarrow> 'd world \<Rightarrow> (unit result \<times> 'd world) parse" where
  "mlxfw_flash_components xz_dec_init run vzalloc_ok ops psid fwhandle f w =
     bnd (mlxfw_mfa2_file_component_count f psid) (\<lambda>r. case r of
         Inl e \<Rightarrow> ret (Inl e, w)
       | Inr n \<Rightarrow> flash_loop ops fwhandle (\<lambda>i. mlxfw_mfa2_file_component_get xz_dec_init run (vzalloc_ok i) f psid i) 0 n w)"

text \<open>\<open>vzalloc_ok i\<close> says whether the allocation for component \<open>i\<close> succeeds.
  From the lock to \<open>err_fsm_lock\<close>, without the release.\<close>

definition flash_locked ::
  "'x option \<Rightarrow> 'x xz_dec_run \<Rightarrow> (nat \<Rightarrow> bool) \<Rightarrow> 'd mlxfw_dev_ops \<Rightarrow> u8 list \<Rightarrow> nat \<Rightarrow> mlxfw_mfa2_file \<Rightarrow> 'd world \<Rightarrow> (unit result \<times> 'd world) parse" where
  "flash_locked xz_dec_init run vzalloc_ok ops psid fwhandle f w =
     (case mlxfw_fsm_state_wait ops fwhandle MLXFW_FSM_STATE_LOCKED w of
        (Inl e, w) \<Rightarrow> ret (Inl e, w)
      | (Inr _, w) \<Rightarrow>
          (case mlxfw_fsm_reactivate ops w of
             (Inl e, w) \<Rightarrow> ret (Inl e, w)
           | (Inr _, w) \<Rightarrow>
               (case mlxfw_fsm_state_wait ops fwhandle MLXFW_FSM_STATE_LOCKED w of
                  (Inl e, w) \<Rightarrow> ret (Inl e, w)
                | (Inr _, w) \<Rightarrow>
                    bnd (mlxfw_flash_components xz_dec_init run vzalloc_ok ops psid fwhandle f w) (\<lambda>(r, w). case r of
                        Inl e \<Rightarrow> ret (Inl e, w)
                      | Inr _ \<Rightarrow>
                          (case note_call (Activate fwhandle) (fsm_activate ops (fst w) fwhandle) (snd w) of
                             (Inl e, w) \<Rightarrow> ret (Inl e, w)
                           | (Inr _, w) \<Rightarrow> ret (mlxfw_fsm_state_wait ops fwhandle MLXFW_FSM_STATE_LOCKED w))))))"

definition mlxfw_firmware_flash ::
  "'x option \<Rightarrow> 'x xz_dec_run \<Rightarrow> bool \<Rightarrow> (nat \<Rightarrow> bool) \<Rightarrow> 'd mlxfw_dev_ops \<Rightarrow> u8 list \<Rightarrow> firmware \<Rightarrow> 'd world \<Rightarrow> (unit result \<times> 'd world) parse" where
  "mlxfw_firmware_flash xz_dec_init run kzalloc_ok vzalloc_ok ops psid firmware w =
     (if \<not> mlxfw_mfa2_check firmware then ret (Inl EINVAL, w)
      else bnd (mlxfw_mfa2_file_init kzalloc_ok firmware) (\<lambda>r. case r of
          Inl e \<Rightarrow> ret (Inl e, w)
        | Inr f \<Rightarrow>
            (case note_call Lock (fsm_lock ops (fst w)) (snd w) of
               (Inl e, w) \<Rightarrow> ret (Inl e, w)
             | (Inr fwhandle, w) \<Rightarrow>
                 bnd (flash_locked xz_dec_init run vzalloc_ok ops psid fwhandle f w) (\<lambda>(r, d, cs).
                   ret (r, fsm_release ops d fwhandle, cs @ [Release fwhandle])))))"

section \<open>Downloading a component\<close>

text \<open>The reference: the data cut into blocks of at most \<open>wr\<close> bytes, with their offsets.\<close>

function chunks :: "nat \<Rightarrow> nat \<Rightarrow> u8 list \<Rightarrow> (nat \<times> u8 list) list" where
  "chunks wr off xs = (if wr = 0 \<or> xs = [] then [] else (off, take wr xs) # chunks wr (off + wr) (drop wr xs))"
  by auto
termination by (relation "measure (\<lambda>(wr, off, xs). length xs)") auto

declare chunks.simps [simp del]

lemma chunks_concat: "0 < wr \<Longrightarrow> concat (map snd (chunks wr off xs)) = xs"
  by (induction wr off xs rule: chunks.induct) (subst chunks.simps, simp)

lemma chunks_size: "(p, b) \<in> set (chunks wr off xs) \<Longrightarrow> b \<noteq> [] \<and> length b \<le> wr"
  by (induction wr off xs rule: chunks.induct) (subst (asm) (2) chunks.simps, auto split: if_splits)

lemma chunks_place: "(p, b) \<in> set (chunks wr off xs) \<Longrightarrow> off \<le> p \<and> b = take wr (drop (p - off) xs)"
proof (induction wr off xs rule: chunks.induct)
  case (1 wr off xs)
  from 1(2) consider "p = off" "b = take wr xs" | "\<not> (wr = 0 \<or> xs = [])" "(p, b) \<in> set (chunks wr (off + wr) (drop wr xs))"
    by (subst (asm) chunks.simps) (auto split: if_splits)
  then show ?case
  proof cases
    case 2
    have "p - (off + wr) + wr = p - off" using 1(1) [OF 2] by simp
    then show ?thesis using 1(1) [OF 2] by simp
  qed simp
qed

abbreviation block_calls :: "nat \<Rightarrow> (nat \<times> u8 list) list \<Rightarrow> call list" where
  "block_calls h bs \<equiv> map (\<lambda>(p, b). Block h b p) bs"

lemma align_up:
  assumes "x + 2 ^ b \<le> 2 ^ 32" "2 ^ b dvd off"
  shows "off < MLXFW_ALIGN_UP x b \<longleftrightarrow> off < x"
proof -
  have "MLXFW_ALIGN_UP x b = (x + (2 ^ b - 1)) div 2 ^ b * 2 ^ b"
    using assms(1) by (simp add: MLXFW_ALIGN_UP_def MLXFW_ALIGN_DOWN_def)
  moreover obtain k where k: "off = k * 2 ^ b" using assms(2) by (metis dvdE mult.commute)
  moreover have "k * 2 ^ b < (x + (2 ^ b - 1)) div 2 ^ b * 2 ^ b \<longleftrightarrow> k < (x + (2 ^ b - 1)) div 2 ^ b" by simp
  moreover have "k < (x + (2 ^ b - 1)) div 2 ^ b \<longleftrightarrow> Suc k * 2 ^ b \<le> x + (2 ^ b - 1)"
    by (simp add: less_eq_div_iff_mult_less_eq Suc_le_eq [symmetric])
  moreover have "Suc k * 2 ^ b \<le> x + (2 ^ b - 1) \<longleftrightarrow> k * 2 ^ b < x"
  proof -
    have "0 < (2 :: nat) ^ b" by simp
    then show ?thesis by (simp only: mult_Suc) linarith
  qed
  ultimately show ?thesis by simp
qed

lemma download_chunks:
  assumes wr: "0 < wr" "wr < 65536" "2 ^ b dvd wr" and sz: "data_size c \<le> 2 ^ 31" and data: "length (comp_data c) = data_size c"
  shows "2 ^ b dvd off \<Longrightarrow> off \<le> data_size c + wr \<Longrightarrow>
    \<exists>r d' k. download ops h c (MLXFW_ALIGN_UP (data_size c) b) wr off (d, cs) =
        ret (r, d', cs @ take k (block_calls h (chunks wr off (drop off (comp_data c))))) \<and>
      (r = Inr () \<longrightarrow> k = length (chunks wr off (drop off (comp_data c))))"
proof (induction "data_size c + wr - off" arbitrary: off d cs rule: less_induct)
  case less
  have b: "2 ^ b \<le> wr" using wr by (simp add: dvd_imp_le)
  have top: "off < MLXFW_ALIGN_UP (data_size c) b \<longleftrightarrow> off < data_size c"
    using align_up [OF _ less.prems(1), of "data_size c"] sz b wr(2) by simp
  show ?case
  proof (cases "off < data_size c")
    case False
    then have "chunks wr off (drop off (comp_data c)) = []" using data by (subst chunks.simps) simp
    then show ?thesis using False top by (subst download.simps) simp
  next
    case True
    let ?n = "min (data_size c - off) wr"
    let ?bl = "take ?n (drop off (comp_data c))"
    have n: "min ((data_size c + 2 ^ 32 - off) mod 2 ^ 32) wr mod 65536 = ?n"
    proof -
      have "(data_size c + 2 ^ 32 - off) mod 2 ^ 32 = data_size c - off"
        using True sz by (simp add: le_mod_geq)
      then show ?thesis using wr by simp
    qed
    have room: "\<not> data_size c < off + ?n" using True by linarith
    have bl: "?bl = take wr (drop off (comp_data c))" using data True by (simp add: min_def)
    have nxt: "(off + wr) mod 2 ^ 32 = off + wr" using True sz wr by simp
    have ch: "chunks wr off (drop off (comp_data c)) = (off, ?bl) # chunks wr (off + wr) (drop (off + wr) (comp_data c))"
      using True data wr bl by (subst chunks.simps) (simp add: add.commute)
    have lt: "data_size c + wr - (off + wr) < data_size c + wr - off" using True wr by linarith
    obtain q d1 where q: "fsm_block_download ops d h ?bl off = (q, d1)" by fastforce
    show ?thesis
    proof (cases q)
      case (Inl e)
      have "download ops h c (MLXFW_ALIGN_UP (data_size c) b) wr off (d, cs) = ret (Inl e, d1, cs @ [Block h ?bl off])"
        using True top data q Inl by (subst download.simps) (simp add: n [simplified], simp add: Let_def note_call_def room)
      then show ?thesis using ch by (intro exI [of _ "Inl e"] exI [of _ d1] exI [of _ 1]) simp
    next
      case (Inr u)
      have "download ops h c (MLXFW_ALIGN_UP (data_size c) b) wr off (d, cs) =
          download ops h c (MLXFW_ALIGN_UP (data_size c) b) wr (off + wr) (d1, cs @ [Block h ?bl off])"
        using True top data q Inr nxt by (subst download.simps) (simp add: n [simplified], simp add: Let_def note_call_def room)
      moreover obtain r d' k where "download ops h c (MLXFW_ALIGN_UP (data_size c) b) wr (off + wr) (d1, cs @ [Block h ?bl off]) =
          ret (r, d', (cs @ [Block h ?bl off]) @ take k (block_calls h (chunks wr (off + wr) (drop (off + wr) (comp_data c)))))"
        "r = Inr () \<longrightarrow> k = length (chunks wr (off + wr) (drop (off + wr) (comp_data c)))"
        using less.hyps [OF lt, of d1 "cs @ [Block h ?bl off]"] less.prems True wr by auto
      ultimately show ?thesis using ch by (intro exI [of _ r] exI [of _ d'] exI [of _ "Suc k"]) simp
    qed
  qed
qed

text \<open>Whatever the device does, the calls of a loop that returns are blocks under the handle; blocks of size 0 never end it.\<close>

definition only_calls :: "(call \<Rightarrow> bool) \<Rightarrow> 'd world \<Rightarrow> fault + (unit result \<times> 'd world) \<Rightarrow> bool" where
  "only_calls P w y \<longleftrightarrow> (\<forall>r w'. y = Inr (r, w') \<longrightarrow> (\<exists>xs. snd w' = snd w @ xs \<and> list_all P xs))"

fun is_block :: "nat \<Rightarrow> call \<Rightarrow> bool" where
  "is_block h (Block h' _ _) \<longleftrightarrow> h' = h"
| "is_block h _ \<longleftrightarrow> False"

lemma only_calls_trans: "only_calls P w y \<Longrightarrow> snd w = snd v @ xs \<Longrightarrow> list_all P xs \<Longrightarrow> only_calls P v y"
  unfolding only_calls_def by fastforce

lemma only_calls_here: "snd w' = snd w \<Longrightarrow> only_calls P w (Inr (r, w'))"
  by (auto simp: only_calls_def)

lemma download_step:
  assumes "(if \<not> off < data_top then ret (Inr (), w)
      else
        let block_size = min ((data_size c + 2 ^ 32 - off) mod 2 ^ 32) wr mod 65536 in
        if length (comp_data c) < off + block_size then Some (Inl Buf_overread)
        else
          let block = take block_size (drop off (comp_data c)) in
          case note_call (Block h block off) (fsm_block_download ops (fst w) h block off) (snd w) of
            (Inl e, w) \<Rightarrow> ret (Inl e, w)
          | (Inr _, w) \<Rightarrow> loop ((off + wr) mod 2 ^ 32) w) = Some y"
  obtains (stop) "\<not> off < data_top" "y = Inr (Inr (), w)"
  | (fault) "off < data_top" "y = Inl Buf_overread"
  | (err) e b d where "off < data_top" "y = Inr (Inl e, d, snd w @ [Block h b off])"
  | (step) b d where "off < data_top" "loop ((off + wr) mod 2 ^ 32) (d, snd w @ [Block h b off]) = Some y"
proof (cases "off < data_top")
  case False
  with assms show thesis by (auto simp: ret_def intro: stop)
next
  case True
  define n where "n = min ((data_size c + 2 ^ 32 - off) mod 2 ^ 32) wr mod 65536"
  define b where "b = take n (drop off (comp_data c))"
  obtain r d where rd: "fsm_block_download ops (fst w) h b off = (r, d)" by fastforce
  have "(if length (comp_data c) < off + n then Some (Inl Buf_overread)
      else case note_call (Block h b off) (fsm_block_download ops (fst w) h b off) (snd w) of
            (Inl e, w) \<Rightarrow> ret (Inl e, w)
          | (Inr _, w) \<Rightarrow> loop ((off + wr) mod 2 ^ 32) w) = Some y"
    using assms True unfolding Let_def n_def [symmetric] b_def [symmetric] by (simp only: not_True_eq_False if_False)
  then show thesis
    using fault [OF True] err [OF True, of _ d b] step [OF True, of d b] rd
    by (cases "length (comp_data c) < off + n"; cases r) (simp_all add: note_call_def ret_def, blast)
qed

lemma download_calls:
  assumes "download ops h c data_top wr off w = Some y"
  shows "only_calls (is_block h) w y \<and> (wr = 0 \<longrightarrow> off < data_top \<longrightarrow> off < 2 ^ 32 \<longrightarrow> (\<forall>w'. y \<noteq> Inr (Inr (), w')))"
  using assms
proof (rule download.raw_induct [where P = "\<lambda>ops h c data_top wr off w y. only_calls (is_block h) w y \<and>
    (wr = 0 \<longrightarrow> off < data_top \<longrightarrow> off < 2 ^ 32 \<longrightarrow> (\<forall>w'. y \<noteq> Inr (Inr (), w')))", rotated], goal_cases)
  case (1 loop ops h c data_top wr off w y)
  from 1(2) show ?case
  proof (cases rule: download_step)
    case (step b d)
    with 1(1) [OF step(2)] show ?thesis by (auto intro: only_calls_trans [where xs = "[Block h b off]"])
  qed (auto simp: only_calls_def)
qed

lemma wait_calls: "state_wait ops h st n w = (r, w') \<Longrightarrow> snd w' = snd w"
proof (induction ops h st n w rule: state_wait.induct)
  case (1 ops h st n d cs)
  from 1(2) show ?case
    by (subst (asm) state_wait.simps)
       (use 1(1) in \<open>fastforce split: prod.splits sum.splits if_splits nat.splits\<close>)
qed

lemma fsm_wait_calls: "mlxfw_fsm_state_wait ops h st w = (r, w') \<Longrightarrow> snd w' = snd w"
  by (auto simp: mlxfw_fsm_state_wait_def dest: wait_calls)

lemma reactivate_calls:
  "mlxfw_fsm_reactivate ops w = (r, w') \<Longrightarrow> \<exists>xs. snd w' = snd w @ xs \<and> (xs = [] \<or> xs = [Reactivate])"
  by (auto simp: mlxfw_fsm_reactivate_def note_call_def split: option.splits sum.splits prod.splits errno.splits if_splits)

text \<open>A component whose data went to the device, every block to its place.\<close>

definition flashed :: "nat \<Rightarrow> mlxfw_mfa2_component \<Rightarrow> call list \<Rightarrow> bool" where
  "flashed h c cs \<longleftrightarrow> (\<exists>bs. cs = Update h (comp_index c) (data_size c) # block_calls h bs @ [Verify h (comp_index c)] \<and>
     concat (map snd bs) = comp_data c \<and> (\<forall>(p, b) \<in> set bs. b = take (length b) (drop p (comp_data c))))"

text \<open>The write size is a 16-bit number, and the shift by the alignment is defined.\<close>

definition dev_ok :: "'d mlxfw_dev_ops \<Rightarrow> bool" where
  "dev_ok ops \<longleftrightarrow> (\<forall>d i mx b wr d'. component_query ops d i = (Inr (mx, b, wr), d') \<longrightarrow> b \<le> 30 \<and> wr < 65536)"

lemma align_down: "2 ^ b dvd MLXFW_ALIGN_DOWN x b" "MLXFW_ALIGN_DOWN x b \<le> x"
  by (simp_all add: MLXFW_ALIGN_DOWN_def)

lemma download_success:
  assumes "download ops h c (MLXFW_ALIGN_UP (data_size c) b) wr 0 w = ret (Inr (), w')"
    and "wr < 65536" "2 ^ b dvd wr" "data_size c \<le> 2 ^ 31" "length (comp_data c) = data_size c" "b \<le> 30"
  shows "\<exists>bs. snd w' = snd w @ block_calls h bs \<and>
     concat (map snd bs) = comp_data c \<and> (\<forall>(p, b) \<in> set bs. b = take (length b) (drop p (comp_data c)))"
proof (cases "wr = 0")
  case True
  have "(2 :: nat) ^ b \<le> 2 ^ 30" using assms(6) by (intro power_increasing) simp_all
  then have top: "0 < MLXFW_ALIGN_UP (data_size c) b \<longleftrightarrow> 0 < data_size c" using assms(4) by (intro align_up) simp_all
  have "\<not> 0 < data_size c"
    using download_calls [of ops h c "MLXFW_ALIGN_UP (data_size c) b" wr 0 w "Inr (Inr (), w')"] assms(1) top True
    by (auto simp: ret_def)
  moreover from this have "w' = w" using assms(1) top by (subst (asm) download.simps) simp
  ultimately show ?thesis using assms(5) by (intro exI [of _ "[]"]) simp
next
  case False
  then obtain r d' k where "download ops h c (MLXFW_ALIGN_UP (data_size c) b) wr 0 (fst w, snd w) =
      ret (r, d', snd w @ take k (block_calls h (chunks wr 0 (drop 0 (comp_data c)))))"
      "r = Inr () \<longrightarrow> k = length (chunks wr 0 (drop 0 (comp_data c)))"
    using download_chunks [of wr b c 0 ops h "fst w" "snd w"] assms by auto
  with assms(1) have "snd w' = snd w @ block_calls h (chunks wr 0 (comp_data c))" by auto
  moreover have "b = take (length b) (drop p (comp_data c))" if "(p, b) \<in> set (chunks wr 0 (comp_data c))" for p b
    using chunks_place [OF that] by (simp add: min_def)
  ultimately show ?thesis using chunks_concat [of wr 0 "comp_data c"] False by blast
qed

section \<open>The whole process\<close>

text \<open>The calls between the lock and the release: those that take a handle take this one. \<open>fsm_reactivate\<close> takes no handle.\<close>

fun under :: "nat \<Rightarrow> call \<Rightarrow> bool" where
  "under h Lock \<longleftrightarrow> False"
| "under h Reactivate \<longleftrightarrow> True"
| "under h (Update h' _ _) \<longleftrightarrow> h' = h"
| "under h (Block h' _ _) \<longleftrightarrow> h' = h"
| "under h (Verify h' _) \<longleftrightarrow> h' = h"
| "under h (Activate h') \<longleftrightarrow> h' = h"
| "under h (Cancel h') \<longleftrightarrow> h' = h"
| "under h (Release h') \<longleftrightarrow> False"

text \<open>The calls of a component: none of them is an activation.\<close>

abbreviation comp_call :: "nat \<Rightarrow> call \<Rightarrow> bool" where "comp_call h c \<equiv> under h c \<and> c \<noteq> Activate h"

lemma block_comp_call: "list_all (is_block h) xs \<Longrightarrow> list_all (comp_call h) xs"
  by (fastforce simp: list_all_iff elim!: is_block.elims)

lemma download_component_calls:
  assumes "download_component ops h c b wr w = ret (r, w')"
  shows "\<exists>xs. snd w' = snd w @ xs \<and> list_all (comp_call h) xs"
proof -
  obtain r1 w1 where w1: "mlxfw_fsm_state_wait ops h MLXFW_FSM_STATE_DOWNLOAD w = (r1, w1)" by (meson surj_pair)
  show ?thesis
  proof (cases r1)
    case (Inl e)
    with assms w1 fsm_wait_calls [OF w1] show ?thesis by (auto simp: download_component_def)
  next
    case (Inr u)
    with assms w1 obtain r2 w2 where d: "download ops h c (MLXFW_ALIGN_UP (data_size c) b) wr 0 w1 = ret (r2, w2)"
      and rest: "(case r2 of Inl e \<Rightarrow> ret (Inl e, w2) | Inr _ \<Rightarrow>
          (case note_call (Verify h (comp_index c)) (fsm_component_verify ops (fst w2) h (comp_index c)) (snd w2) of
             (Inl e, w) \<Rightarrow> ret (Inl e, w)
           | (Inr _, w) \<Rightarrow> ret (mlxfw_fsm_state_wait ops h MLXFW_FSM_STATE_LOCKED w))) = ret (r, w')"
      by (auto simp: download_component_def bnd_ret_eq)
    obtain xs where xs: "snd w2 = snd w @ xs" "list_all (comp_call h) xs"
      using download_calls [OF d [unfolded ret_def]] fsm_wait_calls [OF w1] block_comp_call
      by (cases w2) (auto simp: only_calls_def)
    have "snd w' = snd w2 \<or> snd w' = snd w2 @ [Verify h (comp_index c)]"
      using rest by (auto simp: note_call_def split: sum.splits prod.splits dest: fsm_wait_calls)
    with xs show ?thesis by auto
  qed
qed

lemma flash_component_cases:
  assumes "mlxfw_flash_component ops h c w = ret (r, w')"
  obtains (query) e where "r = Inl e" "snd w' = snd w"
  | (update) e where "r = Inl e" "snd w' = snd w @ [Update h (comp_index c) (data_size c)]"
  | (download) mx b wr d d1 q w2 where "component_query ops (fst w) (comp_index c) = (Inr (mx, b, wr), d)" "data_size c \<le> mx"
      "download_component ops h c b (MLXFW_ALIGN_DOWN wr b) (d1, snd w @ [Update h (comp_index c) (data_size c)]) = ret (q, w2)"
      "(r, w') = cancel ops h (q, w2)"
proof -
  obtain q d where q: "component_query ops (fst w) (comp_index c) = (q, d)" by (meson surj_pair)
  show thesis
  proof (cases q)
    case (Inl e)
    with assms q show thesis by (intro query [of e]) (auto simp: mlxfw_flash_component_def)
  next
    case (Inr t)
    obtain mx b wr where t: "t = (mx, b, wr)" by (metis prod_cases3)
    obtain u d1 where u: "fsm_component_update ops d h (comp_index c) (data_size c) = (u, d1)" by (meson surj_pair)
    show thesis
    proof (cases "mx < data_size c")
      case True
      with assms q Inr t show thesis by (intro query [of EINVAL]) (auto simp: mlxfw_flash_component_def)
    next
      case False
      show thesis
      proof (cases u)
        case (Inl e)
        with False assms q Inr t u show thesis
          by (intro update [of e]) (auto simp: mlxfw_flash_component_def note_call_def)
      next
        case (Inr v)
        with False assms q \<open>q = Inr t\<close> t u
        have "bnd (download_component ops h c b (MLXFW_ALIGN_DOWN wr b) (d1, snd w @ [Update h (comp_index c) (data_size c)]))
            (\<lambda>r. ret (cancel ops h r)) = ret (r, w')"
          by (simp add: mlxfw_flash_component_def note_call_def)
        with q \<open>q = Inr t\<close> t False show thesis
          by (auto simp: bnd_ret_eq intro: download)
      qed
    qed
  qed
qed

lemma cancel_calls: "(r, w') = cancel ops h (q, w) \<Longrightarrow> snd w' = snd w \<and> r = q \<and> r = Inr () \<or> snd w' = snd w @ [Cancel h] \<and> r = q \<and> r \<noteq> Inr ()"
  by (auto simp: cancel_def split: sum.splits prod.splits)

lemma flash_component_calls:
  assumes "mlxfw_flash_component ops h c w = ret (r, w')"
  shows "\<exists>xs. snd w' = snd w @ xs \<and> list_all (comp_call h) xs"
  using assms
proof (cases rule: flash_component_cases)
  case (download mx b wr d d1 q w2)
  from download_component_calls [OF download(3)] obtain xs where
    xs: "snd w2 = snd w @ [Update h (comp_index c) (data_size c)] @ xs" "list_all (comp_call h) xs" by auto
  with cancel_calls [OF download(4)] show ?thesis by (elim disjE conjE) simp_all
qed simp_all

text \<open>A component that is flashed without an error.\<close>

lemma download_component_success:
  assumes "download_component ops h c b wr w = ret (Inr (), w2)"
  obtains w1 v w3 where "mlxfw_fsm_state_wait ops h MLXFW_FSM_STATE_DOWNLOAD w = (Inr (), w1)"
    "download ops h c (MLXFW_ALIGN_UP (data_size c) b) wr 0 w1 = ret (Inr (), v)"
    "note_call (Verify h (comp_index c)) (fsm_component_verify ops (fst v) h (comp_index c)) (snd v) = (Inr (), w3)"
    "mlxfw_fsm_state_wait ops h MLXFW_FSM_STATE_LOCKED w3 = (Inr (), w2)"
proof -
  obtain r1 w1 where w1: "mlxfw_fsm_state_wait ops h MLXFW_FSM_STATE_DOWNLOAD w = (r1, w1)" by (meson surj_pair)
  from assms w1 have r1: "r1 = Inr ()" by (cases r1) (simp_all add: download_component_def)
  with assms w1 obtain r2 v where v: "download ops h c (MLXFW_ALIGN_UP (data_size c) b) wr 0 w1 = ret (r2, v)"
    and rest: "(case r2 of Inl e \<Rightarrow> ret (Inl e, v) | Inr _ \<Rightarrow>
        (case note_call (Verify h (comp_index c)) (fsm_component_verify ops (fst v) h (comp_index c)) (snd v) of
           (Inl e, w) \<Rightarrow> ret (Inl e, w)
         | (Inr _, w) \<Rightarrow> ret (mlxfw_fsm_state_wait ops h MLXFW_FSM_STATE_LOCKED w))) = ret (Inr (), w2)"
    by (auto simp: download_component_def bnd_ret_eq)
  from rest have r2: "r2 = Inr ()" by (cases r2) simp_all
  obtain r3 w3 where w3: "note_call (Verify h (comp_index c)) (fsm_component_verify ops (fst v) h (comp_index c)) (snd v) = (r3, w3)"
    by (meson surj_pair)
  with rest r2 have "r3 = Inr ()" "mlxfw_fsm_state_wait ops h MLXFW_FSM_STATE_LOCKED w3 = (Inr (), w2)" by (cases r3; simp)+
  with w1 r1 v r2 w3 show thesis using that by blast
qed

lemma flash_component_success:
  assumes "mlxfw_flash_component ops h c w = ret (Inr (), w')" and "dev_ok ops"
    and lim: "data_size c \<le> 2 ^ 31" "length (comp_data c) = data_size c"
  shows "\<exists>xs. snd w' = snd w @ xs \<and> flashed h c xs"
  using assms(1)
proof (cases rule: flash_component_cases)
  case (download mx b wr d d1 q w2)
  note ok = cancel_calls [OF download(4)]
  have b: "b \<le> 30" "wr < 65536" using assms(2) download(1) unfolding dev_ok_def by fastforce+
  define wr' where "wr' = MLXFW_ALIGN_DOWN wr b"
  have wr': "wr' < 65536" "2 ^ b dvd wr'" using align_down(1) [of b wr] align_down(2) [of wr b] b unfolding wr'_def by simp_all
  let ?w1 = "(d1, snd w @ [Update h (comp_index c) (data_size c)])"
  obtain w1 v w3 where w1: "mlxfw_fsm_state_wait ops h MLXFW_FSM_STATE_DOWNLOAD ?w1 = (Inr (), w1)"
    and dl: "download ops h c (MLXFW_ALIGN_UP (data_size c) b) wr' 0 w1 = ret (Inr (), v)"
    and w3: "note_call (Verify h (comp_index c)) (fsm_component_verify ops (fst v) h (comp_index c)) (snd v) = (Inr (), w3)"
      "mlxfw_fsm_state_wait ops h MLXFW_FSM_STATE_LOCKED w3 = (q, w2)"
    using download_component_success [of ops h c b wr' ?w1 w2] download(3) ok unfolding wr'_def [symmetric] by (metis Inl_Inr_False)
  obtain bs where "snd v = snd w1 @ block_calls h bs" "concat (map snd bs) = comp_data c"
    "\<forall>(p, b) \<in> set bs. b = take (length b) (drop p (comp_data c))"
    using download_success [OF dl wr' lim b(1)] by blast
  moreover have "snd w' = snd v @ [Verify h (comp_index c)]"
    using ok w3 fsm_wait_calls [OF w3(2)] by (auto simp: note_call_def)
  ultimately show ?thesis using fsm_wait_calls [OF w1] by (auto simp: flashed_def)
qed simp_all

text \<open>The sizes for which the arithmetic of the download does not wrap.\<close>

abbreviation small :: "mlxfw_mfa2_component \<Rightarrow> bool" where "small c \<equiv> data_size c \<le> 2 ^ 31"

text \<open>The decoder writes into the room it is given; then the data of a component has its size.\<close>

definition in_room :: "'x xz_dec_run \<Rightarrow> bool" where
  "in_room run \<longleftrightarrow> (\<forall>x inp p n r out x' p'. run x inp p n = (r, out, x', p') \<longrightarrow> length out \<le> n)"

lemma not_ret: "Some (Inl f) \<noteq> ret x" "None \<noteq> ret x"
  by (simp_all add: ret_def)

lemma length_buf_write: "length out \<le> length buf \<Longrightarrow> length (buf_write out buf) = length buf"
  by (simp add: buf_write_def)

lemma dec_run_room: "in_room run \<Longrightarrow> mlxfw_mfa2_xz_dec_run run x inp p n = (r, out, x', p') \<Longrightarrow> length out \<le> n"
  unfolding mlxfw_mfa2_xz_dec_run_def in_room_def by (fastforce split: prod.splits)

lemma skip_length:
  assumes "xz_skip run inp off sz cur x p buf = Some y"
  shows "in_room run \<longrightarrow> length buf = sz \<longrightarrow> (\<forall>x' p' buf'. y = Inr (x', p', buf') \<longrightarrow> length buf' = sz)"
  using assms
proof (rule xz_skip.raw_induct [where P = "\<lambda>run inp off sz cur x p buf y.
    in_room run \<longrightarrow> length buf = sz \<longrightarrow> (\<forall>x' p' buf'. y = Inr (x', p', buf') \<longrightarrow> length buf' = sz)", rotated], goal_cases)
  case (1 loop run inp off sz cur x p buf y)
  show ?case
  proof (intro impI allI)
    fix x' p' buf'
    assume room: "in_room run" and buf: "length buf = sz" and y: "y = Inr (x', p', buf')"
    obtain r out x1 p1 where run: "mlxfw_mfa2_xz_dec_run run x inp p (min sz (off - cur)) = (r, out, x1, p1)" by (metis prod_cases4)
    have len: "length (buf_write out buf) = sz" using dec_run_room [OF room run] buf by (simp add: length_buf_write)
    show "length buf' = sz"
      using 1(2) run y buf len room 1(1) [of run inp off sz "cur + length out" x1 p1 "buf_write out buf" y]
      by (cases r) (auto simp: Let_def split: if_splits)
  qed
qed

lemma cb_offset_xz_length:
  assumes "mlxfw_mfa2_file_cb_offset_xz xz_dec_init run f off sz buf = Some (Inr buff)" and "in_room run" and "length buf = sz"
  shows "length buff = sz"
proof -
  let ?inp = "take (cb_archive_size f) (drop (cb f) (fw_data (fw f)))"
  obtain x x1 p1 buf1 where skip: "xz_skip run ?inp off sz 0 x 0 buf = Some (Inr (x1, p1, buf1))"
    and last: "(case mlxfw_mfa2_xz_dec_run run x1 ?inp p1 sz of (Inl e, _) \<Rightarrow> Some (Inl e) | (Inr _, out, _) \<Rightarrow> Some (Inr (buf_write out buf1))) =
      Some (Inr buff)"
    using assms(1) by (auto simp: mlxfw_mfa2_file_cb_offset_xz_def Let_def split: option.split_asm sum.split_asm)
  have buf1: "length buf1 = sz" using skip_length [OF skip] assms by simp
  obtain r out x2 p2 where run: "mlxfw_mfa2_xz_dec_run run x1 ?inp p1 sz = (r, out, x2, p2)" by (metis prod_cases4)
  show ?thesis
    using last run buf1 dec_run_room [OF assms(2) run] by (cases r) (auto simp: length_buf_write)
qed

lemma component_get_length:
  assumes "mlxfw_mfa2_file_component_get xz_dec_init run vz f psid i = ret (Inr c)" and "in_room run" and "data_size c + 16 < 2 ^ 32"
  shows "length (comp_data c) = data_size c"
proof -
  obtain off sz ident where "component_read xz_dec_init run f off sz ident = ret (Inr c)"
    using assms(1) by (auto simp: mlxfw_mfa2_file_component_get_def bnd_ret_eq split: option.split_asm if_split_asm)
  then obtain buff where c: "data_size c = sz" "comp_data c = drop 16 buff" and
    buff: "mlxfw_mfa2_file_cb_offset_xz xz_dec_init run f off ((sz + 16) mod 2 ^ 32) (replicate ((sz + 16) mod 2 ^ 32) 0) = Some (Inr buff)"
    by (auto simp: component_read_def Let_def not_ret split: option.split_asm sum.split_asm if_split_asm)
  have "(sz + 16) mod 2 ^ 32 = sz + 16" using assms(3) c by simp
  with cb_offset_xz_length [OF buff assms(2)] c show ?thesis by simp
qed

lemma flash_loop_Suc:
  assumes "flash_loop ops h component_get i (Suc n) w = ret (r, w')"
  obtains (get) e where "r = Inl e" "w' = w"
  | (flash) c e where "component_get i = ret (Inr c)" "mlxfw_flash_component ops h c w = ret (Inl e, w')" "r = Inl e"
  | (more) c w1 where "component_get i = ret (Inr c)" "mlxfw_flash_component ops h c w = ret (Inr (), w1)"
      "flash_loop ops h component_get (i + 1) n w1 = ret (r, w')"
proof -
  from assms obtain q where q: "component_get i = ret q"
    and rest: "(case q of Inl e \<Rightarrow> ret (Inl e, w) | Inr c \<Rightarrow> bnd (mlxfw_flash_component ops h c w) (\<lambda>(r, w). case r of
        Inl e \<Rightarrow> ret (Inl e, w) | Inr _ \<Rightarrow> flash_loop ops h component_get (i + 1) n w)) = ret (r, w')"
    by (auto simp: bnd_ret_eq)
  show thesis
  proof (cases q)
    case (Inl e)
    with rest show thesis by (intro get [of e]) simp_all
  next
    case (Inr c)
    with rest obtain r1 w1 where w1: "mlxfw_flash_component ops h c w = ret (r1, w1)"
      and k: "(case r1 of Inl e \<Rightarrow> ret (Inl e, w1) | Inr _ \<Rightarrow> flash_loop ops h component_get (i + 1) n w1) = ret (r, w')"
      by (auto simp: bnd_ret_eq)
    show thesis
    proof (cases r1)
      case (Inl e)
      with k have "r = Inl e" "w' = w1" by simp_all
      with w1 q Inl \<open>q = Inr c\<close> show thesis by (intro flash [of c e]) simp_all
    next
      case (Inr u)
      with k w1 q \<open>q = Inr c\<close> show thesis by (intro more [of c w1]) simp_all
    qed
  qed
qed

lemma flash_loop_calls:
  "flash_loop ops h component_get i n w = ret (r, w') \<Longrightarrow> \<exists>xs. snd w' = snd w @ xs \<and> list_all (comp_call h) xs"
proof (induction n arbitrary: i w)
  case (Suc n)
  from Suc.prems show ?case
  proof (cases rule: flash_loop_Suc)
    case (more c w1)
    from flash_component_calls [OF more(2)] obtain xs where "snd w1 = snd w @ xs" "list_all (comp_call h) xs" by blast
    moreover from Suc.IH [OF more(3)] obtain ys where "snd w' = snd w1 @ ys" "list_all (comp_call h) ys" by blast
    ultimately show ?thesis by (intro exI [of _ "xs @ ys"]) simp
  qed (auto dest: flash_component_calls)
qed simp

lemma flash_loop_success:
  assumes "dev_ok ops" and len: "\<And>i c. component_get i = ret (Inr c) \<Longrightarrow> small c \<Longrightarrow> length (comp_data c) = data_size c"
  shows "flash_loop ops h component_get i n w = ret (Inr (), w') \<Longrightarrow>
    \<exists>comps traces. length comps = n \<and> (\<forall>k < n. component_get (i + k) = ret (Inr (comps ! k))) \<and>
      list_all2 (\<lambda>c cs. small c \<longrightarrow> flashed h c cs) comps traces \<and> snd w' = snd w @ concat traces"
proof (induction n arbitrary: i w)
  case (Suc n)
  from Suc.prems obtain c w1 where c: "component_get i = ret (Inr c)" and w1: "mlxfw_flash_component ops h c w = ret (Inr (), w1)"
    and k: "flash_loop ops h component_get (i + 1) n w1 = ret (Inr (), w')"
    by (cases rule: flash_loop_Suc) simp_all
  obtain xs where xs: "snd w1 = snd w @ xs" "small c \<longrightarrow> flashed h c xs"
    using flash_component_success [OF w1 assms(1)] flash_component_calls [OF w1] len [OF c] by blast
  from Suc.IH [OF k] obtain comps traces where ih: "length comps = n" "\<forall>k < n. component_get (i + 1 + k) = ret (Inr (comps ! k))"
    "list_all2 (\<lambda>c cs. small c \<longrightarrow> flashed h c cs) comps traces" "snd w' = snd w1 @ concat traces" by blast
  have "component_get (i + k) = ret (Inr ((c # comps) ! k))" if "k < Suc n" for k
    using that c ih(2) by (cases k) auto
  with ih xs show ?case by (intro exI [of _ "c # comps"] exI [of _ "xs # traces"]) simp
qed simp

lemma locked_cases:
  assumes "flash_locked xz_dec_init run vzalloc_ok ops psid h f w = ret (r, w')"
  obtains (early) e react where "r = Inl e" "snd w' = snd w @ react" "react = [] \<or> react = [Reactivate]"
  | (failed) e react w1 w2 where "react = [] \<or> react = [Reactivate]" "snd w1 = snd w @ react" "r = Inl e"
      "mlxfw_flash_components xz_dec_init run vzalloc_ok ops psid h f w1 = ret (Inl e, w2)" "w' = w2"
  | (activated) react w1 w2 where "react = [] \<or> react = [Reactivate]" "snd w1 = snd w @ react"
      "mlxfw_flash_components xz_dec_init run vzalloc_ok ops psid h f w1 = ret (Inr (), w2)" "snd w' = snd w2 @ [Activate h]"
proof -
  obtain r1 w1 where w1: "mlxfw_fsm_state_wait ops h MLXFW_FSM_STATE_LOCKED w = (r1, w1)" by (meson surj_pair)
  obtain r2 w2 where w2: "mlxfw_fsm_reactivate ops w1 = (r2, w2)" by (meson surj_pair)
  obtain r3 w3 where w3: "mlxfw_fsm_state_wait ops h MLXFW_FSM_STATE_LOCKED w2 = (r3, w3)" by (meson surj_pair)
  from reactivate_calls [OF w2] obtain react where react: "snd w2 = snd w1 @ react" "react = [] \<or> react = [Reactivate]" by blast
  note calls = fsm_wait_calls [OF w1] fsm_wait_calls [OF w3] react(1)
  consider e where "r1 = Inl e" | e where "r1 = Inr ()" "r2 = Inl e" | b e where "r1 = Inr ()" "r2 = Inr b" "r3 = Inl e"
    | b where "r1 = Inr ()" "r2 = Inr b" "r3 = Inr ()" by (cases r1; cases r2; cases r3) auto
  then show thesis
  proof cases
    case (4 b)
    with assms w1 w2 w3 obtain q w4 where w4: "mlxfw_flash_components xz_dec_init run vzalloc_ok ops psid h f w3 = ret (q, w4)"
      and rest: "(case q of Inl e \<Rightarrow> ret (Inl e, w4) | Inr _ \<Rightarrow>
        (case note_call (Activate h) (fsm_activate ops (fst w4) h) (snd w4) of
           (Inl e, w) \<Rightarrow> ret (Inl e, w)
         | (Inr _, w) \<Rightarrow> ret (mlxfw_fsm_state_wait ops h MLXFW_FSM_STATE_LOCKED w))) = ret (r, w')"
      by (auto simp: flash_locked_def bnd_ret_eq)
    show thesis
    proof (cases q)
      case (Inl e)
      with rest w4 calls react(2) show thesis by (intro failed [of react w3 e w4]) simp_all
    next
      case (Inr u)
      obtain a d where a: "fsm_activate ops (fst w4) h = (a, d)" by (meson surj_pair)
      have "snd w' = snd w4 @ [Activate h]"
        using rest Inr a by (cases a) (auto simp: note_call_def dest: fsm_wait_calls)
      with w4 Inr calls react(2) show thesis by (intro activated [of react w3 w4]) simp_all
    qed
  qed (use assms w1 w2 w3 calls react early [of _ "[]"] early [of _ react] in \<open>auto simp: flash_locked_def\<close>)
qed

lemma components_calls:
  assumes "mlxfw_flash_components xz_dec_init run vzalloc_ok ops psid h f w = ret (r, w')"
  shows "\<exists>xs. snd w' = snd w @ xs \<and> list_all (comp_call h) xs"
proof -
  from assms obtain q where "mlxfw_mfa2_file_component_count f psid = ret q" and
    "(case q of Inl e \<Rightarrow> ret (Inl e, w)
      | Inr n \<Rightarrow> flash_loop ops h (\<lambda>i. mlxfw_mfa2_file_component_get xz_dec_init run (vzalloc_ok i) f psid i) 0 n w) = ret (r, w')"
    by (auto simp: mlxfw_flash_components_def bnd_ret_eq)
  then show ?thesis by (cases q) (auto dest: flash_loop_calls)
qed

lemma components_success:
  assumes "mlxfw_flash_components xz_dec_init run vzalloc_ok ops psid h f w = ret (Inr (), w')" and "dev_ok ops" "in_room run"
  shows "\<exists>comps traces. mlxfw_mfa2_file_component_count f psid = ret (Inr (length comps)) \<and>
    (\<forall>i < length comps. mlxfw_mfa2_file_component_get xz_dec_init run (vzalloc_ok i) f psid i = ret (Inr (comps ! i))) \<and>
    list_all2 (\<lambda>c cs. small c \<longrightarrow> flashed h c cs) comps traces \<and> snd w' = snd w @ concat traces"
proof -
  from assms(1) obtain q where q: "mlxfw_mfa2_file_component_count f psid = ret q" and
    rest: "(case q of Inl e \<Rightarrow> ret (Inl e, w)
      | Inr n \<Rightarrow> flash_loop ops h (\<lambda>i. mlxfw_mfa2_file_component_get xz_dec_init run (vzalloc_ok i) f psid i) 0 n w) = ret (Inr (), w')"
    by (auto simp: mlxfw_flash_components_def bnd_ret_eq)
  then obtain n where n: "q = Inr n"
    "flash_loop ops h (\<lambda>i. mlxfw_mfa2_file_component_get xz_dec_init run (vzalloc_ok i) f psid i) 0 n w = ret (Inr (), w')"
    by (cases q) auto
  have len: "length (comp_data c) = data_size c"
    if "mlxfw_mfa2_file_component_get xz_dec_init run (vzalloc_ok i) f psid i = ret (Inr c)" "small c" for i c
    using component_get_length [OF that(1) assms(3)] that(2) by simp
  have "\<exists>comps traces. length comps = n \<and>
      (\<forall>k < n. mlxfw_mfa2_file_component_get xz_dec_init run (vzalloc_ok (0 + k)) f psid (0 + k) = ret (Inr (comps ! k))) \<and>
      list_all2 (\<lambda>c cs. small c \<longrightarrow> flashed h c cs) comps traces \<and> snd w' = snd w @ concat traces"
    by (rule flash_loop_success [OF assms(2) _ n(2)]) (rule len)
  with q n(1) show ?thesis by auto
qed

lemma flash_cases:
  assumes "mlxfw_firmware_flash xz_dec_init run kzalloc_ok vzalloc_ok ops psid firmware (d, []) = ret (r, d', cs)"
  obtains (unlocked) e where "r = Inl e" "cs = [] \<or> cs = [Lock]"
  | (locked) f h d1 d2 xs where "mlxfw_mfa2_file_init kzalloc_ok firmware = ret (Inr f)"
      "flash_locked xz_dec_init run vzalloc_ok ops psid h f (d1, [Lock]) = ret (r, d2, xs)" "cs = xs @ [Release h]"
proof (cases "mlxfw_mfa2_check firmware")
  case False
  with assms show thesis by (intro unlocked [of EINVAL]) (auto simp: mlxfw_firmware_flash_def)
next
  case True
  with assms obtain q where q: "mlxfw_mfa2_file_init kzalloc_ok firmware = ret q" and
    rest: "(case q of Inl e \<Rightarrow> ret (Inl e, d, []) | Inr f \<Rightarrow>
        (case note_call Lock (fsm_lock ops d) [] of
           (Inl e, w) \<Rightarrow> ret (Inl e, w)
         | (Inr fwhandle, w) \<Rightarrow> bnd (flash_locked xz_dec_init run vzalloc_ok ops psid fwhandle f w) (\<lambda>(r, d, cs).
             ret (r, fsm_release ops d fwhandle, cs @ [Release fwhandle])))) = ret (r, d', cs)"
    by (auto simp: mlxfw_firmware_flash_def bnd_ret_eq)
  obtain l d1 where l: "fsm_lock ops d = (l, d1)" by (meson surj_pair)
  show thesis
  proof (cases q)
    case (Inl e)
    with rest show thesis by (intro unlocked [of e]) auto
  next
    case (Inr f)
    show thesis
    proof (cases l)
      case (Inl e)
      with rest l \<open>q = Inr f\<close> show thesis by (intro unlocked [of e]) (auto simp: note_call_def)
    next
      case (Inr h)
      with rest l \<open>q = Inr f\<close> obtain d2 xs where
        "flash_locked xz_dec_init run vzalloc_ok ops psid h f (d1, [Lock]) = ret (r, d2, xs)" "cs = xs @ [Release h]"
        by (auto simp: note_call_def bnd_ret_eq)
      with q \<open>q = Inr f\<close> show thesis by (intro locked [of f h d1 d2 xs]) simp_all
    qed
  qed
qed































section \<open>Properties of the flash process\<close>


text \<open>
  A write size below the alignment makes the step of the download 0. Then a device that accepts empty blocks gets them forever, and the
  lock is never released.\<close>

theorem download_stuck:
  assumes "\<And>d b. \<exists>d'. fsm_block_download ops d h b off = (Inr (), d')" "off < data_top" "off < 2 ^ 32" "off \<le> length (comp_data c)"
  shows "download ops h c data_top 0 off w = None"
proof -
  have False if "download ops h c data_top 0 off w = Some y" for y
  proof -
    have "\<not> (ops' = ops \<and> h' = h \<and> c' = c \<and> top' = data_top \<and> wr = 0 \<and> off' = off)"
      if "download ops' h' c' top' wr off' w' = Some y'" for ops' h' c' top' wr off' w' y'
      using that
    proof (rule download.raw_induct [where P = "\<lambda>ops' h' c' top' wr off' w' y'.
        \<not> (ops' = ops \<and> h' = h \<and> c' = c \<and> top' = data_top \<and> wr = 0 \<and> off' = off)", rotated], goal_cases)
      case (1 loop ops' h' c' top' wr off' w' y')
      show ?case
      proof
        assume eq: "ops' = ops \<and> h' = h \<and> c' = c \<and> top' = data_top \<and> wr = 0 \<and> off' = off"
        obtain d' where "fsm_block_download ops (fst w') h [] off = (Inr (), d')" using assms(1) by blast
        with 1(2) eq assms(2-) have "loop ops h c data_top 0 off (d', snd w' @ [Block h [] off]) = Some y'"
          by (simp add: note_call_def)
        with 1(1) show False by blast
      qed
    qed
    with that show False by blast
  qed
  then show ?thesis by fastforce
qed

text \<open>
  For a component whose size is within the alignment of 4 GiB, \<open>MLXFW_ALIGN_UP\<close> is 0: the download sends nothing and succeeds.\<close>

theorem download_wraps:
  assumes "2 ^ 32 < data_size c + 2 ^ b" "data_size c < 2 ^ 32" "b \<le> 30"
  shows "download ops h c (MLXFW_ALIGN_UP (data_size c) b) wr 0 w = ret (Inr (), w)"
proof -
  have b: "(2 :: nat) ^ b \<le> 2 ^ 30" using assms(3) by (intro power_increasing) simp_all
  have "(data_size c + (2 ^ b - 1)) mod 2 ^ 32 = data_size c + (2 ^ b - 1) - 2 ^ 32"
    using assms b by (subst le_mod_geq) simp_all
  moreover have "data_size c + (2 ^ b - 1) - 2 ^ 32 < 2 ^ b" using assms by simp
  ultimately have "MLXFW_ALIGN_UP (data_size c) b = 0" by (simp add: MLXFW_ALIGN_UP_def MLXFW_ALIGN_DOWN_def)
  then show ?thesis by (subst download.simps) simp
qed

text \<open>
  C13. When the image was activated or the process reports success, every component of the package for this device was read, and every one of at
  most 2 GiB went to the device in full, every block to its place, and was then verified; the activation comes after all of them.\<close>

theorem flash_complete:
  assumes "in_room run" and "dev_ok ops"
    and "mlxfw_firmware_flash xz_dec_init run kzalloc_ok vzalloc_ok ops psid firmware (d, []) = ret (r, d', cs)"
    and "r = Inr () \<or> Activate h' \<in> set cs"
  shows "\<exists>f h react comps traces. mlxfw_mfa2_file_init kzalloc_ok firmware = ret (Inr f) \<and>
    mlxfw_mfa2_file_component_count f psid = ret (Inr (length comps)) \<and>
    (\<forall>i < length comps. mlxfw_mfa2_file_component_get xz_dec_init run (vzalloc_ok i) f psid i = ret (Inr (comps ! i))) \<and>
    list_all2 (\<lambda>c cs. data_size c \<le> 2 ^ 31 \<longrightarrow> flashed h c cs) comps traces \<and> (react = [] \<or> react = [Reactivate]) \<and>
    cs = Lock # react @ concat traces @ [Activate h, Release h]"
  using assms(3)
proof (cases rule: flash_cases)
  case (unlocked e)
  with assms(4) show ?thesis by auto
next
  case (locked f h d1 d2 xs)
  from locked(2) show ?thesis
  proof (cases rule: locked_cases)
    case (early e react)
    with assms(4) locked(3) show ?thesis by auto
  next
    case (failed e react w1 w2)
    from components_calls [OF failed(4)] failed have "Activate h' \<notin> set xs" by (fastforce simp: list_all_iff)
    with failed(3) locked(3) assms(4) show ?thesis by simp
  next
    case (activated react w1 w2)
    from components_success [OF activated(3) assms(2,1)] activated locked(1,3) show ?thesis
      by (intro exI [of _ f] exI [of _ h] exI [of _ react]) auto
  qed
qed

section \<open>Examples of the flash process\<close>

text \<open>A device whose state is the state of its state machine, with blocks of at most three bytes, aligned to one.\<close>

definition ex_dev :: "nat mlxfw_dev_ops" where
  "ex_dev = \<lparr>component_query = (\<lambda>d i. (Inr (100, 0, 3), d)), fsm_lock = (\<lambda>d. (Inr 5, 1)),
     fsm_component_update = (\<lambda>d h i n. (Inr (), 3)), fsm_block_download = (\<lambda>d h b p. (Inr (), d)),
     fsm_component_verify = (\<lambda>d h i. (Inr (), 1)), fsm_activate = (\<lambda>d h. (Inr (), 1)), fsm_reactivate = None,
     fsm_query_state = (\<lambda>d h. (Inr (d, 0), d)), fsm_cancel = (\<lambda>d h. 1), fsm_release = (\<lambda>d h. 0)\<rparr>"

lemma ex_dev_ok: "dev_ok ex_dev"
  by (simp add: dev_ok_def ex_dev_def)

lemma stored_in_room: "in_room stored_run"
  by (auto simp: in_room_def stored_run_def)

definition ex_comp :: mlxfw_mfa2_component where "ex_comp = \<lparr>comp_index = 7, data_size = 4, comp_data = [1, 2, 3, 4]\<rparr>"

lemma ex_count: "mlxfw_mfa2_file_component_count (ex_file a) [65, 66] = ret (Inr 1)"
  by (simp add: ex_file_def mlxfw_mfa2_file_component_count_def mlxfw_mfa2_tlv_dev_get_def parse_defs tlv_foreach.simps rd_bytes_2)

lemma ex_get: "mlxfw_mfa2_file_component_get (Some ()) stored_run True (ex_file 20) [65, 66] 0 = ret (Inr ex_comp)"
proof -
  have c: "take (cb_archive_size (ex_file 20)) (drop (cb (ex_file 20)) (fw_data (fw (ex_file 20)))) = mlxfw_mfa2_comp_magic @ [1, 2, 3, 4]"
    by (simp add: ex_file_def ex_package_def)
  have "component_read (Some ()) stored_run (ex_file 20) 0 4 7 = ret (Inr ex_comp)"
    by (simp add: component_read_def mlxfw_mfa2_file_cb_offset_xz_def c xz_skip.simps mlxfw_mfa2_xz_dec_run_def stored_run_def xz_status_def
        buf_write_def ex_comp_def)
  then show ?thesis by (simp add: mlxfw_mfa2_file_component_get_def ex_find ex_cdesc)
qed

lemma ex_wait: "mlxfw_fsm_state_wait ex_dev h st (st, cs) = (Inr (), st, cs)"
  by (simp add: mlxfw_fsm_state_wait_def state_wait.simps ex_dev_def)

lemma ex_download: "download ex_dev h ex_comp 4 3 0 (d, cs) = ret (Inr (), d, cs @ [Block h [1, 2, 3] 0, Block h [4] 3])"
  by (subst download.simps, simp add: ex_dev_def ex_comp_def note_call_def, subst download.simps,
      simp add: note_call_def, subst download.simps, simp)

lemma ex_dev_simps:
  "component_query ex_dev d i = (Inr (100, 0, 3), d)" "fsm_lock ex_dev d = (Inr 5, 1)" "fsm_component_update ex_dev d h i n = (Inr (), 3)"
  "fsm_component_verify ex_dev d h i = (Inr (), 1)" "fsm_activate ex_dev d h = (Inr (), 1)" "fsm_reactivate ex_dev = None"
  "fsm_release ex_dev d h = 0"
  by (simp_all add: ex_dev_def)

lemma ex_waits:
  "mlxfw_fsm_state_wait ex_dev h MLXFW_FSM_STATE_LOCKED (1, cs) = (Inr (), 1, cs)"
  "mlxfw_fsm_state_wait ex_dev h MLXFW_FSM_STATE_DOWNLOAD (3, cs) = (Inr (), 3, cs)"
  using ex_wait [of h 1] ex_wait [of h 3] by (simp_all add: MLXFW_FSM_STATE_LOCKED_def MLXFW_FSM_STATE_DOWNLOAD_def)

lemma ex_flash_component:
  "mlxfw_flash_component ex_dev 5 ex_comp (1, cs) = ret (Inr (), 1, cs @ [Update 5 7 4, Block 5 [1, 2, 3] 0, Block 5 [4] 3, Verify 5 7])"
proof -
  have "comp_index ex_comp = 7" "data_size ex_comp = 4" "MLXFW_ALIGN_UP 4 0 = 4" "MLXFW_ALIGN_DOWN 3 0 = 3"
    by (simp_all add: ex_comp_def MLXFW_ALIGN_UP_def MLXFW_ALIGN_DOWN_def)
  then show ?thesis
    by (simp add: mlxfw_flash_component_def ex_dev_simps note_call_def download_component_def ex_waits [simplified] ex_waits ex_download cancel_def)
qed

lemma ex_flash:
  "mlxfw_firmware_flash (Some ()) stored_run True (\<lambda>_. True) ex_dev [65, 66] (ex_package 20) (0, []) =
     ret (Inr (), 0, [Lock, Update 5 7 4, Block 5 [1, 2, 3] 0, Block 5 [4] 3, Verify 5 7, Activate 5, Release 5])"
proof -
  have "mlxfw_mfa2_check (ex_package 20)" by (simp add: mlxfw_mfa2_check_def) (simp add: ex_package_def)
  then show ?thesis
    using ex_flash_component [of "[Lock]"] ex_count [of 20] ex_get
    by (simp add: mlxfw_firmware_flash_def ex_init ex_dev_simps note_call_def flash_locked_def mlxfw_fsm_reactivate_def ex_waits [simplified]
        ex_waits mlxfw_flash_components_def)
qed






theorem flash_complete_witness:
  "\<exists>f h react traces. mlxfw_mfa2_file_init True (ex_package 20) = ret (Inr f) \<and> list_all2 (flashed h) [ex_comp] traces \<and>
    [Lock, Update 5 7 4, Block 5 [1, 2, 3] 0, Block 5 [4] 3, Verify 5 7, Activate 5, Release 5] =
      Lock # react @ concat traces @ [Activate h, Release h]"
proof -
  obtain f h react comps traces where f: "mlxfw_mfa2_file_init True (ex_package 20) = ret (Inr f)"
    and n: "mlxfw_mfa2_file_component_count f [65, 66] = ret (Inr (length comps))"
    and get: "\<forall>i < length comps. mlxfw_mfa2_file_component_get (Some ()) stored_run True f [65, 66] i = ret (Inr (comps ! i))"
    and fl: "list_all2 (\<lambda>c cs. data_size c \<le> 2 ^ 31 \<longrightarrow> flashed h c cs) comps traces"
    and cs: "[Lock, Update 5 7 4, Block 5 [1, 2, 3] 0, Block 5 [4] 3, Verify 5 7, Activate 5, Release 5] =
      Lock # react @ concat traces @ [Activate h, Release h]"
    by (rule exE [OF flash_complete [OF stored_in_room ex_dev_ok ex_flash disjI1 [OF refl]]], elim exE conjE) (rule that)
  have "f = ex_file 20" using f ex_init by simp
  then have "length comps = 1" using n ex_count [of 20] by simp
  moreover from this have "comps ! 0 = ex_comp" using get ex_get \<open>f = ex_file 20\<close> by simp
  ultimately have "comps = [ex_comp]" by (cases comps) simp_all
  with fl have "list_all2 (flashed h) [ex_comp] traces" by (simp add: list_all2_Cons1 ex_comp_def)
  with f cs show ?thesis by blast
qed

end
