(* ===== verification/Spec2Isabelle.thy ===== *)
theory Spec2Isabelle
  imports Dr_Buddy Ft_Pool Smi Rate_Limit Mpfs Qp_State Verbs_Tables Ud_Header Rmpp_Send Page_Alloc Port_Tun Cmd_Slots Peer_Mem Mlxfw_Fsm
begin

text \<open>
  A verification development for the MLNX_OFED kernel sources: the InfiniBand core, the drivers of the ConnectX
  devices (\<open>mlx5\<close>) and the protocols on top of them. All paths are below \<open>src/\<close>.

  \<^bold>\<open>The program.\<close>
  The driver core (\<open>drivers/net/ethernet/mellanox/mlx5/core\<close>) talks to the firmware through a queue of commands. It lends
  the firmware the pages that the firmware asks for, and keeps the tables that several clients share: sizes of flow tables,
  rate limits, MAC addresses of the physical functions, ranges of device memory for software steering, the port's
  setting for tunnel headers. The InfiniBand core (\<open>drivers/infiniband/core\<close>) has the verbs (queue-pair states, rates and names, iteration
  over blocks of memory), the management datagrams with directed routes and multi-packet messages, the wire format
  of headers, and the pinning of user memory. The RDMA driver (\<open>drivers/infiniband/hw/mlx5\<close>) builds memory regions and queues on top of both.
  A library (\<open>drivers/net/ethernet/mellanox/mlxfw\<close>) writes firmware packages to the devices.

  \<^bold>\<open>How the theories correspond to the code.\<close>
  \<^item> \<open>Mlx_Prelude\<close>: machine types, error numbers, accesses inside the bounds of an array, reachable states and the locale
    \<open>invariant_system\<close>, which every state machine below interprets.
  \<^item> \<open>Refcount\<close>: the contract \<open>refcounted\<close> of a table of shared entries, with its clients' runs.
    \<open>Rate_Limit\<close> (\<open>mlx5/core/rl.c\<close>) and \<open>Mpfs\<close> (\<open>mlx5/core/lib/mpfs.c\<close>) interpret it.
  \<^item> \<open>Dr_Buddy\<close>: \<open>mlx5/core/steering/dr_buddy.c\<close>, the allocator itself; the contract \<open>range_allocator\<close> and its refinement.
  \<^item> \<open>Ft_Pool\<close>: \<open>mlx5/core/fs_ft_pool.c\<close> and the flow-table commands of \<open>fs_cmd.c\<close>, over the contract \<open>size_pool\<close>.
  \<^item> \<open>Page_Alloc\<close>: \<open>mlx5/core/pagealloc.c\<close>, the pages lent to the firmware and their way back.
  \<^item> \<open>Port_Tun\<close>: \<open>mlx5/core/lib/port_tun.c\<close> and the attaching of encapsulation entries in \<open>en/rep/tc.c\<close>.
  \<^item> \<open>Cmd_Tables\<close>, \<open>Cmd_Msg\<close>, \<open>Cmd_Slots\<close>: \<open>mlx5/core/cmd.c\<close>. The tables of opcodes and status values; the messages with their
    mailboxes, caches, signatures and the sequence of \<open>cmd_exec\<close>; the queue with its slots, time-outs, event handlers and
    the recovery after a failure of the device.
  \<^item> \<open>Qp_State\<close>, \<open>Verbs_Tables\<close>: \<open>drivers/infiniband/core/verbs.c\<close>, the transition table of queue pairs and the conversions.
  \<^item> \<open>Smi\<close>: \<open>drivers/infiniband/core/smi.c\<close>, \<open>opa_smi.h\<close> and the parts of \<open>mad.c\<close> that route directed-route packets, once for both packet
    formats in the locale \<open>dr_format\<close>.
  \<^item> \<open>Ib_Packer\<close>, \<open>Ud_Header\<close>: \<open>drivers/infiniband/core/packer.c\<close> and \<open>ud_header.c\<close>.
  \<^item> \<open>Rmpp_Recv\<close>, \<open>Rmpp_Send\<close>: \<open>drivers/infiniband/core/mad_rmpp.c\<close> and the segment lists of \<open>mad.c\<close>; the locale \<open>message_source\<close> connects sender and
    receiver.
  \<^item> \<open>Umem\<close>, \<open>Umem_Pin\<close>: \<open>drivers/infiniband/core/umem.c\<close>, \<open>include/rdma/ib_umem.h\<close>, the block iterator of \<open>verbs.c\<close>, and
    \<open>drivers/infiniband/hw/mlx5/mem.c\<close>.
  \<^item> \<open>Peer_Mem\<close>: \<open>drivers/infiniband/core/peer_mem.c\<close> and \<open>ib_peer_mem.h\<close>, memory that belongs to another driver. The owner of a region, the
    invalidations that the other driver starts and its removal are steps of one relation.
  \<^item> \<open>Mfa2\<close>: \<open>drivers/net/ethernet/mellanox/mlxfw/mlxfw_mfa2.c\<close>, \<open>mlxfw_mfa2_tlv_multi.c\<close> and their headers, the parser of firmware packages.
  \<^item> \<open>Mlxfw_Fsm\<close>: \<open>mlxfw_fsm.c\<close>, the flash process that reads a package with \<open>Mfa2\<close> and sends its components to a device.

  A struct is a record, an enum a datatype, an integer of the code a word of its width unless the theory says otherwise, an
  error return a value. Functions that the kernel or the firmware provides are arguments. Where several threads meet,
  the steps of all threads are the rules of an inductive relation. How much one step does differs. In \<open>Peer_Mem\<close> it is what the code does
  under one lock, or one access outside of locks. The operations of \<open>Rate_Limit\<close>, \<open>Mpfs\<close> and \<open>Port_Tun\<close> are one step each, as the code runs them under one mutex. In \<open>Cmd_Slots\<close> and
  \<open>Rmpp_Recv\<close> a step is a whole handler, or the part of one up to the point where it waits, although the code holds no single lock over it: what
  these theories show is about handlers that run one after the other. Both have a theorem about an overlap that goes wrong (\<open>cmd_submit_race\<close>, \<open>rmpp_timeout_race\<close>). The other theories
  have sequences of whole operations.

  \<^bold>\<open>What is shown.\<close>
  \<^item> Allocators and tables: over every run of clients, held ranges, pages, sizes, entries are disjoint, counted and given back;
    freeing everything restores the initial state; no access leaves an array or uses a freed object.
  \<^item> Command interface: when handlers do not overlap and no triggered completion meets a command that lost the device's reference at its
    time-out, commands in flight have slots of their own, and the only handler that touches a freed entry is the worker of a command with a
    callback that gets no slot in time. A completed command returns what the device wrote; every synchronous command frees its messages. The
    faults of the code in the paths for time-outs and failures are derived as theorems.
  \<^item> Protocols: a directed-route request comes back along its path, a multi-packet message that is delivered is the message that
    was sent although the network loses, repeats and reorders, and every received buffer is held, freed or delivered exactly once as long as the
    handlers of an agent do not overlap.
  \<^item> Formats: packing and unpacking are inverse for tables without fields of 33 to 64 bits behind the first word, where the code reads from
    another place than it writes; the accepted modifications of queue pairs are those of the state diagram.
  \<^item> Tunnels: GRE and VXLAN are not attached together on a port whose register is readable and has one entropy control; when the register
    cannot be read they are.
  \<^item> User memory: the page size that the mask arithmetic finds is the largest that a direct search finds, the list of blocks
    translates every byte of the region, and pinning is balanced on every error path. Regions of another driver's memory are given back
    completely. If the other driver keeps its side of the contract, no interleaving with invalidations uses a freed one, and the only
    operation that goes wrong is the stop of a region without invalidation, which unlocks a mutex that is not held. Two faults of the code in the
    remaining cases are derived.
  \<^item> Firmware: reading a package stays within the package and four bytes behind it. It ends unless a record with 65536 children has one that is
    followed by itself, and a package of 70 bytes on which it never ends is given. A component that lies in the content of the archive comes out as it was packed. An
    image is activated only when all its components of at most 2 GiB were sent in full and verified, with a decoder that stays in its room; a
    flash that returns has released the lock of the device, and it returns when the device's blocks are at least as large as its alignment and the
    package and the decoder are well behaved. Larger components and smaller blocks go wrong (\<open>download_wraps\<close>, \<open>download_stuck\<close>).

  \<^bold>\<open>Bounds and fuel.\<close>
  Loops are structural recursion or come with a measure. Where a loop of the code may run forever the model says so: \<open>pin_loop\<close> of \<open>Umem_Pin\<close>
  and \<open>quantize\<close> have the value \<open>None\<close> there, and theorems show when it does not happen; so do the loops over records and the decompression of \<open>Mfa2\<close> and the download of
  \<open>Mlxfw_Fsm\<close>, defined by \<open>partial_function\<close>; \<open>mlx5_cmd_flush\<close> and the reclaim loop of
  \<open>Page_Alloc\<close> take fuel, with theorems about how much is enough or that none is. \<open>Umem.umem_blocks_cover\<close> is for page sizes below 4 GiB, as
  the lengths of scatter-gather entries are.

  \<^bold>\<open>Assumptions on steps.\<close>
  \<open>Cmd_Slots\<close> covers the mode with events, not the polling mode, and lets a caller time out only after its command was
  submitted; a failed device answers no command; one triggered completion runs at a time. \<open>Peer_Mem\<close> has one region and one client. Memory is sequentially consistent.

  \<^bold>\<open>Not modelled.\<close>
  The network and storage data paths (\<open>en_*.c\<close>, IPoIB, iSER, SRP, NVMe) are glue between device descriptors and kernel frameworks outside the
  repository. The flow-steering core, the connection managers and the user-space interface are large concurrent machines whose
  behaviour rests on many of those frameworks. Register dumps and the compatibility layer are generated or copied.
\<close>

end
